(* ===== verification/Ngx_Prelude.thy ===== *)
theory Ngx_Prelude
  imports Main "HOL-Library.Word" "HOL-Library.Monad_Syntax"
begin

text \<open>
  Shared vocabulary of the development: the C types of the program as HOL types, the
  characters its tables and switches name, the return codes of \<^verbatim>\<open>ngx_core.h\<close>, memory reads
  and signed arithmetic with undefined behaviour made explicit, and the generic lemmas on
  bytes, digits and lists the components share.

  A byte (\<^verbatim>\<open>u_char\<close>) is an 8-bit word. A pointer into a readable region is either the
  list of the bytes from it to the end of the region (code that only moves forward) or an
  index into the list of the whole region (code that looks back). Undefined behaviour, that
  is a read outside the region or a signed overflow, is the value \<open>None\<close>; a theorem that a
  function returns \<open>Some\<close> therefore also says that it is free of it.
\<close>

unbundle bit_operations_syntax

type_synonym u_char = "8 word"
type_synonym bytes = "u_char list"
type_synonym u32 = "32 word"
type_synonym u64 = "64 word"

named_theorems ub_simps "rewrite rules for reads and checked arithmetic"
named_theorems byte_simps "unfolding of the character classes"

section \<open>Characters and return codes\<close>

abbreviation CR :: u_char where "CR \<equiv> 0x0D"
abbreviation LF :: u_char where "LF \<equiv> 0x0A"
abbreviation ch_tab :: u_char where "ch_tab \<equiv> 0x09"
abbreviation ch_sp :: u_char where "ch_sp \<equiv> 0x20"
abbreviation ch_bang :: u_char where "ch_bang \<equiv> 0x21"
abbreviation ch_dquote :: u_char where "ch_dquote \<equiv> 0x22"
abbreviation ch_hash :: u_char where "ch_hash \<equiv> 0x23"
abbreviation ch_dollar :: u_char where "ch_dollar \<equiv> 0x24"
abbreviation ch_percent :: u_char where "ch_percent \<equiv> 0x25"
abbreviation ch_amp :: u_char where "ch_amp \<equiv> 0x26"
abbreviation ch_squote :: u_char where "ch_squote \<equiv> 0x27"
abbreviation ch_lparen :: u_char where "ch_lparen \<equiv> 0x28"
abbreviation ch_rparen :: u_char where "ch_rparen \<equiv> 0x29"
abbreviation ch_star :: u_char where "ch_star \<equiv> 0x2A"
abbreviation ch_plus :: u_char where "ch_plus \<equiv> 0x2B"
abbreviation ch_comma :: u_char where "ch_comma \<equiv> 0x2C"
abbreviation ch_minus :: u_char where "ch_minus \<equiv> 0x2D"
abbreviation ch_dot :: u_char where "ch_dot \<equiv> 0x2E"
abbreviation ch_slash :: u_char where "ch_slash \<equiv> 0x2F"
abbreviation ch_0 :: u_char where "ch_0 \<equiv> 0x30"
abbreviation ch_1 :: u_char where "ch_1 \<equiv> 0x31"
abbreviation ch_9 :: u_char where "ch_9 \<equiv> 0x39"
abbreviation ch_colon :: u_char where "ch_colon \<equiv> 0x3A"
abbreviation ch_semi :: u_char where "ch_semi \<equiv> 0x3B"
abbreviation ch_lt :: u_char where "ch_lt \<equiv> 0x3C"
abbreviation ch_eq :: u_char where "ch_eq \<equiv> 0x3D"
abbreviation ch_gt :: u_char where "ch_gt \<equiv> 0x3E"
abbreviation ch_quest :: u_char where "ch_quest \<equiv> 0x3F"
abbreviation ch_A :: u_char where "ch_A \<equiv> 0x41"
abbreviation ch_Z :: u_char where "ch_Z \<equiv> 0x5A"
abbreviation ch_lbrack :: u_char where "ch_lbrack \<equiv> 0x5B"
abbreviation ch_bslash :: u_char where "ch_bslash \<equiv> 0x5C"
abbreviation ch_rbrack :: u_char where "ch_rbrack \<equiv> 0x5D"
abbreviation ch_under :: u_char where "ch_under \<equiv> 0x5F"
abbreviation ch_a :: u_char where "ch_a \<equiv> 0x61"
abbreviation ch_f :: u_char where "ch_f \<equiv> 0x66"
abbreviation ch_z :: u_char where "ch_z \<equiv> 0x7A"
abbreviation ch_tilde :: u_char where "ch_tilde \<equiv> 0x7E"

definition bytes_of :: "string \<Rightarrow> bytes" where
  "bytes_of s = map of_char s"

text \<open>Return codes (\<^verbatim>\<open>ngx_core.h\<close>).\<close>

definition NGX_OK :: int where "NGX_OK = 0"
definition NGX_ERROR :: int where "NGX_ERROR = -1"
definition NGX_AGAIN :: int where "NGX_AGAIN = -2"
definition NGX_BUSY :: int where "NGX_BUSY = -3"
definition NGX_DONE :: int where "NGX_DONE = -4"
definition NGX_DECLINED :: int where "NGX_DECLINED = -5"

lemmas rc_defs = NGX_OK_def NGX_ERROR_def NGX_AGAIN_def NGX_BUSY_def NGX_DONE_def NGX_DECLINED_def

text \<open>
  The limits of the configured platform (\<^verbatim>\<open>objs/ngx_auto_config.h\<close>, \<^verbatim>\<open>ngx_config.h\<close>):
  \<^verbatim>\<open>ngx_int_t\<close>, \<^verbatim>\<open>ssize_t\<close>, \<^verbatim>\<open>off_t\<close> and \<^verbatim>\<open>time_t\<close> all have 64 bits.
\<close>

definition NGX_MAX_INT_T_VALUE :: int where
  "NGX_MAX_INT_T_VALUE = 9223372036854775807"

definition NGX_MAX_SIZE_T_VALUE :: int where
  "NGX_MAX_SIZE_T_VALUE = 9223372036854775807"

definition NGX_MAX_OFF_T_VALUE :: int where
  "NGX_MAX_OFF_T_VALUE = 9223372036854775807"

definition NGX_MAX_TIME_T_VALUE :: int where
  "NGX_MAX_TIME_T_VALUE = 9223372036854775807"

lemmas max_defs = NGX_MAX_INT_T_VALUE_def NGX_MAX_SIZE_T_VALUE_def
  NGX_MAX_OFF_T_VALUE_def NGX_MAX_TIME_T_VALUE_def

section \<open>Undefined behaviour as None\<close>

text \<open>A read of one element of a region.\<close>

definition rd :: "'a list \<Rightarrow> nat \<Rightarrow> 'a option" where
  "rd m i = (if i < length m then Some (m ! i) else None)"

text \<open>The result of a signed 64-bit operation: undefined when it overflows.\<close>

definition s64 :: "int \<Rightarrow> int option" where
  "s64 x = (if - (2 ^ 63) \<le> x \<and> x < 2 ^ 63 then Some x else None)"

text \<open>Conversions to signed types of 64 and 32 bits.\<close>

definition cast64 :: "int \<Rightarrow> int" where
  "cast64 x = (x + 2 ^ 63) mod 2 ^ 64 - 2 ^ 63"

definition cast32 :: "int \<Rightarrow> int" where
  "cast32 x = (x + 2 ^ 31) mod 2 ^ 32 - 2 ^ 31"

lemma cast64_id: "- (2 ^ 63) \<le> x \<Longrightarrow> x < 2 ^ 63 \<Longrightarrow> cast64 x = x"
  by (simp add: cast64_def)

lemma cast32_id: "- (2 ^ 31) \<le> x \<Longrightarrow> x < 2 ^ 31 \<Longrightarrow> cast32 x = x"
  by (simp add: cast32_def)

lemma rd_in [ub_simps]: "i < length m \<Longrightarrow> rd m i = Some (m ! i)"
  by (simp add: rd_def)

lemma rd_out [ub_simps]: "length m \<le> i \<Longrightarrow> rd m i = None"
  by (simp add: rd_def)

lemma rd_Cons_0 [simp]: "rd (x # xs) 0 = Some x"
  by (simp add: rd_def)

lemma rd_Cons_Suc [simp]: "rd (x # xs) (Suc i) = rd xs i"
  by (simp add: rd_def)

lemma rd_Nil [simp]: "rd [] i = None"
  by (simp add: rd_def)

lemma rd_append1 [ub_simps]: "i < length xs \<Longrightarrow> rd (xs @ ys) i = rd xs i"
  by (simp add: rd_def nth_append)

lemma s64_in [ub_simps]: "- (2 ^ 63) \<le> x \<Longrightarrow> x < 2 ^ 63 \<Longrightarrow> s64 x = Some x"
  by (simp add: s64_def)

lemma s64_SomeD: "s64 x = Some y \<Longrightarrow> y = x"
  by (simp add: s64_def split: if_splits)

text \<open>
  A postcondition of a computation that may be undefined, and how it goes through the
  constructs of the models.
\<close>

definition holds :: "('a \<Rightarrow> bool) \<Rightarrow> 'a option \<Rightarrow> bool" where
  "holds P m \<longleftrightarrow> (\<forall>x. m = Some x \<longrightarrow> P x)"

named_theorems wp "postconditions of the constructs of the models"

lemma holds_Some [wp]: "holds P (Some x) \<longleftrightarrow> P x"
  by (simp add: holds_def)

lemma holds_None [wp]: "holds P None"
  by (simp add: holds_def)

lemma holds_bind [wp]: "holds P (Option.bind m f) \<longleftrightarrow> holds (\<lambda>x. holds P (f x)) m"
  by (cases m) (simp_all add: holds_def)

lemma holds_map [wp]: "holds P (map_option f m) \<longleftrightarrow> holds (\<lambda>x. P (f x)) m"
  by (cases m) (simp_all add: holds_def)

lemma holds_if [wp]: "holds P (if b then x else y) \<longleftrightarrow> (if b then holds P x else holds P y)"
  by simp

lemma holds_prod [wp]:
  "holds P (case x of (a, b) \<Rightarrow> f a b) \<longleftrightarrow> (case x of (a, b) \<Rightarrow> holds P (f a b))"
  by (simp split: prod.split)

lemma holds_case_option [wp]:
  "holds P (case x of None \<Rightarrow> n | Some a \<Rightarrow> f a) \<longleftrightarrow>
     (case x of None \<Rightarrow> holds P n | Some a \<Rightarrow> holds P (f a))"
  by (simp split: option.split)

lemma holds_mono: "holds P m \<Longrightarrow> (\<And>x. P x \<Longrightarrow> Q x) \<Longrightarrow> holds Q m"
  by (simp add: holds_def)

lemma holdsI: "(\<And>x. m = Some x \<Longrightarrow> P x) \<Longrightarrow> holds P m"
  by (simp add: holds_def)

lemma holds_True [wp]: "holds (\<lambda>_. True) m"
  by (simp add: holds_def)

lemma holdsD: "m = Some x \<Longrightarrow> holds P m \<Longrightarrow> P x"
  by (simp add: holds_def)

section \<open>Character classes\<close>

definition is_digit :: "u_char \<Rightarrow> bool" where
  [byte_simps]: "is_digit c \<longleftrightarrow> ch_0 \<le> c \<and> c \<le> ch_9"

text \<open>The value of a string of decimal digits, most significant first.\<close>

fun dec_acc :: "int \<Rightarrow> bytes \<Rightarrow> int" where
  "dec_acc v [] = v"
| "dec_acc v (c # cs) = dec_acc (v * 10 + (uint c - 0x30)) cs"

abbreviation dec_value :: "bytes \<Rightarrow> int" where
  "dec_value \<equiv> dec_acc 0"

lemma is_digit_uint: "is_digit c \<longleftrightarrow> 0x30 \<le> uint c \<and> uint c \<le> 0x39"
  by (simp add: is_digit_def word_le_def)

lemma not_digit_iff: "(c < ch_0 \<or> ch_9 < c) \<longleftrightarrow> \<not> is_digit c"
  by (auto simp: is_digit_def not_le)

lemma dec_acc_ge: "0 \<le> v \<Longrightarrow> list_all is_digit cs \<Longrightarrow> v \<le> dec_acc v cs"
proof (induction cs arbitrary: v)
  case (Cons c cs)
  then have "v * 10 + (uint c - 0x30) \<le> dec_acc (v * 10 + (uint c - 0x30)) cs"
    by (intro Cons.IH) (auto simp: is_digit_uint)
  with Cons.prems show ?case by (auto simp: is_digit_uint)
qed simp

lemma dec_value_nonneg: "list_all is_digit ds \<Longrightarrow> 0 \<le> dec_value ds"
  using dec_acc_ge [of 0 ds] by simp

lemma dec_acc_append: "dec_acc v (xs @ ys) = dec_acc (dec_acc v xs) ys"
  by (induction xs arbitrary: v) auto

lemma dec_acc_snoc: "dec_acc v (xs @ [c]) = dec_acc v xs * 10 + (uint c - 0x30)"
  by (simp add: dec_acc_append)

section \<open>Statements checked on all bytes\<close>

text \<open>
  A property of bytes that computes is decided by evaluating it on the 256 values.
\<close>

definition all_bytes :: bytes where
  "all_bytes = map word_of_nat [0..<256]"

lemma set_all_bytes: "set all_bytes = UNIV"
proof -
  have "c \<in> set all_bytes" for c :: u_char
  proof -
    have "c = word_of_nat (unat c)" and "unat c < 256"
      using unsigned_less [of c, where ?'a = nat] by simp_all
    then show ?thesis unfolding all_bytes_def set_map
      by (metis atLeastLessThan_iff imageI set_upt zero_le)
  qed
  then show ?thesis by blast
qed

lemma byte_all_I: "list_all P all_bytes \<Longrightarrow> P c"
  using set_all_bytes by (auto simp: list_all_iff)

lemma unat_byte_lt [simp]: "unat (c :: u_char) < 256"
  using unsigned_less [of c, where ?'a = nat] by simp

lemma uint_byte_bounds [simp]: "0 \<le> uint (c :: u_char)" "uint (c :: u_char) < 256"
  using unsigned_less [of c, where ?'a = int] by simp_all

lemma upto_all_I: "list_all P [0..<k] \<Longrightarrow> n < k \<Longrightarrow> P n"
  by (auto simp: list_all_iff)

lemma bytes_below_I: "list_all P (map word_of_nat [0..<k]) \<Longrightarrow> unat c < k \<Longrightarrow> P c" for c :: u_char
  by (force simp: list_all_iff dest: bspec [of _ _ "unat c"])

section \<open>Masks and shifts as arithmetic\<close>

lemma and_mask_eq: 
  "c AND 0xf = take_bit 4 c" "c AND 3 = take_bit 2 c"
  "c AND 0x3f = take_bit 6 c" "c AND 0x1f = take_bit 5 c" for c :: "'a::len word"
  by (simp_all add: take_bit_eq_mask mask_eq_exp_minus_1)

lemma unat_take_bit: "unat (take_bit n c) = unat c mod 2 ^ n" for c :: "'a::len word"
  by (metis unsigned_take_bit_eq take_bit_eq_mod)

lemma unat_drop_bit: "unat (drop_bit n c) = unat c div 2 ^ n" for c :: "'a::len word"
  by (simp only: unat_drop_bit_eq) (simp add: drop_bit_eq_div)

lemma nibbles_lt: "unat (drop_bit 4 c) < 16" "unat (c AND 0xf) < 16" for c :: u_char
  by (simp_all only: and_mask_eq unat_take_bit unat_drop_bit) (simp_all add: less_mult_imp_div_less)

lemma nibbles: "int (unat (drop_bit 4 c)) * 16 + int (unat (c AND 0xf)) = uint c" for c :: u_char
proof -
  have "unat c div 16 * 16 + unat c mod 16 = unat c" by simp
  then have "int (unat c div 16) * 16 + int (unat c mod 16) = int (unat c)" by linarith
  then show ?thesis by (simp only: and_mask_eq unat_take_bit unat_drop_bit) simp
qed

section \<open>Character bitmaps\<close>

text \<open>
  The program keeps sets of characters as eight 32-bit words and tests
  \<^verbatim>\<open>tab[ch >> 5] & (1 << (ch & 0x1f))\<close>.
\<close>

definition tab_bit :: "u32 list \<Rightarrow> u_char \<Rightarrow> bool" where
  "tab_bit tab c \<longleftrightarrow> bit (tab ! unat (drop_bit 5 c)) (unat (c AND 0x1f))"

end
