(* ===== verification/Ngx_Num.thy ===== *)
theory Ngx_Num
  imports Ngx_Prelude
begin

text \<open>
  Numbers as text: the decimal and hexadecimal readers of \<^verbatim>\<open>ngx_string.c\<close>
  (\<^verbatim>\<open>ngx_atoi\<close>, \<^verbatim>\<open>ngx_atofp\<close>, \<^verbatim>\<open>ngx_atosz\<close>, \<^verbatim>\<open>ngx_atoof\<close>, \<^verbatim>\<open>ngx_atotm\<close>, \<^verbatim>\<open>ngx_hextoi\<close>),
  \<^verbatim>\<open>ngx_hex_dump\<close> and the number printer \<^verbatim>\<open>ngx_sprintf_num\<close>. The readers work on signed
  64-bit values, whose overflow is undefined: the model computes with \<open>s64\<close>, and the
  theorems show that the cut-off tests keep every intermediate value in range.
\<close>

section \<open>The decimal readers\<close>

text \<open>
  The loop the four readers share: \<open>line\<close> is what is left of the \<^verbatim>\<open>n\<close> bytes, \<open>cutoff\<close>
  and \<open>cutlim\<close> are the quotient and the remainder of the type's maximum by 10.
\<close>

fun ngx_ato_loop :: "int \<Rightarrow> int \<Rightarrow> int \<Rightarrow> bytes \<Rightarrow> int option" where
  "ngx_ato_loop cutoff cutlim val [] = Some val"
| "ngx_ato_loop cutoff cutlim val (c # line) =
     (if c < ch_0 \<or> c > ch_9 then Some NGX_ERROR
      else if val \<ge> cutoff \<and> (val > cutoff \<or> uint c - 0x30 > cutlim) then Some NGX_ERROR
      else do {
        v \<leftarrow> s64 (val * 10);
        v' \<leftarrow> s64 (v + (uint c - 0x30));
        ngx_ato_loop cutoff cutlim v' line
      })"

definition ngx_atoi :: "bytes \<Rightarrow> int option" where
  "ngx_atoi line =
     (if line = [] then Some NGX_ERROR
      else ngx_ato_loop (NGX_MAX_INT_T_VALUE div 10) (NGX_MAX_INT_T_VALUE mod 10) 0 line)"

definition ngx_atosz :: "bytes \<Rightarrow> int option" where
  "ngx_atosz line =
     (if line = [] then Some NGX_ERROR
      else ngx_ato_loop (NGX_MAX_SIZE_T_VALUE div 10) (NGX_MAX_SIZE_T_VALUE mod 10) 0 line)"

definition ngx_atoof :: "bytes \<Rightarrow> int option" where
  "ngx_atoof line =
     (if line = [] then Some NGX_ERROR
      else ngx_ato_loop (NGX_MAX_OFF_T_VALUE div 10) (NGX_MAX_OFF_T_VALUE mod 10) 0 line)"

definition ngx_atotm :: "bytes \<Rightarrow> int option" where
  "ngx_atotm line =
     (if line = [] then Some NGX_ERROR
      else ngx_ato_loop (NGX_MAX_TIME_T_VALUE div 10) (NGX_MAX_TIME_T_VALUE mod 10) 0 line)"

text \<open>
  \<^verbatim>\<open>ngx_atofp\<close>: the first loop reads digits and at most one dot, counting \<open>point\<close> down
  after it; the second multiplies by 10 for every decimal place that is left.
\<close>

fun ngx_atofp_scale :: "int \<Rightarrow> int \<Rightarrow> nat \<Rightarrow> int option" where
  "ngx_atofp_scale cutoff val 0 = Some val"
| "ngx_atofp_scale cutoff val (Suc point) =
     (if val > cutoff then Some NGX_ERROR
      else do { v \<leftarrow> s64 (val * 10); ngx_atofp_scale cutoff v point })"

fun ngx_atofp_loop :: "int \<Rightarrow> int \<Rightarrow> int \<Rightarrow> nat \<Rightarrow> nat \<Rightarrow> bytes \<Rightarrow> int option" where
  "ngx_atofp_loop cutoff cutlim val point dot [] = ngx_atofp_scale cutoff val point"
| "ngx_atofp_loop cutoff cutlim val point dot (c # line) =
     (if point = 0 then Some NGX_ERROR
      else if c = ch_dot then
        (if dot \<noteq> 0 then Some NGX_ERROR
         else ngx_atofp_loop cutoff cutlim val point 1 line)
      else if c < ch_0 \<or> c > ch_9 then Some NGX_ERROR
      else if val \<ge> cutoff \<and> (val > cutoff \<or> uint c - 0x30 > cutlim) then Some NGX_ERROR
      else do {
        v \<leftarrow> s64 (val * 10);
        v' \<leftarrow> s64 (v + (uint c - 0x30));
        ngx_atofp_loop cutoff cutlim v' (point - dot) dot line
      })"

definition ngx_atofp :: "bytes \<Rightarrow> nat \<Rightarrow> int option" where
  "ngx_atofp line point =
     (if line = [] then Some NGX_ERROR
      else ngx_atofp_loop (NGX_MAX_INT_T_VALUE div 10) (NGX_MAX_INT_T_VALUE mod 10)
             0 point 0 line)"

section \<open>Hexadecimal\<close>

fun ngx_hextoi_loop :: "int \<Rightarrow> int \<Rightarrow> bytes \<Rightarrow> int option" where
  "ngx_hextoi_loop cutoff val [] = Some val"
| "ngx_hextoi_loop cutoff val (ch # line) =
     (if val > cutoff then Some NGX_ERROR
      else if ch \<ge> ch_0 \<and> ch \<le> ch_9 then do {
        v \<leftarrow> s64 (val * 16);
        v' \<leftarrow> s64 (v + (uint ch - 0x30));
        ngx_hextoi_loop cutoff v' line
      }
      else
        (let c = ch OR 0x20 in
         if c \<ge> ch_a \<and> c \<le> ch_f then do {
           v \<leftarrow> s64 (val * 16);
           v' \<leftarrow> s64 (v + (uint c - 0x61 + 10));
           ngx_hextoi_loop cutoff v' line
         }
         else Some NGX_ERROR))"

definition ngx_hextoi :: "bytes \<Rightarrow> int option" where
  "ngx_hextoi line =
     (if line = [] then Some NGX_ERROR
      else ngx_hextoi_loop (NGX_MAX_INT_T_VALUE div 16) 0 line)"

definition hex_lower :: bytes where
  "hex_lower = bytes_of ''0123456789abcdef''"

definition hex_upper :: bytes where
  "hex_upper = bytes_of ''0123456789ABCDEF''"

fun ngx_hex_dump :: "bytes \<Rightarrow> bytes" where
  "ngx_hex_dump [] = []"
| "ngx_hex_dump (c # src) =
     hex_lower ! unat (drop_bit 4 c) # hex_lower ! unat (c AND 0xf) # ngx_hex_dump src"

section \<open>Printing a number\<close>

text \<open>
  \<^verbatim>\<open>ngx_sprintf_num\<close> fills \<^verbatim>\<open>temp\<close> from its end, one digit per round; \<open>slots\<close> is the number
  of bytes left in \<^verbatim>\<open>temp\<close> below \<^verbatim>\<open>p\<close>, and writing below the array is undefined.
\<close>

definition NGX_INT64_LEN :: nat where "NGX_INT64_LEN = 20"

fun dec_digits :: "nat \<Rightarrow> 'a::len word \<Rightarrow> bytes \<Rightarrow> bytes option" where
  "dec_digits 0 v acc = None"
| "dec_digits (Suc slots) v acc =
     (let acc' = (ucast (v mod 10) + 0x30) # acc; v' = v div 10
      in if v' \<noteq> 0 then dec_digits slots v' acc' else Some acc')"

fun hex_digits :: "nat \<Rightarrow> bytes \<Rightarrow> u64 \<Rightarrow> bytes \<Rightarrow> bytes option" where
  "hex_digits 0 hex v acc = None"
| "hex_digits (Suc slots) hex v acc =
     (let acc' = hex ! unat (v AND 0xf) # acc; v' = drop_bit 4 v
      in if v' \<noteq> 0 then hex_digits slots hex v' acc' else Some acc')"

text \<open>Zero or space padding: \<open>room\<close> is \<^verbatim>\<open>last - buf\<close>.\<close>

fun sprintf_pad :: "nat \<Rightarrow> nat \<Rightarrow> nat \<Rightarrow> u_char \<Rightarrow> bytes" where
  "sprintf_pad len width 0 zero = []"
| "sprintf_pad len width (Suc room) zero =
     (if len < width then zero # sprintf_pad (Suc len) width room zero else [])"

text \<open>The bytes written to \<^verbatim>\<open>buf\<close> when \<open>room\<close> bytes are left before \<^verbatim>\<open>last\<close>.\<close>

definition ngx_sprintf_num :: "nat \<Rightarrow> u64 \<Rightarrow> u_char \<Rightarrow> nat \<Rightarrow> nat \<Rightarrow> bytes option" where
  "ngx_sprintf_num room ui64 zero hexadecimal width =
     do {
       temp \<leftarrow>
         (if hexadecimal = 0 then
            if ui64 \<le> 0xffffffff then dec_digits NGX_INT64_LEN (ucast ui64 :: u32) []
            else dec_digits NGX_INT64_LEN ui64 []
          else if hexadecimal = 1 then hex_digits NGX_INT64_LEN hex_lower ui64 []
          else hex_digits NGX_INT64_LEN hex_upper ui64 []);
       let pad = sprintf_pad (length temp) width room zero;
       let left = room - length pad;
       let len = (if length temp > left then left else length temp);
       Some (pad @ take len temp)
     }"

section \<open>The decimal readers are exact\<close>

text \<open>What a reader with maximum \<open>mx\<close> promises.\<close>

definition ato_spec :: "int \<Rightarrow> bytes \<Rightarrow> int" where
  "ato_spec mx line =
     (if line \<noteq> [] \<and> list_all is_digit line \<and> dec_value line \<le> mx
      then dec_value line else NGX_ERROR)"

text \<open>The cut-off test decides whether one more digit still fits.\<close>

lemma cutoff_iff:
  fixes mx val d :: int
  assumes "0 \<le> val" "0 \<le> d" "d \<le> 9"
  shows "(val \<ge> mx div 10 \<and> (val > mx div 10 \<or> d > mx mod 10)) \<longleftrightarrow> mx < val * 10 + d"
proof -
  define q r where "q = mx div 10" and "r = mx mod 10"
  have "mx = 10 * q + r" "0 \<le> r" "r < 10"
    unfolding q_def r_def by simp_all
  with assms show ?thesis unfolding q_def [symmetric] r_def [symmetric] by linarith
qed

lemma ngx_ato_loop_exact:
  assumes "0 \<le> val" "val \<le> mx" "mx < 2 ^ 63"
  shows "ngx_ato_loop (mx div 10) (mx mod 10) val line =
    Some (if list_all is_digit line \<and> dec_acc val line \<le> mx then dec_acc val line else NGX_ERROR)"
  using assms
proof (induction line arbitrary: val)
  case (Cons c line)
  let ?d = "uint c - 0x30" and ?v = "val * 10 + (uint c - 0x30)"
  show ?case
  proof (cases "is_digit c")
    case False
    then show ?thesis by (auto simp: is_digit_def not_le)
  next
    case True
    then have d: "0 \<le> ?d" "?d \<le> 9" and nd: "\<not> (c < ch_0 \<or> c > ch_9)"
      using not_digit_iff [of c] by (auto simp: is_digit_uint)
    note cut = cutoff_iff [OF Cons.prems(1) d, of mx]
    show ?thesis
    proof (cases "mx < ?v")
      case True
      moreover have "?v \<le> dec_acc ?v line" if "list_all is_digit line"
        using that d Cons.prems(1) by (intro dec_acc_ge) auto
      ultimately have "\<not> (list_all is_digit (c # line) \<and> dec_acc val (c # line) \<le> mx)"
        by fastforce
      with True nd cut show ?thesis by auto
    next
      case False
      with Cons.prems d have "s64 (val * 10) = Some (val * 10)" "s64 ?v = Some ?v"
        by (auto intro!: s64_in)
      with False nd cut \<open>is_digit c\<close> show ?thesis
        using Cons.IH [of ?v] Cons.prems d by auto
    qed
  qed
qed simp

lemma ato_unfold:
  assumes "0 \<le> mx" "mx < 2 ^ 63"
  shows "(if line = [] then Some NGX_ERROR
          else ngx_ato_loop (mx div 10) (mx mod 10) 0 line) = Some (ato_spec mx line)"
  using ngx_ato_loop_exact [of 0 mx line] assms by (auto simp: ato_spec_def)

text \<open>
  C36. \<^verbatim>\<open>ngx_atoi\<close> returns the exact value of a non-empty string of decimal digits that
  fits \<^verbatim>\<open>ngx_int_t\<close>, \<^verbatim>\<open>NGX_ERROR\<close> for every other input, and never overflows.
\<close>

theorem ngx_atoi_exact: "ngx_atoi line = Some (ato_spec NGX_MAX_INT_T_VALUE line)"
  unfolding ngx_atoi_def by (rule ato_unfold) (simp_all add: max_defs)

lemma ngx_atosz_exact: "ngx_atosz line = Some (ato_spec NGX_MAX_SIZE_T_VALUE line)"
  unfolding ngx_atosz_def by (rule ato_unfold) (simp_all add: max_defs)

lemma ngx_atoof_exact: "ngx_atoof line = Some (ato_spec NGX_MAX_OFF_T_VALUE line)"
  unfolding ngx_atoof_def by (rule ato_unfold) (simp_all add: max_defs)

lemma ngx_atotm_exact: "ngx_atotm line = Some (ato_spec NGX_MAX_TIME_T_VALUE line)"
  unfolding ngx_atotm_def by (rule ato_unfold) (simp_all add: max_defs)

section \<open>The fixed-point reader is exact\<close>

text \<open>
  \<open>ip\<close> are the digits before the dot, \<open>fp\<close> those after it: the value is scaled to \<open>point\<close>
  decimal places.
\<close>

lemma ngx_atofp_scale_exact:
  assumes "0 \<le> val" "val \<le> mx" "mx < 2 ^ 63"
  shows "ngx_atofp_scale (mx div 10) val point =
    Some (if val * 10 ^ point \<le> mx then val * 10 ^ point else NGX_ERROR)"
  using assms
proof (induction point arbitrary: val)
  case (Suc point)
  have le: "val * 10 \<le> val * 10 ^ Suc point"
    using Suc.prems(1) by (simp add: mult_left_mono)
  show ?case
  proof (cases "val > mx div 10")
    case True
    then have "mx < val * 10" using cutoff_iff [OF Suc.prems(1), of 0 mx] by simp
    with le True show ?thesis by auto
  next
    case False
    then have "val * 10 \<le> mx" by linarith
    moreover from this Suc.prems have "s64 (val * 10) = Some (val * 10)"
      by (auto intro!: s64_in)
    ultimately show ?thesis
      using False Suc.IH [of "val * 10"] Suc.prems by (simp add: mult.assoc)
  qed
qed simp

lemma ngx_atofp_frac:
  assumes "0 \<le> val" "val \<le> mx" "mx < 2 ^ 63" "list_all is_digit fp" "length fp \<le> point"
  shows "ngx_atofp_loop (mx div 10) (mx mod 10) val point 1 fp =
    Some (if dec_acc val fp * 10 ^ (point - length fp) \<le> mx
          then dec_acc val fp * 10 ^ (point - length fp) else NGX_ERROR)"
  using assms
proof (induction fp arbitrary: val point)
  case Nil
  then show ?case using ngx_atofp_scale_exact [of val mx point] by simp
next
  case (Cons c fp)
  let ?v = "val * 10 + (uint c - 0x30)"
  obtain q where q: "point = Suc q" using Cons.prems(5) by (cases point) auto
  from Cons.prems(4) have d: "0 \<le> uint c - 0x30" "uint c - 0x30 \<le> 9" and nd: "\<not> (c < ch_0 \<or> c > ch_9)"
    and ndot: "c \<noteq> ch_dot"
    using not_digit_iff [of c] by (auto simp: is_digit_uint)
  note cut = cutoff_iff [OF Cons.prems(1) d, of mx]
  show ?case
  proof (cases "mx < ?v")
    case True
    have v: "?v \<le> dec_acc ?v fp" using Cons.prems(1,4) d by (intro dec_acc_ge) auto
    then have "?v \<le> dec_acc ?v fp * 10 ^ (q - length fp)"
      using d Cons.prems(1) mult_mono [of ?v "dec_acc ?v fp" 1 "10 ^ (q - length fp)"] by simp
    with True cut nd ndot q show ?thesis by auto
  next
    case False
    with Cons.prems d have "s64 (val * 10) = Some (val * 10)" "s64 ?v = Some ?v"
      by (auto intro!: s64_in)
    with False cut nd ndot q show ?thesis
      using Cons.IH [of ?v q] Cons.prems d by auto
  qed
qed

lemma ngx_atofp_int:
  assumes "0 \<le> val" "val \<le> mx" "mx < 2 ^ 63" "list_all is_digit ip" "0 < point"
  shows "ngx_atofp_loop (mx div 10) (mx mod 10) val point 0 (ip @ rest) =
    (if dec_acc val ip \<le> mx then ngx_atofp_loop (mx div 10) (mx mod 10) (dec_acc val ip) point 0 rest
     else Some NGX_ERROR)"
  using assms
proof (induction ip arbitrary: val)
  case (Cons c ip)
  let ?v = "val * 10 + (uint c - 0x30)"
  from Cons.prems(4) have d: "0 \<le> uint c - 0x30" "uint c - 0x30 \<le> 9" and nd: "\<not> (c < ch_0 \<or> c > ch_9)"
    and ndot: "c \<noteq> ch_dot"
    using not_digit_iff [of c] by (auto simp: is_digit_uint)
  note cut = cutoff_iff [OF Cons.prems(1) d, of mx]
  have v: "?v \<le> dec_acc ?v ip" using Cons.prems(1,4) d by (intro dec_acc_ge) auto
  show ?case
  proof (cases "mx < ?v")
    case True
    with v cut nd ndot Cons.prems(5) show ?thesis by auto
  next
    case False
    with Cons.prems d have "s64 (val * 10) = Some (val * 10)" "s64 ?v = Some ?v"
      by (auto intro!: s64_in)
    with False cut nd ndot show ?thesis
      using Cons.IH [of ?v] Cons.prems d by auto
  qed
qed simp

text \<open>
  \<^verbatim>\<open>ngx_atofp\<close> on \<^verbatim>\<open>ip.fp\<close> with at most \<^verbatim>\<open>point\<close> decimal places returns the number
  scaled by \<^verbatim>\<open>10^point\<close> exactly, or \<^verbatim>\<open>NGX_ERROR\<close> when the scaled value does not fit
  \<^verbatim>\<open>ngx_int_t\<close>; no step overflows.
\<close>

theorem ngx_atofp_exact:
  assumes "list_all is_digit ip" "list_all is_digit fp" "length fp \<le> point" "0 < point"
  shows "ngx_atofp (ip @ ch_dot # fp) point =
    Some (let v = dec_value (ip @ fp) * 10 ^ (point - length fp)
          in if v \<le> NGX_MAX_INT_T_VALUE then v else NGX_ERROR)"
proof -
  let ?mx = NGX_MAX_INT_T_VALUE
  have mx: "0 \<le> ?mx" "?mx < 2 ^ 63" by (simp_all add: max_defs)
  have ge: "0 \<le> dec_value ip" using assms(1) by (intro order_trans [OF _ dec_acc_ge]) auto
  have ge': "dec_value ip \<le> dec_value (ip @ fp)"
    using assms(2) ge by (simp add: dec_acc_append dec_acc_ge)
  then have big: "dec_value ip \<le> dec_value (ip @ fp) * 10 ^ (point - length fp)"
    using ge mult_mono [of "dec_value ip" "dec_value (ip @ fp)" 1 "10 ^ (point - length fp)"] by simp
  have "ngx_atofp (ip @ ch_dot # fp) point =
      (if dec_value ip \<le> ?mx
       then ngx_atofp_loop (?mx div 10) (?mx mod 10) (dec_value ip) point 1 fp
       else Some NGX_ERROR)"
    using ngx_atofp_int [of 0 ?mx ip point "ch_dot # fp"] assms mx by (simp add: ngx_atofp_def)
  with ngx_atofp_frac [OF ge _ mx(2) assms(2,3)] big show ?thesis
    by (auto simp: dec_acc_append Let_def)
qed

theorem ngx_atofp_exact_witness:
  "ngx_atofp (bytes_of ''10.5'') 2 = Some 1050"
  using ngx_atofp_exact [of "bytes_of ''10''" "bytes_of ''5''" 2]
  by (simp add: bytes_of_def is_digit_def max_defs)

section \<open>Hexadecimal reading and dumping\<close>

definition is_hex :: "u_char \<Rightarrow> bool" where
  "is_hex c \<longleftrightarrow> is_digit c \<or> ch_a \<le> c OR 0x20 \<and> c OR 0x20 \<le> ch_f"

definition hex_val :: "u_char \<Rightarrow> int" where
  "hex_val c = (if is_digit c then uint c - 0x30 else uint (c OR 0x20) - 0x61 + 10)"

fun hex_acc :: "int \<Rightarrow> bytes \<Rightarrow> int" where
  "hex_acc v [] = v"
| "hex_acc v (c # cs) = hex_acc (v * 16 + hex_val c) cs"

lemma hex_val_bounds: "is_hex c \<Longrightarrow> 0 \<le> hex_val c \<and> hex_val c < 16"
  by (auto simp: is_hex_def hex_val_def is_digit_uint word_le_def)

lemma hex_acc_ge: "0 \<le> v \<Longrightarrow> list_all is_hex cs \<Longrightarrow> v \<le> hex_acc v cs"
proof (induction cs arbitrary: v)
  case (Cons c cs)
  then have "v * 16 + hex_val c \<le> hex_acc (v * 16 + hex_val c) cs"
    using hex_val_bounds [of c] by (intro Cons.IH) auto
  with Cons.prems hex_val_bounds [of c] show ?case by auto
qed simp

lemma hex_acc_append: "hex_acc v (xs @ ys) = hex_acc (hex_acc v xs) ys"
  by (induction xs arbitrary: v) auto

lemma ngx_hextoi_loop_exact:
  assumes "0 \<le> val" "val \<le> mx" "mx < 2 ^ 63" "mx mod 16 = 15"
  shows "ngx_hextoi_loop (mx div 16) val line =
    Some (if list_all is_hex line \<and> hex_acc val line \<le> mx then hex_acc val line else NGX_ERROR)"
  using assms
proof (induction line arbitrary: val)
  case (Cons c line)
  let ?v = "val * 16 + hex_val c"
  show ?case
  proof (cases "val > mx div 16")
    case True
    have "mx < hex_acc ?v line" if "is_hex c" "list_all is_hex line"
    proof -
      have "mx < ?v" using True hex_val_bounds [OF that(1)] by linarith
      also have "?v \<le> hex_acc ?v line"
        using that hex_val_bounds [OF that(1)] Cons.prems(1) by (intro hex_acc_ge) auto
      finally show ?thesis .
    qed
    with True show ?thesis by auto
  next
    case False
    show ?thesis
    proof (cases "is_hex c")
      case True
      have v: "0 \<le> ?v" "?v \<le> mx"
        using False hex_val_bounds [OF True] Cons.prems mult_div_mod_eq [of 16 mx] by linarith+
      then have "s64 (val * 16) = Some (val * 16)" "s64 ?v = Some ?v"
        using hex_val_bounds [OF True] Cons.prems by (auto intro!: s64_in)
      with False True Cons.IH [OF v Cons.prems(3,4)] show ?thesis
        by (auto simp: Let_def is_hex_def hex_val_def is_digit_def)
    next
      case nh: False
      with False show ?thesis by (auto simp: Let_def is_hex_def is_digit_def)
    qed
  qed
qed simp

lemma ngx_hextoi_exact:
  "ngx_hextoi line =
    Some (if line \<noteq> [] \<and> list_all is_hex line \<and> hex_acc 0 line \<le> NGX_MAX_INT_T_VALUE
          then hex_acc 0 line else NGX_ERROR)"
  using ngx_hextoi_loop_exact [of 0 NGX_MAX_INT_T_VALUE line]
  by (auto simp: ngx_hextoi_def max_defs)

text \<open>The value of a string of bytes, most significant first.\<close>

fun be_acc :: "int \<Rightarrow> bytes \<Rightarrow> int" where
  "be_acc v [] = v"
| "be_acc v (c # cs) = be_acc (v * 256 + uint c) cs"

lemma hex_lower_nth: "n < 16 \<Longrightarrow> is_hex (hex_lower ! n) \<and> hex_val (hex_lower ! n) = int n"
  by (erule upto_all_I [rotated]) code_simp

lemma hex_acc_hex_dump: "hex_acc v (ngx_hex_dump src) = be_acc v src"
proof (induction src arbitrary: v)
  case (Cons c src)
  have "(v * 16 + hex_val (hex_lower ! unat (drop_bit 4 c))) * 16
      + hex_val (hex_lower ! unat (c AND 0xf)) = v * 256 + uint c"
    using nibbles [of c] by (simp add: hex_lower_nth nibbles_lt)
  with Cons show ?case by (simp only: ngx_hex_dump.simps hex_acc.simps be_acc.simps)
qed simp

lemma hex_dump_is_hex: "list_all is_hex (ngx_hex_dump src)"
  by (induction src) (auto simp: hex_lower_nth nibbles_lt)

lemma hex_dump_length: "length (ngx_hex_dump src) = 2 * length src"
  by (induction src) auto

text \<open>
  Round trip of \<^verbatim>\<open>ngx_hex_dump\<close> and \<^verbatim>\<open>ngx_hextoi\<close>: the dump has two digits per byte
  and reads back as the big-endian value of the bytes whenever that fits \<^verbatim>\<open>ngx_int_t\<close>.
\<close>

theorem ngx_hex_dump_hextoi:
  assumes "src \<noteq> []" "be_acc 0 src \<le> NGX_MAX_INT_T_VALUE"
  shows "length (ngx_hex_dump src) = 2 * length src
    \<and> ngx_hextoi (ngx_hex_dump src) = Some (be_acc 0 src)"
proof -
  have "ngx_hex_dump src \<noteq> []" using assms(1) by (cases src) auto
  then show ?thesis
    using assms by (simp only: ngx_hextoi_exact hex_acc_hex_dump hex_dump_is_hex hex_dump_length) simp
qed

theorem ngx_hex_dump_hextoi_witness:
  "ngx_hextoi (ngx_hex_dump [0xDE, 0x0F]) = Some 0xDE0F"
  using ngx_hex_dump_hextoi [of "[0xDE, 0x0F]"] by (simp add: max_defs)

section \<open>The number printer\<close>

text \<open>The digits of a number, by repeated division.\<close>

fun dec_repr :: "nat \<Rightarrow> bytes" where
  "dec_repr n =
     (if n < 10 then [word_of_nat (48 + n)] else dec_repr (n div 10) @ [word_of_nat (48 + n mod 10)])"

declare dec_repr.simps [simp del]

lemma is_digit_of_nat: "d < 10 \<Longrightarrow> is_digit (word_of_nat (48 + d))"
  by (simp add: is_digit_uint unsigned_of_nat take_bit_nat_eq_self uint_nat del: of_nat_add)

lemma uint_digit: "d < 10 \<Longrightarrow> uint (word_of_nat (48 + d) :: u_char) = 48 + int d"
  by (simp add: uint_nat unat_of_nat del: of_nat_add)

lemma dec_repr_digits: "list_all is_digit (dec_repr n)"
  by (induction n rule: dec_repr.induct) (subst dec_repr.simps, simp add: is_digit_of_nat del: of_nat_add)

lemma dec_repr_nonempty: "dec_repr n \<noteq> []"
  by (subst dec_repr.simps) simp

lemma dec_value_dec_repr: "dec_value (dec_repr n) = int n"
proof (induction n rule: dec_repr.induct)
  case (1 n)
  show ?case
  proof (cases "n < 10")
    case True
    then show ?thesis by (subst dec_repr.simps) (simp add: uint_digit del: of_nat_add)
  next
    case False
    with 1 show ?thesis
      by (subst dec_repr.simps) (simp add: dec_acc_snoc uint_digit zdiv_int zmod_int del: of_nat_add)
  qed
qed

lemma dec_repr_length: "n < 10 ^ k \<Longrightarrow> 0 < k \<Longrightarrow> length (dec_repr n) \<le> k"
proof (induction n arbitrary: k rule: dec_repr.induct)
  case (1 n)
  show ?case
  proof (cases "n < 10")
    case True
    with "1.prems" show ?thesis by (subst dec_repr.simps) simp
  next
    case False
    with "1.prems" have "k \<noteq> 1" by auto
    with "1.prems" obtain j where j: "k = Suc j" "0 < j"
      by (cases k) auto
    with "1.prems"(1) have "n div 10 < 10 ^ j" by (simp add: less_mult_imp_div_less mult.commute)
    with "1.IH" [OF False _ j(2)] j show ?thesis using False by (subst dec_repr.simps) simp
  qed
qed

lemma dec_digits_repr:
  fixes v :: "'a::len word"
  assumes "8 \<le> LENGTH('a)" "unat v < 10 ^ slots" "0 < slots"
  shows "dec_digits slots v acc = Some (dec_repr (unat v) @ acc)"
  using assms(2,3)
proof (induction slots arbitrary: v acc)
  case (Suc slots)
  have "(2::nat) ^ 8 \<le> 2 ^ LENGTH('a)" using assms(1) by (intro power_increasing) auto
  then have ten: "unat (10 :: 'a word) = 10"
    by (simp add: unsigned_numeral take_bit_nat_eq_self)
  have um: "unat (v mod 10) = unat v mod 10" and ud: "unat (v div 10) = unat v div 10"
    by (simp_all only: unat_mod unat_div ten)
  have dig: "ucast (v mod 10) + 0x30 = (word_of_nat (48 + unat v mod 10) :: u_char)"
    by (simp only: um [symmetric] of_nat_add of_nat_unat) simp
  show ?case
  proof (cases "v div 10 = 0")
    case True
    then have "unat v < 10" using ud by (simp add: div_eq_0_iff)
    with True dig show ?thesis by (subst dec_repr.simps) (simp add: Let_def)
  next
    case False
    then have "\<not> unat v < 10" using ud unat_eq_zero [of "v div 10"] by auto
    moreover from this Suc.prems have "0 < slots" by (cases slots) auto
    moreover have "unat (v div 10) < 10 ^ slots"
      using Suc.prems(1) unfolding ud by (simp add: less_mult_imp_div_less mult.commute)
    ultimately show ?thesis
      using Suc.IH [of "v div 10" "(word_of_nat (48 + unat v mod 10)) # acc"] False dig ud
      by (subst dec_repr.simps) (simp add: Let_def add.commute)
  qed
qed simp

lemma sprintf_pad_eq: "sprintf_pad len width room zero = replicate (min (width - len) room) zero"
  by (induction len width room zero rule: sprintf_pad.induct)
    (auto simp: min_def Suc_diff_Suc simp del: replicate_Suc simp flip: replicate_Suc)

text \<open>The digits of the low nibbles, most significant first.\<close>

fun hex_repr :: "bytes \<Rightarrow> nat \<Rightarrow> bytes" where
  "hex_repr tab n =
     (if n < 16 then [tab ! n] else hex_repr tab (n div 16) @ [tab ! (n mod 16)])"

declare hex_repr.simps [simp del]

lemma hex_digits_repr:
  assumes "unat v < 16 ^ slots" "0 < slots"
  shows "hex_digits slots tab v acc = Some (hex_repr tab (unat v) @ acc)"
  using assms
proof (induction slots arbitrary: v acc)
  case (Suc slots)
  have um: "unat (v AND 0xf) = unat v mod 16" and ud: "unat (drop_bit 4 v) = unat v div 16"
    by (simp_all only: and_mask_eq unat_take_bit unat_drop_bit) simp_all
  show ?case
  proof (cases "drop_bit 4 v = 0")
    case True
    then have "unat v < 16" using ud by (simp add: div_eq_0_iff)
    with True um show ?thesis by (subst hex_repr.simps) (simp add: Let_def)
  next
    case False
    then have "\<not> unat v < 16" using ud unat_eq_zero [of "drop_bit 4 v"] by auto
    moreover from this Suc.prems have "0 < slots" by (cases slots) auto
    moreover have "unat (drop_bit 4 v) < 16 ^ slots"
      using Suc.prems(1) unfolding ud by (simp add: less_mult_imp_div_less mult.commute)
    ultimately show ?thesis
      using Suc.IH [of "drop_bit 4 v" "tab ! (unat v mod 16) # acc"] False um ud
      by (subst hex_repr.simps) (simp add: Let_def)
  qed
qed simp

definition num_repr :: "nat \<Rightarrow> nat \<Rightarrow> bytes" where
  "num_repr hexadecimal n =
     (if hexadecimal = 0 then dec_repr n
      else if hexadecimal = 1 then hex_repr hex_lower n else hex_repr hex_upper n)"

lemma unat_u64_lt: "unat (v :: u64) < 18446744073709551616"
  using unsigned_less [of v, where ?'a = nat] by simp

lemma sprintf_temp:
  "(if hexadecimal = 0 then
      if ui64 \<le> 0xffffffff then dec_digits NGX_INT64_LEN (ucast ui64 :: u32) []
      else dec_digits NGX_INT64_LEN ui64 []
    else if hexadecimal = 1 then hex_digits NGX_INT64_LEN hex_lower ui64 []
    else hex_digits NGX_INT64_LEN hex_upper ui64 []) = Some (num_repr hexadecimal (unat ui64))"
proof -
  have 64: "unat ui64 < 10 ^ 20" "unat ui64 < 16 ^ 20" using unat_u64_lt [of ui64] by simp_all
  have 32: "unat (ucast ui64 :: u32) = unat ui64" if "ui64 \<le> 0xffffffff"
    using that by (simp add: word_le_nat_alt unsigned_ucast_eq take_bit_nat_eq_self)
  show ?thesis
    using 64 32 by (simp add: NGX_INT64_LEN_def num_repr_def dec_digits_repr hex_digits_repr)
qed

lemma sprintf_num_eq:
  "ngx_sprintf_num room ui64 zero hexadecimal width =
    Some (take room (replicate (width - length (num_repr hexadecimal (unat ui64))) zero
      @ num_repr hexadecimal (unat ui64)))"
  unfolding ngx_sprintf_num_def sprintf_temp
  by (auto simp: sprintf_pad_eq Let_def min_def take_replicate)

lemma hex_repr_length: "n < 16 ^ k \<Longrightarrow> 0 < k \<Longrightarrow> length (hex_repr tab n) \<le> k"
proof (induction tab n arbitrary: k rule: hex_repr.induct)
  case (1 tab n)
  show ?case
  proof (cases "n < 16")
    case True
    with "1.prems" show ?thesis by (subst hex_repr.simps) simp
  next
    case False
    with "1.prems" have "k \<noteq> 1" by auto
    with "1.prems" obtain j where j: "k = Suc j" "0 < j"
      by (cases k) auto
    with "1.prems"(1) have "n div 16 < 16 ^ j" by (simp add: less_mult_imp_div_less mult.commute)
    with "1.IH" [OF False _ j(2)] j show ?thesis using False by (subst hex_repr.simps) simp
  qed
qed

text \<open>
  \<^verbatim>\<open>ngx_sprintf_num\<close> writes exactly the first \<^verbatim>\<open>last - buf\<close> bytes of the padded number:
  the 20-byte \<^verbatim>\<open>temp\<close> always suffices, nothing is written past \<^verbatim>\<open>last\<close>, and the 32-bit
  fast path prints the same digits as the 64-bit loop.
\<close>

theorem ngx_sprintf_num_correct:
  "ngx_sprintf_num room ui64 zero hexadecimal width =
     Some (take room (replicate (width - length (num_repr hexadecimal (unat ui64))) zero
       @ num_repr hexadecimal (unat ui64)))
   \<and> length (num_repr hexadecimal (unat ui64)) \<le> NGX_INT64_LEN"
  using unat_u64_lt [of ui64]
  by (simp add: sprintf_num_eq num_repr_def NGX_INT64_LEN_def dec_repr_length hex_repr_length)

lemma dec_acc_zeros: "dec_acc 0 (replicate k ch_0 @ ds) = dec_acc 0 ds"
  by (induction k) auto

text \<open>
  Round trip of the decimal printer and reader: what \<^verbatim>\<open>ngx_sprintf_num\<close> prints in
  decimal, zero-padded to any width that fits the buffer, \<^verbatim>\<open>ngx_atoi\<close> reads back.
\<close>

theorem sprintf_num_atoi:
  assumes "int (unat v) \<le> NGX_MAX_INT_T_VALUE" "20 \<le> room" "width \<le> room"
  shows "(do { out \<leftarrow> ngx_sprintf_num room v ch_0 0 width; ngx_atoi out }) = Some (int (unat v))"
proof -
  let ?ds = "dec_repr (unat v)"
  let ?out = "replicate (width - length ?ds) ch_0 @ ?ds"
  have "length ?ds \<le> 20" using unat_u64_lt [of v] by (intro dec_repr_length) simp_all
  then have "take room ?out = ?out" using assms(2,3) by simp
  then have "ngx_sprintf_num room v ch_0 0 width = Some ?out"
    unfolding sprintf_num_eq num_repr_def by simp
  moreover have "dec_value ?out = int (unat v)"
    by (simp add: dec_acc_zeros dec_value_dec_repr)
  moreover have "list_all is_digit ?out"
    using dec_repr_digits [of "unat v"] by (auto simp: list_all_iff is_digit_def)
  ultimately show ?thesis
    using assms(1) by (simp add: ngx_atoi_def ato_unfold ato_spec_def dec_repr_nonempty max_defs)
qed

theorem sprintf_num_atoi_witness:
  "(do { out \<leftarrow> ngx_sprintf_num 24 4096 ch_0 0 6; ngx_atoi out }) = Some 4096"
  using sprintf_num_atoi [of 4096 24 6] by (simp add: max_defs)

end
