(* ===== verification/Ngx_Sprintf.thy ===== *)
theory Ngx_Sprintf
  imports Ngx_Num
begin

text \<open>
  The formatter of \<^verbatim>\<open>ngx_string.c\<close>: \<^verbatim>\<open>ngx_vslprintf\<close> and the functions that call it. The
  format is a readable region that has to hold its terminating zero; the variadic arguments
  are a list of typed values, and fetching an argument of another type is undefined. The
  result is the list of bytes written from \<^verbatim>\<open>buf\<close> on, \<open>room\<close> is \<^verbatim>\<open>last - buf\<close>. Floating
  point is a parameter: the four operations on \<^verbatim>\<open>double\<close> that \<^verbatim>\<open>%f\<close> uses.
\<close>

abbreviation ch :: "char \<Rightarrow> u_char" where "ch x \<equiv> of_char x"

section \<open>Arguments and flags\<close>

datatype 'd va_arg =
    VA_str bytes      \<comment> \<open>\<^verbatim>\<open>ngx_str_t *\<close>\<close>
  | VA_vv bytes       \<comment> \<open>\<^verbatim>\<open>ngx_variable_value_t *\<close>\<close>
  | VA_ptr bytes      \<comment> \<open>\<^verbatim>\<open>u_char *\<close>, with the region it points to\<close>
  | VA_64 u64         \<comment> \<open>any of the 64-bit integer types\<close>
  | VA_32 u32         \<comment> \<open>\<^verbatim>\<open>int\<close>, \<^verbatim>\<open>u_int\<close>, \<^verbatim>\<open>int32_t\<close>, \<^verbatim>\<open>uint32_t\<close>, \<^verbatim>\<open>ngx_pid_t\<close>\<close>
  | VA_dbl 'd         \<comment> \<open>\<^verbatim>\<open>double\<close>\<close>

record 'd double_ops =
  d_neg :: "'d \<Rightarrow> bool"                  \<comment> \<open>\<^verbatim>\<open>f < 0\<close>\<close>
  d_minus :: "'d \<Rightarrow> 'd"                 \<comment> \<open>\<^verbatim>\<open>-f\<close>\<close>
  d_trunc :: "'d \<Rightarrow> u64"                \<comment> \<open>\<^verbatim>\<open>(int64_t) f\<close>\<close>
  d_frac :: "'d \<Rightarrow> u64 \<Rightarrow> u64 \<Rightarrow> u64"   \<comment> \<open>\<^verbatim>\<open>(uint64_t) ((f - (double) ui64) * scale + 0.5)\<close>\<close>

record fmt_flags =
  f_zero :: u_char
  f_width :: u64
  f_sign :: bool
  f_hex :: nat
  f_max_width :: bool
  f_frac_width :: u64
  f_slen :: "nat option"   \<comment> \<open>\<^verbatim>\<open>None\<close> is \<^verbatim>\<open>(size_t) -1\<close>\<close>

fun va_64 :: "'d va_arg list \<Rightarrow> (u64 \<times> 'd va_arg list) option" where
  "va_64 (VA_64 x # args) = Some (x, args)"
| "va_64 _ = None"

fun va_32 :: "'d va_arg list \<Rightarrow> (u32 \<times> 'd va_arg list) option" where
  "va_32 (VA_32 x # args) = Some (x, args)"
| "va_32 _ = None"

fun va_str :: "'d va_arg list \<Rightarrow> (bytes \<times> 'd va_arg list) option" where
  "va_str (VA_str s # args) = Some (s, args)"
| "va_str _ = None"

fun va_vv :: "'d va_arg list \<Rightarrow> (bytes \<times> 'd va_arg list) option" where
  "va_vv (VA_vv s # args) = Some (s, args)"
| "va_vv _ = None"

fun va_ptr :: "'d va_arg list \<Rightarrow> (bytes \<times> 'd va_arg list) option" where
  "va_ptr (VA_ptr s # args) = Some (s, args)"
| "va_ptr _ = None"

fun va_dbl :: "'d va_arg list \<Rightarrow> ('d \<times> 'd va_arg list) option" where
  "va_dbl (VA_dbl f # args) = Some (f, args)"
| "va_dbl _ = None"

section \<open>Reading a conversion specification\<close>

fun fmt_digits :: "u64 \<Rightarrow> bytes \<Rightarrow> (u64 \<times> bytes) option" where
  "fmt_digits w [] = None"
| "fmt_digits w (c # fmt) =
     (if c \<ge> ch_0 \<and> c \<le> ch_9 then fmt_digits (w * 10 + ucast c - 0x30) fmt
      else Some (w, c # fmt))"

fun fmt_flag_loop ::
    "fmt_flags \<Rightarrow> 'd va_arg list \<Rightarrow> bytes \<Rightarrow> (fmt_flags \<times> 'd va_arg list \<times> bytes) option" where
  "fmt_flag_loop fl args [] = None"
| "fmt_flag_loop fl args (c # fmt) =
     (if c = ch CHR ''u'' then fmt_flag_loop (fl\<lparr>f_sign := False\<rparr>) args fmt
      else if c = ch CHR ''m'' then fmt_flag_loop (fl\<lparr>f_max_width := True\<rparr>) args fmt
      else if c = ch CHR ''X'' then fmt_flag_loop (fl\<lparr>f_hex := 2, f_sign := False\<rparr>) args fmt
      else if c = ch CHR ''x'' then fmt_flag_loop (fl\<lparr>f_hex := 1, f_sign := False\<rparr>) args fmt
      else if c = ch_dot then do {
        (fw, fmt') \<leftarrow> fmt_digits (f_frac_width fl) fmt;
        Some (fl\<lparr>f_frac_width := fw\<rparr>, args, fmt')
      }
      else if c = ch_star then do {
        (n, args') \<leftarrow> va_64 args;
        fmt_flag_loop (fl\<lparr>f_slen := (if n = - 1 then None else Some (unat n))\<rparr>) args' fmt
      }
      else Some (fl, args, c # fmt))"

text \<open>The flags before the loop, with \<open>fmt\<close> just after the percent sign.\<close>

definition fmt_spec ::
    "'d va_arg list \<Rightarrow> bytes \<Rightarrow> (fmt_flags \<times> 'd va_arg list \<times> bytes) option" where
  "fmt_spec args fmt =
     do {
       c \<leftarrow> rd fmt 0;
       (w, fmt1) \<leftarrow> fmt_digits 0 fmt;
       fmt_flag_loop
         \<lparr>f_zero = (if c = ch_0 then ch_0 else ch_sp), f_width = w, f_sign = True, f_hex = 0,
          f_max_width = False, f_frac_width = 0, f_slen = None\<rparr> args fmt1
     }"

section \<open>Conversions\<close>

text \<open>
  The integer conversions: the fetched value (\<^verbatim>\<open>i64\<close> when the flag \<^verbatim>\<open>sign\<close> is set afterwards,
  \<^verbatim>\<open>ui64\<close> when not), the flags and the remaining arguments.
\<close>

definition fmt_int_arg ::
    "fmt_flags \<Rightarrow> u_char \<Rightarrow> 'd va_arg list \<Rightarrow> (u64 \<times> fmt_flags \<times> 'd va_arg list) option" where
  "fmt_int_arg fl c args =
     (if c = ch CHR ''O'' \<or> c = ch CHR ''T'' \<or> c = ch CHR ''r'' then do {
        (x, args') \<leftarrow> va_64 args; Some (x, fl\<lparr>f_sign := True\<rparr>, args') }
      else if c = ch CHR ''P'' then do {
        (x, args') \<leftarrow> va_32 args; Some (scast x, fl\<lparr>f_sign := True\<rparr>, args') }
      else if c = ch CHR ''M'' then do {
        (x, args') \<leftarrow> va_64 args;
        Some (x, fl\<lparr>f_sign := (x = - 1)\<rparr>, args') }
      else if c = ch CHR ''z'' \<or> c = ch CHR ''l'' \<or> c = ch CHR ''L'' then do {
        (x, args') \<leftarrow> va_64 args; Some (x, fl, args') }
      else if c = ch CHR ''i'' \<or> c = ch CHR ''A'' then do {
        (x, args') \<leftarrow> va_64 args;
        Some (x, (if f_max_width fl then fl\<lparr>f_width := of_nat NGX_INT64_LEN\<rparr> else fl), args') }
      else if c = ch CHR ''d'' \<or> c = ch CHR ''D'' then do {
        (x, args') \<leftarrow> va_32 args;
        Some (if f_sign fl then scast x else ucast x, fl, args') }
      else if c = ch CHR ''p'' then do {
        (x, args') \<leftarrow> va_64 args;
        Some (x, fl\<lparr>f_hex := 2, f_sign := False, f_zero := ch_0, f_width := 16\<rparr>, args') }
      else None)"

definition is_int_conv :: "u_char \<Rightarrow> bool" where
  "is_int_conv c \<longleftrightarrow> c \<in> set (bytes_of ''OPTMzidlDLArp'')"

text \<open>What follows the switch: the sign and the digits. Negating the least value overflows.\<close>

definition fmt_int :: "nat \<Rightarrow> fmt_flags \<Rightarrow> u64 \<Rightarrow> bytes option" where
  "fmt_int room fl x =
     (if f_sign fl \<and> sint x < 0 then do {
        n \<leftarrow> s64 (- sint x);
        ds \<leftarrow> ngx_sprintf_num (room - 1) (word_of_int n) (f_zero fl) (f_hex fl) (unat (f_width fl));
        Some (ch_minus # ds)
      }
      else ngx_sprintf_num room x (f_zero fl) (f_hex fl) (unat (f_width fl)))"

definition fmt_double :: "'d double_ops \<Rightarrow> nat \<Rightarrow> fmt_flags \<Rightarrow> 'd \<Rightarrow> bytes option" where
  "fmt_double D room fl f0 =
     (let pre = (if d_neg D f0 then [ch_minus] else []);
          f = (if d_neg D f0 then d_minus D f0 else f0);
          ui = d_trunc D f;
          scale = (10 :: u64) ^ unat (f_frac_width fl);
          fr = (if f_frac_width fl \<noteq> 0 then d_frac D f ui scale else 0);
          (ui', fr') = (if f_frac_width fl \<noteq> 0 \<and> fr = scale then (ui + 1, 0) else (ui, fr))
      in do {
        ds \<leftarrow> ngx_sprintf_num (room - length pre) ui' (f_zero fl) 0 (unat (f_width fl));
        if f_frac_width fl \<noteq> 0 then
          (let out = pre @ ds;
               out' = (if length out < room then out @ [ch_dot] else out)
           in do {
             fs \<leftarrow> ngx_sprintf_num (room - length out') fr' ch_0 0 (unat (f_frac_width fl));
             Some (out' @ fs)
           })
        else Some (pre @ ds)
      })"

text \<open>Copying a zero-terminated string while there is room.\<close>

fun cpy_cstr :: "nat \<Rightarrow> bytes \<Rightarrow> bytes option" where
  "cpy_cstr room [] = None"
| "cpy_cstr room (c # p) =
     (if c \<noteq> 0 \<and> 0 < room then map_option ((#) c) (cpy_cstr (room - 1) p) else Some [])"

text \<open>
  The switch on the conversion character \<open>c\<close>: what is written and the remaining arguments.
  Every branch then steps over the character.
\<close>

definition fmt_conv ::
    "'d double_ops \<Rightarrow> nat \<Rightarrow> fmt_flags \<Rightarrow> 'd va_arg list \<Rightarrow> u_char
       \<Rightarrow> (bytes \<times> 'd va_arg list) option" where
  "fmt_conv D room fl args c =
     (if c = ch CHR ''V'' then do {
        (s, args') \<leftarrow> va_str args; Some (take (min room (length s)) s, args') }
      else if c = ch CHR ''v'' then do {
        (s, args') \<leftarrow> va_vv args; Some (take (min room (length s)) s, args') }
      else if c = ch CHR ''s'' then do {
        (p, args') \<leftarrow> va_ptr args;
        (case f_slen fl of
           None \<Rightarrow> do { s \<leftarrow> cpy_cstr room p; Some (s, args') }
         | Some n \<Rightarrow>
             (if min room n \<le> length p then Some (take (min room n) p, args') else None))
      }
      else if is_int_conv c then do {
        (x, fl', args') \<leftarrow> fmt_int_arg fl c args;
        out \<leftarrow> fmt_int room fl' x;
        Some (out, args')
      }
      else if c = ch CHR ''f'' then do {
        (f, args') \<leftarrow> va_dbl args;
        out \<leftarrow> fmt_double D room fl f;
        Some (out, args')
      }
      else if c = ch CHR ''c'' then do {
        (d, args') \<leftarrow> va_32 args; Some ([ucast (d AND 0xff)], args') }
      else if c = ch CHR ''Z'' then Some ([0], args)
      else if c = ch CHR ''N'' then Some ([LF], args)
      else if c = ch_percent then Some ([ch_percent], args)
      else Some ([c], args))"

section \<open>The main loop\<close>

lemma fmt_digits_shrinks: "holds (\<lambda>(w', fmt'). length fmt' \<le> length fmt) (fmt_digits w fmt)"
  by (induction w fmt rule: fmt_digits.induct) (auto simp: wp elim!: holds_mono)

lemma fmt_flag_loop_shrinks:
  "holds (\<lambda>(fl', args', fmt'). length fmt' \<le> length fmt) (fmt_flag_loop fl args fmt)"
proof (induction fl args fmt rule: fmt_flag_loop.induct)
  case (2 fl args c fmt)
  show ?case
    by (auto simp: wp simp del: One_nat_def intro!: holdsI dest: holdsD [OF _ fmt_digits_shrinks]
        holdsD [OF _ 2(1)] holdsD [OF _ 2(2)] holdsD [OF _ 2(3)] holdsD [OF _ 2(4)] holdsD [OF _ 2(5)])
qed (simp add: wp)

lemma fmt_spec_shrinks:
  "fmt_spec args fmt = Some (fl, args', fmt') \<Longrightarrow> length fmt' \<le> length fmt"
  by (auto simp: fmt_spec_def bind_eq_Some_conv
      dest!: holdsD [OF _ fmt_digits_shrinks] holdsD [OF _ fmt_flag_loop_shrinks])

function ngx_vslprintf :: "'d double_ops \<Rightarrow> nat \<Rightarrow> bytes \<Rightarrow> 'd va_arg list \<Rightarrow> bytes option" where
  "ngx_vslprintf D room [] args = None"
| "ngx_vslprintf D room (c # fmt) args =
     (if c = 0 \<or> room = 0 then Some []
      else if c = ch_percent then do {
        (fl, args1, fmt1) \<leftarrow> fmt_spec args fmt;
        conv \<leftarrow> rd fmt1 0;
        (out, args2) \<leftarrow> fmt_conv D room fl args1 conv;
        rest \<leftarrow> ngx_vslprintf D (room - length out) (tl fmt1) args2;
        Some (out @ rest)
      }
      else map_option ((#) c) (ngx_vslprintf D (room - 1) fmt args))"
  by pat_completeness auto
termination
  by (relation "measure (\<lambda>(D, room, fmt, args). length fmt)")
    (auto dest!: fmt_spec_shrinks)

text \<open>\<^verbatim>\<open>ngx_snprintf\<close> and \<^verbatim>\<open>ngx_slprintf\<close> pass the size of the buffer.\<close>

definition ngx_snprintf :: "'d double_ops \<Rightarrow> nat \<Rightarrow> bytes \<Rightarrow> 'd va_arg list \<Rightarrow> bytes option" where
  "ngx_snprintf D mx fmt args = ngx_vslprintf D mx fmt args"

definition ngx_slprintf :: "'d double_ops \<Rightarrow> nat \<Rightarrow> bytes \<Rightarrow> 'd va_arg list \<Rightarrow> bytes option" where
  "ngx_slprintf D room fmt args = ngx_vslprintf D room fmt args"

section \<open>No write past the end of the buffer\<close>

lemma sprintf_num_length: "holds (\<lambda>out. length out \<le> room) (ngx_sprintf_num room x z h w)"
  by (auto simp: sprintf_num_eq wp)

lemma fmt_int_length: "0 < room \<Longrightarrow> holds (\<lambda>out. length out \<le> room) (fmt_int room fl x)"
  using sprintf_num_length
  by (auto simp: fmt_int_def wp intro!: holds_mono [OF holds_True] holds_mono [OF sprintf_num_length])

lemma fmt_double_length: "0 < room \<Longrightarrow> holds (\<lambda>out. length out \<le> room) (fmt_double D room fl f)"
  by (auto simp: fmt_double_def Let_def wp split: prod.split intro!: holds_mono [OF sprintf_num_length])

lemma cpy_cstr_length: "holds (\<lambda>s. length s \<le> room) (cpy_cstr room p)"
  by (induction room p rule: cpy_cstr.induct) (auto simp: wp elim!: holds_mono)

lemma fmt_conv_length:
  "0 < room \<Longrightarrow> holds (\<lambda>(out, args'). length out \<le> room) (fmt_conv D room fl args c)"
  by (auto simp: fmt_conv_def wp split: option.split
      intro!: holdsI dest: holdsD [OF _ cpy_cstr_length]
      holdsD [OF _ fmt_int_length] holdsD [OF _ fmt_double_length])

lemma vslprintf_length: "holds (\<lambda>out. length out \<le> room) (ngx_vslprintf D room fmt args)"
proof (induction D room fmt args rule: ngx_vslprintf.induct)
  case (2 D room c fmt args)
  show ?case
  proof (cases "c = 0 \<or> room = 0")
    case False
    have "length out \<le> room" if "ngx_vslprintf D room (c # fmt) args = Some out" for out
    proof (cases "c = ch_percent")
      case True
      with False that obtain fl args1 fmt1 conv o1 args2 rest where
        s: "fmt_spec args fmt = Some (fl, args1, fmt1)" "rd fmt1 0 = Some conv"
           "fmt_conv D room fl args1 conv = Some (o1, args2)"
           "ngx_vslprintf D (room - length o1) (tl fmt1) args2 = Some rest" "out = o1 @ rest"
        by (auto simp: bind_eq_Some_conv)
      have "length o1 \<le> room" using holdsD [OF s(3) fmt_conv_length] False by simp
      with holdsD [OF s(4) "2.IH"(1) [OF False True s(1) refl refl s(2,3) refl]] s(5)
      show ?thesis by simp
    next
      case lit: False
      with False that obtain rest where
        "ngx_vslprintf D (room - 1) fmt args = Some rest" "out = c # rest"
        by auto
      with holdsD [OF _ "2.IH"(2) [OF False lit]] False show ?thesis by fastforce
    qed
    then show ?thesis by (simp add: holds_def del: ngx_vslprintf.simps)
  qed (auto simp: wp)
qed (simp add: wp)

text \<open>A type of doubles with one value, zero, for the closed examples.\<close>

definition zero_double :: "unit double_ops" where
  "zero_double = \<lparr>d_neg = (\<lambda>_. False), d_minus = (\<lambda>f. f), d_trunc = (\<lambda>_. 0),
     d_frac = (\<lambda>_ _ _. 0)\<rparr>"

section \<open>The output is a prefix of the ideal output\<close>

text \<open>A format as the sequence of its parts, each with its argument and its full output.\<close>

datatype piece =
    PLit bytes
  | PStr bytes              \<comment> \<open>\<^verbatim>\<open>%V\<close>\<close>
  | PCstr bytes bytes       \<comment> \<open>\<^verbatim>\<open>%s\<close>, the string and what follows its zero in memory\<close>
  | PUint u64               \<comment> \<open>\<^verbatim>\<open>%uL\<close>\<close>
  | PInt u64                \<comment> \<open>\<^verbatim>\<open>%L\<close>\<close>
  | PHex u64                \<comment> \<open>\<^verbatim>\<open>%xL\<close>\<close>
  | PPad nat u64            \<comment> \<open>\<^verbatim>\<open>%0\<close>width\<^verbatim>\<open>uL\<close>\<close>

fun piece_ok :: "piece \<Rightarrow> bool" where
  "piece_ok (PLit s) \<longleftrightarrow> list_all (\<lambda>c. c \<noteq> 0 \<and> c \<noteq> ch_percent) s"
| "piece_ok (PCstr s m) \<longleftrightarrow> list_all (\<lambda>c. c \<noteq> 0) s"
| "piece_ok (PInt x) \<longleftrightarrow> - (2 ^ 63) < sint x"
| "piece_ok (PPad w x) \<longleftrightarrow> w < 2 ^ 64"
| "piece_ok _ \<longleftrightarrow> True"

fun piece_fmt :: "piece \<Rightarrow> bytes" where
  "piece_fmt (PLit s) = s"
| "piece_fmt (PStr s) = bytes_of ''%V''"
| "piece_fmt (PCstr s m) = bytes_of ''%s''"
| "piece_fmt (PUint x) = bytes_of ''%uL''"
| "piece_fmt (PInt x) = bytes_of ''%L''"
| "piece_fmt (PHex x) = bytes_of ''%xL''"
| "piece_fmt (PPad w x) = bytes_of ''%0'' @ dec_repr w @ bytes_of ''uL''"

fun piece_args :: "piece \<Rightarrow> 'd va_arg list" where
  "piece_args (PLit s) = []"
| "piece_args (PStr s) = [VA_str s]"
| "piece_args (PCstr s m) = [VA_ptr (s @ 0 # m)]"
| "piece_args (PUint x) = [VA_64 x]"
| "piece_args (PInt x) = [VA_64 x]"
| "piece_args (PHex x) = [VA_64 x]"
| "piece_args (PPad w x) = [VA_64 x]"

fun piece_out :: "piece \<Rightarrow> bytes" where
  "piece_out (PLit s) = s"
| "piece_out (PStr s) = s"
| "piece_out (PCstr s m) = s"
| "piece_out (PUint x) = dec_repr (unat x)"
| "piece_out (PInt x) =
     (if sint x < 0 then ch_minus # dec_repr (nat (- sint x)) else dec_repr (unat x))"
| "piece_out (PHex x) = hex_repr hex_lower (unat x)"
| "piece_out (PPad w x) = replicate (w - length (dec_repr (unat x))) ch_0 @ dec_repr (unat x)"

lemma vslprintf_room0: "fmt \<noteq> [] \<Longrightarrow> ngx_vslprintf D 0 fmt args = Some []"
  by (cases fmt) auto

lemma map_append_Nil: "map_option ((@) []) m = m"
  by (cases m) simp_all

lemma vslprintf_lit:
  assumes "list_all (\<lambda>c. c \<noteq> 0 \<and> c \<noteq> ch_percent) s" "fmt \<noteq> []"
  shows "ngx_vslprintf D room (s @ fmt) args =
    map_option ((@) (take room s)) (ngx_vslprintf D (room - length s) fmt args)"
  using assms(1)
proof (induction s arbitrary: room)
  case (Cons c s)
  show ?case
  proof (cases room)
    case 0
    with assms(2) show ?thesis by (simp add: vslprintf_room0)
  next
    case (Suc r)
    with Cons show ?thesis by (simp add: option.map_comp comp_def)
  qed
qed (simp add: map_append_Nil)

lemma fmt_digits_dec:
  assumes "list_all is_digit ds" "\<not> is_digit c"
  shows "fmt_digits (word_of_int k) (ds @ c # r) = Some (word_of_int (dec_acc k ds), c # r)"
  using assms
proof (induction ds arbitrary: k)
  case (Cons d ds)
  have "word_of_int k * 10 + ucast d - 0x30 = (word_of_int (k * 10 + (uint d - 0x30)) :: u64)"
    by (simp add: word_of_int_uint)
  with Cons.IH [of "k * 10 + (uint d - 0x30)"] Cons.prems show ?case
    by (simp only: list.pred_inject is_digit_def append_Cons fmt_digits.simps dec_acc.simps) simp
qed (auto simp: is_digit_def)

lemma cpy_cstr_eq:
  "list_all (\<lambda>c. c \<noteq> 0) s \<Longrightarrow> cpy_cstr room (s @ 0 # m) = Some (take room s)"
proof (induction s arbitrary: room)
  case (Cons c s)
  then show ?case by (cases room) auto
qed simp

text \<open>The specifications of the parts, and what the switch prints for each.\<close>

abbreviation fl0 :: fmt_flags where
  "fl0 \<equiv> \<lparr>f_zero = ch_sp, f_width = 0, f_sign = True, f_hex = 0, f_max_width = False,
     f_frac_width = 0, f_slen = None\<rparr>"

lemma fmt_spec_simple:
  "fmt_spec args (ch CHR ''V'' # fmt) = Some (fl0, args, ch CHR ''V'' # fmt)"
  "fmt_spec args (ch CHR ''s'' # fmt) = Some (fl0, args, ch CHR ''s'' # fmt)"
  "fmt_spec args (ch CHR ''L'' # fmt) = Some (fl0, args, ch CHR ''L'' # fmt)"
  "fmt_spec args (ch CHR ''u'' # ch CHR ''L'' # fmt) =
     Some (fl0\<lparr>f_sign := False\<rparr>, args, ch CHR ''L'' # fmt)"
  "fmt_spec args (ch CHR ''x'' # ch CHR ''L'' # fmt) =
     Some (fl0\<lparr>f_hex := 1, f_sign := False\<rparr>, args, ch CHR ''L'' # fmt)"
  by (simp_all add: fmt_spec_def)

lemma fmt_spec_pad:
  assumes "w < 2 ^ 64"
  shows "fmt_spec args (ch_0 # dec_repr w @ ch CHR ''u'' # ch CHR ''L'' # fmt) =
    Some (fl0\<lparr>f_zero := ch_0, f_width := of_nat w, f_sign := False\<rparr>, args, ch CHR ''L'' # fmt)"
  using fmt_digits_dec [of "ch_0 # dec_repr w" "ch CHR ''u''" 0 "ch CHR ''L'' # fmt"]
  by (simp add: fmt_spec_def is_digit_def dec_repr_digits dec_value_dec_repr)

lemma fmt_conv_num:
  "fmt_conv D room fl (VA_64 x # args) (ch CHR ''L'') = map_option (\<lambda>out. (out, args)) (fmt_int room fl x)"
  by (cases "fmt_int room fl x")
    (simp_all add: fmt_conv_def is_int_conv_def bytes_of_def fmt_int_arg_def)

lemma fmt_int_uint:
  "\<not> f_sign fl \<Longrightarrow> fmt_int room fl x =
     Some (take room (replicate (unat (f_width fl) - length (num_repr (f_hex fl) (unat x))) (f_zero fl)
       @ num_repr (f_hex fl) (unat x)))"
  by (simp add: fmt_int_def sprintf_num_eq)

lemma fmt_int_int:
  assumes "- (2 ^ 63) < sint x" "0 < room"
  shows "fmt_int room fl0 x = Some (take room (piece_out (PInt x)))"
proof (cases "sint x < 0")
  case True
  obtain r where r: "room = Suc r" using assms(2) by (cases room) auto
  have "(word_of_int (- sint x) :: u64) = word_of_nat (nat (- sint x))" using True by simp
  then have "unat (word_of_int (- sint x) :: u64) = nat (- sint x)"
    using True assms(1) by (simp only: unat_of_nat) (simp add: nat_less_iff)
  moreover have "s64 (- sint x) = Some (- sint x)"
    using True assms(1) by (auto intro!: s64_in)
  ultimately show ?thesis
    using True r by (simp add: fmt_int_def sprintf_num_eq num_repr_def)
qed (simp add: fmt_int_def sprintf_num_eq num_repr_def)

lemma vslprintf_conv:
  assumes "fmt_spec args0 spec = Some (fl, args1, conv # fmt)" "0 < room"
    and "fmt_conv D room fl args1 conv = Some (take room o1, args2)"
  shows "ngx_vslprintf D room (ch_percent # spec) args0 =
    map_option ((@) (take room o1)) (ngx_vslprintf D (room - length o1) fmt args2)"
proof -
  have "room - length (take room o1) = room - length o1" by simp
  with assms show ?thesis
    by (cases "ngx_vslprintf D (room - length o1) fmt args2") (simp_all del: length_take)
qed

lemma vslprintf_piece:
  assumes "piece_ok p" "fmt \<noteq> []" "0 < room"
  shows "ngx_vslprintf D room (piece_fmt p @ fmt) (piece_args p @ args) =
    map_option ((@) (take room (piece_out p))) (ngx_vslprintf D (room - length (piece_out p)) fmt args)"
proof (cases p)
  case (PLit s)
  with assms show ?thesis by (simp add: vslprintf_lit)
next
  case (PStr s)
  have "fmt_conv D room fl0 (VA_str s # args) (ch CHR ''V'') = Some (take room s, args)"
    by (simp add: fmt_conv_def min_def)
  from vslprintf_conv [OF fmt_spec_simple(1) assms(3) this] PStr show ?thesis
    by (simp add: bytes_of_def)
next
  case (PCstr s m)
  with assms(1) have "fmt_conv D room fl0 (VA_ptr (s @ 0 # m) # args) (ch CHR ''s'') = Some (take room s, args)"
    by (simp add: fmt_conv_def cpy_cstr_eq)
  from vslprintf_conv [OF fmt_spec_simple(2) assms(3) this] PCstr show ?thesis
    by (simp add: bytes_of_def)
next
  case (PUint x)
  have "fmt_conv D room (fl0\<lparr>f_sign := False\<rparr>) (VA_64 x # args) (ch CHR ''L'') =
      Some (take room (dec_repr (unat x)), args)"
    unfolding fmt_conv_num by (simp add: fmt_int_uint num_repr_def)
  from vslprintf_conv [OF fmt_spec_simple(4) assms(3) this] PUint show ?thesis
    by (simp add: bytes_of_def)
next
  case (PInt x)
  have "fmt_conv D room fl0 (VA_64 x # args) (ch CHR ''L'') =
      Some (take room (piece_out (PInt x)), args)"
    unfolding fmt_conv_num using assms PInt by (simp only: piece_ok.simps fmt_int_int) simp
  from vslprintf_conv [OF fmt_spec_simple(3) assms(3) this] PInt show ?thesis
    by (simp add: bytes_of_def)
next
  case (PHex x)
  have "fmt_conv D room (fl0\<lparr>f_hex := 1, f_sign := False\<rparr>) (VA_64 x # args) (ch CHR ''L'') =
      Some (take room (hex_repr hex_lower (unat x)), args)"
    unfolding fmt_conv_num by (simp add: fmt_int_uint num_repr_def)
  from vslprintf_conv [OF fmt_spec_simple(5) assms(3) this] PHex show ?thesis
    by (simp add: bytes_of_def)
next
  case (PPad w x)
  then have w: "w < 2 ^ 64" using assms(1) by simp
  have "fmt_conv D room (fl0\<lparr>f_zero := ch_0, f_width := of_nat w, f_sign := False\<rparr>)
      (VA_64 x # args) (ch CHR ''L'') = Some (take room (piece_out (PPad w x)), args)"
    unfolding fmt_conv_num using w by (simp add: fmt_int_uint num_repr_def unat_of_nat)
  from vslprintf_conv [OF fmt_spec_pad [OF w] assms(3) this] PPad show ?thesis
    by (simp add: bytes_of_def)
qed

lemma vslprintf_pieces:
  assumes "list_all piece_ok ps"
  shows "ngx_vslprintf D room (concat (map piece_fmt ps) @ [0]) (concat (map piece_args ps)) =
    Some (take room (concat (map piece_out ps)))"
  using assms
proof (induction ps arbitrary: room)
  case (Cons p ps)
  show ?case
  proof (cases "room = 0")
    case True
    then show ?thesis by (simp add: vslprintf_room0)
  next
    case False
    with Cons vslprintf_piece [of p "concat (map piece_fmt ps) @ [0]" room D "concat (map piece_args ps)"]
    show ?thesis by simp
  qed
qed simp

text \<open>
  C35. Neither \<^verbatim>\<open>ngx_snprintf\<close> nor \<^verbatim>\<open>ngx_slprintf\<close> writes past the end it is given: when the result is defined
  (the format ends, the arguments are those it asks for and no negation overflows), it has at most \<^verbatim>\<open>max\<close> bytes, or
  at most those between \<^verbatim>\<open>buf\<close> and \<^verbatim>\<open>last\<close>, whatever the conversions and the floating-point operations are. And it
  is defined, and is exactly the part of the ideal output that fits, for every sequence of literal text, strings,
  and signed, unsigned, hexadecimal and zero-padded numbers.
\<close>

theorem ngx_snprintf_bounded:
  "(ngx_snprintf D mx fmt args = Some out \<longrightarrow> length out \<le> mx)
   \<and> (ngx_slprintf D room fmt args = Some out \<longrightarrow> length out \<le> room)
   \<and> (list_all piece_ok ps \<longrightarrow>
       ngx_snprintf D mx (concat (map piece_fmt ps) @ [0]) (concat (map piece_args ps))
         = Some (take mx (concat (map piece_out ps)))
       \<and> ngx_slprintf D room (concat (map piece_fmt ps) @ [0]) (concat (map piece_args ps))
         = Some (take room (concat (map piece_out ps))))"
  unfolding ngx_snprintf_def ngx_slprintf_def
  using vslprintf_length [of mx D fmt args] vslprintf_length [of room D fmt args] vslprintf_pieces [of ps D]
  by (auto simp: holds_def)

theorem ngx_snprintf_bounded_witness:
  "ngx_snprintf zero_double 2 (bytes_of ''%Vc'' @ [0]) [VA_str (bytes_of ''abc'')] = Some (bytes_of ''ab'')
   \<and> length (bytes_of ''ab'') \<le> 2
   \<and> ngx_slprintf zero_double 12 (bytes_of ''id=%0'' @ dec_repr 4 @ bytes_of ''uL;%L'' @ [0]) [VA_64 7, VA_64 (- 12)]
     = Some (take 12 (bytes_of ''id=0007;-12''))"
proof -
  have "ngx_snprintf zero_double 2 (bytes_of ''%Vc'' @ [0]) [VA_str (bytes_of ''abc'')] = Some (bytes_of ''ab'')"
    by (simp add: ngx_snprintf_def bytes_of_def fmt_spec_def fmt_conv_def)
  with ngx_snprintf_bounded [of zero_double 2 "bytes_of ''%Vc'' @ [0]" "[VA_str (bytes_of ''abc'')]" "bytes_of ''ab''"]
    ngx_snprintf_bounded [where ps = "[PLit (bytes_of ''id=''), PPad 4 7, PLit (bytes_of '';''), PInt (- 12)]"
      and D = zero_double and room = 12]
  show ?thesis by (simp add: bytes_of_def dec_repr.simps numeral_3_eq_3)
qed

end
