(* ===== verification/Ngx_Base64.thy ===== *)
theory Ngx_Base64
  imports Ngx_Prelude
begin

text \<open>
  Base64 as \<^verbatim>\<open>ngx_string.c\<close> does it: the two encoders and decoders over their shared
  internals. The output of the encoder is the list of bytes written to \<^verbatim>\<open>dst->data\<close>; the
  decoder returns \<open>None\<close> for \<^verbatim>\<open>NGX_ERROR\<close>, otherwise the bytes written. The decoder's
  table lookups are indexed by a byte, so they cannot leave the 256 entries.
\<close>

section \<open>Encoding\<close>

definition basis64_encode :: bytes where
  "basis64_encode = bytes_of ''ABCDEFGHIJKLMNOPQRSTUVWXYZabcdefghijklmnopqrstuvwxyz0123456789+/''"

definition basis64url_encode :: bytes where
  "basis64url_encode = bytes_of ''ABCDEFGHIJKLMNOPQRSTUVWXYZabcdefghijklmnopqrstuvwxyz0123456789-_''"

text \<open>The four 6-bit digits of a group of three bytes, and the last digit of a short group.\<close>

definition six0 :: "u_char \<Rightarrow> u_char" where
  "six0 s0 = drop_bit 2 s0 AND 0x3f"

definition six1 :: "u_char \<Rightarrow> u_char \<Rightarrow> u_char" where
  "six1 s0 s1 = push_bit 4 (s0 AND 3) OR drop_bit 4 s1"

definition six2 :: "u_char \<Rightarrow> u_char \<Rightarrow> u_char" where
  "six2 s1 s2 = push_bit 2 (s1 AND 0x0f) OR drop_bit 6 s2"

definition six3 :: "u_char \<Rightarrow> u_char" where
  "six3 s2 = s2 AND 0x3f"

definition six1_last :: "u_char \<Rightarrow> u_char" where
  "six1_last s0 = push_bit 4 (s0 AND 3)"

definition six2_last :: "u_char \<Rightarrow> u_char" where
  "six2_last s1 = push_bit 2 (s1 AND 0x0f)"

lemmas six_defs = six0_def six1_def six2_def six3_def six1_last_def six2_last_def

fun ngx_encode_base64_internal :: "bytes \<Rightarrow> bool \<Rightarrow> bytes \<Rightarrow> bytes" where
  "ngx_encode_base64_internal basis padding (s0 # s1 # s2 # s) =
     basis ! unat (six0 s0) # basis ! unat (six1 s0 s1)
     # basis ! unat (six2 s1 s2) # basis ! unat (six3 s2)
     # ngx_encode_base64_internal basis padding s"
| "ngx_encode_base64_internal basis padding [s0, s1] =
     [basis ! unat (six0 s0), basis ! unat (six1 s0 s1), basis ! unat (six2_last s1)]
     @ (if padding then [ch_eq] else [])"
| "ngx_encode_base64_internal basis padding [s0] =
     [basis ! unat (six0 s0), basis ! unat (six1_last s0)]
     @ (if padding then [ch_eq] else []) @ (if padding then [ch_eq] else [])"
| "ngx_encode_base64_internal basis padding [] = []"

definition ngx_encode_base64 :: "bytes \<Rightarrow> bytes" where
  "ngx_encode_base64 src = ngx_encode_base64_internal basis64_encode True src"

definition ngx_encode_base64url :: "bytes \<Rightarrow> bytes" where
  "ngx_encode_base64url src = ngx_encode_base64_internal basis64url_encode False src"

definition ngx_base64_encoded_length :: "nat \<Rightarrow> nat" where
  "ngx_base64_encoded_length len = ((len + 2) div 3) * 4"

definition ngx_base64_decoded_length :: "nat \<Rightarrow> nat" where
  "ngx_base64_decoded_length len = ((len + 3) div 4) * 3"

section \<open>Decoding\<close>

definition basis64_decode :: bytes where
  "basis64_decode = [
     77, 77, 77, 77, 77, 77, 77, 77, 77, 77, 77, 77, 77, 77, 77, 77,
     77, 77, 77, 77, 77, 77, 77, 77, 77, 77, 77, 77, 77, 77, 77, 77,
     77, 77, 77, 77, 77, 77, 77, 77, 77, 77, 77, 62, 77, 77, 77, 63,
     52, 53, 54, 55, 56, 57, 58, 59, 60, 61, 77, 77, 77, 77, 77, 77,
     77, 0, 1, 2, 3, 4, 5, 6, 7, 8, 9, 10, 11, 12, 13, 14,
     15, 16, 17, 18, 19, 20, 21, 22, 23, 24, 25, 77, 77, 77, 77, 77,
     77, 26, 27, 28, 29, 30, 31, 32, 33, 34, 35, 36, 37, 38, 39, 40,
     41, 42, 43, 44, 45, 46, 47, 48, 49, 50, 51, 77, 77, 77, 77, 77,
     77, 77, 77, 77, 77, 77, 77, 77, 77, 77, 77, 77, 77, 77, 77, 77,
     77, 77, 77, 77, 77, 77, 77, 77, 77, 77, 77, 77, 77, 77, 77, 77,
     77, 77, 77, 77, 77, 77, 77, 77, 77, 77, 77, 77, 77, 77, 77, 77,
     77, 77, 77, 77, 77, 77, 77, 77, 77, 77, 77, 77, 77, 77, 77, 77,
     77, 77, 77, 77, 77, 77, 77, 77, 77, 77, 77, 77, 77, 77, 77, 77,
     77, 77, 77, 77, 77, 77, 77, 77, 77, 77, 77, 77, 77, 77, 77, 77,
     77, 77, 77, 77, 77, 77, 77, 77, 77, 77, 77, 77, 77, 77, 77, 77,
     77, 77, 77, 77, 77, 77, 77, 77, 77, 77, 77, 77, 77, 77, 77, 77
   ]"

definition basis64url_decode :: bytes where
  "basis64url_decode = [
     77, 77, 77, 77, 77, 77, 77, 77, 77, 77, 77, 77, 77, 77, 77, 77,
     77, 77, 77, 77, 77, 77, 77, 77, 77, 77, 77, 77, 77, 77, 77, 77,
     77, 77, 77, 77, 77, 77, 77, 77, 77, 77, 77, 77, 77, 62, 77, 77,
     52, 53, 54, 55, 56, 57, 58, 59, 60, 61, 77, 77, 77, 77, 77, 77,
     77, 0, 1, 2, 3, 4, 5, 6, 7, 8, 9, 10, 11, 12, 13, 14,
     15, 16, 17, 18, 19, 20, 21, 22, 23, 24, 25, 77, 77, 77, 77, 63,
     77, 26, 27, 28, 29, 30, 31, 32, 33, 34, 35, 36, 37, 38, 39, 40,
     41, 42, 43, 44, 45, 46, 47, 48, 49, 50, 51, 77, 77, 77, 77, 77,
     77, 77, 77, 77, 77, 77, 77, 77, 77, 77, 77, 77, 77, 77, 77, 77,
     77, 77, 77, 77, 77, 77, 77, 77, 77, 77, 77, 77, 77, 77, 77, 77,
     77, 77, 77, 77, 77, 77, 77, 77, 77, 77, 77, 77, 77, 77, 77, 77,
     77, 77, 77, 77, 77, 77, 77, 77, 77, 77, 77, 77, 77, 77, 77, 77,
     77, 77, 77, 77, 77, 77, 77, 77, 77, 77, 77, 77, 77, 77, 77, 77,
     77, 77, 77, 77, 77, 77, 77, 77, 77, 77, 77, 77, 77, 77, 77, 77,
     77, 77, 77, 77, 77, 77, 77, 77, 77, 77, 77, 77, 77, 77, 77, 77,
     77, 77, 77, 77, 77, 77, 77, 77, 77, 77, 77, 77, 77, 77, 77, 77
   ]"

text \<open>The first loop: how many bytes come before \<^verbatim>\<open>=\<close>, unless one is not in the alphabet.\<close>

fun base64_scan :: "bytes \<Rightarrow> nat \<Rightarrow> bytes \<Rightarrow> nat option" where
  "base64_scan basis len [] = Some len"
| "base64_scan basis len (c # src) =
     (if c = ch_eq then Some len
      else if basis ! unat c = 77 then None
      else base64_scan basis (Suc len) src)"

text \<open>The second loop and the two partial groups after it.\<close>

fun base64_groups :: "bytes \<Rightarrow> bytes \<Rightarrow> bytes" where
  "base64_groups basis (s0 # s1 # s2 # s3 # s) =
     (push_bit 2 (basis ! unat s0) OR drop_bit 4 (basis ! unat s1))
     # (push_bit 4 (basis ! unat s1) OR drop_bit 2 (basis ! unat s2))
     # (push_bit 6 (basis ! unat s2) OR basis ! unat s3)
     # base64_groups basis s"
| "base64_groups basis [s0, s1, s2] =
     [push_bit 2 (basis ! unat s0) OR drop_bit 4 (basis ! unat s1),
      push_bit 4 (basis ! unat s1) OR drop_bit 2 (basis ! unat s2)]"
| "base64_groups basis [s0, s1] =
     [push_bit 2 (basis ! unat s0) OR drop_bit 4 (basis ! unat s1)]"
| "base64_groups basis _ = []"

definition ngx_decode_base64_internal :: "bytes \<Rightarrow> bytes \<Rightarrow> bytes option" where
  "ngx_decode_base64_internal basis src =
     (case base64_scan basis 0 src of
        None \<Rightarrow> None
      | Some len \<Rightarrow> if len mod 4 = 1 then None else Some (base64_groups basis (take len src)))"

definition ngx_decode_base64 :: "bytes \<Rightarrow> bytes option" where
  "ngx_decode_base64 src = ngx_decode_base64_internal basis64_decode src"

definition ngx_decode_base64url :: "bytes \<Rightarrow> bytes option" where
  "ngx_decode_base64url src = ngx_decode_base64_internal basis64url_decode src"

section \<open>Regrouping 8-bit into 6-bit digits\<close>

lemma byte_eqI:
  fixes a b :: u_char
  assumes "bit a 0 = bit b 0" "bit a 1 = bit b 1" "bit a 2 = bit b 2" "bit a 3 = bit b 3"
    "bit a 4 = bit b 4" "bit a 5 = bit b 5" "bit a 6 = bit b 6" "bit a 7 = bit b 7"
  shows "a = b"
proof (rule bit_word_eqI)
  fix n assume "n < LENGTH(8)"
  then have "n \<in> {0, 1, 2, 3, 4, 5, 6, 7}" by auto
  with assms show "bit a n = bit b n" by auto
qed

lemma byte_bit_high: "8 \<le> n \<Longrightarrow> \<not> bit (c :: u_char) n"
  using bit_imp_le_length [of c n] by auto

lemma six_lt:
  "unat (six0 s0) < 64" "unat (six1 s0 s1) < 64" "unat (six2 s1 s2) < 64" "unat (six3 s2) < 64"
  "unat (six1_last s0) < 64" "unat (six2_last s1) < 64"
proof -
  have six: "unat x < 64" if "\<not> bit x 6" "\<not> bit x 7" for x :: u_char
  proof -
    have "take_bit 6 x = x" using that by (intro byte_eqI) (simp_all add: bit_simps)
    moreover have "unat (take_bit 6 x) < 64" by (simp only: unat_take_bit) simp
    ultimately show ?thesis by simp
  qed
  show "unat (six0 s0) < 64" "unat (six1 s0 s1) < 64" "unat (six2 s1 s2) < 64" "unat (six3 s2) < 64"
    "unat (six1_last s0) < 64" "unat (six2_last s1) < 64"
    by (rule six; simp add: six_defs and_mask_eq bit_simps byte_bit_high)+
qed

lemma regroup:
  "push_bit 2 (six0 a) OR drop_bit 4 (six1 a b) = a"
  "push_bit 2 (six0 a) OR drop_bit 4 (six1_last a) = a"
  "push_bit 4 (six1 a b) OR drop_bit 2 (six2 b c) = b"
  "push_bit 4 (six1 a b) OR drop_bit 2 (six2_last b) = b"
  "push_bit 6 (six2 b c) OR six3 c = c"
  by (rule byte_eqI; simp add: six_defs and_mask_eq bit_simps)+

lemma group3_induct [case_names three two one zero]:
  assumes "\<And>a b c s. P s \<Longrightarrow> P (a # b # c # s)" "\<And>a b. P [a, b]" "\<And>a. P [a]" "P []"
  shows "P (xs :: bytes)"
  using assms by (rule ngx_encode_base64_internal.induct [where P = "\<lambda>_ _ s. P s"])

section \<open>The alphabet contract\<close>

text \<open>
  What the internals need of an encoding basis and a decoding basis: each of the 64 digits is
  mapped back, and no digit is the padding character or decodes to the error mark.
\<close>

locale base64_alphabet =
  fixes ebasis dbasis :: bytes
  assumes decode_digit: "n < 64 \<Longrightarrow> dbasis ! unat (ebasis ! n) = word_of_nat n"
    and digit_not_pad: "n < 64 \<Longrightarrow> ebasis ! n \<noteq> ch_eq"
begin

lemma decode_digit6: "unat v < 64 \<Longrightarrow> dbasis ! unat (ebasis ! unat v) = v"
  by (simp add: decode_digit)

lemma digit_valid: "n < 64 \<Longrightarrow> dbasis ! unat (ebasis ! n) \<noteq> 77"
proof
  assume n: "n < 64" and "dbasis ! unat (ebasis ! n) = 77"
  then have "(word_of_nat n :: u_char) = 77" by (simp add: decode_digit)
  then have "unat (word_of_nat n :: u_char) = unat (77 :: u_char)" by (rule arg_cong)
  with n show False by (simp add: unat_of_nat)
qed

lemma scan_encoded:
  "base64_scan dbasis len (ngx_encode_base64_internal ebasis padding src) =
     Some (len + length (ngx_encode_base64_internal ebasis False src))"
  by (induction src arbitrary: len rule: group3_induct)
    (simp_all add: six_lt digit_not_pad digit_valid)

lemma encoded_prefix:
  "take (length (ngx_encode_base64_internal ebasis False src)) (ngx_encode_base64_internal ebasis padding src)
     = ngx_encode_base64_internal ebasis False src"
  by (induction src rule: group3_induct) simp_all

lemma groups_encoded:
  "base64_groups dbasis (ngx_encode_base64_internal ebasis False src) = src"
  by (induction src rule: group3_induct) (simp_all add: six_lt decode_digit6 regroup)

lemma encoded_not_1: "length (ngx_encode_base64_internal ebasis False src) mod 4 \<noteq> 1"
  by (induction src rule: group3_induct) simp_all

lemma decode_encode:
  "ngx_decode_base64_internal dbasis (ngx_encode_base64_internal ebasis padding src) = Some src"
  using encoded_not_1 [of src]
  by (simp add: ngx_decode_base64_internal_def scan_encoded encoded_prefix groups_encoded)

end

interpretation std: base64_alphabet basis64_encode basis64_decode
proof
  show "basis64_decode ! unat (basis64_encode ! n) = word_of_nat n" if "n < 64" for n
    using that by (rule upto_all_I [rotated]) code_simp
  show "basis64_encode ! n \<noteq> ch_eq" if "n < 64" for n
    using that by (rule upto_all_I [rotated]) code_simp
qed

interpretation url: base64_alphabet basis64url_encode basis64url_decode
proof
  show "basis64url_decode ! unat (basis64url_encode ! n) = word_of_nat n" if "n < 64" for n
    using that by (rule upto_all_I [rotated]) code_simp
  show "basis64url_encode ! n \<noteq> ch_eq" if "n < 64" for n
    using that by (rule upto_all_I [rotated]) code_simp
qed

section \<open>Round trips and buffer sizes\<close>

text \<open>
  C34. Decoding inverts encoding on every input, for the standard padded alphabet and for
  the URL alphabet without padding.
\<close>

theorem base64_roundtrip:
  "ngx_decode_base64 (ngx_encode_base64 src) = Some src
   \<and> ngx_decode_base64url (ngx_encode_base64url src) = Some src"
  by (simp add: ngx_decode_base64_def ngx_encode_base64_def ngx_decode_base64url_def
      ngx_encode_base64url_def std.decode_encode url.decode_encode)

lemma encode_length:
  "length (ngx_encode_base64_internal basis padding src) =
     (if padding then ngx_base64_encoded_length (length src) else (4 * length src + 2) div 3)"
proof (induction src rule: group3_induct)
  case (three a b c s)
  have "(length s + 5) div 3 = Suc ((length s + 2) div 3)"
    "(4 * length s + 14) div 3 = (4 * length s + 2) div 3 + 4" by presburger+
  with three show ?case by (simp add: ngx_base64_encoded_length_def add.commute)
qed (simp_all add: ngx_base64_encoded_length_def)

lemma scan_bound: "holds (\<lambda>len. n \<le> len \<and> len - n \<le> length src) (base64_scan basis n src)"
  by (induction basis n src rule: base64_scan.induct) (auto simp: wp elim!: holds_mono)

lemma groups_length: "length (base64_groups basis src) \<le> ngx_base64_decoded_length (length src)"
proof (induction basis src rule: base64_groups.induct)
  case (1 basis s0 s1 s2 s3 s)
  have "(length s + 7) div 4 = Suc ((length s + 3) div 4)" by presburger
  with 1 show ?case by (simp add: ngx_base64_decoded_length_def add.commute)
qed (simp_all add: ngx_base64_decoded_length_def)

lemma decoded_length_mono: "m \<le> n \<Longrightarrow> ngx_base64_decoded_length m \<le> ngx_base64_decoded_length n"
  by (simp add: ngx_base64_decoded_length_def div_le_mono)

text \<open>
  The size macros are right: the padded encoder writes exactly
  \<^verbatim>\<open>ngx_base64_encoded_length\<close> bytes, the URL encoder at most as many, and no decoder writes
  more than \<^verbatim>\<open>ngx_base64_decoded_length\<close> bytes, on any input and with any table.
\<close>

theorem base64_lengths:
  "length (ngx_encode_base64 src) = ngx_base64_encoded_length (length src)
   \<and> length (ngx_encode_base64url src) \<le> ngx_base64_encoded_length (length src)
   \<and> (\<forall>basis out. ngx_decode_base64_internal basis src = Some out
        \<longrightarrow> length out \<le> ngx_base64_decoded_length (length src))"
proof (intro conjI allI impI)
  show "length (ngx_encode_base64 src) = ngx_base64_encoded_length (length src)"
    by (simp add: ngx_encode_base64_def encode_length)
  show "length (ngx_encode_base64url src) \<le> ngx_base64_encoded_length (length src)"
    unfolding ngx_encode_base64url_def encode_length ngx_base64_encoded_length_def by simp
  fix basis out assume "ngx_decode_base64_internal basis src = Some out"
  then obtain len where "base64_scan basis 0 src = Some len" and out: "out = base64_groups basis (take len src)"
    by (auto simp: ngx_decode_base64_internal_def split: option.splits if_splits)
  with holdsD [OF _ scan_bound] have "length (take len src) \<le> length src" by simp
  with out groups_length [of basis "take len src"] decoded_length_mono
  show "length out \<le> ngx_base64_decoded_length (length src)"
    by (meson order_trans)
qed

theorem base64_lengths_witness:
  "length (ngx_encode_base64 (bytes_of ''ab'')) = 4
   \<and> ngx_decode_base64_internal basis64_decode (bytes_of ''YWI='') = Some (bytes_of ''ab'')
   \<and> length (bytes_of ''ab'') \<le> ngx_base64_decoded_length (length (bytes_of ''YWI=''))"
proof -
  have d: "ngx_decode_base64_internal basis64_decode (bytes_of ''YWI='') = Some (bytes_of ''ab'')"
    by code_simp
  with base64_lengths [of "bytes_of ''YWI=''"] base64_lengths [of "bytes_of ''ab''"] show ?thesis
    by (simp add: ngx_base64_encoded_length_def ngx_base64_decoded_length_def bytes_of_def)
qed

end
