(* ===== verification/Ngx_Escape.thy ===== *)
theory Ngx_Escape
  imports Ngx_Num
begin

text \<open>
  Escaping for URIs, HTML and JSON (\<^verbatim>\<open>ngx_escape_uri\<close>, \<^verbatim>\<open>ngx_unescape_uri\<close>,
  \<^verbatim>\<open>ngx_escape_html\<close>, \<^verbatim>\<open>ngx_escape_json\<close> of \<^verbatim>\<open>ngx_string.c\<close>). Each escaping function has two
  modes: with a null destination it returns how many bytes have to be added, otherwise it
  writes; the model has a function for each mode.
\<close>

section \<open>URI escaping\<close>

definition esc_uri :: "u32 list" where
  "esc_uri = [0xffffffff, 0x80000029, 0x00000000, 0x80000000,
     0xffffffff, 0xffffffff, 0xffffffff, 0xffffffff]"

definition esc_args :: "u32 list" where
  "esc_args = [0xffffffff, 0x88000869, 0x00000000, 0x80000000,
     0xffffffff, 0xffffffff, 0xffffffff, 0xffffffff]"

definition esc_uri_component :: "u32 list" where
  "esc_uri_component = [0xffffffff, 0xfc009fff, 0x78000001, 0xb8000001,
     0xffffffff, 0xffffffff, 0xffffffff, 0xffffffff]"

definition esc_html :: "u32 list" where
  "esc_html = [0xffffffff, 0x000000ad, 0x00000000, 0x80000000,
     0xffffffff, 0xffffffff, 0xffffffff, 0xffffffff]"

definition esc_refresh :: "u32 list" where
  "esc_refresh = [0xffffffff, 0x00000085, 0x00000000, 0x80000000,
     0xffffffff, 0xffffffff, 0xffffffff, 0xffffffff]"

definition esc_memcached :: "u32 list" where
  "esc_memcached = [0xffffffff, 0x00000021, 0x00000000, 0x00000000,
     0x00000000, 0x00000000, 0x00000000, 0x00000000]"

definition escape_map :: "u32 list list" where
  "escape_map = [esc_uri, esc_args, esc_uri_component, esc_html, esc_refresh,
     esc_memcached, esc_memcached]"

text \<open>The two modes of \<^verbatim>\<open>ngx_escape_uri\<close>; \<open>ty\<close> is \<^verbatim>\<open>NGX_ESCAPE_URI\<close> (0) to
  \<^verbatim>\<open>NGX_ESCAPE_MAIL_AUTH\<close> (6).\<close>

fun escape_count :: "u32 list \<Rightarrow> bytes \<Rightarrow> nat" where
  "escape_count escape [] = 0"
| "escape_count escape (c # src) =
     (if tab_bit escape c then Suc (escape_count escape src) else escape_count escape src)"

fun escape_write :: "u32 list \<Rightarrow> bytes \<Rightarrow> bytes" where
  "escape_write escape [] = []"
| "escape_write escape (c # src) =
     (if tab_bit escape c
      then ch_percent # hex_upper ! unat (drop_bit 4 c) # hex_upper ! unat (c AND 0xf)
           # escape_write escape src
      else c # escape_write escape src)"

definition ngx_escape_uri_count :: "bytes \<Rightarrow> nat \<Rightarrow> nat" where
  "ngx_escape_uri_count src ty = escape_count (escape_map ! ty) src"

definition ngx_escape_uri :: "bytes \<Rightarrow> nat \<Rightarrow> bytes" where
  "ngx_escape_uri src ty = escape_write (escape_map ! ty) src"

section \<open>URI unescaping\<close>

datatype unescape_state = sw_usual | sw_quoted | sw_quoted_second

definition NGX_UNESCAPE_URI :: u64 where "NGX_UNESCAPE_URI = 1"
definition NGX_UNESCAPE_REDIRECT :: u64 where "NGX_UNESCAPE_REDIRECT = 2"

text \<open>
  The branches of state \<open>sw_quoted_second\<close>: \<open>prev\<close> is \<^verbatim>\<open>*(s - 2)\<close> and \<open>raw\<close> is \<^verbatim>\<open>*(s - 1)\<close>.
  The result is what is written and whether the loop is left.
\<close>

definition unescape_second :: "u64 \<Rightarrow> u_char \<Rightarrow> u_char \<Rightarrow> u_char \<Rightarrow> bytes \<times> bool" where
  "unescape_second ty decoded prev raw =
     (if raw \<ge> ch_0 \<and> raw \<le> ch_9 then
        (let c = push_bit 4 decoded + raw - 0x30 in
         if ty AND NGX_UNESCAPE_REDIRECT \<noteq> 0 then
           if c > ch_percent \<and> c < 0x7f then ([c], False)
           else ([ch_percent, prev, raw], False)
         else ([c], False))
      else
        (let l = raw OR 0x20 in
         if l \<ge> ch_a \<and> l \<le> ch_f then
           (let c = push_bit 4 decoded + l - 0x61 + 10 in
            if ty AND NGX_UNESCAPE_URI \<noteq> 0 then
              if c = ch_quest then ([c], True) else ([c], False)
            else if ty AND NGX_UNESCAPE_REDIRECT \<noteq> 0 then
              if c = ch_quest then ([c], True)
              else if c > ch_percent \<and> c < 0x7f then ([c], False)
              else ([ch_percent, prev, raw], False)
            else ([c], False))
         else ([], False)))"

text \<open>The loop; the result is what is written and the source bytes that are left.\<close>

fun unescape_loop ::
    "u64 \<Rightarrow> unescape_state \<Rightarrow> u_char \<Rightarrow> u_char \<Rightarrow> bytes \<Rightarrow> bytes \<times> bytes" where
  "unescape_loop ty state decoded prev [] = ([], [])"
| "unescape_loop ty state decoded prev (c # s) =
     (case state of
        sw_usual \<Rightarrow>
          if c = ch_quest \<and> ty AND (NGX_UNESCAPE_URI OR NGX_UNESCAPE_REDIRECT) \<noteq> 0 then ([c], s)
          else if c = ch_percent then unescape_loop ty sw_quoted decoded c s
          else (let (d, s') = unescape_loop ty sw_usual decoded c s in (c # d, s'))
      | sw_quoted \<Rightarrow>
          if c \<ge> ch_0 \<and> c \<le> ch_9 then unescape_loop ty sw_quoted_second (c - 0x30) c s
          else
            (let l = c OR 0x20 in
             if l \<ge> ch_a \<and> l \<le> ch_f then unescape_loop ty sw_quoted_second (l - 0x61 + 10) c s
             else (let (d, s') = unescape_loop ty sw_usual decoded c s in (c # d, s')))
      | sw_quoted_second \<Rightarrow>
          (let (w, leave) = unescape_second ty decoded prev c in
           if leave then (w, s)
           else (let (d, s') = unescape_loop ty sw_usual decoded c s in (w @ d, s'))))"

definition ngx_unescape_uri :: "bytes \<Rightarrow> u64 \<Rightarrow> bytes \<times> bytes" where
  "ngx_unescape_uri src ty = unescape_loop ty sw_usual 0 0 src"

section \<open>HTML and JSON\<close>

fun ngx_escape_html_count :: "bytes \<Rightarrow> nat" where
  "ngx_escape_html_count [] = 0"
| "ngx_escape_html_count (c # src) =
     (if c = ch_lt then 3 else if c = ch_gt then 3 else if c = ch_amp then 4
      else if c = ch_dquote then 5 else 0) + ngx_escape_html_count src"

fun ngx_escape_html :: "bytes \<Rightarrow> bytes" where
  "ngx_escape_html [] = []"
| "ngx_escape_html (c # src) =
     (if c = ch_lt then bytes_of ''&lt;''
      else if c = ch_gt then bytes_of ''&gt;''
      else if c = ch_amp then bytes_of ''&amp;''
      else if c = ch_dquote then bytes_of ''&quot;''
      else [c]) @ ngx_escape_html src"

fun ngx_escape_json_count :: "bytes \<Rightarrow> nat" where
  "ngx_escape_json_count [] = 0"
| "ngx_escape_json_count (c # src) =
     (if c = ch_bslash \<or> c = ch_dquote then 1 else if c \<le> 0x1f then 5 else 0)
     + ngx_escape_json_count src"

fun ngx_escape_json :: "bytes \<Rightarrow> bytes" where
  "ngx_escape_json [] = []"
| "ngx_escape_json (c # src) =
     (if c > 0x1f then (if c = ch_bslash \<or> c = ch_dquote then [ch_bslash] else []) @ [c]
      else
        (let l = c AND 0xf in
         [ch_bslash, 0x75, 0x30, 0x30] @ [0x30 + drop_bit 4 c, if l < 10 then 0x30 + l else 0x41 + l - 10]))
     @ ngx_escape_json src"

section \<open>Sizes\<close>

lemma escape_write_length:
  "length (escape_write tab src) = length src + 2 * escape_count tab src"
  by (induction src) auto

lemma escape_html_length: "length (ngx_escape_html src) = length src + ngx_escape_html_count src"
  by (induction src) (auto simp: bytes_of_def)

lemma escape_json_length: "length (ngx_escape_json src) = length src + ngx_escape_json_count src"
  by (induction src) (auto simp: bytes_of_def Let_def not_less)

text \<open>
  The counting modes are right: a caller that allocates the source length plus what
  the counting mode returns (times two for \<^verbatim>\<open>ngx_escape_uri\<close>) gets a buffer the writing mode
  fills exactly.
\<close>

theorem escape_sizes:
  "length (ngx_escape_uri src ty) = length src + 2 * ngx_escape_uri_count src ty
   \<and> length (ngx_escape_html src) = length src + ngx_escape_html_count src
   \<and> length (ngx_escape_json src) = length src + ngx_escape_json_count src"
  by (simp add: ngx_escape_uri_def ngx_escape_uri_count_def escape_write_length
      escape_html_length escape_json_length)

section \<open>URI round trip\<close>

lemma hex_upper_digit:
  assumes "n < 16"
  shows "if ch_0 \<le> hex_upper ! n \<and> hex_upper ! n \<le> ch_9
    then hex_upper ! n - 0x30 = word_of_nat n
    else ch_a \<le> hex_upper ! n OR 0x20 \<and> hex_upper ! n OR 0x20 \<le> ch_f
       \<and> (hex_upper ! n OR 0x20) - 0x61 + 10 = word_of_nat n"
  by (rule upto_all_I [where k = 16]; (rule assms)?; code_simp)

lemma unescape_second_plain: "unescape_second 0 d p r = unescape_second 0 d 0 r"
  by (simp add: unescape_second_def Let_def)

lemma unescape_second_hex:
  "unescape_second 0 (drop_bit 4 c) p (hex_upper ! unat (c AND 0xf)) = ([c], False)"
  unfolding unescape_second_plain [of _ p] by (rule byte_all_I) code_simp

lemma unescape_triplet:
  "unescape_loop 0 sw_usual d p
     (ch_percent # hex_upper ! unat (drop_bit 4 c) # hex_upper ! unat (c AND 0xf) # s) =
   (let (w, s') = unescape_loop 0 sw_usual (drop_bit 4 c) (hex_upper ! unat (c AND 0xf)) s
    in (c # w, s'))"
  using hex_upper_digit [OF nibbles_lt(1) [of c]] unescape_second_hex [of c]
  by (simp add: Let_def split: if_splits)

text \<open>The contract of an escape table: it escapes the percent sign and no hexadecimal digit.\<close>

locale escape_table =
  fixes tab :: "u32 list"
  assumes escapes_percent: "tab_bit tab ch_percent"
    and keeps_hex: "n < 16 \<Longrightarrow> \<not> tab_bit tab (hex_upper ! n)"
begin

lemma written_safe: "c \<in> set (escape_write tab src) \<Longrightarrow> c = ch_percent \<or> \<not> tab_bit tab c"
  by (induction src) (auto simp: keeps_hex nibbles_lt split: if_splits)

text \<open>The unescaper inverts the writer on every source.\<close>

lemma unescape_escape: "unescape_loop 0 sw_usual d p (escape_write tab src) = (src, [])"
proof (induction src arbitrary: d p)
  case (Cons c src)
  show ?case
  proof (cases "tab_bit tab c")
    case True
    then show ?thesis
      by (simp only: escape_write.simps if_True unescape_triplet Cons.IH) simp
  next
    case False
    with escapes_percent have "c \<noteq> ch_percent" by metis
    with False show ?thesis by (simp add: Cons.IH)
  qed
qed simp

end

lemma tab_checked_I:
  "tab_bit tab ch_percent \<Longrightarrow> list_all (\<lambda>n. \<not> tab_bit tab (hex_upper ! n)) [0..<16] \<Longrightarrow> escape_table tab"
  by unfold_locales (auto simp: list_all_iff)

interpretation uri: escape_table esc_uri
  by (rule tab_checked_I; code_simp)

interpretation args: escape_table esc_args
  by (rule tab_checked_I; code_simp)

interpretation component: escape_table esc_uri_component
  by (rule tab_checked_I; code_simp)

interpretation html: escape_table esc_html
  by (rule tab_checked_I; code_simp)

interpretation memcached: escape_table esc_memcached
  by (rule tab_checked_I; code_simp)

lemmas unescape_escape_all = uri.unescape_escape args.unescape_escape component.unescape_escape
  html.unescape_escape memcached.unescape_escape

lemmas written_safe_all = uri.written_safe args.written_safe component.written_safe
  html.written_safe memcached.written_safe

lemma escape_types: "ty < 7 \<Longrightarrow> ty = 0 \<or> ty = 1 \<or> ty = 2 \<or> ty = 3 \<or> ty = 4 \<or> ty = 5 \<or> ty = (6::nat)"
  by linarith

text \<open>
  C37. Escaping is inverted by unescaping, for every escape type except refresh, and its
  output holds no byte that the type asks to be escaped except the percent signs it writes.
  The type \<^verbatim>\<open>NGX_ESCAPE_REFRESH\<close> (4) is left out because its table does not have the percent
  sign, see \<open>escape_refresh_ambiguous\<close>.
\<close>

theorem escape_uri_roundtrip:
  assumes "ty < 7" and "ty \<noteq> 4"
  shows "ngx_unescape_uri (ngx_escape_uri src ty) 0 = (src, [])
    \<and> (\<forall>c\<in>set (ngx_escape_uri src ty). c = ch_percent \<or> \<not> tab_bit (escape_map ! ty) c)"
  using escape_types [OF assms(1)] assms(2)
  by (elim disjE)
    (auto simp: ngx_unescape_uri_def ngx_escape_uri_def escape_map_def unescape_escape_all
      dest: written_safe_all)

theorem escape_uri_roundtrip_witness:
  "(2::nat) < 7 \<and> (2::nat) \<noteq> 4 \<and> ngx_unescape_uri (ngx_escape_uri (bytes_of ''a/b c'') 2) 0 = (bytes_of ''a/b c'', [])
   \<and> ngx_escape_uri (bytes_of ''a/b c'') 2 = bytes_of ''a%2Fb%20c''"
proof -
  have "ngx_escape_uri (bytes_of ''a/b c'') 2 = bytes_of ''a%2Fb%20c''" by code_simp
  then show ?thesis using escape_uri_roundtrip [of 2 "bytes_of ''a/b c''"] by simp
qed

text \<open>
  The refresh table does not escape the percent sign, against the comment above it, so
  two sources with different meaning are escaped to the same text and the round trip fails.
\<close>

theorem escape_refresh_ambiguous:
  "\<not> tab_bit esc_refresh ch_percent
   \<and> ngx_escape_uri (bytes_of ''%41'') 4 = bytes_of ''%41''
   \<and> ngx_unescape_uri (ngx_escape_uri (bytes_of ''%41'') 4) 0 = (bytes_of ''A'', [])
   \<and> ngx_escape_uri (bytes_of '' '') 4 = ngx_escape_uri (bytes_of ''%20'') 4"
  by code_simp

section \<open>What unescaping writes\<close>

text \<open>
  In any mode the output is at most as long as what was read, so that unescaping in place is
  possible; in redirect mode a byte that was not in the source is a printable one.
\<close>

definition redirect_safe :: "u_char \<Rightarrow> bool" where
  "redirect_safe c \<longleftrightarrow> ch_percent \<le> c \<and> c < 0x7f"

text \<open>The bytes read of the escape being decoded.\<close>

fun pending :: "unescape_state \<Rightarrow> nat" where
  "pending sw_usual = 0"
| "pending sw_quoted = 1"
| "pending sw_quoted_second = 2"

lemma unescape_second_length: "length (fst (unescape_second ty d p r)) \<le> 3"
  by (simp add: unescape_second_def Let_def)

lemma unescape_loop_length:
  "unescape_loop ty st d p s = (w, s') \<Longrightarrow>
     length w + length s' \<le> length s + pending st \<and> (\<exists>u. s = u @ s')"
proof (induction ty st d p s arbitrary: w s' rule: unescape_loop.induct)
  case (2 ty st d p c s)
  show ?case
  proof (cases st)
    case sw_usual
    with 2 show ?thesis
      by (fastforce split: if_splits prod.splits)
  next
    case sw_quoted
    with 2 show ?thesis
      by (fastforce simp: Let_def split: if_splits prod.splits)
  next
    case sw_quoted_second
    with 2 show ?thesis using unescape_second_length [of ty d p c]
      by (fastforce split: if_splits prod.splits)
  qed
qed simp

text \<open>
  Unescaping reads a prefix of its source and never writes more than it read, so the
  callers that pass the same buffer for both are safe.
\<close>

theorem unescape_in_place:
  "case ngx_unescape_uri src ty of (w, s') \<Rightarrow>
     length w + length s' \<le> length src \<and> (\<exists>u. src = u @ s')"
  using unescape_loop_length [of ty sw_usual 0 0 src]
  by (simp add: ngx_unescape_uri_def split: prod.split)

lemma unescape_second_redirect:
  assumes "c \<in> set (fst (unescape_second NGX_UNESCAPE_REDIRECT d p r))"
  shows "redirect_safe c \<or> c = p \<or> c = r"
  using assms
  by (auto simp: unescape_second_def Let_def NGX_UNESCAPE_REDIRECT_def NGX_UNESCAPE_URI_def
      redirect_safe_def split: if_splits)

lemma unescape_loop_redirect:
  "c \<in> set (fst (unescape_loop NGX_UNESCAPE_REDIRECT st d p s)) \<Longrightarrow>
     redirect_safe c \<or> c \<in> set s \<or> st = sw_quoted_second \<and> c = p"
proof (induction s arbitrary: st d p)
  case (Cons b s)
  show ?case
  proof (cases st)
    case sw_usual
    with Cons.prems Cons.IH [of sw_usual d b] Cons.IH [of sw_quoted d b] show ?thesis
      by (auto split: if_splits prod.splits)
  next
    case sw_quoted
    with Cons.prems Cons.IH [of sw_usual d b] Cons.IH [of sw_quoted_second _ b] show ?thesis
      by (auto simp: Let_def split: if_splits prod.splits)
  next
    case sw_quoted_second
    have "c \<in> set (fst (unescape_second NGX_UNESCAPE_REDIRECT d p b))
        \<or> c \<in> set (fst (unescape_loop NGX_UNESCAPE_REDIRECT sw_usual d b s))"
      using Cons.prems sw_quoted_second by (auto split: if_splits prod.splits)
    with Cons.IH [of sw_usual d b] unescape_second_redirect [of c d p b] sw_quoted_second
    show ?thesis by auto
  qed
qed simp

text \<open>
  In redirect mode unescaping never introduces a control character, a space, a byte
  above 126 or one of the characters below the percent sign: a byte of the output that was not in the
  source lies between the percent sign and the tilde.
\<close>

theorem unescape_redirect_safe:
  "\<forall>c. c \<in> set (fst (ngx_unescape_uri src NGX_UNESCAPE_REDIRECT)) \<longrightarrow>
     c \<in> set src \<or> redirect_safe c"
  using unescape_loop_redirect [of _ sw_usual 0 0 src] unfolding ngx_unescape_uri_def by blast

theorem unescape_redirect_safe_witness:
  "fst (ngx_unescape_uri (bytes_of ''a%0Ab'') NGX_UNESCAPE_REDIRECT) = bytes_of ''a%0Ab''
   \<and> (ch_a \<in> set (bytes_of ''a%0Ab'') \<or> redirect_safe ch_a)"
proof -
  have e: "fst (ngx_unescape_uri (bytes_of ''a%0Ab'') NGX_UNESCAPE_REDIRECT) = bytes_of ''a%0Ab''"
    by code_simp
  have "ch_a \<in> set (fst (ngx_unescape_uri (bytes_of ''a%0Ab'') NGX_UNESCAPE_REDIRECT))"
    unfolding e by code_simp
  with unescape_redirect_safe [of "bytes_of ''a%0Ab''"] e show ?thesis by blast
qed

section \<open>HTML and JSON round trips\<close>

text \<open>Reference decoders, written from the formats and not from the program.\<close>

function html_decode :: "bytes \<Rightarrow> bytes" where
  "html_decode [] = []"
| "html_decode (c # s) =
     (if c \<noteq> ch_amp then c # html_decode s
      else if take 3 s = bytes_of ''lt;'' then ch_lt # html_decode (drop 3 s)
      else if take 3 s = bytes_of ''gt;'' then ch_gt # html_decode (drop 3 s)
      else if take 4 s = bytes_of ''amp;'' then ch_amp # html_decode (drop 4 s)
      else if take 5 s = bytes_of ''quot;'' then ch_dquote # html_decode (drop 5 s)
      else c # html_decode s)"
  by pat_completeness auto
termination by (relation "measure length") auto

function json_decode :: "bytes \<Rightarrow> bytes" where
  "json_decode [] = []"
| "json_decode (c # s) =
     (if c \<noteq> ch_bslash then c # json_decode s
      else case s of
        [] \<Rightarrow> []
      | d # t \<Rightarrow>
          if d = 0x75 then word_of_int (hex_acc 0 (take 4 t)) # json_decode (drop 4 t)
          else d # json_decode t)"
  by pat_completeness auto
termination by (relation "measure length") auto

lemma html_decode_entity:
  "html_decode (bytes_of ''&lt;'' @ s) = ch_lt # html_decode s"
  "html_decode (bytes_of ''&gt;'' @ s) = ch_gt # html_decode s"
  "html_decode (bytes_of ''&amp;'' @ s) = ch_amp # html_decode s"
  "html_decode (bytes_of ''&quot;'' @ s) = ch_dquote # html_decode s"
  by (simp_all add: bytes_of_def)

lemma html_decode_escape: "html_decode (ngx_escape_html src) = src"
  by (induction src) (simp_all add: html_decode_entity)

lemma html_escape_safe: "c \<in> set (ngx_escape_html src) \<Longrightarrow> c \<noteq> ch_lt \<and> c \<noteq> ch_gt \<and> c \<noteq> ch_dquote"
  by (induction src) (auto simp: bytes_of_def split: if_splits)

definition json_ctl :: "u_char \<Rightarrow> bytes" where
  "json_ctl c = (let l = c AND 0xf in
     [0x30, 0x30, 0x30 + drop_bit 4 c, if l < 10 then 0x30 + l else 0x41 + l - 10])"

lemma json_ctl_value: "c \<le> 0x1f \<Longrightarrow> word_of_int (hex_acc 0 (json_ctl c)) = c"
  by (rule bytes_below_I [where k = 32]; (simp add: word_le_nat_alt; fail)?; code_simp)

lemma json_ctl_safe: "c \<le> 0x1f \<Longrightarrow> list_all (\<lambda>d. 0x1f < d) (json_ctl c)"
  by (rule bytes_below_I [where k = 32]; (simp add: word_le_nat_alt; fail)?; code_simp)

lemma ngx_escape_json_ctl:
  "\<not> 0x1f < c \<Longrightarrow> ngx_escape_json (c # src) = [ch_bslash, 0x75] @ json_ctl c @ ngx_escape_json src"
  by (simp add: json_ctl_def Let_def)

lemma json_decode_escape: "json_decode (ngx_escape_json src) = src"
proof (induction src)
  case (Cons c src)
  show ?case
  proof (cases "0x1f < c")
    case False
    moreover have "length (json_ctl c) = 4" by (simp add: json_ctl_def Let_def)
    ultimately show ?thesis using json_ctl_value [of c] Cons
      by (simp add: ngx_escape_json_ctl not_less del: ngx_escape_json.simps)
  qed (use Cons in auto)
qed simp

lemma json_escape_safe: "d \<in> set (ngx_escape_json src) \<Longrightarrow> 0x1f < d"
proof (induction src)
  case (Cons c src)
  show ?case
  proof (cases "0x1f < c")
    case False
    with Cons json_ctl_safe [of c] show ?thesis
      by (auto simp: ngx_escape_json_ctl not_less list_all_iff simp del: ngx_escape_json.simps)
  qed (use Cons in \<open>auto split: if_splits\<close>)
qed simp

text \<open>
  HTML and JSON escaping lose nothing, as the reference decoders show, and are safe to
  embed: escaped HTML has no angle bracket and no double quote, escaped JSON no control character.
\<close>

theorem escape_html_json_roundtrip:
  "html_decode (ngx_escape_html src) = src
   \<and> json_decode (ngx_escape_json src) = src
   \<and> set (ngx_escape_html src) \<inter> {ch_lt, ch_gt, ch_dquote} = {}
   \<and> set (ngx_escape_json src) \<inter> {c. c \<le> 0x1f} = {}"
  using html_decode_escape json_decode_escape html_escape_safe [of _ src]
  by (auto dest: json_escape_safe simp: not_less [symmetric])

end
