(* ===== verification/Ngx_Utf8.thy ===== *)
theory Ngx_Utf8
  imports Ngx_Prelude
begin

text \<open>
  UTF-8 (\<^verbatim>\<open>ngx_utf8_decode\<close>, \<^verbatim>\<open>ngx_utf8_length\<close>, \<^verbatim>\<open>ngx_utf8_cpystrn\<close> of \<^verbatim>\<open>ngx_string.c\<close>). A
  pointer is the list of the readable bytes from it on; a read past them is \<open>None\<close>. The
  specification is a code point encoder written from the standard.
\<close>

section \<open>Decoding\<close>

text \<open>
  The loop over the continuation bytes: the code point, or \<open>None\<close> inside when a byte below
  0x80 ends it, and the pointer after the bytes read.
\<close>

fun utf8_tail :: "nat \<Rightarrow> u32 \<Rightarrow> bytes \<Rightarrow> (u32 option \<times> bytes) option" where
  "utf8_tail 0 u p = Some (Some u, p)"
| "utf8_tail (Suc len) u [] = None"
| "utf8_tail (Suc len) u (c # p) =
     (let i = ucast c :: u32 in
      if i < 0x80 then Some (None, p)
      else utf8_tail len (push_bit 6 u OR (i AND 0x3f)) p)"

text \<open>The classification of the lead byte: masked bits, least valid value and tail length.\<close>

definition utf8_lead :: "u32 \<Rightarrow> (u32 \<times> u32 \<times> nat) option" where
  "utf8_lead u =
     (if u \<ge> 0xf0 then Some (u AND 0x07, 0xffff, 3)
      else if u \<ge> 0xe0 then Some (u AND 0x0f, 0x7ff, 2)
      else if u \<ge> 0xc2 then Some (u AND 0x1f, 0x7f, 1)
      else None)"

definition ngx_utf8_decode :: "bytes \<Rightarrow> u64 \<Rightarrow> (u32 \<times> bytes) option" where
  "ngx_utf8_decode p n =
     (case p of
        [] \<Rightarrow> None
      | c # p' \<Rightarrow>
          (case utf8_lead (ucast c) of
             None \<Rightarrow> Some (0xffffffff, p')
           | Some (u, valid, len) \<Rightarrow>
               if n - 1 < word_of_nat len then Some (0xfffffffe, p)
               else
                 (case utf8_tail len u p' of
                    None \<Rightarrow> None
                  | Some (None, q) \<Rightarrow> Some (0xffffffff, q)
                  | Some (Some v, q) \<Rightarrow>
                      if v > valid then Some (v, q) else Some (0xffffffff, q))))"

lemma utf8_tail_length: "utf8_tail len u p = Some (r, q) \<Longrightarrow> length q \<le> length p"
proof (induction len u p rule: utf8_tail.induct)
  case (3 len u c p)
  then show ?case by (fastforce simp: Let_def split: if_splits)
qed auto

lemma utf8_decode_progress:
  "ngx_utf8_decode p n = Some (u, q) \<Longrightarrow> \<not> u > 0x10ffff \<Longrightarrow> length q < length p"
  by (fastforce simp: ngx_utf8_decode_def dest: utf8_tail_length
      split: list.splits option.splits if_splits prod.splits)

section \<open>Length\<close>

text \<open>
  \<^verbatim>\<open>ngx_utf8_length\<close>; \<open>p\<close> is the pointer and \<open>i\<close> its distance from the start, \<open>len\<close> the count so
  far. The decoder is called with the length \<open>n\<close> of the whole string, as in the code.
\<close>

function utf8_length_loop :: "nat \<Rightarrow> bytes \<Rightarrow> nat \<Rightarrow> nat \<Rightarrow> nat option" where
  "utf8_length_loop n p i len =
     (if i < n then
        (case p of
           [] \<Rightarrow> None
         | c # p' \<Rightarrow>
             if c < 0x80 then utf8_length_loop n p' (Suc i) (Suc len)
             else
               (case ngx_utf8_decode p (word_of_nat n) of
                  None \<Rightarrow> None
                | Some (u, q) \<Rightarrow>
                    if u > 0x10ffff then Some n
                    else utf8_length_loop n q (i + (length p - length q)) (Suc len)))
      else Some len)"
  by pat_completeness auto
termination
  by (relation "measure (\<lambda>(n, p, i, len). length p)") (auto dest: utf8_decode_progress)

declare utf8_length_loop.simps [simp del]

definition ngx_utf8_length :: "bytes \<Rightarrow> nat \<Rightarrow> nat option" where
  "ngx_utf8_length p n = utf8_length_loop n p 0 0"

section \<open>Copying\<close>

text \<open>
  \<^verbatim>\<open>ngx_utf8_cpystrn\<close>: the bytes written before the terminating null, or \<open>None\<close> when the source
  is read past its end. The first argument is \<open>n\<close> after the decrement of the loop condition.
\<close>

fun utf8_cpystrn_loop :: "nat \<Rightarrow> bytes \<Rightarrow> u64 \<Rightarrow> bytes option" where
  "utf8_cpystrn_loop 0 src len = Some []"
| "utf8_cpystrn_loop (Suc n) src len =
     (case src of
        [] \<Rightarrow> None
      | c # src' \<Rightarrow>
          if c < 0x80 then
            if c \<noteq> 0 then map_option ((#) c) (utf8_cpystrn_loop n src' (len - 1))
            else Some []
          else
            (case ngx_utf8_decode src len of
               None \<Rightarrow> None
             | Some (u, next) \<Rightarrow>
                 if u > 0x10ffff then Some []
                 else
                   (let k = length src - length next in
                    map_option ((@) (take k src))
                      (utf8_cpystrn_loop n next (len - word_of_nat k)))))"

definition ngx_utf8_cpystrn :: "bytes \<Rightarrow> nat \<Rightarrow> u64 \<Rightarrow> bytes option" where
  "ngx_utf8_cpystrn src n len = (if n = 0 then Some [] else utf8_cpystrn_loop (n - 1) src len)"

section \<open>Specification\<close>

definition utf8_encode :: "nat \<Rightarrow> bytes" where
  "utf8_encode cp =
     (if cp < 0x80 then [word_of_nat cp]
      else if cp < 0x800 then [word_of_nat (0xc0 + cp div 64), word_of_nat (0x80 + cp mod 64)]
      else if cp < 0x10000 then
        [word_of_nat (0xe0 + cp div 4096), word_of_nat (0x80 + cp div 64 mod 64),
         word_of_nat (0x80 + cp mod 64)]
      else
        [word_of_nat (0xf0 + cp div 262144), word_of_nat (0x80 + cp div 4096 mod 64),
         word_of_nat (0x80 + cp div 64 mod 64), word_of_nat (0x80 + cp mod 64)])"

abbreviation utf8_string :: "nat list \<Rightarrow> bytes" where
  "utf8_string cps \<equiv> concat (map utf8_encode cps)"

lemma push_or:
  assumes "v < 64"
  shows "push_bit 6 (word_of_nat a) OR (word_of_nat v) = (word_of_nat (a * 64 + v) :: u32)"
proof -
  have "take_bit 6 (word_of_nat v :: u32) = word_of_nat v"
    using assms by (simp add: take_bit_of_nat take_bit_nat_eq_self)
  then have "push_bit 6 (word_of_nat a) AND (word_of_nat v) = (0 :: u32)"
    by (metis (no_types) take_bit_push_bit and.commute and.left_commute take_bit_eq_mask and_zero_eq
        cancel_comm_monoid_add_class.diff_cancel take_bit_0 push_bit_of_0)
  then show ?thesis
    by (simp add: disjunctive_add_eq_or [symmetric] push_bit_eq_mult mult.commute)
qed

lemma ucast_byte: "k < 256 \<Longrightarrow> ucast (word_of_nat k :: u_char) = (word_of_nat k :: u32)"
  by (simp add: word_eq_iff_unsigned unsigned_ucast_eq unsigned_of_nat take_bit_nat_eq_self
      take_bit_of_nat)

lemma word_of_nat_less: 
  "a < 2 ^ 32 \<Longrightarrow> b < 2 ^ 32 \<Longrightarrow> (word_of_nat a :: u32) < word_of_nat b \<longleftrightarrow> a < b"
  by (simp add: word_less_nat_alt unsigned_of_nat take_bit_nat_eq_self)

lemma utf8_tail_step:
  assumes "v < 64"
  shows "utf8_tail (Suc len) (word_of_nat a) (word_of_nat (0x80 + v) # p) =
    utf8_tail len (word_of_nat (a * 64 + v)) p"
proof -
  have "(ucast (word_of_nat (0x80 + v) :: u_char) :: u32) = word_of_nat (0x80 + v)"
    using assms by (intro ucast_byte) simp
  moreover have "\<not> word_of_nat (0x80 + v) < (0x80 :: u32)"
    using word_of_nat_less [of "0x80 + v" "0x80"] assms by simp
  moreover have "(word_of_nat (0x80 + v) :: u32) AND 0x3f = word_of_nat v"
    using assms mod_add_self1 [of 64 "64 + v"]
    by (simp only: and_mask_eq take_bit_of_nat) (simp add: take_bit_eq_mod add.assoc [symmetric])
  ultimately show ?thesis using push_or [OF assms, of a] by (simp add: Let_def)
qed

lemma utf8_lead_bits:
  "k < 8 \<Longrightarrow> utf8_lead (word_of_nat (0xf0 + k)) = Some (word_of_nat k, 0xffff, 3)"
  "k < 16 \<Longrightarrow> utf8_lead (word_of_nat (0xe0 + k)) = Some (word_of_nat k, 0x7ff, 2)"
  "2 \<le> k \<Longrightarrow> k < 32 \<Longrightarrow> utf8_lead (word_of_nat (0xc0 + k)) = Some (word_of_nat k, 0x7f, 1)"
proof -
  show "k < 8 \<Longrightarrow> utf8_lead (word_of_nat (0xf0 + k)) = Some (word_of_nat k, 0xffff, 3)"
    by (rule upto_all_I [where k = 8]; assumption?; code_simp)
  show "k < 16 \<Longrightarrow> utf8_lead (word_of_nat (0xe0 + k)) = Some (word_of_nat k, 0x7ff, 2)"
    by (rule upto_all_I [where k = 16]; assumption?; code_simp)
  have "2 \<le> k \<longrightarrow> utf8_lead (word_of_nat (0xc0 + k)) = Some (word_of_nat k, 0x7f, 1)" if "k < 32"
    by (rule upto_all_I [OF _ that]) code_simp
  then show "2 \<le> k \<Longrightarrow> k < 32 \<Longrightarrow> utf8_lead (word_of_nat (0xc0 + k)) = Some (word_of_nat k, 0x7f, 1)"
    by blast
qed

lemma enough_bytes: "Suc len \<le> unat n \<Longrightarrow> \<not> n - 1 < (word_of_nat len :: u64)"
proof -
  assume a: "Suc len \<le> unat n"
  have u: "unat n < 2 ^ 64" using unsigned_less [of n, where ?'a = nat] by simp
  with a have "n \<noteq> 0" and "len < 2 ^ 64" by auto
  then have "unat (n - 1) = unat n - 1" and "unat (word_of_nat len :: u64) = len"
    by (simp_all add: unat_minus_one unsigned_of_nat take_bit_nat_eq_self)
  with a show ?thesis by (simp add: word_less_nat_alt)
qed

lemma utf8_decode_gen:
  assumes lead: "utf8_lead (ucast c) = Some (u, valid, len)" and n: "Suc len \<le> unat n"
    and tail: "utf8_tail len u p = Some (Some v, q)" and v: "valid < v"
  shows "ngx_utf8_decode (c # p) n = Some (v, q)"
  using assms enough_bytes [OF n] by (simp add: ngx_utf8_decode_def)

lemma utf8_tails:
  "a < 64 \<Longrightarrow> utf8_tail 1 (word_of_nat u) (word_of_nat (0x80 + a) # q) = Some (Some (word_of_nat (u * 64 + a)), q)"
  "a < 64 \<Longrightarrow> b < 64 \<Longrightarrow> utf8_tail 2 (word_of_nat u) (word_of_nat (0x80 + a) # word_of_nat (0x80 + b) # q) =
     Some (Some (word_of_nat ((u * 64 + a) * 64 + b)), q)"
  "a < 64 \<Longrightarrow> b < 64 \<Longrightarrow> c < 64 \<Longrightarrow> utf8_tail 3 (word_of_nat u)
       (word_of_nat (0x80 + a) # word_of_nat (0x80 + b) # word_of_nat (0x80 + c) # q) =
     Some (Some (word_of_nat (((u * 64 + a) * 64 + b) * 64 + c)), q)"
  by (simp_all only: numeral_3_eq_3 numeral_2_eq_2 One_nat_def utf8_tail_step utf8_tail.simps(1))

lemma split64:
  "cp div 64 * 64 + cp mod 64 = cp"
  "(cp div 4096 * 64 + cp div 64 mod 64) * 64 + cp mod 64 = cp"
  "((cp div 262144 * 64 + cp div 4096 mod 64) * 64 + cp div 64 mod 64) * 64 + cp mod 64 = cp"
  for cp :: nat
proof -
  have "cp div 4096 * 64 + cp div 64 mod 64 = cp div 64"
    and "cp div 262144 * 64 + cp div 4096 mod 64 = cp div 4096"
    by (simp_all add: div_mult2_eq [of cp 64 64, simplified] div_mult2_eq [of cp 4096 64, simplified])
  then show "cp div 64 * 64 + cp mod 64 = cp"
    and "(cp div 4096 * 64 + cp div 64 mod 64) * 64 + cp mod 64 = cp"
    and "((cp div 262144 * 64 + cp div 4096 mod 64) * 64 + cp div 64 mod 64) * 64 + cp mod 64 = cp"
    by simp_all
qed

lemma utf8_decode_encode:
  assumes "0x80 \<le> cp" and "cp \<le> 0x10ffff" and "length (utf8_encode cp) \<le> unat n"
  shows "ngx_utf8_decode (utf8_encode cp @ rest) n = Some (word_of_nat cp, rest)"
proof -
  have m: "x mod 64 < 64" for x :: nat by simp
  consider "cp < 0x800" | "0x800 \<le> cp" "cp < 0x10000" | "0x10000 \<le> cp" by linarith
  then show ?thesis
  proof cases
    case 1
    then have k: "2 \<le> cp div 64" "cp div 64 < 32" using assms(1) by auto
    from 1 assms(1) have e: "utf8_encode cp = [word_of_nat (0xc0 + cp div 64), word_of_nat (0x80 + cp mod 64)]"
      by (simp add: utf8_encode_def)
    have "utf8_lead (ucast (word_of_nat (0xc0 + cp div 64) :: u_char)) = Some (word_of_nat (cp div 64), 0x7f, 1)"
      using k by (simp only: ucast_byte utf8_lead_bits(3))
    then show ?thesis
      using utf8_decode_gen utf8_tails(1) [OF m, of "cp div 64" cp rest] assms(1,3) 1
        word_of_nat_less [of "0x7f" cp]
      unfolding e split64 by simp
  next
    case 2
    then have k: "cp div 4096 < 16" by auto
    from 2 have e: "utf8_encode cp = [word_of_nat (0xe0 + cp div 4096), word_of_nat (0x80 + cp div 64 mod 64),
        word_of_nat (0x80 + cp mod 64)]"
      by (simp add: utf8_encode_def)
    have "utf8_lead (ucast (word_of_nat (0xe0 + cp div 4096) :: u_char)) = Some (word_of_nat (cp div 4096), 0x7ff, 2)"
      using k by (simp only: ucast_byte utf8_lead_bits(2))
    then show ?thesis
      using utf8_decode_gen utf8_tails(2) [OF m m, of "cp div 4096" "cp div 64" cp rest] assms(3) 2
        word_of_nat_less [of "0x7ff" cp]
      unfolding e split64 by simp
  next
    case 3
    then have k: "cp div 262144 < 8" using assms(2) by auto
    from 3 have e: "utf8_encode cp = [word_of_nat (0xf0 + cp div 262144), word_of_nat (0x80 + cp div 4096 mod 64),
        word_of_nat (0x80 + cp div 64 mod 64), word_of_nat (0x80 + cp mod 64)]"
      by (simp add: utf8_encode_def)
    have "utf8_lead (ucast (word_of_nat (0xf0 + cp div 262144) :: u_char)) = Some (word_of_nat (cp div 262144), 0xffff, 3)"
      using k by (simp only: ucast_byte utf8_lead_bits(1))
    then show ?thesis
      using utf8_decode_gen utf8_tails(3) [OF m m m, of "cp div 262144" "cp div 4096" "cp div 64" cp rest]
        assms(2,3) 3 word_of_nat_less [of "0xffff" cp]
      unfolding e split64 by simp
  qed
qed

section \<open>Correctness\<close>

definition valid_cp :: "nat \<Rightarrow> bool" where
  "valid_cp cp \<longleftrightarrow> cp \<le> 0x10ffff"

lemma valid_cp_word: "valid_cp cp \<Longrightarrow> \<not> (0x10ffff :: u32) < word_of_nat cp"
  using word_of_nat_less [of "0x10ffff" cp] by (simp add: valid_cp_def)

lemma utf8_encode_Cons:
  "\<exists>c p. utf8_encode cp = c # p \<and> (cp < 0x80 \<longrightarrow> c = word_of_nat cp \<and> c < 0x80 \<and> p = [])"
  by (simp add: utf8_encode_def word_less_nat_alt unsigned_of_nat take_bit_nat_eq_self)

lemma utf8_encode_high:
  assumes "0x80 \<le> cp" "valid_cp cp" "utf8_encode cp = c # p"
  shows "\<not> c < 0x80"
proof -
  have h: "\<not> (word_of_nat (0xc0 + k) :: u_char) < 0x80" if "k < 64" for k
    by (rule upto_all_I [OF _ that]) code_simp
  from assms have "\<exists>k<64. c = word_of_nat (0xc0 + k)"
    by (auto simp: utf8_encode_def valid_cp_def split: if_splits
        intro: exI [of _ "cp div 64"] exI [of _ "32 + cp div 4096"] exI [of _ "48 + cp div 262144"])
  with h show ?thesis by blast
qed

lemma unat_of_nat_u64: "k < 2 ^ 64 \<Longrightarrow> unat (word_of_nat k :: u64) = k"
  by (simp add: unsigned_of_nat take_bit_nat_eq_self)

lemma utf8_length_gen:
  "list_all valid_cp cps \<Longrightarrow> n < 2 ^ 64 \<Longrightarrow> i + length (utf8_string cps) = n \<Longrightarrow>
     utf8_length_loop n (utf8_string cps @ rest) i len = Some (len + length cps)"
proof (induction cps arbitrary: i len)
  case Nil
  then show ?case by (simp add: utf8_length_loop.simps)
next
  case (Cons cp cps)
  obtain c p where e: "utf8_encode cp = c # p" and low: "cp < 0x80 \<longrightarrow> c < 0x80 \<and> p = []"
    using utf8_encode_Cons [of cp] by auto
  have IH: "utf8_length_loop n (utf8_string cps @ rest) (i + Suc (length p)) (Suc len)
      = Some (len + length (cp # cps))"
    using Cons.prems e by (subst Cons.IH) simp_all
  show ?case
  proof (cases "cp < 0x80")
    case True
    with low e IH Cons.prems show ?thesis by (subst utf8_length_loop.simps) simp
  next
    case False
    have "unat (word_of_nat n :: u64) = n"
      using Cons.prems(2) by (rule unat_of_nat_u64)
    then have "ngx_utf8_decode ((c # p) @ utf8_string cps @ rest) (word_of_nat n)
        = Some (word_of_nat cp, utf8_string cps @ rest)"
      using utf8_decode_encode [of cp "word_of_nat n"] False Cons.prems e
      by (simp add: valid_cp_def)
    with False e utf8_encode_high [of cp c p] IH Cons.prems valid_cp_word [of cp] show ?thesis
      by (subst utf8_length_loop.simps) simp
  qed
qed

text \<open>
  \<^verbatim>\<open>ngx_utf8_length\<close> counts code points: on the encoding of any list of code points, followed
  by anything, it returns the length of the list, and reads nothing past the string.
\<close>

theorem ngx_utf8_length_exact:
  assumes "list_all valid_cp cps" and "length (utf8_string cps) < 2 ^ 64"
  shows "ngx_utf8_length (utf8_string cps @ rest) (length (utf8_string cps)) = Some (length cps)"
  unfolding ngx_utf8_length_def
  using utf8_length_gen [OF assms, of 0 rest 0] by simp

theorem ngx_utf8_length_exact_witness:
  "list_all valid_cp [0x61, 0xe9, 0x20ac, 0x1f600] \<and>
   ngx_utf8_length (utf8_string [0x61, 0xe9, 0x20ac, 0x1f600]) 10 = Some 4"
proof -
  have v: "list_all valid_cp [0x61, 0xe9, 0x20ac, 0x1f600]" by (simp add: valid_cp_def)
  moreover have "length (utf8_string [0x61, 0xe9, 0x20ac, 0x1f600]) = 10"
    by (simp add: utf8_encode_def)
  ultimately show ?thesis using ngx_utf8_length_exact [OF v, of "[]"] by simp
qed

lemma utf8_cpystrn_gen:
  "list_all (\<lambda>cp. valid_cp cp \<and> cp \<noteq> 0) cps \<Longrightarrow> length (utf8_string cps) \<le> unat len \<Longrightarrow>
     utf8_cpystrn_loop n (utf8_string cps @ 0 # rest) len = Some (utf8_string (take n cps))"
proof (induction cps arbitrary: n len)
  case Nil
  then show ?case by (cases n) simp_all
next
  case (Cons cp cps)
  show ?case
  proof (cases n)
    case (Suc m)
    obtain c p where e: "utf8_encode cp = c # p"
      and low: "cp < 0x80 \<longrightarrow> c = word_of_nat cp \<and> c < 0x80 \<and> p = []"
      using utf8_encode_Cons [of cp] by auto
    let ?k = "Suc (length p)"
    have "unat (word_of_nat ?k :: u64) = ?k"
      using Cons.prems(2) e unsigned_less [of len, where ?'a = nat]
      by (intro unat_of_nat_u64) simp
    then have "length (utf8_string cps) \<le> unat (len - word_of_nat ?k)"
      using Cons.prems(2) e by (subst unat_sub) (simp_all add: word_le_nat_alt)
    with Cons have IH: "utf8_cpystrn_loop m (utf8_string cps @ 0 # rest) (len - word_of_nat ?k)
        = Some (utf8_string (take m cps))"
      by simp
    show ?thesis
    proof (cases "cp < 0x80")
      case True
      moreover have "c \<noteq> 0"
        using True low Cons.prems(1)
        by (auto simp: unat_eq_zero [symmetric] unsigned_of_nat take_bit_nat_eq_self simp del: unat_eq_zero)
      moreover from True low have "c < 0x80" and "p = []" by blast+
      ultimately show ?thesis using e IH Suc by simp
    next
      case False
      then have "ngx_utf8_decode ((c # p) @ utf8_string cps @ 0 # rest) len
          = Some (word_of_nat cp, utf8_string cps @ 0 # rest)"
        using utf8_decode_encode [of cp len] Cons.prems e by (simp add: valid_cp_def)
      with False e utf8_encode_high [of cp c p] IH Cons.prems valid_cp_word [of cp] Suc show ?thesis
        by simp
    qed
  qed simp
qed

text \<open>
  \<^verbatim>\<open>ngx_utf8_cpystrn\<close> truncates on a character boundary: of a null-terminated UTF-8 string it
  copies exactly the first \<open>n - 1\<close> characters, and reads nothing past the terminator.
\<close>

theorem ngx_utf8_cpystrn_exact:
  assumes "list_all (\<lambda>cp. valid_cp cp \<and> cp \<noteq> 0) cps" and "length (utf8_string cps) \<le> unat len"
  shows "ngx_utf8_cpystrn (utf8_string cps @ 0 # rest) n len = Some (utf8_string (take (n - 1) cps))"
  unfolding ngx_utf8_cpystrn_def using utf8_cpystrn_gen [OF assms] by simp

theorem ngx_utf8_cpystrn_exact_witness:
  "list_all (\<lambda>cp. valid_cp cp \<and> cp \<noteq> 0) [0x61, 0x20ac, 0xe9] \<and>
   ngx_utf8_cpystrn (utf8_string [0x61, 0x20ac, 0xe9] @ [0]) 3 7 = Some (utf8_string [0x61, 0x20ac])"
proof -
  have v: "list_all (\<lambda>cp. valid_cp cp \<and> cp \<noteq> 0) [0x61, 0x20ac, 0xe9]" by (simp add: valid_cp_def)
  moreover have "length (utf8_string [0x61, 0x20ac, 0xe9]) \<le> unat (7 :: u64)"
    by (simp add: utf8_encode_def)
  ultimately show ?thesis
    using ngx_utf8_cpystrn_exact [of "[0x61, 0x20ac, 0xe9]" 7 "[]" 3] by simp
qed

text \<open>
  What the decoder accepts beyond UTF-8 and reads beyond its string: the lead bytes 0xf8
  to 0xff are taken for four-byte leads, a continuation byte may be any byte from 0x80 up, and
  \<^verbatim>\<open>ngx_utf8_length\<close> on a string that ends inside a sequence reads past the end, because it
  passes the whole length for the remaining one.
\<close>

theorem utf8_accepts_invalid:
  "ngx_utf8_decode [0xf9, 0x80, 0x80, 0x80] 4 = Some (0x40000, [])
   \<and> ngx_utf8_decode [0xc3, 0xff] 2 = Some (0xff, [])
   \<and> ngx_utf8_length [0x61, 0x61, 0xe2] 3 = None
   \<and> ngx_utf8_decode [0xe2] 1 = Some (0xfffffffe, [0xe2])"
  by code_simp

end
