(* ===== verification/Ngx_String.thy ===== *)
theory Ngx_String
  imports Ngx_Prelude "HOL-Library.List_Lexorder" "HOL-Library.Sublist" "HOL-Library.Multiset"
begin

text \<open>
  Copying, comparison, search and sorting (\<^verbatim>\<open>ngx_string.c\<close>, \<^verbatim>\<open>ngx_string.h\<close>). A pointer is the
  list of the readable bytes from it on and a read past them is \<open>None\<close>, so that the theorems
  on null-terminated strings also show that nothing is read past the terminator.

  The comparison functions share a contract, the locale \<open>zcmp\<close>: they compare the strings by a
  key of their characters, position by position. The order lemma is proved once there. The
  searches for a static substring share \<open>search\<close>.
\<close>

section \<open>Case and copying\<close>

definition ngx_tolower :: "u_char \<Rightarrow> u_char" where
  "ngx_tolower c = (if c \<ge> ch_A \<and> c \<le> ch_Z then c OR 0x20 else c)"

definition ngx_toupper :: "u_char \<Rightarrow> u_char" where
  "ngx_toupper c = (if c \<ge> ch_a \<and> c \<le> ch_z then c AND NOT 0x20 else c)"

fun ngx_strlow :: "bytes \<Rightarrow> nat \<Rightarrow> bytes option" where
  "ngx_strlow src 0 = Some []"
| "ngx_strlow [] (Suc n) = None"
| "ngx_strlow (c # src) (Suc n) = map_option ((#) (ngx_tolower c)) (ngx_strlow src n)"

text \<open>
  \<^verbatim>\<open>ngx_cpystrn\<close>: all bytes written, the terminator included, and the offset of the returned
  pointer. The first argument of the loop is \<open>n\<close> after the decrement.
\<close>

fun cpystrn_loop :: "nat \<Rightarrow> bytes \<Rightarrow> bytes option" where
  "cpystrn_loop 0 src = Some [0]"
| "cpystrn_loop (Suc n) [] = None"
| "cpystrn_loop (Suc n) (c # src) =
     (if c = 0 then Some [0] else map_option ((#) c) (cpystrn_loop n src))"

definition ngx_cpystrn :: "bytes \<Rightarrow> nat \<Rightarrow> (bytes \<times> nat) option" where
  "ngx_cpystrn src n =
     (if n = 0 then Some ([], 0)
      else map_option (\<lambda>w. (w, length w - 1)) (cpystrn_loop (n - 1) src))"

fun ngx_strlchr :: "bytes \<Rightarrow> nat \<Rightarrow> u_char \<Rightarrow> nat option option" where
  "ngx_strlchr p 0 c = Some None"
| "ngx_strlchr [] (Suc n) c = None"
| "ngx_strlchr (x # p) (Suc n) c =
     (if x = c then Some (Some 0) else map_option (map_option Suc) (ngx_strlchr p n c))"

section \<open>Comparison\<close>

fun ngx_strcasecmp :: "bytes \<Rightarrow> bytes \<Rightarrow> int option" where
  "ngx_strcasecmp (a # s1) (b # s2) =
     (let c1 = ngx_tolower a; c2 = ngx_tolower b in
      if c1 = c2 then (if c1 \<noteq> 0 then ngx_strcasecmp s1 s2 else Some 0)
      else Some (uint c1 - uint c2))"
| "ngx_strcasecmp _ _ = None"

fun ngx_strncasecmp :: "bytes \<Rightarrow> bytes \<Rightarrow> nat \<Rightarrow> int option" where
  "ngx_strncasecmp s1 s2 0 = Some 0"
| "ngx_strncasecmp (a # s1) (b # s2) (Suc n) =
     (let c1 = ngx_tolower a; c2 = ngx_tolower b in
      if c1 = c2 then (if c1 \<noteq> 0 then ngx_strncasecmp s1 s2 n else Some 0)
      else Some (uint c1 - uint c2))"
| "ngx_strncasecmp _ _ (Suc n) = None"

text \<open>\<^verbatim>\<open>strncmp\<close> and \<^verbatim>\<open>memcmp\<close> of the C library, with the difference of the bytes as the value.\<close>

fun c_strncmp :: "bytes \<Rightarrow> bytes \<Rightarrow> nat \<Rightarrow> int option" where
  "c_strncmp s1 s2 0 = Some 0"
| "c_strncmp (a # s1) (b # s2) (Suc n) =
     (if a \<noteq> b then Some (uint a - uint b)
      else if a = 0 then Some 0 else c_strncmp s1 s2 n)"
| "c_strncmp _ _ (Suc n) = None"

fun c_memcmp :: "bytes \<Rightarrow> bytes \<Rightarrow> nat \<Rightarrow> int option" where
  "c_memcmp s1 s2 0 = Some 0"
| "c_memcmp (a # s1) (b # s2) (Suc n) =
     (if a \<noteq> b then Some (uint a - uint b) else c_memcmp s1 s2 n)"
| "c_memcmp _ _ (Suc n) = None"

text \<open>The loop of \<^verbatim>\<open>ngx_rstrncmp\<close> from index \<open>n\<close> down.\<close>

fun rstrncmp_loop :: "bytes \<Rightarrow> bytes \<Rightarrow> nat \<Rightarrow> int option" where
  "rstrncmp_loop s1 s2 n =
     do { a \<leftarrow> rd s1 n; b \<leftarrow> rd s2 n;
          if a \<noteq> b then Some (uint a - uint b)
          else if n = 0 then Some 0
          else rstrncmp_loop s1 s2 (n - 1) }"

definition ngx_rstrncmp :: "bytes \<Rightarrow> bytes \<Rightarrow> nat \<Rightarrow> int option" where
  "ngx_rstrncmp s1 s2 n = (if n = 0 then Some 0 else rstrncmp_loop s1 s2 (n - 1))"

definition rcase_up :: "u_char \<Rightarrow> u_char" where
  "rcase_up c = (if c \<ge> ch_a \<and> c \<le> ch_z then c - (ch_a - ch_A) else c)"

fun rstrncasecmp_loop :: "bytes \<Rightarrow> bytes \<Rightarrow> nat \<Rightarrow> int option" where
  "rstrncasecmp_loop s1 s2 n =
     do { a \<leftarrow> rd s1 n; b \<leftarrow> rd s2 n;
          let c1 = rcase_up a; c2 = rcase_up b in
          if c1 \<noteq> c2 then Some (uint c1 - uint c2)
          else if n = 0 then Some 0
          else rstrncasecmp_loop s1 s2 (n - 1) }"

definition ngx_rstrncasecmp :: "bytes \<Rightarrow> bytes \<Rightarrow> nat \<Rightarrow> int option" where
  "ngx_rstrncasecmp s1 s2 n = (if n = 0 then Some 0 else rstrncasecmp_loop s1 s2 (n - 1))"

definition ngx_memn2cmp :: "bytes \<Rightarrow> bytes \<Rightarrow> nat \<Rightarrow> nat \<Rightarrow> int option" where
  "ngx_memn2cmp s1 s2 n1 n2 =
     (let (n, z) = (if n1 \<le> n2 then (n1, -1) else (n2, 1)) in
      do { m \<leftarrow> c_memcmp s1 s2 n;
           if m \<noteq> 0 \<or> n1 = n2 then Some m else Some z })"

fun ngx_dns_strcmp :: "bytes \<Rightarrow> bytes \<Rightarrow> int option" where
  "ngx_dns_strcmp (a # s1) (b # s2) =
     (let c1 = ngx_tolower a; c2 = ngx_tolower b in
      if c1 = c2 then (if c1 \<noteq> 0 then ngx_dns_strcmp s1 s2 else Some 0)
      else
        (let c1 = if c1 = ch_dot then ch_sp else c1; c2 = if c2 = ch_dot then ch_sp else c2 in
         Some (uint c1 - uint c2)))"
| "ngx_dns_strcmp _ _ = None"

fun ngx_filename_cmp :: "bytes \<Rightarrow> bytes \<Rightarrow> nat \<Rightarrow> int option" where
  "ngx_filename_cmp s1 s2 0 = Some 0"
| "ngx_filename_cmp (c1 # s1) (c2 # s2) (Suc n) =
     (if c1 = c2 then (if c1 \<noteq> 0 then ngx_filename_cmp s1 s2 n else Some 0)
      else if c1 = 0 \<or> c2 = 0 then Some (uint c1 - uint c2)
      else
        (let c1 = if c1 = ch_slash then 0 else c1; c2 = if c2 = ch_slash then 0 else c2 in
         Some (uint c1 - uint c2)))"
| "ngx_filename_cmp _ _ (Suc n) = None"

section \<open>Search\<close>

text \<open>
  The searches return the offset of the match, or \<open>None\<close> inside for the null pointer. Each pair of
  nested loops is one loop here: an iteration reads a character, goes on when it is not the
  first of the pattern, and else compares the rest of the pattern. \<open>i\<close> is the offset of \<open>s1\<close>.
\<close>

fun strnstr_loop :: "u_char \<Rightarrow> bytes \<Rightarrow> nat \<Rightarrow> nat \<Rightarrow> nat \<Rightarrow> bytes \<Rightarrow> nat option option" where
  "strnstr_loop c2 s2 n 0 i s1 = Some None"
| "strnstr_loop c2 s2 n (Suc len) i [] = None"
| "strnstr_loop c2 s2 n (Suc len) i (c1 # s1) =
     (if c1 = 0 then Some None
      else if c1 \<noteq> c2 then strnstr_loop c2 s2 n len (Suc i) s1
      else if n > len then Some None
      else
        (case c_strncmp s1 s2 n of
           None \<Rightarrow> None
         | Some d \<Rightarrow> if d \<noteq> 0 then strnstr_loop c2 s2 n len (Suc i) s1 else Some (Some i)))"

text \<open>\<^verbatim>\<open>strlen\<close> of the C library.\<close>

fun c_strlen :: "bytes \<Rightarrow> nat option" where
  "c_strlen [] = None"
| "c_strlen (c # s) = (if c = 0 then Some 0 else map_option Suc (c_strlen s))"

definition ngx_strnstr :: "bytes \<Rightarrow> bytes \<Rightarrow> nat \<Rightarrow> nat option option" where
  "ngx_strnstr s1 s2 len =
     do { c2 \<leftarrow> rd s2 0; n \<leftarrow> c_strlen (tl s2); strnstr_loop c2 (tl s2) n len 0 s1 }"

fun strstrn_loop :: "u_char \<Rightarrow> bytes \<Rightarrow> nat \<Rightarrow> nat \<Rightarrow> bytes \<Rightarrow> nat option option" where
  "strstrn_loop c2 s2 n i [] = None"
| "strstrn_loop c2 s2 n i (c1 # s1) =
     (if c1 = 0 then Some None
      else if c1 \<noteq> c2 then strstrn_loop c2 s2 n (Suc i) s1
      else
        (case c_strncmp s1 s2 n of
           None \<Rightarrow> None
         | Some d \<Rightarrow> if d \<noteq> 0 then strstrn_loop c2 s2 n (Suc i) s1 else Some (Some i)))"

definition ngx_strstrn :: "bytes \<Rightarrow> bytes \<Rightarrow> nat \<Rightarrow> nat option option" where
  "ngx_strstrn s1 s2 n = do { c2 \<leftarrow> rd s2 0; strstrn_loop c2 (tl s2) n 0 s1 }"

text \<open>
  In \<^verbatim>\<open>ngx_strcasestrn\<close> the pattern is a \<^verbatim>\<open>char\<close> pointer, so that its first character is sign
  extended to \<^verbatim>\<open>ngx_uint_t\<close> while the characters of the string are zero extended.
\<close>

definition low64 :: "u64 \<Rightarrow> u64" where
  "low64 c = (if c \<ge> 0x41 \<and> c \<le> 0x5a then c OR 0x20 else c)"

fun strcasestrn_loop :: "u64 \<Rightarrow> bytes \<Rightarrow> nat \<Rightarrow> nat \<Rightarrow> bytes \<Rightarrow> nat option option" where
  "strcasestrn_loop c2 s2 n i [] = None"
| "strcasestrn_loop c2 s2 n i (c1 # s1) =
     (if c1 = 0 then Some None
      else if low64 (ucast c1) \<noteq> c2 then strcasestrn_loop c2 s2 n (Suc i) s1
      else
        (case ngx_strncasecmp s1 s2 n of
           None \<Rightarrow> None
         | Some d \<Rightarrow> if d \<noteq> 0 then strcasestrn_loop c2 s2 n (Suc i) s1 else Some (Some i)))"

definition ngx_strcasestrn :: "bytes \<Rightarrow> bytes \<Rightarrow> nat \<Rightarrow> nat option option" where
  "ngx_strcasestrn s1 s2 n =
     do { c2 \<leftarrow> rd s2 0; strcasestrn_loop (low64 (scast c2)) (tl s2) n 0 s1 }"

text \<open>
  \<^verbatim>\<open>ngx_strlcasestrn\<close>: \<open>lastp\<close> is the offset of the end of the string, and the loop ends at
  \<open>lastp - n\<close>, which may lie before the string.
\<close>

fun strlcasestrn_loop :: "int \<Rightarrow> u_char \<Rightarrow> bytes \<Rightarrow> nat \<Rightarrow> nat \<Rightarrow> bytes \<Rightarrow> nat option option" where
  "strlcasestrn_loop lastp c2 s2 n i s1 =
     (if int i \<ge> lastp then Some None
      else case s1 of
        [] \<Rightarrow> None
      | c1 # s1' \<Rightarrow>
          if ngx_tolower c1 \<noteq> c2 then strlcasestrn_loop lastp c2 s2 n (Suc i) s1'
          else
            (case ngx_strncasecmp s1' s2 n of
               None \<Rightarrow> None
             | Some d \<Rightarrow>
                 if d \<noteq> 0 then strlcasestrn_loop lastp c2 s2 n (Suc i) s1' else Some (Some i)))"

declare strlcasestrn_loop.simps [simp del]

definition ngx_strlcasestrn :: "bytes \<Rightarrow> nat \<Rightarrow> bytes \<Rightarrow> nat \<Rightarrow> nat option option" where
  "ngx_strlcasestrn s1 lastp s2 n =
     do { c2 \<leftarrow> rd s2 0;
          strlcasestrn_loop (int lastp - int n) (ngx_tolower c2) (tl s2) n 0 s1 }"

section \<open>The contract of a comparison\<close>

text \<open>
  A comparison result that orders two strings by a key of their characters: negative, zero or
  positive as the first is lexicographically before, equal to or after the second.
\<close>

definition orders :: "(u_char \<Rightarrow> int) \<Rightarrow> int option \<Rightarrow> bytes \<Rightarrow> bytes \<Rightarrow> bool" where
  "orders key r s t \<longleftrightarrow> (\<exists>d. r = Some d \<and> (d < 0 \<longleftrightarrow> map key s < map key t)
     \<and> (d = 0 \<longleftrightarrow> map key s = map key t))"

text \<open>
  \<open>ok\<close> are the characters the strings may hold, \<open>key\<close> is what they are compared by. The first
  argument is the bound on the number of characters, which an unbounded comparison ignores.
\<close>

locale zcmp =
  fixes cmp :: "nat \<Rightarrow> bytes \<Rightarrow> bytes \<Rightarrow> int option"
    and ok :: "u_char \<Rightarrow> bool" and key :: "u_char \<Rightarrow> int"
  assumes both_end: "cmp (Suc n) (0 # x) (0 # y) = Some 0"
    and left_end: "ok b \<Longrightarrow> \<exists>d<0. cmp (Suc n) (0 # x) (b # y) = Some d"
    and right_end: "ok a \<Longrightarrow> \<exists>d>0. cmp (Suc n) (a # x) (0 # y) = Some d"
    and same: "ok a \<Longrightarrow> ok b \<Longrightarrow> key a = key b \<Longrightarrow> cmp (Suc n) (a # x) (b # y) = cmp n x y"
    and below: "ok a \<Longrightarrow> ok b \<Longrightarrow> key a < key b \<Longrightarrow> \<exists>d<0. cmp (Suc n) (a # x) (b # y) = Some d"
    and above: "ok a \<Longrightarrow> ok b \<Longrightarrow> key b < key a \<Longrightarrow> \<exists>d>0. cmp (Suc n) (a # x) (b # y) = Some d"
begin

lemma orders_head:
  assumes "ok a" "ok b"
    and "key a = key b \<Longrightarrow> orders key (cmp n (s @ x) (t @ y)) s' t'"
  shows "orders key (cmp (Suc n) (a # s @ x) (b # t @ y)) (a # s') (b # t')"
proof -
  consider "key a = key b" | "key a < key b" | "key b < key a" by linarith
  then show ?thesis
  proof cases
    case 1
    with assms same [OF assms(1,2)] show ?thesis by (simp add: orders_def)
  next
    case 2
    from below [OF assms(1,2) 2] obtain d where "d < 0" "cmp (Suc n) (a # s @ x) (b # t @ y) = Some d"
      by blast
    with 2 show ?thesis by (auto simp: orders_def)
  next
    case 3
    from above [OF assms(1,2) 3] obtain d where "d > 0" "cmp (Suc n) (a # s @ x) (b # t @ y) = Some d"
      by blast
    with 3 show ?thesis by (auto simp: orders_def)
  qed
qed

lemma orders_ends:
  "orders key (cmp (Suc n) (0 # x) (0 # y)) [] []"
  "ok b \<Longrightarrow> orders key (cmp (Suc n) (0 # x) (b # y)) [] (b # t)"
  "ok a \<Longrightarrow> orders key (cmp (Suc n) (a # x) (0 # y)) (a # s) []"
  using both_end [of n x y] left_end [of b n x y] right_end [of a n x y] by (auto simp: orders_def)

lemma order:
  "list_all ok s \<Longrightarrow> list_all ok t \<Longrightarrow> length s < n \<Longrightarrow> orders key (cmp n (s @ 0 # x) (t @ 0 # y)) s t"
proof (induction s arbitrary: n t)
  case Nil
  then obtain m where "n = Suc m" by (cases n) auto
  with Nil show ?case by (cases t) (auto simp: orders_ends)
next
  case (Cons a s)
  then obtain m where n: "n = Suc m" by (cases n) auto
  with Cons show ?case by (cases t) (auto simp: orders_ends orders_head)
qed

end

text \<open>A comparison of at most \<open>n\<close> characters.\<close>

locale ncmp = zcmp +
  assumes zero: "cmp 0 x y = Some 0"
begin

lemma order_take:
  "list_all ok s \<Longrightarrow> list_all ok t \<Longrightarrow> orders key (cmp n (s @ 0 # x) (t @ 0 # y)) (take n s) (take n t)"
proof (induction s arbitrary: n t)
  case Nil
  show ?case
  proof (cases n)
    case (Suc m)
    with Nil show ?thesis by (cases t) (auto simp: orders_ends)
  qed (simp add: zero orders_def)
next
  case (Cons a s)
  show ?case
  proof (cases n)
    case (Suc m)
    with Cons show ?thesis by (cases t) (auto simp: orders_ends orders_head)
  qed (simp add: zero orders_def)
qed

end

section \<open>The comparisons meet the contract\<close>

abbreviation case_key :: "u_char \<Rightarrow> int" where
  "case_key c \<equiv> uint (ngx_tolower c)"

definition dns_key :: "u_char \<Rightarrow> int" where
  "dns_key c = (if c = ch_dot then 0x20 else uint (ngx_tolower c))"

definition filename_key :: "u_char \<Rightarrow> int" where
  "filename_key c = (if c = ch_slash then 0 else uint c)"

lemma unat_or_case:
  fixes c :: u_char
  assumes "0x41 \<le> unat c" and "unat c \<le> 0x5a"
  shows "unat (c OR 0x20) = unat c + 0x20"
proof -
  have "unat ((word_of_nat (0x41 + k) :: u_char) OR 0x20) = 0x41 + k + 0x20" if "k < 26" for k
    by (rule upto_all_I [OF _ that]) code_simp
  from this [of "unat c - 0x41"] assms show ?thesis by simp
qed

lemma unat_tolower:
  "unat (ngx_tolower c) = (if 0x41 \<le> unat c \<and> unat c \<le> 0x5a then unat c + 0x20 else unat c)"
  by (auto simp: ngx_tolower_def word_le_nat_alt unat_or_case)

lemma byte_eq_unat: "c = d \<longleftrightarrow> unat c = unat d" for c d :: u_char
  by (simp add: word_unat_eq_iff)

lemma tolower_zero [simp]: "ngx_tolower c = 0 \<longleftrightarrow> c = 0"
  by (simp add: byte_eq_unat unat_tolower)

lemma uint_nz: "c \<noteq> 0 \<Longrightarrow> uint c \<noteq> 0" for c :: u_char
  by (simp add: unsigned_eq_0_iff)

lemma tolower_dot [simp]: "ngx_tolower c = ch_dot \<longleftrightarrow> c = ch_dot"
  by (simp add: byte_eq_unat unat_tolower)

lemma tolower_at_0 [simp]: "ngx_tolower 0 = 0"
  by simp

lemma tolower_at_dot [simp]: "ngx_tolower ch_dot = ch_dot"
  by (simp only: tolower_dot)

lemma uint_eq: "uint a = uint b \<longleftrightarrow> a = b" for a b :: u_char
  by (auto intro: unsigned_word_eqI)

lemma uint_pos: "c \<noteq> 0 \<Longrightarrow> 0 < uint c" for c :: u_char
  using uint_eq [of c 0] by (simp add: order_less_le)

interpretation strcasecmp: zcmp "\<lambda>n. ngx_strcasecmp" "\<lambda>c. c \<noteq> 0" case_key
  by unfold_locales (auto simp: Let_def uint_pos uint_eq uint_nz)

interpretation strncasecmp: ncmp "\<lambda>n x y. ngx_strncasecmp x y n" "\<lambda>c. c \<noteq> 0" case_key
  by unfold_locales (auto simp: Let_def uint_pos uint_eq uint_nz)

interpretation filename_cmp: ncmp "\<lambda>n x y. ngx_filename_cmp x y n" "\<lambda>c. c \<noteq> 0" filename_key
  by unfold_locales (auto simp: Let_def uint_pos uint_eq uint_nz filename_key_def split: if_splits)

lemma dns_tolower:
  assumes "0x20 < c"
  shows "0x20 < uint (ngx_tolower c)"
proof -
  have "0x20 < unat (ngx_tolower c)" using assms by (simp add: unat_tolower word_less_nat_alt)
  then have "int 0x20 < int (unat (ngx_tolower c))" by (simp only: of_nat_less_iff)
  then show ?thesis by simp
qed

interpretation dns_strcmp: zcmp "\<lambda>n. ngx_dns_strcmp" "\<lambda>c. 0x20 < c" dns_key
  by unfold_locales (auto simp: Let_def uint_pos uint_eq uint_nz dns_key_def dest: dns_tolower split: if_splits)

text \<open>
  The case-insensitive comparisons order null-terminated strings by their lower-cased
  characters, lexicographically; the bounded one by the first \<open>n\<close> of them. They are total and
  read nothing past the terminators.
\<close>

theorem strcasecmp_orders:
  assumes "0 \<notin> set s" and "0 \<notin> set t"
  shows "orders case_key (ngx_strcasecmp (s @ 0 # x) (t @ 0 # y)) s t
    \<and> orders case_key (ngx_strncasecmp (s @ 0 # x) (t @ 0 # y) n) (take n s) (take n t)"
  using assms strcasecmp.order [of s t "Suc (length s)" x y] strncasecmp.order_take [of s t]
  by (auto simp: list_all_iff)

theorem strcasecmp_orders_witness:
  "0 \<notin> set (bytes_of ''Host'') \<and> 0 \<notin> set (bytes_of ''hOst'') \<and>
   orders case_key (ngx_strcasecmp (bytes_of ''Host'' @ 0 # []) (bytes_of ''hOst'' @ 0 # []))
     (bytes_of ''Host'') (bytes_of ''hOst'') \<and>
   ngx_strcasecmp (bytes_of ''Host'' @ 0 # []) (bytes_of ''hOst'' @ 0 # []) = Some 0"
proof -
  have n: "0 \<notin> set (bytes_of ''Host'')" "0 \<notin> set (bytes_of ''hOst'')"
    by (simp_all add: bytes_of_def)
  moreover have "ngx_strcasecmp (bytes_of ''Host'' @ 0 # []) (bytes_of ''hOst'' @ 0 # []) = Some 0"
    by code_simp
  ultimately show ?thesis using strcasecmp_orders [OF n] by blast
qed

text \<open>
  \<^verbatim>\<open>ngx_dns_strcmp\<close> orders host names with the dot as the lowest character, and
  \<^verbatim>\<open>ngx_filename_cmp\<close> file names with the slash as the lowest, so that the names below a
  domain or directory sort together. The names may hold any character but null, for host names any
  printable character but the space.
\<close>

theorem dns_filename_orders:
  assumes "\<forall>c\<in>set s. 0x20 < c" and "\<forall>c\<in>set t. 0x20 < c"
  shows "orders dns_key (ngx_dns_strcmp (s @ 0 # x) (t @ 0 # y)) s t
    \<and> orders filename_key (ngx_filename_cmp (s @ 0 # x) (t @ 0 # y) n) (take n s) (take n t)"
proof -
  from assms have "list_all (\<lambda>c. c \<noteq> 0) s" "list_all (\<lambda>c. c \<noteq> 0) t" by (auto simp: list_all_iff)
  with assms show ?thesis
    using dns_strcmp.order [of s t "Suc (length s)" x y] filename_cmp.order_take [of s t]
    by (simp add: list_all_iff)
qed

theorem dns_filename_orders_witness:
  "(\<forall>c\<in>set (bytes_of ''a.b''). 0x20 < c) \<and> (\<forall>c\<in>set (bytes_of ''a-b''). 0x20 < c) \<and>
   orders dns_key (ngx_dns_strcmp (bytes_of ''a.b'' @ 0 # []) (bytes_of ''a-b'' @ 0 # []))
     (bytes_of ''a.b'') (bytes_of ''a-b'') \<and>
   map dns_key (bytes_of ''a.b'') < map dns_key (bytes_of ''a-b'')"
proof -
  have n: "\<forall>c\<in>set (bytes_of ''a.b''). 0x20 < c" "\<forall>c\<in>set (bytes_of ''a-b''). 0x20 < c"
    by (simp_all add: bytes_of_def)
  moreover have "map dns_key (bytes_of ''a.b'') < map dns_key (bytes_of ''a-b'')"
    by (simp add: bytes_of_def dns_key_def ngx_tolower_def)
  ultimately show ?thesis using dns_filename_orders [OF n] by blast
qed

lemma memn2cmp_Cons:
  "ngx_memn2cmp (a # s) (b # t) (Suc n1) (Suc n2) =
     (if a \<noteq> b then Some (uint a - uint b) else ngx_memn2cmp s t n1 n2)"
  by (auto simp: ngx_memn2cmp_def uint_eq)

lemma memn2cmp_orders:
  "orders uint (ngx_memn2cmp (s @ x) (t @ y) (length s) (length t)) s t"
proof (induction s arbitrary: t)
  case Nil
  show ?case by (cases t) (simp_all add: ngx_memn2cmp_def orders_def)
next
  case (Cons a s)
  show ?case
  proof (cases t)
    case (Cons b t')
    with Cons.IH [of t'] show ?thesis by (auto simp: memn2cmp_Cons orders_def uint_eq)
  qed (simp add: ngx_memn2cmp_def orders_def)
qed

text \<open>The backward comparisons agree with equality of the compared parts.\<close>

lemma rstrncmp_loop_zero:
  "n < length s \<Longrightarrow> n < length t \<Longrightarrow>
     \<exists>d. rstrncmp_loop s t n = Some d \<and> (d = 0 \<longleftrightarrow> take (Suc n) s = take (Suc n) t)"
proof (induction n)
  case 0
  then show ?case by (cases s; cases t) (auto simp: uint_eq)
next
  case (Suc n)
  then show ?case
    by (subst rstrncmp_loop.simps) (auto simp: ub_simps uint_eq take_Suc_conv_app_nth)
qed

section \<open>The contract of a search\<close>

text \<open>
  The offset of the first occurrence of a pattern in a string, by a key of the characters, or
  \<open>None\<close> when there is none.
\<close>

definition first_at :: "('a \<Rightarrow> 'b) \<Rightarrow> 'a list \<Rightarrow> 'a list \<Rightarrow> nat option \<Rightarrow> bool" where
  "first_at key pat s r \<longleftrightarrow>
     (case r of
        None \<Rightarrow> \<forall>j\<le>length s. \<not> prefix (map key pat) (map key (drop j s))
      | Some i \<Rightarrow> prefix (map key pat) (map key (drop i s)) \<and> i + length pat \<le> length s
          \<and> (\<forall>j<i. \<not> prefix (map key pat) (map key (drop j s))))"

lemma first_at_here: "prefix (map key pat) (map key s) \<Longrightarrow> first_at key pat s (Some 0)"
  using prefix_length_le [of "map key pat" "map key s"] by (simp add: first_at_def)

lemma first_at_later:
  assumes "\<not> prefix (map key pat) (map key (c # s))" and "first_at key pat s r"
  shows "first_at key pat (c # s) (map_option Suc r)"
proof (cases r)
  case None
  with assms show ?thesis by (simp add: first_at_def less_Suc_eq_le [symmetric] All_less_Suc2)
next
  case (Some i)
  with assms show ?thesis by (simp add: first_at_def All_less_Suc2)
qed

lemma first_at_short: "length s < length pat \<Longrightarrow> first_at key pat s None"
  by (auto simp: first_at_def dest!: prefix_length_le)

text \<open>
  A search loop: \<open>run pat x i s\<close> searches the pattern in the string \<open>s\<close> that starts at offset \<open>i\<close>
  and is followed by \<open>x\<close> in memory. \<open>okp\<close> are the admissible patterns, \<open>ok\<close> the characters the
  string may hold.
\<close>

locale search =
  fixes run :: "bytes \<Rightarrow> bytes \<Rightarrow> nat \<Rightarrow> bytes \<Rightarrow> nat option option" and key :: "u_char \<Rightarrow> u_char"
    and okp :: "bytes \<Rightarrow> bool" and ok :: "u_char \<Rightarrow> bool"
  assumes pattern: "okp pat \<Longrightarrow> pat \<noteq> []"
    and stop: "okp pat \<Longrightarrow> run pat x i [] = Some None"
    and hit: "okp pat \<Longrightarrow> list_all ok (c # s) \<Longrightarrow> prefix (map key pat) (map key (c # s)) \<Longrightarrow>
      run pat x i (c # s) = Some (Some i)"
    and miss: "okp pat \<Longrightarrow> list_all ok (c # s) \<Longrightarrow> \<not> prefix (map key pat) (map key (c # s)) \<Longrightarrow>
      run pat x i (c # s) = run pat x (Suc i) s
      \<or> run pat x i (c # s) = Some None \<and> length (c # s) < length pat"
begin

lemma finds_from:
  assumes "okp pat" and "list_all ok s"
  shows "\<exists>r. run pat x i s = Some (map_option ((+) i) r) \<and> first_at key pat s r"
  using assms(2)
proof (induction s arbitrary: i)
  case Nil
  show ?case
  proof (intro exI conjI)
    show "first_at key pat [] None" using pattern [OF assms(1)] by (intro first_at_short) simp
  qed (simp add: stop [OF assms(1)])
next
  case (Cons c s)
  show ?case
  proof (cases "prefix (map key pat) (map key (c # s))")
    case True
    from hit [OF assms(1) Cons.prems True, of x i] first_at_here [OF True] show ?thesis
      by (intro exI [of _ "Some 0"]) simp
  next
    case False
    from miss [OF assms(1) Cons.prems False, of x i] show ?thesis
    proof
      assume m: "run pat x i (c # s) = run pat x (Suc i) s"
      from Cons obtain r where r: "run pat x (Suc i) s = Some (map_option ((+) (Suc i)) r)"
        and f: "first_at key pat s r" by fastforce
      from first_at_later [OF False f] r m show ?thesis
        by (intro exI [of _ "map_option Suc r"]) (cases r; simp)
    next
      assume "run pat x i (c # s) = Some None \<and> length (c # s) < length pat"
      with first_at_short [of "c # s" pat key] show ?thesis by (intro exI [of _ None]) simp
    qed
  qed
qed

lemma finds:
  assumes "okp pat" and "list_all ok s"
  shows "\<exists>r. run pat x 0 s = Some r \<and> first_at key pat s r"
proof -
  obtain r where "run pat x 0 s = Some (map_option ((+) 0) r)" "first_at key pat s r"
    using finds_from [OF assms] by blast
  then show ?thesis by (cases r) simp_all
qed

end

section \<open>The searches meet the contract\<close>

lemma c_strncmp_prefix:
  "0 \<notin> set p \<Longrightarrow> length p \<le> length s \<or> 0 \<in> set s \<Longrightarrow>
     \<exists>d. c_strncmp s (p @ y) (length p) = Some d \<and> (d = 0 \<longleftrightarrow> prefix p s)"
proof (induction p arbitrary: s)
  case (Cons a p)
  then show ?case by (cases s) (auto simp: uint_eq uint_nz)
qed simp

lemma strncasecmp_prefix:
  "0 \<notin> set p \<Longrightarrow> length p \<le> length s \<or> 0 \<in> set s \<Longrightarrow>
     \<exists>d. ngx_strncasecmp s (p @ y) (length p) = Some d
       \<and> (d = 0 \<longleftrightarrow> prefix (map ngx_tolower p) (map ngx_tolower s))"
proof (induction p arbitrary: s)
  case (Cons a p)
  then show ?case by (cases s) (auto simp: Let_def uint_eq uint_nz)
qed simp

lemma prefix_nul: "0 \<notin> set p \<Longrightarrow> prefix p (s @ 0 # x) \<longleftrightarrow> prefix p s" for p :: "u_char list"
proof (induction p arbitrary: s)
  case (Cons a p)
  then show ?case by (cases s) auto
qed simp

lemma prefix_long: "length p \<le> length s \<Longrightarrow> prefix p (s @ x) \<longleftrightarrow> prefix p s"
  by (metis prefix_length_prefix prefix_prefix prefixI)

definition zpattern :: "bytes \<Rightarrow> bool" where
  "zpattern pat \<longleftrightarrow> pat \<noteq> [] \<and> 0 \<notin> set pat"

lemma zpatternE:
  assumes "zpattern pat"
  obtains a p where "pat = a # p" "a \<noteq> 0" "0 \<notin> set p"
  using assms by (cases pat) (auto simp: zpattern_def)

lemma list_all_nz: "list_all (\<lambda>c. c \<noteq> 0) s \<longleftrightarrow> 0 \<notin> set s"
  by (auto simp: list_all_iff)

lemma map_tolower_nz: "0 \<notin> set p \<Longrightarrow> 0 \<notin> set (map ngx_tolower p)"
  by auto

lemma prefix_nul_case:
  "0 \<notin> set p \<Longrightarrow> prefix (map ngx_tolower p) (map ngx_tolower (s @ 0 # x))
     \<longleftrightarrow> prefix (map ngx_tolower p) (map ngx_tolower s)"
  using prefix_nul [OF map_tolower_nz, of p "map ngx_tolower s" "map ngx_tolower x"] by simp

interpretation strstrn: search
  "\<lambda>pat x i s. strstrn_loop (hd pat) (tl pat @ [0]) (length pat - 1) i (s @ 0 # x)"
  "\<lambda>c. c" zpattern "\<lambda>c. c \<noteq> 0"
proof (unfold_locales, goal_cases)
  case (3 pat c s x i)
  then show ?case using c_strncmp_prefix [of "tl pat" "s @ 0 # x" "[0]"]
    by (elim zpatternE) (auto simp: list_all_nz prefix_nul)
next
  case (4 pat c s x i)
  then show ?case using c_strncmp_prefix [of "tl pat" "s @ 0 # x" "[0]"]
    by (elim zpatternE) (auto simp: list_all_nz prefix_nul)
qed (auto simp: zpattern_def)

lemma low64_byte:
  assumes "c < 0x80"
  shows "low64 (scast c) = ucast (ngx_tolower c) \<and> low64 (ucast c) = ucast (ngx_tolower c)"
  by (rule bytes_below_I [where k = 128]; (use assms in \<open>simp add: word_less_nat_alt\<close>; fail)?; code_simp)

lemma low64_ucast: "low64 (ucast c) = (ucast (ngx_tolower c) :: u64)" for c :: u_char
proof (cases "c < 0x80")
  case True
  then show ?thesis by (simp add: low64_byte)
next
  case False
  then have "\<not> (ucast c :: u64) \<le> 0x5a" and "\<not> c \<le> 0x5a"
    by (simp_all add: word_le_nat_alt word_less_nat_alt unsigned_ucast_eq take_bit_nat_eq_self
        order_less_trans [OF unat_byte_lt])
  then show ?thesis by (simp add: low64_def ngx_tolower_def)
qed

lemma ucast64_eq: "(ucast c :: u64) = ucast d \<longleftrightarrow> c = d" for c d :: u_char
  by (auto simp: word_unat_eq_iff unsigned_ucast_eq take_bit_nat_eq_self order_less_trans [OF unat_byte_lt])

definition ascii_pattern :: "bytes \<Rightarrow> bool" where
  "ascii_pattern pat \<longleftrightarrow> zpattern pat \<and> hd pat < 0x80"

interpretation strcasestrn: search
  "\<lambda>pat x i s. strcasestrn_loop (low64 (scast (hd pat))) (tl pat @ [0]) (length pat - 1) i (s @ 0 # x)"
  ngx_tolower ascii_pattern "\<lambda>c. c \<noteq> 0"
proof (unfold_locales, goal_cases)
  case (3 pat c s x i)
  then have "zpattern pat" "low64 (scast (hd pat)) = ucast (ngx_tolower (hd pat))"
    by (simp_all add: ascii_pattern_def low64_byte)
  with 3 show ?case using strncasecmp_prefix [of "tl pat" "s @ 0 # x" "[0]"]
    by (elim zpatternE) (auto simp: list_all_nz prefix_nul_case low64_ucast simp del: map_append)
next
  case (4 pat c s x i)
  then have "zpattern pat" "low64 (scast (hd pat)) = ucast (ngx_tolower (hd pat))"
    by (simp_all add: ascii_pattern_def low64_byte)
  with 4 show ?case using strncasecmp_prefix [of "tl pat" "s @ 0 # x" "[0]"]
    by (elim zpatternE)
      (auto simp: list_all_nz prefix_nul_case low64_ucast ucast64_eq simp del: map_append)
qed (auto simp: zpattern_def ascii_pattern_def)

interpretation strnstr: search
  "\<lambda>pat x i s. strnstr_loop (hd pat) (tl pat @ [0]) (length pat - 1) (length s) i (s @ x)"
  "\<lambda>c. c" zpattern "\<lambda>c. c \<noteq> 0"
proof (unfold_locales, goal_cases)
  case (3 pat c s x i)
  then have "length pat - 1 \<le> length s" by (auto dest: prefix_length_le)
  with 3 show ?case using c_strncmp_prefix [of "tl pat" "s @ x" "[0]"]
    by (elim zpatternE) (auto simp: list_all_nz prefix_long)
next
  case (4 pat c s x i)
  show ?case
  proof (cases "length pat - 1 \<le> length s")
    case True
    with 4 show ?thesis using c_strncmp_prefix [of "tl pat" "s @ x" "[0]"]
      by (elim zpatternE) (auto simp: list_all_nz prefix_long)
  next
    case False
    with 4 show ?thesis by (elim zpatternE) (auto simp: list_all_nz)
  qed
qed (auto simp: zpattern_def)

interpretation strlcasestrn: search
  "\<lambda>pat x i s. strlcasestrn_loop (int (i + length s) - int (length pat - 1))
     (ngx_tolower (hd pat)) (tl pat @ [0]) (length pat - 1) i (s @ x)"
  ngx_tolower zpattern "\<lambda>c. True"
proof (unfold_locales, goal_cases)
  case (3 pat c s x i)
  then have l: "length pat - 1 \<le> length s" by (auto dest: prefix_length_le)
  with 3 show ?case using strncasecmp_prefix [of "tl pat" "s @ x" "[0]"]
    by (subst strlcasestrn_loop.simps) (elim zpatternE, auto simp: prefix_long)
next
  case (4 pat c s x i)
  then show ?case using strncasecmp_prefix [of "tl pat" "s @ x" "[0]"]
    by (subst strlcasestrn_loop.simps, subst (3) strlcasestrn_loop.simps) (elim zpatternE, auto simp: prefix_long)
qed (auto simp: zpattern_def strlcasestrn_loop.simps)

text \<open>Bytes behind a null byte are never reached, whatever length is given.\<close>

interpretation strnstr_nul: search
  "\<lambda>pat x i s. strnstr_loop (hd pat) (tl pat @ [0]) (length pat - 1) (length s + Suc k) i (s @ 0 # x)"
  "\<lambda>c. c" zpattern "\<lambda>c. c \<noteq> 0" for k
proof (unfold_locales, goal_cases)
  case (3 pat c s x i)
  then have "length pat - 1 \<le> length s" by (auto dest: prefix_length_le)
  with 3 show ?case using c_strncmp_prefix [of "tl pat" "s @ 0 # x" "[0]"]
    by (elim zpatternE) (auto simp: list_all_nz prefix_nul)
next
  case (4 pat c s x i)
  then show ?case using c_strncmp_prefix [of "tl pat" "s @ 0 # x" "[0]"]
    by (elim zpatternE) (auto simp: list_all_nz prefix_nul)
qed (auto simp: zpattern_def)

lemma low64_scast: "c < 0x80 \<or> 256 \<le> low64 (scast c)" for c :: u_char
  by (rule byte_all_I [where P = "\<lambda>c. c < 0x80 \<or> 256 \<le> low64 (scast c)"]) code_simp

lemma low64_sign:
  fixes c d :: u_char
  assumes "\<not> c < 0x80"
  shows "low64 (ucast d) \<noteq> low64 (scast c)"
proof -
  have "256 \<le> low64 (scast c)" using assms low64_scast [of c] by simp
  moreover have "low64 (ucast d) < 256"
    using order.strict_trans1 [OF take_bit_nat_less_eq_self unat_byte_lt [of "ngx_tolower d"], of 64]
    by (simp only: low64_ucast) (simp add: word_less_nat_alt unsigned_ucast_eq)
  ultimately show ?thesis by auto
qed

lemma strcasestrn_sign: "\<not> c < (0x80 :: u_char) \<Longrightarrow> strcasestrn_loop (low64 (scast c)) p n i (s @ 0 # x) = Some None"
  by (induction s arbitrary: i) (simp_all add: low64_sign)

lemma c_str_split:
  fixes s :: bytes
  obtains u where "s @ 0 # x = takeWhile (\<lambda>c. c \<noteq> 0) s @ 0 # u"
proof (cases "dropWhile (\<lambda>c. c \<noteq> 0) s")
  case Nil
  then have "s @ 0 # x = takeWhile (\<lambda>c. c \<noteq> 0) s @ 0 # x" by (metis append.right_neutral takeWhile_dropWhile_id)
  then show thesis by (rule that)
next
  case (Cons c u)
  then have "c = 0" using hd_dropWhile [of "\<lambda>c. c \<noteq> 0" s] by auto
  then have "s @ 0 # x = takeWhile (\<lambda>c. c \<noteq> 0) s @ 0 # u @ 0 # x" using takeWhile_dropWhile_id [of "\<lambda>c. c \<noteq> 0" s] Cons
    by (metis append_Cons append_assoc)
  then show thesis by (rule that)
qed

lemma strnstr_finds:
  assumes "zpattern pat"
  shows "\<exists>r. strnstr_loop (hd pat) (tl pat @ [0]) (length pat - 1) (length s) 0 (s @ x) = Some r
    \<and> first_at (\<lambda>c. c) pat (takeWhile (\<lambda>c. c \<noteq> 0) s) r"
proof -
  let ?t = "takeWhile (\<lambda>c. c \<noteq> 0) s"
  have t: "list_all (\<lambda>c. c \<noteq> 0) ?t" by (auto simp: list_all_iff dest: set_takeWhileD)
  show ?thesis
  proof (cases "dropWhile (\<lambda>c. c \<noteq> 0) s")
    case Nil
    then have "?t = s" by (metis append.right_neutral takeWhile_dropWhile_id)
    with strnstr.finds [OF assms t, of x] show ?thesis by (simp only:)
  next
    case (Cons c u)
    then have "c = 0" using hd_dropWhile [of "\<lambda>c. c \<noteq> 0" s] by auto
    then have s: "s = ?t @ 0 # u" using takeWhile_dropWhile_id [of "\<lambda>c. c \<noteq> 0" s] Cons by simp
    then have e: "length s = length ?t + Suc (length u)" "s @ x = ?t @ 0 # u @ x"
      by (metis length_append length_Cons, metis append_Cons append_assoc)
    show ?thesis unfolding e by (rule strnstr_nul.finds [OF assms t])
  qed
qed

text \<open>
  C39. The substring searches return the first occurrence of the pattern, or null exactly when there is none, for
  every pattern that is not empty and holds no null byte, and every string: \<^verbatim>\<open>ngx_strstrn\<close> in a null-terminated
  string, \<^verbatim>\<open>ngx_strnstr\<close> in the bytes of a region before its first null byte, \<^verbatim>\<open>ngx_strcasestrn\<close> in a null-terminated
  string and \<^verbatim>\<open>ngx_strlcasestrn\<close> in all of a region, null bytes or not, both ignoring case. The exception is
  \<^verbatim>\<open>ngx_strcasestrn\<close> for a pattern that starts with a byte of 128 or more: it returns null always, as it sign-extends
  the byte on one side of the comparison only. None of them reads past the string.
\<close>

theorem searches_find_first:
  assumes "pat \<noteq> []" and "0 \<notin> set pat"
  shows "\<exists>r1 r2 r3 r4.
    ngx_strstrn (s @ 0 # x) (pat @ [0]) (length pat - 1) = Some r1
    \<and> first_at (\<lambda>c. c) pat (takeWhile (\<lambda>c. c \<noteq> 0) s) r1
    \<and> ngx_strnstr (s @ x) (pat @ [0]) (length s) = Some r2
    \<and> first_at (\<lambda>c. c) pat (takeWhile (\<lambda>c. c \<noteq> 0) s) r2
    \<and> ngx_strcasestrn (s @ 0 # x) (pat @ [0]) (length pat - 1) = Some r3
    \<and> (if hd pat < 0x80 then first_at ngx_tolower pat (takeWhile (\<lambda>c. c \<noteq> 0) s) r3 else r3 = None)
    \<and> ngx_strlcasestrn (s @ x) (length s) (pat @ [0]) (length pat - 1) = Some r4
    \<and> first_at ngx_tolower pat s r4"
proof -
  let ?t = "takeWhile (\<lambda>c. c \<noteq> 0) s"
  have z: "zpattern pat" using assms by (simp add: zpattern_def)
  have nz: "list_all (\<lambda>c. c \<noteq> 0) ?t" by (auto simp: list_all_iff dest: set_takeWhileD)
  have len: "c_strlen (p @ [0]) = Some (length p)" if "0 \<notin> set p" for p
    using that by (induction p) auto
  obtain a p where p: "pat = a # p" "0 \<notin> set p" using z by (rule zpatternE)
  obtain u where u: "s @ 0 # x = ?t @ 0 # u" by (rule c_str_split)
  have "\<exists>r. ngx_strcasestrn (s @ 0 # x) (pat @ [0]) (length pat - 1) = Some r
    \<and> (if hd pat < 0x80 then first_at ngx_tolower pat ?t r else r = None)"
  proof (cases "hd pat < 0x80")
    case True
    then have "ascii_pattern pat" using z by (simp add: ascii_pattern_def)
    from strcasestrn.finds [OF this nz, of u] True show ?thesis using p by (simp add: u ngx_strcasestrn_def)
  next
    case False
    with strcasestrn_sign [of a "p @ [0]" "length p" 0 s x] p show ?thesis by (simp add: ngx_strcasestrn_def)
  qed
  moreover have "\<exists>r. ngx_strstrn (s @ 0 # x) (pat @ [0]) (length pat - 1) = Some r \<and> first_at (\<lambda>c. c) pat ?t r"
    using strstrn.finds [OF z nz, of u] p by (simp add: u ngx_strstrn_def)
  moreover have "\<exists>r. ngx_strnstr (s @ x) (pat @ [0]) (length s) = Some r \<and> first_at (\<lambda>c. c) pat ?t r"
    using strnstr_finds [OF z, of s x] len [of p] p by (simp add: ngx_strnstr_def)
  moreover have "\<exists>r. ngx_strlcasestrn (s @ x) (length s) (pat @ [0]) (length pat - 1) = Some r \<and> first_at ngx_tolower pat s r"
    using strlcasestrn.finds [OF z, of s x] p by (simp add: ngx_strlcasestrn_def list_all_iff)
  ultimately show ?thesis by blast
qed

theorem searches_find_first_witness:
  "bytes_of ''zIp'' \<noteq> [] \<and> 0 \<notin> set (bytes_of ''zIp'') \<and>
   (\<exists>r. ngx_strcasestrn (bytes_of ''gzip, deflate'' @ 0 # []) (bytes_of ''zIp'' @ [0])
       (length (bytes_of ''zIp'') - 1) = Some r \<and>
     first_at ngx_tolower (bytes_of ''zIp'') (takeWhile (\<lambda>c. c \<noteq> 0) (bytes_of ''gzip, deflate'')) r)"
proof -
  have n: "bytes_of ''zIp'' \<noteq> []" "0 \<notin> set (bytes_of ''zIp'')" "hd (bytes_of ''zIp'') < 0x80"
    by (simp_all add: bytes_of_def)
  then show ?thesis using searches_find_first [OF n(1,2), of "bytes_of ''gzip, deflate''" "[]"] by (simp only: if_True) blast
qed

section \<open>Sorting\<close>

text \<open>
  \<^verbatim>\<open>ngx_sort\<close> on an array of elements: the inner loop moves the elements of which the comparison
  with \<open>p\<close> is positive one place up, from \<open>p2\<close> down, and then stores \<open>p\<close>.
\<close>

fun sort_shift :: "('a \<Rightarrow> 'a \<Rightarrow> int) \<Rightarrow> 'a \<Rightarrow> nat \<Rightarrow> 'a list \<Rightarrow> 'a list" where
  "sort_shift cmp p p2 base =
     (if p2 > 0 \<and> cmp (base ! (p2 - 1)) p > 0
      then sort_shift cmp p (p2 - 1) (base[p2 := base ! (p2 - 1)])
      else base[p2 := p])"

declare sort_shift.simps [simp del]

text \<open>The outer loop from \<open>p1\<close>; \<open>sort_loop cmp base p1 k\<close> has \<open>k\<close> elements left.\<close>

fun sort_loop :: "('a \<Rightarrow> 'a \<Rightarrow> int) \<Rightarrow> 'a list \<Rightarrow> nat \<Rightarrow> nat \<Rightarrow> 'a list" where
  "sort_loop cmp base p1 0 = base"
| "sort_loop cmp base p1 (Suc k) = sort_loop cmp (sort_shift cmp (base ! p1) p1 base) (Suc p1) k"

text \<open>\<open>alloc\<close> says whether the temporary element could be allocated.\<close>

definition ngx_sort :: "bool \<Rightarrow> ('a \<Rightarrow> 'a \<Rightarrow> int) \<Rightarrow> 'a list \<Rightarrow> 'a list" where
  "ngx_sort alloc cmp base =
     (if alloc then sort_loop cmp base 1 (length base - 1) else base)"

text \<open>The shift inserts after the last element that is not greater.\<close>

lemma sort_shift_insert:
  "length us = p2 \<Longrightarrow>
     sort_shift cmp p p2 (us @ v # ws) =
     (let vs = rev (dropWhile (\<lambda>x. cmp x p > 0) (rev us)) in
      vs @ p # drop (length vs) us @ ws)"
proof (induction p2 arbitrary: us v ws)
  case 0
  then show ?case by (subst sort_shift.simps) simp
next
  case (Suc n)
  then obtain us' u where us: "us = us' @ [u]" "length us' = n"
    by (metis length_Suc_conv_rev)
  show ?case
  proof (cases "cmp u p > 0")
    case True
    then have "sort_shift cmp p (Suc n) (us @ v # ws) = sort_shift cmp p n (us' @ u # u # ws)"
      using us by (subst sort_shift.simps) (simp add: nth_append list_update_append)
    moreover have "length (dropWhile (\<lambda>x. cmp x p > 0) (rev us')) \<le> length us'"
      by (metis length_dropWhile_le length_rev)
    ultimately show ?thesis using Suc.IH [OF us(2)] us True by (simp add: Let_def)
  next
    case False
    then show ?thesis using us
      by (subst sort_shift.simps) (simp add: nth_append list_update_append)
  qed
qed

text \<open>On a sorted part it yields the stable sort of the part extended by the element.\<close>

lemma shift_sorted:
  fixes key :: "'a \<Rightarrow> 'k::linorder"
  assumes cmp: "\<And>x y. cmp x y > 0 \<longleftrightarrow> key y < key x" and len: "length xs = p2"
  shows "sort_shift cmp p p2 (sort_key key xs @ v # ws) = sort_key key (xs @ [p]) @ ws"
proof -
  let ?us = "sort_key key xs"
  define vs where "vs = rev (dropWhile (\<lambda>x. key p < key x) (rev ?us))"
  define zs where "zs = rev (takeWhile (\<lambda>x. key p < key x) (rev ?us))"
  have us: "?us = vs @ zs"
    unfolding vs_def zs_def by (metis rev_append rev_rev_ident takeWhile_dropWhile_id)
  have zs: "key p < key z" if "z \<in> set zs" for z
    using that unfolding zs_def by (auto dest: set_takeWhileD)
  have sorted: "sorted (map key (vs @ zs))" unfolding us [symmetric] by (rule sorted_sort_key)
  have last: "key (last vs) \<le> key p" if "vs \<noteq> []"
    using that hd_dropWhile [of "\<lambda>x. key p < key x" "rev ?us"] unfolding vs_def
    by (simp add: last_rev not_less)
  have vs: "key x \<le> key p" if "x \<in> set vs" for x
  proof -
    from that obtain ys l where v: "vs = ys @ [l]" by (cases vs rule: rev_cases) auto
    with sorted that have "key x \<le> key l" by (auto simp: sorted_append)
    with last v show ?thesis by force
  qed
  have "sort_key key (xs @ [p]) = vs @ p # zs"
  proof (rule properties_for_sort_key)
    show "mset (vs @ p # zs) = mset (xs @ [p])"
      using arg_cong [OF us, of mset] by simp
    show "sorted (map key (vs @ p # zs))"
      using sorted vs zs by (auto simp: sorted_append less_imp_le)
    fix k assume "k \<in> set (vs @ p # zs)"
    have "filter (\<lambda>x. key k = key x) (vs @ zs) = filter (\<lambda>x. key k = key x) xs"
      unfolding us [symmetric] using sort_key_stable [of key "key k" xs] by (simp add: eq_commute)
    moreover have "filter (\<lambda>x. key k = key x) zs = []" if "key k = key p"
      using that zs by (fastforce simp: filter_empty_conv)
    ultimately show "filter (\<lambda>x. key k = key x) (vs @ p # zs) = filter (\<lambda>x. key k = key x) (xs @ [p])"
      by auto
  qed
  moreover have "sort_shift cmp p p2 (?us @ v # ws) = vs @ p # drop (length vs) ?us @ ws"
    using sort_shift_insert [of ?us p2 cmp p v ws] len
    by (simp only: cmp vs_def [symmetric] Let_def length_sort)
  moreover have "drop (length vs) ?us = zs" unfolding us by simp
  ultimately show ?thesis by simp
qed

lemma sort_loop_sorted:
  fixes key :: "'a \<Rightarrow> 'k::linorder"
  assumes cmp: "\<And>x y. cmp x y > 0 \<longleftrightarrow> key y < key x"
  shows "length xs = p1 \<Longrightarrow> length ys = k \<Longrightarrow>
    sort_loop cmp (sort_key key xs @ ys) p1 k = sort_key key (xs @ ys)"
proof (induction k arbitrary: xs ys p1)
  case (Suc k)
  then obtain y ys' where "ys = y # ys'" "length ys' = k" by (metis length_Suc_conv)
  with Suc.IH [of "xs @ [y]" "Suc p1" ys'] Suc.prems shift_sorted [of cmp key xs p1 y y ys', OF cmp]
  show ?case by (simp add: nth_append)
qed simp

text \<open>
  C40. \<^verbatim>\<open>ngx_sort\<close> is a stable sort: when the sign of the comparison is that of a linear order of
  a key, the array becomes the stable sort of its contents by that key (the same elements, in
  order of the key, and equal ones in their original order). Without memory for the temporary
  element it leaves the array alone.
\<close>

theorem ngx_sort_stable:
  fixes key :: "'a \<Rightarrow> 'k::linorder"
  assumes "\<And>x y. cmp x y > 0 \<longleftrightarrow> key y < key x"
  shows "ngx_sort True cmp base = sort_key key base \<and> ngx_sort False cmp base = base"
proof (cases base)
  case (Cons x ys)
  then show ?thesis using sort_loop_sorted [of cmp key "[x]" 1 ys "length ys", OF assms]
    by (simp add: ngx_sort_def)
qed (simp add: ngx_sort_def)

theorem ngx_sort_stable_witness:
  "(\<forall>x y. (fst x - fst y :: int) > 0 \<longleftrightarrow> fst y < fst x) \<and>
   ngx_sort True (\<lambda>x y. fst x - fst y) [(2, ''a''), (1, ''b''), (2, ''c''), (1 :: int, ''d'')]
     = [(1, ''b''), (1, ''d''), (2, ''a''), (2, ''c'')]"
  using ngx_sort_stable [of "\<lambda>x y. fst x - fst y" fst "[(2, ''a''), (1, ''b''), (2, ''c''), (1 :: int, ''d'')]"]
  by (simp add: sort_key_def)

section \<open>Copies and the remaining comparisons\<close>

lemma cpystrn_loop_exact:
  "0 \<notin> set s \<Longrightarrow> cpystrn_loop n (s @ 0 # x) = Some (take n s @ [0])"
proof (induction n arbitrary: s)
  case (Suc n)
  then show ?case by (cases s) auto
qed simp

lemma ngx_strlow_exact: "length s = n \<Longrightarrow> ngx_strlow (s @ x) n = Some (map ngx_tolower s)"
proof (induction n arbitrary: s)
  case (Suc n)
  then show ?case by (cases s) auto
qed simp

text \<open>
  \<^verbatim>\<open>ngx_cpystrn\<close> never overflows its destination of \<open>n > 0\<close> bytes and always terminates what it
  writes: it copies the first \<open>n - 1\<close> characters of a null-terminated string and a null byte,
  and returns the place of that byte. \<^verbatim>\<open>ngx_memn2cmp\<close> orders counted strings bytewise and
  \<^verbatim>\<open>ngx_rstrncmp\<close> returns zero exactly on equal parts.
\<close>

theorem copy_and_compare_counted:
  assumes "0 \<notin> set s" and "0 < n"
  shows "ngx_cpystrn (s @ 0 # x) n = Some (take (n - 1) s @ [0], length (take (n - 1) s))
    \<and> length (take (n - 1) s @ [0]) \<le> n
    \<and> orders uint (ngx_memn2cmp (s @ x) (t @ y) (length s) (length t)) s t
    \<and> (length s = n \<and> length t = n \<longrightarrow>
         (\<exists>d. ngx_rstrncmp (s @ x) (t @ y) n = Some d \<and> (d = 0 \<longleftrightarrow> s = t)))"
proof -
  have "\<exists>d. ngx_rstrncmp (s @ x) (t @ y) n = Some d \<and> (d = 0 \<longleftrightarrow> s = t)" if "length s = n" "length t = n"
    using rstrncmp_loop_zero [of "n - 1" "s @ x" "t @ y"] that assms(2)
    by (simp add: ngx_rstrncmp_def)
  then show ?thesis
    using assms memn2cmp_orders [of s x t y] by (simp add: ngx_cpystrn_def cpystrn_loop_exact)
qed

theorem copy_and_compare_counted_witness:
  "0 \<notin> set (bytes_of ''index'') \<and> (0::nat) < 4 \<and>
   ngx_cpystrn (bytes_of ''index'' @ 0 # []) 4 = Some (bytes_of ''ind'' @ [0], 3)"
  using copy_and_compare_counted [of "bytes_of ''index''" 4 "[]" "[]" "[]"]
  by (simp add: bytes_of_def)

end
