(* ===== verification/Ngx_Parse.thy ===== *)
theory Ngx_Parse
  imports Ngx_Num
begin

text \<open>
  The readers of sizes, offsets and times of the configuration (\<^verbatim>\<open>ngx_parse.c\<close>). Arithmetic is on
  signed 64-bit values and checked (\<open>s64\<close>), so that a result \<open>Some\<close> means that nothing overflowed.
\<close>

section \<open>Sizes and offsets\<close>

text \<open>The switch on the last character: how much it shortens the number, the maximum, the scale.\<close>

definition size_unit :: "u_char \<Rightarrow> nat \<times> int \<times> int" where
  "size_unit unit =
     (if unit = 0x4b \<or> unit = 0x6b then (1, NGX_MAX_SIZE_T_VALUE div 1024, 1024)
      else if unit = 0x4d \<or> unit = 0x6d
      then (1, NGX_MAX_SIZE_T_VALUE div (1024 * 1024), 1024 * 1024)
      else (0, NGX_MAX_SIZE_T_VALUE, 1))"

definition ngx_parse_size :: "bytes \<Rightarrow> int option" where
  "ngx_parse_size line =
     do {
       unit \<leftarrow> (if line = [] then None else Some (line ! (length line - 1)));
       let (k, mx, scale) = size_unit unit;
       size \<leftarrow> ngx_atosz (take (length line - k) line);
       if size = NGX_ERROR \<or> size > mx then Some NGX_ERROR else s64 (size * scale)
     }"

definition offset_unit :: "u_char \<Rightarrow> nat \<times> int \<times> int" where
  "offset_unit unit =
     (if unit = 0x4b \<or> unit = 0x6b then (1, NGX_MAX_OFF_T_VALUE div 1024, 1024)
      else if unit = 0x4d \<or> unit = 0x6d
      then (1, NGX_MAX_OFF_T_VALUE div (1024 * 1024), 1024 * 1024)
      else if unit = 0x47 \<or> unit = 0x67
      then (1, NGX_MAX_OFF_T_VALUE div (1024 * 1024 * 1024), 1024 * 1024 * 1024)
      else (0, NGX_MAX_OFF_T_VALUE, 1))"

definition ngx_parse_offset :: "bytes \<Rightarrow> int option" where
  "ngx_parse_offset line =
     do {
       unit \<leftarrow> (if line = [] then None else Some (line ! (length line - 1)));
       let (k, mx, scale) = offset_unit unit;
       off \<leftarrow> ngx_atoof (take (length line - k) line);
       if off = NGX_ERROR \<or> off > mx then Some NGX_ERROR else s64 (off * scale)
     }"

section \<open>Times\<close>

datatype time_step = st_start | st_year | st_month | st_week | st_day | st_hour | st_min
  | st_sec | st_msec | st_last

text \<open>The steps are ordered as the enumeration declares them.\<close>

fun step_num :: "time_step \<Rightarrow> nat" where
  "step_num st_start = 0"
| "step_num st_year = 1"
| "step_num st_month = 2"
| "step_num st_week = 3"
| "step_num st_day = 4"
| "step_num st_hour = 5"
| "step_num st_min = 6"
| "step_num st_sec = 7"
| "step_num st_msec = 8"
| "step_num st_last = 9"

lemma step_num_inj: "step_num s = step_num t \<Longrightarrow> s = t"
  by (cases s; cases t) simp_all

instantiation time_step :: linorder
begin

definition less_eq_time_step :: "time_step \<Rightarrow> time_step \<Rightarrow> bool" where
  "less_eq_time_step s t \<longleftrightarrow> step_num s \<le> step_num t"

definition less_time_step :: "time_step \<Rightarrow> time_step \<Rightarrow> bool" where
  "less_time_step s t \<longleftrightarrow> step_num s < step_num t"

instance
  by standard (auto simp: less_eq_time_step_def less_time_step_def intro: step_num_inj)

end

lemmas step_order = less_eq_time_step_def less_time_step_def

text \<open>
  The switch on the unit character \<open>c\<close> with \<open>p\<close> after it: \<open>None\<close> for the error returns, else the
  new step, the maximum, the scale and the pointer.
\<close>

definition time_unit ::
    "bool \<Rightarrow> time_step \<Rightarrow> u_char \<Rightarrow> bytes \<Rightarrow> (time_step \<times> int \<times> int \<times> bytes) option" where
  "time_unit is_sec step c p =
     (if c = 0x79 then
        if step > st_start then None
        else Some (st_year, NGX_MAX_INT_T_VALUE div (60 * 60 * 24 * 365), 60 * 60 * 24 * 365, p)
      else if c = 0x4d then
        if step \<ge> st_month then None
        else Some (st_month, NGX_MAX_INT_T_VALUE div (60 * 60 * 24 * 30), 60 * 60 * 24 * 30, p)
      else if c = 0x77 then
        if step \<ge> st_week then None
        else Some (st_week, NGX_MAX_INT_T_VALUE div (60 * 60 * 24 * 7), 60 * 60 * 24 * 7, p)
      else if c = 0x64 then
        if step \<ge> st_day then None
        else Some (st_day, NGX_MAX_INT_T_VALUE div (60 * 60 * 24), 60 * 60 * 24, p)
      else if c = 0x68 then
        if step \<ge> st_hour then None
        else Some (st_hour, NGX_MAX_INT_T_VALUE div (60 * 60), 60 * 60, p)
      else if c = 0x6d then
        if p \<noteq> [] \<and> hd p = 0x73 then
          if is_sec \<or> step \<ge> st_msec then None
          else Some (st_msec, NGX_MAX_INT_T_VALUE, 1, tl p)
        else if step \<ge> st_min then None
        else Some (st_min, NGX_MAX_INT_T_VALUE div 60, 60, p)
      else if c = 0x73 then
        if step \<ge> st_sec then None else Some (st_sec, NGX_MAX_INT_T_VALUE, 1, p)
      else if c = ch_sp then
        if step \<ge> st_sec then None else Some (st_last, NGX_MAX_INT_T_VALUE, 1, p)
      else None)"

lemma time_unit_length:
  "time_unit is_sec step c p = Some (st, mx, sc, q) \<Longrightarrow> length q \<le> length p"
  by (auto simp: time_unit_def split: if_splits)

text \<open>The end of the function, after the loop.\<close>

definition time_finish :: "bool \<Rightarrow> bool \<Rightarrow> int \<Rightarrow> int \<Rightarrow> int option" where
  "time_finish is_sec valid value tot =
     (if \<not> valid then Some NGX_ERROR
      else if \<not> is_sec \<and> value > NGX_MAX_INT_T_VALUE div 1000 then Some NGX_ERROR
      else do {
        value \<leftarrow> (if is_sec then Some value else s64 (value * 1000));
        if tot > NGX_MAX_INT_T_VALUE - value then Some NGX_ERROR
        else s64 (tot + value) })"

function time_loop :: "bool \<Rightarrow> time_step \<Rightarrow> bool \<Rightarrow> int \<Rightarrow> int \<Rightarrow> bytes \<Rightarrow> int option" where
  "time_loop is_sec step valid value tot [] = time_finish is_sec valid value tot"
| "time_loop is_sec step valid value tot (c # p) =
     (if c \<ge> ch_0 \<and> c \<le> ch_9 then
        if value \<ge> NGX_MAX_INT_T_VALUE div 10
           \<and> (value > NGX_MAX_INT_T_VALUE div 10 \<or> uint c - 0x30 > NGX_MAX_INT_T_VALUE mod 10)
        then Some NGX_ERROR
        else
          (case s64 (value * 10) of
             None \<Rightarrow> None
           | Some v \<Rightarrow>
               (case s64 (v + (uint c - 0x30)) of
                  None \<Rightarrow> None
                | Some v' \<Rightarrow> time_loop is_sec step True v' tot p))
      else
        (case time_unit is_sec step c p of
           None \<Rightarrow> Some NGX_ERROR
         | Some (step', mx, scale, q) \<Rightarrow>
             (let mx = (if step' \<noteq> st_msec \<and> \<not> is_sec then mx div 1000 else mx);
                  scale = (if step' \<noteq> st_msec \<and> \<not> is_sec then scale * 1000 else scale) in
              if value > mx then Some NGX_ERROR
              else
                (case s64 (value * scale) of
                   None \<Rightarrow> None
                 | Some v \<Rightarrow>
                     if tot > NGX_MAX_INT_T_VALUE - v then Some NGX_ERROR
                     else
                       (case s64 (tot + v) of
                          None \<Rightarrow> None
                        | Some t \<Rightarrow>
                            time_loop is_sec step' valid 0 t (dropWhile (\<lambda>c. c = ch_sp) q))))))"
  by pat_completeness auto
termination
  by (relation "measure (\<lambda>(is_sec, step, valid, value, tot, p). length p)")
    (auto dest!: time_unit_length intro: le_less_trans [OF length_dropWhile_le])

definition ngx_parse_time :: "bytes \<Rightarrow> bool \<Rightarrow> int option" where
  "ngx_parse_time line is_sec =
     time_loop is_sec (if is_sec then st_start else st_month) False 0 0 line"

section \<open>Sizes and offsets are exact\<close>

text \<open>
  What a reader with suffixes promises: \<open>scale_of\<close> gives the scale of a suffix, and the value of the digits
  times the scale is returned when it does not exceed the maximum.
\<close>

definition scaled_spec :: "int \<Rightarrow> (u_char \<Rightarrow> int option) \<Rightarrow> bytes \<Rightarrow> int" where
  "scaled_spec mx scale_of line =
     (let (ds, scale) = (case scale_of (last line) of None \<Rightarrow> (line, 1) | Some k \<Rightarrow> (butlast line, k)) in
      if ds \<noteq> [] \<and> list_all is_digit ds \<and> dec_value ds * scale \<le> mx
      then dec_value ds * scale else NGX_ERROR)"

definition size_scale :: "u_char \<Rightarrow> int option" where
  "size_scale c =
     (if c \<in> {0x4b, 0x6b} then Some (2 ^ 10) else if c \<in> {0x4d, 0x6d} then Some (2 ^ 20) else None)"

definition offset_scale :: "u_char \<Rightarrow> int option" where
  "offset_scale c = (if c \<in> {0x47, 0x67} then Some (2 ^ 30) else size_scale c)"

lemma scale_fits:
  fixes v sc mx :: int
  assumes "0 < sc"
  shows "v \<le> mx div sc \<longleftrightarrow> v * sc \<le> mx"
proof
  assume "v \<le> mx div sc"
  then have "v * sc \<le> mx div sc * sc" using assms by (intro mult_right_mono) simp_all
  also have "\<dots> \<le> mx" using pos_mod_sign [OF assms, of mx] by (simp add: minus_mod_eq_div_mult [symmetric])
  finally show "v * sc \<le> mx" .
next
  assume "v * sc \<le> mx"
  then have "v * sc div sc \<le> mx div sc" using assms by (rule zdiv_mono1)
  with assms show "v \<le> mx div sc" by simp
qed

text \<open>The tail of both readers.\<close>

lemma scaled_exact:
  assumes mx: "mx = 9223372036854775807" and sc: "0 < sc"
  shows "(if ato_spec mx ds = NGX_ERROR \<or> mx div sc < ato_spec mx ds then Some NGX_ERROR
     else s64 (ato_spec mx ds * sc)) =
   Some (if ds \<noteq> [] \<and> list_all is_digit ds \<and> dec_value ds * sc \<le> mx
     then dec_value ds * sc else NGX_ERROR)"
proof (cases "ds \<noteq> [] \<and> list_all is_digit ds")
  case True
  then have nn: "0 \<le> dec_value ds" by (simp add: dec_value_nonneg)
  with sc have le: "dec_value ds \<le> dec_value ds * sc" and nn': "0 \<le> dec_value ds * sc"
    by (simp_all add: mult_le_cancel_left1)
  show ?thesis
  proof (cases "dec_value ds * sc \<le> mx")
    case fits: True
    then have "s64 (dec_value ds * sc) = Some (dec_value ds * sc)"
      using nn' mx by (intro s64_in) simp_all
    with True fits le nn sc show ?thesis
      by (simp add: ato_spec_def rc_defs not_less scale_fits) 
  next
    case False
    with True nn sc show ?thesis
      using scale_fits [OF sc, of "dec_value ds" mx] by (auto simp: ato_spec_def)
  qed
qed (auto simp: ato_spec_def)

lemma last_unit: "line \<noteq> [] \<Longrightarrow> line ! (length line - 1) = last line"
  by (simp add: last_conv_nth)

lemma take_butlast: "take (length line - 1) line = butlast line"
  by (simp add: butlast_conv_take)

lemma size_unit_scale:
  "size_unit c = (case size_scale c of
     None \<Rightarrow> (0, NGX_MAX_SIZE_T_VALUE div 1, 1) | Some k \<Rightarrow> (1, NGX_MAX_SIZE_T_VALUE div k, k))"
  by (simp add: size_unit_def size_scale_def)

lemma offset_unit_scale:
  "offset_unit c = (case offset_scale c of
     None \<Rightarrow> (0, NGX_MAX_OFF_T_VALUE div 1, 1) | Some k \<Rightarrow> (1, NGX_MAX_OFF_T_VALUE div k, k))"
  by (simp add: offset_unit_def offset_scale_def size_scale_def)

lemma scale_pos: "size_scale c = Some k \<Longrightarrow> 0 < k" "offset_scale c = Some k \<Longrightarrow> 0 < k"
  by (auto simp: size_scale_def offset_scale_def split: if_splits)

lemma parse_size_exact:
  assumes "line \<noteq> []"
  shows "ngx_parse_size line = Some (scaled_spec NGX_MAX_SIZE_T_VALUE size_scale line)"
proof (cases "size_scale (last line)")
  case None
  with assms scaled_exact [OF NGX_MAX_SIZE_T_VALUE_def, of 1 line, unfolded mult_1_right div_by_1] show ?thesis
    by (simp add: ngx_parse_size_def last_unit size_unit_scale ngx_atosz_exact scaled_spec_def
        del: One_nat_def split del: if_split cong: if_cong)
next
  case (Some k)
  with assms scaled_exact [OF NGX_MAX_SIZE_T_VALUE_def scale_pos(1) [OF Some], of "butlast line"]
  show ?thesis
    by (simp add: ngx_parse_size_def last_unit size_unit_scale ngx_atosz_exact scaled_spec_def take_butlast
        del: One_nat_def split del: if_split cong: if_cong)
qed

lemma parse_offset_exact:
  assumes "line \<noteq> []"
  shows "ngx_parse_offset line = Some (scaled_spec NGX_MAX_OFF_T_VALUE offset_scale line)"
proof (cases "offset_scale (last line)")
  case None
  with assms scaled_exact [OF NGX_MAX_OFF_T_VALUE_def, of 1 line, unfolded mult_1_right div_by_1] show ?thesis
    by (simp add: ngx_parse_offset_def last_unit offset_unit_scale ngx_atoof_exact scaled_spec_def
        del: One_nat_def split del: if_split cong: if_cong)
next
  case (Some k)
  with assms scaled_exact [OF NGX_MAX_OFF_T_VALUE_def scale_pos(2) [OF Some], of "butlast line"]
  show ?thesis
    by (simp add: ngx_parse_offset_def last_unit offset_unit_scale ngx_atoof_exact scaled_spec_def take_butlast
        del: One_nat_def split del: if_split cong: if_cong)
qed

text \<open>
  \<^verbatim>\<open>ngx_parse_size\<close> and \<^verbatim>\<open>ngx_parse_offset\<close> are exact on every non-empty string: digits with
  an optional suffix k, m (and g for offsets) in either case give the product when it fits the
  type, anything else gives \<^verbatim>\<open>NGX_ERROR\<close>, and no multiplication overflows.
\<close>

theorem parse_size_offset_exact:
  assumes "line \<noteq> []"
  shows "ngx_parse_size line = Some (scaled_spec NGX_MAX_SIZE_T_VALUE size_scale line)
    \<and> ngx_parse_offset line = Some (scaled_spec NGX_MAX_OFF_T_VALUE offset_scale line)"
  using assms by (simp add: parse_size_exact parse_offset_exact)

theorem parse_size_offset_exact_witness:
  "bytes_of ''16k'' \<noteq> [] \<and> ngx_parse_size (bytes_of ''16k'') = Some 16384
   \<and> ngx_parse_offset (bytes_of ''9999999999999999999g'') = Some NGX_ERROR"
proof -
  have "scaled_spec NGX_MAX_SIZE_T_VALUE size_scale (bytes_of ''16k'') = 16384"
    and "scaled_spec NGX_MAX_OFF_T_VALUE offset_scale (bytes_of ''9999999999999999999g'') = NGX_ERROR"
    by code_simp+
  then show ?thesis
    using parse_size_offset_exact [of "bytes_of ''16k''"]
      parse_size_offset_exact [of "bytes_of ''9999999999999999999g''"] by (simp add: bytes_of_def)
qed

text \<open>
  On the empty string both readers read the byte before the string, which is undefined: the
  suffix is taken from \<^verbatim>\<open>data[len - 1]\<close> without a test of the length.
\<close>

theorem parse_size_empty_undefined: "ngx_parse_size [] = None \<and> ngx_parse_offset [] = None"
  by (simp add: ngx_parse_size_def ngx_parse_offset_def)

section \<open>Times are exact\<close>

text \<open>
  A time in the specification is a list of groups, each of digits, a unit and the number of
  spaces after it, with the units in strictly descending size, and a last number without unit
  that counts seconds. \<open>unit_scale\<close> is the value of a unit in seconds, or in milliseconds
  when \<open>is_sec\<close> does not hold.
\<close>

type_synonym time_group = "bytes \<times> time_step \<times> nat"

fun unit_text :: "time_step \<Rightarrow> bytes" where
  "unit_text st_year = [0x79]"
| "unit_text st_month = [0x4d]"
| "unit_text st_week = [0x77]"
| "unit_text st_day = [0x64]"
| "unit_text st_hour = [0x68]"
| "unit_text st_min = [0x6d]"
| "unit_text st_sec = [0x73]"
| "unit_text st_msec = [0x6d, 0x73]"
| "unit_text _ = []"

fun unit_seconds :: "time_step \<Rightarrow> int" where
  "unit_seconds st_year = 31536000"
| "unit_seconds st_month = 2592000"
| "unit_seconds st_week = 604800"
| "unit_seconds st_day = 86400"
| "unit_seconds st_hour = 3600"
| "unit_seconds st_min = 60"
| "unit_seconds _ = 1"

definition unit_scale :: "bool \<Rightarrow> time_step \<Rightarrow> int" where
  "unit_scale is_sec u = (if is_sec \<or> u = st_msec then unit_seconds u else unit_seconds u * 1000)"

definition group_text :: "time_group \<Rightarrow> bytes" where
  "group_text g = (case g of (ds, u, k) \<Rightarrow> ds @ unit_text u @ replicate k ch_sp)"

definition group_value :: "bool \<Rightarrow> time_group \<Rightarrow> int" where
  "group_value is_sec g = (case g of (ds, u, k) \<Rightarrow> dec_value ds * unit_scale is_sec u)"

fun groups_ok :: "bool \<Rightarrow> time_step \<Rightarrow> time_group list \<Rightarrow> bool" where
  "groups_ok is_sec step [] \<longleftrightarrow> True"
| "groups_ok is_sec step ((ds, u, k) # gs) \<longleftrightarrow>
     ds \<noteq> [] \<and> list_all is_digit ds \<and> step < u \<and> u \<noteq> st_last \<and> (is_sec \<longrightarrow> u \<noteq> st_msec)
     \<and> groups_ok is_sec u gs"

lemma dec_value_mono: "0 \<le> v \<Longrightarrow> list_all is_digit ds \<Longrightarrow> v \<le> dec_acc v ds"
  by (rule dec_acc_ge)

text \<open>A run of digits: an error when the number does not fit.\<close>

lemma time_loop_digit:
  assumes "is_digit c" "0 \<le> v"
  shows "time_loop is_sec step valid v tot (c # p) =
    (if v * 10 + (uint c - 0x30) \<le> NGX_MAX_INT_T_VALUE
     then time_loop is_sec step True (v * 10 + (uint c - 0x30)) tot p else Some NGX_ERROR)"
proof -
  let ?d = "uint c - 0x30"
  have c: "ch_0 \<le> c \<and> c \<le> ch_9" and d: "0 \<le> ?d" "?d \<le> 9"
    using assms is_digit_uint [of c] by (simp_all add: is_digit_def)
  note cut = cutoff_iff [OF assms(2) d, of NGX_MAX_INT_T_VALUE]
  have "s64 (v * 10) = Some (v * 10)" "s64 (v * 10 + ?d) = Some (v * 10 + ?d)"
    if "v * 10 + ?d \<le> NGX_MAX_INT_T_VALUE"
    using that assms d by (auto simp: max_defs intro!: s64_in)
  then show ?thesis
    by (simp only: time_loop.simps c cut if_True simp_thms) (simp add: not_le)
qed

lemma time_loop_unit:
  assumes "\<not> is_digit c"
  shows "time_loop is_sec step valid v tot (c # p) =
        (case time_unit is_sec step c p of
           None \<Rightarrow> Some NGX_ERROR
         | Some (step', mx, scale, q) \<Rightarrow>
             (let mx = (if step' \<noteq> st_msec \<and> \<not> is_sec then mx div 1000 else mx);
                  scale = (if step' \<noteq> st_msec \<and> \<not> is_sec then scale * 1000 else scale) in
              if v > mx then Some NGX_ERROR
              else
                (case s64 (v * scale) of
                   None \<Rightarrow> None
                 | Some v \<Rightarrow>
                     if tot > NGX_MAX_INT_T_VALUE - v then Some NGX_ERROR
                     else
                       (case s64 (tot + v) of
                          None \<Rightarrow> None
                        | Some t \<Rightarrow>
                            time_loop is_sec step' valid 0 t (dropWhile (\<lambda>c. c = ch_sp) q)))))"
  using assms by (simp only: time_loop.simps is_digit_def if_False)

declare time_loop.simps(2) [simp del]

lemma s64_range: "0 \<le> x \<Longrightarrow> x \<le> NGX_MAX_INT_T_VALUE \<Longrightarrow> s64 x = Some x"
  by (simp add: s64_def max_defs)

lemma time_unit_props:
  assumes "time_unit is_sec step c p = Some (st, mx, sc, q)"
  shows "0 < sc \<and> mx = NGX_MAX_INT_T_VALUE div sc"
  using assms by (auto simp: time_unit_def split: if_splits)

text \<open>The effect of a unit on the total: the value times the scale, or an error when it does not fit.\<close>

lemma time_loop_unit_step:
  assumes c: "\<not> is_digit c" and unit: "time_unit is_sec step c p = Some (st, mx, sc, q)"
    and k: "k = (if st \<noteq> st_msec \<and> \<not> is_sec then sc * 1000 else sc)"
    and v: "0 \<le> v" and tot: "0 \<le> tot"
  shows "time_loop is_sec step valid v tot (c # p) =
    (if tot + v * k \<le> NGX_MAX_INT_T_VALUE
     then time_loop is_sec st valid 0 (tot + v * k) (dropWhile (\<lambda>c. c = ch_sp) q)
     else Some NGX_ERROR)"
proof -
  have sc: "0 < sc" "mx = NGX_MAX_INT_T_VALUE div sc" using time_unit_props [OF unit] by simp_all
  then have k0: "0 < k" and mx: "(if st \<noteq> st_msec \<and> \<not> is_sec then mx div 1000 else mx) = NGX_MAX_INT_T_VALUE div k"
    by (simp_all add: k zdiv_zmult2_eq)
  have nn: "0 \<le> v * k" using v k0 by simp
  show ?thesis
  proof (cases "v * k \<le> NGX_MAX_INT_T_VALUE")
    case True
    then show ?thesis
      using c unit nn tot scale_fits [OF k0, of v NGX_MAX_INT_T_VALUE]
      by (simp add: time_loop_unit mx k [symmetric] s64_range not_less le_diff_eq)
  next
    case False
    then show ?thesis
      using c unit tot scale_fits [OF k0, of v NGX_MAX_INT_T_VALUE]
      by (simp add: time_loop_unit mx k [symmetric])
  qed
qed

lemma time_loop_digits:
  assumes "list_all is_digit ds" "0 \<le> v" "v \<le> NGX_MAX_INT_T_VALUE"
  shows "time_loop is_sec step valid v tot (ds @ p) =
    (if dec_acc v ds \<le> NGX_MAX_INT_T_VALUE
     then time_loop is_sec step (valid \<or> ds \<noteq> []) (dec_acc v ds) tot p else Some NGX_ERROR)"
  using assms
proof (induction ds arbitrary: v valid)
  case (Cons c ds)
  let ?v = "v * 10 + (uint c - 0x30)"
  from Cons.prems have ds: "list_all is_digit ds" and c: "is_digit c" by simp_all
  then have v: "0 \<le> ?v" using Cons.prems is_digit_uint [of c] by simp
  have "?v \<le> dec_acc ?v ds" using ds v by (intro dec_acc_ge)
  then show ?case
    using c v ds Cons.prems Cons.IH [of ?v True] by (simp add: time_loop_digit)
qed simp

text \<open>The switch accepts a later unit and gives its scale.\<close>

lemma time_unit_next:
  assumes "step < u" "u \<noteq> st_last" "is_sec \<longrightarrow> u \<noteq> st_msec" "p = [] \<or> hd p \<noteq> 0x73"
  obtains c q where "unit_text u = c # q" "\<not> is_digit c"
    "time_unit is_sec step c (q @ p) = Some (u, NGX_MAX_INT_T_VALUE div unit_seconds u, unit_seconds u, p)"
  using assms
  by (cases u) (auto simp: time_unit_def step_order is_digit_def hd_append split: if_splits)

lemma unit_scale_pos: "0 < unit_scale is_sec u"
  by (cases u) (simp_all add: unit_scale_def)

lemma group_value_nonneg: "list_all is_digit ds \<Longrightarrow> 0 \<le> group_value is_sec (ds, u, k)"
  using unit_scale_pos [of is_sec u] by (simp add: group_value_def dec_value_nonneg)

text \<open>One group: the total grows by its value, or the result is an error when it does not fit.\<close>

lemma drop_spaces: "dropWhile (\<lambda>c. c = ch_sp) (replicate k ch_sp @ p) = dropWhile (\<lambda>c. c = ch_sp) p"
  by (induction k) auto

lemma time_loop_group:
  assumes ds: "ds \<noteq> []" "list_all is_digit ds"
    and u: "step < u" "u \<noteq> st_last" "is_sec \<longrightarrow> u \<noteq> st_msec"
    and p: "p = [] \<or> is_digit (hd p)" and tot: "0 \<le> tot" "tot \<le> NGX_MAX_INT_T_VALUE"
  shows "time_loop is_sec step valid 0 tot (group_text (ds, u, k) @ p) =
    (let t = tot + group_value is_sec (ds, u, k) in
     if t \<le> NGX_MAX_INT_T_VALUE then time_loop is_sec u True 0 t p else Some NGX_ERROR)"
proof -
  let ?mx = "NGX_MAX_INT_T_VALUE" and ?sc = "unit_scale is_sec u" and ?n = "dec_value ds"
  let ?p = "replicate k ch_sp @ p"
  have "?p = [] \<or> hd ?p \<noteq> 0x73" using p by (cases k) (auto simp: is_digit_def)
  with u obtain c q where c: "unit_text u = c # q" "\<not> is_digit c"
    and unit: "time_unit is_sec step c (q @ ?p) = Some (u, ?mx div unit_seconds u, unit_seconds u, ?p)"
    by (rule time_unit_next)
  have nn: "0 \<le> ?n" using ds by (simp add: dec_value_nonneg)
  have sp: "dropWhile (\<lambda>c. c = ch_sp) ?p = p" using p by (cases p) (auto simp: drop_spaces is_digit_def)
  have le: "?n \<le> ?n * ?sc" using nn unit_scale_pos [of is_sec u] by (simp add: mult_le_cancel_left1)
  have "time_loop is_sec step valid 0 tot (group_text (ds, u, k) @ p) =
    (if ?n \<le> ?mx then time_loop is_sec step True ?n tot (c # q @ ?p) else Some NGX_ERROR)"
    using time_loop_digits [OF ds(2), of 0 is_sec step valid tot "c # q @ ?p"] ds(1) c(1)
    by (simp add: group_text_def max_defs)
  also have "time_loop is_sec step True ?n tot (c # q @ ?p) =
     (if tot + ?n * ?sc \<le> ?mx then time_loop is_sec u True 0 (tot + ?n * ?sc) p else Some NGX_ERROR)"
    using time_loop_unit_step [OF c(2) unit _ nn tot(1), of ?sc True] by (simp add: unit_scale_def sp)
  finally show ?thesis using le tot by (auto simp: group_value_def Let_def)
qed

text \<open>The text of a time and the value it stands for.\<close>

definition time_text :: "time_group list \<Rightarrow> bytes \<Rightarrow> bytes" where
  "time_text gs ds = concat (map group_text gs) @ ds"

definition time_value :: "bool \<Rightarrow> time_group list \<Rightarrow> bytes \<Rightarrow> int" where
  "time_value is_sec gs ds =
     sum_list (map (group_value is_sec) gs) + dec_value ds * (if is_sec then 1 else 1000)"

lemma groups_value_nonneg: "groups_ok is_sec step gs \<Longrightarrow> 0 \<le> sum_list (map (group_value is_sec) gs)"
proof (induction gs arbitrary: step)
  case (Cons g gs)
  then show ?case by (cases g) (auto simp: group_value_nonneg intro!: add_nonneg_nonneg)
qed simp

lemma time_finish_exact:
  assumes "0 \<le> v" "v \<le> NGX_MAX_INT_T_VALUE" "0 \<le> tot" "tot \<le> NGX_MAX_INT_T_VALUE"
  shows "time_finish is_sec True v tot =
    (let t = tot + v * (if is_sec then 1 else 1000) in
     Some (if t \<le> NGX_MAX_INT_T_VALUE then t else NGX_ERROR))"
  using assms scale_fits [of 1000 v NGX_MAX_INT_T_VALUE]
  by (auto simp: time_finish_def Let_def ub_simps max_defs)

lemma time_loop_end:
  assumes "list_all is_digit ds" "valid \<or> ds \<noteq> []" "0 \<le> tot" "tot \<le> NGX_MAX_INT_T_VALUE"
  shows "time_loop is_sec step valid 0 tot ds =
    (let t = tot + dec_value ds * (if is_sec then 1 else 1000) in
     Some (if t \<le> NGX_MAX_INT_T_VALUE then t else NGX_ERROR))"
  using assms time_loop_digits [OF assms(1), of 0 is_sec step valid tot "[]"] dec_value_nonneg [OF assms(1)]
  by (auto simp: time_finish_exact Let_def max_defs)

lemma time_text_hd:
  assumes "groups_ok is_sec step gs" "list_all is_digit ds"
  shows "time_text gs ds = [] \<or> is_digit (hd (time_text gs ds))"
proof (cases gs)
  case (Cons g gs')
  with assms(1) show ?thesis
    by (cases g; cases "fst g") (auto simp: time_text_def group_text_def)
qed (use assms(2) in \<open>cases ds; simp add: time_text_def\<close>)

lemma time_loop_exact:
  assumes "list_all is_digit ds" "0 \<le> tot" "tot \<le> NGX_MAX_INT_T_VALUE" "groups_ok is_sec step gs"
    "valid \<or> gs \<noteq> [] \<or> ds \<noteq> []"
  shows "time_loop is_sec step valid 0 tot (time_text gs ds) =
    (let t = tot + time_value is_sec gs ds in
     Some (if t \<le> NGX_MAX_INT_T_VALUE then t else NGX_ERROR))"
  using assms(2-)
proof (induction gs arbitrary: step valid tot)
  case Nil
  then show ?case using time_loop_end [OF assms(1)] by (simp add: time_text_def time_value_def)
next
  case (Cons g gs)
  obtain dg u k where g: "g = (dg, u, k)" by (cases g)
  let ?t = "tot + group_value is_sec g" and ?rest = "time_text gs ds"
  have nn: "0 \<le> group_value is_sec g" "0 \<le> time_value is_sec gs ds"
    using Cons.prems g groups_value_nonneg [of is_sec u gs] dec_value_nonneg [OF assms(1)]
    by (auto simp: group_value_nonneg time_value_def)
  have "time_loop is_sec step valid 0 tot (group_text (dg, u, k) @ ?rest) =
    (let t = tot + group_value is_sec (dg, u, k) in
     if t \<le> NGX_MAX_INT_T_VALUE then time_loop is_sec u True 0 t ?rest else Some NGX_ERROR)"
    using Cons.prems g time_text_hd [of is_sec u gs ds] assms(1)
    by (intro time_loop_group) auto
  moreover have "time_text (g # gs) ds = group_text (dg, u, k) @ ?rest"
    by (simp add: time_text_def g)
  moreover have "time_value is_sec (g # gs) ds = group_value is_sec g + time_value is_sec gs ds"
    by (simp add: time_value_def)
  ultimately show ?case
    using Cons.IH [of ?t u True] Cons.prems nn g by (auto simp: Let_def add.assoc)
qed

text \<open>
  C38. \<^verbatim>\<open>ngx_parse_time\<close> is exact: a time written as groups of digits and units in descending order,
  with spaces between them, and an optional last number of seconds, is read as the sum of the groups,
  in seconds or milliseconds, or as an error when the sum does not fit; years and months are
  only accepted for seconds and milliseconds only for milliseconds. Nothing overflows.
\<close>

theorem parse_time_exact:
  assumes "groups_ok is_sec (if is_sec then st_start else st_month) gs"
    and "list_all is_digit ds" and "gs \<noteq> [] \<or> ds \<noteq> []"
  shows "ngx_parse_time (time_text gs ds) is_sec =
    Some (if time_value is_sec gs ds \<le> NGX_MAX_INT_T_VALUE then time_value is_sec gs ds else NGX_ERROR)"
  using time_loop_exact [OF assms(2) _ _ assms(1), of 0 False] assms(3)
  by (simp add: ngx_parse_time_def max_defs Let_def)

theorem parse_time_exact_witness:
  "groups_ok False st_month [(bytes_of ''1'', st_hour, 1), (bytes_of ''30'', st_min, 0)] \<and>
   list_all is_digit (bytes_of ''5'') \<and>
   time_text [(bytes_of ''1'', st_hour, 1), (bytes_of ''30'', st_min, 0)] (bytes_of ''5'') = bytes_of ''1h 30m5'' \<and>
   ngx_parse_time (bytes_of ''1h 30m5'') False = Some 5405000"
proof -
  let ?gs = "[(bytes_of ''1'', st_hour, 1), (bytes_of ''30'', st_min, 0)]" and ?ds = "bytes_of ''5''"
  have ok: "groups_ok False st_month ?gs" "list_all is_digit ?ds"
    and t: "time_text ?gs ?ds = bytes_of ''1h 30m5''" and v: "time_value False ?gs ?ds = 5405000"
    by code_simp+
  with parse_time_exact [of False ?gs ?ds] show ?thesis by (simp add: max_defs)
qed

section \<open>Times never overflow\<close>

lemma time_loop_total:
  assumes "0 \<le> v" "v \<le> NGX_MAX_INT_T_VALUE" "0 \<le> tot" "tot \<le> NGX_MAX_INT_T_VALUE"
  shows "\<exists>r. time_loop is_sec step valid v tot p = Some r \<and> (r = NGX_ERROR \<or> 0 \<le> r \<and> r \<le> NGX_MAX_INT_T_VALUE)"
  using assms
proof (induction "length p" arbitrary: p step valid v tot rule: less_induct)
  case less
  show ?case
  proof (cases p)
    case Nil
    have "time_finish is_sec valid v tot = Some NGX_ERROR" if "\<not> valid"
      using that by (simp add: time_finish_def)
    with Nil less.prems show ?thesis by (cases valid) (auto simp: time_finish_exact Let_def)
  next
    case (Cons c p')
    show ?thesis
    proof (cases "is_digit c")
      case True
      then have "0 \<le> v * 10 + (uint c - 0x30)" using less.prems is_digit_uint [of c] by simp
      with True Cons less show ?thesis by (auto simp: time_loop_digit)
    next
      case False
      show ?thesis
      proof (cases "time_unit is_sec step c p'")
        case None
        with False Cons show ?thesis by (simp add: time_loop_unit)
      next
        case (Some r)
        obtain st mx sc q where r: "r = (st, mx, sc, q)" by (cases r)
        let ?k = "if st \<noteq> st_msec \<and> \<not> is_sec then sc * 1000 else sc"
        have len: "length (dropWhile (\<lambda>c. c = ch_sp) q) < length p"
          using time_unit_length [of is_sec step c p'] Some r Cons length_dropWhile_le
          by (metis le_imp_less_Suc length_Cons order_trans)
        have "0 \<le> tot + v * ?k"
          using time_unit_props [of is_sec step c p'] Some r less.prems by auto
        then show ?thesis
          using less.hyps [OF len, of 0 "tot + v * ?k" st valid] Cons
            time_loop_unit_step [OF False Some [unfolded r] refl less.prems(1,3), of valid]
          by (auto simp: max_defs)
      qed
    qed
  qed
qed

text \<open>
  \<^verbatim>\<open>ngx_parse_time\<close> returns on every input, without overflow, an error or a value in range.
\<close>

theorem parse_time_total:
  "\<exists>r. ngx_parse_time line is_sec = Some r
     \<and> (r = NGX_ERROR \<or> 0 \<le> r \<and> r \<le> NGX_MAX_INT_T_VALUE)"
  unfolding ngx_parse_time_def by (rule time_loop_total) (simp_all add: max_defs)

end
