(* ===== verification/Ngx_Scan.thy ===== *)
theory Ngx_Scan
  imports Ngx_Prelude
begin

text \<open>
  The shape all incremental parsers of \<^verbatim>\<open>ngx_http_parse.c\<close> share: a loop
  \<^verbatim>\<open>for (p = b->pos; p < b->last; p++)\<close> around a switch on a state, left by \<^verbatim>\<open>goto\<close> or \<^verbatim>\<open>return\<close>,
  that saves the state and returns \<^verbatim>\<open>NGX_AGAIN\<close> when the buffer ends. The body of the loop is a
  function of the bytes before \<open>p\<close>, the byte at \<open>p\<close>, the local state and the request; the loop
  itself is \<open>scan\<close>.

  The locale \<open>parser\<close> is the contract of such a body: it keeps an invariant, establishes a
  postcondition at each \<^verbatim>\<open>goto\<close>, and is never undefined. The lemmas lift it to the loop.
\<close>

section \<open>Status codes\<close>

text \<open>The HTTP status codes of \<^verbatim>\<open>ngx_http_request.h\<close> that the modelled functions answer with.\<close>

definition NGX_HTTP_BAD_REQUEST :: int where "NGX_HTTP_BAD_REQUEST = 400"
definition NGX_HTTP_REQUEST_ENTITY_TOO_LARGE :: int where "NGX_HTTP_REQUEST_ENTITY_TOO_LARGE = 413"
definition NGX_HTTP_INTERNAL_SERVER_ERROR :: int where "NGX_HTTP_INTERNAL_SERVER_ERROR = 500"

section \<open>The loop\<close>

text \<open>One iteration: go on, leave by a \<^verbatim>\<open>goto\<close>, return an error code, or be undefined.\<close>

datatype ('s, 'l, 'r) act = Next 's 'r | Goto 'l 's 'r | Ret int 'r | Undef

text \<open>The loop: it reached the end of the buffer, or left at position \<open>p\<close>.\<close>

datatype ('s, 'l, 'r) stop = Ended 's 'r | Jumped 'l 's 'r nat | Returned int 'r | Undefined

fun scan :: "(bytes \<Rightarrow> u_char \<Rightarrow> 's \<Rightarrow> 'r \<Rightarrow> ('s, 'l, 'r) act) \<Rightarrow> 's \<Rightarrow> 'r \<Rightarrow> bytes \<Rightarrow> bytes \<Rightarrow>
    ('s, 'l, 'r) stop" where
  "scan step s r seen [] = Ended s r"
| "scan step s r seen (ch # rest) =
     (case step seen ch s r of
        Next s' r' \<Rightarrow> scan step s' r' (seen @ [ch]) rest
      | Goto l s' r' \<Rightarrow> Jumped l s' r' (length seen)
      | Ret rc r' \<Rightarrow> Returned rc r'
      | Undef \<Rightarrow> Undefined)"

text \<open>
  The result of a parser: \<open>Again\<close> is \<^verbatim>\<open>NGX_AGAIN\<close> with the saved state and \<^verbatim>\<open>b->pos\<close> at the end of
  the buffer; \<open>Done\<close> is a return behind a label, with the code and the new \<^verbatim>\<open>b->pos\<close>; \<open>Failed\<close> is a
  return from inside the loop, which leaves the saved state and \<^verbatim>\<open>b->pos\<close> alone.
\<close>

datatype ('s, 'r) result = Again 's 'r nat | Done int 'r nat | Failed int 'r | Undef_behaviour

definition resume ::
    "('s \<Rightarrow> 'r \<Rightarrow> bytes \<Rightarrow> nat \<Rightarrow> ('s, 'r) result) \<Rightarrow> ('s, 'r) result \<Rightarrow> bytes \<Rightarrow> ('s, 'r) result" where
  "resume parse res buf = (case res of Again s r p \<Rightarrow> parse s r buf p | _ \<Rightarrow> res)"

text \<open>A parser built on \<open>scan\<close>; \<open>fin\<close> is the code behind the labels.\<close>

definition scan_parse ::
    "(bytes \<Rightarrow> u_char \<Rightarrow> 's \<Rightarrow> 'r \<Rightarrow> ('s, 'l, 'r) act) \<Rightarrow> ('l \<Rightarrow> 's \<Rightarrow> 'r \<Rightarrow> nat \<Rightarrow> int \<times> 'r) \<Rightarrow>
     's \<Rightarrow> 'r \<Rightarrow> bytes \<Rightarrow> nat \<Rightarrow> ('s, 'r) result" where
  "scan_parse step fin s r buf pos =
     (case scan step s r (take pos buf) (drop pos buf) of
        Ended s' r' \<Rightarrow> Again s' r' (length buf)
      | Jumped l s' r' p \<Rightarrow> (case fin l s' r' p of (rc, r'') \<Rightarrow> Done rc r'' (p + 1))
      | Returned rc r' \<Rightarrow> Failed rc r'
      | Undefined \<Rightarrow> Undef_behaviour)"

section \<open>Resumption\<close>

lemma scan_append:
  "scan step s r seen (xs @ ys) =
     (case scan step s r seen xs of
        Ended s' r' \<Rightarrow> scan step s' r' (seen @ xs) ys
      | x \<Rightarrow> x)"
  by (induction xs arbitrary: s r seen) (auto split: act.split stop.split)

text \<open>
  Splitting the input over two calls makes no difference: parsing a first part of the
  buffer and resuming with the saved state once the rest has arrived gives what one call on
  the whole buffer gives.
\<close>

lemma scan_parse_resume:
  assumes "pos \<le> length buf"
  shows "scan_parse step fin s r (buf @ more) pos =
    resume (scan_parse step fin) (scan_parse step fin s r buf pos) (buf @ more)"
  using assms
  by (auto simp: scan_parse_def resume_def scan_append split: stop.split prod.split)

lemma scan_run:
  assumes "\<And>c seen. c \<in> set xs \<Longrightarrow> step seen c s r = Next s r"
  shows "scan step s r seen (xs @ ys) = scan step s r (seen @ xs) ys"
  using assms by (induction xs arbitrary: seen) auto

section \<open>The contract of a loop body\<close>

definition act_ok ::
    "(bytes \<Rightarrow> 's \<Rightarrow> 'r \<Rightarrow> bool) \<Rightarrow> ('l \<Rightarrow> bytes \<Rightarrow> u_char \<Rightarrow> 's \<Rightarrow> 'r \<Rightarrow> bool) \<Rightarrow> bytes \<Rightarrow> u_char \<Rightarrow>
     ('s, 'l, 'r) act \<Rightarrow> bool" where
  "act_ok Inv Post seen ch a =
     (case a of
        Next s r \<Rightarrow> Inv (seen @ [ch]) s r
      | Goto l s r \<Rightarrow> Post l seen ch s r
      | Ret rc r \<Rightarrow> True
      | Undef \<Rightarrow> False)"

named_theorems act "rules for the outcome of an iteration"

lemma act_ok_simps [act]:
  "act_ok Inv Post seen ch (Next s r) \<longleftrightarrow> Inv (seen @ [ch]) s r"
  "act_ok Inv Post seen ch (Goto l s r) \<longleftrightarrow> Post l seen ch s r"
  "act_ok Inv Post seen ch (Ret rc r)"
  "\<not> act_ok Inv Post seen ch Undef"
  by (simp_all add: act_ok_def)

lemma act_ok_if [act]:
  "act_ok Inv Post seen ch (if b then x else y) \<longleftrightarrow>
     (if b then act_ok Inv Post seen ch x else act_ok Inv Post seen ch y)"
  by simp

definition stop_ok ::
    "(bytes \<Rightarrow> 's \<Rightarrow> 'r \<Rightarrow> bool) \<Rightarrow> ('l \<Rightarrow> bytes \<Rightarrow> u_char \<Rightarrow> 's \<Rightarrow> 'r \<Rightarrow> bool) \<Rightarrow> bytes \<Rightarrow>
     ('s, 'l, 'r) stop \<Rightarrow> bool" where
  "stop_ok Inv Post buf x =
     (case x of
        Ended s r \<Rightarrow> Inv buf s r
      | Jumped l s r p \<Rightarrow> p < length buf \<and> Post l (take p buf) (buf ! p) s r
      | Returned rc r \<Rightarrow> True
      | Undefined \<Rightarrow> False)"

locale parser =
  fixes step :: "bytes \<Rightarrow> u_char \<Rightarrow> 's \<Rightarrow> 'r \<Rightarrow> ('s, 'l, 'r) act"
    and Inv :: "bytes \<Rightarrow> 's \<Rightarrow> 'r \<Rightarrow> bool"
    and Post :: "'l \<Rightarrow> bytes \<Rightarrow> u_char \<Rightarrow> 's \<Rightarrow> 'r \<Rightarrow> bool"
  assumes step_ok: "Inv seen s r \<Longrightarrow> act_ok Inv Post seen ch (step seen ch s r)"
begin

lemma scan_ok: "Inv seen s r \<Longrightarrow> stop_ok Inv Post (seen @ rest) (scan step s r seen rest)"
proof (induction rest arbitrary: s r seen)
  case Nil
  then show ?case by (simp add: stop_ok_def)
next
  case (Cons ch rest)
  from step_ok [OF Cons.prems, of ch] show ?case
    using Cons.IH [of "seen @ [ch]"]
    by (cases "step seen ch s r") (simp_all add: act_ok_def stop_ok_def nth_append)
qed

text \<open>What a caller may rely on.\<close>

lemma again_inv:
  assumes "Inv (take pos buf) s r" "scan_parse step fin s r buf pos = Again s' r' p'"
  shows "Inv buf s' r' \<and> p' = length buf"
  using scan_ok [OF assms(1), of "drop pos buf"] assms(2)
  by (auto simp: scan_parse_def stop_ok_def split: stop.splits prod.splits)

lemma done_post:
  assumes "Inv (take pos buf) s r" "scan_parse step fin s r buf pos = Done rc r' p'"
  obtains l s'' r'' p where "p < length buf" "p' = p + 1" "fin l s'' r'' p = (rc, r')"
    "Post l (take p buf) (buf ! p) s'' r''"
  using scan_ok [OF assms(1), of "drop pos buf"] assms(2)
  by (auto simp: scan_parse_def stop_ok_def split: stop.splits prod.splits)

lemma defined:
  assumes "Inv (take pos buf) s r"
  shows "scan_parse step fin s r buf pos \<noteq> Undef_behaviour"
  using scan_ok [OF assms, of "drop pos buf"]
  by (auto simp: scan_parse_def stop_ok_def split: stop.splits prod.splits)

end

section \<open>Parts of a buffer\<close>

definition sub_buf :: "bytes \<Rightarrow> nat \<Rightarrow> nat \<Rightarrow> bytes" where
  "sub_buf buf i j = take (j - i) (drop i buf)"

lemma sub_buf_append: "j \<le> length xs \<Longrightarrow> sub_buf (xs @ ys) i j = sub_buf xs i j"
  by (simp add: sub_buf_def)

lemma sub_buf_take: "j \<le> p \<Longrightarrow> sub_buf (take p buf) i j = sub_buf buf i j"
  by (simp add: sub_buf_def drop_take min_def)

lemma sub_buf_snoc: "i \<le> length xs \<Longrightarrow> sub_buf (xs @ [c]) i (Suc (length xs)) = sub_buf xs i (length xs) @ [c]"
  by (simp add: sub_buf_def Suc_diff_le)

end
