(* ===== verification/Ngx_Request_Line.thy ===== *)
theory Ngx_Request_Line
  imports Ngx_Scan
begin

text \<open>
  The request line parser, \<^verbatim>\<open>ngx_http_parse_request_line\<close> of \<^verbatim>\<open>ngx_http_parse.c\<close>. Each state of the
  switch is a definition; a pointer into the buffer is its offset, a null pointer is \<open>None\<close>.
  The version numbers are the 16-bit fields of \<^verbatim>\<open>ngx_http_request_t\<close>.
\<close>

section \<open>Tables, codes and the request\<close>

definition usual :: "u32 list" where
  "usual = [0xffffdbfe, 0x7fff37d6, 0xffffffff, 0xffffffff,
     0xffffffff, 0xffffffff, 0xffffffff, 0xffffffff]"

definition NGX_HTTP_UNKNOWN :: nat where "NGX_HTTP_UNKNOWN = 0x0001"
definition NGX_HTTP_GET :: nat where "NGX_HTTP_GET = 0x0002"
definition NGX_HTTP_HEAD :: nat where "NGX_HTTP_HEAD = 0x0004"
definition NGX_HTTP_POST :: nat where "NGX_HTTP_POST = 0x0008"
definition NGX_HTTP_PUT :: nat where "NGX_HTTP_PUT = 0x0010"
definition NGX_HTTP_DELETE :: nat where "NGX_HTTP_DELETE = 0x0020"
definition NGX_HTTP_MKCOL :: nat where "NGX_HTTP_MKCOL = 0x0040"
definition NGX_HTTP_COPY :: nat where "NGX_HTTP_COPY = 0x0080"
definition NGX_HTTP_MOVE :: nat where "NGX_HTTP_MOVE = 0x0100"
definition NGX_HTTP_OPTIONS :: nat where "NGX_HTTP_OPTIONS = 0x0200"
definition NGX_HTTP_PROPFIND :: nat where "NGX_HTTP_PROPFIND = 0x0400"
definition NGX_HTTP_PROPPATCH :: nat where "NGX_HTTP_PROPPATCH = 0x0800"
definition NGX_HTTP_LOCK :: nat where "NGX_HTTP_LOCK = 0x1000"
definition NGX_HTTP_UNLOCK :: nat where "NGX_HTTP_UNLOCK = 0x2000"
definition NGX_HTTP_PATCH :: nat where "NGX_HTTP_PATCH = 0x4000"
definition NGX_HTTP_TRACE :: nat where "NGX_HTTP_TRACE = 0x8000"

lemmas method_defs = NGX_HTTP_UNKNOWN_def NGX_HTTP_GET_def NGX_HTTP_HEAD_def NGX_HTTP_POST_def
  NGX_HTTP_PUT_def NGX_HTTP_DELETE_def NGX_HTTP_MKCOL_def NGX_HTTP_COPY_def NGX_HTTP_MOVE_def
  NGX_HTTP_OPTIONS_def NGX_HTTP_PROPFIND_def NGX_HTTP_PROPPATCH_def NGX_HTTP_LOCK_def
  NGX_HTTP_UNLOCK_def NGX_HTTP_PATCH_def NGX_HTTP_TRACE_def

definition NGX_HTTP_PARSE_INVALID_METHOD :: int where "NGX_HTTP_PARSE_INVALID_METHOD = 10"
definition NGX_HTTP_PARSE_INVALID_REQUEST :: int where "NGX_HTTP_PARSE_INVALID_REQUEST = 11"
definition NGX_HTTP_PARSE_INVALID_09_METHOD :: int where "NGX_HTTP_PARSE_INVALID_09_METHOD = 12"

lemmas parse_rc_defs = NGX_HTTP_PARSE_INVALID_METHOD_def NGX_HTTP_PARSE_INVALID_REQUEST_def
  NGX_HTTP_PARSE_INVALID_09_METHOD_def

datatype rl_state = rl_start | rl_method | rl_spaces_before_uri | rl_schema | rl_schema_slash | rl_schema_slash_slash
  | rl_host_start | rl_host | rl_host_end | rl_host_ip_literal | rl_port | rl_host_http_09
  | rl_after_slash_in_uri | rl_check_uri
  | rl_check_uri_http_09 | rl_uri | rl_http_09 | rl_http_H | rl_http_HT | rl_http_HTT | rl_http_HTTP
  | rl_first_major_digit | rl_major_digit | rl_first_minor_digit | rl_minor_digit | rl_spaces_after_digit | rl_almost_done

text \<open>The fields of \<^verbatim>\<open>ngx_http_request_t\<close> the parser writes.\<close>

record http_request =
  http_method :: nat
  request_start :: "nat option"
  request_end :: "nat option"
  method_end :: "nat option"
  schema_start :: "nat option"
  schema_end :: "nat option"
  host_start :: "nat option"
  host_end :: "nat option"
  port_end :: "nat option"
  uri_start :: "nat option"
  uri_end :: "nat option"
  uri_ext :: "nat option"
  args_start :: "nat option"
  http_protocol :: "nat option"
  http_minor :: "16 word"
  http_major :: "16 word"
  http_version :: nat
  complex_uri :: bool
  quoted_uri :: bool
  plus_in_uri :: bool
  space_in_uri :: bool

text \<open>A request as \<^verbatim>\<open>ngx_http_create_request\<close> leaves it: zeroed, the method unknown, version 1.0.\<close>

definition new_request :: http_request where
  "new_request = \<lparr> http_method = NGX_HTTP_UNKNOWN, request_start = None, request_end = None,
     method_end = None, schema_start = None, schema_end = None, host_start = None,
     host_end = None, port_end = None, uri_start = None, uri_end = None, uri_ext = None,
     args_start = None, http_protocol = None, http_minor = 0, http_major = 0,
     http_version = 1000, complex_uri = False, quoted_uri = False, plus_in_uri = False,
     space_in_uri = False \<rparr>"

type_synonym rl_act = "(rl_state, unit, http_request) act"

abbreviation invalid_request :: "http_request \<Rightarrow> rl_act" where
  "invalid_request r \<equiv> Ret NGX_HTTP_PARSE_INVALID_REQUEST r"

section \<open>The states\<close>

definition rl_do_start :: "nat \<Rightarrow> u_char \<Rightarrow> http_request \<Rightarrow> rl_act" where
  "rl_do_start p ch r =
     (let r = r\<lparr>request_start := Some p\<rparr> in
      if ch = CR \<or> ch = LF then Next rl_start r
      else if (ch < ch_A \<or> ch > ch_Z) \<and> ch \<noteq> ch_under then Ret NGX_HTTP_PARSE_INVALID_METHOD r
      else Next rl_method r)"

text \<open>
  The comparison of the method name \<open>m\<close> with the known ones, by its length. The comparison
  macros are those of the portable variant; the others compare the same bytes as words.
\<close>

definition method_code :: "bytes \<Rightarrow> nat \<Rightarrow> nat" where
  "method_code m old =
     (if length m = 3 then
        if m = bytes_of ''GET'' then NGX_HTTP_GET
        else if m = bytes_of ''PUT'' then NGX_HTTP_PUT
        else old
      else if length m = 4 then
        if m ! 1 = 0x4f then
          if m = bytes_of ''POST'' then NGX_HTTP_POST
          else if m = bytes_of ''COPY'' then NGX_HTTP_COPY
          else if m = bytes_of ''MOVE'' then NGX_HTTP_MOVE
          else if m = bytes_of ''LOCK'' then NGX_HTTP_LOCK
          else old
        else if m = bytes_of ''HEAD'' then NGX_HTTP_HEAD
        else old
      else if length m = 5 then
        if m = bytes_of ''MKCOL'' then NGX_HTTP_MKCOL
        else if m = bytes_of ''PATCH'' then NGX_HTTP_PATCH
        else if m = bytes_of ''TRACE'' then NGX_HTTP_TRACE
        else old
      else if length m = 6 then
        if m = bytes_of ''DELETE'' then NGX_HTTP_DELETE
        else if m = bytes_of ''UNLOCK'' then NGX_HTTP_UNLOCK
        else old
      else if length m = 7 then
        if m = bytes_of ''OPTIONS'' then NGX_HTTP_OPTIONS else old
      else if length m = 8 then
        if m = bytes_of ''PROPFIND'' then NGX_HTTP_PROPFIND else old
      else if length m = 9 then
        if m = bytes_of ''PROPPATCH'' then NGX_HTTP_PROPPATCH else old
      else old)"

definition rl_do_method :: "bytes \<Rightarrow> u_char \<Rightarrow> http_request \<Rightarrow> rl_act" where
  "rl_do_method seen ch r =
     (let p = length seen in
      if ch = ch_sp then
        (case request_start r of
           None \<Rightarrow> Undef
         | Some m \<Rightarrow>
             if p \<le> m then Undef
             else
               Next rl_spaces_before_uri
                 (r\<lparr>method_end := Some (p - 1),
                    http_method := method_code (sub_buf seen m p) (http_method r)\<rparr>))
      else if (ch < ch_A \<or> ch > ch_Z) \<and> ch \<noteq> ch_under then Ret NGX_HTTP_PARSE_INVALID_METHOD r
      else Next rl_method r)"

definition is_alpha :: "u_char \<Rightarrow> bool" where
  "is_alpha ch \<longleftrightarrow> (let c = ch OR 0x20 in c \<ge> ch_a \<and> c \<le> ch_z)"

definition rl_do_spaces_before_uri :: "nat \<Rightarrow> u_char \<Rightarrow> http_request \<Rightarrow> rl_act" where
  "rl_do_spaces_before_uri p ch r =
     (if ch = ch_slash then Next rl_after_slash_in_uri (r\<lparr>uri_start := Some p\<rparr>)
      else if is_alpha ch then Next rl_schema (r\<lparr>schema_start := Some p\<rparr>)
      else if ch = ch_sp then Next rl_spaces_before_uri r
      else invalid_request r)"

definition rl_do_schema :: "nat \<Rightarrow> u_char \<Rightarrow> http_request \<Rightarrow> rl_act" where
  "rl_do_schema p ch r =
     (if is_alpha ch then Next rl_schema r
      else if ch = ch_colon then Next rl_schema_slash (r\<lparr>schema_end := Some p\<rparr>)
      else invalid_request r)"

definition rl_do_schema_slash :: "u_char \<Rightarrow> http_request \<Rightarrow> rl_act" where
  "rl_do_schema_slash ch r =
     (if ch = ch_slash then Next rl_schema_slash_slash r else invalid_request r)"

definition rl_do_schema_slash_slash :: "u_char \<Rightarrow> http_request \<Rightarrow> rl_act" where
  "rl_do_schema_slash_slash ch r =
     (if ch = ch_slash then Next rl_host_start r else invalid_request r)"

text \<open>A request without URI uses the first slash after the schema.\<close>

definition rl_uri_of_schema :: "http_request \<Rightarrow> rl_act" where
  "rl_uri_of_schema r =
     (case schema_end r of
        None \<Rightarrow> Undef
      | Some e \<Rightarrow>
          Next rl_host_http_09 (r\<lparr>uri_start := Some (e + 1), uri_end := Some (e + 2)\<rparr>))"

definition rl_do_host_end :: "nat \<Rightarrow> u_char \<Rightarrow> http_request \<Rightarrow> rl_act" where
  "rl_do_host_end p ch r =
     (let r = r\<lparr>host_end := Some p\<rparr> in
      if ch = ch_colon then Next rl_port r
      else if ch = ch_slash then Next rl_after_slash_in_uri (r\<lparr>uri_start := Some p\<rparr>)
      else if ch = ch_sp then rl_uri_of_schema r
      else invalid_request r)"

text \<open>The states \<^verbatim>\<open>sw_host_start\<close> and \<^verbatim>\<open>sw_host\<close> fall through to the next one.\<close>

definition rl_do_host :: "nat \<Rightarrow> u_char \<Rightarrow> http_request \<Rightarrow> rl_act" where
  "rl_do_host p ch r =
     (if is_alpha ch then Next rl_host r
      else if (ch \<ge> ch_0 \<and> ch \<le> ch_9) \<or> ch = ch_dot \<or> ch = ch_minus then Next rl_host r
      else rl_do_host_end p ch r)"

definition rl_do_host_start :: "nat \<Rightarrow> u_char \<Rightarrow> http_request \<Rightarrow> rl_act" where
  "rl_do_host_start p ch r =
     (let r = r\<lparr>host_start := Some p\<rparr> in
      if ch = ch_lbrack then Next rl_host_ip_literal r else rl_do_host p ch r)"

definition rl_do_host_ip_literal :: "u_char \<Rightarrow> http_request \<Rightarrow> rl_act" where
  "rl_do_host_ip_literal ch r =
     (if ch \<ge> ch_0 \<and> ch \<le> ch_9 then Next rl_host_ip_literal r
      else if is_alpha ch then Next rl_host_ip_literal r
      else if ch = ch_colon then Next rl_host_ip_literal r
      else if ch = ch_rbrack then Next rl_host_end r
      else if ch \<in> {ch_minus, ch_dot, ch_under, ch_tilde} then Next rl_host_ip_literal r
      else if ch \<in> {ch_bang, ch_dollar, ch_amp, ch_squote, ch_lparen, ch_rparen, ch_star,
                    ch_plus, ch_comma, ch_semi, ch_eq}
      then Next rl_host_ip_literal r
      else invalid_request r)"

definition rl_do_port :: "nat \<Rightarrow> u_char \<Rightarrow> http_request \<Rightarrow> rl_act" where
  "rl_do_port p ch r =
     (if ch \<ge> ch_0 \<and> ch \<le> ch_9 then Next rl_port r
      else if ch = ch_slash then
        Next rl_after_slash_in_uri (r\<lparr>port_end := Some p, uri_start := Some p\<rparr>)
      else if ch = ch_sp then rl_uri_of_schema (r\<lparr>port_end := Some p\<rparr>)
      else invalid_request r)"

definition rl_do_host_http_09 :: "nat \<Rightarrow> u_char \<Rightarrow> http_request \<Rightarrow> rl_act" where
  "rl_do_host_http_09 p ch r =
     (if ch = ch_sp then Next rl_host_http_09 r
      else if ch = CR then Next rl_almost_done (r\<lparr>http_minor := 9\<rparr>)
      else if ch = LF then Goto () rl_host_http_09 (r\<lparr>http_minor := 9\<rparr>)
      else if ch = 0x48 then Next rl_http_H (r\<lparr>http_protocol := Some p\<rparr>)
      else invalid_request r)"

definition rl_do_after_slash_in_uri :: "nat \<Rightarrow> u_char \<Rightarrow> http_request \<Rightarrow> rl_act" where
  "rl_do_after_slash_in_uri p ch r =
     (if tab_bit usual ch then Next rl_check_uri r
      else if ch = ch_sp then Next rl_check_uri_http_09 (r\<lparr>uri_end := Some p\<rparr>)
      else if ch = CR then Next rl_almost_done (r\<lparr>uri_end := Some p, http_minor := 9\<rparr>)
      else if ch = LF
      then Goto () rl_after_slash_in_uri (r\<lparr>uri_end := Some p, http_minor := 9\<rparr>)
      else if ch = ch_dot then Next rl_uri (r\<lparr>complex_uri := True\<rparr>)
      else if ch = ch_percent then Next rl_uri (r\<lparr>quoted_uri := True\<rparr>)
      else if ch = ch_slash then Next rl_uri (r\<lparr>complex_uri := True\<rparr>)
      else if ch = ch_quest then Next rl_uri (r\<lparr>args_start := Some (p + 1)\<rparr>)
      else if ch = ch_hash then Next rl_uri (r\<lparr>complex_uri := True\<rparr>)
      else if ch = ch_plus then Next rl_after_slash_in_uri (r\<lparr>plus_in_uri := True\<rparr>)
      else if ch = 0 then invalid_request r
      else Next rl_check_uri r)"

definition rl_do_check_uri :: "nat \<Rightarrow> u_char \<Rightarrow> http_request \<Rightarrow> rl_act" where
  "rl_do_check_uri p ch r =
     (if tab_bit usual ch then Next rl_check_uri r
      else if ch = ch_slash then Next rl_after_slash_in_uri (r\<lparr>uri_ext := None\<rparr>)
      else if ch = ch_dot then Next rl_check_uri (r\<lparr>uri_ext := Some (p + 1)\<rparr>)
      else if ch = ch_sp then Next rl_check_uri_http_09 (r\<lparr>uri_end := Some p\<rparr>)
      else if ch = CR then Next rl_almost_done (r\<lparr>uri_end := Some p, http_minor := 9\<rparr>)
      else if ch = LF then Goto () rl_check_uri (r\<lparr>uri_end := Some p, http_minor := 9\<rparr>)
      else if ch = ch_percent then Next rl_uri (r\<lparr>quoted_uri := True\<rparr>)
      else if ch = ch_quest then Next rl_uri (r\<lparr>args_start := Some (p + 1)\<rparr>)
      else if ch = ch_hash then Next rl_uri (r\<lparr>complex_uri := True\<rparr>)
      else if ch = ch_plus then Next rl_check_uri (r\<lparr>plus_in_uri := True\<rparr>)
      else if ch = 0 then invalid_request r
      else Next rl_check_uri r)"

text \<open>
  In the default branch of the two states after a space in the URI, \<^verbatim>\<open>p--\<close> and the increment
  of the loop cancel, so that the same character is taken up at once by the new state.
\<close>

definition rl_do_check_uri_http_09 :: "nat \<Rightarrow> u_char \<Rightarrow> http_request \<Rightarrow> rl_act" where
  "rl_do_check_uri_http_09 p ch r =
     (if ch = ch_sp then Next rl_check_uri_http_09 r
      else if ch = CR then Next rl_almost_done (r\<lparr>http_minor := 9\<rparr>)
      else if ch = LF then Goto () rl_check_uri_http_09 (r\<lparr>http_minor := 9\<rparr>)
      else if ch = 0x48 then Next rl_http_H (r\<lparr>http_protocol := Some p\<rparr>)
      else rl_do_check_uri p ch (r\<lparr>space_in_uri := True\<rparr>))"

definition rl_do_uri :: "nat \<Rightarrow> u_char \<Rightarrow> http_request \<Rightarrow> rl_act" where
  "rl_do_uri p ch r =
     (if tab_bit usual ch then Next rl_uri r
      else if ch = ch_sp then Next rl_http_09 (r\<lparr>uri_end := Some p\<rparr>)
      else if ch = CR then Next rl_almost_done (r\<lparr>uri_end := Some p, http_minor := 9\<rparr>)
      else if ch = LF then Goto () rl_uri (r\<lparr>uri_end := Some p, http_minor := 9\<rparr>)
      else if ch = ch_hash then Next rl_uri (r\<lparr>complex_uri := True\<rparr>)
      else if ch = 0 then invalid_request r
      else Next rl_uri r)"

definition rl_do_http_09 :: "nat \<Rightarrow> u_char \<Rightarrow> http_request \<Rightarrow> rl_act" where
  "rl_do_http_09 p ch r =
     (if ch = ch_sp then Next rl_http_09 r
      else if ch = CR then Next rl_almost_done (r\<lparr>http_minor := 9\<rparr>)
      else if ch = LF then Goto () rl_http_09 (r\<lparr>http_minor := 9\<rparr>)
      else if ch = 0x48 then Next rl_http_H (r\<lparr>http_protocol := Some p\<rparr>)
      else rl_do_uri p ch (r\<lparr>space_in_uri := True\<rparr>))"

text \<open>The states that expect one letter of the protocol name.\<close>

definition rl_expect :: "u_char \<Rightarrow> rl_state \<Rightarrow> u_char \<Rightarrow> http_request \<Rightarrow> rl_act" where
  "rl_expect c s ch r = (if ch = c then Next s r else invalid_request r)"

definition digit16 :: "u_char \<Rightarrow> 16 word" where
  "digit16 ch = ucast ch - 0x30"

definition rl_do_first_major_digit :: "u_char \<Rightarrow> http_request \<Rightarrow> rl_act" where
  "rl_do_first_major_digit ch r =
     (if ch < ch_1 \<or> ch > ch_9 then invalid_request r
      else Next rl_major_digit (r\<lparr>http_major := digit16 ch\<rparr>))"

definition rl_do_major_digit :: "u_char \<Rightarrow> http_request \<Rightarrow> rl_act" where
  "rl_do_major_digit ch r =
     (if ch = ch_dot then Next rl_first_minor_digit r
      else if ch < ch_0 \<or> ch > ch_9 then invalid_request r
      else Next rl_major_digit (r\<lparr>http_major := http_major r * 10 + digit16 ch\<rparr>))"

definition rl_do_first_minor_digit :: "u_char \<Rightarrow> http_request \<Rightarrow> rl_act" where
  "rl_do_first_minor_digit ch r =
     (if ch < ch_0 \<or> ch > ch_9 then invalid_request r
      else Next rl_minor_digit (r\<lparr>http_minor := digit16 ch\<rparr>))"

definition rl_do_minor_digit :: "u_char \<Rightarrow> http_request \<Rightarrow> rl_act" where
  "rl_do_minor_digit ch r =
     (if ch = CR then Next rl_almost_done r
      else if ch = LF then Goto () rl_minor_digit r
      else if ch = ch_sp then Next rl_spaces_after_digit r
      else if ch < ch_0 \<or> ch > ch_9 then invalid_request r
      else Next rl_minor_digit (r\<lparr>http_minor := http_minor r * 10 + digit16 ch\<rparr>))"

definition rl_do_spaces_after_digit :: "u_char \<Rightarrow> http_request \<Rightarrow> rl_act" where
  "rl_do_spaces_after_digit ch r =
     (if ch = ch_sp then Next rl_spaces_after_digit r
      else if ch = CR then Next rl_almost_done r
      else if ch = LF then Goto () rl_spaces_after_digit r
      else invalid_request r)"

definition rl_do_almost_done :: "nat \<Rightarrow> u_char \<Rightarrow> http_request \<Rightarrow> rl_act" where
  "rl_do_almost_done p ch r =
     (let r = r\<lparr>request_end := Some (p - 1)\<rparr> in
      if ch = LF then Goto () rl_almost_done r else invalid_request r)"

section \<open>The parser\<close>

fun rl_step :: "bytes \<Rightarrow> u_char \<Rightarrow> rl_state \<Rightarrow> http_request \<Rightarrow> rl_act" where
  "rl_step seen ch rl_start r = rl_do_start (length seen) ch r"
| "rl_step seen ch rl_method r = rl_do_method seen ch r"
| "rl_step seen ch rl_spaces_before_uri r = rl_do_spaces_before_uri (length seen) ch r"
| "rl_step seen ch rl_schema r = rl_do_schema (length seen) ch r"
| "rl_step seen ch rl_schema_slash r = rl_do_schema_slash ch r"
| "rl_step seen ch rl_schema_slash_slash r = rl_do_schema_slash_slash ch r"
| "rl_step seen ch rl_host_start r = rl_do_host_start (length seen) ch r"
| "rl_step seen ch rl_host r = rl_do_host (length seen) ch r"
| "rl_step seen ch rl_host_end r = rl_do_host_end (length seen) ch r"
| "rl_step seen ch rl_host_ip_literal r = rl_do_host_ip_literal ch r"
| "rl_step seen ch rl_port r = rl_do_port (length seen) ch r"
| "rl_step seen ch rl_host_http_09 r = rl_do_host_http_09 (length seen) ch r"
| "rl_step seen ch rl_after_slash_in_uri r = rl_do_after_slash_in_uri (length seen) ch r"
| "rl_step seen ch rl_check_uri r = rl_do_check_uri (length seen) ch r"
| "rl_step seen ch rl_check_uri_http_09 r = rl_do_check_uri_http_09 (length seen) ch r"
| "rl_step seen ch rl_uri r = rl_do_uri (length seen) ch r"
| "rl_step seen ch rl_http_09 r = rl_do_http_09 (length seen) ch r"
| "rl_step seen ch rl_http_H r = rl_expect 0x54 rl_http_HT ch r"
| "rl_step seen ch rl_http_HT r = rl_expect 0x54 rl_http_HTT ch r"
| "rl_step seen ch rl_http_HTT r = rl_expect 0x50 rl_http_HTTP ch r"
| "rl_step seen ch rl_http_HTTP r = rl_expect ch_slash rl_first_major_digit ch r"
| "rl_step seen ch rl_first_major_digit r = rl_do_first_major_digit ch r"
| "rl_step seen ch rl_major_digit r = rl_do_major_digit ch r"
| "rl_step seen ch rl_first_minor_digit r = rl_do_first_minor_digit ch r"
| "rl_step seen ch rl_minor_digit r = rl_do_minor_digit ch r"
| "rl_step seen ch rl_spaces_after_digit r = rl_do_spaces_after_digit ch r"
| "rl_step seen ch rl_almost_done r = rl_do_almost_done (length seen) ch r"

text \<open>The code behind the label \<^verbatim>\<open>done\<close>.\<close>

definition rl_done :: "unit \<Rightarrow> rl_state \<Rightarrow> http_request \<Rightarrow> nat \<Rightarrow> int \<times> http_request" where
  "rl_done l s r p =
     (let r = (if request_end r = None then r\<lparr>request_end := Some p\<rparr> else r);
          r = r\<lparr>http_version := unat (http_major r) * 1000 + unat (http_minor r)\<rparr> in
      if http_version r = 9 \<and> http_method r \<noteq> NGX_HTTP_GET
      then (NGX_HTTP_PARSE_INVALID_09_METHOD, r) else (NGX_OK, r))"

definition ngx_http_parse_request_line ::
    "rl_state \<Rightarrow> http_request \<Rightarrow> bytes \<Rightarrow> nat \<Rightarrow> (rl_state, http_request) result" where
  "ngx_http_parse_request_line = scan_parse rl_step rl_done"

section \<open>What the parser establishes\<close>

definition method_char :: "u_char \<Rightarrow> bool" where
  "method_char c \<longleftrightarrow> ch_A \<le> c \<and> c \<le> ch_Z \<or> c = ch_under"

text \<open>The method: its first and last character.\<close>

definition meth_ok :: "bytes \<Rightarrow> nat option \<Rightarrow> nat option \<Rightarrow> bool" where
  "meth_ok buf ms me \<longleftrightarrow>
     (\<exists>m e. ms = Some m \<and> me = Some e \<and> m \<le> e \<and> e < length buf
        \<and> list_all method_char (sub_buf buf m (Suc e)))"

text \<open>The place of the colon of the schema, with the slash behind it.\<close>

definition schema_ok :: "bytes \<Rightarrow> nat option \<Rightarrow> nat option \<Rightarrow> bool" where
  "schema_ok buf me se \<longleftrightarrow>
     (\<exists>e s. me = Some e \<and> se = Some s \<and> e < s \<and> Suc s < length buf \<and> buf ! Suc s = ch_slash)"

text \<open>
  The URI from \<open>us\<close> to \<open>v\<close>: behind the method, not empty, starting with a slash, without CR, LF
  and null, with the arguments starting inside.
\<close>

definition uri_char :: "u_char \<Rightarrow> bool" where
  "uri_char c \<longleftrightarrow> c \<noteq> CR \<and> c \<noteq> LF \<and> c \<noteq> 0"

definition uri_ok :: "bytes \<Rightarrow> nat option \<Rightarrow> nat option \<Rightarrow> nat \<Rightarrow> nat option \<Rightarrow> bool" where
  "uri_ok buf me us v as \<longleftrightarrow>
     (\<exists>e u. me = Some e \<and> us = Some u \<and> e < u \<and> u < v \<and> v \<le> length buf \<and> buf ! u = ch_slash
        \<and> list_all uri_char (sub_buf buf u v) \<and> (\<forall>a. as = Some a \<longrightarrow> u < a \<and> a \<le> v))"

definition uri_end_ok :: "bytes \<Rightarrow> nat option \<Rightarrow> nat option \<Rightarrow> nat option \<Rightarrow> nat option \<Rightarrow> bool" where
  "uri_end_ok buf me us ue as \<longleftrightarrow> (\<exists>v. ue = Some v \<and> uri_ok buf me us v as)"

fun rl_inv :: "bytes \<Rightarrow> rl_state \<Rightarrow> http_request \<Rightarrow> bool" where
  "rl_inv buf rl_start r \<longleftrightarrow> args_start r = None"
| "rl_inv buf rl_method r \<longleftrightarrow> args_start r = None
     \<and> (\<exists>m. request_start r = Some m \<and> m < length buf \<and> list_all method_char (drop m buf))"
| "rl_inv buf s r \<longleftrightarrow> meth_ok buf (request_start r) (method_end r) \<and>
     (if s \<in> {rl_spaces_before_uri, rl_schema} then args_start r = None
      else if s = rl_schema_slash then args_start r = None
        \<and> (\<exists>e s. method_end r = Some e \<and> schema_end r = Some s \<and> e < s \<and> Suc s = length buf)
      else if s \<in> {rl_schema_slash_slash, rl_host_start, rl_host, rl_host_end, rl_host_ip_literal, rl_port}
      then args_start r = None \<and> schema_ok buf (method_end r) (schema_end r)
      else if s \<in> {rl_after_slash_in_uri, rl_check_uri, rl_uri}
      then uri_ok buf (method_end r) (uri_start r) (length buf) (args_start r)
      else uri_end_ok buf (method_end r) (uri_start r) (uri_end r) (args_start r)
        \<and> (s \<in> {rl_check_uri_http_09, rl_http_09} \<longrightarrow>
           uri_ok buf (method_end r) (uri_start r) (length buf) (args_start r)))"

definition rl_post :: "unit \<Rightarrow> bytes \<Rightarrow> u_char \<Rightarrow> rl_state \<Rightarrow> http_request \<Rightarrow> bool" where
  "rl_post l buf ch s r \<longleftrightarrow> ch = LF \<and> meth_ok buf (request_start r) (method_end r)
     \<and> uri_end_ok buf (method_end r) (uri_start r) (uri_end r) (args_start r)"

lemma meth_ok_snoc [intro]: "meth_ok buf ms me \<Longrightarrow> meth_ok (buf @ xs) ms me"
  by (fastforce simp: meth_ok_def sub_buf_append)

lemma schema_ok_snoc [intro]: "schema_ok buf me se \<Longrightarrow> schema_ok (buf @ xs) me se"
  by (fastforce simp: schema_ok_def nth_append)

lemma uri_ok_snoc [intro]: "uri_ok buf me us v as \<Longrightarrow> uri_ok (buf @ xs) me us v as"
  by (fastforce simp: uri_ok_def nth_append sub_buf_append)

lemma uri_end_ok_snoc [intro]: "uri_end_ok buf me us ue as \<Longrightarrow> uri_end_ok (buf @ xs) me us ue as"
  by (auto simp: uri_end_ok_def)

lemma uri_ok_grow:
  "uri_ok buf me us (length buf) as \<Longrightarrow> uri_char c \<Longrightarrow> uri_ok (buf @ [c]) me us (Suc (length buf)) as"
  by (fastforce simp: uri_ok_def nth_append sub_buf_snoc)

lemma uri_ok_args:
  "uri_ok buf me us (length buf) as \<Longrightarrow> uri_char c \<Longrightarrow>
     uri_ok (buf @ [c]) me us (Suc (length buf)) (Some (Suc (length buf)))"
  by (fastforce simp: uri_ok_def nth_append sub_buf_snoc)

lemma uri_ok_start:
  assumes "meth_ok buf ms me"
  shows "uri_ok (buf @ [ch_slash]) me (Some (length buf)) (Suc (length buf)) None"
  using assms by (auto simp: meth_ok_def uri_ok_def uri_char_def sub_buf_def)

lemma uri_of_schema:
  "schema_ok buf me (Some s) \<Longrightarrow> uri_ok buf me (Some (Suc s)) (Suc (Suc s)) None"
  by (auto simp: schema_ok_def uri_ok_def uri_char_def sub_buf_def take_Suc hd_drop_conv_nth)

lemma usual_uri_char: "tab_bit usual c \<Longrightarrow> uri_char c"
proof -
  have "\<not> tab_bit usual CR" "\<not> tab_bit usual LF" "\<not> tab_bit usual 0" by code_simp+
  then show "tab_bit usual c \<Longrightarrow> uri_char c" by (auto simp: uri_char_def)
qed

lemma uri_end_here:
  "uri_ok buf me us (length buf) as \<Longrightarrow> uri_end_ok buf me us (Some (length buf)) as"
  "uri_ok buf me us (length buf) as \<Longrightarrow> uri_end_ok (buf @ xs) me us (Some (length buf)) as"
  by (auto simp: uri_end_ok_def)

lemmas uri_rules = uri_ok_grow uri_ok_args uri_end_here usual_uri_char

abbreviation rl_ok :: "bytes \<Rightarrow> u_char \<Rightarrow> rl_act \<Rightarrow> bool" where
  "rl_ok \<equiv> act_ok rl_inv rl_post"

abbreviation in_uri :: "bytes \<Rightarrow> http_request \<Rightarrow> bool" where
  "in_uri buf r \<equiv> meth_ok buf (request_start r) (method_end r)
     \<and> uri_ok buf (method_end r) (uri_start r) (length buf) (args_start r)"

lemma rl_check_uri_ok: "in_uri buf r \<Longrightarrow> rl_ok buf ch (rl_do_check_uri (length buf) ch r)"
  by (auto simp: rl_do_check_uri_def act rl_post_def uri_char_def intro: uri_rules)

lemma rl_uri_ok: "in_uri buf r \<Longrightarrow> rl_ok buf ch (rl_do_uri (length buf) ch r)"
  by (auto simp: rl_do_uri_def act rl_post_def uri_char_def intro: uri_rules)

lemma rl_after_slash_ok: "in_uri buf r \<Longrightarrow> rl_ok buf ch (rl_do_after_slash_in_uri (length buf) ch r)"
  by (auto simp: rl_do_after_slash_in_uri_def act rl_post_def uri_char_def intro: uri_rules)

lemma rl_start_ok: "args_start r = None \<Longrightarrow> rl_ok buf ch (rl_do_start (length buf) ch r)"
  by (auto simp: rl_do_start_def Let_def act method_char_def)

lemma rl_method_ok:
  assumes "rl_inv buf rl_method r"
  shows "rl_ok buf ch (rl_do_method buf ch r)"
proof -
  from assms obtain m where m: "request_start r = Some m" "m < length buf"
    "list_all method_char (drop m buf)" "args_start r = None" by auto
  moreover from m have "Suc (length buf - Suc 0) = length buf" by simp
  moreover have "sub_buf (buf @ [ch]) m (length buf) = drop m buf"
    by (simp add: sub_buf_def)
  ultimately show ?thesis
    by (auto simp: rl_do_method_def Let_def act meth_ok_def method_char_def not_less not_le)
qed

lemma rl_before_uri_ok:
  assumes "meth_ok buf (request_start r) (method_end r)" "args_start r = None"
  shows "rl_ok buf ch (rl_do_spaces_before_uri (length buf) ch r)"
    and "rl_ok buf ch (rl_do_schema (length buf) ch r)"
  using assms
  by (auto simp: rl_do_spaces_before_uri_def rl_do_schema_def act uri_ok_start)
    (auto simp: meth_ok_def)

abbreviation in_host :: "bytes \<Rightarrow> http_request \<Rightarrow> bool" where
  "in_host buf r \<equiv> meth_ok buf (request_start r) (method_end r) \<and> args_start r = None
     \<and> schema_ok buf (method_end r) (schema_end r)"

lemma rl_uri_of_schema_ok: "in_host buf r \<Longrightarrow> rl_ok buf ch (rl_uri_of_schema r)"
proof -
  assume h: "in_host buf r"
  then obtain s where s: "schema_end r = Some s" by (auto simp: schema_ok_def)
  with h have "uri_ok buf (method_end r) (Some (Suc s)) (Suc (Suc s)) None"
    by (intro uri_of_schema) simp
  with h s show ?thesis by (auto simp: rl_uri_of_schema_def act uri_end_ok_def)
qed

lemma rl_host_end_ok: "in_host buf r \<Longrightarrow> rl_ok buf ch (rl_do_host_end (length buf) ch r)"
  by (auto simp: rl_do_host_end_def Let_def act rl_uri_of_schema_ok uri_ok_start)

lemma rl_host_ok: "in_host buf r \<Longrightarrow> rl_ok buf ch (rl_do_host (length buf) ch r)"
  by (auto simp: rl_do_host_def act rl_host_end_ok)

lemma rl_host_start_ok: "in_host buf r \<Longrightarrow> rl_ok buf ch (rl_do_host_start (length buf) ch r)"
  by (auto simp: rl_do_host_start_def Let_def act rl_host_ok)

lemma rl_host_ip_ok: "in_host buf r \<Longrightarrow> rl_ok buf ch (rl_do_host_ip_literal ch r)"
  by (auto simp: rl_do_host_ip_literal_def act)

lemma rl_port_ok: "in_host buf r \<Longrightarrow> rl_ok buf ch (rl_do_port (length buf) ch r)"
  by (auto simp: rl_do_port_def act rl_uri_of_schema_ok uri_ok_start)

lemma rl_version_ok:
  assumes "meth_ok buf (request_start r) (method_end r)"
    "uri_end_ok buf (method_end r) (uri_start r) (uri_end r) (args_start r)"
  shows "rl_ok buf ch (rl_do_host_http_09 (length buf) ch r)"
    "rl_ok buf ch (rl_do_first_major_digit ch r)" "rl_ok buf ch (rl_do_major_digit ch r)"
    "rl_ok buf ch (rl_do_first_minor_digit ch r)" "rl_ok buf ch (rl_do_minor_digit ch r)"
    "rl_ok buf ch (rl_do_spaces_after_digit ch r)" "rl_ok buf ch (rl_do_almost_done (length buf) ch r)"
    "rl_ok buf ch (rl_expect c rl_http_HT ch r)" "rl_ok buf ch (rl_expect c rl_http_HTT ch r)"
    "rl_ok buf ch (rl_expect c rl_http_HTTP ch r)" "rl_ok buf ch (rl_expect c rl_first_major_digit ch r)"
  using assms
  by (auto simp: rl_do_host_http_09_def rl_do_first_major_digit_def rl_do_major_digit_def
      rl_do_first_minor_digit_def rl_do_minor_digit_def rl_do_spaces_after_digit_def
      rl_do_almost_done_def rl_expect_def Let_def act rl_post_def)

lemma rl_http_09_ok:
  assumes "in_uri buf r" "uri_end_ok buf (method_end r) (uri_start r) (uri_end r) (args_start r)"
  shows "rl_ok buf ch (rl_do_http_09 (length buf) ch r)"
    "rl_ok buf ch (rl_do_check_uri_http_09 (length buf) ch r)"
  using assms
  by (auto simp: rl_do_http_09_def rl_do_check_uri_http_09_def act rl_post_def rl_uri_ok
      rl_check_uri_ok uri_char_def intro: uri_ok_grow)

lemma rl_schema_slash_ok:
  assumes "rl_inv buf rl_schema_slash r"
  shows "rl_ok buf ch (rl_do_schema_slash ch r)"
proof -
  from assms obtain e s where "method_end r = Some e" "schema_end r = Some s" "e < s" "Suc s = length buf"
    and "args_start r = None" "meth_ok buf (request_start r) (method_end r)" by auto
  moreover from this have "schema_ok (buf @ [ch_slash]) (method_end r) (schema_end r)"
    by (auto simp: schema_ok_def)
  ultimately show ?thesis by (auto simp: rl_do_schema_slash_def act)
qed

lemma rl_schema_slash_slash_ok: "in_host buf r \<Longrightarrow> rl_ok buf ch (rl_do_schema_slash_slash ch r)"
  by (auto simp: rl_do_schema_slash_slash_def act)

lemmas rl_state_oks = rl_start_ok rl_before_uri_ok rl_schema_slash_slash_ok rl_host_start_ok
  rl_host_ok rl_host_end_ok rl_host_ip_ok rl_port_ok rl_after_slash_ok rl_check_uri_ok rl_uri_ok
  rl_http_09_ok rl_version_ok

interpretation rl: parser rl_step rl_inv rl_post
proof
  fix buf s r ch
  assume inv: "rl_inv buf s r"
  show "rl_ok buf ch (rl_step buf ch s r)"
  proof (cases "s = rl_method \<or> s = rl_schema_slash")
    case True
    with inv rl_method_ok rl_schema_slash_ok show ?thesis by auto
  next
    case False
    with inv show ?thesis by (cases s) (simp_all add: rl_state_oks)
  qed
qed

section \<open>Theorems on the request line\<close>

text \<open>
  C2. What a caller of a parse that reached the end of the line relies on: the pointers lie in
  the buffer in the order method, URI, end; the method consists of capital letters and
  underscores; the URI is not empty, starts with a slash and has no CR, LF or null byte; the
  arguments, if any, start inside it; the line feed has been consumed. When more input is
  needed, all of the buffer has been consumed. No input leads to undefined behaviour.
\<close>

theorem request_line_pointers:
  "case ngx_http_parse_request_line rl_start new_request buf pos of
     Done rc r p \<Rightarrow>
       (\<exists>m e u v. request_start r = Some m \<and> method_end r = Some e \<and> uri_start r = Some u
          \<and> uri_end r = Some v \<and> m \<le> e \<and> e < u \<and> u < v \<and> v < p \<and> p \<le> length buf
          \<and> buf ! (p - 1) = LF \<and> list_all method_char (sub_buf buf m (Suc e))
          \<and> buf ! u = ch_slash \<and> list_all uri_char (sub_buf buf u v)
          \<and> (case args_start r of None \<Rightarrow> True | Some a \<Rightarrow> u < a \<and> a \<le> v))
   | Again s r p \<Rightarrow> p = length buf \<and> rl_inv buf s r
   | Failed rc r \<Rightarrow> True
   | Undef_behaviour \<Rightarrow> False"
proof -
  let ?parse = "scan_parse rl_step rl_done rl_start new_request buf pos"
  have inv: "rl_inv (take pos buf) rl_start new_request" by (simp add: new_request_def)
  show ?thesis
  proof (cases ?parse)
    case (Done rc r p)
    with inv obtain l s' r' q where q: "q < length buf" "p = q + 1"
      and r: "rl_done l s' r' q = (rc, r)" and post: "rl_post l (take q buf) (buf ! q) s' r'"
      by (rule rl.done_post)
    from r have "request_start r = request_start r'" "method_end r = method_end r'"
      "uri_start r = uri_start r'" "uri_end r = uri_end r'" "args_start r = args_start r'"
      by (auto simp: rl_done_def Let_def split: if_splits)
    with post q Done show ?thesis
      by (fastforce simp: ngx_http_parse_request_line_def rl_post_def meth_ok_def uri_end_ok_def
          uri_ok_def sub_buf_take split: option.split)
  next
    case (Again s r p)
    then show ?thesis using rl.again_inv [OF inv] by (simp add: ngx_http_parse_request_line_def)
  qed (use rl.defined [OF inv, of rl_done] in \<open>simp_all add: ngx_http_parse_request_line_def\<close>)
qed

section \<open>The request line is read exactly\<close>

text \<open>The states inside the URI keep what was read before.\<close>

definition uri_state :: "rl_state \<Rightarrow> bool" where
  "uri_state s \<longleftrightarrow> s \<in> {rl_after_slash_in_uri, rl_check_uri, rl_uri}"

definition keeps :: "http_request \<Rightarrow> http_request \<Rightarrow> bool" where
  "keeps r r' \<longleftrightarrow> request_start r' = request_start r \<and> method_end r' = method_end r
     \<and> http_method r' = http_method r \<and> uri_start r' = uri_start r \<and> request_end r' = request_end r"

lemma uri_state_step:
  assumes "uri_state s" "uri_char c" "c \<noteq> ch_sp"
  shows "\<exists>s' r'. rl_step seen c s r = Next s' r' \<and> uri_state s' \<and> keeps r r'"
  using assms
  by (auto simp: uri_state_def uri_char_def keeps_def rl_do_after_slash_in_uri_def rl_do_check_uri_def
      rl_do_uri_def)

lemma uri_run:
  assumes "uri_state s" "list_all (\<lambda>c. uri_char c \<and> c \<noteq> ch_sp) xs"
  shows "\<exists>s' r'. scan rl_step s r seen (xs @ ys) = scan rl_step s' r' (seen @ xs) ys
    \<and> uri_state s' \<and> keeps r r'"
  using assms
proof (induction xs arbitrary: s r seen)
  case Nil
  then show ?case by (auto simp: keeps_def)
next
  case (Cons c xs)
  then obtain s' r' where "rl_step seen c s r = Next s' r'" "uri_state s'" "keeps r r'"
    using uri_state_step [of s c seen r] by auto
  moreover from Cons.IH [of s' r' "seen @ [c]"] Cons.prems this obtain s'' r'' where
    "scan rl_step s' r' (seen @ [c]) (xs @ ys) = scan rl_step s'' r'' (seen @ c # xs) ys"
    "uri_state s''" "keeps r' r''" by auto
  ultimately show ?case by (auto simp: keeps_def)
qed

text \<open>The end of the URI and the version.\<close>

lemma version_run:
  assumes "uri_state s" "ch_1 \<le> maj" "maj \<le> ch_9" "is_digit mnr"
  shows "\<exists>r'. scan rl_step s r seen (bytes_of '' HTTP/'' @ [maj, ch_dot, mnr, CR, LF] @ rest)
      = Jumped () rl_almost_done r' (length seen + 10)
    \<and> keeps (r\<lparr>request_end := Some (length seen + 9)\<rparr>) r' \<and> uri_end r' = Some (length seen)
    \<and> http_major r' = digit16 maj \<and> http_minor r' = digit16 mnr"
proof -
  have "tab_bit usual ch_sp = False" by code_simp
  moreover have "mnr \<noteq> CR \<and> mnr \<noteq> LF \<and> mnr \<noteq> ch_sp" using assms(4) by (auto simp: is_digit_def)
  ultimately show ?thesis using assms
    by (auto simp: uri_state_def bytes_of_def keeps_def is_digit_def rl_do_after_slash_in_uri_def
        rl_do_check_uri_def rl_do_uri_def rl_do_check_uri_http_09_def rl_do_http_09_def rl_expect_def
        rl_do_first_major_digit_def rl_do_major_digit_def rl_do_first_minor_digit_def
        rl_do_minor_digit_def rl_do_almost_done_def not_less)
qed

lemma unat_digit16:
  assumes "is_digit c"
  shows "unat (digit16 c) = unat c - 48"
proof -
  from assms have c: "48 \<le> unat c" "unat c < 58" by (auto simp: is_digit_def word_le_nat_alt)
  have "unat (digit16 (word_of_nat (48 + k))) = k" if "k < 10" for k
    by (rule upto_all_I [OF _ that]) code_simp
  from this [of "unat c - 48"] c show ?thesis by simp
qed

lemma method_run:
  assumes "list_all method_char m" "m \<noteq> []" "http_method r = old"
  shows "scan rl_step rl_start r [] (m @ ch_sp # ys) =
    scan rl_step rl_spaces_before_uri
      (r\<lparr>request_start := Some 0, method_end := Some (length m - 1), http_method := method_code m old\<rparr>)
      (m @ [ch_sp]) ys"
proof -
  obtain c m' where m: "m = c # m'" using assms(2) by (cases m) auto
  have ok: "\<not> ((d < ch_A \<or> d > ch_Z) \<and> d \<noteq> ch_under) \<and> d \<noteq> CR \<and> d \<noteq> LF \<and> d \<noteq> ch_sp"
    if "method_char d" for d
    using that by (auto simp: method_char_def not_less)
  let ?r = "r\<lparr>request_start := Some 0\<rparr>"
  have "scan rl_step rl_start r [] (m @ ch_sp # ys) = scan rl_step rl_method ?r [c] (m' @ ch_sp # ys)"
    using ok [of c] assms(1) m by (auto simp: rl_do_start_def Let_def)
  also have "\<dots> = scan rl_step rl_method ?r ([c] @ m') (ch_sp # ys)"
    by (rule scan_run) (use ok assms(1) m in \<open>auto simp: rl_do_method_def list_all_iff\<close>)
  finally show ?thesis using m assms(3) by (simp add: rl_do_method_def sub_buf_def)
qed

text \<open>
  C1. A well-formed request line is read exactly: for every method name, every URI without
  space, CR, LF and null, and every version with one digit on each side of the dot, the parser
  returns \<^verbatim>\<open>NGX_OK\<close> behind the line feed, whatever follows, with the pointers around the method
  and the URI, the code of the method, and the version.
\<close>

theorem request_line_exact:
  assumes m: "m \<noteq> []" "list_all method_char m" and u: "list_all (\<lambda>c. uri_char c \<and> c \<noteq> ch_sp) u"
    and maj: "ch_1 \<le> maj" "maj \<le> ch_9" and mnr: "is_digit mnr"
  shows "\<exists>r. ngx_http_parse_request_line rl_start new_request
        (m @ [ch_sp, ch_slash] @ u @ bytes_of '' HTTP/'' @ [maj, ch_dot, mnr, CR, LF] @ rest) 0
      = Done NGX_OK r (length m + length u + 13)
    \<and> request_start r = Some 0 \<and> method_end r = Some (length m - 1)
    \<and> http_method r = method_code m NGX_HTTP_UNKNOWN
    \<and> uri_start r = Some (length m + 1) \<and> uri_end r = Some (length m + length u + 2)
    \<and> http_version r = (unat maj - 48) * 1000 + (unat mnr - 48)"
proof -
  let ?tail = "bytes_of '' HTTP/'' @ [maj, ch_dot, mnr, CR, LF] @ rest"
  let ?r0 = "new_request\<lparr>request_start := Some 0, method_end := Some (length m - 1),
    http_method := method_code m NGX_HTTP_UNKNOWN, uri_start := Some (length m + 1)\<rparr>"
  have "http_method new_request = NGX_HTTP_UNKNOWN" by (simp add: new_request_def)
  from method_run [OF m(2,1) this, of "ch_slash # u @ ?tail"]
  have 1: "scan rl_step rl_start new_request [] (m @ ch_sp # ch_slash # u @ ?tail)
      = scan rl_step rl_after_slash_in_uri ?r0 (m @ [ch_sp, ch_slash]) (u @ ?tail)"
    by (simp add: rl_do_spaces_before_uri_def)
  obtain s1 r1 where 2: "scan rl_step rl_after_slash_in_uri ?r0 (m @ [ch_sp, ch_slash]) (u @ ?tail)
      = scan rl_step s1 r1 ((m @ [ch_sp, ch_slash]) @ u) ?tail"
    and s1: "uri_state s1" and k1: "keeps ?r0 r1"
    using uri_run [of rl_after_slash_in_uri u ?r0 "m @ [ch_sp, ch_slash]" ?tail] u
    by (auto simp: uri_state_def)
  obtain r2 where 3: "scan rl_step s1 r1 ((m @ [ch_sp, ch_slash]) @ u) ?tail
      = Jumped () rl_almost_done r2 (length m + length u + 12)"
    and r2: "keeps (r1\<lparr>request_end := Some (length m + length u + 11)\<rparr>) r2"
      "uri_end r2 = Some (length m + length u + 2)"
      "http_major r2 = digit16 maj" "http_minor r2 = digit16 mnr"
    using version_run [OF s1 maj mnr, of r1 "(m @ [ch_sp, ch_slash]) @ u" rest]
    by (auto simp: add.commute add.left_commute)
  note scan = trans [OF trans [OF 1 2] 3]
  have d: "is_digit maj" using maj by (auto simp: is_digit_def word_le_nat_alt)
  then have "unat maj - 48 > 0" using maj by (simp add: word_le_nat_alt)
  with scan r2 k1 d mnr show ?thesis
    by (auto simp: ngx_http_parse_request_line_def scan_parse_def rl_done_def Let_def keeps_def unat_digit16)
qed

theorem request_line_exact_witness:
  "bytes_of ''GET'' \<noteq> [] \<and> list_all method_char (bytes_of ''GET'') \<and>
   list_all (\<lambda>c. uri_char c \<and> c \<noteq> ch_sp) (bytes_of ''a/../b?x=%20'') \<and>
   (\<exists>r. ngx_http_parse_request_line rl_start new_request
      (bytes_of ''GET'' @ [ch_sp, ch_slash] @ bytes_of ''a/../b?x=%20'' @ bytes_of '' HTTP/'' @
       [0x31, ch_dot, 0x31, CR, LF] @ []) 0 = Done NGX_OK r 28
     \<and> http_method r = NGX_HTTP_GET \<and> http_version r = 1001)"
proof -
  have h: "bytes_of ''GET'' \<noteq> []" "list_all method_char (bytes_of ''GET'')"
    "list_all (\<lambda>c. uri_char c \<and> c \<noteq> ch_sp) (bytes_of ''a/../b?x=%20'')" "is_digit 0x31"
    by (simp_all add: bytes_of_def method_char_def uri_char_def is_digit_def)
  have "method_code (bytes_of ''GET'') NGX_HTTP_UNKNOWN = NGX_HTTP_GET"
    by (simp add: method_code_def bytes_of_def)
  then show ?thesis
    using request_line_exact [OF h(1-3) _ _ h(4), where maj = "0x31" and rest = "[]"] h by (simp add: bytes_of_def) blast
qed

text \<open>
  The version numbers are kept in 16 bits and not checked for overflow: a request for the
  version 65537.65537 is taken for version 1.1.
\<close>

theorem request_line_version_wraps:
  "case ngx_http_parse_request_line rl_start new_request
       (bytes_of ''GET / HTTP/65537.65537'' @ [LF]) 0 of
     Done rc r p \<Rightarrow> rc = NGX_OK \<and> http_version r = 1001 | _ \<Rightarrow> False"
  by code_simp

end
