(* ===== verification/Ngx_Header_Line.thy ===== *)
theory Ngx_Header_Line
  imports Ngx_Scan Ngx_String
begin

text \<open>
  The header line parser, \<^verbatim>\<open>ngx_http_parse_header_line\<close> of \<^verbatim>\<open>ngx_http_parse.c\<close>, that reads the request
  headers of clients and the response headers of upstream servers. The local variables \<^verbatim>\<open>state\<close>,
  \<^verbatim>\<open>hash\<close> and \<^verbatim>\<open>i\<close>, saved in the request on \<^verbatim>\<open>NGX_AGAIN\<close>, are the state of the loop.
\<close>

section \<open>The parser\<close>

definition NGX_HTTP_PARSE_HEADER_DONE :: int where "NGX_HTTP_PARSE_HEADER_DONE = 1"
definition NGX_HTTP_PARSE_INVALID_HEADER :: int where "NGX_HTTP_PARSE_INVALID_HEADER = 13"
definition NGX_HTTP_LC_HEADER_LEN :: nat where "NGX_HTTP_LC_HEADER_LEN = 32"

definition ngx_hash :: "u64 \<Rightarrow> u_char \<Rightarrow> u64" where
  "ngx_hash key c = key * 31 + ucast c"

definition lowcase :: bytes where
  "lowcase = replicate 45 0 @ [ch_minus] @ replicate 2 0 @ bytes_of ''0123456789'' @ replicate 6 0
     @ [0] @ bytes_of ''abcdefghijklmnopqrstuvwxyz'' @ replicate 5 0
     @ [0] @ bytes_of ''abcdefghijklmnopqrstuvwxyz'' @ replicate 5 0
     @ replicate 128 0"

datatype hl_state = hl_start | hl_name | hl_space_before_value | hl_value | hl_space_after_value
  | hl_ignore_line | hl_almost_done | hl_header_almost_done

datatype hl_label = hl_done | hl_header_done

text \<open>The local variables of the loop and the fields of the request it writes.\<close>

record hl_local =
  hl_sw :: hl_state
  hl_hash :: u64
  hl_i :: nat

record header_request =
  upstream :: bool
  invalid_header :: bool
  header_hash :: u64
  lowcase_index :: nat
  lowcase_header :: bytes
  header_name_start :: "nat option"
  header_name_end :: "nat option"
  header_start :: "nat option"
  header_end :: "nat option"

type_synonym hl_act = "(hl_local, hl_label, header_request) act"

abbreviation invalid_line :: "header_request \<Rightarrow> hl_act" where
  "invalid_line r \<equiv> Ret NGX_HTTP_PARSE_INVALID_HEADER r"

definition hl_do_start ::
    "bool \<Rightarrow> nat \<Rightarrow> u_char \<Rightarrow> hl_local \<Rightarrow> header_request \<Rightarrow> hl_act" where
  "hl_do_start allow_underscores p ch s r =
     (let r = r\<lparr>header_name_start := Some p, invalid_header := False\<rparr> in
      if ch = CR then Next (s\<lparr>hl_sw := hl_header_almost_done\<rparr>) (r\<lparr>header_end := Some p\<rparr>)
      else if ch = LF then Goto hl_header_done s (r\<lparr>header_end := Some p\<rparr>)
      else
        (let s = s\<lparr>hl_sw := hl_name\<rparr>; c = lowcase ! unat ch in
         if c \<noteq> 0 then
           Next (s\<lparr>hl_hash := ngx_hash 0 c, hl_i := 1\<rparr>)
             (r\<lparr>lowcase_header := (lowcase_header r)[0 := c]\<rparr>)
         else if ch = ch_under then
           if allow_underscores then
             Next (s\<lparr>hl_hash := ngx_hash 0 ch, hl_i := 1\<rparr>)
               (r\<lparr>lowcase_header := (lowcase_header r)[0 := ch]\<rparr>)
           else Next s (r\<lparr>invalid_header := True\<rparr>)
         else if ch = 0 then invalid_line r
         else Next s (r\<lparr>invalid_header := True\<rparr>)))"

text \<open>Storing a character of the name; a write outside the array is undefined.\<close>

definition hl_store :: "u_char \<Rightarrow> hl_local \<Rightarrow> header_request \<Rightarrow> hl_act" where
  "hl_store c s r =
     (if hl_i s < length (lowcase_header r) then
        Next (s\<lparr>hl_hash := ngx_hash (hl_hash s) c,
                 hl_i := (hl_i s + 1) mod NGX_HTTP_LC_HEADER_LEN\<rparr>)
          (r\<lparr>lowcase_header := (lowcase_header r)[hl_i s := c]\<rparr>)
      else Undef)"

definition hl_do_name ::
    "bool \<Rightarrow> bytes \<Rightarrow> u_char \<Rightarrow> hl_local \<Rightarrow> header_request \<Rightarrow> hl_act" where
  "hl_do_name allow_underscores seen ch s r =
     (let p = length seen; c = lowcase ! unat ch in
      if c \<noteq> 0 then hl_store c s r
      else if ch = ch_under then
        if allow_underscores then hl_store ch s r else Next s (r\<lparr>invalid_header := True\<rparr>)
      else if ch = ch_colon then
        Next (s\<lparr>hl_sw := hl_space_before_value\<rparr>) (r\<lparr>header_name_end := Some p\<rparr>)
      else if ch = CR then
        Next (s\<lparr>hl_sw := hl_almost_done\<rparr>)
          (r\<lparr>header_name_end := Some p, header_start := Some p, header_end := Some p\<rparr>)
      else if ch = LF then
        Goto hl_done s (r\<lparr>header_name_end := Some p, header_start := Some p, header_end := Some p\<rparr>)
      else if ch = ch_slash \<and> upstream r
        \<and> (\<exists>n\<in>set_option (header_name_start r). n + 4 = p \<and> sub_buf seen n p = bytes_of ''HTTP'')
      then Next (s\<lparr>hl_sw := hl_ignore_line\<rparr>) r
      else if ch = 0 then invalid_line r
      else Next s (r\<lparr>invalid_header := True\<rparr>))"

definition hl_do_space_before_value :: "nat \<Rightarrow> u_char \<Rightarrow> hl_local \<Rightarrow> header_request \<Rightarrow> hl_act" where
  "hl_do_space_before_value p ch s r =
     (if ch = ch_sp then Next s r
      else if ch = CR then
        Next (s\<lparr>hl_sw := hl_almost_done\<rparr>) (r\<lparr>header_start := Some p, header_end := Some p\<rparr>)
      else if ch = LF then Goto hl_done s (r\<lparr>header_start := Some p, header_end := Some p\<rparr>)
      else if ch = 0 then invalid_line r
      else Next (s\<lparr>hl_sw := hl_value\<rparr>) (r\<lparr>header_start := Some p\<rparr>))"

definition hl_do_value :: "nat \<Rightarrow> u_char \<Rightarrow> hl_local \<Rightarrow> header_request \<Rightarrow> hl_act" where
  "hl_do_value p ch s r =
     (if ch = ch_sp then Next (s\<lparr>hl_sw := hl_space_after_value\<rparr>) (r\<lparr>header_end := Some p\<rparr>)
      else if ch = CR then Next (s\<lparr>hl_sw := hl_almost_done\<rparr>) (r\<lparr>header_end := Some p\<rparr>)
      else if ch = LF then Goto hl_done s (r\<lparr>header_end := Some p\<rparr>)
      else if ch = 0 then invalid_line r
      else Next s r)"

definition hl_do_space_after_value :: "u_char \<Rightarrow> hl_local \<Rightarrow> header_request \<Rightarrow> hl_act" where
  "hl_do_space_after_value ch s r =
     (if ch = ch_sp then Next s r
      else if ch = CR then Next (s\<lparr>hl_sw := hl_almost_done\<rparr>) r
      else if ch = LF then Goto hl_done s r
      else if ch = 0 then invalid_line r
      else Next (s\<lparr>hl_sw := hl_value\<rparr>) r)"

definition hl_do_ignore_line :: "u_char \<Rightarrow> hl_local \<Rightarrow> header_request \<Rightarrow> hl_act" where
  "hl_do_ignore_line ch s r =
     (if ch = LF then Next (s\<lparr>hl_sw := hl_start\<rparr>) r else Next s r)"

definition hl_do_almost_done :: "u_char \<Rightarrow> hl_local \<Rightarrow> header_request \<Rightarrow> hl_act" where
  "hl_do_almost_done ch s r =
     (if ch = LF then Goto hl_done s r
      else if ch = CR then Next s r
      else invalid_line r)"

definition hl_do_header_almost_done :: "u_char \<Rightarrow> hl_local \<Rightarrow> header_request \<Rightarrow> hl_act" where
  "hl_do_header_almost_done ch s r =
     (if ch = LF then Goto hl_header_done s r else invalid_line r)"

definition hl_step ::
    "bool \<Rightarrow> bytes \<Rightarrow> u_char \<Rightarrow> hl_local \<Rightarrow> header_request \<Rightarrow> hl_act" where
  "hl_step allow_underscores seen ch s r =
     (case hl_sw s of
        hl_start \<Rightarrow> hl_do_start allow_underscores (length seen) ch s r
      | hl_name \<Rightarrow> hl_do_name allow_underscores seen ch s r
      | hl_space_before_value \<Rightarrow> hl_do_space_before_value (length seen) ch s r
      | hl_value \<Rightarrow> hl_do_value (length seen) ch s r
      | hl_space_after_value \<Rightarrow> hl_do_space_after_value ch s r
      | hl_ignore_line \<Rightarrow> hl_do_ignore_line ch s r
      | hl_almost_done \<Rightarrow> hl_do_almost_done ch s r
      | hl_header_almost_done \<Rightarrow> hl_do_header_almost_done ch s r)"

text \<open>The code behind the two labels; only \<^verbatim>\<open>done\<close> stores the hash and the index.\<close>

fun hl_fin :: "hl_label \<Rightarrow> hl_local \<Rightarrow> header_request \<Rightarrow> nat \<Rightarrow> int \<times> header_request" where
  "hl_fin hl_done s r p = (NGX_OK, r\<lparr>header_hash := hl_hash s, lowcase_index := hl_i s\<rparr>)"
| "hl_fin hl_header_done s r p = (NGX_HTTP_PARSE_HEADER_DONE, r)"

definition ngx_http_parse_header_line ::
    "bool \<Rightarrow> hl_local \<Rightarrow> header_request \<Rightarrow> bytes \<Rightarrow> nat \<Rightarrow> (hl_local, header_request) result" where
  "ngx_http_parse_header_line allow_underscores = scan_parse (hl_step allow_underscores) hl_fin"

section \<open>What the parser establishes\<close>

definition name_char :: "bool \<Rightarrow> u_char \<Rightarrow> bool" where
  "name_char und c \<longleftrightarrow> lowcase ! unat c \<noteq> 0 \<or> und \<and> c = ch_under"

definition line_char :: "u_char \<Rightarrow> bool" where
  "line_char c \<longleftrightarrow> c \<noteq> CR \<and> c \<noteq> LF \<and> c \<noteq> 0"

text \<open>The hash and the lower-cased copy of a valid name.\<close>

definition name_hash :: "bytes \<Rightarrow> u64" where
  "name_hash name = foldl ngx_hash 0 (map ngx_tolower name)"

definition name_ok :: "bool \<Rightarrow> bytes \<Rightarrow> u64 \<Rightarrow> nat \<Rightarrow> bytes \<Rightarrow> bool" where
  "name_ok und name hash i lc \<longleftrightarrow>
     list_all (name_char und) name \<and> hash = name_hash name
     \<and> i = length name mod NGX_HTTP_LC_HEADER_LEN
     \<and> (length name \<le> NGX_HTTP_LC_HEADER_LEN \<longrightarrow> take (length name) lc = map ngx_tolower name)"

lemma lowcase_tolower: "lowcase ! unat c \<noteq> 0 \<Longrightarrow> lowcase ! unat c = ngx_tolower c"
proof -
  have "lowcase ! unat c \<noteq> 0 \<longrightarrow> lowcase ! unat c = ngx_tolower c"
    by (rule byte_all_I) code_simp
  then show "lowcase ! unat c \<noteq> 0 \<Longrightarrow> lowcase ! unat c = ngx_tolower c" by simp
qed

lemma lowcase_not: "lowcase ! unat ch_under = 0" "lowcase ! unat ch_colon = 0"
  "lowcase ! unat CR = 0" "lowcase ! unat LF = 0" "lowcase ! 0 = 0"
  by code_simp+

lemma tolower_under: "ngx_tolower ch_under = ch_under"
  by code_simp

text \<open>
  The name lies from \<open>ns\<close> to \<open>e\<close>; unless it was found invalid, its hash and copy are right.
\<close>

definition named ::
    "bool \<Rightarrow> bytes \<Rightarrow> nat option \<Rightarrow> nat \<Rightarrow> u64 \<Rightarrow> nat \<Rightarrow> bytes \<Rightarrow> bool \<Rightarrow> bool" where
  "named und buf ns e hash i lc bad \<longleftrightarrow>
     (\<exists>n. ns = Some n \<and> n < e \<and> e \<le> length buf \<and> list_all line_char (sub_buf buf n e)
        \<and> (\<not> bad \<longrightarrow> name_ok und (sub_buf buf n e) hash i lc))"

text \<open>The value lies from \<open>hs\<close> to \<open>h\<close>, trimmed of spaces on both sides.\<close>

definition valued :: "bytes \<Rightarrow> nat \<Rightarrow> nat option \<Rightarrow> nat option \<Rightarrow> bool" where
  "valued buf e hs he \<longleftrightarrow>
     (\<exists>v h. hs = Some v \<and> he = Some h \<and> e \<le> v \<and> v \<le> h \<and> h \<le> length buf
        \<and> list_all line_char (sub_buf buf v h)
        \<and> (v < h \<longrightarrow> buf ! v \<noteq> ch_sp \<and> buf ! (h - 1) \<noteq> ch_sp))"

definition in_value :: "bytes \<Rightarrow> nat \<Rightarrow> nat option \<Rightarrow> bool" where
  "in_value buf e hs \<longleftrightarrow>
     (\<exists>v. hs = Some v \<and> e \<le> v \<and> v < length buf \<and> list_all line_char (sub_buf buf v (length buf))
        \<and> buf ! v \<noteq> ch_sp)"

abbreviation hl_named :: "bool \<Rightarrow> bytes \<Rightarrow> nat \<Rightarrow> hl_local \<Rightarrow> header_request \<Rightarrow> bool" where
  "hl_named und buf e s r \<equiv>
     named und buf (header_name_start r) e (hl_hash s) (hl_i s) (lowcase_header r) (invalid_header r)"

definition hl_line :: "bool \<Rightarrow> bytes \<Rightarrow> hl_local \<Rightarrow> header_request \<Rightarrow> bool" where
  "hl_line und buf s r \<longleftrightarrow>
     (\<exists>e. header_name_end r = Some e \<and> hl_named und buf e s r
        \<and> valued buf e (header_start r) (header_end r))"

definition hl_inv :: "bool \<Rightarrow> bytes \<Rightarrow> hl_local \<Rightarrow> header_request \<Rightarrow> bool" where
  "hl_inv und buf s r \<longleftrightarrow> length (lowcase_header r) = 32 \<and> hl_i s < 32 \<and>
     (case hl_sw s of
        hl_start \<Rightarrow> True
      | hl_ignore_line \<Rightarrow> True
      | hl_name \<Rightarrow> hl_named und buf (length buf) s r
      | hl_space_before_value \<Rightarrow> (\<exists>e. header_name_end r = Some e \<and> hl_named und buf e s r)
      | hl_value \<Rightarrow>
          (\<exists>e. header_name_end r = Some e \<and> hl_named und buf e s r \<and> in_value buf e (header_start r)
             \<and> last buf \<noteq> ch_sp)
      | hl_space_after_value \<Rightarrow> hl_line und buf s r
          \<and> (\<exists>e. header_name_end r = Some e \<and> in_value buf e (header_start r))
      | hl_almost_done \<Rightarrow> hl_line und buf s r
      | hl_header_almost_done \<Rightarrow> (\<exists>h. header_end r = Some h \<and> h < length buf \<and> buf ! h = CR))"

definition hl_post :: "bool \<Rightarrow> hl_label \<Rightarrow> bytes \<Rightarrow> u_char \<Rightarrow> hl_local \<Rightarrow> header_request \<Rightarrow> bool" where
  "hl_post und l buf ch s r \<longleftrightarrow> ch = LF \<and>
     (case l of
        hl_done \<Rightarrow> hl_line und buf s r \<and> length (lowcase_header r) = 32 \<and> hl_i s < 32
      | hl_header_done \<Rightarrow> (\<exists>h. header_end r = Some h \<and> h \<le> length buf))"

lemma named_snoc [intro]:
  "named und buf ns e hash i lc bad \<Longrightarrow> named und (buf @ xs) ns e hash i lc bad"
  by (auto simp: named_def sub_buf_append)

lemma valued_snoc [intro]: "valued buf e hs he \<Longrightarrow> valued (buf @ xs) e hs he"
  by (fastforce simp: valued_def sub_buf_append nth_append)

lemma hl_line_snoc [intro]: "hl_line und buf s r \<Longrightarrow> hl_line und (buf @ xs) s r"
  by (auto simp: hl_line_def)

lemma hl_line_sw [simp]: "hl_line und buf (s\<lparr>hl_sw := x\<rparr>) r = hl_line und buf s r"
  by (simp add: hl_line_def)

lemma in_value_grow: "in_value buf e hs \<Longrightarrow> line_char c \<Longrightarrow> in_value (buf @ [c]) e hs"
  by (fastforce simp: in_value_def nth_append sub_buf_snoc)

lemma value_starts:
  "named und buf ns e hash i lc bad \<Longrightarrow> line_char c \<Longrightarrow> c \<noteq> ch_sp \<Longrightarrow>
     in_value (buf @ [c]) e (Some (length buf))"
  by (auto simp: named_def in_value_def sub_buf_def)

lemma value_ends:
  "in_value buf e hs \<Longrightarrow> last buf \<noteq> ch_sp \<Longrightarrow> valued buf e hs (Some (length buf))"
  by (cases "buf = []") (auto simp: valued_def in_value_def last_conv_nth)

lemma value_empty: "e \<le> length buf \<Longrightarrow> valued buf e (Some (length buf)) (Some (length buf))"
  by (simp add: valued_def sub_buf_def)

lemma named_le: "named und buf ns e hash i lc bad \<Longrightarrow> e \<le> length buf"
  by (auto simp: named_def)

text \<open>The name grows by a valid or an invalid character.\<close>

lemma name_ok_grow:
  assumes "name_ok und name hash i lc" "name_char und c" "d = ngx_tolower c" "length lc = 32"
  shows "name_ok und (name @ [c]) (ngx_hash hash d) (Suc i mod NGX_HTTP_LC_HEADER_LEN) (lc[i := d])"
proof -
  have "take (Suc (length name)) (lc[length name := d]) = take (length name) lc @ [d]"
    if "length name < 32"
    using that assms(4) by (simp add: take_Suc_conv_app_nth)
  with assms show ?thesis
    by (auto simp: name_ok_def name_hash_def NGX_HTTP_LC_HEADER_LEN_def mod_Suc_eq)
qed

lemma named_grow:
  assumes "named und buf ns (length buf) hash i lc bad" "name_char und c" "d = ngx_tolower c"
    "length lc = 32" "line_char c"
  shows "named und (buf @ [c]) ns (Suc (length buf)) (ngx_hash hash d)
    (Suc i mod NGX_HTTP_LC_HEADER_LEN) (lc[i := d]) bad"
  using assms by (auto simp: named_def sub_buf_snoc name_ok_grow)

lemma named_grow_bad:
  "named und buf ns (length buf) hash i lc bad \<Longrightarrow> line_char c \<Longrightarrow>
     named und (buf @ [c]) ns (Suc (length buf)) hash i lc True"
  by (auto simp: named_def sub_buf_snoc)

lemma named_first:
  assumes "name_char und c" "d = ngx_tolower c" "length lc = 32" "line_char c"
  shows "named und (buf @ [c]) (Some (length buf)) (Suc (length buf)) (ngx_hash 0 d) (Suc 0) (lc[0 := d]) False"
  using assms by (cases lc) (auto simp: named_def sub_buf_def name_ok_def name_hash_def NGX_HTTP_LC_HEADER_LEN_def)

lemma named_first_bad:
  "line_char c \<Longrightarrow> named und (buf @ [c]) (Some (length buf)) (Suc (length buf)) hash i lc True"
  by (auto simp: named_def sub_buf_def)

lemma name_char_line: "name_char und c \<Longrightarrow> line_char c"
  using lowcase_not by (auto simp: name_char_def line_char_def)

abbreviation hl_ok :: "bool \<Rightarrow> bytes \<Rightarrow> u_char \<Rightarrow> hl_act \<Rightarrow> bool" where
  "hl_ok und \<equiv> act_ok (hl_inv und) (hl_post und)"

lemma hl_start_ok:
  assumes "length (lowcase_header r) = 32" "hl_i s < 32"
  shows "hl_ok und buf ch (hl_do_start und (length buf) ch s r)"
proof -
  consider "ch = CR \<or> ch = LF \<or> ch = 0" | "line_char ch" "name_char und ch" | "line_char ch" "\<not> name_char und ch"
    by (auto simp: line_char_def)
  then show ?thesis
  proof cases
    case 1
    with assms show ?thesis
      by (auto simp: hl_do_start_def act hl_inv_def hl_post_def lowcase_not Let_def)
  next
    case 2
    with assms named_first [of und ch _ "lowcase_header r" buf] lowcase_tolower [of ch] tolower_under
    show ?thesis
      by (auto simp: hl_do_start_def act hl_inv_def line_char_def name_char_def Let_def)
  next
    case 3
    with assms named_first_bad [of ch und buf] show ?thesis
      by (auto simp: hl_do_start_def act hl_inv_def line_char_def name_char_def Let_def)
  qed
qed

lemma hl_name_ok:
  assumes inv: "hl_inv und buf s r" and sw: "hl_sw s = hl_name"
  shows "hl_ok und buf ch (hl_do_name und buf ch s r)"
proof -
  from inv sw have lc: "length (lowcase_header r) = 32" "hl_i s < 32"
    and n: "hl_named und buf (length buf) s r" by (simp_all add: hl_inv_def)
  show ?thesis
  proof (cases "name_char und ch")
    case True
    have "hl_ok und buf ch (hl_store (ngx_tolower ch) s r)"
      using lc sw named_grow [OF n True refl lc(1) name_char_line [OF True]]
      by (simp add: hl_store_def act hl_inv_def NGX_HTTP_LC_HEADER_LEN_def)
    with True lowcase_tolower [of ch] show ?thesis
      by (auto simp: hl_do_name_def Let_def name_char_def tolower_under)
  next
    case False
    note n' = n [THEN named_snoc, of "[ch]"]
    have line: "hl_line und buf s (r\<lparr>header_name_end := Some (length buf), header_start := Some (length buf),
        header_end := Some (length buf)\<rparr>)"
      using n by (simp add: hl_line_def value_empty)
    show ?thesis
    proof (cases "line_char ch")
      case True
      with False lc sw n' named_grow_bad [OF n True] show ?thesis
        by (auto simp: hl_do_name_def Let_def act hl_inv_def name_char_def line_char_def)
    next
      case bad: False
      with False lc sw line hl_line_snoc [OF line, of "[ch]"] show ?thesis
        by (auto simp: hl_do_name_def Let_def act hl_inv_def hl_post_def name_char_def line_char_def lowcase_not)
    qed
  qed
qed

lemma hl_value_ok:
  assumes "hl_inv und buf s r"
  shows "hl_sw s = hl_space_before_value \<Longrightarrow> hl_ok und buf ch (hl_do_space_before_value (length buf) ch s r)"
    and "hl_sw s = hl_value \<Longrightarrow> hl_ok und buf ch (hl_do_value (length buf) ch s r)"
    and "hl_sw s = hl_space_after_value \<Longrightarrow> hl_ok und buf ch (hl_do_space_after_value ch s r)"
  using assms
  by (auto simp: hl_do_space_before_value_def hl_do_value_def hl_do_space_after_value_def act hl_inv_def
      hl_post_def hl_line_def line_char_def value_empty named_le value_starts value_ends in_value_grow
      intro!: valued_snoc)

lemma hl_end_ok:
  assumes "hl_inv und buf s r"
  shows "hl_sw s = hl_ignore_line \<Longrightarrow> hl_ok und buf ch (hl_do_ignore_line ch s r)"
    and "hl_sw s = hl_almost_done \<Longrightarrow> hl_ok und buf ch (hl_do_almost_done ch s r)"
    and "hl_sw s = hl_header_almost_done \<Longrightarrow> hl_ok und buf ch (hl_do_header_almost_done ch s r)"
  using assms
  by (auto simp: hl_do_ignore_line_def hl_do_almost_done_def hl_do_header_almost_done_def act
      hl_inv_def hl_post_def)

interpretation hl: parser "hl_step und" "hl_inv und" "hl_post und" for und
proof
  fix buf s r ch
  assume inv: "hl_inv und buf s r"
  then have "length (lowcase_header r) = 32" "hl_i s < 32" by (simp_all add: hl_inv_def)
  with inv show "hl_ok und buf ch (hl_step und buf ch s r)"
    by (cases "hl_sw s") (simp_all add: hl_step_def hl_start_ok hl_name_ok hl_value_ok hl_end_ok)
qed

section \<open>Theorems on header lines\<close>

text \<open>A request at the start of a header line, whatever earlier lines left in it.\<close>

definition fresh_line :: "hl_local \<Rightarrow> header_request \<Rightarrow> bool" where
  "fresh_line s r \<longleftrightarrow> hl_sw s = hl_start \<and> length (lowcase_header r) = NGX_HTTP_LC_HEADER_LEN
     \<and> hl_i s < NGX_HTTP_LC_HEADER_LEN"

text \<open>
  C4. A header line that is read: the name and the value lie in the buffer in order, hold no
  CR, LF or null byte, and the value is trimmed of spaces on both sides. Unless the name is
  marked invalid it consists of letters, digits, hyphens (and underscores if allowed), the
  hash is that of its lower-cased characters, and up to 32 characters the lower-cased copy is
  the name. The index into the copy stays in its bounds, and no input is undefined.
\<close>

theorem header_line_pointers:
  assumes "fresh_line s r"
  shows "case ngx_http_parse_header_line und s r buf pos of
     Done rc r' p \<Rightarrow> p \<le> length buf \<and> 0 < p \<and> buf ! (p - 1) = LF \<and>
       (rc = NGX_OK \<longrightarrow>
        (\<exists>n e v h. header_name_start r' = Some n \<and> header_name_end r' = Some e
           \<and> header_start r' = Some v \<and> header_end r' = Some h
           \<and> n < e \<and> e \<le> v \<and> v \<le> h \<and> h < p
           \<and> list_all line_char (sub_buf buf n e) \<and> list_all line_char (sub_buf buf v h)
           \<and> (v < h \<longrightarrow> buf ! v \<noteq> ch_sp \<and> buf ! (h - 1) \<noteq> ch_sp)
           \<and> (invalid_header r' \<or>
               name_ok und (sub_buf buf n e) (header_hash r') (lowcase_index r') (lowcase_header r'))))
   | Again s' r' p \<Rightarrow> p = length buf \<and> hl_i s' < NGX_HTTP_LC_HEADER_LEN
   | Failed rc r' \<Rightarrow> True
   | Undef_behaviour \<Rightarrow> False"
proof -
  let ?parse = "scan_parse (hl_step und) hl_fin s r buf pos"
  have inv: "hl_inv und (take pos buf) s r"
    using assms by (simp add: fresh_line_def hl_inv_def NGX_HTTP_LC_HEADER_LEN_def)
  show ?thesis
  proof (cases ?parse)
    case (Done rc r' p)
    with inv obtain l s2 r2 q where q: "q < length buf" "p = q + 1"
      and r: "hl_fin l s2 r2 q = (rc, r')" and post: "hl_post und l (take q buf) (buf ! q) s2 r2"
      by (rule hl.done_post)
    show ?thesis
    proof (cases l)
      case hl_done
      with r have r': "r' = r2\<lparr>header_hash := hl_hash s2, lowcase_index := hl_i s2\<rparr>" by simp
      from hl_done post obtain e where "header_name_end r2 = Some e" "hl_named und (take q buf) e s2 r2"
        "valued (take q buf) e (header_start r2) (header_end r2)"
        by (auto simp: hl_post_def hl_line_def)
      with q Done r' post show ?thesis
        by (fastforce simp: ngx_http_parse_header_line_def hl_post_def named_def valued_def sub_buf_take)
    next
      case hl_header_done
      with r q Done post show ?thesis
        by (auto simp: ngx_http_parse_header_line_def hl_post_def rc_defs NGX_HTTP_PARSE_HEADER_DONE_def)
    qed
  next
    case (Again s' r' p)
    then show ?thesis using hl.again_inv [OF inv]
      by (fastforce simp: ngx_http_parse_header_line_def hl_inv_def NGX_HTTP_LC_HEADER_LEN_def)
  qed (use hl.defined [OF inv, of hl_fin] in \<open>simp_all add: ngx_http_parse_header_line_def\<close>)
qed

definition new_header_request :: header_request where
  "new_header_request = \<lparr> upstream = False, invalid_header = False, header_hash = 0,
     lowcase_index = 0, lowcase_header = replicate NGX_HTTP_LC_HEADER_LEN 0,
     header_name_start = None, header_name_end = None, header_start = None, header_end = None \<rparr>"

definition new_header_local :: hl_local where
  "new_header_local = \<lparr> hl_sw = hl_start, hl_hash = 0, hl_i = 0 \<rparr>"

lemma fresh_new: "fresh_line new_header_local new_header_request"
  by (simp add: fresh_line_def new_header_local_def new_header_request_def NGX_HTTP_LC_HEADER_LEN_def)

theorem header_line_pointers_witness:
  "fresh_line new_header_local new_header_request \<and>
   (case ngx_http_parse_header_line False new_header_local new_header_request (bytes_of ''Host: a '' @ [CR, LF]) 0 of
      Done rc r p \<Rightarrow> p \<le> 10 \<and> header_start r = Some 6 \<and> header_end r = Some 7
    | _ \<Rightarrow> False)"
proof -
  have "case ngx_http_parse_header_line False new_header_local new_header_request (bytes_of ''Host: a '' @ [CR, LF]) 0 of
      Done rc r p \<Rightarrow> header_start r = Some 6 \<and> header_end r = Some 7 | _ \<Rightarrow> False"
    by code_simp
  then show ?thesis
    using header_line_pointers [OF fresh_new, where und = False and buf = "bytes_of ''Host: a '' @ [CR, LF]" and pos = 0] fresh_new
    by (simp add: bytes_of_def split: result.splits)
qed

section \<open>A header line is read exactly\<close>

text \<open>Reading a valid name.\<close>

lemma hl_name_run:
  assumes "list_all (name_char und) xs" "hl_sw s = hl_name" "hl_inv und seen s r"
  shows "\<exists>s' r'. scan (hl_step und) s r seen (xs @ ys) = scan (hl_step und) s' r' (seen @ xs) ys
    \<and> hl_sw s' = hl_name \<and> hl_inv und (seen @ xs) s' r' \<and> invalid_header r' = invalid_header r
    \<and> header_name_start r' = header_name_start r"
  using assms
proof (induction xs arbitrary: s r seen)
  case (Cons c xs)
  have c: "name_char und c" and lc: "length (lowcase_header r) = 32" "hl_i s < 32"
    using Cons.prems by (simp_all add: hl_inv_def)
  then have store: "hl_step und seen c s r = hl_store (ngx_tolower c) s r"
    using Cons.prems(2) lowcase_tolower [of c]
    by (auto simp: hl_step_def hl_do_name_def Let_def name_char_def tolower_under)
  let ?s = "s\<lparr>hl_hash := ngx_hash (hl_hash s) (ngx_tolower c), hl_i := (hl_i s + 1) mod 32\<rparr>"
  let ?r = "r\<lparr>lowcase_header := (lowcase_header r)[hl_i s := ngx_tolower c]\<rparr>"
  have step: "hl_step und seen c s r = Next ?s ?r"
    using store lc by (simp add: hl_store_def NGX_HTTP_LC_HEADER_LEN_def)
  with hl.step_ok [OF Cons.prems(3), of c] have "hl_inv und (seen @ [c]) ?s ?r" by (simp add: act)
  with Cons.IH [of ?s "seen @ [c]" ?r] Cons.prems step show ?case by simp
qed auto

text \<open>Reading a value; it ends in state \<open>hl_value\<close> when the last character is not a space.\<close>

definition hl_keeps :: "header_request \<Rightarrow> header_request \<Rightarrow> bool" where
  "hl_keeps r r' \<longleftrightarrow> header_name_start r' = header_name_start r \<and> header_name_end r' = header_name_end r
     \<and> header_start r' = header_start r \<and> invalid_header r' = invalid_header r"

lemma hl_value_step:
  assumes "line_char c" "hl_sw s \<in> {hl_value, hl_space_after_value}"
  shows "\<exists>s' r'. hl_step und seen c s r = Next s' r' \<and> hl_keeps r r'
    \<and> hl_sw s' \<in> {hl_value, hl_space_after_value} \<and> (c \<noteq> ch_sp \<longrightarrow> hl_sw s' = hl_value)"
  using assms
  by (cases "c = ch_sp")
    (auto simp: hl_step_def hl_do_value_def hl_do_space_after_value_def line_char_def hl_keeps_def)

lemma hl_value_run:
  assumes "list_all line_char xs" "hl_sw s \<in> {hl_value, hl_space_after_value}"
    "xs \<noteq> [] \<or> hl_sw s = hl_value" "xs \<noteq> [] \<longrightarrow> last xs \<noteq> ch_sp"
  shows "\<exists>s' r'. scan (hl_step und) s r seen (xs @ ys) = scan (hl_step und) s' r' (seen @ xs) ys
    \<and> hl_sw s' = hl_value \<and> hl_keeps r r'"
  using assms
proof (induction xs arbitrary: s r seen)
  case (Cons c xs)
  obtain s1 r1 where step: "hl_step und seen c s r = Next s1 r1" and k: "hl_keeps r r1"
    and sw: "hl_sw s1 \<in> {hl_value, hl_space_after_value}" "c \<noteq> ch_sp \<Longrightarrow> hl_sw s1 = hl_value"
    using hl_value_step [of c s und seen r] Cons.prems(1,2) by auto
  have "xs \<noteq> [] \<or> hl_sw s1 = hl_value" using Cons.prems(4) sw(2) by (cases xs) auto
  moreover have "xs \<noteq> [] \<longrightarrow> last xs \<noteq> ch_sp" using Cons.prems(4) by (auto split: if_splits)
  ultimately obtain s' r' where
    "scan (hl_step und) s1 r1 (seen @ [c]) (xs @ ys) = scan (hl_step und) s' r' (seen @ c # xs) ys"
    "hl_sw s' = hl_value" "hl_keeps r1 r'"
    using Cons.IH [of s1 r1 "seen @ [c]"] Cons.prems(1) sw(1) by auto
  with step k show ?case by (auto simp: hl_keeps_def)
qed (auto simp: hl_keeps_def)

lemma hl_first_char:
  assumes "fresh_line s r" "name_char und c"
  shows "\<exists>s' r'. hl_step und seen c s r = Next s' r' \<and> hl_sw s' = hl_name \<and> \<not> invalid_header r'
    \<and> header_name_start r' = Some (length seen) \<and> hl_inv und (seen @ [c]) s' r'"
proof -
  have sw: "hl_sw s = hl_start" and inv: "hl_inv und seen s r"
    using assms(1) by (simp_all add: fresh_line_def hl_inv_def NGX_HTTP_LC_HEADER_LEN_def)
  have "line_char c" using assms(2) by (rule name_char_line)
  with sw assms(2) have "\<exists>s' r'. hl_step und seen c s r = Next s' r' \<and> hl_sw s' = hl_name
    \<and> \<not> invalid_header r' \<and> header_name_start r' = Some (length seen)"
    by (cases "lowcase ! unat c = 0")
      (auto simp: hl_step_def hl_do_start_def Let_def name_char_def line_char_def)
  then obtain s' r' where "hl_step und seen c s r = Next s' r'" "hl_sw s' = hl_name"
    "\<not> invalid_header r'" "header_name_start r' = Some (length seen)" by blast
  moreover from this hl.step_ok [OF inv, of c] have "hl_inv und (seen @ [c]) s' r'" by (simp add: act)
  ultimately show ?thesis by blast
qed

text \<open>
  C3. A well-formed header line is read exactly: from any request at the start of a line, for
  every valid name and every value without CR, LF and null that neither starts nor ends with
  a space, the parser returns \<^verbatim>\<open>NGX_OK\<close> behind the line feed, whatever follows, with the
  pointers around the name and the value and the name not marked invalid.
\<close>

theorem header_line_exact:
  assumes fresh: "fresh_line s r" and name: "name \<noteq> []" "list_all (name_char und) name"
    and val: "val \<noteq> []" "list_all line_char val" "hd val \<noteq> ch_sp" "last val \<noteq> ch_sp"
  shows "\<exists>r'. ngx_http_parse_header_line und s r (pre @ name @ [ch_colon, ch_sp] @ val @ [CR, LF] @ rest)
        (length pre)
      = Done NGX_OK r' (length pre + length name + length val + 4)
    \<and> header_name_start r' = Some (length pre)
    \<and> header_name_end r' = Some (length pre + length name)
    \<and> header_start r' = Some (length pre + length name + 2)
    \<and> header_end r' = Some (length pre + length name + 2 + length val) \<and> \<not> invalid_header r'"
proof -
  obtain c name' where n: "name = c # name'" using name(1) by (cases name) auto
  obtain d val' where v: "val = d # val'" using val(1) by (cases val) auto
  let ?t2 = "[CR, LF] @ rest" let ?t1 = "[ch_colon, ch_sp] @ val @ ?t2"
  obtain s1 r1 where 1: "hl_step und pre c s r = Next s1 r1" "hl_sw s1 = hl_name"
    "\<not> invalid_header r1" "header_name_start r1 = Some (length pre)" "hl_inv und (pre @ [c]) s1 r1"
    using hl_first_char [OF fresh, of und c pre] name(2) n by auto
  obtain s2 r2 where 2: "scan (hl_step und) s1 r1 (pre @ [c]) (name' @ ?t1)
      = scan (hl_step und) s2 r2 (pre @ name) ?t1" "hl_sw s2 = hl_name" "\<not> invalid_header r2"
    "header_name_start r2 = Some (length pre)"
    using hl_name_run [of und name' s1 "pre @ [c]" r1 ?t1] 1 name(2) n by auto
  let ?s3 = "s2\<lparr>hl_sw := hl_value\<rparr>"
  let ?r3 = "r2\<lparr>header_name_end := Some (length pre + length name),
    header_start := Some (length pre + length name + 2)\<rparr>"
  have d: "line_char d" "d \<noteq> ch_sp" using val v by auto
  have 3: "scan (hl_step und) s2 r2 (pre @ name) ?t1
      = scan (hl_step und) ?s3 ?r3 (pre @ name @ [ch_colon, ch_sp, d]) (val' @ ?t2)"
    using 2(2) d v lowcase_not
    by (simp add: hl_step_def hl_do_name_def hl_do_space_before_value_def line_char_def)
  have "val' \<noteq> [] \<longrightarrow> last val' \<noteq> ch_sp" using val(4) v by auto
  then obtain s4 r4 where 4: "scan (hl_step und) ?s3 ?r3 (pre @ name @ [ch_colon, ch_sp, d]) (val' @ ?t2)
      = scan (hl_step und) s4 r4 (pre @ name @ [ch_colon, ch_sp] @ val) ?t2"
    "hl_sw s4 = hl_value" "hl_keeps ?r3 r4"
    using hl_value_run [of val' ?s3 und ?r3 "pre @ name @ [ch_colon, ch_sp, d]" ?t2] val v by auto
  have 5: "scan (hl_step und) s4 r4 (pre @ name @ [ch_colon, ch_sp] @ val) ?t2
      = Jumped hl_done (s4\<lparr>hl_sw := hl_almost_done\<rparr>)
          (r4\<lparr>header_end := Some (length pre + length name + 2 + length val)\<rparr>)
          (length pre + length name + length val + 3)"
    using 4(2) by (simp add: hl_step_def hl_do_value_def hl_do_almost_done_def)
  have "scan (hl_step und) s r pre (name @ ?t1) = scan (hl_step und) s4 r4 (pre @ name @ [ch_colon, ch_sp] @ val) ?t2"
    using 1(1) 2(1) 3 4(1) n by simp
  with 2 4(3) 5 show ?thesis
    by (simp add: ngx_http_parse_header_line_def scan_parse_def hl_keeps_def)
qed

theorem header_line_exact_witness:
  "fresh_line new_header_local new_header_request \<and>
   (\<exists>r'. ngx_http_parse_header_line False new_header_local new_header_request
      ([] @ bytes_of ''Host'' @ [ch_colon, ch_sp] @ bytes_of ''a b'' @ [CR, LF] @ []) (length ([] :: bytes))
     = Done NGX_OK r' 11 \<and> header_start r' = Some 6 \<and> header_end r' = Some 9)"
proof -
  have h: "bytes_of ''Host'' \<noteq> []" "list_all (name_char False) (bytes_of ''Host'')"
    "bytes_of ''a b'' \<noteq> []" "list_all line_char (bytes_of ''a b'')" "hd (bytes_of ''a b'') \<noteq> ch_sp"
    "last (bytes_of ''a b'') \<noteq> ch_sp"
    by code_simp+
  from header_line_exact [OF fresh_new h, of "[]" "[]"] fresh_new show ?thesis
    by (auto simp: bytes_of_def)
qed

end
