(* ===== verification/Ngx_Status_Line.thy ===== *)
theory Ngx_Status_Line
  imports Ngx_Scan
begin

text \<open>
  The parser of the status line of upstream responses, \<^verbatim>\<open>ngx_http_parse_status_line\<close> of
  \<^verbatim>\<open>ngx_http_parse.c\<close>.
\<close>

section \<open>The parser\<close>

datatype sl_state = sl_start | sl_H | sl_HT | sl_HTT | sl_HTTP | sl_first_major_digit | sl_major_digit
  | sl_first_minor_digit | sl_minor_digit | sl_status | sl_space_after_status | sl_status_text
  | sl_almost_done

text \<open>
  The fields of \<^verbatim>\<open>ngx_http_status_t\<close> and the version fields of the request. The code and the
  count are natural numbers: they stay below 1000 and 4.
\<close>

record status_line =
  sl_http_major :: "16 word"
  sl_http_minor :: "16 word"
  sl_http_version :: nat
  sl_code :: nat
  sl_count :: nat
  sl_text_start :: "nat option"
  sl_text_end :: "nat option"

type_synonym sl_act = "(sl_state, unit, status_line) act"

abbreviation sl_error :: "status_line \<Rightarrow> sl_act" where
  "sl_error r \<equiv> Ret NGX_ERROR r"

definition sl_digit :: "u_char \<Rightarrow> 16 word" where
  "sl_digit ch = ucast ch - 0x30"

definition sl_expect :: "u_char \<Rightarrow> sl_state \<Rightarrow> u_char \<Rightarrow> status_line \<Rightarrow> sl_act" where
  "sl_expect c s ch r = (if ch = c then Next s r else sl_error r)"

definition sl_do_first_major_digit :: "u_char \<Rightarrow> status_line \<Rightarrow> sl_act" where
  "sl_do_first_major_digit ch r =
     (if ch < ch_1 \<or> ch > ch_9 then sl_error r
      else Next sl_major_digit (r\<lparr>sl_http_major := sl_digit ch\<rparr>))"

definition sl_do_major_digit :: "u_char \<Rightarrow> status_line \<Rightarrow> sl_act" where
  "sl_do_major_digit ch r =
     (if ch = ch_dot then Next sl_first_minor_digit r
      else if ch < ch_0 \<or> ch > ch_9 then sl_error r
      else Next sl_major_digit (r\<lparr>sl_http_major := sl_http_major r * 10 + sl_digit ch\<rparr>))"

definition sl_do_first_minor_digit :: "u_char \<Rightarrow> status_line \<Rightarrow> sl_act" where
  "sl_do_first_minor_digit ch r =
     (if ch < ch_0 \<or> ch > ch_9 then sl_error r
      else Next sl_minor_digit (r\<lparr>sl_http_minor := sl_digit ch\<rparr>))"

definition sl_do_minor_digit :: "u_char \<Rightarrow> status_line \<Rightarrow> sl_act" where
  "sl_do_minor_digit ch r =
     (if ch = ch_sp then Next sl_status r
      else if ch < ch_0 \<or> ch > ch_9 then sl_error r
      else Next sl_minor_digit (r\<lparr>sl_http_minor := sl_http_minor r * 10 + sl_digit ch\<rparr>))"

text \<open>The third digit ends the code; the text is taken to start two characters before it.\<close>

definition sl_do_status :: "nat \<Rightarrow> u_char \<Rightarrow> status_line \<Rightarrow> sl_act" where
  "sl_do_status p ch r =
     (if ch = ch_sp then Next sl_status r
      else if ch < ch_0 \<or> ch > ch_9 then sl_error r
      else
        (let r = r\<lparr>sl_code := sl_code r * 10 + (unat ch - 0x30), sl_count := Suc (sl_count r)\<rparr> in
         if sl_count r = 3 then
           if p < 2 then Undef
           else Next sl_space_after_status (r\<lparr>sl_text_start := Some (p - 2)\<rparr>)
         else Next sl_status r))"

definition sl_do_space_after_status :: "u_char \<Rightarrow> status_line \<Rightarrow> sl_act" where
  "sl_do_space_after_status ch r =
     (if ch = ch_sp then Next sl_status_text r
      else if ch = ch_dot then Next sl_status_text r
      else if ch = CR then Next sl_almost_done r
      else if ch = LF then Goto () sl_space_after_status r
      else sl_error r)"

definition sl_do_status_text :: "u_char \<Rightarrow> status_line \<Rightarrow> sl_act" where
  "sl_do_status_text ch r =
     (if ch = CR then Next sl_almost_done r
      else if ch = LF then Goto () sl_status_text r
      else Next sl_status_text r)"

definition sl_do_almost_done :: "nat \<Rightarrow> u_char \<Rightarrow> status_line \<Rightarrow> sl_act" where
  "sl_do_almost_done p ch r =
     (let r = r\<lparr>sl_text_end := Some (p - 1)\<rparr> in
      if ch = LF then Goto () sl_almost_done r else sl_error r)"

fun sl_step :: "bytes \<Rightarrow> u_char \<Rightarrow> sl_state \<Rightarrow> status_line \<Rightarrow> sl_act" where
  "sl_step seen ch sl_start r = sl_expect 0x48 sl_H ch r"
| "sl_step seen ch sl_H r = sl_expect 0x54 sl_HT ch r"
| "sl_step seen ch sl_HT r = sl_expect 0x54 sl_HTT ch r"
| "sl_step seen ch sl_HTT r = sl_expect 0x50 sl_HTTP ch r"
| "sl_step seen ch sl_HTTP r = sl_expect ch_slash sl_first_major_digit ch r"
| "sl_step seen ch sl_first_major_digit r = sl_do_first_major_digit ch r"
| "sl_step seen ch sl_major_digit r = sl_do_major_digit ch r"
| "sl_step seen ch sl_first_minor_digit r = sl_do_first_minor_digit ch r"
| "sl_step seen ch sl_minor_digit r = sl_do_minor_digit ch r"
| "sl_step seen ch sl_status r = sl_do_status (length seen) ch r"
| "sl_step seen ch sl_space_after_status r = sl_do_space_after_status ch r"
| "sl_step seen ch sl_status_text r = sl_do_status_text ch r"
| "sl_step seen ch sl_almost_done r = sl_do_almost_done (length seen) ch r"

definition sl_done :: "unit \<Rightarrow> sl_state \<Rightarrow> status_line \<Rightarrow> nat \<Rightarrow> int \<times> status_line" where
  "sl_done l s r p =
     (let r = (if sl_text_end r = None then r\<lparr>sl_text_end := Some p\<rparr> else r) in
      (NGX_OK, r\<lparr>sl_http_version := unat (sl_http_major r) * 1000 + unat (sl_http_minor r)\<rparr>))"

definition ngx_http_parse_status_line ::
    "sl_state \<Rightarrow> status_line \<Rightarrow> bytes \<Rightarrow> nat \<Rightarrow> (sl_state, status_line) result" where
  "ngx_http_parse_status_line = scan_parse sl_step sl_done"

definition new_status :: status_line where
  "new_status = \<lparr> sl_http_major = 0, sl_http_minor = 0, sl_http_version = 0, sl_code = 0, sl_count = 0,
     sl_text_start = None, sl_text_end = None \<rparr>"

section \<open>What the parser establishes\<close>

text \<open>
  After the third digit the code is below 1000 and the text starts three characters before
  the end of what was read, or earlier.
\<close>

definition sl_coded :: "bytes \<Rightarrow> status_line \<Rightarrow> bool" where
  "sl_coded buf r \<longleftrightarrow> sl_count r = 3 \<and> sl_code r < 1000
     \<and> (\<exists>t. sl_text_start r = Some t \<and> t + 3 \<le> length buf)"

definition sl_inv :: "bytes \<Rightarrow> sl_state \<Rightarrow> status_line \<Rightarrow> bool" where
  "sl_inv buf s r \<longleftrightarrow> sl_text_end r = None \<and>
     (if s \<in> {sl_space_after_status, sl_status_text, sl_almost_done} then sl_coded buf r
        \<and> (s = sl_almost_done \<longrightarrow> (\<exists>t. sl_text_start r = Some t \<and> t + 4 \<le> length buf))
      else sl_count r \<le> length buf \<and> sl_count r < 3 \<and> sl_code r < 10 ^ sl_count r)"

definition sl_post :: "unit \<Rightarrow> bytes \<Rightarrow> u_char \<Rightarrow> sl_state \<Rightarrow> status_line \<Rightarrow> bool" where
  "sl_post l buf ch s r \<longleftrightarrow> ch = LF \<and> sl_coded buf r
     \<and> (\<forall>e. sl_text_end r = Some e \<longrightarrow> (\<exists>t. sl_text_start r = Some t \<and> t + 3 \<le> e \<and> e < length buf))"

lemma status_digit:
  assumes "\<not> ch < ch_0" "\<not> ch > ch_9" "code < 10 ^ k"
  shows "code * 10 + (unat ch - 0x30) < 10 ^ Suc k"
proof -
  have "unat ch - 0x30 \<le> 9" using assms(2) by (simp add: word_less_nat_alt)
  with assms(3) show ?thesis by simp
qed

interpretation sl: parser sl_step sl_inv sl_post
proof
  fix buf s r ch
  assume inv: "sl_inv buf s r"
  show "act_ok sl_inv sl_post buf ch (sl_step buf ch s r)"
  proof (cases "s = sl_status")
    case True
    with inv have c: "sl_count r \<le> length buf" "sl_count r < 3" "sl_code r < 10 ^ sl_count r"
      and e: "sl_text_end r = None" by (auto simp: sl_inv_def)
    have "sl_code r * 10 + (unat ch - 0x30) < 10 ^ Suc (sl_count r)" if "\<not> ch < ch_0" "\<not> ch > ch_9"
      using status_digit [OF that c(3)] .
    with True c e show ?thesis
      by (auto simp: sl_do_status_def Let_def act sl_inv_def sl_coded_def)
  next
    case False
    with inv show ?thesis
      by (cases s)
        (auto simp: sl_expect_def sl_do_first_major_digit_def sl_do_major_digit_def
          sl_do_first_minor_digit_def sl_do_minor_digit_def sl_do_space_after_status_def
          sl_do_status_text_def sl_do_almost_done_def Let_def act sl_inv_def sl_post_def sl_coded_def)
  qed
qed

section \<open>Theorems on status lines\<close>

text \<open>
  A status line may arrive in any pieces, and after any finished parse the code has three
  digits and the pointers to the status text are ordered and inside the buffer. No input is
  undefined.
\<close>

theorem status_line_pointers:
  assumes "pos \<le> length buf"
  shows "ngx_http_parse_status_line s r (buf @ rest) pos =
      resume ngx_http_parse_status_line (ngx_http_parse_status_line s r buf pos) (buf @ rest)
    \<and> (case ngx_http_parse_status_line sl_start new_status buf pos of
         Done rc r' p \<Rightarrow> rc = NGX_OK \<and> p \<le> length buf \<and> sl_code r' < 1000
           \<and> (\<exists>t e. sl_text_start r' = Some t \<and> sl_text_end r' = Some e \<and> t + 3 \<le> e \<and> e < p)
       | Again s' r' p \<Rightarrow> p = length buf
       | Failed rc r' \<Rightarrow> True
       | Undef_behaviour \<Rightarrow> False)"
proof
  show "ngx_http_parse_status_line s r (buf @ rest) pos =
      resume ngx_http_parse_status_line (ngx_http_parse_status_line s r buf pos) (buf @ rest)"
    unfolding ngx_http_parse_status_line_def using assms by (rule scan_parse_resume)
  have inv: "sl_inv (take pos buf) sl_start new_status" by (simp add: sl_inv_def new_status_def)
  let ?parse = "scan_parse sl_step sl_done sl_start new_status buf pos"
  show "case ngx_http_parse_status_line sl_start new_status buf pos of
         Done rc r' p \<Rightarrow> rc = NGX_OK \<and> p \<le> length buf \<and> sl_code r' < 1000
           \<and> (\<exists>t e. sl_text_start r' = Some t \<and> sl_text_end r' = Some e \<and> t + 3 \<le> e \<and> e < p)
       | Again s' r' p \<Rightarrow> p = length buf | Failed rc r' \<Rightarrow> True | Undef_behaviour \<Rightarrow> False"
  proof (cases ?parse)
    case (Done rc r' p)
    with inv obtain l s2 r2 q where q: "q < length buf" "p = q + 1"
      and r: "sl_done l s2 r2 q = (rc, r')" and post: "sl_post l (take q buf) (buf ! q) s2 r2"
      by (rule sl.done_post)
    with Done show ?thesis
      by (cases "sl_text_end r2")
        (auto simp: ngx_http_parse_status_line_def sl_done_def sl_post_def sl_coded_def Let_def)
  next
    case (Again s' r' p)
    then show ?thesis using sl.again_inv [OF inv] by (simp add: ngx_http_parse_status_line_def)
  qed (use sl.defined [OF inv, of sl_done] in \<open>simp_all add: ngx_http_parse_status_line_def\<close>)
qed

theorem status_line_pointers_witness:
  "(0::nat) \<le> length (bytes_of ''HTTP/1.0 4'') \<and>
   ngx_http_parse_status_line sl_start new_status (bytes_of ''HTTP/1.0 4'' @ bytes_of ''04'' @ [LF]) 0 =
   resume ngx_http_parse_status_line (ngx_http_parse_status_line sl_start new_status (bytes_of ''HTTP/1.0 4'') 0)
     (bytes_of ''HTTP/1.0 4'' @ bytes_of ''04'' @ [LF])"
  using status_line_pointers [of 0 "bytes_of ''HTTP/1.0 4''"] by simp

definition text_char :: "u_char \<Rightarrow> bool" where
  "text_char c \<longleftrightarrow> c \<noteq> CR \<and> c \<noteq> LF"

definition digit_val :: "u_char \<Rightarrow> nat" where
  "digit_val c = unat c - 48"

lemma unat_sl_digit:
  assumes "is_digit c"
  shows "unat (sl_digit c) = digit_val c"
proof -
  from assms have c: "48 \<le> unat c" "unat c < 58" by (auto simp: is_digit_def word_le_nat_alt)
  have "unat (sl_digit (word_of_nat (48 + k))) = k" if "k < 10" for k
    by (rule upto_all_I [OF _ that]) code_simp
  from this [of "unat c - 48"] c show ?thesis by (simp add: digit_val_def)
qed

lemma three_nine: "Suc (Suc (Suc 0)) = 3" "Suc (Suc (Suc (Suc (Suc (Suc 3))))) = 9"
  by simp_all

text \<open>
  C12. A well-formed status line is read exactly: for every version with one digit on each side
  of the dot, every three-digit code and every text, the parser returns \<^verbatim>\<open>NGX_OK\<close> behind the
  line feed with the version, the code, and the pointers around the code and the text.
\<close>

theorem status_line_exact:
  assumes v: "ch_1 \<le> maj" "maj \<le> ch_9" "is_digit mnr" and d: "list_all is_digit [d1, d2, d3]"
    and t: "list_all text_char txt"
  shows "\<exists>r. ngx_http_parse_status_line sl_start new_status
        (bytes_of ''HTTP/'' @ [maj, ch_dot, mnr, ch_sp, d1, d2, d3, ch_sp] @ txt @ [CR, LF] @ rest) 0
      = Done NGX_OK r (length txt + 15)
    \<and> sl_http_version r = digit_val maj * 1000 + digit_val mnr
    \<and> sl_code r = digit_val d1 * 100 + digit_val d2 * 10 + digit_val d3
    \<and> sl_text_start r = Some 9 \<and> sl_text_end r = Some (13 + length txt)"
proof -
  let ?r = "new_status\<lparr>sl_http_major := sl_digit maj, sl_http_minor := sl_digit mnr,
    sl_code := (digit_val d1 * 10 + digit_val d2) * 10 + digit_val d3, sl_count := 3, sl_text_start := Some 9\<rparr>"
  let ?line = "[0x48, 0x54, 0x54, 0x50, ch_slash, maj, ch_dot, mnr, ch_sp, d1, d2, d3, ch_sp]"
  have dig: "is_digit c \<Longrightarrow> \<not> c < ch_0 \<and> \<not> ch_9 < c \<and> c \<noteq> ch_sp \<and> c \<noteq> ch_dot" for c
    by (auto simp: is_digit_def)
  have majd: "\<not> maj < ch_1" "\<not> ch_9 < maj" using v by (simp_all add: not_less)
  have maj: "is_digit maj" using v by (auto simp: is_digit_def word_le_nat_alt)
  have "scan sl_step sl_start new_status [] (?line @ txt @ [CR, LF] @ rest)
      = scan sl_step sl_status_text ?r ?line (txt @ [CR, LF] @ rest)"
    using majd dig [of mnr] v(3) dig [of d1] dig [of d2] dig [of d3] d
    by (simp add: sl_expect_def sl_do_first_major_digit_def sl_do_major_digit_def sl_do_first_minor_digit_def
        sl_do_minor_digit_def sl_do_status_def sl_do_space_after_status_def new_status_def digit_val_def
        Let_def)
      (simp only: three_nine)
  also have "\<dots> = scan sl_step sl_status_text ?r (?line @ txt) ([CR, LF] @ rest)"
    by (rule scan_run) (use t in \<open>auto simp: sl_do_status_text_def text_char_def list_all_iff\<close>)
  also have "\<dots> = Jumped () sl_almost_done (?r\<lparr>sl_text_end := Some (13 + length txt)\<rparr>) (14 + length txt)"
    by (simp add: sl_do_status_text_def sl_do_almost_done_def)
  finally show ?thesis
    using unat_sl_digit [OF maj] unat_sl_digit [OF v(3)]
    by (simp add: ngx_http_parse_status_line_def scan_parse_def sl_done_def bytes_of_def)
qed

theorem status_line_exact_witness:
  "list_all is_digit [0x32, 0x30, 0x30] \<and> list_all text_char (bytes_of ''OK'') \<and>
   (\<exists>r. ngx_http_parse_status_line sl_start new_status
      (bytes_of ''HTTP/'' @ [0x31, ch_dot, 0x31, ch_sp, 0x32, 0x30, 0x30, ch_sp] @ bytes_of ''OK'' @ [CR, LF] @ []) 0
      = Done NGX_OK r 17 \<and> sl_code r = 200 \<and> sl_http_version r = 1001)"
proof -
  have h: "is_digit 0x31" "list_all is_digit [0x32, 0x30, 0x30]" "list_all text_char (bytes_of ''OK'')"
    by (simp_all add: is_digit_def text_char_def bytes_of_def)
  from status_line_exact [OF _ _ h, where maj = "0x31" and rest = "[]"] h show ?thesis
    by (simp add: digit_val_def bytes_of_def) blast
qed

text \<open>
  Spaces are skipped between the digits of the code too, and the start of the status text
  is computed as if they were not there.
\<close>

theorem status_line_split_code:
  "case ngx_http_parse_status_line sl_start new_status (bytes_of ''HTTP/1.1 2 0 0 OK'' @ [LF]) 0 of
     Done rc r p \<Rightarrow> rc = NGX_OK \<and> sl_code r = 200 \<and> sl_text_start r = Some 11
       \<and> sub_buf (bytes_of ''HTTP/1.1 2 0 0 OK'') 11 17 = bytes_of ''0 0 OK''
   | _ \<Rightarrow> False"
  by code_simp

end
