(* ===== verification/Ngx_Chunked.thy ===== *)
theory Ngx_Chunked
  imports Ngx_Scan Ngx_Num "HOL-Library.Sublist"
begin

text \<open>
  Chunked request bodies: \<^verbatim>\<open>ngx_http_parse_chunked\<close> of \<^verbatim>\<open>ngx_http_parse.c\<close> and the loop of
  \<^verbatim>\<open>ngx_http_request_body_chunked_filter\<close> of \<^verbatim>\<open>ngx_http_request_body.c\<close> that calls it and takes the
  data. Sizes are of type \<^verbatim>\<open>off_t\<close> and their arithmetic is checked. The specification is a
  machine that reads one byte at a time; the refinement shows that the filter behaves as this
  machine however the input is cut into buffers.
\<close>

section \<open>The parser\<close>

datatype ck_state = ck_chunk_start | ck_chunk_size | ck_chunk_extension
  | ck_chunk_extension_almost_done | ck_chunk_data | ck_after_data | ck_after_data_almost_done
  | ck_last_chunk_extension | ck_last_chunk_extension_almost_done | ck_trailer
  | ck_trailer_almost_done | ck_trailer_header | ck_trailer_header_almost_done

datatype ck_label = ck_data | ck_done

record ngx_http_chunked =
  ck_sw :: ck_state
  ck_size :: int
  ck_length :: int

type_synonym ck_act = "(ck_state, ck_label, ngx_http_chunked) act"

abbreviation ck_invalid :: "ngx_http_chunked \<Rightarrow> ck_act" where
  "ck_invalid c \<equiv> Ret NGX_ERROR c"

definition ck_do_chunk_start :: "u_char \<Rightarrow> ngx_http_chunked \<Rightarrow> ck_act" where
  "ck_do_chunk_start ch ctx =
     (if ch \<ge> ch_0 \<and> ch \<le> ch_9 then Next ck_chunk_size (ctx\<lparr>ck_size := uint ch - 0x30\<rparr>)
      else
        (let c = ch OR 0x20 in
         if c \<ge> ch_a \<and> c \<le> ch_f then Next ck_chunk_size (ctx\<lparr>ck_size := uint c - 0x61 + 10\<rparr>)
         else ck_invalid ctx))"

definition ck_grow :: "int \<Rightarrow> ngx_http_chunked \<Rightarrow> ck_act" where
  "ck_grow d ctx =
     (case do { v \<leftarrow> s64 (ck_size ctx * 16); s64 (v + d) } of
        None \<Rightarrow> Undef
      | Some v \<Rightarrow> Next ck_chunk_size (ctx\<lparr>ck_size := v\<rparr>))"

definition ck_do_chunk_size :: "u_char \<Rightarrow> ngx_http_chunked \<Rightarrow> ck_act" where
  "ck_do_chunk_size ch ctx =
     (if ck_size ctx > NGX_MAX_OFF_T_VALUE div 16 then ck_invalid ctx
      else if ch \<ge> ch_0 \<and> ch \<le> ch_9 then ck_grow (uint ch - 0x30) ctx
      else
        (let c = ch OR 0x20 in
         if c \<ge> ch_a \<and> c \<le> ch_f then ck_grow (uint c - 0x61 + 10) ctx
         else if ck_size ctx = 0 then
           if ch = CR then Next ck_last_chunk_extension_almost_done ctx
           else if ch = LF then Next ck_trailer ctx
           else if ch = ch_semi \<or> ch = ch_sp \<or> ch = ch_tab then Next ck_last_chunk_extension ctx
           else ck_invalid ctx
         else if ch = CR then Next ck_chunk_extension_almost_done ctx
         else if ch = LF then Next ck_chunk_data ctx
         else if ch = ch_semi \<or> ch = ch_sp \<or> ch = ch_tab then Next ck_chunk_extension ctx
         else ck_invalid ctx))"

text \<open>The states that skip to the end of a line, and those that expect the line feed after a CR.\<close>

definition ck_skip_line :: "ck_state \<Rightarrow> ck_state \<Rightarrow> ck_state \<Rightarrow> u_char \<Rightarrow> ngx_http_chunked \<Rightarrow> ck_act" where
  "ck_skip_line cr lf s ch ctx =
     (if ch = CR then Next cr ctx else if ch = LF then Next lf ctx else Next s ctx)"

definition ck_expect_lf :: "ck_state \<Rightarrow> u_char \<Rightarrow> ngx_http_chunked \<Rightarrow> ck_act" where
  "ck_expect_lf s ch ctx = (if ch = LF then Next s ctx else ck_invalid ctx)"

definition ck_do_trailer :: "u_char \<Rightarrow> ngx_http_chunked \<Rightarrow> ck_act" where
  "ck_do_trailer ch ctx =
     (if ch = CR then Next ck_trailer_almost_done ctx
      else if ch = LF then Goto ck_done ck_trailer ctx
      else Next ck_trailer_header ctx)"

definition ck_do_trailer_almost_done :: "u_char \<Rightarrow> ngx_http_chunked \<Rightarrow> ck_act" where
  "ck_do_trailer_almost_done ch ctx =
     (if ch = LF then Goto ck_done ck_trailer_almost_done ctx else ck_invalid ctx)"

fun ck_step :: "bytes \<Rightarrow> u_char \<Rightarrow> ck_state \<Rightarrow> ngx_http_chunked \<Rightarrow> ck_act" where
  "ck_step seen ch ck_chunk_start ctx = ck_do_chunk_start ch ctx"
| "ck_step seen ch ck_chunk_size ctx = ck_do_chunk_size ch ctx"
| "ck_step seen ch ck_chunk_extension ctx =
     ck_skip_line ck_chunk_extension_almost_done ck_chunk_data ck_chunk_extension ch ctx"
| "ck_step seen ch ck_chunk_extension_almost_done ctx = ck_expect_lf ck_chunk_data ch ctx"
| "ck_step seen ch ck_chunk_data ctx = Goto ck_data ck_chunk_data ctx"
| "ck_step seen ch ck_after_data ctx =
     ck_skip_line ck_after_data_almost_done ck_chunk_start ck_after_data ch ctx"
| "ck_step seen ch ck_after_data_almost_done ctx = ck_expect_lf ck_chunk_start ch ctx"
| "ck_step seen ch ck_last_chunk_extension ctx =
     ck_skip_line ck_last_chunk_extension_almost_done ck_trailer ck_last_chunk_extension ch ctx"
| "ck_step seen ch ck_last_chunk_extension_almost_done ctx = ck_expect_lf ck_trailer ch ctx"
| "ck_step seen ch ck_trailer ctx = ck_do_trailer ch ctx"
| "ck_step seen ch ck_trailer_almost_done ctx = ck_do_trailer_almost_done ch ctx"
| "ck_step seen ch ck_trailer_header ctx =
     ck_skip_line ck_trailer_header_almost_done ck_trailer ck_trailer_header ch ctx"
| "ck_step seen ch ck_trailer_header_almost_done ctx = ck_expect_lf ck_trailer ch ctx"

text \<open>The least number of bytes still to come, by state.\<close>

fun ck_rest :: "ck_state \<Rightarrow> int \<Rightarrow> int" where
  "ck_rest ck_chunk_start z = 3"
| "ck_rest ck_chunk_size z = 1 + (if z \<noteq> 0 then z + 4 else 1)"
| "ck_rest ck_chunk_extension z = 1 + z + 4"
| "ck_rest ck_chunk_extension_almost_done z = 1 + z + 4"
| "ck_rest ck_chunk_data z = z + 4"
| "ck_rest ck_after_data z = 4"
| "ck_rest ck_after_data_almost_done z = 4"
| "ck_rest ck_last_chunk_extension z = 2"
| "ck_rest ck_last_chunk_extension_almost_done z = 2"
| "ck_rest ck_trailer z = 1"
| "ck_rest ck_trailer_almost_done z = 1"
| "ck_rest ck_trailer_header z = 2"
| "ck_rest ck_trailer_header_almost_done z = 2"

text \<open>The code behind the label \<^verbatim>\<open>data\<close>.\<close>

definition ck_at_data :: "int \<Rightarrow> ck_state \<Rightarrow> ngx_http_chunked \<Rightarrow> nat \<Rightarrow> (int \<times> ngx_http_chunked \<times> nat) option" where
  "ck_at_data rc s ctx pos =
     (let ctx = ctx\<lparr>ck_sw := s\<rparr> in
      if ck_size ctx > NGX_MAX_OFF_T_VALUE - 5 then Some (NGX_ERROR, ctx, pos)
      else do { len \<leftarrow> s64 (ck_rest s (ck_size ctx)); Some (rc, ctx\<lparr>ck_length := len\<rparr>, pos) })"

definition ngx_http_parse_chunked ::
    "ngx_http_chunked \<Rightarrow> bytes \<Rightarrow> nat \<Rightarrow> (int \<times> ngx_http_chunked \<times> nat) option" where
  "ngx_http_parse_chunked ctx buf pos =
     (let state = (if ck_sw ctx = ck_chunk_data \<and> ck_size ctx = 0 then ck_after_data else ck_sw ctx) in
      case scan ck_step state ctx (take pos buf) (drop pos buf) of
        Ended s c \<Rightarrow> ck_at_data NGX_AGAIN s c (length buf)
      | Jumped ck_data s c p \<Rightarrow> ck_at_data NGX_OK s c p
      | Jumped ck_done s c p \<Rightarrow> Some (NGX_DONE, c\<lparr>ck_sw := ck_chunk_start\<rparr>, p + 1)
      | Returned rc c \<Rightarrow> Some (rc, c, pos)
      | Undefined \<Rightarrow> None)"

section \<open>The request body filter\<close>

text \<open>
  What the filter changes: the parser context, the number of body bytes so far, what is to be
  read at least, and the pieces handed on (the buffers it links into its output chain).
\<close>

record request_body =
  rb_chunked :: ngx_http_chunked
  content_length_n :: int
  rb_rest :: int
  rb_out :: "bytes list"

text \<open>Taking the data of a chunk from \<open>p\<close> on: the new body and the new position.\<close>

definition body_take :: "request_body \<Rightarrow> ngx_http_chunked \<Rightarrow> bytes \<Rightarrow> nat \<Rightarrow> request_body \<times> nat" where
  "body_take rb ctx buf p =
     (let avail = length buf - p in
      if int avail > ck_size ctx then
        (rb\<lparr>rb_chunked := ctx\<lparr>ck_size := 0\<rparr>,
            content_length_n := content_length_n rb + ck_size ctx,
            rb_out := rb_out rb @ [take (nat (ck_size ctx)) (drop p buf)]\<rparr>,
         p + nat (ck_size ctx))
      else
        (rb\<lparr>rb_chunked := ctx\<lparr>ck_size := ck_size ctx - int avail\<rparr>,
            content_length_n := content_length_n rb + int avail,
            rb_out := rb_out rb @ [drop p buf]\<rparr>,
         length buf))"

text \<open>
  The inner loop on one buffer: \<open>Inr\<close> the body and the position, \<open>Inl\<close> an HTTP error.
  \<open>client_max\<close> is \<^verbatim>\<open>client_max_body_size\<close>, \<open>alloc\<close> says whether a buffer can be allocated. The
  first argument bounds the iterations; one more than the bytes left in the buffer are enough.
\<close>

fun chunked_filter_loop ::
    "nat \<Rightarrow> bool \<Rightarrow> int \<Rightarrow> request_body \<Rightarrow> bytes \<Rightarrow> nat \<Rightarrow> (int + request_body \<times> nat) option" where
  "chunked_filter_loop 0 alloc client_max rb buf pos = None"
| "chunked_filter_loop (Suc fuel) alloc client_max rb buf pos =
     (case ngx_http_parse_chunked (rb_chunked rb) buf pos of
        None \<Rightarrow> None
      | Some (rc, ctx, p) \<Rightarrow>
          if rc = NGX_OK then
            if client_max \<noteq> 0 \<and> client_max - content_length_n rb < ck_size ctx
            then Some (Inl NGX_HTTP_REQUEST_ENTITY_TOO_LARGE)
            else if \<not> alloc then Some (Inl NGX_HTTP_INTERNAL_SERVER_ERROR)
            else
              (case body_take rb ctx buf p of
                 (rb', p') \<Rightarrow> chunked_filter_loop fuel alloc client_max rb' buf p')
          else if rc = NGX_DONE then
            if \<not> alloc then Some (Inl NGX_HTTP_INTERNAL_SERVER_ERROR)
            else Some (Inr (rb\<lparr>rb_chunked := ctx, rb_rest := 0\<rparr>, p))
          else if rc = NGX_AGAIN then Some (Inr (rb\<lparr>rb_chunked := ctx, rb_rest := ck_length ctx\<rparr>, p))
          else Some (Inl NGX_HTTP_BAD_REQUEST))"

definition new_body :: request_body where
  "new_body = \<lparr> rb_chunked = \<lparr> ck_sw = ck_chunk_start, ck_size = 0, ck_length = 0 \<rparr>,
     content_length_n = 0, rb_rest = 3, rb_out = [] \<rparr>"

text \<open>
  The filter is called for each buffer that is read, until nothing is left to be read; the
  result holds what remains of the last buffer.
\<close>

fun read_chunked :: "bool \<Rightarrow> int \<Rightarrow> request_body \<Rightarrow> bytes list \<Rightarrow> (int + request_body \<times> bytes) option" where
  "read_chunked alloc client_max rb [] = Some (Inr (rb, []))"
| "read_chunked alloc client_max rb (buf # bufs) =
     (case chunked_filter_loop (Suc (length buf)) alloc client_max rb buf 0 of
        None \<Rightarrow> None
      | Some (Inl e) \<Rightarrow> Some (Inl e)
      | Some (Inr (rb', p)) \<Rightarrow>
          if rb_rest rb' = 0 then Some (Inr (rb', drop p buf))
          else read_chunked alloc client_max rb' bufs)"

section \<open>Sizes stay in range\<close>

definition ck_inv :: "bytes \<Rightarrow> ck_state \<Rightarrow> ngx_http_chunked \<Rightarrow> bool" where
  "ck_inv buf s ctx \<longleftrightarrow> 0 \<le> ck_size ctx \<and> ck_size ctx \<le> NGX_MAX_OFF_T_VALUE
     \<and> (s \<in> {ck_chunk_extension, ck_chunk_extension_almost_done, ck_chunk_data} \<longrightarrow> 0 < ck_size ctx)"

definition ck_post :: "ck_label \<Rightarrow> bytes \<Rightarrow> u_char \<Rightarrow> ck_state \<Rightarrow> ngx_http_chunked \<Rightarrow> bool" where
  "ck_post l buf ch s ctx \<longleftrightarrow> ck_inv buf s ctx \<and> (l = ck_data \<longrightarrow> s = ck_chunk_data)"

lemma hex_digit_uint:
  "ch_0 \<le> ch \<Longrightarrow> ch \<le> ch_9 \<Longrightarrow> 0 \<le> uint ch - 0x30 \<and> uint ch - 0x30 \<le> 15"
  "ch_a \<le> c \<Longrightarrow> c \<le> ch_f \<Longrightarrow> 0 \<le> uint c - 0x61 + 10 \<and> uint c - 0x61 + 10 \<le> 15"
  by (simp_all add: word_le_def)

lemma ck_grow_next:
  assumes "0 \<le> ck_size ctx" "\<not> ck_size ctx > NGX_MAX_OFF_T_VALUE div 16" "0 \<le> d \<and> d \<le> 15"
  shows "ck_grow d ctx = Next ck_chunk_size (ctx\<lparr>ck_size := ck_size ctx * 16 + d\<rparr>)
    \<and> 0 \<le> ck_size ctx * 16 + d \<and> ck_size ctx * 16 + d \<le> NGX_MAX_OFF_T_VALUE"
  using assms by (auto simp: ck_grow_def max_defs ub_simps)

interpretation ck: parser ck_step ck_inv ck_post
proof
  fix buf s r ch
  assume inv: "ck_inv buf s r"
  show "act_ok ck_inv ck_post buf ch (ck_step buf ch s r)"
  proof (cases "s = ck_chunk_size")
    case True
    with inv show ?thesis
      using ck_grow_next [of r "uint ch - 0x30"] ck_grow_next [of r "uint (ch OR 0x20) - 0x61 + 10"]
        hex_digit_uint(1) [of ch] hex_digit_uint(2) [of "ch OR 0x20"]
      by (auto simp: ck_do_chunk_size_def Let_def act ck_inv_def)
  next
    case False
    with inv hex_digit_uint(1) [of ch] hex_digit_uint(2) [of "ch OR 0x20"] show ?thesis
      by (cases s)
        (auto simp: ck_do_chunk_start_def ck_skip_line_def ck_expect_lf_def ck_do_trailer_def
          ck_do_trailer_almost_done_def Let_def act ck_inv_def ck_post_def max_defs)
  qed
qed

section \<open>The byte machine\<close>

text \<open>
  The specification: a machine with the state and the size of the current chunk that reads
  one byte at a time. A data byte is handed on and the size counted down; the other bytes go
  through the states of the parser.
\<close>

datatype ck_result = CkMore ck_state int bytes | CkEnd bytes bytes | CkBad

fun emit :: "bytes \<Rightarrow> ck_result \<Rightarrow> ck_result" where
  "emit d (CkMore s z out) = CkMore s z (d @ out)"
| "emit d (CkEnd out rest) = CkEnd (d @ out) rest"
| "emit d CkBad = CkBad"

definition ck_ctx :: "int \<Rightarrow> ngx_http_chunked" where
  "ck_ctx z = \<lparr> ck_sw = ck_chunk_start, ck_size = z, ck_length = 0 \<rparr>"

fun ck_run :: "ck_state \<Rightarrow> int \<Rightarrow> bytes \<Rightarrow> ck_result" where
  "ck_run s z [] = CkMore s z []"
| "ck_run s z (c # cs) =
     (if s = ck_chunk_data then
        emit [c] (if z = 1 then ck_run ck_after_data 0 cs else ck_run ck_chunk_data (z - 1) cs)
      else
        (case ck_step [] c s (ck_ctx z) of
           Next s' ctx \<Rightarrow>
             if ck_size ctx > NGX_MAX_OFF_T_VALUE - 5 then CkBad else ck_run s' (ck_size ctx) cs
         | Goto l s' ctx \<Rightarrow> CkEnd [] cs
         | _ \<Rightarrow> CkBad))"

lemma emit_emit [simp]: "emit a (emit b x) = emit (a @ b) x"
  by (cases x) simp_all

lemma emit_Nil [simp]: "emit [] x = x"
  by (cases x) simp_all

text \<open>Cutting the input in two makes no difference to the machine.\<close>

lemma ck_run_append:
  "ck_run s z (xs @ ys) =
     (case ck_run s z xs of
        CkMore s' z' out \<Rightarrow> emit out (ck_run s' z' ys)
      | CkEnd out rest \<Rightarrow> CkEnd out (rest @ ys)
      | CkBad \<Rightarrow> CkBad)"
proof (induction xs arbitrary: s z)
  case (Cons c xs)
  have e: "emit [c] (case x of CkMore s' z' out \<Rightarrow> emit out (ck_run s' z' ys) | CkEnd out rest \<Rightarrow> CkEnd out (rest @ ys) | CkBad \<Rightarrow> CkBad)
    = (case emit [c] x of CkMore s' z' out \<Rightarrow> emit out (ck_run s' z' ys) | CkEnd out rest \<Rightarrow> CkEnd out (rest @ ys) | CkBad \<Rightarrow> CkBad)" for x
    by (cases x) simp_all
  show ?case
  proof (cases "s = ck_chunk_data")
    case True
    then show ?thesis by (simp add: Cons.IH e)
  next
    case False
    then show ?thesis by (simp add: Cons.IH split: act.split)
  qed
qed simp

section \<open>The parser follows the machine\<close>

text \<open>The step does not look at the bytes seen, nor at the other fields of the context.\<close>

lemma ck_step_ctx:
  assumes "0 \<le> ck_size ctx" "ck_size ctx \<le> NGX_MAX_OFF_T_VALUE" "s \<noteq> ck_chunk_data"
  shows "(\<exists>s' z. ck_step seen ch s ctx = Next s' (ctx\<lparr>ck_size := z\<rparr>) \<and> ck_step [] ch s (ck_ctx (ck_size ctx)) = Next s' (ck_ctx z)
       \<and> 0 \<le> z \<and> z \<le> NGX_MAX_OFF_T_VALUE \<and> (z \<noteq> ck_size ctx \<longrightarrow> s' = ck_chunk_size) \<and> (s' = ck_chunk_data \<longrightarrow> z = ck_size ctx))
    \<or> (\<exists>s'. ck_step seen ch s ctx = Goto ck_done s' ctx \<and> ck_step [] ch s (ck_ctx (ck_size ctx)) = Goto ck_done s' (ck_ctx (ck_size ctx)))
    \<or> (ck_step seen ch s ctx = Ret NGX_ERROR ctx \<and> ck_step [] ch s (ck_ctx (ck_size ctx)) = Ret NGX_ERROR (ck_ctx (ck_size ctx)))"
proof (cases s)
  case ck_chunk_size
  have g: "ck_grow d ctx = Next ck_chunk_size (ctx\<lparr>ck_size := ck_size ctx * 16 + d\<rparr>)
      \<and> ck_grow d (ck_ctx (ck_size ctx)) = Next ck_chunk_size (ck_ctx (ck_size ctx * 16 + d))
      \<and> 0 \<le> ck_size ctx * 16 + d \<and> ck_size ctx * 16 + d \<le> NGX_MAX_OFF_T_VALUE"
    if "\<not> ck_size ctx > NGX_MAX_OFF_T_VALUE div 16" "0 \<le> d \<and> d \<le> 15" for d
    using ck_grow_next [of ctx d] ck_grow_next [of "ck_ctx (ck_size ctx)" d] that assms(1) by (simp add: ck_ctx_def)
  have n: "ck_ctx z = ck_ctx z' \<longleftrightarrow> z = z'" for z z' by (simp add: ck_ctx_def)
  have c: "ck_size (ck_ctx z) = z" for z by (simp add: ck_ctx_def)
  have r: "ctx = ctx\<lparr>ck_size := ck_size ctx\<rparr>" by simp
  show ?thesis
    using ck_chunk_size g [of "uint ch - 0x30"] g [of "uint (ch OR 0x20) - 0x61 + 10"] assms
      hex_digit_uint(1) [of ch] hex_digit_uint(2) [of "ch OR 0x20"] r
    by (auto simp: ck_do_chunk_size_def Let_def c n)
next
  case ck_chunk_start
  with assms hex_digit_uint(1) [of ch] hex_digit_uint(2) [of "ch OR 0x20"] show ?thesis
    by (auto simp: ck_do_chunk_start_def Let_def ck_ctx_def max_defs)
qed (use assms in \<open>auto simp: ck_skip_line_def ck_expect_lf_def ck_do_trailer_def
      ck_do_trailer_almost_done_def ck_ctx_def intro!: exI [of _ "ck_size ctx"]\<close>)

abbreviation ck_max :: int where
  "ck_max \<equiv> NGX_MAX_OFF_T_VALUE - 5"

definition ck_follows :: "bytes \<Rightarrow> ck_state \<Rightarrow> ngx_http_chunked \<Rightarrow> bytes \<Rightarrow> (ck_state, ck_label, ngx_http_chunked) stop \<Rightarrow> bool" where
  "ck_follows seen s ctx xs x =
     (let run = ck_run s (ck_size ctx) xs in
      case x of
        Ended s' c \<Rightarrow> ck_inv [] s' c \<and> run = (if ck_size c > ck_max then CkBad else CkMore s' (ck_size c) [])
      | Jumped l s' c p \<Rightarrow> length seen \<le> p \<and> p < length seen + length xs \<and>
          (case l of
             ck_data \<Rightarrow> s' = ck_chunk_data \<and> 0 < ck_size c \<and> ck_size c \<le> ck_max
               \<and> run = ck_run ck_chunk_data (ck_size c) (drop (p - length seen) xs)
           | ck_done \<Rightarrow> run = CkEnd [] (drop (p + 1 - length seen) xs))
      | Returned rc c \<Rightarrow> rc = NGX_ERROR \<and> run = CkBad
      | Undefined \<Rightarrow> False)"

lemma ck_inv_buf: "ck_inv buf s ctx = ck_inv [] s ctx"
  by (simp add: ck_inv_def)

lemma drop_Cons_diff: "Suc n \<le> p \<Longrightarrow> drop (p - n) (c # xs) = drop (p - Suc n) xs"
  by (cases "p - n") (auto simp: diff_Suc split: nat.split)

lemma ck_too_big:
  assumes "ck_max < ck_size ctx" "ck_size ctx \<le> NGX_MAX_OFF_T_VALUE"
  shows "case scan ck_step ck_chunk_size ctx seen xs of
    Ended s c \<Rightarrow> s = ck_chunk_size \<and> c = ctx | Returned rc c \<Rightarrow> rc = NGX_ERROR | _ \<Rightarrow> False"
  using assms by (cases xs) (auto simp: ck_do_chunk_size_def max_defs)

lemma ck_scan_follows:
  "ck_inv [] s ctx \<Longrightarrow> ck_size ctx \<le> ck_max \<Longrightarrow> ck_follows seen s ctx xs (scan ck_step s ctx seen xs)"
proof (induction xs arbitrary: s ctx seen)
  case Nil
  then show ?case by (simp add: ck_follows_def)
next
  case (Cons c xs)
  note inv = Cons.prems(1)
  have rng: "0 \<le> ck_size ctx" "ck_size ctx \<le> NGX_MAX_OFF_T_VALUE" using inv by (simp_all add: ck_inv_def)
  show ?case
  proof (cases "s = ck_chunk_data")
    case True
    with Cons.prems show ?thesis by (simp add: ck_follows_def ck_inv_def)
  next
    case False
    from ck_step_ctx [OF rng False, of seen c] show ?thesis
    proof (elim disjE exE conjE)
      fix s' z
      assume st: "ck_step seen c s ctx = Next s' (ctx\<lparr>ck_size := z\<rparr>)"
        and st': "ck_step [] c s (ck_ctx (ck_size ctx)) = Next s' (ck_ctx z)"
        and z: "0 \<le> z" "z \<le> NGX_MAX_OFF_T_VALUE" "z \<noteq> ck_size ctx \<longrightarrow> s' = ck_chunk_size"
      have run: "ck_run s (ck_size ctx) (c # xs) = (if z > ck_max then CkBad else ck_run s' z xs)"
        using False st' by (simp add: ck_ctx_def)
      have scan: "scan ck_step s ctx seen (c # xs) = scan ck_step s' (ctx\<lparr>ck_size := z\<rparr>) (seen @ [c]) xs"
        using st by simp
      show ?thesis
      proof (cases "z > ck_max")
        case True
        then have "s' = ck_chunk_size" using z Cons.prems(2) by auto
        with ck_too_big [of "ctx\<lparr>ck_size := z\<rparr>" "seen @ [c]" xs] True z run scan show ?thesis
          by (auto simp: ck_follows_def ck_inv_def split: stop.splits)
      next
        case fits: False
        have "ck_inv [] s' (ctx\<lparr>ck_size := z\<rparr>)"
          using ck.step_ok [of seen s ctx c] inv st by (simp add: act ck_inv_buf [of seen] ck_inv_buf [of "seen @ [c]"])
        with Cons.IH [of s' "ctx\<lparr>ck_size := z\<rparr>" "seen @ [c]"] fits
        have "ck_follows (seen @ [c]) s' (ctx\<lparr>ck_size := z\<rparr>) xs (scan ck_step s' (ctx\<lparr>ck_size := z\<rparr>) (seen @ [c]) xs)"
          by simp
        with run scan fits show ?thesis
          by (auto simp: ck_follows_def Let_def Suc_diff_le drop_Cons_diff split: stop.splits ck_label.splits)
      qed
    next
      fix s'
      assume "ck_step seen c s ctx = Goto ck_done s' ctx"
        "ck_step [] c s (ck_ctx (ck_size ctx)) = Goto ck_done s' (ck_ctx (ck_size ctx))"
      with False show ?thesis by (simp add: ck_follows_def)
    next
      assume "ck_step seen c s ctx = Ret NGX_ERROR ctx"
        "ck_step [] c s (ck_ctx (ck_size ctx)) = Ret NGX_ERROR (ck_ctx (ck_size ctx))"
      with False show ?thesis by (simp add: ck_follows_def)
    qed
  qed
qed

section \<open>The filter follows the machine\<close>

text \<open>The state the parser starts with: after the data when none is left.\<close>

definition ck_norm :: "ngx_http_chunked \<Rightarrow> ck_state" where
  "ck_norm ctx = (if ck_sw ctx = ck_chunk_data \<and> ck_size ctx = 0 then ck_after_data else ck_sw ctx)"

definition ck_wf :: "ngx_http_chunked \<Rightarrow> bool" where
  "ck_wf ctx \<longleftrightarrow> ck_inv [] (ck_norm ctx) ctx \<and> ck_size ctx \<le> ck_max"

lemma ck_rest_range:
  assumes "0 \<le> z" "z \<le> ck_max"
  shows "s64 (ck_rest s z) = Some (ck_rest s z) \<and> 0 < ck_rest s z"
  using assms by (cases s) (auto simp: max_defs ub_simps)

lemma ck_at_data_fits:
  assumes "ck_inv [] s ctx"
  shows "ck_at_data rc s ctx p =
    Some (if ck_size ctx > ck_max then (NGX_ERROR, ctx\<lparr>ck_sw := s\<rparr>, p)
      else (rc, ctx\<lparr>ck_sw := s, ck_length := ck_rest s (ck_size ctx)\<rparr>, p))"
  using assms ck_rest_range [of "ck_size ctx" s]
  by (auto simp: ck_at_data_def Let_def ck_inv_def)

lemma ck_run_data:
  assumes "0 < k" "k \<le> length xs"
  shows "ck_run ck_chunk_data (int k) xs = emit (take k xs) (ck_run ck_after_data 0 (drop k xs))"
  using assms
proof (induction k arbitrary: xs)
  case (Suc k)
  then obtain c cs where "xs = c # cs" by (cases xs) auto
  with Suc show ?case by (cases "k = 0") auto
qed simp

lemma ck_run_data_part:
  assumes "length xs < k"
  shows "ck_run ck_chunk_data (int k) xs = CkMore ck_chunk_data (int (k - length xs)) xs"
  using assms
proof (induction xs arbitrary: k)
  case (Cons c cs)
  then obtain j where j: "k = Suc j" "length cs < j" by (cases k) auto
  with Cons.IH [OF j(2)] show ?case by simp
qed simp

text \<open>What one run of the filter on a buffer gives, for the result of the machine.\<close>

definition body_ok :: "request_body \<Rightarrow> bytes \<Rightarrow> ck_result \<Rightarrow> (int + request_body \<times> nat) option \<Rightarrow> bool" where
  "body_ok rb buf run x =
     (case run of
        CkBad \<Rightarrow> x = Some (Inl NGX_HTTP_BAD_REQUEST)
      | CkMore s z out \<Rightarrow>
          (\<exists>rb'. x = Some (Inr (rb', length buf)) \<and> ck_norm (rb_chunked rb') = s \<and> ck_size (rb_chunked rb') = z
             \<and> ck_wf (rb_chunked rb') \<and> rb_rest rb' = ck_rest s z
             \<and> concat (rb_out rb') = concat (rb_out rb) @ out
             \<and> content_length_n rb' = content_length_n rb + int (length out))
      | CkEnd out rest \<Rightarrow>
          (\<exists>rb' p. x = Some (Inr (rb', p)) \<and> p \<le> length buf \<and> drop p buf = rest \<and> rb_rest rb' = 0
             \<and> concat (rb_out rb') = concat (rb_out rb) @ out
             \<and> content_length_n rb' = content_length_n rb + int (length out)))"

lemma body_ok_emit:
  assumes "body_ok rb' buf run x" "concat (rb_out rb') = concat (rb_out rb) @ d"
    "content_length_n rb' = content_length_n rb + int (length d)"
  shows "body_ok rb buf (emit d run) x"
  using assms by (cases run) (auto simp: body_ok_def)

text \<open>Taking data is what the machine does with it.\<close>

lemma body_take_follows:
  assumes "ck_sw ctx = ck_chunk_data" "0 < ck_size ctx" "ck_size ctx \<le> ck_max" "p < length buf"
    and t: "body_take rb ctx buf p = (rb', p')"
  shows "p < p' \<and> p' \<le> length buf \<and> ck_wf (rb_chunked rb')
    \<and> (\<exists>d. concat (rb_out rb') = concat (rb_out rb) @ d
        \<and> content_length_n rb' = content_length_n rb + int (length d)
        \<and> ck_run ck_chunk_data (ck_size ctx) (drop p buf)
          = emit d (ck_run (ck_norm (rb_chunked rb')) (ck_size (rb_chunked rb')) (drop p' buf)))"
proof -
  obtain k where k: "ck_size ctx = int k" "0 < k" using assms(2) by (metis zero_less_imp_eq_int)
  let ?xs = "drop p buf"
  consider "k < length ?xs" | "k = length ?xs" | "length ?xs < k" by linarith
  then show ?thesis
  proof cases
    case 1
    with t k have "rb' = rb\<lparr>rb_chunked := ctx\<lparr>ck_size := 0\<rparr>,
        content_length_n := content_length_n rb + int k, rb_out := rb_out rb @ [take k ?xs]\<rparr>" "p' = p + k"
      by (auto simp: body_take_def Let_def)
    with 1 k assms(1) ck_run_data [of k ?xs] show ?thesis
      by (auto simp: ck_wf_def ck_norm_def ck_inv_def max_defs add.commute intro!: exI [of _ "take k ?xs"])
  next
    case 2
    with t k assms(4) have "rb' = rb\<lparr>rb_chunked := ctx\<lparr>ck_size := 0\<rparr>,
        content_length_n := content_length_n rb + int k, rb_out := rb_out rb @ [?xs]\<rparr>" "p' = length buf"
      by (auto simp: body_take_def Let_def)
    with 2 k assms(1,4) ck_run_data [of k ?xs] show ?thesis
      by (auto simp: ck_wf_def ck_norm_def ck_inv_def max_defs intro!: exI [of _ ?xs])
  next
    case 3
    with t k assms(4) have "rb' = rb\<lparr>rb_chunked := ctx\<lparr>ck_size := int (k - length ?xs)\<rparr>,
        content_length_n := content_length_n rb + int (length ?xs), rb_out := rb_out rb @ [?xs]\<rparr>" "p' = length buf"
      by (auto simp: body_take_def Let_def of_nat_diff)
    with 3 k assms(1,3,4) ck_run_data_part [of ?xs k] show ?thesis
      by (auto simp: ck_wf_def ck_norm_def ck_inv_def max_defs intro!: exI [of _ ?xs])
  qed
qed

text \<open>One call of the parser, for a context and a position in range: it is defined, and it does what the machine does.\<close>

lemma ck_parse_cases:
  assumes wf: "ck_wf ctx" and pos: "pos \<le> length buf"
  obtains (bad) c where "ngx_http_parse_chunked ctx buf pos = Some (NGX_ERROR, c)"
      "ck_run (ck_norm ctx) (ck_size ctx) (drop pos buf) = CkBad"
  | (again) c where "ngx_http_parse_chunked ctx buf pos = Some (NGX_AGAIN, c, length buf)"
      "ck_run (ck_norm ctx) (ck_size ctx) (drop pos buf) = CkMore (ck_sw c) (ck_size c) []"
      "ck_inv [] (ck_sw c) c" "ck_size c \<le> ck_max" "ck_length c = ck_rest (ck_sw c) (ck_size c)"
  | (data) c p where "ngx_http_parse_chunked ctx buf pos = Some (NGX_OK, c, p)" "pos \<le> p" "p < length buf"
      "ck_sw c = ck_chunk_data" "0 < ck_size c" "ck_size c \<le> ck_max"
      "ck_run (ck_norm ctx) (ck_size ctx) (drop pos buf) = ck_run ck_chunk_data (ck_size c) (drop p buf)"
  | (fin) c p where "ngx_http_parse_chunked ctx buf pos = Some (NGX_DONE, c, p)" "p \<le> length buf"
      "ck_run (ck_norm ctx) (ck_size ctx) (drop pos buf) = CkEnd [] (drop p buf)"
proof -
  let ?x = "scan ck_step (ck_norm ctx) ctx (take pos buf) (drop pos buf)"
  have f: "ck_follows (take pos buf) (ck_norm ctx) ctx (drop pos buf) ?x"
    using wf by (intro ck_scan_follows) (simp_all add: ck_wf_def)
  have e: "ngx_http_parse_chunked ctx buf pos = (case ?x of
        Ended s c \<Rightarrow> ck_at_data NGX_AGAIN s c (length buf)
      | Jumped ck_data s c p \<Rightarrow> ck_at_data NGX_OK s c p
      | Jumped ck_done s c p \<Rightarrow> Some (NGX_DONE, c\<lparr>ck_sw := ck_chunk_start\<rparr>, p + 1)
      | Returned rc c \<Rightarrow> Some (rc, c, pos)
      | Undefined \<Rightarrow> None)"
    by (simp add: ngx_http_parse_chunked_def ck_norm_def)
  show thesis
  proof (cases ?x)
    case (Ended s c)
    with f have inv: "ck_inv [] s c" and run: "ck_run (ck_norm ctx) (ck_size ctx) (drop pos buf)
        = (if ck_size c > ck_max then CkBad else CkMore s (ck_size c) [])"
      by (simp_all add: ck_follows_def Let_def)
    with e Ended ck_at_data_fits [OF inv] show thesis
      by (cases "ck_size c > ck_max") (auto intro: bad again simp: ck_inv_def)
  next
    case (Jumped l s c p)
    show thesis
    proof (cases l)
      case ck_data
      with Jumped f pos have j: "pos \<le> p" "p < length buf" "s = ck_chunk_data" "0 < ck_size c" "ck_size c \<le> ck_max"
        "ck_run (ck_norm ctx) (ck_size ctx) (drop pos buf) = ck_run ck_chunk_data (ck_size c) (drop p buf)"
        by (simp_all add: ck_follows_def Let_def)
      then have "ck_inv [] s c" by (simp add: ck_inv_def)
      with e Jumped ck_data j ck_at_data_fits [of s c NGX_OK p] show thesis
        by (intro data [of "c\<lparr>ck_sw := ck_chunk_data, ck_length := ck_size c + 4\<rparr>" p]) auto
    next
      case ck_done
      with Jumped f pos e show thesis
        by (intro fin) (auto simp: ck_follows_def Let_def)
    qed
  next
    case (Returned rc c)
    with f e show thesis by (intro bad) (auto simp: ck_follows_def Let_def)
  next
    case Undefined
    with f show thesis by (simp add: ck_follows_def)
  qed
qed

text \<open>The loop on one buffer: it ends within the fuel, and does what the machine does.\<close>

lemma chunked_filter_follows:
  "ck_wf (rb_chunked rb) \<Longrightarrow> pos \<le> length buf \<Longrightarrow> length buf - pos < fuel \<Longrightarrow>
   body_ok rb buf (ck_run (ck_norm (rb_chunked rb)) (ck_size (rb_chunked rb)) (drop pos buf))
     (chunked_filter_loop fuel True 0 rb buf pos)"
proof (induction fuel arbitrary: rb pos)
  case (Suc fuel)
  note codes = NGX_OK_def NGX_DONE_def NGX_AGAIN_def NGX_ERROR_def
  show ?case
  proof (rule ck_parse_cases [OF Suc.prems(1,2)], goal_cases)
    case (1 c)
    then show ?case by (cases c) (auto simp: body_ok_def codes)
  next
    case (2 c)
    then show ?case by (auto simp: body_ok_def ck_wf_def ck_norm_def ck_inv_def codes)
  next
    case (3 c p)
    obtain rb' p' where t: "body_take rb c buf p = (rb', p')" by (cases "body_take rb c buf p")
    from body_take_follows [OF 3(4,5,6,3) t] obtain d where d: "p < p'" "p' \<le> length buf" "ck_wf (rb_chunked rb')"
      "concat (rb_out rb') = concat (rb_out rb) @ d" "content_length_n rb' = content_length_n rb + int (length d)"
      "ck_run ck_chunk_data (ck_size c) (drop p buf)
        = emit d (ck_run (ck_norm (rb_chunked rb')) (ck_size (rb_chunked rb')) (drop p' buf))"
      by blast
    have "body_ok rb' buf (ck_run (ck_norm (rb_chunked rb')) (ck_size (rb_chunked rb')) (drop p' buf))
        (chunked_filter_loop fuel True 0 rb' buf p')"
      using d 3(2) Suc.prems(3) by (intro Suc.IH) auto
    from body_ok_emit [OF this d(4,5)] 3(1,7) d(6) t show ?case by (simp add: codes)
  next
    case (4 c p)
    then show ?case by (auto simp: body_ok_def codes)
  qed
qed simp

text \<open>Any number of buffers: only the bytes matter, not where they are cut.\<close>

definition read_ok :: "request_body \<Rightarrow> bytes list \<Rightarrow> ck_result \<Rightarrow> (int + request_body \<times> bytes) option \<Rightarrow> bool" where
  "read_ok rb bufs run x =
     (case run of
        CkBad \<Rightarrow> x = Some (Inl NGX_HTTP_BAD_REQUEST)
      | CkMore s z out \<Rightarrow>
          (\<exists>rb'. x = Some (Inr (rb', [])) \<and> ck_norm (rb_chunked rb') = s \<and> ck_size (rb_chunked rb') = z
             \<and> rb_rest rb' \<noteq> 0 \<and> concat (rb_out rb') = concat (rb_out rb) @ out
             \<and> content_length_n rb' = content_length_n rb + int (length out))
      | CkEnd out rest \<Rightarrow>
          (\<exists>rb' left unread. x = Some (Inr (rb', left)) \<and> rest = left @ concat unread \<and> suffix unread bufs
             \<and> rb_rest rb' = 0 \<and> concat (rb_out rb') = concat (rb_out rb) @ out
             \<and> content_length_n rb' = content_length_n rb + int (length out)))"

lemma read_ok_emit:
  assumes "read_ok rb' bufs run x" "concat (rb_out rb') = concat (rb_out rb) @ d"
    "content_length_n rb' = content_length_n rb + int (length d)"
  shows "read_ok rb (buf # bufs) (emit d run) x"
  using assms by (cases run) (auto simp: read_ok_def intro: suffix_ConsI, blast intro: suffix_ConsI)

lemma read_chunked_follows:
  "ck_wf (rb_chunked rb) \<Longrightarrow> rb_rest rb \<noteq> 0 \<Longrightarrow>
   read_ok rb bufs (ck_run (ck_norm (rb_chunked rb)) (ck_size (rb_chunked rb)) (concat bufs))
     (read_chunked True 0 rb bufs)"
proof (induction bufs arbitrary: rb)
  case Nil
  then show ?case by (simp add: read_ok_def)
next
  case (Cons buf bufs)
  let ?run = "ck_run (ck_norm (rb_chunked rb)) (ck_size (rb_chunked rb))"
  have f: "body_ok rb buf (?run buf) (chunked_filter_loop (Suc (length buf)) True 0 rb buf 0)"
    using chunked_filter_follows [of rb 0 buf "Suc (length buf)"] Cons.prems by simp
  show ?case
  proof (cases "?run buf")
    case CkBad
    with f show ?thesis by (simp add: read_ok_def body_ok_def ck_run_append del: chunked_filter_loop.simps)
  next
    case (CkEnd out rest)
    with f obtain rb' p where "chunked_filter_loop (Suc (length buf)) True 0 rb buf 0 = Some (Inr (rb', p))"
      "drop p buf = rest" "rb_rest rb' = 0" "concat (rb_out rb') = concat (rb_out rb) @ out"
      "content_length_n rb' = content_length_n rb + int (length out)"
      by (auto simp: body_ok_def simp del: chunked_filter_loop.simps)
    with CkEnd show ?thesis
      by (auto simp: read_ok_def ck_run_append suffix_ConsI simp del: chunked_filter_loop.simps intro!: exI [of _ bufs])
  next
    case (CkMore s z out)
    with f obtain rb' where rb': "chunked_filter_loop (Suc (length buf)) True 0 rb buf 0 = Some (Inr (rb', length buf))"
      "ck_norm (rb_chunked rb') = s" "ck_size (rb_chunked rb') = z" "ck_wf (rb_chunked rb')" "rb_rest rb' = ck_rest s z"
      "concat (rb_out rb') = concat (rb_out rb) @ out"
      "content_length_n rb' = content_length_n rb + int (length out)"
      by (auto simp: body_ok_def simp del: chunked_filter_loop.simps)
    then have rest: "rb_rest rb' \<noteq> 0"
      using ck_rest_range [of z s] by (auto simp: ck_wf_def ck_inv_def)
    have "read_ok rb' bufs (ck_run s z (concat bufs)) (read_chunked True 0 rb' bufs)"
      using Cons.IH [OF rb'(4) rest] rb'(2,3) by simp
    then have "read_ok rb (buf # bufs) (emit out (ck_run s z (concat bufs))) (read_chunked True 0 rb' bufs)"
      using rb'(6,7) by (intro read_ok_emit)
    then show ?thesis using rb'(1) rest CkMore by (simp add: ck_run_append del: chunked_filter_loop.simps)
  qed
qed

section \<open>Well-formed bodies\<close>

text \<open>
  The grammar of a body: an extension starts with a semicolon, a space or a tab; a chunk has
  its size in hexadecimal; the last chunk has size zero and is followed by trailer lines.
\<close>

definition no_crlf :: "bytes \<Rightarrow> bool" where
  "no_crlf xs \<longleftrightarrow> CR \<notin> set xs \<and> LF \<notin> set xs"

definition is_ext :: "bytes \<Rightarrow> bool" where
  "is_ext e \<longleftrightarrow> no_crlf e \<and> (e \<noteq> [] \<longrightarrow> hd e \<in> {ch_semi, ch_sp, ch_tab})"

definition is_size :: "bytes \<Rightarrow> nat \<Rightarrow> bool" where
  "is_size h n \<longleftrightarrow> h \<noteq> [] \<and> list_all is_hex h \<and> hex_acc 0 h = int n \<and> int n \<le> NGX_MAX_OFF_T_VALUE div 16"

fun chunk :: "bytes \<times> bytes \<times> bytes \<Rightarrow> bytes" where
  "chunk (h, e, d) = h @ e @ [CR, LF] @ d @ [CR, LF]"

fun chunk_ok :: "bytes \<times> bytes \<times> bytes \<Rightarrow> bool" where
  "chunk_ok (h, e, d) \<longleftrightarrow> d \<noteq> [] \<and> is_size h (length d) \<and> is_ext e"

definition last_chunk :: "bytes \<Rightarrow> bytes \<Rightarrow> bytes list \<Rightarrow> bytes" where
  "last_chunk h e tr = h @ e @ [CR, LF] @ concat (map (\<lambda>l. l @ [CR, LF]) tr) @ [CR, LF]"

lemma ck_run_hex:
  assumes "list_all is_hex h" "0 \<le> z" "hex_acc z h \<le> NGX_MAX_OFF_T_VALUE div 16"
  shows "ck_run ck_chunk_size z (h @ ys) = ck_run ck_chunk_size (hex_acc z h) ys"
  using assms
proof (induction h arbitrary: z)
  case (Cons c h)
  have c: "is_hex c" "0 \<le> hex_val c" "hex_val c < 16" using Cons.prems(1) hex_val_bounds [of c] by auto
  have le: "z * 16 + hex_val c \<le> NGX_MAX_OFF_T_VALUE div 16"
    using hex_acc_ge [of "z * 16 + hex_val c" h] Cons.prems c by auto
  have "ck_step [] c ck_chunk_size (ck_ctx z) = ck_grow (hex_val c) (ck_ctx z)"
    using c le Cons.prems(2) by (auto simp: ck_do_chunk_size_def Let_def ck_ctx_def is_hex_def hex_val_def is_digit_def max_defs)
  moreover have "ck_grow (hex_val c) (ck_ctx z) = Next ck_chunk_size (ck_ctx (z * 16 + hex_val c))"
    using ck_grow_next [of "ck_ctx z" "hex_val c"] c le Cons.prems(2) by (simp add: ck_ctx_def max_defs)
  ultimately show ?case
    using Cons.IH [of "z * 16 + hex_val c"] Cons.prems c le by (simp add: ck_ctx_def max_defs)
qed simp

lemma ck_run_size:
  assumes "is_size h n"
  shows "ck_run ck_chunk_start z (h @ ys) = ck_run ck_chunk_size (int n) ys"
proof (cases h)
  case (Cons c cs)
  have c: "is_hex c" "0 \<le> hex_val c" "hex_val c < 16" using assms Cons hex_val_bounds [of c] by (auto simp: is_size_def)
  then have "ck_step [] c ck_chunk_start (ck_ctx z) = Next ck_chunk_size (ck_ctx (hex_val c))"
    by (auto simp: ck_do_chunk_start_def Let_def ck_ctx_def is_hex_def hex_val_def is_digit_def)
  with c have "ck_run ck_chunk_start z (h @ ys) = ck_run ck_chunk_size (hex_val c) (cs @ ys)"
    using Cons by (simp add: ck_ctx_def max_defs)
  with ck_run_hex [of cs "hex_val c" ys] assms Cons c show ?thesis by (auto simp: is_size_def)
qed (use assms in \<open>simp add: is_size_def\<close>)

text \<open>The rest of a line.\<close>

lemma ck_run_skip:
  assumes "no_crlf e" "z \<le> ck_max" "s \<noteq> ck_chunk_data" "\<And>c ctx. ck_step [] c s ctx = ck_skip_line cr lf s c ctx"
  shows "ck_run s z (e @ CR # ys) = ck_run cr z ys"
  using assms(1,2)
proof (induction e)
  case Nil
  with assms(3) show ?case by (simp add: assms(4) ck_skip_line_def ck_ctx_def)
next
  case (Cons c e)
  with assms(3) show ?case by (auto simp: assms(4) ck_skip_line_def ck_ctx_def no_crlf_def)
qed

lemma ck_run_size_line:
  assumes "is_ext e" "0 \<le> z" "z \<le> NGX_MAX_OFF_T_VALUE div 16"
  shows "ck_run ck_chunk_size z (e @ CR # LF # ys) = ck_run (if z = 0 then ck_trailer else ck_chunk_data) z ys"
proof -
  have z: "z \<le> ck_max" using assms(3) by (simp add: max_defs)
  show ?thesis
  proof (cases e)
    case Nil
    with assms z show ?thesis
      by (auto simp: ck_do_chunk_size_def Let_def ck_ctx_def ck_expect_lf_def)
  next
    case (Cons c cs)
    with assms have c: "c \<in> {ch_semi, ch_sp, ch_tab}" and cs: "no_crlf cs" by (auto simp: is_ext_def no_crlf_def)
    have "ck_step [] c ck_chunk_size (ck_ctx z) =
        Next (if z = 0 then ck_last_chunk_extension else ck_chunk_extension) (ck_ctx z)"
      using c assms(2,3) by (auto simp: ck_do_chunk_size_def Let_def ck_ctx_def)
    then have "ck_run ck_chunk_size z (e @ CR # LF # ys) =
        ck_run (if z = 0 then ck_last_chunk_extension else ck_chunk_extension) z (cs @ CR # LF # ys)"
      using Cons z by (simp add: ck_ctx_def)
    also have "\<dots> = ck_run (if z = 0 then ck_last_chunk_extension_almost_done else ck_chunk_extension_almost_done) z (LF # ys)"
      using ck_run_skip [OF cs z, of ck_last_chunk_extension ck_last_chunk_extension_almost_done ck_trailer "LF # ys"]
        ck_run_skip [OF cs z, of ck_chunk_extension ck_chunk_extension_almost_done ck_chunk_data "LF # ys"]
      by (auto simp del: ck_run.simps)
    also have "\<dots> = ck_run (if z = 0 then ck_trailer else ck_chunk_data) z ys"
      using z by (auto simp: ck_expect_lf_def ck_ctx_def)
    finally show ?thesis .
  qed
qed

lemma ck_run_chunk:
  assumes "chunk_ok c"
  shows "ck_run ck_chunk_start z (chunk c @ ys) = emit (snd (snd c)) (ck_run ck_chunk_start 0 ys)"
proof -
  obtain h e d where c: "c = (h, e, d)" by (cases c) auto
  with assms have d: "d \<noteq> []" and h: "is_size h (length d)" and e: "is_ext e" by auto
  have "ck_run ck_chunk_start z (chunk c @ ys) = ck_run ck_chunk_size (int (length d)) (e @ CR # LF # d @ CR # LF # ys)"
    using ck_run_size [OF h] c by simp
  also have "\<dots> = ck_run ck_chunk_data (int (length d)) (d @ CR # LF # ys)"
    using ck_run_size_line [OF e] h d by (simp add: is_size_def)
  also have "\<dots> = emit d (ck_run ck_after_data 0 (CR # LF # ys))"
    using ck_run_data [of "length d"] d by simp
  also have "ck_run ck_after_data 0 (CR # LF # ys) = ck_run ck_chunk_start 0 ys"
    by (simp add: ck_skip_line_def ck_expect_lf_def ck_ctx_def max_defs)
  finally show ?thesis using c by simp
qed

lemma ck_run_trailers:
  assumes "\<forall>l \<in> set tr. l \<noteq> [] \<and> no_crlf l"
  shows "ck_run ck_trailer 0 (concat (map (\<lambda>l. l @ [CR, LF]) tr) @ CR # LF # ys) = CkEnd [] ys"
  using assms
proof (induction tr)
  case Nil
  then show ?case by (simp add: ck_do_trailer_def ck_do_trailer_almost_done_def ck_ctx_def max_defs)
next
  case (Cons l tr)
  then obtain c cs where l: "l = c # cs" "c \<noteq> CR" "c \<noteq> LF" "no_crlf cs" by (cases l) (auto simp: no_crlf_def)
  have "ck_run ck_trailer 0 (l @ CR # LF # xs) = ck_run ck_trailer 0 xs" for xs
  proof -
    have "ck_run ck_trailer 0 (l @ CR # LF # xs) = ck_run ck_trailer_header 0 (cs @ CR # LF # xs)"
      using l by (simp add: ck_do_trailer_def ck_ctx_def max_defs)
    also have "\<dots> = ck_run ck_trailer_header_almost_done 0 (LF # xs)"
      using l(4) by (intro ck_run_skip) (auto simp: max_defs)
    finally show ?thesis by (simp add: ck_expect_lf_def ck_ctx_def max_defs)
  qed
  with Cons show ?case by simp
qed

lemma ck_run_body:
  assumes "list_all chunk_ok cs" "is_size h 0" "is_ext e" "\<forall>l \<in> set tr. l \<noteq> [] \<and> no_crlf l"
  shows "ck_run ck_chunk_start z (concat (map chunk cs) @ last_chunk h e tr @ rest)
    = CkEnd (concat (map (\<lambda>c. snd (snd c)) cs)) rest"
  using assms(1)
proof (induction cs arbitrary: z)
  case Nil
  show ?case
    using ck_run_size [OF assms(2)] ck_run_size_line [OF assms(3)] ck_run_trailers [OF assms(4)]
    by (simp add: last_chunk_def max_defs)
next
  case (Cons c cs)
  then show ?case by (simp add: ck_run_chunk)
qed

section \<open>The body size limit\<close>

lemma body_take_length:
  assumes "body_take rb ctx buf p = (rb', p')" "0 \<le> ck_size ctx"
  shows "content_length_n rb' \<le> content_length_n rb + ck_size ctx"
  using assms by (auto simp: body_take_def Let_def split: if_splits)

lemma filter_limit:
  assumes "0 < m" "ck_wf (rb_chunked rb)" "pos \<le> length buf" "content_length_n rb \<le> m"
  shows "chunked_filter_loop fuel True m rb buf pos = Some (Inl NGX_HTTP_REQUEST_ENTITY_TOO_LARGE) \<or>
    (\<forall>rb' p. chunked_filter_loop fuel True m rb buf pos = Some (Inr (rb', p)) \<longrightarrow> content_length_n rb' \<le> m)
    \<and> chunked_filter_loop fuel True m rb buf pos = chunked_filter_loop fuel True 0 rb buf pos"
  using assms(2-)
proof (induction fuel arbitrary: rb pos)
  case (Suc fuel)
  note codes = NGX_OK_def NGX_DONE_def NGX_AGAIN_def NGX_ERROR_def
  show ?case
  proof (rule ck_parse_cases [OF Suc.prems(1,2)], goal_cases)
    case (3 c p)
    obtain rb' p' where t: "body_take rb c buf p = (rb', p')" by (cases "body_take rb c buf p")
    have wf: "ck_wf (rb_chunked rb') \<and> p' \<le> length buf" using body_take_follows [OF 3(4,5,6,3) t] by blast
    show ?case
    proof (cases "m - content_length_n rb < ck_size c")
      case True
      with 3(1) assms(1) show ?thesis by (simp add: codes)
    next
      case False
      then have "content_length_n rb' \<le> m" using body_take_length [OF t] 3(5) by simp
      with Suc.IH [of rb' p'] wf 3(1) t False show ?thesis by (simp add: codes)
    qed
  qed (use Suc.prems in \<open>auto simp: codes split: prod.splits\<close>)
qed simp

lemma read_limit:
  assumes "0 < m" "ck_wf (rb_chunked rb)" "rb_rest rb \<noteq> 0" "content_length_n rb \<le> m"
  shows "read_chunked True m rb bufs = Some (Inl NGX_HTTP_REQUEST_ENTITY_TOO_LARGE) \<or>
    (\<forall>rb' left. read_chunked True m rb bufs = Some (Inr (rb', left)) \<longrightarrow> content_length_n rb' \<le> m)
    \<and> read_chunked True m rb bufs = read_chunked True 0 rb bufs"
  using assms(2-)
proof (induction bufs arbitrary: rb)
  case (Cons buf bufs)
  let ?x = "chunked_filter_loop (Suc (length buf)) True"
  have lim: "?x m rb buf 0 = Some (Inl NGX_HTTP_REQUEST_ENTITY_TOO_LARGE) \<or>
    (\<forall>rb' p. ?x m rb buf 0 = Some (Inr (rb', p)) \<longrightarrow> content_length_n rb' \<le> m) \<and> ?x m rb buf 0 = ?x 0 rb buf 0"
    using filter_limit [OF assms(1) Cons.prems(1)] Cons.prems(3) by blast
  have f: "body_ok rb buf (ck_run (ck_norm (rb_chunked rb)) (ck_size (rb_chunked rb)) buf) (?x 0 rb buf 0)"
    using chunked_filter_follows [of rb 0 buf "Suc (length buf)"] Cons.prems by simp
  have wf: "ck_wf (rb_chunked rb')" if "?x 0 rb buf 0 = Some (Inr (rb', p))" "rb_rest rb' \<noteq> 0" for rb' p
    using f that by (auto simp: body_ok_def simp del: chunked_filter_loop.simps split: ck_result.splits)
  from lim show ?case
  proof (elim disjE conjE)
    assume "\<forall>rb' p. ?x m rb buf 0 = Some (Inr (rb', p)) \<longrightarrow> content_length_n rb' \<le> m" "?x m rb buf 0 = ?x 0 rb buf 0"
    with Cons.IH wf show ?thesis
      by (auto simp del: chunked_filter_loop.simps split: option.split sum.split)
  qed (simp del: chunked_filter_loop.simps)
qed (use assms in simp)

section \<open>Properties\<close>

lemma new_body_wf: "ck_wf (rb_chunked new_body)" "rb_rest new_body \<noteq> 0" "ck_norm (rb_chunked new_body) = ck_chunk_start"
    "ck_size (rb_chunked new_body) = 0" "rb_out new_body = []" "content_length_n new_body = 0"
  by (simp_all add: new_body_def ck_wf_def ck_norm_def ck_inv_def max_defs)

text \<open>
  C6. Refinement: reading a chunked body, whatever the bytes and however they are cut into
  buffers, does what the byte machine does on the concatenation: it refuses the body, waits for
  more with the same bytes taken, or ends with the same body and the same bytes left over. It
  is never undefined, and the loop ends within the fuel.
\<close>

theorem chunked_refines_machine:
  "read_ok new_body bufs (ck_run ck_chunk_start 0 (concat bufs)) (read_chunked True 0 new_body bufs)"
  using read_chunked_follows [of new_body bufs] new_body_wf by simp

text \<open>
  C5. Decoding a well-formed chunked body gives the data: for any chunks with sizes in
  hexadecimal and extensions, a last chunk with trailers, and any bytes behind it, cut into
  buffers in any way, the filter hands on exactly the data of the chunks, counts its length,
  wants no more bytes, and leaves what follows the body unread.
\<close>

theorem chunked_decodes:
  assumes "list_all chunk_ok cs" "is_size h 0" "is_ext e" "\<forall>l \<in> set tr. l \<noteq> [] \<and> no_crlf l"
    and "concat bufs = concat (map chunk cs) @ last_chunk h e tr @ rest"
  shows "\<exists>rb left unread. read_chunked True 0 new_body bufs = Some (Inr (rb, left))
    \<and> left @ concat unread = rest \<and> suffix unread bufs \<and> rb_rest rb = 0
    \<and> concat (rb_out rb) = concat (map (\<lambda>c. snd (snd c)) cs)
    \<and> content_length_n rb = int (length (concat (rb_out rb)))"
  using read_chunked_follows [of new_body bufs] new_body_wf ck_run_body [OF assms(1-4)] assms(5)
  by (auto simp: read_ok_def)

theorem chunked_decodes_witness:
  "\<exists>rb left unread. read_chunked True 0 new_body
       [bytes_of ''3;x'' @ [CR], [LF] @ bytes_of ''ab'', bytes_of ''c'' @ [CR, LF] @ bytes_of ''0'', [CR, LF, CR, LF] @ bytes_of ''GET'']
     = Some (Inr (rb, left))
    \<and> left @ concat unread = bytes_of ''GET''
    \<and> suffix unread [bytes_of ''3;x'' @ [CR], [LF] @ bytes_of ''ab'', bytes_of ''c'' @ [CR, LF] @ bytes_of ''0'', [CR, LF, CR, LF] @ bytes_of ''GET'']
    \<and> rb_rest rb = 0 \<and> concat (rb_out rb) = concat (map (\<lambda>c. snd (snd c)) [(bytes_of ''3'', bytes_of '';x'', bytes_of ''abc'')])
    \<and> content_length_n rb = int (length (concat (rb_out rb)))"
  by (rule chunked_decodes [where h = "bytes_of ''0''" and e = "[]" and tr = "[]"])
    (simp_all add: is_size_def is_ext_def no_crlf_def bytes_of_def is_hex_def hex_val_def is_digit_def
      last_chunk_def max_defs)

text \<open>
  C7. The limit of the body size: with a positive \<^verbatim>\<open>client_max_body_size\<close> reading either
  ends with 413 or gives what it gives without the limit, and then never takes more data than
  the limit.
\<close>

theorem chunked_body_limited:
  assumes "0 < m"
  shows "read_chunked True m new_body bufs = Some (Inl NGX_HTTP_REQUEST_ENTITY_TOO_LARGE) \<or>
    read_chunked True m new_body bufs = read_chunked True 0 new_body bufs
    \<and> (\<forall>rb left. read_chunked True m new_body bufs = Some (Inr (rb, left)) \<longrightarrow> int (length (concat (rb_out rb))) \<le> m)"
proof -
  have "content_length_n rb = int (length (concat (rb_out rb)))"
    if "read_chunked True 0 new_body bufs = Some (Inr (rb, left))" for rb left
    using read_chunked_follows [of new_body bufs] new_body_wf that
    by (auto simp: read_ok_def split: ck_result.splits)
  with read_limit [OF assms new_body_wf(1,2)] new_body_wf(6) assms show ?thesis by fastforce
qed

theorem chunked_body_limited_witness:
  "read_chunked True 2 new_body [bytes_of ''3'' @ [CR, LF] @ bytes_of ''abc''] = Some (Inl NGX_HTTP_REQUEST_ENTITY_TOO_LARGE) \<or>
    read_chunked True 2 new_body [bytes_of ''3'' @ [CR, LF] @ bytes_of ''abc'']
      = read_chunked True 0 new_body [bytes_of ''3'' @ [CR, LF] @ bytes_of ''abc'']
    \<and> (\<forall>rb left. read_chunked True 2 new_body [bytes_of ''3'' @ [CR, LF] @ bytes_of ''abc''] = Some (Inr (rb, left))
        \<longrightarrow> int (length (concat (rb_out rb))) \<le> 2)"
  by (rule chunked_body_limited) simp

text \<open>
  The states after the data of a chunk skip bytes up to the end of the line: the bytes
  \<open>XYZ\<close> behind the five bytes of data are dropped without an error.
\<close>

theorem chunked_junk_skipped:
  "ck_run ck_chunk_start 0 (bytes_of ''5'' @ [CR, LF] @ bytes_of ''helloXYZ'' @ [CR, LF] @ bytes_of ''0'' @ [CR, LF, CR, LF])
   = CkEnd (bytes_of ''hello'') []"
  by (simp add: bytes_of_def ck_do_chunk_start_def ck_do_chunk_size_def ck_skip_line_def ck_expect_lf_def
      ck_do_trailer_def ck_do_trailer_almost_done_def ck_ctx_def Let_def max_defs)

end
