(* ===== verification/Ngx_Uri.thy ===== *)
theory Ngx_Uri
  imports Ngx_Request_Line Ngx_Num
begin

text \<open>
  URIs: \<^verbatim>\<open>ngx_http_parse_uri\<close>, which looks for what needs rewriting,
  \<^verbatim>\<open>ngx_http_parse_complex_uri\<close>, which decodes and normalises (both of \<^verbatim>\<open>ngx_http_parse.c\<close>), and
  \<^verbatim>\<open>ngx_http_process_request_uri\<close> of \<^verbatim>\<open>ngx_http_request.c\<close>, which calls the second when the first
  found a reason to. The specification of the normalisation is a stack of path segments.
\<close>

section \<open>The complex URI parser\<close>

text \<open>
  The states; the two states of an escape carry \<^verbatim>\<open>quoted_state\<close> and \<^verbatim>\<open>decoded\<close>, which are read in
  them only.
\<close>

datatype cu_path = cu_usual | cu_slash | cu_dot | cu_dot_dot

datatype cu_state = cu_path cu_path | cu_quoted cu_path | cu_quoted_second cu_path u_char

text \<open>
  The fields it writes: the bytes from \<^verbatim>\<open>r->uri.data\<close> to \<^verbatim>\<open>u\<close>, \<^verbatim>\<open>uri_ext\<close> and \<^verbatim>\<open>exten\<close> as offsets into
  them, \<^verbatim>\<open>args_start\<close> and \<^verbatim>\<open>args\<close> as offsets from \<^verbatim>\<open>uri_start\<close>, with lengths.
\<close>

record uri_request =
  cu_uri :: bytes
  cu_ext :: "nat option"
  cu_args_start :: "nat option"
  cu_args :: "(nat \<times> nat) option"
  cu_exten :: "(nat \<times> nat) option"
  cu_quoted_uri :: bool
  cu_plus_in_uri :: bool

text \<open>The fields of a new request.\<close>

definition new_uri :: uri_request where
  "new_uri = \<lparr> cu_uri = [], cu_ext = None, cu_args_start = None, cu_args = None, cu_exten = None, cu_quoted_uri = False, cu_plus_in_uri = False \<rparr>"

text \<open>One iteration: read the next byte, go on with a decoded byte, leave by a \<^verbatim>\<open>goto\<close>, or return.\<close>

datatype cu_act = Advance cu_state uri_request | Stay cu_state u_char uri_request
  | ToArgs uri_request | ToDone uri_request | CuInvalid

abbreviation cu_put :: "u_char \<Rightarrow> uri_request \<Rightarrow> uri_request" where
  "cu_put ch r \<equiv> r\<lparr>cu_uri := cu_uri r @ [ch]\<rparr>"

text \<open>The cases all path states share.\<close>

definition cu_other :: "cu_path \<Rightarrow> u_char \<Rightarrow> nat \<Rightarrow> uri_request \<Rightarrow> cu_act" where
  "cu_other q ch p r =
     (if ch = ch_percent then Advance (cu_quoted q) r
      else if ch = ch_quest then ToArgs (r\<lparr>cu_args_start := Some p\<rparr>)
      else if ch = ch_hash then ToDone r
      else if ch = ch_plus then Advance (cu_path cu_usual) (cu_put ch (r\<lparr>cu_plus_in_uri := True\<rparr>))
      else Advance (cu_path cu_usual) (cu_put ch r))"

definition cu_do_usual :: "u_char \<Rightarrow> nat \<Rightarrow> uri_request \<Rightarrow> cu_act" where
  "cu_do_usual ch p r =
     (if tab_bit usual ch then Advance (cu_path cu_usual) (cu_put ch r)
      else if ch = ch_slash then Advance (cu_path cu_slash) (cu_put ch (r\<lparr>cu_ext := None\<rparr>))
      else if ch = ch_dot then
        Advance (cu_path cu_usual) (cu_put ch (r\<lparr>cu_ext := Some (length (cu_uri r) + 1)\<rparr>))
      else cu_other cu_usual ch p r)"

definition cu_do_slash :: "bool \<Rightarrow> u_char \<Rightarrow> nat \<Rightarrow> uri_request \<Rightarrow> cu_act" where
  "cu_do_slash merge_slashes ch p r =
     (if tab_bit usual ch then Advance (cu_path cu_usual) (cu_put ch r)
      else if ch = ch_slash then
        Advance (cu_path cu_slash) (if \<not> merge_slashes then cu_put ch r else r)
      else if ch = ch_dot then Advance (cu_path cu_dot) (cu_put ch r)
      else cu_other cu_slash ch p r)"

definition cu_do_dot :: "u_char \<Rightarrow> nat \<Rightarrow> uri_request \<Rightarrow> cu_act" where
  "cu_do_dot ch p r =
     (if tab_bit usual ch then Advance (cu_path cu_usual) (cu_put ch r)
      else if ch = ch_slash then Advance (cu_path cu_slash) (r\<lparr>cu_uri := butlast (cu_uri r)\<rparr>)
      else if ch = ch_dot then Advance (cu_path cu_dot_dot) (cu_put ch r)
      else cu_other cu_dot ch p r)"

text \<open>
  Going up: \<^verbatim>\<open>u -= 5\<close>, then back to a slash. The argument of \<open>cu_back\<close> is the bytes from \<^verbatim>\<open>*u\<close>
  back to the first; \<open>None\<close> is \<^verbatim>\<open>u < r->uri.data\<close>.
\<close>

fun cu_back :: "bytes \<Rightarrow> bytes option" where
  "cu_back [] = None"
| "cu_back (c # cs) = (if c = ch_slash then Some (rev (c # cs)) else cu_back cs)"

definition cu_up :: "bytes \<Rightarrow> bytes option" where
  "cu_up out = cu_back (drop 4 (rev out))"

definition cu_do_dot_dot :: "u_char \<Rightarrow> nat \<Rightarrow> uri_request \<Rightarrow> cu_act" where
  "cu_do_dot_dot ch p r =
     (if tab_bit usual ch then Advance (cu_path cu_usual) (cu_put ch r)
      else if ch = ch_slash then
        (case cu_up (cu_uri r) of
           None \<Rightarrow> CuInvalid
         | Some out \<Rightarrow> Advance (cu_path cu_slash) (r\<lparr>cu_uri := out\<rparr>))
      else cu_other cu_dot_dot ch p r)"

definition cu_do_quoted :: "cu_path \<Rightarrow> u_char \<Rightarrow> uri_request \<Rightarrow> cu_act" where
  "cu_do_quoted q ch r =
     (let r = r\<lparr>cu_quoted_uri := True\<rparr> in
      if ch \<ge> ch_0 \<and> ch \<le> ch_9 then Advance (cu_quoted_second q (ch - ch_0)) r
      else
        (let c = ch OR 0x20 in
         if c \<ge> ch_a \<and> c \<le> ch_f then Advance (cu_quoted_second q (c - ch_a + 10)) r
         else CuInvalid))"

definition cu_do_quoted_second :: "cu_path \<Rightarrow> u_char \<Rightarrow> u_char \<Rightarrow> uri_request \<Rightarrow> cu_act" where
  "cu_do_quoted_second q decoded ch r =
     (if ch \<ge> ch_0 \<and> ch \<le> ch_9 then
        (let ch = push_bit 4 decoded + ch - ch_0 in
         if ch = ch_percent \<or> ch = ch_hash then Advance (cu_path cu_usual) (cu_put ch r)
         else if ch = 0 then CuInvalid
         else Stay (cu_path q) ch r)
      else
        (let c = ch OR 0x20 in
         if c \<ge> ch_a \<and> c \<le> ch_f then
           (let ch = push_bit 4 decoded + c - ch_a + 10 in
            if ch = ch_quest then Advance (cu_path cu_usual) (cu_put ch r)
            else if ch = ch_plus then Stay (cu_path q) ch (r\<lparr>cu_plus_in_uri := True\<rparr>)
            else Stay (cu_path q) ch r)
         else CuInvalid))"

fun cu_step :: "bool \<Rightarrow> cu_state \<Rightarrow> u_char \<Rightarrow> nat \<Rightarrow> uri_request \<Rightarrow> cu_act" where
  "cu_step merge_slashes (cu_path cu_usual) ch p r = cu_do_usual ch p r"
| "cu_step merge_slashes (cu_path cu_slash) ch p r = cu_do_slash merge_slashes ch p r"
| "cu_step merge_slashes (cu_path cu_dot) ch p r = cu_do_dot ch p r"
| "cu_step merge_slashes (cu_path cu_dot_dot) ch p r = cu_do_dot_dot ch p r"
| "cu_step merge_slashes (cu_quoted q) ch p r = cu_do_quoted q ch r"
| "cu_step merge_slashes (cu_quoted_second q decoded) ch p r = cu_do_quoted_second q decoded ch r"

text \<open>The code behind both labels, and the search for the fragment behind the arguments.\<close>

definition cu_done :: "uri_request \<Rightarrow> uri_request" where
  "cu_done r =
     (case cu_ext r of
        None \<Rightarrow> r\<lparr>cu_ext := None\<rparr>
      | Some e \<Rightarrow> r\<lparr>cu_exten := Some (e, length (cu_uri r) - e), cu_ext := None\<rparr>)"

fun cu_find_hash :: "nat \<Rightarrow> nat \<Rightarrow> bytes \<Rightarrow> uri_request \<Rightarrow> uri_request" where
  "cu_find_hash start p [] r = r"
| "cu_find_hash start p (c # cs) r =
     (if c \<noteq> ch_hash then cu_find_hash start (p + 1) cs r
      else r\<lparr>cu_args := Some (start, p - start), cu_args_start := None\<rparr>)"

text \<open>
  The loop: the list holds the byte in \<^verbatim>\<open>ch\<close> and the rest of the URI, \<open>p\<close> is the pointer behind
  \<^verbatim>\<open>ch\<close>. Only the second digit of an escape goes on without reading.
\<close>

lemma cu_do_no_stay [simp]:
  "cu_other q ch p r \<noteq> Stay s c r'" "cu_do_usual ch p r \<noteq> Stay s c r'" "cu_do_slash m ch p r \<noteq> Stay s c r'"
  "cu_do_dot ch p r \<noteq> Stay s c r'" "cu_do_dot_dot ch p r \<noteq> Stay s c r'" "cu_do_quoted q ch r \<noteq> Stay s c r'"
  by (auto simp: cu_other_def cu_do_usual_def cu_do_slash_def cu_do_dot_def cu_do_dot_dot_def
      cu_do_quoted_def Let_def split: option.split)

definition cu_pending :: "cu_state \<Rightarrow> nat" where
  "cu_pending s = (case s of cu_quoted_second q d \<Rightarrow> 1 | _ \<Rightarrow> 0)"

lemma cu_step_stay: "cu_step m s ch p r = Stay s' c r' \<Longrightarrow> cu_pending s' < cu_pending s"
  by (cases "(m, s, ch, p, r)" rule: cu_step.cases)
    (auto simp: cu_do_quoted_second_def cu_pending_def Let_def split: if_splits)

function cu_loop :: "bool \<Rightarrow> cu_state \<Rightarrow> uri_request \<Rightarrow> bytes \<Rightarrow> nat \<Rightarrow> int + uri_request" where
  "cu_loop merge_slashes s r [] p = Inr (cu_done r)"
| "cu_loop merge_slashes s r (ch # rest) p =
     (case cu_step merge_slashes s ch p r of
        Advance s' r' \<Rightarrow> cu_loop merge_slashes s' r' rest (p + 1)
      | Stay s' c r' \<Rightarrow> cu_loop merge_slashes s' r' (c # rest) p
      | ToArgs r' \<Rightarrow> Inr (cu_done (cu_find_hash p p rest r'))
      | ToDone r' \<Rightarrow> Inr (cu_done r')
      | CuInvalid \<Rightarrow> Inl NGX_HTTP_PARSE_INVALID_REQUEST)"
  by pat_completeness auto

termination
  by (relation "measures [\<lambda>(m, s, r, xs, p). length xs, \<lambda>(m, s, r, xs, p). cu_pending s]")
    (auto dest: cu_step_stay)

definition ngx_http_parse_complex_uri :: "uri_request \<Rightarrow> bool \<Rightarrow> bytes \<Rightarrow> int + uri_request" where
  "ngx_http_parse_complex_uri r merge_slashes uri =
     cu_loop merge_slashes (cu_path cu_usual) (r\<lparr>cu_uri := [], cu_ext := None, cu_args_start := None\<rparr>) uri 1"

section \<open>The specification: a stack of segments\<close>

text \<open>
  A path is a stack of finished segments and the segment being read. A slash closes the
  segment: \<open>.\<close> is dropped, \<open>..\<close> goes up, an empty one is dropped when slashes are merged, any
  other is pushed. Going up over an empty segment takes the one below with it.
\<close>

definition flat :: "bytes list \<Rightarrow> bytes \<Rightarrow> bytes" where
  "flat ss t = ch_slash # concat (map (\<lambda>s. s @ [ch_slash]) ss) @ t"

definition seg_up :: "bytes list \<Rightarrow> bytes list option" where
  "seg_up ss =
     (if ss = [] then None
      else if List.last ss \<noteq> [] then Some (butlast ss)
      else if butlast ss = [] then None
      else Some (butlast (butlast ss)))"

definition seg_close :: "bool \<Rightarrow> bytes list \<Rightarrow> bytes \<Rightarrow> bytes list option" where
  "seg_close merge ss t =
     (if t = [ch_dot] \<or> t = [] \<and> merge then Some ss
      else if t = [ch_dot, ch_dot] then seg_up ss
      else Some (ss @ [t]))"

fun seg_run :: "bool \<Rightarrow> bytes list \<Rightarrow> bytes \<Rightarrow> bytes \<Rightarrow> (bytes list \<times> bytes) option" where
  "seg_run merge ss t [] = Some (ss, t)"
| "seg_run merge ss t (c # cs) =
     (if c = ch_slash then
        (case seg_close merge ss t of None \<Rightarrow> None | Some ss' \<Rightarrow> seg_run merge ss' [] cs)
      else seg_run merge ss (t @ [c]) cs)"

text \<open>Decoding of escapes in a path: no raw question mark or hash, no coded null.\<close>

fun pct :: "bytes \<Rightarrow> bytes option" where
  "pct [] = Some []"
| "pct (c # cs) =
     (if c = ch_percent then
        (case cs of
           a # b # ds \<Rightarrow>
             if is_hex a \<and> is_hex b \<and> hex_val a * 16 + hex_val b \<noteq> 0
             then map_option ((#) (word_of_int (hex_val a * 16 + hex_val b))) (pct ds)
             else None
         | _ \<Rightarrow> None)
      else if c = ch_quest \<or> c = ch_hash then None
      else map_option ((#) c) (pct cs))"

section \<open>The parser follows the stack\<close>

text \<open>The state the parser is in while it reads a segment.\<close>

definition path_of :: "bytes \<Rightarrow> cu_path" where
  "path_of t = (if t = [] then cu_slash else if t = [ch_dot] then cu_dot
     else if t = [ch_dot, ch_dot] then cu_dot_dot else cu_usual)"

definition no_slash :: "bytes list \<Rightarrow> bytes \<Rightarrow> bool" where
  "no_slash ss t \<longleftrightarrow> (\<forall>s \<in> set (t # ss). ch_slash \<notin> set s)"

lemma cu_back_run: "ch_slash \<notin> set xs \<Longrightarrow> cu_back (xs @ ch_slash # ys) = Some (rev ys @ [ch_slash])"
  by (induction xs) auto

lemma cu_back_none: "ch_slash \<notin> set xs \<Longrightarrow> cu_back xs = None"
  by (induction xs) auto

lemma flat_snoc: "flat (ss @ [s]) t = flat ss s @ ch_slash # t"
  by (simp add: flat_def)

lemma flat_put: "flat ss t @ [c] = flat ss (t @ [c])"
  by (simp add: flat_def)

lemma rev_flat: "\<exists>ys. rev (flat ss []) = ch_slash # ys \<and> flat ss [] = rev ys @ [ch_slash]"
  by (cases ss rule: rev_cases) (auto simp: flat_def)

lemma flat_app: "flat ss t = flat ss [] @ t"
  by (simp add: flat_def)

lemma cu_up_flat:
  assumes "no_slash ss [ch_dot, ch_dot]"
  shows "cu_up (flat ss [ch_dot, ch_dot]) = map_option (\<lambda>ss'. flat ss' []) (seg_up ss)"
proof (cases ss rule: rev_cases)
  case Nil
  then show ?thesis by (simp add: cu_up_def flat_def seg_up_def)
next
  case (snoc ss' s)
  have s: "ch_slash \<notin> set s" using assms snoc by (simp add: no_slash_def)
  show ?thesis
  proof (cases s rule: rev_cases)
    case (snoc s' c)
    obtain ys where ys: "rev (flat ss' []) = ch_slash # ys" "flat ss' [] = rev ys @ [ch_slash]" using rev_flat by blast
    have "drop 4 (rev (flat ss [ch_dot, ch_dot])) = rev s' @ ch_slash # ys"
      using \<open>ss = ss' @ [s]\<close> snoc ys by (simp add: flat_snoc flat_app [of ss' "_ @ _"])
    with cu_back_run [of "rev s'" ys] s snoc ys \<open>ss = ss' @ [s]\<close> show ?thesis
      by (simp add: cu_up_def seg_up_def)
  next
    case Nil
    show ?thesis
    proof (cases ss' rule: rev_cases)
      case Nil
      with \<open>s = []\<close> snoc show ?thesis by (simp add: cu_up_def flat_def seg_up_def)
    next
      case (snoc ss2 s2)
      obtain ys where ys: "rev (flat ss2 []) = ch_slash # ys" "flat ss2 [] = rev ys @ [ch_slash]" using rev_flat by blast
      have s2: "ch_slash \<notin> set s2" using assms snoc \<open>ss = ss' @ [s]\<close> by (simp add: no_slash_def)
      have "drop 4 (rev (flat ss [ch_dot, ch_dot])) = rev s2 @ ch_slash # ys"
        using \<open>ss = ss' @ [s]\<close> \<open>s = []\<close> snoc ys flat_snoc [of "ss2 @ [s2]" "[]"] flat_snoc [of ss2 s2 "[]"]
        by (simp add: flat_app [of ss2 s2])
      with cu_back_run [of "rev s2" ys] s2 snoc ys \<open>s = []\<close> \<open>ss = ss' @ [s]\<close> show ?thesis
        by (simp add: cu_up_def seg_up_def butlast_append)
    qed
  qed
qed

lemma cu_up_prefix: "cu_up out = Some out' \<Longrightarrow> \<exists>zs. out = out' @ zs"
proof -
  have "cu_back xs = Some out' \<Longrightarrow> \<exists>zs. rev xs = out' @ zs" for xs
    by (induction xs) (auto split: if_splits)
  moreover have "out = rev (drop 4 (rev out)) @ rev (take 4 (rev out))"
    by (metis append_take_drop_id rev_append rev_rev_ident)
  ultimately show "cu_up out = Some out' \<Longrightarrow> \<exists>zs. out = out' @ zs"
    unfolding cu_up_def by (metis append.assoc)
qed

lemma seg_close_no_slash:
  assumes "no_slash ss t" "seg_close merge ss t = Some ss'"
  shows "no_slash ss' []"
  using assms by (auto simp: no_slash_def seg_close_def seg_up_def split: if_splits dest: in_set_butlastD)

text \<open>The extension: behind the last dot of the segment that is read in the usual state.\<close>

definition ext_of :: "bytes list \<Rightarrow> bytes \<Rightarrow> nat option" where
  "ext_of ss t =
     (let b = takeWhile (\<lambda>c. c \<noteq> ch_dot) (rev t); a = take (length t - length b - 1) t in
      if ch_dot \<in> set t \<and> path_of a = cu_usual then Some (length (flat ss a) + 1) else None)"

lemma ext_of_short: "path_of t \<noteq> cu_usual \<Longrightarrow> ext_of ss t = None"
  by (auto simp: path_of_def ext_of_def Let_def split: if_splits)

lemma ext_of_snoc:
  "ext_of ss (t @ [c]) =
     (if c = ch_dot \<and> path_of t = cu_usual then Some (length (flat ss t) + 1) else ext_of ss t)"
proof (cases "c = ch_dot")
  case True
  then show ?thesis using ext_of_short [of t ss] by (auto simp: ext_of_def)
next
  case False
  have "take (length t - length b) (t @ [c]) = take (length t - length b) t" for b :: bytes by simp
  with False show ?thesis by (simp add: ext_of_def Let_def)
qed

definition cu_at :: "uri_request \<Rightarrow> bytes list \<Rightarrow> bytes \<Rightarrow> bool" where
  "cu_at r ss t \<longleftrightarrow> cu_uri r = flat ss t \<and> cu_ext r = ext_of ss t \<and> no_slash ss t"

definition cu_same :: "uri_request \<Rightarrow> uri_request \<Rightarrow> bool" where
  "cu_same r r' \<longleftrightarrow> cu_args_start r' = cu_args_start r \<and> cu_args r' = cu_args r \<and> cu_exten r' = cu_exten r"

lemma usual_special: "tab_bit usual c \<Longrightarrow> c \<noteq> ch_slash \<and> c \<noteq> ch_dot \<and> c \<noteq> ch_percent \<and> c \<noteq> ch_quest \<and> c \<noteq> ch_hash \<and> c \<noteq> ch_plus \<and> c \<noteq> 0"
proof -
  have "\<not> tab_bit usual ch_slash" "\<not> tab_bit usual ch_dot" "\<not> tab_bit usual ch_percent" "\<not> tab_bit usual ch_quest"
    "\<not> tab_bit usual ch_hash" "\<not> tab_bit usual ch_plus" "\<not> tab_bit usual 0" by code_simp+
  then show "tab_bit usual c \<Longrightarrow> c \<noteq> ch_slash \<and> c \<noteq> ch_dot \<and> c \<noteq> ch_percent \<and> c \<noteq> ch_quest \<and> c \<noteq> ch_hash \<and> c \<noteq> ch_plus \<and> c \<noteq> 0"
    by auto
qed

lemma path_of_snoc:
  "path_of (t @ [c]) =
     (if c = ch_dot then (case path_of t of cu_slash \<Rightarrow> cu_dot | cu_dot \<Rightarrow> cu_dot_dot | _ \<Rightarrow> cu_usual) else cu_usual)"
  by (auto simp: path_of_def)

lemma cu_at_put:
  assumes "cu_at r ss t" "c \<noteq> ch_slash" "c \<noteq> ch_dot \<or> path_of t \<noteq> cu_usual"
  shows "cu_at (cu_put c r) ss (t @ [c])"
  using assms by (auto simp: cu_at_def flat_put no_slash_def ext_of_snoc)

text \<open>One byte of the path, literal or decoded.\<close>

lemma cu_path_plain:
  assumes "cu_at r ss t" "c \<notin> {ch_percent, ch_quest, ch_hash, ch_slash}"
  shows "\<exists>r'. cu_step m (cu_path (path_of t)) c p r = Advance (cu_path (path_of (t @ [c]))) r'
    \<and> cu_at r' ss (t @ [c]) \<and> cu_same r r' \<and> cu_uri r' = cu_uri r @ [c]"
proof -
  have put: "cu_at (cu_put c (r\<lparr>cu_plus_in_uri := b\<rparr>)) ss (t @ [c])" if "c \<noteq> ch_dot \<or> path_of t \<noteq> cu_usual" for b
    using cu_at_put [of "r\<lparr>cu_plus_in_uri := b\<rparr>" ss t c] assms that by (simp add: cu_at_def)
  have put0: "cu_at (cu_put c r) ss (t @ [c])" if "c \<noteq> ch_dot \<or> path_of t \<noteq> cu_usual"
    using cu_at_put [of r ss t c] assms that by simp
  have putd: "cu_at (cu_put c (r\<lparr>cu_ext := Some (length (cu_uri r) + 1)\<rparr>)) ss (t @ [c])" if "c = ch_dot" "path_of t = cu_usual"
    using assms that by (auto simp: cu_at_def flat_put no_slash_def ext_of_snoc)
  show ?thesis
    using assms(2) put put0 putd usual_special [of c]
    by (cases "path_of t")
      (auto simp: cu_do_usual_def cu_do_slash_def cu_do_dot_def cu_do_dot_dot_def cu_other_def path_of_snoc cu_same_def)
qed

lemma cu_path_slash:
  assumes "cu_at r ss t"
  shows "case seg_close m ss t of
      None \<Rightarrow> cu_step m (cu_path (path_of t)) ch_slash p r = CuInvalid
    | Some ss' \<Rightarrow> \<exists>r'. cu_step m (cu_path (path_of t)) ch_slash p r = Advance (cu_path (path_of [])) r'
        \<and> cu_at r' ss' [] \<and> cu_same r r' \<and> length (cu_uri r') \<le> Suc (length (cu_uri r)) \<and> set (cu_uri r') \<subseteq> set (cu_uri r)"
proof -
  have u: "\<not> tab_bit usual ch_slash" by code_simp
  consider "t = []" | "t = [ch_dot]" | "t = [ch_dot, ch_dot]" | "path_of t = cu_usual" "t \<noteq> []" "t \<noteq> [ch_dot]" "t \<noteq> [ch_dot, ch_dot]"
    by (auto simp: path_of_def)
  then show ?thesis
  proof cases
    case 1
    with assms show ?thesis
      by (auto simp: u path_of_def seg_close_def cu_do_slash_def cu_at_def cu_same_def no_slash_def ext_of_def flat_def)
  next
    case 2
    with assms show ?thesis
      by (auto simp: u path_of_def seg_close_def cu_do_dot_def cu_at_def cu_same_def no_slash_def ext_of_def flat_def
          dest: in_set_butlastD)
  next
    case 3
    have up: "cu_up (cu_uri r) = map_option (\<lambda>ss'. flat ss' []) (seg_up ss)"
      using 3 assms cu_up_flat [of ss] by (simp add: cu_at_def)
    show ?thesis
    proof (cases "seg_up ss")
      case None
      with 3 up show ?thesis by (simp add: u path_of_def seg_close_def cu_do_dot_dot_def)
    next
      case (Some ss')
      with up obtain zs where "cu_uri r = flat ss' [] @ zs" using cu_up_prefix by force
      then have "length (flat ss' []) \<le> Suc (length (cu_uri r))" "set (flat ss' []) \<subseteq> set (cu_uri r)" by auto
      moreover have "no_slash ss' []"
        using seg_close_no_slash [of ss t m ss'] Some 3 assms by (simp add: seg_close_def cu_at_def)
      ultimately show ?thesis using 3 Some up assms ext_of_short [of t ss]
        by (auto simp: u path_of_def seg_close_def cu_do_dot_dot_def cu_at_def cu_same_def ext_of_short)
    qed
  next
    case 4
    with assms show ?thesis
      by (auto simp: u seg_close_def cu_do_usual_def cu_at_def cu_same_def no_slash_def ext_of_def flat_snoc path_of_def flat_def)
  qed
qed

text \<open>An escape.\<close>

lemma hex_word: "is_hex a \<Longrightarrow> word_of_int (hex_val a) = (if is_digit a then a - ch_0 else (a OR 0x20) - ch_a + 10)"
  by (simp add: hex_val_def)

lemma hex_pair:
  assumes "is_hex a" "is_hex b"
  shows "uint (word_of_int (hex_val a * 16 + hex_val b) :: u_char) = hex_val a * 16 + hex_val b"
proof -
  have "0 \<le> hex_val a * 16 + hex_val b" "hex_val a * 16 + hex_val b < 256"
    using hex_val_bounds [OF assms(1)] hex_val_bounds [OF assms(2)] by auto
  then show ?thesis unfolding uint_word_of_int by simp
qed

lemma hex_nibble: "is_hex b \<Longrightarrow> is_digit b \<longleftrightarrow> hex_val b \<le> 9"
  by (auto simp: is_hex_def hex_val_def is_digit_uint word_le_def)

lemma cu_quoted_step:
  assumes "is_hex a"
  shows "cu_step m (cu_quoted q) a p r = Advance (cu_quoted_second q (word_of_int (hex_val a))) (r\<lparr>cu_quoted_uri := True\<rparr>)"
  using assms by (auto simp: cu_do_quoted_def Let_def hex_word is_hex_def is_digit_def)

lemma cu_second_step:
  assumes "is_hex a" "is_hex b"
  defines "c \<equiv> word_of_int (hex_val a * 16 + hex_val b) :: u_char"
  shows "cu_step m (cu_quoted_second q (word_of_int (hex_val a))) b p r =
    (if c \<in> {ch_percent, ch_hash, ch_quest} then Advance (cu_path cu_usual) (cu_put c r)
     else if c = 0 then CuInvalid
     else Stay (cu_path q) c (if c = ch_plus then r\<lparr>cu_plus_in_uri := True\<rparr> else r))"
proof -
  have u: "uint c = hex_val a * 16 + hex_val b" using hex_pair [OF assms(1,2)] by (simp add: c_def)
  have ab: "0 \<le> hex_val a" "hex_val a < 16" "0 \<le> hex_val b" "hex_val b < 16"
    using hex_val_bounds assms(1,2) by auto
  have c: "push_bit 4 (word_of_int (hex_val a)) + word_of_int (hex_val b) = c"
    by (simp add: c_def push_bit_eq_mult mult.commute)
  show ?thesis
  proof (cases "is_digit b")
    case True
    then have "b - ch_0 = word_of_int (hex_val b)" using hex_word [OF assms(2)] by simp
    then have "push_bit 4 (word_of_int (hex_val a)) + b - ch_0 = c" using c by (simp only: add_diff_eq [symmetric])
    moreover have "hex_val b \<le> 9" using True hex_nibble assms(2) by simp
    then have "uint c \<noteq> 0x3F" "uint c \<noteq> 0x2B" using u ab by presburger+
    then have "c \<noteq> ch_quest" "c \<noteq> ch_plus" by auto
    ultimately show ?thesis using True by (simp add: cu_do_quoted_second_def Let_def is_digit_def)
  next
    case False
    then have "(b OR 0x20) - ch_a + 10 = word_of_int (hex_val b)" using hex_word [OF assms(2)] by simp
    then have "push_bit 4 (word_of_int (hex_val a)) + (b OR 0x20) - ch_a + 10 = c"
      using c by (simp only: add_diff_eq [symmetric] add.assoc)
    moreover have "10 \<le> hex_val b" using False hex_nibble assms(2) by simp
    then have "uint c \<noteq> 0x25" "uint c \<noteq> 0x23" "uint c \<noteq> 0" using u ab by presburger+
    then have "c \<noteq> ch_percent" "c \<noteq> ch_hash" "c \<noteq> 0" by auto
    moreover have "\<not> (ch_0 \<le> b \<and> b \<le> ch_9)" "ch_a \<le> b OR 0x20" "b OR 0x20 \<le> ch_f"
      using False assms(2) by (auto simp: is_digit_def is_hex_def)
    ultimately show ?thesis by (auto simp: cu_do_quoted_second_def Let_def)
  qed
qed

text \<open>A whole path with escapes, whatever follows it.\<close>

lemma cu_same_trans: "cu_same r r' \<Longrightarrow> cu_same r' r'' \<Longrightarrow> cu_same r r''"
  by (simp add: cu_same_def)

definition cu_reaches :: "bool \<Rightarrow> uri_request \<Rightarrow> (bytes list \<times> bytes) option \<Rightarrow> bytes \<Rightarrow> nat \<Rightarrow> int + uri_request \<Rightarrow> bool" where
  "cu_reaches m r run tail p x =
     (case run of
        None \<Rightarrow> x = Inl NGX_HTTP_PARSE_INVALID_REQUEST
      | Some (ss, t) \<Rightarrow>
          \<exists>r'. cu_at r' ss t \<and> cu_same r r' \<and> x = cu_loop m (cu_path (path_of t)) r' tail p)"

lemma cu_reaches_same: "cu_same r r' \<Longrightarrow> cu_reaches m r' run tail p x \<Longrightarrow> cu_reaches m r run tail p x"
  by (auto simp: cu_reaches_def cu_same_def split: option.splits)

text \<open>One decoded byte, given the claim for what follows.\<close>

lemma cu_reaches_byte:
  assumes at: "cu_at r ss t" and c: "c \<notin> {ch_percent, ch_quest, ch_hash}"
    and rest: "\<And>ss' t' r'. cu_at r' ss' t' \<Longrightarrow>
      cu_reaches m r' (seg_run m ss' t' cs) tail q (cu_loop m (cu_path (path_of t')) r' xs (p + 1))"
  shows "cu_reaches m r (seg_run m ss t (c # cs)) tail q (cu_loop m (cu_path (path_of t)) r (c # xs) p)"
proof (cases "c = ch_slash")
  case True
  show ?thesis
  proof (cases "seg_close m ss t")
    case None
    with cu_path_slash [OF at, of m p] True show ?thesis by (simp add: cu_reaches_def)
  next
    case (Some ss')
    with cu_path_slash [OF at, of m p] obtain r' where
      "cu_step m (cu_path (path_of t)) ch_slash p r = Advance (cu_path (path_of [])) r'" "cu_at r' ss' []" "cu_same r r'"
      by auto
    with rest [of r' ss' "[]"] Some True show ?thesis by (auto intro: cu_reaches_same)
  qed
next
  case False
  with cu_path_plain [OF at, of c m p] c obtain r' where
    "cu_step m (cu_path (path_of t)) c p r = Advance (cu_path (path_of (t @ [c]))) r'" "cu_at r' ss (t @ [c])" "cu_same r r'"
    by auto
  with rest [of r' ss "t @ [c]"] False show ?thesis by (auto intro: cu_reaches_same)
qed

lemma cu_loop_follows:
  "pct xs = Some cs \<Longrightarrow> cu_at r ss t \<Longrightarrow>
   cu_reaches m r (seg_run m ss t cs) tail (p + length xs) (cu_loop m (cu_path (path_of t)) r (xs @ tail) p)"
proof (induction xs arbitrary: cs r ss t p rule: pct.induct)
  case 1
  then show ?case by (auto simp: cu_reaches_def cu_same_def)
next
  case (2 c xs)
  show ?case
  proof (cases "c = ch_percent")
    case False
    with "2.prems" obtain ds where ds: "pct xs = Some ds" "cs = c # ds" "c \<noteq> ch_quest" "c \<noteq> ch_hash"
      by (auto split: if_splits)
    have "cu_reaches m r (seg_run m ss t (c # ds)) tail (p + length (c # xs)) (cu_loop m (cu_path (path_of t)) r (c # xs @ tail) p)"
    proof (rule cu_reaches_byte [OF "2.prems"(2)])
      fix ss' t' r' assume "cu_at r' ss' t'"
      from "2.IH"(2) [OF False _ ds(1) this, of "p + 1"] ds
      show "cu_reaches m r' (seg_run m ss' t' ds) tail (p + length (c # xs)) (cu_loop m (cu_path (path_of t')) r' (xs @ tail) (p + 1))"
        by simp
    qed (use False ds in auto)
    with ds show ?thesis by simp
  next
    case True
    with "2.prems"(1) obtain a b ys ds where ab: "xs = a # b # ys" "is_hex a" "is_hex b" "hex_val a * 16 + hex_val b \<noteq> 0"
      "pct ys = Some ds" "cs = word_of_int (hex_val a * 16 + hex_val b) # ds"
      by (auto split: if_splits list.splits)
    define d :: u_char where "d = word_of_int (hex_val a * 16 + hex_val b)"
    note second = cu_second_step [OF ab(2,3), folded d_def]
    have cs: "cs = d # ds" using ab(6) by (simp only: d_def)
    let ?r = "r\<lparr>cu_quoted_uri := True\<rparr>"
    have c0: "d \<noteq> 0" using hex_pair [OF ab(2,3)] ab(4) unfolding d_def by (metis unsigned_0)
    have at: "cu_at ?r ss t" "cu_same r ?r" using "2.prems"(2) by (simp_all add: cu_at_def cu_same_def)
    have rest: "cu_reaches m r' (seg_run m ss' t' ds) tail (p + length (c # xs)) (cu_loop m (cu_path (path_of t')) r' (ys @ tail) (p + 2 + 1))"
      if "cu_at r' ss' t'" for ss' t' r'
      using "2.IH"(1) [OF True ab(1) refl _ ab(5) that, of "p + 3"] ab by (simp add: numeral_3_eq_3)
    have u: "\<not> tab_bit usual ch_percent" by code_simp
    have "cu_step m (cu_path (path_of t)) ch_percent p r = Advance (cu_quoted (path_of t)) r"
      by (cases "path_of t") (simp_all add: u cu_do_usual_def cu_do_slash_def cu_do_dot_def cu_do_dot_dot_def cu_other_def)
    with cu_quoted_step [OF ab(2)] True ab(1) have e: "cu_loop m (cu_path (path_of t)) r ((c # xs) @ tail) p =
        cu_loop m (cu_quoted_second (path_of t) (word_of_int (hex_val a))) ?r (b # ys @ tail) (p + 2)"
      by simp
    show ?thesis
    proof (cases "d \<in> {ch_percent, ch_hash, ch_quest}")
      case True
      then have "d \<noteq> ch_slash" "d \<noteq> ch_dot" by auto
      then have "cu_at (cu_put d ?r) ss (t @ [d])" "cu_same r (cu_put d ?r)" "path_of (t @ [d]) = cu_usual"
        using cu_at_put [OF at(1)] by (auto simp: cu_same_def path_of_snoc)
      with rest [of "cu_put d ?r" ss "t @ [d]"] second [of m "path_of t" "p + 2" ?r] True e cs \<open>d \<noteq> ch_slash\<close>
      show ?thesis by (auto intro: cu_reaches_same)
    next
      case False
      let ?r2 = "if d = ch_plus then ?r\<lparr>cu_plus_in_uri := True\<rparr> else ?r"
      have at2: "cu_at ?r2 ss t" "cu_same r ?r2" using at by (simp_all add: cu_at_def cu_same_def)
      have "cu_loop m (cu_path (path_of t)) r ((c # xs) @ tail) p = cu_loop m (cu_path (path_of t)) ?r2 (d # ys @ tail) (p + 2)"
        unfolding e using False c0
        by (subst cu_loop.simps(2)) (simp del: cu_loop.simps cu_step.simps add: second)
      moreover have "cu_reaches m ?r2 (seg_run m ss t (d # ds)) tail (p + length (c # xs)) (cu_loop m (cu_path (path_of t)) ?r2 (d # ys @ tail) (p + 2))"
        using False by (intro cu_reaches_byte [OF at2(1)] rest) auto
      ultimately show ?thesis unfolding cs by (simp only: cu_reaches_same [OF at2(2)])
    qed
  qed
qed

text \<open>What follows the path: nothing, arguments, or a fragment.\<close>

definition tail_args :: "nat \<Rightarrow> bytes \<Rightarrow> (nat \<times> nat) option \<Rightarrow> nat option \<times> (nat \<times> nat) option" where
  "tail_args n tail args =
     (case tail of
        [] \<Rightarrow> (None, args)
      | c # a \<Rightarrow>
          if c = ch_hash then (None, args)
          else if ch_hash \<in> set a then (None, Some (n, length (takeWhile (\<lambda>x. x \<noteq> ch_hash) a)))
          else (Some n, args))"

lemma cu_find_hash_eq:
  "cu_find_hash start (start + k) cs r =
     (if ch_hash \<in> set cs
      then r\<lparr>cu_args := Some (start, k + length (takeWhile (\<lambda>x. x \<noteq> ch_hash) cs)), cu_args_start := None\<rparr> else r)"
proof (induction cs arbitrary: k)
  case (Cons c cs)
  from Cons.IH [of "Suc k"] show ?case by auto
qed simp

lemma cu_loop_tail:
  assumes "tail = [] \<or> hd tail \<in> {ch_quest, ch_hash}" "cu_args_start r = None"
  shows "\<exists>r'. cu_loop m (cu_path q) r tail p = Inr (cu_done r') \<and> cu_uri r' = cu_uri r \<and> cu_ext r' = cu_ext r
    \<and> cu_exten r' = cu_exten r \<and> (cu_args_start r', cu_args r') = tail_args p tail (cu_args r)"
proof (cases tail)
  case Nil
  with assms show ?thesis by (auto simp: tail_args_def)
next
  case (Cons c a)
  have u: "\<not> tab_bit usual ch_quest" "\<not> tab_bit usual ch_hash" by code_simp+
  have "cu_step m (cu_path q) ch_quest p r = ToArgs (r\<lparr>cu_args_start := Some p\<rparr>)" "cu_step m (cu_path q) ch_hash p r = ToDone r"
    by (cases q; simp add: u cu_do_usual_def cu_do_slash_def cu_do_dot_def cu_do_dot_dot_def cu_other_def)+
  with Cons assms cu_find_hash_eq [of p 0 a "r\<lparr>cu_args_start := Some p\<rparr>"] show ?thesis by (auto simp: tail_args_def)
qed

lemma cu_first:
  "ngx_http_parse_complex_uri r m (ch_slash # xs) =
     cu_loop m (cu_path (path_of [])) (r\<lparr>cu_args_start := None, cu_ext := None, cu_uri := [ch_slash]\<rparr>) xs 2"
proof -
  have "\<not> tab_bit usual ch_slash" by code_simp
  then show ?thesis by (simp add: ngx_http_parse_complex_uri_def cu_do_usual_def path_of_def numeral_2_eq_2)
qed

lemma cu_at_first: "cu_at (r\<lparr>cu_args_start := a, cu_ext := None, cu_uri := [ch_slash]\<rparr>) [] []"
  by (simp add: cu_at_def flat_def ext_of_def no_slash_def)

section \<open>Every accepted URI is normal\<close>

definition good_segs :: "bool \<Rightarrow> bytes list \<Rightarrow> bool" where
  "good_segs m ss \<longleftrightarrow> (\<forall>s \<in> set ss. s \<noteq> [ch_dot] \<and> s \<noteq> [ch_dot, ch_dot] \<and> (m \<longrightarrow> s \<noteq> []))"

lemma seg_up_set: "seg_up ss = Some ss' \<Longrightarrow> set ss' \<subseteq> set ss"
  by (auto simp: seg_up_def split: if_splits dest: in_set_butlastD)

lemma seg_close_good:
  assumes "good_segs m ss" "seg_close m ss t = Some ss'"
  shows "good_segs m ss'"
proof (cases "t = [ch_dot, ch_dot]")
  case True
  with assms(2) have "seg_up ss = Some ss'" by (simp add: seg_close_def)
  from seg_up_set [OF this] assms(1) show ?thesis unfolding good_segs_def by blast
next
  case False
  show ?thesis
  proof (cases "t = [ch_dot] \<or> t = [] \<and> m")
    case True
    with assms show ?thesis by (auto simp: seg_close_def)
  next
    case other: False
    with False assms(2) have "ss' = ss @ [t]" by (auto simp: seg_close_def)
    with other False assms(1) show ?thesis unfolding good_segs_def by auto
  qed
qed

text \<open>Bytes an escape still has to read.\<close>

fun cu_path_in :: "cu_state \<Rightarrow> cu_path" where
  "cu_path_in (cu_path q) = q"
| "cu_path_in (cu_quoted q) = q"
| "cu_path_in (cu_quoted_second q d) = q"

fun cu_read :: "cu_state \<Rightarrow> nat" where
  "cu_read (cu_path q) = 0"
| "cu_read (cu_quoted q) = 1"
| "cu_read (cu_quoted_second q d) = 2"

definition cu_inv :: "bool \<Rightarrow> bool \<Rightarrow> cu_state \<Rightarrow> uri_request \<Rightarrow> nat \<Rightarrow> bool" where
  "cu_inv z m s r p \<longleftrightarrow> (\<exists>ss t. cu_at r ss t \<and> good_segs m ss \<and> path_of t = cu_path_in s)
     \<and> length (cu_uri r) + cu_read s < p \<and> (z \<longrightarrow> 0 \<notin> set (cu_uri r))
     \<and> (\<forall>q d. s = cu_quoted_second q d \<longrightarrow> (\<exists>a. is_hex a \<and> d = word_of_int (hex_val a)))"

lemma cu_inv_cong: "cu_uri r' = cu_uri r \<Longrightarrow> cu_ext r' = cu_ext r \<Longrightarrow> cu_inv z m s r' p = cu_inv z m s r p"
  by (simp add: cu_inv_def cu_at_def)

definition cu_act_ok :: "bool \<Rightarrow> bool \<Rightarrow> nat \<Rightarrow> u_char \<Rightarrow> cu_act \<Rightarrow> bool" where
  "cu_act_ok z m p ch a =
     (case a of
        Advance s' r' \<Rightarrow> ch \<noteq> ch_quest \<and> cu_inv z m s' r' (p + 1)
      | Stay s' c r' \<Rightarrow> ch \<noteq> ch_quest \<and> cu_inv z m s' r' p \<and> c \<noteq> 0 \<and> c \<noteq> ch_quest
      | ToArgs r' \<Rightarrow> \<exists>s'. cu_inv z m s' r' p
      | ToDone r' \<Rightarrow> \<exists>s'. cu_inv z m s' r' p
      | CuInvalid \<Rightarrow> True)"


lemma cu_inv_at: "cu_at r ss t \<Longrightarrow> good_segs m ss \<Longrightarrow> length (cu_uri r) < p \<Longrightarrow> (z \<longrightarrow> 0 \<notin> set (cu_uri r)) \<Longrightarrow> cu_inv z m (cu_path (path_of t)) r p"
  by (auto simp: cu_inv_def)

lemma cu_path_ok:
  assumes inv: "cu_inv z m (cu_path q) r p" and c: "z \<longrightarrow> c \<noteq> 0"
  shows "cu_act_ok z m p c (cu_step m (cu_path q) c p r)"
proof -
  from inv obtain ss t where at: "cu_at r ss t" and good: "good_segs m ss" and q: "q = path_of t"
    and len: "length (cu_uri r) < p" and z: "z \<longrightarrow> 0 \<notin> set (cu_uri r)"
    by (auto simp: cu_inv_def)
  consider "c = ch_slash" | "c \<notin> {ch_percent, ch_quest, ch_hash, ch_slash}" | "c \<in> {ch_percent, ch_quest, ch_hash}" by auto
  then show ?thesis
  proof cases
    case 1
    show ?thesis
    proof (cases "seg_close m ss t")
      case None
      with cu_path_slash [OF at, of m p] 1 q show ?thesis by (simp add: cu_act_ok_def)
    next
      case (Some ss')
      with cu_path_slash [OF at, of m p] obtain r' where r': "cu_step m (cu_path q) c p r = Advance (cu_path (path_of [])) r'"
        "cu_at r' ss' []" "length (cu_uri r') \<le> Suc (length (cu_uri r))" "set (cu_uri r') \<subseteq> set (cu_uri r)"
        using 1 q by auto
      have "cu_inv z m (cu_path (path_of [])) r' (p + 1)"
        using r' seg_close_good [OF good Some] len z by (intro cu_inv_at) auto
      with r' 1 show ?thesis by (simp add: cu_act_ok_def)
    qed
  next
    case 2
    with cu_path_plain [OF at, of c m p] obtain r' where r': "cu_step m (cu_path q) c p r = Advance (cu_path (path_of (t @ [c]))) r'"
      "cu_at r' ss (t @ [c])" "cu_uri r' = cu_uri r @ [c]"
      using q by auto
    have "cu_inv z m (cu_path (path_of (t @ [c]))) r' (p + 1)"
      using r' good len z c by (intro cu_inv_at) auto
    with r' 2 show ?thesis by (simp add: cu_act_ok_def)
  next
    case 3
    have u: "\<not> tab_bit usual ch_percent" "\<not> tab_bit usual ch_quest" "\<not> tab_bit usual ch_hash" by code_simp+
    have "cu_step m (cu_path q) ch_percent p r = Advance (cu_quoted q) r"
      "cu_step m (cu_path q) ch_quest p r = ToArgs (r\<lparr>cu_args_start := Some p\<rparr>)" "cu_step m (cu_path q) ch_hash p r = ToDone r"
      by (cases q; simp add: u cu_do_usual_def cu_do_slash_def cu_do_dot_def cu_do_dot_dot_def cu_other_def)+
    moreover have "cu_inv z m (cu_quoted q) r (p + 1)" using inv by (auto simp: cu_inv_def)
    moreover have "cu_inv z m (cu_path q) (r\<lparr>cu_args_start := Some p\<rparr>) p" using inv by (subst cu_inv_cong [of _ r]) auto
    ultimately show ?thesis using 3 inv by (auto simp: cu_act_ok_def)
  qed
qed

lemma hex_not_quest: "is_hex ch \<Longrightarrow> ch \<noteq> ch_quest"
proof
  assume "is_hex ch" "ch = ch_quest"
  moreover have "\<not> is_hex ch_quest" by code_simp
  ultimately show False by simp
qed

lemma cu_second_ok:
  assumes inv: "cu_inv z m (cu_quoted_second q d) r p"
  shows "cu_act_ok z m p ch (cu_step m (cu_quoted_second q d) ch p r)"
proof -
  from inv obtain ss t where at: "cu_at r ss t" and good: "good_segs m ss" and q: "q = path_of t"
    and len: "length (cu_uri r) + 2 < p" and z: "z \<longrightarrow> 0 \<notin> set (cu_uri r)"
    by (auto simp: cu_inv_def)
  have put: "cu_inv z m (cu_path cu_usual) (cu_put c r) (p + 1)" if "c \<in> {ch_percent, ch_hash, ch_quest}" for c
  proof -
    have "path_of (t @ [c]) = cu_usual" "c \<noteq> 0" using that by (auto simp: path_of_snoc)
    with cu_inv_at [of "cu_put c r" ss "t @ [c]" m "p + 1" z] cu_at_put [OF at, of c] that good len z show ?thesis by auto
  qed
  have stay: "cu_inv z m (cu_path q) r p" using at good len z q by (auto intro: cu_inv_at)
  then have stay2: "cu_inv z m (cu_path q) (r\<lparr>cu_plus_in_uri := True\<rparr>) p" by (subst cu_inv_cong [of _ r]) auto
  show ?thesis
  proof (cases "is_hex ch")
    case False
    then show ?thesis by (auto simp: cu_act_ok_def cu_do_quoted_second_def Let_def is_hex_def is_digit_def)
  next
    case True
    from inv obtain a where a: "is_hex a" "d = word_of_int (hex_val a)" by (auto simp: cu_inv_def)
    define c :: u_char where "c = word_of_int (hex_val a * 16 + hex_val ch)"
    from cu_second_step [OF a(1) True, folded c_def a(2), of m q p r] put [of c] stay stay2 hex_not_quest [OF True] show ?thesis
      by (simp add: cu_act_ok_def split: if_split)
  qed
qed

lemma cu_quoted_ok:
  assumes inv: "cu_inv z m (cu_quoted q) r p"
  shows "cu_act_ok z m p ch (cu_step m (cu_quoted q) ch p r)"
proof (cases "is_hex ch")
  case False
  then show ?thesis by (auto simp: cu_act_ok_def cu_do_quoted_def Let_def is_hex_def is_digit_def)
next
  case True
  have "cu_inv z m (cu_quoted_second q (word_of_int (hex_val ch))) (r\<lparr>cu_quoted_uri := True\<rparr>) (p + 1)"
    using inv True by (subst cu_inv_cong [of _ r]) (auto simp: cu_inv_def)
  with cu_quoted_step [OF True] hex_not_quest [OF True] show ?thesis by (simp add: cu_act_ok_def)
qed

lemma cu_step_ok: "cu_inv z m s r p \<Longrightarrow> (z \<longrightarrow> ch \<noteq> 0) \<Longrightarrow> cu_act_ok z m p ch (cu_step m s ch p r)"
  by (cases s) (auto simp del: cu_step.simps intro: cu_path_ok cu_quoted_ok cu_second_ok)

lemma cu_done_uri: "cu_uri (cu_done r) = cu_uri r"
  by (simp add: cu_done_def split: option.split)

lemma cu_loop_inv:
  "cu_inv z m s r p \<Longrightarrow> (z \<longrightarrow> 0 \<notin> set xs) \<Longrightarrow> cu_loop m s r xs p = Inr r' \<Longrightarrow>
   \<exists>s' r2 p'. cu_inv z m s' r2 p' \<and> p' \<le> p + length (takeWhile (\<lambda>c. c \<noteq> ch_quest) xs) \<and> cu_uri r' = cu_uri r2"
proof (induction m s r xs p rule: cu_loop.induct)
  case (1 m s r p)
  then show ?case by (metis cu_done_uri cu_loop.simps(1) le_add1 sum.inject(2))
next
  case (2 m s r ch rest p)
  have ok: "cu_act_ok z m p ch (cu_step m s ch p r)" using 2(3,4) by (intro cu_step_ok) auto
  have fin: "\<exists>s' r2 p'. cu_inv z m s' r2 p' \<and> p' \<le> p + length (takeWhile (\<lambda>c. c \<noteq> ch_quest) (ch # rest)) \<and> cu_uri (cu_done r0) = cu_uri r2"
    if "cu_inv z m s1 r0 p" for s1 r0
    using that by (auto simp: cu_done_uri intro!: exI [of _ s1] exI [of _ r0] exI [of _ p])
  show ?case
  proof (cases "cu_step m s ch p r")
    case (Advance s' r1)
    with ok have i: "cu_inv z m s' r1 (p + 1)" and q: "ch \<noteq> ch_quest" by (simp_all add: cu_act_ok_def)
    from "2.IH"(1) [OF Advance i] 2(4,5) Advance q show ?thesis by auto
  next
    case (Stay s' c r1)
    with ok have i: "cu_inv z m s' r1 p" and c: "c \<noteq> 0" "c \<noteq> ch_quest" "ch \<noteq> ch_quest"
      by (simp_all add: cu_act_ok_def)
    from "2.IH"(2) [OF Stay i] 2(4,5) Stay c show ?thesis by auto
  next
    case (ToArgs r1)
    with ok obtain s1 where s1: "cu_inv z m s1 r1 p" by (auto simp: cu_act_ok_def)
    have "cu_inv z m s1 (cu_find_hash p p rest r1) p"
      using s1 cu_find_hash_eq [of p 0 rest r1] cu_inv_cong [of "cu_find_hash p p rest r1" r1 z m s1 p] by auto
    with fin [of s1] ToArgs 2(5) show ?thesis by auto
  next
    case (ToDone r1)
    with ok obtain s1 where "cu_inv z m s1 r1 p" by (auto simp: cu_act_ok_def)
    with fin [of s1 r1] ToDone 2(5) show ?thesis by auto
  next
    case CuInvalid
    with 2(5) show ?thesis by simp
  qed
qed

section \<open>Properties of the complex URI parser\<close>

text \<open>
  C13. Percent-decoding and normalisation are exact. For a path after the leading slash whose
  escapes are well formed, followed by nothing, by arguments or by a fragment, the parser
  answers as the stack of segments does: it refuses a path that goes above the root, and
  otherwise gives the remaining segments joined by slashes, the extension behind the last dot
  of the last segment, and the arguments up to the fragment.
\<close>

theorem complex_uri_exact:
  assumes "pct xs = Some cs" "tail = [] \<or> hd tail \<in> {ch_quest, ch_hash}"
  shows "case seg_run m [] [] cs of
      None \<Rightarrow> ngx_http_parse_complex_uri r m (ch_slash # xs @ tail) = Inl NGX_HTTP_PARSE_INVALID_REQUEST
    | Some (ss, t) \<Rightarrow> \<exists>r'. ngx_http_parse_complex_uri r m (ch_slash # xs @ tail) = Inr r'
        \<and> cu_uri r' = flat ss t
        \<and> cu_exten r' = (case ext_of ss t of None \<Rightarrow> cu_exten r | Some e \<Rightarrow> Some (e, length (flat ss t) - e))
        \<and> (cu_args_start r', cu_args r') = tail_args (length xs + 2) tail (cu_args r)"
proof -
  let ?r = "r\<lparr>cu_args_start := None, cu_ext := None, cu_uri := [ch_slash]\<rparr>"
  have "cu_reaches m ?r (seg_run m [] [] cs) tail (2 + length xs) (ngx_http_parse_complex_uri r m (ch_slash # xs @ tail))"
    unfolding cu_first by (rule cu_loop_follows [OF assms(1) cu_at_first])
  then show ?thesis
  proof (cases "seg_run m [] [] cs")
    case (Some st)
    obtain ss t where st: "st = (ss, t)" by (cases st)
    with Some \<open>cu_reaches _ _ _ _ _ _\<close> obtain r1 where r1: "cu_at r1 ss t" "cu_same ?r r1"
      "ngx_http_parse_complex_uri r m (ch_slash # xs @ tail) = cu_loop m (cu_path (path_of t)) r1 tail (2 + length xs)"
      by (auto simp: cu_reaches_def)
    from cu_loop_tail [OF assms(2), of r1 m "path_of t" "2 + length xs"] r1 obtain r' where
      "ngx_http_parse_complex_uri r m (ch_slash # xs @ tail) = Inr (cu_done r')" "cu_uri r' = flat ss t" "cu_ext r' = ext_of ss t"
      "cu_exten r' = cu_exten r" "(cu_args_start r', cu_args r') = tail_args (length xs + 2) tail (cu_args r)"
      by (auto simp: cu_same_def cu_at_def add.commute)
    then show ?thesis using Some st by (auto simp: cu_done_def split: option.split)
  qed (simp add: cu_reaches_def)
qed

theorem complex_uri_exact_witness:
  "case seg_run True [] [] (bytes_of ''a/../b.c'') of
      None \<Rightarrow> ngx_http_parse_complex_uri new_uri
          True (ch_slash # bytes_of ''a/%2E./b.c'' @ bytes_of ''?x'') = Inl NGX_HTTP_PARSE_INVALID_REQUEST
    | Some (ss, t) \<Rightarrow> \<exists>r'. ngx_http_parse_complex_uri new_uri
          True (ch_slash # bytes_of ''a/%2E./b.c'' @ bytes_of ''?x'') = Inr r'
        \<and> cu_uri r' = flat ss t
        \<and> cu_exten r' = (case ext_of ss t of None \<Rightarrow> cu_exten new_uri | Some e \<Rightarrow> Some (e, length (flat ss t) - e))
        \<and> (cu_args_start r', cu_args r') = tail_args (length (bytes_of ''a/%2E./b.c'') + 2) (bytes_of ''?x'') (cu_args new_uri)"
  by (rule complex_uri_exact) code_simp+

text \<open>
  C14. Safety of accepted paths, for any bytes behind a leading slash, well formed or not: an accepted
  path is a sequence of segments in which no segment but the last is \<open>.\<close> or \<open>..\<close> (nor empty when slashes are merged).
  A null byte can only come from a raw null byte of the input, as a coded one is refused. (The parsers of the request
  line refuse raw ones.) The length is at most that of the input before its first question mark, so the result fits in
  the memory that \<^verbatim>\<open>ngx_http_process_request_uri\<close> allocates, which is one byte longer than the part of the URI before
  \<^verbatim>\<open>args_start\<close>, or than the whole URI when that is null.
\<close>

theorem complex_uri_safe:
  assumes "ngx_http_parse_complex_uri r m (ch_slash # xs) = Inr r'"
  shows "\<exists>ss t. cu_uri r' = flat ss t \<and> good_segs m ss \<and> no_slash ss t
    \<and> (0 \<in> set (cu_uri r') \<longrightarrow> 0 \<in> set xs)
    \<and> length (cu_uri r') \<le> length (takeWhile (\<lambda>c. c \<noteq> ch_quest) (ch_slash # xs))"
proof -
  have "cu_inv (0 \<notin> set xs) m (cu_path (path_of [])) (r\<lparr>cu_args_start := None, cu_ext := None, cu_uri := [ch_slash]\<rparr>) 2"
    using cu_at_first by (rule cu_inv_at) (simp_all add: good_segs_def)
  from cu_loop_inv [OF this, of xs r'] assms obtain s' r2 p' where
    "cu_inv (0 \<notin> set xs) m s' r2 p'" "p' \<le> 2 + length (takeWhile (\<lambda>c. c \<noteq> ch_quest) xs)" "cu_uri r' = cu_uri r2" unfolding cu_first by auto
  then show ?thesis unfolding cu_inv_def cu_at_def by fastforce
qed

theorem complex_uri_safe_witness:
  "\<exists>ss t. cu_uri (new_uri\<lparr>cu_uri := bytes_of ''/b'', cu_args_start := Some 9\<rparr>) = flat ss t
    \<and> good_segs True ss \<and> no_slash ss t
    \<and> (0 \<in> set (cu_uri (new_uri\<lparr>cu_uri := bytes_of ''/b'', cu_args_start := Some 9\<rparr>)) \<longrightarrow> 0 \<in> set (bytes_of ''a/..//b?%x''))
    \<and> length (cu_uri (new_uri\<lparr>cu_uri := bytes_of ''/b'', cu_args_start := Some 9\<rparr>))
      \<le> length (takeWhile (\<lambda>c. c \<noteq> ch_quest) (ch_slash # bytes_of ''a/..//b?%x''))"
proof (rule complex_uri_safe)
  show "ngx_http_parse_complex_uri new_uri
      True (ch_slash # bytes_of ''a/..//b?%x'')
    = Inr (new_uri\<lparr>cu_uri := bytes_of ''/b'', cu_args_start := Some 9\<rparr>)"
    by code_simp
qed

text \<open>
  Dot segments are resolved when the slash behind them is read: at the end of the URI they
  stay. An escape that is cut short by the end of the URI is dropped without an error.
\<close>

lemma complex_uri_trailing_dots:
  "map_sum id cu_uri (ngx_http_parse_complex_uri new_uri
     True (bytes_of ''/a/..'')) = Inr (bytes_of ''/a/..'')"
  "map_sum id cu_uri (ngx_http_parse_complex_uri new_uri
     True (bytes_of ''/a%4'')) = Inr (bytes_of ''/a'')"
  by code_simp+

end
