(* ===== verification/Ngx_Request_Uri.thy ===== *)
theory Ngx_Request_Uri
  imports Ngx_Uri
begin

text \<open>
  \<^verbatim>\<open>ngx_http_parse_uri\<close> of \<^verbatim>\<open>ngx_http_parse.c\<close>, which looks whether a URI needs the complex parser, and
  \<^verbatim>\<open>ngx_http_process_request_uri\<close> of \<^verbatim>\<open>ngx_http_request.c\<close>, which calls that parser when it does and
  uses the URI in place when it does not. The main result is that this shortcut is right.
\<close>

section \<open>The check for simple URIs\<close>

datatype pu_state = pu_start | pu_after_slash_in_uri | pu_check_uri | pu_uri

type_synonym pu_act = "(pu_state, unit, http_request) act"

definition pu_do_start :: "u_char \<Rightarrow> http_request \<Rightarrow> pu_act" where
  "pu_do_start ch r = (if ch \<noteq> ch_slash then Ret NGX_ERROR r else Next pu_after_slash_in_uri r)"

definition pu_do_after_slash :: "nat \<Rightarrow> u_char \<Rightarrow> http_request \<Rightarrow> pu_act" where
  "pu_do_after_slash p ch r =
     (if tab_bit usual ch then Next pu_check_uri r
      else if ch = ch_sp then Next pu_check_uri (r\<lparr>space_in_uri := True\<rparr>)
      else if ch = ch_dot then Next pu_uri (r\<lparr>complex_uri := True\<rparr>)
      else if ch = ch_percent then Next pu_uri (r\<lparr>quoted_uri := True\<rparr>)
      else if ch = ch_slash then Next pu_uri (r\<lparr>complex_uri := True\<rparr>)
      else if ch = ch_quest then Next pu_uri (r\<lparr>args_start := Some (p + 1)\<rparr>)
      else if ch = ch_hash then Next pu_uri (r\<lparr>complex_uri := True\<rparr>)
      else if ch = ch_plus then Next pu_after_slash_in_uri (r\<lparr>plus_in_uri := True\<rparr>)
      else Next pu_check_uri r)"

definition pu_do_check_uri :: "nat \<Rightarrow> u_char \<Rightarrow> http_request \<Rightarrow> pu_act" where
  "pu_do_check_uri p ch r =
     (if tab_bit usual ch then Next pu_check_uri r
      else if ch = ch_slash then Next pu_after_slash_in_uri (r\<lparr>uri_ext := None\<rparr>)
      else if ch = ch_dot then Next pu_check_uri (r\<lparr>uri_ext := Some (p + 1)\<rparr>)
      else if ch = ch_sp then Next pu_check_uri (r\<lparr>space_in_uri := True\<rparr>)
      else if ch = ch_percent then Next pu_uri (r\<lparr>quoted_uri := True\<rparr>)
      else if ch = ch_quest then Next pu_uri (r\<lparr>args_start := Some (p + 1)\<rparr>)
      else if ch = ch_hash then Next pu_uri (r\<lparr>complex_uri := True\<rparr>)
      else if ch = ch_plus then Next pu_check_uri (r\<lparr>plus_in_uri := True\<rparr>)
      else Next pu_check_uri r)"

definition pu_do_uri :: "u_char \<Rightarrow> http_request \<Rightarrow> pu_act" where
  "pu_do_uri ch r =
     (if tab_bit usual ch then Next pu_uri r
      else if ch = ch_sp then Next pu_uri (r\<lparr>space_in_uri := True\<rparr>)
      else if ch = ch_hash then Next pu_uri (r\<lparr>complex_uri := True\<rparr>)
      else Next pu_uri r)"

fun pu_step :: "bytes \<Rightarrow> u_char \<Rightarrow> pu_state \<Rightarrow> http_request \<Rightarrow> pu_act" where
  "pu_step seen ch pu_start r = pu_do_start ch r"
| "pu_step seen ch pu_after_slash_in_uri r = pu_do_after_slash (length seen) ch r"
| "pu_step seen ch pu_check_uri r = pu_do_check_uri (length seen) ch r"
| "pu_step seen ch pu_uri r = pu_do_uri ch r"

text \<open>The loop from \<^verbatim>\<open>uri_start\<close> to \<^verbatim>\<open>uri_end\<close>; \<open>None\<close> when one of them is a null pointer.\<close>

definition ngx_http_parse_uri :: "bytes \<Rightarrow> http_request \<Rightarrow> (int \<times> http_request) option" where
  "ngx_http_parse_uri buf r =
     (case (uri_start r, uri_end r) of
        (Some s, Some e) \<Rightarrow>
          (case scan pu_step pu_start r (take s buf) (take (e - s) (drop s buf)) of
             Ended st r' \<Rightarrow> Some (NGX_OK, r')
           | Returned rc r' \<Rightarrow> Some (rc, r')
           | _ \<Rightarrow> None)
      | _ \<Rightarrow> None)"

section \<open>Processing of the request URI\<close>

record request_uri =
  ru_uri :: bytes
  ru_exten :: bytes
  ru_args :: bytes
  ru_unparsed_uri :: bytes
  ru_valid_unparsed_uri :: bool

text \<open>
  \<open>Inl\<close> is the status the request is finished with. After the complex parser \<^verbatim>\<open>uri_ext\<close> is null
  and \<^verbatim>\<open>args_start\<close> is what that parser left; \<open>alloc\<close> says whether the memory is there.
\<close>

definition ngx_http_process_request_uri :: "bool \<Rightarrow> bool \<Rightarrow> bytes \<Rightarrow> http_request \<Rightarrow> (int + request_uri) option" where
  "ngx_http_process_request_uri alloc merge_slashes buf r =
     (case (uri_start r, uri_end r) of
        (Some s, Some e) \<Rightarrow>
          (let fin = (\<lambda>uri ext args_start exten args.
                 Some (Inr \<lparr> ru_uri = uri,
                   ru_exten = (case ext of
                       None \<Rightarrow> exten
                     | Some x \<Rightarrow> (case args_start of Some a \<Rightarrow> sub_buf buf x (a - 1) | None \<Rightarrow> sub_buf buf x e)),
                   ru_args = (case args_start of Some a \<Rightarrow> if e > a then sub_buf buf a e else args | None \<Rightarrow> args),
                   ru_unparsed_uri = sub_buf buf s e,
                   ru_valid_unparsed_uri = (\<not> space_in_uri r) \<rparr>)) in
           if complex_uri r \<or> quoted_uri r then
             if \<not> alloc then Some (Inl NGX_HTTP_INTERNAL_SERVER_ERROR)
             else
               (case ngx_http_parse_complex_uri new_uri merge_slashes (sub_buf buf s e) of
                  Inl rc \<Rightarrow> Some (Inl NGX_HTTP_BAD_REQUEST)
                | Inr c \<Rightarrow>
                    fin (cu_uri c) None (map_option (\<lambda>a. s + a) (cu_args_start c))
                      (case cu_exten c of None \<Rightarrow> [] | Some (x, n) \<Rightarrow> take n (drop x (cu_uri c)))
                      (case cu_args c of None \<Rightarrow> [] | Some (a, n) \<Rightarrow> take n (drop (s + a) buf)))
           else
             fin (case args_start r of Some a \<Rightarrow> sub_buf buf s (a - 1) | None \<Rightarrow> sub_buf buf s e)
               (uri_ext r) (args_start r) [] [])
      | _ \<Rightarrow> None)"

section \<open>The shortcut is right\<close>

lemma pu_step_flags:
  "case pu_step seen c st r of
     Next st1 r1 \<Rightarrow> (complex_uri r \<longrightarrow> complex_uri r1) \<and> (quoted_uri r \<longrightarrow> quoted_uri r1)
       \<and> uri_start r1 = uri_start r \<and> uri_end r1 = uri_end r
   | Ret rc r1 \<Rightarrow> rc = NGX_ERROR
   | _ \<Rightarrow> False"
  by (cases st) (simp_all add: pu_do_start_def pu_do_after_slash_def pu_do_check_uri_def pu_do_uri_def)

lemma pu_flags_kept:
  "scan pu_step st r seen xs = Ended st' r' \<Longrightarrow> (complex_uri r \<longrightarrow> complex_uri r') \<and> (quoted_uri r \<longrightarrow> quoted_uri r')
     \<and> uri_start r' = uri_start r \<and> uri_end r' = uri_end r"
proof (induction xs arbitrary: st r seen)
  case (Cons c xs)
  from Cons.prems obtain st1 r1 where s: "pu_step seen c st r = Next st1 r1" "scan pu_step st1 r1 (seen @ [c]) xs = Ended st' r'"
    by (auto split: act.splits)
  have "(complex_uri r \<longrightarrow> complex_uri r1) \<and> (quoted_uri r \<longrightarrow> quoted_uri r1) \<and> uri_start r1 = uri_start r \<and> uri_end r1 = uri_end r"
    using s(1) pu_step_flags [where seen = seen and c = c and st = st and r = r] by simp
  with Cons.IH [OF s(2)] show ?case by simp
qed simp

lemma pu_error_only: "scan pu_step st r seen xs = Returned rc r' \<Longrightarrow> rc = NGX_ERROR"
proof (induction xs arbitrary: st r seen)
  case (Cons c xs)
  with pu_step_flags [where seen = seen and c = c and st = st and r = r] show ?case by (auto split: act.splits)
qed simp

lemma pu_uri_step:
  "\<exists>r1. pu_step seen c pu_uri r = Next pu_uri r1 \<and> args_start r1 = args_start r \<and> uri_ext r1 = uri_ext r
    \<and> (complex_uri r1 \<longleftrightarrow> complex_uri r \<or> c = ch_hash)"
  using usual_special [of c] by (cases "tab_bit usual c") (auto simp: pu_do_uri_def)

lemma pu_uri_run:
  "scan pu_step pu_uri r seen xs = Ended st' r' \<Longrightarrow>
   args_start r' = args_start r \<and> uri_ext r' = uri_ext r \<and> (complex_uri r' \<longleftrightarrow> complex_uri r \<or> ch_hash \<in> set xs)"
proof (induction xs arbitrary: r seen)
  case (Cons c xs)
  obtain r1 where s: "pu_step seen c pu_uri r = Next pu_uri r1" "args_start r1 = args_start r" "uri_ext r1 = uri_ext r"
    "complex_uri r1 \<longleftrightarrow> complex_uri r \<or> c = ch_hash"
    using pu_uri_step by blast
  with Cons.prems have "scan pu_step pu_uri r1 (seen @ [c]) xs = Ended st' r'" by simp
  from Cons.IH [OF this] s show ?case by auto
qed simp

text \<open>
  The two parsers side by side: what the check has seen is what the complex parser has
  written, and both agree on the extension.
\<close>

definition in_step :: "nat \<Rightarrow> bytes \<Rightarrow> pu_state \<Rightarrow> http_request \<Rightarrow> cu_path \<Rightarrow> uri_request \<Rightarrow> bool" where
  "in_step n xs st r q c \<longleftrightarrow> cu_uri c = xs \<and> cu_args_start c = None \<and> args_start r = None
     \<and> cu_ext c = map_option (\<lambda>x. x - n) (uri_ext r) \<and> (\<forall>x. uri_ext r = Some x \<longrightarrow> n < x \<and> x \<le> n + length xs)
     \<and> (st = pu_after_slash_in_uri \<and> (q = cu_slash \<or> q = cu_usual) \<and> uri_ext r = None \<or> st = pu_check_uri \<and> q = cu_usual)"

lemma in_step_next:
  assumes rel: "in_step n xs st r q c" and len: "length seen = n + length xs"
    and step: "pu_step seen ch st r = Next st1 r1" and flags: "\<not> complex_uri r1" "\<not> quoted_uri r1"
  shows "ch = ch_quest \<and> st1 = pu_uri \<and> r1 = r\<lparr>args_start := Some (n + length xs + 1)\<rparr>
      \<and> cu_step m (cu_path q) ch p c = ToArgs (c\<lparr>cu_args_start := Some p\<rparr>)
    \<or> (\<exists>q1 c1. cu_step m (cu_path q) ch p c = Advance (cu_path q1) c1 \<and> in_step n (xs @ [ch]) st1 r1 q1 c1
      \<and> cu_args c1 = cu_args c \<and> cu_exten c1 = cu_exten c)"
proof -
  have u: "\<not> tab_bit usual ch_slash" "\<not> tab_bit usual ch_dot" "\<not> tab_bit usual ch_percent" "\<not> tab_bit usual ch_quest"
    "\<not> tab_bit usual ch_hash" "\<not> tab_bit usual ch_plus" "\<not> tab_bit usual ch_sp" by code_simp+
  note defs = pu_do_after_slash_def pu_do_check_uri_def cu_do_usual_def cu_do_slash_def cu_other_def in_step_def
  consider "st = pu_after_slash_in_uri" "q = cu_slash" | "st = pu_after_slash_in_uri" "q = cu_usual" | "st = pu_check_uri" "q = cu_usual"
    using rel by (auto simp: in_step_def)
  then show ?thesis
  proof cases
    case 1
    with assms usual_special [of ch] show ?thesis by (auto simp: defs u split: if_splits)
  next
    case 2
    with assms usual_special [of ch] show ?thesis by (auto simp: defs u split: if_splits)
  next
    case 3
    with assms usual_special [of ch] show ?thesis by (auto simp: defs u split: if_splits)
  qed
qed

definition same_uri :: "nat \<Rightarrow> bytes \<Rightarrow> http_request \<Rightarrow> uri_request \<Rightarrow> bool" where
  "same_uri n xs r c \<longleftrightarrow>
     cu_ext c = map_option (\<lambda>x. x - n) (uri_ext r) \<and> (\<forall>x. uri_ext r = Some x \<longrightarrow> n < x \<and> x \<le> n + length (cu_uri c))
     \<and> (case args_start r of
          None \<Rightarrow> cu_uri c = xs \<and> cu_args_start c = None
        | Some a \<Rightarrow> n < a \<and> a \<le> n + length xs \<and> cu_uri c = take (a - 1 - n) xs \<and> cu_args_start c = Some (a - n))"

lemma in_step_run:
  "in_step n xs st r q c \<Longrightarrow> length seen = n + length xs \<Longrightarrow> scan pu_step st r seen ys = Ended st' r' \<Longrightarrow>
   \<not> complex_uri r' \<Longrightarrow> \<not> quoted_uri r' \<Longrightarrow>
   \<exists>c'. cu_loop m (cu_path q) c ys (length xs + 1) = Inr (cu_done c') \<and> same_uri n (xs @ ys) r' c'
     \<and> cu_args c' = cu_args c \<and> cu_exten c' = cu_exten c"
proof (induction ys arbitrary: xs st r q c seen)
  case Nil
  then show ?case by (auto simp: in_step_def same_uri_def)
next
  case (Cons ch ys)
  from Cons.prems(3) obtain st1 r1 where s: "pu_step seen ch st r = Next st1 r1" "scan pu_step st1 r1 (seen @ [ch]) ys = Ended st' r'"
    by (auto split: act.splits)
  have flags: "\<not> complex_uri r1" "\<not> quoted_uri r1" using pu_flags_kept [OF s(2)] Cons.prems(4,5) by auto
  from in_step_next [OF Cons.prems(1,2) s(1) flags, of m "length xs + 1"] show ?case
  proof (elim disjE exE conjE)
    assume a: "st1 = pu_uri" "r1 = r\<lparr>args_start := Some (n + length xs + 1)\<rparr>"
      "cu_step m (cu_path q) ch (length xs + 1) c = ToArgs (c\<lparr>cu_args_start := Some (length xs + 1)\<rparr>)"
    with s(2) have "scan pu_step pu_uri r1 (seen @ [ch]) ys = Ended st' r'" by simp
    from pu_uri_run [OF this] a Cons.prems(1,4) flags
    have r': "args_start r' = Some (n + length xs + 1)" "uri_ext r' = uri_ext r" "ch_hash \<notin> set ys" by auto
    have "cu_loop m (cu_path q) c (ch # ys) (length xs + 1) = Inr (cu_done (c\<lparr>cu_args_start := Some (length xs + 1)\<rparr>))"
      using a(3) cu_find_hash_eq [of "length xs + 1" 0 ys "c\<lparr>cu_args_start := Some (length xs + 1)\<rparr>"] r'(3) by simp
    moreover have "same_uri n (xs @ ch # ys) r' (c\<lparr>cu_args_start := Some (length xs + 1)\<rparr>)"
      using r' Cons.prems(1) by (auto simp: same_uri_def in_step_def)
    ultimately show ?case by (intro exI [of _ "c\<lparr>cu_args_start := Some (length xs + 1)\<rparr>"]) simp
  next
    fix q1 c1
    assume "cu_step m (cu_path q) ch (length xs + 1) c = Advance (cu_path q1) c1" "in_step n (xs @ [ch]) st1 r1 q1 c1"
      "cu_args c1 = cu_args c" "cu_exten c1 = cu_exten c"
    with Cons.IH [of "xs @ [ch]" st1 r1 q1 c1 "seen @ [ch]"] s(2) Cons.prems show ?case by simp
  qed
qed

text \<open>The whole of \<^verbatim>\<open>ngx_http_parse_uri\<close>, against the complex parser on the same bytes.\<close>

lemma parse_uri_same:
  assumes r: "uri_start r = Some s" "uri_end r = Some e" "uri_ext r = None" "args_start r = None"
    and range: "s < e" "e \<le> length buf"
    and ok: "ngx_http_parse_uri buf r = Some (NGX_OK, r')" and flags: "\<not> complex_uri r'" "\<not> quoted_uri r'"
  shows "\<exists>c. ngx_http_parse_complex_uri new_uri m (sub_buf buf s e) = Inr (cu_done c) \<and> same_uri s (sub_buf buf s e) r' c
     \<and> cu_args c = None \<and> cu_exten c = None \<and> uri_start r' = Some s \<and> uri_end r' = Some e"
proof -
  obtain ch ys where U: "sub_buf buf s e = ch # ys" using range by (cases "sub_buf buf s e") (auto simp: sub_buf_def)
  from ok r U obtain st' where sc: "scan pu_step pu_start r (take s buf) (ch # ys) = Ended st' r'"
    using pu_error_only [of pu_start r "take s buf" "ch # ys"]
    by (auto simp: ngx_http_parse_uri_def sub_buf_def NGX_OK_def NGX_ERROR_def simp del: scan.simps split: stop.splits)
  then have ch: "ch = ch_slash" and sc1: "scan pu_step pu_after_slash_in_uri r (take s buf @ [ch]) ys = Ended st' r'"
    by (auto simp: pu_do_start_def split: if_splits)
  let ?c = "new_uri\<lparr>cu_args_start := None, cu_ext := None, cu_uri := [ch_slash]\<rparr>"
  have "in_step s [ch] pu_after_slash_in_uri r cu_slash ?c" using r ch by (simp add: in_step_def)
  from in_step_run [OF this _ sc1 flags, of m] range obtain c where
    "cu_loop m (cu_path cu_slash) ?c ys 2 = Inr (cu_done c)" "same_uri s (ch # ys) r' c" "cu_args c = None" "cu_exten c = None"
    by (auto simp: new_uri_def numeral_2_eq_2)
  then show ?thesis using U ch r pu_flags_kept [OF sc] by (auto simp: cu_first path_of_def)
qed

text \<open>
  C15. The shortcut for simple URIs is right: when \<^verbatim>\<open>ngx_http_parse_uri\<close> accepts a URI and sets neither
  \<^verbatim>\<open>complex_uri\<close> nor \<^verbatim>\<open>quoted_uri\<close>, using the URI in place gives the same path, extension, arguments and
  unparsed URI as decoding and normalising it with the complex parser would, whether or not
  slashes are merged.
\<close>

theorem simple_uri_shortcut:
  assumes r: "uri_start r = Some s" "uri_end r = Some e" "uri_ext r = None" "args_start r = None"
    and range: "s < e" "e \<le> length buf"
    and ok: "ngx_http_parse_uri buf r = Some (NGX_OK, r')" and flags: "\<not> complex_uri r'" "\<not> quoted_uri r'"
  shows "ngx_http_process_request_uri True m buf r' = ngx_http_process_request_uri True m buf (r'\<lparr>complex_uri := True\<rparr>)"
proof -
  from parse_uri_same [OF assms, of m] obtain c where
    c: "ngx_http_parse_complex_uri new_uri m (sub_buf buf s e) = Inr (cu_done c)" and same: "same_uri s (sub_buf buf s e) r' c"
    and none: "cu_args c = None" "cu_exten c = None" and se: "uri_start r' = Some s" "uri_end r' = Some e"
    by blast
  have ext: "(case cu_exten (cu_done c) of None \<Rightarrow> [] | Some (x, n) \<Rightarrow> take n (drop x (cu_uri c)))
      = (case cu_ext c of None \<Rightarrow> [] | Some k \<Rightarrow> drop k (cu_uri c))"
    using none by (auto simp: cu_done_def split: option.split)
  have keep: "cu_uri (cu_done c) = cu_uri c" "cu_args (cu_done c) = None" "cu_args_start (cu_done c) = cu_args_start c"
    using none by (auto simp: cu_done_def split: option.split)
  show ?thesis
  proof (cases "args_start r'")
    case None
    with same se c flags ext keep show ?thesis
      by (auto simp: ngx_http_process_request_uri_def same_uri_def sub_buf_def drop_take split: option.split)
  next
    case (Some a)
    have l: "length (sub_buf buf s e) = e - s" using range by (simp add: sub_buf_def)
    have a: "s < a" "a \<le> e" "cu_uri c = take (a - 1 - s) (sub_buf buf s e)" "cu_args_start c = Some (a - s)"
      using same Some range by (auto simp: same_uri_def l)
    then have "cu_uri c = sub_buf buf s (a - 1)" by (simp add: sub_buf_def min_def)
    with a Some same se c flags ext keep show ?thesis
      by (auto simp: ngx_http_process_request_uri_def same_uri_def sub_buf_def drop_take split: option.split)
  qed
qed

definition uri_example :: http_request where
  "uri_example = new_request\<lparr>uri_start := Some 0, uri_end := Some 9\<rparr>"

theorem simple_uri_shortcut_witness:
  "ngx_http_process_request_uri True True (bytes_of ''/a.b/c?x='') (uri_example\<lparr>args_start := Some 7\<rparr>)
    = ngx_http_process_request_uri True True (bytes_of ''/a.b/c?x='') (uri_example\<lparr>args_start := Some 7, complex_uri := True\<rparr>)"
proof (rule simple_uri_shortcut [where r = uri_example and s = 0 and e = 9])
  show "ngx_http_parse_uri (bytes_of ''/a.b/c?x='') uri_example = Some (NGX_OK, uri_example\<lparr>args_start := Some 7\<rparr>)"
    by code_simp
qed (simp_all add: uri_example_def new_request_def bytes_of_def)

end
