(* ===== verification/Ngx_Http_Args.thy ===== *)
theory Ngx_Http_Args
  imports Ngx_Request_Line Ngx_Escape Ngx_String
begin

text \<open>
  The helpers at the end of \<^verbatim>\<open>ngx_http_parse.c\<close>: the check of URIs that come from a trusted side
  (\<^verbatim>\<open>ngx_http_parse_unsafe_uri\<close>), the lookup of cookies and header parameters
  (\<^verbatim>\<open>ngx_http_parse_multi_header_lines\<close>, \<^verbatim>\<open>ngx_http_parse_set_cookie_lines\<close>), and of arguments
  (\<^verbatim>\<open>ngx_http_arg\<close>, \<^verbatim>\<open>ngx_http_split_args\<close>).
\<close>

section \<open>Unsafe URIs\<close>

text \<open>The test for \<open>..\<close> as a whole segment at the start of the rest.\<close>

fun dotdot_at :: "bytes \<Rightarrow> bool" where
  "dotdot_at (a # b # p) \<longleftrightarrow> a = ch_dot \<and> b = ch_dot \<and> (p = [] \<or> hd p = ch_slash)"
| "dotdot_at _ \<longleftrightarrow> False"

text \<open>The first loop: \<open>None\<close> is \<^verbatim>\<open>goto unsafe\<close>; otherwise \<^verbatim>\<open>quoted\<close> and what follows a question mark.\<close>

fun unsafe_loop :: "bool \<Rightarrow> bytes \<Rightarrow> (bool \<times> bytes option) option" where
  "unsafe_loop quoted [] = Some (quoted, None)"
| "unsafe_loop quoted (ch # p) =
     (if ch = ch_percent then unsafe_loop True p
      else if tab_bit usual ch then unsafe_loop quoted p
      else if ch = ch_quest then Some (quoted, Some p)
      else if ch = 0 then None
      else if ch = ch_slash \<and> length (ch # p) > 2 \<and> dotdot_at p then None
      else unsafe_loop quoted p)"

text \<open>The loop over the decoded URI.\<close>

fun unsafe_decoded :: "bytes \<Rightarrow> bool" where
  "unsafe_decoded [] = False"
| "unsafe_decoded (ch # p) =
     (if ch = 0 then True
      else if ch = ch_slash \<and> length (ch # p) > 2 \<and> dotdot_at p then True
      else unsafe_decoded p)"

text \<open>\<open>Inr\<close> holds the URI and the arguments on \<^verbatim>\<open>NGX_OK\<close>; \<open>alloc\<close> says whether memory is there.\<close>

definition ngx_http_parse_unsafe_uri :: "bool \<Rightarrow> bytes \<Rightarrow> bytes \<Rightarrow> int + bytes \<times> bytes" where
  "ngx_http_parse_unsafe_uri alloc uri args =
     (if uri = [] \<or> hd uri = ch_quest then Inl NGX_ERROR
      else if dotdot_at uri then Inl NGX_ERROR
      else
        (case unsafe_loop False uri of
           None \<Rightarrow> Inl NGX_ERROR
         | Some (quoted, a) \<Rightarrow>
             (let args' = (case a of None \<Rightarrow> args | Some p \<Rightarrow> p);
                  uri' = (case a of None \<Rightarrow> uri | Some p \<Rightarrow> take (length uri - length p - 1) uri) in
              if quoted then
                if \<not> alloc then Inl NGX_ERROR
                else
                  (let dst = fst (ngx_unescape_uri uri' 0) in
                   if dotdot_at dst \<or> unsafe_decoded dst then Inl NGX_ERROR else Inr (dst, args'))
              else Inr (uri', args'))))"

section \<open>Header parameters\<close>

text \<open>
  A header value is the list of its bytes, null-terminated as the header parser leaves it. The
  rest of the value is what \<^verbatim>\<open>start\<close> points to. The code at \<^verbatim>\<open>skip\<close> goes behind the next semicolon or
  comma and the spaces after it.
\<close>

definition skip_sp :: "bytes \<Rightarrow> bytes" where
  "skip_sp s = dropWhile (\<lambda>c. c = ch_sp) s"

definition mh_skip :: "bytes \<Rightarrow> bytes" where
  "mh_skip s = skip_sp (tl (dropWhile (\<lambda>c. c \<noteq> ch_semi \<and> c \<noteq> ch_comma) s))"

lemma mh_skip_shorter [termination_simp]: "s \<noteq> [] \<Longrightarrow> length (mh_skip s) < length s"
proof -
  have "length (mh_skip s) \<le> length (tl (dropWhile (\<lambda>c. c \<noteq> ch_semi \<and> c \<noteq> ch_comma) s))"
    unfolding mh_skip_def skip_sp_def by (rule length_dropWhile_le)
  moreover have "length (dropWhile (\<lambda>c. c \<noteq> ch_semi \<and> c \<noteq> ch_comma) s) \<le> length s" by (rule length_dropWhile_le)
  moreover assume "s \<noteq> []"
  then have "0 < length s" by simp
  ultimately show "length (mh_skip s) < length s" unfolding length_tl by linarith
qed

lemma skip_sp_le: "length (skip_sp s) \<le> length s"
  unfolding skip_sp_def by (rule length_dropWhile_le)

lemma mh_skip_le: "length (mh_skip s) \<le> length s"
  using mh_skip_shorter [of s] by (cases "s = []") (auto simp: mh_skip_def skip_sp_def)

lemma mh_skip_after:
  assumes "s \<noteq> []"
  shows "skip_sp (drop n s) \<noteq> [] \<Longrightarrow> length (mh_skip (skip_sp (drop n s))) < length s"
    and "length (mh_skip (tl (skip_sp (drop n s)))) < length s"
    and "length (mh_skip []) < length s"
proof -
  have le: "length (skip_sp (drop n s)) \<le> length s" using skip_sp_le [of "drop n s"] by simp
  then show "skip_sp (drop n s) \<noteq> [] \<Longrightarrow> length (mh_skip (skip_sp (drop n s))) < length s"
    using mh_skip_shorter [of "skip_sp (drop n s)"] by linarith
  show "length (mh_skip []) < length s" using assms by (simp add: mh_skip_def skip_sp_def)
  show "length (mh_skip (tl (skip_sp (drop n s)))) < length s"
  proof (cases "skip_sp (drop n s)")
    case Nil
    show ?thesis unfolding Nil using assms by (simp add: mh_skip_def skip_sp_def)
  next
    case (Cons a xs)
    with le mh_skip_le [of xs] show ?thesis by simp
  qed
qed

text \<open>
  The scan of one value: \<open>Some None\<close> when the name is not there; \<open>want\<close> says whether \<^verbatim>\<open>value\<close> is
  non-null, in which case the result is the value.
\<close>

function mh_scan :: "bytes \<Rightarrow> bool \<Rightarrow> bytes \<Rightarrow> bytes option option" where
  "mh_scan name want s =
     (if s = [] then Some None
      else
        (case ngx_strncasecmp (s @ [0]) name (length name) of
           None \<Rightarrow> None
         | Some d \<Rightarrow>
             if d \<noteq> 0 then mh_scan name want (mh_skip s)
             else
               (let s1 = skip_sp (drop (length name) s) in
                if \<not> want then
                  if s1 = [] \<or> hd s1 = ch_comma then Some (Some [])
                  else mh_scan name want (mh_skip s1)
                else if s1 = [] then mh_scan name want (mh_skip s1)
                else if hd s1 \<noteq> ch_eq then mh_scan name want (mh_skip (tl s1))
                else Some (Some (takeWhile (\<lambda>c. c \<noteq> ch_semi) (skip_sp (tl s1)))))))"
  by pat_completeness auto

termination
  by (relation "measure (\<lambda>(name, want, s). length s)")
    (use mh_skip_shorter mh_skip_after in auto)

declare mh_scan.simps [simp del]

text \<open>The lines of a header, in order: the index of the first one that has the name, or \<^verbatim>\<open>NGX_DECLINED\<close>.\<close>

fun multi_header_loop :: "nat \<Rightarrow> bytes list \<Rightarrow> bytes \<Rightarrow> bool \<Rightarrow> (int \<times> bytes) option" where
  "multi_header_loop i [] name want = Some (NGX_DECLINED, [])"
| "multi_header_loop i (v # hs) name want =
     (if length name > length v then multi_header_loop (Suc i) hs name want
      else
        (case mh_scan name want v of
           None \<Rightarrow> None
         | Some None \<Rightarrow> multi_header_loop (Suc i) hs name want
         | Some (Some x) \<Rightarrow> Some (int i, x)))"

definition ngx_http_parse_multi_header_lines :: "bytes list \<Rightarrow> bytes \<Rightarrow> bool \<Rightarrow> (int \<times> bytes) option" where
  "ngx_http_parse_multi_header_lines headers name want = multi_header_loop 0 headers name want"

fun set_cookie_loop :: "nat \<Rightarrow> bytes list \<Rightarrow> bytes \<Rightarrow> (int \<times> bytes) option" where
  "set_cookie_loop i [] name = Some (NGX_DECLINED, [])"
| "set_cookie_loop i (v # hs) name =
     (if length name \<ge> length v then set_cookie_loop (Suc i) hs name
      else
        (case ngx_strncasecmp (v @ [0]) name (length name) of
           None \<Rightarrow> None
         | Some d \<Rightarrow>
             if d \<noteq> 0 then set_cookie_loop (Suc i) hs name
             else
               (let s1 = skip_sp (drop (length name) v) in
                if s1 = [] \<or> hd s1 \<noteq> ch_eq then set_cookie_loop (Suc i) hs name
                else Some (int i, takeWhile (\<lambda>c. c \<noteq> ch_semi) (skip_sp (tl s1))))))"

definition ngx_http_parse_set_cookie_lines :: "bytes list \<Rightarrow> bytes \<Rightarrow> (int \<times> bytes) option" where
  "ngx_http_parse_set_cookie_lines headers name = set_cookie_loop 0 headers name"

section \<open>Arguments\<close>

text \<open>
  The loop of \<^verbatim>\<open>ngx_http_arg\<close> from offset \<open>p\<close>: \<open>Some None\<close> is \<^verbatim>\<open>NGX_DECLINED\<close>, otherwise the offset
  and the length of the value; the length is a difference of pointers in a \<^verbatim>\<open>size_t\<close>.
\<close>

function http_arg_loop :: "bytes \<Rightarrow> bytes \<Rightarrow> nat \<Rightarrow> (nat \<times> int) option option" where
  "http_arg_loop args name p =
     (if p < length args then
        (case ngx_strlcasestrn (drop p args) (length args - 1 - p) name (length name - 1) of
           None \<Rightarrow> None
         | Some None \<Rightarrow> Some None
         | Some (Some k) \<Rightarrow>
             (let q = p + k in
              if q = 0 \<or> args ! (q - 1) = ch_amp then
                (case rd args (q + length name) of
                   None \<Rightarrow> None
                 | Some c \<Rightarrow>
                     if c = ch_eq then
                       (case ngx_strlchr (drop q args) (length args - q) ch_amp of
                          None \<Rightarrow> None
                        | Some e \<Rightarrow>
                            (let stop = (case e of None \<Rightarrow> length args | Some j \<Rightarrow> q + j);
                                 start = q + length name + 1 in
                             Some (Some (start, (int stop - int start) mod 2 ^ 64))))
                     else http_arg_loop args name (q + 1))
              else http_arg_loop args name (q + 1)))
      else Some None)"
  by pat_completeness auto

termination
  by (relation "measure (\<lambda>(args, name, p). length args - p)") auto

declare http_arg_loop.simps [simp del]

definition ngx_http_arg :: "bytes \<Rightarrow> bytes \<Rightarrow> (nat \<times> int) option option" where
  "ngx_http_arg args name = (if args = [] then Some None else http_arg_loop args name 0)"

definition ngx_http_split_args :: "bytes \<Rightarrow> (bytes \<times> bytes) option" where
  "ngx_http_split_args uri =
     (case ngx_strlchr uri (length uri) ch_quest of
        None \<Rightarrow> None
      | Some None \<Rightarrow> Some (uri, [])
      | Some (Some p) \<Rightarrow> Some (take p uri, drop (p + 1) uri))"

section \<open>Segments\<close>

fun segs :: "bytes \<Rightarrow> bytes list" where
  "segs [] = [[]]"
| "segs (c # cs) = (if c = ch_slash then [] # segs cs else (c # hd (segs cs)) # tl (segs cs))"

abbreviation up_seg :: bytes where
  "up_seg \<equiv> [ch_dot, ch_dot]"

fun dd_in :: "bytes \<Rightarrow> bool" where
  "dd_in [] = False"
| "dd_in (c # p) = (c = ch_slash \<and> dotdot_at p \<or> dd_in p)"

lemma segs_hd: "segs xs \<noteq> [] \<and> hd (segs xs) = takeWhile (\<lambda>c. c \<noteq> ch_slash) xs"
  by (induction xs) auto

lemma dotdot_at_seg: "dotdot_at xs \<longleftrightarrow> takeWhile (\<lambda>c. c \<noteq> ch_slash) xs = up_seg"
proof (cases xs rule: dotdot_at.cases)
  case (1 a b p)
  then show ?thesis by (cases p) auto
qed auto

lemma dd_in_segs: "dd_in xs \<longleftrightarrow> up_seg \<in> set (tl (segs xs))"
proof (induction xs)
  case (Cons c xs)
  have e: "segs xs = hd (segs xs) # tl (segs xs)" using segs_hd [of xs] by (metis list.collapse)
  have "up_seg \<in> set (segs xs) \<longleftrightarrow> dotdot_at xs \<or> dd_in xs"
    by (subst e) (auto simp: segs_hd dotdot_at_seg Cons.IH)
  with Cons.IH show ?case by auto
qed simp

lemma dotdot_in_segs: "up_seg \<in> set (segs xs) \<longleftrightarrow> dotdot_at xs \<or> dd_in xs"
proof -
  have e: "segs xs = hd (segs xs) # tl (segs xs)" using segs_hd [of xs] by (metis list.collapse)
  show ?thesis by (subst e) (auto simp: segs_hd dotdot_at_seg dd_in_segs)
qed

lemma dotdot_at_long: "dotdot_at p \<Longrightarrow> 2 \<le> length p"
  by (cases p rule: dotdot_at.cases) auto

lemma unsafe_decoded_iff: "unsafe_decoded xs \<longleftrightarrow> 0 \<in> set xs \<or> dd_in xs"
  using dotdot_at_long by (induction xs) (auto simp: numeral_2_eq_2 le_Suc_eq, fastforce+)

text \<open>The first loop, up to a question mark.\<close>

abbreviation to_quest :: "bytes \<Rightarrow> bytes" where
  "to_quest xs \<equiv> takeWhile (\<lambda>c. c \<noteq> ch_quest) xs"

abbreviation from_quest :: "bytes \<Rightarrow> bytes" where
  "from_quest xs \<equiv> dropWhile (\<lambda>c. c \<noteq> ch_quest) xs"

lemma dotdot_at_cut: "dotdot_at xs \<longleftrightarrow> dotdot_at (to_quest xs @ take 1 (from_quest xs))"
proof (cases xs rule: dotdot_at.cases)
  case (1 a b p)
  then show ?thesis by (cases p) auto
qed auto

lemma unsafe_loop_iff:
  "unsafe_loop q xs =
     (if 0 \<in> set (to_quest xs) \<or> dd_in (to_quest xs @ take 1 (from_quest xs)) then None
      else Some (q \<or> ch_percent \<in> set (to_quest xs), if from_quest xs = [] then None else Some (tl (from_quest xs))))"
proof (induction xs arbitrary: q)
  case (Cons c xs)
  have u: "\<not> tab_bit usual ch_slash" "\<not> tab_bit usual ch_quest" "\<not> tab_bit usual 0" by code_simp+
  have l: "dotdot_at xs \<Longrightarrow> length (c # xs) > 2" using dotdot_at_long [of xs] by simp
  consider "c = ch_quest" | "c = ch_slash" | "c = ch_percent" | "c = 0" | "c \<notin> {ch_quest, ch_slash, ch_percent, 0}" by auto
  then show ?case
  proof cases
    case 2
    with Cons.IH u l dotdot_at_cut [of xs] show ?thesis by auto
  qed (use Cons.IH u in auto)
qed simp

text \<open>
  C16. \<^verbatim>\<open>ngx_http_parse_unsafe_uri\<close> on every URI: it refuses the empty path, a null byte, and a
  segment \<open>..\<close> in the path as written or decoded; otherwise it answers the path, decoded when it
  has a percent sign, and what follows the question mark. A last segment \<open>..\<close> in front of a
  question mark counts in the decoded path only.
\<close>

theorem unsafe_uri_exact:
  "ngx_http_parse_unsafe_uri True uri args =
    (let path = to_quest uri; dst = fst (ngx_unescape_uri path 0);
         rest = (if from_quest uri = [] then args else tl (from_quest uri)) in
     if path = [] \<or> 0 \<in> set path \<or> up_seg \<in> set (segs (path @ take 1 (from_quest uri))) then Inl NGX_ERROR
     else if ch_percent \<notin> set path then Inr (path, rest)
     else if 0 \<in> set dst \<or> up_seg \<in> set (segs dst) then Inl NGX_ERROR
     else Inr (dst, rest))"
proof -
  have path: "to_quest uri = [] \<longleftrightarrow> uri = [] \<or> hd uri = ch_quest" by (cases uri) auto
  have cut: "take (length uri - length (tl (from_quest uri)) - 1) uri = to_quest uri" if "from_quest uri \<noteq> []"
  proof -
    have "length uri = length (to_quest uri) + length (from_quest uri)" by (metis length_append takeWhile_dropWhile_id)
    then have "length uri - length (tl (from_quest uri)) - 1 = length (to_quest uri)" using that by (cases "from_quest uri") auto
    then show ?thesis by (metis takeWhile_eq_take)
  qed
  have all: "to_quest uri = uri" if "from_quest uri = []" using that by (metis append_Nil2 takeWhile_dropWhile_id)
  let ?cut = "to_quest uri @ take 1 (from_quest uri)"
  have "up_seg \<in> set (segs ?cut) \<longleftrightarrow> dotdot_at uri \<or> dd_in ?cut"
    by (simp only: dotdot_in_segs dotdot_at_cut [of uri])
  note segs_eq = this
  show ?thesis
  proof (cases "to_quest uri = [] \<or> 0 \<in> set (to_quest uri) \<or> up_seg \<in> set (segs ?cut)")
    case True
    then have "uri = [] \<or> hd uri = ch_quest \<or> dotdot_at uri \<or> 0 \<in> set (to_quest uri) \<or> dd_in ?cut"
      using path segs_eq by blast
    then have "ngx_http_parse_unsafe_uri True uri args = Inl NGX_ERROR"
      unfolding ngx_http_parse_unsafe_uri_def unsafe_loop_iff by (elim disjE) simp_all
    with True show ?thesis by (simp add: Let_def)
  next
    case False
    then have *: "uri \<noteq> []" "hd uri \<noteq> ch_quest" "\<not> dotdot_at uri" "0 \<notin> set (to_quest uri)" "\<not> dd_in ?cut"
      using path segs_eq by blast+
    let ?dst = "fst (ngx_unescape_uri (to_quest uri) 0)"
    let ?rest = "if from_quest uri = [] then args else tl (from_quest uri)"
    have "ngx_http_parse_unsafe_uri True uri args =
        (if ch_percent \<in> set (to_quest uri)
         then if dotdot_at ?dst \<or> unsafe_decoded ?dst then Inl NGX_ERROR else Inr (?dst, ?rest)
         else Inr (to_quest uri, ?rest))"
    proof -
      have l: "unsafe_loop False uri = Some (ch_percent \<in> set (to_quest uri), if from_quest uri = [] then None else Some (tl (from_quest uri)))"
        unfolding unsafe_loop_iff using *(4,5) by (simp only: if_False simp_thms)
      show ?thesis
        using *(1-3) cut all unfolding ngx_http_parse_unsafe_uri_def l
        by (cases "from_quest uri = []") (simp_all add: Let_def del: dropWhile_eq_Nil_conv takeWhile_eq_all_conv)
    qed
    moreover have "dotdot_at ?dst \<or> unsafe_decoded ?dst \<longleftrightarrow> 0 \<in> set ?dst \<or> up_seg \<in> set (segs ?dst)"
      unfolding dotdot_in_segs unsafe_decoded_iff by blast
    ultimately show ?thesis using False by (simp only: Let_def) simp
  qed
qed

text \<open>The check for \<open>..\<close> looks at the byte behind it and does not know the question mark: this URI passes.\<close>

lemma unsafe_uri_args_hole:
  "ngx_http_parse_unsafe_uri True (bytes_of ''/a/..?x'') [] = Inr (bytes_of ''/a/..'', bytes_of ''x'')"
  by code_simp

section \<open>Looking up cookies\<close>

definition same_name :: "bytes \<Rightarrow> bytes \<Rightarrow> bool" where
  "same_name x y \<longleftrightarrow> map ngx_tolower x = map ngx_tolower y"

lemma strncasecmp_cut: "ngx_strncasecmp s (p @ y) (length p) = ngx_strncasecmp s p (length p)"
proof (induction p arbitrary: s)
  case (Cons a p)
  then show ?case by (cases s) (simp_all add: Let_def)
qed simp

lemma name_compare:
  assumes "0 \<notin> set name"
  shows "\<exists>d. ngx_strncasecmp (s @ [0]) name (length name) = Some d \<and> (d = 0 \<longleftrightarrow> prefix (map ngx_tolower name) (map ngx_tolower s))"
proof -
  have "prefix (map ngx_tolower name) (map ngx_tolower (s @ [0])) \<longleftrightarrow> prefix (map ngx_tolower name) (map ngx_tolower s)"
    using prefix_nul_case [of name s "[]"] assms by simp
  with strncasecmp_prefix [of name "s @ [0]" "[]"] assms show ?thesis by simp
qed

text \<open>
  A cookie header: pairs of a name and a value, joined by semicolons, each followed by
  spaces. Names have no separators and values no semicolons or commas and no leading space.
\<close>

definition cookie_name :: "bytes \<Rightarrow> bool" where
  "cookie_name n \<longleftrightarrow> n \<noteq> [] \<and> set n \<inter> {0, ch_sp, ch_eq, ch_semi, ch_comma} = {}"

definition cookie_value :: "bytes \<Rightarrow> bool" where
  "cookie_value v \<longleftrightarrow> set v \<inter> {0, ch_sp, ch_semi, ch_comma} = {}"

fun cookie_header :: "(bytes \<times> bytes) list \<Rightarrow> bytes" where
  "cookie_header [] = []"
| "cookie_header [(n, v)] = n @ ch_eq # v"
| "cookie_header ((n, v) # cs) = n @ ch_eq # v @ ch_semi # ch_sp # cookie_header cs"

fun find_cookie :: "bytes \<Rightarrow> (bytes \<times> bytes) list \<Rightarrow> bytes option" where
  "find_cookie name [] = None"
| "find_cookie name ((n, v) # cs) = (if same_name name n then Some v else find_cookie name cs)"

definition cookies_ok :: "(bytes \<times> bytes) list \<Rightarrow> bool" where
  "cookies_ok cs \<longleftrightarrow> list_all (\<lambda>(n, v). cookie_name n \<and> cookie_value v) cs"

lemma tolower_upper: "ch_A \<le> c \<Longrightarrow> c \<le> ch_Z \<Longrightarrow> ch_a \<le> c OR 0x20"
proof -
  have all: "list_all (\<lambda>c. ch_A \<le> c \<longrightarrow> ch_a \<le> c OR 0x20) (map word_of_nat [0..<91])" by code_simp
  assume "ch_A \<le> c" "c \<le> ch_Z"
  then have "unat c < 91" by (simp add: word_le_nat_alt)
  from bytes_below_I [OF all this] \<open>ch_A \<le> c\<close> show "ch_a \<le> c OR 0x20" by simp
qed

lemma tolower_special:
  assumes "d < ch_A"
  shows "ngx_tolower c = d \<longleftrightarrow> c = d"
proof (cases "ch_A \<le> c \<and> c \<le> ch_Z")
  case True
  then have "c OR 0x20 \<noteq> d" "c \<noteq> d" using tolower_upper [of c] assms by (auto simp: word_le_nat_alt word_less_nat_alt)
  with True show ?thesis by (simp add: ngx_tolower_def)
qed (auto simp: ngx_tolower_def)

text \<open>Skipping a pair from any place in it.\<close>

lemma mh_skip_run:
  "set x \<inter> {ch_semi, ch_comma} = {} \<Longrightarrow> mh_skip (x @ ch_semi # y) = skip_sp y"
  "set x \<inter> {ch_semi, ch_comma} = {} \<Longrightarrow> mh_skip x = []"
  by (induction x) (auto simp: mh_skip_def skip_sp_def)

lemma skip_sp_id: "s = [] \<or> hd s \<noteq> ch_sp \<Longrightarrow> skip_sp s = s"
  by (cases s) (auto simp: skip_sp_def)

lemma cookie_header_Cons:
  "cookie_header ((n, v) # cs) = n @ ch_eq # v @ (if cs = [] then [] else ch_semi # ch_sp # cookie_header cs)"
  by (cases cs) auto

lemma cookie_name_hd: "cookie_name n \<Longrightarrow> n \<noteq> [] \<and> hd n \<noteq> ch_sp"
  by (cases n) (auto simp: cookie_name_def)

lemma cookie_header_sp: "cookies_ok cs \<Longrightarrow> skip_sp (cookie_header cs) = cookie_header cs"
  by (cases cs rule: cookie_header.cases) (auto intro!: skip_sp_id simp: cookies_ok_def hd_append dest!: cookie_name_hd)

text \<open>One pair: found, or skipped to the next.\<close>

lemma mh_scan_pair:
  assumes name: "cookie_name name" and n: "cookie_name n" and v: "cookie_value v" and cs: "cookies_ok cs"
  shows "mh_scan name True (cookie_header ((n, v) # cs)) =
    (if same_name name n then Some (Some v) else mh_scan name True (cookie_header cs))"
proof -
  let ?rest = "if cs = [] then [] else ch_semi # ch_sp # cookie_header cs"
  let ?s = "n @ ch_eq # v @ ?rest"
  have s: "cookie_header ((n, v) # cs) = ?s" by (rule cookie_header_Cons)
  have skip: "mh_skip (x @ ?rest) = cookie_header cs" if "set x \<inter> {ch_semi, ch_comma} = {}" for x
    using mh_skip_run [OF that] cookie_header_sp [OF cs] by (auto simp: skip_sp_def)
  have sep: "set n \<inter> {ch_semi, ch_comma} = {}" "set v \<inter> {ch_semi, ch_comma} = {}" "ch_eq \<notin> set n" "ch_sp \<notin> set n" "ch_sp \<notin> set v"
    using n v by (auto simp: cookie_name_def cookie_value_def)
  obtain d where d: "ngx_strncasecmp (?s @ [0]) name (length name) = Some d"
    "d = 0 \<longleftrightarrow> prefix (map ngx_tolower name) (map ngx_tolower ?s)"
    using name_compare [of name ?s] name by (auto simp: cookie_name_def)
  have ne: "?s \<noteq> []" by simp
  show ?thesis
  proof (cases "d = 0")
    case False
    then have "\<not> same_name name n" using d(2) by (auto simp: same_name_def)
    moreover have "mh_skip ?s = cookie_header cs" using skip [of "n @ ch_eq # v"] sep by simp
    ultimately show ?thesis unfolding s using False d(1) ne by (subst mh_scan.simps) simp
  next
    case True
    with d(2) have pre: "prefix (map ngx_tolower name) (map ngx_tolower ?s)" by simp
    have short: "length name \<le> length n"
    proof (rule ccontr)
      assume "\<not> length name \<le> length n"
      then have l: "length n < length name" by simp
      then have "map ngx_tolower name ! length n = map ngx_tolower ?s ! length n"
        using pre by (metis length_map nth_append prefix_def)
      then have "ngx_tolower (name ! length n) = ngx_tolower ch_eq" using l by (simp add: nth_append)
      then have "name ! length n = ch_eq" using tolower_special [of ch_eq ch_eq] tolower_special [of ch_eq "name ! length n"] by simp
      with l have "ch_eq \<in> set name" by (metis nth_mem)
      with name show False by (simp add: cookie_name_def)
    qed
    show ?thesis
    proof (cases "length name = length n")
      case eq: True
      with pre have "same_name name n"
        by (auto simp: same_name_def prefix_def append_eq_append_conv)
      moreover have "skip_sp (drop (length name) ?s) = ch_eq # v @ ?rest" using eq by (simp add: skip_sp_id)
      moreover have "skip_sp (v @ ?rest) = v @ ?rest"
        using sep(5) by (intro skip_sp_id) (cases v; auto)
      moreover have "takeWhile (\<lambda>c. c \<noteq> ch_semi) (v @ ?rest) = v" using sep(2) by (auto simp: takeWhile_append)
      ultimately show ?thesis unfolding s using True d(1) ne by (subst mh_scan.simps) (simp add: Let_def)
    next
      case False
      with short have "length name < length n" by simp
      then obtain c b where b: "drop (length name) n = c # b" by (cases "drop (length name) n") auto
      then have "set (c # b) \<subseteq> set n" by (metis set_drop_subset)
      then have c: "c \<noteq> ch_sp" "c \<noteq> ch_eq" "set b \<inter> {ch_semi, ch_comma} = {}" using sep by auto
      have "skip_sp (drop (length name) ?s) = c # b @ ch_eq # v @ ?rest" using b short c by (simp add: skip_sp_id)
      moreover have "mh_skip (b @ ch_eq # v @ ?rest) = cookie_header cs" using skip [of "b @ ch_eq # v"] c sep by simp
      moreover have "\<not> same_name name n" using False by (auto simp: same_name_def dest: map_eq_imp_length_eq)
      ultimately show ?thesis unfolding s using True d(1) ne c by (subst mh_scan.simps) (simp add: Let_def)
    qed
  qed
qed

lemma mh_scan_cookies:
  "cookie_name name \<Longrightarrow> cookies_ok cs \<Longrightarrow> mh_scan name True (cookie_header cs) = Some (find_cookie name cs)"
proof (induction cs)
  case Nil
  then show ?case by (simp add: mh_scan.simps)
next
  case (Cons c cs)
  obtain n v where "c = (n, v)" by (cases c)
  with Cons mh_scan_pair [of name n v cs] show ?case by (simp add: cookies_ok_def)
qed

fun find_header :: "nat \<Rightarrow> bytes \<Rightarrow> (bytes \<times> bytes) list list \<Rightarrow> int \<times> bytes" where
  "find_header i name [] = (NGX_DECLINED, [])"
| "find_header i name (cs # hs) =
     (case find_cookie name cs of Some v \<Rightarrow> (int i, v) | None \<Rightarrow> find_header (Suc i) name hs)"

lemma find_cookie_short: "find_cookie name cs = Some v \<Longrightarrow> length name \<le> length (cookie_header cs)"
proof (induction cs)
  case (Cons c cs)
  obtain n w where c: "c = (n, w)" by (cases c)
  show ?case
  proof (cases "same_name name n")
    case True
    then have "length name = length n" by (auto simp: same_name_def dest: map_eq_imp_length_eq)
    with c show ?thesis by (simp only: cookie_header_Cons) simp
  next
    case False
    with Cons c have "length name \<le> length (cookie_header cs)" "cs \<noteq> []" by (auto split: if_splits)
    with c show ?thesis by (simp only: cookie_header_Cons) simp
  qed
qed simp

text \<open>
  Cookies are found: for any header lines made of pairs of a name and a value,
  \<^verbatim>\<open>ngx_http_parse_multi_header_lines\<close> answers the index of the first line that has a pair with the
  name, ignoring case, and the value of the first such pair in it, or \<^verbatim>\<open>NGX_DECLINED\<close>.
\<close>

theorem multi_header_finds_cookie:
  assumes "cookie_name name" "list_all cookies_ok hs"
  shows "ngx_http_parse_multi_header_lines (map cookie_header hs) name True = Some (find_header 0 name hs)"
proof -
  have "multi_header_loop i (map cookie_header hs) name True = Some (find_header i name hs)" for i
    using assms(2)
  proof (induction hs arbitrary: i)
    case (Cons cs hs)
    then show ?case
      using mh_scan_cookies [OF assms(1), of cs] find_cookie_short [of name cs]
      by (cases "find_cookie name cs") auto
  qed simp
  then show ?thesis by (simp add: ngx_http_parse_multi_header_lines_def)
qed

theorem multi_header_finds_cookie_witness:
  "ngx_http_parse_multi_header_lines [bytes_of ''a=1; sid=x; SID=y''] (bytes_of ''Sid'') True = Some (0, bytes_of ''x'')"
proof -
  have "cookie_name (bytes_of ''Sid'')" "list_all cookies_ok [[(bytes_of ''a'', bytes_of ''1''), (bytes_of ''sid'', bytes_of ''x''), (bytes_of ''SID'', bytes_of ''y'')]]"
    by code_simp+
  from multi_header_finds_cookie [OF this] show ?thesis
    by (simp add: bytes_of_def same_name_def ngx_tolower_def)
qed

text \<open>
  A name without a value hides the pair behind it: the test for the equals sign steps over
  the semicolon, and the skip then goes to the next one.
\<close>

lemma multi_header_hides:
  "ngx_http_parse_multi_header_lines [bytes_of ''a; a=1''] (bytes_of ''a'') True = Some (NGX_DECLINED, [])"
  by code_simp

section \<open>Looking up arguments\<close>

lemma strlcasestrn_cut:
  "strlcasestrn_loop l c2 (p @ y) (length p) i s = strlcasestrn_loop l c2 p (length p) i s"
proof (induction s arbitrary: i)
  case Nil
  show ?case by (subst (1 2) strlcasestrn_loop.simps) simp
next
  case (Cons c s)
  then show ?case by (subst (1 2) strlcasestrn_loop.simps) (simp add: strncasecmp_cut split: option.split)
qed

lemma strlcasestrn_region:
  assumes "zpattern pat" "n \<le> length s"
  shows "\<exists>r. ngx_strlcasestrn s n pat (length pat - 1) = Some r \<and> first_at ngx_tolower pat (take n s) r"
proof -
  from strlcasestrn.finds [OF assms(1), of "take n s" "drop n s"] assms(2) obtain r where
    "strlcasestrn_loop (int n - int (length pat - 1)) (ngx_tolower (hd pat)) (tl pat @ [0]) (length pat - 1) 0 s = Some r"
    "first_at ngx_tolower pat (take n s) r"
    by (auto simp: list_all_iff)
  with strlcasestrn_cut [of _ _ "tl pat" "[0]"] assms(1) show ?thesis
    by (auto simp: ngx_strlcasestrn_def rd_def zpattern_def hd_conv_nth)
qed

definition arg_at :: "bytes \<Rightarrow> bytes \<Rightarrow> nat \<Rightarrow> bool" where
  "arg_at args name j \<longleftrightarrow> j + length name < length args \<and> same_name (take (length name) (drop j args)) name
     \<and> (j = 0 \<or> args ! (j - 1) = ch_amp) \<and> args ! (j + length name) = ch_eq"

lemma arg_prefix:
  "prefix (map ngx_tolower name) (map ngx_tolower (drop k (take n s))) \<longleftrightarrow>
     (name = [] \<or> k + length name \<le> min n (length s)) \<and> same_name (take (length name) (drop k s)) name"
proof
  assume pre: "prefix (map ngx_tolower name) (map ngx_tolower (drop k (take n s)))"
  then have len: "length name \<le> min n (length s) - k" using prefix_length_le by fastforce
  from pre have "map ngx_tolower name = take (length name) (map ngx_tolower (drop k (take n s)))"
    by (auto simp: prefix_def)
  also have "\<dots> = map ngx_tolower (take (length name) (drop k s))"
  proof -
    have "length name \<le> n - k" using len by linarith
    then show ?thesis by (simp add: take_map drop_take min_def)
  qed
  finally show "(name = [] \<or> k + length name \<le> min n (length s)) \<and> same_name (take (length name) (drop k s)) name"
    using len by (cases name) (auto simp: same_name_def)
next
  assume a: "(name = [] \<or> k + length name \<le> min n (length s)) \<and> same_name (take (length name) (drop k s)) name"
  then have "length name \<le> n - k" by auto
  with a have "map ngx_tolower name = take (length name) (map ngx_tolower (drop k (take n s)))"
    by (simp add: same_name_def take_map drop_take min_def)
  then show "prefix (map ngx_tolower name) (map ngx_tolower (drop k (take n s)))" by (metis take_is_prefix)
qed

definition arg_result :: "bytes \<Rightarrow> bytes \<Rightarrow> (nat \<times> int) option option \<Rightarrow> bool" where
  "arg_result args name r =
     (case r of
        None \<Rightarrow> False
      | Some None \<Rightarrow> \<forall>j. \<not> arg_at args name j
      | Some (Some (start, n)) \<Rightarrow>
          \<exists>j. arg_at args name j \<and> (\<forall>i<j. \<not> arg_at args name i) \<and> start = j + length name + 1
            \<and> n = int (length (takeWhile (\<lambda>c. c \<noteq> ch_amp) (drop start args))))"

lemma strlchr_takeWhile:
  "ngx_strlchr s (length s) c = Some (if c \<in> set s then Some (length (takeWhile (\<lambda>x. x \<noteq> c) s)) else None)"
  by (induction s) auto

text \<open>The end of the value, searched for from the start of the name.\<close>

lemma arg_end:
  assumes at: "arg_at args name j" and amp: "ch_amp \<notin> set name" and fits: "length args < 2 ^ 64"
  shows "(int (case if ch_amp \<in> set (drop j args) then Some (length (takeWhile (\<lambda>x. x \<noteq> ch_amp) (drop j args))) else None of
        None \<Rightarrow> length args | Some e \<Rightarrow> j + e) - int (j + length name + 1)) mod 2 ^ 64
    = int (length (takeWhile (\<lambda>c. c \<noteq> ch_amp) (drop (j + length name + 1) args)))"
proof -
  let ?v = "drop (j + length name + 1) args"
  have len: "j + length name < length args" using at by (simp add: arg_at_def)
  have split: "drop j args = take (length name) (drop j args) @ ch_eq # ?v"
    using at by (simp add: arg_at_def id_take_nth_drop [symmetric] Cons_nth_drop_Suc add.commute
        flip: drop_drop) (metis Cons_nth_drop_Suc add.commute append_take_drop_id drop_drop len)
  have "ch_amp \<notin> set (take (length name) (drop j args))"
  proof
    assume "ch_amp \<in> set (take (length name) (drop j args))"
    then have "ngx_tolower ch_amp \<in> set (map ngx_tolower (take (length name) (drop j args)))" by auto
    also have "map ngx_tolower (take (length name) (drop j args)) = map ngx_tolower name" using at by (simp add: arg_at_def same_name_def)
    finally obtain c where "c \<in> set name" "ngx_tolower c = ngx_tolower ch_amp" by auto
    then have "c = ch_amp" using tolower_special [of ch_amp ch_amp] tolower_special [of ch_amp c] by simp
    with \<open>c \<in> set name\<close> amp show False by simp
  qed
  then have tw: "takeWhile (\<lambda>x. x \<noteq> ch_amp) (drop j args) = take (length name) (drop j args) @ ch_eq # takeWhile (\<lambda>x. x \<noteq> ch_amp) ?v"
    and mem: "ch_amp \<in> set (drop j args) \<longleftrightarrow> ch_amp \<in> set ?v"
    by (subst split, force simp: takeWhile_append)+
  have small: "length (takeWhile (\<lambda>x. x \<noteq> ch_amp) ?v) < 2 ^ 64"
    using fits length_takeWhile_le [of "\<lambda>x. x \<noteq> ch_amp" ?v] by (simp del: length_takeWhile_le)
  show ?thesis
  proof (cases "ch_amp \<in> set ?v")
    case True
    then show ?thesis using tw mem small len by simp
  next
    case False
    then have "takeWhile (\<lambda>x. x \<noteq> ch_amp) ?v = ?v" by (auto simp: takeWhile_eq_all_conv)
    then have l: "length (takeWhile (\<lambda>x. x \<noteq> ch_amp) ?v) = length args - (j + length name + 1)"
      by (simp only: length_drop)
    have d: "int (length args) - int (j + length name + 1) = int (length args - (j + length name + 1))" using len by simp
    have "int (length args - (j + length name + 1)) < 2 ^ 64" using fits by simp
    then have "int (length args - (j + length name + 1)) mod 2 ^ 64 = int (length args - (j + length name + 1))"
      by (simp only: mod_pos_pos_trivial of_nat_0_le_iff)
    moreover have "\<not> ch_amp \<in> set (drop j args)" using mem False by blast
    ultimately show ?thesis by (simp only: l d if_False option.case)
  qed
qed

lemma http_arg_loop_ok:
  assumes name: "zpattern name" "ch_amp \<notin> set name" and fits: "length args < 2 ^ 64"
  shows "\<forall>i<p. \<not> arg_at args name i \<Longrightarrow> arg_result args name (http_arg_loop args name p)"
  using assms
proof (induction args name p rule: http_arg_loop.induct)
  case (1 args name p)
  have beyond: "\<not> arg_at args name i" if "\<not> i + length name < length args" for i
    using that by (simp add: arg_at_def)
  show ?case
  proof (cases "p < length args")
    case False
    then have "\<not> arg_at args name j" for j using "1.prems"(1) beyond [of j] by (cases "j < p") auto
    with False show ?thesis by (subst http_arg_loop.simps) (simp add: arg_result_def)
  next
    case True
    let ?n = "length args - 1 - p"
    obtain r where r: "ngx_strlcasestrn (drop p args) ?n name (length name - 1) = Some r"
      and first: "first_at ngx_tolower name (take ?n (drop p args)) r"
    proof -
      have "?n \<le> length (drop p args)" by simp
      from strlcasestrn_region [OF "1.prems"(2) this] that show thesis by blast
    qed
    have ne: "name \<noteq> []" using "1.prems"(2) by (simp add: zpattern_def)
    have pre: "prefix (map ngx_tolower name) (map ngx_tolower (drop k (take ?n (drop p args)))) \<longleftrightarrow>
        p + k + length name < length args \<and> same_name (take (length name) (drop (p + k) args)) name" for k
      unfolding arg_prefix using ne True by (auto simp: add.commute)
    show ?thesis
    proof (cases r)
      case None
      have "\<not> arg_at args name j" for j
      proof (cases "j < p")
        case False
        then obtain k where k: "j = p + k" by (metis le_add_diff_inverse linorder_not_less)
        show ?thesis
        proof
          assume "arg_at args name j"
          then have "p + k + length name < length args \<and> same_name (take (length name) (drop (p + k) args)) name" "k \<le> ?n"
            using k by (auto simp: arg_at_def)
          with first None pre [of k] show False using True by (simp add: first_at_def)
        qed
      qed (use "1.prems"(1) in simp)
      with True r None show ?thesis by (subst http_arg_loop.simps) (simp add: arg_result_def)
    next
      case (Some k)
      let ?q = "p + k"
      have at: "?q + length name < length args" "same_name (take (length name) (drop ?q args)) name"
        using first Some pre [of k] by (simp_all add: first_at_def)
      have before: "\<not> arg_at args name i" if "i < ?q" for i
      proof (cases "i < p")
        case False
        define m where "m = i - p"
        have m: "i = p + m" "m < k" using False that by (auto simp: m_def)
        then have "\<not> prefix (map ngx_tolower name) (map ngx_tolower (drop m (take ?n (drop p args))))"
          using first Some by (simp add: first_at_def)
        with pre [of m] m(1) show ?thesis by (auto simp: arg_at_def)
      qed (use "1.prems"(1) in simp)
      have rd: "rd args (?q + length name) = Some (args ! (?q + length name))" using at by (simp add: rd_def)
      show ?thesis
      proof (cases "arg_at args name ?q")
        case True
        have e: "ngx_strlchr (drop ?q args) (length args - ?q) ch_amp =
            Some (if ch_amp \<in> set (drop ?q args) then Some (length (takeWhile (\<lambda>x. x \<noteq> ch_amp) (drop ?q args))) else None)"
          using strlchr_takeWhile [of "drop ?q args" ch_amp] by simp
        have "http_arg_loop args name p =
          Some (Some (?q + length name + 1, int (length (takeWhile (\<lambda>c. c \<noteq> ch_amp) (drop (?q + length name + 1) args)))))"
          using \<open>p < length args\<close> r Some rd e True arg_end [OF True "1.prems"(3,4)]
          by (subst http_arg_loop.simps) (auto simp: Let_def arg_at_def)
        with True before show ?thesis by (auto simp: arg_result_def intro!: exI [of _ ?q])
      next
        case False
        then have n: "\<not> ((?q = 0 \<or> args ! (?q - 1) = ch_amp) \<and> args ! (?q + length name) = ch_eq)"
          using at by (simp add: arg_at_def)
        have "\<forall>i<?q + 1. \<not> arg_at args name i" using before False less_Suc_eq by auto
        then have "arg_result args name (http_arg_loop args name (?q + 1))"
          using "1.IH" [OF True r Some refl] "1.prems" n rd by (cases "?q = 0 \<or> args ! (?q - 1) = ch_amp") blast+
        moreover have "http_arg_loop args name p = http_arg_loop args name (?q + 1)"
          using \<open>p < length args\<close> r Some rd n by (subst http_arg_loop.simps) (auto simp: Let_def)
        ultimately show ?thesis by simp
      qed
    qed
  qed
qed

text \<open>
  C17. \<^verbatim>\<open>ngx_http_arg\<close> finds an argument by its name: the first place, at the start or behind an
  ampersand, where the name (ignoring case) is followed by an equals sign. The value goes from
  there to the next ampersand or the end; without such a place the answer is \<^verbatim>\<open>NGX_DECLINED\<close>.
  Nothing is read outside the arguments.
\<close>

theorem http_arg_exact:
  assumes "zpattern name" "ch_amp \<notin> set name" "length args < 2 ^ 64"
  shows "arg_result args name (ngx_http_arg args name)"
proof (cases "args = []")
  case True
  then show ?thesis by (simp add: ngx_http_arg_def arg_result_def arg_at_def)
next
  case False
  with http_arg_loop_ok [OF assms, of 0] show ?thesis by (simp add: ngx_http_arg_def)
qed

theorem http_arg_exact_witness:
  "ngx_http_arg (bytes_of ''x=1&a=2&b=3'') (bytes_of ''A'') = Some (Some (6, 1))
   \<and> arg_result (bytes_of ''x=1&a=2&b=3'') (bytes_of ''A'') (ngx_http_arg (bytes_of ''x=1&a=2&b=3'') (bytes_of ''A''))"
proof (rule conjI)
  show "ngx_http_arg (bytes_of ''x=1&a=2&b=3'') (bytes_of ''A'') = Some (Some (6, 1))" by code_simp
  show "arg_result (bytes_of ''x=1&a=2&b=3'') (bytes_of ''A'') (ngx_http_arg (bytes_of ''x=1&a=2&b=3'') (bytes_of ''A''))"
    by (rule http_arg_exact) (simp_all add: bytes_of_def zpattern_def)
qed

end
