(* ===== verification/Ngx_Time.thy ===== *)
theory Ngx_Time
  imports Ngx_Sprintf
begin

text \<open>
  The calendar: \<^verbatim>\<open>ngx_gmtime\<close>, \<^verbatim>\<open>ngx_http_time\<close> and \<^verbatim>\<open>ngx_http_cookie_time\<close> of \<^verbatim>\<open>ngx_times.c\<close>, and
  \<^verbatim>\<open>ngx_http_parse_time\<close> of \<^verbatim>\<open>ngx_http_parse_time.c\<close>. The specification is the Gregorian calendar,
  given by the day that follows a day.
\<close>

section \<open>From seconds to a date\<close>

record ngx_tm =
  tm_sec :: int
  tm_min :: int
  tm_hour :: int
  tm_mday :: int
  tm_mon :: int
  tm_year :: int
  tm_wday :: int

text \<open>Days in the years since March 1, 1 BC, and days before the month in a year that starts with March.\<close>

definition gauss_year :: "int \<Rightarrow> int" where
  "gauss_year year = 365 * year + year div 4 - year div 100 + year div 400"

definition gauss_month :: "int \<Rightarrow> int" where
  "gauss_month month = 367 * month div 12 - 30"

text \<open>The month and day for the day of a year that starts with March.\<close>

definition year_month :: "int \<Rightarrow> int \<Rightarrow> int \<times> int \<times> int" where
  "year_month year yday =
     (let mon = (yday + 31) * 10 div 306;
          mday = yday - gauss_month mon + 1 in
      if yday \<ge> 306 then (year + 1, mon - 10, mday) else (year, mon + 2, mday))"

text \<open>The year, month and day for the number of days since March 1, 1 BC.\<close>

definition gm_date :: "int \<Rightarrow> int \<times> int \<times> int" where
  "gm_date days =
     (let year = ((days + 2) * 400 mod 2 ^ 64) div (365 * 400 + 100 - 4 + 1);
          yday = cast64 (days - gauss_year year);
          leap = (if year mod 4 = 0 \<and> (year mod 100 \<noteq> 0 \<or> year mod 400 = 0) then 1 else 0) in
      if yday < 0 then year_month (year - 1) (365 + leap + yday) else year_month year yday)"

definition ngx_gmtime :: "int \<Rightarrow> ngx_tm" where
  "ngx_gmtime t =
     (let n = t mod 2 ^ 64;
          days = n div 86400;
          wday = (4 + days) mod 7;
          n = n mod 86400;
          hour = n div 3600;
          n = n mod 3600;
          mi = n div 60;
          sec = n mod 60;
          (year, mon, mday) = gm_date ((days - (31 + 28) + 719527) mod 2 ^ 64) in
      \<lparr> tm_sec = cast32 sec, tm_min = cast32 mi, tm_hour = cast32 hour, tm_mday = cast32 mday,
        tm_mon = cast32 mon, tm_year = cast32 year, tm_wday = cast32 wday \<rparr>)"

definition week :: "string list" where
  "week = [''Sun'', ''Mon'', ''Tue'', ''Wed'', ''Thu'', ''Fri'', ''Sat'']"

definition months :: "string list" where
  "months = [''Jan'', ''Feb'', ''Mar'', ''Apr'', ''May'', ''Jun'', ''Jul'', ''Aug'', ''Sep'', ''Oct'', ''Nov'', ''Dec'']"

text \<open>A null-terminated string of a table; \<open>None\<close> out of range.\<close>

definition str_arg :: "string list \<Rightarrow> int \<Rightarrow> 'd va_arg option" where
  "str_arg tab i = (if 0 \<le> i then map_option (\<lambda>s. VA_ptr (bytes_of s @ [0])) (rd tab (nat i)) else None)"

definition int_arg :: "int \<Rightarrow> 'd va_arg" where
  "int_arg x = VA_32 (word_of_int x)"

text \<open>\<open>room\<close> is the distance from \<^verbatim>\<open>buf\<close> to the end of the address space, which \<^verbatim>\<open>ngx_sprintf\<close> takes for the end.\<close>

definition ngx_http_time :: "'d double_ops \<Rightarrow> nat \<Rightarrow> int \<Rightarrow> bytes option" where
  "ngx_http_time D room t =
     (let tm = ngx_gmtime t in
      do { w \<leftarrow> str_arg week (tm_wday tm);
           m \<leftarrow> str_arg months (tm_mon tm - 1);
           ngx_vslprintf D room (bytes_of ''%s, %02d %s %4d %02d:%02d:%02d GMT'' @ [0])
             [w, int_arg (tm_mday tm), m, int_arg (tm_year tm), int_arg (tm_hour tm),
              int_arg (tm_min tm), int_arg (tm_sec tm)] })"

definition ngx_http_cookie_time :: "'d double_ops \<Rightarrow> nat \<Rightarrow> int \<Rightarrow> bytes option" where
  "ngx_http_cookie_time D room t =
     (let tm = ngx_gmtime t in
      do { w \<leftarrow> str_arg week (tm_wday tm);
           m \<leftarrow> str_arg months (tm_mon tm - 1);
           ngx_vslprintf D room
             ((if tm_year tm > 2037 then bytes_of ''%s, %02d-%s-%d %02d:%02d:%02d GMT''
               else bytes_of ''%s, %02d-%s-%02d %02d:%02d:%02d GMT'') @ [0])
             [w, int_arg (tm_mday tm), m,
              int_arg (if tm_year tm > 2037 then tm_year tm else tm_year tm mod 100),
              int_arg (tm_hour tm), int_arg (tm_min tm), int_arg (tm_sec tm)] })"

section \<open>From text to seconds\<close>

datatype time_fmt = time_no | time_rfc822 | time_rfc850 | time_isoc

definition mday :: "int list" where
  "mday = [31, 28, 31, 30, 31, 30, 31, 31, 30, 31, 30, 31]"

text \<open>The first loop: the format guess and \<^verbatim>\<open>p\<close> at the comma, the space or the end.\<close>

fun pt_first :: "nat \<Rightarrow> bytes \<Rightarrow> time_fmt \<times> nat" where
  "pt_first p [] = (time_no, p)"
| "pt_first p (c # cs) =
     (if c = ch_comma then (time_no, p) else if c = ch_sp then (time_isoc, p) else pt_first (p + 1) cs)"

fun pt_spaces :: "nat \<Rightarrow> bytes \<Rightarrow> nat" where
  "pt_spaces p [] = p"
| "pt_spaces p (c # cs) = (if c \<noteq> ch_sp then p else pt_spaces (p + 1) cs)"

text \<open>
  Reading digits: a byte that is not a digit is \<^verbatim>\<open>return NGX_ERROR\<close>, and the bytes behind it are
  not read. The continuation gets the value.
\<close>

fun pt_digits :: "bytes \<Rightarrow> nat \<Rightarrow> nat \<Rightarrow> int \<Rightarrow> (int \<Rightarrow> int option) \<Rightarrow> int option" where
  "pt_digits v p 0 acc k = k acc"
| "pt_digits v p (Suc n) acc k =
     do { c \<leftarrow> rd v p;
          if c < ch_0 \<or> c > ch_9 then Some NGX_ERROR
          else pt_digits v (p + 1) n (acc * 10 + (uint c - 0x30)) k }"

definition pt_expect :: "bytes \<Rightarrow> nat \<Rightarrow> u_char \<Rightarrow> int option \<Rightarrow> int option" where
  "pt_expect v p c k = do { x \<leftarrow> rd v p; if x \<noteq> c then Some NGX_ERROR else k }"

text \<open>The month; \<open>Some None\<close> is the default case.\<close>

definition pt_month :: "bytes \<Rightarrow> nat \<Rightarrow> int option option" where
  "pt_month v p =
     do { c \<leftarrow> rd v p;
          if c = ch CHR ''J'' then
            do { a \<leftarrow> rd v (p + 1);
                 if a = ch CHR ''a'' then Some (Some 0)
                 else do { b \<leftarrow> rd v (p + 2); Some (Some (if b = ch CHR ''n'' then 5 else 6)) } }
          else if c = ch CHR ''F'' then Some (Some 1)
          else if c = ch CHR ''M'' then
            do { b \<leftarrow> rd v (p + 2); Some (Some (if b = ch CHR ''r'' then 2 else 4)) }
          else if c = ch CHR ''A'' then
            do { a \<leftarrow> rd v (p + 1); Some (Some (if a = ch CHR ''p'' then 3 else 7)) }
          else if c = ch CHR ''S'' then Some (Some 8)
          else if c = ch CHR ''O'' then Some (Some 9)
          else if c = ch CHR ''N'' then Some (Some 10)
          else if c = ch CHR ''D'' then Some (Some 11)
          else Some None }"

text \<open>The checks of the fields and the sum, in 64-bit unsigned arithmetic.\<close>

definition pt_seconds :: "int \<Rightarrow> int \<Rightarrow> int \<Rightarrow> int \<Rightarrow> int \<Rightarrow> int \<Rightarrow> int" where
  "pt_seconds year month day hour mi sec =
     (let (month', year') = (if month - 1 \<le> 0 then (month - 1 + 12, (year - 1) mod 2 ^ 64) else (month - 1, year)) in
      cast64 (((365 * year' + year' div 4 - year' div 100 + year' div 400
        + 367 * month' div 12 - 30 + day - 1 - 719527 + 31 + 28) mod 2 ^ 64) * 86400
        + hour * 3600 + mi * 60 + sec))"

definition pt_finish :: "int \<Rightarrow> int \<Rightarrow> int \<Rightarrow> int \<Rightarrow> int \<Rightarrow> int \<Rightarrow> int option" where
  "pt_finish year month day hour mi sec =
     (if hour > 23 \<or> mi > 59 \<or> sec > 59 then Some NGX_ERROR
      else if day = 29 \<and> month = 1 then
        if year mod 4 \<noteq> 0 \<or> year mod 100 = 0 \<and> year mod 400 \<noteq> 0 then Some NGX_ERROR
        else Some (pt_seconds year month day hour mi sec)
      else
        (case rd mday (nat month) of
           None \<Rightarrow> None
         | Some md \<Rightarrow> if day > md then Some NGX_ERROR else Some (pt_seconds year month day hour mi sec)))"

text \<open>Hours, minutes, seconds, and the year behind them when the format has it there.\<close>

definition pt_clock :: "bytes \<Rightarrow> nat \<Rightarrow> (nat \<Rightarrow> int \<Rightarrow> int \<Rightarrow> int \<Rightarrow> int option) \<Rightarrow> int option" where
  "pt_clock v p k =
     pt_expect v p ch_sp
       (pt_digits v (p + 1) 2 0 (\<lambda>hour.
        pt_expect v (p + 3) ch_colon
          (pt_digits v (p + 4) 2 0 (\<lambda>mi.
           pt_expect v (p + 6) ch_colon
             (pt_digits v (p + 7) 2 0 (\<lambda>sec. k (p + 9) hour mi sec))))))"

definition pt_isoc_rest :: "bytes \<Rightarrow> int \<Rightarrow> nat \<Rightarrow> int \<Rightarrow> int option" where
  "pt_isoc_rest v month p day =
     (if int (length v) - int p < 14 then Some NGX_ERROR
      else pt_clock v p (\<lambda>p hour mi sec.
        pt_expect v p ch_sp (pt_digits v (p + 1) 4 0 (\<lambda>year. pt_finish year month day hour mi sec))))"

text \<open>The day behind the name of a month: one or two digits, the first perhaps a space.\<close>

definition pt_isoc :: "bytes \<Rightarrow> nat \<Rightarrow> int \<Rightarrow> int option" where
  "pt_isoc v p month =
     do { c \<leftarrow> rd v p;
          (let p = (if c = ch_sp then p + 1 else p) in
           pt_digits v p 1 0 (\<lambda>d.
             do { x \<leftarrow> rd v (p + 1);
                  if x \<noteq> ch_sp then pt_digits v (p + 1) 1 d (pt_isoc_rest v month (p + 2))
                  else pt_isoc_rest v month (p + 1) d })) }"

definition pt_dated :: "bytes \<Rightarrow> nat \<Rightarrow> int option" where
  "pt_dated v p =
     pt_digits v p 2 0 (\<lambda>day.
       do { c \<leftarrow> rd v (p + 2);
            if c = ch_sp then
              if int (length v) - int (p + 2) < 18 then Some NGX_ERROR
              else
                do { m \<leftarrow> pt_month v (p + 3);
                     case m of
                       None \<Rightarrow> Some NGX_ERROR
                     | Some month \<Rightarrow>
                         pt_expect v (p + 6) ch_sp (pt_digits v (p + 7) 4 0 (\<lambda>year.
                           pt_clock v (p + 11) (\<lambda>p hour mi sec. pt_finish year month day hour mi sec))) }
            else if c = ch_minus then
              do { m \<leftarrow> pt_month v (p + 3);
                   case m of
                     None \<Rightarrow> Some NGX_ERROR
                   | Some month \<Rightarrow>
                       pt_expect v (p + 6) ch_minus (pt_digits v (p + 7) 2 0 (\<lambda>yy.
                         let year = yy + (if yy < 70 then 2000 else 1900) in
                         pt_clock v (p + 9) (\<lambda>p hour mi sec. pt_finish year month day hour mi sec))) }
            else Some NGX_ERROR })"

definition ngx_http_parse_time :: "bytes \<Rightarrow> int option" where
  "ngx_http_parse_time v =
     (let (fmt, p) = pt_first 0 v;
          p = pt_spaces (p + 1) (drop (p + 1) v) in
      if int (length v) - int p < 18 then Some NGX_ERROR
      else if fmt \<noteq> time_isoc then pt_dated v p
      else
        do { m \<leftarrow> pt_month v p;
             case m of None \<Rightarrow> Some NGX_ERROR | Some month \<Rightarrow> pt_isoc v (p + 4) month })"

section \<open>The calendar\<close>

definition leap_year :: "int \<Rightarrow> bool" where
  "leap_year y \<longleftrightarrow> y mod 4 = 0 \<and> (y mod 100 \<noteq> 0 \<or> y mod 400 = 0)"

definition month_length :: "int \<Rightarrow> int \<Rightarrow> int" where
  "month_length y m = (if m = 2 then if leap_year y then 29 else 28 else if m \<in> {4, 6, 9, 11} then 30 else 31)"

definition valid_date :: "int \<times> int \<times> int \<Rightarrow> bool" where
  "valid_date = (\<lambda>(y, m, d). 1 \<le> m \<and> m \<le> 12 \<and> 1 \<le> d \<and> d \<le> month_length y m)"

definition next_day :: "int \<times> int \<times> int \<Rightarrow> int \<times> int \<times> int" where
  "next_day = (\<lambda>(y, m, d).
     if d < month_length y m then (y, m, d + 1) else if m < 12 then (y, m + 1, 1) else (y + 1, 1, 1))"

text \<open>The number of a day, by the formulas of the code: years and months start with March.\<close>

definition day_number :: "int \<times> int \<times> int \<Rightarrow> int" where
  "day_number = (\<lambda>(y, m, d).
     (if m \<le> 2 then gauss_year (y - 1) + gauss_month (m + 10) else gauss_year y + gauss_month (m - 2)) + d - 1)"

lemma div_next:
  fixes y k :: int
  assumes "0 \<le> y" "0 < k"
  shows "(y + 1) div k = (if (y + 1) mod k = 0 then y div k + 1 else y div k)"
proof -
  obtain m n where mn: "y = int m" "k = int n" using assms by (metis zero_le_imp_eq_int zero_less_imp_eq_int)
  have "(y + 1) div k = int (Suc m div n)" "(y + 1) mod k = int (Suc m mod n)" "y div k = int (m div n)"
    using mn by (simp_all add: zdiv_int zmod_int add.commute)
  then show ?thesis by (simp add: div_Suc)
qed

lemma gauss_year_next:
  assumes "0 \<le> y"
  shows "gauss_year (y + 1) = gauss_year y + 365 + (if leap_year (y + 1) then 1 else 0)"
proof -
  have "(y + 1) mod 400 = 0 \<Longrightarrow> (y + 1) mod 100 = 0" "(y + 1) mod 100 = 0 \<Longrightarrow> (y + 1) mod 4 = 0"
    using dvd_trans [of 100 400 "y + 1"] dvd_trans [of 4 100 "y + 1"] by (simp_all add: mod_eq_0_iff_dvd)
  note dvd = this
  have "365 * (y + 1) + (if P then a + 1 else a) - (if Q then b + 1 else b) + (if R then c + 1 else c)
      = 365 * y + a - b + c + 365 + (if P \<and> (\<not> Q \<or> R) then 1 else 0)" if "R \<Longrightarrow> Q" "Q \<Longrightarrow> P" for P Q R and a b c :: int
    using that by (cases P; cases Q; cases R) auto
  from this [of "(y + 1) mod 400 = 0" "(y + 1) mod 100 = 0" "(y + 1) mod 4 = 0", OF dvd, of "y div 4" "y div 100" "y div 400"] show ?thesis
    unfolding gauss_year_def leap_year_def
    by (simp only: div_next [OF assms, of 4] div_next [OF assms, of 100] div_next [OF assms, of 400] zero_less_numeral if_True simp_thms)
qed

lemma months_cases: "1 \<le> m \<Longrightarrow> m \<le> 12 \<Longrightarrow> m \<in> {1, 2, 3, 4, 5, 6, 7, 8, 9, 10, 11, 12 :: int}"
  by simp presburger

lemma day_number_next:
  assumes "valid_date x" "1 \<le> fst x"
  shows "day_number (next_day x) = day_number x + 1 \<and> valid_date (next_day x)"
proof -
  obtain y m d where x: "x = (y, m, d)" by (cases x) auto
  have m: "m \<in> {1, 2, 3, 4, 5, 6, 7, 8, 9, 10, 11, 12}" using assms x months_cases by (simp add: valid_date_def)
  have g: "gauss_year y = gauss_year (y - 1) + 365 + (if leap_year y then 1 else 0)"
    using gauss_year_next [of "y - 1"] assms x by simp
  have v: "1 \<le> d" "d \<le> month_length y m" using assms x by (simp_all add: valid_date_def)
  show ?thesis
  proof (cases "d < month_length y m")
    case True
    with x v m show ?thesis by (auto simp: next_day_def day_number_def valid_date_def)
  next
    case False
    with v have d: "d = month_length y m" by simp
    show ?thesis
      using m by (elim insertE) (auto simp: x d next_day_def day_number_def valid_date_def month_length_def gauss_month_def g)
  qed
qed

section \<open>The date of a day number\<close>

lemma gauss_year_mono: "0 \<le> y \<Longrightarrow> y < z \<Longrightarrow> gauss_year y + 365 \<le> gauss_year z"
proof (induction "nat (z - y - 1)" arbitrary: z)
  case 0
  then have "z = y + 1" by simp
  with gauss_year_next [of y] 0 show ?case by simp
next
  case (Suc n)
  then have "n = nat ((z - 1) - y - 1)" "y < z - 1" by auto
  with Suc.hyps(1) [of "z - 1"] Suc.prems gauss_year_next [of "z - 1"] show ?case by simp
qed

text \<open>Each day lies in one year.\<close>

lemma year_of_day: "\<exists>y \<ge> 0. gauss_year y \<le> int n \<and> int n < gauss_year (y + 1)"
proof (induction n)
  case 0
  have "gauss_year 0 \<le> int 0 \<and> int 0 < gauss_year (0 + 1)" by (simp add: gauss_year_def)
  then show ?case by blast
next
  case (Suc n)
  then obtain y where y: "0 \<le> y" "gauss_year y \<le> int n" "int n < gauss_year (y + 1)" by blast
  show ?case
  proof (cases "int (Suc n) < gauss_year (y + 1)")
    case True
    with y show ?thesis by (intro exI [of _ y]) auto
  next
    case False
    with y gauss_year_mono [of "y + 1" "y + 1 + 1"] show ?thesis by (intro exI [of _ "y + 1"]) auto
  qed
qed

text \<open>The estimate of the year in the code is the year or the one after it.\<close>

lemma gauss_year_est:
  "146097 * y \<le> (gauss_year y + 2) * 400" "(gauss_year (y + 1) + 1) * 400 < 146097 * (y + 2)"
proof -
  have lo: "y - 3 \<le> 4 * (y div 4)" "100 * (y div 100) \<le> y" "y - 399 \<le> 400 * (y div 400)" for y :: int
    by presburger+
  have hi: "4 * (y div 4) \<le> y" "y - 99 \<le> 100 * (y div 100)" "400 * (y div 400) \<le> y" for y :: int
    by presburger+
  have "146097 * y \<le> (365 * y + a - b + c + 2) * 400" if "y - 3 \<le> 4 * a" "100 * b \<le> y" "y - 399 \<le> 400 * c" for y a b c :: int
    using that by (simp only: distrib_right left_diff_distrib; linarith)
  from this [OF lo] show "146097 * y \<le> (gauss_year y + 2) * 400" by (simp only: gauss_year_def)
  have "(365 * (y + 1) + a - b + c + 1) * 400 < 146097 * (y + 2)"
    if "4 * a \<le> y + 1" "(y + 1) - 99 \<le> 100 * b" "400 * c \<le> y + 1" for y a b c :: int
    using that by (simp only: distrib_right distrib_left left_diff_distrib; linarith)
  from this [OF hi] show "(gauss_year (y + 1) + 1) * 400 < 146097 * (y + 2)" by (simp only: gauss_year_def)
qed

definition month_ok :: "int \<Rightarrow> bool" where
  "month_ok yd \<longleftrightarrow>
     (let mon = (yd + 31) * 10 div 306; d = yd - gauss_month mon + 1 in
      1 \<le> mon \<and> mon \<le> 12 \<and> (yd \<ge> 306 \<longleftrightarrow> mon > 10) \<and> 1 \<le> d
      \<and> d \<le> (if mon = 12 then 29 else if mon \<in> {2, 4, 7, 9} then 30 else 31)
      \<and> (mon = 12 \<and> d = 29 \<longrightarrow> yd = 365))"

lemma month_all: "0 \<le> yd \<Longrightarrow> yd \<le> 365 \<Longrightarrow> month_ok yd"
proof -
  have "list_all month_ok [0..365]" by code_simp
  then show "0 \<le> yd \<Longrightarrow> yd \<le> 365 \<Longrightarrow> month_ok yd" by (simp add: list_all_iff)
qed

lemma year_month_correct:
  assumes "0 \<le> yd" "yd < 365 + (if leap_year (y + 1) then 1 else 0)"
  shows "valid_date (year_month y yd) \<and> day_number (year_month y yd) = gauss_year y + yd \<and> y \<le> fst (year_month y yd)"
proof -
  define mon where "mon = (yd + 31) * 10 div 306"
  define d where "d = yd - gauss_month mon + 1"
  have "month_ok yd" using assms by (intro month_all) (auto split: if_splits)
  then have ok: "1 \<le> mon" "mon \<le> 12" "yd \<ge> 306 \<longleftrightarrow> mon > 10" "1 \<le> d"
    "d \<le> (if mon = 12 then 29 else if mon \<in> {2, 4, 7, 9} then 30 else 31)" "mon = 12 \<and> d = 29 \<longrightarrow> yd = 365"
    unfolding month_ok_def Let_def mon_def [symmetric] d_def [symmetric] by blast+
  have leap: "d \<le> 28 \<or> leap_year (y + 1)" if "mon = 12" using ok(5,6) that assms(2) by (auto split: if_splits)
  have ym: "year_month y yd = (if mon > 10 then (y + 1, mon - 10, d) else (y, mon + 2, d))"
    using ok(3) by (simp add: year_month_def mon_def d_def Let_def)
  have m: "mon \<in> {1, 2, 3, 4, 5, 6, 7, 8, 9, 10, 11, 12}" using ok(1,2) by (rule months_cases)
  have v: "valid_date (year_month y yd)"
    unfolding ym using m ok(4,5) leap by (elim insertE) (auto simp: valid_date_def month_length_def)
  have "day_number (year_month y yd) = gauss_year y + gauss_month mon + d - 1"
    unfolding ym using ok(1,2) by (simp add: day_number_def)
  with v show ?thesis unfolding ym by (simp add: d_def)
qed

lemma gm_date_year:
  assumes "0 \<le> days" "days < 2 ^ 54"
  obtains y yd where "gm_date days = year_month y yd" "0 \<le> y" "days = gauss_year y + yd" "0 \<le> yd"
    "yd < 365 + (if leap_year (y + 1) then 1 else 0)"
proof -
  obtain y where y: "0 \<le> y" "gauss_year y \<le> days" "days < gauss_year (y + 1)"
    using year_of_day [of "nat days"] assms(1) by auto
  define est where "est = ((days + 2) * 400 mod 2 ^ 64) div (365 * 400 + 100 - 4 + 1)"
  have "(days + 2) * 400 mod 2 ^ 64 = (days + 2) * 400" using assms by simp
  then have est: "est = (days + 2) * 400 div 146097" by (simp add: est_def)
  define r where "r = (days + 2) * 400 mod 146097"
  have qr: "(days + 2) * 400 = 146097 * est + r" "0 \<le> r" "r < 146097"
    unfolding est r_def by simp_all
  have "y \<le> est" using gauss_year_est(1) [of y] y(2) qr by (simp only: distrib_right; linarith)
  moreover have "est < y + 2" using gauss_year_est(2) [of y] y(3) qr by (simp only: distrib_right distrib_left; linarith)
  ultimately have e: "est = y \<or> est = y + 1" by linarith
  define yd where "yd = days - gauss_year y"
  have yd: "0 \<le> yd" "yd < 365 + (if leap_year (y + 1) then 1 else 0)"
    using y gauss_year_next [of y] by (auto simp: yd_def)
  have "gm_date days = year_month y yd"
    using e
  proof
    assume "est = y"
    moreover have "cast64 (days - gauss_year y) = yd" using yd by (subst cast64_id) (auto simp: yd_def split: if_splits)
    ultimately show ?thesis using yd(1) unfolding gm_date_def est_def [symmetric] Let_def leap_year_def [symmetric] by simp
  next
    assume e: "est = y + 1"
    define L :: int where "L = (if leap_year (y + 1) then 1 else 0)"
    have L: "yd < 365 + L" "0 \<le> L" "L \<le> 1" using yd(2) by (simp_all add: L_def)
    have c: "days - gauss_year (y + 1) = yd - (365 + L)"
      using gauss_year_next [OF y(1)] by (simp add: yd_def L_def)
    have c: "cast64 (days - gauss_year (y + 1)) = yd - (365 + L)"
      unfolding c using yd(1) L by (intro cast64_id) auto
    have n: "yd - (365 + L) < 0" "365 + L + (yd - (365 + L)) = yd" "y + 1 - 1 = y" using L by auto
    show ?thesis
      unfolding gm_date_def est_def [symmetric] Let_def leap_year_def [symmetric] e c L_def [symmetric]
      by (simp only: n if_True)
  qed
  moreover have "days = gauss_year y + yd" by (simp add: yd_def)
  ultimately show thesis using that y(1) yd by blast
qed

lemma gm_date_correct:
  assumes "0 \<le> days" "days < 2 ^ 54"
  shows "valid_date (gm_date days) \<and> day_number (gm_date days) = days \<and> 0 \<le> fst (gm_date days)"
  using assms
proof (rule gm_date_year)
  fix y yd
  assume "gm_date days = year_month y yd" "0 \<le> y" "days = gauss_year y + yd" "0 \<le> yd"
    "yd < 365 + (if leap_year (y + 1) then 1 else 0)"
  with year_month_correct [of yd y] show ?thesis by (metis order.trans)
qed

text \<open>A day has one date.\<close>

definition month_back :: "int \<Rightarrow> int \<Rightarrow> bool" where
  "month_back m d \<longleftrightarrow> d \<le> (if m = 12 then 29 else if m \<in> {2, 4, 7, 9} then 30 else 31) \<longrightarrow>
     (gauss_month m + d - 1 + 31) * 10 div 306 = m \<and> (306 \<le> gauss_month m + d - 1 \<longleftrightarrow> 10 < m)"

lemma month_back_all: "1 \<le> m \<Longrightarrow> m \<le> 12 \<Longrightarrow> 1 \<le> d \<Longrightarrow> d \<le> 31 \<Longrightarrow> month_back m d"
proof -
  have "list_all (\<lambda>m. list_all (month_back m) [1..31]) [1..12]" by code_simp
  then show "1 \<le> m \<Longrightarrow> m \<le> 12 \<Longrightarrow> 1 \<le> d \<Longrightarrow> d \<le> 31 \<Longrightarrow> month_back m d" by (simp add: list_all_iff)
qed

lemma date_as_year_month:
  assumes "valid_date x" "1 \<le> fst x"
  obtains y yd where "x = year_month y yd" "0 \<le> y" "0 \<le> yd" "yd < 365 + (if leap_year (y + 1) then 1 else 0)"
    "day_number x = gauss_year y + yd"
proof -
  obtain Y m d where x: "x = (Y, m, d)" by (cases x) auto
  define y where "y = (if m \<le> 2 then Y - 1 else Y)"
  define k where "k = (if m \<le> 2 then m + 10 else m - 2)"
  define yd where "yd = gauss_month k + d - 1"
  have v: "1 \<le> m" "m \<le> 12" "1 \<le> d" "d \<le> month_length Y m" "0 \<le> y" using assms x by (auto simp: valid_date_def y_def)
  have m: "m \<in> {1, 2, 3, 4, 5, 6, 7, 8, 9, 10, 11, 12}" using v(1,2) by (rule months_cases)
  have d: "d \<le> (if k = 12 then 29 else if k \<in> {2, 4, 7, 9} then 30 else 31)" "1 \<le> k" "k \<le> 12"
    using m v(4) by (elim insertE; simp add: k_def month_length_def split: if_splits)+
  have "d \<le> 31" using d(1) by (auto split: if_splits)
  with month_back_all [OF d(2,3) v(3)] d(1) have bk: "(yd + 31) * 10 div 306 = k" "306 \<le> yd \<longleftrightarrow> 10 < k"
    unfolding month_back_def yd_def by blast+
  have ym: "year_month y yd = x"
    unfolding year_month_def bk Let_def yd_def [symmetric] using v(1,2) by (auto simp: x y_def k_def yd_def split: if_splits)
  have range: "0 \<le> yd \<and> yd < 365 + (if leap_year (y + 1) then 1 else 0)"
    using m v(3,4) by (elim insertE; simp add: yd_def k_def y_def month_length_def gauss_month_def split: if_splits)
  have "day_number x = gauss_year y + yd" by (simp add: x day_number_def y_def k_def yd_def)
  with that ym v(5) range show thesis by blast
qed

lemma year_unique:
  assumes "gauss_year y + a = gauss_year z + b" "0 \<le> y" "0 \<le> z" "0 \<le> a" "0 \<le> b"
    "a < 365 + (if leap_year (y + 1) then 1 else 0)" "b < 365 + (if leap_year (z + 1) then 1 else 0)"
  shows "y = z \<and> a = b"
proof -
  have step: "\<not> y < z" if "gauss_year y + a = gauss_year z + b" "0 \<le> y" "0 \<le> b" "a < 365 + (if leap_year (y + 1) then 1 else 0)" for y z a b
  proof
    assume "y < z"
    then have "gauss_year (y + 1) \<le> gauss_year z" using gauss_year_mono [of "y + 1" z] that(2) by (cases "y + 1 = z") auto
    with gauss_year_next [OF that(2)] that show False by linarith
  qed
  have "y = z" using step [of y a z b] step [of z b y a] assms by linarith
  with assms(1) show ?thesis by simp
qed

lemma gm_date_of_day:
  assumes "valid_date x" "1 \<le> fst x" "day_number x < 2 ^ 54"
  shows "gm_date (day_number x) = x"
proof (rule date_as_year_month [OF assms(1,2)])
  fix y yd
  assume x: "x = year_month y yd" "0 \<le> y" "0 \<le> yd" "yd < 365 + (if leap_year (y + 1) then 1 else 0)" "day_number x = gauss_year y + yd"
  have "0 \<le> gauss_year y" using gauss_year_mono [of 0 y] x(2) by (cases "y = 0") (auto simp: gauss_year_def)
  then have "0 \<le> day_number x" using x by simp
  then show ?thesis
    using assms(3)
  proof (rule gm_date_year)
    fix z zd
    assume "gm_date (day_number x) = year_month z zd" "0 \<le> z" "day_number x = gauss_year z + zd" "0 \<le> zd"
      "zd < 365 + (if leap_year (z + 1) then 1 else 0)"
    with year_unique [of y yd z zd] x show ?thesis by simp
  qed
qed

section \<open>Printing a date\<close>

definition two_digits :: "int \<Rightarrow> bytes" where
  "two_digits x = [word_of_int (48 + x div 10), word_of_int (48 + x mod 10)]"

definition four_digits :: "int \<Rightarrow> bytes" where
  "four_digits x = two_digits (x div 100) @ two_digits (x mod 100)"

lemma pad_two:
  assumes "0 \<le> x" "x < 100"
  shows "replicate (2 - length (dec_repr (nat x))) ch_0 @ dec_repr (nat x) = two_digits x"
proof -
  have "list_all (\<lambda>x. replicate (2 - length (dec_repr (nat x))) ch_0 @ dec_repr (nat x) = two_digits x) [0..99]" by code_simp
  with assms show ?thesis by (simp add: list_all_iff)
qed

lemma repr_four:
  assumes "1000 \<le> x" "x < 10000"
  shows "dec_repr (nat x) = four_digits x"
proof -
  obtain n where x: "x = int n" using assms by (metis nat_0_le zero_le_numeral order_trans)
  have n: "1000 \<le> n" "n < 10000" using assms x by simp_all
  have "dec_repr n = dec_repr (n div 10 div 10 div 10)
      @ [word_of_nat (48 + n div 10 div 10 mod 10), word_of_nat (48 + n div 10 mod 10), word_of_nat (48 + n mod 10)]"
  proof -
    have "\<not> n < 10" "\<not> n div 10 < 10" "\<not> n div 10 div 10 < 10" using n by linarith+
    then show ?thesis by (subst dec_repr.simps, subst dec_repr.simps, subst dec_repr.simps) simp
  qed
  also have "dec_repr (n div 10 div 10 div 10) = [word_of_nat (48 + n div 10 div 10 div 10)]"
  proof -
    have "n div 10 div 10 div 10 < 10" using n by linarith
    then show ?thesis by (subst dec_repr.simps) simp
  qed
  finally have "dec_repr n = map (\<lambda>k. word_of_int (48 + int k)) [n div 100 div 10, n div 100 mod 10, n mod 100 div 10, n mod 100 mod 10]"
    by (simp add: div_mult2_eq [of n 10 10, simplified, symmetric] mod_mult2_eq [of n 10 10, simplified])
  moreover have "int n div 100 div 10 = int (n div 100 div 10)" "int n div 100 mod 10 = int (n div 100 mod 10)"
    "int n mod 100 div 10 = int (n mod 100 div 10)" "int n mod 100 mod 10 = int (n mod 100 mod 10)"
    by (simp_all add: zdiv_int zmod_int)
  ultimately show ?thesis by (simp only: x four_digits_def two_digits_def nat_int list.map append.simps)
qed

lemma fmt_conv_d:
  assumes "0 \<le> x" "x < 2 ^ 31" "f_sign fl" "f_hex fl = 0"
  shows "fmt_conv D room fl (int_arg x # args) (ch CHR ''d'') =
    Some (take room (replicate (unat (f_width fl) - length (dec_repr (nat x))) (f_zero fl) @ dec_repr (nat x)), args)"
proof -
  have s: "sint (word_of_int x :: u32) = x" using assms by (simp add: int_word_sint)
  then have "(scast (word_of_int x :: u32) :: u64) = word_of_int x" by (metis of_int_sint)
  moreover have "unat (word_of_int x :: u64) = nat x" using assms by (simp add: unsigned_of_int nat_take_bit_eq take_bit_nat_eq_self)
  moreover have "sint (word_of_int x :: u64) = x" using assms by (simp add: int_word_sint)
  ultimately show ?thesis
    using assms by (simp add: fmt_conv_def is_int_conv_def bytes_of_def fmt_int_arg_def int_arg_def fmt_int_def sprintf_num_eq num_repr_def)
qed

lemma vslprintf_02d:
  assumes "0 \<le> x" "x < 100" "2 \<le> room"
  shows "ngx_vslprintf D room (ch_percent # ch_0 # 0x32 # 0x64 # fmt) (int_arg x # args) =
    map_option ((@) (two_digits x)) (ngx_vslprintf D (room - 2) fmt args)"
proof -
  have spec: "fmt_spec (int_arg x # args) (ch_0 # 0x32 # ch CHR ''d'' # fmt) =
      Some (fl0\<lparr>f_zero := ch_0, f_width := 2\<rparr>, int_arg x # args, ch CHR ''d'' # fmt)"
    by (simp add: fmt_spec_def)
  have conv: "fmt_conv D room (fl0\<lparr>f_zero := ch_0, f_width := 2\<rparr>) (int_arg x # args) (ch CHR ''d'') = Some (take room (two_digits x), args)"
    using assms pad_two [OF assms(1,2)] by (subst fmt_conv_d) auto
  have "take room (two_digits x) = two_digits x" "length (two_digits x) = 2" using assms(3) by (simp_all add: two_digits_def)
  with vslprintf_conv [OF spec _ conv] assms(3) show ?thesis by simp
qed

lemma vslprintf_4d:
  assumes "1000 \<le> x" "x < 10000" "4 \<le> room"
  shows "ngx_vslprintf D room (ch_percent # 0x34 # 0x64 # fmt) (int_arg x # args) =
    map_option ((@) (four_digits x)) (ngx_vslprintf D (room - 4) fmt args)"
proof -
  have spec: "fmt_spec (int_arg x # args) (0x34 # ch CHR ''d'' # fmt) =
      Some (fl0\<lparr>f_width := 4\<rparr>, int_arg x # args, ch CHR ''d'' # fmt)"
    by (simp add: fmt_spec_def)
  have l: "length (four_digits x) = 4" by (simp add: four_digits_def two_digits_def)
  have conv: "fmt_conv D room (fl0\<lparr>f_width := 4\<rparr>) (int_arg x # args) (ch CHR ''d'') = Some (take room (four_digits x), args)"
    using assms repr_four [OF assms(1,2)] l by (subst fmt_conv_d) auto
  have "take room (four_digits x) = four_digits x" using assms(3) l by simp
  with vslprintf_conv [OF spec _ conv] assms(3) l show ?thesis by simp
qed

lemma vslprintf_s3:
  assumes "length s = 3" "0 \<notin> set s" "3 \<le> room"
  shows "ngx_vslprintf D room (ch_percent # 0x73 # fmt) (VA_ptr (s @ [0]) # args) =
    map_option ((@) s) (ngx_vslprintf D (room - 3) fmt args)"
proof -
  have "list_all (\<lambda>c. c \<noteq> 0) s" using assms(2) by (auto simp: list_all_iff)
  then have conv: "fmt_conv D room fl0 (VA_ptr (s @ [0]) # args) (ch CHR ''s'') = Some (take room s, args)"
    by (simp add: fmt_conv_def cpy_cstr_eq)
  from vslprintf_conv [OF fmt_spec_simple(2) _ conv, of fmt] assms show ?thesis by simp
qed

definition http_text :: "bytes \<Rightarrow> int \<Rightarrow> bytes \<Rightarrow> int \<Rightarrow> int \<Rightarrow> int \<Rightarrow> int \<Rightarrow> bytes" where
  "http_text w d m y h mi s = w @ [ch_comma, ch_sp] @ two_digits d @ [ch_sp] @ m @ [ch_sp] @ four_digits y @ [ch_sp]
     @ two_digits h @ [ch_colon] @ two_digits mi @ [ch_colon] @ two_digits s @ bytes_of '' GMT''"

lemma vslprintf_http_time:
  assumes "length w = 3" "0 \<notin> set w" "length m = 3" "0 \<notin> set m" "29 \<le> room"
    and "0 \<le> d" "d < 100" "1000 \<le> y" "y < 10000" "0 \<le> h" "h < 100" "0 \<le> mi" "mi < 100" "0 \<le> s" "s < 100"
  shows "ngx_vslprintf D room (bytes_of ''%s, %02d %s %4d %02d:%02d:%02d GMT'' @ [0])
     [VA_ptr (w @ [0]), int_arg d, VA_ptr (m @ [0]), int_arg y, int_arg h, int_arg mi, int_arg s] = Some (http_text w d m y h mi s)"
proof -
  have lit: "ngx_vslprintf D room (c # fmt) args = map_option ((#) c) (ngx_vslprintf D (room - 1) fmt args)"
    if "c \<noteq> 0" "c \<noteq> ch_percent" "0 < room" for c fmt room args using that by simp
  show ?thesis
    using assms
    by (simp add: bytes_of_def lit vslprintf_s3 vslprintf_02d vslprintf_4d http_text_def option.map_comp comp_def
        del: ngx_vslprintf.simps(2)) (simp add: ngx_vslprintf.simps)
qed

section \<open>Reading a date\<close>

definition digit_char :: "int \<Rightarrow> u_char" where
  "digit_char j = word_of_int (48 + j)"

lemma digit_char_reads:
  assumes "0 \<le> j" "j < 10"
  shows "\<not> (digit_char j < ch_0 \<or> digit_char j > ch_9)" "uint (digit_char j) - 0x30 = j" "digit_char j \<noteq> ch_sp"
proof -
  have u: "uint (digit_char j) = 48 + j" unfolding digit_char_def using assms by (simp only: uint_word_of_int) simp
  then show "\<not> (digit_char j < ch_0 \<or> digit_char j > ch_9)" "uint (digit_char j) - 0x30 = j"
    using assms by (auto simp: word_less_def)
  show "digit_char j \<noteq> ch_sp" using u assms by auto
qed

lemma two_digits_char: "two_digits x = [digit_char (x div 10), digit_char (x mod 10)]"
  by (simp only: two_digits_def digit_char_def)

lemma pt_digits_step:
  assumes "rd v p = Some (digit_char j)" "0 \<le> j" "j < 10"
  shows "pt_digits v p (Suc n) acc k = pt_digits v (p + 1) n (acc * 10 + j) k"
  using digit_char_reads [OF assms(2,3)] by (simp only: pt_digits.simps assms(1) bind_eq_Some_conv) (simp add: assms)

lemma pt_digits_two:
  assumes "rd v p = Some (digit_char (x div 10))" "rd v (p + 1) = Some (digit_char (x mod 10))" "0 \<le> x" "x < 100"
  shows "pt_digits v p 2 0 k = k x"
proof -
  have "0 \<le> x div 10" "x div 10 < 10" using assms by auto
  then show ?thesis
    using pt_digits_step [OF assms(1), of 1 0 k] pt_digits_step [OF assms(2), of 0 "x div 10" k]
    by (simp add: numeral_2_eq_2)
qed

lemma pt_digits_four:
  assumes "rd v p = Some (digit_char (x div 100 div 10))" "rd v (p + 1) = Some (digit_char (x div 100 mod 10))"
    "rd v (p + 2) = Some (digit_char (x mod 100 div 10))" "rd v (p + 3) = Some (digit_char (x mod 100 mod 10))" "0 \<le> x" "x < 10000"
  shows "pt_digits v p 4 0 k = k x"
proof -
  define a b c d where "a = x div 100 div 10" "b = x div 100 mod 10" "c = x mod 100 div 10" "d = x mod 100 mod 10"
  have r: "0 \<le> a" "a < 10" "0 \<le> b" "b < 10" "0 \<le> c" "c < 10" "0 \<le> d" "d < 10"
    using assms(5,6) by (auto simp: a_b_c_d_def)
  have "q * 100 + e = x \<Longrightarrow> a * 10 + b = q \<Longrightarrow> c * 10 + d = e \<Longrightarrow> x = ((a * 10 + b) * 10 + c) * 10 + d" for q e
    by simp
  from this [of "x div 100" "x mod 100"] have "x = ((a * 10 + b) * 10 + c) * 10 + d"
    unfolding a_b_c_d_def by (simp only: div_mult_mod_eq)
  moreover have "pt_digits v p (Suc (Suc (Suc (Suc 0)))) 0 k = k (((a * 10 + b) * 10 + c) * 10 + d)"
    using pt_digits_step [of v p a "Suc (Suc (Suc 0))" 0 k] pt_digits_step [of v "p + 1" b "Suc (Suc 0)" a k]
      pt_digits_step [of v "p + 2" c "Suc 0" "a * 10 + b" k] pt_digits_step [of v "p + 3" d 0 "(a * 10 + b) * 10 + c" k]
      assms(1-4) r by (simp add: a_b_c_d_def [symmetric] numeral_3_eq_3)
  ultimately show ?thesis by (simp add: eval_nat_numeral)
qed

lemma below_twelve: "k < 12 \<Longrightarrow> k \<in> {0, 1, 2, 3, 4, 5, 6, 7, 8, 9, 10, 11 :: nat}"
  by simp presburger

lemma pt_month_reads:
  assumes "k < 12" "rd v p = Some (bytes_of (months ! k) ! 0)" "rd v (p + 1) = Some (bytes_of (months ! k) ! 1)"
    "rd v (p + 2) = Some (bytes_of (months ! k) ! 2)"
  shows "pt_month v p = Some (Some (int k))"
proof -
  have "k \<in> {0, 1, 2, 3, 4, 5, 6, 7, 8, 9, 10, 11}" using assms(1) by (rule below_twelve)
  with assms(2-) show ?thesis by (elim insertE) (simp_all add: pt_month_def months_def bytes_of_def)
qed

lemma parse_http_text:
  assumes "length w = 3" "set w \<inter> {ch_comma, ch_sp} = {}" "k < 12"
    and "0 \<le> d" "d < 100" "0 \<le> y" "y < 10000" "0 \<le> h" "h < 100" "0 \<le> mi" "mi < 100" "0 \<le> s" "s < 100"
  shows "ngx_http_parse_time (http_text w d (bytes_of (months ! k)) y h mi s) = pt_finish y (int k) d h mi s"
proof -
  obtain w0 w1 w2 where w: "w = [w0, w1, w2]" using assms(1) by (auto simp: length_Suc_conv numeral_3_eq_3)
  define M where "M = bytes_of (months ! k)"
  have "k \<in> {0, 1, 2, 3, 4, 5, 6, 7, 8, 9, 10, 11}" using assms(3) by (rule below_twelve)
  then have "length M = 3" by (elim insertE) (simp_all add: M_def months_def bytes_of_def)
  then obtain m0 m1 m2 where m: "M = [m0, m1, m2]" by (auto simp: length_Suc_conv numeral_3_eq_3)
  define v where "v = http_text w d M y h mi s"
  have v: "v = [w0, w1, w2, ch_comma, ch_sp, digit_char (d div 10), digit_char (d mod 10), ch_sp, m0, m1, m2, ch_sp,
      digit_char (y div 100 div 10), digit_char (y div 100 mod 10), digit_char (y mod 100 div 10), digit_char (y mod 100 mod 10), ch_sp,
      digit_char (h div 10), digit_char (h mod 10), ch_colon, digit_char (mi div 10), digit_char (mi mod 10), ch_colon,
      digit_char (s div 10), digit_char (s mod 10), ch_sp, 71, 77, 84]"
    by (simp only: v_def http_text_def w m four_digits_def two_digits_char) (simp add: bytes_of_def)
  have first: "pt_first 0 v = (time_no, 3)" using assms(2) by (simp add: v w)
  have "digit_char (d div 10) \<noteq> ch_sp" using assms(4,5) by (intro digit_char_reads(3)) auto
  then have sp: "pt_spaces 4 (drop 4 v) = 5" by (simp add: v)
  have len: "length v = 29" by (simp add: v)
  have mon: "pt_month v 8 = Some (Some (int k))"
    using assms(3) m by (intro pt_month_reads) (simp_all add: M_def [symmetric] v rd_def)
  have day: "pt_digits v 5 2 0 K = K d" for K using assms by (intro pt_digits_two) (simp_all add: v rd_def)
  have year: "pt_digits v 12 4 0 K = K y" for K using assms by (intro pt_digits_four) (simp_all add: v rd_def)
  have hour: "pt_digits v 17 2 0 K = K h" for K using assms by (intro pt_digits_two) (simp_all add: v rd_def)
  have mins: "pt_digits v 20 2 0 K = K mi" for K using assms by (intro pt_digits_two) (simp_all add: v rd_def)
  have secs: "pt_digits v 23 2 0 K = K s" for K using assms by (intro pt_digits_two) (simp_all add: v rd_def)
  have seps: "rd v 7 = Some ch_sp" "rd v 11 = Some ch_sp" "rd v 16 = Some ch_sp" "rd v 19 = Some ch_colon" "rd v 22 = Some ch_colon"
    by (simp_all add: v rd_def)
  have "ngx_http_parse_time v = pt_finish y (int k) d h mi s"
    by (simp add: ngx_http_parse_time_def first sp len pt_dated_def day seps mon pt_expect_def year pt_clock_def hour mins secs)
  then show ?thesis by (simp add: v_def M_def)
qed

section \<open>The date and time of a second\<close>

lemma next_day_year: "fst x \<le> fst (next_day x)"
  by (cases x) (simp add: next_day_def)

lemma nth_day:
  "valid_date ((next_day ^^ n) (1970, 1, 1)) \<and> day_number ((next_day ^^ n) (1970, 1, 1)) = 719468 + int n
     \<and> 1970 \<le> fst ((next_day ^^ n) (1970, 1, 1))"
proof (induction n)
  case 0
  show ?case by (simp add: valid_date_def day_number_def month_length_def gauss_year_def gauss_month_def)
next
  case (Suc n)
  with day_number_next [of "(next_day ^^ n) (1970, 1, 1)"] next_day_year [of "(next_day ^^ n) (1970, 1, 1)"]
  show ?case by simp
qed

lemma year_le_day:
  assumes "valid_date x" "1 \<le> fst x"
  shows "365 * (fst x - 1) \<le> day_number x"
proof -
  have lin: "365 * y \<le> gauss_year y" if "0 \<le> y" for y
  proof -
    have "y div 100 \<le> y div 4" using that by (intro zdiv_mono2) auto
    moreover have "0 \<le> y div 400" using that by simp
    ultimately show ?thesis by (simp add: gauss_year_def)
  qed
  obtain y m d where x: "x = (y, m, d)" by (cases x) auto
  then have v: "1 \<le> m" "m \<le> 12" "1 \<le> d" "1 \<le> y" using assms by (auto simp: valid_date_def)
  then have "0 \<le> gauss_month (m + 10)" "\<not> m \<le> 2 \<Longrightarrow> 0 \<le> gauss_month (m - 2)" by (auto simp: gauss_month_def)
  with v lin [of y] lin [of "y - 1"] show ?thesis by (auto simp: x day_number_def)
qed

lemma day_range: "valid_date x \<Longrightarrow> 1 \<le> fst (snd x) \<and> fst (snd x) \<le> 12 \<and> 1 \<le> snd (snd x) \<and> snd (snd x) \<le> 31"
  by (cases x) (auto simp: valid_date_def month_length_def split: if_splits)

lemma ngx_gmtime_day:
  assumes "n < 2 ^ 38" "0 \<le> s" "s < 86400"
  shows "ngx_gmtime (86400 * int n + s) =
    (case (next_day ^^ n) (1970, 1, 1) of (y, m, d) \<Rightarrow>
      \<lparr> tm_sec = s mod 60, tm_min = s mod 3600 div 60, tm_hour = s div 3600, tm_mday = d, tm_mon = m, tm_year = y,
        tm_wday = (4 + int n) mod 7 \<rparr>)"
proof -
  define x where "x = (next_day ^^ n) (1970, 1, 1)"
  obtain y m d where ymd: "x = (y, m, d)" by (cases x) auto
  have x: "valid_date x" "day_number x = 719468 + int n" "1970 \<le> fst x" using nth_day [of n] by (simp_all add: x_def)
  have N: "int n < 2 ^ 38" using assms(1) by (metis of_nat_less_iff of_nat_numeral of_nat_power)
  have "86400 * int n + s < 2 ^ 64" using N assms(3) by simp
  then have t: "(86400 * int n + s) mod 2 ^ 64 = 86400 * int n + s" using assms(2) by simp
  have dv: "(86400 * int n + s) div 86400 = int n" "(86400 * int n + s) mod 86400 = s" using assms(2,3) by simp_all
  have "(int n - (31 + 28) + 719527) mod 2 ^ 64 = day_number x" using N by (simp add: x(2))
  moreover have "gm_date (day_number x) = x" using x N by (intro gm_date_of_day) auto
  ultimately have date: "gm_date ((int n - (31 + 28) + 719527) mod 2 ^ 64) = (y, m, d)" by (simp add: ymd)
  have "365 * (y - 1) \<le> 719468 + int n" "1970 \<le> y" using year_le_day [OF x(1)] x(2,3) by (simp_all add: ymd)
  then have "cast32 y = y" using N by (intro cast32_id) auto
  moreover have "cast32 m = m" "cast32 d = d" using day_range [OF x(1)] by (auto simp: ymd intro!: cast32_id)
  moreover have "cast32 ((4 + int n) mod 7) = (4 + int n) mod 7"
    using pos_mod_bound [of 7 "4 + int n"] pos_mod_sign [of 7 "4 + int n"] by (intro cast32_id) auto
  moreover have "cast32 (s div 3600) = s div 3600" "cast32 (s mod 3600 div 60) = s mod 3600 div 60" "cast32 (s mod 3600 mod 60) = s mod 60"
    using assms(2,3) by (subst cast32_id; simp add: mod_mod_cancel)+
  ultimately show ?thesis
    unfolding ngx_gmtime_def t Let_def dv date x_def [symmetric] ymd by simp
qed

section \<open>Round trip\<close>

lemma day_number_bounds:
  assumes "valid_date (y, m, d)" "1970 \<le> y"
  shows "719468 \<le> day_number (y, m, d)" "3652365 \<le> day_number (y, m, d) \<longleftrightarrow> 10000 \<le> y"
proof -
  define Y where "Y = (if m \<le> 2 then y - 1 else y)"
  define M where "M = (if m \<le> 2 then m + 10 else m - 2)"
  have v: "1 \<le> m" "m \<le> 12" "1 \<le> d" using assms(1) by (auto simp: valid_date_def)
  have d: "d \<le> 31" using day_range [OF assms(1)] by simp
  have m: "m \<in> {1, 2, 3, 4, 5, 6, 7, 8, 9, 10, 11, 12}" using v(1,2) by (rule months_cases)
  have dn: "day_number (y, m, d) = gauss_year Y + gauss_month M + d - 1" by (simp add: Y_def M_def day_number_def)
  have M: "0 \<le> gauss_month M" "m \<le> 2 \<Longrightarrow> 306 \<le> gauss_month M" "2 < m \<Longrightarrow> gauss_month M + d - 1 < 306"
    using m d by (elim insertE; simp add: M_def gauss_month_def)+
  have g: "gauss_year 1969 = 719162" "gauss_year 9999 = 3652059" by (simp_all add: gauss_year_def)
  have "1969 < Y \<Longrightarrow> 719162 + 365 \<le> gauss_year Y" "9999 < Y \<Longrightarrow> 3652059 + 365 \<le> gauss_year Y"
    "Y < 9999 \<Longrightarrow> gauss_year Y + 365 \<le> 3652059" "0 \<le> Y"
    using gauss_year_mono [of 1969 Y] gauss_year_mono [of 9999 Y] gauss_year_mono [of Y 9999] assms(2) by (auto simp: g Y_def)
  note Y = this
  show "719468 \<le> day_number (y, m, d)"
  proof (cases "Y = 1969")
    case True
    then have "m \<le> 2" using assms(2) by (auto simp: Y_def split: if_splits)
    with True M(2) v(3) show ?thesis by (simp add: dn g)
  next
    case False
    then have "1969 < Y" using assms(2) by (auto simp: Y_def split: if_splits)
    with Y(1) M(1) v(3) show ?thesis by (simp add: dn)
  qed
  have "y < 10000 \<Longrightarrow> m \<le> 2 \<Longrightarrow> day_number (y, m, d) < 3652365" if "gauss_month M + d - 1 \<le> 365"
    using Y(3) that by (simp add: dn Y_def)
  moreover have "m \<le> 2 \<Longrightarrow> gauss_month M + d - 1 \<le> 365"
    using m assms(1) by (elim insertE) (auto simp: M_def gauss_month_def valid_date_def month_length_def split: if_splits)
  moreover have "y < 10000 \<Longrightarrow> 2 < m \<Longrightarrow> day_number (y, m, d) < 3652365"
    unfolding dn using Y(3) M(3) g(2) by (cases "Y = 9999") (simp_all add: Y_def)
  moreover have "10000 \<le> y \<Longrightarrow> 3652365 \<le> day_number (y, m, d)"
    using Y(2) M(1,2) g(2) v(3) by (cases "Y = 9999") (auto simp: dn Y_def split: if_splits)
  ultimately show "3652365 \<le> day_number (y, m, d) \<longleftrightarrow> 10000 \<le> y"
    by (meson linorder_not_less)
qed

lemma pt_seconds_eq:
  assumes "1 \<le> m" "m \<le> 12" "1 \<le> y" "719468 \<le> day_number (y, m, d)" "day_number (y, m, d) < 2 ^ 32"
    "0 \<le> h" "h < 24" "0 \<le> mi" "mi < 60" "0 \<le> s" "s < 60" "y < 10000"
  shows "pt_seconds y (m - 1) d h mi s = 86400 * (day_number (y, m, d) - 719468) + 3600 * h + 60 * mi + s"
proof -
  define N where "N = day_number (y, m, d) - 719468"
  define Y where "Y = (if m \<le> 2 then y - 1 else y)"
  define M where "M = (if m \<le> 2 then m + 10 else m - 2)"
  have N: "0 \<le> N" "N < 2 ^ 32" using assms(4,5) by (auto simp: N_def)
  have "day_number (y, m, d) = gauss_year Y + gauss_month M + d - 1" by (simp add: Y_def M_def day_number_def)
  then have sum: "365 * Y + Y div 4 - Y div 100 + Y div 400 + 367 * M div 12 - 30 + d - 1 - 719527 + 31 + 28 = N"
    by (simp add: N_def gauss_year_def gauss_month_def)
  have "(y - 1) mod 2 ^ 64 = y - 1" using assms(3,12) by simp
  then have sh: "(if m - 1 - 1 \<le> 0 then (m - 1 - 1 + 12, (y - 1) mod 2 ^ 64) else (m - 1 - 1, y)) = (M, Y)"
    using assms(1) by (auto simp: M_def Y_def)
  have "N mod 2 ^ 64 = N" using N by simp
  moreover have "cast64 (N * 86400 + h * 3600 + mi * 60 + s) = N * 86400 + h * 3600 + mi * 60 + s"
    using N assms(6-11) by (intro cast64_id) auto
  ultimately show ?thesis
    unfolding pt_seconds_def sh Let_def prod.case sum N_def [symmetric] by simp
qed

lemma pt_finish_valid:
  assumes "valid_date (y, m, d)" "1970 \<le> y" "y < 10000" "0 \<le> h" "h < 24" "0 \<le> mi" "mi < 60" "0 \<le> s" "s < 60"
  shows "pt_finish y (m - 1) d h mi s = Some (86400 * (day_number (y, m, d) - 719468) + 3600 * h + 60 * mi + s)"
proof -
  have v: "1 \<le> m" "m \<le> 12" "1 \<le> d" "d \<le> month_length y m" using assms(1) by (auto simp: valid_date_def)
  have m: "m \<in> {1, 2, 3, 4, 5, 6, 7, 8, 9, 10, 11, 12}" using v(1,2) by (rule months_cases)
  have "pt_finish y (m - 1) d h mi s = Some (pt_seconds y (m - 1) d h mi s)"
    using m v(3,4) assms by (elim insertE) (auto simp: pt_finish_def mday_def rd_def month_length_def leap_year_def split: if_splits)
  with pt_seconds_eq [of m y d h mi s] v day_number_bounds [OF assms(1,2)] assms show ?thesis by simp
qed

lemma tables:
  "k < 7 \<Longrightarrow> length (bytes_of (week ! k)) = 3 \<and> set (bytes_of (week ! k)) \<inter> {0, ch_comma, ch_sp} = {}"
  "k < 12 \<Longrightarrow> length (bytes_of (months ! k)) = 3 \<and> 0 \<notin> set (bytes_of (months ! k))"
proof -
  assume "k < 7"
  then have "k \<in> {0, 1, 2, 3, 4, 5, 6}" by simp presburger
  then show "length (bytes_of (week ! k)) = 3 \<and> set (bytes_of (week ! k)) \<inter> {0, ch_comma, ch_sp} = {}"
    by (elim insertE) (simp_all add: week_def bytes_of_def)
next
  assume "k < 12"
  from below_twelve [OF this] show "length (bytes_of (months ! k)) = 3 \<and> 0 \<notin> set (bytes_of (months ! k))"
    by (elim insertE) (simp_all add: months_def bytes_of_def)
qed

lemma str_arg_reads: "0 \<le> i \<Longrightarrow> nat i < length tab \<Longrightarrow> str_arg tab i = Some (VA_ptr (bytes_of (tab ! nat i) @ [0]))"
  by (simp add: str_arg_def rd_def)

lemma http_time_text:
  assumes "valid_date (y, m, d)" "1970 \<le> y" "y < 10000" "0 \<le> h" "h < 24" "0 \<le> mi" "mi < 60" "0 \<le> s" "s < 60" "0 \<le> wd" "wd < 7"
    "29 \<le> room" "ngx_gmtime t = \<lparr> tm_sec = s, tm_min = mi, tm_hour = h, tm_mday = d, tm_mon = m, tm_year = y, tm_wday = wd \<rparr>"
  shows "ngx_http_time D room t = Some (http_text (bytes_of (week ! nat wd)) d (bytes_of (months ! nat (m - 1))) y h mi s)"
proof -
  have v: "1 \<le> m" "m \<le> 12" "1 \<le> d" "d \<le> 31" using day_range [OF assms(1)] by auto
  have "nat wd < length week" "nat (m - 1) < length months" using assms v by (auto simp: week_def months_def)
  moreover have "nat wd < 7" "nat (m - 1) < 12" using assms v by auto
  note tables(1) [OF this(1)] tables(2) [OF this(2)]
  ultimately show ?thesis
    using assms v vslprintf_http_time [of "bytes_of (week ! nat wd)" "bytes_of (months ! nat (m - 1))" room d y h mi s D]
    by (simp add: ngx_http_time_def str_arg_reads)
qed

text \<open>Splitting a second count into a day and a time of day.\<close>

lemma second_split:
  fixes t :: int
  assumes "0 \<le> t"
  obtains n h mi s where "t = 86400 * int n + 3600 * h + 60 * mi + s" "0 \<le> h" "h < 24" "0 \<le> mi" "mi < 60" "0 \<le> s" "s < 60"
proof
  define r where "r = t mod 86400"
  have r: "0 \<le> r" "r < 86400" by (simp_all add: r_def)
  have "t = 86400 * (t div 86400) + r" by (simp add: r_def)
  moreover have "r = 3600 * (r div 3600) + 60 * (r mod 3600 div 60) + r mod 3600 mod 60" by simp
  moreover have "int (nat (t div 86400)) = t div 86400" using assms by simp
  ultimately show "t = 86400 * int (nat (t div 86400)) + 3600 * (r div 3600) + 60 * (r mod 3600 div 60) + r mod 3600 mod 60"
    by linarith
  show "0 \<le> r div 3600" "r div 3600 < 24" "0 \<le> r mod 3600 div 60" "r mod 3600 div 60 < 60" "0 \<le> r mod 3600 mod 60" "r mod 3600 mod 60 < 60"
    using r by auto
qed

lemma ngx_gmtime_clock:
  assumes "n < 2 ^ 38" "0 \<le> h" "h < 24" "0 \<le> mi" "mi < 60" "0 \<le> s" "s < 60"
  shows "ngx_gmtime (86400 * int n + 3600 * h + 60 * mi + s) =
    (case (next_day ^^ n) (1970, 1, 1) of (y, m, d) \<Rightarrow>
      \<lparr> tm_sec = s, tm_min = mi, tm_hour = h, tm_mday = d, tm_mon = m, tm_year = y, tm_wday = (4 + int n) mod 7 \<rparr>)"
proof -
  define r where "r = 3600 * h + 60 * mi + s"
  have ms: "0 \<le> 60 * mi + s" "60 * mi + s < 3600" using assms by auto
  have "r div 3600 = h" "r mod 3600 = 60 * mi + s" "(60 * mi + s) div 60 = mi"
    using ms assms div_mult_self4 [of 3600 "60 * mi + s" h] mod_mult_self4 [of 3600 h "60 * mi + s"] by (simp_all add: r_def add.assoc)
  moreover have "r mod 60 = s" using assms by (simp add: r_def mod_add_eq [symmetric] mod_mult_right_eq)
  moreover have "0 \<le> r" "r < 86400" using assms by (auto simp: r_def)
  ultimately show ?thesis using ngx_gmtime_day [OF assms(1), of r] by (simp add: r_def add.assoc)
qed

section \<open>The properties\<close>

text \<open>
  C32. The broken-down time is the Gregorian calendar: the date of the \<open>n\<close>-th day of the epoch is the
  date that \<open>n\<close> steps to the next day reach from January 1, 1970, with the day of the week counted
  from that Thursday and the time of the day as given, for the first \<open>2 ^ 38\<close> days (700 million years).
\<close>

theorem gmtime_calendar:
  assumes "n < 2 ^ 38" "0 \<le> h" "h < 24" "0 \<le> mi" "mi < 60" "0 \<le> s" "s < 60"
  shows "ngx_gmtime (86400 * int n + 3600 * h + 60 * mi + s) =
    (case (next_day ^^ n) (1970, 1, 1) of (y, m, d) \<Rightarrow>
      \<lparr> tm_sec = s, tm_min = mi, tm_hour = h, tm_mday = d, tm_mon = m, tm_year = y, tm_wday = (4 + int n) mod 7 \<rparr>)"
  using assms by (rule ngx_gmtime_clock)

theorem gmtime_calendar_witness:
  "ngx_gmtime (86400 * int 59 + 3600 * 23 + 60 * 59 + 58) =
    \<lparr> tm_sec = 58, tm_min = 59, tm_hour = 23, tm_mday = 1, tm_mon = 3, tm_year = 1970, tm_wday = 0 \<rparr>"
proof -
  have "(next_day ^^ 59) (1970, 1, 1) = (1970, 3, 1)" by code_simp
  with gmtime_calendar [of 59 23 59 58] show ?thesis by simp
qed

text \<open>
  C33. What \<^verbatim>\<open>ngx_http_time\<close> writes, \<^verbatim>\<open>ngx_http_parse_time\<close> reads back: every second from the epoch to the
  end of the year 9999 is printed as a text of 29 bytes, whose value is that second.
\<close>

theorem http_time_roundtrip:
  assumes "0 \<le> t" "t < 253402300800" "29 \<le> room"
  shows "\<exists>text. ngx_http_time D room t = Some text \<and> length text = 29 \<and> ngx_http_parse_time text = Some t"
proof (rule second_split [OF assms(1)])
  fix n h mi s
  assume t: "t = 86400 * int n + 3600 * h + 60 * mi + s" and r: "0 \<le> h" "h < 24" "0 \<le> mi" "mi < 60" "0 \<le> s" "s < 60"
  obtain y m d where x: "(next_day ^^ n) (1970, 1, 1) = (y, m, d)" by (cases "(next_day ^^ n) (1970, 1, 1)") auto
  have v: "valid_date (y, m, d)" "day_number (y, m, d) = 719468 + int n" "1970 \<le> y" using nth_day [of n] by (simp_all add: x)
  have n: "n < 2932897" using t r assms(2) by linarith
  then have y: "y < 10000" using day_number_bounds(2) [OF v(1,3)] v(2) by linarith
  have "n < 2 ^ 38" using n by simp
  note gm = ngx_gmtime_clock [OF this r, folded t, unfolded x prod.case]
  define wd where "wd = (4 + int n) mod 7"
  have wd: "0 \<le> wd" "wd < 7" by (simp_all add: wd_def)
  have m: "1 \<le> m" "m \<le> 12" "1 \<le> d" "d \<le> 31" using day_range [OF v(1)] by auto
  define W M where "W = bytes_of (week ! nat wd)" and "M = bytes_of (months ! nat (m - 1))"
  have tab: "length W = 3" "set W \<inter> {ch_comma, ch_sp} = {}" "length M = 3" "nat (m - 1) < 12"
    using tables(1) [of "nat wd"] tables(2) [of "nat (m - 1)"] wd m by (auto simp: W_def M_def)
  have "ngx_http_time D room t = Some (http_text W d M y h mi s)"
    unfolding W_def M_def using v y r wd assms(3) gm by (intro http_time_text) (simp_all add: wd_def)
  moreover have "length (http_text W d M y h mi s) = 29" by (simp add: http_text_def tab two_digits_def four_digits_def bytes_of_def)
  moreover have "ngx_http_parse_time (http_text W d M y h mi s) = pt_finish y (m - 1) d h mi s"
    using parse_http_text [OF tab(1,2,4), of d y h mi s] m v(3) y r by (simp add: M_def)
  then have "ngx_http_parse_time (http_text W d M y h mi s) = Some t"
    using pt_finish_valid [OF v(1,3) y r] v(2) t by simp
  ultimately show ?thesis by blast
qed

theorem http_time_roundtrip_witness:
  "\<exists>text. ngx_http_time zero_double 4096 784111777 = Some text
     \<and> length text = 29 \<and> ngx_http_parse_time text = Some 784111777"
  by (rule http_time_roundtrip) simp_all

section \<open>Reading within the value\<close>

lemma pt_digits_total:
  assumes "p + n \<le> length v" "\<And>x. k x \<noteq> None"
  shows "pt_digits v p n acc k \<noteq> None"
  using assms
proof (induction n arbitrary: p acc)
  case (Suc n)
  then have "p < length v" by simp
  moreover have "pt_digits v (p + 1) n a k \<noteq> None" for a using Suc by simp
  ultimately show ?case by (simp add: rd_def)
qed simp

lemma pt_expect_total: "p < length v \<Longrightarrow> k \<noteq> None \<Longrightarrow> pt_expect v p c k \<noteq> None"
  by (simp add: pt_expect_def rd_def)

lemma pt_clock_total:
  assumes "p + 9 \<le> length v" "\<And>h mi s. k (p + 9) h mi s \<noteq> None"
  shows "pt_clock v p k \<noteq> None"
  unfolding pt_clock_def using assms by (intro pt_expect_total pt_digits_total) auto

lemma pt_month_total:
  assumes "p + 3 \<le> length v"
  obtains "pt_month v p = Some None" | k where "pt_month v p = Some (Some k)" "0 \<le> k" "k < 12"
proof -
  have "\<exists>m. pt_month v p = Some m \<and> (m = None \<or> (\<exists>k. m = Some k \<and> 0 \<le> k \<and> k < 12))"
    using assms by (simp add: pt_month_def rd_def)
  with that show thesis by blast
qed

lemma pt_finish_total: "0 \<le> month \<Longrightarrow> month < 12 \<Longrightarrow> pt_finish year month day h mi s \<noteq> None"
  by (subgoal_tac "nat month < length mday") (simp_all add: pt_finish_def rd_def mday_def)

lemma pt_isoc_rest_total:
  assumes "0 \<le> month" "month < 12"
  shows "pt_isoc_rest v month p day \<noteq> None"
proof (cases "int (length v) - int p < 14")
  case False
  then have "pt_clock v p (\<lambda>p h mi s. pt_expect v p ch_sp (pt_digits v (p + 1) 4 0 (\<lambda>year. pt_finish year month day h mi s))) \<noteq> None"
    using assms by (intro pt_clock_total pt_expect_total pt_digits_total pt_finish_total) auto
  with False show ?thesis by (simp add: pt_isoc_rest_def)
qed (simp add: pt_isoc_rest_def)

lemma pt_isoc_total:
  assumes "p + 3 \<le> length v" "0 \<le> month" "month < 12"
  shows "pt_isoc v p month \<noteq> None"
proof -
  have "\<exists>c. rd v p = Some c" using assms(1) by (simp add: rd_def)
  then obtain a where a: "rd v p = Some a" by blast
  define q where "q = (if a = ch_sp then p + 1 else p)"
  have q: "q + 2 \<le> length v" using assms(1) by (simp add: q_def)
  then have "\<exists>c. rd v (q + 1) = Some c" by (simp add: rd_def)
  then obtain b where b: "rd v (q + 1) = Some b" by blast
  have "(if b \<noteq> ch_sp then pt_digits v (q + 1) 1 d (pt_isoc_rest v month (q + 2)) else pt_isoc_rest v month (q + 1) d) \<noteq> None" for d
    using q pt_isoc_rest_total [OF assms(2,3)] pt_digits_total [of "q + 1" 1 v "pt_isoc_rest v month (q + 2)"] by simp
  then have "pt_digits v q 1 0 (\<lambda>d. if b \<noteq> ch_sp then pt_digits v (q + 1) 1 d (pt_isoc_rest v month (q + 2))
      else pt_isoc_rest v month (q + 1) d) \<noteq> None"
    using q by (intro pt_digits_total) simp_all
  then show ?thesis unfolding pt_isoc_def a bind.simps q_def [symmetric] Let_def b .
qed

lemma pt_dated_total:
  assumes "p + 18 \<le> length v"
  shows "pt_dated v p \<noteq> None"
proof -
  have "\<exists>c. rd v (p + 2) = Some c" using assms by (simp add: rd_def)
  then obtain c where c: "rd v (p + 2) = Some c" by blast
  have m: "p + 3 + 3 \<le> length v" using assms by simp
  have full: "do { m \<leftarrow> pt_month v (p + 3);
       case m of None \<Rightarrow> Some NGX_ERROR
       | Some month \<Rightarrow> pt_expect v (p + 6) ch_sp (pt_digits v (p + 7) 4 0 (\<lambda>year.
           pt_clock v (p + 11) (\<lambda>p hour mi sec. pt_finish year month day hour mi sec))) } \<noteq> None"
    if "p + 20 \<le> length v" for day
    by (rule pt_month_total [OF m]; simp only: bind.simps option.case; (intro pt_expect_total pt_digits_total pt_clock_total pt_finish_total)?)
      (use that in auto)
  have short: "do { m \<leftarrow> pt_month v (p + 3);
       case m of None \<Rightarrow> Some NGX_ERROR
       | Some month \<Rightarrow> pt_expect v (p + 6) ch_minus (pt_digits v (p + 7) 2 0 (\<lambda>yy.
           pt_clock v (p + 9) (\<lambda>p hour mi sec. pt_finish (yy + (if yy < 70 then 2000 else 1900)) month day hour mi sec))) } \<noteq> None" for day
    by (rule pt_month_total [OF m]; simp only: bind.simps option.case; (intro pt_expect_total pt_digits_total pt_clock_total pt_finish_total)?)
      (use assms in auto)
  show ?thesis
    unfolding pt_dated_def Let_def c bind.simps
    using assms full short by (intro pt_digits_total) (simp_all del: not_None_eq)
qed

text \<open>
  \<^verbatim>\<open>ngx_http_parse_time\<close> reads no byte outside the value and no entry outside the table of months,
  whatever the bytes: the model, in which such a read has no result, always has one.
\<close>

theorem parse_time_safe: "ngx_http_parse_time v \<noteq> None"
proof -
  obtain fmt q where q: "pt_first 0 v = (fmt, q)" by force
  define p where "p = pt_spaces (q + 1) (drop (q + 1) v)"
  show ?thesis
  proof (cases "int (length v) - int p < 18")
    case False
    then have l: "p + 18 \<le> length v" by linarith
    have "do { m \<leftarrow> pt_month v p; case m of None \<Rightarrow> Some NGX_ERROR | Some month \<Rightarrow> pt_isoc v (p + 4) month } \<noteq> None"
      by (rule pt_month_total [of p v]; (simp only: bind.simps option.case; (intro pt_isoc_total)?)?) (use l in auto)
    with False pt_dated_total [OF l] show ?thesis unfolding ngx_http_parse_time_def q Let_def prod.case p_def [symmetric] by simp
  qed (simp add: ngx_http_parse_time_def q p_def Let_def)
qed

text \<open>
  The day of the month is checked from above only: day 00 is the last day of the month before. In
  the year 0000 the step back to March wraps the unsigned year.
\<close>

lemma parse_time_day_zero:
  "ngx_http_parse_time (bytes_of ''Sun, 00 Nov 1994 08:49:37 GMT'') = ngx_http_parse_time (bytes_of ''Mon, 31 Oct 1994 08:49:37 GMT'')"
  by code_simp

lemma parse_time_year_zero:
  "ngx_http_parse_time (bytes_of ''Sat, 01 Jan 0000 00:00:00 GMT'') \<noteq> Some (86400 * (day_number (0, 1, 1) - 719468))"
  by code_simp

end
