(* ===== verification/Ngx_Inet.thy ===== *)
theory Ngx_Inet
  imports Ngx_Sprintf Ngx_String
begin

text \<open>
  Internet addresses and their texts (\<^verbatim>\<open>ngx_inet.c\<close>): the parsers and printers of IPv4, IPv6
  and socket addresses, for a build with \<^verbatim>\<open>NGX_HAVE_INET6\<close>. An \<^verbatim>\<open>in_addr_t\<close> is the
  32-bit word that the C program has, in network byte order on a little-endian machine.
\<close>

section \<open>IPv4\<close>

type_synonym u16 = "16 word"

text \<open>The byte order functions of the C library, and the bytes of a word in memory.\<close>

definition htonl :: "u32 \<Rightarrow> u32" where
  "htonl x = push_bit 24 (x AND 0xff) OR push_bit 8 (x AND 0xff00) OR (drop_bit 8 x AND 0xff00) OR drop_bit 24 x"

definition htons :: "u16 \<Rightarrow> u16" where
  "htons x = push_bit 8 x OR drop_bit 8 x"

definition mem32 :: "u32 \<Rightarrow> bytes" where
  "mem32 x = [ucast x, ucast (drop_bit 8 x), ucast (drop_bit 16 x), ucast (drop_bit 24 x)]"

definition INADDR_NONE :: u32 where
  "INADDR_NONE = 0xffffffff"

text \<open>The loop of \<^verbatim>\<open>ngx_inet_addr\<close>; \<open>None\<close> is a return of \<^verbatim>\<open>INADDR_NONE\<close> from it.\<close>

fun inet_addr_loop :: "u32 \<Rightarrow> nat \<Rightarrow> nat \<Rightarrow> bytes \<Rightarrow> (u32 \<times> nat \<times> nat) option" where
  "inet_addr_loop addr octet n [] = Some (addr, octet, n)"
| "inet_addr_loop addr octet n (c # p) =
     (if octet > 255 then None
      else if c \<ge> ch_0 \<and> c \<le> ch_9 then inet_addr_loop addr (octet * 10 + (unat c - 0x30)) n p
      else if c = ch_dot then inet_addr_loop (push_bit 8 addr + of_nat octet) 0 (n + 1) p
      else None)"

definition ngx_inet_addr :: "bytes \<Rightarrow> u32" where
  "ngx_inet_addr text =
     (case inet_addr_loop 0 0 0 text of
        None \<Rightarrow> INADDR_NONE
      | Some (addr, octet, n) \<Rightarrow> if n = 3 then htonl (push_bit 8 addr + of_nat octet) else INADDR_NONE)"

section \<open>IPv6\<close>

definition NGX_INET6_ADDRSTRLEN :: nat where
  "NGX_INET6_ADDRSTRLEN = 45"

text \<open>
  The loop of \<^verbatim>\<open>ngx_inet6_addr\<close>: \<open>out\<close> are the bytes written so far, \<open>zero\<close> is their number at the
  double colon, \<open>digit\<close> the text behind the last colon. \<open>None\<close> is \<^verbatim>\<open>NGX_ERROR\<close>.
\<close>

definition word_bytes :: "nat \<Rightarrow> bytes" where
  "word_bytes w = [of_nat (w div 256), of_nat (w mod 256)]"

fun inet6_loop ::
    "bytes \<Rightarrow> nat option \<Rightarrow> bytes option \<Rightarrow> nat \<Rightarrow> nat \<Rightarrow> nat \<Rightarrow> bytes \<Rightarrow> (bytes \<times> nat option \<times> nat \<times> nat \<times> nat) option" where
  "inet6_loop out zero digit n nibbles word [] = Some (out, zero, n, nibbles, word)"
| "inet6_loop out zero digit n nibbles word (c # p) =
     (if c = ch_colon then
        if nibbles \<noteq> 0 then
          if n - 1 \<noteq> 0 then inet6_loop (out @ word_bytes word) zero (Some p) (n - 1) 0 0 p else None
        else if zero = None then inet6_loop out (Some (length out)) (Some p) n nibbles word p
        else None
      else if c = ch_dot \<and> nibbles \<noteq> 0 then
        (case digit of
           None \<Rightarrow> None
         | Some d \<Rightarrow>
             if n < 2 then None
             else
               (let a = ngx_inet_addr d in
                if a = INADDR_NONE then None
                else
                  (let w = unat (htonl a) in
                   Some (out @ word_bytes (w div 65536), zero, n - 1, nibbles, w))))
      else if nibbles + 1 > 4 then None
      else if c \<ge> ch_0 \<and> c \<le> ch_9 then
        inet6_loop out zero digit n (nibbles + 1) (word * 16 + (unat c - 0x30)) p
      else
        (let c = c OR 0x20 in
         if c \<ge> ch_a \<and> c \<le> ch_f then
           inet6_loop out zero digit n (nibbles + 1) (word * 16 + (unat c - 0x61) + 10) p
         else None))"

text \<open>The bytes of the address; \<open>None\<close> is \<^verbatim>\<open>NGX_ERROR\<close>.\<close>

definition ngx_inet6_addr :: "bytes \<Rightarrow> bytes option" where
  "ngx_inet6_addr p =
     (if p = [] then None
      else
        do { (out, zero, n, nibbles, word) \<leftarrow>
               inet6_loop [] None None 8 0 0 (if hd p = ch_colon then tl p else p);
             if nibbles = 0 \<and> zero = None then None
             else
               (let out = out @ word_bytes (word mod 65536); n = n - 1 in
                if n \<noteq> 0 then
                  (case zero of
                     Some z \<Rightarrow> Some (take z out @ replicate (2 * n) 0 @ drop z out)
                   | None \<Rightarrow> None)
                else if zero = None then Some out else None) })"

text \<open>
  The longest run of zero words: \<open>zero\<close> and \<open>last\<close> are the index of its first byte and of the first
  byte of the current run (\<open>None\<close> is \<^verbatim>\<open>(ngx_uint_t) -1\<close>), \<open>max\<close> and \<open>n\<close> the numbers of their words.
\<close>

definition run_end :: "nat option \<times> nat option \<times> nat \<times> nat \<Rightarrow> nat option \<times> nat option \<times> nat \<times> nat" where
  "run_end = (\<lambda>(zero, last, mx, n). if mx < n then (last, last, n, n) else (zero, last, mx, n))"

fun inet6_runs :: "nat \<Rightarrow> bytes \<Rightarrow> nat option \<times> nat option \<times> nat \<times> nat \<Rightarrow> nat option \<times> nat option \<times> nat \<times> nat" where
  "inet6_runs i (a # b # p) st =
     (if a \<noteq> 0 \<or> b \<noteq> 0 then
        (let (zero, last, mx, n) = run_end st in inet6_runs (i + 2) p (zero, last, mx, 0))
      else
        (let (zero, last, mx, n) = st in
         inet6_runs (i + 2) p (zero, if n = 0 then Some i else last, mx, n + 1)))"
| "inet6_runs i p st = st"

text \<open>
  The argument of \<^verbatim>\<open>%uxi\<close> is an \<^verbatim>\<open>int\<close>, but \<^verbatim>\<open>ngx_vslprintf\<close> reads 64 bits for it: \<open>widen\<close> is what the
  calling convention makes of that. \<open>room\<close> is, for \<^verbatim>\<open>ngx_sprintf\<close>, the room up to the end of the address space.
\<close>

function inet6_print ::
    "'d double_ops \<Rightarrow> (u32 \<Rightarrow> u64) \<Rightarrow> nat \<Rightarrow> bytes \<Rightarrow> nat option \<Rightarrow> nat \<Rightarrow> nat \<Rightarrow> nat \<Rightarrow> bytes option" where
  "inet6_print D widen room p zero mx n i =
     (if i < n then
        if zero = Some i then
          map_option ((#) ch_colon) (inet6_print D widen room p zero mx n (i + (mx - 1) * 2 + 2))
        else
          do { a \<leftarrow> rd p i;
               b \<leftarrow> rd p (i + 1);
               t \<leftarrow> ngx_vslprintf D room (bytes_of ''%uxi'' @ [0]) [VA_64 (widen (ucast a * 256 + ucast b))];
               r \<leftarrow> inet6_print D widen room p zero mx n (i + 2);
               Some (t @ (if i < 14 then [ch_colon] else []) @ r) }
      else Some [])"
  by pat_completeness auto
termination by (relation "measure (\<lambda>(D, widen, room, p, zero, mx, n, i). n - i)") auto

declare inet6_print.simps [simp del]

definition dotted_args :: "bytes \<Rightarrow> 'd va_arg list" where
  "dotted_args p = map (\<lambda>b. VA_32 (ucast b)) p"

definition ngx_inet6_ntop :: "'d double_ops \<Rightarrow> (u32 \<Rightarrow> u64) \<Rightarrow> nat \<Rightarrow> bytes \<Rightarrow> nat \<Rightarrow> bytes option" where
  "ngx_inet6_ntop D widen room p len =
     (if len < NGX_INET6_ADDRSTRLEN then Some []
      else
        (let (zero, last, mx, n) = run_end (inet6_runs 0 p (None, None, 1, 0)) in
         do { p10 \<leftarrow> rd p 10; p11 \<leftarrow> rd p 11; p14 \<leftarrow> rd p 14; p15 \<leftarrow> rd p 15;
              let n = (if zero = Some 0
                          \<and> (mx = 5 \<and> p10 = 0xff \<and> p11 = 0xff \<or> mx = 6 \<or> mx = 7 \<and> p14 \<noteq> 0 \<and> p15 \<noteq> 1) then 12 else 16);
              t \<leftarrow> inet6_print D widen room p zero mx n 0;
              d \<leftarrow> (if n = 12 then ngx_vslprintf D room (bytes_of ''%ud.%ud.%ud.%ud'' @ [0]) (dotted_args (take 4 (drop 12 p)))
                    else Some []);
              Some ((if zero = Some 0 then [ch_colon] else []) @ t @ d) }))"

section \<open>Socket addresses\<close>

text \<open>Addresses and ports in network byte order; a path is \<open>None\<close> when the socket length leaves it out.\<close>

datatype sockaddr_t =
    Sockaddr_in u32 u16
  | Sockaddr_in6 bytes u16
  | Sockaddr_un "bytes option"
  | Sockaddr_other

definition port_arg :: "u16 \<Rightarrow> 'd va_arg" where
  "port_arg port = VA_32 (ucast (htons port))"

definition ngx_sock_ntop :: "'d double_ops \<Rightarrow> (u32 \<Rightarrow> u64) \<Rightarrow> nat \<Rightarrow> sockaddr_t \<Rightarrow> nat \<Rightarrow> bool \<Rightarrow> bytes option" where
  "ngx_sock_ntop D widen room sa len port =
     (case sa of
        Sockaddr_in a sp \<Rightarrow>
          if port then ngx_snprintf D len (bytes_of ''%ud.%ud.%ud.%ud:%d'' @ [0]) (dotted_args (mem32 a) @ [port_arg sp])
          else ngx_snprintf D len (bytes_of ''%ud.%ud.%ud.%ud'' @ [0]) (dotted_args (mem32 a))
      | Sockaddr_in6 a sp \<Rightarrow>
          do { t \<leftarrow> ngx_inet6_ntop D widen room a len;
               if port then
                 do { q \<leftarrow> ngx_vslprintf D room (bytes_of '']:%d'' @ [0]) [port_arg sp]; Some (ch_lbrack # t @ q) }
               else Some t }
      | Sockaddr_un path \<Rightarrow>
          do { t \<leftarrow> (case path of
                 None \<Rightarrow> ngx_snprintf D len (bytes_of ''unix:%Z'' @ [0]) []
               | Some s \<Rightarrow> ngx_snprintf D len (bytes_of ''unix:%s%Z'' @ [0]) [VA_ptr s]);
               Some (butlast t) }
      | Sockaddr_other \<Rightarrow> Some [])"

text \<open>\<^verbatim>\<open>ngx_inet_ntop\<close> on an IPv4 address; on an IPv6 address it is \<open>ngx_inet6_ntop\<close>.\<close>

definition ngx_inet_ntop4 :: "'d double_ops \<Rightarrow> u32 \<Rightarrow> nat \<Rightarrow> bytes option" where
  "ngx_inet_ntop4 D a len = ngx_snprintf D len (bytes_of ''%ud.%ud.%ud.%ud'' @ [0]) (dotted_args (mem32 a))"

text \<open>\<^verbatim>\<open>ngx_parse_addr\<close>; \<open>mem\<close> says whether the allocation succeeds.\<close>

definition ngx_parse_addr :: "bool \<Rightarrow> bytes \<Rightarrow> int + sockaddr_t" where
  "ngx_parse_addr mem text =
     (let inaddr = ngx_inet_addr text in
      if inaddr \<noteq> INADDR_NONE then if mem then Inr (Sockaddr_in inaddr 0) else Inl NGX_ERROR
      else
        (case ngx_inet6_addr text of
           Some a \<Rightarrow> if mem then Inr (Sockaddr_in6 a 0) else Inl NGX_ERROR
         | None \<Rightarrow> Inl NGX_DECLINED))"

section \<open>Byte order\<close>

lemma below_32: "n < 32 \<Longrightarrow> n \<in> {0, 1, 2, 3, 4, 5, 6, 7, 8, 9, 10, 11, 12, 13, 14, 15, 16, 17, 18, 19, 20, 21, 22, 23, 24, 25, 26, 27, 28, 29, 30, 31 :: nat}"
  by simp presburger

lemma no_bit_32: "32 \<le> n \<Longrightarrow> \<not> bit (x :: u32) n"
  using bit_imp_le_length [of x n] by auto

lemma bit_htonl: "n < 32 \<Longrightarrow> bit (htonl x) n = bit x (8 * (3 - n div 8) + n mod 8)"
  unfolding htonl_def
  by (drule below_32) (elim insertE; simp add: bit_or_iff bit_and_iff bit_push_bit_iff bit_drop_bit_eq bit_simps no_bit_32 numeral_2_eq_2 [symmetric] del: push_bit_and)

lemma word32_eqI: "(\<And>n. n < 32 \<Longrightarrow> bit x n = bit y n) \<Longrightarrow> x = (y :: u32)"
  by (rule bit_word_eqI) simp

lemma htonl_twice [simp]: "htonl (htonl x) = x"
  by (rule word32_eqI, drule below_32) (elim insertE; simp add: bit_htonl numeral_2_eq_2 [symmetric])

lemma htonl_and: "htonl (x AND y) = htonl x AND htonl y"
  by (rule word32_eqI) (simp add: bit_htonl bit_and_iff)

lemma htonl_inj: "htonl x = htonl y \<longleftrightarrow> x = y"
  by (metis htonl_twice)

lemma htonl_none: "htonl x = INADDR_NONE \<longleftrightarrow> x = 0xffffffff"
proof -
  have "htonl INADDR_NONE = 0xffffffff" by (simp add: htonl_def INADDR_NONE_def)
  then show ?thesis by (metis htonl_twice)
qed

text \<open>The bytes of an address in network order are its bytes from the most significant one on.\<close>

lemma mem32_htonl: "mem32 (htonl x) = [ucast (drop_bit 24 x), ucast (drop_bit 16 x), ucast (drop_bit 8 x), ucast x]"
proof -
  have "bit (htonl x) (k + i) = bit x (24 - k + i)" if "k \<in> {0, 8, 16, 24}" "i < 8" for k i
  proof -
    have "i \<in> {0, 1, 2, 3, 4, 5, 6, 7}" using that(2) by simp presburger
    with that(1) show ?thesis by (elim insertE; simp add: bit_htonl numeral_2_eq_2 [symmetric])
  qed
  then have "(ucast (drop_bit k (htonl x)) :: u_char) = ucast (drop_bit (24 - k) x)" if "k \<in> {0, 8, 16, 24}" for k
    using that by (intro bit_word_eqI) (simp add: bit_ucast_iff bit_drop_bit_eq)
  from this [of 0] this [of 8] this [of 16] this [of 24] show ?thesis by (simp add: mem32_def)
qed

definition be32 :: "bytes \<Rightarrow> nat" where
  "be32 p = ((unat (p ! 0) * 256 + unat (p ! 1)) * 256 + unat (p ! 2)) * 256 + unat (p ! 3)"

section \<open>Reading IPv4\<close>

text \<open>The groups between the dots of a text.\<close>

fun dot_groups :: "bytes \<Rightarrow> bytes list" where
  "dot_groups [] = [[]]"
| "dot_groups (c # p) =
     (if c = ch_dot then [] # dot_groups p
      else (case dot_groups p of [] \<Rightarrow> [[c]] | g # gs \<Rightarrow> (c # g) # gs))"

lemma dot_groups_nonempty [simp]: "dot_groups p \<noteq> []"
  by (induction p) (auto split: list.split)

text \<open>What the loop does with them, with \<open>octet\<close> in front of the first.\<close>

fun groups_loop :: "u32 \<Rightarrow> nat \<Rightarrow> nat \<Rightarrow> bytes list \<Rightarrow> (u32 \<times> nat \<times> nat) option" where
  "groups_loop addr octet n [] = None"
| "groups_loop addr octet n [g] =
     (if list_all is_digit g \<and> (g = [] \<or> dec_acc (int octet) (butlast g) \<le> 255) then Some (addr, nat (dec_acc (int octet) g), n) else None)"
| "groups_loop addr octet n (g # h # gs) =
     (if list_all is_digit g \<and> dec_acc (int octet) g \<le> 255
      then groups_loop (push_bit 8 addr + word_of_int (dec_acc (int octet) g)) 0 (n + 1) (h # gs) else None)"

lemma digit_int:
  assumes "is_digit c"
  shows "int (unat c - 0x30) = uint c - 0x30"
proof -
  have "0x30 \<le> unat c" using assms by (simp add: is_digit_def word_le_nat_alt)
  then show ?thesis by (simp add: of_nat_diff)
qed

lemma inet_addr_groups: "inet_addr_loop addr octet n s = groups_loop addr octet n (dot_groups s)"
proof (induction s arbitrary: addr octet n)
  case Nil
  then show ?case by simp
next
  case (Cons c p)
  obtain g gs where g: "dot_groups p = g # gs" by (cases "dot_groups p") auto
  have big: "\<not> dec_acc (int octet) ds \<le> 255" if "255 < octet" "list_all is_digit ds" for ds
    using dec_acc_ge [of "int octet" ds] that by simp
  consider (dot) "c = ch_dot" | (digit) "is_digit c" "c \<noteq> ch_dot" | (other) "\<not> is_digit c" "c \<noteq> ch_dot" by blast
  then show ?case
  proof cases
    case dot
    then show ?thesis by (cases "255 < octet") (auto simp: Cons.IH g)
  next
    case digit
    have grp: "dot_groups (c # p) = (c # g) # gs" using digit by (simp add: g)
    have "inet_addr_loop addr octet n (c # p) = (if octet > 255 then None else groups_loop addr (octet * 10 + (unat c - 0x30)) n (g # gs))"
      using digit Cons.IH by (simp add: g is_digit_def)
    also have "\<dots> = groups_loop addr octet n ((c # g) # gs)"
    proof (cases "255 < octet")
      case True
      have "list_all is_digit g \<Longrightarrow> list_all is_digit (butlast g)" by (auto simp: list_all_iff dest: in_set_butlastD)
      with True digit big [of "c # butlast g"] big [of "c # g"] big [of "[]"] show ?thesis
        by (cases gs) (auto split: if_splits)
    next
      case False
      with digit show ?thesis by (cases gs; cases g) (simp_all add: digit_int [OF digit(1)])
    qed
    finally show ?thesis by (simp only: grp)
  next
    case other
    then have "inet_addr_loop addr octet n (c # p) = None" by (auto simp: is_digit_def)
    moreover have "dot_groups (c # p) = (c # g) # gs" using other by (simp add: g)
    ultimately show ?thesis using other by (cases gs) auto
  qed
qed

text \<open>The texts of an address: four groups of digits, the first three at most 255, the last without its last digit.\<close>

definition inet_text :: "bytes \<Rightarrow> bytes list \<Rightarrow> bool" where
  "inet_text text gs \<longleftrightarrow> dot_groups text = gs \<and> length gs = 4 \<and> list_all (list_all is_digit) gs
     \<and> list_all (\<lambda>g. dec_value g \<le> 255) (take 3 gs) \<and> dec_value (butlast (gs ! 3)) \<le> 255"

definition be_value :: "int list \<Rightarrow> int" where
  "be_value vs = foldl (\<lambda>a v. a * 256 + v) 0 vs"

text \<open>Four groups of digits: the first three at most 255, the last without its last digit.\<close>

definition inet_groups :: "bytes list \<Rightarrow> bool" where
  "inet_groups gs \<longleftrightarrow> length gs = 4 \<and> list_all (list_all is_digit) gs
     \<and> dec_value (gs ! 0) \<le> 255 \<and> dec_value (gs ! 1) \<le> 255 \<and> dec_value (gs ! 2) \<le> 255 \<and> dec_value (butlast (gs ! 3)) \<le> 255"

definition inet_value :: "bytes list \<Rightarrow> int" where
  "inet_value gs = ((dec_value (gs ! 0) * 256 + dec_value (gs ! 1)) * 256 + dec_value (gs ! 2)) * 256 + dec_value (gs ! 3)"

lemma groups_loop_count: "groups_loop addr octet n gs = Some (a, k, m) \<Longrightarrow> m + 1 = n + length gs"
  by (induction addr octet n gs rule: groups_loop.induct) (auto split: if_splits)

lemma inet_addr_eq:
  "ngx_inet_addr s = (if inet_groups (dot_groups s) then htonl (word_of_int (inet_value (dot_groups s))) else INADDR_NONE)"
proof (cases "length (dot_groups s) = 4")
  case False
  then have "\<not> inet_groups (dot_groups s)" by (simp add: inet_groups_def)
  moreover have "k \<noteq> 3" if "groups_loop 0 0 0 (dot_groups s) = Some (a, m, k)" for a m k
    using groups_loop_count [OF that] False by simp
  ultimately show ?thesis
    by (auto simp: ngx_inet_addr_def inet_addr_groups split: option.split)
next
  case True
  then obtain g0 g1 g2 g3 where g: "dot_groups s = [g0, g1, g2, g3]" by (auto simp: length_Suc_conv eval_nat_numeral)
  show ?thesis
  proof (cases "inet_groups (dot_groups s)")
    case ok: True
    have sh: "push_bit 8 (word_of_int x) = (word_of_int (x * 256) :: u32)" for x
      by (simp add: push_bit_eq_mult)
    have "0 \<le> dec_value g3" using ok by (simp add: inet_groups_def g dec_value_nonneg)
    then have "(of_nat (nat (dec_value g3)) :: u32) = word_of_int (dec_value g3)" by simp
    with ok show ?thesis
      unfolding ngx_inet_addr_def inet_addr_groups g inet_value_def inet_groups_def
      by (auto simp: push_bit_eq_mult algebra_simps)
  next
    case False
    then have "groups_loop 0 0 0 [g0, g1, g2, g3] = None" unfolding inet_groups_def g by auto
    with False show ?thesis by (simp add: ngx_inet_addr_def inet_addr_groups g)
  qed
qed

section \<open>Dotted texts\<close>

definition dotted :: "bytes \<Rightarrow> bytes" where
  "dotted p = dec_repr (unat (p ! 0)) @ [ch_dot] @ dec_repr (unat (p ! 1)) @ [ch_dot] @ dec_repr (unat (p ! 2)) @ [ch_dot]
     @ dec_repr (unat (p ! 3))"

lemma digits_no_dot: "list_all is_digit g \<Longrightarrow> ch_dot \<notin> set g"
  by (auto simp: list_all_iff is_digit_def)

lemma dot_groups_append: "ch_dot \<notin> set g \<Longrightarrow> dot_groups (g @ ch_dot # s) = g # dot_groups s"
  by (induction g) auto

lemma dot_groups_last: "ch_dot \<notin> set g \<Longrightarrow> dot_groups g = [g]"
  by (induction g) auto

lemma dot_groups_dotted: "dot_groups (dotted p) = map (\<lambda>i. dec_repr (unat (p ! i))) [0, 1, 2, 3]"
  by (simp add: dotted_def dot_groups_append dot_groups_last digits_no_dot dec_repr_digits)

lemma unat_byte: "unat (b :: u_char) < 256"
  by simp

lemma uint_byte: "uint (b :: u_char) \<le> 255"
proof -
  have "uint b < 256" by simp
  then show ?thesis by linarith
qed

lemma dec_repr_byte: "length (dec_repr (unat (b :: u_char))) \<le> 3"
proof (rule dec_repr_length)
  show "unat b < 10 ^ 3" by (rule order.strict_trans2 [OF unat_byte]) simp
qed simp

lemma inet_addr_dotted: "ngx_inet_addr (dotted p) = htonl (word_of_nat (be32 p))"
proof -
  have "dec_value (butlast (dec_repr n)) \<le> 255" if "n < 256" for n
  proof -
    have d: "list_all is_digit (butlast (dec_repr n))" using dec_repr_digits [of n] by (auto simp: list_all_iff dest: in_set_butlastD)
    have l: "is_digit (last (dec_repr n))" using dec_repr_digits [of n] dec_repr_nonempty [of n] by (auto simp: list_all_iff)
    have "dec_value (butlast (dec_repr n) @ [last (dec_repr n)]) = int n" using dec_repr_nonempty [of n] by (simp add: dec_value_dec_repr)
    then have "dec_value (butlast (dec_repr n)) * 10 + (uint (last (dec_repr n)) - 0x30) = int n" by (simp only: dec_acc_snoc)
    with dec_value_nonneg [OF d] l that show ?thesis by (simp add: is_digit_uint)
  qed
  then have "inet_groups (dot_groups (dotted p))"
    by (simp add: inet_groups_def dot_groups_dotted dec_repr_digits dec_value_dec_repr unat_byte uint_byte)
  moreover have "inet_value (dot_groups (dotted p)) = int (be32 p)"
    by (simp add: inet_value_def dot_groups_dotted dec_value_dec_repr be32_def)
  ultimately show ?thesis unfolding inet_addr_eq by (simp del: of_nat_add)
qed

lemma next_byte: "x < k \<Longrightarrow> y < 256 \<Longrightarrow> x * 256 + y < k * (256 :: nat)"
  using mult_le_mono1 [of "x + 1" k 256] by simp

lemma two_bytes: "a < 256 \<Longrightarrow> b < 256 \<Longrightarrow> a * 256 + b < (65536 :: nat)"
  using next_byte [of a 256 b] by simp

lemma four_bytes: "a < 256 \<Longrightarrow> b < 256 \<Longrightarrow> c < 256 \<Longrightarrow> d < 256 \<Longrightarrow> ((a * 256 + b) * 256 + c) * 256 + d < (4294967296 :: nat)"
  using next_byte [of "a * 256 + b" 65536 c] next_byte [of "(a * 256 + b) * 256 + c" 16777216 d] two_bytes [of a b] by simp

lemma unat_ucast_byte:
  assumes "8 \<le> LENGTH('a::len)"
  shows "unat (ucast (b :: u_char) :: 'a word) = unat b"
proof -
  have "256 \<le> (2 :: nat) ^ LENGTH('a)" using power_increasing [OF assms, of "2 :: nat"] by simp
  with unat_byte have "unat b < 2 ^ LENGTH('a)" by (rule order.strict_trans2)
  then show ?thesis by (simp only: unsigned_ucast_eq take_bit_nat_eq_self)
qed

lemma be32_bytes: "length p = 4 \<Longrightarrow> mem32 (htonl (word_of_nat (be32 p))) = p"
proof -
  assume "length p = 4"
  then obtain a b c d where p: "p = [a, b, c, d]" by (auto simp: length_Suc_conv eval_nat_numeral)
  define x where "x = be32 p"
  have x: "x = ((unat a * 256 + unat b) * 256 + unat c) * 256 + unat d" by (simp add: x_def p be32_def)
  have "x < 4294967296" unfolding x by (intro four_bytes unat_byte)
  then have ux: "unat (word_of_nat x :: u32) = x" by (simp add: unat_of_nat)
  have u: "unat (ucast (drop_bit k (word_of_nat x :: u32)) :: u_char) = x div 2 ^ k mod 256" for k
    by (simp only: unsigned_ucast_eq unat_drop_bit_eq ux) (simp add: take_bit_eq_mod drop_bit_eq_div)
  have b: "e < 256 \<Longrightarrow> (y * 256 + e) div 256 = y \<and> (y * 256 + e) mod 256 = e" for y e :: nat by simp
  have q: "x div 256 = (unat a * 256 + unat b) * 256 + unat c" "x mod 256 = unat d" unfolding x using b [OF unat_byte] by blast+
  then have q2: "x div 256 div 256 = unat a * 256 + unat b" "x div 256 mod 256 = unat c" using b [OF unat_byte] by metis+
  then have q3: "x div 256 div 256 div 256 = unat a" "x div 256 div 256 mod 256 = unat b" using b [OF unat_byte] by metis+
  have e: "x div 2 ^ 16 = x div 256 div 256" "x div 2 ^ 24 = x div 256 div 256 div 256" by (simp_all add: div_mult2_eq [symmetric])
  have "unat (ucast (drop_bit 24 (word_of_nat x :: u32)) :: u_char) = unat a"
    "unat (ucast (drop_bit 16 (word_of_nat x :: u32)) :: u_char) = unat b"
    "unat (ucast (drop_bit 8 (word_of_nat x :: u32)) :: u_char) = unat c"
    "unat (ucast (word_of_nat x :: u32) :: u_char) = unat d"
    using u [of 24] u [of 16] u [of 8] u [of 0] unfolding e using q q2 q3 by simp_all
  then show ?thesis unfolding p mem32_htonl x_def [unfolded p, symmetric] by (simp add: word_unat_eq_iff)
qed

lemma vslprintf_ud:
  assumes "length (dec_repr (unat b)) \<le> room" "0 < room"
  shows "ngx_vslprintf D room (ch_percent # 0x75 # 0x64 # fmt) (VA_32 (ucast (b :: u_char)) # args) =
    map_option ((@) (dec_repr (unat b))) (ngx_vslprintf D (room - length (dec_repr (unat b))) fmt args)"
proof -
  have spec: "fmt_spec (VA_32 (ucast b) # args) (0x75 # 0x64 # fmt) = Some (fl0\<lparr>f_sign := False\<rparr>, VA_32 (ucast b) # args, 0x64 # fmt)"
    by (simp add: fmt_spec_def)
  have "unat b < 2 ^ 64" by (rule order.strict_trans2 [OF unat_byte]) simp
  then have u: "unat (ucast (ucast b :: u32) :: u64) = unat b"
    by (simp only: unsigned_ucast_eq [of "ucast b :: u32"] unat_ucast_byte) (simp add: take_bit_nat_eq_self unat_ucast_byte)
  have conv: "fmt_conv D room (fl0\<lparr>f_sign := False\<rparr>) (VA_32 (ucast b) # args) 0x64 = Some (take room (dec_repr (unat b)), args)"
    by (simp add: fmt_conv_def is_int_conv_def bytes_of_def fmt_int_arg_def fmt_int_uint num_repr_def u)
  from vslprintf_conv [OF spec assms(2) conv] assms(1) show ?thesis by simp
qed

lemma vslprintf_dotted:
  assumes "length p = 4" "15 \<le> room"
  shows "ngx_vslprintf D room (bytes_of ''%ud.%ud.%ud.%ud'' @ [0]) (dotted_args p) = Some (dotted p)"
proof -
  obtain a b c d where p: "p = [a, b, c, d]" using assms(1) by (auto simp: length_Suc_conv eval_nat_numeral)
  have lit: "ngx_vslprintf D room (ch_dot # fmt) args = map_option ((#) ch_dot) (ngx_vslprintf D (room - 1) fmt args)"
    if "0 < room" for fmt room and args :: "'a va_arg list" using that by simp
  show ?thesis
    using assms(2) dec_repr_byte [of a] dec_repr_byte [of b] dec_repr_byte [of c] dec_repr_byte [of d]
    by (simp add: bytes_of_def dotted_args_def dotted_def p vslprintf_ud lit option.map_comp comp_def del: ngx_vslprintf.simps(2))
      (simp add: ngx_vslprintf.simps)
qed

lemma dotted_length: "length (dotted p) \<le> 15"
  using dec_repr_byte [of "p ! 0"] dec_repr_byte [of "p ! 1"] dec_repr_byte [of "p ! 2"] dec_repr_byte [of "p ! 3"]
  by (simp add: dotted_def)

section \<open>Reading IPv6\<close>

lemma hex_lower_reads:
  assumes "k < 16"
  shows "hex_lower ! k \<noteq> ch_colon \<and> hex_lower ! k \<noteq> ch_dot
     \<and> ((hex_lower ! k \<ge> ch_0 \<and> hex_lower ! k \<le> ch_9 \<and> unat (hex_lower ! k) - 0x30 = k)
       \<or> (\<not> (hex_lower ! k \<ge> ch_0 \<and> hex_lower ! k \<le> ch_9) \<and> (hex_lower ! k OR 0x20) \<ge> ch_a \<and> (hex_lower ! k OR 0x20) \<le> ch_f
          \<and> unat (hex_lower ! k OR 0x20) - 0x61 + 10 = k))"
proof -
  have "k \<in> {0, 1, 2, 3, 4, 5, 6, 7, 8, 9, 10, 11, 12, 13, 14, 15}" using assms by simp presburger
  then show ?thesis by (elim insertE) (simp_all add: hex_lower_def bytes_of_def)
qed

lemma inet6_hex_digit:
  assumes "k < 16" "nib < 4"
  shows "inet6_loop out zero dg n nib w (hex_lower ! k # rest) = inet6_loop out zero dg n (nib + 1) (w * 16 + k) rest"
proof -
  have "\<not> nib + 1 > 4" using assms(2) by simp
  with hex_lower_reads [OF assms(1)] show ?thesis by (auto simp: Let_def add.assoc)
qed

lemma inet6_hex:
  assumes "nib + length (hex_repr hex_lower x) \<le> 4"
  shows "inet6_loop out zero dg n nib w (hex_repr hex_lower x @ rest) =
    inet6_loop out zero dg n (nib + length (hex_repr hex_lower x)) (w * 16 ^ length (hex_repr hex_lower x) + x) rest"
  using assms
proof (induction x arbitrary: rest rule: less_induct)
  case (less x)
  show ?case
  proof (cases "x < 16")
    case True
    then have h: "hex_repr hex_lower x = [hex_lower ! x]" by (subst hex_repr.simps) simp
    with less.prems True show ?thesis by (simp add: inet6_hex_digit del: inet6_loop.simps)
  next
    case False
    then have h: "hex_repr hex_lower x = hex_repr hex_lower (x div 16) @ [hex_lower ! (x mod 16)]" by (subst hex_repr.simps) simp
    have "x div 16 < x" using False by simp
    note less.IH [OF this, of "hex_lower ! (x mod 16) # rest"]
    moreover have "(w * 16 ^ k + x div 16) * 16 + x mod 16 = w * 16 ^ (k + 1) + x" for k
      by (simp add: algebra_simps)
    ultimately show ?thesis using less.prems by (simp add: h inet6_hex_digit algebra_simps del: inet6_loop.simps)
  qed
qed

text \<open>A word of two bytes and the words of an address.\<close>

definition words :: "bytes \<Rightarrow> nat list" where
  "words p = map (\<lambda>k. unat (p ! (2 * k)) * 256 + unat (p ! (2 * k + 1))) [0..<8]"

definition words_bytes :: "nat list \<Rightarrow> bytes" where
  "words_bytes ws = concat (map word_bytes ws)"

lemma word_bytes_length [simp]: "length (word_bytes w) = 2"
  by (simp add: word_bytes_def)

lemma words_bytes_length [simp]: "length (words_bytes ws) = 2 * length ws"
  by (induction ws) (simp_all add: words_bytes_def)

lemma words_bytes_append: "words_bytes (us @ ws) = words_bytes us @ words_bytes ws"
  by (simp add: words_bytes_def)

lemma words_bytes_zero: "words_bytes (replicate k 0) = replicate (2 * k) 0"
  by (induction k) (simp_all add: words_bytes_def word_bytes_def)

lemma words_bytes_one: "words_bytes [0] = [0, 0]"
  by (simp add: words_bytes_def word_bytes_def)

lemma word_bytes_pair: "word_bytes (unat a * 256 + unat b) = [a, b]"
  using unat_byte [of b] by (simp add: word_bytes_def)

lemma words_length [simp]: "length (words p) = 8"
  by (simp add: words_def)

lemma words_bytes_words: "length p = 16 \<Longrightarrow> words_bytes (words p) = p"
proof -
  assume "length p = 16"
  then obtain a b c d e f g h i j k l m n q r where p: "p = [a, b, c, d, e, f, g, h, i, j, k, l, m, n, q, r]"
    by (auto simp: length_Suc_conv eval_nat_numeral)
  have "words p = [unat a * 256 + unat b, unat c * 256 + unat d, unat e * 256 + unat f, unat g * 256 + unat h,
      unat i * 256 + unat j, unat k * 256 + unat l, unat m * 256 + unat n, unat q * 256 + unat r]"
    by (simp add: words_def p upt_rec)
  then show ?thesis unfolding words_bytes_def p by (simp only: list.map concat.simps word_bytes_pair) simp
qed

lemma words_range: "w \<in> set (words p) \<Longrightarrow> w < 65536"
proof -
  assume "w \<in> set (words p)"
  then obtain a b :: u_char where "w = unat a * 256 + unat b" by (auto simp: words_def)
  moreover have "unat a * 256 + unat b < 65536" by (intro two_bytes unat_byte)
  ultimately show ?thesis by simp
qed

definition hextext :: "nat \<Rightarrow> bytes" where
  "hextext w = hex_repr hex_lower w"

lemma hextext_length: "w < 65536 \<Longrightarrow> length (hextext w) \<le> 4 \<and> 0 < length (hextext w)"
proof -
  assume "w < 65536"
  then have "length (hextext w) \<le> 4" unfolding hextext_def by (intro hex_repr_length) simp_all
  moreover have "hextext w \<noteq> []" unfolding hextext_def by (subst hex_repr.simps) simp
  ultimately show ?thesis by simp
qed

lemma hextext_nonempty: "hextext w \<noteq> []"
  unfolding hextext_def by (subst hex_repr.simps) simp

lemma read_word:
  "w < 65536 \<Longrightarrow> inet6_loop out zero dg n 0 0 (hextext w @ rest) = inet6_loop out zero dg n (length (hextext w)) w rest"
  using hextext_length [of w] inet6_hex [of 0 w out zero dg n 0 rest] by (simp add: hextext_def)

text \<open>Words with a colon behind each.\<close>

definition colon_words :: "nat list \<Rightarrow> bytes" where
  "colon_words ws = concat (map (\<lambda>w. hextext w @ [ch_colon]) ws)"

lemma read_words:
  assumes "\<forall>w \<in> set ws. w < 65536" "length ws < n"
  shows "inet6_loop out zero dg n 0 0 (colon_words ws @ rest) =
    inet6_loop (out @ words_bytes ws) zero (if ws = [] then dg else Some rest) (n - length ws) 0 0 rest"
  using assms
proof (induction ws arbitrary: out dg n)
  case Nil
  then show ?case by (simp add: colon_words_def words_bytes_def)
next
  case (Cons w ws)
  have w: "w < 65536" using Cons.prems by simp
  let ?r = "colon_words ws @ rest"
  have "inet6_loop out zero dg n 0 0 (hextext w @ ch_colon # ?r) = inet6_loop (out @ word_bytes w) zero (Some ?r) (n - 1) 0 0 ?r"
    using Cons.prems hextext_length [OF w] by (simp add: read_word [OF w])
  also have "\<dots> = inet6_loop (out @ word_bytes w @ words_bytes ws) zero (Some rest) (n - 1 - length ws) 0 0 rest"
    using Cons.prems by (subst Cons.IH) (auto simp: colon_words_def)
  finally show ?case by (simp add: colon_words_def words_bytes_def)
qed

text \<open>The end of the text: a last word, nothing behind the double colon, or a dotted address.\<close>

definition inet6_end :: "bytes \<Rightarrow> nat option \<Rightarrow> nat \<Rightarrow> bytes option" where
  "inet6_end out zero n =
     (if n \<noteq> 0 then (case zero of Some z \<Rightarrow> Some (take z out @ replicate (2 * n) 0 @ drop z out) | None \<Rightarrow> None)
      else if zero = None then Some out else None)"

definition inet6_rest :: "(bytes \<times> nat option \<times> nat \<times> nat \<times> nat) option \<Rightarrow> bytes option" where
  "inet6_rest st =
     do { (out, zero, n, nibbles, word) \<leftarrow> st;
          if nibbles = 0 \<and> zero = None then None else inet6_end (out @ word_bytes (word mod 65536)) zero (n - 1) }"

lemma ngx_inet6_addr_eq:
  "p \<noteq> [] \<Longrightarrow> ngx_inet6_addr p = inet6_rest (inet6_loop [] None None 8 0 0 (if hd p = ch_colon then tl p else p))"
  unfolding ngx_inet6_addr_def inet6_rest_def inet6_end_def Let_def by simp

lemma read_last: "w < 65536 \<Longrightarrow> inet6_rest (inet6_loop out zero dg n 0 0 (hextext w)) = inet6_end (out @ word_bytes w) zero (n - 1)"
  using read_word [of w out zero dg n "[]"] hextext_length [of w] by (simp add: inet6_rest_def)

lemma read_nothing: "inet6_rest (inet6_loop out (Some z) dg n 0 0 []) = inet6_end (out @ [0, 0]) (Some z) (n - 1)"
  by (simp add: inet6_rest_def word_bytes_def)

lemma read_digits:
  assumes "list_all is_digit ds" "nib + length ds \<le> 4"
  shows "\<exists>w'. inet6_loop out zero dg n nib w (ds @ rest) = inet6_loop out zero dg n (nib + length ds) w' rest"
  using assms
proof (induction ds arbitrary: nib w)
  case (Cons d ds)
  then have "list_all is_digit ds" "nib + 1 + length ds \<le> 4" by simp_all
  from Cons.IH [OF this] obtain w' where "inet6_loop out zero dg n (nib + 1) (w * 16 + (unat d - 0x30)) (ds @ rest)
      = inet6_loop out zero dg n (nib + 1 + length ds) w' rest" by blast
  moreover have "d \<noteq> ch_colon" "d \<noteq> ch_dot" using Cons.prems by (auto simp: is_digit_def)
  ultimately show ?case using Cons.prems by (auto simp: is_digit_def)
qed auto

lemma read_dotted:
  assumes "length p = 4" "p \<noteq> [0xff, 0xff, 0xff, 0xff]" "2 \<le> n"
  shows "inet6_rest (inet6_loop out zero (Some (dotted p)) n 0 0 (dotted p)) = inet6_end (out @ p) zero (n - 2)"
proof -
  let ?x = "word_of_nat (be32 p) :: u32"
  obtain a b c d where p: "p = [a, b, c, d]" using assms(1) by (auto simp: length_Suc_conv eval_nat_numeral)
  have "be32 p < 4294967296" unfolding be32_def by (intro four_bytes unat_byte)
  then have u: "unat ?x = be32 p" by (simp add: unat_of_nat)
  have "mem32 (htonl 0xffffffff) = [0xff, 0xff, 0xff, 0xff]" by (simp add: mem32_def htonl_def)
  then have "?x \<noteq> 0xffffffff" using be32_bytes [OF assms(1)] assms(2) by auto
  then have addr: "ngx_inet_addr (dotted p) = htonl ?x" "htonl ?x \<noteq> INADDR_NONE" using inet_addr_dotted htonl_none by auto
  obtain r where r: "dotted p = dec_repr (unat a) @ ch_dot # r" by (simp add: dotted_def p)
  obtain w' where w: "inet6_loop out zero (Some (dotted p)) n 0 0 (dec_repr (unat a) @ ch_dot # r)
      = inet6_loop out zero (Some (dotted p)) n (length (dec_repr (unat a))) w' (ch_dot # r)"
    using read_digits [OF dec_repr_digits, of 0 "unat a" out zero "Some (dotted p)" n 0 "ch_dot # r"] dec_repr_byte [of a] by auto
  have "inet6_loop out zero (Some (dotted p)) n 0 0 (dotted p) =
      Some (out @ word_bytes (be32 p div 65536), zero, n - 1, length (dec_repr (unat a)), be32 p)"
    using addr assms(3) dec_repr_nonempty [of "unat a"] by (subst (2) r) (simp add: w u Let_def)
  moreover have "be32 p div 65536 = unat a * 256 + unat b" "be32 p mod 65536 = unat c * 256 + unat d"
  proof -
    have "unat c * 256 + unat d < 65536" by (intro two_bytes unat_byte)
    moreover have "be32 p = (unat a * 256 + unat b) * 65536 + (unat c * 256 + unat d)" by (simp add: be32_def p)
    moreover have "e < 65536 \<Longrightarrow> (y * 65536 + e) div 65536 = y \<and> (y * 65536 + e) mod 65536 = e" for y e :: nat by simp
    ultimately show "be32 p div 65536 = unat a * 256 + unat b" "be32 p mod 65536 = unat c * 256 + unat d" by metis+
  qed
  ultimately show ?thesis
    using dec_repr_nonempty [of "unat a"] by (simp add: inet6_rest_def word_bytes_pair p numeral_2_eq_2)
qed

section \<open>Printing IPv6\<close>

definition run_ok :: "nat \<Rightarrow> nat list \<Rightarrow> nat option \<times> nat option \<times> nat \<times> nat \<Rightarrow> bool" where
  "run_ok k ws = (\<lambda>(zero, last, mx, n). 1 \<le> mx
     \<and> (zero = None \<or> (\<exists>z. zero = Some (2 * z) \<and> 2 \<le> mx \<and> z + mx \<le> k \<and> (\<forall>j. z \<le> j \<and> j < z + mx \<longrightarrow> ws ! j = 0)))
     \<and> (n = 0 \<or> (\<exists>l. last = Some (2 * l) \<and> l + n = k \<and> (\<forall>j. l \<le> j \<and> j < k \<longrightarrow> ws ! j = 0))))"

lemma run_end_ok: "run_ok k ws st \<Longrightarrow> run_ok k ws (run_end st)"
  by (cases st) (auto simp: run_ok_def run_end_def)

lemma run_ok_reset: "run_ok k ws (zero, la, mx, n) \<Longrightarrow> run_ok (k + 1) ws (zero, la, mx, 0)"
  by (force simp: run_ok_def)

lemma run_ok_extend:
  "run_ok k ws (zero, la, mx, n) \<Longrightarrow> ws ! k = 0 \<Longrightarrow> run_ok (k + 1) ws (zero, if n = 0 then Some (2 * k) else la, mx, n + 1)"
  unfolding run_ok_def prod.case
  by (cases "n = 0") (force simp: less_Suc_eq)+

lemma runs_ok:
  assumes "length p = 16" "k \<le> 8" "run_ok k (words p) st"
  shows "run_ok 8 (words p) (inet6_runs (2 * k) (drop (2 * k) p) st)"
  using assms(2,3)
proof (induction "8 - k" arbitrary: k st)
  case 0
  then show ?case using assms(1) by simp
next
  case (Suc d)
  then have k: "k < 8" "d = 8 - (k + 1)" by auto
  have p: "drop (2 * k) p = p ! (2 * k) # p ! (2 * k + 1) # drop (2 * (k + 1)) p"
    using assms(1) k(1) by (simp add: Cons_nth_drop_Suc)
  have w: "words p ! k = unat (p ! (2 * k)) * 256 + unat (p ! (2 * k + 1))" using k(1) by (simp add: words_def)
  obtain zero la mx n where st: "st = (zero, la, mx, n)" by (cases st) auto
  have i: "2 * k + 2 = 2 * (k + 1)" by simp
  show ?case
  proof (cases "p ! (2 * k) \<noteq> 0 \<or> p ! (2 * k + 1) \<noteq> 0")
    case True
    obtain zero' la' mx' n' where e: "run_end st = (zero', la', mx', n')" by (cases "run_end st") auto
    have "run_ok (k + 1) (words p) (zero', la', mx', 0)"
      using run_end_ok [OF Suc.prems(2)] unfolding e by (rule run_ok_reset)
    from Suc.hyps(1) [OF k(2) _ this] k(1) True show ?thesis unfolding p by (simp add: e)
  next
    case False
    then have "run_ok (k + 1) (words p) (zero, if n = 0 then Some (2 * k) else la, mx, n + 1)"
      using Suc.prems(2) w unfolding st by (intro run_ok_extend) simp_all
    from Suc.hyps(1) [OF k(2) _ this] k(1) False show ?thesis unfolding p by (simp add: st)
  qed
qed

text \<open>The assumption on the calling convention.\<close>

definition widen_ok :: "(u32 \<Rightarrow> u64) \<Rightarrow> bool" where
  "widen_ok widen \<longleftrightarrow> (\<forall>x < 65536. widen (word_of_nat x) = word_of_nat x)"

lemma print_word:
  assumes "widen_ok widen" "4 < room"
  shows "ngx_vslprintf D room (bytes_of ''%uxi'' @ [0]) [VA_64 (widen (ucast (a :: u_char) * 256 + ucast (b :: u_char)))] = Some (hextext (unat a * 256 + unat b))"
proof -
  let ?w = "unat a * 256 + unat b"
  have w: "?w < 65536" by (intro two_bytes unat_byte)
  have "word_of_nat ?w = (ucast a * 256 + ucast b :: u32)" by (simp only: of_nat_add of_nat_mult of_nat_unat of_nat_numeral)
  then have arg: "widen (ucast a * 256 + ucast b) = word_of_nat ?w" using assms(1) w unfolding widen_ok_def by metis
  have u: "unat (word_of_nat ?w :: u64) = ?w" using w by (simp only: unat_of_nat) simp
  have spec: "fmt_spec [VA_64 (word_of_nat ?w)] (0x75 # 0x78 # 0x69 # [0]) = Some (fl0\<lparr>f_sign := False, f_hex := 1\<rparr>, [VA_64 (word_of_nat ?w)], 0x69 # [0])"
    by (simp add: fmt_spec_def)
  have "fmt_conv D room (fl0\<lparr>f_sign := False, f_hex := 1\<rparr>) [VA_64 (word_of_nat ?w)] 0x69 = Some (take room (hextext ?w), [])"
    by (simp add: fmt_conv_def is_int_conv_def bytes_of_def fmt_int_arg_def fmt_int_uint num_repr_def hextext_def u del: of_nat_add of_nat_mult)
  from vslprintf_conv [OF spec _ this] show ?thesis
    using assms(2) hextext_length [OF w] unfolding arg by (simp add: bytes_of_def del: of_nat_add of_nat_mult)
qed

definition words_from :: "nat list \<Rightarrow> nat \<Rightarrow> nat \<Rightarrow> bytes" where
  "words_from ws k n = concat (map (\<lambda>j. hextext (ws ! j) @ (if j < 7 then [ch_colon] else [])) [k..<n])"

lemma print_step:
  assumes "length p = 16" "n \<le> 8" "k < n" "zero \<noteq> Some (2 * k)" "widen_ok widen" "4 < room"
  shows "inet6_print D widen room p zero mx (2 * n) (2 * k) =
    map_option (\<lambda>r. hextext (words p ! k) @ (if k < 7 then [ch_colon] else []) @ r) (inet6_print D widen room p zero mx (2 * n) (2 * (k + 1)))"
proof -
  have "rd p (2 * k) = Some (p ! (2 * k))" "rd p (2 * k + 1) = Some (p ! (2 * k + 1))" using assms by (simp_all add: rd_def)
  moreover have "words p ! k = unat (p ! (2 * k)) * 256 + unat (p ! (2 * k + 1))" using assms by (simp add: words_def)
  ultimately show ?thesis
    using assms print_word [OF assms(5,6), where D = D]
    by (subst inet6_print.simps) (cases "inet6_print D widen room p zero mx (2 * n) (2 * (k + 1))"; simp)
qed

lemma print_plain:
  assumes "length p = 16" "n \<le> 8" "widen_ok widen" "4 < room" "\<forall>j. k \<le> j \<and> j < n \<longrightarrow> zero \<noteq> Some (2 * j)"
  shows "inet6_print D widen room p zero mx (2 * n) (2 * k) = Some (words_from (words p) k n)"
  using assms(5)
proof (induction "n - k" arbitrary: k)
  case 0
  then show ?case by (subst inet6_print.simps) (simp add: words_from_def)
next
  case (Suc d)
  then have k: "k < n" "d = n - (k + 1)" by auto
  have "inet6_print D widen room p zero mx (2 * n) (2 * (k + 1)) = Some (words_from (words p) (k + 1) n)"
    using Suc.prems k by (intro Suc.hyps(1)) auto
  moreover have "zero \<noteq> Some (2 * k)" using Suc.prems k(1) by blast
  ultimately show ?case
    using print_step [OF assms(1,2) k(1) _ assms(3,4), of zero D mx] k(1) by (simp add: words_from_def upt_conv_Cons)
qed

lemma print_zero:
  assumes "length p = 16" "n \<le> 8" "widen_ok widen" "4 < room" "k \<le> z" "z < n" "2 \<le> mx"
  shows "inet6_print D widen room p (Some (2 * z)) mx (2 * n) (2 * k) =
    Some (words_from (words p) k z @ ch_colon # words_from (words p) (z + mx) n)"
  using assms(5)
proof (induction "z - k" arbitrary: k)
  case 0
  then have k: "k = z" by simp
  have i: "Suc (Suc (2 * z + (mx - Suc 0) * 2)) = 2 * z + 2 * mx" using assms(7) by simp
  have "inet6_print D widen room p (Some (2 * z)) mx (2 * n) (2 * (z + mx)) = Some (words_from (words p) (z + mx) n)"
    using assms by (intro print_plain) auto
  then show ?case using assms(6) unfolding k by (subst inet6_print.simps) (simp add: i words_from_def)
next
  case (Suc d)
  then have k: "k < z" "d = z - (k + 1)" by auto
  then have "inet6_print D widen room p (Some (2 * z)) mx (2 * n) (2 * (k + 1)) =
      Some (words_from (words p) (k + 1) z @ ch_colon # words_from (words p) (z + mx) n)"
    by (intro Suc.hyps(1)) auto
  then show ?case
    using print_step [OF assms(1,2) _ _ assms(3,4), of k "Some (2 * z)" D mx] k assms(6) by (simp add: words_from_def upt_conv_Cons)
qed

section \<open>Round trip of IPv6\<close>

lemma hextext_no_colon: "ch_colon \<notin> set (hextext w)"
proof -
  have "hex_lower ! k \<noteq> ch_colon" if "k < 16" for k using hex_lower_reads [OF that] by blast
  then show ?thesis
    unfolding hextext_def
  proof (induction w rule: less_induct)
    case (less w)
    then show ?case by (subst hex_repr.simps) (auto dest: sym)
  qed
qed

definition slice :: "nat list \<Rightarrow> nat \<Rightarrow> nat \<Rightarrow> nat list" where
  "slice ws k n = map ((!) ws) [k..<n]"

lemma slice_length [simp]: "length (slice ws k n) = n - k"
  by (simp add: slice_def)

lemma slice_range: "length ws = 8 \<Longrightarrow> \<forall>w \<in> set ws. w < 65536 \<Longrightarrow> n \<le> 8 \<Longrightarrow> \<forall>w \<in> set (slice ws k n). w < 65536"
  by (auto simp: slice_def)

lemma words_from_colons: "n \<le> 7 \<Longrightarrow> words_from ws k n = colon_words (slice ws k n)"
  unfolding words_from_def colon_words_def slice_def by (intro arg_cong [of _ _ concat]) auto

lemma words_from_8: "k < 8 \<Longrightarrow> words_from ws k 8 = colon_words (slice ws k 7) @ hextext (ws ! 7)"
proof -
  assume "k < 8"
  then have "[k..<8] = [k..<7] @ [7]" using upt_Suc [of k 7] by simp
  then have "words_from ws k 8 = words_from ws k 7 @ hextext (ws ! 7)" by (simp add: words_from_def)
  then show ?thesis by (simp add: words_from_colons)
qed

text \<open>Reading a text with an omitted run: \<open>us\<close> are the words in front of it, \<open>ws\<close> those behind it.\<close>

lemma read_omitted:
  assumes "\<forall>w \<in> set us. w < 65536" "length us < 8"
  shows "inet6_loop [] None None 8 0 0 (colon_words us @ ch_colon # r) = inet6_loop (words_bytes us) (Some (2 * length us)) (Some r) (8 - length us) 0 0 r"
  using read_words [OF assms, of "[]" None None "ch_colon # r"] by simp

lemma read_omitted_words:
  assumes "\<forall>w \<in> set us. w < 65536" "\<forall>w \<in> set ws. w < 65536" "v < 65536" "length us + length ws \<le> 5"
  shows "inet6_rest (inet6_loop [] None None 8 0 0 (colon_words us @ ch_colon # colon_words ws @ hextext v)) =
    Some (words_bytes (us @ replicate (7 - length us - length ws) 0 @ ws @ [v]))"
  using assms read_last [OF assms(3)]
  by (simp add: read_omitted read_words inet6_end_def words_bytes_append words_bytes_zero) (simp add: words_bytes_def)

lemma read_omitted_nothing:
  assumes "\<forall>w \<in> set us. w < 65536" "length us \<le> 6"
  shows "inet6_rest (inet6_loop [] None None 8 0 0 (colon_words us @ [ch_colon])) = Some (words_bytes (us @ replicate (8 - length us) 0))"
proof -
  have e: "8 - length us = Suc (7 - length us)" using assms(2) by simp
  show ?thesis
    using assms read_omitted [of us "[]"] read_nothing
    by (simp add: inet6_end_def words_bytes_append words_bytes_zero e words_bytes_one replicate_append_same [symmetric])
qed

lemma read_omitted_dotted:
  assumes "\<forall>w \<in> set ws. w < 65536" "length ws \<le> 5" "length q = 4" "q \<noteq> [0xff, 0xff, 0xff, 0xff]"
  shows "inet6_rest (inet6_loop [] None None 8 0 0 (ch_colon # colon_words ws @ dotted q)) = Some (replicate (2 * (6 - length ws)) 0 @ words_bytes ws @ q)"
proof -
  have "inet6_loop [] None None 8 0 0 (ch_colon # colon_words ws @ dotted q)
      = inet6_loop (words_bytes ws) (Some 0) (Some (dotted q)) (8 - length ws) 0 0 (dotted q)"
    using assms(1,2) read_words [of ws 8 "[]" "Some 0" "Some (colon_words ws @ dotted q)" "dotted q"]
    by (cases "ws = []") (simp_all add: colon_words_def words_bytes_def)
  then show ?thesis
    using assms(2) read_dotted [OF assms(3,4), of "8 - length ws" "words_bytes ws" "Some 0"] by (simp add: inet6_end_def)
qed

lemma read_plain:
  assumes "\<forall>w \<in> set ws. w < 65536" "length ws = 7" "v < 65536"
  shows "inet6_rest (inet6_loop [] None None 8 0 0 (colon_words ws @ hextext v)) = Some (words_bytes (ws @ [v]))"
  using assms read_last [OF assms(3)] by (simp add: read_words inet6_end_def words_bytes_append) (simp add: words_bytes_def)

text \<open>The words of an address as slices.\<close>

lemma slice_split: "a \<le> b \<Longrightarrow> b \<le> n \<Longrightarrow> slice ws a b @ slice ws b n = slice ws a n"
  using upt_add_eq_append [of a b "n - b"] by (simp add: slice_def flip: map_append)

lemma slice_all: "length ws = 8 \<Longrightarrow> slice ws 0 8 = ws"
  unfolding slice_def by (metis map_nth)

lemma slice_zero: "\<forall>j. z \<le> j \<and> j < z + m \<longrightarrow> ws ! j = 0 \<Longrightarrow> slice ws z (z + m) = replicate m 0"
  unfolding slice_def by (intro nth_equalityI) auto

lemma slice_last: "k \<le> 7 \<Longrightarrow> slice ws k 7 @ [ws ! 7] = slice ws k 8"
  using upt_Suc [of k 7] by (simp add: slice_def)

lemma slice_run:
  assumes "length ws = 8" "z + m \<le> 8" "\<forall>j. z \<le> j \<and> j < z + m \<longrightarrow> ws ! j = 0"
  shows "slice ws 0 z @ replicate m 0 @ slice ws (z + m) 8 = ws"
  using slice_zero [OF assms(3)] slice_split [of z "z + m" 8 ws] slice_split [of 0 z 8 ws] slice_all [OF assms(1)] assms(2) by simp

text \<open>A leading colon is skipped, for an omitted run at the start.\<close>

lemma inet6_text:
  assumes "us \<noteq> [] \<or> t = ch_colon # s" "us = [] \<or> t = s" "s = colon_words us @ r"
  shows "ngx_inet6_addr t = inet6_rest (inet6_loop [] None None 8 0 0 s)"
proof (cases us)
  case Nil
  with assms show ?thesis by (simp add: ngx_inet6_addr_eq)
next
  case (Cons w us')
  obtain c cs where c: "hextext w = c # cs" using hextext_nonempty [of w] by (cases "hextext w") auto
  then have "c \<noteq> ch_colon" using hextext_no_colon [of w] by auto
  then show ?thesis using assms by (simp add: ngx_inet6_addr_eq Cons colon_words_def c)
qed

lemma inet6_roundtrip_main:
  assumes "length p = 16" "widen_ok widen" "15 \<le> room" "NGX_INET6_ADDRSTRLEN \<le> len"
    and "\<not> (take 10 p = replicate 10 0 \<and> drop 12 p = [0xff, 0xff, 0xff, 0xff])"
  shows "\<exists>t. ngx_inet6_ntop D widen room p len = Some t \<and> ngx_inet6_addr t = Some p"
proof -
  define ws where "ws = words p"
  have ws: "length ws = 8" "\<forall>w \<in> set ws. w < 65536" "words_bytes ws = p"
    using words_range words_bytes_words [OF assms(1)] by (auto simp: ws_def)
  have w7: "ws ! 7 < 65536" using ws(1,2) by simp
  note range = slice_range [OF ws(1,2)]
  have room: "4 < room" using assms(3) by simp
  obtain zero la mx n0 where st: "run_end (inet6_runs 0 p (None, None, 1, 0)) = (zero, la, mx, n0)"
    by (cases "run_end (inet6_runs 0 p (None, None, 1, 0))") auto
  have "run_ok 8 ws (zero, la, mx, n0)"
    using run_end_ok [OF runs_ok [OF assms(1), of 0 "(None, None, 1, 0)"]] st by (simp add: ws_def run_ok_def)
  then have zero: "zero = None \<or> (\<exists>z. zero = Some (2 * z) \<and> 2 \<le> mx \<and> z + mx \<le> 8 \<and> (\<forall>j. z \<le> j \<and> j < z + mx \<longrightarrow> ws ! j = 0))"
    by (simp add: run_ok_def)
  define V where "V = (zero = Some 0 \<and> (mx = 5 \<and> p ! 10 = 0xff \<and> p ! 11 = 0xff \<or> mx = 6 \<or> mx = 7 \<and> p ! 14 \<noteq> 0 \<and> p ! 15 \<noteq> 1))"
  have rds: "rd p 10 = Some (p ! 10)" "rd p 11 = Some (p ! 11)" "rd p 14 = Some (p ! 14)" "rd p 15 = Some (p ! 15)"
    using assms(1) by (simp_all add: rd_def)
  have ntop: "ngx_inet6_ntop D widen room p len = do {
      t \<leftarrow> inet6_print D widen room p zero mx (if V then 12 else 16) 0;
      d \<leftarrow> (if V then Some (dotted (drop 12 p)) else Some []);
      Some ((if zero = Some 0 then [ch_colon] else []) @ t @ d) }"
  proof -
    have "take 4 (drop 12 p) = drop 12 p" "length (drop 12 p) = 4" using assms(1) by simp_all
    then show ?thesis
      using assms(4) vslprintf_dotted [OF _ assms(3), of "drop 12 p" D]
      unfolding ngx_inet6_ntop_def st rds Let_def prod.case bind.simps V_def [symmetric] by simp
  qed
  consider (none) "zero = None" | (dot) z where "zero = Some (2 * z)" "2 \<le> mx" "z + mx \<le> 8" "\<forall>j. z \<le> j \<and> j < z + mx \<longrightarrow> ws ! j = 0" "V"
    | (run) z where "zero = Some (2 * z)" "2 \<le> mx" "z + mx \<le> 8" "\<forall>j. z \<le> j \<and> j < z + mx \<longrightarrow> ws ! j = 0" "\<not> V"
    using zero by blast
  then show ?thesis
  proof cases
    case none
    let ?t = "colon_words (slice ws 0 7) @ hextext (ws ! 7)"
    have "inet6_print D widen room p zero mx (2 * 8) (2 * 0) = Some (words_from ws 0 8)"
      unfolding ws_def by (rule print_plain) (use assms none room in auto)
    then have "ngx_inet6_ntop D widen room p len = Some ?t" using none by (simp add: ntop V_def words_from_8)
    moreover have "slice ws 0 7 \<noteq> []" by (simp add: slice_def)
    then have "ngx_inet6_addr ?t = Some (words_bytes (slice ws 0 7 @ [ws ! 7]))"
      using read_plain [of "slice ws 0 7" "ws ! 7"] range [of 7 0] w7 by (subst inet6_text [where us = "slice ws 0 7"]) auto
    ultimately show ?thesis using slice_last [of 0 ws] slice_all [OF ws(1)] ws(3) by simp
  next
    case dot
    then have z: "z = 0" and mx: "5 \<le> mx" "mx \<le> 7" by (auto simp: V_def)
    let ?q = "drop 12 p" and ?t = "ch_colon # colon_words (slice ws mx 6) @ dotted (drop 12 p)"
    have "inet6_print D widen room p (Some (2 * z)) mx (2 * 6) (2 * 0) = Some (words_from ws 0 z @ ch_colon # words_from ws (z + mx) 6)"
      unfolding ws_def by (rule print_zero) (use assms room dot z in auto)
    then have "ngx_inet6_ntop D widen room p len = Some (ch_colon # ?t)"
      using dot z by (simp add: ntop words_from_colons) (simp add: colon_words_def slice_def)
    moreover have t12: "replicate (2 * (6 - length (slice ws mx 6))) 0 @ words_bytes (slice ws mx 6) = take 12 p"
    proof -
      have "ws = slice ws 0 6 @ slice ws 6 8" using slice_split [of 0 6 8 ws] slice_all [OF ws(1)] by simp
      then have "p = words_bytes (slice ws 0 6) @ words_bytes (slice ws 6 8)" using ws(3) words_bytes_append by metis
      then have t: "take 12 p = words_bytes (slice ws 0 6)" by simp
      have "slice ws 0 6 = replicate (min 6 mx) 0 @ slice ws (min 6 mx) 6"
        using slice_zero [of 0 "min 6 mx" ws] slice_split [of 0 "min 6 mx" 6 ws] dot(4) z by simp
      moreover have "slice ws (min 6 mx) 6 = slice ws mx 6" using mx(2) by (cases "mx \<le> 6") (simp_all add: slice_def)
      moreover have "6 - (6 - mx) = min 6 mx" by simp
      ultimately show ?thesis by (simp add: t words_bytes_append words_bytes_zero)
    qed
    moreover have "?q \<noteq> [0xff, 0xff, 0xff, 0xff]"
    proof -
      have "ws = replicate 5 0 @ slice ws 5 8" using slice_run [OF ws(1), of 0 5] dot(4) mx(1) z by (simp add: slice_def [of ws 0 0])
      then have "p = words_bytes (replicate 5 0 @ slice ws 5 8)" using ws(3) by metis
      then have "p = replicate 10 0 @ words_bytes (slice ws 5 8)" by (simp add: words_bytes_append words_bytes_zero)
      then have "take 10 p = replicate 10 0" by (metis append_eq_conv_conj length_replicate)
      with assms(5) show ?thesis by blast
    qed
    then have "inet6_rest (inet6_loop [] None None 8 0 0 ?t) = Some (replicate (2 * (6 - length (slice ws mx 6))) 0 @ words_bytes (slice ws mx 6) @ ?q)"
      using range [of 6 mx] assms(1) mx(1) by (intro read_omitted_dotted) auto
    moreover have "ngx_inet6_addr (ch_colon # ?t) = inet6_rest (inet6_loop [] None None 8 0 0 ?t)"
      by (rule inet6_text [where us = "[]" and r = ?t]) (simp_all add: colon_words_def)
    ultimately show ?thesis by (metis append.assoc append_take_drop_id)
  next
    case run
    let ?u = "slice ws 0 z" and ?pre = "if z = 0 then [ch_colon] else []"
    have z8: "z < 8" "z \<le> 7" using run by auto
    have "inet6_print D widen room p (Some (2 * z)) mx (2 * 8) (2 * 0) = Some (words_from ws 0 z @ ch_colon # words_from ws (z + mx) 8)"
      unfolding ws_def by (rule print_zero) (use assms room run in auto)
    then have ntop': "ngx_inet6_ntop D widen room p len = Some (?pre @ colon_words ?u @ ch_colon # words_from ws (z + mx) 8)"
      using run z8 by (simp add: ntop words_from_colons)
    have addr: "ngx_inet6_addr (?pre @ colon_words ?u @ ch_colon # words_from ws (z + mx) 8)
        = inet6_rest (inet6_loop [] None None 8 0 0 (colon_words ?u @ ch_colon # words_from ws (z + mx) 8))"
      by (rule inet6_text [where us = ?u and r = "ch_colon # words_from ws (z + mx) 8"]) (auto simp: slice_def)
    have wsr: "?u @ replicate mx 0 @ slice ws (z + mx) 8 = ws" using run by (intro slice_run ws(1)) auto
    have "inet6_rest (inet6_loop [] None None 8 0 0 (colon_words ?u @ ch_colon # words_from ws (z + mx) 8)) = Some (words_bytes ws)"
    proof (cases "z + mx = 8")
      case True
      then have e: "words_from ws (z + mx) 8 = []" "slice ws (z + mx) 8 = []" "mx = 8 - z" by (simp_all add: words_from_def slice_def)
      have "?u @ replicate (8 - z) 0 = ws" using wsr e by simp
      moreover have "words_from ws 8 8 = []" by (simp add: words_from_def)
      moreover have "z \<le> 6" using True run by simp
      moreover have "length ?u = z" using ws(1) z8 by (simp add: slice_def)
      ultimately show ?thesis using read_omitted_nothing [of ?u] range [of z 0] run z8 unfolding True by simp
    next
      case False
      then have m: "z + mx \<le> 7" using run by simp
      have "7 - z - (7 - (z + mx)) = mx" using m by simp
      then show ?thesis
        using read_omitted_words [of ?u "slice ws (z + mx) 7" "ws ! 7"] range [of z 0] range [of 7 "z + mx"] w7 m run wsr slice_last [OF m, of ws]
        by (simp add: words_from_8)
    qed
    then show ?thesis using ntop' addr ws(3) by simp
  qed
qed

section \<open>The bits of an address\<close>

text \<open>The \<open>k\<close>-th bit of an address in network order, and addresses that agree in the first \<open>n\<close> bits.\<close>

definition addr_bit :: "bytes \<Rightarrow> nat \<Rightarrow> bool" where
  "addr_bit p k = bit (p ! (k div 8)) (7 - k mod 8)"

definition same_prefix :: "nat \<Rightarrow> bytes \<Rightarrow> bytes \<Rightarrow> bool" where
  "same_prefix n p q \<longleftrightarrow> (\<forall>k < n. addr_bit p k = addr_bit q k)"

lemma addr_bit_mem32: "k < 32 \<Longrightarrow> addr_bit (mem32 x) k = bit x (8 * (k div 8) + (7 - k mod 8))"
  by (drule below_32) (elim insertE; simp add: addr_bit_def mem32_def bit_ucast_iff bit_drop_bit_eq numeral_2_eq_2 [symmetric] numeral_3_eq_3 [symmetric])

lemma mem32_length [simp]: "length (mem32 x) = 4"
  by (simp add: mem32_def)

lemma mem32_eqI:
  assumes "\<And>k. k < 32 \<Longrightarrow> addr_bit (mem32 x) k = addr_bit (mem32 y) k"
  shows "x = y"
proof (rule word32_eqI)
  fix n :: nat
  assume n: "n < 32"
  have "bit x n = addr_bit (mem32 x) (8 * (n div 8) + (7 - n mod 8))" for x
    using below_32 [OF n] by (elim insertE; simp add: addr_bit_mem32 numeral_2_eq_2 [symmetric] numeral_3_eq_3 [symmetric])
  moreover have "8 * (n div 8) + (7 - n mod 8) < 32" using below_32 [OF n] by (elim insertE; simp)
  ultimately show "bit x n = bit y n" using assms by metis
qed

lemma mem32_inj: "mem32 x = mem32 y \<longleftrightarrow> x = y"
  using mem32_eqI [of x y] by auto

lemma be32_mem32: "htonl (word_of_nat (be32 (mem32 a))) = a"
  using be32_bytes [of "mem32 a"] by (simp add: mem32_inj)

lemma inet6_loop_length:
  assumes "inet6_loop out zero dg n nib w s = Some (out', zero', n', nib', w')" "length out + 2 * n = 16" "1 \<le> n"
  shows "length out' + 2 * n' = 16 \<and> 1 \<le> n'"
  using assms
  by (induction out zero dg n nib w s rule: inet6_loop.induct)
    (auto simp: word_bytes_def Let_def split: if_split_asm option.split_asm)

lemma inet6_length: "ngx_inet6_addr s = Some p \<Longrightarrow> length p = 16"
proof -
  assume a: "ngx_inet6_addr s = Some p"
  then obtain out zero n nib w where l: "inet6_loop [] None None 8 0 0 (if hd s = ch_colon then tl s else s) = Some (out, zero, n, nib, w)"
    by (auto simp: ngx_inet6_addr_def bind_eq_Some_conv split: if_split_asm)
  have "length out + 2 * n = 16 \<and> 1 \<le> n" by (rule inet6_loop_length [OF l]) simp_all
  with a l show ?thesis by (auto simp: ngx_inet6_addr_def word_bytes_def Let_def split: if_split_asm option.split_asm)
qed

lemma inet_addr_colon: "ch_colon \<in> set s \<Longrightarrow> ngx_inet_addr s = INADDR_NONE"
proof -
  have "inet_addr_loop addr octet n s = None" if "ch_colon \<in> set s" for addr octet n
    using that by (induction addr octet n s rule: inet_addr_loop.induct) auto
  then show "ch_colon \<in> set s \<Longrightarrow> ngx_inet_addr s = INADDR_NONE" by (simp add: ngx_inet_addr_def)
qed

lemma inet6_loop_no_colon:
  assumes "inet6_loop out zero dg n nib w s = Some (out', zero', n', nib', w')" "ch_colon \<notin> set s" "zero = None" "dg = None"
  shows "zero' = None \<and> n' = n"
  using assms by (induction out zero dg n nib w s rule: inet6_loop.induct) (auto simp: Let_def split: if_split_asm)

lemma inet6_addr_colon: "ngx_inet6_addr s = Some p \<Longrightarrow> ch_colon \<in> set s"
proof (rule ccontr)
  assume a: "ngx_inet6_addr s = Some p" and no: "ch_colon \<notin> set s"
  then have ne: "s \<noteq> []" by (auto simp: ngx_inet6_addr_def)
  then have h: "hd s \<noteq> ch_colon" using no by (metis list.set_sel(1))
  with a ne obtain out zero n nib w where l: "inet6_loop [] None None 8 0 0 s = Some (out, zero, n, nib, w)"
    by (auto simp: ngx_inet6_addr_def bind_eq_Some_conv)
  have "zero = None \<and> n = 8" by (rule inet6_loop_no_colon [OF l no]) simp_all
  with a l ne h show False by (simp add: ngx_inet6_addr_def Let_def split: if_split_asm)
qed

lemma inet6_print_length:
  assumes "inet6_print D widen room p zero mx n i = Some t" "widen_ok widen" "4 < room"
  shows "length t \<le> 5 * ((n - i + 1) div 2)"
  using assms(1)
proof (induction "n - i" arbitrary: i t rule: less_induct)
  case less
  show ?case
  proof (cases "i < n")
    case False
    then show ?thesis using less.prems by (simp add: inet6_print.simps)
  next
    case i: True
    have half: "x + 2 \<le> y \<Longrightarrow> 5 * ((x + 1) div 2) + 5 \<le> 5 * ((y + 1) div 2)" for x y :: nat
    proof -
      assume "x + 2 \<le> y"
      then have "(x + 3) div 2 \<le> (y + 1) div 2" by (intro div_le_mono) simp
      moreover have "(x + 3) div 2 = (x + 1) div 2 + 1" by simp
      ultimately show ?thesis by linarith
    qed
    have later: "5 * ((n - k + 1) div 2) + 5 \<le> 5 * ((n - i + 1) div 2)" if "i + 2 \<le> k" for k
      using i that half [of "n - k" "n - i"] by (cases "k \<le> n") auto
    show ?thesis
    proof (cases "zero = Some i")
      case True
      with less.prems i obtain r where r: "t = ch_colon # r" "inet6_print D widen room p zero mx n (i + (mx - 1) * 2 + 2) = Some r"
        by (subst (asm) inet6_print.simps) auto
      have "length r \<le> 5 * ((n - (i + (mx - 1) * 2 + 2) + 1) div 2)" by (rule less.hyps [OF _ r(2)]) (use i in simp)
      then show ?thesis using later [of "i + (mx - 1) * 2 + 2"] by (simp add: r(1))
    next
      case False
      from less.prems i False have "\<exists>a b r. t = hextext (unat (a :: u_char) * 256 + unat (b :: u_char)) @ (if i < 14 then [ch_colon] else []) @ r
          \<and> inet6_print D widen room p zero mx n (i + 2) = Some r"
        unfolding inet6_print.simps [of D widen room p zero mx n i]
        by (simp only: if_True if_False bind_eq_Some_conv print_word [OF assms(2,3)] option.inject) metis
      then obtain r a b where r: "t = hextext (unat (a :: u_char) * 256 + unat (b :: u_char)) @ (if i < 14 then [ch_colon] else []) @ r"
        "inet6_print D widen room p zero mx n (i + 2) = Some r" by blast
      have "length (hextext (unat a * 256 + unat b)) \<le> 4" using two_bytes [OF unat_byte unat_byte] hextext_length by blast
      moreover have "length r \<le> 5 * ((n - (i + 2) + 1) div 2)" by (rule less.hyps [OF _ r(2)]) (use i in simp)
      ultimately show ?thesis using later [of "i + 2"] i by (simp add: r(1))
    qed
  qed
qed

lemma inet6_ntop_length:
  assumes "ngx_inet6_ntop D widen room p len = Some t" "length p = 16" "widen_ok widen" "15 \<le> room"
  shows "length t \<le> 45"
proof (cases "len < NGX_INET6_ADDRSTRLEN")
  case True
  then show ?thesis using assms(1) by (simp add: ngx_inet6_ntop_def)
next
  case False
  obtain zero lst mx k where z: "run_end (inet6_runs 0 p (None, None, 1, 0)) = (zero, lst, mx, k)" by (cases "run_end (inet6_runs 0 p (None, None, 1, 0))") auto
  have "length (drop 12 p) = 4" using assms(2) by simp
  then have d: "ngx_vslprintf D room (bytes_of ''%ud.%ud.%ud.%ud'' @ [0]) (dotted_args (take 4 (drop 12 p))) = Some (dotted (drop 12 p))"
    using vslprintf_dotted [of "drop 12 p" room D] assms(4) by simp
  obtain n u v where t: "t = (if zero = Some 0 then [ch_colon] else []) @ u @ v" "inet6_print D widen room p zero mx n 0 = Some u"
    "n = 16 \<and> v = [] \<or> n = 12 \<and> v = dotted (drop 12 p) \<and> zero = Some 0 \<and> 5 \<le> mx"
  proof -
    obtain C where C: "do { t \<leftarrow> inet6_print D widen room p zero mx (if C then 12 else 16) 0;
          d \<leftarrow> if (if C then 12 else 16) = (12 :: nat) then Some (dotted (drop 12 p)) else Some [];
          Some ((if zero = Some 0 then [ch_colon] else []) @ t @ d) } = Some t" "C \<Longrightarrow> zero = Some 0 \<and> 5 \<le> mx"
      using assms(1) False unfolding ngx_inet6_ntop_def z Let_def d by (fastforce simp: bind_eq_Some_conv)
    then show thesis
      by (cases C) (auto simp: bind_eq_Some_conv intro: that)
  qed
  have room: "4 < room" using assms(4) by simp
  have "length u \<le> 40" "n = 12 \<Longrightarrow> length u \<le> 6"
  proof -
    show "length u \<le> 40" using inet6_print_length [OF t(2) assms(3) room] t(3) by auto
    assume n: "n = 12"
    then have m: "zero = Some 0" "5 \<le> mx" using t(3) by auto
    then obtain r where r: "u = ch_colon # r" "inet6_print D widen room p zero mx n ((mx - 1) * 2 + 2) = Some r"
      using t(2) n by (subst (asm) inet6_print.simps) auto
    show "length u \<le> 6" using inet6_print_length [OF r(2) assms(3) room] m n by (simp add: r(1))
  qed
  then show ?thesis using t(1,3) dotted_length [of "drop 12 p"] by auto
qed

lemma inet4_roundtrip: "15 \<le> len \<Longrightarrow> \<exists>t. ngx_inet_ntop4 D a len = Some t \<and> ngx_inet_addr t = a \<and> length t \<le> 15"
  by (simp add: ngx_inet_ntop4_def ngx_snprintf_def vslprintf_dotted inet_addr_dotted be32_mem32 dotted_length)


section \<open>The properties of addresses\<close>

text \<open>The address that \<^verbatim>\<open>ngx_parse_addr\<close> makes of the text of an address, which has no port.\<close>

fun port0 :: "sockaddr_t \<Rightarrow> sockaddr_t" where
  "port0 (Sockaddr_in a _) = Sockaddr_in a 0"
| "port0 (Sockaddr_in6 p _) = Sockaddr_in6 p 0"
| "port0 sa = sa"

fun readable :: "sockaddr_t \<Rightarrow> bool" where
  "readable (Sockaddr_in a _) \<longleftrightarrow> a \<noteq> INADDR_NONE"
| "readable (Sockaddr_in6 p _) \<longleftrightarrow> length p = 16 \<and> \<not> (take 10 p = replicate 10 0 \<and> drop 12 p = [0xff, 0xff, 0xff, 0xff])"
| "readable _ \<longleftrightarrow> False"

lemma sock_roundtrip:
  assumes "readable sa" "widen_ok widen" "15 \<le> room" "NGX_INET6_ADDRSTRLEN \<le> len"
  shows "\<exists>t. ngx_sock_ntop D widen room sa len False = Some t \<and> length t \<le> len \<and> ngx_parse_addr True t = Inr (port0 sa)"
proof (cases sa)
  case (Sockaddr_in a port)
  have "15 \<le> len" using assms(4) by (simp add: NGX_INET6_ADDRSTRLEN_def)
  with Sockaddr_in assms(1) show ?thesis using dotted_length [of "mem32 a"]
    by (simp add: ngx_sock_ntop_def ngx_snprintf_def vslprintf_dotted ngx_parse_addr_def inet_addr_dotted be32_mem32)
next
  case (Sockaddr_in6 p port)
  then obtain t where t: "ngx_inet6_ntop D widen room p len = Some t" "ngx_inet6_addr t = Some p"
    using assms inet6_roundtrip_main [of p widen room len D] by auto
  have "length t \<le> len" using inet6_ntop_length [OF t(1)] assms Sockaddr_in6 by (simp add: NGX_INET6_ADDRSTRLEN_def)
  moreover have "ngx_inet_addr t = INADDR_NONE" by (rule inet_addr_colon [OF inet6_addr_colon [OF t(2)]])
  ultimately show ?thesis using t Sockaddr_in6 by (simp add: ngx_sock_ntop_def ngx_parse_addr_def)
qed (use assms(1) in auto)

text \<open>
  C18. The text that \<^verbatim>\<open>ngx_sock_ntop\<close> prints for an IPv4 or IPv6 address fits the buffer and is read back
  by \<^verbatim>\<open>ngx_parse_addr\<close> as the same address (with port 0), when the upper half of each \<^verbatim>\<open>%uxi\<close> argument is
  zero, for every address but 255.255.255.255 and the IPv6 addresses that end in it behind a \<open>::\<close> prefix,
  whose text the reader takes for an error.
\<close>

theorem addr_roundtrip:
  assumes "readable sa" "widen_ok widen" "15 \<le> room" "NGX_INET6_ADDRSTRLEN \<le> len"
  shows "\<exists>t. ngx_sock_ntop D widen room sa len False = Some t \<and> length t \<le> len \<and> ngx_parse_addr True t = Inr (port0 sa)"
  using assms by (rule sock_roundtrip)

definition loopback6 :: bytes where
  "loopback6 = replicate 15 0 @ [1]"

theorem addr_roundtrip_witness:
  "\<exists>t. ngx_sock_ntop zero_double ucast 4096 (Sockaddr_in6 loopback6 8080) 45 False = Some t \<and> length t \<le> 45
     \<and> ngx_parse_addr True t = Inr (Sockaddr_in6 loopback6 0)"
proof -
  have "readable (Sockaddr_in6 loopback6 8080)" by code_simp
  moreover have "widen_ok (ucast :: u32 \<Rightarrow> u64)" by (auto simp: widen_ok_def unsigned_of_nat take_bit_nat_eq_self)
  ultimately show ?thesis using addr_roundtrip [of "Sockaddr_in6 loopback6 8080" ucast 4096 45 zero_double]
    by (simp add: NGX_INET6_ADDRSTRLEN_def)
qed

text \<open>The last group of digits is not checked, an empty group is zero, and the broadcast address is refused.\<close>

lemma inet_addr_oddities:
  "mem32 (ngx_inet_addr (bytes_of ''1.2.3.256'')) = [1, 2, 4, 0]"
  "mem32 (ngx_inet_addr (bytes_of ''1...'')) = [1, 0, 0, 0]"
  "ngx_inet_addr (bytes_of ''255.255.255.255'') = INADDR_NONE"
  by code_simp+

text \<open>With other bits in the upper half of the arguments of \<^verbatim>\<open>%uxi\<close>, the text overruns the 45 bytes that it has.\<close>

lemma inet6_ntop_wide:
  "map_option length (ngx_inet6_ntop zero_double (\<lambda>x. 0xffffffff00000000 OR ucast x) 4096 (replicate 16 0x11) 45) = Some 135"
  by code_simp

end
