(* ===== verification/Ngx_Cidr.thy ===== *)
theory Ngx_Cidr
  imports Ngx_Inet
begin

text \<open>
  CIDR blocks (\<^verbatim>\<open>ngx_ptocidr\<close> of \<^verbatim>\<open>ngx_inet.c\<close>): their texts, the address and mask that are stored for them, and
  the proof that these hold of exactly the addresses in the block.
\<close>

section \<open>CIDR blocks\<close>

datatype cidr = Cidr4 u32 u32 | Cidr6 bytes bytes

text \<open>The loop over the bytes of an IPv6 address: the masked address, the mask, and whether a bit was cleared.\<close>

fun cidr6_loop :: "int \<Rightarrow> bytes \<Rightarrow> bytes \<times> bytes \<times> bool" where
  "cidr6_loop shift [] = ([], [], False)"
| "cidr6_loop shift (a # addr) =
     (let s = (if shift > 8 then 8 else shift);
          m = push_bit (nat (8 - s)) 0xff;
          (as, ms, cleared) = cidr6_loop (shift - s) addr in
      ((if a \<noteq> a AND m then a AND m else a) # as, m # ms, a \<noteq> a AND m \<or> cleared))"

definition ngx_ptocidr :: "bytes \<Rightarrow> (int + (int \<times> cidr)) option" where
  "ngx_ptocidr text =
     do { slash \<leftarrow> ngx_strlchr text (length text) ch_slash;
          let addr = (case slash of None \<Rightarrow> text | Some i \<Rightarrow> take i text);
          let a4 = ngx_inet_addr addr;
          let a6 = ngx_inet6_addr addr;
          if a4 = INADDR_NONE \<and> a6 = None then Some (Inl NGX_ERROR)
          else
            (case slash of
               None \<Rightarrow>
                 Some (Inr (NGX_OK, if a4 \<noteq> INADDR_NONE then Cidr4 a4 0xffffffff else Cidr6 (the a6) (replicate 16 0xff)))
             | Some i \<Rightarrow>
                 do { shift \<leftarrow> ngx_atoi (drop (i + 1) text);
                      if shift = NGX_ERROR then Some (Inl NGX_ERROR)
                      else if a4 = INADDR_NONE then
                        if shift > 128 then Some (Inl NGX_ERROR)
                        else
                          (let (as, ms, cleared) = cidr6_loop shift (the a6) in
                           Some (Inr (if cleared then NGX_DONE else NGX_OK, Cidr6 as ms)))
                      else if shift > 32 then Some (Inl NGX_ERROR)
                      else
                        (let mask = (if shift \<noteq> 0 then htonl (push_bit (nat (32 - shift)) 0xffffffff) else 0) in
                         if a4 = a4 AND mask then Some (Inr (NGX_OK, Cidr4 a4 mask))
                         else Some (Inr (NGX_DONE, Cidr4 (a4 AND mask) mask))) }) }"

section \<open>Blocks as sets of addresses\<close>

text \<open>Masking an IPv4 address.\<close>

lemma mask4_bit:
  assumes "n \<le> 32" "k < 32"
  shows "addr_bit (mem32 (if n \<noteq> 0 then htonl (push_bit (32 - n) 0xffffffff) else 0)) k \<longleftrightarrow> k < n"
proof -
  have one: "bit (0xffffffff :: u32) i \<longleftrightarrow> i < 32" for i
  proof -
    have "(0xffffffff :: u32) = - 1" by simp
    then show ?thesis by (simp only: bit_minus_1_iff possible_bit_word) simp
  qed
  have j: "8 * (k div 8) + (7 - k mod 8) < 32" "8 * (3 - (8 * (k div 8) + (7 - k mod 8)) div 8) + (8 * (k div 8) + (7 - k mod 8)) mod 8 = 31 - k"
    using below_32 [OF assms(2)] by (elim insertE; simp)+
  show ?thesis
  proof (cases "n = 0")
    case True
    then show ?thesis using assms(2) by (simp add: addr_bit_mem32)
  next
    case False
    define i where "i = 8 * (k div 8) + (7 - k mod 8)"
    have "addr_bit (mem32 (htonl (push_bit (32 - n) 0xffffffff))) k = bit (push_bit (32 - n) 0xffffffff :: u32) (31 - k)"
      using addr_bit_mem32 [OF assms(2)] bit_htonl [of i] j unfolding i_def by metis
    also have "\<dots> \<longleftrightarrow> 32 - n \<le> 31 - k \<and> 31 - k < LENGTH(32) \<and> 31 - k - (32 - n) < 32"
      unfolding bit_push_bit_iff one possible_bit_word by blast
    also have "\<dots> \<longleftrightarrow> k < n" using assms False by auto
    finally show ?thesis using False by (simp only: if_True not_False_eq_True)
  qed
qed

lemma addr_bit_and: "k < 32 \<Longrightarrow> addr_bit (mem32 (x AND y)) k = (addr_bit (mem32 x) k \<and> addr_bit (mem32 y) k)"
  by (simp add: addr_bit_mem32 bit_and_iff)

lemma mask4_match:
  assumes "n \<le> 32" "m = (if n \<noteq> 0 then htonl (push_bit (32 - n) 0xffffffff) else 0)"
  shows "x AND m = a AND m \<longleftrightarrow> same_prefix n (mem32 x) (mem32 a)"
proof
  assume e: "x AND m = a AND m"
  have "addr_bit (mem32 x) k = addr_bit (mem32 a) k" if "k < n" for k
  proof -
    have k: "k < 32" using that assms(1) by simp
    then have "addr_bit (mem32 m) k" using that assms mask4_bit [OF assms(1) k] by simp
    then show ?thesis using arg_cong [OF e, of "\<lambda>z. addr_bit (mem32 z) k"] k by (simp add: addr_bit_and)
  qed
  then show "same_prefix n (mem32 x) (mem32 a)" by (simp add: same_prefix_def)
next
  assume "same_prefix n (mem32 x) (mem32 a)"
  then show "x AND m = a AND m"
    using mask4_bit [OF assms(1)] by (intro mem32_eqI) (auto simp: addr_bit_and assms(2) same_prefix_def)
qed

text \<open>Masking an IPv6 address.\<close>

definition mask_byte :: "nat \<Rightarrow> u_char" where
  "mask_byte s = push_bit (8 - s) 0xff"

lemma mask_byte_bit: "s \<le> 8 \<Longrightarrow> i < 8 \<Longrightarrow> bit (mask_byte s) i \<longleftrightarrow> 8 - s \<le> i"
proof -
  assume a: "s \<le> 8" "i < 8"
  have f: "bit (0xff :: u_char) j \<longleftrightarrow> j < 8" for j
  proof -
    have "(0xff :: u_char) = - 1" by simp
    then show ?thesis by (simp only: bit_minus_1_iff possible_bit_word) simp
  qed
  have "bit (mask_byte s) i \<longleftrightarrow> 8 - s \<le> i \<and> i < LENGTH(8) \<and> i - (8 - s) < 8"
    unfolding mask_byte_def bit_push_bit_iff f possible_bit_word by blast
  also have "\<dots> \<longleftrightarrow> 8 - s \<le> i" using a by auto
  finally show ?thesis .
qed

lemma cidr6_step:
  assumes "cidr6_loop (int (n - min 8 n)) p = (as, ms, cl)"
  shows "cidr6_loop (int n) (a # p) = ((a AND mask_byte (min 8 n)) # as, mask_byte (min 8 n) # ms, a \<noteq> a AND mask_byte (min 8 n) \<or> cl)"
proof -
  define s where "s = min 8 n"
  have s: "(if int n > 8 then 8 else int n) = int s" "int n - int s = int (n - s)" "nat (8 - int s) = 8 - s" by (auto simp: s_def)
  show ?thesis unfolding cidr6_loop.simps s Let_def s assms [folded s_def] by (simp add: mask_byte_def s_def [symmetric])
qed

lemma cidr6_loop_eq:
  assumes "n \<le> 8 * length p"
  shows "fst (cidr6_loop (int n) p) = map2 (AND) p (fst (snd (cidr6_loop (int n) p)))
     \<and> fst (snd (cidr6_loop (int n) p)) = map (\<lambda>i. mask_byte (min 8 (n - 8 * i))) [0..<length p]"
  using assms
proof (induction p arbitrary: n)
  case (Cons a p)
  define s where "s = min 8 n"
  obtain as ms cl where r: "cidr6_loop (int (n - min 8 n)) p = (as, ms, cl)" by (cases "cidr6_loop (int (n - min 8 n)) p") auto
  have "n - min 8 n \<le> 8 * length p" using Cons.prems by auto
  from Cons.IH [OF this] r have ih: "as = map2 (AND) p ms" "ms = map (\<lambda>i. mask_byte (min 8 (n - s - 8 * i))) [0..<length p]" by (simp_all add: s_def)
  have "mask_byte (min 8 (n - s - 8 * i)) = mask_byte (min 8 (n - 8 * Suc i))" for i by (cases "n \<le> 8") (simp_all add: s_def)
  then have "map (\<lambda>i. mask_byte (min 8 (n - 8 * i))) [0..<length (a # p)] = mask_byte s # ms"
    unfolding ih(2) by (intro nth_equalityI) (auto simp: nth_Cons s_def split: nat.split simp del: upt_Suc)
  then show ?case using ih(1) unfolding cidr6_step [OF r] s_def by auto
qed simp

text \<open>The address of four bytes in network order.\<close>

definition addr4 :: "bytes \<Rightarrow> u32" where
  "addr4 q = htonl (word_of_nat (be32 q))"

lemma addr4_mem32 [simp]: "addr4 (mem32 a) = a"
  by (simp add: addr4_def be32_mem32)

lemma mem32_addr4: "length q = 4 \<Longrightarrow> mem32 (addr4 q) = q"
  by (simp add: addr4_def be32_bytes)

text \<open>The addresses in a block, the width of its addresses, and the bits set behind the first \<open>n\<close>.\<close>

fun cidr_contains :: "cidr \<Rightarrow> bytes \<Rightarrow> bool" where
  "cidr_contains (Cidr4 a m) q \<longleftrightarrow> length q = 4 \<and> addr4 q AND m = a"
| "cidr_contains (Cidr6 as ms) q \<longleftrightarrow> length q = 16 \<and> map2 (AND) q ms = as"

definition host_bits :: "nat \<Rightarrow> bytes \<Rightarrow> bool" where
  "host_bits n p \<longleftrightarrow> (\<exists>k < 8 * length p. n \<le> k \<and> addr_bit p k)"

text \<open>What a text of a block says: an address, and the length of the prefix behind a slash.\<close>

definition block_len :: "nat \<Rightarrow> bytes \<Rightarrow> nat option" where
  "block_len w s =
     (if ch_slash \<notin> set s then Some w
      else
        (let g = tl (dropWhile (\<lambda>c. c \<noteq> ch_slash) s) in
         if g \<noteq> [] \<and> list_all is_digit g \<and> dec_value g \<le> int w then Some (nat (dec_value g)) else None))"

definition block_text :: "bytes \<Rightarrow> (bytes \<times> nat) option" where
  "block_text s =
     (let a = takeWhile (\<lambda>c. c \<noteq> ch_slash) s in
      if ngx_inet_addr a \<noteq> INADDR_NONE then map_option (Pair (mem32 (ngx_inet_addr a))) (block_len 32 s)
      else (case ngx_inet6_addr a of None \<Rightarrow> None | Some p \<Rightarrow> map_option (Pair p) (block_len 128 s)))"

definition block_result :: "bytes \<Rightarrow> nat \<Rightarrow> int \<Rightarrow> cidr \<Rightarrow> bool" where
  "block_result p n rc c \<longleftrightarrow>
     rc = (if host_bits n p then NGX_DONE else NGX_OK)
     \<and> (\<forall>q. cidr_contains c q \<longleftrightarrow> length q = length p \<and> same_prefix n q p)"

lemma block4:
  assumes "n \<le> 32" "m = (if n \<noteq> 0 then htonl (push_bit (32 - n) 0xffffffff) else 0)"
  shows "block_result (mem32 a) n (if a = a AND m then NGX_OK else NGX_DONE) (Cidr4 (a AND m) m)"
proof -
  have "addr4 q AND m = a AND m \<longleftrightarrow> same_prefix n q (mem32 a)" if "length q = 4" for q
    using mask4_match [OF assms, of "addr4 q" a] mem32_addr4 [OF that] by simp
  moreover have "a = a AND m \<longleftrightarrow> \<not> host_bits n (mem32 a)"
  proof
    assume e: "a = a AND m"
    have "\<not> addr_bit (mem32 a) k" if "k < 32" "n \<le> k" for k
      using addr_bit_and [OF that(1), of a m] mask4_bit [OF assms(1) that(1)] that(2) e unfolding assms(2) by (metis not_le)
    then show "\<not> host_bits n (mem32 a)" by (auto simp: host_bits_def)
  next
    assume h: "\<not> host_bits n (mem32 a)"
    show "a = a AND m"
    proof (rule mem32_eqI)
      fix k :: nat
      assume k: "k < 32"
      have "addr_bit (mem32 a) k \<Longrightarrow> k < n" using h k by (auto simp: host_bits_def not_le)
      then show "addr_bit (mem32 a) k = addr_bit (mem32 (a AND m)) k"
        using addr_bit_and [OF k, of a m] mask4_bit [OF assms(1) k] unfolding assms(2) by blast
    qed
  qed
  ultimately show ?thesis by (auto simp: block_result_def)
qed

text \<open>IPv6: the bytes of the mask have the bits in front of the end of the prefix.\<close>

definition masks6 :: "nat \<Rightarrow> bytes" where
  "masks6 n = map (\<lambda>i. mask_byte (min 8 (n - 8 * i))) [0..<16]"

lemma masks6_length [simp]: "length (masks6 n) = 16"
  by (simp add: masks6_def)

lemma masks6_bit: "k < 128 \<Longrightarrow> addr_bit (masks6 n) k \<longleftrightarrow> k < n"
proof -
  assume "k < 128"
  then have "masks6 n ! (k div 8) = mask_byte (min 8 (n - 8 * (k div 8)))" unfolding masks6_def by (subst nth_map) auto
  moreover have "8 - min 8 (n - 8 * (k div 8)) \<le> 7 - k mod 8 \<longleftrightarrow> k < n" by presburger
  ultimately show ?thesis by (simp add: addr_bit_def mask_byte_bit)
qed

lemma bytes_eqI:
  assumes "length p = length q" "\<And>k. k < 8 * length p \<Longrightarrow> addr_bit p k = addr_bit q k"
  shows "p = q"
proof (rule nth_equalityI [OF assms(1)])
  fix i
  assume i: "i < length p"
  show "p ! i = q ! i"
  proof (rule bit_word_eqI)
    fix j
    assume "j < LENGTH(8)"
    then have j: "j < 8" by simp
    define l where "l = 7 - j"
    have "l < 8" "7 - l = j" using j by (auto simp: l_def)
    then have "8 * i + l < 8 * length p" "(8 * i + l) div 8 = i" "7 - (8 * i + l) mod 8 = j" using i by auto
    then show "bit (p ! i) j = bit (q ! i) j" using assms(2) [of "8 * i + l"] unfolding addr_bit_def by metis
  qed
qed

lemma addr_bit_map2: "length p = length q \<Longrightarrow> k < 8 * length p \<Longrightarrow> addr_bit (map2 (AND) p q) k = (addr_bit p k \<and> addr_bit q k)"
  by (simp add: addr_bit_def bit_and_iff less_mult_imp_div_less mult.commute)

lemma mask6_match:
  assumes "length x = 16" "length a = 16" "n \<le> 128"
  shows "map2 (AND) x (masks6 n) = map2 (AND) a (masks6 n) \<longleftrightarrow> same_prefix n x a"
proof
  assume e: "map2 (AND) x (masks6 n) = map2 (AND) a (masks6 n)"
  have "addr_bit x k = addr_bit a k" if "k < n" for k
    using arg_cong [OF e, of "\<lambda>z. addr_bit z k"] that assms by (simp add: addr_bit_map2 masks6_bit)
  then show "same_prefix n x a" by (simp add: same_prefix_def)
next
  assume "same_prefix n x a"
  then show "map2 (AND) x (masks6 n) = map2 (AND) a (masks6 n)"
    using assms by (intro bytes_eqI) (auto simp: addr_bit_map2 masks6_bit same_prefix_def)
qed

lemma cidr6_loop_cleared: "snd (snd (cidr6_loop (int n) p)) \<longleftrightarrow> fst (cidr6_loop (int n) p) \<noteq> p"
proof (induction p arbitrary: n)
  case (Cons a p)
  obtain as ms cl where r: "cidr6_loop (int (n - min 8 n)) p = (as, ms, cl)" by (cases "cidr6_loop (int (n - min 8 n)) p") auto
  show ?case using Cons.IH [of "n - min 8 n"] unfolding cidr6_step [OF r] r by auto
qed simp

lemma block6:
  assumes "n \<le> 128" "length p = 16" "cidr6_loop (int n) p = (as, ms, cleared)"
  shows "block_result p n (if cleared then NGX_DONE else NGX_OK) (Cidr6 as ms)"
proof -
  have l: "as = map2 (AND) p (masks6 n)" "ms = masks6 n"
    using cidr6_loop_eq [of n p] assms by (auto simp: masks6_def)
  have "cleared \<longleftrightarrow> as \<noteq> p" using cidr6_loop_cleared [of n p] assms(3) by simp
  also have "\<dots> \<longleftrightarrow> host_bits n p"
  proof
    assume "as \<noteq> p"
    with bytes_eqI [of as p] assms(2) obtain k where "k < 8 * length as" "addr_bit as k \<noteq> addr_bit p k" by (auto simp: l)
    then show "host_bits n p"
      using assms(2) by (auto simp: l host_bits_def addr_bit_map2 masks6_bit not_less)
  next
    assume "host_bits n p"
    then obtain k where k: "k < 128" "n \<le> k" "addr_bit p k" using assms(2) by (auto simp: host_bits_def)
    then have "\<not> addr_bit as k" using assms(2) by (simp add: l addr_bit_map2 masks6_bit)
    with k(3) show "as \<noteq> p" by blast
  qed
  finally show ?thesis using mask6_match [OF _ assms(2,1)] assms(2) by (auto simp: block_result_def l)
qed

section \<open>Reading a block\<close>

lemma strlchr_eq:
  "ngx_strlchr p (length p) c = Some (if c \<in> set p then Some (length (takeWhile (\<lambda>x. x \<noteq> c) p)) else None)"
  by (induction p) auto

lemma take_takeWhile: "take (length (takeWhile P p)) p = takeWhile P p"
  by (metis takeWhile_dropWhile_id append_eq_conv_conj)

lemma drop_takeWhile: "drop (length (takeWhile P p)) p = dropWhile P p"
  by (metis takeWhile_dropWhile_id append_eq_conv_conj)

lemma atoi_value: "ngx_atoi g = Some (ato_spec NGX_MAX_INT_T_VALUE g)"
  unfolding ngx_atoi_def by (rule ato_unfold) (simp_all add: max_defs)

lemma no_slash: "ch_slash \<notin> set s \<Longrightarrow> takeWhile (\<lambda>c. c \<noteq> ch_slash) s = s"
  by (auto simp: takeWhile_eq_all_conv)

lemma block_len_slash:
  assumes "ch_slash \<in> set s" "w < 2 ^ 31"
  shows "\<exists>v. ngx_atoi (drop (length (takeWhile (\<lambda>c. c \<noteq> ch_slash) s) + 1) s) = Some v
    \<and> (case block_len w s of Some n \<Rightarrow> v = int n \<and> n \<le> w | None \<Rightarrow> v = NGX_ERROR \<or> v > int w)"
proof -
  define g where "g = tl (dropWhile (\<lambda>c. c \<noteq> ch_slash) s)"
  have d: "drop (length (takeWhile (\<lambda>c. c \<noteq> ch_slash) s) + 1) s = g"
    by (simp add: g_def tl_drop [symmetric] drop_takeWhile [symmetric] drop_Suc)
  show ?thesis unfolding d atoi_value ato_spec_def block_len_def g_def [symmetric] Let_def
    using assms dec_value_nonneg [of g] by (auto simp: max_defs)
qed

lemma block4_whole: "block_result (mem32 a) 32 NGX_OK (Cidr4 a 0xffffffff)"
proof -
  have h: "htonl (push_bit (32 - 32) 0xffffffff) = 0xffffffff" by (simp add: htonl_def)
  have "(0xffffffff :: u32) = - 1" by simp
  then have "a AND 0xffffffff = a" by (simp only: and.right_neutral)
  then show ?thesis using block4 [of 32 "0xffffffff" a] h by simp
qed

lemma masks6_whole: "masks6 128 = replicate 16 0xff"
  by (simp add: masks6_def mask_byte_def upt_conv_Cons numeral_eq_Suc)

lemma block6_whole: "length p = 16 \<Longrightarrow> block_result p 128 NGX_OK (Cidr6 p (replicate 16 0xff))"
proof -
  assume p: "length p = 16"
  obtain as ms cl where r: "cidr6_loop (int 128) p = (as, ms, cl)" by (cases "cidr6_loop (int 128) p") auto
  have one: "(0xff :: u_char) = - 1" by simp
  have "as = map2 (AND) p (masks6 128)" "ms = masks6 128" using cidr6_loop_eq [of 128 p] r p by (auto simp: masks6_def)
  moreover have "map2 (AND) p (replicate 16 0xff) = p"
    using p unfolding one by (intro nth_equalityI) (simp_all only: length_map length_zip length_replicate nth_map nth_zip nth_replicate and.right_neutral min.idem fst_conv snd_conv case_prod_conv)
  ultimately have "as = p" "ms = replicate 16 0xff" by (simp_all only: masks6_whole)
  moreover from this have "\<not> cl" using cidr6_loop_cleared [of 128 p] r by simp
  ultimately show ?thesis using block6 [OF _ p r] by simp
qed

lemma ptocidr_block:
  "\<exists>r. ngx_ptocidr s = Some r \<and>
    (case block_text s of
       None \<Rightarrow> r = Inl NGX_ERROR
     | Some (p, n) \<Rightarrow> \<exists>rc c. r = Inr (rc, c) \<and> block_result p n rc c)"
proof (cases "ch_slash \<in> set s")
  case False
  then have n: "block_len 32 s = Some 32" "block_len 128 s = Some 128" "ngx_strlchr s (length s) ch_slash = Some None"
    by (simp_all add: block_len_def strlchr_eq)
  show ?thesis
    using inet6_length [of s] block4_whole block6_whole
    by (auto simp: ngx_ptocidr_def n block_text_def no_slash [OF False] split: option.split)
next
  case True
  define a where "a = takeWhile (\<lambda>c. c \<noteq> ch_slash) s"
  have l: "ngx_strlchr s (length s) ch_slash = Some (Some (length a))" using True by (simp add: strlchr_eq a_def)
  have t: "take (length a) s = a" by (simp add: a_def take_takeWhile)
  note len = block_len_slash [OF True, folded a_def]
  show ?thesis
  proof (cases "ngx_inet_addr a = INADDR_NONE")
    case v6: True
    obtain v where v: "ngx_atoi (drop (length a + 1) s) = Some v"
      "case block_len 128 s of Some n \<Rightarrow> v = int n \<and> n \<le> 128 | None \<Rightarrow> v = NGX_ERROR \<or> v > int 128"
      using len [of 128] by auto
    show ?thesis
    proof (cases "ngx_inet6_addr a")
      case None
      then show ?thesis by (simp add: ngx_ptocidr_def l t v6 block_text_def a_def [symmetric])
    next
      case (Some p)
      obtain as ms cl where r: "cidr6_loop v p = (as, ms, cl)" by (cases "cidr6_loop v p") auto
      show ?thesis
      proof (cases "block_len 128 s")
        case None
        then show ?thesis using v v6 Some by (auto simp: ngx_ptocidr_def l t block_text_def a_def [symmetric])
      next
        case n: (Some n)
        have "int n \<noteq> NGX_ERROR" by (simp add: NGX_ERROR_def)
        moreover have "block_result p n (if cl then NGX_DONE else NGX_OK) (Cidr6 as ms)"
          using n v(2) r by (intro block6 inet6_length [OF Some]) auto
        ultimately show ?thesis
          using v v6 Some n r by (auto simp: ngx_ptocidr_def l t block_text_def a_def [symmetric])
      qed
    qed
  next
    case v4: False
    obtain v where v: "ngx_atoi (drop (length a + 1) s) = Some v"
      "case block_len 32 s of Some n \<Rightarrow> v = int n \<and> n \<le> 32 | None \<Rightarrow> v = NGX_ERROR \<or> v > int 32"
      using len [of 32] by auto
    show ?thesis
    proof (cases "block_len 32 s")
      case None
      then show ?thesis using v v4 by (auto simp: Let_def ngx_ptocidr_def l t block_text_def a_def [symmetric])
    next
      case (Some n)
      define m where "m = (if n \<noteq> 0 then htonl (push_bit (32 - n) 0xffffffff) else 0)"
      have "block_result (mem32 (ngx_inet_addr a)) n (if ngx_inet_addr a = ngx_inet_addr a AND m then NGX_OK else NGX_DONE) (Cidr4 (ngx_inet_addr a AND m) m)"
        using Some v by (intro block4 m_def) simp
      moreover have sh: "nat (32 - v) = 32 - n" "v \<noteq> NGX_ERROR" "\<not> v > 32" "v = int n" using Some v by (auto simp: NGX_ERROR_def)
      moreover from this have "(if v \<noteq> 0 then htonl (push_bit (nat (32 - v)) 0xffffffff) else 0) = m" by (simp add: m_def)
      ultimately show ?thesis
        using v(1) v4 Some by (auto simp: ngx_ptocidr_def l t block_text_def a_def [symmetric] split: if_splits)
    qed
  qed
qed


section \<open>The properties of addresses\<close>

text \<open>
  C19. \<^verbatim>\<open>ngx_ptocidr\<close> reads an address, and behind a slash the length of its prefix. It fails exactly for texts
  that are no such block; else the address and mask that it stores hold of exactly the addresses that agree with
  the one written in the bits of the prefix, and it returns \<^verbatim>\<open>NGX_DONE\<close> exactly when that has a bit behind them.
\<close>

theorem ptocidr_exact:
  "\<exists>r. ngx_ptocidr s = Some r \<and>
    (case block_text s of
       None \<Rightarrow> r = Inl NGX_ERROR
     | Some (p, n) \<Rightarrow>
         \<exists>rc c. r = Inr (rc, c) \<and> rc = (if host_bits n p then NGX_DONE else NGX_OK)
           \<and> (\<forall>q. cidr_contains c q \<longleftrightarrow> length q = length p \<and> same_prefix n q p))"
  using ptocidr_block [of s] unfolding block_result_def .

end
