(* ===== verification/Ngx_Access.thy ===== *)
theory Ngx_Access
  imports Ngx_Cidr
begin

text \<open>
  Access rules (\<^verbatim>\<open>ngx_http_access_module.c\<close>): the directives \<^verbatim>\<open>allow\<close> and \<^verbatim>\<open>deny\<close>, which fill three arrays of a
  location, and the handler of the access phase, which decides on the address of the client. A build with IPv6
  and Unix sockets is modelled.
\<close>

section \<open>Rules\<close>

definition NGX_HTTP_FORBIDDEN :: int where
  "NGX_HTTP_FORBIDDEN = 403"

record access_rule4 =
  r4_mask :: u32
  r4_addr :: u32
  r4_deny :: bool

record access_rule6 =
  r6_addr :: bytes
  r6_mask :: bytes
  r6_deny :: bool

text \<open>The arrays of a location; \<open>None\<close> is \<^verbatim>\<open>NULL\<close>.\<close>

record access_loc_conf =
  rules :: "access_rule4 list option"
  rules6 :: "access_rule6 list option"
  rules_un :: "bool list option"

definition ngx_http_access_create_loc_conf :: access_loc_conf where
  "ngx_http_access_create_loc_conf = \<lparr>rules = None, rules6 = None, rules_un = None\<rparr>"

section \<open>The directives\<close>

text \<open>The allocations of the directive: each may fail.\<close>

datatype access_alloc = Create4 | Push4 | Create6 | Push6 | Create_un | Push_un

definition array_add :: "bool \<Rightarrow> bool \<Rightarrow> 'a \<Rightarrow> 'a list option \<Rightarrow> bool \<times> 'a list option" where
  "array_add create push x rs =
     (case rs of
        None \<Rightarrow> if create then (if push then (True, Some [x]) else (False, Some [])) else (False, None)
      | Some xs \<Rightarrow> if push then (True, Some (xs @ [x])) else (False, Some xs))"

definition access_add4 :: "(access_alloc \<Rightarrow> bool) \<Rightarrow> u32 \<Rightarrow> u32 \<Rightarrow> bool \<Rightarrow> access_loc_conf \<Rightarrow> bool \<times> access_loc_conf" where
  "access_add4 mem a m d alcf =
     (let (ok, rs) = array_add (mem Create4) (mem Push4) \<lparr>r4_mask = m, r4_addr = a, r4_deny = d\<rparr> (rules alcf) in
      (ok, alcf\<lparr>rules := rs\<rparr>))"

definition access_add6 :: "(access_alloc \<Rightarrow> bool) \<Rightarrow> bytes \<Rightarrow> bytes \<Rightarrow> bool \<Rightarrow> access_loc_conf \<Rightarrow> bool \<times> access_loc_conf" where
  "access_add6 mem a m d alcf =
     (let (ok, rs) = array_add (mem Create6) (mem Push6) \<lparr>r6_addr = a, r6_mask = m, r6_deny = d\<rparr> (rules6 alcf) in
      (ok, alcf\<lparr>rules6 := rs\<rparr>))"

definition access_add_un :: "(access_alloc \<Rightarrow> bool) \<Rightarrow> bool \<Rightarrow> access_loc_conf \<Rightarrow> bool \<times> access_loc_conf" where
  "access_add_un mem d alcf =
     (let (ok, rs) = array_add (mem Create_un) (mem Push_un) d (rules_un alcf) in
      (ok, alcf\<lparr>rules_un := rs\<rparr>))"

text \<open>One step of the directive behind the ones before, none of which may have failed.\<close>

definition and_then :: "bool \<times> access_loc_conf \<Rightarrow> (access_loc_conf \<Rightarrow> bool \<times> access_loc_conf) \<Rightarrow> bool \<times> access_loc_conf" where
  "and_then r f = (case r of (ok, alcf) \<Rightarrow> if ok then f alcf else (False, alcf))"

text \<open>
  \<^verbatim>\<open>ngx_http_access_rule\<close>: \<open>name\<close> is the directive and \<open>arg\<close> its argument. The block of \<^verbatim>\<open>all\<close> is the zeroed
  \<^verbatim>\<open>cidr\<close>, which is pushed to every array. The result says whether it is \<^verbatim>\<open>NGX_CONF_OK\<close>.
\<close>

definition ngx_http_access_rule ::
    "(access_alloc \<Rightarrow> bool) \<Rightarrow> bytes \<Rightarrow> bytes \<Rightarrow> access_loc_conf \<Rightarrow> (bool \<times> access_loc_conf) option" where
  "ngx_http_access_rule mem name arg alcf =
     do { c \<leftarrow> rd name 0;
          let d = (c = 0x64);
          if arg = bytes_of ''all'' then
            Some (and_then (and_then (access_add4 mem 0 0 d alcf) (access_add6 mem (replicate 16 0) (replicate 16 0) d))
                    (access_add_un mem d))
          else if arg = bytes_of ''unix:'' then Some (access_add_un mem d alcf)
          else
            do { r \<leftarrow> ngx_ptocidr arg;
                 Some (case r of
                    Inl rc \<Rightarrow> (False, alcf)
                  | Inr (rc, Cidr4 a m) \<Rightarrow> access_add4 mem a m d alcf
                  | Inr (rc, Cidr6 a m) \<Rightarrow> access_add6 mem a m d alcf) } }"

definition ngx_http_access_merge_loc_conf :: "access_loc_conf \<Rightarrow> access_loc_conf \<Rightarrow> access_loc_conf" where
  "ngx_http_access_merge_loc_conf prev conf =
     (if rules conf = None \<and> rules6 conf = None \<and> rules_un conf = None
      then conf\<lparr>rules := rules prev, rules6 := rules6 prev, rules_un := rules_un prev\<rparr>
      else conf)"

section \<open>The handler\<close>

definition ngx_http_access_found :: "bool \<Rightarrow> int" where
  "ngx_http_access_found deny = (if deny then NGX_HTTP_FORBIDDEN else NGX_OK)"

fun ngx_http_access_inet :: "access_rule4 list \<Rightarrow> u32 \<Rightarrow> int" where
  "ngx_http_access_inet [] addr = NGX_DECLINED"
| "ngx_http_access_inet (rule # rs) addr =
     (if addr AND r4_mask rule = r4_addr rule then ngx_http_access_found (r4_deny rule)
      else ngx_http_access_inet rs addr)"

text \<open>The inner loop over the bytes of an IPv6 address, whose arrays have 16 bytes each.\<close>

fun access_match6 :: "bytes \<Rightarrow> bytes \<Rightarrow> bytes \<Rightarrow> bool" where
  "access_match6 (x # p) (m # ms) (a # addr) = (if x AND m \<noteq> a then False else access_match6 p ms addr)"
| "access_match6 p ms addr = True"

fun ngx_http_access_inet6 :: "access_rule6 list \<Rightarrow> bytes \<Rightarrow> int" where
  "ngx_http_access_inet6 [] p = NGX_DECLINED"
| "ngx_http_access_inet6 (rule6 # rs) p =
     (if access_match6 p (r6_mask rule6) (r6_addr rule6) then ngx_http_access_found (r6_deny rule6)
      else ngx_http_access_inet6 rs p)"

fun ngx_http_access_unix :: "bool list \<Rightarrow> int" where
  "ngx_http_access_unix [] = NGX_DECLINED"
| "ngx_http_access_unix (deny # rs) = ngx_http_access_found deny"

text \<open>The C library's test for an IPv4 address mapped to an IPv6 one.\<close>

definition IN6_IS_ADDR_V4MAPPED :: "bytes \<Rightarrow> bool" where
  "IN6_IS_ADDR_V4MAPPED p \<longleftrightarrow> take 12 p = replicate 10 0 @ [0xff, 0xff]"

definition mapped_addr :: "bytes \<Rightarrow> u32" where
  "mapped_addr p =
     htonl (push_bit 24 (ucast (p ! 12)) + push_bit 16 (ucast (p ! 13)) + push_bit 8 (ucast (p ! 14)) + ucast (p ! 15))"

definition ngx_http_access_handler :: "access_loc_conf \<Rightarrow> sockaddr_t \<Rightarrow> int" where
  "ngx_http_access_handler alcf sa =
     (case sa of
        Sockaddr_in a port \<Rightarrow>
          (case rules alcf of Some rs \<Rightarrow> ngx_http_access_inet rs a | None \<Rightarrow> NGX_DECLINED)
      | Sockaddr_in6 p port \<Rightarrow>
          if rules alcf \<noteq> None \<and> IN6_IS_ADDR_V4MAPPED p then ngx_http_access_inet (the (rules alcf)) (mapped_addr p)
          else (case rules6 alcf of Some rs \<Rightarrow> ngx_http_access_inet6 rs p | None \<Rightarrow> NGX_DECLINED)
      | Sockaddr_un path \<Rightarrow>
          (case rules_un alcf of Some rs \<Rightarrow> ngx_http_access_unix rs | None \<Rightarrow> NGX_DECLINED)
      | Sockaddr_other \<Rightarrow> NGX_DECLINED)"

section \<open>What the directives mean\<close>

text \<open>Whom a directive names, from its argument.\<close>

datatype access_who = Who_all | Who_unix | Who_block bytes nat

definition who_text :: "bytes \<Rightarrow> access_who option" where
  "who_text arg =
     (if arg = bytes_of ''all'' then Some Who_all
      else if arg = bytes_of ''unix:'' then Some Who_unix
      else map_option (\<lambda>(p, n). Who_block p n) (block_text arg))"

text \<open>The bytes of an address as they are compared; a Unix socket has none.\<close>

fun who_covers :: "access_who \<Rightarrow> bytes option \<Rightarrow> bool" where
  "who_covers Who_all q \<longleftrightarrow> True"
| "who_covers Who_unix q \<longleftrightarrow> q = None"
| "who_covers (Who_block p n) q \<longleftrightarrow> (case q of None \<Rightarrow> False | Some q \<Rightarrow> length q = length p \<and> same_prefix n q p)"

text \<open>A directive that says something of IPv4 addresses.\<close>

fun who_v4 :: "access_who \<Rightarrow> bool" where
  "who_v4 Who_all \<longleftrightarrow> True"
| "who_v4 Who_unix \<longleftrightarrow> False"
| "who_v4 (Who_block p n) \<longleftrightarrow> length p = 4"

text \<open>The first directive that covers an address decides.\<close>

fun first_match :: "(bool \<times> access_who) list \<Rightarrow> bytes option \<Rightarrow> int" where
  "first_match [] q = NGX_DECLINED"
| "first_match ((deny, w) # ds) q =
     (if who_covers w q then if deny then NGX_HTTP_FORBIDDEN else NGX_OK else first_match ds q)"

definition access_decision :: "(bool \<times> access_who) list \<Rightarrow> sockaddr_t \<Rightarrow> int" where
  "access_decision ds sa =
     (case sa of
        Sockaddr_in a port \<Rightarrow> first_match ds (Some (mem32 a))
      | Sockaddr_in6 p port \<Rightarrow>
          first_match ds (Some (if IN6_IS_ADDR_V4MAPPED p \<and> list_ex (who_v4 \<circ> snd) ds then drop 12 p else p))
      | Sockaddr_un path \<Rightarrow> first_match ds None
      | Sockaddr_other \<Rightarrow> NGX_DECLINED)"

text \<open>The directives of a location, read in order.\<close>

fun access_conf :: "(access_alloc \<Rightarrow> bool) \<Rightarrow> (bytes \<times> bytes) list \<Rightarrow> access_loc_conf \<Rightarrow> (bool \<times> access_loc_conf) option" where
  "access_conf mem [] alcf = Some (True, alcf)"
| "access_conf mem ((name, arg) # ds) alcf =
     do { (ok, alcf') \<leftarrow> ngx_http_access_rule mem name arg alcf;
          if ok then access_conf mem ds alcf' else Some (False, alcf') }"

definition directive :: "bytes \<times> bytes \<Rightarrow> (bool \<times> access_who) option" where
  "directive = (\<lambda>(name, arg). map_option (Pair (hd name = 0x64)) (who_text arg))"

section \<open>The arrays hold the rules of the directives\<close>

fun who_v6 :: "access_who \<Rightarrow> bool" where
  "who_v6 Who_all \<longleftrightarrow> True"
| "who_v6 Who_unix \<longleftrightarrow> False"
| "who_v6 (Who_block p n) \<longleftrightarrow> length p = 16"

fun who_un :: "access_who \<Rightarrow> bool" where
  "who_un (Who_block p n) \<longleftrightarrow> False"
| "who_un w \<longleftrightarrow> True"

definition rep4 :: "bool \<times> access_who \<Rightarrow> access_rule4 \<Rightarrow> bool" where
  "rep4 dw r \<longleftrightarrow> r4_deny r = fst dw \<and> (\<forall>q. length q = 4 \<longrightarrow> (addr4 q AND r4_mask r = r4_addr r \<longleftrightarrow> who_covers (snd dw) (Some q)))"

definition rep6 :: "bool \<times> access_who \<Rightarrow> access_rule6 \<Rightarrow> bool" where
  "rep6 dw r \<longleftrightarrow> r6_deny r = fst dw \<and> (\<forall>q. length q = 16 \<longrightarrow> (access_match6 q (r6_mask r) (r6_addr r) \<longleftrightarrow> who_covers (snd dw) (Some q)))"

definition rep_un :: "bool \<times> access_who \<Rightarrow> bool \<Rightarrow> bool" where
  "rep_un dw d \<longleftrightarrow> d = fst dw \<and> who_un (snd dw)"

text \<open>An array is there exactly when a rule is.\<close>

definition array_rep :: "('a \<Rightarrow> 'b \<Rightarrow> bool) \<Rightarrow> 'a list \<Rightarrow> 'b list option \<Rightarrow> bool" where
  "array_rep P ws rs = (case rs of None \<Rightarrow> ws = [] | Some xs \<Rightarrow> ws \<noteq> [] \<and> list_all2 P ws xs)"

definition conf_rep :: "(bool \<times> access_who) list \<Rightarrow> access_loc_conf \<Rightarrow> bool" where
  "conf_rep ws alcf \<longleftrightarrow>
     array_rep rep4 (filter (who_v4 \<circ> snd) ws) (rules alcf)
     \<and> array_rep rep6 (filter (who_v6 \<circ> snd) ws) (rules6 alcf)
     \<and> array_rep rep_un (filter (who_un \<circ> snd) ws) (rules_un alcf)"

lemma array_add_rep:
  "array_add create push x rs = (True, rs') \<Longrightarrow> array_rep P ws rs \<Longrightarrow> P w x \<Longrightarrow> array_rep P (ws @ [w]) rs'"
  by (auto simp: array_add_def array_rep_def list_all2_appendI split: option.splits if_splits)

lemma conf_rep_empty: "conf_rep [] ngx_http_access_create_loc_conf"
  by (simp add: conf_rep_def array_rep_def ngx_http_access_create_loc_conf_def)

lemma access_match6_eq:
  "length p = length ms \<Longrightarrow> length ms = length a \<Longrightarrow> access_match6 p ms a \<longleftrightarrow> map2 (AND) p ms = a"
  by (induction p ms a rule: access_match6.induct) auto

lemma access_match6_zero: "access_match6 p (replicate n 0) (replicate n 0)"
proof (induction n arbitrary: p)
  case (Suc n)
  then show ?case by (cases p) auto
qed simp

lemma add4_ok:
  assumes "access_add4 mem a m d alcf = (True, alcf')" "rep4 dw \<lparr>r4_mask = m, r4_addr = a, r4_deny = d\<rparr>"
  shows "rules6 alcf' = rules6 alcf \<and> rules_un alcf' = rules_un alcf
    \<and> (array_rep rep4 ws (rules alcf) \<longrightarrow> array_rep rep4 (ws @ [dw]) (rules alcf'))"
  using assms array_add_rep by (auto simp: access_add4_def Let_def split: prod.splits)

lemma add6_ok:
  assumes "access_add6 mem a m d alcf = (True, alcf')" "rep6 dw \<lparr>r6_addr = a, r6_mask = m, r6_deny = d\<rparr>"
  shows "rules alcf' = rules alcf \<and> rules_un alcf' = rules_un alcf
    \<and> (array_rep rep6 ws (rules6 alcf) \<longrightarrow> array_rep rep6 (ws @ [dw]) (rules6 alcf'))"
  using assms array_add_rep by (auto simp: access_add6_def Let_def split: prod.splits)

lemma add_un_ok:
  assumes "access_add_un mem d alcf = (True, alcf')" "who_un w"
  shows "rules alcf' = rules alcf \<and> rules6 alcf' = rules6 alcf
    \<and> (array_rep rep_un ws (rules_un alcf) \<longrightarrow> array_rep rep_un (ws @ [(d, w)]) (rules_un alcf'))"
  using assms array_add_rep [where P = rep_un and w = "(d, w)"] by (auto simp: access_add_un_def rep_un_def Let_def split: prod.splits)

lemma add4_rep:
  assumes "access_add4 mem a m d alcf = (True, alcf')" "conf_rep ws alcf" "rep4 (d, w) \<lparr>r4_mask = m, r4_addr = a, r4_deny = d\<rparr>"
    and "who_v4 w" "\<not> who_v6 w" "\<not> who_un w"
  shows "conf_rep (ws @ [(d, w)]) alcf'"
  using add4_ok [OF assms(1,3)] assms(2,4-6) by (simp add: conf_rep_def)

lemma add6_rep:
  assumes "access_add6 mem a m d alcf = (True, alcf')" "conf_rep ws alcf" "rep6 (d, w) \<lparr>r6_addr = a, r6_mask = m, r6_deny = d\<rparr>"
    and "\<not> who_v4 w" "who_v6 w" "\<not> who_un w"
  shows "conf_rep (ws @ [(d, w)]) alcf'"
  using add6_ok [OF assms(1,3)] assms(2,4-6) by (simp add: conf_rep_def)

lemma add_un_rep:
  assumes "access_add_un mem d alcf = (True, alcf')" "conf_rep ws alcf" "\<not> who_v4 w" "\<not> who_v6 w" "who_un w"
  shows "conf_rep (ws @ [(d, w)]) alcf'"
  using add_un_ok [OF assms(1,5)] assms(2-5) by (simp add: conf_rep_def)

lemma add_all_rep:
  assumes "and_then (and_then (access_add4 mem 0 0 d alcf) (access_add6 mem (replicate 16 0) (replicate 16 0) d)) (access_add_un mem d) = (True, alcf')"
    and "conf_rep ws alcf"
  shows "conf_rep (ws @ [(d, Who_all)]) alcf'"
proof -
  obtain a b where ab: "access_add4 mem 0 0 d alcf = (True, a)" "access_add6 mem (replicate 16 0) (replicate 16 0) d a = (True, b)"
    "access_add_un mem d b = (True, alcf')"
    using assms(1) by (auto simp: and_then_def split: prod.splits if_splits)
  have "rep4 (d, Who_all) \<lparr>r4_mask = 0, r4_addr = 0, r4_deny = d\<rparr>" by (simp add: rep4_def)
  note r4 = add4_ok [OF ab(1) this]
  have "rep6 (d, Who_all) \<lparr>r6_addr = replicate 16 0, r6_mask = replicate 16 0, r6_deny = d\<rparr>"
    by (simp only: rep6_def access_rule6.simps access_match6_zero who_covers.simps) simp
  note r6 = add6_ok [OF ab(2) this]
  show ?thesis using r4 r6 add_un_ok [OF ab(3), of Who_all] assms(2) by (simp add: conf_rep_def)
qed

lemma block_result_rep4:
  assumes "block_result p n rc (Cidr4 a m)"
  shows "rep4 (d, Who_block p n) \<lparr>r4_mask = m, r4_addr = a, r4_deny = d\<rparr> \<and> length p = 4"
proof -
  have c: "cidr_contains (Cidr4 a m) q \<longleftrightarrow> length q = length p \<and> same_prefix n q p" for q using assms by (simp add: block_result_def)
  have "same_prefix n p p" by (simp add: same_prefix_def)
  then have "length p = 4" using c [of p] by simp
  then show ?thesis using c by (auto simp: rep4_def)
qed

lemma cidr6_loop_length: "cidr6_loop s p = (as, ms, cl) \<Longrightarrow> length as = length p \<and> length ms = length p"
  by (induction s p arbitrary: as ms cl rule: cidr6_loop.induct) (auto simp: Let_def split: prod.splits)

lemma ptocidr_lengths:
  assumes "ngx_ptocidr s = Some (Inr (rc, Cidr6 as ms))"
  shows "length as = 16 \<and> length ms = 16"
  using assms inet6_length cidr6_loop_length
  by (fastforce simp: ngx_ptocidr_def Let_def bind_eq_Some_conv split: option.splits if_split_asm prod.splits)

lemma block_result_rep6:
  assumes "block_result p n rc (Cidr6 as ms)" "length as = 16 \<and> length ms = 16"
  shows "rep6 (d, Who_block p n) \<lparr>r6_addr = as, r6_mask = ms, r6_deny = d\<rparr> \<and> length p = 16"
proof -
  have c: "cidr_contains (Cidr6 as ms) q \<longleftrightarrow> length q = length p \<and> same_prefix n q p" for q using assms by (simp add: block_result_def)
  have "same_prefix n p p" by (simp add: same_prefix_def)
  then have "length p = 16" using c [of p] by simp
  then show ?thesis using c assms(2) by (auto simp: rep6_def access_match6_eq)
qed

lemma access_rule_rep:
  assumes "ngx_http_access_rule mem name arg alcf = Some (True, alcf')" "conf_rep ws alcf"
  shows "\<exists>dw. directive (name, arg) = Some dw \<and> conf_rep (ws @ [dw]) alcf'"
proof -
  from assms(1) obtain c where "rd name 0 = Some c" by (auto simp: ngx_http_access_rule_def bind_eq_Some_conv)
  then have name: "rd name 0 = Some (hd name)" by (cases name) (auto simp: rd_def)
  define d where "d = (hd name = 0x64)"
  consider (all) "arg = bytes_of ''all''" | (unix) "arg \<noteq> bytes_of ''all''" "arg = bytes_of ''unix:''"
    | (block) "arg \<noteq> bytes_of ''all''" "arg \<noteq> bytes_of ''unix:''" by blast
  then show ?thesis
  proof cases
    case all
    then have "directive (name, arg) = Some (d, Who_all)" by (simp add: directive_def who_text_def d_def)
    with all show ?thesis using assms add_all_rep [of mem d alcf alcf' ws] by (simp add: ngx_http_access_rule_def name d_def Let_def)
  next
    case unix
    then have "directive (name, arg) = Some (d, Who_unix)" by (simp add: directive_def who_text_def d_def)
    with unix show ?thesis using assms add_un_rep [of mem d alcf alcf' ws Who_unix] by (simp add: ngx_http_access_rule_def name d_def Let_def)
  next
    case block
    obtain r where r: "ngx_ptocidr arg = Some r" "case block_text arg of
       None \<Rightarrow> r = Inl NGX_ERROR
     | Some (p, n) \<Rightarrow> \<exists>rc c. r = Inr (rc, c) \<and> block_result p n rc c" using ptocidr_block [of arg] by blast
    with block assms(1) obtain p n rc c where c: "block_text arg = Some (p, n)" "r = Inr (rc, c)" "block_result p n rc c"
      by (auto simp: ngx_http_access_rule_def name split: option.splits)
    then have d: "directive (name, arg) = Some (d, Who_block p n)" using block by (simp add: directive_def who_text_def d_def)
    show ?thesis
    proof (cases c)
      case (Cidr4 a m)
      then show ?thesis
        using block_result_rep4 [of p n rc a m d] add4_rep [of mem a m d alcf alcf' ws "Who_block p n"] assms c d r(1) block
        by (simp add: ngx_http_access_rule_def name d_def)
    next
      case (Cidr6 a m)
      then show ?thesis
        using block_result_rep6 [of p n rc a m d] ptocidr_lengths [of arg rc a m] add6_rep [of mem a m d alcf alcf' ws "Who_block p n"] assms c d r(1) block
        by (simp add: ngx_http_access_rule_def name d_def)
    qed
  qed
qed

lemma access_conf_rep:
  assumes "access_conf mem ds alcf = Some (True, alcf')" "conf_rep ws alcf"
  shows "\<exists>ws'. map directive ds = map Some ws' \<and> conf_rep (ws @ ws') alcf'"
  using assms
proof (induction mem ds alcf arbitrary: ws rule: access_conf.induct)
  case (1 mem alcf)
  then show ?case by auto
next
  case (2 mem name arg ds alcf)
  from 2(2) obtain a where a: "ngx_http_access_rule mem name arg alcf = Some (True, a)" "access_conf mem ds a = Some (True, alcf')"
    by (auto simp: bind_eq_Some_conv split: prod.splits if_splits)
  from access_rule_rep [OF a(1) 2(3)] obtain dw where dw: "directive (name, arg) = Some dw" "conf_rep (ws @ [dw]) a" by blast
  from 2(1) [OF a(1) refl _ a(2) dw(2)] obtain ws' where "map directive ds = map Some ws'" "conf_rep ((ws @ [dw]) @ ws') alcf'" by auto
  then show ?case using dw(1) by (intro exI [of _ "dw # ws'"]) simp
qed

section \<open>The first matching directive decides\<close>

text \<open>
  The three loops share their contract: a rule stands for a directive of their family, and the loop stops at the
  first rule whose directive covers the address.
\<close>

locale access_family =
  fixes family :: "access_who \<Rightarrow> bool" and rep :: "bool \<times> access_who \<Rightarrow> 'r \<Rightarrow> bool"
    and decide :: "'r list \<Rightarrow> 'a \<Rightarrow> int" and addr :: "'a \<Rightarrow> bytes option" and valid :: "'a \<Rightarrow> bool"
  assumes decide_nil: "decide [] a = NGX_DECLINED"
    and decide_cons: "rep (d, w) r \<Longrightarrow> valid a \<Longrightarrow>
      decide (r # rs) a = (if who_covers w (addr a) then ngx_http_access_found d else decide rs a)"
    and covered: "valid a \<Longrightarrow> who_covers w (addr a) \<Longrightarrow> family w"
begin

lemma decide_first:
  assumes "list_all2 rep (filter (family \<circ> snd) ws) rs" "valid a"
  shows "decide rs a = first_match ws (addr a)"
  using assms(1)
proof (induction ws arbitrary: rs)
  case Nil
  then show ?case by (simp add: decide_nil)
next
  case (Cons dw ws)
  obtain d w where [simp]: "dw = (d, w)" by (cases dw)
  show ?case
  proof (cases "family w")
    case True
    then obtain r rs' where r: "rs = r # rs'" "rep (d, w) r" "list_all2 rep (filter (family \<circ> snd) ws) rs'"
      using Cons.prems by (auto simp: list_all2_Cons1 comp_def)
    then show ?thesis using Cons.IH [OF r(3)] by (simp add: decide_cons [OF r(2) assms(2)] ngx_http_access_found_def)
  next
    case False
    then have "\<not> who_covers w (addr a)" using covered assms(2) by blast
    then show ?thesis using Cons False by simp
  qed
qed

lemma decide_array:
  assumes "array_rep rep (filter (family \<circ> snd) ws) rs" "valid a"
  shows "(case rs of Some xs \<Rightarrow> decide xs a | None \<Rightarrow> NGX_DECLINED) = first_match ws (addr a)"
  using assms decide_first [of ws "[]"] decide_first [of ws "the rs"]
  by (auto simp: array_rep_def decide_nil split: option.splits)

end

interpretation inet: access_family who_v4 rep4 ngx_http_access_inet "\<lambda>a. Some (mem32 a)" "\<lambda>_. True"
proof
  fix w a assume "who_covers w (Some (mem32 a))" then show "who_v4 w" by (cases w) auto
next
  fix d w r a rs assume "rep4 (d, w) r"
  then show "ngx_http_access_inet (r # rs) a = (if who_covers w (Some (mem32 a)) then ngx_http_access_found d else ngx_http_access_inet rs a)"
    using mem32_length [of a] unfolding rep4_def by (simp only: ngx_http_access_inet.simps fst_conv snd_conv) (metis addr4_mem32)
qed simp

interpretation inet6: access_family who_v6 rep6 ngx_http_access_inet6 Some "\<lambda>p. length p = 16"
proof
  fix w and p :: bytes assume "length p = 16" "who_covers w (Some p)" then show "who_v6 w" by (cases w) auto
qed (simp_all add: rep6_def)

interpretation un: access_family who_un rep_un "\<lambda>rs (_ :: unit). ngx_http_access_unix rs" "\<lambda>_. None" "\<lambda>_. True"
proof
  fix d w r rs assume "rep_un (d, w) r"
  then show "ngx_http_access_unix (r # rs) = (if who_covers w None then ngx_http_access_found d else ngx_http_access_unix rs)"
    by (cases w) (simp_all add: rep_un_def)
next
  fix w assume "who_covers w None" then show "who_un w" by (cases w) auto
qed simp

lemma mapped_addr_eq: "mapped_addr p = addr4 (drop 12 p)" if "length p = 16"
proof -
  have "word_of_nat (be32 (drop 12 p)) = push_bit 24 (ucast (p ! 12)) + push_bit 16 (ucast (p ! 13)) + push_bit 8 (ucast (p ! 14)) + (ucast (p ! 15) :: u32)"
    using that by (simp add: be32_def push_bit_eq_mult algebra_simps)
  then show ?thesis by (simp add: mapped_addr_def addr4_def)
qed

fun sockaddr_wf :: "sockaddr_t \<Rightarrow> bool" where
  "sockaddr_wf (Sockaddr_in6 p port) \<longleftrightarrow> length p = 16"
| "sockaddr_wf _ \<longleftrightarrow> True"

lemma handler_decision:
  assumes "conf_rep ws alcf" "sockaddr_wf sa"
  shows "ngx_http_access_handler alcf sa = access_decision ws sa"
proof (cases sa)
  case (Sockaddr_in a port)
  have "(case rules alcf of Some rs \<Rightarrow> ngx_http_access_inet rs a | None \<Rightarrow> NGX_DECLINED) = first_match ws (Some (mem32 a))"
    using assms(1) by (intro inet.decide_array) (simp_all add: conf_rep_def)
  with Sockaddr_in show ?thesis by (simp add: ngx_http_access_handler_def access_decision_def)
next
  case (Sockaddr_in6 p port)
  have r: "rules alcf = None \<longleftrightarrow> \<not> list_ex (who_v4 \<circ> snd) ws"
    using assms(1) by (auto simp: conf_rep_def array_rep_def list_ex_iff filter_empty_conv split: option.splits)
  have p: "length p = 16" using assms(2) Sockaddr_in6 by simp
  have v6: "(case rules6 alcf of Some rs \<Rightarrow> ngx_http_access_inet6 rs p | None \<Rightarrow> NGX_DECLINED) = first_match ws (Some p)"
    using assms(1) p by (intro inet6.decide_array) (simp_all add: conf_rep_def)
  show ?thesis
  proof (cases "rules alcf \<noteq> None \<and> IN6_IS_ADDR_V4MAPPED p")
    case True
    have "mem32 (addr4 (drop 12 p)) = drop 12 p" using p by (simp add: mem32_addr4)
    moreover have "ngx_http_access_inet (the (rules alcf)) (addr4 (drop 12 p)) = first_match ws (Some (mem32 (addr4 (drop 12 p))))"
      using assms(1) True by (intro inet.decide_first) (auto simp: conf_rep_def array_rep_def)
    ultimately show ?thesis using True r Sockaddr_in6 p by (simp add: ngx_http_access_handler_def access_decision_def mapped_addr_eq)
  next
    case False
    with r v6 Sockaddr_in6 show ?thesis by (auto simp: ngx_http_access_handler_def access_decision_def)
  qed
next
  case (Sockaddr_un path)
  have "(case rules_un alcf of Some rs \<Rightarrow> ngx_http_access_unix rs | None \<Rightarrow> NGX_DECLINED) = first_match ws None"
    using assms(1) by (intro un.decide_array) (simp_all add: conf_rep_def)
  with Sockaddr_un show ?thesis by (simp add: ngx_http_access_handler_def access_decision_def)
next
  case Sockaddr_other
  then show ?thesis by (simp add: ngx_http_access_handler_def access_decision_def)
qed

lemma conf_rep_none: "conf_rep ws alcf \<Longrightarrow> ws \<noteq> [] \<Longrightarrow> list_all (\<lambda>dw. who_v4 (snd dw) \<or> who_v6 (snd dw) \<or> who_un (snd dw)) ws \<Longrightarrow>
    \<not> (rules alcf = None \<and> rules6 alcf = None \<and> rules_un alcf = None)"
  by (cases ws) (auto simp: conf_rep_def array_rep_def split: if_split_asm)

text \<open>Every directive that is read fills some array.\<close>

lemma block_text_length: "block_text s = Some (p, n) \<Longrightarrow> length p = 4 \<or> length p = 16"
  using inet6_length by (auto simp: block_text_def Let_def split: if_split_asm option.split_asm)

lemma directive_fills: "directive d = Some dw \<Longrightarrow> who_v4 (snd dw) \<or> who_v6 (snd dw) \<or> who_un (snd dw)"
  using block_text_length by (fastforce simp: directive_def who_text_def split: prod.splits if_split_asm)

lemma first_match_decides:
  assumes "access_conf mem ps ngx_http_access_create_loc_conf = Some (True, prev)"
    and "access_conf mem cs ngx_http_access_create_loc_conf = Some (True, conf)"
    and "sockaddr_wf sa"
  shows "\<exists>ws. map directive (if cs = [] then ps else cs) = map Some ws
    \<and> ngx_http_access_handler (ngx_http_access_merge_loc_conf prev conf) sa = access_decision ws sa"
proof -
  obtain ps' cs' where w: "map directive ps = map Some ps'" "conf_rep ps' prev" "map directive cs = map Some cs'" "conf_rep cs' conf"
    using access_conf_rep [OF assms(1) conf_rep_empty] access_conf_rep [OF assms(2) conf_rep_empty] by auto
  show ?thesis
  proof (cases "cs = []")
    case True
    then have "ngx_http_access_merge_loc_conf prev conf = prev"
      using assms(2) by (auto simp: ngx_http_access_merge_loc_conf_def ngx_http_access_create_loc_conf_def)
    then show ?thesis using True w handler_decision assms(3) by auto
  next
    case False
    have "\<forall>dw \<in> set cs'. \<exists>d. directive d = Some dw" using w(3) by (metis (no_types, lifting) imageE image_eqI set_map)
    then have "list_all (\<lambda>dw. who_v4 (snd dw) \<or> who_v6 (snd dw) \<or> who_un (snd dw)) cs'"
      using directive_fills by (force simp: list_all_iff)
    then have "ngx_http_access_merge_loc_conf prev conf = conf"
      using conf_rep_none [OF w(4)] w(3) False unfolding list.map_disc_iff by (cases "cs' = []") (auto simp: ngx_http_access_merge_loc_conf_def)
    then show ?thesis using False w handler_decision assms(3) by auto
  qed
qed

text \<open>
  C20. The access handler gives what the first directive that covers the client's address says (403 for \<^verbatim>\<open>deny\<close>,
  \<^verbatim>\<open>NGX_OK\<close> for \<^verbatim>\<open>allow\<close>), and declines when there is none: the directives of the location, or of the enclosing
  level when it has none. A mapped IPv4 address is taken for an IPv4 address when some directive names any.
\<close>

theorem access_first_match:
  assumes "access_conf mem ps ngx_http_access_create_loc_conf = Some (True, prev)"
    and "access_conf mem cs ngx_http_access_create_loc_conf = Some (True, conf)"
    and "sockaddr_wf sa"
  shows "\<exists>ws. map directive (if cs = [] then ps else cs) = map Some ws
    \<and> ngx_http_access_handler (ngx_http_access_merge_loc_conf prev conf) sa = access_decision ws sa"
  using assms by (rule first_match_decides)

definition sample_directives :: "(bytes \<times> bytes) list" where
  "sample_directives =
     [(bytes_of ''allow'', bytes_of ''10.0.0.0/8''), (bytes_of ''deny'', bytes_of ''all'')]"

definition sample_conf :: access_loc_conf where
  "sample_conf = snd (the (access_conf (\<lambda>_. True) sample_directives ngx_http_access_create_loc_conf))"

lemma sample_conf_read:
  "access_conf (\<lambda>_. True) sample_directives ngx_http_access_create_loc_conf = Some (True, sample_conf)"
proof -
  have "map_option fst (access_conf (\<lambda>_. True) sample_directives ngx_http_access_create_loc_conf) = Some True" by code_simp
  then show ?thesis by (auto simp: sample_conf_def)
qed

theorem access_first_match_witness:
  "\<exists>ws. map directive sample_directives = map Some ws
    \<and> ngx_http_access_handler (ngx_http_access_merge_loc_conf ngx_http_access_create_loc_conf sample_conf) (Sockaddr_in 0x0100000a 80)
      = access_decision ws (Sockaddr_in 0x0100000a 80)"
  using access_first_match [of "\<lambda>_. True" "[]" ngx_http_access_create_loc_conf sample_directives sample_conf "Sockaddr_in 0x0100000a 80"]
    sample_conf_read by (simp add: sample_directives_def)

lemma access_sample:
  "ngx_http_access_handler sample_conf (Sockaddr_in 0x0100000a 80) = NGX_OK"
  "ngx_http_access_handler sample_conf (Sockaddr_in 0x0100000b 80) = NGX_HTTP_FORBIDDEN"
  by code_simp+

section \<open>What is refused\<close>

lemma array_add_all: "fst (array_add True True x rs)"
  by (simp add: array_add_def split: option.split)

lemma access_rule_reads:
  assumes "name \<noteq> []"
  shows "\<exists>ok alcf'. ngx_http_access_rule (\<lambda>_. True) name arg alcf = Some (ok, alcf') \<and> (ok \<longleftrightarrow> directive (name, arg) \<noteq> None)"
proof -
  have name: "rd name 0 = Some (hd name)" using assms by (cases name) (auto simp: rd_def)
  have add: "fst (access_add4 (\<lambda>_. True) a m d c)" "fst (access_add6 (\<lambda>_. True) a' m' d c)" "fst (access_add_un (\<lambda>_. True) d c)" for a m a' m' d c
    by (simp_all add: access_add4_def access_add6_def access_add_un_def array_add_def split: option.split)
  have then_ok: "fst r \<Longrightarrow> (\<And>c. fst (f c)) \<Longrightarrow> fst (and_then r f)" for r f by (cases r) (simp add: and_then_def)
  obtain r where r: "ngx_ptocidr arg = Some r" "case block_text arg of
     None \<Rightarrow> r = Inl NGX_ERROR
   | Some (p, n) \<Rightarrow> \<exists>rc c. r = Inr (rc, c) \<and> block_result p n rc c" using ptocidr_block [of arg] by blast
  let ?d = "hd name = 0x64"
  have all: "fst (and_then (and_then (access_add4 (\<lambda>_. True) 0 0 ?d alcf) (access_add6 (\<lambda>_. True) (replicate 16 0) (replicate 16 0) ?d)) (access_add_un (\<lambda>_. True) ?d))"
    by (intro then_ok add)
  consider (all) "arg = bytes_of ''all''" | (unix) "arg \<noteq> bytes_of ''all''" "arg = bytes_of ''unix:''"
    | (block) "arg \<noteq> bytes_of ''all''" "arg \<noteq> bytes_of ''unix:''" by blast
  then show ?thesis
  proof cases
    case all': all
    obtain c where "and_then (and_then (access_add4 (\<lambda>_. True) 0 0 ?d alcf) (access_add6 (\<lambda>_. True) (replicate 16 0) (replicate 16 0) ?d))
        (access_add_un (\<lambda>_. True) ?d) = (True, c)" using all by (cases "and_then (and_then (access_add4 (\<lambda>_. True) 0 0 ?d alcf) (access_add6 (\<lambda>_. True) (replicate 16 0) (replicate 16 0) ?d)) (access_add_un (\<lambda>_. True) ?d)") simp
    then show ?thesis using all' by (intro exI [of _ True] exI [of _ c]) (simp add: ngx_http_access_rule_def name directive_def who_text_def Let_def)
  next
    case unix
    obtain c where "access_add_un (\<lambda>_. True) ?d alcf = (True, c)" using add(3) [of ?d alcf] by (cases "access_add_un (\<lambda>_. True) ?d alcf") simp
    then show ?thesis using unix by (intro exI [of _ True] exI [of _ c]) (simp add: ngx_http_access_rule_def name directive_def who_text_def Let_def)
  next
    case block
    show ?thesis
    proof (cases r)
      case (Inl rc)
      then show ?thesis using r block
        by (intro exI [of _ False] exI [of _ alcf]) (auto simp: ngx_http_access_rule_def name directive_def who_text_def split: option.splits)
    next
      case (Inr res)
      obtain rc c where c: "res = (rc, c)" by (cases res)
      have "\<exists>a. (case c of Cidr4 a m \<Rightarrow> access_add4 (\<lambda>_. True) a m ?d alcf | Cidr6 a m \<Rightarrow> access_add6 (\<lambda>_. True) a m ?d alcf) = (True, a)"
        using add(1,2) by (cases c) (simp_all add: prod_eq_iff)
      then show ?thesis using r block Inr c
        by (auto simp: ngx_http_access_rule_def name directive_def who_text_def Let_def intro!: exI [of _ True] split: option.splits)
    qed
  qed
qed

lemma access_conf_reads:
  assumes "\<forall>(name, arg) \<in> set ds. name \<noteq> []"
  shows "\<exists>ok alcf'. access_conf (\<lambda>_. True) ds alcf = Some (ok, alcf') \<and> (ok \<longleftrightarrow> (\<forall>d \<in> set ds. directive d \<noteq> None))"
  using assms
proof (induction ds arbitrary: alcf)
  case (Cons d ds)
  obtain name arg where [simp]: "d = (name, arg)" by (cases d)
  obtain ok a where r: "ngx_http_access_rule (\<lambda>_. True) name arg alcf = Some (ok, a)" "ok \<longleftrightarrow> directive (name, arg) \<noteq> None"
    using access_rule_reads [of name arg alcf] Cons.prems by auto
  with Cons show ?case by (cases ok) auto
qed auto

text \<open>
  When memory suffices, the directives \<^verbatim>\<open>allow\<close> and \<^verbatim>\<open>deny\<close> of a location are refused exactly when the
  argument of one is neither \<^verbatim>\<open>all\<close>, nor \<^verbatim>\<open>unix:\<close>, nor the text of a block of addresses.
\<close>

theorem access_refuses:
  assumes "\<forall>(name, arg) \<in> set ds. name \<noteq> []"
  shows "\<exists>ok alcf'. access_conf (\<lambda>_. True) ds alcf = Some (ok, alcf') \<and> (ok \<longleftrightarrow> (\<forall>(name, arg) \<in> set ds. who_text arg \<noteq> None))"
  using access_conf_reads [OF assms, of alcf] by (simp add: directive_def case_prod_unfold)

theorem access_refuses_witness:
  "\<exists>ok alcf'. access_conf (\<lambda>_. True) [(bytes_of ''deny'', bytes_of ''10.0.0.0/33'')] ngx_http_access_create_loc_conf = Some (ok, alcf') \<and> \<not> ok"
proof -
  have "who_text (bytes_of ''10.0.0.0/33'') = None" by code_simp
  then show ?thesis
    using access_refuses [of "[(bytes_of ''deny'', bytes_of ''10.0.0.0/33'')]" ngx_http_access_create_loc_conf] by (auto simp: bytes_of_def)
qed

end
