(* ===== verification/Ngx_Queue.thy ===== *)
theory Ngx_Queue
  imports Ngx_Prelude "HOL-Library.Multiset"
begin

text \<open>
  Queues (\<^verbatim>\<open>ngx_queue.h\<close>, \<^verbatim>\<open>ngx_queue.c\<close>): circular lists with a link in both directions, embedded in the
  elements. The heap maps the address of a node to its two pointers; an access to any other address is
  undefined behaviour, the value \<open>None\<close>. The build without \<^verbatim>\<open>NGX_DEBUG\<close> is modelled.
\<close>

section \<open>The heap of nodes\<close>

type_synonym addr = nat

record ngx_queue =
  q_prev :: addr
  q_next :: addr

type_synonym qheap = "addr \<rightharpoonup> ngx_queue"

definition nxt :: "qheap \<Rightarrow> addr \<Rightarrow> addr option" where
  "nxt h x = map_option q_next (h x)"

definition prv :: "qheap \<Rightarrow> addr \<Rightarrow> addr option" where
  "prv h x = map_option q_prev (h x)"

definition set_next :: "addr \<Rightarrow> addr \<Rightarrow> qheap \<Rightarrow> qheap option" where
  "set_next x v h = map_option (\<lambda>n. h(x \<mapsto> n\<lparr>q_next := v\<rparr>)) (h x)"

definition set_prev :: "addr \<Rightarrow> addr \<Rightarrow> qheap \<Rightarrow> qheap option" where
  "set_prev x v h = map_option (\<lambda>n. h(x \<mapsto> n\<lparr>q_prev := v\<rparr>)) (h x)"

section \<open>The macros\<close>

definition ngx_queue_init :: "addr \<Rightarrow> qheap \<Rightarrow> qheap option" where
  "ngx_queue_init q h = do { h \<leftarrow> set_prev q q h; set_next q q h }"

definition ngx_queue_empty :: "addr \<Rightarrow> qheap \<Rightarrow> bool option" where
  "ngx_queue_empty q h = map_option (\<lambda>p. q = p) (prv h q)"

definition ngx_queue_insert_head :: "addr \<Rightarrow> addr \<Rightarrow> qheap \<Rightarrow> qheap option" where
  "ngx_queue_insert_head q x h =
     do { n \<leftarrow> nxt h q; h \<leftarrow> set_next x n h;
          xn \<leftarrow> nxt h x; h \<leftarrow> set_prev xn x h;
          h \<leftarrow> set_prev x q h;
          set_next q x h }"

definition ngx_queue_insert_tail :: "addr \<Rightarrow> addr \<Rightarrow> qheap \<Rightarrow> qheap option" where
  "ngx_queue_insert_tail q x h =
     do { p \<leftarrow> prv h q; h \<leftarrow> set_prev x p h;
          xp \<leftarrow> prv h x; h \<leftarrow> set_next xp x h;
          h \<leftarrow> set_next x q h;
          set_prev q x h }"

definition ngx_queue_remove :: "addr \<Rightarrow> qheap \<Rightarrow> qheap option" where
  "ngx_queue_remove x h =
     do { xn \<leftarrow> nxt h x; xp \<leftarrow> prv h x; h \<leftarrow> set_prev xn xp h;
          xp \<leftarrow> prv h x; xn \<leftarrow> nxt h x; set_next xp xn h }"

definition ngx_queue_split :: "addr \<Rightarrow> addr \<Rightarrow> addr \<Rightarrow> qheap \<Rightarrow> qheap option" where
  "ngx_queue_split q x n h =
     do { qp \<leftarrow> prv h q; h \<leftarrow> set_prev n qp h;
          np \<leftarrow> prv h n; h \<leftarrow> set_next np n h;
          h \<leftarrow> set_next n x h;
          xp \<leftarrow> prv h x; h \<leftarrow> set_prev q xp h;
          qp \<leftarrow> prv h q; h \<leftarrow> set_next qp q h;
          set_prev x n h }"

definition ngx_queue_add :: "addr \<Rightarrow> addr \<Rightarrow> qheap \<Rightarrow> qheap option" where
  "ngx_queue_add q n h =
     do { qp \<leftarrow> prv h q; nn \<leftarrow> nxt h n; h \<leftarrow> set_next qp nn h;
          nn \<leftarrow> nxt h n; qp \<leftarrow> prv h q; h \<leftarrow> set_prev nn qp h;
          np \<leftarrow> prv h n; h \<leftarrow> set_prev q np h;
          qp \<leftarrow> prv h q; set_next qp q h }"

section \<open>The functions\<close>

text \<open>The loop of \<^verbatim>\<open>ngx_queue_middle\<close>: \<open>None\<close> when it does not end.\<close>

partial_function (option) queue_middle_loop :: "qheap \<Rightarrow> addr \<Rightarrow> addr \<Rightarrow> addr \<Rightarrow> addr option" where
  "queue_middle_loop h queue middle next =
     do { middle \<leftarrow> nxt h middle;
          next \<leftarrow> nxt h next; lst \<leftarrow> prv h queue;
          if next = lst then Some middle
          else
            do { next \<leftarrow> nxt h next;
                 if next = lst then Some middle else queue_middle_loop h queue middle next } }"

definition ngx_queue_middle :: "addr \<Rightarrow> qheap \<Rightarrow> addr option" where
  "ngx_queue_middle queue h =
     do { middle \<leftarrow> nxt h queue; lst \<leftarrow> prv h queue;
          if middle = lst then Some middle
          else do { next \<leftarrow> nxt h queue; queue_middle_loop h queue middle next } }"

text \<open>\<^verbatim>\<open>ngx_queue_sort\<close>: the inner loop looks for the node behind which to insert. The comparison reads no link.\<close>

partial_function (option) queue_sort_back :: "(addr \<Rightarrow> addr \<Rightarrow> int) \<Rightarrow> qheap \<Rightarrow> addr \<Rightarrow> addr \<Rightarrow> addr \<Rightarrow> addr option" where
  "queue_sort_back cmp h queue q prev =
     (if cmp prev q \<le> 0 then Some prev
      else
        do { prev \<leftarrow> prv h prev;
             if prev \<noteq> queue then queue_sort_back cmp h queue q prev else Some prev })"

partial_function (option) queue_sort_loop :: "(addr \<Rightarrow> addr \<Rightarrow> int) \<Rightarrow> addr \<Rightarrow> addr \<Rightarrow> qheap \<Rightarrow> qheap option" where
  "queue_sort_loop cmp queue q h =
     (if q = queue then Some h
      else
        do { prev \<leftarrow> prv h q; next \<leftarrow> nxt h q;
             h \<leftarrow> ngx_queue_remove q h;
             prev \<leftarrow> queue_sort_back cmp h queue q prev;
             h \<leftarrow> ngx_queue_insert_head prev q h;
             queue_sort_loop cmp queue next h })"

definition ngx_queue_sort :: "(addr \<Rightarrow> addr \<Rightarrow> int) \<Rightarrow> addr \<Rightarrow> qheap \<Rightarrow> qheap option" where
  "ngx_queue_sort cmp queue h =
     do { q \<leftarrow> nxt h queue; lst \<leftarrow> prv h queue;
          if q = lst then Some h else do { q \<leftarrow> nxt h q; queue_sort_loop cmp queue q h } }"

section \<open>Rings\<close>

text \<open>The pairs of neighbours of a ring, and maps that link them.\<close>

definition cycle :: "addr \<Rightarrow> addr list \<Rightarrow> (addr \<times> addr) list" where
  "cycle q xs = zip (q # xs) (xs @ [q])"

definition linked :: "(addr \<rightharpoonup> addr) \<Rightarrow> (addr \<rightharpoonup> addr) \<Rightarrow> (addr \<times> addr) list \<Rightarrow> bool" where
  "linked N P ps \<longleftrightarrow> (\<forall>(a, b) \<in> set ps. N a = Some b \<and> P b = Some a)"

definition ring :: "qheap \<Rightarrow> addr \<Rightarrow> addr list \<Rightarrow> bool" where
  "ring h q xs \<longleftrightarrow> distinct (q # xs) \<and> linked (nxt h) (prv h) (cycle q xs)"

lemma linked_append [simp]: "linked N P (ps @ qs) \<longleftrightarrow> linked N P ps \<and> linked N P qs"
  by (auto simp: linked_def)

lemma linked_Cons [simp]: "linked N P ((a, b) # ps) \<longleftrightarrow> N a = Some b \<and> P b = Some a \<and> linked N P ps"
  by (auto simp: linked_def)

lemma linked_Nil [simp]: "linked N P []"
  by (simp add: linked_def)

lemma linked_next [simp]: "a \<notin> fst ` set ps \<Longrightarrow> linked (N(a \<mapsto> b)) P ps \<longleftrightarrow> linked N P ps"
  by (auto simp: linked_def image_iff Ball_def)

lemma linked_prev [simp]: "b \<notin> snd ` set ps \<Longrightarrow> linked N (P(b \<mapsto> a)) ps \<longleftrightarrow> linked N P ps"
  by (auto simp: linked_def image_iff Ball_def)

lemma cycle_split: "cycle q (us @ x # vs) = zip (q # us) (us @ [x]) @ zip (x # vs) (vs @ [q])"
  using zip_append [of "q # us" "us @ [x]" "x # vs" "vs @ [q]"] by (simp add: cycle_def)

lemma zip_to: "zip (q # us) (us @ [x]) = zip (butlast (q # us)) us @ [(last (q # us), x)]"
  using zip_append [of "butlast (q # us)" us "[last (q # us)]" "[x]"] by (simp del: butlast.simps last.simps)

lemma zip_from: "zip (x # vs) (vs @ [q]) = (x, hd (vs @ [q])) # zip vs (tl (vs @ [q]))"
  by (cases vs) auto

text \<open>A ring cut between two neighbours.\<close>

lemma cycle_cut:
  "cycle q (us @ vs) = zip (butlast (q # us)) us @ (last (q # us), hd (vs @ [q])) # zip vs (tl (vs @ [q]))"
proof -
  have "q # us @ vs = butlast (q # us) @ last (q # us) # vs" by (metis append_Cons append_assoc append_butlast_last_id append_self_conv2 list.distinct(1) append.left_neutral)
  moreover have "(us @ vs) @ [q] = us @ hd (vs @ [q]) # tl (vs @ [q])" by simp
  ultimately show ?thesis
    unfolding cycle_def by (simp only: zip_append length_butlast length_Cons diff_Suc_1 zip_Cons_Cons)
qed

section \<open>What the macros do to the links\<close>

lemma nxt_dom: "nxt h a = Some b \<Longrightarrow> a \<in> dom h"
  by (auto simp: nxt_def)

lemma prv_dom: "prv h a = Some b \<Longrightarrow> a \<in> dom h"
  by (auto simp: prv_def)

lemma set_next_links:
  assumes "x \<in> dom h"
  obtains h' where "set_next x v h = Some h'" "nxt h' = (nxt h)(x \<mapsto> v)" "prv h' = prv h" "dom h' = dom h"
proof -
  from assms obtain n where "h x = Some n" by blast
  then show thesis
    by (intro that [of "h(x \<mapsto> n\<lparr>q_next := v\<rparr>)"]) (auto simp: set_next_def nxt_def prv_def fun_eq_iff)
qed

lemma set_prev_links:
  assumes "x \<in> dom h"
  obtains h' where "set_prev x v h = Some h'" "nxt h' = nxt h" "prv h' = (prv h)(x \<mapsto> v)" "dom h' = dom h"
proof -
  from assms obtain n where "h x = Some n" by blast
  then show thesis
    by (intro that [of "h(x \<mapsto> n\<lparr>q_prev := v\<rparr>)"]) (auto simp: set_prev_def nxt_def prv_def fun_eq_iff)
qed

text \<open>The outcome of a macro, as an update of the links.\<close>

definition relinks :: "qheap \<Rightarrow> (addr \<rightharpoonup> addr) \<Rightarrow> (addr \<rightharpoonup> addr) \<Rightarrow> qheap option \<Rightarrow> bool" where
  "relinks h N P r \<longleftrightarrow> (\<exists>h'. r = Some h' \<and> nxt h' = N \<and> prv h' = P \<and> dom h' = dom h)"

lemma relinks_set_next:
  assumes "x \<in> dom h" "\<And>h'. nxt h' = (nxt h)(x \<mapsto> v) \<Longrightarrow> prv h' = prv h \<Longrightarrow> dom h' = dom h \<Longrightarrow> relinks h' N P (f h')"
  shows "relinks h N P (set_next x v h \<bind> f)"
  using assms by (elim set_next_links [of x h v]) (auto simp: relinks_def)

lemma relinks_set_prev:
  assumes "x \<in> dom h" "\<And>h'. nxt h' = nxt h \<Longrightarrow> prv h' = (prv h)(x \<mapsto> v) \<Longrightarrow> dom h' = dom h \<Longrightarrow> relinks h' N P (f h')"
  shows "relinks h N P (set_prev x v h \<bind> f)"
  using assms by (elim set_prev_links [of x h v]) (auto simp: relinks_def)

lemma relinks_last_next: "x \<in> dom h \<Longrightarrow> N = (nxt h)(x \<mapsto> v) \<Longrightarrow> P = prv h \<Longrightarrow> relinks h N P (set_next x v h)"
  by (elim set_next_links [of x h v]) (auto simp: relinks_def)

lemma relinks_last_prev: "x \<in> dom h \<Longrightarrow> N = nxt h \<Longrightarrow> P = (prv h)(x \<mapsto> v) \<Longrightarrow> relinks h N P (set_prev x v h)"
  by (elim set_prev_links [of x h v]) (auto simp: relinks_def)

lemmas relinks_intros = relinks_set_next relinks_set_prev relinks_last_next relinks_last_prev

lemma init_links: "q \<in> dom h \<Longrightarrow> relinks h ((nxt h)(q \<mapsto> q)) ((prv h)(q \<mapsto> q)) (ngx_queue_init q h)"
  unfolding ngx_queue_init_def by (intro relinks_intros) auto

lemma insert_head_links:
  assumes "nxt h q = Some n" "n \<in> dom h" "x \<in> dom h"
  shows "relinks h ((nxt h)(x \<mapsto> n, q \<mapsto> x)) ((prv h)(n \<mapsto> x, x \<mapsto> q)) (ngx_queue_insert_head q x h)"
  using assms nxt_dom [OF assms(1)] unfolding ngx_queue_insert_head_def by simp (rule relinks_intros; simp)+

lemma insert_tail_links:
  assumes "prv h q = Some p" "p \<in> dom h" "x \<in> dom h"
  shows "relinks h ((nxt h)(p \<mapsto> x, x \<mapsto> q)) ((prv h)(x \<mapsto> p, q \<mapsto> x)) (ngx_queue_insert_tail q x h)"
  using assms prv_dom [OF assms(1)] unfolding ngx_queue_insert_tail_def by simp (rule relinks_intros; simp)+

lemma remove_links:
  assumes "nxt h x = Some n" "prv h x = Some p" "n \<in> dom h" "p \<in> dom h" "x \<noteq> n"
  shows "relinks h ((nxt h)(p \<mapsto> n)) ((prv h)(n \<mapsto> p)) (ngx_queue_remove x h)"
  using assms unfolding ngx_queue_remove_def by simp (rule relinks_intros; simp)+

lemma split_links:
  assumes "prv h q = Some l" "prv h x = Some a" "l \<in> dom h" "a \<in> dom h" "n \<in> dom h" "n \<noteq> x" "n \<noteq> q" "x \<noteq> q" "a \<noteq> n"
  shows "relinks h ((nxt h)(l \<mapsto> n, n \<mapsto> x, a \<mapsto> q)) ((prv h)(n \<mapsto> l, q \<mapsto> a, x \<mapsto> n)) (ngx_queue_split q x n h)"
  using assms prv_dom [OF assms(1)] prv_dom [OF assms(2)] unfolding ngx_queue_split_def by simp (rule relinks_intros; simp)+

lemma add_links:
  assumes "prv h q = Some a" "nxt h n = Some b" "prv h n = Some l" "a \<in> dom h" "b \<in> dom h" "l \<in> dom h" "n \<noteq> q" "a \<noteq> n" "b \<noteq> q" "b = n \<longleftrightarrow> l = n"
  shows "relinks h ((nxt h)(a \<mapsto> b, (if b = n then a else l) \<mapsto> q)) ((prv h)(b \<mapsto> a, q \<mapsto> (if b = n then a else l))) (ngx_queue_add q n h)"
  using assms prv_dom [OF assms(1)] prv_dom [OF assms(3)] unfolding ngx_queue_add_def
  by (cases "b = n"; simp) ((rule relinks_intros; simp)+)

section \<open>Rings under the macros\<close>

lemma linked_nxt: "(a, b) \<in> set ps \<Longrightarrow> linked N P ps \<Longrightarrow> N a = Some b"
  by (auto simp: linked_def)

lemma linked_prv: "(a, b) \<in> set ps \<Longrightarrow> linked N P ps \<Longrightarrow> P b = Some a"
  by (auto simp: linked_def)

lemma cycle_fst: "fst ` set (cycle q xs) = set (q # xs)"
  unfolding cycle_def by (metis image_set length_append_singleton length_Cons map_fst_zip)

lemma cycle_snd: "snd ` set (cycle q xs) = set (q # xs)"
  unfolding cycle_def by (metis image_set length_append_singleton length_Cons map_snd_zip rotate1.simps(2) set_rotate1)

text \<open>Links that only change at other nodes leave a ring alone.\<close>

lemma ring_frame:
  assumes "ring h q xs" "\<forall>y \<in> set (q # xs). nxt h' y = nxt h y \<and> prv h' y = prv h y"
  shows "ring h' q xs"
proof -
  have "a \<in> set (q # xs) \<and> b \<in> set (q # xs)" if "(a, b) \<in> set (cycle q xs)" for a b
    using that cycle_fst [of q xs] cycle_snd [of q xs] by (metis fst_conv imageI snd_conv)
  then show ?thesis using assms by (fastforce simp: ring_def linked_def)
qed

lemma ring_dom: "ring h q xs \<Longrightarrow> set (q # xs) \<subseteq> dom h"
proof
  fix a
  assume "ring h q xs" "a \<in> set (q # xs)"
  moreover from this obtain b where "(a, b) \<in> set (cycle q xs)" using cycle_fst [of q xs] by force
  ultimately have "nxt h a = Some b" unfolding ring_def using linked_nxt [of a b "cycle q xs"] by blast
  then show "a \<in> dom h" by (rule nxt_dom)
qed

text \<open>The first and second components around a cut.\<close>

lemma cut_fst: "fst ` set (zip (butlast (q # us)) us) \<subseteq> set (butlast (q # us))" "fst ` set (zip vs ws) \<subseteq> set vs"
  by (auto dest: set_zip_leftD)

lemma cut_snd: "snd ` set (zip (butlast (q # us)) us) \<subseteq> set us" "snd ` set (zip vs (tl (vs @ [q]))) \<subseteq> set (tl (vs @ [q]))"
  by (auto dest: set_zip_rightD)

text \<open>The ends of a cut, which no other pair starts or ends with.\<close>

lemma cut_ends:
  assumes "distinct (q # us @ vs)"
  shows "last (q # us) \<notin> fst ` set (zip (butlast (q # us)) us)" "last (q # us) \<notin> fst ` set (zip vs (tl (vs @ [q])))"
    "hd (vs @ [q]) \<notin> snd ` set (zip (butlast (q # us)) us)" "hd (vs @ [q]) \<notin> snd ` set (zip vs (tl (vs @ [q])))"
    "last (q # us) \<in> set (q # us @ vs)" "hd (vs @ [q]) \<in> set (q # us @ vs)"
proof -
  have "distinct (q # us)" using assms by simp
  then have "distinct (butlast (q # us) @ [last (q # us)])" by (metis append_butlast_last_id list.distinct(1))
  then have "last (q # us) \<notin> set (butlast (q # us))" by simp
  then show "last (q # us) \<notin> fst ` set (zip (butlast (q # us)) us)" using cut_fst(1) [of q us] by blast
  have l: "last (q # us) \<in> set (q # us)" by (rule last_in_set) simp
  then have "last (q # us) \<notin> set vs" using assms by auto
  then show "last (q # us) \<notin> fst ` set (zip vs (tl (vs @ [q])))" using cut_fst(2) [of vs "tl (vs @ [q])"] by blast
  have "distinct (vs @ [q])" using assms by simp
  then have "distinct (hd (vs @ [q]) # tl (vs @ [q]))" by (metis append_is_Nil_conv list.collapse list.distinct(1))
  then have "hd (vs @ [q]) \<notin> set (tl (vs @ [q]))" unfolding distinct.simps by blast
  then show "hd (vs @ [q]) \<notin> snd ` set (zip vs (tl (vs @ [q])))" using cut_snd(2) [of vs q] by blast
  have h: "hd (vs @ [q]) \<in> set (vs @ [q])" by (rule hd_in_set) simp
  then have "hd (vs @ [q]) \<notin> set us" using assms by auto
  then show "hd (vs @ [q]) \<notin> snd ` set (zip (butlast (q # us)) us)" using cut_snd(1) [of q us] by blast
  show "last (q # us) \<in> set (q # us @ vs)" using l by auto
  show "hd (vs @ [q]) \<in> set (q # us @ vs)" using h by auto
qed

lemma cycle_at:
  "cycle q (us @ x # vs) = zip (butlast (q # us)) us @ (last (q # us), x) # (x, hd (vs @ [q])) # zip vs (tl (vs @ [q]))"
  by (simp only: cycle_split zip_to [of q us x] zip_from [of x vs q] append_assoc append_Cons append_Nil)

lemma ring_cut:
  assumes "ring h q (us @ vs)"
  shows "nxt h (last (q # us)) = Some (hd (vs @ [q]))" "prv h (hd (vs @ [q])) = Some (last (q # us))"
  using assms by (simp_all add: ring_def cycle_cut del: last.simps)

lemma not_in_cut:
  assumes "x \<notin> set (q # us @ vs)"
  shows "x \<notin> fst ` set (zip (butlast (q # us)) us)" "x \<notin> fst ` set (zip vs (tl (vs @ [q])))"
    "x \<notin> snd ` set (zip (butlast (q # us)) us)" "x \<notin> snd ` set (zip vs (tl (vs @ [q])))"
proof -
  have x: "x \<notin> set (butlast (q # us))" "x \<notin> set us" "x \<notin> set vs" "x \<notin> set (tl (vs @ [q]))"
    using assms by (auto dest: in_set_butlastD list.set_sel(2) [rotated] simp: tl_append split: list.splits if_splits)
  show "x \<notin> fst ` set (zip (butlast (q # us)) us)" using x cut_fst(1) [of q us] by blast
  show "x \<notin> fst ` set (zip vs (tl (vs @ [q])))" using x cut_fst(2) [of vs "tl (vs @ [q])"] by blast
  show "x \<notin> snd ` set (zip (butlast (q # us)) us)" using x cut_snd(1) [of q us] by blast
  show "x \<notin> snd ` set (zip vs (tl (vs @ [q])))" using x cut_snd(2) [of vs q] by blast
qed

lemma linked_insert:
  assumes "ring h q (us @ vs)" "x \<notin> set (q # us @ vs)"
  shows "linked ((nxt h)(x \<mapsto> hd (vs @ [q]), last (q # us) \<mapsto> x)) ((prv h)(hd (vs @ [q]) \<mapsto> x, x \<mapsto> last (q # us))) (cycle q (us @ x # vs))"
proof -
  have d: "distinct (q # us @ vs)" and l: "linked (nxt h) (prv h) (cycle q (us @ vs))" using assms(1) by (simp_all add: ring_def)
  note e = cut_ends [OF d]
  have ne: "last (q # us) \<noteq> x" "hd (vs @ [q]) \<noteq> x" using assms(2) e(5,6) by metis+
  show ?thesis
    using l e(1-4) ne not_in_cut [OF assms(2)] unfolding cycle_cut [of q us vs] cycle_at by (simp del: last.simps butlast.simps)
qed

lemma linked_remove:
  assumes "ring h q (us @ x # vs)"
  shows "nxt h x = Some (hd (vs @ [q]))" "prv h x = Some (last (q # us))"
    "linked ((nxt h)(last (q # us) \<mapsto> hd (vs @ [q]))) ((prv h)(hd (vs @ [q]) \<mapsto> last (q # us))) (cycle q (us @ vs))"
proof -
  have d: "distinct (q # us @ vs)" and l: "linked (nxt h) (prv h) (cycle q (us @ x # vs))" using assms by (simp_all add: ring_def)
  show "nxt h x = Some (hd (vs @ [q]))" "prv h x = Some (last (q # us))"
    using l unfolding cycle_at by (simp_all del: last.simps butlast.simps)
  show "linked ((nxt h)(last (q # us) \<mapsto> hd (vs @ [q]))) ((prv h)(hd (vs @ [q]) \<mapsto> last (q # us))) (cycle q (us @ vs))"
    using l cut_ends(1-4) [OF d] unfolding cycle_cut [of q us vs] cycle_at by (simp del: last.simps butlast.simps)
qed

text \<open>Each macro as a step on rings: the ring it makes, and the nodes whose links it changes.\<close>

definition only_changes :: "addr set \<Rightarrow> qheap \<Rightarrow> qheap \<Rightarrow> bool" where
  "only_changes S h h' \<longleftrightarrow> dom h' = dom h \<and> (\<forall>y. y \<notin> S \<longrightarrow> nxt h' y = nxt h y \<and> prv h' y = prv h y)"

lemma only_changes_mono: "only_changes S h h' \<Longrightarrow> S \<subseteq> T \<Longrightarrow> only_changes T h h'"
  by (auto simp: only_changes_def)

lemma only_changes_trans: "only_changes S h1 h2 \<Longrightarrow> only_changes S h2 h3 \<Longrightarrow> only_changes S h1 h3"
  by (simp add: only_changes_def)

lemma only_changes_at: "only_changes S h h' \<Longrightarrow> y \<notin> S \<Longrightarrow> h' y = h y"
  by (cases "h y"; cases "h' y"; force simp: only_changes_def nxt_def prv_def dom_def)

lemma init_ring:
  assumes "q \<in> dom h"
  shows "\<exists>h'. ngx_queue_init q h = Some h' \<and> ring h' q [] \<and> only_changes {q} h h'"
  using init_links [OF assms] by (auto simp: relinks_def ring_def cycle_def only_changes_def)

lemma ring_last: "ring h q xs \<Longrightarrow> prv h q = Some (last (q # xs))"
  using ring_cut(2) [of h q xs "[]"] by simp

lemma ring_head: "ring h q xs \<Longrightarrow> nxt h q = Some (hd (xs @ [q]))"
  using ring_cut(1) [of h q "[]" xs] by simp

lemma empty_ring: "ring h q xs \<Longrightarrow> ngx_queue_empty q h = Some (xs = [])"
  using ring_last [of h q xs] by (auto simp: ngx_queue_empty_def ring_def)

lemma insert_head_ring:
  assumes "ring h q (us @ vs)" "x \<notin> set (q # us @ vs)" "x \<in> dom h"
  shows "\<exists>h'. ngx_queue_insert_head (last (q # us)) x h = Some h' \<and> ring h' q (us @ x # vs) \<and> only_changes (set (q # us @ x # vs)) h h'"
proof -
  have d: "distinct (q # us @ vs)" using assms(1) by (simp add: ring_def)
  have "hd (vs @ [q]) \<in> dom h" using cut_ends(6) [OF d] ring_dom [OF assms(1)] by blast
  from insert_head_links [OF ring_cut(1) [OF assms(1)] this assms(3)] obtain h' where
    h': "ngx_queue_insert_head (last (q # us)) x h = Some h'" "dom h' = dom h"
      "nxt h' = (nxt h)(x \<mapsto> hd (vs @ [q]), last (q # us) \<mapsto> x)" "prv h' = (prv h)(hd (vs @ [q]) \<mapsto> x, x \<mapsto> last (q # us))"
    by (auto simp only: relinks_def)
  then have "ring h' q (us @ x # vs)" using linked_insert [OF assms(1,2)] d assms(2) by (auto simp: ring_def)
  moreover have "only_changes (set (q # us @ x # vs)) h h'"
    using h' cut_ends(5,6) [OF d] by (auto simp: only_changes_def simp del: last.simps)
  ultimately show ?thesis using h'(1) by blast
qed

lemma insert_tail_ring:
  assumes "ring h q us" "x \<notin> set (q # us)" "x \<in> dom h"
  shows "\<exists>h'. ngx_queue_insert_tail q x h = Some h' \<and> ring h' q (us @ [x]) \<and> only_changes (set (q # us @ [x])) h h'"
proof -
  have r: "ring h q (us @ [])" using assms(1) by simp
  have d: "distinct (q # us @ [])" using r by (simp add: ring_def)
  have p: "prv h q = Some (last (q # us))" using ring_cut(2) [OF r] by simp
  have "last (q # us) \<in> dom h" using cut_ends(5) [OF d] ring_dom [OF r] by blast
  from insert_tail_links [OF p this assms(3)] obtain h' where
    h': "ngx_queue_insert_tail q x h = Some h'" "dom h' = dom h"
      "nxt h' = (nxt h)(last (q # us) \<mapsto> x, x \<mapsto> q)" "prv h' = (prv h)(x \<mapsto> last (q # us), q \<mapsto> x)"
    by (auto simp only: relinks_def)
  have ne: "x \<noteq> q" "x \<noteq> last (q # us)" using assms(2) cut_ends(5) [OF d] by auto
  have "linked (nxt h') (prv h') (cycle q (us @ [x]))"
    using linked_insert [OF r, of x] assms(2) unfolding h'(3,4) fun_upd_twist [OF ne(1)] fun_upd_twist [OF ne(2)] by simp
  then have "ring h' q (us @ [x])" using d assms(2) by (auto simp: ring_def)
  moreover have "only_changes (set (q # us @ [x])) h h'"
    using h' cut_ends(5) [OF d] by (auto simp: only_changes_def simp del: last.simps)
  ultimately show ?thesis using h'(1) by blast
qed

lemma remove_ring:
  assumes "ring h q (us @ x # vs)"
  shows "\<exists>h'. ngx_queue_remove x h = Some h' \<and> ring h' q (us @ vs) \<and> only_changes (set (q # us @ vs)) h h'"
proof -
  have d: "distinct (q # us @ vs)" "x \<notin> set (q # us @ vs)" using assms by (auto simp: ring_def)
  note e = cut_ends(5,6) [OF d(1)]
  have "hd (vs @ [q]) \<in> dom h" "last (q # us) \<in> dom h" using e ring_dom [OF assms] by auto
  from remove_links [OF linked_remove(1,2) [OF assms] this] e d(2) obtain h' where
    h': "ngx_queue_remove x h = Some h'" "dom h' = dom h"
      "nxt h' = (nxt h)(last (q # us) \<mapsto> hd (vs @ [q]))" "prv h' = (prv h)(hd (vs @ [q]) \<mapsto> last (q # us))"
    by (fastforce simp only: relinks_def)
  then have "ring h' q (us @ vs)" using linked_remove(3) [OF assms] d by (simp add: ring_def)
  moreover have "only_changes (set (q # us @ vs)) h h'" using h' e by (auto simp: only_changes_def simp del: last.simps)
  ultimately show ?thesis using h'(1) by blast
qed

lemma cycle_two: "cycle q (us @ x # vs) = zip (butlast (q # us)) us @ (last (q # us), x) # zip (butlast (x # vs)) vs @ [(last (x # vs), q)]"
  by (simp only: cycle_split zip_to [of q us x] zip_to [of x vs q] append_assoc append_Cons append_Nil)

lemma cycle_end: "cycle q us = zip (butlast (q # us)) us @ [(last (q # us), q)]"
  by (simp only: cycle_def zip_to)

lemma cycle_start: "cycle n (x # vs) = (n, x) # zip (butlast (x # vs)) vs @ [(last (x # vs), n)]"
  unfolding cycle_def append_Cons zip_Cons_Cons by (simp only: zip_to)

lemma notin_zip: "x \<notin> set us \<Longrightarrow> x \<notin> fst ` set (zip us vs)" "x \<notin> set vs \<Longrightarrow> x \<notin> snd ` set (zip us vs)"
  by (auto dest: set_zip_leftD set_zip_rightD)

lemma last_not_butlast: "distinct (x # xs) \<Longrightarrow> last (x # xs) \<notin> set (butlast (x # xs))"
  by (metis append_butlast_last_id distinct_append disjoint_insert(1) inf_commute list.distinct(1) list.set(2) not_distinct_conv_prefix)

lemma notin_butlast: "x \<notin> set xs \<Longrightarrow> x \<notin> set (butlast xs)"
  by (auto dest: in_set_butlastD)

lemma last_in: "last (x # xs) \<in> set (x # xs)"
  by (rule last_in_set) simp

lemma split_ring:
  assumes "ring h q (us @ x # vs)" "n \<notin> set (q # us @ x # vs)" "n \<in> dom h"
  shows "\<exists>h'. ngx_queue_split q x n h = Some h' \<and> ring h' q us \<and> ring h' n (x # vs) \<and> only_changes (set (n # q # us @ x # vs)) h h'"
proof -
  let ?a = "last (q # us)" and ?l = "last (x # vs)"
  have d: "distinct (q # us @ x # vs)" and lk: "linked (nxt h) (prv h) (cycle q (us @ x # vs))" using assms(1) by (simp_all add: ring_def)
  have in1: "?a \<in> set (q # us)" "?l \<in> set (x # vs)" by (rule last_in)+
  have links: "prv h q = Some ?l" "prv h x = Some ?a" using lk unfolding cycle_two by (simp_all del: last.simps butlast.simps)
  have doms: "?l \<in> dom h" "?a \<in> dom h" using in1 ring_dom [OF assms(1)] by auto
  have ne: "n \<noteq> x" "n \<noteq> q" "x \<noteq> q" "?a \<noteq> n" "?a \<noteq> ?l" "?l \<noteq> n" using in1 assms(2) d by auto
  from split_links [OF links doms assms(3) ne(1-4)] obtain h' where
    h': "ngx_queue_split q x n h = Some h'" "dom h' = dom h"
      "nxt h' = (nxt h)(?l \<mapsto> n, n \<mapsto> x, ?a \<mapsto> q)" "prv h' = (prv h)(n \<mapsto> ?l, q \<mapsto> ?a, x \<mapsto> n)"
    by (auto simp only: relinks_def)
  let ?A = "zip (butlast (q # us)) us" and ?B = "zip (butlast (x # vs)) vs"
  have "?a \<notin> fst ` set ?A" "?a \<notin> fst ` set ?B" "?l \<notin> fst ` set ?A" "?l \<notin> fst ` set ?B" "n \<notin> fst ` set ?A" "n \<notin> fst ` set ?B"
    using in1 d assms(2) last_not_butlast [of q us] last_not_butlast [of x vs] by (auto intro!: notin_zip(1) notin_butlast simp del: butlast.simps last.simps)
  moreover have "n \<notin> snd ` set ?A" "n \<notin> snd ` set ?B" "q \<notin> snd ` set ?A" "q \<notin> snd ` set ?B" "x \<notin> snd ` set ?A" "x \<notin> snd ` set ?B"
    using d assms(2) by (auto intro!: notin_zip(2) simp del: butlast.simps)
  ultimately have "linked (nxt h') (prv h') (cycle q us)" "linked (nxt h') (prv h') (cycle n (x # vs))"
    using lk ne unfolding cycle_two cycle_end [of q us] cycle_start h'(3,4) by (simp_all del: last.simps butlast.simps)
  then have "ring h' q us" "ring h' n (x # vs)" using d assms(2) by (auto simp: ring_def)
  moreover have "only_changes (set (n # q # us @ x # vs)) h h'"
    using h'(2-4) in1 by (auto simp: only_changes_def simp del: last.simps)
  ultimately show ?thesis using h'(1) by blast
qed

lemma add_ring:
  assumes "ring h q us" "ring h n vs" "set (q # us) \<inter> set (n # vs) = {}"
  shows "\<exists>h'. ngx_queue_add q n h = Some h' \<and> ring h' q (us @ vs) \<and> only_changes (set (q # us @ n # vs)) h h'"
proof -
  let ?a = "last (q # us)" and ?b = "hd (vs @ [n])" and ?l = "last (n # vs)"
  have d: "distinct (q # us)" "distinct (n # vs)" and lk: "linked (nxt h) (prv h) (cycle q us)" "linked (nxt h) (prv h) (cycle n vs)"
    using assms(1,2) by (simp_all add: ring_def)
  have in1: "?a \<in> set (q # us)" "?b \<in> set (n # vs)" "?l \<in> set (n # vs)" using last_in hd_in_set [of "vs @ [n]"] by auto
  have bl: "?b = n \<longleftrightarrow> ?l = n" using d(2) by (cases vs) auto
  have ne: "n \<noteq> q" "?a \<noteq> n" "?b \<noteq> q" using in1 assms(3) by auto
  have doms: "?a \<in> dom h" "?b \<in> dom h" "?l \<in> dom h" using in1 ring_dom [OF assms(1)] ring_dom [OF assms(2)] by auto
  from add_links [OF ring_last [OF assms(1)] ring_head [OF assms(2)] ring_last [OF assms(2)] doms ne bl] obtain h' where
    h': "ngx_queue_add q n h = Some h'" "dom h' = dom h"
      "nxt h' = (nxt h)(?a \<mapsto> ?b, (if ?b = n then ?a else ?l) \<mapsto> q)" "prv h' = (prv h)(?b \<mapsto> ?a, q \<mapsto> (if ?b = n then ?a else ?l))"
    by (auto simp only: relinks_def)
  have "linked (nxt h') (prv h') (cycle q (us @ vs))"
  proof (cases vs)
    case Nil
    have "n \<notin> snd ` set (cycle q us)" unfolding cycle_snd using assms(3) by auto
    moreover have "?a \<notin> fst ` set (zip (butlast (q # us)) us)" by (rule notin_zip(1) [OF last_not_butlast [OF d(1)]])
    moreover have "q \<notin> snd ` set (zip (butlast (q # us)) us)" by (rule notin_zip(2)) (use d(1) in simp)
    ultimately show ?thesis using lk(1) unfolding Nil cycle_end h'(3,4) by (simp del: last.simps butlast.simps)
  next
    case (Cons b ws)
    let ?A = "zip (butlast (q # us)) us" and ?B = "zip (butlast (b # ws)) ws"
    have l: "last (n # b # ws) = last (b # ws)" "hd ((b # ws) @ [n]) = b" "b \<noteq> n" using Cons d(2) by auto
    have in2: "last (b # ws) \<in> set (b # ws)" by (rule last_in)
    have al: "?a \<noteq> last (b # ws)" "b \<noteq> q" using in1 in2 assms(3) unfolding Cons by auto
    have "?a \<notin> fst ` set ?A" "?a \<notin> fst ` set ?B" "last (b # ws) \<notin> fst ` set ?A" "last (b # ws) \<notin> fst ` set ?B"
      using in1 in2 d assms(3) last_not_butlast [of q us] last_not_butlast [of b ws] unfolding Cons
      by (auto intro!: notin_zip(1) notin_butlast simp del: butlast.simps last.simps)
    moreover have "b \<notin> snd ` set ?A" "b \<notin> snd ` set ?B" "q \<notin> snd ` set ?A" "q \<notin> snd ` set ?B"
      using d assms(3) unfolding Cons by (auto intro!: notin_zip(2) simp del: butlast.simps)
    ultimately show ?thesis
      using lk l(3) al unfolding Cons cycle_two cycle_end [of q us] cycle_start h'(3,4) l by (simp del: last.simps butlast.simps)
  qed
  then have "ring h' q (us @ vs)" using d assms(3) by (auto simp: ring_def)
  moreover have "only_changes (set (q # us @ n # vs)) h h'"
    using h'(2-4) in1 by (auto simp: only_changes_def simp del: last.simps)
  ultimately show ?thesis using h'(1) by blast
qed

section \<open>The middle\<close>

lemma ring_next_at: "ring h q xs \<Longrightarrow> i < length xs \<Longrightarrow> nxt h (xs ! i) = Some ((xs @ [q]) ! Suc i)"
proof -
  assume r: "ring h q xs" and i: "i < length xs"
  have "cycle q xs ! Suc i = (xs ! i, (xs @ [q]) ! Suc i)" "Suc i < length (cycle q xs)" using i by (simp_all add: cycle_def)
  then have "(xs ! i, (xs @ [q]) ! Suc i) \<in> set (cycle q xs)" by (metis nth_mem)
  then show ?thesis using r unfolding ring_def using linked_nxt by blast
qed

lemma middle_loop:
  assumes r: "ring h q xs" and k: "2 * k + 1 < length xs"
  shows "queue_middle_loop h q (xs ! k) (xs ! (2 * k)) = Some (xs ! (length xs div 2))"
  using k
proof (induction "length xs - 2 * k" arbitrary: k rule: less_induct)
  case less
  let ?n = "length xs"
  have d: "distinct xs" using r by (simp add: ring_def)
  have lst: "prv h q = Some (xs ! (?n - 1))" using ring_last [OF r] less.prems by (cases xs rule: rev_cases) (auto simp: nth_append)
  have n1: "nxt h (xs ! k) = Some (xs ! (k + 1))" "nxt h (xs ! (2 * k)) = Some (xs ! (2 * k + 1))"
    using ring_next_at [OF r, of k] ring_next_at [OF r, of "2 * k"] less.prems by (simp_all add: nth_append)
  have eq: "xs ! i = xs ! (?n - 1) \<longleftrightarrow> i = ?n - 1" if "i < ?n" for i using nth_eq_iff_index_eq [OF d that, of "?n - 1"] less.prems by simp
  show ?case
  proof (cases "2 * k + 1 = ?n - 1")
    case True
    then have "?n div 2 = k + 1" using less.prems by linarith
    then show ?thesis using True lst n1 by (subst queue_middle_loop.simps) simp
  next
    case False
    then have k2: "2 * k + 2 < ?n" using less.prems by linarith
    have n2: "nxt h (xs ! (2 * k + 1)) = Some (xs ! (2 * k + 2))" using ring_next_at [OF r, of "2 * k + 1"] k2 by (simp add: nth_append)
    show ?thesis
    proof (cases "2 * k + 2 = ?n - 1")
      case True
      then have "?n div 2 = k + 1" using less.prems by linarith
      then show ?thesis using True False lst n1 n2 eq [of "2 * k + 1"] less.prems by (subst queue_middle_loop.simps) simp
    next
      case ne: False
      then have "2 * (k + 1) + 1 < ?n" using k2 by arith
      then have "queue_middle_loop h q (xs ! (k + 1)) (xs ! (2 * (k + 1))) = Some (xs ! (?n div 2))" by (intro less.hyps) auto
      then show ?thesis using ne False lst n1 n2 eq [of "2 * k + 1"] eq [of "2 * k + 2"] less.prems k2 by (subst queue_middle_loop.simps) simp
    qed
  qed
qed

lemma middle_ring: "ring h q xs \<Longrightarrow> ngx_queue_middle q h = Some (if xs = [] then q else xs ! (length xs div 2))"
proof -
  assume r: "ring h q xs"
  show ?thesis
  proof (cases "length xs \<le> 1")
    case True
    then show ?thesis using ring_head [OF r] ring_last [OF r] by (cases xs) (auto simp: ngx_queue_middle_def)
  next
    case False
    then obtain x y zs where xs: "xs = x # y # zs" by (auto simp: not_le Suc_le_length_iff numeral_2_eq_2 dest!: Suc_leI)
    have "x \<noteq> last (q # xs)" using r by (auto simp: ring_def xs)
    then show ?thesis using ring_head [OF r] ring_last [OF r] middle_loop [OF r, of 0]
      by (simp add: ngx_queue_middle_def xs)
  qed
qed

section \<open>The sort\<close>

text \<open>Inserting behind the last element that is not greater.\<close>

definition not_greater :: "('a \<Rightarrow> 'a \<Rightarrow> int) \<Rightarrow> 'a \<Rightarrow> 'a list \<Rightarrow> 'a list" where
  "not_greater cmp x ys = rev (dropWhile (\<lambda>y. \<not> cmp y x \<le> 0) (rev ys))"

definition insert_behind :: "('a \<Rightarrow> 'a \<Rightarrow> int) \<Rightarrow> 'a \<Rightarrow> 'a list \<Rightarrow> 'a list" where
  "insert_behind cmp x ys = not_greater cmp x ys @ x # drop (length (not_greater cmp x ys)) ys"

definition insertion_sort :: "('a \<Rightarrow> 'a \<Rightarrow> int) \<Rightarrow> 'a list \<Rightarrow> 'a list" where
  "insertion_sort cmp xs = foldl (\<lambda>ys x. insert_behind cmp x ys) [] xs"

lemma ring_prev_at: "ring h q (us @ x # vs) \<Longrightarrow> prv h x = Some (last (q # us))"
  by (rule linked_remove(2))

lemma sort_back:
  assumes "ring h q (us @ vs)" "us \<noteq> []"
  shows "queue_sort_back cmp h q x (last us) = Some (last (q # not_greater cmp x us))"
  using assms
proof (induction us arbitrary: vs rule: rev_induct)
  case (snoc u us)
  have q: "q \<notin> set us" using snoc.prems(1) by (simp add: ring_def)
  have p: "prv h u = Some (last (q # us))" using ring_prev_at [of h q us u vs] snoc.prems(1) by simp
  show ?case
  proof (cases "cmp u x \<le> 0")
    case True
    then show ?thesis by (subst queue_sort_back.simps) (simp add: not_greater_def)
  next
    case False
    then have ng: "not_greater cmp x (us @ [u]) = not_greater cmp x us" by (simp add: not_greater_def)
    show ?thesis
    proof (cases "us = []")
      case True
      then show ?thesis using False p ng by (subst queue_sort_back.simps) (simp add: not_greater_def)
    next
      case ne: False
      then have "last us \<noteq> q" using q last_in_set by blast
      then show ?thesis using False p ne ng snoc.IH [of "u # vs"] snoc.prems(1) by (subst queue_sort_back.simps) simp
    qed
  qed
qed simp

lemma not_greater_prefix: "take (length (not_greater cmp x ys)) ys = not_greater cmp x ys"
proof -
  have "rev ys = takeWhile (\<lambda>y. \<not> cmp y x \<le> 0) (rev ys) @ dropWhile (\<lambda>y. \<not> cmp y x \<le> 0) (rev ys)" by simp
  then have "ys = not_greater cmp x ys @ rev (takeWhile (\<lambda>y. \<not> cmp y x \<le> 0) (rev ys))" unfolding not_greater_def by (metis rev_append rev_rev_ident)
  then show ?thesis by (metis append_eq_conv_conj)
qed

lemma insert_behind_nonempty [simp]: "insert_behind cmp x ys \<noteq> []"
  by (simp add: insert_behind_def)

lemma sort_loop:
  assumes "ring h q (ys @ zs)" "ys \<noteq> []"
  shows "\<exists>h'. queue_sort_loop cmp q (hd (zs @ [q])) h = Some h' \<and> ring h' q (foldl (\<lambda>ys x. insert_behind cmp x ys) ys zs)
    \<and> only_changes (set (q # ys @ zs)) h h'"
  using assms
proof (induction zs arbitrary: h ys)
  case Nil
  then show ?case by (subst queue_sort_loop.simps) (simp add: only_changes_def)
next
  case (Cons x zs)
  have x: "x \<noteq> q" using Cons.prems(1) by (auto simp: ring_def)
  have p: "prv h x = Some (last ys)" "nxt h x = Some (hd (zs @ [q]))" using linked_remove(1,2) [OF Cons.prems(1)] Cons.prems(2) by simp_all
  obtain h1 where h1: "ngx_queue_remove x h = Some h1" "ring h1 q (ys @ zs)" "only_changes (set (q # ys @ zs)) h h1"
    using remove_ring [OF Cons.prems(1)] by blast
  define us where "us = not_greater cmp x ys"
  have ys: "ys = us @ drop (length us) ys" unfolding us_def by (metis append_take_drop_id not_greater_prefix)
  have yset: "set us \<union> set (drop (length us) ys) = set ys" using arg_cong [OF ys, of set] by simp
  have bk: "queue_sort_back cmp h1 q x (last ys) = Some (last (q # us))" unfolding us_def by (rule sort_back [OF h1(2) Cons.prems(2)])
  have "x \<notin> set (q # ys @ zs)" using Cons.prems(1) by (auto simp: ring_def)
  moreover have "x \<in> dom h1" using h1(3) ring_dom [OF Cons.prems(1)] by (auto simp: only_changes_def)
  moreover have "ring h1 q (us @ drop (length us) ys @ zs)" using h1(2) ys by (metis append_assoc)
  moreover have "set (q # us @ drop (length us) ys @ zs) = set (q # ys @ zs)" using yset by auto
  ultimately obtain h2 where h2: "ngx_queue_insert_head (last (q # us)) x h1 = Some h2" "ring h2 q (us @ x # drop (length us) ys @ zs)"
    "only_changes (set (q # us @ x # drop (length us) ys @ zs)) h1 h2"
    using insert_head_ring [of h1 q us "drop (length us) ys @ zs" x] by auto
  have ins: "us @ x # drop (length us) ys = insert_behind cmp x ys" by (simp add: insert_behind_def us_def)
  have r2: "ring h2 q (insert_behind cmp x ys @ zs)" using h2(2) unfolding ins [symmetric] by simp
  obtain h' where h': "queue_sort_loop cmp q (hd (zs @ [q])) h2 = Some h'"
    "ring h' q (foldl (\<lambda>ys x. insert_behind cmp x ys) (insert_behind cmp x ys) zs)" "only_changes (set (q # insert_behind cmp x ys @ zs)) h2 h'"
    using Cons.IH [OF r2] by auto
  have e: "set (q # us @ x # drop (length us) ys @ zs) = set (q # ys @ x # zs)" using yset by auto
  have e': "set (q # insert_behind cmp x ys @ zs) = set (q # ys @ x # zs)" unfolding ins [symmetric] using yset by auto
  have "only_changes (set (q # ys @ x # zs)) h h'" using h1(3) h2(3) h'(3) unfolding e e' by (auto simp: only_changes_def)
  then show ?case using x p h1(1) bk h2(1) h'(1,2) by (subst queue_sort_loop.simps) simp
qed

lemma sort_ring:
  assumes "ring h q xs"
  shows "\<exists>h'. ngx_queue_sort cmp q h = Some h' \<and> ring h' q (insertion_sort cmp xs) \<and> only_changes (set (q # xs)) h h'"
proof (cases xs)
  case Nil
  then show ?thesis using ring_head [OF assms] ring_last [OF assms] assms
    by (simp add: ngx_queue_sort_def insertion_sort_def only_changes_def)
next
  case (Cons x zs)
  have one: "insert_behind cmp x [] = [x]" by (simp add: insert_behind_def not_greater_def)
  show ?thesis
  proof (cases "zs = []")
    case True
    then show ?thesis using ring_head [OF assms] ring_last [OF assms] assms
      by (simp add: ngx_queue_sort_def insertion_sort_def only_changes_def Cons one)
  next
    case False
    then have ne: "x \<noteq> last (q # xs)" using assms Cons by (auto simp: ring_def)
    have n: "nxt h x = Some (hd (zs @ [q]))" using ring_next_at [OF assms, of 0] by (simp add: Cons hd_conv_nth)
    have "ring h q ([x] @ zs)" using assms Cons by simp
    from sort_loop [OF this, of cmp] obtain h' where h': "queue_sort_loop cmp q (hd (zs @ [q])) h = Some h'"
      "ring h' q (foldl (\<lambda>ys x. insert_behind cmp x ys) [x] zs)" "only_changes (set (q # [x] @ zs)) h h'" by auto
    then show ?thesis using ring_head [OF assms] ring_last [OF assms] ne n Cons one
      by (simp add: ngx_queue_sort_def insertion_sort_def)
  qed
qed

text \<open>With a comparison that follows a key, the sort is the stable sort by it.\<close>

lemma insert_behind_sorted:
  fixes key :: "'a \<Rightarrow> 'k :: linorder"
  assumes "\<And>y. y \<in> set xs \<Longrightarrow> cmp y x \<le> 0 \<longleftrightarrow> key y \<le> key x"
  shows "insert_behind cmp x (sort_key key xs) = sort_key key (xs @ [x])"
proof -
  define ys us vs where "ys = sort_key key xs" and "us = not_greater cmp x ys" and "vs = drop (length us) ys"
  have ys: "ys = us @ vs" unfolding us_def vs_def by (metis append_take_drop_id not_greater_prefix)
  have sorted: "sorted (map key (us @ vs))" unfolding ys [symmetric] by (simp add: ys_def)
  have "us = [] \<or> key (last us) \<le> key x"
  proof (cases "dropWhile (\<lambda>y. \<not> cmp y x \<le> 0) (rev ys) = []")
    case True
    then show ?thesis by (simp add: us_def not_greater_def)
  next
    case False
    then have "hd (dropWhile (\<lambda>y. \<not> cmp y x \<le> 0) (rev ys)) \<in> set xs"
      by (metis hd_in_set set_dropWhileD set_rev set_sort ys_def)
    with hd_dropWhile [OF False] False show ?thesis by (simp add: us_def not_greater_def last_rev assms)
  qed
  then have u: "\<forall>y \<in> set us. key y \<le> key x" using sorted
    by (cases us rule: rev_cases) (auto simp: sorted_append intro: order_trans)
  have "rev vs = takeWhile (\<lambda>y. \<not> cmp y x \<le> 0) (rev ys)"
  proof -
    have "ys = us @ rev (takeWhile (\<lambda>y. \<not> cmp y x \<le> 0) (rev ys))"
      unfolding us_def not_greater_def by (metis rev_append rev_rev_ident takeWhile_dropWhile_id)
    then show ?thesis using ys by (metis append_same_eq rev_rev_ident same_append_eq)
  qed
  moreover have "set vs \<subseteq> set xs" unfolding vs_def ys_def using set_drop_subset by fastforce
  ultimately have v: "\<forall>y \<in> set vs. key x < key y" by (metis assms set_rev set_takeWhileD not_le subsetD)
  have "sort_key key (xs @ [x]) = us @ x # vs"
  proof (rule properties_for_sort_key)
    show "mset (us @ x # vs) = mset (xs @ [x])" using arg_cong [OF ys, of mset] by (simp add: ys_def)
    show "sorted (map key (us @ x # vs))" using sorted u v by (auto simp: sorted_append less_imp_le)
    show "filter (\<lambda>y. key k = key y) (us @ x # vs) = filter (\<lambda>y. key k = key y) (xs @ [x])" if "k \<in> set (us @ x # vs)" for k
    proof -
      have "filter (\<lambda>y. key k = key y) (us @ vs) = filter (\<lambda>y. key k = key y) xs"
        unfolding ys [symmetric] ys_def using sort_key_stable [of key "key k" xs] by (simp add: eq_commute)
      moreover have "filter (\<lambda>y. key k = key y) vs = []" if "key k = key x" using that v by (auto simp: filter_empty_conv)
      ultimately show ?thesis by (cases "key k = key x") auto
    qed
  qed
  then show ?thesis by (simp add: insert_behind_def us_def [symmetric, unfolded ys_def] vs_def [symmetric, unfolded ys_def])
qed

lemma insertion_sort_stable:
  fixes key :: "'a \<Rightarrow> 'k :: linorder"
  assumes "\<And>x y. x \<in> set xs \<Longrightarrow> y \<in> set xs \<Longrightarrow> cmp y x \<le> 0 \<longleftrightarrow> key y \<le> key x"
  shows "insertion_sort cmp xs = sort_key key xs"
  using assms
proof (induction xs rule: rev_induct)
  case (snoc x xs)
  then show ?case using insert_behind_sorted [of xs cmp x key] by (simp add: insertion_sort_def)
qed (simp add: insertion_sort_def)

lemma insert_behind_set: "set (insert_behind cmp x ys) = insert x (set ys)"
proof -
  have "not_greater cmp x ys @ drop (length (not_greater cmp x ys)) ys = ys" by (metis append_take_drop_id not_greater_prefix)
  then have "set (not_greater cmp x ys) \<union> set (drop (length (not_greater cmp x ys)) ys) = set ys" by (metis set_append)
  then show ?thesis by (auto simp: insert_behind_def)
qed

lemma insertion_sort_set: "set (insertion_sort cmp xs) = set xs"
  by (induction xs rule: rev_induct) (simp_all add: insertion_sort_def insert_behind_set)

section \<open>Queues as lists\<close>

text \<open>The operations of a program on its queues.\<close>

datatype queue_op =
    Op_init addr
  | Op_insert_after addr addr
  | Op_insert_tail addr addr
  | Op_remove addr
  | Op_split addr addr addr
  | Op_add addr addr
  | Op_sort addr

fun queue_exec :: "(addr \<Rightarrow> addr \<Rightarrow> int) \<Rightarrow> queue_op \<Rightarrow> qheap \<Rightarrow> qheap option" where
  "queue_exec cmp (Op_init q) h = ngx_queue_init q h"
| "queue_exec cmp (Op_insert_after y x) h = ngx_queue_insert_head y x h"
| "queue_exec cmp (Op_insert_tail q x) h = ngx_queue_insert_tail q x h"
| "queue_exec cmp (Op_remove x) h = ngx_queue_remove x h"
| "queue_exec cmp (Op_split q x n) h = ngx_queue_split q x n h"
| "queue_exec cmp (Op_add q n) h = ngx_queue_add q n h"
| "queue_exec cmp (Op_sort q) h = ngx_queue_sort cmp q h"

fun queue_run :: "(addr \<Rightarrow> addr \<Rightarrow> int) \<Rightarrow> queue_op list \<Rightarrow> qheap \<Rightarrow> qheap option" where
  "queue_run cmp [] h = Some h"
| "queue_run cmp (a # as) h = do { h \<leftarrow> queue_exec cmp a h; queue_run cmp as h }"

text \<open>
  What they mean for lists: \<open>Q\<close> holds for each sentinel the nodes of its queue. \<open>None\<close> is a use that no
  program may make: a node that is in a queue already, or one that is in none.
\<close>

type_synonym queues = "(addr \<times> addr list) list"

definition nodes :: "queues \<Rightarrow> addr list" where
  "nodes Q = concat (map (\<lambda>(q, xs). q # xs) Q)"

definition change :: "addr \<Rightarrow> (addr list \<Rightarrow> addr list) \<Rightarrow> queues \<Rightarrow> queues" where
  "change q f Q = map (\<lambda>(p, xs). (p, if p = q then f xs else xs)) Q"

fun put_after :: "addr \<Rightarrow> addr \<Rightarrow> addr list \<Rightarrow> addr list" where
  "put_after y x [] = []"
| "put_after y x (z # zs) = (if z = y then z # x # zs else z # put_after y x zs)"

fun list_exec :: "(addr \<Rightarrow> addr \<Rightarrow> int) \<Rightarrow> addr set \<Rightarrow> queue_op \<Rightarrow> queues \<Rightarrow> queues option" where
  "list_exec cmp D (Op_init q) Q =
     (if q \<in> D \<and> q \<notin> set (nodes Q) then Some ((q, []) # Q)
      else if q \<in> fst ` set Q then Some (change q (\<lambda>_. []) Q) else None)"
| "list_exec cmp D (Op_insert_after y x) Q =
     (if x \<in> D \<and> x \<notin> set (nodes Q) \<and> y \<in> set (nodes Q)
      then Some (map (\<lambda>(q, xs). (q, tl (put_after y x (q # xs)))) Q) else None)"
| "list_exec cmp D (Op_insert_tail q x) Q =
     (if x \<in> D \<and> x \<notin> set (nodes Q) \<and> q \<in> fst ` set Q then Some (change q (\<lambda>xs. xs @ [x]) Q) else None)"
| "list_exec cmp D (Op_remove x) Q =
     (if x \<in> set (nodes Q) \<and> x \<notin> fst ` set Q then Some (map (\<lambda>(q, xs). (q, remove1 x xs)) Q) else None)"
| "list_exec cmp D (Op_split q x n) Q =
     (case map_of Q q of
        None \<Rightarrow> None
      | Some xs \<Rightarrow>
          if x \<in> set xs \<and> n \<in> D \<and> n \<notin> set (nodes Q)
          then Some ((n, dropWhile (\<lambda>y. y \<noteq> x) xs) # change q (takeWhile (\<lambda>y. y \<noteq> x)) Q) else None)"
| "list_exec cmp D (Op_add q n) Q =
     (case map_of Q n of
        None \<Rightarrow> None
      | Some ys \<Rightarrow>
          if q \<in> fst ` set Q \<and> q \<noteq> n then Some (change q (\<lambda>xs. xs @ ys) (filter (\<lambda>r. fst r \<noteq> n) Q)) else None)"
| "list_exec cmp D (Op_sort q) Q =
     (if q \<in> fst ` set Q then Some (change q (insertion_sort cmp) Q) else None)"

fun list_run :: "(addr \<Rightarrow> addr \<Rightarrow> int) \<Rightarrow> addr set \<Rightarrow> queue_op list \<Rightarrow> queues \<Rightarrow> queues option" where
  "list_run cmp D [] Q = Some Q"
| "list_run cmp D (a # as) Q = do { Q \<leftarrow> list_exec cmp D a Q; list_run cmp D as Q }"

text \<open>The nodes an operation brings into a queue, beside those the queues have.\<close>

fun op_takes :: "queue_op \<Rightarrow> addr list" where
  "op_takes (Op_init q) = [q]"
| "op_takes (Op_insert_after y x) = [x]"
| "op_takes (Op_insert_tail q x) = [x]"
| "op_takes (Op_remove x) = []"
| "op_takes (Op_split q x n) = [n]"
| "op_takes (Op_add q n) = []"
| "op_takes (Op_sort q) = []"

definition holds_queues :: "qheap \<Rightarrow> queues \<Rightarrow> bool" where
  "holds_queues h Q \<longleftrightarrow> distinct (nodes Q) \<and> (\<forall>(q, xs) \<in> set Q. ring h q xs)"

lemma nodes_simps [simp]: "nodes [] = []" "nodes ((q, xs) # Q) = q # xs @ nodes Q" "nodes (Q @ R) = nodes Q @ nodes R"
  by (simp_all add: nodes_def)

lemma nodes_iff: "x \<in> set (nodes Q) \<longleftrightarrow> (\<exists>(q, xs) \<in> set Q. x \<in> set (q # xs))"
  by (auto simp: nodes_def)

lemma change_at:
  assumes "distinct (nodes (Q @ (q, xs) # R))"
  shows "change q f (Q @ (q, xs) # R) = Q @ (q, f xs) # R"
proof -
  have "\<forall>r \<in> set Q \<union> set R. fst r \<noteq> q" using assms by (fastforce simp: nodes_iff)
  then have "map (\<lambda>(p, xs). (p, if p = q then f xs else xs)) Q = Q" "map (\<lambda>(p, xs). (p, if p = q then f xs else xs)) R = R"
    by (intro map_idI; force)+
  then show ?thesis by (simp add: change_def)
qed

text \<open>A step on one ring, and new nodes, leave the other queues as they are.\<close>

lemma holds_step:
  assumes "holds_queues h (Q @ (q, xs) # R)" "ring h' q xs'" "only_changes S h h'"
    and "S \<inter> set (nodes (Q @ R)) = {}" "set xs' \<inter> set (nodes (Q @ R)) = {}"
  shows "holds_queues h' (Q @ (q, xs') # R)"
proof -
  have "ring h' p ys" if "(p, ys) \<in> set (Q @ R)" for p ys
  proof (rule ring_frame)
    show "ring h p ys" using assms(1) that by (auto simp: holds_queues_def)
    have "set (p # ys) \<subseteq> set (nodes (Q @ R))" using that by (fastforce simp: nodes_iff)
    then show "\<forall>y \<in> set (p # ys). nxt h' y = nxt h y \<and> prv h' y = prv h y" using assms(3,4) by (auto simp: only_changes_def)
  qed
  moreover have "distinct (nodes (Q @ (q, xs') # R))" using assms(1,2,5) by (auto simp: holds_queues_def ring_def)
  ultimately show ?thesis using assms(2) by (auto simp: holds_queues_def)
qed

lemma holds_at:
  assumes "holds_queues h Q" "q \<in> fst ` set Q"
  obtains xs Q1 Q2 where "Q = Q1 @ (q, xs) # Q2" "ring h q xs" "distinct (nodes (Q1 @ (q, xs) # Q2))"
proof -
  from assms(2) obtain xs where "(q, xs) \<in> set Q" by auto
  then obtain Q1 Q2 where Q: "Q = Q1 @ (q, xs) # Q2" by (auto dest: split_list)
  show thesis by (rule that [OF Q]) (use assms(1) in \<open>simp_all add: Q holds_queues_def\<close>)
qed

lemma holds_node:
  assumes "holds_queues h Q" "y \<in> set (nodes Q)"
  obtains q xs Q1 Q2 where "Q = Q1 @ (q, xs) # Q2" "ring h q xs" "distinct (nodes (Q1 @ (q, xs) # Q2))" "y \<in> set (q # xs)"
proof -
  from assms(2) obtain q xs where q: "(q, xs) \<in> set Q" "y \<in> set (q # xs)" by (auto simp: nodes_iff)
  then have "q \<in> fst ` set Q" by force
  obtain Q1 Q2 where Q: "Q = Q1 @ (q, xs) # Q2" using q(1) by (auto dest: split_list)
  show thesis by (rule that [OF Q _ _ q(2)]) (use assms(1) in \<open>simp_all add: Q holds_queues_def\<close>)
qed

lemma put_after_at: "y \<notin> set us \<Longrightarrow> put_after y x (us @ y # vs) = us @ y # x # vs"
  by (induction us) auto

lemma put_after_absent: "y \<notin> set us \<Longrightarrow> put_after y x us = us"
  by (induction us) auto

lemma others_absent:
  assumes "distinct (nodes (Q @ (q, xs) # R))" "y \<in> set (q # xs)" "(p, ys) \<in> set (Q @ R)"
  shows "y \<notin> set (p # ys)"
  using assms by (fastforce simp: nodes_iff)

lemma insert_after_at:
  assumes "distinct (nodes (Q @ (q, us @ vs) # R))" "y = last (q # us)"
  shows "map (\<lambda>(q, xs). (q, tl (put_after y x (q # xs)))) (Q @ (q, us @ vs) # R) = Q @ (q, us @ x # vs) # R"
proof -
  have y: "y \<in> set (q # us @ vs)" using assms(2) last_in [of q us] by auto
  have "tl (put_after y x (p # ys)) = ys" if "(p, ys) \<in> set (Q @ R)" for p ys
    using others_absent [OF assms(1) y that] by (simp add: put_after_absent del: put_after.simps)
  then have "map (\<lambda>(q, xs). (q, tl (put_after y x (q # xs)))) Q = Q" "map (\<lambda>(q, xs). (q, tl (put_after y x (q # xs)))) R = R"
    by (intro map_idI; force)+
  moreover have "put_after y x (q # us @ vs) = q # us @ x # vs"
  proof -
    have e: "q # us = butlast (q # us) @ [y]" unfolding assms(2) by (rule append_butlast_last_id [symmetric]) simp
    have "y \<notin> set (butlast (q # us))" unfolding assms(2) using assms(1) by (intro last_not_butlast) auto
    then show ?thesis using put_after_at [of y "butlast (q # us)" x vs] e by (metis append_Cons append_assoc append_Nil)
  qed
  ultimately show ?thesis by (simp del: put_after.simps)
qed

lemma op_init_refines:
  assumes "list_exec cmp (dom h) (Op_init q) Q = Some Q'" "holds_queues h Q"
  shows "\<exists>h'. queue_exec cmp (Op_init q) h = Some h' \<and> holds_queues h' Q' \<and> only_changes (set (op_takes (Op_init q) @ nodes Q)) h h'"
proof -
  show ?thesis
  proof (cases "q \<in> dom h \<and> q \<notin> set (nodes Q)")
    case True
    then obtain h' where h': "ngx_queue_init q h = Some h'" "ring h' q []" "only_changes {q} h h'" using init_ring by blast
    have "ring h' p ys" if "(p, ys) \<in> set Q" for p ys
    proof (rule ring_frame)
      show "ring h p ys" using assms(2) that by (auto simp: holds_queues_def)
      have "set (p # ys) \<subseteq> set (nodes Q)" using that by (fastforce simp: nodes_iff)
      then show "\<forall>y \<in> set (p # ys). nxt h' y = nxt h y \<and> prv h' y = prv h y" using h'(3) True by (auto simp: only_changes_def)
    qed
    then have "holds_queues h' ((q, []) # Q)" using h'(2) True assms(2) by (auto simp: holds_queues_def)
    then show ?thesis using h' True assms(1) by (auto simp: only_changes_def)
  next
    case False
    then have q: "q \<in> fst ` set Q" "Q' = change q (\<lambda>_. []) Q" using assms(1) by (auto split: if_splits)
    from holds_at [OF assms(2) q(1)] obtain xs Q1 Q2 where Q: "Q = Q1 @ (q, xs) # Q2" "ring h q xs" "distinct (nodes (Q1 @ (q, xs) # Q2))" .
    have "q \<in> dom h" using ring_dom [OF Q(2)] by simp
    then obtain h' where h': "ngx_queue_init q h = Some h'" "ring h' q []" "only_changes {q} h h'" using init_ring by blast
    have "holds_queues h' (Q1 @ (q, []) # Q2)"
      by (rule holds_step [OF assms(2) [unfolded Q(1)] h'(2,3)]) (use Q(3) in auto)
    then show ?thesis using h' q Q by (auto simp: only_changes_def change_at)
  qed
qed

lemma op_insert_after_refines:
  assumes "list_exec cmp (dom h) (Op_insert_after y x) Q = Some Q'" "holds_queues h Q"
  shows "\<exists>h'. queue_exec cmp (Op_insert_after y x) h = Some h' \<and> holds_queues h' Q' \<and> only_changes (set (op_takes (Op_insert_after y x) @ nodes Q)) h h'"
proof -
  have x: "x \<in> dom h" "x \<notin> set (nodes Q)" "y \<in> set (nodes Q)" "Q' = map (\<lambda>(q, xs). (q, tl (put_after y x (q # xs)))) Q"
    using assms(1) by (auto split: if_splits)
  from holds_node [OF assms(2) x(3)] obtain q xs Q1 Q2 where
    Q: "Q = Q1 @ (q, xs) # Q2" "ring h q xs" "distinct (nodes (Q1 @ (q, xs) # Q2))" "y \<in> set (q # xs)" .
  obtain us vs where uv: "q # xs = us @ y # vs" using split_list [OF Q(4)] by blast
  define ws where "ws = tl (us @ [y])"
  have ws: "xs = ws @ vs" "y = last (q # ws)" using uv by (cases us; simp add: ws_def)+
  have "ring h q (ws @ vs)" "x \<notin> set (q # ws @ vs)" using Q(1,2) x(2) ws(1) by auto
  from insert_head_ring [OF this x(1)] obtain h' where h': "ngx_queue_insert_head y x h = Some h'" "ring h' q (ws @ x # vs)"
    "only_changes (set (q # ws @ x # vs)) h h'" unfolding ws(2) by blast
  have "holds_queues h' (Q1 @ (q, ws @ x # vs) # Q2)"
    by (rule holds_step [OF assms(2) [unfolded Q(1)] h'(2,3)]) (use Q(1,3) x(2) ws(1) in auto)
  then show ?thesis using h' x(4) Q ws(1) insert_after_at [OF _ ws(2), of Q1 vs Q2 x] by (auto simp: only_changes_def)
qed

lemma op_insert_tail_refines:
  assumes "list_exec cmp (dom h) (Op_insert_tail q x) Q = Some Q'" "holds_queues h Q"
  shows "\<exists>h'. queue_exec cmp (Op_insert_tail q x) h = Some h' \<and> holds_queues h' Q' \<and> only_changes (set (op_takes (Op_insert_tail q x) @ nodes Q)) h h'"
proof -
  have x: "x \<in> dom h" "x \<notin> set (nodes Q)" "q \<in> fst ` set Q" "Q' = change q (\<lambda>xs. xs @ [x]) Q"
    using assms(1) by (auto split: if_splits)
  from holds_at [OF assms(2) x(3)] obtain xs Q1 Q2 where Q: "Q = Q1 @ (q, xs) # Q2" "ring h q xs" "distinct (nodes (Q1 @ (q, xs) # Q2))" .
  have "x \<notin> set (q # xs)" using Q(1) x(2) by auto
  from insert_tail_ring [OF Q(2) this x(1)] obtain h' where h': "ngx_queue_insert_tail q x h = Some h'" "ring h' q (xs @ [x])"
    "only_changes (set (q # xs @ [x])) h h'" by blast
  have "holds_queues h' (Q1 @ (q, xs @ [x]) # Q2)"
    by (rule holds_step [OF assms(2) [unfolded Q(1)] h'(2,3)]) (use Q(1,3) x(2) in auto)
  then show ?thesis using h' x(4) Q by (auto simp: only_changes_def change_at)
qed

lemma op_remove_refines:
  assumes "list_exec cmp (dom h) (Op_remove x) Q = Some Q'" "holds_queues h Q"
  shows "\<exists>h'. queue_exec cmp (Op_remove x) h = Some h' \<and> holds_queues h' Q' \<and> only_changes (set (op_takes (Op_remove x) @ nodes Q)) h h'"
proof -
  have x: "x \<in> set (nodes Q)" "x \<notin> fst ` set Q" "Q' = map (\<lambda>(q, xs). (q, remove1 x xs)) Q"
    using assms(1) by (auto split: if_splits)
  from holds_node [OF assms(2) x(1)] obtain q xs Q1 Q2 where
    Q: "Q = Q1 @ (q, xs) # Q2" "ring h q xs" "distinct (nodes (Q1 @ (q, xs) # Q2))" "x \<in> set (q # xs)" .
  have "x \<in> set xs" using Q(1,4) x(2) by force
  then obtain us vs where uv: "xs = us @ x # vs" "x \<notin> set us" by (meson split_list_first)
  from remove_ring [of h q us x vs] Q(2) uv(1) obtain h' where h': "ngx_queue_remove x h = Some h'" "ring h' q (us @ vs)"
    "only_changes (set (q # us @ vs)) h h'" by blast
  have "holds_queues h' (Q1 @ (q, us @ vs) # Q2)"
    by (rule holds_step [OF assms(2) [unfolded Q(1)] h'(2,3)]) (use Q(3) uv(1) in auto)
  moreover have "Q' = Q1 @ (q, us @ vs) # Q2"
  proof -
    have "remove1 x ys = ys" if "(p, ys) \<in> set (Q1 @ Q2)" for p ys
      using others_absent [OF Q(3,4) that] by (simp add: remove1_idem)
    then have "map (\<lambda>(q, xs). (q, remove1 x xs)) Q1 = Q1" "map (\<lambda>(q, xs). (q, remove1 x xs)) Q2 = Q2" by (intro map_idI; force)+
    then show ?thesis using x(3) Q(1) uv by (simp add: remove1_append)
  qed
  moreover have "only_changes (set (op_takes (Op_remove x) @ nodes Q)) h h'"
    by (rule only_changes_mono [OF h'(3)]) (use Q(1) uv(1) in auto)
  ultimately show ?thesis using h'(1) by auto
qed

lemma op_split_refines:
  assumes "list_exec cmp (dom h) (Op_split q x n) Q = Some Q'" "holds_queues h Q"
  shows "\<exists>h'. queue_exec cmp (Op_split q x n) h = Some h' \<and> holds_queues h' Q' \<and> only_changes (set (op_takes (Op_split q x n) @ nodes Q)) h h'"
proof -
  obtain xs where x: "map_of Q q = Some xs" "x \<in> set xs" "n \<in> dom h" "n \<notin> set (nodes Q)"
    "Q' = (n, dropWhile (\<lambda>y. y \<noteq> x) xs) # change q (takeWhile (\<lambda>y. y \<noteq> x)) Q"
    using assms(1) by (auto split: if_splits option.splits)
  from x(1) have "(q, xs) \<in> set Q" by (rule map_of_SomeD)
  then obtain Q1 Q2 where Q: "Q = Q1 @ (q, xs) # Q2" by (auto dest: split_list)
  have r: "ring h q xs" "distinct (nodes (Q1 @ (q, xs) # Q2))" using assms(2) by (auto simp: Q holds_queues_def)
  obtain us vs where uv: "xs = us @ x # vs" "x \<notin> set us" using x(2) by (meson split_list_first)
  have tw: "takeWhile (\<lambda>y. y \<noteq> x) xs = us" "dropWhile (\<lambda>y. y \<noteq> x) xs = x # vs" using uv by (auto simp: takeWhile_append dropWhile_append)
  have "ring h q (us @ x # vs)" "n \<notin> set (q # us @ x # vs)" using r(1) x(4) Q uv(1) by auto
  from split_ring [OF this x(3)] obtain h' where h': "ngx_queue_split q x n h = Some h'" "ring h' q us" "ring h' n (x # vs)"
    "only_changes (set (n # q # us @ x # vs)) h h'" by blast
  have "holds_queues h' (Q1 @ (q, us) # Q2)"
    by (rule holds_step [OF assms(2) [unfolded Q(1)] h'(2,4)]) (use Q r(2) x(4) uv(1) in auto)
  then have "holds_queues h' ((n, x # vs) # Q1 @ (q, us) # Q2)"
    using h'(3) r(2) x(4) uv(1) Q by (auto simp: holds_queues_def)
  moreover have "only_changes (set (op_takes (Op_split q x n) @ nodes Q)) h h'"
    by (rule only_changes_mono [OF h'(4)]) (use Q uv(1) in auto)
  ultimately show ?thesis using h'(1) x(5) tw r(2) Q by (auto simp: change_at)
qed

lemma nodes_filter: "set (nodes (filter P L)) \<subseteq> set (nodes L)"
  by (auto simp: nodes_def)

lemma distinct_nodes_filter: "distinct (nodes L) \<Longrightarrow> distinct (nodes (filter P L))"
proof (induction L)
  case (Cons r L)
  obtain q xs where "r = (q, xs)" by (cases r)
  with Cons nodes_filter [of P L] show ?case by (simp add: disjoint_iff) blast
qed simp

lemma op_add_refines:
  assumes "list_exec cmp (dom h) (Op_add q n) Q = Some Q'" "holds_queues h Q"
  shows "\<exists>h'. queue_exec cmp (Op_add q n) h = Some h' \<and> holds_queues h' Q' \<and> only_changes (set (op_takes (Op_add q n) @ nodes Q)) h h'"
proof -
  obtain ys where x: "map_of Q n = Some ys" "q \<in> fst ` set Q" "q \<noteq> n" "Q' = change q (\<lambda>xs. xs @ ys) (filter (\<lambda>r. fst r \<noteq> n) Q)"
    using assms(1) by (auto split: if_splits option.splits)
  from holds_at [OF assms(2) x(2)] obtain xs Q1 Q2 where Q: "Q = Q1 @ (q, xs) # Q2" "ring h q xs" "distinct (nodes (Q1 @ (q, xs) # Q2))" .
  have n: "(n, ys) \<in> set Q" using x(1) by (rule map_of_SomeD)
  then have rn: "ring h n ys" using assms(2) by (auto simp: holds_queues_def)
  have nin: "(n, ys) \<in> set (Q1 @ Q2)" using n Q(1) x(3) by auto
  define R1 R2 where "R1 = filter (\<lambda>r. fst r \<noteq> n) Q1" and "R2 = filter (\<lambda>r. fst r \<noteq> n) Q2"
  have f: "filter (\<lambda>r. fst r \<noteq> n) Q = R1 @ (q, xs) # R2" using Q(1) x(3) by (simp add: R1_def R2_def)
  have dis: "set (q # xs) \<inter> set (n # ys) = {}" using others_absent [OF Q(3) _ nin] by auto
  have sub: "set (nodes R1) \<subseteq> set (nodes Q1)" "set (nodes R2) \<subseteq> set (nodes Q2)" by (auto simp: R1_def R2_def nodes_def)
  have hold: "holds_queues h (R1 @ (q, xs) # R2)"
    using assms(2) distinct_nodes_filter [of Q "\<lambda>r. fst r \<noteq> n"] f [symmetric] by (auto simp: holds_queues_def)
  have away: "set (n # ys) \<inter> set (nodes (R1 @ R2)) = {}"
  proof -
    have "z \<notin> set (p # zs)" if "z \<in> set (n # ys)" "(p, zs) \<in> set (R1 @ R2)" for z p zs
    proof -
      obtain L M where L: "Q = L @ (n, ys) # M" using n by (auto dest: split_list)
      have "(p, zs) \<in> set Q" "p \<noteq> n" using that(2) Q(1) by (auto simp: R1_def R2_def)
      then have m: "(p, zs) \<in> set (L @ M)" using L by auto
      have d: "distinct (nodes (L @ (n, ys) # M))" using assms(2) unfolding holds_queues_def L by blast
      show ?thesis by (rule others_absent [OF d that(1) m])
    qed
    then show ?thesis unfolding disjoint_iff nodes_iff by blast
  qed
  from add_ring [OF Q(2) rn dis] obtain h' where h': "ngx_queue_add q n h = Some h'" "ring h' q (xs @ ys)" "only_changes (set (q # xs @ n # ys)) h h'" by blast
  have "set (q # xs) \<inter> set (nodes (R1 @ R2)) = {}" using Q(3) sub by auto
  then have "holds_queues h' (R1 @ (q, xs @ ys) # R2)"
    by (intro holds_step [OF hold h'(2,3)]) (use away in auto)
  moreover have "only_changes (set (op_takes (Op_add q n) @ nodes Q)) h h'"
  proof (rule only_changes_mono [OF h'(3)])
    have "set (n # ys) \<subseteq> set (nodes Q)" using n by (fastforce simp: nodes_iff)
    then show "set (q # xs @ n # ys) \<subseteq> set (op_takes (Op_add q n) @ nodes Q)" using Q(1) by auto
  qed
  moreover have "Q' = R1 @ (q, xs @ ys) # R2"
    using x(4) f hold by (simp add: change_at holds_queues_def)
  ultimately show ?thesis using h'(1) by auto
qed

lemma op_sort_refines:
  assumes "list_exec cmp (dom h) (Op_sort q) Q = Some Q'" "holds_queues h Q"
  shows "\<exists>h'. queue_exec cmp (Op_sort q) h = Some h' \<and> holds_queues h' Q' \<and> only_changes (set (op_takes (Op_sort q) @ nodes Q)) h h'"
proof -
  have x: "q \<in> fst ` set Q" "Q' = change q (insertion_sort cmp) Q" using assms(1) by (auto split: if_splits)
  from holds_at [OF assms(2) x(1)] obtain xs Q1 Q2 where Q: "Q = Q1 @ (q, xs) # Q2" "ring h q xs" "distinct (nodes (Q1 @ (q, xs) # Q2))" .
  from sort_ring [OF Q(2)] obtain h' where h': "ngx_queue_sort cmp q h = Some h'" "ring h' q (insertion_sort cmp xs)" "only_changes (set (q # xs)) h h'" by blast
  have "set (insertion_sort cmp xs) = set xs" by (rule insertion_sort_set)
  then have "holds_queues h' (Q1 @ (q, insertion_sort cmp xs) # Q2)"
    by (intro holds_step [OF assms(2) [unfolded Q(1)] h'(2,3)]) (use Q(3) in auto)
  then show ?thesis using h' x Q by (auto simp: only_changes_def change_at)
qed

lemmas queue_refines = op_init_refines op_insert_after_refines op_insert_tail_refines op_remove_refines op_split_refines op_add_refines op_sort_refines

lemma list_exec_refines:
  assumes "list_exec cmp (dom h) a Q = Some Q'" "holds_queues h Q"
  shows "\<exists>h'. queue_exec cmp a h = Some h' \<and> holds_queues h' Q' \<and> only_changes (set (op_takes a @ nodes Q)) h h'"
  using assms by (induct a) (rule queue_refines; assumption)+

lemma nodes_map:
  assumes "\<And>q xs. set (f q xs) \<subseteq> S \<union> set (q # xs)"
  shows "set (nodes (map (\<lambda>(q, xs). (q, f q xs)) Q)) \<subseteq> S \<union> set (nodes Q)"
proof (induction Q)
  case (Cons r Q)
  obtain q xs where "r = (q, xs)" by (cases r)
  with Cons assms [of q xs] show ?case by auto
qed simp

lemma nodes_change:
  assumes "\<And>xs. set (f xs) \<subseteq> S \<union> set xs"
  shows "set (nodes (change q f Q)) \<subseteq> S \<union> set (nodes Q)"
proof -
  have "set (if p = q then f xs else xs) \<subseteq> S \<union> set (p # xs)" for p xs using assms [of xs] by auto
  from nodes_map [of "\<lambda>p xs. if p = q then f xs else xs", OF this] show ?thesis by (simp add: change_def)
qed

lemma put_after_set: "set (put_after y x xs) \<subseteq> insert x (set xs)"
  by (induction xs) auto

lemma list_exec_nodes:
  assumes "list_exec cmp D a Q = Some Q'"
  shows "set (nodes Q') \<subseteq> set (op_takes a @ nodes Q)"
proof (cases a)
  case (Op_init q)
  with assms nodes_change [of "\<lambda>_. []" "{}" q Q] show ?thesis by (auto split: if_splits)
next
  case (Op_insert_after y x)
  have "set (tl (put_after y x (q # xs))) \<subseteq> {x} \<union> set (q # xs)" for q xs
    using put_after_set [of y x "q # xs"] list.set_sel(2) [of "put_after y x (q # xs)"]
    by (cases "put_after y x (q # xs)") auto
  from nodes_map [of "\<lambda>q xs. tl (put_after y x (q # xs))", OF this, of Q] Op_insert_after assms
  show ?thesis by (auto simp del: put_after.simps split: if_splits)
next
  case (Op_insert_tail q x)
  with assms nodes_change [of "\<lambda>xs. xs @ [x]" "{x}" q Q] show ?thesis by (auto split: if_splits)
next
  case (Op_remove x)
  with assms nodes_map [of "\<lambda>q xs. remove1 x xs" "{}" Q] set_remove1_subset [of x] show ?thesis
    by (fastforce split: if_splits)
next
  case (Op_split q x n)
  then obtain xs where xs: "map_of Q q = Some xs" "Q' = (n, dropWhile (\<lambda>y. y \<noteq> x) xs) # change q (takeWhile (\<lambda>y. y \<noteq> x)) Q"
    using assms by (auto split: if_splits option.splits)
  have "set (dropWhile (\<lambda>y. y \<noteq> x) xs) \<subseteq> set (nodes Q)"
    using map_of_SomeD [OF xs(1)] set_dropWhileD [of _ "\<lambda>y. y \<noteq> x" xs] by (fastforce simp: nodes_iff)
  moreover have "set (nodes (change q (takeWhile (\<lambda>y. y \<noteq> x)) Q)) \<subseteq> {} \<union> set (nodes Q)"
    by (rule nodes_change) (auto dest: set_takeWhileD)
  ultimately show ?thesis using xs(2) Op_split by auto
next
  case (Op_add q n)
  then obtain ys where ys: "map_of Q n = Some ys" "Q' = change q (\<lambda>xs. xs @ ys) (filter (\<lambda>r. fst r \<noteq> n) Q)"
    using assms by (auto split: if_splits option.splits)
  have "set ys \<subseteq> set (nodes Q)" using map_of_SomeD [OF ys(1)] by (fastforce simp: nodes_iff)
  with nodes_change [of "\<lambda>xs. xs @ ys" "set ys" q "filter (\<lambda>r. fst r \<noteq> n) Q"] nodes_filter [of "\<lambda>r. fst r \<noteq> n" Q] ys(2) Op_add
  show ?thesis by auto
next
  case (Op_sort q)
  with assms nodes_change [of "insertion_sort cmp" "{}" q Q] insertion_sort_set [of cmp] show ?thesis
    by (auto split: if_splits)
qed

lemma list_run_refines:
  assumes "list_run cmp (dom h) as Q = Some Q'" "holds_queues h Q"
  shows "\<exists>h'. queue_run cmp as h = Some h' \<and> holds_queues h' Q'
    \<and> only_changes (set (concat (map op_takes as) @ nodes Q)) h h'"
  using assms
proof (induction as arbitrary: h Q)
  case (Cons a as)
  from Cons.prems(1) obtain R where R: "list_exec cmp (dom h) a Q = Some R" "list_run cmp (dom h) as R = Some Q'"
    by (auto simp: bind_eq_Some_conv)
  from list_exec_refines [OF R(1) Cons.prems(2)] obtain h1 where h1: "queue_exec cmp a h = Some h1" "holds_queues h1 R"
    and c1: "only_changes (set (op_takes a @ nodes Q)) h h1" by blast
  from c1 have "dom h1 = dom h" by (simp add: only_changes_def)
  with Cons.IH [of h1 R] R(2) h1(2) obtain h' where h': "queue_run cmp as h1 = Some h'" "holds_queues h' Q'"
    and c2: "only_changes (set (concat (map op_takes as) @ nodes R)) h1 h'" by auto
  let ?S = "set (concat (map op_takes (a # as)) @ nodes Q)"
  have "only_changes ?S h h1" using c1 by (rule only_changes_mono) auto
  moreover have "only_changes ?S h1 h'" using c2 by (rule only_changes_mono) (use list_exec_nodes [OF R(1)] in auto)
  ultimately have "only_changes ?S h h'" by (rule only_changes_trans)
  then show ?case using h1(1) h' by simp
qed (simp add: only_changes_def)

text \<open>
  C21. Programs on queues do what they mean for lists: each sequence of initialisations, insertions, removals,
  splits, concatenations and sorts that uses no node wrongly runs without undefined behaviour, and leaves every
  queue linked in both directions through exactly the nodes of its list, in order; the queries answer for it.
  No other node is touched: cut the sequence anywhere, and the second part leaves both links of every node as they
  were that is in no queue at the cut (it may have been before) and that the second part brings into none.
\<close>

theorem queue_refines_lists:
  assumes "list_run cmp (dom h) as [] = Some R" "list_run cmp (dom h) bs R = Some Q"
  shows "\<exists>h1 h'. queue_run cmp as h = Some h1 \<and> queue_run cmp bs h1 = Some h' \<and> queue_run cmp (as @ bs) h = Some h'
    \<and> dom h' = dom h
    \<and> (\<forall>(q, xs) \<in> set Q. ring h' q xs
       \<and> ngx_queue_empty q h' = Some (xs = [])
       \<and> ngx_queue_middle q h' = Some (if xs = [] then q else xs ! (length xs div 2)))
    \<and> (\<forall>y. y \<notin> set (nodes R) \<longrightarrow> y \<notin> set (concat (map op_takes bs)) \<longrightarrow> h' y = h1 y)"
proof -
  have "holds_queues h []" by (simp add: holds_queues_def)
  from list_run_refines [OF assms(1) this] obtain h1 where h1: "queue_run cmp as h = Some h1" "holds_queues h1 R" "dom h1 = dom h"
    by (auto simp: only_changes_def)
  from list_run_refines [of cmp h1 bs R Q] assms(2) h1 obtain h' where h': "queue_run cmp bs h1 = Some h'" "holds_queues h' Q"
    and c: "only_changes (set (concat (map op_takes bs) @ nodes R)) h1 h'" by auto
  from c have "dom h' = dom h" "\<forall>y. y \<notin> set (nodes R) \<longrightarrow> y \<notin> set (concat (map op_takes bs)) \<longrightarrow> h' y = h1 y"
    using h1(3) only_changes_at [OF c] by (auto simp: only_changes_def)
  moreover have "queue_run cmp (as @ bs) h = Some h'"
    using h1(1) h'(1) by (induction as arbitrary: h) (auto simp: bind_eq_Some_conv)
  ultimately show ?thesis using h1(1) h' empty_ring middle_ring by (fastforce simp: holds_queues_def)
qed

definition blank_heap :: "nat \<Rightarrow> qheap" where
  "blank_heap n = (\<lambda>x. if x < n then Some \<lparr>q_prev = 0, q_next = 0\<rparr> else None)"

theorem queue_refines_lists_witness:
  "\<exists>h1 h'. queue_run (\<lambda>x y. int x - int y)
       [Op_init 0, Op_insert_after 0 4, Op_insert_tail 0 2, Op_insert_after 4 5, Op_sort 0, Op_split 0 4 1, Op_remove 5] (blank_heap 6) = Some h1
     \<and> queue_run (\<lambda>x y. int x - int y) [Op_add 1 0] h1 = Some h'
     \<and> ring h' 1 [4, 2] \<and> h' 5 = h1 5 \<and> h' 3 = h1 3"
proof -
  let ?c = "\<lambda>x y. int x - int y"
  let ?as = "[Op_init 0, Op_insert_after 0 4, Op_insert_tail 0 2, Op_insert_after 4 5, Op_sort 0, Op_split 0 4 1, Op_remove 5]"
  have d: "dom (blank_heap 6) = {..< 6}" by (auto simp: blank_heap_def dom_def)
  have "list_run ?c (dom (blank_heap 6)) ?as [] = Some [(1, [4]), (0, [2])]"
    unfolding d by (simp add: change_def insertion_sort_def insert_behind_def not_greater_def)
  moreover have "list_run ?c (dom (blank_heap 6)) [Op_add 1 0] [(1, [4]), (0, [2])] = Some [(1, [4, 2])]"
    by (simp add: change_def)
  ultimately obtain h1 h' where "queue_run ?c ?as (blank_heap 6) = Some h1" "queue_run ?c [Op_add 1 0] h1 = Some h'"
    "ring h' 1 [4, 2]" "\<forall>y. y \<notin> set (nodes [(1, [4]), (0, [2])]) \<longrightarrow> y \<notin> set (concat (map op_takes [Op_add 1 0])) \<longrightarrow> h' y = h1 y"
    using queue_refines_lists [of ?c "blank_heap 6" ?as "[(1, [4]), (0, [2])]" "[Op_add 1 0]" "[(1, [4, 2])]"] by auto
  then show ?thesis by (intro exI [of _ h1] exI [of _ h']) simp
qed

text \<open>
  C22. \<^verbatim>\<open>ngx_queue_sort\<close> ends, and when the sign of the comparison is that of a linear order of a key, it links
  the nodes in the order of the stable sort by that key.
\<close>

theorem queue_sort_stable:
  fixes key :: "addr \<Rightarrow> 'k :: linorder"
  assumes "ring h q xs" "\<And>x y. cmp y x \<le> 0 \<longleftrightarrow> key y \<le> key x"
  shows "\<exists>h'. ngx_queue_sort cmp q h = Some h' \<and> ring h' q (sort_key key xs)"
  using sort_ring [OF assms(1), of cmp] insertion_sort_stable [of xs cmp key, OF assms(2)] by auto

definition sample_ring :: qheap where
  "sample_ring = (\<lambda>x. if x \<le> 3 then Some \<lparr>q_prev = (x + 3) mod 4, q_next = (x + 1) mod 4\<rparr> else None)"

theorem queue_sort_stable_witness:
  "\<exists>h'. ngx_queue_sort (\<lambda>x y. int (y div 2) - int (x div 2)) 0 sample_ring = Some h' \<and> ring h' 0 [2, 3, 1]"
proof -
  have "ring sample_ring 0 [1, 2, 3]" by (simp add: ring_def cycle_def sample_ring_def nxt_def prv_def)
  from queue_sort_stable [OF this, of "\<lambda>x y. int (y div 2) - int (x div 2)" "\<lambda>x. - int (x div 2)"] show ?thesis
    by (simp add: sort_key_def)
qed

end
