(* ===== verification/Ngx_Radix.thy ===== *)
theory Ngx_Radix
  imports Ngx_Inet
begin

text \<open>
  Radix trees (\<^verbatim>\<open>ngx_radix_tree.c\<close>): binary tries over the bits of addresses, in memory that the tree allocates
  by pages and keeps in a free list. The heap maps the address of a node to its contents; an access to any
  other address, as through a null pointer, is undefined behaviour, the value \<open>None\<close>.
\<close>

section \<open>The heap\<close>

type_synonym addr = nat

definition NGX_RADIX_NO_VALUE :: u64 where
  "NGX_RADIX_NO_VALUE = - 1"

record radix_node =
  r_right :: "addr option"
  r_left :: "addr option"
  r_parent :: "addr option"
  r_value :: u64

type_synonym rheap = "addr \<rightharpoonup> radix_node"

text \<open>
  The tree. \<open>t_pages\<close> are the addresses of the pages that the pool can still give (none makes \<^verbatim>\<open>ngx_pmemalign\<close> fail),
  \<open>t_junk\<close> what their memory holds; \<open>t_size\<close> counts nodes, of which a page has \<open>page_nodes\<close>.
\<close>

record radix_tree =
  t_root :: addr
  t_pages :: "addr list"
  t_junk :: radix_node
  t_free :: "addr option"
  t_start :: addr
  t_size :: nat

definition page_nodes :: nat where
  "page_nodes = 128"

definition set_right :: "addr \<Rightarrow> addr option \<Rightarrow> rheap \<Rightarrow> rheap option" where
  "set_right a p h = map_option (\<lambda>n. h(a \<mapsto> n\<lparr>r_right := p\<rparr>)) (h a)"

definition set_left :: "addr \<Rightarrow> addr option \<Rightarrow> rheap \<Rightarrow> rheap option" where
  "set_left a p h = map_option (\<lambda>n. h(a \<mapsto> n\<lparr>r_left := p\<rparr>)) (h a)"

definition set_val :: "addr \<Rightarrow> u64 \<Rightarrow> rheap \<Rightarrow> rheap option" where
  "set_val a v h = map_option (\<lambda>n. h(a \<mapsto> n\<lparr>r_value := v\<rparr>)) (h a)"

definition set_node :: "addr \<Rightarrow> radix_node \<Rightarrow> rheap \<Rightarrow> rheap option" where
  "set_node a n h = map_option (\<lambda>_. h(a \<mapsto> n)) (h a)"

section \<open>Allocation\<close>

definition take_fresh :: "radix_tree \<Rightarrow> rheap \<Rightarrow> addr option \<times> radix_tree \<times> rheap" where
  "take_fresh T h = (Some (t_start T), T\<lparr>t_start := t_start T + 1, t_size := t_size T - 1\<rparr>, h)"

definition ngx_radix_alloc :: "radix_tree \<Rightarrow> rheap \<Rightarrow> (addr option \<times> radix_tree \<times> rheap) option" where
  "ngx_radix_alloc T h =
     (case t_free T of
        Some p \<Rightarrow> do { n \<leftarrow> h p; Some (Some p, T\<lparr>t_free := r_right n\<rparr>, h) }
      | None \<Rightarrow>
          if t_size T < 1 then
            (case t_pages T of
               [] \<Rightarrow> Some (None, T\<lparr>t_start := 0\<rparr>, h)
             | s # ps \<Rightarrow>
                 Some (take_fresh (T\<lparr>t_pages := ps, t_start := s, t_size := page_nodes\<rparr>)
                   (\<lambda>x. if s \<le> x \<and> x < s + page_nodes then Some (t_junk T) else h x)))
          else Some (take_fresh T h))"

section \<open>Trees of IPv4 addresses\<close>

text \<open>The first loop of the insertion: the last node, whether \<open>next\<close> is not null, and the bit.\<close>

lemma shift_less: "mbit AND msk \<noteq> (0 :: 'a::len word) \<Longrightarrow> unat (drop_bit 1 mbit) < unat mbit"
proof -
  assume "mbit AND msk \<noteq> 0"
  then have "unat mbit \<noteq> 0" by (auto simp: unat_eq_zero)
  then have "unat mbit div 2 < unat mbit" by linarith
  then show ?thesis unfolding unat_drop_bit_eq unfolding drop_bit_eq_div power_one_right .
qed

function radix32_walk :: "u32 \<Rightarrow> u32 \<Rightarrow> rheap \<Rightarrow> u32 \<Rightarrow> addr \<Rightarrow> (addr \<times> bool \<times> u32) option" where
  "radix32_walk key msk h mbit node =
     (if mbit AND msk \<noteq> 0 then
        do { n \<leftarrow> h node;
             (case (if key AND mbit \<noteq> 0 then r_right n else r_left n) of
                None \<Rightarrow> Some (node, False, mbit)
              | Some next \<Rightarrow> radix32_walk key msk h (drop_bit 1 mbit) next) }
      else Some (node, True, mbit))"
  by pat_completeness auto
termination by (relation "measure (\<lambda>(key, msk, h, mbit, node). unat mbit)") (auto intro: shift_less [unfolded One_nat_def])

definition new_node :: "addr \<Rightarrow> radix_node" where
  "new_node node = \<lparr>r_right = None, r_left = None, r_parent = Some node, r_value = NGX_RADIX_NO_VALUE\<rparr>"

text \<open>The second loop: the last node, or \<open>None\<close> when the memory is used up.\<close>

function radix32_grow :: "u32 \<Rightarrow> u32 \<Rightarrow> radix_tree \<Rightarrow> rheap \<Rightarrow> u32 \<Rightarrow> addr \<Rightarrow> (addr option \<times> radix_tree \<times> rheap) option" where
  "radix32_grow key msk T h mbit node =
     (if mbit AND msk \<noteq> 0 then
        do { (next, T, h) \<leftarrow> ngx_radix_alloc T h;
             (case next of
                None \<Rightarrow> Some (None, T, h)
              | Some next \<Rightarrow>
                  do { h \<leftarrow> set_node next (new_node node) h;
                       h \<leftarrow> (if key AND mbit \<noteq> 0 then set_right node (Some next) h else set_left node (Some next) h);
                       radix32_grow key msk T h (drop_bit 1 mbit) next }) }
      else Some (Some node, T, h))"
  by pat_completeness auto
termination by (relation "measure (\<lambda>(key, msk, T, h, mbit, node). unat mbit)") (auto intro: shift_less [unfolded One_nat_def])

definition radix_store :: "u64 \<Rightarrow> radix_tree \<Rightarrow> rheap \<Rightarrow> addr \<Rightarrow> (int \<times> radix_tree \<times> rheap) option" where
  "radix_store v T h node =
     do { n \<leftarrow> h node;
          if r_value n \<noteq> NGX_RADIX_NO_VALUE then Some (NGX_BUSY, T, h)
          else do { h \<leftarrow> set_val node v h; Some (NGX_OK, T, h) } }"

definition ngx_radix32tree_insert :: "u32 \<Rightarrow> u32 \<Rightarrow> u64 \<Rightarrow> radix_tree \<Rightarrow> rheap \<Rightarrow> (int \<times> radix_tree \<times> rheap) option" where
  "ngx_radix32tree_insert key msk v T h =
     do { (node, found, mbit) \<leftarrow> radix32_walk key msk h 0x80000000 (t_root T);
          if found then radix_store v T h node
          else
            do { (node, T, h) \<leftarrow> radix32_grow key msk T h mbit node;
                 (case node of
                    None \<Rightarrow> Some (NGX_ERROR, T, h)
                  | Some node \<Rightarrow> do { h \<leftarrow> set_val node v h; Some (NGX_OK, T, h) }) } }"

text \<open>The loop that removes a leaf and the empty nodes above it.\<close>

partial_function (option) radix_prune :: "radix_tree \<Rightarrow> rheap \<Rightarrow> addr \<Rightarrow> (radix_tree \<times> rheap) option" where
  "radix_prune T h node =
     do { n \<leftarrow> h node; p \<leftarrow> r_parent n; pn \<leftarrow> h p;
          h \<leftarrow> (if r_right pn = Some node then set_right p None h else set_left p None h);
          h \<leftarrow> set_right node (t_free T) h;
          let T = T\<lparr>t_free := Some node\<rparr>;
          pn \<leftarrow> h p;
          if r_right pn \<noteq> None \<or> r_left pn \<noteq> None then Some (T, h)
          else if r_value pn \<noteq> NGX_RADIX_NO_VALUE then Some (T, h)
          else if r_parent pn = None then Some (T, h)
          else radix_prune T h p }"

text \<open>The part of the deletion that both kinds of trees share.\<close>

definition radix_remove :: "radix_tree \<Rightarrow> rheap \<Rightarrow> addr option \<Rightarrow> (int \<times> radix_tree \<times> rheap) option" where
  "radix_remove T h node =
     (case node of
        None \<Rightarrow> Some (NGX_ERROR, T, h)
      | Some node \<Rightarrow>
          do { n \<leftarrow> h node;
               if r_right n \<noteq> None \<or> r_left n \<noteq> None then
                 if r_value n \<noteq> NGX_RADIX_NO_VALUE
                 then do { h \<leftarrow> set_val node NGX_RADIX_NO_VALUE h; Some (NGX_OK, T, h) }
                 else Some (NGX_ERROR, T, h)
               else do { (T, h) \<leftarrow> radix_prune T h node; Some (NGX_OK, T, h) } })"

function radix32_seek :: "u32 \<Rightarrow> u32 \<Rightarrow> rheap \<Rightarrow> u32 \<Rightarrow> addr option \<Rightarrow> addr option option" where
  "radix32_seek key msk h mbit node =
     (if node \<noteq> None \<and> mbit AND msk \<noteq> 0 then
        do { n \<leftarrow> h (the node);
             radix32_seek key msk h (drop_bit 1 mbit) (if key AND mbit \<noteq> 0 then r_right n else r_left n) }
      else Some node)"
  by pat_completeness auto
termination by (relation "measure (\<lambda>(key, msk, h, mbit, node). unat mbit)") (auto intro: shift_less [unfolded One_nat_def])

definition ngx_radix32tree_delete :: "u32 \<Rightarrow> u32 \<Rightarrow> radix_tree \<Rightarrow> rheap \<Rightarrow> (int \<times> radix_tree \<times> rheap) option" where
  "ngx_radix32tree_delete key msk T h =
     do { node \<leftarrow> radix32_seek key msk h 0x80000000 (Some (t_root T)); radix_remove T h node }"

partial_function (option) radix32_find_loop :: "u32 \<Rightarrow> rheap \<Rightarrow> u32 \<Rightarrow> u64 \<Rightarrow> addr option \<Rightarrow> u64 option" where
  "radix32_find_loop key h mbit value node =
     (case node of
        None \<Rightarrow> Some value
      | Some a \<Rightarrow>
          do { n \<leftarrow> h a;
               radix32_find_loop key h (drop_bit 1 mbit) (if r_value n \<noteq> NGX_RADIX_NO_VALUE then r_value n else value)
                 (if key AND mbit \<noteq> 0 then r_right n else r_left n) })"

definition ngx_radix32tree_find :: "u32 \<Rightarrow> radix_tree \<Rightarrow> rheap \<Rightarrow> u64 option" where
  "ngx_radix32tree_find key T h = radix32_find_loop key h 0x80000000 NGX_RADIX_NO_VALUE (Some (t_root T))"

section \<open>Trees of IPv6 addresses\<close>

text \<open>The cursor is the index of a byte and a bit of it; \<open>key\<close> and \<open>msk\<close> are what the pointers point to.\<close>

function radix128_walk :: "bytes \<Rightarrow> bytes \<Rightarrow> rheap \<Rightarrow> nat \<Rightarrow> u_char \<Rightarrow> addr \<Rightarrow> (addr \<times> bool \<times> nat \<times> u_char) option" where
  "radix128_walk key msk h i mbit node =
     do { mi \<leftarrow> rd msk i;
          if mbit AND mi \<noteq> 0 then
            do { ki \<leftarrow> rd key i; n \<leftarrow> h node;
                 (case (if ki AND mbit \<noteq> 0 then r_right n else r_left n) of
                    None \<Rightarrow> Some (node, False, i, mbit)
                  | Some next \<Rightarrow>
                      if drop_bit 1 mbit = 0 then
                        if i + 1 = 16 then Some (next, True, i + 1, drop_bit 1 mbit)
                        else radix128_walk key msk h (i + 1) 0x80 next
                      else radix128_walk key msk h i (drop_bit 1 mbit) next) }
          else Some (node, True, i, mbit) }"
  by pat_completeness auto
termination
  by (relation "measures [\<lambda>(key, msk, h, i, mbit, node). length msk - i, \<lambda>(key, msk, h, i, mbit, node). unat mbit]")
    (auto simp: rd_def intro: shift_less [unfolded One_nat_def] split: if_splits)

function radix128_grow :: "bytes \<Rightarrow> bytes \<Rightarrow> radix_tree \<Rightarrow> rheap \<Rightarrow> nat \<Rightarrow> u_char \<Rightarrow> addr \<Rightarrow> (addr option \<times> radix_tree \<times> rheap) option" where
  "radix128_grow key msk T h i mbit node =
     do { mi \<leftarrow> rd msk i;
          if mbit AND mi \<noteq> 0 then
            do { (next, T, h) \<leftarrow> ngx_radix_alloc T h;
                 (case next of
                    None \<Rightarrow> Some (None, T, h)
                  | Some next \<Rightarrow>
                      do { h \<leftarrow> set_node next (new_node node) h;
                           ki \<leftarrow> rd key i;
                           h \<leftarrow> (if ki AND mbit \<noteq> 0 then set_right node (Some next) h else set_left node (Some next) h);
                           if drop_bit 1 mbit = 0 then
                             if i + 1 = 16 then Some (Some next, T, h)
                             else radix128_grow key msk T h (i + 1) 0x80 next
                           else radix128_grow key msk T h i (drop_bit 1 mbit) next }) }
          else Some (Some node, T, h) }"
  by pat_completeness auto
termination
  by (relation "measures [\<lambda>(key, msk, T, h, i, mbit, node). length msk - i, \<lambda>(key, msk, T, h, i, mbit, node). unat mbit]")
    (auto simp: rd_def intro: shift_less [unfolded One_nat_def] split: if_splits)

definition ngx_radix128tree_insert :: "bytes \<Rightarrow> bytes \<Rightarrow> u64 \<Rightarrow> radix_tree \<Rightarrow> rheap \<Rightarrow> (int \<times> radix_tree \<times> rheap) option" where
  "ngx_radix128tree_insert key msk v T h =
     do { (node, found, i, mbit) \<leftarrow> radix128_walk key msk h 0 0x80 (t_root T);
          if found then radix_store v T h node
          else
            do { (node, T, h) \<leftarrow> radix128_grow key msk T h i mbit node;
                 (case node of
                    None \<Rightarrow> Some (NGX_ERROR, T, h)
                  | Some node \<Rightarrow> do { h \<leftarrow> set_val node v h; Some (NGX_OK, T, h) }) } }"

function radix128_seek :: "bytes \<Rightarrow> bytes \<Rightarrow> rheap \<Rightarrow> nat \<Rightarrow> u_char \<Rightarrow> addr option \<Rightarrow> addr option option" where
  "radix128_seek key msk h i mbit node =
     (case node of
        None \<Rightarrow> Some None
      | Some a \<Rightarrow>
          do { mi \<leftarrow> rd msk i;
               if mbit AND mi \<noteq> 0 then
                 do { ki \<leftarrow> rd key i; n \<leftarrow> h a;
                      let next = (if ki AND mbit \<noteq> 0 then r_right n else r_left n);
                      if drop_bit 1 mbit = 0 then
                        if i + 1 = 16 then Some next else radix128_seek key msk h (i + 1) 0x80 next
                      else radix128_seek key msk h i (drop_bit 1 mbit) next }
               else Some node })"
  by pat_completeness auto
termination
  by (relation "measures [\<lambda>(key, msk, h, i, mbit, node). length msk - i, \<lambda>(key, msk, h, i, mbit, node). unat mbit]")
    (auto simp: rd_def intro: shift_less [unfolded One_nat_def] split: if_splits)

definition ngx_radix128tree_delete :: "bytes \<Rightarrow> bytes \<Rightarrow> radix_tree \<Rightarrow> rheap \<Rightarrow> (int \<times> radix_tree \<times> rheap) option" where
  "ngx_radix128tree_delete key msk T h =
     do { node \<leftarrow> radix128_seek key msk h 0 0x80 (Some (t_root T)); radix_remove T h node }"

text \<open>The search reads a byte of the key at every node it comes to, also at one that is 128 bits down.\<close>

partial_function (option) radix128_find_loop :: "bytes \<Rightarrow> rheap \<Rightarrow> nat \<Rightarrow> u_char \<Rightarrow> u64 \<Rightarrow> addr option \<Rightarrow> u64 option" where
  "radix128_find_loop key h i mbit v node =
     (case node of
        None \<Rightarrow> Some v
      | Some a \<Rightarrow>
          do { n \<leftarrow> h a; ki \<leftarrow> rd key i;
               radix128_find_loop key h (if drop_bit 1 mbit = 0 then i + 1 else i) (if drop_bit 1 mbit = 0 then 0x80 else drop_bit 1 mbit)
                 (if r_value n \<noteq> NGX_RADIX_NO_VALUE then r_value n else v)
                 (if ki AND mbit \<noteq> 0 then r_right n else r_left n) })"

definition ngx_radix128tree_find :: "bytes \<Rightarrow> radix_tree \<Rightarrow> rheap \<Rightarrow> u64 option" where
  "ngx_radix128tree_find key T h = radix128_find_loop key h 0 0x80 NGX_RADIX_NO_VALUE (Some (t_root T))"

section \<open>Creation\<close>

partial_function (option) radix_fill :: "u32 \<Rightarrow> u32 \<Rightarrow> u32 \<Rightarrow> radix_tree \<Rightarrow> rheap \<Rightarrow> (bool \<times> radix_tree \<times> rheap) option" where
  "radix_fill key msk inc T h =
     do { (rc, T, h) \<leftarrow> ngx_radix32tree_insert key msk NGX_RADIX_NO_VALUE T h;
          if rc \<noteq> NGX_OK then Some (False, T, h)
          else if key + inc \<noteq> 0 then radix_fill (key + inc) msk inc T h else Some (True, T, h) }"

fun radix_preallocate :: "nat \<Rightarrow> u32 \<Rightarrow> u32 \<Rightarrow> radix_tree \<Rightarrow> rheap \<Rightarrow> (bool \<times> radix_tree \<times> rheap) option" where
  "radix_preallocate 0 msk inc T h = Some (True, T, h)"
| "radix_preallocate (Suc n) msk inc T h =
     (let msk = drop_bit 1 msk OR 0x80000000 in
      do { (ok, T, h) \<leftarrow> radix_fill 0 msk inc T h;
           if ok then radix_preallocate n msk (drop_bit 1 inc) T h else Some (False, T, h) })"

text \<open>
  The heap starts empty; \<open>mem\<close> tells whether the tree itself can be allocated. The inner option is the result of
  the C function. A negative \<open>preallocate\<close> other than \<open>-1\<close>, which no caller passes, would run the loop 2^64 times.
\<close>

definition ngx_radix_tree_create :: "bool \<Rightarrow> addr list \<Rightarrow> radix_node \<Rightarrow> int \<Rightarrow> (radix_tree \<times> rheap) option option" where
  "ngx_radix_tree_create mem ps jk preallocate =
     (if \<not> mem then Some None
      else
        do { (r, T, h) \<leftarrow> ngx_radix_alloc \<lparr>t_root = 0, t_pages = ps, t_junk = jk, t_free = None, t_start = 0, t_size = 0\<rparr> Map.empty;
             (case r of
                None \<Rightarrow> Some None
              | Some a \<Rightarrow>
                  do { h \<leftarrow> set_node a \<lparr>r_right = None, r_left = None, r_parent = None, r_value = NGX_RADIX_NO_VALUE\<rparr> h;
                       let T = T\<lparr>t_root := a\<rparr>;
                       if preallocate = 0 then Some (Some (T, h))
                       else if preallocate < -1 then None
                       else
                         do { (ok, T, h) \<leftarrow> radix_preallocate
                                (if preallocate = -1 then if page_nodes = 128 then 6 else if page_nodes = 256 then 7 else 8 else nat preallocate)
                                0 0x80000000 T h;
                              Some (if ok then Some (T, h) else None) } }) })"

section \<open>Abstract trees\<close>

text \<open>The tree of a root pointer: the empty one, or a node with its address, left tree, value and right tree.\<close>

datatype rtree = Tip | Nd addr rtree u64 rtree

fun ptr :: "rtree \<Rightarrow> addr option" where
  "ptr Tip = None"
| "ptr (Nd a l v r) = Some a"

fun addrs :: "rtree \<Rightarrow> addr list" where
  "addrs Tip = []"
| "addrs (Nd a l v r) = a # addrs l @ addrs r"

fun holds :: "rheap \<Rightarrow> addr option \<Rightarrow> rtree \<Rightarrow> bool" where
  "holds h p Tip \<longleftrightarrow> True"
| "holds h p (Nd a l v r) \<longleftrightarrow>
     h a = Some \<lparr>r_right = ptr r, r_left = ptr l, r_parent = p, r_value = v\<rparr> \<and> holds h (Some a) l \<and> holds h (Some a) r"

text \<open>A tree around a hole: for each node above it, whether the hole is to the right, and the other subtree.\<close>

datatype frame = Frame bool addr u64 rtree

fun plug :: "rtree \<Rightarrow> frame list \<Rightarrow> rtree" where
  "plug t [] = t"
| "plug t (Frame d a v s # c) = plug (if d then Nd a s v t else Nd a t v s) c"

fun above :: "frame list \<Rightarrow> addr option" where
  "above [] = None"
| "above (Frame d a v s # c) = Some a"

fun holds_ctx :: "rheap \<Rightarrow> addr option \<Rightarrow> frame list \<Rightarrow> bool" where
  "holds_ctx h p [] \<longleftrightarrow> True"
| "holds_ctx h p (Frame d a v s # c) \<longleftrightarrow>
     h a = Some \<lparr>r_right = if d then p else ptr s, r_left = if d then ptr s else p, r_parent = above c, r_value = v\<rparr>
     \<and> holds h (Some a) s \<and> holds_ctx h (Some a) c"

fun ctx_addrs :: "frame list \<Rightarrow> addr list" where
  "ctx_addrs [] = []"
| "ctx_addrs (Frame d a v s # c) = a # addrs s @ ctx_addrs c"

fun path :: "frame list \<Rightarrow> bool list" where
  "path [] = []"
| "path (Frame d a v s # c) = path c @ [d]"

lemma holds_plug: "holds h None (plug t c) \<longleftrightarrow> holds h (above c) t \<and> holds_ctx h (ptr t) c"
proof (induction t c rule: plug.induct)
  case (2 t d a v s c)
  then show ?case by (cases d) auto
qed simp

lemma addrs_plug: "mset (addrs (plug t c)) = mset (addrs t) + mset (ctx_addrs c)"
  by (induction t c rule: plug.induct) (auto simp: ac_simps)

lemma set_addrs_plug: "set (addrs (plug t c)) = set (addrs t) \<union> set (ctx_addrs c)"
  using addrs_plug [of t c, THEN arg_cong [of _ _ set_mset]] by simp

lemma distinct_plug: "distinct (addrs (plug t c)) \<longleftrightarrow> distinct (addrs t) \<and> distinct (ctx_addrs c) \<and> set (addrs t) \<inter> set (ctx_addrs c) = {}"
  using addrs_plug [of t c] mset_eq_imp_distinct_iff [of "addrs (plug t c)" "addrs t @ ctx_addrs c"] by simp

lemma holds_frame: "\<forall>a \<in> set (addrs t). h' a = h a \<Longrightarrow> holds h' p t \<longleftrightarrow> holds h p t"
  by (induction t arbitrary: p) auto

lemma holds_ctx_frame: "\<forall>a \<in> set (ctx_addrs c). h' a = h a \<Longrightarrow> holds_ctx h' p c \<longleftrightarrow> holds_ctx h p c"
  proof (induction h' p c rule: holds_ctx.induct)
  case (2 h' p d a v s c)
  then have "holds h' (Some a) s = holds h (Some a) s" by (intro holds_frame) simp
  with 2 show ?case by auto
qed simp

text \<open>The value at a path of bits.\<close>

fun look :: "rtree \<Rightarrow> bool list \<Rightarrow> u64" where
  "look Tip bs = NGX_RADIX_NO_VALUE"
| "look (Nd a l v r) [] = v"
| "look (Nd a l v r) (b # bs) = look (if b then r else l) bs"

lemma look_plug: "look (plug t c) (path c @ bs) = look t bs"
  by (induction t c arbitrary: bs rule: plug.induct) auto

lemma look_plug_other:
  "\<nexists>bs. q = path c @ bs \<Longrightarrow> look (plug t c) q = look (plug t' c) q"
proof (induction t c arbitrary: t' rule: plug.induct)
  case (2 t d a v s c)
  show ?case
  proof (cases "\<exists>bs. q = path c @ bs")
    case True
    then obtain bs where bs: "q = path c @ bs" by blast
    with 2(2) have "\<nexists>cs. bs = d # cs" by auto
    then show ?thesis using look_plug [of _ c "[]"] by (cases bs) (auto simp: bs look_plug)
  next
    case False
    from 2(1) [OF False] show ?thesis by simp
  qed
qed simp

lemma look_plug_eq: "(\<And>bs. look t bs = look t' bs) \<Longrightarrow> look (plug t c) q = look (plug t' c) q"
  by (cases "\<exists>bs. q = path c @ bs") (auto simp: look_plug intro: look_plug_other)

lemma look_plug_upd:
  assumes "\<And>bs. look t' bs = (if bs = [] then v else look t bs)"
  shows "look (plug t' c) = (look (plug t c))(path c := v)"
proof
  fix q
  show "look (plug t' c) q = ((look (plug t c))(path c := v)) q"
  proof (cases "\<exists>bs. q = path c @ bs")
    case True
    then obtain bs where "q = path c @ bs" by blast
    then show ?thesis using assms [of bs] by (cases "bs = []") (simp_all add: look_plug look_plug [of _ c "[]", simplified])
  next
    case False
    then have "q \<noteq> path c" by (metis append_Nil2)
    then show ?thesis using look_plug_other [OF False] by simp
  qed
qed

lemma look_set: "look (plug (Nd a l w r) c) = (look (plug (Nd a l v r) c))(path c := w)"
proof (rule look_plug_upd)
  show "look (Nd a l w r) bs = (if bs = [] then w else look (Nd a l v r) bs)" for bs by (cases bs) auto
qed

section \<open>The loops over a list of bits\<close>

fun walk :: "bool list \<Rightarrow> rtree \<Rightarrow> frame list \<Rightarrow> rtree \<times> frame list \<times> bool list" where
  "walk (b # bs) (Nd a l v r) c = walk bs (if b then r else l) (Frame b a v (if b then l else r) # c)"
| "walk bs t c = (t, c, bs)"

lemma walk_plug: "walk bs t c = (t', c', bs') \<Longrightarrow> plug t' c' = plug t c \<and> path c' @ bs' = path c @ bs \<and> (t' = Tip \<or> bs' = [])"
  by (induction bs t c arbitrary: t' c' bs' rule: walk.induct) (auto split: if_splits)


text \<open>The loops of both kinds of trees, driven by the bits of the prefix.\<close>

fun rwalk :: "bool list \<Rightarrow> rheap \<Rightarrow> addr \<Rightarrow> (addr \<times> bool \<times> bool list) option" where
  "rwalk [] h a = Some (a, True, [])"
| "rwalk (b # bs) h a =
     do { n \<leftarrow> h a;
          (case (if b then r_right n else r_left n) of None \<Rightarrow> Some (a, False, b # bs) | Some nx \<Rightarrow> rwalk bs h nx) }"

fun rgrow :: "bool list \<Rightarrow> radix_tree \<Rightarrow> rheap \<Rightarrow> addr \<Rightarrow> (addr option \<times> radix_tree \<times> rheap) option" where
  "rgrow [] T h a = Some (Some a, T, h)"
| "rgrow (b # bs) T h a =
     do { (nx, T, h) \<leftarrow> ngx_radix_alloc T h;
          (case nx of
             None \<Rightarrow> Some (None, T, h)
           | Some nx \<Rightarrow>
               do { h \<leftarrow> set_node nx (new_node a) h;
                    h \<leftarrow> (if b then set_right a (Some nx) h else set_left a (Some nx) h);
                    rgrow bs T h nx }) }"

definition rinsert :: "bool list \<Rightarrow> u64 \<Rightarrow> radix_tree \<Rightarrow> rheap \<Rightarrow> (int \<times> radix_tree \<times> rheap) option" where
  "rinsert bs v T h =
     do { (a, found, bs) \<leftarrow> rwalk bs h (t_root T);
          if found then radix_store v T h a
          else
            do { (a, T, h) \<leftarrow> rgrow bs T h a;
                 (case a of
                    None \<Rightarrow> Some (NGX_ERROR, T, h)
                  | Some a \<Rightarrow> do { h \<leftarrow> set_val a v h; Some (NGX_OK, T, h) }) } }"

fun rseek :: "bool list \<Rightarrow> rheap \<Rightarrow> addr option \<Rightarrow> addr option option" where
  "rseek bs h None = Some None"
| "rseek [] h (Some a) = Some (Some a)"
| "rseek (b # bs) h (Some a) = do { n \<leftarrow> h a; rseek bs h (if b then r_right n else r_left n) }"

definition rdelete :: "bool list \<Rightarrow> radix_tree \<Rightarrow> rheap \<Rightarrow> (int \<times> radix_tree \<times> rheap) option" where
  "rdelete bs T h = do { a \<leftarrow> rseek bs h (Some (t_root T)); radix_remove T h a }"

section \<open>Memory\<close>

fun chain :: "rheap \<Rightarrow> addr option \<Rightarrow> addr list \<Rightarrow> bool" where
  "chain h p [] \<longleftrightarrow> p = None"
| "chain h p (a # fs) \<longleftrightarrow> p = Some a \<and> a \<in> dom h \<and> chain h (r_right (the (h a))) fs"

definition fresh :: "radix_tree \<Rightarrow> addr set" where
  "fresh T = {t_start T ..< t_start T + t_size T}"

definition page :: "addr \<Rightarrow> addr set" where
  "page s = {s ..< s + page_nodes}"

fun pages_ok :: "addr list \<Rightarrow> addr set \<Rightarrow> bool" where
  "pages_ok [] D \<longleftrightarrow> True"
| "pages_ok (s # ps) D \<longleftrightarrow> page s \<inter> D = {} \<and> pages_ok ps (D \<union> page s)"

text \<open>\<open>A\<close> are the nodes in use and \<open>fs\<close> those of the free list.\<close>

definition pool_ok :: "radix_tree \<Rightarrow> rheap \<Rightarrow> addr set \<Rightarrow> addr list \<Rightarrow> bool" where
  "pool_ok T h A fs \<longleftrightarrow>
     distinct fs \<and> chain h (t_free T) fs \<and> A \<subseteq> dom h \<and> fresh T \<subseteq> dom h
     \<and> A \<inter> set fs = {} \<and> A \<inter> fresh T = {} \<and> set fs \<inter> fresh T = {} \<and> pages_ok (t_pages T) (dom h)"

lemma chain_frame: "\<forall>a \<in> set fs. h' a = h a \<Longrightarrow> chain h' p fs \<longleftrightarrow> chain h p fs"
  by (induction fs arbitrary: p) (auto simp: dom_def)

lemma chain_dom: "chain h p fs \<Longrightarrow> set fs \<subseteq> dom h"
  by (induction fs arbitrary: p) auto

lemma pool_frame:
  assumes "pool_ok T h A fs" "\<forall>a. a \<notin> A \<longrightarrow> h' a = h a" "dom h' = dom h"
  shows "pool_ok T h' A fs"
proof -
  have "chain h' (t_free T) fs = chain h (t_free T) fs"
    by (rule chain_frame) (use assms(1,2) in \<open>auto simp: pool_ok_def\<close>)
  then show ?thesis using assms(1,3) by (simp add: pool_ok_def)
qed

lemma fresh_take: "1 \<le> t_size T \<Longrightarrow> fresh T = insert (t_start T) {t_start T + 1 ..< t_start T + t_size T}"
  by (auto simp: fresh_def)

lemma take_fresh_ok:
  assumes "pool_ok T h A fs" "1 \<le> t_size T" "t_free T = None"
  shows "\<exists>p T'. take_fresh T h = (Some p, T', h) \<and> t_root T' = t_root T \<and> p \<notin> A \<and> p \<in> dom h \<and> pool_ok T' h (insert p A) fs"
proof -
  have fs: "fs = []" using assms(1,3) by (cases fs) (auto simp: pool_ok_def)
  have "fresh (T\<lparr>t_start := t_start T + 1, t_size := t_size T - 1\<rparr>) = {t_start T + 1 ..< t_start T + t_size T}"
    using assms(2) by (auto simp: fresh_def)
  then show ?thesis using assms(1) fresh_take [OF assms(2)] by (auto simp: take_fresh_def pool_ok_def fs)
qed

lemma alloc_ok:
  assumes "pool_ok T h A fs"
  shows "\<exists>res T' h' fs'. ngx_radix_alloc T h = Some (res, T', h') \<and> t_root T' = t_root T \<and> (\<forall>a \<in> A. h' a = h a) \<and>
    (case res of None \<Rightarrow> t_pages T' = [] \<and> pool_ok T' h' A fs' | Some p \<Rightarrow> p \<notin> A \<and> p \<in> dom h' \<and> pool_ok T' h' (insert p A) fs')"
proof (cases "t_free T")
  case (Some p)
  then obtain fs' where "fs = p # fs'" using assms by (cases fs) (auto simp: pool_ok_def)
  moreover from this Some obtain n where "h p = Some n" using assms by (auto simp: pool_ok_def)
  ultimately show ?thesis using assms Some
    by (intro exI [of _ "Some p"] exI [of _ "T\<lparr>t_free := r_right n\<rparr>"] exI [of _ h] exI [of _ fs'])
      (auto simp: ngx_radix_alloc_def pool_ok_def fresh_def)
next
  case None
  show ?thesis
  proof (cases "t_size T < 1")
    case False
    then have "1 \<le> t_size T" by simp
    from take_fresh_ok [OF assms this None] show ?thesis using False None
      by (auto simp: ngx_radix_alloc_def)
  next
    case size: True
    show ?thesis
    proof (cases "t_pages T")
      case Nil
      have "fresh (T\<lparr>t_start := 0\<rparr>) = {}" using size by (simp add: fresh_def)
      then show ?thesis using assms Nil None size
        by (intro exI [of _ None] exI [of _ "T\<lparr>t_start := 0\<rparr>"] exI [of _ h] exI [of _ fs])
          (auto simp: ngx_radix_alloc_def pool_ok_def)
    next
      case (Cons s ps)
      define h1 where "h1 = (\<lambda>x. if s \<le> x \<and> x < s + page_nodes then Some (t_junk T) else h x)"
      define T1 where "T1 = T\<lparr>t_pages := ps, t_start := s, t_size := page_nodes\<rparr>"
      have d: "dom h1 = dom h \<union> page s" by (auto simp: h1_def page_def)
      have disj: "page s \<inter> dom h = {}" using assms Cons by (simp add: pool_ok_def)
      have same: "h1 a = h a" if "a \<in> dom h" for a using that disj by (auto simp: h1_def page_def)
      have fs: "fs = []" using assms None by (cases fs) (auto simp: pool_ok_def)
      have f1: "fresh T1 = page s" by (simp add: fresh_def T1_def page_def)
      have ok1: "pool_ok T1 h1 A fs"
        using assms d disj Cons None f1 unfolding pool_ok_def fs by (auto simp: T1_def)
      have "t_free T1 = None" "1 \<le> t_size T1" using None by (simp_all add: T1_def page_nodes_def)
      from take_fresh_ok [OF ok1 this(2,1)] obtain p T' where r: "take_fresh T1 h1 = (Some p, T', h1)" "t_root T' = t_root T1"
        "p \<notin> A" "p \<in> dom h1" "pool_ok T' h1 (insert p A) fs" by blast
      have "ngx_radix_alloc T h = Some (Some p, T', h1)" using r(1) None size Cons by (simp add: ngx_radix_alloc_def T1_def h1_def)
      moreover have "A \<subseteq> dom h" using assms by (simp add: pool_ok_def)
      then have "\<forall>a \<in> A. h1 a = h a" using same by blast
      ultimately show ?thesis using r(2-5) by (auto simp: T1_def)
    qed
  qed
qed

section \<open>The loops on trees\<close>

definition radix_ok :: "radix_tree \<Rightarrow> rheap \<Rightarrow> rtree \<Rightarrow> addr list \<Rightarrow> bool" where
  "radix_ok T h t fs \<longleftrightarrow> ptr t = Some (t_root T) \<and> holds h None t \<and> distinct (addrs t) \<and> pool_ok T h (set (addrs t)) fs"

lemma ptr_plug_eq: "ptr t = ptr t' \<Longrightarrow> ptr (plug t c) = ptr (plug t' c)"
proof (induction c arbitrary: t t')
  case (Cons f c)
  obtain d a v s where [simp]: "f = Frame d a v s" by (cases f)
  have "ptr (if d then Nd a s v t else Nd a t v s) = ptr (if d then Nd a s v t' else Nd a t' v s)" by simp
  from Cons.IH [OF this] show ?case by simp
qed simp

lemma ptr_plug: "ptr (plug (Nd a l v r) c) = ptr (plug (Nd a l' v' r') c)"
  by (rule ptr_plug_eq) simp

lemma ptr_frame: "ptr (plug t (Frame d a v s # c)) = ptr (plug t' (Frame d a v s # c))"
  unfolding plug.simps by (rule ptr_plug_eq) simp

lemma walk_Tip [simp]: "walk bs Tip c = (Tip, c, bs)"
  by (cases bs) auto

lemma rwalk_eq:
  "holds h p (Nd a l v r) \<Longrightarrow> walk bs (Nd a l v r) c = (t', c', bs') \<Longrightarrow>
    rwalk bs h a = Some (case t' of Nd a' l' v' r' \<Rightarrow> (a', True, []) | Tip \<Rightarrow> (case hd c' of Frame d a' v' s' \<Rightarrow> (a', False, d # bs')))"
proof (induction bs arbitrary: p a l v r c)
  case (Cons b bs)
  show ?case
  proof (cases "if b then r else l")
    case Tip
    then show ?thesis using Cons.prems by (cases b) auto
  next
    case (Nd a2 l2 v2 r2)
    then have w: "walk bs (Nd a2 l2 v2 r2) (Frame b a v (if b then l else r) # c) = (t', c', bs')" using Cons.prems(2) by (cases b) auto
    have "holds h (Some a) (Nd a2 l2 v2 r2)" using Cons.prems(1) Nd by (cases b) auto
    from Cons.IH [OF this w] show ?thesis using Cons.prems(1) Nd by (cases b) auto
  qed
qed auto

lemma rseek_eq:
  "holds h p t \<Longrightarrow> rseek bs h (ptr t) = Some (case walk bs t c of (t', c', bs') \<Rightarrow> ptr t')"
proof (induction bs arbitrary: p t c)
  case Nil
  then show ?case by (cases t) auto
next
  case (Cons b bs)
  show ?case
  proof (cases t)
    case (Nd a l v r)
    have "holds h (Some a) (if b then r else l)" using Cons.prems Nd by (cases b) auto
    from Cons.IH [OF this] show ?thesis using Cons.prems Nd by (cases b) auto
  qed simp
qed

lemma radix_dom: "radix_ok T h t fs \<Longrightarrow> a \<in> set (addrs t) \<Longrightarrow> a \<in> dom h"
  by (auto simp: radix_ok_def pool_ok_def)

lemma set_val_ok:
  assumes "radix_ok T h (plug (Nd a l v r) c) fs"
  shows "\<exists>h'. set_val a w h = Some h' \<and> radix_ok T h' (plug (Nd a l w r) c) fs"
proof -
  let ?t = "plug (Nd a l v r) c" and ?t' = "plug (Nd a l w r) c"
  have hp: "holds h (above c) (Nd a l v r)" "holds_ctx h (Some a) c" using assms by (simp_all add: radix_ok_def holds_plug)
  have d: "a \<notin> set (addrs l)" "a \<notin> set (addrs r)" "a \<notin> set (ctx_addrs c)" using assms by (auto simp: radix_ok_def distinct_plug)
  define h' where "h' = h(a \<mapsto> \<lparr>r_right = ptr r, r_left = ptr l, r_parent = above c, r_value = w\<rparr>)"
  have s: "set_val a w h = Some h'" using hp by (simp add: set_val_def h'_def)
  have "holds h' (Some a) l = holds h (Some a) l" "holds h' (Some a) r = holds h (Some a) r" "holds_ctx h' (Some a) c = holds_ctx h (Some a) c"
    using d by (auto simp: h'_def intro!: holds_frame holds_ctx_frame)
  then have "holds h' None ?t'" using hp by (simp add: holds_plug h'_def)
  moreover have "mset (addrs ?t') = mset (addrs ?t)" by (simp add: addrs_plug)
  then have a: "distinct (addrs ?t')" "set (addrs ?t') = set (addrs ?t)"
    using assms mset_eq_imp_distinct_iff mset_eq_setD unfolding radix_ok_def by metis+
  moreover have "pool_ok T h' (set (addrs ?t)) fs"
    by (rule pool_frame [of T h]) (use assms hp in \<open>auto simp: radix_ok_def h'_def set_addrs_plug dom_def\<close>)
  ultimately show ?thesis using s assms ptr_plug [of a l v r c l w r] by (auto simp: radix_ok_def)
qed

lemma set_child:
  assumes "holds_ctx h p (Frame d a v s # c)"
  shows "(if d then set_right a q h else set_left a q h) =
    Some (h(a \<mapsto> \<lparr>r_right = if d then q else ptr s, r_left = if d then ptr s else q, r_parent = above c, r_value = v\<rparr>))"
  using assms by (auto simp: set_right_def set_left_def)

lemma link_child:
  assumes "radix_ok T h (plug Tip (Frame d a v s # c)) fs" "t_root T' = t_root T"
    and "\<forall>x \<in> set (addrs (plug Tip (Frame d a v s # c))). h1 x = h x"
    and "p \<notin> set (addrs (plug Tip (Frame d a v s # c)))" "p \<in> dom h1"
    and "pool_ok T' h1 (insert p (set (addrs (plug Tip (Frame d a v s # c))))) fs'"
  shows "\<exists>h2 h3. set_node p (new_node a) h1 = Some h2 \<and> (if d then set_right a (Some p) h2 else set_left a (Some p) h2) = Some h3
    \<and> radix_ok T' h3 (plug (Nd p Tip NGX_RADIX_NO_VALUE Tip) (Frame d a v s # c)) fs'"
proof -
  let ?c = "Frame d a v s # c"
  have A: "set (addrs (plug Tip ?c)) = set (ctx_addrs ?c)" by (simp only: set_addrs_plug addrs.simps) simp
  have d: "distinct (ctx_addrs ?c)" "p \<notin> set (ctx_addrs ?c)" using assms(1,4) unfolding A by (auto simp: radix_ok_def distinct_plug simp del: plug.simps)
  define h2 where "h2 = h1(p \<mapsto> new_node a)"
  have s2: "set_node p (new_node a) h1 = Some h2" using assms(5) by (auto simp: set_node_def h2_def)
  have "holds_ctx h None ?c" using assms(1) by (simp add: radix_ok_def holds_plug del: plug.simps)
  moreover have "\<forall>x \<in> set (ctx_addrs ?c). h2 x = h x" using assms(3) d(2) unfolding A by (auto simp: h2_def)
  ultimately have c2: "holds_ctx h2 None ?c" using holds_ctx_frame by blast
  define h3 where "h3 = h2(a \<mapsto> \<lparr>r_right = if d then Some p else ptr s, r_left = if d then ptr s else Some p, r_parent = above c, r_value = v\<rparr>)"
  have s3: "(if d then set_right a (Some p) h2 else set_left a (Some p) h2) = Some h3" unfolding h3_def by (rule set_child [OF c2])
  have "holds h3 (Some a) s = holds h2 (Some a) s" "holds_ctx h3 (Some a) c = holds_ctx h2 (Some a) c"
    using d(1) by (auto simp: h3_def intro!: holds_frame holds_ctx_frame)
  then have ctx: "holds_ctx h3 (Some p) ?c" using c2 by (simp add: h3_def)
  have "p \<noteq> a" using d(2) by auto
  then have leaf: "holds h3 (Some a) (Nd p Tip NGX_RADIX_NO_VALUE Tip)" by (simp add: h3_def h2_def new_node_def)
  have "a \<in> dom h1" using assms(6) unfolding A by (auto simp: pool_ok_def)
  then have dm: "dom h3 = dom h1" using assms(5) by (auto simp: h3_def h2_def)
  have "pool_ok T' h3 (insert p (set (addrs (plug Tip ?c)))) fs'"
    by (rule pool_frame [OF assms(6)]) (use dm A in \<open>auto simp: h3_def h2_def\<close>)
  moreover have "set (addrs (plug (Nd p Tip NGX_RADIX_NO_VALUE Tip) ?c)) = insert p (set (addrs (plug Tip ?c)))"
    by (simp only: set_addrs_plug addrs.simps) auto
  moreover have "distinct (addrs (plug (Nd p Tip NGX_RADIX_NO_VALUE Tip) ?c))" using d by (simp add: distinct_plug del: plug.simps)
  moreover have "holds h3 None (plug (Nd p Tip NGX_RADIX_NO_VALUE Tip) ?c)" using ctx leaf by (simp add: holds_plug del: plug.simps)
  moreover have "ptr (plug (Nd p Tip NGX_RADIX_NO_VALUE Tip) ?c) = Some (t_root T')"
    using assms(1,2) ptr_frame unfolding radix_ok_def by metis
  ultimately have "radix_ok T' h3 (plug (Nd p Tip NGX_RADIX_NO_VALUE Tip) ?c) fs'" unfolding radix_ok_def by metis
  with s2 s3 show ?thesis by blast
qed

fun height :: "rtree \<Rightarrow> nat" where
  "height Tip = 0"
| "height (Nd a l v r) = Suc (max (height l) (height r))"

fun fits :: "nat \<Rightarrow> frame list \<Rightarrow> bool" where
  "fits m [] \<longleftrightarrow> True"
| "fits m (Frame d a v s # c) \<longleftrightarrow> Suc (height s) + length c \<le> m \<and> fits m c"

lemma height_plug: "height (plug t c) \<le> m \<longleftrightarrow> height t + length c \<le> m \<and> fits m c"
  by (induction t c rule: plug.induct) auto

lemma path_length [simp]: "length (path c) = length c"
  by (induction c rule: path.induct) auto

text \<open>A new leaf below has no effect on the values.\<close>

lemma look_empty: "look (Nd p Tip NGX_RADIX_NO_VALUE Tip) bs = NGX_RADIX_NO_VALUE"
  by (cases bs) (auto split: if_splits)

lemma look_leaf: "look (plug (Nd p Tip NGX_RADIX_NO_VALUE Tip) c) = look (plug Tip c)"
  by (rule ext, rule look_plug_eq) (simp add: look_empty)

definition grown :: "nat \<Rightarrow> radix_tree \<Rightarrow> rtree \<Rightarrow> bool list \<Rightarrow> addr option \<times> radix_tree \<times> rheap \<Rightarrow> bool" where
  "grown m T t q r \<longleftrightarrow> (case r of (res, T', h') \<Rightarrow>
     \<exists>t' fs'. radix_ok T' h' t' fs' \<and> look t' = look t \<and> height t' \<le> m \<and> t_root T' = t_root T \<and>
       (case res of None \<Rightarrow> t_pages T' = [] | Some a \<Rightarrow> \<exists>c l r. t' = plug (Nd a l NGX_RADIX_NO_VALUE r) c \<and> path c = q))"

lemma grow_step:
  assumes "radix_ok T h (plug Tip (Frame d a v s # c)) fs" "height (plug Tip (Frame d a v s # c)) \<le> m"
  obtains (full) T' h' where "rgrow (d # bs) T h a = Some (None, T', h')" "grown m T (plug Tip (Frame d a v s # c)) q (None, T', h')"
  | (linked) T' h' p fs' where "rgrow (d # bs) T h a = rgrow bs T' h' p" "t_root T' = t_root T"
    "radix_ok T' h' (plug (Nd p Tip NGX_RADIX_NO_VALUE Tip) (Frame d a v s # c)) fs'"
proof -
  let ?c = "Frame d a v s # c"
  have pool: "pool_ok T h (set (addrs (plug Tip ?c))) fs" using assms(1) by (simp add: radix_ok_def del: plug.simps)
  from alloc_ok [OF pool] obtain res T' h1 fs' where al: "ngx_radix_alloc T h = Some (res, T', h1)" "t_root T' = t_root T"
    "\<forall>x \<in> set (addrs (plug Tip ?c)). h1 x = h x"
    "case res of None \<Rightarrow> t_pages T' = [] \<and> pool_ok T' h1 (set (addrs (plug Tip ?c))) fs' | Some p \<Rightarrow> p \<notin> set (addrs (plug Tip ?c)) \<and> p \<in> dom h1 \<and> pool_ok T' h1 (insert p (set (addrs (plug Tip ?c)))) fs'"
    by blast
  show thesis
  proof (cases res)
    case None
    have "holds h1 None (plug Tip ?c)" using assms(1) holds_frame [OF al(3)] by (simp add: radix_ok_def del: plug.simps)
    then have "radix_ok T' h1 (plug Tip ?c) fs'" using assms(1) al None by (simp add: radix_ok_def del: plug.simps)
    then show thesis using al(1,2,4) None assms(2) by (intro full) (auto simp: grown_def simp del: plug.simps)
  next
    case (Some p)
    with al(4) have p: "p \<notin> set (addrs (plug Tip ?c))" "p \<in> dom h1" "pool_ok T' h1 (insert p (set (addrs (plug Tip ?c)))) fs'" by auto
    from link_child [OF assms(1) al(2,3) p] obtain h2 h3 where h: "set_node p (new_node a) h1 = Some h2"
      "(if d then set_right a (Some p) h2 else set_left a (Some p) h2) = Some h3"
      "radix_ok T' h3 (plug (Nd p Tip NGX_RADIX_NO_VALUE Tip) ?c) fs'" by blast
    show thesis by (rule linked [OF _ al(2) h(3)]) (use al(1) Some h in simp)
  qed
qed

lemma rgrow_ok:
  assumes "radix_ok T h (plug Tip (Frame d a v s # c)) fs" "height (plug Tip (Frame d a v s # c)) \<le> m"
    and "length c + Suc (Suc (length bs)) \<le> m"
  shows "\<exists>r. rgrow (d # bs) T h a = Some r \<and> grown m T (plug Tip (Frame d a v s # c)) (path c @ d # bs) r"
  using assms
proof (induction bs arbitrary: T h d a v s c fs)
  case (Nil T h d a v s c fs)
  let ?c = "Frame d a v s # c"
  show ?case
  proof (rule grow_step [OF Nil.prems(1,2), of "[]" "path c @ [d]"])
    fix T' h' p fs'
    assume l: "rgrow [d] T h a = rgrow [] T' h' p" "t_root T' = t_root T" "radix_ok T' h' (plug (Nd p Tip NGX_RADIX_NO_VALUE Tip) ?c) fs'"
    have "height (plug (Nd p Tip NGX_RADIX_NO_VALUE Tip) ?c) \<le> m" using Nil.prems(2,3) by (simp add: height_plug del: plug.simps)
    then have "grown m T (plug Tip ?c) (path c @ [d]) (Some p, T', h')"
      unfolding grown_def using l(2,3) look_leaf by (fastforce simp del: plug.simps)
    then show ?thesis using l(1) by simp
  qed blast
next
  case (Cons b bs T h d a v s c fs)
  let ?c = "Frame d a v s # c"
  show ?case
  proof (rule grow_step [OF Cons.prems(1,2), of "b # bs" "path c @ d # b # bs"])
    fix T' h' p fs'
    assume l: "rgrow (d # b # bs) T h a = rgrow (b # bs) T' h' p" "t_root T' = t_root T"
      "radix_ok T' h' (plug (Nd p Tip NGX_RADIX_NO_VALUE Tip) ?c) fs'"
    let ?c' = "Frame b p NGX_RADIX_NO_VALUE Tip # ?c"
    have e: "plug Tip ?c' = plug (Nd p Tip NGX_RADIX_NO_VALUE Tip) ?c" by simp
    have "height (plug Tip ?c') \<le> m" unfolding e using Cons.prems(2,3) by (simp add: height_plug del: plug.simps)
    moreover have "length ?c + Suc (Suc (length bs)) \<le> m" using Cons.prems(3) by simp
    ultimately obtain r where r: "rgrow (b # bs) T' h' p = Some r" "grown m T' (plug Tip ?c') (path ?c @ b # bs) r"
      using Cons.IH [of T' h' b p NGX_RADIX_NO_VALUE Tip ?c fs'] l(3) e by metis
    have "grown m T (plug Tip ?c) (path c @ d # b # bs) r"
      using r(2) l(2) look_leaf [of p ?c] unfolding e by (auto simp: grown_def simp del: plug.simps)
    then show ?thesis using l(1) r(1) by metis
  qed blast
qed

text \<open>The insertion.\<close>

lemma radix_ok_walk:
  assumes "radix_ok T h t fs" "walk bs t [] = (t', c', bs')"
  shows "plug t' c' = t" "path c' @ bs' = bs" "t' = Tip \<or> bs' = []"
  using walk_plug [OF assms(2)] by auto

definition inserted :: "nat \<Rightarrow> (bool list \<Rightarrow> u64) \<Rightarrow> bool list \<Rightarrow> u64 \<Rightarrow> addr \<Rightarrow> int \<times> radix_tree \<times> rheap \<Rightarrow> bool" where
  "inserted m M bs v a r \<longleftrightarrow> (case r of (rc, T', h') \<Rightarrow>
     \<exists>t' fs'. radix_ok T' h' t' fs' \<and> height t' \<le> m \<and> t_root T' = a \<and>
       (if M bs \<noteq> NGX_RADIX_NO_VALUE then rc = NGX_BUSY \<and> look t' = M
        else rc = NGX_OK \<and> look t' = M(bs := v) \<or> rc = NGX_ERROR \<and> t_pages T' = [] \<and> look t' = M))"

lemma rinsert_ok:
  assumes "radix_ok T h t fs" "height t \<le> m" "length bs < m"
  shows "\<exists>r. rinsert bs v T h = Some r \<and> inserted m (look t) bs v (t_root T) r"
proof -
  obtain l0 v0 r0 where t: "t = Nd (t_root T) l0 v0 r0" using assms(1) by (cases t) (auto simp: radix_ok_def)
  obtain t' c' bs' where w: "walk bs t [] = (t', c', bs')" by (cases "walk bs t []") auto
  note wk = radix_ok_walk [OF assms(1) w]
  have h: "holds h None (Nd (t_root T) l0 v0 r0)" using assms(1) t by (simp add: radix_ok_def)
  note rw = rwalk_eq [OF h w [unfolded t]]
  show ?thesis
  proof (cases t')
    case (Nd a l u r)
    then have bs: "path c' = bs" using wk(2,3) by simp
    have M: "look t bs = u" using look_plug [of t' c' "[]"] wk(1) bs Nd by simp
    have ok: "radix_ok T h (plug (Nd a l u r) c') fs" using assms(1) wk(1) Nd by simp
    then have "h a = Some \<lparr>r_right = ptr r, r_left = ptr l, r_parent = above c', r_value = u\<rparr>" by (simp add: radix_ok_def holds_plug)
    moreover obtain h' where h': "set_val a v h = Some h'" "radix_ok T h' (plug (Nd a l v r) c') fs" using set_val_ok [OF ok] by blast
    moreover have "height (plug (Nd a l v r) c') \<le> m" using assms(2) wk(1) Nd by (auto simp: height_plug)
    moreover have "look (plug (Nd a l v r) c') = (look t)(bs := v)"
      using look_set [of a l v r c' u] wk(1) Nd bs by simp
    ultimately show ?thesis using rw Nd M assms(1,2)
      by (auto simp: rinsert_def radix_store_def inserted_def)
  next
    case Tip
    then have "c' \<noteq> []" using wk(1) t by auto
    then obtain d a u s c where c: "c' = Frame d a u s # c" by (metis frame.exhaust neq_Nil_conv)
    have bs: "bs = path c @ d # bs'" using wk(2) c by simp
    have M: "look t bs = NGX_RADIX_NO_VALUE" using look_plug [of t' c' bs'] wk(1,2) Tip by simp
    have ok: "radix_ok T h (plug Tip (Frame d a u s # c)) fs" "height (plug Tip (Frame d a u s # c)) \<le> m"
      "length c + Suc (Suc (length bs')) \<le> m" using assms wk(1) Tip c bs by auto
    from rgrow_ok [OF ok] obtain r where r: "rgrow (d # bs') T h a = Some r" "grown m T t bs r"
      using wk(1) Tip c bs by auto
    obtain res T' h' where r': "r = (res, T', h')" by (cases r)
    then obtain t1 fs' where g: "radix_ok T' h' t1 fs'" "look t1 = look t" "height t1 \<le> m" "t_root T' = t_root T"
      "case res of None \<Rightarrow> t_pages T' = [] | Some a \<Rightarrow> \<exists>c l r. t1 = plug (Nd a l NGX_RADIX_NO_VALUE r) c \<and> path c = bs" using r(2) by (auto simp: grown_def)
    show ?thesis
    proof (cases res)
      case None
      then show ?thesis using rw Tip c r r' g M by (auto simp: rinsert_def inserted_def)
    next
      case (Some a1)
      then obtain c1 l1 r1 where t1: "t1 = plug (Nd a1 l1 NGX_RADIX_NO_VALUE r1) c1" "path c1 = bs" using g(5) by auto
      from set_val_ok [OF g(1) [unfolded t1(1)]] obtain h2 where h2: "set_val a1 v h' = Some h2" "radix_ok T' h2 (plug (Nd a1 l1 v r1) c1) fs'" by blast
      have "look (plug (Nd a1 l1 v r1) c1) = (look t)(bs := v)"
        using look_set [of a1 l1 v r1 c1 NGX_RADIX_NO_VALUE] t1 g(2) by simp
      moreover have "height (plug (Nd a1 l1 v r1) c1) \<le> m" using g(3) t1(1) by (auto simp: height_plug)
      ultimately show ?thesis using rw Tip c r r' g(4) M Some h2 by (auto simp: rinsert_def inserted_def)
    qed
  qed
qed

text \<open>The deletion.\<close>

lemma look_cut: "look (plug Tip c) = (look (plug (Nd a Tip v Tip) c))(path c := NGX_RADIX_NO_VALUE)"
proof (rule look_plug_upd)
  show "look Tip bs = (if bs = [] then NGX_RADIX_NO_VALUE else look (Nd a Tip v Tip) bs)" for bs by (cases bs) auto
qed

lemma unlink_child:
  assumes "radix_ok T h (plug (Nd a Tip v Tip) (Frame d pa pv s # c)) fs"
  shows "\<exists>n h1 h2. h a = Some n \<and> r_parent n = Some pa \<and> (\<exists>pn. h pa = Some pn \<and> (r_right pn = Some a \<longleftrightarrow> d))
    \<and> (if d then set_right pa None h else set_left pa None h) = Some h1
    \<and> set_right a (t_free T) h1 = Some h2
    \<and> h2 pa = Some \<lparr>r_right = if d then None else ptr s, r_left = if d then ptr s else None, r_parent = above c, r_value = pv\<rparr>
    \<and> radix_ok (T\<lparr>t_free := Some a\<rparr>) h2 (plug Tip (Frame d pa pv s # c)) (a # fs)"
proof -
  let ?c = "Frame d pa pv s # c"
  have hp: "h a = Some \<lparr>r_right = None, r_left = None, r_parent = Some pa, r_value = v\<rparr>" "holds_ctx h (Some a) ?c"
    using assms by (simp_all add: radix_ok_def holds_plug del: plug.simps)
  have d: "distinct (ctx_addrs ?c)" "a \<notin> set (ctx_addrs ?c)" using assms by (simp_all add: radix_ok_def distinct_plug del: plug.simps)
  have pool: "pool_ok T h (insert a (set (ctx_addrs ?c))) fs" using assms by (simp add: radix_ok_def set_addrs_plug insert_commute del: plug.simps)
  have ap: "a \<noteq> pa" using d(2) by auto
  have sa: "ptr s \<noteq> Some a" using d(2) by (cases s) auto
  define m1 where "m1 = \<lparr>r_right = if d then None else ptr s, r_left = if d then ptr s else None, r_parent = above c, r_value = pv\<rparr>"
  define m2 where "m2 = \<lparr>r_right = t_free T, r_left = None, r_parent = Some pa, r_value = v\<rparr>"
  define h1 where "h1 = h(pa \<mapsto> m1)"
  define h2 where "h2 = h1(a \<mapsto> m2)"
  have s1: "(if d then set_right pa None h else set_left pa None h) = Some h1" unfolding h1_def m1_def by (rule set_child [OF hp(2)])
  have s2: "set_right a (t_free T) h1 = Some h2" using hp(1) ap by (simp add: set_right_def h2_def h1_def m2_def)
  have "holds h2 (Some pa) s = holds h (Some pa) s" "holds_ctx h2 (Some pa) c = holds_ctx h (Some pa) c"
    using d by (auto simp: h2_def h1_def intro!: holds_frame holds_ctx_frame)
  then have ctx: "holds_ctx h2 None ?c" using hp(2) ap by (simp add: h2_def h1_def m1_def)
  have "pa \<in> dom h" using hp(2) by auto
  then have dm: "dom h2 = dom h" using hp(1) by (auto simp: h2_def h1_def)
  have fr: "fresh (T\<lparr>t_free := Some a\<rparr>) = fresh T" by (simp add: fresh_def)
  have "chain h2 (t_free T) fs = chain h (t_free T) fs"
    by (rule chain_frame) (use pool in \<open>auto simp: pool_ok_def h2_def h1_def\<close>)
  then have "pool_ok (T\<lparr>t_free := Some a\<rparr>) h2 (set (ctx_addrs ?c)) (a # fs)"
    using pool d(2) dm fr by (auto simp: pool_ok_def h2_def m2_def)
  moreover have "ptr (plug Tip ?c) = Some (t_root T)" using assms ptr_frame unfolding radix_ok_def by metis
  ultimately have "radix_ok (T\<lparr>t_free := Some a\<rparr>) h2 (plug Tip ?c) (a # fs)"
    using ctx d(1) by (auto simp: radix_ok_def set_addrs_plug distinct_plug holds_plug simp del: plug.simps)
  moreover have "h2 pa = Some m1" using ap by (simp add: h2_def h1_def)
  moreover obtain pn where "h pa = Some pn" "r_right pn = Some a \<longleftrightarrow> d" using hp(2) sa by (cases d) auto
  ultimately show ?thesis using s1 s2 hp(1) unfolding m1_def by auto
qed

lemma radix_prune_ok:
  assumes "radix_ok T h (plug (Nd a Tip v Tip) (Frame d pa pv s # c)) fs" "height (plug (Nd a Tip v Tip) (Frame d pa pv s # c)) \<le> m"
  shows "\<exists>T' h' t' fs'. radix_prune T h a = Some (T', h') \<and> radix_ok T' h' t' fs' \<and> height t' \<le> m \<and> t_root T' = t_root T
    \<and> look t' = (look (plug (Nd a Tip v Tip) (Frame d pa pv s # c)))(path (Frame d pa pv s # c) := NGX_RADIX_NO_VALUE)"
  using assms
proof (induction c arbitrary: T h a v d pa pv s fs)
  case (Nil T h a v d pa pv s fs)
  from unlink_child [OF Nil.prems(1)] obtain n pn h1 h2 where u: "h a = Some n" "r_parent n = Some pa" "h pa = Some pn" "r_right pn = Some a \<longleftrightarrow> d"
    "(if d then set_right pa None h else set_left pa None h) = Some h1" "set_right a (t_free T) h1 = Some h2"
    "h2 pa = Some \<lparr>r_right = if d then None else ptr s, r_left = if d then ptr s else None, r_parent = above [], r_value = pv\<rparr>"
    "radix_ok (T\<lparr>t_free := Some a\<rparr>) h2 (plug Tip [Frame d pa pv s]) (a # fs)" by blast
  have "radix_prune T h a = Some (T\<lparr>t_free := Some a\<rparr>, h2)" using u by (subst radix_prune.simps) (simp add: Let_def)
  moreover have "height (plug Tip [Frame d pa pv s]) \<le> m" using Nil.prems(2) by (simp add: height_plug del: plug.simps)
  ultimately show ?case using u(8) look_cut by (fastforce simp del: plug.simps)
next
  case (Cons f c T h a v d pa pv s fs)
  obtain e qa qv s' where f: "f = Frame e qa qv s'" by (cases f)
  from unlink_child [OF Cons.prems(1)] obtain n pn h1 h2 where u: "h a = Some n" "r_parent n = Some pa" "h pa = Some pn" "r_right pn = Some a \<longleftrightarrow> d"
    "(if d then set_right pa None h else set_left pa None h) = Some h1" "set_right a (t_free T) h1 = Some h2"
    "h2 pa = Some \<lparr>r_right = if d then None else ptr s, r_left = if d then ptr s else None, r_parent = above (f # c), r_value = pv\<rparr>"
    "radix_ok (T\<lparr>t_free := Some a\<rparr>) h2 (plug Tip (Frame d pa pv s # f # c)) (a # fs)" by blast
  let ?c = "Frame d pa pv s # f # c"
  have ht: "height (plug Tip ?c) \<le> m" using Cons.prems(2) by (simp add: height_plug del: plug.simps)
  have cut: "look (plug Tip ?c) = (look (plug (Nd a Tip v Tip) ?c))(path ?c := NGX_RADIX_NO_VALUE)" by (rule look_cut)
  show ?case
  proof (cases "s = Tip \<and> pv = NGX_RADIX_NO_VALUE")
    case False
    then have "ptr s \<noteq> None \<or> pv \<noteq> NGX_RADIX_NO_VALUE" by (cases s) auto
    then have "radix_prune T h a = Some (T\<lparr>t_free := Some a\<rparr>, h2)" using u by (subst radix_prune.simps) (auto simp: Let_def)
    then show ?thesis using u(8) ht cut by (fastforce simp del: plug.simps)
  next
    case True
    then have e: "plug Tip ?c = plug (Nd pa Tip NGX_RADIX_NO_VALUE Tip) (Frame e qa qv s' # c)" by (simp add: f)
    have "radix_prune T h a = radix_prune (T\<lparr>t_free := Some a\<rparr>) h2 pa" using u True by (subst radix_prune.simps) (simp add: f Let_def)
    moreover have ok2: "radix_ok (T\<lparr>t_free := Some a\<rparr>) h2 (plug (Nd pa Tip NGX_RADIX_NO_VALUE Tip) (Frame e qa qv s' # c)) (a # fs)"
      "height (plug (Nd pa Tip NGX_RADIX_NO_VALUE Tip) (Frame e qa qv s' # c)) \<le> m" using u(8) ht unfolding e by blast+
    from Cons.IH [OF ok2] obtain T' h' t' fs' where r: "radix_prune (T\<lparr>t_free := Some a\<rparr>) h2 pa = Some (T', h')" "radix_ok T' h' t' fs'" "height t' \<le> m"
      "t_root T' = t_root (T\<lparr>t_free := Some a\<rparr>)" "look t' = (look (plug (Nd pa Tip NGX_RADIX_NO_VALUE Tip) (Frame e qa qv s' # c)))(path (Frame e qa qv s' # c) := NGX_RADIX_NO_VALUE)"
      by blast
    have r5: "look t' = (look (plug Tip ?c))(path (f # c) := NGX_RADIX_NO_VALUE)" using r(5) unfolding e unfolding f .
    moreover have "look (plug Tip ?c) (path (f # c)) = NGX_RADIX_NO_VALUE"
      using look_plug [of "Nd pa Tip NGX_RADIX_NO_VALUE Tip" "f # c" "[]"] e f by simp
    then have "look t' = look (plug Tip ?c)" using r5 by (simp add: fun_upd_idem)
    then have lk: "look t' = (look (plug (Nd a Tip v Tip) ?c))(path ?c := NGX_RADIX_NO_VALUE)" using cut by metis
    ultimately have "radix_prune T h a = Some (T', h')" "t_root T' = t_root T" using r(1,4) by simp_all
    then show ?thesis using r(2,3) lk by blast
  qed
qed

definition deleted :: "nat \<Rightarrow> (bool list \<Rightarrow> u64) \<Rightarrow> bool list \<Rightarrow> addr \<Rightarrow> int \<times> radix_tree \<times> rheap \<Rightarrow> bool" where
  "deleted m M bs a r \<longleftrightarrow> (case r of (rc, T', h') \<Rightarrow>
     \<exists>t' fs'. radix_ok T' h' t' fs' \<and> height t' \<le> m \<and> t_root T' = a \<and> look t' = M(bs := NGX_RADIX_NO_VALUE) \<and>
       (rc = NGX_OK \<or> rc = NGX_ERROR \<and> M bs = NGX_RADIX_NO_VALUE))"

lemma rdelete_ok:
  assumes "radix_ok T h t fs" "height t \<le> m" "bs \<noteq> [] \<or> 2 \<le> height t"
  shows "\<exists>r. rdelete bs T h = Some r \<and> deleted m (look t) bs (t_root T) r"
proof -
  obtain t' c' bs' where w: "walk bs t [] = (t', c', bs')" by (cases "walk bs t []") auto
  note wk = radix_ok_walk [OF assms(1) w]
  have "ptr t = Some (t_root T)" "holds h None t" using assms(1) by (simp_all add: radix_ok_def)
  then have sk: "rseek bs h (Some (t_root T)) = Some (ptr t')" using rseek_eq [of h None t bs "[]"] w by simp
  show ?thesis
  proof (cases t')
    case Tip
    then have M: "look t bs = NGX_RADIX_NO_VALUE" using look_plug [of t' c' bs'] wk(1,2) by simp
    then have "look t = (look t)(bs := NGX_RADIX_NO_VALUE)" by (simp add: fun_upd_idem)
    then show ?thesis using sk Tip M assms(1,2) by (auto simp: rdelete_def radix_remove_def deleted_def)
  next
    case (Nd a l u r)
    then have bs: "path c' = bs" using wk(2,3) by simp
    have M: "look t bs = u" using look_plug [of t' c' "[]"] wk(1) bs Nd by simp
    have ok: "radix_ok T h (plug (Nd a l u r) c') fs" "height (plug (Nd a l u r) c') \<le> m" using assms wk(1) Nd by simp_all
    have ha: "h a = Some \<lparr>r_right = ptr r, r_left = ptr l, r_parent = above c', r_value = u\<rparr>" using ok(1) by (simp add: radix_ok_def holds_plug)
    show ?thesis
    proof (cases "l = Tip \<and> r = Tip")
      case False
      then have ch: "ptr r \<noteq> None \<or> ptr l \<noteq> None" by (cases l; cases r) auto
      show ?thesis
      proof (cases "u = NGX_RADIX_NO_VALUE")
        case True
        then have "look t = (look t)(bs := NGX_RADIX_NO_VALUE)" using M by (simp add: fun_upd_idem)
        then show ?thesis using sk Nd ha ch True M assms(1,2) by (auto simp: rdelete_def radix_remove_def deleted_def)
      next
        case u: False
        from set_val_ok [OF ok(1)] obtain h' where h': "set_val a NGX_RADIX_NO_VALUE h = Some h'" "radix_ok T h' (plug (Nd a l NGX_RADIX_NO_VALUE r) c') fs" by blast
        have "height (plug (Nd a l NGX_RADIX_NO_VALUE r) c') \<le> m" using ok(2) by (simp add: height_plug)
        moreover have "look (plug (Nd a l NGX_RADIX_NO_VALUE r) c') = (look t)(bs := NGX_RADIX_NO_VALUE)"
          using look_set [of a l NGX_RADIX_NO_VALUE r c' u] wk(1) Nd bs by simp
        ultimately show ?thesis using sk Nd ha ch u h' by (auto simp: rdelete_def radix_remove_def deleted_def)
      qed
    next
      case True
      have "c' \<noteq> []"
      proof
        assume "c' = []"
        then have "bs = []" "height t = 1" using bs wk(1) Nd True by auto
        then show False using assms(3) by simp
      qed
      then obtain d pa pv s c where c: "c' = Frame d pa pv s # c" by (metis frame.exhaust neq_Nil_conv)
      from radix_prune_ok [of T h a u d pa pv s c fs m] ok True c obtain T' h' t1 fs' where
        p: "radix_prune T h a = Some (T', h')" "radix_ok T' h' t1 fs'" "height t1 \<le> m" "t_root T' = t_root T"
          "look t1 = (look (plug (Nd a Tip u Tip) c'))(path c' := NGX_RADIX_NO_VALUE)" by auto
      have "look t1 = (look t)(bs := NGX_RADIX_NO_VALUE)" using p(5) wk(1) Nd True bs by simp
      then show ?thesis using sk Nd ha True p by (auto simp: rdelete_def radix_remove_def deleted_def)
    qed
  qed
qed
end
