(* ===== verification/Ngx_Prefix_Table.thy ===== *)
theory Ngx_Prefix_Table
  imports Ngx_Radix
begin

text \<open>
  Radix trees as tables of prefixes. The loops over the bits of keys and masks are the loops over lists of bits of the
  theory before; the search gives the value of the longest prefix that has one; any sequence of insertions and deletions
  leaves the table that the same operations on a function leave. The contract is a locale, interpreted for the trees of
  IPv4 and of IPv6 addresses.
\<close>

section \<open>The bits of keys and masks\<close>

text \<open>The bits of a prefix from the \<open>k\<close>-th on: those of the key, as long as the bits of the mask are set.\<close>

fun pbits :: "(nat \<Rightarrow> bool) \<Rightarrow> (nat \<Rightarrow> bool) \<Rightarrow> nat \<Rightarrow> nat \<Rightarrow> bool list" where
  "pbits key msk k 0 = []"
| "pbits key msk k (Suc m) = (if msk k then key k # pbits key msk (Suc k) m else [])"

definition be_bit :: "u32 \<Rightarrow> nat \<Rightarrow> bool" where
  "be_bit x k = bit x (31 - k)"

definition cur32 :: "nat \<Rightarrow> u32" where
  "cur32 k = drop_bit k 0x80000000"

definition cur8 :: "nat \<Rightarrow> u_char" where
  "cur8 k = drop_bit k 0x80"

lemma bit_top32: "bit (0x80000000 :: u32) j \<longleftrightarrow> j = 31"
proof -
  have "(0x80000000 :: u32) = 2 ^ 31" by simp
  then show ?thesis unfolding bit_exp_iff by (simp only: bit_exp_iff possible_bit_word) auto
qed

lemma bit_top8: "bit (0x80 :: u_char) j \<longleftrightarrow> j = 7"
proof -
  have "(0x80 :: u_char) = 2 ^ 7" by simp
  then show ?thesis by (simp only: bit_exp_iff possible_bit_word) auto
qed

lemma and_cur32: "cur32 k AND x \<noteq> 0 \<longleftrightarrow> k < 32 \<and> be_bit x k"
proof -
  have b: "bit (cur32 k AND x) j \<longleftrightarrow> k + j = 31 \<and> bit x j" for j
    unfolding cur32_def bit_and_iff bit_drop_bit_eq o_def bit_top32 ..
  show ?thesis
  proof
    assume "cur32 k AND x \<noteq> 0"
    then obtain j where "bit (cur32 k AND x) j" by (auto simp: bit_eq_iff)
    then show "k < 32 \<and> be_bit x k" unfolding b using diff_add_inverse [of k j] by (auto simp: be_bit_def)
  next
    assume "k < 32 \<and> be_bit x k"
    then have "bit (cur32 k AND x) (31 - k)" unfolding b by (simp add: be_bit_def)
    then show "cur32 k AND x \<noteq> 0" by auto
  qed
qed

lemma and_cur8: "cur8 k AND x \<noteq> 0 \<longleftrightarrow> k < 8 \<and> bit x (7 - k)"
proof -
  have b: "bit (cur8 k AND x) j \<longleftrightarrow> k + j = 7 \<and> bit x j" for j
    unfolding cur8_def bit_and_iff bit_drop_bit_eq o_def bit_top8 ..
  show ?thesis
  proof
    assume "cur8 k AND x \<noteq> 0"
    then obtain j where "bit (cur8 k AND x) j" by (auto simp: bit_eq_iff)
    then show "k < 8 \<and> bit x (7 - k)" unfolding b using diff_add_inverse [of k j] by auto
  next
    assume "k < 8 \<and> bit x (7 - k)"
    then have "bit (cur8 k AND x) (7 - k)" unfolding b by simp
    then show "cur8 k AND x \<noteq> 0" by auto
  qed
qed

lemma cur32_Suc: "drop_bit 1 (cur32 k) = cur32 (Suc k)"
  by (simp add: cur32_def)

lemma cur32_Suc': "drop_bit (Suc 0) (cur32 k) = cur32 (Suc k)"
  using cur32_Suc [of k] by simp

lemma cur8_Suc: "drop_bit 1 (cur8 k) = cur8 (Suc k)"
  by (simp add: cur8_def)

lemma cur8_zero: "cur8 k = 0 \<longleftrightarrow> 8 \<le> k"
  using and_cur8 [of k "- 1"] by (auto simp: bit_minus_1_iff)

lemma cur_start: "cur32 0 = 0x80000000" "cur8 0 = 0x80"
  by (simp_all add: cur32_def cur8_def)

section \<open>The loops of the IPv4 trees\<close>

definition path32 :: "u32 \<Rightarrow> u32 \<Rightarrow> nat \<Rightarrow> bool list" where
  "path32 key msk k = pbits (be_bit key) (be_bit msk) k (32 - k)"

lemma path32_step: "path32 key msk k = (if k < 32 \<and> be_bit msk k then be_bit key k # path32 key msk (Suc k) else [])"
proof (cases "k < 32")
  case True
  then have "32 - k = Suc (32 - Suc k)" by simp
  then show ?thesis using True by (simp add: path32_def)
qed (simp add: path32_def)

declare radix32_walk.simps [simp del] radix32_grow.simps [simp del] radix32_seek.simps [simp del]

lemma walk32:
  assumes "\<And>a k'. F (a, False, cur32 k') = G (a, False, path32 key msk k')" "\<And>a mb. F (a, True, mb) = G (a, True, [])"
  shows "radix32_walk key msk h (cur32 k) a \<bind> F = rwalk (path32 key msk k) h a \<bind> G"
proof (induction "32 - k" arbitrary: k a)
  case 0
  then show ?case using assms(2) by (subst path32_step, subst radix32_walk.simps) (simp add: and_cur32)
next
  case (Suc m)
  then have k: "k < 32" "m = 32 - Suc k" by simp_all
  show ?case
  proof (cases "be_bit msk k")
    case False
    then show ?thesis using assms(2) by (subst path32_step, subst radix32_walk.simps) (simp add: and_cur32)
  next
    case True
    then have p: "path32 key msk k = be_bit key k # path32 key msk (Suc k)" using k by (subst path32_step) simp
    have c: "key AND cur32 k \<noteq> 0 \<longleftrightarrow> be_bit key k" using and_cur32 [of k key] k by (simp add: and.commute)
    show ?thesis
    proof (cases "h a")
      case None
      then show ?thesis using True k by (subst radix32_walk.simps) (simp add: p and_cur32)
    next
      case (Some n)
      then show ?thesis using True k c Suc.hyps(1) [OF k(2)] assms(1) [of a k]
        by (subst radix32_walk.simps) (simp add: p and_cur32 cur32_Suc' split: option.split)
    qed
  qed
qed

lemma grow32: "radix32_grow key msk T h (cur32 k) a = rgrow (path32 key msk k) T h a"
proof (induction "32 - k" arbitrary: k a T h)
  case 0
  then show ?case by (subst path32_step, subst radix32_grow.simps) (simp add: and_cur32)
next
  case (Suc m)
  then have k: "k < 32" "m = 32 - Suc k" by simp_all
  show ?case
  proof (cases "be_bit msk k")
    case False
    then show ?thesis by (subst path32_step, subst radix32_grow.simps) (simp add: and_cur32)
  next
    case True
    then have p: "path32 key msk k = be_bit key k # path32 key msk (Suc k)" using k by (subst path32_step) simp
    have c: "key AND cur32 k \<noteq> 0 \<longleftrightarrow> be_bit key k" using and_cur32 [of k key] k by (simp add: and.commute)
    show ?thesis using True k c Suc.hyps(1) [OF k(2)]
      by (subst radix32_grow.simps) (simp add: p and_cur32 cur32_Suc' cong: if_cong option.case_cong)
  qed
qed

lemma seek32: "radix32_seek key msk h (cur32 k) a = rseek (path32 key msk k) h a"
proof (induction "32 - k" arbitrary: k a)
  case 0
  then have "path32 key msk k = []" by (subst path32_step) simp
  then show ?case using 0 by (subst radix32_seek.simps, cases a) (simp_all add: and_cur32)
next
  case (Suc m)
  then have k: "k < 32" "m = 32 - Suc k" by simp_all
  show ?case
  proof (cases "be_bit msk k")
    case False
    then have "path32 key msk k = []" by (subst path32_step) simp
    then show ?thesis using False by (subst radix32_seek.simps, cases a) (simp_all add: and_cur32)
  next
    case True
    then have p: "path32 key msk k = be_bit key k # path32 key msk (Suc k)" using k by (subst path32_step) simp
    have c: "key AND cur32 k \<noteq> 0 \<longleftrightarrow> be_bit key k" using and_cur32 [of k key] k by (simp add: and.commute)
    show ?thesis using True k c Suc.hyps(1) [OF k(2)]
      by (subst radix32_seek.simps, cases a) (simp_all add: p and_cur32 cur32_Suc' cong: if_cong option.case_cong)
  qed
qed

lemma insert32: "ngx_radix32tree_insert key msk v T h = rinsert (path32 key msk 0) v T h"
  unfolding ngx_radix32tree_insert_def rinsert_def cur_start(1) [symmetric]
  by (rule walk32) (simp_all add: grow32)

lemma delete32: "ngx_radix32tree_delete key msk T h = rdelete (path32 key msk 0) T h"
  unfolding ngx_radix32tree_delete_def rdelete_def cur_start(1) [symmetric] seek32 ..

section \<open>The loops of the IPv6 trees\<close>

definition path128 :: "bytes \<Rightarrow> bytes \<Rightarrow> nat \<Rightarrow> bool list" where
  "path128 key msk k = pbits (addr_bit key) (addr_bit msk) k (128 - k)"

lemma path128_step: "path128 key msk k = (if k < 128 \<and> addr_bit msk k then addr_bit key k # path128 key msk (Suc k) else [])"
proof (cases "k < 128")
  case True
  then have "128 - k = Suc (128 - Suc k)" by simp
  then show ?thesis using True by (simp add: path128_def)
qed (simp add: path128_def)

lemma rd_byte: "k < 128 \<Longrightarrow> 16 \<le> length x \<Longrightarrow> rd x (k div 8) = Some (x ! (k div 8))"
  by (simp add: rd_def)

lemma and_bit: "cur8 (k mod 8) AND x ! (k div 8) \<noteq> 0 \<longleftrightarrow> addr_bit x k" "x ! (k div 8) AND cur8 (k mod 8) \<noteq> 0 \<longleftrightarrow> addr_bit x k"
  using and_cur8 [of "k mod 8" "x ! (k div 8)"] by (simp_all add: addr_bit_def and.commute)

lemma cursor_step:
  assumes "k < 128"
  shows "(if drop_bit 1 (cur8 (k mod 8)) = 0 then if k div 8 + 1 = 16 then e else f (k div 8 + 1) 0x80 else f (k div 8) (drop_bit 1 (cur8 (k mod 8))))
    = (if Suc k = 128 then e else f (Suc k div 8) (cur8 (Suc k mod 8)))"
proof -
  define i j where "i = k div 8" and "j = k mod 8"
  have k: "k = 8 * i + j" "j < 8" by (simp_all add: i_def j_def)
  show ?thesis
  proof (cases "j = 7")
    case True
    then have "k div 8 + 1 = Suc k div 8" "Suc k mod 8 = 0" "k div 8 + 1 = 16 \<longleftrightarrow> Suc k = 128" "k mod 8 = 7" using k by simp_all
    moreover have "drop_bit 1 (cur8 7) = 0" by (simp add: cur8_Suc cur8_zero del: One_nat_def)
    ultimately show ?thesis by (simp add: cur_start)
  next
    case False
    with k have d: "Suc k div 8 = k div 8" "Suc k mod 8 = Suc (k mod 8)" "Suc (k mod 8) < 8" by simp_all
    have "Suc k mod 8 \<noteq> 0" unfolding d(2) by simp
    then have "Suc k \<noteq> 128" by (auto simp del: mod_Suc_eq)
    have "drop_bit 1 (cur8 (k mod 8)) \<noteq> 0" using d(3) by (simp add: cur8_Suc cur8_zero del: One_nat_def)
    then show ?thesis using d \<open>Suc k \<noteq> 128\<close> cur8_Suc [of "k mod 8"] by simp
  qed
qed

declare radix128_walk.simps [simp del] radix128_grow.simps [simp del] radix128_seek.simps [simp del]

lemma walk128_step:
  assumes "k < 128" "16 \<le> length key" "16 \<le> length msk"
  shows "radix128_walk key msk h (k div 8) (cur8 (k mod 8)) a =
    (if addr_bit msk k then
       do { n \<leftarrow> h a;
            (case (if addr_bit key k then r_right n else r_left n) of
               None \<Rightarrow> Some (a, False, k div 8, cur8 (k mod 8))
             | Some b \<Rightarrow>
                 (if Suc k = 128 then Some (b, True, k div 8 + 1, drop_bit 1 (cur8 (k mod 8)))
                  else radix128_walk key msk h (Suc k div 8) (cur8 (Suc k mod 8)) b)) }
     else Some (a, True, k div 8, cur8 (k mod 8)))"
  by (subst radix128_walk.simps)
    (simp only: cursor_step [OF assms(1), where f = "\<lambda>i mb. radix128_walk key msk h i mb b" and e = "Some (b, True, k div 8 + 1, drop_bit 1 (cur8 (k mod 8)))" for b] rd_byte [OF assms(1,2)] rd_byte [OF assms(1,3)] and_bit Option.bind.bind_lunit)

lemma grow128_step:
  assumes "k < 128" "16 \<le> length key" "16 \<le> length msk"
  shows "radix128_grow key msk T h (k div 8) (cur8 (k mod 8)) a =
    (if addr_bit msk k then
       do { (next, T, h) \<leftarrow> ngx_radix_alloc T h;
            (case next of
               None \<Rightarrow> Some (None, T, h)
             | Some b \<Rightarrow>
                 do { h \<leftarrow> set_node b (new_node a) h;
                      h \<leftarrow> (if addr_bit key k then set_right a (Some b) h else set_left a (Some b) h);
                      (if Suc k = 128 then Some (Some b, T, h) else radix128_grow key msk T h (Suc k div 8) (cur8 (Suc k mod 8)) b) }) }
     else Some (Some a, T, h))"
  by (subst radix128_grow.simps)
    (simp only: cursor_step [OF assms(1), where f = "\<lambda>i mb. radix128_grow key msk T h i mb b" and e = "Some (Some b, T, h)" for T h b] rd_byte [OF assms(1,2)] rd_byte [OF assms(1,3)] and_bit Option.bind.bind_lunit)

lemma seek128_step:
  assumes "k < 128" "16 \<le> length key" "16 \<le> length msk"
  shows "radix128_seek key msk h (k div 8) (cur8 (k mod 8)) p =
    (case p of
       None \<Rightarrow> Some None
     | Some a \<Rightarrow>
         if addr_bit msk k then
           do { n \<leftarrow> h a;
                let next = (if addr_bit key k then r_right n else r_left n);
                (if Suc k = 128 then Some next else radix128_seek key msk h (Suc k div 8) (cur8 (Suc k mod 8)) next) }
         else Some p)"
  by (subst radix128_seek.simps)
    (simp only: cursor_step [OF assms(1), where f = "\<lambda>i mb. radix128_seek key msk h i mb p" and e = "Some p" for p] rd_byte [OF assms(1,2)] rd_byte [OF assms(1,3)] and_bit Option.bind.bind_lunit Let_def)

lemma walk128:
  assumes len: "16 \<le> length key" "16 \<le> length msk"
    and f: "\<And>a k'. k' < 128 \<Longrightarrow> F (a, False, k' div 8, cur8 (k' mod 8)) = G (a, False, path128 key msk k')"
      "\<And>a i mb. F (a, True, i, mb) = G (a, True, [])"
  shows "k < 128 \<Longrightarrow> radix128_walk key msk h (k div 8) (cur8 (k mod 8)) a \<bind> F = rwalk (path128 key msk k) h a \<bind> G"
proof (induction "127 - k" arbitrary: k a)
  case 0
  then have k: "k = 127" by simp
  show ?case
  proof (cases "h a")
    case None
    then show ?thesis using f unfolding walk128_step [OF 0(2) len] by (subst path128_step) (simp add: 0(2))
  next
    case (Some n)
    have "path128 key msk (Suc k) = []" using k by (subst path128_step) simp
    then have p: "path128 key msk k = (if addr_bit msk k then [addr_bit key k] else [])" using 0(2) by (subst path128_step) simp
    show ?thesis using Some f(2) f(1) [OF 0(2)] k unfolding walk128_step [OF 0(2) len] p
      by (simp split: option.split)
  qed
next
  case (Suc m)
  then have k: "Suc k < 128" "m = 127 - Suc k" by simp_all
  note IH = Suc.hyps(1) [OF k(2,1)]
  show ?case
  proof (cases "addr_bit msk k")
    case False
    then show ?thesis using f unfolding walk128_step [OF Suc(3) len] by (subst path128_step) simp
  next
    case True
    then have p: "path128 key msk k = addr_bit key k # path128 key msk (Suc k)" using k by (subst path128_step) simp
    show ?thesis
    proof (cases "h a")
      case None
      then show ?thesis using True unfolding walk128_step [OF Suc(3) len] by (simp add: p)
    next
      case (Some n)
      then show ?thesis using True IH k f(1) [OF Suc(3)] unfolding walk128_step [OF Suc(3) len]
        by (simp add: p split: option.split)
    qed
  qed
qed

lemma grow128:
  assumes len: "16 \<le> length key" "16 \<le> length msk"
  shows "k < 128 \<Longrightarrow> radix128_grow key msk T h (k div 8) (cur8 (k mod 8)) a = rgrow (path128 key msk k) T h a"
proof (induction "127 - k" arbitrary: k a T h)
  case 0
  then have k: "k = 127" by simp
  have "path128 key msk (Suc k) = []" using k by (subst path128_step) simp
  then show ?case using k unfolding grow128_step [OF 0(2) len]
    by (subst path128_step) (simp cong: if_cong option.case_cong)
next
  case (Suc m)
  then have k: "Suc k < 128" "m = 127 - Suc k" by simp_all
  show ?case using k Suc.hyps(1) [OF k(2,1)] unfolding grow128_step [OF Suc(3) len]
    by (subst path128_step) (simp cong: if_cong option.case_cong)
qed

lemma seek128:
  assumes len: "16 \<le> length key" "16 \<le> length msk"
  shows "k < 128 \<Longrightarrow> radix128_seek key msk h (k div 8) (cur8 (k mod 8)) a = rseek (path128 key msk k) h a"
proof (induction "127 - k" arbitrary: k a)
  case 0
  then have k: "k = 127" by simp
  have "path128 key msk (Suc k) = []" using k by (subst path128_step) simp
  moreover have "rseek [] h p = Some p" for p by (cases p) simp_all
  ultimately show ?case using k unfolding seek128_step [OF 0(2) len]
    by (subst path128_step, cases a) (simp_all add: Let_def)
next
  case (Suc m)
  then have k: "Suc k < 128" "m = 127 - Suc k" by simp_all
  show ?case using k Suc.hyps(1) [OF k(2,1)] unfolding seek128_step [OF Suc(3) len]
    by (subst path128_step, cases a) (simp_all add: Let_def)
qed

lemma insert128:
  assumes "16 \<le> length key" "16 \<le> length msk"
  shows "ngx_radix128tree_insert key msk v T h = rinsert (path128 key msk 0) v T h"
  unfolding ngx_radix128tree_insert_def rinsert_def cur_start(2) [symmetric]
  by (rule walk128 [OF assms, of _ _ 0, simplified]) (simp_all add: grow128 [OF assms])

lemma delete128:
  assumes "16 \<le> length key" "16 \<le> length msk"
  shows "ngx_radix128tree_delete key msk T h = rdelete (path128 key msk 0) T h"
  using seek128 [OF assms, of 0 h "Some (t_root T)"] unfolding ngx_radix128tree_delete_def rdelete_def by (simp add: cur_start)

section \<open>The search: the longest prefix with a value\<close>

text \<open>The value of the longest prefix of at most \<open>n\<close> bits of the address whose bits are \<open>f\<close>.\<close>

definition bits :: "(nat \<Rightarrow> bool) \<Rightarrow> nat \<Rightarrow> bool list" where
  "bits f n = map f [0 ..< n]"

fun lpm :: "(bool list \<Rightarrow> u64) \<Rightarrow> (nat \<Rightarrow> bool) \<Rightarrow> nat \<Rightarrow> u64" where
  "lpm M f 0 = M []"
| "lpm M f (Suc n) = (if M (bits f (Suc n)) \<noteq> NGX_RADIX_NO_VALUE then M (bits f (Suc n)) else lpm M f n)"

fun best :: "u64 \<Rightarrow> rtree \<Rightarrow> (nat \<Rightarrow> bool) \<Rightarrow> u64" where
  "best v Tip f = v"
| "best v (Nd a l u r) f = best (if u \<noteq> NGX_RADIX_NO_VALUE then u else v) (if f 0 then r else l) (\<lambda>j. f (Suc j))"

lemma bits_0 [simp]: "bits f 0 = []"
  by (simp add: bits_def)

lemma bits_Suc: "bits f (Suc n) = f 0 # bits (\<lambda>j. f (Suc j)) n"
  unfolding bits_def by (simp add: upt_conv_Cons map_Suc_upt [symmetric] del: upt_Suc)

lemma lpm_Suc:
  "lpm M f (Suc n) = (let w = lpm (\<lambda>bs. M (f 0 # bs)) (\<lambda>j. f (Suc j)) n in if w \<noteq> NGX_RADIX_NO_VALUE then w else M [])"
proof (induction n)
  case 0
  then show ?case by (simp add: bits_Suc)
next
  case (Suc n)
  have "lpm M f (Suc (Suc n)) = (if M (bits f (Suc (Suc n))) \<noteq> NGX_RADIX_NO_VALUE then M (bits f (Suc (Suc n))) else lpm M f (Suc n))" by simp
  then show ?case unfolding Suc unfolding bits_Suc [of f "Suc n"] by (simp add: Let_def)
qed

lemma lpm_none: "lpm (\<lambda>bs. NGX_RADIX_NO_VALUE) f n = NGX_RADIX_NO_VALUE"
  by (induction n) simp_all

lemma best_lpm:
  "height t \<le> Suc n \<Longrightarrow> best v t f = (if lpm (look t) f n \<noteq> NGX_RADIX_NO_VALUE then lpm (look t) f n else v)"
proof (induction n arbitrary: v t f)
  case 0
  then show ?case
  proof (cases t)
    case (Nd a l u r)
    then have "l = Tip" "r = Tip" using 0 by (cases l; cases r; simp)+
    then show ?thesis using Nd by simp
  qed simp
next
  case (Suc n)
  show ?case
  proof (cases t)
    case Tip
    have "look Tip = (\<lambda>bs. NGX_RADIX_NO_VALUE)" by (rule ext) simp
    then show ?thesis using lpm_none Tip by simp
  next
    case (Nd a l u r)
    let ?t = "if f 0 then r else l" and ?f = "\<lambda>j. f (Suc j)"
    have "height ?t \<le> Suc n" using Suc.prems Nd by auto
    note IH = Suc.IH [OF this]
    have "(\<lambda>bs. look t (f 0 # bs)) = look ?t" using Nd by auto
    then have "lpm (look t) f (Suc n) = (let w = lpm (look ?t) ?f n in if w \<noteq> NGX_RADIX_NO_VALUE then w else u)"
      unfolding lpm_Suc by (simp add: Nd Let_def)
    moreover have "best v t f = best (if u \<noteq> NGX_RADIX_NO_VALUE then u else v) ?t ?f" using Nd by simp
    ultimately show ?thesis unfolding IH by (simp add: Let_def del: lpm.simps)
  qed
qed

definition key32 :: "u32 \<Rightarrow> nat \<Rightarrow> bool" where
  "key32 key k \<longleftrightarrow> k < 32 \<and> be_bit key k"

lemma find32_loop:
  "holds h p t \<Longrightarrow> radix32_find_loop key h (cur32 k) v (ptr t) = Some (best v t (\<lambda>j. key32 key (k + j)))"
proof (induction t arbitrary: p k v)
  case Tip
  then show ?case by (simp add: radix32_find_loop.simps)
next
  case (Nd a l u r)
  have c: "key AND cur32 k \<noteq> 0 \<longleftrightarrow> key32 key k" using and_cur32 [of k key] by (simp add: key32_def and.commute)
  have h: "h a = Some \<lparr>r_right = ptr r, r_left = ptr l, r_parent = p, r_value = u\<rparr>" "holds h (Some a) l" "holds h (Some a) r" using Nd.prems by simp_all
  note IH = Nd.IH(1) [OF h(2), of "Suc k"] Nd.IH(2) [OF h(3), of "Suc k"]
  show ?case unfolding ptr.simps using h(1) IH c
    by (subst radix32_find_loop.simps) (cases "key32 key k"; simp add: cur32_Suc')
qed

lemma cursor_next:
  "(if drop_bit 1 (cur8 (k mod 8)) = 0 then k div 8 + 1 else k div 8) = Suc k div 8"
  "(if drop_bit 1 (cur8 (k mod 8)) = 0 then 0x80 else drop_bit 1 (cur8 (k mod 8))) = cur8 (Suc k mod 8)"
proof -
  define i j where "i = k div 8" and "j = k mod 8"
  have k: "k = 8 * i + j" "j < 8" by (simp_all add: i_def j_def)
  have "drop_bit 1 (cur8 (k mod 8)) = 0 \<longleftrightarrow> j = 7" using k by (auto simp: cur8_Suc cur8_zero simp del: One_nat_def)
  moreover have "j = 7 \<Longrightarrow> k div 8 + 1 = Suc k div 8 \<and> Suc k mod 8 = 0" using k by simp
  moreover have "j \<noteq> 7 \<Longrightarrow> Suc k div 8 = k div 8 \<and> Suc k mod 8 = Suc (k mod 8)" using k by simp
  ultimately show "(if drop_bit 1 (cur8 (k mod 8)) = 0 then k div 8 + 1 else k div 8) = Suc k div 8"
    "(if drop_bit 1 (cur8 (k mod 8)) = 0 then 0x80 else drop_bit 1 (cur8 (k mod 8))) = cur8 (Suc k mod 8)"
    using cur8_Suc [of "k mod 8"] by (auto simp: cur_start)
qed

lemma find128_loop:
  "holds h p t \<Longrightarrow> height t + k \<le> 8 * length key \<Longrightarrow>
    radix128_find_loop key h (k div 8) (cur8 (k mod 8)) v (ptr t) = Some (best v t (\<lambda>j. addr_bit key (k + j)))"
proof (induction t arbitrary: p k v)
  case Tip
  then show ?case by (simp add: radix128_find_loop.simps)
next
  case (Nd a l u r)
  have "k div 8 < length key" using Nd.prems(2) by auto
  then have rd: "rd key (k div 8) = Some (key ! (k div 8))" by (simp add: rd_def)
  have h: "h a = Some \<lparr>r_right = ptr r, r_left = ptr l, r_parent = p, r_value = u\<rparr>" "holds h (Some a) l" "holds h (Some a) r" using Nd.prems by simp_all
  have m: "height l + Suc k \<le> 8 * length key" "height r + Suc k \<le> 8 * length key" using Nd.prems(2) by auto
  note IH = Nd.IH(1) [OF h(2) m(1)] Nd.IH(2) [OF h(3) m(2)]
  show ?case unfolding ptr.simps
    by (subst radix128_find_loop.simps) (use h(1) IH in \<open>cases "addr_bit key k"; simp add: rd and_bit cursor_next del: One_nat_def\<close>)
qed

section \<open>Tables of prefixes\<close>

text \<open>
  The contract of a tree: it represents a table from prefixes, the lists of their bits, to values. \<open>m\<close> is the length
  of the addresses.
\<close>

definition radix_rep :: "nat \<Rightarrow> radix_tree \<Rightarrow> rheap \<Rightarrow> (bool list \<Rightarrow> u64) \<Rightarrow> bool" where
  "radix_rep m T h M \<longleftrightarrow> (\<exists>t fs. radix_ok T h t fs \<and> height t \<le> Suc m \<and> look t = M)"

definition insert_result :: "nat \<Rightarrow> (bool list \<Rightarrow> u64) \<Rightarrow> bool list \<Rightarrow> u64 \<Rightarrow> (int \<times> radix_tree \<times> rheap) option \<Rightarrow> bool" where
  "insert_result m M p v res \<longleftrightarrow>
     (case res of
        None \<Rightarrow> False
      | Some (rc, T, h) \<Rightarrow>
          if M p \<noteq> NGX_RADIX_NO_VALUE then rc = NGX_BUSY \<and> radix_rep m T h M
          else rc = NGX_OK \<and> radix_rep m T h (M(p := v)) \<or> rc = NGX_ERROR \<and> t_pages T = [] \<and> radix_rep m T h M)"

definition delete_result :: "nat \<Rightarrow> (bool list \<Rightarrow> u64) \<Rightarrow> bool list \<Rightarrow> (int \<times> radix_tree \<times> rheap) option \<Rightarrow> bool" where
  "delete_result m M p res \<longleftrightarrow>
     (case res of
        None \<Rightarrow> False
      | Some (rc, T, h) \<Rightarrow>
          radix_rep m T h (M(p := NGX_RADIX_NO_VALUE)) \<and> (rc = NGX_OK \<or> rc = NGX_ERROR \<and> M p = NGX_RADIX_NO_VALUE))"

lemma pbits_length: "length (pbits f g k n) \<le> n"
  by (induction n arbitrary: k) auto

lemma rinsert_rep:
  assumes "radix_rep m T h M" "length p \<le> m"
  shows "insert_result m M p v (rinsert p v T h)"
proof -
  obtain t fs where t: "radix_ok T h t fs" "height t \<le> Suc m" "look t = M" using assms(1) by (auto simp: radix_rep_def)
  from rinsert_ok [OF t(1,2), of p v] assms(2) obtain r where r: "rinsert p v T h = Some r" "inserted (Suc m) (look t) p v (t_root T) r"
    by (auto simp: less_Suc_eq_le)
  obtain rc T' h' where "r = (rc, T', h')" by (cases r)
  then show ?thesis using r t(3) by (auto simp: insert_result_def inserted_def radix_rep_def split: if_splits)
qed

lemma rdelete_rep:
  assumes "radix_rep m T h M" "p \<noteq> []"
  shows "delete_result m M p (rdelete p T h)"
proof -
  obtain t fs where t: "radix_ok T h t fs" "height t \<le> Suc m" "look t = M" using assms(1) by (auto simp: radix_rep_def)
  from rdelete_ok [OF t(1,2), of p] assms(2) obtain r where r: "rdelete p T h = Some r" "deleted (Suc m) (look t) p (t_root T) r" by blast
  obtain rc T' h' where "r = (rc, T', h')" by (cases r)
  then show ?thesis using r t(3) by (auto simp: delete_result_def deleted_def radix_rep_def)
qed

lemma find32:
  assumes "radix_rep 32 T h M"
  shows "ngx_radix32tree_find key T h = Some (lpm M (key32 key) 32)"
proof -
  obtain t fs where t: "radix_ok T h t fs" "height t \<le> Suc 32" "look t = M" using assms by (auto simp: radix_rep_def)
  have "holds h None t" "ptr t = Some (t_root T)" using t(1) by (simp_all add: radix_ok_def)
  then have "ngx_radix32tree_find key T h = Some (best NGX_RADIX_NO_VALUE t (key32 key))"
    using find32_loop [of h None t key 0 NGX_RADIX_NO_VALUE] by (simp add: ngx_radix32tree_find_def cur_start)
  then show ?thesis unfolding best_lpm [OF t(2)] t(3) by auto
qed

lemma find128:
  assumes "radix_rep m T h M" "m < 8 * length key"
  shows "ngx_radix128tree_find key T h = Some (lpm M (addr_bit key) m)"
proof -
  obtain t fs where t: "radix_ok T h t fs" "height t \<le> Suc m" "look t = M" using assms by (auto simp: radix_rep_def)
  have "holds h None t" "ptr t = Some (t_root T)" using t(1) by (simp_all add: radix_ok_def)
  then have "ngx_radix128tree_find key T h = Some (best NGX_RADIX_NO_VALUE t (addr_bit key))"
    using find128_loop [of h None t 0 key NGX_RADIX_NO_VALUE] t(2) assms(2) by (simp add: ngx_radix128tree_find_def cur_start)
  then show ?thesis unfolding best_lpm [OF t(2)] t(3) by auto
qed

lemma path32_length: "length (path32 key msk 0) \<le> 32"
  using pbits_length by (simp add: path32_def)

lemma path128_length: "length (path128 key msk 0) \<le> 128"
  using pbits_length by (simp add: path128_def)

section \<open>Creation\<close>

definition no_values :: "bool list \<Rightarrow> u64" where
  "no_values p = NGX_RADIX_NO_VALUE"

lemma no_values_upd [simp]: "no_values(p := NGX_RADIX_NO_VALUE) = no_values"
  by (rule ext) (simp add: no_values_def)

lemma insert32_rep: "radix_rep 32 T h M \<Longrightarrow> insert_result 32 M (path32 key msk 0) v (ngx_radix32tree_insert key msk v T h)"
  unfolding insert32 by (rule rinsert_rep [OF _ path32_length])

lemma fill_step:
  assumes "radix_rep 32 T h no_values"
  shows "\<exists>rc T' h'. ngx_radix32tree_insert key msk NGX_RADIX_NO_VALUE T h = Some (rc, T', h') \<and> radix_rep 32 T' h' no_values"
  using insert32_rep [OF assms, of key msk NGX_RADIX_NO_VALUE]
  by (auto simp: insert_result_def no_values_def [of "path32 key msk 0"] split: option.splits prod.splits)

lemma fill_ok:
  assumes "radix_rep 32 T h no_values" "key + of_nat (Suc n) * inc = 0"
  shows "\<exists>ok T' h'. radix_fill key msk inc T h = Some (ok, T', h') \<and> radix_rep 32 T' h' no_values"
  using assms
proof (induction n arbitrary: key T h)
  case 0
  from fill_step [OF 0(1), of key msk] obtain rc T' h' where
    i: "ngx_radix32tree_insert key msk NGX_RADIX_NO_VALUE T h = Some (rc, T', h')" "radix_rep 32 T' h' no_values" by blast
  moreover have "key + inc = 0" using 0(2) by simp
  ultimately have "radix_fill key msk inc T h = Some (rc = NGX_OK, T', h')" by (subst radix_fill.simps) simp
  then show ?case using i(2) by blast
next
  case (Suc n)
  from fill_step [OF Suc(2), of key msk] obtain rc T' h' where
    i: "ngx_radix32tree_insert key msk NGX_RADIX_NO_VALUE T h = Some (rc, T', h')" "radix_rep 32 T' h' no_values" by blast
  have "(key + inc) + of_nat (Suc n) * inc = 0" using Suc(3) by (simp add: algebra_simps)
  from Suc(1) [OF i(2) this] i show ?case by (subst radix_fill.simps) auto
qed

lemma fill_total:
  assumes "radix_rep 32 T h no_values"
  shows "\<exists>ok T' h'. radix_fill 0 msk inc T h = Some (ok, T', h') \<and> radix_rep 32 T' h' no_values"
proof (rule fill_ok [OF assms])
  have "of_nat (Suc (2 ^ 32 - 1)) = (0 :: u32)" by simp
  then show "0 + of_nat (Suc (2 ^ 32 - 1)) * inc = 0" by (simp only: mult_zero_left add_0)
qed

lemma preallocate_ok:
  "radix_rep 32 T h no_values \<Longrightarrow>
    \<exists>ok T' h'. radix_preallocate n msk inc T h = Some (ok, T', h') \<and> radix_rep 32 T' h' no_values"
proof (induction n arbitrary: msk inc T h)
  case 0
  then show ?case by (intro exI [of _ True] exI [of _ T] exI [of _ h]) simp
next
  case (Suc n)
  let ?m = "drop_bit 1 msk OR 0x80000000"
  from fill_total [OF Suc.prems, of ?m inc] obtain ok T' h' where f: "radix_fill 0 ?m inc T h = Some (ok, T', h')" "radix_rep 32 T' h' no_values" by blast
  from Suc.IH [OF f(2), of ?m "drop_bit 1 inc"] show ?case using f(2)
    unfolding radix_preallocate.simps Let_def f(1) by (cases ok) auto
qed

lemma root_ok:
  assumes "pool_ok T h {p} fs" "p \<in> dom h"
  shows "\<exists>h'. set_node p \<lparr>r_right = None, r_left = None, r_parent = None, r_value = NGX_RADIX_NO_VALUE\<rparr> h = Some h'
    \<and> radix_rep m (T\<lparr>t_root := p\<rparr>) h' no_values"
proof -
  define n where "n = \<lparr>r_right = None, r_left = None, r_parent = None, r_value = NGX_RADIX_NO_VALUE\<rparr>"
  define h' where "h' = h(p \<mapsto> n)"
  have "set_node p n h = Some h'" using assms(2) by (auto simp: set_node_def h'_def)
  moreover have "pool_ok T h' {p} fs" by (rule pool_frame [OF assms(1)]) (use assms(2) in \<open>auto simp: h'_def\<close>)
  then have "radix_ok (T\<lparr>t_root := p\<rparr>) h' (Nd p Tip NGX_RADIX_NO_VALUE Tip) fs"
    by (simp add: radix_ok_def pool_ok_def fresh_def h'_def n_def)
  moreover have "look (Nd p Tip NGX_RADIX_NO_VALUE Tip) = no_values" by (rule ext) (simp add: look_empty no_values_def)
  moreover have "height (Nd p Tip NGX_RADIX_NO_VALUE Tip) \<le> Suc m" by simp
  ultimately show ?thesis unfolding radix_rep_def n_def by blast
qed

definition created :: "addr list \<Rightarrow> int \<Rightarrow> (radix_tree \<times> rheap) option option \<Rightarrow> bool" where
  "created ps pre r \<longleftrightarrow>
     (case r of None \<Rightarrow> False | Some None \<Rightarrow> ps = [] \<or> pre \<noteq> 0 | Some (Some (T, h)) \<Rightarrow> radix_rep 32 T h no_values)"

lemma create_ok:
  assumes "pages_ok ps {}" "- 1 \<le> pre"
  shows "created ps pre (ngx_radix_tree_create True ps jk pre)"
proof -
  define T0 where "T0 = \<lparr>t_root = 0, t_pages = ps, t_junk = jk, t_free = None, t_start = 0, t_size = 0\<rparr>"
  have "pool_ok T0 Map.empty {} []" using assms(1) by (simp add: pool_ok_def T0_def fresh_def)
  from alloc_ok [OF this] obtain res T h fs where al: "ngx_radix_alloc T0 Map.empty = Some (res, T, h)"
    "case res of None \<Rightarrow> t_pages T = [] \<and> pool_ok T h {} fs | Some p \<Rightarrow> p \<notin> {} \<and> p \<in> dom h \<and> pool_ok T h {p} fs" by blast
  note c = ngx_radix_tree_create_def [of True ps jk pre, folded T0_def, unfolded al(1)]
  show ?thesis
  proof (cases res)
    case None
    then have "ps = []" using al(1) by (auto simp: T0_def ngx_radix_alloc_def take_fresh_def split: list.splits)
    then show ?thesis unfolding c None by (simp add: created_def)
  next
    case (Some p)
    then have "pool_ok T h {p} fs" "p \<in> dom h" using al(2) by simp_all
    from root_ok [OF this] obtain h' where s: "set_node p \<lparr>r_right = None, r_left = None, r_parent = None, r_value = NGX_RADIX_NO_VALUE\<rparr> h = Some h'"
      "radix_rep 32 (T\<lparr>t_root := p\<rparr>) h' no_values" by blast
    let ?n = "if pre = - 1 then if page_nodes = 128 then 6 else if page_nodes = 256 then 7 else 8 else nat pre"
    from preallocate_ok [OF s(2)] obtain ok T2 h2 where
      p: "radix_preallocate ?n 0 0x80000000 (T\<lparr>t_root := p\<rparr>) h' = Some (ok, T2, h2)" "radix_rep 32 T2 h2 no_values" by blast
    show ?thesis
    proof (cases "pre = 0")
      case True
      then show ?thesis unfolding c Some using s by (simp add: created_def)
    next
      case False
      then have "\<not> pre < - 1" using assms(2) by simp
      then show ?thesis unfolding c Some using False s(1) p by (cases ok) (simp_all add: created_def Let_def)
    qed
  qed
qed

section \<open>Tables over time\<close>

text \<open>A sequence of operations on a tree, with the codes they return and whether the pool had memory left.\<close>

datatype 'k radix_op = Add 'k 'k u64 | Drop 'k 'k

type_synonym 'k radix_ins = "'k \<Rightarrow> 'k \<Rightarrow> u64 \<Rightarrow> radix_tree \<Rightarrow> rheap \<Rightarrow> (int \<times> radix_tree \<times> rheap) option"
type_synonym 'k radix_del = "'k \<Rightarrow> 'k \<Rightarrow> radix_tree \<Rightarrow> rheap \<Rightarrow> (int \<times> radix_tree \<times> rheap) option"

fun radix_run :: "'k radix_ins \<Rightarrow> 'k radix_del \<Rightarrow> 'k radix_op list \<Rightarrow> radix_tree \<Rightarrow> rheap \<Rightarrow> ((int \<times> bool) list \<times> radix_tree \<times> rheap) option" where
  "radix_run ins del [] T h = Some ([], T, h)"
| "radix_run ins del (x # xs) T h =
     do { (rc, T, h) \<leftarrow> (case x of Add k m v \<Rightarrow> ins k m v T h | Drop k m \<Rightarrow> del k m T h);
          let left = t_pages T \<noteq> [];
          (rcs, T, h) \<leftarrow> radix_run ins del xs T h;
          Some ((rc, left) # rcs, T, h) }"

text \<open>The table that the operations leave, when the codes are right: an insertion may fail only for lack of memory.\<close>

fun table_after :: "('k \<Rightarrow> 'k \<Rightarrow> bool list) \<Rightarrow> 'k radix_op list \<Rightarrow> (int \<times> bool) list \<Rightarrow> (bool list \<Rightarrow> u64) \<Rightarrow> (bool list \<Rightarrow> u64) option" where
  "table_after pre [] [] M = Some M"
| "table_after pre (Add k m v # xs) ((rc, left) # rcs) M =
     (let p = pre k m in
      if M p \<noteq> NGX_RADIX_NO_VALUE then if rc = NGX_BUSY then table_after pre xs rcs M else None
      else if rc = NGX_OK then table_after pre xs rcs (M(p := v))
      else if rc = NGX_ERROR \<and> \<not> left then table_after pre xs rcs M
      else None)"
| "table_after pre (Drop k m # xs) ((rc, left) # rcs) M =
     (let p = pre k m in
      if rc = NGX_OK \<or> rc = NGX_ERROR \<and> M p = NGX_RADIX_NO_VALUE
      then table_after pre xs rcs (M(p := NGX_RADIX_NO_VALUE)) else None)"
| "table_after pre xs rcs M = None"

fun op_ok :: "('k \<Rightarrow> bool) \<Rightarrow> ('k \<Rightarrow> 'k \<Rightarrow> bool list) \<Rightarrow> 'k radix_op \<Rightarrow> bool" where
  "op_ok valid pre (Add k msk v) \<longleftrightarrow> valid k \<and> valid msk"
| "op_ok valid pre (Drop k msk) \<longleftrightarrow> valid k \<and> valid msk \<and> pre k msk \<noteq> []"

locale prefix_table =
  fixes m :: nat and valid :: "'k \<Rightarrow> bool" and pre :: "'k \<Rightarrow> 'k \<Rightarrow> bool list" and kbits :: "'k \<Rightarrow> nat \<Rightarrow> bool"
    and ins :: "'k radix_ins" and del :: "'k radix_del" and fnd :: "'k \<Rightarrow> radix_tree \<Rightarrow> rheap \<Rightarrow> u64 option"
  assumes ins_law: "radix_rep m T h M \<Longrightarrow> valid k \<Longrightarrow> valid msk \<Longrightarrow> insert_result m M (pre k msk) v (ins k msk v T h)"
    and del_law: "radix_rep m T h M \<Longrightarrow> valid k \<Longrightarrow> valid msk \<Longrightarrow> pre k msk \<noteq> [] \<Longrightarrow> delete_result m M (pre k msk) (del k msk T h)"
    and fnd_law: "radix_rep m T h M \<Longrightarrow> valid k \<Longrightarrow> fnd k T h = Some (lpm M (kbits k) m)"
begin

lemma run_table:
  "radix_rep m T h M \<Longrightarrow> \<forall>x \<in> set xs. op_ok valid pre x \<Longrightarrow>
    \<exists>rcs T' h' M'. radix_run ins del xs T h = Some (rcs, T', h') \<and> table_after pre xs rcs M = Some M' \<and> radix_rep m T' h' M'"
proof (induction xs arbitrary: T h M)
  case (Cons x xs)
  show ?case
  proof (cases x)
    case (Add k msk v)
    then have "insert_result m M (pre k msk) v (ins k msk v T h)" using Cons.prems by (intro ins_law) auto
    then obtain rc T1 h1 where i: "ins k msk v T h = Some (rc, T1, h1)" "insert_result m M (pre k msk) v (Some (rc, T1, h1))"
      by (auto simp: insert_result_def split: option.splits)
    define M1 where "M1 = (if M (pre k msk) \<noteq> NGX_RADIX_NO_VALUE \<or> rc \<noteq> NGX_OK then M else M(pre k msk := v))"
    have "radix_rep m T1 h1 M1" using i(2) by (auto simp: insert_result_def M1_def NGX_BUSY_def NGX_OK_def NGX_ERROR_def split: if_splits)
    from Cons.IH [OF this] Cons.prems(2) obtain rcs T' h' M' where r: "radix_run ins del xs T1 h1 = Some (rcs, T', h')"
      "table_after pre xs rcs M1 = Some M'" "radix_rep m T' h' M'" by auto
    have "table_after pre (x # xs) ((rc, t_pages T1 \<noteq> []) # rcs) M = table_after pre xs rcs M1"
      using i(2) by (auto simp: Add insert_result_def M1_def Let_def NGX_BUSY_def NGX_OK_def NGX_ERROR_def split: if_splits)
    then show ?thesis using i(1) r Add by (simp add: Let_def)
  next
    case (Drop k msk)
    then have "delete_result m M (pre k msk) (del k msk T h)" using Cons.prems by (intro del_law) auto
    then obtain rc T1 h1 where i: "del k msk T h = Some (rc, T1, h1)" "delete_result m M (pre k msk) (Some (rc, T1, h1))"
      by (auto simp: delete_result_def split: option.splits)
    let ?M1 = "M(pre k msk := NGX_RADIX_NO_VALUE)"
    have "radix_rep m T1 h1 ?M1" using i(2) by (simp add: delete_result_def)
    from Cons.IH [OF this] Cons.prems(2) obtain rcs T' h' M' where r: "radix_run ins del xs T1 h1 = Some (rcs, T', h')"
      "table_after pre xs rcs ?M1 = Some M'" "radix_rep m T' h' M'" by (metis list.set_intros(2))
    have "table_after pre (x # xs) ((rc, t_pages T1 \<noteq> []) # rcs) M = table_after pre xs rcs ?M1"
      using i(2) by (simp add: Drop delete_result_def Let_def)
    with r(2) have "table_after pre (x # xs) ((rc, t_pages T1 \<noteq> []) # rcs) M = Some M'" by metis
    moreover have "radix_run ins del (x # xs) T h = Some ((rc, t_pages T1 \<noteq> []) # rcs, T', h')" using i(1) r(1) Drop by (simp add: Let_def)
    ultimately show ?thesis using r(3) by blast
  qed
qed simp

lemma run_find:
  assumes "radix_rep m T h M" "\<forall>x \<in> set xs. op_ok valid pre x"
  shows "\<exists>rcs T' h' M'. radix_run ins del xs T h = Some (rcs, T', h') \<and> table_after pre xs rcs M = Some M'
    \<and> (\<forall>k. valid k \<longrightarrow> fnd k T' h' = Some (lpm M' (kbits k) m))"
proof -
  from run_table [OF assms] obtain rcs T' h' M' where r: "radix_run ins del xs T h = Some (rcs, T', h')"
    "table_after pre xs rcs M = Some M'" "radix_rep m T' h' M'" by blast
  then show ?thesis using fnd_law by blast
qed

end

interpretation r32: prefix_table 32 "\<lambda>k. True" "\<lambda>key msk. path32 key msk 0" key32
  ngx_radix32tree_insert ngx_radix32tree_delete ngx_radix32tree_find
  by unfold_locales (simp_all add: insert32_rep delete32 rdelete_rep find32)

interpretation r128: prefix_table 128 "\<lambda>k. 17 \<le> length k" "\<lambda>key msk. path128 key msk 0" addr_bit
  ngx_radix128tree_insert ngx_radix128tree_delete ngx_radix128tree_find
  by unfold_locales (simp_all add: insert128 rinsert_rep path128_length delete128 rdelete_rep find128)

lemma path32_prefix:
  assumes "n \<le> 32"
  shows "path32 key (if n = 0 then 0 else push_bit (32 - n) 0xffffffff) 0 = bits (be_bit key) n"
proof -
  let ?m = "if n = 0 then 0 else push_bit (32 - n) 0xffffffff :: u32"
  have m: "be_bit ?m k \<longleftrightarrow> k < n" if "k < 32" for k
  proof -
    have "(0xffffffff :: u32) = - 1" by simp
    then have "bit (0xffffffff :: u32) j \<longleftrightarrow> j < 32" for j by (simp only: bit_minus_1_iff possible_bit_word) simp
    then show ?thesis
      unfolding be_bit_def by (cases "n = 0") (use that assms in \<open>simp_all only: bit_push_bit_iff possible_bit_word if_True if_False\<close>, simp_all, linarith)
  qed
  have "path32 key ?m k = map (be_bit key) [k ..< n]" if "k \<le> n" for k
    using that
  proof (induction "n - k" arbitrary: k)
    case 0
    then show ?case using m [of k] by (subst path32_step) auto
  next
    case (Suc j)
    then have "k < n" "j = n - Suc k" by simp_all
    then show ?case using Suc(1) [of "Suc k"] m [of k] assms by (subst path32_step) (simp add: upt_conv_Cons)
  qed
  from this [of 0] show ?thesis by (simp add: bits_def)
qed

lemma session:
  assumes "created ps pre r" "\<And>T h. radix_rep 32 T h no_values \<Longrightarrow> Q T h"
  shows "case r of None \<Rightarrow> False | Some None \<Rightarrow> ps = [] \<or> pre \<noteq> 0 | Some (Some (T, h)) \<Rightarrow> Q T h"
  using assms by (auto simp: created_def split: option.splits)

lemma radix32_session:
  assumes "pages_ok ps {}" "- 1 \<le> pre" "\<forall>x \<in> set xs. op_ok (\<lambda>k. True) (\<lambda>key msk. path32 key msk 0) x"
  shows "case ngx_radix_tree_create True ps jk pre of
      None \<Rightarrow> False
    | Some None \<Rightarrow> ps = [] \<or> pre \<noteq> 0
    | Some (Some (T, h)) \<Rightarrow>
        \<exists>rcs T' h' M. radix_run ngx_radix32tree_insert ngx_radix32tree_delete xs T h = Some (rcs, T', h')
          \<and> table_after (\<lambda>key msk. path32 key msk 0) xs rcs no_values = Some M
          \<and> (\<forall>key. ngx_radix32tree_find key T' h' = Some (lpm M (key32 key) 32))"
  by (rule session [OF create_ok [OF assms(1,2)]]) (rule r32.run_find [OF _ assms(3), simplified True_implies_equals simp_thms])

lemma rep_mono: "radix_rep m T h M \<Longrightarrow> m \<le> n \<Longrightarrow> radix_rep n T h M"
proof -
  assume "radix_rep m T h M" "m \<le> n"
  then obtain t fs where "radix_ok T h t fs" "height t \<le> Suc n" "look t = M" unfolding radix_rep_def by (elim exE conjE) simp
  then show ?thesis unfolding radix_rep_def by blast
qed

lemma radix128_session:
  assumes "pages_ok ps {}" "- 1 \<le> pre" "\<forall>x \<in> set xs. op_ok (\<lambda>k. 17 \<le> length k) (\<lambda>key msk. path128 key msk 0) x"
  shows "case ngx_radix_tree_create True ps jk pre of
      None \<Rightarrow> False
    | Some None \<Rightarrow> ps = [] \<or> pre \<noteq> 0
    | Some (Some (T, h)) \<Rightarrow>
        \<exists>rcs T' h' M. radix_run ngx_radix128tree_insert ngx_radix128tree_delete xs T h = Some (rcs, T', h')
          \<and> table_after (\<lambda>key msk. path128 key msk 0) xs rcs no_values = Some M
          \<and> (\<forall>key. 17 \<le> length key \<longrightarrow> ngx_radix128tree_find key T' h' = Some (lpm M (addr_bit key) 128))"
  by (rule session [OF create_ok [OF assms(1,2)]]) (rule r128.run_find [OF rep_mono assms(3)], assumption, simp)

text \<open>Two cases in which the code goes wrong: a search that ends at a node 128 bits down, and the deletion of a lone root.\<close>

lemma find128_overread_loop:
  "holds h p t \<Longrightarrow> length key = 16 \<Longrightarrow> k \<le> 128 \<Longrightarrow> look t (map (addr_bit key) [k ..< 128]) \<noteq> NGX_RADIX_NO_VALUE \<Longrightarrow>
    radix128_find_loop key h (k div 8) (cur8 (k mod 8)) v (ptr t) = None"
proof (induction t arbitrary: p k v)
  case (Nd a l u r)
  have h: "h a = Some \<lparr>r_right = ptr r, r_left = ptr l, r_parent = p, r_value = u\<rparr>" "holds h (Some a) l" "holds h (Some a) r" using Nd.prems by simp_all
  show ?case
  proof (cases "k = 128")
    case True
    then have "rd key (k div 8) = None" using Nd.prems(2) by (simp add: rd_def)
    then show ?thesis unfolding ptr.simps by (subst radix128_find_loop.simps) (simp add: h(1))
  next
    case False
    then have k: "Suc k \<le> 128" "k < 128" using Nd.prems(3) by simp_all
    then have rd: "rd key (k div 8) = Some (key ! (k div 8))" using Nd.prems(2) by (simp add: rd_byte)
    have "look (if addr_bit key k then r else l) (map (addr_bit key) [Suc k ..< 128]) \<noteq> NGX_RADIX_NO_VALUE"
      using Nd.prems(4) k(2) by (simp add: upt_conv_Cons)
    then show ?thesis unfolding ptr.simps using Nd.IH(1) [OF h(2) Nd.prems(2) k(1)] Nd.IH(2) [OF h(3) Nd.prems(2) k(1)] h(1)
      by (subst radix128_find_loop.simps) (cases "addr_bit key k"; simp add: rd and_bit cursor_next del: One_nat_def)
  qed
qed simp

lemma radix128_find_reads_past_key:
  assumes "radix_rep 128 T h M" "length key = 16" "M (bits (addr_bit key) 128) \<noteq> NGX_RADIX_NO_VALUE"
  shows "ngx_radix128tree_find key T h = None"
proof -
  obtain t fs where t: "radix_ok T h t fs" "look t = M" using assms(1) by (auto simp: radix_rep_def)
  then have "holds h None t" "ptr t = Some (t_root T)" by (simp_all add: radix_ok_def)
  then show ?thesis using find128_overread_loop [of h None t key 0] assms(2,3) t(2)
    by (simp add: ngx_radix128tree_find_def cur_start bits_def)
qed

lemma radix32_delete_lone_root:
  assumes "radix_ok T h (Nd a Tip v Tip) fs"
  shows "ngx_radix32tree_delete key 0 T h = None"
proof -
  have "path32 key 0 0 = []" by (subst path32_step) (simp add: be_bit_def)
  moreover have "h a = Some \<lparr>r_right = None, r_left = None, r_parent = None, r_value = v\<rparr>" "t_root T = a" using assms unfolding radix_ok_def by auto
  ultimately show ?thesis unfolding delete32 by (simp add: rdelete_def radix_remove_def radix_prune.simps)
qed

definition demo_node :: radix_node where
  "demo_node = \<lparr>r_right = None, r_left = None, r_parent = None, r_value = 0\<rparr>"

definition demo_ops :: "u32 radix_op list" where
  "demo_ops = [Add 0x0a000000 0xff000000 1, Add 0x0a010000 0xffff0000 2, Add 0x0a000000 0xff000000 4, Drop 0x0a010000 0xffff0000]"

lemma demo_ok: "\<forall>x \<in> set demo_ops. op_ok (\<lambda>k. True) (\<lambda>key msk. path32 key msk 0) x"
  by (simp add: demo_ops_def path32_step [of _ _ 0] be_bit_def)

definition demo_ops6 :: "bytes radix_op list" where
  "demo_ops6 = [Add (0x20 # 0x01 # replicate 15 0) (0xff # 0xff # replicate 15 0) 1, Add (0x20 # replicate 16 0) (replicate 16 0xff @ [0]) 2,
     Drop (0x20 # 0x01 # replicate 15 0) (0xff # 0xff # replicate 15 0)]"

lemma demo_ok6: "\<forall>x \<in> set demo_ops6. op_ok (\<lambda>k. 17 \<le> length k) (\<lambda>key msk. path128 key msk 0) x"
  by (simp add: demo_ops6_def path128_step [of _ _ 0] addr_bit_def)

text \<open>
  C26. A new tree for IPv4 addresses, after any sequence of insertions and deletions (of prefixes that are not empty),
  answers each search with the value of the longest prefix of the address that is in the table. Each operation returns
  the right code: NGX_BUSY for a prefix that has a value, and NGX_ERROR, with nothing changed, only when the pool has
  no page left or, in a deletion, the prefix has no value. No operation reads or writes outside of the nodes.
\<close>

theorem radix32_prefix_table:
  assumes "pages_ok ps {}" "- 1 \<le> pre" "\<forall>x \<in> set xs. op_ok (\<lambda>k. True) (\<lambda>key msk. path32 key msk 0) x"
  shows "case ngx_radix_tree_create True ps jk pre of
      None \<Rightarrow> False
    | Some None \<Rightarrow> ps = [] \<or> pre \<noteq> 0
    | Some (Some (T, h)) \<Rightarrow>
        \<exists>rcs T' h' M. radix_run ngx_radix32tree_insert ngx_radix32tree_delete xs T h = Some (rcs, T', h')
          \<and> table_after (\<lambda>key msk. path32 key msk 0) xs rcs no_values = Some M
          \<and> (\<forall>key. ngx_radix32tree_find key T' h' = Some (lpm M (key32 key) 32))"
  by (rule radix32_session [OF assms])

theorem radix32_prefix_table_witness:
  "case ngx_radix_tree_create True [4096, 8192] demo_node (- 1) of
      None \<Rightarrow> False
    | Some None \<Rightarrow> [4096, 8192 :: nat] = [] \<or> - 1 \<noteq> (0 :: int)
    | Some (Some (T, h)) \<Rightarrow>
        \<exists>rcs T' h' M. radix_run ngx_radix32tree_insert ngx_radix32tree_delete demo_ops T h = Some (rcs, T', h')
          \<and> table_after (\<lambda>key msk. path32 key msk 0) demo_ops rcs no_values = Some M
          \<and> (\<forall>key. ngx_radix32tree_find key T' h' = Some (lpm M (key32 key) 32))"
  by (rule radix32_prefix_table [OF _ _ demo_ok]) (simp_all add: page_def page_nodes_def)

text \<open>
  C27. The same for trees of IPv6 addresses, when a byte can be read after the 16 bytes of each address: the search reads
  it when it comes to a node 128 bits down.
\<close>

theorem radix128_prefix_table:
  assumes "pages_ok ps {}" "- 1 \<le> pre" "\<forall>x \<in> set xs. op_ok (\<lambda>k. 17 \<le> length k) (\<lambda>key msk. path128 key msk 0) x"
  shows "case ngx_radix_tree_create True ps jk pre of
      None \<Rightarrow> False
    | Some None \<Rightarrow> ps = [] \<or> pre \<noteq> 0
    | Some (Some (T, h)) \<Rightarrow>
        \<exists>rcs T' h' M. radix_run ngx_radix128tree_insert ngx_radix128tree_delete xs T h = Some (rcs, T', h')
          \<and> table_after (\<lambda>key msk. path128 key msk 0) xs rcs no_values = Some M
          \<and> (\<forall>key. 17 \<le> length key \<longrightarrow> ngx_radix128tree_find key T' h' = Some (lpm M (addr_bit key) 128))"
  by (rule radix128_session [OF assms])

theorem radix128_prefix_table_witness:
  "case ngx_radix_tree_create True [4096] demo_node 0 of
      None \<Rightarrow> False
    | Some None \<Rightarrow> [4096 :: nat] = [] \<or> 0 \<noteq> (0 :: int)
    | Some (Some (T, h)) \<Rightarrow>
        \<exists>rcs T' h' M. radix_run ngx_radix128tree_insert ngx_radix128tree_delete demo_ops6 T h = Some (rcs, T', h')
          \<and> table_after (\<lambda>key msk. path128 key msk 0) demo_ops6 rcs no_values = Some M
          \<and> (\<forall>key. 17 \<le> length key \<longrightarrow> ngx_radix128tree_find key T' h' = Some (lpm M (addr_bit key) 128))"
  by (rule radix128_prefix_table [OF _ _ demo_ok6]) simp_all

end
