(* ===== verification/Ngx_Crc32.thy ===== *)
theory Ngx_Crc32
  imports Ngx_Num
begin

text \<open>
  Checksums: the CRC of \<^verbatim>\<open>ngx_crc32.h\<close> with its two tables. Both routines and the one that works in pieces compute the checksum that the division by
  the polynomial, one bit at a time, defines.
\<close>

section \<open>The program\<close>

definition ngx_crc32_table16 :: "u32 list" where
  "ngx_crc32_table16 =
    [0x00000000, 0x1db71064, 0x3b6e20c8, 0x26d930ac, 0x76dc4190, 0x6b6b51f4, 0x4db26158, 0x5005713c,
     0xedb88320, 0xf00f9344, 0xd6d6a3e8, 0xcb61b38c, 0x9b64c2b0, 0x86d3d2d4, 0xa00ae278, 0xbdbdf21c]"

definition ngx_crc32_table256 :: "u32 list" where
  "ngx_crc32_table256 =
    [0x00000000, 0x77073096, 0xee0e612c, 0x990951ba, 0x076dc419, 0x706af48f, 0xe963a535, 0x9e6495a3,
     0x0edb8832, 0x79dcb8a4, 0xe0d5e91e, 0x97d2d988, 0x09b64c2b, 0x7eb17cbd, 0xe7b82d07, 0x90bf1d91,
     0x1db71064, 0x6ab020f2, 0xf3b97148, 0x84be41de, 0x1adad47d, 0x6ddde4eb, 0xf4d4b551, 0x83d385c7,
     0x136c9856, 0x646ba8c0, 0xfd62f97a, 0x8a65c9ec, 0x14015c4f, 0x63066cd9, 0xfa0f3d63, 0x8d080df5,
     0x3b6e20c8, 0x4c69105e, 0xd56041e4, 0xa2677172, 0x3c03e4d1, 0x4b04d447, 0xd20d85fd, 0xa50ab56b,
     0x35b5a8fa, 0x42b2986c, 0xdbbbc9d6, 0xacbcf940, 0x32d86ce3, 0x45df5c75, 0xdcd60dcf, 0xabd13d59,
     0x26d930ac, 0x51de003a, 0xc8d75180, 0xbfd06116, 0x21b4f4b5, 0x56b3c423, 0xcfba9599, 0xb8bda50f,
     0x2802b89e, 0x5f058808, 0xc60cd9b2, 0xb10be924, 0x2f6f7c87, 0x58684c11, 0xc1611dab, 0xb6662d3d,
     0x76dc4190, 0x01db7106, 0x98d220bc, 0xefd5102a, 0x71b18589, 0x06b6b51f, 0x9fbfe4a5, 0xe8b8d433,
     0x7807c9a2, 0x0f00f934, 0x9609a88e, 0xe10e9818, 0x7f6a0dbb, 0x086d3d2d, 0x91646c97, 0xe6635c01,
     0x6b6b51f4, 0x1c6c6162, 0x856530d8, 0xf262004e, 0x6c0695ed, 0x1b01a57b, 0x8208f4c1, 0xf50fc457,
     0x65b0d9c6, 0x12b7e950, 0x8bbeb8ea, 0xfcb9887c, 0x62dd1ddf, 0x15da2d49, 0x8cd37cf3, 0xfbd44c65,
     0x4db26158, 0x3ab551ce, 0xa3bc0074, 0xd4bb30e2, 0x4adfa541, 0x3dd895d7, 0xa4d1c46d, 0xd3d6f4fb,
     0x4369e96a, 0x346ed9fc, 0xad678846, 0xda60b8d0, 0x44042d73, 0x33031de5, 0xaa0a4c5f, 0xdd0d7cc9,
     0x5005713c, 0x270241aa, 0xbe0b1010, 0xc90c2086, 0x5768b525, 0x206f85b3, 0xb966d409, 0xce61e49f,
     0x5edef90e, 0x29d9c998, 0xb0d09822, 0xc7d7a8b4, 0x59b33d17, 0x2eb40d81, 0xb7bd5c3b, 0xc0ba6cad,
     0xedb88320, 0x9abfb3b6, 0x03b6e20c, 0x74b1d29a, 0xead54739, 0x9dd277af, 0x04db2615, 0x73dc1683,
     0xe3630b12, 0x94643b84, 0x0d6d6a3e, 0x7a6a5aa8, 0xe40ecf0b, 0x9309ff9d, 0x0a00ae27, 0x7d079eb1,
     0xf00f9344, 0x8708a3d2, 0x1e01f268, 0x6906c2fe, 0xf762575d, 0x806567cb, 0x196c3671, 0x6e6b06e7,
     0xfed41b76, 0x89d32be0, 0x10da7a5a, 0x67dd4acc, 0xf9b9df6f, 0x8ebeeff9, 0x17b7be43, 0x60b08ed5,
     0xd6d6a3e8, 0xa1d1937e, 0x38d8c2c4, 0x4fdff252, 0xd1bb67f1, 0xa6bc5767, 0x3fb506dd, 0x48b2364b,
     0xd80d2bda, 0xaf0a1b4c, 0x36034af6, 0x41047a60, 0xdf60efc3, 0xa867df55, 0x316e8eef, 0x4669be79,
     0xcb61b38c, 0xbc66831a, 0x256fd2a0, 0x5268e236, 0xcc0c7795, 0xbb0b4703, 0x220216b9, 0x5505262f,
     0xc5ba3bbe, 0xb2bd0b28, 0x2bb45a92, 0x5cb36a04, 0xc2d7ffa7, 0xb5d0cf31, 0x2cd99e8b, 0x5bdeae1d,
     0x9b64c2b0, 0xec63f226, 0x756aa39c, 0x026d930a, 0x9c0906a9, 0xeb0e363f, 0x72076785, 0x05005713,
     0x95bf4a82, 0xe2b87a14, 0x7bb12bae, 0x0cb61b38, 0x92d28e9b, 0xe5d5be0d, 0x7cdcefb7, 0x0bdbdf21,
     0x86d3d2d4, 0xf1d4e242, 0x68ddb3f8, 0x1fda836e, 0x81be16cd, 0xf6b9265b, 0x6fb077e1, 0x18b74777,
     0x88085ae6, 0xff0f6a70, 0x66063bca, 0x11010b5c, 0x8f659eff, 0xf862ae69, 0x616bffd3, 0x166ccf45,
     0xa00ae278, 0xd70dd2ee, 0x4e048354, 0x3903b3c2, 0xa7672661, 0xd06016f7, 0x4969474d, 0x3e6e77db,
     0xaed16a4a, 0xd9d65adc, 0x40df0b66, 0x37d83bf0, 0xa9bcae53, 0xdebb9ec5, 0x47b2cf7f, 0x30b5ffe9,
     0xbdbdf21c, 0xcabac28a, 0x53b39330, 0x24b4a3a6, 0xbad03605, 0xcdd70693, 0x54de5729, 0x23d967bf,
     0xb3667a2e, 0xc4614ab8, 0x5d681b02, 0x2a6f2b94, 0xb40bbe37, 0xc30c8ea1, 0x5a05df1b, 0x2d02ef8d]"

text \<open>The loops, over the memory from \<open>p\<close> on; a read past its end is undefined.\<close>

fun crc32_short_loop :: "bytes \<Rightarrow> nat \<Rightarrow> u32 \<Rightarrow> u32 option" where
  "crc32_short_loop p 0 crc = Some crc"
| "crc32_short_loop [] (Suc len) crc = None"
| "crc32_short_loop (c # p) (Suc len) crc =
     (let crc = ngx_crc32_table16 ! unat ((crc XOR ucast (c AND 0xf)) AND 0xf) XOR drop_bit 4 crc;
          crc = ngx_crc32_table16 ! unat ((crc XOR ucast (drop_bit 4 c)) AND 0xf) XOR drop_bit 4 crc
      in crc32_short_loop p len crc)"

definition ngx_crc32_short :: "bytes \<Rightarrow> nat \<Rightarrow> u32 option" where
  "ngx_crc32_short p len = map_option (\<lambda>crc. crc XOR 0xffffffff) (crc32_short_loop p len 0xffffffff)"

fun ngx_crc32_update :: "u32 \<Rightarrow> bytes \<Rightarrow> nat \<Rightarrow> u32 option" where
  "ngx_crc32_update c p 0 = Some c"
| "ngx_crc32_update c [] (Suc len) = None"
| "ngx_crc32_update c (x # p) (Suc len) =
     ngx_crc32_update (ngx_crc32_table256 ! unat ((c XOR ucast x) AND 0xff) XOR drop_bit 8 c) p len"

definition ngx_crc32_init :: u32 where
  "ngx_crc32_init = 0xffffffff"

definition ngx_crc32_final :: "u32 \<Rightarrow> u32" where
  "ngx_crc32_final crc = crc XOR 0xffffffff"

definition ngx_crc32_long :: "bytes \<Rightarrow> nat \<Rightarrow> u32 option" where
  "ngx_crc32_long p len = map_option (\<lambda>crc. crc XOR 0xffffffff) (ngx_crc32_update 0xffffffff p len)"

section \<open>The polynomial\<close>

definition crc_bit :: "u32 \<Rightarrow> u32" where
  "crc_bit c = (if c AND 1 \<noteq> 0 then 0xedb88320 XOR drop_bit 1 c else drop_bit 1 c)"

definition crc_byte :: "u32 \<Rightarrow> u_char \<Rightarrow> u32" where
  "crc_byte crc x = (crc_bit ^^ 8) (crc XOR ucast x)"

definition crc32 :: "bytes \<Rightarrow> u32" where
  "crc32 bs = foldl crc_byte 0xffffffff bs XOR 0xffffffff"

lemma table16: "map (\<lambda>i. (crc_bit ^^ 4) (of_nat i)) [0 ..< 16] = ngx_crc32_table16"
  by code_simp

lemma first_row: "take 16 ngx_crc32_table256 = map (\<lambda>x. ngx_crc32_table16 ! unat (x AND 0xf) XOR drop_bit 4 x) ngx_crc32_table16"
  unfolding ngx_crc32_table256_def ngx_crc32_table16_def by simp

lemma all_rows: "ngx_crc32_table256 = concat (map (\<lambda>h. map (\<lambda>g. g XOR h) (take 16 ngx_crc32_table256)) ngx_crc32_table16)"
  unfolding ngx_crc32_table256_def ngx_crc32_table16_def by simp

text \<open>The division is linear, and shifts zeros out.\<close>

lemma crc_bit_xor: "crc_bit (a XOR b) = crc_bit a XOR crc_bit b"
proof -
  have "x AND 1 \<noteq> 0 \<longleftrightarrow> bit x 0" for x :: u32 by (simp add: and_one_eq odd_iff_mod_2_eq_one bit_0)
  then show ?thesis by (simp add: crc_bit_def drop_bit_xor bit_xor_iff xor.assoc xor.left_commute)
qed

lemma crc_pow_xor: "(crc_bit ^^ n) (a XOR b) = (crc_bit ^^ n) a XOR (crc_bit ^^ n) b"
  by (induction n) (simp_all add: crc_bit_xor)

lemma crc_pow_shift: "\<forall>i < n. \<not> bit z i \<Longrightarrow> (crc_bit ^^ n) z = drop_bit n z"
proof (induction n)
  case (Suc n)
  then have "(crc_bit ^^ n) z = drop_bit n z" "\<not> bit (drop_bit n z) 0" by (simp_all add: bit_drop_bit_eq)
  moreover have "x AND 1 \<noteq> 0 \<longleftrightarrow> bit x 0" for x :: u32 by (simp add: and_one_eq odd_iff_mod_2_eq_one bit_0)
  ultimately have "crc_bit ((crc_bit ^^ n) z) = drop_bit 1 (drop_bit n z)" unfolding crc_bit_def by metis
  then show ?case by simp
qed simp

lemma crc_pow_split:
  fixes x :: u32
  assumes "n < 32"
  shows "(crc_bit ^^ n) x = (crc_bit ^^ n) (take_bit n x) XOR drop_bit n x"
proof -
  have x: "x = take_bit n x XOR push_bit n (drop_bit n x)"
    by (rule bit_eqI) (auto simp: bit_xor_iff bit_take_bit_iff bit_push_bit_iff bit_drop_bit_eq)
  have "(crc_bit ^^ n) (push_bit n (drop_bit n x)) = drop_bit n (push_bit n (drop_bit n x))"
    by (rule crc_pow_shift) (simp add: bit_push_bit_iff)
  also have "\<dots> = drop_bit n x"
    by (rule bit_eqI) (auto simp: bit_push_bit_iff bit_drop_bit_eq dest: bit_imp_le_length)
  finally show ?thesis using crc_pow_xor [of n "take_bit n x" "push_bit n (drop_bit n x)"] x by simp
qed

lemma low_nibble: "x AND 0xf = (take_bit 4 x :: u32)" "x AND 0xff = (take_bit 8 x :: u32)"
  by (simp_all add: take_bit_eq_mask mask_eq_exp_minus_1)

lemma table_nibble: "(crc_bit ^^ 4) x = ngx_crc32_table16 ! unat (x AND 0xf) XOR drop_bit 4 x"
proof -
  have l: "unat (x AND 0xf) < 16" unfolding low_nibble unsigned_take_bit_eq using take_bit_nat_less_exp [of 4] by simp
  then have "ngx_crc32_table16 ! unat (x AND 0xf) = (crc_bit ^^ 4) (of_nat (unat (x AND 0xf)))"
    unfolding table16 [symmetric] by simp
  then show ?thesis using crc_pow_split [of 4 x] unfolding low_nibble by simp
qed

lemma nth_rows: "\<forall>xs \<in> set xss. length xs = n \<Longrightarrow> h < length xss \<Longrightarrow> g < n \<Longrightarrow> concat xss ! (n * h + g) = xss ! h ! g"
proof (induction xss arbitrary: h)
  case (Cons xs xss)
  then show ?case by (cases h) (simp_all add: nth_append)
qed simp

lemma table256_entry:
  assumes "h < 16" "g < 16"
  shows "ngx_crc32_table256 ! (16 * h + g) = (crc_bit ^^ 8) (of_nat g) XOR (crc_bit ^^ 4) (of_nat h)"
proof -
  have len: "length ngx_crc32_table16 = 16" "length (take 16 ngx_crc32_table256) = 16" by (simp_all add: ngx_crc32_table16_def first_row)
  have e: "ngx_crc32_table16 ! i = (crc_bit ^^ 4) (of_nat i)" if "i < 16" for i using that unfolding table16 [symmetric] by simp
  have "ngx_crc32_table256 ! (16 * h + g) = take 16 ngx_crc32_table256 ! g XOR ngx_crc32_table16 ! h"
    by (subst all_rows, subst nth_rows) (use assms len in auto)
  also have "take 16 ngx_crc32_table256 ! g = (crc_bit ^^ 4) ((crc_bit ^^ 4) (of_nat g))"
    unfolding first_row table_nibble [of "(crc_bit ^^ 4) (of_nat g)"] using assms len e by simp
  also have "\<dots> = (crc_bit ^^ 8) (of_nat g)" using funpow_add [of 4 4 crc_bit] by (simp add: numeral_eq_Suc)
  finally show ?thesis using e [OF assms(1)] by simp
qed

lemma table_byte: "(crc_bit ^^ 8) x = ngx_crc32_table256 ! unat (x AND 0xff) XOR drop_bit 8 x"
proof -
  let ?y = "take_bit 8 x :: u32"
  define i where "i = unat ?y"
  have i: "i < 256" unfolding i_def unsigned_take_bit_eq using take_bit_nat_less_exp [of 8] by simp
  define g h where "g = i mod 16" and "h = i div 16"
  have gh: "g < 16" "h < 16" "i = 16 * h + g" using i by (simp_all add: g_def h_def)
  have "unat (take_bit 4 ?y) = g" "unat (drop_bit 4 ?y) = h"
    unfolding g_def h_def i_def unsigned_take_bit_eq [of 4] unat_drop_bit_eq by (simp_all add: take_bit_eq_mod drop_bit_eq_div)
  then have y: "of_nat g = take_bit 4 ?y" "of_nat h = drop_bit 4 ?y" by (metis of_nat_unat ucast_id)+
  have p: "(crc_bit ^^ 8) z = (crc_bit ^^ 4) ((crc_bit ^^ 4) z)" for z using funpow_add [of 4 4 crc_bit] by (simp add: numeral_eq_Suc)
  have "(crc_bit ^^ 8) ?y = (crc_bit ^^ 4) ((crc_bit ^^ 4) (take_bit 4 ?y)) XOR (crc_bit ^^ 4) (drop_bit 4 ?y)"
    unfolding p using crc_pow_split [of 4 ?y] by (simp add: crc_pow_xor)
  also have "\<dots> = ngx_crc32_table256 ! i" unfolding gh(3) table256_entry [OF gh(2,1)] p y ..
  finally show ?thesis using crc_pow_split [of 8 x] unfolding low_nibble i_def by simp
qed


lemma crc_byte_table: "ngx_crc32_table256 ! unat ((c XOR ucast x) AND 0xff) XOR drop_bit 8 c = crc_byte c x"
proof -
  have "drop_bit 8 (c XOR ucast x) = drop_bit 8 c"
    by (rule bit_eqI) (auto simp: bit_drop_bit_eq bit_xor_iff bit_ucast_iff dest: bit_imp_le_length)
  then show ?thesis unfolding crc_byte_def table_byte by simp
qed

lemma crc_nibbles_table:
  "(let crc = ngx_crc32_table16 ! unat ((c XOR ucast (x AND 0xf)) AND 0xf) XOR drop_bit 4 c
    in ngx_crc32_table16 ! unat ((crc XOR ucast (drop_bit 4 x)) AND 0xf) XOR drop_bit 4 crc) = crc_byte c x" for x :: u_char
proof -
  let ?lo = "ucast (x AND 0xf) :: u32" and ?hi = "ucast (drop_bit 4 x) :: u32"
  define d where "d = ngx_crc32_table16 ! unat ((c XOR ?lo) AND 0xf) XOR drop_bit 4 c"
  have lo: "x AND 0xf = take_bit 4 x" by (simp add: take_bit_eq_mask mask_eq_exp_minus_1)
  have "drop_bit 4 (c XOR ?lo) = drop_bit 4 c"
    unfolding lo by (rule bit_eqI) (auto simp: bit_drop_bit_eq bit_xor_iff bit_ucast_iff bit_take_bit_iff)
  then have d: "d = (crc_bit ^^ 4) (c XOR ?lo)" unfolding d_def table_nibble by simp
  have "drop_bit 4 (d XOR ?hi) = drop_bit 4 d"
    by (rule bit_eqI) (auto simp: bit_drop_bit_eq bit_xor_iff bit_ucast_iff dest: bit_imp_le_length)
  then have e: "ngx_crc32_table16 ! unat ((d XOR ?hi) AND 0xf) XOR drop_bit 4 d = (crc_bit ^^ 4) (d XOR ?hi)" unfolding table_nibble by simp
  have h: "?hi = (crc_bit ^^ 4) (push_bit 4 ?hi)"
    by (subst crc_pow_shift, simp add: bit_push_bit_iff, rule bit_eqI)
      (auto simp: bit_push_bit_iff bit_drop_bit_eq bit_ucast_iff dest: bit_imp_le_length)
  have "(crc_bit ^^ 4) (d XOR ?hi) = (crc_bit ^^ 4) (d XOR (crc_bit ^^ 4) (push_bit 4 ?hi))" using h by simp
  also have "\<dots> = (crc_bit ^^ 8) (c XOR (?lo XOR push_bit 4 ?hi))"
    unfolding d crc_pow_xor [symmetric] using funpow_add [of 4 4 crc_bit] by (simp add: numeral_eq_Suc xor.assoc)
  also have "?lo XOR push_bit 4 ?hi = ucast x"
    unfolding lo by (rule bit_eqI) (auto simp: bit_xor_iff bit_ucast_iff bit_take_bit_iff bit_push_bit_iff bit_drop_bit_eq dest: bit_imp_le_length)
  finally show ?thesis using e unfolding d_def crc_byte_def Let_def by simp
qed

lemma update_exact: "ngx_crc32_update c p len = (if len \<le> length p then Some (foldl crc_byte c (take len p)) else None)"
  by (induction c p len rule: ngx_crc32_update.induct) (simp_all add: crc_byte_table)

lemma short_exact: "crc32_short_loop p len c = (if len \<le> length p then Some (foldl crc_byte c (take len p)) else None)"
proof (induction p len c rule: crc32_short_loop.induct)
  case (3 x p len c)
  then show ?case using crc_nibbles_table [of c x] by (simp add: Let_def)
qed simp_all

text \<open>
  C28. Both checksum routines, and the one that takes the data in pieces, compute the checksum that dividing by the
  polynomial bit by bit gives; they read exactly the bytes they are told to, and are undefined only when these are not
  there. All entries of both tables are right.
\<close>

theorem crc32_exact:
  "ngx_crc32_long p len = (if len \<le> length p then Some (crc32 (take len p)) else None)
   \<and> ngx_crc32_short p len = ngx_crc32_long p len
   \<and> map_option ngx_crc32_final (foldl (\<lambda>c q. c \<bind> (\<lambda>c. ngx_crc32_update c q (length q))) (Some ngx_crc32_init) ps) = Some (crc32 (concat ps))"
proof (intro conjI)
  show "ngx_crc32_long p len = (if len \<le> length p then Some (crc32 (take len p)) else None)"
    by (simp add: ngx_crc32_long_def update_exact crc32_def)
  show "ngx_crc32_short p len = ngx_crc32_long p len"
    by (simp add: ngx_crc32_short_def ngx_crc32_long_def short_exact update_exact)
  have "foldl (\<lambda>c q. c \<bind> (\<lambda>c. ngx_crc32_update c q (length q))) (Some c) ps = Some (foldl crc_byte c (concat ps))" for c
    by (induction ps arbitrary: c) (simp_all add: update_exact)
  then show "map_option ngx_crc32_final (foldl (\<lambda>c q. c \<bind> (\<lambda>c. ngx_crc32_update c q (length q))) (Some ngx_crc32_init) ps) = Some (crc32 (concat ps))"
    by (simp add: ngx_crc32_init_def ngx_crc32_final_def crc32_def)
qed

end
