(* ===== verification/Ngx_Locations.thy ===== *)
theory Ngx_Locations
  imports Ngx_Queue Ngx_String
begin

text \<open>
  Locations: how the configuration is turned into search trees (\<^verbatim>\<open>ngx_http.c\<close>), and how the location of a
  request is found in them (\<^verbatim>\<open>ngx_http_core_module.c\<close>). The queues of the configuration are the lists of their
  elements, as the theory of queues justifies, with its insertion sort and the middle at half the length. Memory is
  taken to suffice.
\<close>

section \<open>Configurations\<close>

text \<open>
  What the routing and the phases read of \<^verbatim>\<open>ngx_http_core_loc_conf_t\<close>; \<open>'re\<close> are the compiled regular expressions, and
  a function of the program is given by a number, its address.
\<close>

type_synonym fn = nat

definition NGX_HTTP_SATISFY_ALL :: nat where "NGX_HTTP_SATISFY_ALL = 0"
definition NGX_HTTP_SATISFY_ANY :: nat where "NGX_HTTP_SATISFY_ANY = 1"

record 're loc_info =
  l_name :: bytes
  l_exact_match :: bool
  l_noname :: bool
  l_named :: bool
  l_regex :: "'re option"
  l_noregex :: bool
  l_auto_redirect :: bool
  l_handler :: "fn option"
  l_client_max_body_size :: int
  l_satisfy :: nat
  l_internal :: bool

text \<open>A node of a search tree, or the null pointer.\<close>

datatype 'c tree_node = Null
  | Node (t_left: "'c tree_node") (t_right: "'c tree_node") (t_tree: "'c tree_node")
      (t_exact: "'c option") (t_inclusive: "'c option") (t_auto_redirect: bool) (t_len: u_char) (t_name: bytes)

text \<open>A location: its settings, its \<^verbatim>\<open>locations\<close>, \<^verbatim>\<open>static_locations\<close> and \<^verbatim>\<open>regex_locations\<close>.\<close>

datatype 're loc_conf =
  Conf (info: "'re loc_info") (locations: "'re loc_conf list")
    (static_locations: "'re loc_conf tree_node") (regex_locations: "'re loc_conf list")

text \<open>An element of a queue of locations, with the queue of those below it.\<close>

datatype 'c location_queue = LQ (lq_exact: "'c option") (lq_inclusive: "'c option") (lq_name: bytes) (lq_list: "'c location_queue list")

type_synonym 're lq = "'re loc_conf location_queue"

section \<open>Building the trees\<close>

definition ngx_http_add_location :: "'re loc_conf \<Rightarrow> 're lq" where
  "ngx_http_add_location clcf =
     (if l_exact_match (info clcf) \<or> l_regex (info clcf) \<noteq> None \<or> l_named (info clcf) \<or> l_noname (info clcf)
      then LQ (Some clcf) None (l_name (info clcf)) []
      else LQ None (Some clcf) (l_name (info clcf)) [])"

text \<open>Names are followed by a null byte, which the comparisons read.\<close>

definition terminated :: "bytes \<Rightarrow> bytes" where
  "terminated s = s @ [0]"

definition lq_conf :: "'re lq \<Rightarrow> 're loc_conf" where
  "lq_conf lq = (case lq_exact lq of Some c \<Rightarrow> c | None \<Rightarrow> the (lq_inclusive lq))"

definition ngx_http_cmp_locations :: "'re lq \<Rightarrow> 're lq \<Rightarrow> int" where
  "ngx_http_cmp_locations one two =
     (let first = info (lq_conf one); second = info (lq_conf two) in
      if l_noname first \<and> \<not> l_noname second then 1
      else if \<not> l_noname first \<and> l_noname second then -1
      else if l_noname first \<or> l_noname second then 0
      else if l_named first \<and> \<not> l_named second then 1
      else if \<not> l_named first \<and> l_named second then -1
      else if l_named first \<and> l_named second
      then the (c_strncmp (terminated (l_name first)) (terminated (l_name second)) (Suc (length (l_name first))))
      else if l_regex first \<noteq> None \<and> l_regex second = None then 1
      else if l_regex first = None \<and> l_regex second \<noteq> None then -1
      else if l_regex first \<noteq> None \<or> l_regex second \<noteq> None then 0
      else
        let rc = the (ngx_filename_cmp (terminated (l_name first)) (terminated (l_name second))
                        (min (length (l_name first)) (length (l_name second)) + 1))
        in if rc = 0 \<and> \<not> l_exact_match first \<and> l_exact_match second then 1 else rc)"

text \<open>
  \<^verbatim>\<open>ngx_http_init_locations\<close> on a location below the server: the elements from the first one without a name on are cut
  off, then those from the first named one on, then those from the first regular expression on, which make an array. The
  locations below are initialised first, which the comparison does not see.
\<close>

definition is_regex :: "'re lq \<Rightarrow> bool" where
  "is_regex lq \<longleftrightarrow> l_regex (info (lq_conf lq)) \<noteq> None"

definition is_named :: "'re lq \<Rightarrow> bool" where
  "is_named lq \<longleftrightarrow> \<not> is_regex lq \<and> l_named (info (lq_conf lq))"

definition is_noname :: "'re lq \<Rightarrow> bool" where
  "is_noname lq \<longleftrightarrow> \<not> is_regex lq \<and> \<not> l_named (info (lq_conf lq)) \<and> l_noname (info (lq_conf lq))"

definition split_locations :: "'re lq list \<Rightarrow> 're lq list \<times> 're lq list" where
  "split_locations lqs =
     (let lqs = takeWhile (\<lambda>lq. \<not> is_noname lq) lqs;
          lqs = takeWhile (\<lambda>lq. \<not> is_named lq) lqs
      in (takeWhile (\<lambda>lq. \<not> is_regex lq) lqs, dropWhile (\<lambda>lq. \<not> is_regex lq) lqs))"

fun ngx_http_init_locations :: "'re loc_conf \<Rightarrow> 're loc_conf" where
  "ngx_http_init_locations (Conf i ls st rx) =
     (if ls = [] then Conf i ls st rx
      else
        let lqs = insertion_sort ngx_http_cmp_locations (map ngx_http_add_location (map ngx_http_init_locations ls));
            (statics, regexes) = split_locations lqs
        in Conf i (map lq_conf statics) st (if regexes = [] then rx else map lq_conf regexes))"

fun ngx_http_join_exact_locations :: "'c location_queue list \<Rightarrow> 'c location_queue list option" where
  "ngx_http_join_exact_locations (lq # lx # rest) =
     (if length (lq_name lq) = length (lq_name lx) \<and> ngx_filename_cmp (lq_name lq) (lq_name lx) (length (lq_name lx)) = Some 0 then
        if lq_exact lq \<noteq> None \<and> lq_exact lx \<noteq> None \<or> lq_inclusive lq \<noteq> None \<and> lq_inclusive lx \<noteq> None then None
        else ngx_http_join_exact_locations (LQ (lq_exact lq) (lq_inclusive lx) (lq_name lq) (lq_list lq) # rest)
      else map_option ((#) lq) (ngx_http_join_exact_locations (lx # rest)))"
| "ngx_http_join_exact_locations lqs = Some lqs"

definition list_below :: "'c location_queue \<Rightarrow> 'c location_queue \<Rightarrow> bool" where
  "list_below lq lx \<longleftrightarrow>
     \<not> (length (lq_name lq) > length (lq_name lx) \<or> ngx_filename_cmp (lq_name lq) (lq_name lx) (length (lq_name lq)) \<noteq> Some 0)"

lemma size_list_append [simp]: "size_list f (xs @ ys) = size_list f xs + size_list f ys"
  by (induction xs) simp_all

lemma size_list_takeWhile: "size_list f (takeWhile P xs) \<le> size_list f xs"
  by (induction xs) simp_all

lemma size_list_dropWhile: "size_list f (dropWhile P xs) \<le> size_list f xs"
  by (induction xs) simp_all

lemma size_list_nth: "k < length xs \<Longrightarrow> size_list f xs = size_list f (take k xs) + Suc (f (xs ! k)) + size_list f (drop (Suc k) xs)"
  by (subst id_take_nth_drop, assumption) simp

lemma size_lq_list: "size_list size (lq_list lq) < size lq"
  by (cases lq) simp

text \<open>The list from an element on, with the elements of which the names go on from it moved into its own list.\<close>

function ngx_http_create_locations_list :: "'c location_queue list \<Rightarrow> 'c location_queue list" where
  "ngx_http_create_locations_list [] = []"
| "ngx_http_create_locations_list [lq] = [lq]"
| "ngx_http_create_locations_list (lq # lx # rest) =
     (if lq_inclusive lq = None then lq # ngx_http_create_locations_list (lx # rest)
      else
        let below = takeWhile (list_below lq) (lx # rest); xs = dropWhile (list_below lq) (lx # rest) in
        if below = [] then lq # ngx_http_create_locations_list xs
        else LQ (lq_exact lq) (lq_inclusive lq) (lq_name lq) (ngx_http_create_locations_list (lq_list lq @ below))
             # ngx_http_create_locations_list xs)"
  by pat_completeness auto

termination
proof (relation "measure (size_list size)")
  fix lq lx :: "'c location_queue" and rest below xs
  assume "below = takeWhile (list_below lq) (lx # rest)"
  then have "size_list size below \<le> size_list size (lx # rest)" by (simp only: size_list_takeWhile)
  then have "size_list size (lq_list lq @ below) < size_list size (lq # lx # rest)" using size_lq_list [of lq] by simp
  then show "(lq_list lq @ below, lq # lx # rest) \<in> measure (size_list size)" by simp
next
  fix lq lx :: "'c location_queue" and rest below xs
  assume "xs = dropWhile (list_below lq) (lx # rest)"
  then have "size_list size xs \<le> size_list size (lx # rest)" by (simp only: size_list_dropWhile)
  then have "(xs, lq # lx # rest) \<in> measure (size_list size)" by simp
  then show "(xs, lq # lx # rest) \<in> measure (size_list size)" "(xs, lq # lx # rest) \<in> measure (size_list size)" by this+
qed simp_all

definition redirects :: "'re loc_conf option \<Rightarrow> bool" where
  "redirects c = (case c of None \<Rightarrow> False | Some c \<Rightarrow> l_auto_redirect (info c))"

text \<open>The tree of a list; \<open>pre\<close> is the length of what all its names share. It is not called for an empty list.\<close>

function ngx_http_create_locations_tree :: "'re lq list \<Rightarrow> nat \<Rightarrow> 're loc_conf tree_node" where
  "ngx_http_create_locations_tree lqs pre =
     (if lqs = [] then Null
      else
        let k = length lqs div 2; lq = lqs ! k; left = take k lqs; right = drop (k + 1) lqs;
            len = length (lq_name lq) - pre
        in Node
             (if left = [] then Null else ngx_http_create_locations_tree left pre)
             (if left = [] \<or> right = [] then Null else ngx_http_create_locations_tree right pre)
             (if lq_list lq = [] then Null else ngx_http_create_locations_tree (lq_list lq) (pre + len))
             (lq_exact lq) (lq_inclusive lq)
             (redirects (lq_exact lq) \<or> redirects (lq_inclusive lq))
             (of_nat len) (drop pre (lq_name lq)))"
  by pat_completeness auto
termination
proof (relation "measure (\<lambda>(lqs, pre). size_list size lqs)")
  fix lqs :: "'re lq list" and pre k lq left right len
  assume a: "lqs \<noteq> []" "k = length lqs div 2" "lq = lqs ! k" "left = take k lqs" "right = drop (k + 1) lqs"
  then have "k < length lqs" by simp
  then have "size_list size lqs = size_list size left + Suc (size lq) + size_list size right" using a size_list_nth [of k lqs size] by simp
  then have l: "size_list size left < size_list size lqs" "size_list size right < size_list size lqs" "size_list size (lq_list lq) < size_list size lqs"
    using size_lq_list [of lq] by simp_all
  then show "((left, pre), lqs, pre) \<in> measure (\<lambda>(lqs, pre). size_list size lqs)"
    "((right, pre), lqs, pre) \<in> measure (\<lambda>(lqs, pre). size_list size lqs)"
    "((lq_list lq, pre + len), lqs, pre) \<in> measure (\<lambda>(lqs, pre). size_list size lqs)" by simp_all
qed simp

declare ngx_http_create_locations_tree.simps [simp del]

definition ngx_http_init_static_location_trees_step :: "'re loc_conf \<Rightarrow> 're loc_conf list \<Rightarrow> 're loc_conf option" where
  "ngx_http_init_static_location_trees_step c ls =
     do { lqs \<leftarrow> ngx_http_join_exact_locations (map ngx_http_add_location ls);
          Some (Conf (info c) ls (ngx_http_create_locations_tree (ngx_http_create_locations_list lqs) 0) (regex_locations c)) }"

fun ngx_http_init_static_location_trees :: "'re loc_conf \<Rightarrow> 're loc_conf option" where
  "ngx_http_init_static_location_trees (Conf i ls st rx) =
     (if ls = [] then Some (Conf i ls st rx)
      else do { ls' \<leftarrow> those (map ngx_http_init_static_location_trees ls);
                ngx_http_init_static_location_trees_step (Conf i ls st rx) ls' })"

section \<open>Finding a location\<close>

text \<open>
  The search in a tree: the code and the \<^verbatim>\<open>loc_conf\<close> of the request, of which \<open>rv\<close> and \<open>loc\<close> are the values so far.
\<close>

fun ngx_http_core_find_static_location :: "int \<Rightarrow> 'c \<Rightarrow> bytes \<Rightarrow> 'c tree_node \<Rightarrow> (int \<times> 'c) option" where
  "ngx_http_core_find_static_location rv loc uri Null = Some (rv, loc)"
| "ngx_http_core_find_static_location rv loc uri (Node left right tree exact inclusive redirect nlen name) =
     (let len = length uri; n = (if len \<le> unat nlen then len else unat nlen) in
      do { rc \<leftarrow> ngx_filename_cmp uri name n;
           if rc \<noteq> 0 then
             if rc < 0 then ngx_http_core_find_static_location rv loc uri left
             else ngx_http_core_find_static_location rv loc uri right
           else if len > unat nlen then
             (case inclusive of
                Some c \<Rightarrow> ngx_http_core_find_static_location NGX_AGAIN c (drop n uri) tree
              | None \<Rightarrow> ngx_http_core_find_static_location rv loc uri right)
           else if len = unat nlen then
             (case exact of Some c \<Rightarrow> Some (NGX_OK, c) | None \<Rightarrow> do { c \<leftarrow> inclusive; Some (NGX_AGAIN, c) })
           else if len + 1 = unat nlen \<and> redirect then
             do { c \<leftarrow> (case exact of Some c \<Rightarrow> Some c | None \<Rightarrow> inclusive);
                  ngx_http_core_find_static_location NGX_DONE c uri left }
           else ngx_http_core_find_static_location rv loc uri left })"

lemma static_location_found:
  "ngx_http_core_find_static_location rv loc uri t = Some (rc, c) \<Longrightarrow> (rc, c) = (rv, loc) \<or> c \<in> set_tree_node t \<and> rc \<in> {NGX_OK, NGX_AGAIN, NGX_DONE}"
  by (induction rv loc uri t rule: ngx_http_core_find_static_location.induct)
    (auto simp: Let_def split: if_splits option.splits bind_splits)

lemma size_tree_node: "c \<in> set_tree_node t \<Longrightarrow> f c < size_tree_node f t"
  by (induction t) auto

lemma size_list_mem: "d \<in> set xs \<Longrightarrow> f d < size_list f xs"
  by (induction xs) auto

lemma size_static: "d \<in> set_tree_node (static_locations c) \<Longrightarrow> size d < size c"
  using size_tree_node [of d "static_locations c" size] by (cases c) simp

lemma size_regex: "d \<in> set (regex_locations c) \<Longrightarrow> size d < size c"
  using size_list_mem [of d "regex_locations c" size] by (cases c) simp

text \<open>
  \<open>exec\<close> is \<^verbatim>\<open>ngx_http_regex_exec\<close>, which matches the URI against a regular expression. The result is the code and the
  location that \<^verbatim>\<open>loc_conf\<close> of the request is left at; the search starts at the one it is at.
\<close>

function ngx_http_core_find_location :: "('re \<Rightarrow> bytes \<Rightarrow> int) \<Rightarrow> bytes \<Rightarrow> 're loc_conf \<Rightarrow> (int \<times> 're loc_conf) option" where
  "ngx_http_core_find_location exec uri pclcf =
     do { (rc, loc) \<leftarrow> ngx_http_core_find_static_location NGX_DECLINED pclcf uri (static_locations pclcf);
          (rc, loc, noregex) \<leftarrow>
            (if rc = NGX_AGAIN then
               do { (rc, loc') \<leftarrow> ngx_http_core_find_location exec uri loc; Some (rc, loc', l_noregex (info loc)) }
             else Some (rc, loc, False));
          if rc = NGX_OK \<or> rc = NGX_DONE then Some (rc, loc)
          else if noregex then Some (rc, loc)
          else
            (case dropWhile (\<lambda>clcf. exec (the (l_regex (info clcf))) uri = NGX_DECLINED) (regex_locations pclcf) of
               [] \<Rightarrow> Some (rc, loc)
             | clcf # _ \<Rightarrow>
                 if exec (the (l_regex (info clcf))) uri = NGX_OK then
                   do { (rc, loc) \<leftarrow> ngx_http_core_find_location exec uri clcf; Some (if rc = NGX_ERROR then rc else NGX_OK, loc) }
                 else Some (NGX_ERROR, loc)) }"
  by pat_completeness auto
termination
proof (relation "measure (\<lambda>(exec, uri, c). size c)")
  fix exec :: "'re \<Rightarrow> bytes \<Rightarrow> int" and uri pclcf r rc loc
  assume "ngx_http_core_find_static_location NGX_DECLINED pclcf uri (static_locations pclcf) = Some r" "(rc, loc) = r" "rc = NGX_AGAIN"
  then have "loc \<in> set_tree_node (static_locations pclcf)" using static_location_found [of NGX_DECLINED pclcf uri "static_locations pclcf" rc loc]
    by (auto simp: NGX_AGAIN_def NGX_DECLINED_def)
  then show "((exec, uri, loc), exec, uri, pclcf) \<in> measure (\<lambda>(exec, uri, c). size c)" using size_static by simp
next
  fix exec :: "'re \<Rightarrow> bytes \<Rightarrow> int" and uri and pclcf clcf :: "'re loc_conf" and xs
  assume "dropWhile (\<lambda>clcf. exec (the (l_regex (info clcf))) uri = NGX_DECLINED) (regex_locations pclcf) = clcf # xs"
  then have "clcf \<in> set (regex_locations pclcf)" by (metis list.set_intros(1) set_dropWhileD)
  then show "((exec, uri, clcf), exec, uri, pclcf) \<in> measure (\<lambda>(exec, uri, c). size c)" using size_regex by simp
qed simp

end
