(* ===== verification/Ngx_Location_Tree.thy ===== *)
theory Ngx_Location_Tree
  imports Ngx_Locations
begin

text \<open>
  The trees of locations: a search in the tree that is built from a sorted list of locations answers what a search in
  the list answers, with the exact location before the redirect to a name with a slash before the longest prefix.
\<close>

section \<open>The order of names\<close>

text \<open>Characters in the order of the comparison: null, the slash, then the others.\<close>

definition loc_key :: "u_char \<Rightarrow> int" where
  "loc_key c = (if c = 0 then - 1 else filename_key c)"

definition lk :: "bytes \<Rightarrow> int list" where
  "lk s = map loc_key s"

lemma loc_key_inj: "loc_key a = loc_key b \<longleftrightarrow> a = b"
  using uint_nz [of a] uint_nz [of b] uint_pos [of a] uint_pos [of b] uint_eq [of a b] by (auto simp: loc_key_def filename_key_def split: if_splits)

lemma lk_inj: "lk a = lk b \<longleftrightarrow> a = b"
  unfolding lk_def by (rule inj_map_eq_map) (simp add: inj_def loc_key_inj)

lemma loc_key_slash: "c \<noteq> 0 \<Longrightarrow> loc_key ch_slash \<le> loc_key c"
  using uint_pos [of c] by (auto simp: loc_key_def filename_key_def)

lemma lk_append [simp]: "lk (a @ b) = lk a @ lk b" "lk [] = []" "lk (c # a) = loc_key c # lk a"
  by (simp_all add: lk_def)

lemma lk_prefix: "prefix (lk a) (lk b) \<longleftrightarrow> prefix a b"
proof (induction a arbitrary: b)
  case (Cons x a)
  then show ?case by (cases b) (auto simp: loc_key_inj)
qed simp

lemma lk_strict_prefix: "strict_prefix (lk a) (lk b) \<longleftrightarrow> strict_prefix a b"
  by (simp add: strict_prefix_def lk_prefix lk_inj)

text \<open>Lists in the lexicographic order.\<close>

lemma prefix_le: "prefix a b \<Longrightarrow> a \<le> (b :: 'a :: linorder list)"
  by (induction a arbitrary: b) (auto simp: prefix_def)

lemma strict_prefix_less: "strict_prefix a b \<Longrightarrow> a < (b :: 'a :: linorder list)"
  using prefix_le [of a b] by (simp add: strict_prefix_def less_le)

lemma prefix_between: "p \<le> a \<Longrightarrow> a \<le> b \<Longrightarrow> prefix p b \<Longrightarrow> prefix p (a :: 'a :: linorder list)"
proof (induction p arbitrary: a b)
  case (Cons x p)
  then obtain y a' where a: "a = y # a'" by (cases a) auto
  with Cons.prems obtain b' where b: "b = x # b'" "prefix p b'" by (cases b) auto
  with Cons.prems a have "y = x" by (auto simp: Cons_le_Cons)
  with Cons a b show ?case by (auto simp: Cons_le_Cons)
qed simp

lemma next_least:
  fixes z :: "'a :: linorder"
  shows "u < v \<Longrightarrow> \<forall>x \<in> set v. z \<le> x \<Longrightarrow> u @ [z] \<le> v"
proof (induction u arbitrary: v)
  case Nil
  then show ?case by (cases v) (auto simp: Cons_le_Cons)
next
  case (Cons x u)
  then show ?case by (cases v) (auto simp: Cons_le_Cons)
qed

text \<open>The comparison of the rest of a URI with the rest of a name.\<close>

lemma filename_cmp_common:
  "0 \<notin> set m \<Longrightarrow>
    \<exists>d. ngx_filename_cmp u m (min (length u) (length m)) = Some d \<and> (d = 0 \<longleftrightarrow> prefix u m \<or> prefix m u)
      \<and> (d < 0 \<longrightarrow> lk u < lk m) \<and> (0 < d \<longrightarrow> lk m < lk u)"
proof (induction u arbitrary: m)
  case (Cons x u)
  show ?case
  proof (cases m)
    case (Cons y m')
    then have y: "y \<noteq> 0" "0 \<notin> set m'" using Cons.prems by auto
    show ?thesis
    proof (cases "x = y")
      case True
      then show ?thesis using Cons.IH [OF y(2)] y(1) Cons by (auto simp: Cons_less_Cons)
    next
      case False
      then have "loc_key x \<noteq> loc_key y" by (simp add: loc_key_inj)
      moreover have "ngx_filename_cmp (x # u) (y # m') (Suc (min (length u) (length m')))
          = Some (if x = 0 then - uint y else filename_key x - filename_key y)"
        using False y(1) by (simp add: filename_key_def Let_def)
      moreover have "0 < uint y" using uint_pos y(1) by simp
      moreover have "loc_key y = filename_key y" "x \<noteq> 0 \<longrightarrow> loc_key x = filename_key x" "x = 0 \<longrightarrow> loc_key x = - 1" using y(1) by (simp_all add: loc_key_def)
      moreover have "0 \<le> filename_key y" by (simp add: filename_key_def)
      ultimately show ?thesis using False Cons by (cases "x = 0") (auto simp: Cons_less_Cons)
    qed
  qed simp
qed simp

lemma append_less_same: "c @ a < c @ b \<longleftrightarrow> a < (b :: 'a :: linorder list)"
  by (induction c) simp_all

lemma drop_common:
  assumes "take p a = take p b" "p \<le> length a" "p \<le> length b"
  shows "prefix (drop p a) (drop p b) \<longleftrightarrow> prefix a b" "lk (drop p a) < lk (drop p b) \<longleftrightarrow> lk a < lk b"
proof -
  obtain c a' b' where "a = c @ a'" "b = c @ b'" "length c = p"
    using assms by (metis append_take_drop_id length_take min.absorb2)
  then show "prefix (drop p a) (drop p b) \<longleftrightarrow> prefix a b" "lk (drop p a) < lk (drop p b) \<longleftrightarrow> lk a < lk b" by (simp_all add: append_less_same)
qed

lemma filename_cmp_drop:
  assumes "0 \<notin> set m" "take p u = take p m" "p \<le> length u" "p \<le> length m"
  shows "\<exists>d. ngx_filename_cmp (drop p u) (drop p m) (min (length u - p) (length m - p)) = Some d \<and> (d = 0 \<longleftrightarrow> prefix u m \<or> prefix m u)
      \<and> (d < 0 \<longrightarrow> lk u < lk m) \<and> (0 < d \<longrightarrow> lk m < lk u)"
proof -
  have "0 \<notin> set (drop p m)" using assms(1) by (auto dest: in_set_dropD)
  from filename_cmp_common [OF this, of "drop p u"] show ?thesis
    using drop_common [OF assms(2,3,4)] drop_common [OF assms(2) [symmetric] assms(4,3)] by simp
qed

lemma filename_cmp_eq:
  assumes "0 \<notin> set b" "length a \<le> length b"
  shows "ngx_filename_cmp a b (length a) = Some 0 \<longleftrightarrow> prefix a b"
proof -
  have "prefix b a \<Longrightarrow> prefix a b" using assms(2) by (metis prefix_length_le le_antisym prefix_order.eq_iff prefix_length_prefix order_refl)
  then show ?thesis using filename_cmp_common [OF assms(1), of a] assms(2) by (auto simp: min_absorb1)
qed

section \<open>Searching a sorted list\<close>

definition lq_redirect :: "'re lq \<Rightarrow> bool" where
  "lq_redirect x \<longleftrightarrow> redirects (lq_exact x) \<or> redirects (lq_inclusive x)"

text \<open>What the search in a tree finds, on the list of all locations of the tree.\<close>

definition loc_search :: "int \<Rightarrow> 're loc_conf \<Rightarrow> bytes \<Rightarrow> 're lq list \<Rightarrow> int \<times> 're loc_conf" where
  "loc_search rv loc uri G =
     (case find (\<lambda>x. lq_name x = uri) G of
        Some x \<Rightarrow> (case lq_exact x of Some c \<Rightarrow> (NGX_OK, c) | None \<Rightarrow> (NGX_AGAIN, the (lq_inclusive x)))
      | None \<Rightarrow>
          (case find (\<lambda>x. lq_redirect x \<and> lq_name x = uri @ [ch_slash]) G of
             Some x \<Rightarrow> (NGX_DONE, lq_conf x)
           | None \<Rightarrow>
               (case find (\<lambda>x. lq_inclusive x \<noteq> None \<and> strict_prefix (lq_name x) uri) (rev G) of
                  Some x \<Rightarrow> (NGX_AGAIN, the (lq_inclusive x))
                | None \<Rightarrow> (rv, loc))))"

definition relevant :: "bytes \<Rightarrow> 're lq \<Rightarrow> bool" where
  "relevant uri x \<longleftrightarrow> lq_name x = uri \<or> lq_redirect x \<and> lq_name x = uri @ [ch_slash] \<or> lq_inclusive x \<noteq> None \<and> strict_prefix (lq_name x) uri"

lemma find_append: "find P (xs @ ys) = (case find P xs of Some x \<Rightarrow> Some x | None \<Rightarrow> find P ys)"
  by (induction xs) auto

lemma find_filter: "(\<And>x. P x \<Longrightarrow> Q x) \<Longrightarrow> find P (filter Q xs) = find P xs"
  by (induction xs) auto

lemma loc_search_filter: "loc_search rv loc uri (filter (relevant uri) G) = loc_search rv loc uri G"
proof -
  have "find (\<lambda>x. lq_name x = uri) (filter (relevant uri) xs) = find (\<lambda>x. lq_name x = uri) xs"
    "find (\<lambda>x. lq_redirect x \<and> lq_name x = uri @ [ch_slash]) (filter (relevant uri) xs) = find (\<lambda>x. lq_redirect x \<and> lq_name x = uri @ [ch_slash]) xs"
    "find (\<lambda>x. lq_inclusive x \<noteq> None \<and> strict_prefix (lq_name x) uri) (filter (relevant uri) xs)
      = find (\<lambda>x. lq_inclusive x \<noteq> None \<and> strict_prefix (lq_name x) uri) xs" for xs :: "'a lq list"
    by (rule find_filter, simp add: relevant_def)+
  then show ?thesis unfolding loc_search_def rev_filter by presburger
qed

lemma loc_search_cong: "filter (relevant uri) G = filter (relevant uri) G' \<Longrightarrow> loc_search rv loc uri G = loc_search rv loc uri G'"
  using loc_search_filter [of rv loc uri G] loc_search_filter [of rv loc uri G'] by simp

section \<open>Grouped lists\<close>

text \<open>The locations of a list and of the lists below its elements, in order.\<close>

fun flat_lq :: "'c location_queue \<Rightarrow> 'c location_queue list" where
  "flat_lq (LQ e i n l) = LQ e i n [] # concat (map flat_lq l)"

definition flat_lqs :: "'c location_queue list \<Rightarrow> 'c location_queue list" where
  "flat_lqs F = concat (map flat_lq F)"

lemma flat_simps [simp]:
  "flat_lqs [] = []" "flat_lqs (x # F) = flat_lq x @ flat_lqs F" "flat_lqs (F @ F') = flat_lqs F @ flat_lqs F'"
  by (simp_all add: flat_lqs_def)

lemma flat_lq_eq: "flat_lq x = LQ (lq_exact x) (lq_inclusive x) (lq_name x) [] # flat_lqs (lq_list x)"
  by (cases x) (simp add: flat_lqs_def)

definition apart :: "'c location_queue \<Rightarrow> 'c location_queue \<Rightarrow> bool" where
  "apart x y \<longleftrightarrow> (lq_inclusive x \<noteq> None \<longrightarrow> \<not> prefix (lq_name x) (lq_name y))"

fun good_lq :: "'c location_queue \<Rightarrow> bool" where
  "good_lq (LQ e i n l) \<longleftrightarrow> (\<forall>x \<in> set l. good_lq x) \<and> sorted_wrt apart l \<and> (\<forall>z \<in> set (flat_lqs l). strict_prefix n (lq_name z)) \<and> (i = None \<longrightarrow> l = [])"

definition ascending :: "'c location_queue list \<Rightarrow> bool" where
  "ascending G \<longleftrightarrow> sorted_wrt (\<lambda>x y. lk (lq_name x) < lk (lq_name y)) G"

definition good :: "'c location_queue list \<Rightarrow> bool" where
  "good F \<longleftrightarrow> (\<forall>x \<in> set F. good_lq x) \<and> sorted_wrt apart F \<and> ascending (flat_lqs F)"

definition item_ok :: "'re lq \<Rightarrow> bool" where
  "item_ok x \<longleftrightarrow> 0 \<notin> set (lq_name x) \<and> length (lq_name x) < 256 \<and> (lq_redirect x \<longrightarrow> (\<exists>s. lq_name x = s @ [ch_slash]))
    \<and> (lq_exact x \<noteq> None \<or> lq_inclusive x \<noteq> None)"

lemma good_lq_eq: "good_lq x \<longleftrightarrow> (\<forall>y \<in> set (lq_list x). good_lq y) \<and> sorted_wrt apart (lq_list x)
    \<and> (\<forall>z \<in> set (flat_lqs (lq_list x)). strict_prefix (lq_name x) (lq_name z)) \<and> (lq_inclusive x = None \<longrightarrow> lq_list x = [])"
  by (cases x) simp

lemma in_flat: "z \<in> set (flat_lqs F) \<Longrightarrow> \<exists>a \<in> set F. z = LQ (lq_exact a) (lq_inclusive a) (lq_name a) [] \<or> z \<in> set (flat_lqs (lq_list a))"
proof -
  assume "z \<in> set (flat_lqs F)"
  then obtain a where "a \<in> set F" "z \<in> set (flat_lq a)" by (auto simp: flat_lqs_def)
  then show ?thesis unfolding flat_lq_eq [of a] by auto
qed

lemma flat_mem: "a \<in> set F \<Longrightarrow> LQ (lq_exact a) (lq_inclusive a) (lq_name a) [] \<in> set (flat_lqs F)"
proof -
  assume "a \<in> set F"
  then have "set (flat_lq a) \<subseteq> set (flat_lqs F)" by (auto simp: flat_lqs_def)
  then show ?thesis unfolding flat_lq_eq [of a] by simp
qed

lemma flat_split: "flat_lqs (A @ m # B) = flat_lqs A @ LQ (lq_exact m) (lq_inclusive m) (lq_name m) [] # flat_lqs (lq_list m) @ flat_lqs B"
  by (simp add: flat_lq_eq)

lemma good_split:
  assumes "good (A @ m # B)"
  shows "good A" "good B" "good (lq_list m)"
    and "z \<in> set (flat_lqs A) \<Longrightarrow> lk (lq_name z) < lk (lq_name m)"
    and "z \<in> set (flat_lqs (lq_list m)) \<Longrightarrow> strict_prefix (lq_name m) (lq_name z)"
    and "z \<in> set (flat_lqs B) \<Longrightarrow> lk (lq_name m) < lk (lq_name z)"
    and "z \<in> set (flat_lqs A) \<Longrightarrow> lq_inclusive z \<noteq> None \<Longrightarrow> \<not> prefix (lq_name z) (lq_name m)"
    and "lq_inclusive m \<noteq> None \<Longrightarrow> z \<in> set (flat_lqs B) \<Longrightarrow> \<not> prefix (lq_name m) (lq_name z)"
    and "lq_inclusive m = None \<Longrightarrow> lq_list m = []"
proof -
  have g: "\<forall>x \<in> set (A @ m # B). good_lq x" "sorted_wrt apart (A @ m # B)" "ascending (flat_lqs (A @ m # B))" using assms by (simp_all add: good_def)
  have m: "good_lq m" using g(1) by simp
  show "good A" "good B" "good (lq_list m)" using g m unfolding good_def flat_split ascending_def by (auto simp: sorted_wrt_append good_lq_eq [of m])
  show A: "lk (lq_name z) < lk (lq_name m)" if "z \<in> set (flat_lqs A)" using g(3) that unfolding flat_split ascending_def by (auto simp: sorted_wrt_append)
  show B: "lk (lq_name m) < lk (lq_name z)" if "z \<in> set (flat_lqs B)" for z using g(3) that unfolding flat_split ascending_def by (auto simp: sorted_wrt_append)
  show "strict_prefix (lq_name m) (lq_name z)" if "z \<in> set (flat_lqs (lq_list m))" using m that by (simp add: good_lq_eq [of m])
  show "lq_list m = []" if "lq_inclusive m = None" using m that by (simp add: good_lq_eq [of m])
  show "\<not> prefix (lq_name z) (lq_name m)" if z: "z \<in> set (flat_lqs A)" "lq_inclusive z \<noteq> None"
  proof
    assume p: "prefix (lq_name z) (lq_name m)"
    obtain a where a: "a \<in> set A" "z = LQ (lq_exact a) (lq_inclusive a) (lq_name a) [] \<or> z \<in> set (flat_lqs (lq_list a))" using in_flat [OF z(1)] by blast
    have ga: "good_lq a" "apart a m" using g(1,2) a(1) by (auto simp: sorted_wrt_append)
    show False
    proof (cases "z \<in> set (flat_lqs (lq_list a))")
      case True
      then have "lq_list a \<noteq> []" by auto
      then have "lq_inclusive a \<noteq> None" "strict_prefix (lq_name a) (lq_name z)" using ga(1) True good_lq_eq [of a] by blast+
      then show False using ga(2) p by (meson apart_def prefix_order.trans strict_prefix_def)
    next
      case False
      then show False using a(2) ga(2) p z(2) by (auto simp: apart_def)
    qed
  qed
  show "\<not> prefix (lq_name m) (lq_name z)" if z: "lq_inclusive m \<noteq> None" "z \<in> set (flat_lqs B)"
  proof
    assume p: "prefix (lq_name m) (lq_name z)"
    obtain b where b: "b \<in> set B" "z = LQ (lq_exact b) (lq_inclusive b) (lq_name b) [] \<or> z \<in> set (flat_lqs (lq_list b))" using in_flat [OF z(2)] by blast
    have gb: "good_lq b" "apart m b" "lk (lq_name m) < lk (lq_name b)" using g(1,2) b(1) B [OF flat_mem [OF b(1)]] by (auto simp: sorted_wrt_append)
    have nb: "\<not> prefix (lq_name m) (lq_name b)" using gb(2) z(1) by (simp add: apart_def)
    have "prefix (lq_name b) (lq_name z)" using b(2) gb(1) good_lq_eq [of b] by (auto simp: strict_prefix_def)
    with p nb have "prefix (lq_name b) (lq_name m)" using prefix_same_cases by blast
    then show False using gb(3) prefix_le [of "lk (lq_name b)" "lk (lq_name m)"] by (simp add: lk_prefix)
  qed
qed

section \<open>The search in the tree\<close>

lemma slash_least: "0 \<notin> set m \<Longrightarrow> \<forall>x \<in> set (lk m). loc_key ch_slash \<le> x"
proof
  fix x
  assume m: "0 \<notin> set m" "x \<in> set (lk m)"
  then obtain c where "c \<in> set m" "x = loc_key c" by (auto simp: lk_def)
  then show "loc_key ch_slash \<le> x" using m(1) loc_key_slash [of c] by metis
qed

lemma less_snoc: "(u :: 'a :: linorder list) < u @ [x]"
  by (rule strict_prefix_less) (simp add: strict_prefix_def)

lemma irrelevant_above:
  assumes "lk uri < lk (lq_name m)" "\<not> prefix uri (lq_name m)" "lk (lq_name m) \<le> lk (lq_name z)" "0 \<notin> set (lq_name m)"
  shows "\<not> relevant uri z"
proof
  assume "relevant uri z"
  then consider "lq_name z = uri" | "lq_name z = uri @ [ch_slash]" | "strict_prefix (lq_name z) uri" by (auto simp: relevant_def)
  then show False
  proof cases
    case 2
    from next_least [OF assms(1) slash_least [OF assms(4)]] have "lk (lq_name m) = lk (uri @ [ch_slash])" using assms(3) 2 by simp
    then show False using assms(2) by (simp only: lk_inj) simp
  next
    case 3
    then have "lk (lq_name z) < lk uri" by (simp add: strict_prefix_less lk_strict_prefix)
    then show False using assms(1,3) by simp
  qed (use assms(1,3) in simp)
qed

lemma irrelevant_beyond:
  assumes "strict_prefix uri (lq_name m)" "lk (lq_name m) < lk (lq_name z)" "0 \<notin> set (lq_name m)"
  shows "\<not> relevant uri z"
proof
  have u: "lk uri < lk (lq_name m)" using assms(1) by (simp add: strict_prefix_less lk_strict_prefix)
  assume "relevant uri z"
  then consider "lq_name z = uri" | "lq_name z = uri @ [ch_slash]" | "strict_prefix (lq_name z) uri" by (auto simp: relevant_def)
  then show False
  proof cases
    case 2
    from next_least [OF u slash_least [OF assms(3)]] show False using assms(2) 2 by simp
  next
    case 3
    then have "lk (lq_name z) < lk uri" by (simp add: strict_prefix_less lk_strict_prefix)
    then show False using u assms(2) by simp
  qed (use u assms(2) in simp)
qed

lemma irrelevant_before:
  assumes "lk (lq_name z) < lk (lq_name m)" "lk (lq_name m) \<le> lk uri" "lq_inclusive z \<noteq> None \<Longrightarrow> \<not> prefix (lq_name z) (lq_name m)"
  shows "\<not> relevant uri z"
proof
  assume "relevant uri z"
  then consider "lq_name z = uri" | "lq_name z = uri @ [ch_slash]" | "lq_inclusive z \<noteq> None" "strict_prefix (lq_name z) uri" by (auto simp: relevant_def)
  then show False
  proof cases
    case 2
    have "lk uri < lk (uri @ [ch_slash])" by (simp add: less_snoc)
    then show False using assms(1,2) 2 by (metis less_trans not_le)
  next
    case 3
    then have "prefix (lk (lq_name z)) (lk uri)" by (simp add: lk_prefix strict_prefix_def)
    from prefix_between [OF less_imp_le [OF assms(1)] assms(2) this] show False using assms(3) 3(1) by (simp add: lk_prefix)
  qed (use assms(1,2) in simp)
qed

lemma irrelevant_inside:
  assumes "prefix (lq_name m) (lq_name z)" "\<not> prefix (lq_name m) uri" "lk (lq_name m) < lk uri"
  shows "\<not> relevant uri z"
proof
  assume "relevant uri z"
  then consider "prefix (lq_name z) uri" | "lq_name z = uri @ [ch_slash]" by (auto simp: relevant_def strict_prefix_def)
  then show False
  proof cases
    case 1
    then show False using assms(1,2) by (meson prefix_order.trans)
  next
    case 2
    then have "prefix (lq_name m) uri \<or> lq_name m = uri @ [ch_slash]" using assms(1) by (metis prefix_snoc)
    then have "lq_name m = uri @ [ch_slash]" using assms(2) by simp
    then have "lk uri < lk (lq_name m)" by (simp add: less_snoc)
    then show False using assms(3) by simp
  qed
qed

lemma irrelevant_after:
  assumes "strict_prefix (lq_name m) uri" "lk (lq_name m) < lk (lq_name z)" "\<not> prefix (lq_name m) (lq_name z)"
  shows "\<not> relevant uri z"
proof
  assume "relevant uri z"
  then consider "prefix uri (lq_name z)" | "strict_prefix (lq_name z) uri" by (auto simp: relevant_def)
  then show False
  proof cases
    case 1
    then show False using assms(1,3) by (meson prefix_order.trans strict_prefix_def)
  next
    case 2
    then have "prefix (lq_name z) (lq_name m)" using assms(1,3) by (meson prefix_same_cases strict_prefix_def)
    then have "lk (lq_name z) \<le> lk (lq_name m)" by (simp add: prefix_le lk_prefix)
    then show False using assms(2) by simp
  qed
qed

lemma filter_none: "(\<And>x. x \<in> set xs \<Longrightarrow> \<not> P x) \<Longrightarrow> filter P xs = []"
  by (simp add: filter_empty_conv)

abbreviation bare :: "'c location_queue \<Rightarrow> 'c location_queue" where
  "bare m \<equiv> LQ (lq_exact m) (lq_inclusive m) (lq_name m) []"

lemma relevant_bare: "relevant uri (bare m) = relevant uri m"
  by (simp add: relevant_def lq_redirect_def)

lemma search_left:
  assumes "good (A @ m # B)" "0 \<notin> set (lq_name m)" "lk uri < lk (lq_name m)" "\<not> prefix uri (lq_name m)"
  shows "loc_search rv loc uri (flat_lqs (A @ m # B)) = loc_search rv loc uri (flat_lqs A)"
proof (rule loc_search_cong)
  note g = good_split [OF assms(1)]
  have "\<not> relevant uri (bare m)" unfolding relevant_bare by (rule irrelevant_above [OF assms(3,4) _ assms(2)]) simp
  moreover have "filter (relevant uri) (flat_lqs (lq_list m)) = []"
    by (rule filter_none, rule irrelevant_above [OF assms(3,4) _ assms(2)]) (simp add: g(5) less_imp_le strict_prefix_less lk_strict_prefix)
  moreover have "filter (relevant uri) (flat_lqs B) = []"
    by (rule filter_none, rule irrelevant_above [OF assms(3,4) _ assms(2)]) (simp add: g(6) less_imp_le)
  ultimately show "filter (relevant uri) (flat_lqs (A @ m # B)) = filter (relevant uri) (flat_lqs A)" unfolding flat_split by simp
qed

lemma search_right:
  assumes "good (A @ m # B)" "lk (lq_name m) < lk uri" "\<not> prefix (lq_name m) uri \<or> lq_inclusive m = None"
  shows "loc_search rv loc uri (flat_lqs (A @ m # B)) = loc_search rv loc uri (flat_lqs B)"
proof (rule loc_search_cong)
  note g = good_split [OF assms(1)]
  have "filter (relevant uri) (flat_lqs A) = []"
    by (rule filter_none, rule irrelevant_before) (use g(4,7) assms(2) in \<open>auto intro: less_imp_le\<close>)
  moreover have "\<not> relevant uri m"
  proof (cases "lq_inclusive m")
    case None
    have "lk uri < lk (uri @ [ch_slash])" by (simp add: less_snoc)
    then show ?thesis using None assms(2) by (auto simp: relevant_def simp del: lk_append)
  next
    case (Some c)
    then show ?thesis using irrelevant_inside [of m m uri] assms(2,3) by simp
  qed
  moreover have "filter (relevant uri) (flat_lqs (lq_list m)) = []"
  proof (cases "lq_inclusive m")
    case None
    then show ?thesis using g(9) by simp
  next
    case (Some c)
    show ?thesis
      by (rule filter_none, rule irrelevant_inside) (use g(5) assms(2,3) Some in \<open>auto simp: strict_prefix_def\<close>)
  qed
  ultimately show "filter (relevant uri) (flat_lqs (A @ m # B)) = filter (relevant uri) (flat_lqs B)" unfolding flat_split by (simp add: relevant_bare)
qed

lemma search_inside:
  assumes "good (A @ m # B)" "strict_prefix (lq_name m) uri" "lq_inclusive m = Some c"
  shows "loc_search rv loc uri (flat_lqs (A @ m # B)) = loc_search NGX_AGAIN c uri (flat_lqs (lq_list m))"
proof -
  note g = good_split [OF assms(1)]
  have u: "lk (lq_name m) < lk uri" using assms(2) by (simp add: strict_prefix_less lk_strict_prefix)
  have "filter (relevant uri) (flat_lqs A) = []"
    by (rule filter_none, rule irrelevant_before) (use g(4,7) u in \<open>auto intro: less_imp_le\<close>)
  moreover have "filter (relevant uri) (flat_lqs B) = []"
    by (rule filter_none, rule irrelevant_after [OF assms(2)]) (use g(6,8) assms(3) in auto)
  ultimately have "filter (relevant uri) (flat_lqs (A @ m # B)) = filter (relevant uri) (bare m # flat_lqs (lq_list m))" unfolding flat_split by simp
  from loc_search_cong [OF this] have "loc_search rv loc uri (flat_lqs (A @ m # B)) = loc_search rv loc uri (bare m # flat_lqs (lq_list m))" .
  also have "\<dots> = loc_search NGX_AGAIN c uri (flat_lqs (lq_list m))"
  proof -
    have "lq_name m \<noteq> uri" "lq_name m \<noteq> uri @ [ch_slash]" using assms(2) by (auto simp: strict_prefix_def)
    then show ?thesis using assms(2,3) unfolding loc_search_def by (simp add: find_append split: option.split)
  qed
  finally show ?thesis .
qed

lemma search_here:
  assumes "good (A @ m # B)" "lq_name m = uri"
  shows "loc_search rv loc uri (flat_lqs (A @ m # B)) = (case lq_exact m of Some c \<Rightarrow> (NGX_OK, c) | None \<Rightarrow> (NGX_AGAIN, the (lq_inclusive m)))"
proof -
  note g = good_split [OF assms(1)]
  have "find (\<lambda>x. lq_name x = uri) (flat_lqs A) = None" using g(4) assms(2) by (force simp: find_None_iff)
  then show ?thesis unfolding loc_search_def flat_split using assms(2) by (simp add: find_append split: option.split)
qed

lemma search_short:
  assumes "good (A @ m # B)" "0 \<notin> set (lq_name m)" "strict_prefix uri (lq_name m)"
  shows "loc_search rv loc uri (flat_lqs (A @ m # B)) =
    (if lq_redirect m \<and> lq_name m = uri @ [ch_slash] then loc_search NGX_DONE (lq_conf m) uri (flat_lqs A) else loc_search rv loc uri (flat_lqs A))"
proof -
  note g = good_split [OF assms(1)]
  have "filter (relevant uri) (flat_lqs (lq_list m)) = []"
    by (rule filter_none, rule irrelevant_beyond [OF assms(3) _ assms(2)]) (simp add: g(5) strict_prefix_less lk_strict_prefix)
  moreover have "filter (relevant uri) (flat_lqs B) = []"
    by (rule filter_none, rule irrelevant_beyond [OF assms(3) _ assms(2)]) (simp add: g(6))
  ultimately have "filter (relevant uri) (flat_lqs (A @ m # B)) = filter (relevant uri) (flat_lqs A @ [bare m])" unfolding flat_split by simp
  from loc_search_cong [OF this] have e: "loc_search rv loc uri (flat_lqs (A @ m # B)) = loc_search rv loc uri (flat_lqs A @ [bare m])" .
  have n: "lq_name m \<noteq> uri" "\<not> strict_prefix (lq_name m) uri" using assms(3) by (auto simp: strict_prefix_def dest: prefix_order.antisym)
  show ?thesis
  proof (cases "lq_redirect m \<and> lq_name m = uri @ [ch_slash]")
    case False
    then have "filter (relevant uri) (flat_lqs A @ [bare m]) = filter (relevant uri) (flat_lqs A)" using n by (auto simp: relevant_def lq_redirect_def)
    from loc_search_cong [OF this] show ?thesis unfolding e if_not_P [OF False] .
  next
    case True
    have r: "find (\<lambda>x. lq_redirect x \<and> lq_name x = uri @ [ch_slash]) (flat_lqs A) = None"
      using g(4) True by (force simp: find_None_iff)
    have p: "find (\<lambda>x. lq_inclusive x \<noteq> None \<and> strict_prefix (lq_name x) uri) (rev (flat_lqs A)) = None"
    proof -
      have "\<not> (lq_inclusive x \<noteq> None \<and> strict_prefix (lq_name x) uri)" if "x \<in> set (flat_lqs A)" for x
        using g(7) [OF that] True unfolding strict_prefix_def by (metis prefix_snoc)
      then show ?thesis by (simp add: find_None_iff)
    qed
    have c: "lq_redirect (bare m)" "lq_conf (bare m) = lq_conf m" using True by (simp_all add: lq_redirect_def lq_conf_def split: option.split)
    show ?thesis unfolding e if_P [OF True] using True r p c n by (simp add: loc_search_def find_append split: option.split)
  qed
qed


lemma tree_Nil: "ngx_http_create_locations_tree [] q = Null"
  by (subst ngx_http_create_locations_tree.simps) simp

lemma tree_search:
  "good F \<Longrightarrow> \<forall>z \<in> set (flat_lqs F). item_ok z \<and> p \<le> length (lq_name z) \<and> take p (lq_name z) = take p uri \<Longrightarrow> p \<le> length uri \<Longrightarrow>
    ngx_http_core_find_static_location rv loc (drop p uri) (ngx_http_create_locations_tree F p) = Some (loc_search rv loc uri (flat_lqs F))"
proof (induction F p arbitrary: rv loc rule: ngx_http_create_locations_tree.induct)
  case (1 F p)
  show ?case
  proof (cases "F = []")
    case True
    then show ?thesis by (simp add: tree_Nil loc_search_def)
  next
    case False
    define k m A B where "k = length F div 2" and "m = F ! k" and "A = take k F" and "B = drop (k + 1) F"
    have "k < length F" using False by (simp add: k_def)
    then have F: "F = A @ m # B" by (simp add: A_def m_def B_def id_take_nth_drop)
    have ab: "A = [] \<Longrightarrow> B = []" using False by (auto simp: A_def B_def k_def)
    note g = good_split [OF "1.prems"(1) [unfolded F]]
    define len where "len = length (lq_name m) - p"
    have "item_ok (bare m) \<and> p \<le> length (lq_name m) \<and> take p (lq_name m) = take p uri" using "1.prems"(2) unfolding F flat_split by simp
    then have m: "0 \<notin> set (lq_name m)" "length (lq_name m) < 256" "lq_exact m \<noteq> None \<or> lq_inclusive m \<noteq> None"
      "lq_redirect m \<Longrightarrow> \<exists>s. lq_name m = s @ [ch_slash]" "p \<le> length (lq_name m)" "take p uri = take p (lq_name m)"
      by (auto simp: item_ok_def lq_redirect_def)
    have len: "unat (of_nat len :: u_char) = len" using m(2) by (simp add: len_def unat_of_nat take_bit_eq_mod)
    define r where "r = lq_redirect m"
    have tree: "ngx_http_create_locations_tree F p = Node (ngx_http_create_locations_tree A p) (ngx_http_create_locations_tree B p)
        (ngx_http_create_locations_tree (lq_list m) (p + len)) (lq_exact m) (lq_inclusive m) r (of_nat len) (drop p (lq_name m))"
    proof -
      have e: "(if X = [] then Null else ngx_http_create_locations_tree X q) = ngx_http_create_locations_tree X q" for X :: "'a lq list" and q by (simp add: tree_Nil)
      have "(A = [] \<or> B = []) = (B = [])" using ab by blast
      then show ?thesis
        unfolding ngx_http_create_locations_tree.simps [of F p] if_not_P [OF False] Let_def
        unfolding k_def [symmetric] unfolding m_def [symmetric] A_def [symmetric] B_def [symmetric] len_def [symmetric] r_def lq_redirect_def
        by (simp only: e)
    qed
    note IH = "1.IH" [OF False k_def m_def A_def B_def len_def]
    have IHA: "ngx_http_core_find_static_location rv' loc' (drop p uri) (ngx_http_create_locations_tree A p) = Some (loc_search rv' loc' uri (flat_lqs A))" for rv' loc'
    proof (cases "A = []")
      case False
      show ?thesis by (rule IH(1) [OF False g(1) _ "1.prems"(3)]) (use "1.prems"(2) in \<open>auto simp: F\<close>)
    qed (simp add: tree_Nil loc_search_def)
    have IHB: "ngx_http_core_find_static_location rv' loc' (drop p uri) (ngx_http_create_locations_tree B p) = Some (loc_search rv' loc' uri (flat_lqs B))" for rv' loc'
    proof (cases "B = []")
      case False
      then have nb: "\<not> (A = [] \<or> B = [])" using ab by blast
      show ?thesis by (rule IH(2) [OF nb g(2) _ "1.prems"(3)]) (use "1.prems"(2) in \<open>auto simp: F\<close>)
    qed (simp add: tree_Nil loc_search_def)
    have IHM: "ngx_http_core_find_static_location rv' loc' (drop (p + len) uri) (ngx_http_create_locations_tree (lq_list m) (p + len)) = Some (loc_search rv' loc' uri (flat_lqs (lq_list m)))"
      if pm: "prefix (lq_name m) uri" for rv' loc'
    proof (cases "lq_list m = []")
      case False
      have pl: "p + len = length (lq_name m)" using m(5) by (simp add: len_def)
      have "item_ok z \<and> p + len \<le> length (lq_name z) \<and> take (p + len) (lq_name z) = take (p + len) uri" if zz: "z \<in> set (flat_lqs (lq_list m))" for z
      proof -
        have "item_ok z" using "1.prems"(2) zz unfolding F flat_split by simp
        moreover obtain s where "lq_name z = lq_name m @ s" using g(5) [OF zz] by (auto simp: strict_prefix_def prefix_def)
        moreover obtain s' where "uri = lq_name m @ s'" using pm by (auto simp: prefix_def)
        ultimately show ?thesis unfolding pl by simp
      qed
      then show ?thesis using pm by (intro IH(3) [OF False g(3)]) (auto simp: pl dest: prefix_length_le)
    qed (simp add: tree_Nil loc_search_def)
    let ?n = "min (length uri - p) len"
    obtain d where d: "ngx_filename_cmp (drop p uri) (drop p (lq_name m)) ?n = Some d" "d = 0 \<longleftrightarrow> prefix uri (lq_name m) \<or> prefix (lq_name m) uri"
      "d < 0 \<Longrightarrow> lk uri < lk (lq_name m)" "0 < d \<Longrightarrow> lk (lq_name m) < lk uri"
      using filename_cmp_drop [OF m(1,6) "1.prems"(3) m(5)] unfolding len_def by blast
    have n: "(if length (drop p uri) \<le> len then length (drop p uri) else len) = ?n" by simp
    have step: "ngx_http_core_find_static_location rv loc (drop p uri) (ngx_http_create_locations_tree F p) =
      (if d \<noteq> 0 then if d < 0 then Some (loc_search rv loc uri (flat_lqs A)) else Some (loc_search rv loc uri (flat_lqs B))
       else if length (drop p uri) > len then
         (case lq_inclusive m of
            Some c \<Rightarrow> ngx_http_core_find_static_location NGX_AGAIN c (drop ?n (drop p uri)) (ngx_http_create_locations_tree (lq_list m) (p + len))
          | None \<Rightarrow> Some (loc_search rv loc uri (flat_lqs B)))
       else if length (drop p uri) = len then
         (case lq_exact m of Some c \<Rightarrow> Some (NGX_OK, c) | None \<Rightarrow> do { c \<leftarrow> lq_inclusive m; Some (NGX_AGAIN, c) })
       else if length (drop p uri) + 1 = len \<and> r then
         do { c \<leftarrow> (case lq_exact m of Some c \<Rightarrow> Some c | None \<Rightarrow> lq_inclusive m); Some (loc_search NGX_DONE c uri (flat_lqs A)) }
       else Some (loc_search rv loc uri (flat_lqs A)))"
      unfolding tree ngx_http_core_find_static_location.simps(2) Let_def len IHA IHB n d(1) Option.bind.bind_lunit ..
    note gF = "1.prems"(1) [unfolded F]
    consider "d < 0" | "0 < d" | "d = 0" "strict_prefix (lq_name m) uri" | "lq_name m = uri" | "d = 0" "strict_prefix uri (lq_name m)"
    proof -
      have "d = 0 \<Longrightarrow> strict_prefix (lq_name m) uri \<or> lq_name m = uri \<or> strict_prefix uri (lq_name m)" using d(2) by (auto simp: strict_prefix_def)
      then show thesis using that by (cases d "0 :: int" rule: linorder_cases) auto
    qed
    then show ?thesis
    proof cases
      case 1
      then have "\<not> prefix uri (lq_name m)" using d(2) by simp
      from search_left [OF gF m(1) d(3) [OF 1] this, folded F] 1 show ?thesis unfolding step by simp
    next
      case 2
      then have "\<not> prefix (lq_name m) uri" using d(2) by simp
      with search_right [OF gF d(4) [OF 2], folded F] 2 show ?thesis unfolding step by simp
    next
      case 3
      have l: "length (drop p uri) > len" using prefix_length_less [OF 3(2)] m(5) by (simp add: len_def)
      then have nn: "drop ?n (drop p uri) = drop (p + len) uri" by (simp add: add.commute)
      show ?thesis
      proof (cases "lq_inclusive m")
        case None
        have "lk (lq_name m) < lk uri" using 3(2) by (simp add: strict_prefix_less lk_strict_prefix)
        from search_right [OF gF this, folded F] None show ?thesis unfolding step using 3(1) l by simp
      next
        case (Some c)
        have "prefix (lq_name m) uri" using 3(2) by (simp add: strict_prefix_def)
        from IHM [OF this] search_inside [OF gF 3(2) Some, folded F] show ?thesis
          unfolding step nn using 3(1) l Some by simp
      qed
    next
      case 4
      then have "d = 0" using d(2) by simp
      moreover have "length (drop p uri) = len" using 4 by (simp add: len_def)
      ultimately show ?thesis using search_here [OF gF 4, folded F] m(3) unfolding step by (auto split: option.split)
    next
      case 5
      have l: "length (drop p uri) < len" using prefix_length_less [OF 5(2)] "1.prems"(3) by (simp add: len_def)
      have q: "length (drop p uri) + 1 = len \<and> r \<longleftrightarrow> lq_redirect m \<and> lq_name m = uri @ [ch_slash]"
      proof
        assume a: "length (drop p uri) + 1 = len \<and> r"
        then have "length (lq_name m) = Suc (length uri)" using "1.prems"(3) m(5) unfolding len_def length_drop by linarith
        moreover obtain s' where s': "lq_name m = uri @ s'" using 5(2) by (auto simp: strict_prefix_def prefix_def)
        ultimately obtain x where "lq_name m = uri @ [x]" by (auto simp: length_Suc_conv)
        moreover obtain s where "lq_name m = s @ [ch_slash]" using m(4) a by (auto simp: r_def)
        ultimately have "lq_name m = uri @ [ch_slash]" by (metis append1_eq_conv)
        then show "lq_redirect m \<and> lq_name m = uri @ [ch_slash]" using a by (simp add: r_def)
      next
        assume a: "lq_redirect m \<and> lq_name m = uri @ [ch_slash]"
        then have "length (lq_name m) = Suc (length uri)" by simp
        then have "length (drop p uri) + 1 = len" unfolding len_def length_drop using "1.prems"(3) by linarith
        then show "length (drop p uri) + 1 = len \<and> r" using a by (simp add: r_def)
      qed
      have c: "(case lq_exact m of Some c \<Rightarrow> Some c | None \<Rightarrow> lq_inclusive m) = Some (lq_conf m)" using m(3) by (auto simp: lq_conf_def split: option.split)
      have f: "(d \<noteq> 0) = False" "(length (drop p uri) > len) = False" "(length (drop p uri) = len) = False" using l 5(1) by auto
      show ?thesis unfolding step f if_False q c search_short [OF gF m(1) 5(2), folded F] by simp
    qed
  qed
qed

section \<open>The lists below the locations\<close>

lemma list_below_prefix: "0 \<notin> set (lq_name lx) \<Longrightarrow> list_below lq lx \<longleftrightarrow> prefix (lq_name lq) (lq_name lx)"
  using filename_cmp_eq [of "lq_name lx" "lq_name lq"] by (auto simp: list_below_def dest: prefix_length_le)

definition plain :: "'c location_queue list \<Rightarrow> bool" where
  "plain L \<longleftrightarrow> (\<forall>x \<in> set L. lq_list x = [] \<and> 0 \<notin> set (lq_name x))"

lemma flat_plain: "plain L \<Longrightarrow> flat_lqs L = L"
proof (induction L)
  case (Cons x L)
  then show ?case by (cases x) (simp add: plain_def)
qed simp

lemma ascending_Cons: "ascending (x # G) \<longleftrightarrow> (\<forall>y \<in> set G. lk (lq_name x) < lk (lq_name y)) \<and> ascending G"
  by (simp add: ascending_def)

lemma beyond_block:
  assumes "ascending (lq # L)" "plain L" "y \<in> set (dropWhile (list_below lq) L)"
  shows "\<not> prefix (lq_name lq) (lq_name y)"
proof
  assume p: "prefix (lq_name lq) (lq_name y)"
  obtain h xs where h: "dropWhile (list_below lq) L = h # xs" using assms(3) by (cases "dropWhile (list_below lq) L") auto
  then have nb: "\<not> list_below lq h" using hd_dropWhile [of "list_below lq" L] by auto
  define us where "us = takeWhile (list_below lq) L"
  have L: "L = us @ h # xs" unfolding h [symmetric] us_def by simp
  then have hL: "h \<in> set L" by simp
  have "ascending (h # xs)" using assms(1) unfolding L ascending_Cons ascending_def by (simp add: sorted_wrt_append)
  then have "lk (lq_name h) \<le> lk (lq_name y)" using assms(3) unfolding h by (auto simp: ascending_Cons intro: less_imp_le)
  moreover have "lk (lq_name lq) \<le> lk (lq_name h)" using assms(1) hL by (auto simp: ascending_Cons intro: less_imp_le)
  ultimately have "prefix (lq_name lq) (lq_name h)" using prefix_between [of "lk (lq_name lq)" "lk (lq_name h)" "lk (lq_name y)"] p by (simp add: lk_prefix)
  then show False using nb list_below_prefix [of h lq] assms(2) hL by (auto simp: plain_def)
qed

definition listed :: "'c location_queue list \<Rightarrow> 'c location_queue list \<Rightarrow> bool" where
  "listed L F \<longleftrightarrow> good F \<and> flat_lqs F = L \<and> lq_name ` set F \<subseteq> lq_name ` set L"

lemma create_list_good: "ascending L \<Longrightarrow> plain L \<Longrightarrow> listed L (ngx_http_create_locations_list L)"
proof (induction L rule: ngx_http_create_locations_list.induct)
  case 1
  show ?case by (simp add: listed_def good_def ascending_def)
next
  case (2 lq)
  then have "lq_list lq = []" "flat_lqs [lq] = [lq]" using flat_plain [of "[lq]"] by (simp_all add: plain_def)
  then show ?case by (simp add: listed_def good_def ascending_def good_lq_eq [of lq])
next
  case (3 lq lx rest)
  let ?L = "lx # rest"
  define below xs where "below = takeWhile (list_below lq) ?L" and "xs = dropWhile (list_below lq) ?L"
  have L: "?L = below @ xs" by (simp add: below_def xs_def)
  have asc: "ascending ?L" "plain ?L" "lq_list lq = []" using "3.prems" by (simp_all add: ascending_Cons plain_def)
  have parts: "ascending below" "ascending xs" "plain below" "plain xs" using asc unfolding L ascending_def plain_def by (auto simp: sorted_wrt_append)
  have bare: "bare lq = lq" using asc(3) by (cases lq) simp
  show ?case
  proof (cases "lq_inclusive lq")
    case None
    note F = "3.IH"(1) [OF None asc(1,2)]
    have "ascending (lq # ?L)" using "3.prems"(1) .
    then show ?thesis using F None asc(3) bare
      by (auto simp: listed_def good_def good_lq_eq [of lq] flat_lq_eq [of lq] apart_def)
  next
    case (Some c)
    then have ne: "lq_inclusive lq \<noteq> None" by simp
    have X: "listed xs (ngx_http_create_locations_list xs)"
    proof (cases "below = []")
      case True
      show ?thesis by (rule "3.IH"(2) [OF ne below_def xs_def True parts(2,4)])
    next
      case False
      show ?thesis by (rule "3.IH"(4) [OF ne below_def xs_def False parts(2,4)])
    qed
    have ap: "apart lq y" if "y \<in> set (ngx_http_create_locations_list xs)" for y
    proof -
      have "lq_name y \<in> lq_name ` set xs" using X that unfolding listed_def by blast
      then obtain y' where "y' \<in> set xs" "lq_name y = lq_name y'" by blast
      with beyond_block [OF "3.prems"(1) asc(2), of y'] show ?thesis by (simp add: apart_def xs_def)
    qed
    define q where "q = LQ (lq_exact lq) (lq_inclusive lq) (lq_name lq) (ngx_http_create_locations_list below)"
    have B: "listed below (ngx_http_create_locations_list below)"
    proof (cases "below = []")
      case True
      then show ?thesis by (simp add: listed_def good_def ascending_def)
    next
      case False
      from "3.IH"(3) [OF ne below_def xs_def False] parts(1,3) show ?thesis by (simp add: asc(3))
    qed
    have "strict_prefix (lq_name lq) (lq_name z)" if "z \<in> set below" for z
    proof -
      have "z \<in> set ?L" "list_below lq z" using that unfolding below_def by (auto dest: set_takeWhileD)
      then have "prefix (lq_name lq) (lq_name z)" "lk (lq_name lq) < lk (lq_name z)"
        using list_below_prefix [of z lq] asc(2) "3.prems"(1) by (auto simp: plain_def ascending_Cons)
      then show ?thesis by (auto simp: strict_prefix_def)
    qed
    then have gq: "good_lq q" using B Some by (simp add: q_def listed_def good_def)
    have fq: "flat_lqs (q # ngx_http_create_locations_list xs) = lq # ?L" using B X bare unfolding L by (simp add: q_def listed_def flat_lq_eq)
    have aq: "\<forall>y \<in> set (ngx_http_create_locations_list xs). apart q y" using ap by (simp add: apart_def q_def)
    have names: "lq_name ` set (q # ngx_http_create_locations_list xs) \<subseteq> lq_name ` set (lq # ?L)" using X unfolding L by (auto simp: q_def listed_def)
    have "ngx_http_create_locations_list (lq # ?L) = q # ngx_http_create_locations_list xs"
    proof (cases "below = []")
      case True
      then have "q = lq" using bare by (simp add: q_def)
      then show ?thesis using True Some unfolding ngx_http_create_locations_list.simps(3) Let_def below_def [symmetric] xs_def [symmetric] by simp
    next
      case False
      then show ?thesis using Some asc(3) unfolding ngx_http_create_locations_list.simps(3) Let_def below_def [symmetric] xs_def [symmetric] by (simp add: q_def)
    qed
    moreover have "good (q # ngx_http_create_locations_list xs)"
      unfolding good_def fq using gq aq X "3.prems"(1) by (simp add: listed_def good_def)
    ultimately show ?thesis using fq names by (simp add: listed_def)
  qed
qed

end
