(* ===== verification/Ngx_Routing.thy ===== *)
theory Ngx_Routing
  imports Ngx_Location_Tree
begin

text \<open>
  Routing: what the initialisation of the locations leaves (the static ones by name, the regular expressions in their
  order), the rules by which the configuration is meant, and the proof that the compiled trees answer by them.
\<close>

section \<open>Sorting locations\<close>

text \<open>What the comparison sorts by: the class of the location, then for those with a name the name, the exact one first.\<close>

definition loc_rank :: "'re loc_info \<Rightarrow> int" where
  "loc_rank i = (if l_noname i then 3 else if l_named i then 2 else if l_regex i \<noteq> None then 1 else 0)"

definition sort_rank :: "'re loc_info \<Rightarrow> int list" where
  "sort_rank i =
     (if l_noname i then [3] else if l_named i then 2 # map uint (l_name i) else if l_regex i \<noteq> None then [1]
      else 0 # lk (l_name i) @ [if l_exact_match i then - 3 else - 2])"

text \<open>
  What the configuration gives of a location: a name without null bytes and of less than 256 bytes (the length of a node
  of the tree is one byte), a redirect only where the name ends in a slash (the only names that \<^verbatim>\<open>proxy_pass\<close> and its
  kind set it for), and one kind of location at a time.
\<close>

definition info_ok :: "'re loc_info \<Rightarrow> bool" where
  "info_ok i \<longleftrightarrow> 0 \<notin> set (l_name i) \<and> length (l_name i) < 256 \<and> (l_auto_redirect i \<longrightarrow> l_name i \<noteq> [] \<and> last (l_name i) = ch_slash)
    \<and> (l_regex i \<noteq> None \<longrightarrow> \<not> l_named i \<and> \<not> l_noname i) \<and> (l_named i \<longrightarrow> \<not> l_noname i)"

lemma uint_map_eq: "map uint a = map uint b \<longleftrightarrow> a = (b :: bytes)"
  by (rule inj_map_eq_map) (auto simp: inj_def uint_eq)

lemma strcmp_order:
  "0 \<notin> set a \<Longrightarrow> 0 \<notin> set b \<Longrightarrow>
    \<exists>d. c_strncmp (terminated a) (terminated b) (Suc (length a)) = Some d \<and> (d \<le> 0 \<longleftrightarrow> map uint a \<le> map uint b)"
proof (induction a arbitrary: b)
  case Nil
  show ?case
  proof (cases b)
    case (Cons y b')
    then have "0 < uint y" using Nil uint_pos [of y] by auto
    then show ?thesis using Cons Nil by (auto simp: terminated_def)
  qed (simp add: terminated_def)
next
  case (Cons x a)
  show ?case
  proof (cases b)
    case Nil
    then show ?thesis using Cons.prems uint_pos [of x] by (auto simp: terminated_def)
  next
    case c: (Cons y b')
    have "x \<noteq> 0" "0 \<notin> set a" "0 \<notin> set b'" using Cons.prems c by auto
    with Cons.IH [of b'] show ?thesis using c uint_eq [of x y] by (auto simp: terminated_def Cons_le_Cons)
  qed
qed

lemma filename_order:
  "0 \<notin> set a \<Longrightarrow> 0 \<notin> set b \<Longrightarrow>
    \<exists>d. ngx_filename_cmp (terminated a) (terminated b) (min (length a) (length b) + 1) = Some d
      \<and> (d = 0 \<longleftrightarrow> a = b) \<and> (d < 0 \<longrightarrow> lk a < lk b) \<and> (0 < d \<longrightarrow> lk b < lk a)"
proof (induction a arbitrary: b)
  case Nil
  show ?case
  proof (cases b)
    case (Cons y b')
    then have "0 < uint y" "y \<noteq> 0" using Nil uint_pos [of y] by auto
    then show ?thesis using Cons by (auto simp: terminated_def)
  qed (simp add: terminated_def)
next
  case (Cons x a)
  then have x: "x \<noteq> 0" "0 < uint x" "0 \<notin> set a" using uint_pos [of x] by auto
  show ?case
  proof (cases b)
    case Nil
    then show ?thesis using x by (auto simp: terminated_def)
  next
    case c: (Cons y b')
    then have y: "y \<noteq> 0" "0 \<notin> set b'" using Cons.prems(2) by auto
    show ?thesis
    proof (cases "x = y")
      case True
      from Cons.IH [OF x(3) y(2)] obtain d where
        "ngx_filename_cmp (a @ [0]) (b' @ [0]) (Suc (min (length a) (length b'))) = Some d"
        "d = 0 \<longleftrightarrow> a = b'" "d < 0 \<longrightarrow> lk a < lk b'" "0 < d \<longrightarrow> lk b' < lk a" by (auto simp: terminated_def)
      then show ?thesis using True c x(1) by (auto simp: terminated_def)
    next
      case False
      have "ngx_filename_cmp (terminated (x # a)) (terminated b) (min (length (x # a)) (length b) + 1) = Some (loc_key x - loc_key y)"
        using False x(1) y(1) c by (simp add: terminated_def loc_key_def filename_key_def Let_def)
      moreover have "loc_key x \<noteq> loc_key y" using False by (simp add: loc_key_inj)
      ultimately show ?thesis using c False by (auto simp: Cons_less_Cons)
    qed
  qed
qed

lemma end_marks:
  fixes a b :: "int list"
  shows "\<forall>z \<in> set a. e' < z \<Longrightarrow> \<forall>z \<in> set b. e < z \<Longrightarrow> a @ [e] \<le> b @ [e'] \<longleftrightarrow> a < b \<or> a = b \<and> e \<le> e'"
proof (induction a arbitrary: b)
  case Nil
  then show ?case by (cases b) (auto simp: Cons_le_Cons)
next
  case (Cons x a)
  then show ?case by (cases b) (auto simp: Cons_le_Cons Cons_less_Cons)
qed

lemma lk_low: "z \<in> set (lk a) \<Longrightarrow> - 2 < z"
proof -
  assume "z \<in> set (lk a)"
  then obtain c where "z = loc_key c" by (auto simp: lk_def)
  moreover have "- 1 \<le> uint c" by (rule order_trans [OF _ uint_nonnegative]) simp
  then have "- 1 \<le> loc_key c" unfolding loc_key_def filename_key_def by (cases "c = 0"; cases "c = ch_slash") simp_all
  ultimately show ?thesis by linarith
qed

definition lqi :: "'re lq \<Rightarrow> 're loc_info" where
  "lqi lq = info (lq_conf lq)"

lemma cmp_rank:
  assumes "info_ok (lqi x)" "info_ok (lqi y)"
  shows "ngx_http_cmp_locations x y \<le> 0 \<longleftrightarrow> sort_rank (lqi x) \<le> sort_rank (lqi y)"
proof -
  let ?i = "lqi x" and ?j = "lqi y"
  have n: "0 \<notin> set (l_name ?i)" "0 \<notin> set (l_name ?j)" using assms by (simp_all add: info_ok_def)
  obtain s where s: "c_strncmp (terminated (l_name ?i)) (terminated (l_name ?j)) (Suc (length (l_name ?i))) = Some s"
    "s \<le> 0 \<longleftrightarrow> map uint (l_name ?i) \<le> map uint (l_name ?j)" using strcmp_order [OF n] by blast
  obtain d where d: "ngx_filename_cmp (terminated (l_name ?i)) (terminated (l_name ?j)) (min (length (l_name ?i)) (length (l_name ?j)) + 1) = Some d"
    "d = 0 \<longleftrightarrow> l_name ?i = l_name ?j" "d < 0 \<longrightarrow> lk (l_name ?i) < lk (l_name ?j)" "0 < d \<longrightarrow> lk (l_name ?j) < lk (l_name ?i)"
    using filename_order [OF n] by blast
  have e: "lk (l_name ?i) @ [e] \<le> lk (l_name ?j) @ [e'] \<longleftrightarrow> lk (l_name ?i) < lk (l_name ?j) \<or> l_name ?i = l_name ?j \<and> e \<le> e'"
    if "e \<in> {- 3, - 2}" "e' \<in> {- 3, - 2}" for e e'
  proof -
    have "\<forall>z \<in> set (lk (l_name ?i)). e' < z" "\<forall>z \<in> set (lk (l_name ?j)). e < z" using that lk_low by fastforce+
    from end_marks [OF this] show ?thesis by (simp add: lk_inj)
  qed
  have le: "d \<le> 0 \<longleftrightarrow> lk (l_name ?i) < lk (l_name ?j) \<or> l_name ?i = l_name ?j"
    using d(2,3,4) by (cases d "0 :: int" rule: linorder_cases) auto
  show ?thesis
    unfolding ngx_http_cmp_locations_def Let_def lqi_def [symmetric] s(1) d(1) sort_rank_def
    using s(2) d(2) le e [of "- 3" "- 3"] e [of "- 3" "- 2"] e [of "- 2" "- 3"] e [of "- 2" "- 2"] by auto
qed

lemma rank_hd: "hd (sort_rank i) = loc_rank i" "sort_rank i \<noteq> []"
  by (simp_all add: sort_rank_def loc_rank_def)

lemma rank_mono: "sort_rank i \<le> sort_rank j \<Longrightarrow> loc_rank i \<le> loc_rank j"
  unfolding rank_hd(1) [symmetric] using rank_hd(2) [of i] rank_hd(2) [of j] by (cases "sort_rank i"; cases "sort_rank j") (auto simp: Cons_le_Cons)

text \<open>A list that is sorted by rank is cut at ranks.\<close>

lemma takeWhile_rank:
  fixes f :: "'a \<Rightarrow> int"
  shows "sorted (map f xs) \<Longrightarrow> takeWhile (\<lambda>x. f x < c) xs = filter (\<lambda>x. f x < c) xs"
    "sorted (map f xs) \<Longrightarrow> dropWhile (\<lambda>x. f x < c) xs = filter (\<lambda>x. \<not> f x < c) xs"
proof -
  have "takeWhile (\<lambda>x. f x < c) xs = filter (\<lambda>x. f x < c) xs \<and> dropWhile (\<lambda>x. f x < c) xs = filter (\<lambda>x. \<not> f x < c) xs" if "sorted (map f xs)" for xs
    using that
  proof (induction xs)
    case (Cons a xs)
    show ?case
    proof (cases "f a < c")
      case False
      then have "\<forall>x \<in> set (a # xs). \<not> f x < c" using Cons.prems by auto
      then have "filter (\<lambda>x. f x < c) (a # xs) = []" "filter (\<lambda>x. \<not> f x < c) (a # xs) = a # xs"
        unfolding filter_empty_conv filter_id_conv by blast+
      then show ?thesis using False by simp
    qed (use Cons in simp)
  qed simp
  then show "sorted (map f xs) \<Longrightarrow> takeWhile (\<lambda>x. f x < c) xs = filter (\<lambda>x. f x < c) xs"
    "sorted (map f xs) \<Longrightarrow> dropWhile (\<lambda>x. f x < c) xs = filter (\<lambda>x. \<not> f x < c) xs" by blast+
qed

lemma sorted_rank: "sorted (map (sort_rank \<circ> g) xs) \<Longrightarrow> sorted (map (loc_rank \<circ> g) xs)"
  by (induction xs) (auto intro: rank_mono)

lemma classes:
  assumes "info_ok (lqi x)"
  shows "is_noname x \<longleftrightarrow> \<not> loc_rank (lqi x) < 3" "is_named x \<longleftrightarrow> loc_rank (lqi x) = 2" "is_regex x \<longleftrightarrow> loc_rank (lqi x) = 1"
  using assms by (auto simp: is_noname_def is_named_def is_regex_def loc_rank_def info_ok_def lqi_def [symmetric])

lemma split_sorted:
  assumes "sorted (map (sort_rank \<circ> lqi) xs)" "\<forall>x \<in> set xs. info_ok (lqi x)"
  shows "split_locations xs = (filter (\<lambda>x. loc_rank (lqi x) = 0) xs, filter (\<lambda>x. loc_rank (lqi x) = 1) xs)"
proof -
  let ?r = "loc_rank \<circ> lqi"
  have s: "sorted (map ?r xs)" using sorted_rank [OF assms(1)] .
  have range: "?r x \<in> {0, 1, 2, 3}" for x :: "'a lq" by (auto simp: loc_rank_def)
  define us vs where "us = filter (\<lambda>x. ?r x < 3) xs" and "vs = filter (\<lambda>x. ?r x < 2) xs"
  have "takeWhile (\<lambda>x. \<not> is_noname x) xs = takeWhile (\<lambda>x. ?r x < 3) xs"
    by (rule takeWhile_cong) (use assms(2) classes(1) in auto)
  then have u: "takeWhile (\<lambda>x. \<not> is_noname x) xs = us" using takeWhile_rank(1) [OF s, of 3] by (simp add: us_def)
  have "takeWhile (\<lambda>x. \<not> is_named x) us = takeWhile (\<lambda>x. ?r x < 2) us"
  proof (rule takeWhile_cong)
    fix x assume "x \<in> set us"
    then have "?r x < 3" "info_ok (lqi x)" using assms(2) by (auto simp: us_def)
    then show "(\<not> is_named x) = (?r x < 2)" using range [of x] classes(2) by auto
  qed simp
  also have "\<dots> = filter (\<lambda>x. ?r x < 2) us" by (rule takeWhile_rank(1)) (unfold us_def, rule sorted_filter [OF s])
  also have "\<dots> = vs" by (auto simp: us_def vs_def intro: filter_cong)
  finally have v: "takeWhile (\<lambda>x. \<not> is_named x) us = vs" .
  have sv: "sorted (map ?r vs)" unfolding vs_def by (rule sorted_filter [OF s])
  have r: "(\<not> is_regex x) = (?r x < 1)" if "x \<in> set vs" for x
    using that assms(2) range [of x] classes(3) [of x] by (auto simp: vs_def)
  have "takeWhile (\<lambda>x. \<not> is_regex x) vs = takeWhile (\<lambda>x. ?r x < 1) vs" "dropWhile (\<lambda>x. \<not> is_regex x) vs = dropWhile (\<lambda>x. ?r x < 1) vs"
    by (rule takeWhile_cong dropWhile_cong, simp, simp add: r)+
  then have "takeWhile (\<lambda>x. \<not> is_regex x) vs = filter (\<lambda>x. ?r x < 1) vs" "dropWhile (\<lambda>x. \<not> is_regex x) vs = filter (\<lambda>x. \<not> ?r x < 1) vs"
    using takeWhile_rank [OF sv, of 1] by simp_all
  moreover have "filter (\<lambda>x. ?r x < 1) vs = filter (\<lambda>x. loc_rank (lqi x) = 0) xs" "filter (\<lambda>x. \<not> ?r x < 1) vs = filter (\<lambda>x. loc_rank (lqi x) = 1) xs"
    unfolding vs_def filter_filter by (rule filter_cong [OF refl], use range in force)+
  ultimately show ?thesis unfolding split_locations_def Let_def u v by simp
qed

section \<open>What the initialisation leaves\<close>

fun conf_ok :: "'re loc_conf \<Rightarrow> bool" where
  "conf_ok (Conf i ls st rx) \<longleftrightarrow> info_ok i \<and> st = Null \<and> rx = [] \<and> (\<forall>c \<in> set ls. conf_ok c)"

definition static_conf :: "'re loc_conf \<Rightarrow> bool" where
  "static_conf c \<longleftrightarrow> loc_rank (info c) = 0"

definition regex_conf :: "'re loc_conf \<Rightarrow> bool" where
  "regex_conf c \<longleftrightarrow> loc_rank (info c) = 1"

definition by_name :: "'re loc_conf list \<Rightarrow> 're loc_conf list" where
  "by_name ls = filter static_conf (sort_key (sort_rank \<circ> info) ls)"

lemma lq_conf_add [simp]: "lq_conf (ngx_http_add_location c) = c"
  by (simp add: ngx_http_add_location_def lq_conf_def)

lemma lqi_add [simp]: "lqi (ngx_http_add_location c) = info c"
  by (simp add: lqi_def)

lemma info_init [simp]: "info (ngx_http_init_locations c) = info c"
  by (cases c) (simp add: Let_def split: prod.split)

lemma info_init_fun: "info \<circ> ngx_http_init_locations = info"
  by (rule ext) simp

lemma insort_key_map: "insort_key f (g x) (map g xs) = map g (insort_key (f \<circ> g) x xs)"
  by (induction xs) simp_all

lemma sort_key_map: "sort_key f (map g xs) = map g (sort_key (f \<circ> g) xs)"
  by (induction xs) (simp_all add: insort_key_map comp_def)

lemma regex_rank: "sort_rank i = [1] \<longleftrightarrow> loc_rank i = 1"
  by (auto simp: sort_rank_def loc_rank_def)

lemma init_structure:
  assumes "\<forall>c \<in> set ls. info_ok (info c)"
  shows "ngx_http_init_locations (Conf i ls Null [])
    = Conf i (map ngx_http_init_locations (by_name ls)) Null (map ngx_http_init_locations (filter regex_conf ls))"
proof (cases "ls = []")
  case True
  then show ?thesis by (simp add: by_name_def)
next
  case False
  define g where "g = (\<lambda>c :: 'a loc_conf. ngx_http_add_location (ngx_http_init_locations c))"
  have gi: "sort_rank \<circ> lqi \<circ> g = sort_rank \<circ> info" by (rule ext) (simp add: g_def)
  have "insertion_sort ngx_http_cmp_locations (map g ls) = sort_key (sort_rank \<circ> lqi) (map g ls)"
  proof (rule insertion_sort_stable)
    fix x y assume "x \<in> set (map g ls)" "y \<in> set (map g ls)"
    then have "info_ok (lqi x)" "info_ok (lqi y)" using assms by (auto simp: g_def)
    then show "ngx_http_cmp_locations y x \<le> 0 \<longleftrightarrow> (sort_rank \<circ> lqi) y \<le> (sort_rank \<circ> lqi) x" using cmp_rank by simp
  qed
  also have "\<dots> = map g (sort_key (sort_rank \<circ> info) ls)" unfolding sort_key_map gi ..
  finally have srt: "insertion_sort ngx_http_cmp_locations (map g ls) = map g (sort_key (sort_rank \<circ> info) ls)" .
  have "split_locations (map g (sort_key (sort_rank \<circ> info) ls))
      = (filter (\<lambda>x. loc_rank (lqi x) = 0) (map g (sort_key (sort_rank \<circ> info) ls)), filter (\<lambda>x. loc_rank (lqi x) = 1) (map g (sort_key (sort_rank \<circ> info) ls)))"
  proof (rule split_sorted)
    have "map (sort_rank \<circ> lqi) (map g (sort_key (sort_rank \<circ> info) ls)) = map (sort_rank \<circ> info) (sort_key (sort_rank \<circ> info) ls)"
      unfolding map_map gi ..
    then show "sorted (map (sort_rank \<circ> lqi) (map g (sort_key (sort_rank \<circ> info) ls)))" by (simp only: sorted_sort_key)
  qed (use assms in \<open>auto simp: g_def\<close>)
  moreover have "filter (\<lambda>x. loc_rank (lqi x) = 0) (map g xs) = map g (filter static_conf xs)" "filter (\<lambda>x. loc_rank (lqi x) = 1) (map g xs) = map g (filter regex_conf xs)" for xs
    by (induction xs) (simp_all add: g_def static_conf_def regex_conf_def)
  moreover have "filter regex_conf (sort_key (sort_rank \<circ> info) ls) = filter regex_conf ls"
  proof -
    have e: "regex_conf = (\<lambda>c. (sort_rank \<circ> info) c = [1])" by (rule ext) (simp add: regex_conf_def regex_rank)
    show ?thesis unfolding e by (rule sort_key_stable)
  qed
  ultimately have sp: "split_locations (map g (sort_key (sort_rank \<circ> info) ls)) = (map g (by_name ls), map g (filter regex_conf ls))"
    by (simp add: by_name_def)
  have "lq_conf (g x) = ngx_http_init_locations x" for x by (simp add: g_def)
  moreover have gm: "map ngx_http_add_location (map ngx_http_init_locations ls) = map g ls" by (simp add: g_def)
  ultimately show ?thesis unfolding ngx_http_init_locations.simps if_not_P [OF False] Let_def gm srt sp by simp
qed

section \<open>Joining the exact and the other locations of a name\<close>

definition sorted_lq :: "'c location_queue \<Rightarrow> 'c location_queue \<Rightarrow> bool" where
  "sorted_lq x y \<longleftrightarrow> lk (lq_name x) < lk (lq_name y) \<or> lq_name x = lq_name y \<and> (lq_exact y \<noteq> None \<longrightarrow> lq_exact x \<noteq> None)"

definition lq_ok :: "'c location_queue \<Rightarrow> bool" where
  "lq_ok x \<longleftrightarrow> 0 \<notin> set (lq_name x) \<and> lq_list x = [] \<and> (lq_exact x \<noteq> None \<or> lq_inclusive x \<noteq> None)"

definition exacts :: "'c location_queue list \<Rightarrow> (bytes \<times> 'c) set" where
  "exacts L = {(lq_name x, c) | x c. x \<in> set L \<and> lq_exact x = Some c}"

definition inclusives :: "'c location_queue list \<Rightarrow> (bytes \<times> 'c) set" where
  "inclusives L = {(lq_name x, c) | x c. x \<in> set L \<and> lq_inclusive x = Some c}"

lemma exacts_Cons: "exacts (x # L) = {(lq_name x, c) | c. lq_exact x = Some c} \<union> exacts L"
  "inclusives (x # L) = {(lq_name x, c) | c. lq_inclusive x = Some c} \<union> inclusives L"
  by (auto simp: exacts_def inclusives_def)

definition joined :: "'c location_queue list \<Rightarrow> 'c location_queue list \<Rightarrow> bool" where
  "joined J L \<longleftrightarrow> ascending L \<and> (\<forall>x \<in> set L. lq_ok x) \<and> exacts L = exacts J \<and> inclusives L = inclusives J
    \<and> lq_name ` set L = lq_name ` set J"

text \<open>Two locations of one kind and name.\<close>

definition twice :: "'c location_queue list \<Rightarrow> bool" where
  "twice J \<longleftrightarrow> \<not> sorted_wrt (\<lambda>x y. lq_name x = lq_name y \<longrightarrow> \<not> (lq_exact x \<noteq> None \<and> lq_exact y \<noteq> None) \<and> \<not> (lq_inclusive x \<noteq> None \<and> lq_inclusive y \<noteq> None)) J"

lemma join_same: "0 \<notin> set (lq_name lx) \<Longrightarrow>
    length (lq_name lq) = length (lq_name lx) \<and> ngx_filename_cmp (lq_name lq) (lq_name lx) (length (lq_name lx)) = Some 0 \<longleftrightarrow> lq_name lq = lq_name lx"
  using filename_cmp_eq [of "lq_name lx" "lq_name lq"] by (auto simp: prefix_def)

lemma join_ok:
  "sorted_wrt sorted_lq J \<Longrightarrow> \<forall>x \<in> set J. lq_ok x \<Longrightarrow> \<forall>x \<in> set (tl J). lq_exact x = None \<or> lq_inclusive x = None \<Longrightarrow>
    (case ngx_http_join_exact_locations J of None \<Rightarrow> twice J | Some L \<Rightarrow> \<not> twice J \<and> joined J L)"
proof (induction J rule: ngx_http_join_exact_locations.induct)
  case (1 lq lx rest)
  have lx: "0 \<notin> set (lq_name lx)" "lq_exact lx = None \<or> lq_inclusive lx = None" "lq_exact lx \<noteq> None \<or> lq_inclusive lx \<noteq> None" using "1.prems" by (auto simp: lq_ok_def)
  have s: "sorted_lq lq lx" using "1.prems"(1) by simp
  show ?case
  proof (cases "lq_name lq = lq_name lx")
    case False
    then have c: "\<not> (length (lq_name lq) = length (lq_name lx) \<and> ngx_filename_cmp (lq_name lq) (lq_name lx) (length (lq_name lx)) = Some 0)"
      using join_same [OF lx(1)] by blast
    have lt: "lk (lq_name lq) < lk (lq_name lx)" using s False by (auto simp: sorted_lq_def)
    have lts: "lk (lq_name lq) < lk (lq_name y)" if "y \<in> set (lx # rest)" for y
    proof (cases "y = lx")
      case False
      then have "sorted_lq lx y" using that "1.prems"(1) by auto
      then show ?thesis using lt by (auto simp: sorted_lq_def)
    qed (use lt in simp)
    then have ne: "\<forall>y \<in> set (lx # rest). lq_name lq \<noteq> lq_name y" by fastforce
    then have tw: "twice (lq # lx # rest) \<longleftrightarrow> twice (lx # rest)" unfolding twice_def by simp
    have IH: "case ngx_http_join_exact_locations (lx # rest) of None \<Rightarrow> twice (lx # rest) | Some L \<Rightarrow> \<not> twice (lx # rest) \<and> joined (lx # rest) L"
      by (rule "1.IH"(2) [OF c]) (use "1.prems" in auto)
    show ?thesis
    proof (cases "ngx_http_join_exact_locations (lx # rest)")
      case None
      then show ?thesis using IH tw unfolding ngx_http_join_exact_locations.simps(1) if_not_P [OF c] by simp
    next
      case (Some L)
      then have j: "joined (lx # rest) L" "\<not> twice (lx # rest)" using IH by simp_all
      have "ascending (lq # L)" unfolding ascending_Cons
      proof
        show "\<forall>y \<in> set L. lk (lq_name lq) < lk (lq_name y)"
        proof
          fix y assume "y \<in> set L"
          then have "lq_name y \<in> lq_name ` set (lx # rest)" using j(1) unfolding joined_def by blast
          then show "lk (lq_name lq) < lk (lq_name y)" using lts by auto
        qed
      qed (use j(1) in \<open>simp add: joined_def\<close>)
      then have "joined (lq # lx # rest) (lq # L)" using j(1) "1.prems"(2) by (simp add: joined_def exacts_Cons [of lq])
      then show ?thesis using Some tw j(2) unfolding ngx_http_join_exact_locations.simps(1) if_not_P [OF c] by simp
    qed
  next
    case True
    then have c: "length (lq_name lq) = length (lq_name lx) \<and> ngx_filename_cmp (lq_name lq) (lq_name lx) (length (lq_name lx)) = Some 0"
      using join_same [OF lx(1)] by blast
    let ?both = "lq_exact lq \<noteq> None \<and> lq_exact lx \<noteq> None \<or> lq_inclusive lq \<noteq> None \<and> lq_inclusive lx \<noteq> None"
    show ?thesis
    proof (cases ?both)
      case both: True
      then have "twice (lq # lx # rest)" unfolding twice_def using True by auto
      moreover have "ngx_http_join_exact_locations (lq # lx # rest) = None" unfolding ngx_http_join_exact_locations.simps(1) if_P [OF c] if_P [OF both] ..
      ultimately show ?thesis by simp
    next
      case False
      have "lq_exact lq \<noteq> None \<or> lq_inclusive lq \<noteq> None" using "1.prems"(2) by (simp add: lq_ok_def)
      with False s True lx(3) have k: "lq_inclusive lq = None" "lq_exact lq \<noteq> None" "lq_exact lx = None" "lq_inclusive lx \<noteq> None"
        by (auto simp: sorted_lq_def)
      define q where "q = LQ (lq_exact lq) (lq_inclusive lx) (lq_name lq) (lq_list lq)"
      have IH: "case ngx_http_join_exact_locations (q # rest) of None \<Rightarrow> twice (q # rest) | Some L \<Rightarrow> \<not> twice (q # rest) \<and> joined (q # rest) L"
        unfolding q_def by (rule "1.IH"(1) [OF c False]) (use "1.prems" True k in \<open>auto simp: sorted_lq_def lq_ok_def\<close>)
      have tw: "twice (lq # lx # rest) \<longleftrightarrow> twice (q # rest)" unfolding twice_def using k True by (auto simp: q_def)
      have "ngx_http_join_exact_locations (lq # lx # rest) = ngx_http_join_exact_locations (q # rest)"
        unfolding ngx_http_join_exact_locations.simps(1) if_P [OF c] if_not_P [OF False] q_def ..
      moreover have "exacts (lq # lx # rest) = exacts (q # rest)" "inclusives (lq # lx # rest) = inclusives (q # rest)"
        "lq_name ` set (lq # lx # rest) = lq_name ` set (q # rest)" using k True by (auto simp: exacts_Cons q_def)
      then have "joined (lq # lx # rest) L = joined (q # rest) L" for L by (simp add: joined_def)
      ultimately show ?thesis using IH tw by (simp split: option.splits)
    qed
  qed
qed (simp_all add: twice_def joined_def ascending_def)

section \<open>The rules of routing\<close>

text \<open>
  The locations of a server, or of a location, as the configuration lists them. \<open>named_conf\<close> is the exact one, or
  the other one, of a name. An exact location is taken, else the one of the same name, else a redirect to the name
  with a slash, else the one with the longest name that the URI goes on from.
\<close>

definition named_conf :: "('c \<Rightarrow> 're loc_info) \<Rightarrow> bool \<Rightarrow> 'c list \<Rightarrow> bytes \<Rightarrow> 'c option" where
  "named_conf nfo ex cs n = find (\<lambda>c. l_exact_match (nfo c) = ex \<and> l_name (nfo c) = n) cs"

definition static_route :: "('c \<Rightarrow> 're loc_info) \<Rightarrow> (bytes \<Rightarrow> 'c option) \<Rightarrow> (bytes \<Rightarrow> 'c option) \<Rightarrow> bytes \<Rightarrow> (int \<times> 'c) option" where
  "static_route nfo ex inc uri =
     (let redirect = (\<lambda>c. case c of None \<Rightarrow> False | Some c \<Rightarrow> l_auto_redirect (nfo c)); dir = uri @ [ch_slash] in
      case ex uri of
        Some c \<Rightarrow> Some (NGX_OK, c)
      | None \<Rightarrow>
          (case inc uri of
             Some c \<Rightarrow> Some (NGX_AGAIN, c)
           | None \<Rightarrow>
               if redirect (ex dir) \<or> redirect (inc dir)
               then map_option (Pair NGX_DONE) (case ex dir of Some c \<Rightarrow> Some c | None \<Rightarrow> inc dir)
               else
                 (case find (\<lambda>k. inc (take k uri) \<noteq> None) (rev [0 ..< length uri]) of
                    Some k \<Rightarrow> map_option (Pair NGX_AGAIN) (inc (take k uri))
                  | None \<Rightarrow> None)))"

lemma static_route_map:
  assumes "\<And>c. nfo (f c) = nfo' c"
  shows "static_route nfo (\<lambda>n. map_option f (ex n)) (\<lambda>n. map_option f (inc n)) uri = map_option (apsnd f) (static_route nfo' ex inc uri)"
proof -
  have r: "(case map_option f x of None \<Rightarrow> False | Some c \<Rightarrow> l_auto_redirect (nfo c)) = (case x of None \<Rightarrow> False | Some c \<Rightarrow> l_auto_redirect (nfo' c))" for x
    using assms by (cases x) simp_all
  have "(\<lambda>k. map_option f (inc (take k uri)) \<noteq> None) = (\<lambda>k. inc (take k uri) \<noteq> None)" by auto
  then show ?thesis unfolding static_route_def Let_def r
    by (auto split: option.splits simp: option.map_comp comp_def)
qed

section \<open>The list of the tree answers by the rules\<close>

definition lq_lookup :: "('c location_queue \<Rightarrow> 'c option) \<Rightarrow> 'c location_queue list \<Rightarrow> bytes \<Rightarrow> 'c option" where
  "lq_lookup sel L n = (case find (\<lambda>x. lq_name x = n) L of None \<Rightarrow> None | Some x \<Rightarrow> sel x)"

lemma ascending_unique: "ascending L \<Longrightarrow> x \<in> set L \<Longrightarrow> y \<in> set L \<Longrightarrow> lq_name x = lq_name y \<Longrightarrow> x = y"
  by (induction L) (auto simp: ascending_Cons)

lemma find_unique:
  assumes "\<And>x y. x \<in> set xs \<Longrightarrow> y \<in> set xs \<Longrightarrow> P x \<Longrightarrow> P y \<Longrightarrow> x = y"
  shows "find P xs = Some c \<longleftrightarrow> c \<in> set xs \<and> P c"
proof
  assume "find P xs = Some c"
  then show "c \<in> set xs \<and> P c" by (induction xs) (auto split: if_splits)
next
  assume c: "c \<in> set xs \<and> P c"
  then obtain d where "find P xs = Some d" by (cases "find P xs") (auto simp: find_None_iff)
  moreover from this have "d \<in> set xs \<and> P d" by (induction xs) (auto split: if_splits)
  ultimately show "find P xs = Some c" using assms c by blast
qed

lemma lookup_iff:
  assumes "ascending L"
  shows "lq_lookup sel L n = Some c \<longleftrightarrow> (\<exists>x \<in> set L. lq_name x = n \<and> sel x = Some c)"
proof -
  have "find (\<lambda>x. lq_name x = n) L = Some x \<longleftrightarrow> x \<in> set L \<and> lq_name x = n" for x
    by (rule find_unique) (use ascending_unique [OF assms] in auto)
  note f = this
  show ?thesis
  proof (cases "find (\<lambda>x. lq_name x = n) L")
    case None
    then have "\<forall>x \<in> set L. lq_name x \<noteq> n" by (auto simp: find_None_iff)
    then show ?thesis using None by (auto simp: lq_lookup_def)
  next
    case (Some x)
    then have "x \<in> set L" "lq_name x = n" using f by auto
    then show ?thesis using Some ascending_unique [OF assms] unfolding lq_lookup_def by auto
  qed
qed

lemma find_rev_last:
  assumes "ascending L" "x \<in> set L" "P x" "\<And>y. y \<in> set L \<Longrightarrow> P y \<Longrightarrow> lk (lq_name y) \<le> lk (lq_name x)"
  shows "find P (rev L) = Some x"
  using assms
proof (induction L rule: rev_induct)
  case (snoc z L)
  have z: "\<forall>y \<in> set L. lk (lq_name y) < lk (lq_name z)" "ascending L" using snoc.prems(1) by (auto simp: ascending_def sorted_wrt_append)
  show ?case
  proof (cases "x = z")
    case False
    then have "x \<in> set L" using snoc.prems(2) by simp
    then have "\<not> P z" using snoc.prems(4) [of z] z(1) by force
    then show ?thesis using snoc \<open>x \<in> set L\<close> z(2) by simp
  qed (use snoc.prems(3) in simp)
qed simp

lemma find_greatest:
  assumes "find P (rev [0 ..< n]) = Some k"
  shows "k < n" "P k" "\<And>j. j < n \<Longrightarrow> P j \<Longrightarrow> j \<le> k"
proof -
  have "k < n \<and> P k \<and> (\<forall>j < n. P j \<longrightarrow> j \<le> k)" using assms
  proof (induction n)
    case (Suc n)
    then show ?case by (auto simp: less_Suc_eq split: if_splits)
  qed simp
  then show "k < n" "P k" "\<And>j. j < n \<Longrightarrow> P j \<Longrightarrow> j \<le> k" by auto
qed

lemma strict_prefix_take: "strict_prefix a b \<longleftrightarrow> length a < length b \<and> a = take (length a) b"
  by (metis append_take_drop_id not_less prefixI prefix_length_less prefix_order.less_le_not_le strict_prefix_def take_all take_is_prefix
      append_eq_conv_conj prefixE order_refl)

lemma search_route:
  assumes "ascending L" "\<forall>x \<in> set L. lq_ok x"
  shows "loc_search rv loc uri L = (case static_route info (lq_lookup lq_exact L) (lq_lookup lq_inclusive L) uri of Some r \<Rightarrow> r | None \<Rightarrow> (rv, loc))"
proof -
  let ?ex = "lq_lookup lq_exact L" and ?inc = "lq_lookup lq_inclusive L"
  define at where "at n = find (\<lambda>x. lq_name x = n) L" for n
  have at: "at n = Some x \<longleftrightarrow> x \<in> set L \<and> lq_name x = n" for n x
    unfolding at_def by (rule find_unique) (use ascending_unique [OF assms(1)] in auto)
  have ok: "lq_exact x \<noteq> None \<or> lq_inclusive x \<noteq> None" if "x \<in> set L" for x using assms(2) that by (simp add: lq_ok_def)
  have lk: "lq_lookup sel L n = (case at n of None \<Rightarrow> None | Some x \<Rightarrow> sel x)" for sel n by (simp add: lq_lookup_def at_def)
  let ?dir = "uri @ [ch_slash]"
  have red: "find (\<lambda>x. lq_redirect x \<and> lq_name x = ?dir) L = (case at ?dir of None \<Rightarrow> None | Some x \<Rightarrow> if lq_redirect x then Some x else None)"
  proof (cases "at ?dir")
    case None
    then have "\<forall>x \<in> set L. \<not> (lq_redirect x \<and> lq_name x = ?dir)" using at by (metis option.distinct(1))
    then show ?thesis using None by (simp add: find_None_iff)
  next
    case (Some x)
    have u: "find (\<lambda>x. lq_redirect x \<and> lq_name x = ?dir) L = Some y \<longleftrightarrow> y \<in> set L \<and> lq_redirect y \<and> lq_name y = ?dir" for y
      by (rule find_unique) (use ascending_unique [OF assms(1)] in auto)
    have x: "x \<in> set L" "lq_name x = ?dir" using Some at by auto
    show ?thesis
    proof (cases "lq_redirect x")
      case True
      then show ?thesis using Some u x by simp
    next
      case False
      then have "\<forall>y \<in> set L. \<not> (lq_redirect y \<and> lq_name y = ?dir)" using x ascending_unique [OF assms(1)] by metis
      then show ?thesis using Some False by (simp add: find_None_iff)
    qed
  qed
  have inc: "find (\<lambda>x. lq_inclusive x \<noteq> None \<and> strict_prefix (lq_name x) uri) (rev L)
    = (case find (\<lambda>k. ?inc (take k uri) \<noteq> None) (rev [0 ..< length uri]) of Some k \<Rightarrow> at (take k uri) | None \<Rightarrow> None)"
  proof (cases "find (\<lambda>k. ?inc (take k uri) \<noteq> None) (rev [0 ..< length uri])")
    case None
    then have n: "?inc (take k uri) = None" if "k < length uri" for k using that by (auto simp: find_None_iff)
    have "\<not> (lq_inclusive x \<noteq> None \<and> strict_prefix (lq_name x) uri)" if "x \<in> set L" for x
    proof
      assume a: "lq_inclusive x \<noteq> None \<and> strict_prefix (lq_name x) uri"
      then have "at (take (length (lq_name x)) uri) = Some x" using at that strict_prefix_take by metis
      then show False using n [of "length (lq_name x)"] a lk prefix_length_less by auto
    qed
    then have "find (\<lambda>x. lq_inclusive x \<noteq> None \<and> strict_prefix (lq_name x) uri) (rev L) = None" unfolding find_None_iff by simp
    then show ?thesis unfolding None by simp
  next
    case (Some k)
    note g = find_greatest [OF Some]
    obtain x where x: "at (take k uri) = Some x" "lq_inclusive x \<noteq> None" using g(2) lk by (auto split: option.splits)
    then have xn: "x \<in> set L" "lq_name x = take k uri" using at by auto
    then have xs: "strict_prefix (lq_name x) uri" using g(1) by (simp add: strict_prefix_take)
    have "find (\<lambda>x. lq_inclusive x \<noteq> None \<and> strict_prefix (lq_name x) uri) (rev L) = Some x"
    proof (rule find_rev_last [OF assms(1) xn(1)])
      show "lq_inclusive x \<noteq> None \<and> strict_prefix (lq_name x) uri" using x(2) xs by simp
      fix y assume y: "y \<in> set L" "lq_inclusive y \<noteq> None \<and> strict_prefix (lq_name y) uri"
      let ?j = "length (lq_name y)"
      have yt: "?j < length uri" "lq_name y = take ?j uri" using y(2) by (simp_all add: strict_prefix_take)
      then have "at (take ?j uri) = Some y" using at y(1) by metis
      then have "?j \<le> k" using g(3) [OF yt(1)] y(2) lk by simp
      then have "prefix (lq_name y) (lq_name x)" using yt(2) xn(2) by (metis take_is_prefix take_take min.absorb1)
      then show "lk (lq_name y) \<le> lk (lq_name x)" by (simp add: prefix_le lk_prefix)
    qed
    then show ?thesis using Some x(1) by simp
  qed
  show ?thesis
  proof (cases "at uri")
    case (Some x)
    then have "lq_exact x \<noteq> None \<or> lq_inclusive x \<noteq> None" using at ok by simp
    then show ?thesis unfolding loc_search_def static_route_def lk using Some by (auto simp: at_def split: option.splits)
  next
    case None
    then have e: "?ex uri = None" "?inc uri = None" "find (\<lambda>x. lq_name x = uri) L = None" by (simp_all add: lk at_def [symmetric])
    show ?thesis
    proof (cases "\<exists>x. at ?dir = Some x \<and> lq_redirect x")
      case True
      then obtain x where x: "at ?dir = Some x" "lq_redirect x" by blast
      then have o: "lq_exact x \<noteq> None \<or> lq_inclusive x \<noteq> None" using at ok by simp
      have "static_route info ?ex ?inc uri = Some (NGX_DONE, lq_conf x)"
        unfolding static_route_def Let_def e option.case(1) lk [of _ ?dir] x(1) option.case(2)
        using x(2) o by (cases "lq_exact x"; cases "lq_inclusive x") (auto simp: lq_redirect_def redirects_def lq_conf_def)
      moreover have "loc_search rv loc uri L = (NGX_DONE, lq_conf x)" unfolding loc_search_def e red using x by simp
      ultimately show ?thesis by simp
    next
      case False
      then have nr: "(case at ?dir of None \<Rightarrow> None | Some x \<Rightarrow> if lq_redirect x then Some x else None) = None" by (auto split: option.splits)
      have nr': "\<not> ((case ?ex ?dir of None \<Rightarrow> False | Some c \<Rightarrow> l_auto_redirect (info c)) \<or> (case ?inc ?dir of None \<Rightarrow> False | Some c \<Rightarrow> l_auto_redirect (info c)))"
        using False unfolding lk by (auto simp: lq_redirect_def redirects_def split: option.splits)
      show ?thesis
      proof (cases "find (\<lambda>k. ?inc (take k uri) \<noteq> None) (rev [0 ..< length uri])")
        case None
        then show ?thesis unfolding loc_search_def static_route_def Let_def e red nr inc if_not_P [OF nr'] by simp
      next
        case (Some k)
        have "?inc (take k uri) \<noteq> None" using find_greatest(2) [OF Some] by simp
        then obtain x where "at (take k uri) = Some x" "lq_inclusive x \<noteq> None" unfolding lk by (auto split: option.splits)
        then show ?thesis unfolding loc_search_def static_route_def Let_def e red nr inc if_not_P [OF nr'] Some
          by (auto simp: lk [of _ "take k uri"])
      qed
    qed
  qed
qed

section \<open>Routing\<close>

lemma in_locations: "c \<in> set (locations d) \<Longrightarrow> size c < size d"
  using size_list_mem [of c "locations d" size] by (cases d) simp

text \<open>
  The reference, which goes by the configuration as it is written. \<open>route_static\<close> is the first part, the search among
  the static locations and below the one that is found; \<open>route_end\<close> tries the regular expressions in their order.
  Below a regular expression the static locations are not searched: \<open>trees\<close> is false.
\<close>

definition route_static :: "bool \<Rightarrow> bytes \<Rightarrow> 're loc_conf \<Rightarrow> ('re loc_conf \<Rightarrow> int \<times> 're loc_info) \<Rightarrow> int \<times> 're loc_info \<times> bool" where
  "route_static trees uri c below =
     (let statics = filter static_conf (locations c) in
      case (if trees then static_route info (named_conf info True statics) (named_conf info False statics) uri else None) of
        None \<Rightarrow> (NGX_DECLINED, info c, False)
      | Some (rc, d) \<Rightarrow>
          if rc = NGX_AGAIN \<and> d \<in> set (locations c) then (fst (below d), snd (below d), l_noregex (info d))
          else (rc, info d, False))"

definition route_end :: "('re \<Rightarrow> bytes \<Rightarrow> int) \<Rightarrow> bytes \<Rightarrow> 're loc_conf \<Rightarrow> int \<times> 're loc_info \<times> bool \<Rightarrow> ('re loc_conf \<Rightarrow> int \<times> 're loc_info) \<Rightarrow> int \<times> 're loc_info" where
  "route_end exec uri c st below =
     (case st of (rc, loc, noregex) \<Rightarrow>
        if rc = NGX_OK \<or> rc = NGX_DONE \<or> noregex then (rc, loc)
        else
          (case dropWhile (\<lambda>d. exec (the (l_regex (info d))) uri = NGX_DECLINED) (filter regex_conf (locations c)) of
             [] \<Rightarrow> (rc, loc)
           | d # _ \<Rightarrow>
               if exec (the (l_regex (info d))) uri = NGX_OK
               then (if fst (below d) = NGX_ERROR then NGX_ERROR else NGX_OK, snd (below d))
               else (NGX_ERROR, loc)))"

lemma in_dropWhile: "dropWhile P xs = d # ds \<Longrightarrow> d \<in> set xs"
  by (metis list.set_intros(1) set_dropWhileD)

lemma route_static_cong [fundef_cong]:
  "c = c' \<Longrightarrow> trees = trees' \<Longrightarrow> uri = uri' \<Longrightarrow> (\<And>d. d \<in> set (locations c') \<Longrightarrow> f d = f' d) \<Longrightarrow>
    route_static trees uri c f = route_static trees' uri' c' f'"
  unfolding route_static_def Let_def by (auto split: option.split)

lemma route_end_cong [fundef_cong]:
  "exec = exec' \<Longrightarrow> uri = uri' \<Longrightarrow> c = c' \<Longrightarrow> st = st' \<Longrightarrow> (\<And>d. d \<in> set (locations c') \<Longrightarrow> f d = f' d) \<Longrightarrow>
    route_end exec uri c st f = route_end exec' uri' c' st' f'"
proof -
  assume a: "exec = exec'" "uri = uri'" "c = c'" "st = st'" "\<And>d. d \<in> set (locations c') \<Longrightarrow> f d = f' d"
  show ?thesis
  proof (cases "dropWhile (\<lambda>d. exec' (the (l_regex (info d))) uri' = NGX_DECLINED) (filter regex_conf (locations c'))")
    case Nil
    show ?thesis unfolding a(1-4) route_end_def Nil by (auto split: prod.split)
  next
    case (Cons d ds)
    then have "f d = f' d" using a(5) [of d] in_dropWhile [OF Cons] by simp
    then show ?thesis unfolding a(1-4) route_end_def Cons by (auto split: prod.split)
  qed
qed

function route :: "('re \<Rightarrow> bytes \<Rightarrow> int) \<Rightarrow> bytes \<Rightarrow> bool \<Rightarrow> 're loc_conf \<Rightarrow> int \<times> 're loc_info" where
  "route exec uri trees c = route_end exec uri c (route_static trees uri c (\<lambda>d. route exec uri True d)) (\<lambda>d. route exec uri False d)"
  by pat_completeness auto
termination by (relation "measure (\<lambda>(exec, uri, trees, c). size c)") (auto intro: in_locations)

fun no_duplicates :: "'re loc_conf \<Rightarrow> bool" where
  "no_duplicates (Conf i ls st rx) \<longleftrightarrow>
     distinct (map (\<lambda>c. (l_name (info c), l_exact_match (info c))) (filter static_conf ls)) \<and> (\<forall>c \<in> set ls. static_conf c \<longrightarrow> no_duplicates c)"

declare route.simps [simp del] ngx_http_core_find_location.simps [simp del] ngx_http_init_locations.simps [simp del] ngx_http_init_static_location_trees.simps [simp del]

definition routes :: "('re \<Rightarrow> bytes \<Rightarrow> int) \<Rightarrow> bytes \<Rightarrow> bool \<Rightarrow> 're loc_conf \<Rightarrow> 're loc_conf \<Rightarrow> bool" where
  "routes exec uri trees c c' \<longleftrightarrow> info c' = info c \<and>
     (\<exists>rc d. ngx_http_core_find_location exec uri c' = Some (rc, d) \<and> route exec uri trees c = (rc, info d))"

text \<open>The part behind the static search, when it went right.\<close>

lemma dropWhile_map_info:
  assumes "\<And>d. info (f d) = info d"
  shows "dropWhile (\<lambda>d. exec (the (l_regex (info d))) uri = NGX_DECLINED) (map f xs) = map f (dropWhile (\<lambda>d. exec (the (l_regex (info d))) uri = NGX_DECLINED) xs)"
  by (induction xs) (simp_all add: assms)

lemma find_end:
  fixes c' :: "'re loc_conf"
  assumes st: "ngx_http_core_find_static_location NGX_DECLINED c' uri (static_locations c') \<bind>
      (\<lambda>(rc, loc). if rc = NGX_AGAIN then do { (rc, loc') \<leftarrow> ngx_http_core_find_location exec uri loc; Some (rc, loc', l_noregex (info loc)) }
        else Some (rc, loc, False)) = Some (rc, loc, nr)"
    and route: "route_static trees uri c (\<lambda>d. route exec uri True d) = (rc, info loc, nr)"
    and rx: "regex_locations c' = map ngx_http_init_locations (filter regex_conf (locations c))"
    and IH: "\<And>d. d \<in> set (locations c) \<Longrightarrow> routes exec uri False d (ngx_http_init_locations d)"
    and i: "info c' = info c"
  shows "routes exec uri trees c c'"
proof -
  let ?P = "\<lambda>d. exec (the (l_regex (info d))) uri = NGX_DECLINED"
  have f: "ngx_http_core_find_location exec uri c' =
      (if rc = NGX_OK \<or> rc = NGX_DONE then Some (rc, loc)
       else if nr then Some (rc, loc)
       else
         (case dropWhile ?P (regex_locations c') of
            [] \<Rightarrow> Some (rc, loc)
          | clcf # _ \<Rightarrow>
              if exec (the (l_regex (info clcf))) uri = NGX_OK then
                do { (rc, loc) \<leftarrow> ngx_http_core_find_location exec uri clcf; Some (if rc = NGX_ERROR then rc else NGX_OK, loc) }
              else Some (NGX_ERROR, loc)))"
  proof -
    have e: "(x \<bind> (\<lambda>(rc, loc). g rc loc \<bind> k)) = (x \<bind> (\<lambda>(rc, loc). g rc loc)) \<bind> k" for x :: "(int \<times> 're loc_conf) option" and g and k :: "int \<times> 're loc_conf \<times> bool \<Rightarrow> (int \<times> 're loc_conf) option"
      by (cases x) auto
    show ?thesis unfolding ngx_http_core_find_location.simps [of exec uri c'] e st by simp
  qed
  have r: "route exec uri trees c = route_end exec uri c (rc, info loc, nr) (\<lambda>d. route exec uri False d)"
    by (subst route.simps) (simp only: route)
  show ?thesis
  proof (cases "dropWhile ?P (filter regex_conf (locations c))")
    case Nil
    show ?thesis unfolding routes_def f r rx dropWhile_map_info [OF info_init] route_end_def Nil using i by auto
  next
    case (Cons d ds)
    then have "d \<in> set (locations c)" using in_dropWhile [OF Cons] by simp
    from IH [OF this] obtain rc' d' where d': "ngx_http_core_find_location exec uri (ngx_http_init_locations d) = Some (rc', d')"
      "route exec uri False d = (rc', info d')" by (auto simp: routes_def)
    show ?thesis unfolding routes_def f r rx dropWhile_map_info [OF info_init] route_end_def Cons using i d' by auto
  qed
qed


section \<open>The configuration is routed by the rules\<close>

definition built :: "'re loc_conf \<Rightarrow> 're loc_conf" where
  "built c = (case ngx_http_init_static_location_trees (ngx_http_init_locations c) of Some c' \<Rightarrow> c' | None \<Rightarrow> c)"

lemma info_trees: "ngx_http_init_static_location_trees c = Some c' \<Longrightarrow> info c' = info c"
  by (cases c) (auto simp: ngx_http_init_static_location_trees.simps ngx_http_init_static_location_trees_step_def bind_eq_Some_conv split: if_splits)

lemma info_built [simp]: "info (built c) = info c"
  using info_trees [of "ngx_http_init_locations c"] by (auto simp: built_def split: option.split)

lemma conf_ok_parts:
  assumes "conf_ok c"
  shows "c = Conf (info c) (locations c) Null []" "info_ok (info c)" "\<And>d. d \<in> set (locations c) \<Longrightarrow> conf_ok d"
    "\<forall>d \<in> set (locations c). info_ok (info d)"
proof -
  have i: "conf_ok d \<Longrightarrow> info_ok (info d)" for d :: "'a loc_conf" by (cases d) simp
  show "c = Conf (info c) (locations c) Null []" "info_ok (info c)" "\<And>d. d \<in> set (locations c) \<Longrightarrow> conf_ok d"
    "\<forall>d \<in> set (locations c). info_ok (info d)" using assms i by (cases c; auto)+
qed

lemma static_part_none: "route_static trees uri c f = (NGX_DECLINED, info c, False)"
  if "\<not> trees \<or> filter static_conf (locations c) = []"
  using that by (auto simp: route_static_def static_route_def named_conf_def split: option.split)

lemma routes_without_trees:
  assumes "conf_ok c" "\<And>d. d \<in> set (locations c) \<Longrightarrow> routes exec uri False d (ngx_http_init_locations d)"
    and "\<not> trees \<or> filter static_conf (locations c) = []"
  shows "routes exec uri trees c (ngx_http_init_locations c)"
proof -
  note p = conf_ok_parts [OF assms(1)]
  have i: "ngx_http_init_locations c = Conf (info c) (map ngx_http_init_locations (by_name (locations c))) Null (map ngx_http_init_locations (filter regex_conf (locations c)))"
    using init_structure [OF p(4), of "info c"] p(1) by simp
  show ?thesis
    by (rule find_end [where rc = NGX_DECLINED and loc = "ngx_http_init_locations c" and nr = False])
      (use i assms static_part_none [OF assms(3)] in \<open>simp_all add: NGX_DECLINED_def NGX_AGAIN_def\<close>)
qed

lemma by_name_set: "set (by_name ls) = set (filter static_conf ls)"
  by (simp add: by_name_def)

lemma by_name_sorted: "sorted (map (sort_rank \<circ> info) (by_name ls))"
  unfolding by_name_def by (rule sorted_filter) simp

lemma static_rank:
  fixes c d :: "'re loc_conf"
  assumes "static_conf c" "static_conf d" "sort_rank (info c) \<le> sort_rank (info d)"
  shows "lk (l_name (info c)) < lk (l_name (info d)) \<or> l_name (info c) = l_name (info d) \<and> (l_exact_match (info d) \<longrightarrow> l_exact_match (info c))"
proof -
  have s: "sort_rank (info x) = 0 # lk (l_name (info x)) @ [if l_exact_match (info x) then - 3 else - 2]" if "static_conf x" for x :: "'re loc_conf"
    using that by (auto simp: static_conf_def loc_rank_def sort_rank_def split: if_splits)
  let ?e = "if l_exact_match (info c) then - 3 else - 2 :: int" and ?e' = "if l_exact_match (info d) then - 3 else - 2 :: int"
  have "lk (l_name (info c)) @ [?e] \<le> lk (l_name (info d)) @ [?e']" using assms(3) unfolding s [OF assms(1)] s [OF assms(2)] by (simp add: Cons_le_Cons)
  moreover have "\<forall>z \<in> set (lk (l_name (info c))). ?e' < z" "\<forall>z \<in> set (lk (l_name (info d))). ?e < z" using lk_low by fastforce+
  ultimately have "lk (l_name (info c)) < lk (l_name (info d)) \<or> lk (l_name (info c)) = lk (l_name (info d)) \<and> ?e \<le> ?e'" using end_marks by blast
  then show ?thesis by (auto simp: lk_inj split: if_splits)
qed

lemma add_static:
  assumes "static_conf c"
  shows "ngx_http_add_location c = LQ (if l_exact_match (info c) then Some c else None) (if l_exact_match (info c) then None else Some c) (l_name (info c)) []"
  using assms by (auto simp: ngx_http_add_location_def static_conf_def loc_rank_def split: if_splits)


text \<open>The queue that is joined: the static locations by name.\<close>

lemma sorted_added:
  "sorted (map (sort_rank \<circ> info) xs) \<Longrightarrow> \<forall>c \<in> set xs. static_conf c \<Longrightarrow> sorted_wrt sorted_lq (map ngx_http_add_location xs)"
proof (induction xs)
  case (Cons c xs)
  have "sorted_lq (ngx_http_add_location c) (ngx_http_add_location d)" if "d \<in> set xs" for d
  proof -
    have s: "static_conf c" "static_conf d" "sort_rank (info c) \<le> sort_rank (info d)" using Cons.prems that by auto
    show ?thesis using static_rank [OF s] by (auto simp: sorted_lq_def add_static [OF s(1)] add_static [OF s(2)])
  qed
  then show ?case using Cons by simp
qed simp

lemma added_ok: "static_conf c \<Longrightarrow> info_ok (info c) \<Longrightarrow> lq_ok (ngx_http_add_location c)"
  by (auto simp: lq_ok_def add_static info_ok_def)

lemma twice_added:
  fixes xs :: "'re loc_conf list"
  shows "\<forall>c \<in> set xs. static_conf c \<Longrightarrow> twice (map ngx_http_add_location xs) \<longleftrightarrow> \<not> distinct (map (\<lambda>c. (l_name (info c), l_exact_match (info c))) xs)"
proof (induction xs)
  case Nil
  then show ?case by (simp add: twice_def)
next
  case (Cons c xs)
  define R where "R = (\<lambda>(x :: 're lq) (y :: 're lq). lq_name x = lq_name y \<longrightarrow> \<not> (lq_exact x \<noteq> None \<and> lq_exact y \<noteq> None) \<and> \<not> (lq_inclusive x \<noteq> None \<and> lq_inclusive y \<noteq> None))"
  have t: "twice J \<longleftrightarrow> \<not> sorted_wrt R J" for J :: "'re lq list" by (simp add: twice_def R_def)
  have "R (ngx_http_add_location c) (ngx_http_add_location d) \<longleftrightarrow> (l_name (info c), l_exact_match (info c)) \<noteq> (l_name (info d), l_exact_match (info d))" if "d \<in> set xs" for d
  proof -
    have s: "static_conf c" "static_conf d" using Cons.prems that by auto
    show ?thesis by (auto simp: R_def add_static [OF s(1)] add_static [OF s(2)])
  qed
  then have "(\<forall>y \<in> set (map ngx_http_add_location xs). R (ngx_http_add_location c) y)
      \<longleftrightarrow> (l_name (info c), l_exact_match (info c)) \<notin> (\<lambda>c. (l_name (info c), l_exact_match (info c))) ` set xs" by auto
  then show ?case using Cons unfolding t by (simp del: prod.inject)
qed

lemma named_conf_iff:
  assumes "distinct (map (\<lambda>c. (l_name (info c), l_exact_match (info c))) xs)"
  shows "named_conf info ex xs n = Some c \<longleftrightarrow> c \<in> set xs \<and> l_exact_match (info c) = ex \<and> l_name (info c) = n"
  unfolding named_conf_def by (rule find_unique) (use assms in \<open>auto simp: distinct_map inj_on_def\<close>)

lemma option_ext: "(\<And>c. a = Some c \<longleftrightarrow> b = Some c) \<Longrightarrow> a = b"
  by (cases a; cases b) auto

lemma added_name [simp]: "lq_name (ngx_http_add_location c) = l_name (info c)"
  by (simp add: ngx_http_add_location_def)

lemma added_kinds:
  assumes "static_conf d"
  shows "lq_exact (ngx_http_add_location d) = Some c \<longleftrightarrow> d = c \<and> l_exact_match (info c)"
    "lq_inclusive (ngx_http_add_location d) = Some c \<longleftrightarrow> d = c \<and> \<not> l_exact_match (info c)"
  using add_static [OF assms] by auto

lemma mem_exacts:
  "(n, c) \<in> exacts L \<longleftrightarrow> (\<exists>x \<in> set L. lq_name x = n \<and> lq_exact x = Some c)"
  "(n, c) \<in> inclusives L \<longleftrightarrow> (\<exists>x \<in> set L. lq_name x = n \<and> lq_inclusive x = Some c)"
  by (auto simp: exacts_def inclusives_def)

lemma lookup_named:
  assumes "joined (map ngx_http_add_location xs) L" "\<forall>c \<in> set xs. static_conf c"
    "distinct (map (\<lambda>c. (l_name (info c), l_exact_match (info c))) xs)"
  shows "lq_lookup lq_exact L = named_conf info True xs" "lq_lookup lq_inclusive L = named_conf info False xs"
proof -
  have asc: "ascending L" and e: "exacts L = exacts (map ngx_http_add_location xs)" and i: "inclusives L = inclusives (map ngx_http_add_location xs)"
    using assms(1) by (simp_all add: joined_def)
  have x: "(n, c) \<in> exacts (map ngx_http_add_location xs) \<longleftrightarrow> c \<in> set xs \<and> l_exact_match (info c) \<and> l_name (info c) = n"
    and y: "(n, c) \<in> inclusives (map ngx_http_add_location xs) \<longleftrightarrow> c \<in> set xs \<and> \<not> l_exact_match (info c) \<and> l_name (info c) = n" for n c
  proof -
    have "(n, c) \<in> exacts (map ngx_http_add_location xs) \<longleftrightarrow> (\<exists>d \<in> set xs. l_name (info d) = n \<and> lq_exact (ngx_http_add_location d) = Some c)"
      "(n, c) \<in> inclusives (map ngx_http_add_location xs) \<longleftrightarrow> (\<exists>d \<in> set xs. l_name (info d) = n \<and> lq_inclusive (ngx_http_add_location d) = Some c)"
      by (simp_all add: mem_exacts)
    then show "(n, c) \<in> exacts (map ngx_http_add_location xs) \<longleftrightarrow> c \<in> set xs \<and> l_exact_match (info c) \<and> l_name (info c) = n"
      "(n, c) \<in> inclusives (map ngx_http_add_location xs) \<longleftrightarrow> c \<in> set xs \<and> \<not> l_exact_match (info c) \<and> l_name (info c) = n"
      using assms(2) added_kinds by metis+
  qed
  have "lq_lookup lq_exact L n = Some c \<longleftrightarrow> (n, c) \<in> exacts L" "lq_lookup lq_inclusive L n = Some c \<longleftrightarrow> (n, c) \<in> inclusives L" for n c
    unfolding lookup_iff [OF asc] mem_exacts by (rule refl)+
  then have z: "lq_lookup lq_exact L n = Some c \<longleftrightarrow> named_conf info True xs n = Some c" "lq_lookup lq_inclusive L n = Some c \<longleftrightarrow> named_conf info False xs n = Some c" for n c
    unfolding e i x y named_conf_iff [OF assms(3)] by simp_all
  show "lq_lookup lq_exact L = named_conf info True xs" by (rule ext, rule option_ext, rule z)
  show "lq_lookup lq_inclusive L = named_conf info False xs" by (rule ext, rule option_ext, rule z)
qed

lemma joined_items:
  assumes "joined (map ngx_http_add_location xs) L" "\<forall>c \<in> set xs. static_conf c \<and> info_ok (info c)" "x \<in> set L"
  shows "item_ok x" "lq_list x = []"
proof -
  have ok: "lq_ok x" using assms(1,3) by (simp add: joined_def)
  have "lq_name x \<in> lq_name ` set (map ngx_http_add_location xs)" using assms(1,3) unfolding joined_def by blast
  then obtain c where "c \<in> set xs" "lq_name x = l_name (info c)" using added_name by auto
  then have len: "length (lq_name x) < 256" using assms(2) by (simp add: info_ok_def)
  have "\<exists>s. lq_name x = s @ [ch_slash]" if r: "lq_redirect x"
  proof -
    obtain d where d: "lq_exact x = Some d \<or> lq_inclusive x = Some d" "l_auto_redirect (info d)"
      using r by (auto simp: lq_redirect_def redirects_def split: option.splits)
    then have "(lq_name x, d) \<in> exacts L \<or> (lq_name x, d) \<in> inclusives L" unfolding mem_exacts using assms(3) by blast
    then have "(lq_name x, d) \<in> exacts (map ngx_http_add_location xs) \<or> (lq_name x, d) \<in> inclusives (map ngx_http_add_location xs)" using assms(1) by (simp add: joined_def)
    then obtain e where "e \<in> set xs" "lq_name x = l_name (info e)" "lq_exact (ngx_http_add_location e) = Some d \<or> lq_inclusive (ngx_http_add_location e) = Some d"
      by (auto simp: mem_exacts)
    then have "d \<in> set xs" "lq_name x = l_name (info d)" using assms(2) added_kinds by metis+
    then have "lq_name x \<noteq> []" "last (lq_name x) = ch_slash" using assms(2) d(2) by (auto simp: info_ok_def)
    then show ?thesis by (metis append_butlast_last_id)
  qed
  then show "item_ok x" "lq_list x = []" using ok len by (auto simp: item_ok_def lq_ok_def)
qed

text \<open>The static search in a configuration with its tree.\<close>

lemma static_search:
  assumes "joined (map ngx_http_add_location xs) L" "\<forall>c \<in> set xs. static_conf c \<and> info_ok (info c)"
    "distinct (map (\<lambda>c. (l_name (info c), l_exact_match (info c))) xs)"
  shows "ngx_http_core_find_static_location rv loc uri (ngx_http_create_locations_tree (ngx_http_create_locations_list L) 0)
    = Some (case static_route info (named_conf info True xs) (named_conf info False xs) uri of Some r \<Rightarrow> r | None \<Rightarrow> (rv, loc))"
proof -
  have asc: "ascending L" "\<forall>x \<in> set L. lq_ok x" using assms(1) by (simp_all add: joined_def)
  have pl: "plain L" using asc(2) by (simp add: plain_def lq_ok_def)
  have F: "good (ngx_http_create_locations_list L)" "flat_lqs (ngx_http_create_locations_list L) = L"
    using create_list_good [OF asc(1) pl] by (simp_all add: listed_def)
  have "\<forall>z \<in> set (flat_lqs (ngx_http_create_locations_list L)). item_ok z \<and> 0 \<le> length (lq_name z) \<and> take 0 (lq_name z) = take 0 uri"
    unfolding F(2) using joined_items [OF assms(1,2)] by simp
  from tree_search [OF F(1) this, of rv loc] show ?thesis
    using search_route [OF asc, of rv loc uri] lookup_named [OF assms(1) _ assms(3)] assms(2) F(2) by simp
qed

lemma static_route_mem: "static_route nfo ex inc uri = Some (rc, d) \<Longrightarrow> \<exists>n. ex n = Some d \<or> inc n = Some d"
  unfolding static_route_def Let_def by (auto split: option.splits if_splits)

lemma named_conf_mem: "named_conf nfo ex xs n = Some d \<Longrightarrow> d \<in> set xs"
  unfolding named_conf_def by (induction xs) (auto split: if_splits)

lemma named_conf_map: "(\<And>c. nfo (f c) = nfo' c) \<Longrightarrow> named_conf nfo ex (map f xs) n = map_option f (named_conf nfo' ex xs n)"
  unfolding named_conf_def by (induction xs) auto

definition kinds :: "'re loc_conf list \<Rightarrow> (bytes \<times> bool) list" where
  "kinds xs = map (\<lambda>c. (l_name (info c), l_exact_match (info c))) xs"

lemma kinds_by_name: "distinct (kinds (by_name ls)) \<longleftrightarrow> distinct (kinds (filter static_conf ls))"
proof -
  have "mset (by_name ls) = mset (filter static_conf ls)" by (simp add: by_name_def)
  then have "mset (kinds (by_name ls)) = mset (kinds (filter static_conf ls))" by (simp add: kinds_def)
  then show ?thesis by (rule mset_eq_imp_distinct_iff)
qed

lemma named_by_name:
  assumes "distinct (kinds (filter static_conf ls))"
  shows "named_conf info ex (by_name ls) n = named_conf info ex (filter static_conf ls) n"
  using assms kinds_by_name [of ls] by (intro option_ext) (simp add: named_conf_iff kinds_def by_name_set)

lemma those_map: "those (map f xs) = (if \<exists>x \<in> set xs. f x = None then None else Some (map (\<lambda>x. the (f x)) xs))"
  by (induction xs) (auto split: option.split)

definition compiled :: "('re \<Rightarrow> bytes \<Rightarrow> int) \<Rightarrow> bytes \<Rightarrow> 're loc_conf \<Rightarrow> 're loc_conf option \<Rightarrow> bool" where
  "compiled exec uri c r \<longleftrightarrow> (case r of None \<Rightarrow> \<not> no_duplicates c | Some c' \<Rightarrow> no_duplicates c \<and> routes exec uri True c c')"

lemma one_kind: "static_conf d \<Longrightarrow> lq_exact (ngx_http_add_location d) = None \<or> lq_inclusive (ngx_http_add_location d) = None"
  by (simp add: add_static)

lemma routes_with_trees:
  assumes ok: "conf_ok c" and ne: "filter static_conf (locations c) \<noteq> []"
    and IHA: "\<And>d. d \<in> set (locations c) \<Longrightarrow> routes exec uri False d (ngx_http_init_locations d)"
    and IHB: "\<And>d. d \<in> set (locations c) \<Longrightarrow> compiled exec uri d (ngx_http_init_static_location_trees (ngx_http_init_locations d))"
  shows "compiled exec uri c (ngx_http_init_static_location_trees (ngx_http_init_locations c))"
proof -
  note p = conf_ok_parts [OF ok]
  define xs where "xs = by_name (locations c)"
  define R where "R = map ngx_http_init_locations (filter regex_conf (locations c))"
  let ?K = "kinds (filter static_conf (locations c))"
  have set_xs: "set xs = set (filter static_conf (locations c))" by (simp add: xs_def by_name_set)
  have xs_ne: "map ngx_http_init_locations xs \<noteq> []" using ne set_xs by (metis map_is_Nil_conv set_empty)
  have i: "ngx_http_init_locations c = Conf (info c) (map ngx_http_init_locations xs) Null R"
    using init_structure [OF p(4), of "info c"] p(1) by (simp add: xs_def R_def)
  have nd: "no_duplicates c \<longleftrightarrow> distinct ?K \<and> (\<forall>d \<in> set xs. no_duplicates d)"
    by (subst p(1)) (auto simp: kinds_def set_xs)
  have tr: "ngx_http_init_static_location_trees (ngx_http_init_locations c)
      = those (map ngx_http_init_static_location_trees (map ngx_http_init_locations xs)) \<bind> ngx_http_init_static_location_trees_step (Conf (info c) (map ngx_http_init_locations xs) Null R)"
    unfolding i ngx_http_init_static_location_trees.simps if_not_P [OF xs_ne] ..
  show ?thesis
  proof (cases "\<exists>d \<in> set xs. ngx_http_init_static_location_trees (ngx_http_init_locations d) = None")
    case True
    then obtain d where d: "d \<in> set xs" "ngx_http_init_static_location_trees (ngx_http_init_locations d) = None" by blast
    then have "\<not> no_duplicates d" using IHB [of d] set_xs by (simp add: compiled_def)
    moreover have "ngx_http_init_static_location_trees (ngx_http_init_locations c) = None" unfolding tr map_map those_map using True by simp
    ultimately show ?thesis using nd d(1) by (auto simp: compiled_def)
  next
    case False
    then have b: "ngx_http_init_static_location_trees (ngx_http_init_locations d) = Some (built d)" if "d \<in> set xs" for d
      using that by (auto simp: built_def)
    have rb: "no_duplicates d" "routes exec uri True d (built d)" if "d \<in> set xs" for d
      using IHB [of d] that set_xs b [OF that] by (simp_all add: compiled_def)
    define ys where "ys = map built xs"
    have those: "those (map ngx_http_init_static_location_trees (map ngx_http_init_locations xs)) = Some ys"
      unfolding map_map those_map ys_def using False b by simp
    have stc: "\<forall>d \<in> set ys. static_conf d \<and> info_ok (info d)" using set_xs p(4) by (auto simp: ys_def static_conf_def)
    have "map (sort_rank \<circ> info) ys = map (sort_rank \<circ> info) xs" by (simp add: ys_def)
    then have srt: "sorted_wrt sorted_lq (map ngx_http_add_location ys)"
      using sorted_added [of ys] stc by_name_sorted [of "locations c"] by (simp add: xs_def)
    have kys: "kinds ys = kinds xs" by (simp add: ys_def kinds_def)
    have dk: "distinct (kinds ys) \<longleftrightarrow> distinct ?K" unfolding kys xs_def by (rule kinds_by_name)
    have tw: "twice (map ngx_http_add_location ys) \<longleftrightarrow> \<not> distinct (kinds ys)" using twice_added [of ys] stc by (simp add: kinds_def)
    have J: "case ngx_http_join_exact_locations (map ngx_http_add_location ys) of None \<Rightarrow> twice (map ngx_http_add_location ys)
        | Some L \<Rightarrow> \<not> twice (map ngx_http_add_location ys) \<and> joined (map ngx_http_add_location ys) L"
    proof (rule join_ok [OF srt])
      show "\<forall>x \<in> set (map ngx_http_add_location ys). lq_ok x" using stc added_ok by auto
      have "lq_exact (ngx_http_add_location d) = None \<or> lq_inclusive (ngx_http_add_location d) = None" if "d \<in> set ys" for d
        by (rule one_kind) (simp add: stc that)
      then have "\<forall>x \<in> set (map ngx_http_add_location ys). lq_exact x = None \<or> lq_inclusive x = None" by simp
      then show "\<forall>x \<in> set (tl (map ngx_http_add_location ys)). lq_exact x = None \<or> lq_inclusive x = None" by (cases ys) simp_all
    qed
    have tr2: "ngx_http_init_static_location_trees (ngx_http_init_locations c)
        = map_option (\<lambda>lqs. Conf (info c) ys (ngx_http_create_locations_tree (ngx_http_create_locations_list lqs) 0) R) (ngx_http_join_exact_locations (map ngx_http_add_location ys))"
      unfolding tr those by (cases "ngx_http_join_exact_locations (map ngx_http_add_location ys)") (simp_all add: ngx_http_init_static_location_trees_step_def)
    show ?thesis
    proof (cases "ngx_http_join_exact_locations (map ngx_http_add_location ys)")
      case None
      then show ?thesis using J tw dk nd unfolding tr2 by (simp add: compiled_def)
    next
      case (Some L)
      define c' where "c' = Conf (info c) ys (ngx_http_create_locations_tree (ngx_http_create_locations_list L) 0) R"
      have j: "joined (map ngx_http_add_location ys) L" and dist: "distinct ?K" "distinct (kinds ys)" using J Some tw dk by simp_all
      have nodup: "no_duplicates c" using nd dist(1) rb(1) by simp
      define SR where "SR = static_route info (named_conf info True (filter static_conf (locations c))) (named_conf info False (filter static_conf (locations c))) uri"
      have "named_conf info ex ys = (\<lambda>n. map_option built (named_conf info ex (filter static_conf (locations c)) n))" for ex
        unfolding ys_def xs_def by (rule ext) (simp add: named_conf_map [of info built info] named_by_name [OF dist(1)])
      then have sr: "static_route info (named_conf info True ys) (named_conf info False ys) uri = map_option (apsnd built) SR"
        unfolding SR_def by (simp add: static_route_map [of info built info])
      have fs: "ngx_http_core_find_static_location NGX_DECLINED c' uri (static_locations c')
          = Some (case map_option (apsnd built) SR of Some r \<Rightarrow> r | None \<Rightarrow> (NGX_DECLINED, c'))"
        using static_search [OF j stc, of NGX_DECLINED c' uri] dist(2) unfolding sr by (simp add: c'_def kinds_def)
      have rst: "route_static True uri c f = (case SR of None \<Rightarrow> (NGX_DECLINED, info c, False)
          | Some (rc, d) \<Rightarrow> if rc = NGX_AGAIN \<and> d \<in> set (locations c) then (fst (f d), snd (f d), l_noregex (info d)) else (rc, info d, False))" for f
        unfolding route_static_def SR_def Let_def by simp
      have parts: "regex_locations c' = map ngx_http_init_locations (filter regex_conf (locations c))" "info c' = info c" by (simp_all add: c'_def R_def)
      note fe = find_end [OF _ _ parts(1) IHA parts(2)]
      have "routes exec uri True c c'"
      proof (cases SR)
        case None
        show ?thesis by (rule fe [where rc = NGX_DECLINED and loc = c' and nr = False])
          (use fs rst None parts in \<open>simp_all add: NGX_DECLINED_def NGX_AGAIN_def\<close>)
      next
        case (Some r)
        obtain rc0 d where r: "r = (rc0, d)" by (cases r)
        obtain n ex where "named_conf info ex (filter static_conf (locations c)) n = Some d"
          using static_route_mem [OF Some [unfolded r SR_def]] by blast
        then have d: "d \<in> set (filter static_conf (locations c))" by (rule named_conf_mem)
        show ?thesis
        proof (cases "rc0 = NGX_AGAIN")
          case True
          have "routes exec uri True d (built d)" using rb(2) d set_xs by blast
          then obtain rc loc where l: "ngx_http_core_find_location exec uri (built d) = Some (rc, loc)" "route exec uri True d = (rc, info loc)" by (auto simp: routes_def)
          show ?thesis by (rule fe [where rc = rc and loc = loc and nr = "l_noregex (info d)"])
            (use fs rst Some r True l d in simp_all)
        next
          case False
          show ?thesis by (rule fe [where rc = rc0 and loc = "built d" and nr = False])
            (use fs rst Some r False in simp_all)
        qed
      qed
      then show ?thesis unfolding tr2 Some using nodup by (simp add: compiled_def c'_def)
    qed
  qed
qed

lemma routing:
  "conf_ok c \<Longrightarrow> routes exec uri False c (ngx_http_init_locations c)
    \<and> compiled exec uri c (ngx_http_init_static_location_trees (ngx_http_init_locations c))"
proof (induction c rule: measure_induct_rule [of size])
  case (less c)
  note p = conf_ok_parts [OF less.prems]
  have IHA: "routes exec uri False d (ngx_http_init_locations d)"
    and IHB: "compiled exec uri d (ngx_http_init_static_location_trees (ngx_http_init_locations d))" if "d \<in> set (locations c)" for d
    using less.IH [OF in_locations [OF that] p(3) [OF that]] by blast+
  have A: "routes exec uri False c (ngx_http_init_locations c)" by (rule routes_without_trees [OF less.prems IHA]) simp_all
  have "compiled exec uri c (ngx_http_init_static_location_trees (ngx_http_init_locations c))"
  proof (cases "filter static_conf (locations c) = []")
    case True
    have "set (by_name (locations c)) = {}" using True by (simp add: by_name_set del: filter_empty_conv)
    then have b: "by_name (locations c) = []" by simp
    have "ngx_http_init_locations c = Conf (info c) [] Null (map ngx_http_init_locations (filter regex_conf (locations c)))"
      using init_structure [OF p(4), of "info c"] p(1) b by simp
    then have "ngx_http_init_static_location_trees (ngx_http_init_locations c) = Some (ngx_http_init_locations c)" by (simp add: ngx_http_init_static_location_trees.simps)
    moreover have "no_duplicates c" using True by (subst p(1)) (auto simp: filter_empty_conv)
    moreover have "routes exec uri True c (ngx_http_init_locations c)" by (rule routes_without_trees [OF less.prems IHA]) (simp_all add: True)
    ultimately show ?thesis by (simp add: compiled_def)
  qed (rule routes_with_trees [OF less.prems _ IHA IHB])
  then show ?case using A by blast
qed

text \<open>
  C8. A configuration of locations is compiled exactly when no static location is listed twice in one kind at one
  level of it, and the search in the compiled trees then answers every URI the way the locations are meant: the exact
  location of the name, else the other one of that name, else a redirect to the name with a slash, else the location
  of the longest name that the URI goes on from, and below that one again; then, unless the location found asks
  otherwise, the first regular expression that matches, in the order of the configuration, and below it its regular
  expressions only.
\<close>

theorem location_routing:
  assumes "conf_ok c"
  shows "case ngx_http_init_static_location_trees (ngx_http_init_locations c) of
      None \<Rightarrow> \<not> no_duplicates c
    | Some c' \<Rightarrow> no_duplicates c \<and>
        (\<exists>rc d. ngx_http_core_find_location exec uri c' = Some (rc, d) \<and> route exec uri True c = (rc, info d))"
proof (cases "ngx_http_init_static_location_trees (ngx_http_init_locations c)")
  case None
  show ?thesis using routing [OF assms, of exec uri] unfolding None compiled_def by simp
next
  case (Some c')
  show ?thesis using routing [OF assms, of exec uri] unfolding Some compiled_def routes_def by simp
qed

text \<open>Two locations, one below the other, and a regular expression.\<close>

definition plain_info :: "bytes \<Rightarrow> 're loc_info" where
  "plain_info n = \<lparr>l_name = n, l_exact_match = False, l_noname = False, l_named = False, l_regex = None, l_noregex = False, l_auto_redirect = False,
    l_handler = None, l_client_max_body_size = 0, l_satisfy = NGX_HTTP_SATISFY_ALL, l_internal = False\<rparr>"

definition demo_conf :: "nat loc_conf" where
  "demo_conf = Conf (plain_info [])
     [Conf (plain_info [0x2F]) [] Null [],
      Conf (plain_info [0x78] \<lparr>l_regex := Some 7\<rparr>) [] Null [],
      Conf (plain_info [0x2F, 0x69, 0x2F])
        [Conf (plain_info [0x2F, 0x69, 0x2F, 0x61] \<lparr>l_exact_match := True\<rparr>) [] Null []] Null []] Null []"

definition demo_exec :: "nat \<Rightarrow> bytes \<Rightarrow> int" where
  "demo_exec r uri = NGX_DECLINED"

lemma demo_conf_ok: "conf_ok demo_conf"
  by (simp add: demo_conf_def plain_info_def info_ok_def)

lemma location_routing_witness:
  "case ngx_http_init_static_location_trees (ngx_http_init_locations demo_conf) of
      None \<Rightarrow> \<not> no_duplicates demo_conf
    | Some c' \<Rightarrow> no_duplicates demo_conf \<and>
        (\<exists>rc d. ngx_http_core_find_location demo_exec [0x2F, 0x69, 0x2F, 0x61] c' = Some (rc, d)
          \<and> route demo_exec [0x2F, 0x69, 0x2F, 0x61] True demo_conf = (rc, info d))"
  by (rule location_routing [OF demo_conf_ok])

lemma demo_found: "map_option (\<lambda>c. map_option (apsnd (l_name \<circ> info)) (ngx_http_core_find_location demo_exec [0x2F, 0x69, 0x2F, 0x61] c))
    (ngx_http_init_static_location_trees (ngx_http_init_locations demo_conf)) = Some (Some (NGX_OK, [0x2F, 0x69, 0x2F, 0x61]))"
  by code_simp

lemma static_route_codes: "static_route nfo ex inc uri = Some (rc, d) \<Longrightarrow> rc \<in> {NGX_OK, NGX_DONE, NGX_AGAIN}"
  unfolding static_route_def Let_def by (auto split: option.splits if_splits)

section \<open>What the search returns, and what it misses\<close>

text \<open>
  The code of an inclusive match, which the comment on the function lists among its results, is not one: after it the
  function is called again for the location found, and what that returns is kept.
\<close>

lemma route_code: "fst (route exec uri trees c) \<in> {NGX_OK, NGX_DONE, NGX_DECLINED, NGX_ERROR}"
proof (induction c arbitrary: trees rule: measure_induct_rule [of size])
  case (less c)
  have IH: "fst (route exec uri t d) \<in> {NGX_OK, NGX_DONE, NGX_DECLINED, NGX_ERROR}" if "d \<in> set (locations c)" for d t
    using less [OF in_locations [OF that]] .
  have s: "fst (route_static trees uri c (\<lambda>d. route exec uri True d)) \<in> {NGX_OK, NGX_DONE, NGX_DECLINED, NGX_ERROR}"
  proof (cases "trees \<and> static_route info (named_conf info True (filter static_conf (locations c))) (named_conf info False (filter static_conf (locations c))) uri \<noteq> None")
    case False
    then show ?thesis by (auto simp: route_static_def Let_def split: option.split)
  next
    case True
    then obtain rc d where r: "static_route info (named_conf info True (filter static_conf (locations c))) (named_conf info False (filter static_conf (locations c))) uri = Some (rc, d)"
      by auto
    obtain n ex where nc: "named_conf info ex (filter static_conf (locations c)) n = Some d" using static_route_mem [OF r] by blast
    have d: "d \<in> set (locations c)" using named_conf_mem [OF nc] by simp
    show ?thesis unfolding route_static_def Let_def using True IH [OF d, of True] d static_route_codes [OF r] r by auto
  qed
  obtain rc loc nr where st: "route_static trees uri c (\<lambda>d. route exec uri True d) = (rc, loc, nr)" by (metis prod.collapse)
  have "fst (route_end exec uri c (rc, loc, nr) f) \<in> {NGX_OK, NGX_DONE, NGX_DECLINED, NGX_ERROR}" for f
    using s unfolding st route_end_def by (auto split: list.split)
  then show ?case by (subst route.simps) (simp only: st)
qed

lemma find_location_codes:
  assumes "conf_ok c" "ngx_http_init_static_location_trees (ngx_http_init_locations c) = Some c'"
    "ngx_http_core_find_location exec uri c' = Some (rc, d)"
  shows "rc \<noteq> NGX_AGAIN"
proof -
  have "fst (route exec uri True c) = rc" using routing [OF assms(1), of exec uri] assms(2,3) by (auto simp: compiled_def routes_def)
  then show ?thesis using route_code [of exec uri True c] by (auto simp: NGX_AGAIN_def NGX_OK_def NGX_DONE_def NGX_DECLINED_def NGX_ERROR_def)
qed

text \<open>
  The tree of a location is made only for those that are still in the queue of the location above when the regular
  expressions have been moved out of it: below a regular expression no static location is found.
\<close>

lemma no_static_below_regex:
  assumes "conf_ok d" "filter regex_conf (locations d) = []"
  shows "\<exists>e. ngx_http_core_find_location exec uri (ngx_http_init_locations d) = Some (NGX_DECLINED, e) \<and> info e = info d"
proof -
  have "route exec uri False d = (NGX_DECLINED, info d)"
    by (subst route.simps) (simp add: route_end_def route_static_def assms(2) NGX_DECLINED_def NGX_OK_def NGX_DONE_def)
  then show ?thesis using routing [OF assms(1), of exec uri] by (auto simp: routes_def)
qed

text \<open>The length of a node's name is a byte: a name of 256 bytes is one of none, which every URI begins with.\<close>

lemma long_name_node:
  assumes "length (l_name (info c)) = 256" "\<not> l_exact_match (info c)" "static_conf c" "uri \<noteq> []"
  shows "ngx_http_core_find_static_location rv loc uri (ngx_http_create_locations_tree [ngx_http_add_location c] 0) = Some (NGX_AGAIN, c)"
  using assms by (simp add: add_static ngx_http_create_locations_tree.simps Let_def)

end
