(* ===== verification/Ngx_Phases.thy ===== *)
theory Ngx_Phases
  imports Ngx_Routing Ngx_Access
begin

text \<open>
  The phases of a request (\<^verbatim>\<open>ngx_http_init_phase_handlers\<close> of \<^verbatim>\<open>ngx_http.c\<close>, and the engine in
  \<^verbatim>\<open>ngx_http_core_module.c\<close>): the handlers of the modules, phase by phase, are put into one array with indices to jump
  to, and a loop runs through it with a checker per phase.
\<close>

section \<open>Requests\<close>

definition NGX_HTTP_MOVED_PERMANENTLY :: int where "NGX_HTTP_MOVED_PERMANENTLY = 301"
definition NGX_HTTP_UNAUTHORIZED :: int where "NGX_HTTP_UNAUTHORIZED = 401"
definition NGX_HTTP_NOT_FOUND :: int where "NGX_HTTP_NOT_FOUND = 404"
definition NGX_HTTP_REQUEST_ENTITY_TOO_LARGE :: int where "NGX_HTTP_REQUEST_ENTITY_TOO_LARGE = 413"
definition NGX_HTTP_INTERNAL_SERVER_ERROR :: int where "NGX_HTTP_INTERNAL_SERVER_ERROR = 500"
definition NGX_HTTP_MAX_URI_CHANGES :: nat where "NGX_HTTP_MAX_URI_CHANGES = 10"

text \<open>What the engine calls of the rest of the program to end a request is noted in the request.\<close>

datatype call = Finalize int | Discard_body

text \<open>
  The part of \<^verbatim>\<open>ngx_http_request_t\<close> that the engine works on, and \<open>'m\<close> for the rest, which is that of the modules.
  \<open>main\<close> says that the request is its own main one, \<open>www_authenticate\<close> is the hash of that header of the response.
\<close>

record ('re, 'm) request =
  phase_handler :: nat
  loc_conf :: "'re loc_conf"
  content_handler :: "fn option"
  uri :: bytes
  args :: bytes
  main :: bool
  internal :: bool
  uri_changed :: bool
  uri_changes :: "4 word"
  access_code :: u64
  content_length_n :: int
  discard_body :: bool
  expect_tested :: bool
  www_authenticate :: "u64 option"
  location :: "bytes option"
  calls :: "call list"
  module_state :: 'm

text \<open>
  What a handler gives back: a code and the request, or what \<^verbatim>\<open>ngx_http_internal_redirect\<close> or \<^verbatim>\<open>ngx_http_named_location\<close>
  makes of the request, called at the end of the handler with a URI and arguments or the name of a location.
\<close>

datatype ('re, 'm) answer =
    Code int "('re, 'm) request"
  | Redirect bytes bytes "('re, 'm) request"
  | Named bytes "('re, 'm) request"

type_synonym ('re, 'm) handler = "('re, 'm) request \<Rightarrow> ('re, 'm) answer"

definition ngx_http_finalize_request :: "('re, 'm) request \<Rightarrow> int \<Rightarrow> ('re, 'm) request" where
  "ngx_http_finalize_request r rc = r\<lparr>calls := calls r @ [Finalize rc]\<rparr>"

section \<open>The array of the engine\<close>

datatype checker = Generic_phase | Rewrite_phase | Find_config_phase | Post_rewrite_phase | Access_phase
  | Post_access_phase | Try_files_phase | Content_phase

record ('re, 'm) phase_handler_t =
  ph_checker :: checker
  ph_handler :: "('re, 'm) handler option"
  ph_next :: nat

datatype phase = POST_READ_PHASE | SERVER_REWRITE_PHASE | FIND_CONFIG_PHASE | REWRITE_PHASE | POST_REWRITE_PHASE
  | PREACCESS_PHASE | ACCESS_PHASE | POST_ACCESS_PHASE | TRY_FILES_PHASE | CONTENT_PHASE

text \<open>The phases before the one that logs, in the order of their numbers.\<close>

definition phases_of :: "phase list" where
  "phases_of = [POST_READ_PHASE, SERVER_REWRITE_PHASE, FIND_CONFIG_PHASE, REWRITE_PHASE, POST_REWRITE_PHASE,
     PREACCESS_PHASE, ACCESS_PHASE, POST_ACCESS_PHASE, TRY_FILES_PHASE, CONTENT_PHASE]"

text \<open>The two indices are \<^const>\<open>None\<close> for the greatest unsigned number, which stands for none.\<close>

record ('re, 'm) phase_engine =
  handlers :: "('re, 'm) phase_handler_t list"
  server_rewrite_index :: "nat option"
  location_rewrite_index :: "nat option"

record ('re, 'm) main_conf =
  phases :: "phase \<Rightarrow> ('re, 'm) handler list"
  try_files :: bool

text \<open>
  The state of the loop over the phases: the engine with the elements that are written, the count \<open>n\<close>, and the index
  of the search for the location.
\<close>

record ('re, 'm) init_state =
  eng :: "('re, 'm) phase_engine"
  count :: nat
  find_config_index :: nat

definition put :: "('re, 'm) init_state \<Rightarrow> ('re, 'm) phase_handler_t list \<Rightarrow> ('re, 'm) init_state" where
  "put s phs = s\<lparr>eng := (eng s)\<lparr>handlers := handlers (eng s) @ phs\<rparr>\<rparr>"

text \<open>The end of a round: the handlers of the phase from the last one down, each with the index behind them.\<close>

definition put_handlers :: "checker \<Rightarrow> ('re, 'm) handler list \<Rightarrow> ('re, 'm) init_state \<Rightarrow> ('re, 'm) init_state" where
  "put_handlers chk h s =
     (let n = count s + length h
      in put (s\<lparr>count := n\<rparr>) (map (\<lambda>f. \<lparr>ph_checker = chk, ph_handler = Some f, ph_next = n\<rparr>) (rev h)))"

definition init_phase :: "('re, 'm) main_conf \<Rightarrow> phase \<Rightarrow> ('re, 'm) init_state \<Rightarrow> ('re, 'm) init_state" where
  "init_phase cmcf i s =
     (let h = phases cmcf i;
          use_rewrite = (phases cmcf REWRITE_PHASE \<noteq> []);
          use_access = (phases cmcf ACCESS_PHASE \<noteq> [])
      in case i of
        SERVER_REWRITE_PHASE \<Rightarrow>
          put_handlers Rewrite_phase h
            (if server_rewrite_index (eng s) = None then s\<lparr>eng := (eng s)\<lparr>server_rewrite_index := Some (count s)\<rparr>\<rparr> else s)
      | FIND_CONFIG_PHASE \<Rightarrow>
          put (s\<lparr>find_config_index := count s, count := count s + 1\<rparr>)
            [\<lparr>ph_checker = Find_config_phase, ph_handler = None, ph_next = 0\<rparr>]
      | REWRITE_PHASE \<Rightarrow>
          put_handlers Rewrite_phase h
            (if location_rewrite_index (eng s) = None then s\<lparr>eng := (eng s)\<lparr>location_rewrite_index := Some (count s)\<rparr>\<rparr> else s)
      | POST_REWRITE_PHASE \<Rightarrow>
          if use_rewrite then
            put (s\<lparr>count := count s + 1\<rparr>)
              [\<lparr>ph_checker = Post_rewrite_phase, ph_handler = None, ph_next = find_config_index s\<rparr>]
          else s
      | ACCESS_PHASE \<Rightarrow> put_handlers Access_phase h (s\<lparr>count := count s + 1\<rparr>)
      | POST_ACCESS_PHASE \<Rightarrow>
          if use_access then put s [\<lparr>ph_checker = Post_access_phase, ph_handler = None, ph_next = count s\<rparr>] else s
      | TRY_FILES_PHASE \<Rightarrow>
          if try_files cmcf then
            put (s\<lparr>count := count s + 1\<rparr>) [\<lparr>ph_checker = Try_files_phase, ph_handler = None, ph_next = 0\<rparr>]
          else s
      | CONTENT_PHASE \<Rightarrow> put_handlers Content_phase h s
      | _ \<Rightarrow> put_handlers Generic_phase h s)"

text \<open>The number of elements that memory is allocated for, not counting the null at their end.\<close>

definition engine_size :: "('re, 'm) main_conf \<Rightarrow> nat" where
  "engine_size cmcf =
     (if phases cmcf REWRITE_PHASE \<noteq> [] then 1 else 0) + (if phases cmcf ACCESS_PHASE \<noteq> [] then 1 else 0)
     + (if try_files cmcf then 1 else 0) + 1 + (\<Sum>i \<leftarrow> phases_of. length (phases cmcf i))"

definition ngx_http_init_phase_handlers :: "('re, 'm) main_conf \<Rightarrow> ('re, 'm) phase_engine" where
  "ngx_http_init_phase_handlers cmcf =
     eng (fold (init_phase cmcf) phases_of
       \<lparr>eng = \<lparr>handlers = [], server_rewrite_index = None, location_rewrite_index = None\<rparr>, count = 0, find_config_index = 0\<rparr>)"

section \<open>Internal redirects\<close>

text \<open>What the checker of \<^verbatim>\<open>try_files\<close> finds: no files to try, a file, a code in place of one, or where to go without one.\<close>

datatype ('re, 'm) tried =
    No_files
  | File "('re, 'm) request"
  | Give_up int "('re, 'm) request"
  | Fall_back "('re, 'm) answer"

text \<open>
  The surroundings of a request: the engine, the settings of the server and its named locations, what a regular
  expression says of a URI, the functions that make content, the look at the files of \<^verbatim>\<open>try_files\<close>, and what is left of
  the modules' own state when their contexts are cleared.
\<close>

record ('re, 'm) env =
  engine :: "('re, 'm) phase_engine"
  srv_loc_conf :: "'re loc_conf"
  named_locations :: "'re loc_conf list"
  regex_exec :: "'re \<Rightarrow> bytes \<Rightarrow> int"
  call_fn :: "fn \<Rightarrow> ('re, 'm) handler"
  test_files :: "('re, 'm) request \<Rightarrow> ('re, 'm) tried"
  clear_ctx :: "'m \<Rightarrow> 'm"

text \<open>Of \<^verbatim>\<open>ngx_http_update_location_config\<close>, the function that makes the content.\<close>

definition update_content_handler :: "('re, 'm) request \<Rightarrow> ('re, 'm) request" where
  "update_content_handler r =
     (case l_handler (info (loc_conf r)) of None \<Rightarrow> r | Some f \<Rightarrow> r\<lparr>content_handler := Some f\<rparr>)"

text \<open>In what follows \<open>run\<close> is \<^verbatim>\<open>ngx_http_core_run_phases\<close>, which the functions call and which calls them.\<close>

definition ngx_http_handler_by :: "('re, 'm) env \<Rightarrow> (('re, 'm) request \<Rightarrow> ('re, 'm) request option) \<Rightarrow> ('re, 'm) request \<Rightarrow> ('re, 'm) request option" where
  "ngx_http_handler_by e run r =
     (if \<not> internal r then run (r\<lparr>phase_handler := 0\<rparr>)
      else do { i \<leftarrow> server_rewrite_index (engine e); run (r\<lparr>phase_handler := i\<rparr>) })"

definition redirected :: "('re, 'm) env \<Rightarrow> bytes \<Rightarrow> bytes \<Rightarrow> ('re, 'm) request \<Rightarrow> ('re, 'm) request" where
  "redirected e u a r =
     (update_content_handler (r\<lparr>uri := u, args := a, module_state := clear_ctx e (module_state r), loc_conf := srv_loc_conf e\<rparr>))\<lparr>internal := True\<rparr>"

definition ngx_http_internal_redirect :: "('re, 'm) env \<Rightarrow> (('re, 'm) request \<Rightarrow> ('re, 'm) request option) \<Rightarrow> bytes \<Rightarrow> bytes \<Rightarrow> ('re, 'm) request
    \<Rightarrow> (int \<times> ('re, 'm) request) option" where
  "ngx_http_internal_redirect e run u a r =
     (let r = r\<lparr>uri_changes := uri_changes r - 1\<rparr> in
      if uri_changes r = 0 then Some (NGX_DONE, ngx_http_finalize_request r NGX_HTTP_INTERNAL_SERVER_ERROR)
      else do { r \<leftarrow> ngx_http_handler_by e run (redirected e u a r); Some (NGX_DONE, r) })"

definition at_location :: "('re, 'm) env \<Rightarrow> 're loc_conf \<Rightarrow> ('re, 'm) request \<Rightarrow> ('re, 'm) request" where
  "at_location e c r =
     update_content_handler (r\<lparr>internal := True, content_handler := None, uri_changed := False, loc_conf := c, module_state := clear_ctx e (module_state r)\<rparr>)"

definition ngx_http_named_location :: "('re, 'm) env \<Rightarrow> (('re, 'm) request \<Rightarrow> ('re, 'm) request option) \<Rightarrow> bytes \<Rightarrow> ('re, 'm) request
    \<Rightarrow> (int \<times> ('re, 'm) request) option" where
  "ngx_http_named_location e run nm r =
     (let r = r\<lparr>uri_changes := uri_changes r - 1\<rparr> in
      if uri_changes r = 0 \<or> uri r = [] then Some (NGX_DONE, ngx_http_finalize_request r NGX_HTTP_INTERNAL_SERVER_ERROR)
      else
        (case find (\<lambda>c. l_name (info c) = nm) (named_locations e) of
           None \<Rightarrow> Some (NGX_DONE, ngx_http_finalize_request r NGX_HTTP_INTERNAL_SERVER_ERROR)
         | Some c \<Rightarrow>
             do { i \<leftarrow> location_rewrite_index (engine e);
                  r \<leftarrow> run ((at_location e c r)\<lparr>phase_handler := i\<rparr>); Some (NGX_DONE, r) }))"

definition answered :: "('re, 'm) env \<Rightarrow> (('re, 'm) request \<Rightarrow> ('re, 'm) request option) \<Rightarrow> ('re, 'm) answer \<Rightarrow> (int \<times> ('re, 'm) request) option" where
  "answered e run a =
     (case a of
        Code rc r \<Rightarrow> Some (rc, r)
      | Redirect u g r \<Rightarrow> ngx_http_internal_redirect e run u g r
      | Named nm r \<Rightarrow> ngx_http_named_location e run nm r)"

text \<open>
  The handler of the module that rewrites, which looks at the index of the engine: the location phase is left out for
  the settings of the server itself. That the settings are those, the script of the location, which gives a status, and
  \<^verbatim>\<open>r->err_status\<close> are arguments.
\<close>

definition NGX_HTTP_BAD_REQUEST :: int where "NGX_HTTP_BAD_REQUEST = 400"

definition ngx_http_rewrite_handler :: "nat option \<Rightarrow> (('re, 'm) request \<Rightarrow> bool) \<Rightarrow> (('re, 'm) request \<Rightarrow> (('re, 'm) request \<Rightarrow> int \<times> ('re, 'm) request) option)
    \<Rightarrow> (('re, 'm) request \<Rightarrow> int) \<Rightarrow> ('re, 'm) handler" where
  "ngx_http_rewrite_handler index at_server codes err_status r =
     (if index = Some (phase_handler r) \<and> at_server r then Code NGX_DECLINED r
      else
        (case codes r of
           None \<Rightarrow> Code NGX_DECLINED r
         | Some script \<Rightarrow>
             (case script r of (status, r) \<Rightarrow>
                Code (if status < NGX_HTTP_BAD_REQUEST \<or> err_status r = 0 then status else err_status r) r)))"

text \<open>The handler of the module of access rules: the rules are those of the location, the address that of the connection.\<close>

definition access_module :: "(('re, 'm) request \<Rightarrow> access_loc_conf) \<Rightarrow> (('re, 'm) request \<Rightarrow> sockaddr_t) \<Rightarrow> ('re, 'm) handler" where
  "access_module alcf sockaddr r = Code (ngx_http_access_handler (alcf r) (sockaddr r)) r"

section \<open>The checkers\<close>

definition ngx_http_core_generic_phase :: "('re, 'm) env \<Rightarrow> (('re, 'm) request \<Rightarrow> ('re, 'm) request option) \<Rightarrow> ('re, 'm) request \<Rightarrow> ('re, 'm) phase_handler_t \<Rightarrow> (int \<times> ('re, 'm) request) option" where
  "ngx_http_core_generic_phase e run r ph =
     do { h \<leftarrow> ph_handler ph;
          (rc, r) \<leftarrow> answered e run (h r);
          Some (if rc = NGX_OK then (NGX_AGAIN, r\<lparr>phase_handler := ph_next ph\<rparr>)
                else if rc = NGX_DECLINED then (NGX_AGAIN, r\<lparr>phase_handler := phase_handler r + 1\<rparr>)
                else if rc = NGX_AGAIN \<or> rc = NGX_DONE then (NGX_OK, r)
                else (NGX_OK, ngx_http_finalize_request r rc)) }"

definition ngx_http_core_rewrite_phase :: "('re, 'm) env \<Rightarrow> (('re, 'm) request \<Rightarrow> ('re, 'm) request option) \<Rightarrow> ('re, 'm) request \<Rightarrow> ('re, 'm) phase_handler_t \<Rightarrow> (int \<times> ('re, 'm) request) option" where
  "ngx_http_core_rewrite_phase e run r ph =
     do { h \<leftarrow> ph_handler ph;
          (rc, r) \<leftarrow> answered e run (h r);
          Some (if rc = NGX_DECLINED then (NGX_AGAIN, r\<lparr>phase_handler := phase_handler r + 1\<rparr>)
                else if rc = NGX_DONE then (NGX_OK, r)
                else (NGX_OK, ngx_http_finalize_request r rc)) }"

definition ngx_http_core_find_config_phase :: "('re, 'm) env \<Rightarrow> ('re, 'm) request \<Rightarrow> (int \<times> ('re, 'm) request) option" where
  "ngx_http_core_find_config_phase e r0 =
     (let r = r0\<lparr>content_handler := None, uri_changed := False\<rparr> in
      do { (rc, loc) \<leftarrow> ngx_http_core_find_location (regex_exec e) (uri r) (loc_conf r);
           let r = r\<lparr>loc_conf := loc\<rparr>; clcf = info loc in
           if rc = NGX_ERROR then Some (NGX_OK, ngx_http_finalize_request r NGX_HTTP_INTERNAL_SERVER_ERROR)
           else if \<not> internal r \<and> l_internal clcf then Some (NGX_OK, ngx_http_finalize_request r NGX_HTTP_NOT_FOUND)
           else
             let r = update_content_handler r in
             if content_length_n r \<noteq> -1 \<and> \<not> discard_body r \<and> l_client_max_body_size clcf \<noteq> 0
               \<and> l_client_max_body_size clcf < content_length_n r
             then
               let r = r\<lparr>expect_tested := True\<rparr>; r = r\<lparr>calls := calls r @ [Discard_body]\<rparr>
               in Some (NGX_OK, ngx_http_finalize_request r NGX_HTTP_REQUEST_ENTITY_TOO_LARGE)
             else if rc = NGX_DONE then
               let r = r\<lparr>location := Some (if args r = [] then l_name clcf else l_name clcf @ ch_quest # args r)\<rparr>
               in Some (NGX_OK, ngx_http_finalize_request r NGX_HTTP_MOVED_PERMANENTLY)
             else Some (NGX_AGAIN, r\<lparr>phase_handler := phase_handler r + 1\<rparr>) })"

definition ngx_http_core_post_rewrite_phase :: "('re, 'm) env \<Rightarrow> ('re, 'm) request \<Rightarrow> ('re, 'm) phase_handler_t \<Rightarrow> int \<times> ('re, 'm) request" where
  "ngx_http_core_post_rewrite_phase e r ph =
     (if \<not> uri_changed r then (NGX_AGAIN, r\<lparr>phase_handler := phase_handler r + 1\<rparr>)
      else
        let r = r\<lparr>uri_changes := uri_changes r - 1\<rparr> in
        if uri_changes r = 0 then (NGX_OK, ngx_http_finalize_request r NGX_HTTP_INTERNAL_SERVER_ERROR)
        else (NGX_AGAIN, r\<lparr>phase_handler := ph_next ph, loc_conf := srv_loc_conf e\<rparr>))"

definition ngx_http_core_access_phase :: "('re, 'm) env \<Rightarrow> (('re, 'm) request \<Rightarrow> ('re, 'm) request option) \<Rightarrow> ('re, 'm) request \<Rightarrow> ('re, 'm) phase_handler_t \<Rightarrow> (int \<times> ('re, 'm) request) option" where
  "ngx_http_core_access_phase e run r ph =
     (if \<not> main r then Some (NGX_AGAIN, r\<lparr>phase_handler := ph_next ph\<rparr>)
      else
        do { h \<leftarrow> ph_handler ph;
             (rc, r) \<leftarrow> answered e run (h r);
             Some
               (if rc = NGX_DECLINED then (NGX_AGAIN, r\<lparr>phase_handler := phase_handler r + 1\<rparr>)
                else if rc = NGX_AGAIN \<or> rc = NGX_DONE then (NGX_OK, r)
                else if l_satisfy (info (loc_conf r)) = NGX_HTTP_SATISFY_ALL then
                  if rc = NGX_OK then (NGX_AGAIN, r\<lparr>phase_handler := phase_handler r + 1\<rparr>)
                  else (NGX_OK, ngx_http_finalize_request r rc)
                else if rc = NGX_OK then
                  (NGX_AGAIN, r\<lparr>access_code := 0, www_authenticate := map_option (\<lambda>_. 0) (www_authenticate r), phase_handler := ph_next ph\<rparr>)
                else if rc = NGX_HTTP_FORBIDDEN \<or> rc = NGX_HTTP_UNAUTHORIZED then
                  (NGX_AGAIN, r\<lparr>access_code := (if access_code r \<noteq> word_of_int NGX_HTTP_UNAUTHORIZED then word_of_int rc else access_code r),
                     phase_handler := phase_handler r + 1\<rparr>)
                else (NGX_OK, ngx_http_finalize_request r rc)) })"

definition ngx_http_core_post_access_phase :: "('re, 'm) request \<Rightarrow> int \<times> ('re, 'm) request" where
  "ngx_http_core_post_access_phase r =
     (if access_code r \<noteq> 0 then (NGX_OK, ngx_http_finalize_request (r\<lparr>access_code := 0\<rparr>) (sint (access_code r)))
      else (NGX_AGAIN, r\<lparr>phase_handler := phase_handler r + 1\<rparr>))"

definition ngx_http_core_try_files_phase :: "('re, 'm) env \<Rightarrow> (('re, 'm) request \<Rightarrow> ('re, 'm) request option) \<Rightarrow> ('re, 'm) request \<Rightarrow> (int \<times> ('re, 'm) request) option" where
  "ngx_http_core_try_files_phase e run r =
     (case test_files e r of
        No_files \<Rightarrow> Some (NGX_AGAIN, r\<lparr>phase_handler := phase_handler r + 1\<rparr>)
      | File r \<Rightarrow> Some (NGX_AGAIN, r\<lparr>phase_handler := phase_handler r + 1\<rparr>)
      | Give_up rc r \<Rightarrow> Some (NGX_OK, ngx_http_finalize_request r rc)
      | Fall_back a \<Rightarrow> do { (rc, r) \<leftarrow> answered e run a; Some (NGX_OK, ngx_http_finalize_request r NGX_DONE) })"

text \<open>\<open>last_one\<close> says that the element behind in the array is the null at its end.\<close>

definition ngx_http_core_content_phase :: "('re, 'm) env \<Rightarrow> (('re, 'm) request \<Rightarrow> ('re, 'm) request option) \<Rightarrow> ('re, 'm) request \<Rightarrow> ('re, 'm) phase_handler_t \<Rightarrow> bool \<Rightarrow> (int \<times> ('re, 'm) request) option" where
  "ngx_http_core_content_phase e run r ph last_one =
     (case content_handler r of
        Some f \<Rightarrow> do { (rc, r) \<leftarrow> answered e run (call_fn e f r); Some (NGX_OK, ngx_http_finalize_request r rc) }
      | None \<Rightarrow>
          do { h \<leftarrow> ph_handler ph;
               (rc, r) \<leftarrow> answered e run (h r);
               if rc \<noteq> NGX_DECLINED then Some (NGX_OK, ngx_http_finalize_request r rc)
               else if \<not> last_one then Some (NGX_AGAIN, r\<lparr>phase_handler := phase_handler r + 1\<rparr>)
               else if uri r = [] then None
               else if last (uri r) = ch_slash then Some (NGX_OK, ngx_http_finalize_request r NGX_HTTP_FORBIDDEN)
               else Some (NGX_OK, ngx_http_finalize_request r NGX_HTTP_NOT_FOUND) })"

definition run_checker :: "('re, 'm) env \<Rightarrow> (('re, 'm) request \<Rightarrow> ('re, 'm) request option) \<Rightarrow> ('re, 'm) request \<Rightarrow> ('re, 'm) phase_handler_t \<Rightarrow> bool
    \<Rightarrow> (int \<times> ('re, 'm) request) option" where
  "run_checker e run r ph last_one =
     (case ph_checker ph of
        Generic_phase \<Rightarrow> ngx_http_core_generic_phase e run r ph
      | Rewrite_phase \<Rightarrow> ngx_http_core_rewrite_phase e run r ph
      | Find_config_phase \<Rightarrow> ngx_http_core_find_config_phase e r
      | Post_rewrite_phase \<Rightarrow> Some (ngx_http_core_post_rewrite_phase e r ph)
      | Access_phase \<Rightarrow> ngx_http_core_access_phase e run r ph
      | Post_access_phase \<Rightarrow> Some (ngx_http_core_post_access_phase r)
      | Try_files_phase \<Rightarrow> ngx_http_core_try_files_phase e run r
      | Content_phase \<Rightarrow> ngx_http_core_content_phase e run r ph last_one)"

text \<open>The engine is called again by redirects, which its recursive definition needs to be monotone in.\<close>

lemma bind_le: "option_ord x y \<Longrightarrow> option_ord (x \<bind> f) (y \<bind> f)"
  by (auto simp: flat_ord_def)

lemma checker_le:
  assumes "\<And>r. option_ord (run r) (run' r)"
  shows "option_ord (run_checker e run r ph l) (run_checker e run' r ph l)"
proof -
  have le: "option_ord x x" "option_ord None x" for x :: "'x option" by (simp_all add: flat_ord_def)
  have "option_ord (ngx_http_handler_by e run r) (ngx_http_handler_by e run' r)" for r
    by (cases "server_rewrite_index (engine e)") (simp_all add: ngx_http_handler_by_def assms le)
  then have ir: "option_ord (ngx_http_internal_redirect e run u a r) (ngx_http_internal_redirect e run' u a r)" for u a r
    by (simp add: ngx_http_internal_redirect_def Let_def bind_le le)
  have nm: "option_ord (ngx_http_named_location e run u r) (ngx_http_named_location e run' u r)" for u r
    by (cases "location_rewrite_index (engine e)")
      (simp_all add: ngx_http_named_location_def Let_def bind_le assms le split: option.split)
  have a: "option_ord (answered e run a) (answered e run' a)" for a
    by (simp add: answered_def ir nm le split: answer.split)
  show ?thesis
    by (cases "ph_handler ph"; cases "content_handler r")
      (simp_all add: run_checker_def ngx_http_core_generic_phase_def ngx_http_core_rewrite_phase_def ngx_http_core_access_phase_def
        ngx_http_core_content_phase_def ngx_http_core_try_files_phase_def bind_le a le split: checker.split tried.split)
qed

lemma checker_mono [partial_function_mono]:
  fixes g :: "('x \<Rightarrow> 'y option) \<Rightarrow> ('re, 'm) request \<Rightarrow> ('re, 'm) request option"
  assumes "\<And>r. monotone option.le_fun option_ord (\<lambda>f. g f r)"
  shows "monotone option.le_fun option_ord (\<lambda>f. run_checker e (g f) r ph l)"
proof (rule monotoneI)
  fix f f' :: "'x \<Rightarrow> 'y option"
  assume f: "option.le_fun f f'"
  show "option_ord (run_checker e (g f) r ph l) (run_checker e (g f') r ph l)"
    by (rule checker_le) (use monotoneD [OF assms] f in blast)
qed

text \<open>The loop, from the element that the request is at; the null ends it, and behind that there is nothing to read.\<close>

partial_function (option) ngx_http_core_run_phases :: "('re, 'm) env \<Rightarrow> ('re, 'm) request \<Rightarrow> ('re, 'm) request option" where
  "ngx_http_core_run_phases e r =
     (let ph = handlers (engine e) in
      if phase_handler r < length ph then
        do { (rc, r) \<leftarrow> run_checker e (\<lambda>r. ngx_http_core_run_phases e r) r (ph ! phase_handler r) (phase_handler r + 1 = length ph);
             if rc = NGX_OK then Some r else ngx_http_core_run_phases e r }
      else if phase_handler r = length ph then Some r
      else None)"

definition ngx_http_handler :: "('re, 'm) env \<Rightarrow> ('re, 'm) request \<Rightarrow> ('re, 'm) request option" where
  "ngx_http_handler e = ngx_http_handler_by e (ngx_http_core_run_phases e)"

end
