(* ===== verification/Ngx_Phase_Flows.thy ===== *)
theory Ngx_Phase_Flows
  imports Ngx_Phases
begin

text \<open>
  The phases of a request one after the other, without jumps in an array: what the phase engine is compared with. And
  what is asked of the modules' handlers.
\<close>

section \<open>Where the phases begin\<close>

definition find_config_at :: "('re, 'm) main_conf \<Rightarrow> nat" where
  "find_config_at cmcf = length (phases cmcf POST_READ_PHASE) + length (phases cmcf SERVER_REWRITE_PHASE)"

definition preaccess_at :: "('re, 'm) main_conf \<Rightarrow> nat" where
  "preaccess_at cmcf = Suc (find_config_at cmcf + length (phases cmcf REWRITE_PHASE)) + (if phases cmcf REWRITE_PHASE = [] then 0 else 1)"

definition access_at :: "('re, 'm) main_conf \<Rightarrow> nat" where
  "access_at cmcf = preaccess_at cmcf + length (phases cmcf PREACCESS_PHASE)"

definition try_files_at :: "('re, 'm) main_conf \<Rightarrow> nat" where
  "try_files_at cmcf = access_at cmcf + length (phases cmcf ACCESS_PHASE) + (if phases cmcf ACCESS_PHASE = [] then 0 else 1)"

definition content_at :: "('re, 'm) main_conf \<Rightarrow> nat" where
  "content_at cmcf = try_files_at cmcf + (if try_files cmcf then 1 else 0)"

section \<open>The phases one after the other\<close>

text \<open>
  The reference: what a phase does with a request is to pass it on or to end the work on it. The handlers of a phase are
  a list and no one jumps; each is shown the index of its place, for those that look at it. \<open>red\<close> says what becomes of
  an answer, redirects included.
\<close>

datatype 'r flow = Next 'r | Halt 'r

fun result :: "'r flow \<Rightarrow> 'r" where
  "result (Next r) = r"
| "result (Halt r) = r"

fun follow :: "'r flow option \<Rightarrow> ('r \<Rightarrow> 'r flow option) \<Rightarrow> 'r flow option" where
  "follow None k = None"
| "follow (Some (Next r)) k = k r"
| "follow (Some (Halt r)) k = Some (Halt r)"

definition step_flow :: "int \<times> ('re, 'm) request \<Rightarrow> ('re, 'm) request flow" where
  "step_flow = (\<lambda>(rc, r). if rc = NGX_OK then Halt r else Next r)"

type_synonym ('re, 'm) answers = "('re, 'm) answer \<Rightarrow> (int \<times> ('re, 'm) request) option"

fun generic_handlers :: "('re, 'm) answers \<Rightarrow> nat \<Rightarrow> ('re, 'm) handler list \<Rightarrow> ('re, 'm) request \<Rightarrow> ('re, 'm) request flow option" where
  "generic_handlers red i [] r = Some (Next r)"
| "generic_handlers red i (h # hs) r =
     do { (rc, r) \<leftarrow> red (h (r\<lparr>phase_handler := i\<rparr>));
          if rc = NGX_OK then Some (Next r)
          else if rc = NGX_DECLINED then generic_handlers red (Suc i) hs r
          else if rc = NGX_AGAIN \<or> rc = NGX_DONE then Some (Halt r)
          else Some (Halt (ngx_http_finalize_request r rc)) }"

fun rewrite_handlers :: "('re, 'm) answers \<Rightarrow> nat \<Rightarrow> ('re, 'm) handler list \<Rightarrow> ('re, 'm) request \<Rightarrow> ('re, 'm) request flow option" where
  "rewrite_handlers red i [] r = Some (Next r)"
| "rewrite_handlers red i (h # hs) r =
     do { (rc, r) \<leftarrow> red (h (r\<lparr>phase_handler := i\<rparr>));
          if rc = NGX_DECLINED then rewrite_handlers red (Suc i) hs r
          else if rc = NGX_DONE then Some (Halt r)
          else Some (Halt (ngx_http_finalize_request r rc)) }"

fun access_handlers :: "('re, 'm) answers \<Rightarrow> nat \<Rightarrow> ('re, 'm) handler list \<Rightarrow> ('re, 'm) request \<Rightarrow> ('re, 'm) request flow option" where
  "access_handlers red i [] r = Some (Next r)"
| "access_handlers red i (h # hs) r =
     do { (rc, r) \<leftarrow> red (h (r\<lparr>phase_handler := i\<rparr>));
          if rc = NGX_DECLINED then access_handlers red (Suc i) hs r
          else if rc = NGX_AGAIN \<or> rc = NGX_DONE then Some (Halt r)
          else if rc = NGX_OK then
            if l_satisfy (info (loc_conf r)) = NGX_HTTP_SATISFY_ALL then access_handlers red (Suc i) hs r
            else Some (Next (r\<lparr>access_code := 0, www_authenticate := map_option (\<lambda>_. 0) (www_authenticate r)\<rparr>))
          else if l_satisfy (info (loc_conf r)) \<noteq> NGX_HTTP_SATISFY_ALL \<and> (rc = NGX_HTTP_FORBIDDEN \<or> rc = NGX_HTTP_UNAUTHORIZED) then
            access_handlers red (Suc i) hs
              (r\<lparr>access_code := (if access_code r \<noteq> word_of_int NGX_HTTP_UNAUTHORIZED then word_of_int rc else access_code r)\<rparr>)
          else Some (Halt (ngx_http_finalize_request r rc)) }"

text \<open>Of a request that is not its own main one the access is not looked at.\<close>

definition access_flow :: "('re, 'm) answers \<Rightarrow> nat \<Rightarrow> ('re, 'm) handler list \<Rightarrow> ('re, 'm) request \<Rightarrow> ('re, 'm) request flow option" where
  "access_flow red i hs r =
     (if hs = [] \<or> \<not> main r then Some (Next r)
      else follow (access_handlers red i hs r) (\<lambda>r. Some (step_flow (ngx_http_core_post_access_phase r))))"

definition try_files_flow :: "('re, 'm) env \<Rightarrow> ('re, 'm) answers \<Rightarrow> nat \<Rightarrow> ('re, 'm) request \<Rightarrow> ('re, 'm) request flow option" where
  "try_files_flow e red i r =
     (case test_files e (r\<lparr>phase_handler := i\<rparr>) of
        No_files \<Rightarrow> Some (Next r)
      | File r \<Rightarrow> Some (Next r)
      | Give_up rc r \<Rightarrow> Some (Halt (ngx_http_finalize_request r rc))
      | Fall_back a \<Rightarrow> do { (rc, r) \<leftarrow> red a; Some (Halt (ngx_http_finalize_request r NGX_DONE)) })"

fun content_handlers :: "('re, 'm) env \<Rightarrow> ('re, 'm) answers \<Rightarrow> nat \<Rightarrow> ('re, 'm) handler list \<Rightarrow> ('re, 'm) request \<Rightarrow> ('re, 'm) request flow option" where
  "content_handlers e red i [] r = Some (Next r)"
| "content_handlers e red i (h # hs) r =
     (case content_handler r of
        Some f \<Rightarrow> do { (rc, r) \<leftarrow> red (call_fn e f (r\<lparr>phase_handler := i\<rparr>)); Some (Halt (ngx_http_finalize_request r rc)) }
      | None \<Rightarrow>
          do { (rc, r) \<leftarrow> red (h (r\<lparr>phase_handler := i\<rparr>));
               if rc \<noteq> NGX_DECLINED then Some (Halt (ngx_http_finalize_request r rc))
               else if hs \<noteq> [] then content_handlers e red (Suc i) hs r
               else if uri r = [] then None
               else Some (Halt (ngx_http_finalize_request r (if last (uri r) = ch_slash then NGX_HTTP_FORBIDDEN else NGX_HTTP_NOT_FOUND))) })"

definition after_access_flow :: "('re, 'm) env \<Rightarrow> ('re, 'm) main_conf \<Rightarrow> ('re, 'm) answers \<Rightarrow> ('re, 'm) request \<Rightarrow> ('re, 'm) request flow option" where
  "after_access_flow e cmcf red r =
     follow (if try_files cmcf then try_files_flow e red (try_files_at cmcf) r else Some (Next r))
       (content_handlers e red (content_at cmcf) (rev (phases cmcf CONTENT_PHASE)))"

definition serve_flow :: "('re, 'm) env \<Rightarrow> ('re, 'm) main_conf \<Rightarrow> ('re, 'm) answers \<Rightarrow> ('re, 'm) request \<Rightarrow> ('re, 'm) request flow option" where
  "serve_flow e cmcf red r =
     follow (generic_handlers red (preaccess_at cmcf) (rev (phases cmcf PREACCESS_PHASE)) r) (\<lambda>r.
     follow (access_flow red (access_at cmcf) (rev (phases cmcf ACCESS_PHASE)) r) (after_access_flow e cmcf red))"

text \<open>From the rewriting of a location on; a request with another URI then is one for \<open>again\<close>.\<close>

definition rewrite_flow :: "('re, 'm) env \<Rightarrow> ('re, 'm) main_conf \<Rightarrow> ('re, 'm) answers \<Rightarrow> (('re, 'm) request \<Rightarrow> ('re, 'm) request flow option)
    \<Rightarrow> ('re, 'm) request \<Rightarrow> ('re, 'm) request flow option" where
  "rewrite_flow e cmcf red again r =
     follow (rewrite_handlers red (Suc (find_config_at cmcf)) (rev (phases cmcf REWRITE_PHASE)) r)
       (\<lambda>r. if phases cmcf REWRITE_PHASE = [] \<or> \<not> uri_changed r then serve_flow e cmcf red r else again r)"

definition located_flow :: "('re, 'm) env \<Rightarrow> ('re, 'm) main_conf \<Rightarrow> ('re, 'm) answers \<Rightarrow> (('re, 'm) request \<Rightarrow> ('re, 'm) request flow option)
    \<Rightarrow> ('re, 'm) request \<Rightarrow> ('re, 'm) request flow option" where
  "located_flow e cmcf red again r =
     follow (map_option step_flow (ngx_http_core_find_config_phase e r)) (rewrite_flow e cmcf red again)"

definition server_flow :: "('re, 'm) env \<Rightarrow> ('re, 'm) main_conf \<Rightarrow> ('re, 'm) answers \<Rightarrow> (('re, 'm) request \<Rightarrow> ('re, 'm) request flow option)
    \<Rightarrow> ('re, 'm) request \<Rightarrow> ('re, 'm) request flow option" where
  "server_flow e cmcf red again r =
     follow (rewrite_handlers red (length (phases cmcf POST_READ_PHASE)) (rev (phases cmcf SERVER_REWRITE_PHASE)) r) (located_flow e cmcf red again)"

text \<open>An internal request begins with the rewriting of the server, any other with what is done after reading.\<close>

definition request_flow :: "('re, 'm) env \<Rightarrow> ('re, 'm) main_conf \<Rightarrow> ('re, 'm) answers \<Rightarrow> (('re, 'm) request \<Rightarrow> ('re, 'm) request flow option)
    \<Rightarrow> ('re, 'm) request \<Rightarrow> ('re, 'm) request flow option" where
  "request_flow e cmcf red again r =
     (if internal r then server_flow e cmcf red again r
      else follow (generic_handlers red 0 (rev (phases cmcf POST_READ_PHASE)) r) (server_flow e cmcf red again))"

text \<open>
  With \<open>n\<close> changes of the URI left: what becomes of answers, and of requests whose URI was rewritten. Every change takes
  one away, and with none left the request ends with an error.
\<close>

definition give_up :: "('re, 'm) request \<Rightarrow> ('re, 'm) request" where
  "give_up r = ngx_http_finalize_request r NGX_HTTP_INTERNAL_SERVER_ERROR"

definition done_with :: "('re, 'm) request flow option \<Rightarrow> (int \<times> ('re, 'm) request) option" where
  "done_with = map_option (\<lambda>f. (NGX_DONE, result f))"

primrec changes :: "('re, 'm) env \<Rightarrow> ('re, 'm) main_conf \<Rightarrow> nat \<Rightarrow> ('re, 'm) answers \<times> (('re, 'm) request \<Rightarrow> ('re, 'm) request flow option)" where
  "changes e cmcf 0 =
     (\<lambda>a. case a of
        Code rc r \<Rightarrow> Some (rc, r)
      | Redirect u g r \<Rightarrow> Some (NGX_DONE, give_up (r\<lparr>uri_changes := 0\<rparr>))
      | Named nm r \<Rightarrow> Some (NGX_DONE, give_up (r\<lparr>uri_changes := 0\<rparr>)),
      \<lambda>r. Some (Halt (give_up (r\<lparr>uri_changes := 0\<rparr>))))"
| "changes e cmcf (Suc n) =
     (let (red, again) = changes e cmcf n in
      (\<lambda>a. case a of
         Code rc r \<Rightarrow> Some (rc, r)
       | Redirect u g r \<Rightarrow> done_with (request_flow e cmcf red again (redirected e u g (r\<lparr>uri_changes := of_nat (Suc n)\<rparr>)))
       | Named nm r \<Rightarrow>
           let r = r\<lparr>uri_changes := of_nat (Suc n)\<rparr> in
           if uri r = [] then Some (NGX_DONE, give_up r)
           else
             (case find (\<lambda>c. l_name (info c) = nm) (named_locations e) of
                None \<Rightarrow> Some (NGX_DONE, give_up r)
              | Some c \<Rightarrow> done_with (rewrite_flow e cmcf red again (at_location e c r))),
       \<lambda>r. located_flow e cmcf red again (r\<lparr>uri_changes := of_nat (Suc n), loc_conf := srv_loc_conf e\<rparr>)))"

text \<open>The reference for a request, by its count of changes.\<close>

definition changes_left :: "('re, 'm) request \<Rightarrow> nat" where
  "changes_left r = unat (uri_changes r - 1)"

definition phase_flow :: "('re, 'm) env \<Rightarrow> ('re, 'm) main_conf \<Rightarrow> ('re, 'm) request \<Rightarrow> ('re, 'm) request flow option" where
  "phase_flow e cmcf r = (case changes e cmcf (changes_left r) of (red, again) \<Rightarrow> request_flow e cmcf red again r)"

section \<open>What the modules leave alone\<close>

text \<open>The codes with which a request goes on.\<close>

fun goes_on :: "checker \<Rightarrow> int \<Rightarrow> bool" where
  "goes_on Generic_phase rc \<longleftrightarrow> rc = NGX_OK \<or> rc = NGX_DECLINED"
| "goes_on Access_phase rc \<longleftrightarrow> rc = NGX_OK \<or> rc = NGX_DECLINED \<or> rc = NGX_HTTP_FORBIDDEN \<or> rc = NGX_HTTP_UNAUTHORIZED"
| "goes_on _ rc \<longleftrightarrow> rc = NGX_DECLINED"

text \<open>
  A handler that lets a request go on has not moved it to another place of the engine, nor counted a change of its URI,
  nor made it one of another request. One that ends the work on it may do anything but to count before a redirect. The
  index may be looked at.
\<close>

fun counted :: "(('re, 'm) request \<Rightarrow> bool) \<Rightarrow> ('re, 'm) answer \<Rightarrow> bool" where
  "counted P (Code rc r) \<longleftrightarrow> True"
| "counted P (Redirect u g r) \<longleftrightarrow> P r"
| "counted P (Named nm r) \<longleftrightarrow> P r"

definition handler_ok :: "checker \<Rightarrow> ('re, 'm) handler \<Rightarrow> bool" where
  "handler_ok chk h \<longleftrightarrow>
     (\<forall>r. counted (\<lambda>r'. uri_changes r' = uri_changes r) (h r)
       \<and> (\<forall>rc r'. h r = Code rc r' \<and> goes_on chk rc \<longrightarrow> phase_handler r' = phase_handler r \<and> uri_changes r' = uri_changes r \<and> main r' = main r))"

definition files_ok :: "(('re, 'm) request \<Rightarrow> ('re, 'm) tried) \<Rightarrow> bool" where
  "files_ok f \<longleftrightarrow>
     (\<forall>r. case f r of
        File r' \<Rightarrow> phase_handler r' = phase_handler r \<and> uri_changes r' = uri_changes r
      | Fall_back a \<Rightarrow> counted (\<lambda>r'. uri_changes r' = uri_changes r) a
      | _ \<Rightarrow> True)"

fun checker_of :: "phase \<Rightarrow> checker" where
  "checker_of SERVER_REWRITE_PHASE = Rewrite_phase"
| "checker_of REWRITE_PHASE = Rewrite_phase"
| "checker_of ACCESS_PHASE = Access_phase"
| "checker_of CONTENT_PHASE = Content_phase"
| "checker_of _ = Generic_phase"

definition engine_ok :: "('re, 'm) env \<Rightarrow> ('re, 'm) main_conf \<Rightarrow> bool" where
  "engine_ok e cmcf \<longleftrightarrow> engine e = ngx_http_init_phase_handlers cmcf
     \<and> (\<forall>p. \<forall>h \<in> set (phases cmcf p). handler_ok (checker_of p) h) \<and> (\<forall>f. handler_ok Content_phase (call_fn e f)) \<and> files_ok (test_files e)"

text \<open>The rewriting of the repository is such a handler when the scripts are.\<close>

lemma rewrite_handler_ok:
  assumes "\<And>r script status r'. codes r = Some script \<Longrightarrow> script r = (status, r') \<Longrightarrow>
      phase_handler r' = phase_handler r \<and> uri_changes r' = uri_changes r \<and> main r' = main r"
  shows "handler_ok Rewrite_phase (ngx_http_rewrite_handler index at_server codes err)"
proof -
  let ?h = "ngx_http_rewrite_handler index at_server codes err"
  have "\<exists>rc r'. ?h r = Code rc r' \<and> phase_handler r' = phase_handler r \<and> uri_changes r' = uri_changes r \<and> main r' = main r" for r
  proof (cases "codes r")
    case (Some script)
    obtain status r' where s: "script r = (status, r')" by (cases "script r")
    show ?thesis using Some s assms [OF Some s] by (simp add: ngx_http_rewrite_handler_def)
  qed (simp add: ngx_http_rewrite_handler_def)
  then show ?thesis unfolding handler_ok_def by (metis answer.inject(1) counted.simps(1))
qed

lemma access_module_ok: "handler_ok Access_phase (access_module alcf sa)"
  by (simp add: handler_ok_def access_module_def)

end
