(* ===== verification/Ngx_Phase_Engine.thy ===== *)
theory Ngx_Phase_Engine
  imports Ngx_Phase_Flows
begin

text \<open>
  The phase engine handles a request as the phases do one after the other: the layout of the array, and the proof that
  the loop with its jumps follows the reference, redirects included. From it, that requests are answered on compiled
  configurations, and that a client who is denied access is refused.
\<close>

section \<open>The loop goes through the array\<close>

abbreviation blank :: "('re, 'm) request \<Rightarrow> ('re, 'm) request" where
  "blank r \<equiv> r\<lparr>phase_handler := 0\<rparr>"

text \<open>The engine ends with what the reference gives, but for the index.\<close>

definition ends :: "('re, 'm) request option \<Rightarrow> ('re, 'm) request flow option \<Rightarrow> bool" where
  "ends x y \<longleftrightarrow> map_option blank x = map_option (\<lambda>f. blank (result f)) y"

lemma finalize_simps [simp]:
  "ngx_http_finalize_request (r\<lparr>phase_handler := i\<rparr>) rc = (ngx_http_finalize_request r rc)\<lparr>phase_handler := i\<rparr>"
  "uri_changes (ngx_http_finalize_request r rc) = uri_changes r" "main (ngx_http_finalize_request r rc) = main r"
  by (simp_all add: ngx_http_finalize_request_def)

lemma blank_finalize: "blank r = blank q \<Longrightarrow> blank (ngx_http_finalize_request r rc) = blank (ngx_http_finalize_request q rc)"
  by (metis finalize_simps(1))

lemma ends_simps [simp]:
  "ends None None" "ends (Some x) (Some (Halt y)) \<longleftrightarrow> blank x = blank y" "ends (Some x) (Some (Next y)) \<longleftrightarrow> blank x = blank y"
  by (simp_all add: ends_def)

abbreviation run :: "('re, 'm) env \<Rightarrow> nat \<Rightarrow> ('re, 'm) request \<Rightarrow> ('re, 'm) request option" where
  "run e i r \<equiv> ngx_http_core_run_phases e (r\<lparr>phase_handler := i\<rparr>)"

definition continue :: "('re, 'm) env \<Rightarrow> int \<times> ('re, 'm) request \<Rightarrow> ('re, 'm) request option" where
  "continue e = (\<lambda>(rc, r). if rc = NGX_OK then Some r else ngx_http_core_run_phases e r)"

lemma continue_simps [simp]:
  "continue e (NGX_OK, r) = Some r" "continue e (NGX_AGAIN, r) = ngx_http_core_run_phases e r"
  by (simp_all add: continue_def NGX_OK_def NGX_AGAIN_def)

lemma run_at:
  assumes "handlers (engine e) = A @ ph # B" "i = length A"
  shows "run e i r = run_checker e (ngx_http_core_run_phases e) (r\<lparr>phase_handler := i\<rparr>) ph (B = []) \<bind> continue e"
proof -
  have "(A @ ph # B) ! length A = ph" by simp
  then show ?thesis using assms by (subst ngx_http_core_run_phases.simps) (simp add: continue_def Let_def)
qed

lemma run_end: "i = length (handlers (engine e)) \<Longrightarrow> run e i r = Some (r\<lparr>phase_handler := i\<rparr>)"
  by (subst ngx_http_core_run_phases.simps) simp

definition seg :: "checker \<Rightarrow> ('re, 'm) handler list \<Rightarrow> nat \<Rightarrow> ('re, 'm) phase_handler_t list" where
  "seg chk hs n = map (\<lambda>f. \<lparr>ph_checker = chk, ph_handler = Some f, ph_next = n\<rparr>) hs"

lemma seg_simps [simp]: "seg chk [] n = []" "seg chk (h # hs) n = \<lparr>ph_checker = chk, ph_handler = Some h, ph_next = n\<rparr> # seg chk hs n"
  "length (seg chk hs n) = length hs"
  by (simp_all add: seg_def)

text \<open>With \<open>n\<close> changes left, answers come to the same in the engine and in the reference.\<close>

definition red_ok :: "('re, 'm) env \<Rightarrow> nat \<Rightarrow> ('re, 'm) answers \<Rightarrow> bool" where
  "red_ok e n red \<longleftrightarrow>
     (\<forall>a. counted (\<lambda>r. uri_changes r = of_nat (Suc n)) a \<longrightarrow>
        (case a of Code rc r \<Rightarrow> red a = Some (rc, r)
         | _ \<Rightarrow> (answered e (ngx_http_core_run_phases e) a = None \<and> red a = None)
             \<or> (\<exists>x y. answered e (ngx_http_core_run_phases e) a = Some (NGX_DONE, x) \<and> red a = Some (NGX_DONE, y) \<and> blank x = blank y)))"

lemma goes_on_done: "\<not> goes_on chk NGX_DONE"
  by (cases chk) (simp_all add: NGX_DONE_def NGX_OK_def NGX_DECLINED_def NGX_HTTP_FORBIDDEN_def NGX_HTTP_UNAUTHORIZED_def)

lemma ask:
  assumes "red_ok e n red" "handler_ok chk h" "uri_changes r = of_nat (Suc n)"
  obtains (none) "answered e (ngx_http_core_run_phases e) (h (r\<lparr>phase_handler := i\<rparr>)) = None" "red (h (r\<lparr>phase_handler := i\<rparr>)) = None"
  | (on) rc q where "answered e (ngx_http_core_run_phases e) (h (r\<lparr>phase_handler := i\<rparr>)) = Some (rc, q)" "red (h (r\<lparr>phase_handler := i\<rparr>)) = Some (rc, q)"
      "goes_on chk rc" "phase_handler q = i" "uri_changes q = of_nat (Suc n)" "main q = main r"
  | (off) rc x y where "answered e (ngx_http_core_run_phases e) (h (r\<lparr>phase_handler := i\<rparr>)) = Some (rc, x)" "red (h (r\<lparr>phase_handler := i\<rparr>)) = Some (rc, y)"
      "\<not> goes_on chk rc" "blank x = blank y"
proof -
  let ?a = "h (r\<lparr>phase_handler := i\<rparr>)"
  have h: "counted (\<lambda>r. uri_changes r = of_nat (Suc n)) ?a"
    "\<And>rc q. ?a = Code rc q \<Longrightarrow> goes_on chk rc \<Longrightarrow> phase_handler q = i \<and> uri_changes q = of_nat (Suc n) \<and> main q = main r"
    using assms(2) [unfolded handler_ok_def, rule_format, of "r\<lparr>phase_handler := i\<rparr>"] assms(3) by auto
  have red: "case ?a of Code rc r \<Rightarrow> red ?a = Some (rc, r)
         | _ \<Rightarrow> (answered e (ngx_http_core_run_phases e) ?a = None \<and> red ?a = None)
             \<or> (\<exists>x y. answered e (ngx_http_core_run_phases e) ?a = Some (NGX_DONE, x) \<and> red ?a = Some (NGX_DONE, y) \<and> blank x = blank y)"
    using assms(1) h(1) unfolding red_ok_def by blast
  show thesis
  proof (cases ?a)
    case (Code rc q)
    then have a: "answered e (ngx_http_core_run_phases e) ?a = Some (rc, q)" "red ?a = Some (rc, q)" using red by (simp_all add: answered_def)
    show thesis
    proof (cases "goes_on chk rc")
      case True
      then show thesis using on [OF a True] h(2) [OF Code True] by blast
    next
      case False
      then show thesis using off [OF a False] by blast
    qed
  next
    case (Redirect u g q)
    then show thesis using red none off goes_on_done by fastforce
  next
    case (Named nm q)
    then show thesis using red none off goes_on_done by fastforce
  qed
qed

lemma generic_seg:
  assumes "handlers (engine e) = A @ seg Generic_phase hs j @ B" "i = length A" "j = i + length hs"
    and red: "red_ok e n red" and "\<forall>h \<in> set hs. handler_ok Generic_phase h" "uri_changes r = of_nat (Suc n)"
    and K: "\<And>r'. generic_handlers red i hs r = Some (Next r') \<Longrightarrow> uri_changes r' = of_nat (Suc n) \<Longrightarrow> ends (run e j r') (K r')"
  shows "ends (run e i r) (follow (generic_handlers red i hs r) K)"
  using assms(1-3,5-7)
proof (induction hs arbitrary: A i r)
  case Nil
  then show ?case using Nil.prems(6) [of r] by simp
next
  case (Cons h hs)
  define ph where "ph = \<lparr>ph_checker = Generic_phase, ph_handler = Some h, ph_next = j\<rparr>"
  have L: "handlers (engine e) = A @ ph # (seg Generic_phase hs j @ B)" using Cons.prems(1) by (simp add: ph_def)
  note R = run_at [OF L Cons.prems(2), of r, unfolded run_checker_def ph_def phase_handler_t.simps checker.simps ngx_http_core_generic_phase_def bind.bind_lunit]
  have ok: "handler_ok Generic_phase h" using Cons.prems(4) by simp
  show ?case
  proof (rule ask [OF red ok Cons.prems(5), of i])
    assume "answered e (ngx_http_core_run_phases e) (h (r\<lparr>phase_handler := i\<rparr>)) = None" "red (h (r\<lparr>phase_handler := i\<rparr>)) = None"
    then show ?thesis unfolding R by simp
  next
    fix rc q
    assume a: "answered e (ngx_http_core_run_phases e) (h (r\<lparr>phase_handler := i\<rparr>)) = Some (rc, q)" "red (h (r\<lparr>phase_handler := i\<rparr>)) = Some (rc, q)"
      and q: "goes_on Generic_phase rc" "phase_handler q = i" "uri_changes q = of_nat (Suc n)"
    show ?thesis
    proof (cases "rc = NGX_OK")
      case True
      then show ?thesis unfolding R using a Cons.prems(6) [of q] q by simp
    next
      case False
      have "ends (run e (i + 1) q) (follow (generic_handlers red (i + 1) hs q) K)"
        by (rule Cons.IH [where A = "A @ [ph]"]) (use Cons.prems L a q False in auto)
      then show ?thesis unfolding R using a q False by simp
    qed
  next
    fix rc x y
    assume "answered e (ngx_http_core_run_phases e) (h (r\<lparr>phase_handler := i\<rparr>)) = Some (rc, x)" "red (h (r\<lparr>phase_handler := i\<rparr>)) = Some (rc, y)"
      and "\<not> goes_on Generic_phase rc" "blank x = blank y"
    then show ?thesis unfolding R using blank_finalize [of x y] by simp
  qed
qed

lemma rewrite_seg:
  assumes "handlers (engine e) = A @ seg Rewrite_phase hs j @ B" "i = length A"
    and red: "red_ok e n red" and "\<forall>h \<in> set hs. handler_ok Rewrite_phase h" "uri_changes r = of_nat (Suc n)"
    and K: "\<And>r'. rewrite_handlers red i hs r = Some (Next r') \<Longrightarrow> uri_changes r' = of_nat (Suc n) \<Longrightarrow> ends (run e (i + length hs) r') (K r')"
  shows "ends (run e i r) (follow (rewrite_handlers red i hs r) K)"
  using assms(1,2,4-6)
proof (induction hs arbitrary: A i r)
  case Nil
  then show ?case using Nil.prems(5) [of r] by simp
next
  case (Cons h hs)
  define ph where "ph = \<lparr>ph_checker = Rewrite_phase, ph_handler = Some h, ph_next = j\<rparr>"
  have L: "handlers (engine e) = A @ ph # (seg Rewrite_phase hs j @ B)" using Cons.prems(1) by (simp add: ph_def)
  note R = run_at [OF L Cons.prems(2), of r, unfolded run_checker_def ph_def phase_handler_t.simps checker.simps ngx_http_core_rewrite_phase_def bind.bind_lunit]
  have ok: "handler_ok Rewrite_phase h" using Cons.prems(3) by simp
  show ?case
  proof (rule ask [OF red ok Cons.prems(4), of i])
    assume "answered e (ngx_http_core_run_phases e) (h (r\<lparr>phase_handler := i\<rparr>)) = None" "red (h (r\<lparr>phase_handler := i\<rparr>)) = None"
    then show ?thesis unfolding R by simp
  next
    fix rc q
    assume a: "answered e (ngx_http_core_run_phases e) (h (r\<lparr>phase_handler := i\<rparr>)) = Some (rc, q)" "red (h (r\<lparr>phase_handler := i\<rparr>)) = Some (rc, q)"
      and q: "goes_on Rewrite_phase rc" "phase_handler q = i" "uri_changes q = of_nat (Suc n)"
    have "ends (run e (i + 1) q) (follow (rewrite_handlers red (i + 1) hs q) K)"
      by (rule Cons.IH [where A = "A @ [ph]"]) (use Cons.prems L a q in auto)
    then show ?thesis unfolding R using a q by simp
  next
    fix rc x y
    assume "answered e (ngx_http_core_run_phases e) (h (r\<lparr>phase_handler := i\<rparr>)) = Some (rc, x)" "red (h (r\<lparr>phase_handler := i\<rparr>)) = Some (rc, y)"
      and "\<not> goes_on Rewrite_phase rc" "blank x = blank y"
    then show ?thesis unfolding R using blank_finalize [of x y] by simp
  qed
qed

lemma content_seg:
  assumes "handlers (engine e) = A @ seg Content_phase hs j" "i = length A"
    and red: "red_ok e n red" and "\<forall>h \<in> set hs. handler_ok Content_phase h" and fns: "\<And>f. handler_ok Content_phase (call_fn e f)"
    and "uri_changes r = of_nat (Suc n)"
  shows "ends (run e i r) (content_handlers e red i hs r)"
  using assms(1,2,4,6)
proof (induction hs arbitrary: A i r)
  case Nil
  then show ?case using run_end [of i e r] by simp
next
  case (Cons h hs)
  define ph where "ph = \<lparr>ph_checker = Content_phase, ph_handler = Some h, ph_next = j\<rparr>"
  have L: "handlers (engine e) = A @ ph # seg Content_phase hs j" using Cons.prems(1) by (simp add: ph_def)
  note R = run_at [OF L Cons.prems(2), of r, unfolded run_checker_def ph_def phase_handler_t.simps checker.simps ngx_http_core_content_phase_def bind.bind_lunit]
  have ok: "handler_ok Content_phase h" using Cons.prems(3) by simp
  show ?case
  proof (cases "content_handler r")
    case (Some f)
    show ?thesis
    proof (rule ask [OF red fns [of f] Cons.prems(4), of i])
      assume "answered e (ngx_http_core_run_phases e) (call_fn e f (r\<lparr>phase_handler := i\<rparr>)) = None" "red (call_fn e f (r\<lparr>phase_handler := i\<rparr>)) = None"
      then show ?thesis unfolding R using Some by simp
    next
      fix rc q
      assume "answered e (ngx_http_core_run_phases e) (call_fn e f (r\<lparr>phase_handler := i\<rparr>)) = Some (rc, q)" "red (call_fn e f (r\<lparr>phase_handler := i\<rparr>)) = Some (rc, q)"
      then show ?thesis unfolding R using Some by simp
    next
      fix rc x y
      assume "answered e (ngx_http_core_run_phases e) (call_fn e f (r\<lparr>phase_handler := i\<rparr>)) = Some (rc, x)" "red (call_fn e f (r\<lparr>phase_handler := i\<rparr>)) = Some (rc, y)"
        and "blank x = blank y"
      then show ?thesis unfolding R using Some blank_finalize [of x y] by simp
    qed
  next
    case None
    have l: "seg Content_phase hs j = [] \<longleftrightarrow> hs = []" by (simp add: seg_def)
    show ?thesis
    proof (rule ask [OF red ok Cons.prems(4), of i])
      assume "answered e (ngx_http_core_run_phases e) (h (r\<lparr>phase_handler := i\<rparr>)) = None" "red (h (r\<lparr>phase_handler := i\<rparr>)) = None"
      then show ?thesis unfolding R using None by simp
    next
      fix rc q
      assume a: "answered e (ngx_http_core_run_phases e) (h (r\<lparr>phase_handler := i\<rparr>)) = Some (rc, q)" "red (h (r\<lparr>phase_handler := i\<rparr>)) = Some (rc, q)"
        and q: "goes_on Content_phase rc" "phase_handler q = i" "uri_changes q = of_nat (Suc n)"
      show ?thesis
      proof (cases "hs = []")
        case True
        then show ?thesis unfolding R using None a q by simp
      next
        case False
        have "ends (run e (i + 1) q) (content_handlers e red (i + 1) hs q)"
          by (rule Cons.IH [where A = "A @ [ph]"]) (use Cons.prems L q in auto)
        then show ?thesis unfolding R using None a q False l by simp
      qed
    next
      fix rc x y
      assume "answered e (ngx_http_core_run_phases e) (h (r\<lparr>phase_handler := i\<rparr>)) = Some (rc, x)" "red (h (r\<lparr>phase_handler := i\<rparr>)) = Some (rc, y)"
        and "\<not> goes_on Content_phase rc" "blank x = blank y"
      then show ?thesis unfolding R using None blank_finalize [of x y] by simp
    qed
  qed
qed

text \<open>The checks of the access phase, which go on to the element behind them, or past it.\<close>

lemma access_seg:
  assumes "handlers (engine e) = A @ seg Access_phase hs (Suc (i + length hs)) @ B" "i = length A"
    and red: "red_ok e n red" and "\<forall>h \<in> set hs. handler_ok Access_phase h" "uri_changes r = of_nat (Suc n)" "main r"
    and K: "\<And>r'. access_handlers red i hs r = Some (Next r') \<Longrightarrow> uri_changes r' = of_nat (Suc n) \<Longrightarrow> ends (run e (i + length hs) r') (K r')"
    and J: "\<And>r'. access_handlers red i hs r = Some (Next r') \<Longrightarrow> uri_changes r' = of_nat (Suc n) \<Longrightarrow> access_code r' = 0 \<Longrightarrow> ends (run e (Suc (i + length hs)) r') (K r')"
  shows "ends (run e i r) (follow (access_handlers red i hs r) K)"
  using assms(1,2,4-8)
proof (induction hs arbitrary: A i r)
  case Nil
  then show ?case using Nil.prems(6) [of r] by simp
next
  case (Cons h hs)
  let ?j = "Suc (i + length (h # hs))"
  define ph where "ph = \<lparr>ph_checker = Access_phase, ph_handler = Some h, ph_next = ?j\<rparr>"
  have L: "handlers (engine e) = A @ ph # (seg Access_phase hs ?j @ B)" using Cons.prems(1) by (simp add: ph_def)
  note R = run_at [OF L Cons.prems(2), of r, unfolded run_checker_def ph_def phase_handler_t.simps checker.simps ngx_http_core_access_phase_def bind.bind_lunit]
  have m: "main (r\<lparr>phase_handler := i\<rparr>)" using Cons.prems(5) by simp
  have ok: "handler_ok Access_phase h" using Cons.prems(3) by simp
  have go: "ends (run e (i + 1) s) (follow (access_handlers red (i + 1) hs s) K)"
    if s: "main s" "uri_changes s = of_nat (Suc n)" "access_handlers red i (h # hs) r = access_handlers red (i + 1) hs s" for s
    by (rule Cons.IH [where A = "A @ [ph]"]) (use Cons.prems L s in auto)
  show ?case
  proof (rule ask [OF red ok Cons.prems(4), of i])
    assume "answered e (ngx_http_core_run_phases e) (h (r\<lparr>phase_handler := i\<rparr>)) = None" "red (h (r\<lparr>phase_handler := i\<rparr>)) = None"
    then show ?thesis unfolding R using m by simp
  next
    fix rc q
    assume a: "answered e (ngx_http_core_run_phases e) (h (r\<lparr>phase_handler := i\<rparr>)) = Some (rc, q)" "red (h (r\<lparr>phase_handler := i\<rparr>)) = Some (rc, q)"
      and q: "goes_on Access_phase rc" "phase_handler q = i" "uri_changes q = of_nat (Suc n)" "main q = main r"
    define p where "p = q\<lparr>access_code := 0, www_authenticate := map_option (\<lambda>_. 0) (www_authenticate q)\<rparr>"
    define d where "d = q\<lparr>access_code := (if access_code q \<noteq> word_of_int NGX_HTTP_UNAUTHORIZED then word_of_int rc else access_code q)\<rparr>"
    let ?all = "l_satisfy (info (loc_conf q)) = NGX_HTTP_SATISFY_ALL"
    have mq: "main q" "main d" "uri_changes d = of_nat (Suc n)" "uri_changes p = of_nat (Suc n)" "access_code p = 0"
      using q Cons.prems(5) by (simp_all add: d_def p_def)
    have d': "rc \<noteq> NGX_AGAIN" "rc \<noteq> NGX_DONE" using q(1) goes_on_done [of Access_phase]
      by (auto simp: NGX_AGAIN_def NGX_OK_def NGX_DECLINED_def NGX_HTTP_FORBIDDEN_def NGX_HTTP_UNAUTHORIZED_def)
    have eq: "access_handlers red i (h # hs) r =
     (if rc = NGX_DECLINED then access_handlers red (i + 1) hs q
        else if rc = NGX_OK then if ?all then access_handlers red (i + 1) hs q else Some (Next p)
        else if ?all then Some (Halt (ngx_http_finalize_request q rc)) else access_handlers red (i + 1) hs d)"
      using a q(1) d' by (auto simp: p_def d_def)
    have chk: "run e i r = (if rc = NGX_DECLINED then run e (i + 1) q
        else if rc = NGX_OK then if ?all then run e (i + 1) q else run e ?j p
        else if ?all then Some (ngx_http_finalize_request q rc) else run e (i + 1) d)"
      unfolding R using m a q(1,2) d' by (auto simp: p_def d_def)
    consider (on) "rc = NGX_DECLINED \<or> rc = NGX_OK \<and> ?all" | (pass) "rc \<noteq> NGX_DECLINED" "rc = NGX_OK" "\<not> ?all"
      | (deny) "rc \<noteq> NGX_DECLINED" "rc \<noteq> NGX_OK" "\<not> ?all" | (fin) "rc \<noteq> NGX_DECLINED" "rc \<noteq> NGX_OK" ?all by blast
    then show ?thesis
    proof cases
      case on
      then have e1: "access_handlers red i (h # hs) r = access_handlers red (i + 1) hs q" unfolding eq by auto
      show ?thesis using go [OF mq(1) q(3) e1] on unfolding e1 chk by auto
    next
      case pass
      then have e1: "access_handlers red i (h # hs) r = Some (Next p)" unfolding eq by simp
      show ?thesis using Cons.prems(7) [OF e1 mq(4,5)] pass unfolding e1 chk by simp
    next
      case deny
      then have e1: "access_handlers red i (h # hs) r = access_handlers red (i + 1) hs d" unfolding eq by simp
      show ?thesis using go [OF mq(2,3) e1] deny unfolding e1 chk by simp
    next
      case fin
      then show ?thesis unfolding eq chk by simp
    qed
  next
    fix rc x y
    assume a: "answered e (ngx_http_core_run_phases e) (h (r\<lparr>phase_handler := i\<rparr>)) = Some (rc, x)" "red (h (r\<lparr>phase_handler := i\<rparr>)) = Some (rc, y)"
      and n: "\<not> goes_on Access_phase rc" "blank x = blank y"
    have "run e i r = Some (if rc = NGX_AGAIN \<or> rc = NGX_DONE then x else ngx_http_finalize_request x rc)"
      unfolding R using m a n(1) by simp
    moreover have "access_handlers red i (h # hs) r = Some (Halt (if rc = NGX_AGAIN \<or> rc = NGX_DONE then y else ngx_http_finalize_request y rc))"
      using a n(1) by simp
    ultimately show ?thesis using n(2) blank_finalize [of x y rc] by simp
  qed
qed

section \<open>The array\<close>

definition one :: "checker \<Rightarrow> nat \<Rightarrow> ('re, 'm) phase_handler_t" where
  "one chk n = \<lparr>ph_checker = chk, ph_handler = None, ph_next = n\<rparr>"

lemma put_simps [simp]:
  "eng (put s phs) = (eng s)\<lparr>handlers := handlers (eng s) @ phs\<rparr>" "count (put s phs) = count s" "find_config_index (put s phs) = find_config_index s"
  by (simp_all add: put_def)

lemma put_handlers_simps [simp]:
  "eng (put_handlers chk h s) = (eng s)\<lparr>handlers := handlers (eng s) @ seg chk (rev h) (count s + length h)\<rparr>"
  "count (put_handlers chk h s) = count s + length h" "find_config_index (put_handlers chk h s) = find_config_index s"
  by (simp_all add: put_handlers_def Let_def seg_def)

lemma init_layout:
  fixes cmcf :: "('re, 'm) main_conf"
  defines "P \<equiv> phases cmcf"
  shows "\<exists>n. handlers (ngx_http_init_phase_handlers cmcf) =
      seg Generic_phase (rev (P POST_READ_PHASE)) (length (P POST_READ_PHASE))
      @ seg Rewrite_phase (rev (P SERVER_REWRITE_PHASE)) (find_config_at cmcf)
      @ one Find_config_phase 0
      # seg Rewrite_phase (rev (P REWRITE_PHASE)) (Suc (find_config_at cmcf + length (P REWRITE_PHASE)))
      @ (if P REWRITE_PHASE = [] then [] else [one Post_rewrite_phase (find_config_at cmcf)])
      @ seg Generic_phase (rev (P PREACCESS_PHASE)) (access_at cmcf)
      @ seg Access_phase (rev (P ACCESS_PHASE)) (Suc (access_at cmcf + length (P ACCESS_PHASE)))
      @ (if P ACCESS_PHASE = [] then [] else [one Post_access_phase (Suc (access_at cmcf + length (P ACCESS_PHASE)))])
      @ (if try_files cmcf then [one Try_files_phase 0] else [])
      @ seg Content_phase (rev (P CONTENT_PHASE)) n"
    "server_rewrite_index (ngx_http_init_phase_handlers cmcf) = Some (length (P POST_READ_PHASE))"
    "location_rewrite_index (ngx_http_init_phase_handlers cmcf) = Some (Suc (find_config_at cmcf))"
  unfolding P_def ngx_http_init_phase_handlers_def phases_of_def
  by (simp add: init_phase_def Let_def one_def find_config_at_def preaccess_at_def access_at_def ac_simps, blast)
    (simp_all add: init_phase_def Let_def find_config_at_def)

text \<open>The array is written within the memory that is allocated for it.\<close>

lemma engine_fits: "length (handlers (ngx_http_init_phase_handlers cmcf)) \<le> engine_size cmcf"
proof -
  obtain n where "handlers (ngx_http_init_phase_handlers cmcf) =
      seg Generic_phase (rev (phases cmcf POST_READ_PHASE)) (length (phases cmcf POST_READ_PHASE))
      @ seg Rewrite_phase (rev (phases cmcf SERVER_REWRITE_PHASE)) (find_config_at cmcf)
      @ one Find_config_phase 0
      # seg Rewrite_phase (rev (phases cmcf REWRITE_PHASE)) (Suc (find_config_at cmcf + length (phases cmcf REWRITE_PHASE)))
      @ (if phases cmcf REWRITE_PHASE = [] then [] else [one Post_rewrite_phase (find_config_at cmcf)])
      @ seg Generic_phase (rev (phases cmcf PREACCESS_PHASE)) (access_at cmcf)
      @ seg Access_phase (rev (phases cmcf ACCESS_PHASE)) (Suc (access_at cmcf + length (phases cmcf ACCESS_PHASE)))
      @ (if phases cmcf ACCESS_PHASE = [] then [] else [one Post_access_phase (Suc (access_at cmcf + length (phases cmcf ACCESS_PHASE)))])
      @ (if try_files cmcf then [one Try_files_phase 0] else [])
      @ seg Content_phase (rev (phases cmcf CONTENT_PHASE)) n" using init_layout(1) by blast
  then show ?thesis by (simp add: engine_size_def phases_of_def)
qed

lemma run_one:
  assumes "handlers (engine e) = A @ one chk j # B" "i = length A"
  shows "run e i r = run_checker e (ngx_http_core_run_phases e) (r\<lparr>phase_handler := i\<rparr>) (one chk j) (B = []) \<bind> continue e"
  using run_at [OF assms] .

lemma one_simps [simp]: "ph_checker (one chk n) = chk" "ph_next (one chk n) = n"
  by (simp_all add: one_def)

section \<open>The engine handles a request as the phases do\<close>

lemma follow_assoc: "follow (follow x f) g = follow x (\<lambda>r. follow (f r) g)"
  by (cases x; cases "the x") auto

lemma serve_runs:
  assumes ok: "engine_ok e cmcf" and red: "red_ok e n red" and ch: "uri_changes r = of_nat (Suc n)"
  shows "ends (run e (preaccess_at cmcf) r) (serve_flow e cmcf red r)"
proof -
  let ?P = "phases cmcf"
  let ?m = "access_at cmcf + length (?P ACCESS_PHASE)"
  have hs: "\<forall>h \<in> set (rev (?P p)). handler_ok (checker_of p) h" for p using ok by (simp add: engine_ok_def)
  have fns: "\<And>f. handler_ok Content_phase (call_fn e f)" and files: "files_ok (test_files e)" using ok by (simp_all add: engine_ok_def)
  define A1 where "A1 = seg Generic_phase (rev (?P POST_READ_PHASE)) (length (?P POST_READ_PHASE))
      @ seg Rewrite_phase (rev (?P SERVER_REWRITE_PHASE)) (find_config_at cmcf)
      @ one Find_config_phase 0
      # seg Rewrite_phase (rev (?P REWRITE_PHASE)) (Suc (find_config_at cmcf + length (?P REWRITE_PHASE)))
      @ (if ?P REWRITE_PHASE = [] then [] else [one Post_rewrite_phase (find_config_at cmcf)])"
  define A2 where "A2 = A1 @ seg Generic_phase (rev (?P PREACCESS_PHASE)) (access_at cmcf)"
  define A3 where "A3 = A2 @ seg Access_phase (rev (?P ACCESS_PHASE)) (Suc ?m)"
  define A4 where "A4 = A3 @ (if ?P ACCESS_PHASE = [] then [] else [one Post_access_phase (Suc ?m)])"
  define A5 where "A5 = A4 @ (if try_files cmcf then [one Try_files_phase 0] else [])"
  have len: "preaccess_at cmcf = length A1" "access_at cmcf = length A2" "?m = length A3" "try_files_at cmcf = length A4" "content_at cmcf = length A5"
    by (simp_all add: A1_def A2_def A3_def A4_def A5_def preaccess_at_def find_config_at_def access_at_def try_files_at_def content_at_def)
  obtain j where L5: "handlers (engine e) = A5 @ seg Content_phase (rev (?P CONTENT_PHASE)) j"
    using init_layout(1) [of cmcf] ok by (auto simp: engine_ok_def A1_def A2_def A3_def A4_def A5_def)
  have content: "ends (run e (content_at cmcf) r) (content_handlers e red (content_at cmcf) (rev (?P CONTENT_PHASE)) r)"
    if "uri_changes r = of_nat (Suc n)" for r
    by (rule content_seg [OF L5 len(5) red _ fns that]) (use hs [of CONTENT_PHASE] in simp)
  have tried: "ends (run e (try_files_at cmcf) r) (after_access_flow e cmcf red r)" if ch: "uri_changes r = of_nat (Suc n)" for r
  proof (cases "try_files cmcf")
    case False
    then show ?thesis using content [OF ch] by (simp add: after_access_flow_def content_at_def)
  next
    case True
    have L: "handlers (engine e) = A4 @ one Try_files_phase 0 # seg Content_phase (rev (?P CONTENT_PHASE)) j"
      using L5 True by (simp add: A5_def)
    have c: "content_at cmcf = Suc (try_files_at cmcf)" using True by (simp add: content_at_def)
    note R = run_one [OF L len(4), of r, unfolded run_checker_def one_simps checker.simps ngx_http_core_try_files_phase_def]
    note f = files [unfolded files_ok_def, rule_format, of "r\<lparr>phase_handler := try_files_at cmcf\<rparr>"]
    show ?thesis
    proof (cases "test_files e (r\<lparr>phase_handler := try_files_at cmcf\<rparr>)")
      case No_files
      then show ?thesis unfolding R using content [OF ch] True c by (simp add: after_access_flow_def try_files_flow_def)
    next
      case (File q)
      then show ?thesis unfolding R using content [of q] True c f ch by (simp add: after_access_flow_def try_files_flow_def)
    next
      case (Give_up rc q)
      then show ?thesis unfolding R using True by (simp add: after_access_flow_def try_files_flow_def)
    next
      case (Fall_back a)
      then have "counted (\<lambda>r. uri_changes r = of_nat (Suc n)) a" using f ch by simp
      then have a: "case a of Code rc r \<Rightarrow> red a = Some (rc, r)
         | _ \<Rightarrow> (answered e (ngx_http_core_run_phases e) a = None \<and> red a = None)
             \<or> (\<exists>x y. answered e (ngx_http_core_run_phases e) a = Some (NGX_DONE, x) \<and> red a = Some (NGX_DONE, y) \<and> blank x = blank y)"
        using red unfolding red_ok_def by blast
      have "(answered e (ngx_http_core_run_phases e) a = None \<and> red a = None)
        \<or> (\<exists>rc x y. answered e (ngx_http_core_run_phases e) a = Some (rc, x) \<and> red a = Some (rc, y) \<and> blank x = blank y)"
        using a by (cases a) (auto simp: answered_def)
      then show ?thesis unfolding R using Fall_back True blank_finalize by (auto simp: after_access_flow_def try_files_flow_def)
    qed
  qed
  define C where "C = (\<lambda>r. follow (Some (step_flow (ngx_http_core_post_access_phase r))) (after_access_flow e cmcf red))"
  have after: "ends (run e (try_files_at cmcf) r) (after_access_flow e cmcf red (r\<lparr>phase_handler := i\<rparr>))" if "uri_changes r = of_nat (Suc n)" for r i
    using tried [of "r\<lparr>phase_handler := i\<rparr>"] that by simp
  have checked: "ends (run e ?m r) (C r)" if "?P ACCESS_PHASE \<noteq> []" "uri_changes r = of_nat (Suc n)" for r
  proof -
    have L: "handlers (engine e) = A3 @ one Post_access_phase (Suc ?m) # (if try_files cmcf then [one Try_files_phase 0] else []) @ seg Content_phase (rev (?P CONTENT_PHASE)) j"
      using L5 that by (simp add: A5_def A4_def)
    note R = run_one [OF L len(3), of r, unfolded run_checker_def one_simps checker.simps ngx_http_core_post_access_phase_def]
    have t: "try_files_at cmcf = Suc ?m" using that by (simp add: try_files_at_def)
    show ?thesis
    proof (cases "access_code r = 0")
      case True
      then show ?thesis unfolding R using after [OF that(2), of "phase_handler r + 1"] t
        by (simp add: C_def ngx_http_core_post_access_phase_def step_flow_def NGX_OK_def NGX_AGAIN_def continue_def)
    next
      case False
      then show ?thesis unfolding R by (simp add: C_def ngx_http_core_post_access_phase_def step_flow_def ngx_http_finalize_request_def)
    qed
  qed
  have skip: "ends (run e (Suc ?m) r) (C r)" if "?P ACCESS_PHASE \<noteq> []" "uri_changes r = of_nat (Suc n)" "access_code r = 0" for r
    using after [OF that(2), of "phase_handler r + 1"] that(1,3)
    by (simp add: C_def try_files_at_def ngx_http_core_post_access_phase_def step_flow_def NGX_OK_def NGX_AGAIN_def)
  define D where "D = (\<lambda>r. follow (access_flow red (access_at cmcf) (rev (?P ACCESS_PHASE)) r) (after_access_flow e cmcf red))"
  have allowed: "ends (run e (access_at cmcf) r) (D r)" if ch: "uri_changes r = of_nat (Suc n)" for r
  proof (cases "?P ACCESS_PHASE = []")
    case True
    then show ?thesis using tried [OF ch] by (simp add: D_def access_flow_def try_files_at_def)
  next
    case False
    have L: "handlers (engine e) = A2 @ seg Access_phase (rev (?P ACCESS_PHASE)) (Suc (access_at cmcf + length (rev (?P ACCESS_PHASE))))
        @ one Post_access_phase (Suc ?m) # (if try_files cmcf then [one Try_files_phase 0] else []) @ seg Content_phase (rev (?P CONTENT_PHASE)) j"
      using L5 False by (simp add: A5_def A4_def A3_def)
    show ?thesis
    proof (cases "main r")
      case True
      have "ends (run e (access_at cmcf) r) (follow (access_handlers red (access_at cmcf) (rev (?P ACCESS_PHASE)) r) C)"
        by (rule access_seg [OF L len(2) red _ ch True]) (use hs [of ACCESS_PHASE] checked skip False in auto)
      moreover have "D r = follow (access_handlers red (access_at cmcf) (rev (?P ACCESS_PHASE)) r) C"
        using True False by (simp add: D_def access_flow_def C_def follow_assoc)
      ultimately show ?thesis by simp
    next
      case no: False
      obtain h hs where h: "rev (?P ACCESS_PHASE) = h # hs" using False by (cases "rev (?P ACCESS_PHASE)") auto
      from run_at [OF L [unfolded h seg_simps append_Cons] len(2), of r]
      have "run e (access_at cmcf) r = run e (try_files_at cmcf) r"
        using no False h arg_cong [OF h, of length] by (simp add: run_checker_def ngx_http_core_access_phase_def try_files_at_def)
      then show ?thesis using tried [OF ch] no by (simp add: D_def access_flow_def)
    qed
  qed
  have L: "handlers (engine e) = A1 @ seg Generic_phase (rev (?P PREACCESS_PHASE)) (access_at cmcf)
      @ seg Access_phase (rev (?P ACCESS_PHASE)) (Suc ?m) @ (if ?P ACCESS_PHASE = [] then [] else [one Post_access_phase (Suc ?m)])
      @ (if try_files cmcf then [one Try_files_phase 0] else []) @ seg Content_phase (rev (?P CONTENT_PHASE)) j"
    using L5 by (simp add: A5_def A4_def A3_def A2_def)
  have "ends (run e (preaccess_at cmcf) r) (follow (generic_handlers red (preaccess_at cmcf) (rev (?P PREACCESS_PHASE)) r) D)"
    by (rule generic_seg [OF L len(1) _ red _ ch]) (use hs [of PREACCESS_PHASE] allowed in \<open>simp_all add: access_at_def\<close>)
  then show "ends (run e (preaccess_at cmcf) r) (serve_flow e cmcf red r)" unfolding serve_flow_def D_def .
qed

lemma update_simps [simp]:
  "update_content_handler (r\<lparr>phase_handler := i\<rparr>) = (update_content_handler r)\<lparr>phase_handler := i\<rparr>"
  "content_length_n (update_content_handler r) = content_length_n r" "discard_body (update_content_handler r) = discard_body r"
  "uri_changes (update_content_handler r) = uri_changes r" "main (update_content_handler r) = main r" "uri (update_content_handler r) = uri r"
  "loc_conf (update_content_handler r) = loc_conf r"
  by (simp_all add: update_content_handler_def split: option.split)

lemma redirect_simps [simp]:
  "uri_changes (redirected e u g r) = uri_changes r" "uri_changes (at_location e c r) = uri_changes r"
  "internal (redirected e u g r)" "uri (redirected e u g r) = u" "loc_conf (redirected e u g r) = srv_loc_conf e" "uri (at_location e c r) = uri r"
  by (simp_all add: redirected_def at_location_def)

lemma config_keeps:
  fixes r :: "('re, 'm) request"
  shows "ngx_http_core_find_config_phase e (r\<lparr>phase_handler := i\<rparr>) =
    map_option (\<lambda>(rc, r'). (rc, r'\<lparr>phase_handler := if rc = NGX_OK then i else i + 1\<rparr>)) (ngx_http_core_find_config_phase e r)"
  (is "_ = map_option ?g _")
    and config_counts: "ngx_http_core_find_config_phase e r = Some (rc, r') \<Longrightarrow> uri_changes r' = uri_changes r \<and> (rc = NGX_OK \<or> rc = NGX_AGAIN)"
proof -
  have ne: "NGX_AGAIN \<noteq> NGX_OK" by (simp add: NGX_AGAIN_def NGX_OK_def)
  have g: "?g (NGX_OK, q) = (NGX_OK, q\<lparr>phase_handler := i\<rparr>)" "?g (NGX_AGAIN, q) = (NGX_AGAIN, q\<lparr>phase_handler := i + 1\<rparr>)" for q :: "('re, 'm) request"
    using ne by simp_all
  show "ngx_http_core_find_config_phase e (r\<lparr>phase_handler := i\<rparr>) = map_option ?g (ngx_http_core_find_config_phase e r)"
  proof (cases "ngx_http_core_find_location (regex_exec e) (uri r) (loc_conf r)")
    case None
    then show ?thesis by (simp add: ngx_http_core_find_config_phase_def Let_def)
  next
    case (Some a)
    obtain code loc where a: "a = (code, loc)" by (cases a)
    show ?thesis unfolding ngx_http_core_find_config_phase_def Let_def using Some a ne
      by (cases "l_handler (info loc)") (simp_all add: update_content_handler_def ngx_http_finalize_request_def)
  qed
  show "ngx_http_core_find_config_phase e r = Some (rc, r') \<Longrightarrow> uri_changes r' = uri_changes r \<and> (rc = NGX_OK \<or> rc = NGX_AGAIN)"
    unfolding ngx_http_core_find_config_phase_def Let_def
    by (cases "ngx_http_core_find_location (regex_exec e) (uri r) (loc_conf r)") (auto split: if_splits)
qed

text \<open>A request that was rewritten is counted, and begins again with the settings of the server.\<close>

definition again_ok :: "('re, 'm) env \<Rightarrow> ('re, 'm) main_conf \<Rightarrow> nat \<Rightarrow> (('re, 'm) request \<Rightarrow> ('re, 'm) request flow option) \<Rightarrow> bool" where
  "again_ok e cmcf n again \<longleftrightarrow>
     (\<forall>r. uri_changes r = of_nat (Suc n) \<longrightarrow>
        (if n = 0 then again r = Some (Halt (give_up (r\<lparr>uri_changes := 0\<rparr>)))
         else ends (run e (find_config_at cmcf) (r\<lparr>uri_changes := of_nat n, loc_conf := srv_loc_conf e\<rparr>)) (again r)))"

lemma four_bits: "n < 16 \<Longrightarrow> (of_nat n :: 4 word) = 0 \<longleftrightarrow> n = 0"
  by (auto simp: word_of_nat_eq_0_iff dest: dvd_imp_le)

lemma flows_run:
  assumes ok: "engine_ok e cmcf" and red: "red_ok e n red" and again: "again_ok e cmcf n again" and n: "n < 16"
    and ch: "uri_changes r = of_nat (Suc n)"
  shows rewrite_runs: "ends (run e (Suc (find_config_at cmcf)) r) (rewrite_flow e cmcf red again r)"
    and located_runs: "ends (run e (find_config_at cmcf) r) (located_flow e cmcf red again r)"
    and request_runs: "ends (ngx_http_handler_by e (ngx_http_core_run_phases e) r) (request_flow e cmcf red again r)"
proof -
  let ?P = "phases cmcf"
  have hs: "\<forall>h \<in> set (rev (?P p)). handler_ok (checker_of p) h" for p using ok by (simp add: engine_ok_def)
  define A0 where "A0 = seg Generic_phase (rev (?P POST_READ_PHASE)) (length (?P POST_READ_PHASE))"
  define A1 where "A1 = A0 @ seg Rewrite_phase (rev (?P SERVER_REWRITE_PHASE)) (find_config_at cmcf)"
  define A2 where "A2 = A1 @ [one Find_config_phase 0]"
  define A3 where "A3 = A2 @ seg Rewrite_phase (rev (?P REWRITE_PHASE)) (Suc (find_config_at cmcf + length (?P REWRITE_PHASE)))"
  have len: "length (?P POST_READ_PHASE) = length A0" "find_config_at cmcf = length A1" "Suc (find_config_at cmcf) = length A2"
    "Suc (find_config_at cmcf + length (?P REWRITE_PHASE)) = length A3"
    by (simp_all add: A0_def A1_def A2_def A3_def find_config_at_def)
  obtain B where L: "handlers (engine e) = A3 @ (if ?P REWRITE_PHASE = [] then [] else [one Post_rewrite_phase (find_config_at cmcf)]) @ B"
    using init_layout(1) [of cmcf] ok by (auto simp: engine_ok_def A0_def A1_def A2_def A3_def)
  define K where "K = (\<lambda>r. if ?P REWRITE_PHASE = [] \<or> \<not> uri_changed r then serve_flow e cmcf red r else again r)"
  have post: "ends (run e (Suc (find_config_at cmcf + length (?P REWRITE_PHASE))) r) (K r)" if ch: "uri_changes r = of_nat (Suc n)" for r
  proof (cases "?P REWRITE_PHASE = []")
    case True
    then show ?thesis using serve_runs [OF ok red ch] by (simp add: K_def preaccess_at_def)
  next
    case False
    have "handlers (engine e) = A3 @ one Post_rewrite_phase (find_config_at cmcf) # B" using L False by simp
    note R = run_one [OF this len(4), of r, unfolded run_checker_def one_simps checker.simps ngx_http_core_post_rewrite_phase_def]
    show ?thesis
    proof (cases "uri_changed r")
      case un: False
      then show ?thesis unfolding R using serve_runs [OF ok red ch] False by (simp add: K_def preaccess_at_def)
    next
      case True
      have c: "uri_changes r - 1 = of_nat n" using ch by simp
      note ag = again [unfolded again_ok_def, rule_format, OF ch]
      have sw: "r\<lparr>uri_changes := of_nat n, phase_handler := j, loc_conf := s\<rparr> = r\<lparr>uri_changes := of_nat n, loc_conf := s, phase_handler := j\<rparr>" for j s
        by simp
      show ?thesis
      proof (cases "n = 0")
        case z: True
        then show ?thesis unfolding R using True c False ag by (simp add: K_def Let_def give_up_def ngx_http_finalize_request_def)
      next
        case nz: False
        have "ends (run e (find_config_at cmcf) (r\<lparr>uri_changes := of_nat n, loc_conf := srv_loc_conf e\<rparr>)) (K r)" using ag nz True False by (simp add: K_def)
        moreover have "run e (Suc (find_config_at cmcf + length (?P REWRITE_PHASE))) r = run e (find_config_at cmcf) (r\<lparr>uri_changes := of_nat n, loc_conf := srv_loc_conf e\<rparr>)"
          unfolding R using True c four_bits [OF n] nz by (simp add: Let_def sw)
        ultimately show ?thesis by simp
      qed
    qed
  qed
  have L2: "handlers (engine e) = A2 @ seg Rewrite_phase (rev (?P REWRITE_PHASE)) (Suc (find_config_at cmcf + length (?P REWRITE_PHASE)))
      @ (if ?P REWRITE_PHASE = [] then [] else [one Post_rewrite_phase (find_config_at cmcf)]) @ B" using L by (simp add: A3_def)
  have rewritten: "ends (run e (Suc (find_config_at cmcf)) r) (rewrite_flow e cmcf red again r)"
    if ch: "uri_changes r = of_nat (Suc n)" for r
    unfolding rewrite_flow_def K_def [symmetric]
    by (rule rewrite_seg [OF L2 len(3) red _ ch]) (use hs [of REWRITE_PHASE] post in simp_all)
  then show "ends (run e (Suc (find_config_at cmcf)) r) (rewrite_flow e cmcf red again r)" using ch .
  have L1: "handlers (engine e) = A1 @ one Find_config_phase 0 # seg Rewrite_phase (rev (?P REWRITE_PHASE)) (Suc (find_config_at cmcf + length (?P REWRITE_PHASE)))
      @ (if ?P REWRITE_PHASE = [] then [] else [one Post_rewrite_phase (find_config_at cmcf)]) @ B" using L by (simp add: A3_def A2_def)
  have located: "ends (run e (find_config_at cmcf) r) (located_flow e cmcf red again r)" if ch: "uri_changes r = of_nat (Suc n)" for r
  proof -
    note R = run_one [OF L1 len(2), of r]
    show ?thesis
    proof (cases "ngx_http_core_find_config_phase e r")
      case None
      then show ?thesis unfolding R by (simp add: run_checker_def config_keeps located_flow_def)
    next
      case (Some a)
      obtain rc q where a: "a = (rc, q)" by (cases a)
      have q: "uri_changes q = of_nat (Suc n)" "rc = NGX_OK \<or> rc = NGX_AGAIN" using config_counts [OF Some [unfolded a]] ch by simp_all
      have ne: "NGX_AGAIN \<noteq> NGX_OK" by (simp add: NGX_AGAIN_def NGX_OK_def)
      show ?thesis unfolding R using Some a rewritten [OF q(1)] q(2) ne
        by (auto simp: run_checker_def config_keeps step_flow_def located_flow_def continue_def)
    qed
  qed
  then show "ends (run e (find_config_at cmcf) r) (located_flow e cmcf red again r)" using ch .
  have Ls: "handlers (engine e) = A0 @ seg Rewrite_phase (rev (?P SERVER_REWRITE_PHASE)) (find_config_at cmcf)
      @ one Find_config_phase 0 # seg Rewrite_phase (rev (?P REWRITE_PHASE)) (Suc (find_config_at cmcf + length (?P REWRITE_PHASE)))
      @ (if ?P REWRITE_PHASE = [] then [] else [one Post_rewrite_phase (find_config_at cmcf)]) @ B" using L1 by (simp add: A1_def)
  have server: "ends (run e (length (?P POST_READ_PHASE)) r) (server_flow e cmcf red again r)" if ch: "uri_changes r = of_nat (Suc n)" for r
    unfolding server_flow_def
    by (rule rewrite_seg [OF Ls len(1) red _ ch]) (use hs [of SERVER_REWRITE_PHASE] located in \<open>simp_all add: find_config_at_def\<close>)
  have L0: "handlers (engine e) = [] @ seg Generic_phase (rev (?P POST_READ_PHASE)) (length (?P POST_READ_PHASE))
      @ seg Rewrite_phase (rev (?P SERVER_REWRITE_PHASE)) (find_config_at cmcf)
      @ one Find_config_phase 0 # seg Rewrite_phase (rev (?P REWRITE_PHASE)) (Suc (find_config_at cmcf + length (?P REWRITE_PHASE)))
      @ (if ?P REWRITE_PHASE = [] then [] else [one Post_rewrite_phase (find_config_at cmcf)]) @ B"
    using Ls by (simp add: A0_def)
  have "ends (run e 0 r) (follow (generic_handlers red 0 (rev (?P POST_READ_PHASE)) r) (server_flow e cmcf red again))"
    by (rule generic_seg [OF L0 _ _ red _ ch]) (use hs [of POST_READ_PHASE] server in simp_all)
  then show "ends (ngx_http_handler_by e (ngx_http_core_run_phases e) r) (request_flow e cmcf red again r)"
    using server [OF ch] init_layout(2) [of cmcf] ok by (simp add: ngx_http_handler_by_def request_flow_def engine_ok_def)
qed

lemma ends_done:
  assumes "ends x y"
  shows "(x \<bind> (\<lambda>r. Some (NGX_DONE, r)) = None \<and> done_with y = None)
    \<or> (\<exists>p q. x \<bind> (\<lambda>r. Some (NGX_DONE, r)) = Some (NGX_DONE, p) \<and> done_with y = Some (NGX_DONE, q) \<and> blank p = blank q)"
  using assms by (cases x; cases y) (auto simp: ends_def done_with_def)

lemma changes_run:
  assumes ok: "engine_ok e cmcf"
  shows "n < 16 \<Longrightarrow> red_ok e n (fst (changes e cmcf n)) \<and> again_ok e cmcf n (snd (changes e cmcf n))"
proof (induction n)
  case 0
  show ?case
    by (auto simp: red_ok_def again_ok_def answered_def ngx_http_internal_redirect_def ngx_http_named_location_def give_up_def split: answer.split)
next
  case (Suc n)
  obtain red again where c: "changes e cmcf n = (red, again)" by (cases "changes e cmcf n")
  have IH: "red_ok e n red" "again_ok e cmcf n again" "n < 16" using Suc c by simp_all
  have z: "(of_nat (Suc n) :: 4 word) \<noteq> 0" using four_bits [of "Suc n"] Suc.prems by (simp only: nat.distinct not_False_eq_True)
  have "red_ok e (Suc n) (fst (changes e cmcf (Suc n)))"
    unfolding red_ok_def
  proof (intro allI impI)
    fix a :: "('a, 'b) answer"
    assume a: "counted (\<lambda>r. uri_changes r = of_nat (Suc (Suc n))) a"
    show "case a of Code rc r \<Rightarrow> fst (changes e cmcf (Suc n)) a = Some (rc, r)
         | _ \<Rightarrow> (answered e (ngx_http_core_run_phases e) a = None \<and> fst (changes e cmcf (Suc n)) a = None)
             \<or> (\<exists>x y. answered e (ngx_http_core_run_phases e) a = Some (NGX_DONE, x) \<and> fst (changes e cmcf (Suc n)) a = Some (NGX_DONE, y) \<and> blank x = blank y)"
    proof (cases a)
      case (Code rc r)
      then show ?thesis by (simp add: c)
    next
      case (Redirect u g r)
      then have "uri_changes r - 1 = of_nat (Suc n)" using a by simp
      then have e1: "answered e (ngx_http_core_run_phases e) a =
          ngx_http_handler_by e (ngx_http_core_run_phases e) (redirected e u g (r\<lparr>uri_changes := of_nat (Suc n)\<rparr>)) \<bind> (\<lambda>r. Some (NGX_DONE, r))"
        using Redirect z by (simp add: answered_def ngx_http_internal_redirect_def Let_def del: of_nat_Suc)
      have e2: "fst (changes e cmcf (Suc n)) a = done_with (request_flow e cmcf red again (redirected e u g (r\<lparr>uri_changes := of_nat (Suc n)\<rparr>)))"
        using Redirect by (simp add: c)
      have "ends (ngx_http_handler_by e (ngx_http_core_run_phases e) (redirected e u g (r\<lparr>uri_changes := of_nat (Suc n)\<rparr>)))
          (request_flow e cmcf red again (redirected e u g (r\<lparr>uri_changes := of_nat (Suc n)\<rparr>)))"
        by (rule request_runs [OF ok IH]) (simp del: of_nat_Suc)
      from ends_done [OF this] show ?thesis unfolding e1 e2 by (simp add: Redirect)
    next
      case (Named nm r)
      let ?r = "r\<lparr>uri_changes := of_nat (Suc n)\<rparr>"
      have "uri_changes r - 1 = of_nat (Suc n)" using a Named by simp
      then have e1: "answered e (ngx_http_core_run_phases e) a =
         (if uri r = [] then Some (NGX_DONE, give_up ?r)
          else (case find (\<lambda>c. l_name (info c) = nm) (named_locations e) of
             None \<Rightarrow> Some (NGX_DONE, give_up ?r)
           | Some c \<Rightarrow> run e (Suc (find_config_at cmcf)) (at_location e c ?r) \<bind> (\<lambda>r. Some (NGX_DONE, r))))"
        using Named z ok init_layout(3) [of cmcf]
        by (simp add: answered_def ngx_http_named_location_def Let_def give_up_def engine_ok_def del: of_nat_Suc split: option.split)
      have e2: "fst (changes e cmcf (Suc n)) a =
         (if uri r = [] then Some (NGX_DONE, give_up ?r)
          else (case find (\<lambda>c. l_name (info c) = nm) (named_locations e) of
             None \<Rightarrow> Some (NGX_DONE, give_up ?r)
           | Some c \<Rightarrow> done_with (rewrite_flow e cmcf red again (at_location e c ?r))))"
        using Named by (simp add: c Let_def del: of_nat_Suc)
      show ?thesis
      proof (cases "uri r = [] \<or> find (\<lambda>c. l_name (info c) = nm) (named_locations e) = None")
        case True
        then show ?thesis unfolding e1 e2 by (auto simp: Named)
      next
        case False
        then obtain l where l: "find (\<lambda>c. l_name (info c) = nm) (named_locations e) = Some l" by blast
        have "ends (run e (Suc (find_config_at cmcf)) (at_location e l ?r)) (rewrite_flow e cmcf red again (at_location e l ?r))"
          by (rule rewrite_runs [OF ok IH]) (simp del: of_nat_Suc)
        from ends_done [OF this] show ?thesis unfolding e1 e2 using False l by (simp add: Named)
      qed
    qed
  qed
  moreover have "again_ok e cmcf (Suc n) (snd (changes e cmcf (Suc n)))"
    unfolding again_ok_def using located_runs [OF ok IH] by (simp add: c del: of_nat_Suc)
  ultimately show ?case by blast
qed

lemma handler_runs:
  assumes "engine_ok e cmcf"
  shows "ends (ngx_http_handler e r) (phase_flow e cmcf r)"
proof -
  have n: "changes_left r < 16" using unsigned_less [of "uri_changes r - 1"] by (simp add: changes_left_def)
  have ch: "uri_changes r = of_nat (Suc (changes_left r))" by (simp add: changes_left_def)
  obtain red again where c: "changes e cmcf (changes_left r) = (red, again)" by (cases "changes e cmcf (changes_left r)")
  show ?thesis using request_runs [OF assms _ _ n ch, of red again] changes_run [OF assms n] c
    by (simp add: ngx_http_handler_def phase_flow_def)
qed

text \<open>
  C9. The array of the phase engine and its jumps handle a request as the phases of the configuration do one after the
  other: the handlers of a phase are asked from the one registered last, the location is searched for again with what a
  request is rewritten to, the access phase is left when it is decided, and content is made by the location's own
  function or by the first handler that does not decline. An internal redirect, or one to a named location, that a
  handler or \<^verbatim>\<open>try_files\<close> ends with goes through the phases again before the handler's caller sees \<^verbatim>\<open>NGX_DONE\<close>. Rewritten
  URIs and redirects are counted together, and with the last one the request is given up.
\<close>

theorem phases_in_order:
  assumes "engine_ok e cmcf"
  shows "ends (ngx_http_handler e r) (phase_flow e cmcf r)"
  using assms by (rule handler_runs)

section \<open>Every request is answered\<close>

definition leaves :: "checker \<Rightarrow> (('re, 'm) request \<Rightarrow> bool) \<Rightarrow> ('re, 'm) handler \<Rightarrow> bool" where
  "leaves chk P h \<longleftrightarrow>
     (\<forall>r. P r \<longrightarrow> (case h r of Code rc r' \<Rightarrow> goes_on chk rc \<longrightarrow> P r' | Redirect u g r' \<Rightarrow> u \<noteq> [] | Named nm r' \<Rightarrow> True))"

definition has_uri :: "('re, 'm) request \<Rightarrow> bool" where
  "has_uri r \<longleftrightarrow> uri r \<noteq> []"

definition at_server :: "('re, 'm) env \<Rightarrow> ('re, 'm) request \<Rightarrow> bool" where
  "at_server e r \<longleftrightarrow> uri r \<noteq> [] \<and> loc_conf r = srv_loc_conf e"

text \<open>What the modules keep: a URI, and before the search for the location, the settings of the server. They do not redirect to an empty URI.\<close>

definition modules_ok :: "('re, 'm) env \<Rightarrow> ('re, 'm) main_conf \<Rightarrow> bool" where
  "modules_ok e cmcf \<longleftrightarrow>
     (\<forall>p. \<forall>h \<in> set (phases cmcf p). leaves (checker_of p) has_uri h) \<and> (\<forall>f. leaves Content_phase has_uri (call_fn e f))
     \<and> (\<forall>r. uri r \<noteq> [] \<longrightarrow> (case test_files e r of File r' \<Rightarrow> uri r' \<noteq> [] | Fall_back (Redirect u g r') \<Rightarrow> u \<noteq> [] | _ \<Rightarrow> True))
     \<and> (\<forall>p \<in> {POST_READ_PHASE, SERVER_REWRITE_PHASE}. \<forall>h \<in> set (phases cmcf p). leaves (checker_of p) (at_server e) h)"

definition red_total :: "('re, 'm) answers \<Rightarrow> bool" where
  "red_total red \<longleftrightarrow>
     (\<forall>rc r. red (Code rc r) = Some (rc, r)) \<and> (\<forall>u g r. u \<noteq> [] \<longrightarrow> (\<exists>q. red (Redirect u g r) = Some (NGX_DONE, q)))
     \<and> (\<forall>nm r. \<exists>q. red (Named nm r) = Some (NGX_DONE, q))"

lemma ask_leaves:
  assumes "red_total red" "leaves chk P h" "P r"
  obtains rc q where "red (h r) = Some (rc, q)" "goes_on chk rc \<longrightarrow> P q"
proof -
  note l = assms(2) [unfolded leaves_def, rule_format, OF assms(3)]
  show thesis
  proof (cases "h r")
    case (Code rc q)
    then show thesis using that [of rc q] l assms(1) by (simp add: red_total_def)
  next
    case (Redirect u g q)
    then have "u \<noteq> []" using l by simp
    then obtain q' where "red (h r) = Some (NGX_DONE, q')" using assms(1) Redirect unfolding red_total_def by metis
    then show thesis using that goes_on_done by blast
  next
    case (Named nm q)
    then obtain q' where "red (h r) = Some (NGX_DONE, q')" using assms(1) unfolding red_total_def by metis
    then show thesis using that goes_on_done by blast
  qed
qed

lemma generic_total:
  assumes "red_total red" and P: "\<And>r i. P (r\<lparr>phase_handler := i\<rparr>) = P r"
  shows "\<forall>h \<in> set hs. leaves Generic_phase P h \<Longrightarrow> P r \<Longrightarrow> \<exists>f. generic_handlers red i hs r = Some f \<and> (\<forall>r'. f = Next r' \<longrightarrow> P r')"
proof (induction hs arbitrary: i r)
  case (Cons h hs)
  have l: "leaves Generic_phase P h" "P (r\<lparr>phase_handler := i\<rparr>)" using Cons.prems P by simp_all
  obtain rc q where q: "red (h (r\<lparr>phase_handler := i\<rparr>)) = Some (rc, q)" "goes_on Generic_phase rc \<longrightarrow> P q" by (rule ask_leaves [OF assms(1) l])
  show ?case using Cons.IH [of q "Suc i"] Cons.prems(1) q by auto
qed simp

lemma rewrite_total:
  assumes "red_total red" and P: "\<And>r i. P (r\<lparr>phase_handler := i\<rparr>) = P r"
  shows "\<forall>h \<in> set hs. leaves Rewrite_phase P h \<Longrightarrow> P r \<Longrightarrow> \<exists>f. rewrite_handlers red i hs r = Some f \<and> (\<forall>r'. f = Next r' \<longrightarrow> P r')"
proof (induction hs arbitrary: i r)
  case (Cons h hs)
  have l: "leaves Rewrite_phase P h" "P (r\<lparr>phase_handler := i\<rparr>)" using Cons.prems P by simp_all
  obtain rc q where q: "red (h (r\<lparr>phase_handler := i\<rparr>)) = Some (rc, q)" "goes_on Rewrite_phase rc \<longrightarrow> P q" by (rule ask_leaves [OF assms(1) l])
  show ?case using Cons.IH [of q "Suc i"] Cons.prems(1) q by auto
qed simp

lemma has_uri_simps [simp]:
  "has_uri (r\<lparr>phase_handler := i\<rparr>) = has_uri r" "has_uri (r\<lparr>access_code := a\<rparr>) = has_uri r" "has_uri (r\<lparr>www_authenticate := w\<rparr>) = has_uri r"
  "has_uri (r\<lparr>uri_changes := k\<rparr>) = has_uri r" "has_uri (r\<lparr>loc_conf := c\<rparr>) = has_uri r" "at_server e (r\<lparr>phase_handler := i\<rparr>) = at_server e r"
  by (simp_all add: has_uri_def at_server_def)

lemma access_total:
  assumes "red_total red"
  shows "\<forall>h \<in> set hs. leaves Access_phase has_uri h \<Longrightarrow> has_uri r \<Longrightarrow> \<exists>f. access_handlers red i hs r = Some f \<and> (\<forall>r'. f = Next r' \<longrightarrow> has_uri r')"
proof (induction hs arbitrary: i r)
  case (Cons h hs)
  have l: "leaves Access_phase has_uri h" "has_uri (r\<lparr>phase_handler := i\<rparr>)" using Cons.prems by simp_all
  obtain rc q where q: "red (h (r\<lparr>phase_handler := i\<rparr>)) = Some (rc, q)" "goes_on Access_phase rc \<longrightarrow> has_uri q" by (rule ask_leaves [OF assms l])
  have IH: "\<exists>f. access_handlers red (Suc i) hs s = Some f \<and> (\<forall>r'. f = Next r' \<longrightarrow> has_uri r')" if "has_uri s" for s
    using Cons.IH [OF _ that] Cons.prems(1) by simp
  show ?case
  proof (cases "goes_on Access_phase rc")
    case True
    then have u: "has_uri q" using q(2) by blast
    have a: "\<exists>f. access_handlers red (Suc i) hs (q\<lparr>access_code := a\<rparr>) = Some f \<and> (\<forall>r'. f = Next r' \<longrightarrow> has_uri r')" for a using IH u by simp
    show ?thesis using q(1) u by (simp add: IH [OF u] a)
  next
    case False
    then show ?thesis using q(1) by simp
  qed
qed simp

lemma content_total:
  assumes "red_total red" and fns: "\<And>f. leaves Content_phase has_uri (call_fn e f)"
  shows "\<forall>h \<in> set hs. leaves Content_phase has_uri h \<Longrightarrow> has_uri r \<Longrightarrow> content_handlers e red i hs r \<noteq> None"
proof (induction hs arbitrary: i r)
  case (Cons h hs)
  have u: "has_uri (r\<lparr>phase_handler := i\<rparr>)" using Cons.prems by simp
  show ?case
  proof (cases "content_handler r")
    case (Some f)
    obtain rc q where "red (call_fn e f (r\<lparr>phase_handler := i\<rparr>)) = Some (rc, q)" by (rule ask_leaves [OF assms(1) fns u])
    then show ?thesis using Some by simp
  next
    case None
    have l: "leaves Content_phase has_uri h" using Cons.prems by simp
    obtain rc q where q: "red (h (r\<lparr>phase_handler := i\<rparr>)) = Some (rc, q)" "goes_on Content_phase rc \<longrightarrow> has_uri q" by (rule ask_leaves [OF assms(1) l u])
    then show ?thesis using None Cons.IH [of q "Suc i"] Cons.prems(1) by (auto simp: has_uri_def)
  qed
qed simp

lemma follow_total: "\<exists>f. x = Some f \<and> (\<forall>r. f = Next r \<longrightarrow> P r) \<Longrightarrow> (\<And>r. P r \<Longrightarrow> k r \<noteq> None) \<Longrightarrow> follow x k \<noteq> None"
  by (cases x; cases "the x") auto

lemma serve_total:
  assumes m: "modules_ok e cmcf" and red: "red_total red" and u: "has_uri r"
  shows "serve_flow e cmcf red r \<noteq> None"
proof -
  have hs: "\<forall>h \<in> set (rev (phases cmcf p)). leaves (checker_of p) has_uri h" for p using m by (simp add: modules_ok_def)
  have fns: "\<And>f. leaves Content_phase has_uri (call_fn e f)" using m by (simp add: modules_ok_def)
  have after: "after_access_flow e cmcf red r \<noteq> None" if u: "has_uri r" for r
    unfolding after_access_flow_def
  proof (rule follow_total [where P = has_uri])
    have t: "case test_files e (r\<lparr>phase_handler := i\<rparr>) of File r' \<Rightarrow> uri r' \<noteq> [] | Fall_back (Redirect u g r') \<Rightarrow> u \<noteq> [] | _ \<Rightarrow> True" for i
      using m u by (simp add: modules_ok_def has_uri_def)
    show "\<exists>f. (if try_files cmcf then try_files_flow e red (try_files_at cmcf) r else Some (Next r)) = Some f \<and> (\<forall>r'. f = Next r' \<longrightarrow> has_uri r')"
    proof (cases "try_files cmcf")
      case True
      show ?thesis
      proof (cases "test_files e (r\<lparr>phase_handler := try_files_at cmcf\<rparr>)")
        case (Fall_back a)
        have "\<exists>rc q. red a = Some (rc, q)"
          using red t [of "try_files_at cmcf"] Fall_back by (cases a) (auto simp: red_total_def, blast+)
        then show ?thesis using True Fall_back by (auto simp: try_files_flow_def)
      qed (use True u t [of "try_files_at cmcf"] in \<open>auto simp: try_files_flow_def has_uri_def\<close>)
    qed (use u in simp)
  qed (rule content_total [OF red fns], use hs [of CONTENT_PHASE] in simp_all)
  have access: "follow (access_flow red i (rev (phases cmcf ACCESS_PHASE)) r) (after_access_flow e cmcf red) \<noteq> None" if u: "has_uri r" for r i
  proof (rule follow_total [where P = has_uri])
    obtain f where f: "access_handlers red i (rev (phases cmcf ACCESS_PHASE)) r = Some f" "\<And>r'. f = Next r' \<Longrightarrow> has_uri r'"
      using access_total [OF red _ u, of "rev (phases cmcf ACCESS_PHASE)" i] hs [of ACCESS_PHASE] by auto
    show "\<exists>f. access_flow red i (rev (phases cmcf ACCESS_PHASE)) r = Some f \<and> (\<forall>r'. f = Next r' \<longrightarrow> has_uri r')"
      using u f by (cases f) (auto simp: access_flow_def step_flow_def ngx_http_core_post_access_phase_def)
  qed (rule after)
  show ?thesis unfolding serve_flow_def
    by (rule follow_total [where P = has_uri, OF generic_total [where P = has_uri, OF red _ _ u]]) (use hs [of PREACCESS_PHASE] access in simp_all)
qed

lemma config_total:
  assumes "ngx_http_core_find_location (regex_exec e) (uri r) (loc_conf r) \<noteq> None" "has_uri r"
  shows "\<exists>f. map_option step_flow (ngx_http_core_find_config_phase e r) = Some f \<and> (\<forall>r'. f = Next r' \<longrightarrow> has_uri r')"
proof -
  obtain rc loc where "ngx_http_core_find_location (regex_exec e) (uri r) (loc_conf r) = Some (rc, loc)" using assms(1) by auto
  then show ?thesis using assms(2) unfolding ngx_http_core_find_config_phase_def Let_def
    by (auto simp: has_uri_def step_flow_def)
qed

definition again_total :: "(('re, 'm) request \<Rightarrow> ('re, 'm) request flow option) \<Rightarrow> bool" where
  "again_total again \<longleftrightarrow> (\<forall>r. has_uri r \<longrightarrow> again r \<noteq> None)"

lemma flows_total:
  assumes m: "modules_ok e cmcf" and s: "\<And>u. ngx_http_core_find_location (regex_exec e) u (srv_loc_conf e) \<noteq> None"
    and red: "red_total red" and again: "again_total again"
  shows rewrite_flow_total: "has_uri r \<Longrightarrow> rewrite_flow e cmcf red again r \<noteq> None"
    and located_flow_total: "at_server e r \<Longrightarrow> located_flow e cmcf red again r \<noteq> None"
    and request_flow_total: "at_server e r \<Longrightarrow> request_flow e cmcf red again r \<noteq> None"
proof -
  have hs: "\<forall>h \<in> set (rev (phases cmcf p)). leaves (checker_of p) has_uri h" for p using m by (simp add: modules_ok_def)
  have hc: "\<forall>h \<in> set (rev (phases cmcf POST_READ_PHASE)). leaves Generic_phase (at_server e) h"
    "\<forall>h \<in> set (rev (phases cmcf SERVER_REWRITE_PHASE)). leaves Rewrite_phase (at_server e) h" using m by (simp_all add: modules_ok_def)
  have rewrite: "rewrite_flow e cmcf red again r \<noteq> None" if u: "has_uri r" for r
    unfolding rewrite_flow_def
    by (rule follow_total [where P = has_uri, OF rewrite_total [where P = has_uri, OF red _ _ u]])
      (use hs [of REWRITE_PHASE] serve_total [OF m red] again in \<open>simp_all add: again_total_def\<close>)
  have located: "located_flow e cmcf red again r \<noteq> None" if c: "at_server e r" for r
    unfolding located_flow_def
    by (rule follow_total [where P = has_uri, OF config_total]) (use c s rewrite in \<open>simp_all add: at_server_def has_uri_def\<close>)
  have server: "server_flow e cmcf red again r \<noteq> None" if c: "at_server e r" for r
    unfolding server_flow_def
    by (rule follow_total [where P = "at_server e", OF rewrite_total [where P = "at_server e", OF red _ hc(2) c]]) (use located in simp_all)
  show "has_uri r \<Longrightarrow> rewrite_flow e cmcf red again r \<noteq> None" by (rule rewrite)
  show "at_server e r \<Longrightarrow> located_flow e cmcf red again r \<noteq> None" by (rule located)
  assume c: "at_server e r"
  have "follow (generic_handlers red 0 (rev (phases cmcf POST_READ_PHASE)) r) (server_flow e cmcf red again) \<noteq> None"
    by (rule follow_total [where P = "at_server e", OF generic_total [where P = "at_server e", OF red _ hc(1) c]]) (use server in simp_all)
  then show "request_flow e cmcf red again r \<noteq> None" using server [OF c] by (simp add: request_flow_def)
qed

lemma changes_total:
  assumes m: "modules_ok e cmcf" and s: "\<And>u. ngx_http_core_find_location (regex_exec e) u (srv_loc_conf e) \<noteq> None"
  shows "red_total (fst (changes e cmcf n)) \<and> again_total (snd (changes e cmcf n))"
proof (induction n)
  case 0
  show ?case by (simp add: red_total_def again_total_def)
next
  case (Suc n)
  obtain red again where c: "changes e cmcf n = (red, again)" by (cases "changes e cmcf n")
  have IH: "red_total red" "again_total again" using Suc c by simp_all
  have d: "\<exists>q. done_with x = Some (NGX_DONE, q)" if "x \<noteq> None" for x :: "('a, 'b) request flow option" using that by (auto simp: done_with_def)
  have "\<exists>q. done_with (request_flow e cmcf red again (redirected e u g r)) = Some (NGX_DONE, q)" if "u \<noteq> []" for u g r
    by (rule d [OF request_flow_total [OF m s IH]]) (use that in \<open>simp add: at_server_def\<close>)
  moreover have "\<exists>q. done_with (rewrite_flow e cmcf red again (at_location e l r)) = Some (NGX_DONE, q)" if "uri r \<noteq> []" for l r
    by (rule d [OF rewrite_flow_total [OF m s IH]]) (use that in \<open>simp add: has_uri_def\<close>)
  ultimately have "red_total (fst (changes e cmcf (Suc n)))"
    by (auto simp: red_total_def c Let_def split: option.split)
  moreover have "again_total (snd (changes e cmcf (Suc n)))"
    using located_flow_total [OF m s IH] by (simp add: again_total_def c at_server_def has_uri_def)
  ultimately show ?case by blast
qed

lemma compiled_searches:
  assumes "conf_ok c" "ngx_http_init_static_location_trees (ngx_http_init_locations c) = Some c'"
  shows "ngx_http_core_find_location exec u c' \<noteq> None"
  using routing [OF assms(1), of exec u] assms(2) by (auto simp: compiled_def routes_def)

text \<open>
  C10. The engine is done with every request after finitely many checkers and without undefined behaviour, on a
  configuration of locations that has been compiled, however the modules rewrite the URI and redirect internally, or to
  named locations, if they leave a URI that is not empty, and the settings of the server until the location is searched
  for. The request comes with a URI and the settings of the server; nothing is asked of its count of changes, which is
  four bits wide.
\<close>

theorem request_is_answered:
  assumes "engine_ok e cmcf" "modules_ok e cmcf"
    and "conf_ok c" "ngx_http_init_static_location_trees (ngx_http_init_locations c) = Some (srv_loc_conf e)"
    and "uri r \<noteq> []" "loc_conf r = srv_loc_conf e"
  shows "\<exists>r'. ngx_http_handler e r = Some r'"
proof -
  obtain red again where c: "changes e cmcf (changes_left r) = (red, again)" by (cases "changes e cmcf (changes_left r)")
  have "phase_flow e cmcf r \<noteq> None"
    using request_flow_total [OF assms(2) compiled_searches [OF assms(3,4)], of red again r] changes_total [OF assms(2) compiled_searches [OF assms(3,4)], of "changes_left r"]
      c assms(5,6) by (simp add: phase_flow_def at_server_def)
  then show ?thesis using handler_runs [OF assms(1), of r] by (cases "ngx_http_handler e r") (auto simp: ends_def)
qed

section \<open>A client that is denied\<close>

text \<open>
  Handlers of the access phase that consent or abstain, one after the other from the place \<open>i\<close> on, where all have to
  agree; the request that they leave.
\<close>

fun all_agree :: "nat \<Rightarrow> ('re, 'm) handler list \<Rightarrow> ('re, 'm) request \<Rightarrow> ('re, 'm) request option" where
  "all_agree i [] r = Some r"
| "all_agree i (h # hs) r =
     (case h (r\<lparr>phase_handler := i\<rparr>) of
        Code rc q \<Rightarrow>
          if (rc = NGX_DECLINED \<or> rc = NGX_OK \<and> l_satisfy (info (loc_conf q)) = NGX_HTTP_SATISFY_ALL) \<and> phase_handler q = i \<and> main q
          then all_agree (Suc i) hs q else None
      | _ \<Rightarrow> None)"

lemma agreed_runs:
  assumes "handlers (engine e) = A @ seg Access_phase (hs @ hs') j @ B" "i = length A" "main r" "all_agree i hs r = Some q"
  shows "run e i r = run e (i + length hs) q \<and> main q"
  using assms
proof (induction hs arbitrary: A i r)
  case (Cons h hs)
  define ph where "ph = \<lparr>ph_checker = Access_phase, ph_handler = Some h, ph_next = j\<rparr>"
  have L: "handlers (engine e) = A @ ph # (seg Access_phase (hs @ hs') j @ B)" using Cons.prems(1) by (simp add: ph_def)
  note R = run_at [OF L Cons.prems(2), of r, unfolded run_checker_def ph_def phase_handler_t.simps checker.simps ngx_http_core_access_phase_def bind.bind_lunit]
  obtain rc p where p: "h (r\<lparr>phase_handler := i\<rparr>) = Code rc p" "rc = NGX_DECLINED \<or> rc = NGX_OK \<and> l_satisfy (info (loc_conf p)) = NGX_HTTP_SATISFY_ALL"
    "phase_handler p = i" "main p" "all_agree (Suc i) hs p = Some q"
    using Cons.prems(4) by (auto split: answer.splits if_splits)
  have ne: "NGX_OK \<noteq> NGX_DECLINED" "NGX_OK \<noteq> NGX_AGAIN" "NGX_OK \<noteq> NGX_DONE" by (simp_all add: NGX_OK_def NGX_DECLINED_def NGX_AGAIN_def NGX_DONE_def)
  have "run e i r = run e (Suc i) p" unfolding R using Cons.prems(3) p ne by (auto simp: answered_def)
  moreover have "run e (Suc i) p = run e (Suc i + length hs) q \<and> main q"
    by (rule Cons.IH [where A = "A @ [ph]"]) (use Cons.prems(2) L p in auto)
  ultimately show ?case by simp
qed simp

text \<open>
  C11. A client that the first directive covering it denies is refused: the access phase of a main request ends it with
  the code 403 when the access module is reached, that is, the handlers asked before it all consent or abstain; the
  location has \<^verbatim>\<open>satisfy all\<close>. The handlers behind it are not asked.
\<close>

theorem denied_client_refused:
  fixes r q :: "('re, 'm) request"
  assumes "engine e = ngx_http_init_phase_handlers cmcf" "phases cmcf ACCESS_PHASE = rev (before @ access_module alcf sockaddr # behind)"
    and "main r" "all_agree (access_at cmcf) before r = Some q" "l_satisfy (info (loc_conf q)) = NGX_HTTP_SATISFY_ALL"
    and "access_conf mem ps ngx_http_access_create_loc_conf = Some (True, prev)"
    and "access_conf mem ds ngx_http_access_create_loc_conf = Some (True, conf)"
    and "map directive (if ds = [] then ps else ds) = map Some ws"
    and "alcf (q\<lparr>phase_handler := access_at cmcf + length before\<rparr>) = ngx_http_access_merge_loc_conf prev conf"
    and "sockaddr_wf (sockaddr (q\<lparr>phase_handler := access_at cmcf + length before\<rparr>))"
    and "access_decision ws (sockaddr (q\<lparr>phase_handler := access_at cmcf + length before\<rparr>)) = NGX_HTTP_FORBIDDEN"
  shows "ngx_http_core_run_phases e (r\<lparr>phase_handler := access_at cmcf\<rparr>)
    = Some (q\<lparr>phase_handler := access_at cmcf + length before, calls := calls q @ [Finalize NGX_HTTP_FORBIDDEN]\<rparr>)"
proof -
  let ?P = "phases cmcf" and ?j = "Suc (access_at cmcf + length (phases cmcf ACCESS_PHASE))" and ?h = "access_module alcf sockaddr"
  let ?i = "access_at cmcf + length before"
  define A where "A = seg Generic_phase (rev (?P POST_READ_PHASE)) (length (?P POST_READ_PHASE))
      @ seg Rewrite_phase (rev (?P SERVER_REWRITE_PHASE)) (find_config_at cmcf)
      @ one Find_config_phase 0
      # seg Rewrite_phase (rev (?P REWRITE_PHASE)) (Suc (find_config_at cmcf + length (?P REWRITE_PHASE)))
      @ (if ?P REWRITE_PHASE = [] then [] else [one Post_rewrite_phase (find_config_at cmcf)])
      @ seg Generic_phase (rev (?P PREACCESS_PHASE)) (access_at cmcf)"
  have len: "access_at cmcf = length A" by (simp add: A_def preaccess_at_def find_config_at_def access_at_def)
  obtain B where L: "handlers (engine e) = A @ seg Access_phase (before @ ?h # behind) ?j @ B"
    using init_layout(1) [of cmcf] assms(1,2) by (auto simp: A_def)
  have run: "run e (access_at cmcf) r = run e ?i q" "main q" using agreed_runs [OF L len assms(3,4)] by blast+
  define ph where "ph = \<lparr>ph_checker = Access_phase, ph_handler = Some ?h, ph_next = ?j\<rparr>"
  have L2: "handlers (engine e) = (A @ seg Access_phase before ?j) @ ph # (seg Access_phase behind ?j @ B)" using L by (simp add: ph_def seg_def)
  have "?i = length (A @ seg Access_phase before ?j)" using len by simp
  note R = run_at [OF L2 this, of q, unfolded run_checker_def ph_def phase_handler_t.simps checker.simps ngx_http_core_access_phase_def bind.bind_lunit]
  obtain ws' where "map directive (if ds = [] then ps else ds) = map Some ws'"
    "ngx_http_access_handler (ngx_http_access_merge_loc_conf prev conf) (sockaddr (q\<lparr>phase_handler := ?i\<rparr>)) = access_decision ws' (sockaddr (q\<lparr>phase_handler := ?i\<rparr>))"
    using first_match_decides [OF assms(6,7,10)] by blast
  moreover from this have "map Some ws' = map Some ws" using assms(8) by simp
  then have "ws' = ws" by (rule map_injective) simp
  ultimately have "access_module alcf sockaddr (q\<lparr>phase_handler := ?i\<rparr>) = Code NGX_HTTP_FORBIDDEN (q\<lparr>phase_handler := ?i\<rparr>)"
    using assms(9,11) by (simp add: access_module_def)
  moreover have "NGX_HTTP_FORBIDDEN \<notin> {NGX_OK, NGX_DECLINED, NGX_AGAIN, NGX_DONE}"
    by (simp add: NGX_OK_def NGX_DECLINED_def NGX_AGAIN_def NGX_DONE_def NGX_HTTP_FORBIDDEN_def)
  ultimately have "run e ?i q = Some (ngx_http_finalize_request (q\<lparr>phase_handler := ?i\<rparr>) NGX_HTTP_FORBIDDEN)"
    unfolding R using run(2) assms(5) by (simp add: answered_def)
  then show ?thesis using run(1) by (simp add: ngx_http_finalize_request_def)
qed

section \<open>At an example\<close>

text \<open>
  A server that rewrites \<^verbatim>\<open>/old\<close> to \<^verbatim>\<open>/i/a\<close>, allows a network, and redirects what ends with a slash internally.
\<close>

definition demo_server :: "nat loc_conf" where
  "demo_server = the (ngx_http_init_static_location_trees (ngx_http_init_locations demo_conf))"

definition demo_script :: "(nat, unit) request \<Rightarrow> ((nat, unit) request \<Rightarrow> int \<times> (nat, unit) request) option" where
  "demo_script r = (if uri r = [0x2F, 0x6F, 0x6C, 0x64] then Some (\<lambda>r. (NGX_DECLINED, r\<lparr>uri := [0x2F, 0x69, 0x2F, 0x61], uri_changed := True\<rparr>)) else None)"

definition demo_rewrite :: "(nat, unit) handler" where
  "demo_rewrite = ngx_http_rewrite_handler (Some 2) (\<lambda>r. l_name (info (loc_conf r)) = []) demo_script (\<lambda>r. 0)"

definition demo_access :: "(nat, unit) handler" where
  "demo_access = access_module (\<lambda>r. ngx_http_access_merge_loc_conf ngx_http_access_create_loc_conf sample_conf) (\<lambda>r. Sockaddr_in 0x0100000b 80)"

definition demo_abstain :: "(nat, unit) handler" where
  "demo_abstain = Code NGX_DECLINED"

definition demo_index :: "(nat, unit) handler" where
  "demo_index r = (if uri r \<noteq> [] \<and> last (uri r) = ch_slash then Redirect (uri r @ [0x61]) [] r else Code NGX_OK r)"

definition demo_main_conf :: "(nat, unit) main_conf" where
  "demo_main_conf =
     \<lparr>phases = (\<lambda>p. case p of SERVER_REWRITE_PHASE \<Rightarrow> [demo_rewrite] | REWRITE_PHASE \<Rightarrow> [demo_rewrite]
        | ACCESS_PHASE \<Rightarrow> rev ([demo_abstain] @ demo_access # [demo_abstain]) | CONTENT_PHASE \<Rightarrow> [demo_index] | _ \<Rightarrow> []),
      try_files = True\<rparr>"

definition demo_env :: "(nat, unit) env" where
  "demo_env = \<lparr>engine = ngx_http_init_phase_handlers demo_main_conf, srv_loc_conf = demo_server, named_locations = [demo_conf], regex_exec = demo_exec,
     call_fn = (\<lambda>f. demo_index), test_files = (\<lambda>r. if uri r = [] then Fall_back (Named [] r) else File r), clear_ctx = (\<lambda>m. m)\<rparr>"

definition demo_request :: "(nat, unit) request" where
  "demo_request = \<lparr>phase_handler = 0, loc_conf = demo_server, content_handler = None, uri = [0x2F, 0x6F, 0x6C, 0x64], args = [], main = True,
     internal = False, uri_changed = False, uri_changes = of_nat (Suc NGX_HTTP_MAX_URI_CHANGES), access_code = 0, content_length_n = -1, discard_body = False,
     expect_tested = False, www_authenticate = None, location = None, calls = [], module_state = ()\<rparr>"

lemma demo_handlers:
  "handler_ok Rewrite_phase demo_rewrite" "handler_ok Access_phase demo_access" "handler_ok Access_phase demo_abstain" "handler_ok Content_phase demo_index"
  unfolding demo_rewrite_def demo_access_def
  by (rule rewrite_handler_ok, auto simp: demo_script_def split: if_splits)[1]
    (simp_all add: access_module_def handler_ok_def demo_abstain_def demo_index_def)

lemma demo_leaves:
  "leaves Rewrite_phase has_uri demo_rewrite" "leaves Rewrite_phase (at_server e) demo_rewrite"
  "leaves Access_phase has_uri demo_access" "leaves Access_phase has_uri demo_abstain" "leaves Content_phase has_uri demo_index"
  by (simp_all add: leaves_def demo_rewrite_def ngx_http_rewrite_handler_def demo_script_def has_uri_def at_server_def demo_access_def access_module_def
      demo_abstain_def demo_index_def)

lemma demo_phases:
  "phases demo_main_conf p = (case p of SERVER_REWRITE_PHASE \<Rightarrow> [demo_rewrite] | REWRITE_PHASE \<Rightarrow> [demo_rewrite]
        | ACCESS_PHASE \<Rightarrow> [demo_abstain, demo_access, demo_abstain] | CONTENT_PHASE \<Rightarrow> [demo_index] | _ \<Rightarrow> [])"
  by (cases p) (simp_all add: demo_main_conf_def)

lemma demo_engine_ok: "engine_ok demo_env demo_main_conf" "modules_ok demo_env demo_main_conf"
proof -
  have "\<forall>h \<in> set (phases demo_main_conf p). handler_ok (checker_of p) h \<and> leaves (checker_of p) has_uri h" for p
    by (cases p) (simp_all add: demo_phases demo_handlers demo_leaves)
  then show "engine_ok demo_env demo_main_conf" "modules_ok demo_env demo_main_conf"
    unfolding engine_ok_def modules_ok_def
    by (simp_all add: demo_env_def demo_handlers demo_leaves demo_phases files_ok_def)
qed

lemma demo_compiled: "ngx_http_init_static_location_trees (ngx_http_init_locations demo_conf) = Some (srv_loc_conf demo_env)"
  using demo_found by (auto simp: demo_env_def demo_server_def)

theorem phases_in_order_witness: "ends (ngx_http_handler demo_env demo_request) (phase_flow demo_env demo_main_conf demo_request)"
  by (rule phases_in_order [OF demo_engine_ok(1)])

theorem request_is_answered_witness: "\<exists>r'. ngx_http_handler demo_env demo_request = Some r'"
  by (rule request_is_answered [OF demo_engine_ok demo_conf_ok demo_compiled]) (simp_all add: demo_request_def demo_env_def)

definition demo_directives :: "(bool \<times> access_who) list" where
  "demo_directives = map (the \<circ> directive) sample_directives"

lemma demo_directives_read: "map directive sample_directives = map Some demo_directives"
proof -
  have "list_all (\<lambda>d. directive d \<noteq> None) sample_directives" by code_simp
  then show ?thesis by (auto simp: demo_directives_def list_all_iff)
qed

lemma demo_denied: "access_decision demo_directives (Sockaddr_in 0x0100000b 80) = NGX_HTTP_FORBIDDEN"
  by code_simp

lemma demo_no_directives: "access_conf (\<lambda>_. True) [] ngx_http_access_create_loc_conf = Some (True, ngx_http_access_create_loc_conf)"
  by simp

lemma demo_server_info: "info demo_server = plain_info []"
proof -
  have "info demo_server = info demo_conf" using demo_compiled info_trees [of "ngx_http_init_locations demo_conf" demo_server]
    by (simp add: demo_env_def)
  then show ?thesis by (simp add: demo_conf_def)
qed

theorem denied_client_refused_witness:
  "ngx_http_core_run_phases demo_env (demo_request\<lparr>phase_handler := access_at demo_main_conf\<rparr>)
    = Some (demo_request\<lparr>phase_handler := access_at demo_main_conf\<rparr>\<lparr>phase_handler := access_at demo_main_conf + length [demo_abstain],
        calls := calls (demo_request\<lparr>phase_handler := access_at demo_main_conf\<rparr>) @ [Finalize NGX_HTTP_FORBIDDEN]\<rparr>)"
proof (rule denied_client_refused [OF _ _ _ _ _ demo_no_directives sample_conf_read _ _ _, where before = "[demo_abstain]" and behind = "[demo_abstain]"])
  show "map directive (if sample_directives = [] then [] else sample_directives) = map Some demo_directives"
    using demo_directives_read by (simp add: sample_directives_def)
  show "access_decision demo_directives ((\<lambda>r. Sockaddr_in 0x0100000b 80)
      (demo_request\<lparr>phase_handler := access_at demo_main_conf\<rparr>\<lparr>phase_handler := access_at demo_main_conf + length [demo_abstain]\<rparr>)) = NGX_HTTP_FORBIDDEN"
    using demo_denied by simp
qed (simp_all add: demo_env_def demo_main_conf_def demo_request_def demo_server_info plain_info_def demo_abstain_def demo_access_def)

end
