(* ===== verification/Ngx_Round_Robin.thy ===== *)
theory Ngx_Round_Robin
  imports Ngx_Prelude
begin

text \<open>
  The weighted round robin balancer of \<^verbatim>\<open>ngx_http_upstream_round_robin.c\<close>. The groups of peers of an
  upstream, linked by \<^verbatim>\<open>next\<close>, are a list; a pointer to a group is its index there. Addresses are of
  an arbitrary type, and the time is an argument. An allocation succeeds as an argument says.
\<close>

section \<open>Data\<close>

record 'a rr_peer =
  sockaddr :: 'a
  peer_name :: bytes
  server :: bytes
  current_weight :: int
  effective_weight :: int
  weight :: int
  fails :: nat
  accessed :: int
  checked :: int
  max_fails :: nat
  fail_timeout :: int
  down :: bool

record 'a rr_peers =
  number :: nat
  total_weight :: u64
  single :: bool
  weighted :: bool
  peers_name :: bytes
  peer :: "'a rr_peer list"

record rr_peer_data =
  peers :: nat
  current :: nat
  tried :: "u64 list"

record 'a peer_connection =
  connection :: bool
  cached :: bool
  pc_sockaddr :: "'a option"
  pc_name :: bytes
  tries :: nat

record 'a upstream_server =
  srv_name :: bytes
  addrs :: "('a \<times> bytes) list"
  srv_weight :: u64
  srv_max_fails :: nat
  srv_fail_timeout :: int
  srv_down :: bool
  backup :: bool

record 'a upstream_srv_conf =
  servers :: "'a upstream_server list option"
  host :: bytes
  port :: nat

definition NGX_PEER_FAILED :: nat where
  "NGX_PEER_FAILED = 4"

section \<open>The groups of an upstream\<close>

definition server_peers :: "'a upstream_server \<Rightarrow> 'a rr_peer list" where
  "server_peers s = map (\<lambda>(a, nm).
     \<lparr> sockaddr = a, peer_name = nm, server = srv_name s, current_weight = 0, effective_weight = sint (srv_weight s),
       weight = sint (srv_weight s), fails = 0, accessed = 0, checked = 0, max_fails = srv_max_fails s,
       fail_timeout = srv_fail_timeout s, down = srv_down s \<rparr>) (addrs s)"

definition server_group :: "bytes \<Rightarrow> bool \<Rightarrow> 'a upstream_server list \<Rightarrow> 'a rr_peers" where
  "server_group nm alone ss =
     (let n = sum_list (map (\<lambda>s. length (addrs s)) ss);
          w = sum_list (map (\<lambda>s. of_nat (length (addrs s)) * srv_weight s) ss) in
      \<lparr> number = n, total_weight = w, single = (alone \<and> n = 1), weighted = (w \<noteq> of_nat n), peers_name = nm,
        peer = concat (map server_peers ss) \<rparr>)"

definition implicit_group :: "bytes \<Rightarrow> ('a \<times> bytes) list \<Rightarrow> 'a rr_peers" where
  "implicit_group nm as =
     \<lparr> number = length as, total_weight = of_nat (length as), single = (length as = 1), weighted = False, peers_name = nm,
       peer = map (\<lambda>(a, n).
         \<lparr> sockaddr = a, peer_name = n, server = [], current_weight = 0, effective_weight = 1, weight = 1, fails = 0,
           accessed = 0, checked = 0, max_fails = 1, fail_timeout = 10, down = False \<rparr>) as \<rparr>"

text \<open>
  \<open>resolved\<close> is what \<^verbatim>\<open>ngx_inet_resolve_host\<close> finds; \<open>mem\<close> and \<open>mem_backup\<close> say whether the two
  allocations succeed.
\<close>

definition ngx_http_upstream_init_round_robin ::
    "bool \<Rightarrow> bool \<Rightarrow> ('a \<times> bytes) list option \<Rightarrow> 'a upstream_srv_conf \<Rightarrow> int + 'a rr_peers list" where
  "ngx_http_upstream_init_round_robin mem mem_backup resolved us =
     (case servers us of
        Some ss \<Rightarrow>
          let main = filter (\<lambda>s. \<not> backup s) ss;
              spare = filter backup ss in
          if sum_list (map (\<lambda>s. length (addrs s)) main) = 0 then Inl NGX_ERROR
          else if \<not> mem then Inl NGX_ERROR
          else if sum_list (map (\<lambda>s. length (addrs s)) spare) = 0 then Inr [server_group (host us) True main]
          else if \<not> mem_backup then Inl NGX_ERROR
          else Inr [server_group (host us) False main, server_group (host us) False spare]
      | None \<Rightarrow>
          if port us = 0 then Inl NGX_ERROR
          else
            (case resolved of
               None \<Rightarrow> Inl NGX_ERROR
             | Some as \<Rightarrow> if \<not> mem then Inl NGX_ERROR else Inr [implicit_group (host us) as]))"

section \<open>A request\<close>

definition ngx_http_upstream_tries :: "'a rr_peers list \<Rightarrow> nat" where
  "ngx_http_upstream_tries chain =
     (case chain of [] \<Rightarrow> 0 | [g] \<Rightarrow> number g | g # b # _ \<Rightarrow> number g + number b)"

definition rr_number :: "'a rr_peers list \<Rightarrow> nat" where
  "rr_number chain =
     (case chain of [] \<Rightarrow> 0 | [g] \<Rightarrow> number g | g # b # _ \<Rightarrow> if number b > number g then number b else number g)"

definition ngx_http_upstream_init_round_robin_peer ::
    "bool \<Rightarrow> bool \<Rightarrow> 'a rr_peers list \<Rightarrow> 'a peer_connection \<Rightarrow> int + (rr_peer_data \<times> 'a peer_connection)" where
  "ngx_http_upstream_init_round_robin_peer mem mem_tried chain pc =
     (let n = rr_number chain;
          rrp = (\<lambda>t. \<lparr> peers = 0, current = 0, tried = t \<rparr>);
          pc = pc\<lparr>tries := ngx_http_upstream_tries chain\<rparr> in
      if \<not> mem then Inl NGX_ERROR
      else if n \<le> 64 then Inr (rrp [0], pc)
      else if \<not> mem_tried then Inl NGX_ERROR
      else Inr (rrp (replicate ((n + 63) div 64) 0), pc))"

text \<open>The tests that exclude a peer: it is down, or it failed too often and not long ago.\<close>

definition peer_skipped :: "int \<Rightarrow> 'a rr_peer \<Rightarrow> bool option" where
  "peer_skipped now p =
     (if down p then Some True
      else if max_fails p \<noteq> 0 \<and> max_fails p \<le> fails p then
        do { d \<leftarrow> s64 (now - checked p); Some (d \<le> fail_timeout p) }
      else Some False)"

definition tried_bit :: "u64 list \<Rightarrow> nat \<Rightarrow> bool option" where
  "tried_bit t i = do { w \<leftarrow> rd t (i div 64); Some (w AND push_bit (i mod 64) 1 \<noteq> 0) }"

definition set_tried :: "u64 list \<Rightarrow> nat \<Rightarrow> u64 list option" where
  "set_tried t i = do { w \<leftarrow> rd t (i div 64); Some (t[i div 64 := w OR push_bit (i mod 64) 1]) }"

text \<open>
  The loop over the peers: \<open>best\<close> is the index of the best peer so far with its current weight,
  \<open>tot\<close> the sum of the effective weights; a read behind the last peer is undefined.
\<close>

fun get_peer_loop ::
    "int \<Rightarrow> u64 list \<Rightarrow> nat \<Rightarrow> nat \<Rightarrow> (nat \<times> int) option \<Rightarrow> int \<Rightarrow> 'a rr_peer list
     \<Rightarrow> ('a rr_peer list \<times> nat option \<times> int) option" where
  "get_peer_loop now tr i 0 best tot ps = Some (ps, map_option fst best, tot)"
| "get_peer_loop now tr i (Suc n) best tot [] = None"
| "get_peer_loop now tr i (Suc n) best tot (p # ps) =
     do { t \<leftarrow> tried_bit tr i;
          skip \<leftarrow> (if t then Some True else peer_skipped now p);
          if skip then
            do { (ps', r) \<leftarrow> get_peer_loop now tr (i + 1) n best tot ps; Some (p # ps', r) }
          else
            do { cw \<leftarrow> s64 (current_weight p + effective_weight p);
                 tot \<leftarrow> s64 (tot + effective_weight p);
                 ew \<leftarrow> (if effective_weight p < weight p then s64 (effective_weight p + 1) else Some (effective_weight p));
                 (ps', r) \<leftarrow> get_peer_loop now tr (i + 1) n
                   (case best of
                      None \<Rightarrow> Some (i, cw)
                    | Some (b, bcw) \<Rightarrow> if cw > bcw then Some (i, cw) else best) tot ps;
                 Some (p\<lparr>current_weight := cw, effective_weight := ew\<rparr> # ps', r) } }"

definition ngx_http_upstream_get_peer ::
    "int \<Rightarrow> 'a rr_peers \<Rightarrow> rr_peer_data \<Rightarrow> ('a rr_peers \<times> rr_peer_data \<times> nat option) option" where
  "ngx_http_upstream_get_peer now g rrp =
     do { (ps, best, tot) \<leftarrow> get_peer_loop now (tried rrp) 0 (number g) None 0 (peer g);
          case best of
            None \<Rightarrow> Some (g\<lparr>peer := ps\<rparr>, rrp, None)
          | Some i \<Rightarrow>
              do { t \<leftarrow> set_tried (tried rrp) i;
                   p \<leftarrow> rd ps i;
                   cw \<leftarrow> s64 (current_weight p - tot);
                   d \<leftarrow> s64 (now - checked p);
                   let p' = p\<lparr>current_weight := cw, checked := (if d > fail_timeout p then now else checked p)\<rparr>;
                   Some (g\<lparr>peer := ps[i := p']\<rparr>, rrp\<lparr>current := i, tried := t\<rparr>, Some i) } }"

text \<open>\<^verbatim>\<open>rrp->tried[i] = 0\<close> for the first \<open>n\<close> words.\<close>

definition clear_tried :: "nat \<Rightarrow> u64 list \<Rightarrow> u64 list option" where
  "clear_tried n t = (if n \<le> length t then Some (replicate n 0 @ drop n t) else None)"

text \<open>All peers of a group failed: they are marked as live.\<close>

definition rr_revive :: "'a rr_peers \<Rightarrow> 'a rr_peers option" where
  "rr_revive g =
     (if number g \<le> length (peer g)
      then Some (g\<lparr>peer := map (\<lambda>p. p\<lparr>fails := 0\<rparr>) (take (number g) (peer g)) @ drop (number g) (peer g)\<rparr>)
      else None)"

text \<open>The choice in the group itself: the peer, or \<open>None\<close> for the label \<^verbatim>\<open>failed\<close>.\<close>

definition rr_choose ::
    "int \<Rightarrow> 'a rr_peers \<Rightarrow> rr_peer_data \<Rightarrow> ('a rr_peers \<times> rr_peer_data \<times> 'a rr_peer option) option" where
  "rr_choose now g rrp =
     (if single g then
        do { p \<leftarrow> rd (peer g) 0; Some (g, rrp, if down p then None else Some p) }
      else
        do { (g', rrp', best) \<leftarrow> ngx_http_upstream_get_peer now g rrp;
             case best of
               None \<Rightarrow> Some (g', rrp', None)
             | Some i \<Rightarrow> do { p \<leftarrow> rd (peer g') i; Some (g', rrp', Some p) } })"

function (sequential) ngx_http_upstream_get_round_robin_peer ::
    "int \<Rightarrow> 'a rr_peers list \<Rightarrow> rr_peer_data \<Rightarrow> 'a peer_connection
     \<Rightarrow> (int \<times> 'a rr_peers list \<times> rr_peer_data \<times> 'a peer_connection) option" where
  "ngx_http_upstream_get_round_robin_peer now chain rrp pc =
     (let k = peers rrp;
          pc = pc\<lparr>cached := False, connection := False\<rparr> in
      case rd chain k of
        None \<Rightarrow> None
      | Some g0 \<Rightarrow>
          do { (g, rrp, chosen) \<leftarrow> rr_choose now g0 rrp;
               let chain = chain[k := g];
               case chosen of
                 Some p \<Rightarrow> Some (NGX_OK, chain, rrp, pc\<lparr>pc_sockaddr := Some (sockaddr p), pc_name := peer_name p\<rparr>)
               | None \<Rightarrow>
                   do { (rc, chain, rrp, pc) \<leftarrow>
                          (case rd chain (k + 1) of
                             None \<Rightarrow> Some (NGX_BUSY, chain, rrp, pc)
                           | Some b \<Rightarrow>
                               do { t \<leftarrow> clear_tried ((number b + 63) div 64) (tried rrp);
                                    ngx_http_upstream_get_round_robin_peer now chain (rrp\<lparr>peers := k + 1, tried := t\<rparr>) pc });
                        if rc \<noteq> NGX_BUSY then Some (rc, chain, rrp, pc)
                        else
                          do { g \<leftarrow> rd chain k;
                               g' \<leftarrow> rr_revive g;
                               Some (NGX_BUSY, chain[k := g'], rrp, pc\<lparr>pc_name := peers_name g'\<rparr>) } } })"
  by pat_completeness auto
termination
  by (relation "measure (\<lambda>(now, chain, rrp, pc). length chain - peers rrp)") (auto simp: rd_def Let_def split: if_splits)

declare ngx_http_upstream_get_round_robin_peer.simps [simp del]

definition ngx_http_upstream_free_round_robin_peer ::
    "int \<Rightarrow> nat \<Rightarrow> 'a rr_peers list \<Rightarrow> rr_peer_data \<Rightarrow> 'a peer_connection \<Rightarrow> ('a rr_peers list \<times> 'a peer_connection) option" where
  "ngx_http_upstream_free_round_robin_peer now state chain rrp pc =
     do { g \<leftarrow> rd chain (peers rrp);
          if single g then Some (chain, pc\<lparr>tries := 0\<rparr>)
          else
            do { p \<leftarrow> rd (peer g) (current rrp);
                 let p' = (if state AND NGX_PEER_FAILED \<noteq> 0 then
                     (let ew = (if max_fails p \<noteq> 0
                                then cast64 (effective_weight p - (weight p mod 2 ^ 64) div int (max_fails p))
                                else effective_weight p) in
                      p\<lparr>fails := (fails p + 1) mod 2 ^ 64, accessed := now, checked := now,
                        effective_weight := (if ew < 0 then 0 else ew)\<rparr>)
                   else if accessed p < checked p then p\<lparr>fails := 0\<rparr> else p);
                 Some (chain[peers rrp := g\<lparr>peer := (peer g)[current rrp := p']\<rparr>],
                   if tries pc \<noteq> 0 then pc\<lparr>tries := tries pc - 1\<rparr> else pc) } }"

section \<open>One choice\<close>

text \<open>A peer is open to the choice; and what the loop does with it.\<close>

definition rr_open :: "int \<Rightarrow> u64 list \<Rightarrow> nat \<times> 'a rr_peer \<Rightarrow> bool" where
  "rr_open now tr = (\<lambda>(j, p). tried_bit tr j = Some False \<and> peer_skipped now p = Some False)"

definition rr_up :: "'a rr_peer \<Rightarrow> 'a rr_peer" where
  "rr_up p = p\<lparr>current_weight := current_weight p + effective_weight p,
     effective_weight := (if effective_weight p < weight p then effective_weight p + 1 else effective_weight p)\<rparr>"

definition rr_raised :: "'a rr_peer \<Rightarrow> int" where
  "rr_raised p = current_weight p + effective_weight p"

definition rr_better :: "int \<Rightarrow> u64 list \<Rightarrow> (nat \<times> int) option \<Rightarrow> nat \<times> 'a rr_peer \<Rightarrow> (nat \<times> int) option" where
  "rr_better now tr best x =
     (if rr_open now tr x
      then (case best of
              None \<Rightarrow> Some (fst x, rr_raised (snd x))
            | Some (b, c) \<Rightarrow> if rr_raised (snd x) > c then Some (fst x, rr_raised (snd x)) else best)
      else best)"

definition rr_effect :: "int \<Rightarrow> u64 list \<Rightarrow> nat \<Rightarrow> 'a rr_peer list \<Rightarrow> 'a rr_peer list" where
  "rr_effect now tr i ps = map (\<lambda>x. if rr_open now tr x then rr_up (snd x) else snd x) (enumerate i ps)"

definition rr_sum :: "int \<Rightarrow> u64 list \<Rightarrow> nat \<Rightarrow> 'a rr_peer list \<Rightarrow> int" where
  "rr_sum now tr i ps = sum_list (map (\<lambda>x. if rr_open now tr x then effective_weight (snd x) else 0) (enumerate i ps))"

text \<open>
  The invariant of a peer and of a group. Times lie between the epoch and \<open>2 ^ 62\<close>; \<open>B\<close> bounds the
  current weights and \<open>W\<close> the sum of the weights.
\<close>

definition time_ok :: "int \<Rightarrow> bool" where
  "time_ok t \<longleftrightarrow> 0 \<le> t \<and> t < 2 ^ 62"

definition peer_ok :: "'a rr_peer \<Rightarrow> bool" where
  "peer_ok p \<longleftrightarrow> 0 \<le> effective_weight p \<and> effective_weight p \<le> weight p \<and> time_ok (checked p) \<and> time_ok (accessed p)"

definition group_ok :: "int \<Rightarrow> 'a rr_peers \<Rightarrow> bool" where
  "group_ok W g \<longleftrightarrow> number g = length (peer g) \<and> 0 < number g \<and> (\<forall>p \<in> set (peer g). peer_ok p)
     \<and> sum_list (map weight (peer g)) \<le> W"

definition cw_ok :: "int \<Rightarrow> 'a rr_peers \<Rightarrow> bool" where
  "cw_ok B g \<longleftrightarrow> (\<forall>p \<in> set (peer g). \<bar>current_weight p\<bar> \<le> B)"

definition tried_fits :: "nat \<Rightarrow> u64 list \<Rightarrow> bool" where
  "tried_fits n t \<longleftrightarrow> n \<le> 64 * length t"

lemma tried_bit_defined: "j < n \<Longrightarrow> tried_fits n t \<Longrightarrow> \<exists>b. tried_bit t j = Some b"
  by (auto simp: tried_bit_def tried_fits_def rd_def)

lemma peer_skipped_defined: "time_ok now \<Longrightarrow> time_ok (checked p) \<Longrightarrow> \<exists>b. peer_skipped now p = Some b"
  by (auto simp: peer_skipped_def time_ok_def s64_def)

lemma sum_list_nonneg_le:
  fixes f :: "'b \<Rightarrow> int"
  shows "\<forall>x \<in> set xs. 0 \<le> f x \<and> f x \<le> g x \<Longrightarrow> 0 \<le> sum_list (map f xs) \<and> sum_list (map f xs) \<le> sum_list (map g xs)"
  by (induction xs) auto

lemma elem_le_sum:
  assumes "\<forall>p \<in> set ps. peer_ok p" "i < length ps"
  shows "weight (ps ! i) \<le> sum_list (map weight ps)"
  using assms
proof (induction ps arbitrary: i)
  case (Cons p ps)
  have "0 \<le> sum_list (map weight ps)" "0 \<le> weight p"
    using sum_list_nonneg_le [of ps "\<lambda>p. 0" weight] Cons.prems(1) by (fastforce simp: peer_ok_def)+
  with Cons show ?case by (cases i) (auto simp: add_increasing)
qed simp

lemma get_peer_loop_eq:
  assumes "\<forall>p \<in> set ps. peer_ok p \<and> \<bar>current_weight p\<bar> \<le> B" "tried_fits (i + length ps) tr" "time_ok now"
    and "0 \<le> t" "0 \<le> B" "t + sum_list (map weight ps) \<le> W" "B + 2 * W < 2 ^ 63"
  shows "get_peer_loop now tr i (length ps) best t ps =
    Some (rr_effect now tr i ps, map_option fst (foldl (rr_better now tr) best (enumerate i ps)), t + rr_sum now tr i ps)"
  using assms
proof (induction ps arbitrary: i best t)
  case Nil
  then show ?case by (simp add: rr_effect_def rr_sum_def)
next
  case (Cons p ps)
  obtain b where b: "tried_bit tr i = Some b" using tried_bit_defined [of i _ tr] Cons.prems(2) by fastforce
  obtain s where s: "peer_skipped now p = Some s" using peer_skipped_defined Cons.prems(1,3) by (fastforce simp: peer_ok_def)
  have w: "0 \<le> sum_list (map weight ps)" using sum_list_nonneg_le [of ps "\<lambda>p. 0" weight] Cons.prems(1) by (fastforce simp: peer_ok_def)
  have p: "0 \<le> effective_weight p" "effective_weight p \<le> weight p" "\<bar>current_weight p\<bar> \<le> B" using Cons.prems(1) by (auto simp: peer_ok_def)
  have rest: "tried_fits (i + 1 + length ps) tr" using Cons.prems(2) by simp
  show ?case
  proof (cases "b \<or> s")
    case True
    then have "\<not> rr_open now tr (i, p)" using b s by (auto simp: rr_open_def)
    moreover have "(if b then Some True else peer_skipped now p) = Some True" using True s by auto
    moreover have "get_peer_loop now tr (i + 1) (length ps) best t ps =
        Some (rr_effect now tr (i + 1) ps, map_option fst (foldl (rr_better now tr) best (enumerate (i + 1) ps)), t + rr_sum now tr (i + 1) ps)"
      using Cons.prems rest w p by (intro Cons.IH) auto
    moreover have "rr_better now tr best (i, p) = best" using calculation(1) by (simp add: rr_better_def)
    ultimately show ?thesis by (simp add: b rr_effect_def rr_sum_def)
  next
    case False
    then have o: "rr_open now tr (i, p)" using b s by (auto simp: rr_open_def)
    have "\<bar>current_weight p + effective_weight p\<bar> \<le> B + W" "t + effective_weight p \<le> W" "effective_weight p \<le> W"
      using p w Cons.prems(4,6) by auto
    then have c: "s64 (current_weight p + effective_weight p) = Some (current_weight p + effective_weight p)"
      "s64 (t + effective_weight p) = Some (t + effective_weight p)"
      "effective_weight p < weight p \<Longrightarrow> s64 (effective_weight p + 1) = Some (effective_weight p + 1)"
      using p w Cons.prems(4-7) by (auto intro!: s64_in)
    have "get_peer_loop now tr (i + 1) (length ps) (rr_better now tr best (i, p)) (t + effective_weight p) ps =
        Some (rr_effect now tr (i + 1) ps, map_option fst (foldl (rr_better now tr) (rr_better now tr best (i, p)) (enumerate (i + 1) ps)),
          t + effective_weight p + rr_sum now tr (i + 1) ps)"
      using Cons.prems rest w p by (intro Cons.IH) auto
    moreover have "(case best of None \<Rightarrow> Some (i, current_weight p + effective_weight p)
        | Some (b, bcw) \<Rightarrow> if current_weight p + effective_weight p > bcw then Some (i, current_weight p + effective_weight p) else best)
      = rr_better now tr best (i, p)" using o by (simp add: rr_better_def rr_raised_def split: option.split)
    moreover have "b = False" "s = False" using False by auto
    ultimately show ?thesis
      using o b s c by (cases "effective_weight p < weight p") (simp_all add: rr_effect_def rr_sum_def rr_up_def)
  qed
qed

text \<open>The best peer: the first with the largest raised weight among the open ones.\<close>

definition best_in :: "int \<Rightarrow> u64 list \<Rightarrow> (nat \<times> 'a rr_peer) list \<Rightarrow> nat \<times> int \<Rightarrow> bool" where
  "best_in now tr xs = (\<lambda>(b, c). \<exists>pre p post. xs = pre @ (b, p) # post \<and> rr_open now tr (b, p) \<and> c = rr_raised p
     \<and> (\<forall>y \<in> set pre. rr_open now tr y \<longrightarrow> rr_raised (snd y) < c) \<and> (\<forall>y \<in> set post. rr_open now tr y \<longrightarrow> rr_raised (snd y) \<le> c))"

lemma best_in_last:
  assumes "rr_open now tr x" "\<forall>y \<in> set xs. rr_open now tr y \<longrightarrow> rr_raised (snd y) < rr_raised (snd x)"
  shows "best_in now tr (xs @ [x]) (fst x, rr_raised (snd x))"
  unfolding best_in_def prod.case using assms by (intro exI [of _ xs] exI [of _ "snd x"] exI [of _ "[]"]) simp

lemma best_in_more:
  assumes "best_in now tr xs bc" "\<not> (rr_open now tr x \<and> rr_raised (snd x) > snd bc)"
  shows "best_in now tr (xs @ [x]) bc"
proof -
  obtain b c where bc: "bc = (b, c)" by (cases bc)
  from assms(1) obtain pre p post where s: "xs = pre @ (b, p) # post" "rr_open now tr (b, p)" "c = rr_raised p"
    "\<forall>y \<in> set pre. rr_open now tr y \<longrightarrow> rr_raised (snd y) < c" "\<forall>y \<in> set post. rr_open now tr y \<longrightarrow> rr_raised (snd y) \<le> c"
    unfolding best_in_def bc prod.case by blast
  with assms(2) show ?thesis
    unfolding best_in_def bc prod.case by (intro exI [of _ pre] exI [of _ p] exI [of _ "post @ [x]"]) (auto simp: bc)
qed

lemma best_in_all:
  assumes "best_in now tr xs (b, c)" "y \<in> set xs" "rr_open now tr y"
  shows "rr_raised (snd y) \<le> c"
  using assms unfolding best_in_def by force

lemma rr_better_simps:
  "rr_better now tr None x = (if rr_open now tr x then Some (fst x, rr_raised (snd x)) else None)"
  "rr_better now tr (Some (b, c)) x = (if rr_open now tr x \<and> rr_raised (snd x) > c then Some (fst x, rr_raised (snd x)) else Some (b, c))"
  by (simp_all add: rr_better_def)

lemma best_of_peers:
  "case foldl (rr_better now tr) None xs of None \<Rightarrow> \<forall>x \<in> set xs. \<not> rr_open now tr x | Some bc \<Rightarrow> best_in now tr xs bc"
proof (induction xs rule: rev_induct)
  case Nil
  show ?case by simp
next
  case (snoc x xs)
  show ?case
  proof (cases "foldl (rr_better now tr) None xs")
    case None
    with snoc show ?thesis
      using best_in_last [of now tr x xs] by (cases "rr_open now tr x") (auto simp: rr_better_simps)
  next
    case (Some bc)
    with snoc have b: "best_in now tr xs bc" by simp
    obtain i c where bc: "bc = (i, c)" by (cases bc)
    show ?thesis
    proof (cases "rr_open now tr x \<and> rr_raised (snd x) > c")
      case True
      then have "\<forall>y \<in> set xs. rr_open now tr y \<longrightarrow> rr_raised (snd y) < rr_raised (snd x)"
        using best_in_all [OF b [unfolded bc]] by fastforce
      with True best_in_last [of now tr x xs] show ?thesis by (simp add: Some bc rr_better_simps)
    next
      case False
      then have "foldl (rr_better now tr) None (xs @ [x]) = Some bc" by (auto simp: Some bc rr_better_simps)
      with best_in_more [OF b] False show ?thesis by (simp add: bc)
    qed
  qed
qed

text \<open>The same by positions, for the whole array.\<close>

lemma best_by_index:
  assumes "best_in now tr (enumerate 0 ps) (b, c)"
  shows "b < length ps \<and> rr_open now tr (b, ps ! b) \<and> c = rr_raised (ps ! b)
     \<and> (\<forall>j < length ps. rr_open now tr (j, ps ! j) \<longrightarrow> rr_raised (ps ! j) \<le> c \<and> (j < b \<longrightarrow> rr_raised (ps ! j) < c))"
proof -
  from assms obtain pre p post where s: "enumerate 0 ps = pre @ (b, p) # post" "rr_open now tr (b, p)" "c = rr_raised p"
    "\<forall>y \<in> set pre. rr_open now tr y \<longrightarrow> rr_raised (snd y) < c" "\<forall>y \<in> set post. rr_open now tr y \<longrightarrow> rr_raised (snd y) \<le> c"
    unfolding best_in_def prod.case by blast
  have l: "length ps = length pre + Suc (length post)" using arg_cong [OF s(1), of length] by simp
  have nth: "(pre @ (b, p) # post) ! j = (j, ps ! j)" if "j < length ps" for j
    using that s(1) nth_enumerate_eq [of j ps 0] by simp
  from nth [of "length pre"] l have b: "b = length pre" "p = ps ! b" by auto
  have lt: "rr_raised (ps ! j) < c" if "j < b" "rr_open now tr (j, ps ! j)" for j
  proof -
    have "pre ! j = (j, ps ! j)" "j < length pre" using nth [of j] that l b by (simp_all add: nth_append)
    then have "(j, ps ! j) \<in> set pre" by (metis nth_mem)
    with s(4) that show ?thesis by auto
  qed
  have le: "rr_raised (ps ! j) \<le> c" if "j < length ps" "rr_open now tr (j, ps ! j)" for j
    using best_in_all [OF assms, of "(j, ps ! j)"] that by (fastforce simp: in_set_enumerate_eq)
  show ?thesis using l b s(2,3) lt le by simp
qed

text \<open>The choice as one equation.\<close>

definition rr_win :: "int \<Rightarrow> int \<Rightarrow> 'a rr_peer \<Rightarrow> 'a rr_peer" where
  "rr_win now T p = p\<lparr>current_weight := current_weight p - T, checked := (if now - checked p > fail_timeout p then now else checked p)\<rparr>"

definition mark_tried :: "u64 list \<Rightarrow> nat \<Rightarrow> u64 list" where
  "mark_tried t i = t[i div 64 := t ! (i div 64) OR push_bit (i mod 64) 1]"

lemma set_tried_eq: "i < n \<Longrightarrow> tried_fits n t \<Longrightarrow> set_tried t i = Some (mark_tried t i)"
  by (auto simp: set_tried_def mark_tried_def tried_fits_def rd_def)

lemma and_bit_test:
  fixes w :: u64
  assumes "k < 64"
  shows "(w AND push_bit k 1 \<noteq> 0) = bit w k"
proof -
  have "bit (w AND push_bit k 1) n = (bit w k \<and> n = k)" for n using assms by (auto simp: bit_and_iff bit_exp_iff)
  then show ?thesis by (metis bit_0_eq bot_apply bot_bool_def bit_eqI)
qed

lemma tried_bit_eq: "tried_bit t j = (if j div 64 < length t then Some (bit (t ! (j div 64)) (j mod 64)) else None)"
proof -
  have "(w AND push_bit (j mod 64) 1 \<noteq> 0) = bit w (j mod 64)" for w :: u64 by (rule and_bit_test) simp
  then show ?thesis unfolding tried_bit_def by (simp only: ) (simp add: rd_def)
qed

lemma tried_bit_mark:
  assumes "i < n" "tried_fits n t"
  shows "tried_bit (mark_tried t i) j = (if j = i then Some True else tried_bit t j)"
proof -
  have l: "i div 64 < length t" using assms by (auto simp: tried_fits_def)
  show ?thesis
  proof (cases "j div 64 = i div 64")
    case True
    have "bit (t ! (i div 64) OR push_bit (i mod 64) 1) (j mod 64) = (bit (t ! (i div 64)) (j mod 64) \<or> j mod 64 = i mod 64)"
      by (auto simp: bit_or_iff bit_exp_iff)
    moreover have "j mod 64 = i mod 64 \<longleftrightarrow> j = i" using True by (metis div_mod_decomp)
    ultimately show ?thesis using l True by (simp add: tried_bit_eq mark_tried_def)
  next
    case False
    then show ?thesis using l by (auto simp: tried_bit_eq mark_tried_def)
  qed
qed

lemma effect_nth: "j < length ps \<Longrightarrow> rr_effect now tr i ps ! j = (if rr_open now tr (i + j, ps ! j) then rr_up (ps ! j) else ps ! j)"
  by (simp add: rr_effect_def nth_enumerate_eq)

lemma effect_length [simp]: "length (rr_effect now tr i ps) = length ps"
  by (simp add: rr_effect_def)

lemma effect_sum:
  "sum_list (map current_weight (rr_effect now tr i ps)) = sum_list (map current_weight ps) + rr_sum now tr i ps"
  by (induction ps arbitrary: i) (auto simp: rr_effect_def rr_sum_def rr_up_def)

lemma rr_sum_range:
  assumes "\<forall>p \<in> set ps. peer_ok p"
  shows "0 \<le> rr_sum now tr i ps \<and> rr_sum now tr i ps \<le> sum_list (map weight ps)"
  using assms
proof (induction ps arbitrary: i)
  case (Cons p ps)
  then have "0 \<le> rr_sum now tr (Suc i) ps \<and> rr_sum now tr (Suc i) ps \<le> sum_list (map weight ps)" by simp
  moreover have "0 \<le> effective_weight p" "effective_weight p \<le> weight p" using Cons.prems by (auto simp: peer_ok_def)
  ultimately show ?case by (simp add: rr_sum_def)
qed (simp add: rr_sum_def)

lemma rr_up_ok: "peer_ok p \<Longrightarrow> peer_ok (rr_up p)"
  by (auto simp: peer_ok_def rr_up_def)

lemma rr_up_simps [simp]:
  "weight (rr_up p) = weight p" "checked (rr_up p) = checked p" "accessed (rr_up p) = accessed p" "current_weight (rr_up p) = rr_raised p"
  "fails (rr_up p) = fails p" "down (rr_up p) = down p" "max_fails (rr_up p) = max_fails p" "fail_timeout (rr_up p) = fail_timeout p"
  by (simp_all add: rr_up_def rr_raised_def)

lemma get_peer_eq:
  assumes "group_ok W g" "cw_ok B g" "tried_fits (number g) (tried rrp)" "time_ok now" "0 \<le> B" "B + 2 * W < 2 ^ 63"
  shows "ngx_http_upstream_get_peer now g rrp = Some
    (let ps = rr_effect now (tried rrp) 0 (peer g) in
     case foldl (rr_better now (tried rrp)) None (enumerate 0 (peer g)) of
       None \<Rightarrow> (g\<lparr>peer := ps\<rparr>, rrp, None)
     | Some (i, c) \<Rightarrow> (g\<lparr>peer := ps[i := rr_win now (rr_sum now (tried rrp) 0 (peer g)) (ps ! i)]\<rparr>,
         rrp\<lparr>current := i, tried := mark_tried (tried rrp) i\<rparr>, Some i))"
proof -
  let ?t = "tried rrp" and ?ps = "peer g"
  have n: "number g = length ?ps" and w: "sum_list (map weight ?ps) \<le> W" and ok: "\<forall>p \<in> set ?ps. peer_ok p"
    using assms(1) by (auto simp: group_ok_def)
  have loop: "get_peer_loop now ?t 0 (number g) None 0 ?ps =
      Some (rr_effect now ?t 0 ?ps, map_option fst (foldl (rr_better now ?t) None (enumerate 0 ?ps)), rr_sum now ?t 0 ?ps)"
    unfolding n using assms n w ok by (subst get_peer_loop_eq [where B = B and W = W]) (auto simp: cw_ok_def)
  show ?thesis
  proof (cases "foldl (rr_better now ?t) None (enumerate 0 ?ps)")
    case None
    then show ?thesis by (simp add: ngx_http_upstream_get_peer_def loop)
  next
    case (Some bc)
    obtain i c where bc: "bc = (i, c)" by (cases bc)
    have "best_in now ?t (enumerate 0 ?ps) (i, c)" using best_of_peers [where now = now and tr = ?t and xs = "enumerate 0 ?ps"] by (simp add: Some bc)
    note b = best_by_index [OF this]
    have e: "rr_effect now ?t 0 ?ps ! i = rr_up (?ps ! i)" using b by (simp add: effect_nth)
    have p: "peer_ok (?ps ! i)" "\<bar>current_weight (?ps ! i)\<bar> \<le> B" using b ok assms(2) by (auto simp: cw_ok_def)
    have "weight (?ps ! i) \<le> sum_list (map weight ?ps)"
      using b ok by (intro elem_le_sum) auto
    then have "effective_weight (?ps ! i) \<le> W" "0 \<le> effective_weight (?ps ! i)" using p w by (auto simp: peer_ok_def)
    then have "s64 (rr_raised (?ps ! i) - rr_sum now ?t 0 ?ps) = Some (rr_raised (?ps ! i) - rr_sum now ?t 0 ?ps)"
      using p rr_sum_range [OF ok, of now ?t 0] w assms(6) by (intro s64_in) (auto simp: rr_raised_def)
    moreover have "s64 (now - checked (?ps ! i)) = Some (now - checked (?ps ! i))"
      using p(1) assms(4) by (intro s64_in) (auto simp: peer_ok_def time_ok_def)
    moreover have "rd (rr_effect now ?t 0 ?ps) i = Some (rr_up (?ps ! i))" using b e by (simp add: rd_def)
    moreover have "set_tried ?t i = Some (mark_tried ?t i)" using b n assms(3) by (intro set_tried_eq) auto
    ultimately show ?thesis by (simp add: ngx_http_upstream_get_peer_def loop Some bc Let_def e rr_win_def)
  qed
qed

lemma win_simps [simp]:
  "weight (rr_win now T p) = weight p" "current_weight (rr_win now T p) = current_weight p - T" "effective_weight (rr_win now T p) = effective_weight p"
  "accessed (rr_win now T p) = accessed p" "fails (rr_win now T p) = fails p" "down (rr_win now T p) = down p"
  "max_fails (rr_win now T p) = max_fails p"
  by (simp_all add: rr_win_def)

lemma win_ok: "time_ok now \<Longrightarrow> peer_ok p \<Longrightarrow> peer_ok (rr_win now T p)"
  by (auto simp: peer_ok_def rr_win_def)

lemma effect_ok: "\<forall>p \<in> set ps. peer_ok p \<Longrightarrow> \<forall>p \<in> set (rr_effect now tr i ps). peer_ok p"
  by (auto simp: rr_effect_def in_set_enumerate_eq rr_up_ok)

lemma effect_weights: "map weight (rr_effect now tr i ps) = map weight ps"
  by (rule nth_equalityI) (auto simp: effect_nth)

lemma map_update_same: "f x = f (xs ! i) \<Longrightarrow> map f (xs[i := x]) = map f xs"
  by (metis list_update_id map_update)

lemma sum_update:
  fixes f :: "'b \<Rightarrow> int"
  shows "i < length xs \<Longrightarrow> sum_list (map f (xs[i := x])) = sum_list (map f xs) + f x - f (xs ! i)"
  by (induction xs arbitrary: i) (auto split: nat.split)

text \<open>What one choice does to the group and the request.\<close>

lemma get_peer_step:
  assumes "group_ok W g" "cw_ok B g" "tried_fits (number g) (tried rrp)" "time_ok now" "0 \<le> B" "B + 2 * W < 2 ^ 63"
  shows "\<exists>g' rrp' best. ngx_http_upstream_get_peer now g rrp = Some (g', rrp', best)
     \<and> group_ok W g' \<and> cw_ok (B + W) g' \<and> number g' = number g \<and> map weight (peer g') = map weight (peer g)
     \<and> sum_list (map current_weight (peer g')) = sum_list (map current_weight (peer g))
     \<and> single g' = single g \<and> peers rrp' = peers rrp \<and> length (tried rrp') = length (tried rrp)
     \<and> (\<forall>j. tried_bit (tried rrp') j = (if best = Some j then Some True else tried_bit (tried rrp) j))
     \<and> (case best of
          None \<Rightarrow> \<forall>j < number g. \<not> rr_open now (tried rrp) (j, peer g ! j)
        | Some i \<Rightarrow> current rrp' = i \<and> i < number g \<and> rr_open now (tried rrp) (i, peer g ! i)
            \<and> (\<forall>j < number g. rr_open now (tried rrp) (j, peer g ! j) \<longrightarrow>
                 rr_raised (peer g ! j) \<le> rr_raised (peer g ! i) \<and> (j < i \<longrightarrow> rr_raised (peer g ! j) < rr_raised (peer g ! i))))"
proof -
  let ?t = "tried rrp" and ?ps = "peer g"
  let ?e = "rr_effect now ?t 0 ?ps" and ?T = "rr_sum now ?t 0 ?ps"
  have n: "number g = length ?ps" and w: "sum_list (map weight ?ps) \<le> W" and ok: "\<forall>p \<in> set ?ps. peer_ok p"
    using assms(1) by (auto simp: group_ok_def)
  have T: "0 \<le> ?T" "?T \<le> W" using rr_sum_range [OF ok, of now ?t 0] w by auto
  have rB: "\<bar>current_weight (?e ! j)\<bar> \<le> B + W" if "j < length ?ps" for j
  proof -
    have "peer_ok (?ps ! j)" "\<bar>current_weight (?ps ! j)\<bar> \<le> B" using that ok assms(2) by (auto simp: cw_ok_def)
    moreover have "weight (?ps ! j) \<le> W" using elem_le_sum [OF ok that] w by simp
    ultimately show ?thesis using that by (auto simp: effect_nth rr_raised_def peer_ok_def)
  qed
  note eq = get_peer_eq [OF assms]
  show ?thesis
  proof (cases "foldl (rr_better now ?t) None (enumerate 0 ?ps)")
    case None
    then have none: "\<forall>x \<in> set (enumerate 0 ?ps). \<not> rr_open now ?t x"
      using best_of_peers [where now = now and tr = ?t and xs = "enumerate 0 ?ps"] by simp
    then have no: "\<forall>j < number g. \<not> rr_open now ?t (j, ?ps ! j)" by (auto simp: n in_set_enumerate_eq)
    then have "?e = ?ps" by (intro nth_equalityI) (auto simp: effect_nth n)
    then have "ngx_http_upstream_get_peer now g rrp = Some (g, rrp, None)" using eq by (simp add: None)
    moreover have "cw_ok (B + W) g" using assms(2) T by (fastforce simp: cw_ok_def)
    ultimately show ?thesis using assms no by auto
  next
    case (Some bc)
    obtain i c where bc: "bc = (i, c)" by (cases bc)
    have "best_in now ?t (enumerate 0 ?ps) (i, c)"
      using best_of_peers [where now = now and tr = ?t and xs = "enumerate 0 ?ps"] by (simp add: Some bc)
    note b = best_by_index [OF this]
    let ?ps' = "?e[i := rr_win now ?T (?e ! i)]"
    define g' where "g' = g\<lparr>peer := ?ps'\<rparr>"
    define rrp' where "rrp' = rrp\<lparr>current := i, tried := mark_tried ?t i\<rparr>"
    have get: "ngx_http_upstream_get_peer now g rrp = Some (g', rrp', Some i)" using eq by (simp add: Some bc Let_def g'_def rrp'_def)
    have e: "?e ! i = rr_up (?ps ! i)" using b by (simp add: effect_nth)
    have ws: "map weight ?ps' = map weight ?ps" by (simp add: map_update_same effect_weights)
    have "peer_ok (?e ! i)" using effect_ok [OF ok, of now ?t 0] b by simp
    then have ok': "\<forall>p \<in> set ?ps'. peer_ok p"
      using effect_ok [OF ok, of now ?t 0] win_ok [OF assms(4)] by (auto dest!: set_update_subset_insert [THEN subsetD])
    have sum: "sum_list (map current_weight ?ps') = sum_list (map current_weight ?ps)" using b by (simp add: sum_update effect_sum)
    have "peer_ok (?ps ! i)" "\<bar>current_weight (?ps ! i)\<bar> \<le> B" "weight (?ps ! i) \<le> W"
      using b ok assms(2) elem_le_sum [OF ok, of i] w by (auto simp: cw_ok_def)
    then have "\<bar>current_weight (rr_win now ?T (?e ! i))\<bar> \<le> B + W" using T by (auto simp: e rr_raised_def peer_ok_def)
    then have cw: "\<forall>p \<in> set ?ps'. \<bar>current_weight p\<bar> \<le> B + W"
      using rB by (auto dest!: set_update_subset_insert [THEN subsetD] simp: in_set_conv_nth)
    have "group_ok W g'" using assms(1) ok' ws by (auto simp: group_ok_def g'_def)
    moreover have "cw_ok (B + W) g'" using cw by (simp add: cw_ok_def g'_def)
    moreover have "length (tried rrp') = length ?t" by (simp add: rrp'_def mark_tried_def)
    moreover have "\<forall>j. tried_bit (tried rrp') j = (if Some i = Some j then Some True else tried_bit ?t j)"
      using tried_bit_mark [OF _ assms(3), of i] b by (auto simp: rrp'_def n)
    moreover have "i < number g" "rr_open now ?t (i, ?ps ! i)" "\<forall>j < number g. rr_open now ?t (j, ?ps ! j) \<longrightarrow>
        rr_raised (?ps ! j) \<le> rr_raised (?ps ! i) \<and> (j < i \<longrightarrow> rr_raised (?ps ! j) < rr_raised (?ps ! i))"
      using b by (auto simp: n)
    ultimately show ?thesis
      using get ws sum
      by (intro exI [of _ g'] exI [of _ rrp'] exI [of _ "Some i"]) (simp add: g'_def rrp'_def)
  qed
qed

section \<open>Rounds\<close>

text \<open>One request served at the first attempt: the peer chosen and the groups after it is released.\<close>

definition rr_round :: "int \<Rightarrow> 'a rr_peers list \<Rightarrow> 'a peer_connection \<Rightarrow> ('a rr_peers list \<times> nat) option" where
  "rr_round now chain pc =
     (case ngx_http_upstream_init_round_robin_peer True True chain pc of
        Inl _ \<Rightarrow> None
      | Inr (rrp, pc) \<Rightarrow>
          do { (rc, chain, rrp, pc) \<leftarrow> ngx_http_upstream_get_round_robin_peer now chain rrp pc;
               if rc \<noteq> NGX_OK \<or> peers rrp \<noteq> 0 then None
               else do { (chain, pc) \<leftarrow> ngx_http_upstream_free_round_robin_peer now 0 chain rrp pc; Some (chain, current rrp) } })"

fun rr_rounds :: "int list \<Rightarrow> 'a rr_peers list \<Rightarrow> 'a peer_connection \<Rightarrow> ('a rr_peers list \<times> nat list) option" where
  "rr_rounds [] chain pc = Some (chain, [])"
| "rr_rounds (now # nows) chain pc =
     do { (chain, i) \<leftarrow> rr_round now chain pc;
          (chain, is) \<leftarrow> rr_rounds nows chain pc;
          Some (chain, i # is) }"

text \<open>A group none of whose peers is down or failed.\<close>

definition calm :: "int \<Rightarrow> 'a rr_peers \<Rightarrow> bool" where
  "calm W g \<longleftrightarrow> number g = length (peer g) \<and> 0 < number g \<and> sum_list (map weight (peer g)) = W
     \<and> (\<forall>p \<in> set (peer g). \<not> down p \<and> fails p = 0 \<and> 0 < weight p \<and> effective_weight p = weight p \<and> time_ok (checked p) \<and> time_ok (accessed p))"

definition level :: "int \<Rightarrow> 'a rr_peers \<Rightarrow> bool" where
  "level W g \<longleftrightarrow> sum_list (map current_weight (peer g)) = 0 \<and> (\<forall>p \<in> set (peer g). - W < current_weight p)"

lemma calm_group: "calm W g \<Longrightarrow> group_ok W g"
  by (auto simp: calm_def group_ok_def peer_ok_def)

lemma calm_positive: "calm W g \<Longrightarrow> 0 < W"
proof -
  assume c: "calm W g"
  then have "peer g ! 0 \<in> set (peer g)" by (auto simp: calm_def)
  moreover have "weight (peer g ! 0) \<le> W"
    using c elem_le_sum [of "peer g" 0] calm_group [OF c] by (auto simp: calm_def group_ok_def)
  ultimately show ?thesis using c by (fastforce simp: calm_def)
qed

lemma sum_list_lower:
  fixes f :: "'b \<Rightarrow> int"
  assumes "\<forall>x \<in> set xs. - W \<le> f x" "0 \<le> W"
  shows "\<forall>x \<in> set xs. f x \<le> sum_list (map f xs) + int (length xs) * W"
    and "- (int (length xs) * W) \<le> sum_list (map f xs)"
  using assms by (induction xs) (auto simp: algebra_simps)

lemma level_cw:
  assumes "calm W g" "level W g"
  shows "cw_ok (int (number g) * W) g"
proof -
  have W: "0 \<le> W" using calm_positive [OF assms(1)] by simp
  have low: "\<forall>p \<in> set (peer g). - W \<le> current_weight p" using assms(2) by (auto simp: level_def)
  have "1 \<le> int (number g)" using assms(1) by (auto simp: calm_def)
  then have "W \<le> int (number g) * W" using W mult_right_mono [of 1 "int (number g)" W] by simp
  with sum_list_lower(1) [OF low W] low assms show ?thesis by (fastforce simp: cw_ok_def level_def calm_def)
qed

lemma init_peer_fits:
  assumes "chain = g # rest"
  obtains rrp pc' where "ngx_http_upstream_init_round_robin_peer True True chain pc = Inr (rrp, pc')" "peers rrp = 0" "current rrp = 0"
    "tried_fits (number g) (tried rrp)" "\<And>j. j < number g \<Longrightarrow> tried_bit (tried rrp) j = Some False"
proof -
  define n where "n = rr_number chain"
  define t :: "u64 list" where "t = (if n \<le> 64 then [0] else replicate ((n + 63) div 64) 0)"
  have n: "number g \<le> n" unfolding n_def assms by (cases rest) (auto simp: rr_number_def)
  have "n \<le> 64 * length t" by (auto simp: t_def)
  then have f: "tried_fits (number g) t" using n by (simp add: tried_fits_def)
  have "set t \<subseteq> {0}" by (auto simp: t_def)
  then have z: "t ! k = 0" if "k < length t" for k using that by (meson nth_mem singletonD subsetD)
  have b: "tried_bit t j = Some False" if "j < number g" for j
  proof -
    have "j div 64 < length t" using that f by (auto simp: tried_fits_def)
    with z show ?thesis by (simp add: tried_bit_eq)
  qed
  have "ngx_http_upstream_init_round_robin_peer True True chain pc =
      Inr (\<lparr> peers = 0, current = 0, tried = t \<rparr>, pc\<lparr>tries := ngx_http_upstream_tries chain\<rparr>)"
    by (simp add: ngx_http_upstream_init_round_robin_peer_def Let_def n_def [symmetric] t_def)
  with that f b show thesis by simp
qed

lemma calm_open:
  assumes "calm W g" "j < number g" "tried_bit t j = Some False"
  shows "rr_open now t (j, peer g ! j)"
proof -
  have "peer g ! j \<in> set (peer g)" using assms by (auto simp: calm_def)
  with assms show ?thesis by (auto simp: rr_open_def peer_skipped_def calm_def)
qed

lemma some_positive:
  fixes f :: "'b \<Rightarrow> int"
  shows "0 < sum_list (map f xs) \<Longrightarrow> \<exists>x \<in> set xs. 0 < f x"
  by (induction xs) force+

lemma triple_bound: "x < 2 ^ 61 \<Longrightarrow> y \<le> x \<Longrightarrow> x + 2 * y < (2 ^ 63 :: int)"
  by simp

text \<open>One round on a group of several peers.\<close>

lemma calm_round:
  assumes "calm W g" "level W g" "int (number g) * W < 2 ^ 61" "\<not> single g" "time_ok now"
  shows "\<exists>i g'. rr_round now (g # rest) pc = Some (g' # rest, i) \<and> i < number g \<and> calm W g' \<and> level W g'
     \<and> number g' = number g \<and> single g' = single g \<and> map weight (peer g') = map weight (peer g)
     \<and> (\<forall>j < number g. current_weight (peer g' ! j) = current_weight (peer g ! j) + weight (peer g ! j) - (if j = i then W else 0))"
proof -
  obtain rrp pc1 where init: "ngx_http_upstream_init_round_robin_peer True True (g # rest) pc = Inr (rrp, pc1)" "peers rrp = 0"
    "tried_fits (number g) (tried rrp)" "\<And>j. j < number g \<Longrightarrow> tried_bit (tried rrp) j = Some False"
    using init_peer_fits [OF refl, of g rest pc] by blast
  let ?t = "tried rrp" and ?ps = "peer g"
  let ?e = "rr_effect now ?t 0 ?ps"
  have c: "number g = length ?ps" "sum_list (map weight ?ps) = W" "0 < number g"
    "\<And>p. p \<in> set ?ps \<Longrightarrow> \<not> down p \<and> fails p = 0 \<and> 0 < weight p \<and> effective_weight p = weight p \<and> time_ok (checked p) \<and> time_ok (accessed p)"
    using assms(1) by (auto simp: calm_def)
  have op: "rr_open now ?t (j, ?ps ! j)" if "j < length ?ps" for j using calm_open [OF assms(1)] init(4) that c(1) by simp
  have raised: "rr_raised p = current_weight p + weight p" "rr_up p = p\<lparr>current_weight := current_weight p + weight p\<rparr>" if "p \<in> set ?ps" for p
    using c(4) [OF that] by (simp_all add: rr_raised_def rr_up_def)
  have "rr_sum now ?t 0 ?ps = W"
  proof -
    have "map (\<lambda>x. if rr_open now ?t x then effective_weight (snd x) else 0) (enumerate 0 ?ps) = map weight ?ps"
      by (rule nth_equalityI) (use c op in \<open>auto simp: nth_enumerate_eq\<close>)
    then show ?thesis using c(2) by (simp add: rr_sum_def)
  qed
  note T = this
  have W: "0 < W" by (rule calm_positive [OF assms(1)])
  have nW: "W \<le> int (number g) * W" using c(3) W mult_right_mono [of 1 "int (number g)" W] by simp
  have bound: "int (number g) * W + 2 * W < 2 ^ 63" 
    using assms(3) nW by (rule triple_bound)
  have eq: "ngx_http_upstream_get_peer now g rrp = Some (case foldl (rr_better now ?t) None (enumerate 0 ?ps) of
       None \<Rightarrow> (g\<lparr>peer := ?e\<rparr>, rrp, None)
     | Some (i, c) \<Rightarrow> (g\<lparr>peer := ?e[i := rr_win now W (?e ! i)]\<rparr>, rrp\<lparr>current := i, tried := mark_tried ?t i\<rparr>, Some i))"
    using get_peer_eq [OF calm_group [OF assms(1)] level_cw [OF assms(1,2)] init(3) assms(5) _ bound] W unfolding T Let_def by simp
  have "foldl (rr_better now ?t) None (enumerate 0 ?ps) \<noteq> None"
    using best_of_peers [where now = now and tr = ?t and xs = "enumerate 0 ?ps"] op c(1,3)
    by (auto simp: in_set_enumerate_eq split: option.splits)
  then obtain i v where best: "foldl (rr_better now ?t) None (enumerate 0 ?ps) = Some (i, v)" by auto
  then have "best_in now ?t (enumerate 0 ?ps) (i, v)"
    using best_of_peers [where now = now and tr = ?t and xs = "enumerate 0 ?ps"] by simp
  note b = best_by_index [OF this]
  define q where "q = rr_win now W (?e ! i)"
  define g1 where "g1 = g\<lparr>peer := ?e[i := q]\<rparr>"
  define g2 where "g2 = g\<lparr>peer := ?e[i := q\<lparr>fails := 0\<rparr>]\<rparr>"
  have e: "?e ! j = (?ps ! j)\<lparr>current_weight := current_weight (?ps ! j) + weight (?ps ! j)\<rparr>" if "j < length ?ps" for j
    using that op raised(2) by (simp add: effect_nth)
  have i: "i < length ?ps" using b by simp
  have qf: "q\<lparr>fails := 0\<rparr> = q" using c(4) [of "?ps ! i"] i by (simp add: q_def rr_win_def e)
  then have g12: "g2 = g1" by (simp add: g1_def g2_def)
  have get: "ngx_http_upstream_get_peer now g rrp = Some (g1, rrp\<lparr>current := i, tried := mark_tried ?t i\<rparr>, Some i)"
    by (simp add: eq best g1_def q_def)
  have "ngx_http_upstream_get_round_robin_peer now (g # rest) rrp pc1 =
      Some (NGX_OK, g1 # rest, rrp\<lparr>current := i, tried := mark_tried ?t i\<rparr>,
        pc1\<lparr>cached := False, connection := False, pc_sockaddr := Some (sockaddr q), pc_name := peer_name q\<rparr>)"
    using i assms(4) init(2)
    by (subst ngx_http_upstream_get_round_robin_peer.simps) (simp add: rr_choose_def get Let_def g1_def rd_def)
  then have round: "rr_round now (g # rest) pc = Some (g1 # rest, i)"
    using i assms(4) init(2) qf
    by (simp add: rr_round_def init(1) ngx_http_upstream_free_round_robin_peer_def g1_def rd_def Let_def)
  have q: "current_weight q = current_weight (?ps ! i) + weight (?ps ! i) - W" "weight q = weight (?ps ! i)"
    using i by (simp_all add: q_def e)
  have cwj: "current_weight (peer g1 ! j) = current_weight (?ps ! j) + weight (?ps ! j) - (if j = i then W else 0)" if "j < number g" for j
    using that i c(1) by (simp add: g1_def nth_list_update q e)
  have ws: "map weight (peer g1) = map weight ?ps"
    using i by (intro nth_equalityI) (auto simp: g1_def nth_list_update q e)
  have calm: "calm W g1"
  proof -
    have "\<not> down (peer g1 ! j) \<and> fails (peer g1 ! j) = 0 \<and> 0 < weight (peer g1 ! j) \<and> effective_weight (peer g1 ! j) = weight (peer g1 ! j)
        \<and> time_ok (checked (peer g1 ! j)) \<and> time_ok (accessed (peer g1 ! j))" if "j < length ?ps" for j
      using c(4) [of "?ps ! j"] that assms(5) i by (auto simp: g1_def nth_list_update q_def rr_win_def e)
    then show ?thesis using c ws by (auto simp: calm_def g1_def in_set_conv_nth)
  qed
  have "sum_list (map current_weight (peer g1)) = 0"
    using assms(2) i by (simp add: g1_def q_def sum_update effect_sum T level_def)
  moreover have "- W < current_weight (peer g1 ! j)" if "j < length ?ps" for j
  proof (cases "j = i")
    case True
    have "sum_list (map (\<lambda>p. current_weight p + weight p) ?ps) = W"
      using assms(2) c(2) by (simp add: sum_list_addf level_def)
    then obtain p where p: "p \<in> set ?ps" "0 < current_weight p + weight p"
      using some_positive [of "\<lambda>p. current_weight p + weight p" ?ps] W by auto
    then obtain k where k: "k < length ?ps" "?ps ! k = p" by (auto simp: in_set_conv_nth)
    have "rr_raised p \<le> rr_raised (?ps ! i)" using b k op [OF k(1)] by auto
    then have "0 < current_weight (?ps ! i) + weight (?ps ! i)" using p raised(1) i by simp
    with True that cwj c(1) show ?thesis by simp
  next
    case False
    have "- W < current_weight (?ps ! j)" "0 < weight (?ps ! j)" using assms(2) c(4) that by (auto simp: level_def)
    with False that cwj c(1) show ?thesis by simp
  qed
  ultimately have "level W g1" using i by (auto simp: level_def in_set_conv_nth g1_def)
  moreover have "number g1 = number g" "single g1 = single g" by (simp_all add: g1_def)
  ultimately show ?thesis using round i c(1) calm ws cwj by auto
qed

lemma single_round:
  assumes "calm W g" "single g" "number g = 1"
  shows "rr_round now (g # rest) pc = Some (g # rest, 0)"
proof -
  obtain rrp pc1 where init: "ngx_http_upstream_init_round_robin_peer True True (g # rest) pc = Inr (rrp, pc1)" "peers rrp = 0" "current rrp = 0"
    using init_peer_fits [OF refl, of g rest pc] by blast
  obtain p where p: "peer g = [p]" "\<not> down p" using assms by (cases "peer g") (auto simp: calm_def)
  have "ngx_http_upstream_get_round_robin_peer now (g # rest) rrp pc1 =
      Some (NGX_OK, g # rest, rrp, pc1\<lparr>cached := False, connection := False, pc_sockaddr := Some (sockaddr p), pc_name := peer_name p\<rparr>)"
    using p assms(2) init(2) by (subst ngx_http_upstream_get_round_robin_peer.simps) (simp add: rr_choose_def Let_def)
  then show ?thesis
    using init assms(2) by (simp add: rr_round_def ngx_http_upstream_free_round_robin_peer_def)
qed

text \<open>The current weights after any number of rounds: the weight earned less the choices paid for.\<close>

lemma rounds_invariant:
  assumes "calm W g" "level W g" "int (number g) * W < 2 ^ 61" "\<not> single g" "\<forall>t \<in> set nows. time_ok t"
  shows "\<exists>g' picks. rr_rounds nows (g # rest) pc = Some (g' # rest, picks) \<and> length picks = length nows \<and> set picks \<subseteq> {..< number g}
     \<and> calm W g' \<and> level W g' \<and> number g' = number g \<and> map weight (peer g') = map weight (peer g)
     \<and> (\<forall>j < number g. current_weight (peer g' ! j) =
          current_weight (peer g ! j) + int (length nows) * weight (peer g ! j) - int (count_list picks j) * W)"
  using assms
proof (induction nows arbitrary: g)
  case Nil
  then show ?case by simp
next
  case (Cons now nows)
  obtain i g1 where r: "rr_round now (g # rest) pc = Some (g1 # rest, i)" "i < number g" "calm W g1" "level W g1" "number g1 = number g"
    "single g1 = single g" "map weight (peer g1) = map weight (peer g)"
    "\<forall>j < number g. current_weight (peer g1 ! j) = current_weight (peer g ! j) + weight (peer g ! j) - (if j = i then W else 0)"
    using calm_round [OF Cons.prems(1-4), of now rest pc] Cons.prems(5) by auto
  obtain g' picks where ih: "rr_rounds nows (g1 # rest) pc = Some (g' # rest, picks)" "length picks = length nows" "set picks \<subseteq> {..< number g}"
    "calm W g'" "level W g'" "number g' = number g" "map weight (peer g') = map weight (peer g)"
    "\<forall>j < number g. current_weight (peer g' ! j) =
       current_weight (peer g1 ! j) + int (length nows) * weight (peer g1 ! j) - int (count_list picks j) * W"
    using Cons.IH [OF r(3,4)] Cons.prems(3-5) unfolding r(5-7) by auto
  have w: "weight (peer g1 ! j) = weight (peer g ! j)" if "j < number g" for j
  proof -
    have "j < length (peer g)" "j < length (peer g1)" using that r(3,5) Cons.prems(1) by (auto simp: calm_def)
    with r(7) show ?thesis by (metis nth_map)
  qed
  have "\<forall>j < number g. current_weight (peer g' ! j) =
      current_weight (peer g ! j) + int (length (now # nows)) * weight (peer g ! j) - int (count_list (i # picks) j) * W"
  proof (intro allI impI)
    fix j
    assume j: "j < number g"
    have "current_weight (peer g' ! j) = current_weight (peer g ! j) + weight (peer g ! j) - (if j = i then W else 0)
        + int (length nows) * weight (peer g ! j) - int (count_list picks j) * W"
      using ih(8) r(8) j w [OF j] by simp
    then show "current_weight (peer g' ! j) =
        current_weight (peer g ! j) + int (length (now # nows)) * weight (peer g ! j) - int (count_list (i # picks) j) * W"
      by (cases "j = i") (simp_all add: algebra_simps)
  qed
  moreover have "rr_rounds (now # nows) (g # rest) pc = Some (g' # rest, i # picks)" by (simp add: r(1) ih(1))
  ultimately show ?case using ih r(2) by (intro exI [of _ g'] exI [of _ "i # picks"]) simp
qed

text \<open>The groups that start: no peer has served yet.\<close>

lemma count_sum:
  fixes n :: nat
  shows "set picks \<subseteq> {..< n} \<Longrightarrow> (\<Sum>j<n. count_list picks j) = length picks"
proof (induction picks)
  case (Cons i picks)
  then have "(\<Sum>j<n. count_list (i # picks) j) = (\<Sum>j<n. count_list picks j + (if j = i then 1 else 0))"
    by (intro sum.cong) auto
  also have "\<dots> = (\<Sum>j<n. count_list picks j) + (\<Sum>j \<in> {..< n}. if j = i then 1 else 0)" by (rule sum.distrib)
  also have "(\<Sum>j \<in> {..< n}. if j = i then 1 else 0 :: nat) = 1" using Cons.prems by (subst sum.delta) auto
  finally show ?case using Cons by simp
qed simp

lemma init_peers:
  assumes "ngx_http_upstream_init_round_robin m mb resolved us = Inr (g # rest)" "p \<in> set (peer g)"
  shows "current_weight p = 0 \<and> effective_weight p = weight p \<and> fails p = 0 \<and> accessed p = 0 \<and> checked p = 0"
  using assms by (auto simp: ngx_http_upstream_init_round_robin_def Let_def server_group_def implicit_group_def server_peers_def
      split: option.splits if_splits)

lemma init_number:
  assumes "ngx_http_upstream_init_round_robin m mb resolved us = Inr (g # rest)"
  shows "number g = length (peer g) \<and> (single g \<longrightarrow> number g = 1)"
proof -
  have "length (concat (map server_peers ss)) = sum_list (map (\<lambda>s. length (addrs s)) ss)" for ss :: "'a upstream_server list"
    by (simp add: length_concat server_peers_def comp_def)
  with assms show ?thesis
    by (auto simp: ngx_http_upstream_init_round_robin_def Let_def server_group_def implicit_group_def split: option.splits if_splits)
qed

lemma single_rounds:
  assumes "calm W g" "single g" "number g = 1"
  shows "rr_rounds nows (g # rest) pc = Some (g # rest, replicate (length nows) 0)"
  by (induction nows) (simp_all add: single_round [OF assms])

lemma count_list_zero: "count_list (replicate n 0) (0 :: nat) = n"
  by (induction n) simp_all

lemma no_excess:
  fixes c w :: "nat \<Rightarrow> int"
  assumes "\<forall>j < n. c j \<le> w j" "(\<Sum>j<n. c j) = (\<Sum>j<n. w j)" "j < n"
  shows "c j = w j"
proof (rule ccontr)
  assume "c j \<noteq> w j"
  then have "(\<Sum>j<n. c j) < (\<Sum>j<n. w j)" using assms by (intro sum_strict_mono_ex1) (auto intro!: bexI [of _ j])
  with assms(2) show False by simp
qed

lemma init_calm:
  assumes "ngx_http_upstream_init_round_robin m mb resolved us = Inr (g # rest)" "\<forall>p \<in> set (peer g). \<not> down p \<and> 0 < weight p"
    "peer g \<noteq> []"
  shows "calm (sum_list (map weight (peer g))) g \<and> level (sum_list (map weight (peer g))) g"
proof -
  have z: "\<forall>p \<in> set (peer g). current_weight p = 0 \<and> effective_weight p = weight p \<and> fails p = 0 \<and> accessed p = 0 \<and> checked p = 0"
    using init_peers [OF assms(1)] by blast
  have c: "calm (sum_list (map weight (peer g))) g"
    using z assms init_number [OF assms(1)] by (auto simp: calm_def time_ok_def)
  have "map current_weight (peer g) = map (\<lambda>_. 0) (peer g)" using z by simp
  then have "sum_list (map current_weight (peer g)) = sum_list (map (\<lambda>_. 0) (peer g))" by (rule arg_cong)
  then have "sum_list (map current_weight (peer g)) = 0" by simp
  with calm_positive [OF c] z have "level (sum_list (map weight (peer g))) g" by (simp add: level_def)
  with c show ?thesis by simp
qed

text \<open>
  C29. The balancer is fair. Take a configured upstream whose main peers are up, with positive weights,
  whose sum \<open>W\<close> times their number fits 61 bits. Any number \<open>t\<close> of requests, at any times, are each
  served by one of the main peers at the first attempt, none of which is ever given a whole request
  more than its share \<open>t * weight / W\<close>; and after each full cycle of \<open>W\<close> requests every peer has got
  exactly its weight, and all current weights are back at zero.
\<close>

theorem rr_fair:
  assumes "ngx_http_upstream_init_round_robin m mb resolved us = Inr (g # rest)"
    and "peer g \<noteq> []" "\<forall>p \<in> set (peer g). \<not> down p \<and> 0 < weight p"
    and "W = sum_list (map weight (peer g))" "int (number g) * W < 2 ^ 61" "\<forall>t \<in> set nows. time_ok t"
  shows "\<exists>g' picks. rr_rounds nows (g # rest) pc = Some (g' # rest, picks) \<and> set picks \<subseteq> {..< number g}
     \<and> (\<forall>j < number g. W * int (count_list picks j) < int (length nows) * weight (peer g ! j) + W)
     \<and> (\<forall>k. int (length nows) = k * W \<longrightarrow>
          (\<forall>j < number g. int (count_list picks j) = k * weight (peer g ! j) \<and> current_weight (peer g' ! j) = 0))"
proof -
  have n: "number g = length (peer g)" "single g \<Longrightarrow> number g = 1" using init_number [OF assms(1)] by auto
  have cl: "calm W g" "level W g" using init_calm [OF assms(1,3,2)] assms(4) by auto
  note W = calm_positive [OF cl(1)]
  have z: "current_weight (peer g ! j) = 0" if "j < number g" for j
    using init_peers [OF assms(1), of "peer g ! j"] that n(1) by simp
  show ?thesis
  proof (cases "single g")
    case True
    then obtain p where p: "peer g = [p]" using n by (cases "peer g") auto
    then have "weight p = W" "number g = 1" using assms(4) n(1) by auto
    then show ?thesis
      using single_rounds [OF cl(1) True] z W p by (intro exI [of _ g]) (auto simp: count_list_zero mult.commute)
  next
    case False
    obtain g' picks where r: "rr_rounds nows (g # rest) pc = Some (g' # rest, picks)" "length picks = length nows" "set picks \<subseteq> {..< number g}"
      "calm W g'" "level W g'" "number g' = number g" "map weight (peer g') = map weight (peer g)"
      and cw: "\<And>j. j < number g \<Longrightarrow> current_weight (peer g' ! j) =
          current_weight (peer g ! j) + int (length nows) * weight (peer g ! j) - int (count_list picks j) * W"
      using rounds_invariant [OF cl assms(5) False assms(6), of rest pc] by blast
    have cw: "current_weight (peer g' ! j) = int (length nows) * weight (peer g ! j) - int (count_list picks j) * W" if "j < number g" for j
      using cw [OF that] z [OF that] by simp
    have low: "- W < current_weight (peer g' ! j)" if "j < number g" for j
      using r(4-6) that by (auto simp: level_def calm_def)
    have share: "W * int (count_list picks j) < int (length nows) * weight (peer g ! j) + W" if "j < number g" for j
      using cw [OF that] low [OF that] by (simp add: mult.commute)
    have cycle: "int (count_list picks j) = k * weight (peer g ! j)" if k: "int (length nows) = k * W" and j: "j < number g" for k j
    proof (rule no_excess [where n = "number g"])
      show "\<forall>j < number g. int (count_list picks j) \<le> k * weight (peer g ! j)"
      proof (intro allI impI)
        fix j assume "j < number g"
        from share [OF this] have "W * int (count_list picks j) < W * (k * weight (peer g ! j) + 1)"
          unfolding k by (simp add: algebra_simps)
        then show "int (count_list picks j) \<le> k * weight (peer g ! j)" using W by (simp add: mult_less_cancel_left_pos)
      qed
      have "(\<Sum>j<number g. int (count_list picks j)) = int (length nows)"
        using count_sum [OF r(3)] r(2) by (metis of_nat_sum)
      moreover have "(\<Sum>j<number g. k * weight (peer g ! j)) = k * W"
        using assms(4) n(1) by (simp add: sum_distrib_left [symmetric] sum_list_sum_nth atLeast0LessThan)
      ultimately show "(\<Sum>j<number g. int (count_list picks j)) = (\<Sum>j<number g. k * weight (peer g ! j))" using k by simp
    qed (rule j)
    have "current_weight (peer g' ! j) = 0" if k: "int (length nows) = k * W" and j: "j < number g" for k j
      using cw [OF j] cycle [OF k j] k by simp
    with r share cycle show ?thesis by blast
  qed
qed

definition example_upstream :: "nat upstream_srv_conf" where
  "example_upstream =
     \<lparr> servers = Some [\<lparr> srv_name = bytes_of ''a'', addrs = [(1, bytes_of ''a'')], srv_weight = 5, srv_max_fails = 1,
         srv_fail_timeout = 10, srv_down = False, backup = False \<rparr>,
       \<lparr> srv_name = bytes_of ''b'', addrs = [(2, bytes_of ''b''), (3, bytes_of ''c'')], srv_weight = 1, srv_max_fails = 1,
         srv_fail_timeout = 10, srv_down = False, backup = False \<rparr>], host = bytes_of ''u'', port = 0 \<rparr>"

definition example_group :: "nat rr_peers" where
  "example_group = server_group (host example_upstream) True (the (servers example_upstream))"

definition example_connection :: "nat peer_connection" where
  "example_connection = \<lparr> connection = False, cached = False, pc_sockaddr = None, pc_name = [], tries = 0 \<rparr>"

lemma example_init: "ngx_http_upstream_init_round_robin True True None example_upstream = Inr [example_group]"
  by (simp add: example_group_def example_upstream_def ngx_http_upstream_init_round_robin_def)

lemma example_peers:
  "peer example_group \<noteq> []" "\<forall>p \<in> set (peer example_group). \<not> down p \<and> 0 < weight p" "7 = sum_list (map weight (peer example_group))"
  "number example_group = 3" "weight (peer example_group ! 0) = 5" "weight (peer example_group ! 2) = 1"
  by (simp_all add: example_group_def example_upstream_def server_group_def server_peers_def)

theorem rr_fair_witness:
  "\<exists>g' picks. rr_rounds [0, 0, 1, 2, 3, 100, 99] [example_group] example_connection = Some ([g'], picks)
    \<and> int (count_list picks 0) = 5 \<and> int (count_list picks 2) = 1"
proof -
  have "\<forall>t \<in> set [0, 0, 1, 2, 3, 100, 99]. time_ok t" "int (number example_group) * 7 < 2 ^ 61" by (simp_all add: time_ok_def example_peers(4))
  from rr_fair [OF example_init example_peers(1-3) this(2,1), of example_connection]
  obtain g' picks where f: "rr_rounds [0, 0, 1, 2, 3, 100, 99] [example_group] example_connection = Some ([g'], picks)"
    "\<And>k j. int (length [0, 0, 1, 2, 3, 100, 99 :: int]) = k * 7 \<Longrightarrow> j < number example_group \<Longrightarrow>
       int (count_list picks j) = k * weight (peer example_group ! j)" by blast
  have "int (count_list picks 0) = 5" "int (count_list picks 2) = 1"
    using f(2) [of 1 0] f(2) [of 1 2] by (simp_all add: example_peers)
  with f(1) show ?thesis by blast
qed

section \<open>Retries\<close>

definition chain_ok :: "int \<Rightarrow> int \<Rightarrow> 'a rr_peers list \<Rightarrow> bool" where
  "chain_ok W B chain \<longleftrightarrow> (\<forall>g \<in> set chain. group_ok W g \<and> cw_ok B g \<and> \<not> single g)"

lemma chain_ok_update: "chain_ok W B chain \<Longrightarrow> group_ok W g \<Longrightarrow> cw_ok B g \<Longrightarrow> \<not> single g \<Longrightarrow> chain_ok W B (chain[k := g])"
  by (auto simp: chain_ok_def dest!: set_update_subset_insert [THEN subsetD])

lemma chain_ok_mono: "chain_ok W B chain \<Longrightarrow> B \<le> C \<Longrightarrow> chain_ok W C chain"
  by (fastforce simp: chain_ok_def cw_ok_def)

lemma chain_ok_nth: "chain_ok W B chain \<Longrightarrow> k < length chain \<Longrightarrow> group_ok W (chain ! k) \<and> cw_ok B (chain ! k) \<and> \<not> single (chain ! k)"
  by (simp add: chain_ok_def)

lemma group_W: "group_ok W g \<Longrightarrow> 0 \<le> W"
  using sum_list_nonneg_le [of "peer g" "\<lambda>p. 0" weight] by (fastforce simp: group_ok_def peer_ok_def)

lemma revive_ok:
  assumes "group_ok W g" "cw_ok B g" "\<not> single g"
  shows "\<exists>g'. rr_revive g = Some g' \<and> group_ok W g' \<and> cw_ok B g' \<and> \<not> single g' \<and> number g' = number g"
  using assms by (auto simp: rr_revive_def group_ok_def cw_ok_def peer_ok_def comp_def)

lemma map_number_update: "k < length chain \<Longrightarrow> number g = number (chain ! k) \<Longrightarrow> map number (chain[k := g]) = map number chain"
  by (simp add: map_update_same)

lemma clear_fits: "tried_fits n t \<Longrightarrow> \<exists>t'. clear_tried ((n + 63) div 64) t = Some t' \<and> length t' = length t"
  by (auto simp: clear_tried_def tried_fits_def)

text \<open>The peer a call of \<^verbatim>\<open>get\<close> answers: in its own group a new one, or one of a later group.\<close>

definition new_peer :: "rr_peer_data \<Rightarrow> rr_peer_data \<Rightarrow> bool" where
  "new_peer a b \<longleftrightarrow> peers a \<le> peers b \<and> tried_bit (tried b) (current b) = Some True
     \<and> (peers b = peers a \<longrightarrow> tried_bit (tried a) (current b) = Some False
          \<and> (\<forall>j. tried_bit (tried a) j = Some True \<longrightarrow> tried_bit (tried b) j = Some True))"

lemma get_ok:
  assumes "chain_ok W B chain" "peers rrp < length chain" "\<forall>g \<in> set chain. tried_fits (number g) (tried rrp)" "time_ok now" "0 \<le> B"
    and "B + (int (length chain - peers rrp) + 1) * W < 2 ^ 63"
  shows "\<exists>rc chain' rrp' pc'. ngx_http_upstream_get_round_robin_peer now chain rrp pc = Some (rc, chain', rrp', pc')
     \<and> chain_ok W (B + int (length chain - peers rrp) * W) chain' \<and> map number chain' = map number chain
     \<and> length (tried rrp') = length (tried rrp) \<and> tries pc' = tries pc
     \<and> (rc = NGX_BUSY \<or> rc = NGX_OK \<and> peers rrp' < length chain \<and> current rrp' < number (chain' ! peers rrp') \<and> new_peer rrp rrp')"
  using assms
proof (induction "length chain - peers rrp" arbitrary: chain rrp pc B)
  case 0
  then show ?case by simp
next
  case (Suc d)
  let ?k = "peers rrp"
  let ?g = "chain ! ?k"
  let ?pc = "pc\<lparr>cached := False, connection := False\<rparr>"
  have k: "?k < length chain" "d = length chain - (?k + 1)" using Suc by simp_all
  have g: "group_ok W ?g" "cw_ok B ?g" "\<not> single ?g" using chain_ok_nth [OF Suc.prems(1) k(1)] by auto
  note W = group_W [OF g(1)]
  have D: "int (length chain - ?k) = int d + 1" using Suc.hyps(2) by simp
  have dW: "0 \<le> int d * W" using W by simp
  have b1: "B + 2 * W < 2 ^ 63" using Suc.prems(6) dW unfolding D by (simp add: algebra_simps)
  have fits: "tried_fits (number ?g) (tried rrp)" using Suc.prems(3) k(1) by simp
  obtain g1 r1 best where p: "ngx_http_upstream_get_peer now ?g rrp = Some (g1, r1, best)" "group_ok W g1" "cw_ok (B + W) g1"
    "number g1 = number ?g" "single g1 = single ?g" "peers r1 = ?k" "length (tried r1) = length (tried rrp)"
    "\<And>j. tried_bit (tried r1) j = (if best = Some j then Some True else tried_bit (tried rrp) j)"
    "\<And>i. best = Some i \<Longrightarrow> current r1 = i \<and> i < number ?g \<and> rr_open now (tried rrp) (i, peer ?g ! i)"
    using get_peer_step [OF g(1,2) fits Suc.prems(4,5) b1] by fastforce
  have ng: "number g1 = length (peer g1)" using p(2) by (simp add: group_ok_def)
  have ch: "chain_ok W (B + W) (chain[?k := g1])" "map number (chain[?k := g1]) = map number chain"
    using chain_ok_update [OF chain_ok_mono [OF Suc.prems(1), of "B + W"] p(2,3)] W g(3) p(4,5) k(1) by (simp_all add: map_number_update)
  note up = chain_ok_mono [OF ch(1), of "B + (int d + 1) * W"]
  have BW: "B + W \<le> B + (int d + 1) * W" using dW by (simp add: algebra_simps)
  show ?case
  proof (cases best)
    case (Some i)
    have i: "current r1 = i" "i < number ?g" "tried_bit (tried rrp) i = Some False" using p(9) [OF Some] by (auto simp: rr_open_def)
    have "ngx_http_upstream_get_round_robin_peer now chain rrp pc =
        Some (NGX_OK, chain[?k := g1], r1, ?pc\<lparr>pc_sockaddr := Some (sockaddr (peer g1 ! i)), pc_name := peer_name (peer g1 ! i)\<rparr>)"
      using k(1) g(3) p(1,4) i(2) Some ng by (subst ngx_http_upstream_get_round_robin_peer.simps) (simp add: rr_choose_def rd_def Let_def)
    moreover have "new_peer rrp r1" using i p(6,8) Some by (simp add: new_peer_def)
    ultimately show ?thesis using up [OF BW] ch(2) p(4,6,7) i k(1) unfolding D by simp
  next
    case None
    have choose: "rr_choose now ?g rrp = Some (g1, r1, None)" using g(3) p(1) None by (simp add: rr_choose_def)
    have "\<exists>rc c2 r2 pc2. (case rd (chain[?k := g1]) (?k + 1) of
          None \<Rightarrow> Some (NGX_BUSY, chain[?k := g1], r1, ?pc)
        | Some b \<Rightarrow> do { t \<leftarrow> clear_tried ((number b + 63) div 64) (tried r1);
            ngx_http_upstream_get_round_robin_peer now (chain[?k := g1]) (r1\<lparr>peers := ?k + 1, tried := t\<rparr>) ?pc }) = Some (rc, c2, r2, pc2)
      \<and> chain_ok W (B + (int d + 1) * W) c2 \<and> map number c2 = map number chain \<and> length (tried r2) = length (tried rrp) \<and> tries pc2 = tries pc
      \<and> (rc = NGX_BUSY \<or> rc = NGX_OK \<and> peers r2 < length chain \<and> current r2 < number (c2 ! peers r2) \<and> new_peer rrp r2)"
    proof (cases "?k + 1 < length chain")
      case False
      then show ?thesis using up [OF BW] ch(2) p(7) by (simp add: rd_def)
    next
      case True
      let ?b = "chain ! (?k + 1)"
      have fb: "\<forall>g \<in> set (chain[?k := g1]). tried_fits (number g) (tried rrp)"
        using Suc.prems(3) ch(2) by (metis (no_types, lifting) image_iff list.set_map)
      have "tried_fits (number ?b) (tried r1)" using Suc.prems(3) True p(7) by (simp add: tried_fits_def)
      then obtain t where t: "clear_tried ((number ?b + 63) div 64) (tried r1) = Some t" "length t = length (tried r1)" using clear_fits by blast
      let ?r = "r1\<lparr>peers := ?k + 1, tried := t\<rparr>"
      have "\<exists>rc chain' rrp' pc'. ngx_http_upstream_get_round_robin_peer now (chain[?k := g1]) ?r ?pc = Some (rc, chain', rrp', pc')
         \<and> chain_ok W (B + W + int (length (chain[?k := g1]) - peers ?r) * W) chain' \<and> map number chain' = map number (chain[?k := g1])
         \<and> length (tried rrp') = length (tried ?r) \<and> tries pc' = tries ?pc
         \<and> (rc = NGX_BUSY \<or> rc = NGX_OK \<and> peers rrp' < length (chain[?k := g1]) \<and> current rrp' < number (chain' ! peers rrp') \<and> new_peer ?r rrp')"
        using k True ch(1) fb Suc.prems(4-6) t(2) p(7) W D
        by (intro Suc.hyps(1)) (auto simp: tried_fits_def algebra_simps)
      moreover have "int (length (chain[?k := g1]) - peers ?r) = int d" using k(2) by simp
      moreover have "new_peer ?r rrp' \<Longrightarrow> new_peer rrp rrp'" for rrp' by (auto simp: new_peer_def)
      ultimately show ?thesis using True t p(7) ch(2) by (fastforce simp: rd_def algebra_simps)
    qed
    then obtain rc c2 r2 pc2 where r: "(case rd (chain[?k := g1]) (?k + 1) of
          None \<Rightarrow> Some (NGX_BUSY, chain[?k := g1], r1, ?pc)
        | Some b \<Rightarrow> do { t \<leftarrow> clear_tried ((number b + 63) div 64) (tried r1);
            ngx_http_upstream_get_round_robin_peer now (chain[?k := g1]) (r1\<lparr>peers := ?k + 1, tried := t\<rparr>) ?pc }) = Some (rc, c2, r2, pc2)"
      and c2: "chain_ok W (B + (int d + 1) * W) c2" "map number c2 = map number chain" "length (tried r2) = length (tried rrp)" "tries pc2 = tries pc"
        "rc = NGX_BUSY \<or> rc = NGX_OK \<and> peers r2 < length chain \<and> current r2 < number (c2 ! peers r2) \<and> new_peer rrp r2"
      by blast
    have get: "ngx_http_upstream_get_round_robin_peer now chain rrp pc =
        (if rc \<noteq> NGX_BUSY then Some (rc, c2, r2, pc2)
         else do { g \<leftarrow> rd c2 ?k; g' \<leftarrow> rr_revive g; Some (NGX_BUSY, c2[?k := g'], r2, pc2\<lparr>pc_name := peers_name g'\<rparr>) })"
    proof -
      have "rd chain ?k = Some ?g" using k(1) by (simp add: rd_def)
      then show ?thesis
        by (subst ngx_http_upstream_get_round_robin_peer.simps) (simp only: Let_def option.case choose bind.simps prod.case r)
    qed
    show ?thesis
    proof (cases "rc = NGX_BUSY")
      case False
      then show ?thesis using get c2 unfolding D by simp
    next
      case True
      have l: "length c2 = length chain" using c2(2) by (metis length_map)
      then have "?k < length c2" using k(1) by simp
      from chain_ok_nth [OF c2(1) this] obtain g' where g': "rr_revive (c2 ! ?k) = Some g'" "group_ok W g'" "cw_ok (B + (int d + 1) * W) g'" "\<not> single g'"
        "number g' = number (c2 ! ?k)" using revive_ok by blast
      then have "chain_ok W (B + (int d + 1) * W) (c2[?k := g'])" "map number (c2[?k := g']) = map number chain"
        using chain_ok_update [OF c2(1) g'(2-4)] c2(2) l k(1) by (simp_all add: map_number_update)
      with get True g'(1) c2 l k(1) show ?thesis unfolding D by (simp add: rd_def)
    qed
  qed
qed

text \<open>The attempts of one request: each peer is released with a state, and the last attempt is the one that uses up \<open>tries\<close>.\<close>

fun rr_attempts :: "(int \<times> nat) list \<Rightarrow> 'a rr_peers list \<Rightarrow> rr_peer_data \<Rightarrow> 'a peer_connection \<Rightarrow> ((nat \<times> nat) list \<times> 'a rr_peers list) option" where
  "rr_attempts [] chain rrp pc = Some ([], chain)"
| "rr_attempts ((now, st) # as) chain rrp pc =
     do { (rc, chain, rrp, pc) \<leftarrow> ngx_http_upstream_get_round_robin_peer now chain rrp pc;
          if rc \<noteq> NGX_OK then Some ([], chain)
          else
            do { (chain, pc) \<leftarrow> ngx_http_upstream_free_round_robin_peer now st chain rrp pc;
                 (vs, chain) \<leftarrow> (if tries pc = 0 then Some ([], chain) else rr_attempts as chain rrp pc);
                 Some ((peers rrp, current rrp) # vs, chain) } }"

lemma failed_ok:
  assumes "peer_ok p" "time_ok now" "weight p < 2 ^ 63"
  shows "peer_ok (p\<lparr>fails := f, accessed := now, checked := now, effective_weight := (let ew = (if max_fails p \<noteq> 0
      then cast64 (effective_weight p - (weight p mod 2 ^ 64) div int (max_fails p)) else effective_weight p) in if ew < 0 then 0 else ew)\<rparr>)"
proof -
  have p: "0 \<le> effective_weight p" "effective_weight p \<le> weight p" "0 \<le> weight p" using assms(1) by (auto simp: peer_ok_def)
  then have "weight p mod 2 ^ 64 = weight p" using assms(3) by simp
  moreover have "0 \<le> weight p div int (max_fails p)" using p by (simp add: pos_imp_zdiv_nonneg_iff div_int_pos_iff)
  moreover have "weight p div int (max_fails p) \<le> weight p"
    using p zdiv_mono2 [of "weight p" 1 "int (max_fails p)"] by (cases "max_fails p = 0") auto
  moreover have "cast64 (effective_weight p - weight p div int (max_fails p)) = effective_weight p - weight p div int (max_fails p)"
    using calculation p assms(3) by (intro cast64_id) auto
  ultimately show ?thesis using p assms(1,2) by (auto simp: peer_ok_def)
qed

lemma free_ok:
  assumes "chain_ok W B chain" "peers rrp < length chain" "current rrp < number (chain ! peers rrp)" "time_ok now" "W < 2 ^ 63"
  shows "\<exists>chain' pc'. ngx_http_upstream_free_round_robin_peer now st chain rrp pc = Some (chain', pc')
     \<and> chain_ok W B chain' \<and> map number chain' = map number chain \<and> tries pc' = tries pc - 1"
proof -
  let ?g = "chain ! peers rrp"
  have g: "group_ok W ?g" "cw_ok B ?g" "\<not> single ?g" using chain_ok_nth [OF assms(1,2)] by auto
  have c: "current rrp < length (peer ?g)" using assms(3) g(1) by (simp add: group_ok_def)
  define p where "p = peer ?g ! current rrp"
  have "p \<in> set (peer ?g)" using c by (simp add: p_def)
  then have p: "peer_ok p" "\<bar>current_weight p\<bar> \<le> B" using g by (auto simp: group_ok_def cw_ok_def)
  have "weight p \<le> W" using elem_le_sum [OF _ c] g(1) by (fastforce simp: group_ok_def p_def)
  then have w: "weight p < 2 ^ 63" using assms(5) by simp
  define p' where "p' = (if st AND NGX_PEER_FAILED \<noteq> 0 then
       p\<lparr>fails := (fails p + 1) mod 2 ^ 64, accessed := now, checked := now, effective_weight := (let ew = (if max_fails p \<noteq> 0
         then cast64 (effective_weight p - (weight p mod 2 ^ 64) div int (max_fails p)) else effective_weight p) in if ew < 0 then 0 else ew)\<rparr>
     else if accessed p < checked p then p\<lparr>fails := 0\<rparr> else p)"
  have p': "peer_ok p'" "weight p' = weight p" "current_weight p' = current_weight p"
    using failed_ok [OF p(1) assms(4) w] p(1) by (auto simp: p'_def) (auto simp: peer_ok_def)
  let ?g' = "?g\<lparr>peer := (peer ?g)[current rrp := p']\<rparr>"
  have "map weight ((peer ?g)[current rrp := p']) = map weight (peer ?g)" using p'(2) by (simp add: map_update_same p_def)
  then have "group_ok W ?g'" using g(1) p'(1) by (auto simp: group_ok_def dest!: set_update_subset_insert [THEN subsetD])
  moreover have "cw_ok B ?g'" using g(2) p' p(2) by (auto simp: cw_ok_def dest!: set_update_subset_insert [THEN subsetD])
  ultimately have "chain_ok W B (chain[peers rrp := ?g'])" using chain_ok_update [OF assms(1)] g(3) by simp
  moreover have "map number (chain[peers rrp := ?g']) = map number chain" using assms(2) by (simp add: map_number_update)
  moreover have "ngx_http_upstream_free_round_robin_peer now st chain rrp pc =
      Some (chain[peers rrp := ?g'], if tries pc \<noteq> 0 then pc\<lparr>tries := tries pc - 1\<rparr> else pc)"
    using assms(2) g(3) c by (simp add: ngx_http_upstream_free_round_robin_peer_def rd_def p'_def p_def Let_def)
  ultimately show ?thesis by auto
qed

definition seen :: "(nat \<times> nat) set \<Rightarrow> rr_peer_data \<Rightarrow> bool" where
  "seen V rrp \<longleftrightarrow> (\<forall>(k, j) \<in> V. k < peers rrp \<or> k = peers rrp \<and> tried_bit (tried rrp) j = Some True)"

lemma seen_new:
  assumes "seen V a" "new_peer a b"
  shows "(peers b, current b) \<notin> V \<and> seen (insert (peers b, current b) V) b"
  using assms by (fastforce simp: seen_def new_peer_def)

lemma attempts_fresh:
  assumes "chain_ok W B chain" "peers rrp < length chain" "\<forall>g \<in> set chain. tried_fits (number g) (tried rrp)" "\<forall>a \<in> set as. time_ok (fst a)"
    and "0 \<le> B" "0 \<le> W" "B + ((int (length as) + 1) * int (length chain) + 1) * W < 2 ^ 63" "seen V rrp" "0 < tries pc"
  shows "\<exists>vs chain'. rr_attempts as chain rrp pc = Some (vs, chain') \<and> distinct vs \<and> set vs \<inter> V = {} \<and> length vs \<le> tries pc
     \<and> (\<forall>(k, j) \<in> set vs. k < length chain \<and> j < number (chain ! k)) \<and> map number chain' = map number chain"
  using assms
proof (induction as arbitrary: chain rrp pc B V)
  case Nil
  then show ?case by simp
next
  case (Cons a as)
  obtain now st where a: "a = (now, st)" by (cases a)
  define L where "L = int (length chain)"
  define D where "D = int (length chain - peers rrp)"
  have DL: "0 < D" "D \<le> L" "1 \<le> L" using Cons.prems(2) by (auto simp: D_def L_def)
  have now: "time_ok now" using Cons.prems(4) a by simp
  have room: "B + ((int (length as) + 1 + 1) * L + 1) * W < 2 ^ 63" using Cons.prems(7) by (simp add: L_def)
  have "D + 1 \<le> (int (length as) + 1 + 1) * L + 1" "D + ((int (length as) + 1) * L + 1) \<le> (int (length as) + 1 + 1) * L + 1"
    using DL by (auto simp: algebra_simps add_increasing)
  then have "(D + 1) * W \<le> ((int (length as) + 1 + 1) * L + 1) * W"
    "D * W + ((int (length as) + 1) * L + 1) * W \<le> ((int (length as) + 1 + 1) * L + 1) * W"
    using Cons.prems(6) mult_right_mono [of _ _ W] by (auto simp only: distrib_right [symmetric])
  then have b: "B + (D + 1) * W < 2 ^ 63" "B + D * W + ((int (length as) + 1) * L + 1) * W < 2 ^ 63" using room by simp_all
  have DW: "0 \<le> D * W" "0 \<le> (int (length as) + 1) * L * W" using DL Cons.prems(6) by simp_all
  then have W63: "W < 2 ^ 63" using b(2) Cons.prems(5) by (simp add: distrib_right)
  obtain rc c1 r1 pc1 where g: "ngx_http_upstream_get_round_robin_peer now chain rrp pc = Some (rc, c1, r1, pc1)"
    "chain_ok W (B + D * W) c1" "map number c1 = map number chain" "length (tried r1) = length (tried rrp)" "tries pc1 = tries pc"
    "rc = NGX_BUSY \<or> rc = NGX_OK \<and> peers r1 < length chain \<and> current r1 < number (c1 ! peers r1) \<and> new_peer rrp r1"
    using get_ok [OF Cons.prems(1,2,3) now Cons.prems(5), of pc] b(1) unfolding D_def by auto
  have l: "length c1 = length chain" "\<And>k. k < length chain \<Longrightarrow> number (c1 ! k) = number (chain ! k)"
    using g(3) by (metis length_map) (metis g(3) length_map nth_map)
  show ?case
  proof (cases "rc = NGX_OK")
    case False
    then show ?thesis using g(1,3) by (simp add: a)
  next
    case True
    then have r: "peers r1 < length c1" "current r1 < number (c1 ! peers r1)" "new_peer rrp r1"
      using g(6) l by (auto simp: rc_defs)
    obtain c2 pc2 where f: "ngx_http_upstream_free_round_robin_peer now st c1 r1 pc1 = Some (c2, pc2)" "chain_ok W (B + D * W) c2"
      "map number c2 = map number c1" "tries pc2 = tries pc - 1"
      using free_ok [OF g(2) r(1,2) now W63, of st pc1] g(5) by auto
    have l2: "length c2 = length chain" "\<And>k. k < length chain \<Longrightarrow> number (c2 ! k) = number (chain ! k)"
      using f(3) l by (metis length_map) (metis f(3) l length_map nth_map)
    let ?x = "(peers r1, current r1)"
    note nw = seen_new [OF Cons.prems(8) r(3)]
    have nx: "peers r1 < length chain \<and> current r1 < number (chain ! peers r1)" using r l by simp
    show ?thesis
    proof (cases "tries pc2 = 0")
      case t: True
      then have "rr_attempts (a # as) chain rrp pc = Some ([?x], c2)" using g(1) True f(1) by (simp add: a)
      then show ?thesis using nw nx f(3) g(3) Cons.prems(9) by auto
    next
      case t: False
      have fits: "\<forall>g \<in> set c2. tried_fits (number g) (tried r1)"
      proof
        fix g' assume "g' \<in> set c2"
        then have "number g' \<in> set (map number chain)" using f(3) g(3) by (metis imageI list.set_map)
        then show "tried_fits (number g') (tried r1)" using Cons.prems(3) g(4) by (auto simp: tried_fits_def)
      qed
      have "\<exists>vs chain'. rr_attempts as c2 r1 pc2 = Some (vs, chain') \<and> distinct vs \<and> set vs \<inter> insert ?x V = {} \<and> length vs \<le> tries pc2
         \<and> (\<forall>(k, j) \<in> set vs. k < length c2 \<and> j < number (c2 ! k)) \<and> map number chain' = map number c2"
        using b(2) t r(1) nw Cons.prems(4-6) DW f(2) fits l l2(1) L_def by (intro Cons.IH [where B = "B + D * W"]) auto
      then obtain vs c3 where v: "rr_attempts as c2 r1 pc2 = Some (vs, c3)" "distinct vs" "set vs \<inter> insert ?x V = {}" "length vs \<le> tries pc2"
        "\<And>k j. (k, j) \<in> set vs \<Longrightarrow> k < length chain \<and> j < number (chain ! k)" "map number c3 = map number c2"
        using l2 by fastforce
      have "rr_attempts (a # as) chain rrp pc = Some (?x # vs, c3)" using g(1) True f(1) t v(1) by (simp add: a)
      moreover have "length (?x # vs) \<le> tries pc" using v(4) f(4) t by simp
      ultimately show ?thesis using v nx nw f(3) g(3) by auto
    qed
  qed
qed

lemma init_tried:
  assumes "ngx_http_upstream_init_round_robin_peer m mt chain pc = Inr (rrp, pc')" "length chain \<le> 2"
  shows "peers rrp = 0 \<and> tries pc' = ngx_http_upstream_tries chain \<and> (\<forall>g \<in> set chain. tried_fits (number g) (tried rrp))"
proof -
  define n where "n = rr_number chain"
  have "number g \<le> n" if "g \<in> set chain" for g
    using that assms(2) unfolding n_def
    by (cases chain; cases "tl chain"; cases "tl (tl chain)") (auto simp: rr_number_def)
  moreover have "rrp = \<lparr> peers = 0, current = 0, tried = (if n \<le> 64 then [0] else replicate ((n + 63) div 64) 0) \<rparr>"
    "pc' = pc\<lparr>tries := ngx_http_upstream_tries chain\<rparr>"
    using assms(1) by (auto simp: ngx_http_upstream_init_round_robin_peer_def n_def Let_def split: if_splits)
  ultimately show ?thesis by (force simp: tried_fits_def)
qed

lemma tries_positive: "chain_ok W B chain \<Longrightarrow> chain \<noteq> [] \<Longrightarrow> 0 < ngx_http_upstream_tries chain"
  by (cases chain) (auto simp: chain_ok_def group_ok_def ngx_http_upstream_tries_def split: list.split)

section \<open>The choices are right\<close>

text \<open>
  C30. One choice of the balancer. In a group that keeps its invariant, with the current weights and the
  sum \<open>W\<close> of the weights in range, the choice never overflows, never reads outside the peers or the
  bits of the tried ones, and keeps the invariant and the sum of the current weights. It answers
  nothing only when no peer is open (untried, up, and not failed too often); otherwise the first peer
  with the largest raised weight among the open ones, whose bit, and no other, it sets.
\<close>

theorem rr_get_peer_best:
  assumes "group_ok W g" "cw_ok B g" "tried_fits (number g) (tried rrp)" "time_ok now" "0 \<le> B" "B + 2 * W < 2 ^ 63"
  shows "\<exists>g' rrp' best. ngx_http_upstream_get_peer now g rrp = Some (g', rrp', best)
     \<and> group_ok W g' \<and> cw_ok (B + W) g' \<and> number g' = number g \<and> map weight (peer g') = map weight (peer g)
     \<and> sum_list (map current_weight (peer g')) = sum_list (map current_weight (peer g))
     \<and> single g' = single g \<and> peers rrp' = peers rrp \<and> length (tried rrp') = length (tried rrp)
     \<and> (\<forall>j. tried_bit (tried rrp') j = (if best = Some j then Some True else tried_bit (tried rrp) j))
     \<and> (case best of
          None \<Rightarrow> \<forall>j < number g. \<not> rr_open now (tried rrp) (j, peer g ! j)
        | Some i \<Rightarrow> current rrp' = i \<and> i < number g \<and> rr_open now (tried rrp) (i, peer g ! i)
            \<and> (\<forall>j < number g. rr_open now (tried rrp) (j, peer g ! j) \<longrightarrow>
                 rr_raised (peer g ! j) \<le> rr_raised (peer g ! i) \<and> (j < i \<longrightarrow> rr_raised (peer g ! j) < rr_raised (peer g ! i))))"
  using assms by (rule get_peer_step)

lemma example_ok: "group_ok 7 example_group" "cw_ok 0 example_group" "\<not> single example_group"
  by (simp_all add: example_group_def example_upstream_def server_group_def server_peers_def group_ok_def cw_ok_def peer_ok_def time_ok_def)

theorem rr_get_peer_best_witness:
  "\<exists>g' rrp' best. ngx_http_upstream_get_peer 1 example_group \<lparr> peers = 0, current = 0, tried = [1] \<rparr> = Some (g', rrp', best)
     \<and> cw_ok 7 g' \<and> tried_bit (tried rrp') 0 = Some True"
proof -
  have "tried_fits (number example_group) (tried \<lparr> peers = 0, current = 0, tried = [1] \<rparr>)" "time_ok 1" "tried_bit [1] 0 = Some True"
    by (simp_all add: example_peers(4) tried_fits_def time_ok_def tried_bit_def)
  with rr_get_peer_best [OF example_ok(1,2), of "\<lparr> peers = 0, current = 0, tried = [1] \<rparr>" 1]
  obtain g' rrp' best where "ngx_http_upstream_get_peer 1 example_group \<lparr> peers = 0, current = 0, tried = [1] \<rparr> = Some (g', rrp', best)"
    "cw_ok 7 g'" "\<forall>j. tried_bit (tried rrp') j = (if best = Some j then Some True else tried_bit [1] j)" by auto
  with \<open>tried_bit [1] 0 = Some True\<close> show ?thesis by auto
qed

text \<open>
  C31. A request never tries a peer twice. Whatever peers fail, in whatever way and at whatever times, the
  attempts of a request on a group of several peers, and on its backup group, are free of undefined
  behaviour, go to different peers of the groups, and are no more than the tries it was given.
\<close>

theorem rr_retries_distinct:
  assumes "chain_ok W B chain" "chain \<noteq> []" "length chain \<le> 2" "ngx_http_upstream_init_round_robin_peer m mt chain pc = Inr (rrp, pc')"
    and "\<forall>a \<in> set as. time_ok (fst a)" "0 \<le> B" "B + ((int (length as) + 1) * int (length chain) + 1) * W < 2 ^ 63"
  shows "\<exists>vs chain'. rr_attempts as chain rrp pc' = Some (vs, chain') \<and> distinct vs \<and> length vs \<le> ngx_http_upstream_tries chain
     \<and> (\<forall>(k, j) \<in> set vs. k < length chain \<and> j < number (chain ! k)) \<and> map number chain' = map number chain"
proof -
  have i: "peers rrp = 0" "tries pc' = ngx_http_upstream_tries chain" "\<forall>g \<in> set chain. tried_fits (number g) (tried rrp)"
    using init_tried [OF assms(4,3)] by auto
  have W: "0 \<le> W" using assms(1,2) group_W by (cases chain) (auto simp: chain_ok_def)
  have "\<exists>vs chain'. rr_attempts as chain rrp pc' = Some (vs, chain') \<and> distinct vs \<and> set vs \<inter> {} = {} \<and> length vs \<le> tries pc'
     \<and> (\<forall>(k, j) \<in> set vs. k < length chain \<and> j < number (chain ! k)) \<and> map number chain' = map number chain"
    using assms i W tries_positive [OF assms(1,2)] by (intro attempts_fresh [where B = B and W = W]) (auto simp: seen_def)
  with i(2) show ?thesis by auto
qed

theorem rr_retries_distinct_witness:
  "\<exists>vs chain'. rr_attempts [(1, 4), (1, 4), (2, 2), (2, 4)] [example_group] \<lparr> peers = 0, current = 0, tried = [0] \<rparr> (example_connection\<lparr>tries := 3\<rparr>)
     = Some (vs, chain') \<and> distinct vs"
proof -
  have c: "chain_ok 7 0 [example_group]" using example_ok by (simp add: chain_ok_def)
  have i: "ngx_http_upstream_init_round_robin_peer True True [example_group] example_connection
      = Inr (\<lparr> peers = 0, current = 0, tried = [0] \<rparr>, example_connection\<lparr>tries := 3\<rparr>)"
    by (simp add: ngx_http_upstream_init_round_robin_peer_def rr_number_def ngx_http_upstream_tries_def example_peers(4))
  have "\<forall>a \<in> set [(1, 4), (1, 4), (2, 2), (2, 4 :: nat)]. time_ok (fst a)" by (simp add: time_ok_def)
  from rr_retries_distinct [OF c _ _ i this] show ?thesis by auto
qed

end
