(* ===== verification/Ngx_Rbtree.thy ===== *)
theory Ngx_Rbtree
  imports Ngx_Num
begin

text \<open>
  Red-black trees (\<^verbatim>\<open>ngx_rbtree.h\<close>, \<^verbatim>\<open>ngx_rbtree.c\<close>): balanced trees in a heap, with links to the parents and one
  sentinel in place of all leaves, of which the deletion uses the link to the parent. Timers, caches and the limits of
  connections and requests are kept in them.
\<close>

section \<open>The program\<close>

type_synonym rb_ptr = nat

abbreviation NULL :: rb_ptr where "NULL \<equiv> 0"

record rbtree_node =
  key :: u64
  left :: rb_ptr
  right :: rb_ptr
  parent :: rb_ptr
  color :: u_char
  data :: u_char

type_synonym rbheap = "rb_ptr \<Rightarrow> rbtree_node option"

record rbtree =
  root :: rb_ptr
  sentinel :: rb_ptr

definition ngx_rbt_is_red :: "rbtree_node \<Rightarrow> bool" where
  "ngx_rbt_is_red n \<longleftrightarrow> color n \<noteq> 0"

text \<open>Stores through a pointer; \<^const>\<open>None\<close> when there is no node.\<close>

definition upd :: "rb_ptr \<Rightarrow> (rbtree_node \<Rightarrow> rbtree_node) \<Rightarrow> rbheap \<Rightarrow> rbheap option" where
  "upd p f h = map_option (\<lambda>n. h(p \<mapsto> f n)) (h p)"

abbreviation put_left :: "rb_ptr \<Rightarrow> rb_ptr \<Rightarrow> rbheap \<Rightarrow> rbheap option" where
  "put_left p v \<equiv> upd p (\<lambda>n. n\<lparr>left := v\<rparr>)"

abbreviation put_right :: "rb_ptr \<Rightarrow> rb_ptr \<Rightarrow> rbheap \<Rightarrow> rbheap option" where
  "put_right p v \<equiv> upd p (\<lambda>n. n\<lparr>right := v\<rparr>)"

abbreviation put_parent :: "rb_ptr \<Rightarrow> rb_ptr \<Rightarrow> rbheap \<Rightarrow> rbheap option" where
  "put_parent p v \<equiv> upd p (\<lambda>n. n\<lparr>parent := v\<rparr>)"

definition ngx_rbt_red :: "rb_ptr \<Rightarrow> rbheap \<Rightarrow> rbheap option" where
  "ngx_rbt_red p = upd p (\<lambda>n. n\<lparr>color := 1\<rparr>)"

definition ngx_rbt_black :: "rb_ptr \<Rightarrow> rbheap \<Rightarrow> rbheap option" where
  "ngx_rbt_black p = upd p (\<lambda>n. n\<lparr>color := 0\<rparr>)"

definition ngx_rbt_copy_color :: "rb_ptr \<Rightarrow> rb_ptr \<Rightarrow> rbheap \<Rightarrow> rbheap option" where
  "ngx_rbt_copy_color p q h = do { n \<leftarrow> h q; upd p (\<lambda>m. m\<lparr>color := color n\<rparr>) h }"

definition ngx_rbtree_init :: "rb_ptr \<Rightarrow> rbheap \<Rightarrow> (rbtree \<times> rbheap) option" where
  "ngx_rbtree_init s h = do { h \<leftarrow> ngx_rbt_black s h; Some (\<lparr>root = s, sentinel = s\<rparr>, h) }"

partial_function (option) ngx_rbtree_min :: "rbheap \<Rightarrow> rb_ptr \<Rightarrow> rb_ptr \<Rightarrow> rb_ptr option" where
  "ngx_rbtree_min h node s =
     do { n \<leftarrow> h node; if left n \<noteq> s then ngx_rbtree_min h (left n) s else Some node }"

text \<open>The rotations; \<open>rt\<close> is what \<^verbatim>\<open>*root\<close> is, and then becomes.\<close>

definition ngx_rbtree_left_rotate :: "rb_ptr \<Rightarrow> rb_ptr \<Rightarrow> rb_ptr \<Rightarrow> rbheap \<Rightarrow> (rb_ptr \<times> rbheap) option" where
  "ngx_rbtree_left_rotate rt s node h =
     do { n \<leftarrow> h node;
          let temp = right n;
          t \<leftarrow> h temp;
          h \<leftarrow> put_right node (left t) h;
          t \<leftarrow> h temp;
          h \<leftarrow> (if left t \<noteq> s then put_parent (left t) node h else Some h);
          n \<leftarrow> h node;
          h \<leftarrow> put_parent temp (parent n) h;
          (rt, h) \<leftarrow>
            (if node = rt then Some (temp, h)
             else
               do { n \<leftarrow> h node; p \<leftarrow> h (parent n);
                    h \<leftarrow> (if node = left p then put_left (parent n) temp h else put_right (parent n) temp h);
                    Some (rt, h) });
          h \<leftarrow> put_left temp node h;
          h \<leftarrow> put_parent node temp h;
          Some (rt, h) }"

definition ngx_rbtree_right_rotate :: "rb_ptr \<Rightarrow> rb_ptr \<Rightarrow> rb_ptr \<Rightarrow> rbheap \<Rightarrow> (rb_ptr \<times> rbheap) option" where
  "ngx_rbtree_right_rotate rt s node h =
     do { n \<leftarrow> h node;
          let temp = left n;
          t \<leftarrow> h temp;
          h \<leftarrow> put_left node (right t) h;
          t \<leftarrow> h temp;
          h \<leftarrow> (if right t \<noteq> s then put_parent (right t) node h else Some h);
          n \<leftarrow> h node;
          h \<leftarrow> put_parent temp (parent n) h;
          (rt, h) \<leftarrow>
            (if node = rt then Some (temp, h)
             else
               do { n \<leftarrow> h node; p \<leftarrow> h (parent n);
                    h \<leftarrow> (if node = right p then put_right (parent n) temp h else put_left (parent n) temp h);
                    Some (rt, h) });
          h \<leftarrow> put_right temp node h;
          h \<leftarrow> put_parent node temp h;
          Some (rt, h) }"

text \<open>
  The loops of \<^verbatim>\<open>ngx_rbtree_insert_value\<close> and \<^verbatim>\<open>ngx_rbtree_insert_timer_value\<close>, which differ in their comparison.
\<close>

partial_function (option) insert_loop :: "(u64 \<Rightarrow> u64 \<Rightarrow> bool) \<Rightarrow> rb_ptr \<Rightarrow> rb_ptr \<Rightarrow> rb_ptr \<Rightarrow> rbheap \<Rightarrow> rbheap option" where
  "insert_loop lt temp node s h =
     do { n \<leftarrow> h node; t \<leftarrow> h temp;
          let p = (if lt (key n) (key t) then left t else right t);
          if p \<noteq> s then insert_loop lt p node s h
          else
            do { h \<leftarrow> (if lt (key n) (key t) then put_left temp node h else put_right temp node h);
                 h \<leftarrow> put_parent node temp h; h \<leftarrow> put_left node s h; h \<leftarrow> put_right node s h;
                 ngx_rbt_red node h } }"

definition ngx_rbtree_insert_value :: "rb_ptr \<Rightarrow> rb_ptr \<Rightarrow> rb_ptr \<Rightarrow> rbheap \<Rightarrow> rbheap option" where
  "ngx_rbtree_insert_value = insert_loop (\<lambda>a b. a < b)"

definition ngx_rbtree_insert_timer_value :: "rb_ptr \<Rightarrow> rb_ptr \<Rightarrow> rb_ptr \<Rightarrow> rbheap \<Rightarrow> rbheap option" where
  "ngx_rbtree_insert_timer_value = insert_loop (\<lambda>a b. sint (a - b) < 0)"

text \<open>
  The loop that balances the tree again; \<open>insert_left\<close> and \<open>insert_right\<close> are its two halves, which give the next
  \<^verbatim>\<open>node\<close>.
\<close>

definition insert_left :: "rb_ptr \<Rightarrow> rb_ptr \<Rightarrow> rb_ptr \<Rightarrow> rbheap \<Rightarrow> (rb_ptr \<times> rb_ptr \<times> rbheap) option" where
  "insert_left rt s node h =
     do { n \<leftarrow> h node; p \<leftarrow> h (parent n); g \<leftarrow> h (parent p);
          let temp = right g;
          t \<leftarrow> h temp;
          if ngx_rbt_is_red t then
            do { h \<leftarrow> ngx_rbt_black (parent n) h; h \<leftarrow> ngx_rbt_black temp h; h \<leftarrow> ngx_rbt_red (parent p) h;
                 Some (parent p, rt, h) }
          else
            do { (node, rt, h) \<leftarrow>
                   (if node = right p then
                      do { (rt, h) \<leftarrow> ngx_rbtree_left_rotate rt s (parent n) h; Some (parent n, rt, h) }
                    else Some (node, rt, h));
                 n \<leftarrow> h node;
                 h \<leftarrow> ngx_rbt_black (parent n) h;
                 p \<leftarrow> h (parent n);
                 h \<leftarrow> ngx_rbt_red (parent p) h;
                 (rt, h) \<leftarrow> ngx_rbtree_right_rotate rt s (parent p) h;
                 Some (node, rt, h) } }"

definition insert_right :: "rb_ptr \<Rightarrow> rb_ptr \<Rightarrow> rb_ptr \<Rightarrow> rbheap \<Rightarrow> (rb_ptr \<times> rb_ptr \<times> rbheap) option" where
  "insert_right rt s node h =
     do { n \<leftarrow> h node; p \<leftarrow> h (parent n); g \<leftarrow> h (parent p);
          let temp = left g;
          t \<leftarrow> h temp;
          if ngx_rbt_is_red t then
            do { h \<leftarrow> ngx_rbt_black (parent n) h; h \<leftarrow> ngx_rbt_black temp h; h \<leftarrow> ngx_rbt_red (parent p) h;
                 Some (parent p, rt, h) }
          else
            do { (node, rt, h) \<leftarrow>
                   (if node = left p then
                      do { (rt, h) \<leftarrow> ngx_rbtree_right_rotate rt s (parent n) h; Some (parent n, rt, h) }
                    else Some (node, rt, h));
                 n \<leftarrow> h node;
                 h \<leftarrow> ngx_rbt_black (parent n) h;
                 p \<leftarrow> h (parent n);
                 h \<leftarrow> ngx_rbt_red (parent p) h;
                 (rt, h) \<leftarrow> ngx_rbtree_left_rotate rt s (parent p) h;
                 Some (node, rt, h) } }"

partial_function (option) insert_fix :: "rb_ptr \<Rightarrow> rb_ptr \<Rightarrow> rb_ptr \<Rightarrow> rbheap \<Rightarrow> (rb_ptr \<times> rbheap) option" where
  "insert_fix rt s node h =
     (if node = rt then Some (rt, h)
      else
        do { n \<leftarrow> h node; p \<leftarrow> h (parent n);
             if \<not> ngx_rbt_is_red p then Some (rt, h)
             else
               do { g \<leftarrow> h (parent p);
                    (node, rt, h) \<leftarrow> (if parent n = left g then insert_left rt s node h else insert_right rt s node h);
                    insert_fix rt s node h } })"

text \<open>\<open>ins\<close> is the function \<^verbatim>\<open>tree->insert\<close>.\<close>

definition ngx_rbtree_insert :: "(rb_ptr \<Rightarrow> rb_ptr \<Rightarrow> rb_ptr \<Rightarrow> rbheap \<Rightarrow> rbheap option) \<Rightarrow> rbtree \<Rightarrow> rb_ptr \<Rightarrow> rbheap \<Rightarrow> (rbtree \<times> rbheap) option" where
  "ngx_rbtree_insert ins tree node h =
     (let s = sentinel tree in
      if root tree = s then
        do { h \<leftarrow> put_parent node NULL h; h \<leftarrow> put_left node s h; h \<leftarrow> put_right node s h; h \<leftarrow> ngx_rbt_black node h;
             Some (tree\<lparr>root := node\<rparr>, h) }
      else
        do { h \<leftarrow> ins (root tree) node s h;
             (rt, h) \<leftarrow> insert_fix (root tree) s node h;
             h \<leftarrow> ngx_rbt_black rt h;
             Some (tree\<lparr>root := rt\<rparr>, h) })"

text \<open>The loop of the deletion, again in two halves that give the next \<^verbatim>\<open>temp\<close>.\<close>

definition delete_left :: "rb_ptr \<Rightarrow> rb_ptr \<Rightarrow> rb_ptr \<Rightarrow> rbheap \<Rightarrow> (rb_ptr \<times> rb_ptr \<times> rbheap) option" where
  "delete_left rt s temp h =
     do { t \<leftarrow> h temp; p \<leftarrow> h (parent t);
          let w = right p;
          wn \<leftarrow> h w;
          (w, rt, h) \<leftarrow>
            (if ngx_rbt_is_red wn then
               do { h \<leftarrow> ngx_rbt_black w h; h \<leftarrow> ngx_rbt_red (parent t) h;
                    (rt, h) \<leftarrow> ngx_rbtree_left_rotate rt s (parent t) h;
                    t \<leftarrow> h temp; p \<leftarrow> h (parent t); Some (right p, rt, h) }
             else Some (w, rt, h));
          wn \<leftarrow> h w; wl \<leftarrow> h (left wn); wr \<leftarrow> h (right wn);
          if \<not> ngx_rbt_is_red wl \<and> \<not> ngx_rbt_is_red wr then
            do { h \<leftarrow> ngx_rbt_red w h; t \<leftarrow> h temp; Some (parent t, rt, h) }
          else
            do { (w, rt, h) \<leftarrow>
                   (if \<not> ngx_rbt_is_red wr then
                      do { h \<leftarrow> ngx_rbt_black (left wn) h; h \<leftarrow> ngx_rbt_red w h;
                           (rt, h) \<leftarrow> ngx_rbtree_right_rotate rt s w h;
                           t \<leftarrow> h temp; p \<leftarrow> h (parent t); Some (right p, rt, h) }
                    else Some (w, rt, h));
                 t \<leftarrow> h temp;
                 h \<leftarrow> ngx_rbt_copy_color w (parent t) h;
                 h \<leftarrow> ngx_rbt_black (parent t) h;
                 wn \<leftarrow> h w;
                 h \<leftarrow> ngx_rbt_black (right wn) h;
                 (rt, h) \<leftarrow> ngx_rbtree_left_rotate rt s (parent t) h;
                 Some (rt, rt, h) } }"

definition delete_right :: "rb_ptr \<Rightarrow> rb_ptr \<Rightarrow> rb_ptr \<Rightarrow> rbheap \<Rightarrow> (rb_ptr \<times> rb_ptr \<times> rbheap) option" where
  "delete_right rt s temp h =
     do { t \<leftarrow> h temp; p \<leftarrow> h (parent t);
          let w = left p;
          wn \<leftarrow> h w;
          (w, rt, h) \<leftarrow>
            (if ngx_rbt_is_red wn then
               do { h \<leftarrow> ngx_rbt_black w h; h \<leftarrow> ngx_rbt_red (parent t) h;
                    (rt, h) \<leftarrow> ngx_rbtree_right_rotate rt s (parent t) h;
                    t \<leftarrow> h temp; p \<leftarrow> h (parent t); Some (left p, rt, h) }
             else Some (w, rt, h));
          wn \<leftarrow> h w; wl \<leftarrow> h (left wn); wr \<leftarrow> h (right wn);
          if \<not> ngx_rbt_is_red wl \<and> \<not> ngx_rbt_is_red wr then
            do { h \<leftarrow> ngx_rbt_red w h; t \<leftarrow> h temp; Some (parent t, rt, h) }
          else
            do { (w, rt, h) \<leftarrow>
                   (if \<not> ngx_rbt_is_red wl then
                      do { h \<leftarrow> ngx_rbt_black (right wn) h; h \<leftarrow> ngx_rbt_red w h;
                           (rt, h) \<leftarrow> ngx_rbtree_left_rotate rt s w h;
                           t \<leftarrow> h temp; p \<leftarrow> h (parent t); Some (left p, rt, h) }
                    else Some (w, rt, h));
                 t \<leftarrow> h temp;
                 h \<leftarrow> ngx_rbt_copy_color w (parent t) h;
                 h \<leftarrow> ngx_rbt_black (parent t) h;
                 wn \<leftarrow> h w;
                 h \<leftarrow> ngx_rbt_black (left wn) h;
                 (rt, h) \<leftarrow> ngx_rbtree_right_rotate rt s (parent t) h;
                 Some (rt, rt, h) } }"

partial_function (option) delete_fix :: "rb_ptr \<Rightarrow> rb_ptr \<Rightarrow> rb_ptr \<Rightarrow> rbheap \<Rightarrow> (rb_ptr \<times> rbheap) option" where
  "delete_fix rt s temp h =
     do { t \<leftarrow> h temp;
          if temp = rt \<or> ngx_rbt_is_red t then do { h \<leftarrow> ngx_rbt_black temp h; Some (rt, h) }
          else
            do { p \<leftarrow> h (parent t);
                 (temp, rt, h) \<leftarrow> (if temp = left p then delete_left rt s temp h else delete_right rt s temp h);
                 delete_fix rt s temp h } }"

text \<open>The node is cleared when it is out of the tree.\<close>

definition clear_node :: "rb_ptr \<Rightarrow> rbheap \<Rightarrow> rbheap option" where
  "clear_node node = upd node (\<lambda>n. n\<lparr>left := NULL, right := NULL, parent := NULL, key := 0\<rparr>)"

text \<open>The node \<open>subst\<close> takes the place and the color of \<open>node\<close>.\<close>

definition replace_node :: "rb_ptr \<Rightarrow> rb_ptr \<Rightarrow> rb_ptr \<Rightarrow> rb_ptr \<Rightarrow> rbheap \<Rightarrow> (rb_ptr \<times> rbheap) option" where
  "replace_node rt s subst node h =
     do { n \<leftarrow> h node;
          h \<leftarrow> put_left subst (left n) h; h \<leftarrow> put_right subst (right n) h;
          h \<leftarrow> put_parent subst (parent n) h; h \<leftarrow> ngx_rbt_copy_color subst node h;
          (rt, h) \<leftarrow>
            (if node = rt then Some (subst, h)
             else
               do { p \<leftarrow> h (parent n);
                    h \<leftarrow> (if node = left p then put_left (parent n) subst h else put_right (parent n) subst h);
                    Some (rt, h) });
          sn \<leftarrow> h subst;
          h \<leftarrow> (if left sn \<noteq> s then put_parent (left sn) subst h else Some h);
          h \<leftarrow> (if right sn \<noteq> s then put_parent (right sn) subst h else Some h);
          Some (rt, h) }"

definition ngx_rbtree_delete :: "rbtree \<Rightarrow> rb_ptr \<Rightarrow> rbheap \<Rightarrow> (rbtree \<times> rbheap) option" where
  "ngx_rbtree_delete tree node h =
     (let s = sentinel tree; rt = root tree in
      do { n \<leftarrow> h node;
           (temp, subst) \<leftarrow>
             (if left n = s then Some (right n, node)
              else if right n = s then Some (left n, node)
              else do { subst \<leftarrow> ngx_rbtree_min h (right n) s; sn \<leftarrow> h subst;
                        Some (if left sn \<noteq> s then left sn else right sn, subst) });
           if subst = rt then
             do { h \<leftarrow> ngx_rbt_black temp h; h \<leftarrow> clear_node node h; Some (tree\<lparr>root := temp\<rparr>, h) }
           else
             do { sn \<leftarrow> h subst;
                  let red = ngx_rbt_is_red sn;
                  sp \<leftarrow> h (parent sn);
                  h \<leftarrow> (if subst = left sp then put_left (parent sn) temp h else put_right (parent sn) temp h);
                  (rt, h) \<leftarrow>
                    (if subst = node then do { h \<leftarrow> put_parent temp (parent sn) h; Some (rt, h) }
                     else
                       do { h \<leftarrow> (if parent sn = node then put_parent temp subst h else put_parent temp (parent sn) h);
                            replace_node rt s subst node h });
                  h \<leftarrow> clear_node node h;
                  if red then Some (tree\<lparr>root := rt\<rparr>, h)
                  else do { (rt, h) \<leftarrow> delete_fix rt s temp h; Some (tree\<lparr>root := rt\<rparr>, h) } } })"

end
