(* ===== verification/Ngx_Rbtree_Trees.thy ===== *)
theory Ngx_Rbtree_Trees
  imports Ngx_Rbtree
begin

text \<open>
  The trees that are kept in the heap by \<^verbatim>\<open>ngx_rbtree.c\<close>: when the heap holds a tree, the way from a place in it to the
  root, what rotations and changes of color do to a tree, and the rules of red-black trees.
\<close>

section \<open>Trees\<close>

text \<open>
  A tree with the addresses and keys of its nodes; \<open>True\<close> is red. \<open>nd d c t a k u\<close> has \<open>t\<close> on the side \<open>d\<close> and \<open>u\<close> on
  the other one, so that what tree_at of one side is said once.
\<close>

datatype rbt = Lf | Nd bool rbt rb_ptr u64 rbt

datatype side = Lft | Rgt

fun opp :: "side \<Rightarrow> side" where
  "opp Lft = Rgt"
| "opp Rgt = Lft"

lemma opp_opp [simp]: "opp (opp d) = d" "opp d \<noteq> d" "d \<noteq> opp d"
  by (cases d; simp)+

definition nd :: "side \<Rightarrow> bool \<Rightarrow> rbt \<Rightarrow> rb_ptr \<Rightarrow> u64 \<Rightarrow> rbt \<Rightarrow> rbt" where
  "nd d c t a k u = (if d = Lft then Nd c t a k u else Nd c u a k t)"

lemma nd_opp: "nd (opp d) c u a k t = nd d c t a k u"
  by (cases d) (simp_all add: nd_def)

lemma nd_simps [simp]: "nd d c t a k u \<noteq> Lf" "Lf \<noteq> nd d c t a k u"
  by (simp_all add: nd_def)

lemma nd_ex: "t \<noteq> Lf \<Longrightarrow> \<exists>c l a k r. t = nd d c l a k r"
  by (cases t; cases d) (auto simp: nd_def)

fun rt :: "rb_ptr \<Rightarrow> rbt \<Rightarrow> rb_ptr" where
  "rt s Lf = s"
| "rt s (Nd c l a k r) = a"

lemma rt_nd [simp]: "rt s (nd d c t a k u) = a"
  by (simp add: nd_def)

fun inorder :: "rbt \<Rightarrow> (rb_ptr \<times> u64) list" where
  "inorder Lf = []"
| "inorder (Nd c l a k r) = inorder l @ (a, k) # inorder r"

fun rb_addrs :: "rbt \<Rightarrow> rb_ptr set" where
  "rb_addrs Lf = {}"
| "rb_addrs (Nd c l a k r) = insert a (rb_addrs l \<union> rb_addrs r)"

fun dist :: "rbt \<Rightarrow> bool" where
  "dist Lf = True"
| "dist (Nd c l a k r) \<longleftrightarrow> a \<notin> rb_addrs l \<and> a \<notin> rb_addrs r \<and> rb_addrs l \<inter> rb_addrs r = {} \<and> dist l \<and> dist r"

lemma rb_addrs_nd [simp]: "rb_addrs (nd d c t a k u) = insert a (rb_addrs t \<union> rb_addrs u)"
  "dist (nd d c t a k u) \<longleftrightarrow> a \<notin> rb_addrs t \<and> a \<notin> rb_addrs u \<and> rb_addrs t \<inter> rb_addrs u = {} \<and> dist t \<and> dist u"
  by (auto simp: nd_def)

lemma addrs_inorder: "rb_addrs t = fst ` set (inorder t)"
  by (induction t) auto

lemma dist_inorder: "dist t \<longleftrightarrow> distinct (map fst (inorder t))"
  by (induction t) (auto simp: addrs_inorder)

lemma rt_in: "rt s t \<in> rb_addrs t \<longleftrightarrow> t \<noteq> Lf \<or> s \<in> rb_addrs t"
  by (cases t) simp_all

section \<open>Trees in the heap\<close>

fun child :: "side \<Rightarrow> rbtree_node \<Rightarrow> rb_ptr" where
  "child Lft n = left n"
| "child Rgt n = right n"

fun put_child :: "side \<Rightarrow> rb_ptr \<Rightarrow> rbtree_node \<Rightarrow> rbtree_node" where
  "put_child Lft p n = n\<lparr>left := p\<rparr>"
| "put_child Rgt p n = n\<lparr>right := p\<rparr>"

lemma child_set [simp]:
  "child d (put_child d p n) = p" "child (opp d) (put_child d p n) = child (opp d) n" "child d (put_child (opp d) p n) = child d n"
  "key (put_child d p n) = key n" "color (put_child d p n) = color n" "parent (put_child d p n) = parent n"
  "child d (n\<lparr>parent := q\<rparr>) = child d n" "child d (n\<lparr>color := v\<rparr>) = child d n" "ngx_rbt_is_red (put_child d p n) = ngx_rbt_is_red n"
  by (cases d; simp add: ngx_rbt_is_red_def)+

lemma red_set [simp]: "ngx_rbt_is_red (n\<lparr>parent := q\<rparr>) = ngx_rbt_is_red n" "ngx_rbt_is_red (n\<lparr>color := v\<rparr>) = (v \<noteq> 0)"
  by (simp_all add: ngx_rbt_is_red_def)

text \<open>A node of the tree with its links, \<open>P\<close> is its parent, or \<^const>\<open>None\<close> when that is not known.\<close>

definition node_at :: "rbheap \<Rightarrow> rb_ptr option \<Rightarrow> bool \<Rightarrow> rb_ptr \<Rightarrow> u64 \<Rightarrow> (side \<Rightarrow> rb_ptr) \<Rightarrow> bool" where
  "node_at h P c a k ch \<longleftrightarrow>
     (\<exists>n. h a = Some n \<and> key n = k \<and> (\<forall>d. child d n = ch d) \<and> ngx_rbt_is_red n = c \<and> (\<forall>p. P = Some p \<longrightarrow> parent n = p))"

fun tree_at :: "rbheap \<Rightarrow> rb_ptr \<Rightarrow> rb_ptr option \<Rightarrow> rbt \<Rightarrow> bool" where
  "tree_at h s P Lf = True"
| "tree_at h s P (Nd c l a k r) \<longleftrightarrow>
     node_at h P c a k (\<lambda>d. if d = Lft then rt s l else rt s r) \<and> tree_at h s (Some a) l \<and> tree_at h s (Some a) r"

lemma holds_nd: "tree_at h s P (nd d c t a k u) \<longleftrightarrow>
    node_at h P c a k (\<lambda>d'. if d' = d then rt s t else rt s u) \<and> tree_at h s (Some a) t \<and> tree_at h s (Some a) u"
proof (cases d)
  case Rgt
  have "(\<lambda>d'. if d' = Rgt then rt s t else rt s u) = (\<lambda>d'. if d' = Lft then rt s u else rt s t)" by (rule ext, rename_tac x, case_tac x) simp_all
  then show ?thesis using Rgt by (auto simp: nd_def)
qed (simp add: nd_def)

lemma holds_cong: "\<forall>a \<in> rb_addrs t. h' a = h a \<Longrightarrow> tree_at h' s P t = tree_at h s P t"
  by (induction t arbitrary: P) (auto simp: node_at_def)

lemma holds_weak: "tree_at h s P t \<Longrightarrow> tree_at h s None t"
proof -
  have "node_at h P c a k ch \<Longrightarrow> node_at h None c a k ch" for c a k ch unfolding node_at_def by blast
  then show "tree_at h s P t \<Longrightarrow> tree_at h s None t" by (cases t) simp_all
qed

lemma holds_upd [simp]: "a \<notin> rb_addrs t \<Longrightarrow> tree_at (h(a := x)) s P t = tree_at h s P t"
  by (rule holds_cong) auto

lemma holds_parent:
  assumes "tree_at h s P t" "dist t" "h (rt s t) = Some n" "h' (rt s t) = Some (n\<lparr>parent := q\<rparr>)" "\<forall>a \<in> rb_addrs t - {rt s t}. h' a = h a"
  shows "tree_at h' s (Some q) t"
proof (cases t)
  case (Nd c l a k r)
  have "tree_at h' s (Some a) l = tree_at h s (Some a) l" "tree_at h' s (Some a) r = tree_at h s (Some a) r"
    by (rule holds_cong; use assms Nd in auto)+
  then show ?thesis using assms Nd by (auto simp: node_at_def)
qed simp

text \<open>The way from a place in a tree up to the root: the side we are on, the node above, and its other subtree.\<close>

type_synonym rb_frame = "side \<times> bool \<times> rb_ptr \<times> u64 \<times> rbt"

fun rb_plug :: "rbt \<Rightarrow> rb_frame list \<Rightarrow> rbt" where
  "rb_plug t [] = t"
| "rb_plug t ((d, c, a, k, u) # fs) = rb_plug (nd d c t a k u) fs"

fun faddr :: "rb_frame \<Rightarrow> rb_ptr" where
  "faddr (d, c, a, k, u) = a"

fun up :: "rb_frame list \<Rightarrow> rb_ptr option" where
  "up [] = None"
| "up (f # fs) = Some (faddr f)"

fun hole :: "rbheap \<Rightarrow> rb_ptr \<Rightarrow> rb_ptr \<Rightarrow> rb_frame list \<Rightarrow> bool" where
  "hole h s p [] = True"
| "hole h s p ((d, c, a, k, u) # fs) \<longleftrightarrow>
     node_at h (up fs) c a k (\<lambda>d'. if d' = d then p else rt s u) \<and> tree_at h s (Some a) u \<and> hole h s a fs"

fun caddrs :: "rb_frame list \<Rightarrow> rb_ptr set" where
  "caddrs [] = {}"
| "caddrs ((d, c, a, k, u) # fs) = insert a (rb_addrs u \<union> caddrs fs)"

fun cdist :: "rb_frame list \<Rightarrow> bool" where
  "cdist [] = True"
| "cdist ((d, c, a, k, u) # fs) \<longleftrightarrow> a \<notin> rb_addrs u \<and> a \<notin> caddrs fs \<and> rb_addrs u \<inter> caddrs fs = {} \<and> dist u \<and> cdist fs"

lemma rb_holds_plug: "tree_at h s None (rb_plug t fs) \<longleftrightarrow> tree_at h s (up fs) t \<and> hole h s (rt s t) fs"
proof (induction fs arbitrary: t)
  case (Cons f fs)
  obtain d c a k u where f: "f = (d, c, a, k, u)" by (cases f)
  show ?case unfolding f rb_plug.simps Cons.IH by (auto simp: holds_nd)
qed simp

lemma rb_addrs_plug [simp]: "rb_addrs (rb_plug t fs) = rb_addrs t \<union> caddrs fs"
  by (induction t fs rule: rb_plug.induct) auto

lemma rb_dist_plug [simp]: "dist (rb_plug t fs) \<longleftrightarrow> dist t \<and> cdist fs \<and> rb_addrs t \<inter> caddrs fs = {}"
  by (induction t fs rule: rb_plug.induct) auto

lemma hole_cong: "\<forall>a \<in> caddrs fs. h' a = h a \<Longrightarrow> hole h' s p fs = hole h s p fs"
proof (induction h s p fs rule: hole.induct)
  case (2 h s p d c a k u fs)
  moreover have "tree_at h' s (Some a) u = tree_at h s (Some a) u" by (rule holds_cong) (use 2 in auto)
  ultimately show ?case by (auto simp: node_at_def)
qed simp

lemma hole_upd [simp]: "a \<notin> caddrs fs \<Longrightarrow> hole (h(a := x)) s p fs = hole h s p fs"
  by (rule hole_cong) auto

lemma hole_redirect:
  assumes "hole h s p ((d, c, a, k, u) # fs)" "cdist ((d, c, a, k, u) # fs)" "h a = Some n" "h' a = Some (put_child d q n)"
    "\<forall>b \<in> caddrs ((d, c, a, k, u) # fs) - {a}. h' b = h b"
  shows "hole h' s q ((d, c, a, k, u) # fs)"
proof -
  have "hole h' s a fs = hole h s a fs" by (rule hole_cong) (use assms in auto)
  moreover have "tree_at h' s (Some a) u = tree_at h s (Some a) u" by (rule holds_cong) (use assms in auto)
  moreover have "child d' (put_child d q n) = (if d' = d then q else child d' n)" for d' by (cases d; cases d') simp_all
  ultimately show ?thesis using assms(1,3,4) by (auto simp: node_at_def)
qed

text \<open>A tree in the heap, with a black sentinel behind it.\<close>

definition rep :: "rbheap \<Rightarrow> rb_ptr \<Rightarrow> rbt \<Rightarrow> bool" where
  "rep h s t \<longleftrightarrow> tree_at h s None t \<and> dist t \<and> s \<notin> rb_addrs t \<and> (\<exists>n. h s = Some n \<and> \<not> ngx_rbt_is_red n)"

lemma rep_node:
  assumes "rep h s (rb_plug (nd d c t a k u) fs)"
  obtains n where "h a = Some n" "key n = k" "child d n = rt s t" "child (opp d) n = rt s u" "ngx_rbt_is_red n = c"
    "\<And>f gs. fs = f # gs \<Longrightarrow> parent n = faddr f"
proof -
  have "node_at h (up fs) c a k (\<lambda>d'. if d' = d then rt s t else rt s u)" using assms by (simp add: rep_def rb_holds_plug holds_nd)
  then show thesis using that unfolding node_at_def by fastforce
qed

lemma rep_root_in: "t \<noteq> Lf \<Longrightarrow> rt s t \<in> rb_addrs t"
  by (cases t) simp_all

lemma rep_color:
  assumes "rep h s (rb_plug (nd d c t a k u) fs)"
  shows "\<exists>h'. upd a (\<lambda>n. n\<lparr>color := v\<rparr>) h = Some h' \<and> rep h' s (rb_plug (nd d (v \<noteq> 0) t a k u) fs)
    \<and> (\<forall>b. b \<noteq> a \<longrightarrow> h' b = h b) \<and> (\<exists>n. h' a = Some n \<and> color n = v)"
proof -
  obtain n where n: "h a = Some n" using rep_node [OF assms] by metis
  define h' where "h' = h(a \<mapsto> n\<lparr>color := v\<rparr>)"
  have H: "node_at h (up fs) c a k (\<lambda>d'. if d' = d then rt s t else rt s u)" "tree_at h s (Some a) t" "tree_at h s (Some a) u" "hole h s a fs"
    and D: "a \<notin> rb_addrs t" "a \<notin> rb_addrs u" "a \<notin> caddrs fs" "a \<noteq> s"
    using assms by (auto simp: rep_def rb_holds_plug holds_nd)
  have "tree_at h' s (Some a) t" "tree_at h' s (Some a) u" "hole h' s a fs"
    using H(2-4) D by (simp_all add: h'_def)
  moreover have "node_at h' (up fs) (v \<noteq> 0) a k (\<lambda>d'. if d' = d then rt s t else rt s u)" using H(1) n by (auto simp: node_at_def h'_def)
  ultimately have "rep h' s (rb_plug (nd d (v \<noteq> 0) t a k u) fs)" using assms D by (simp add: rep_def rb_holds_plug holds_nd h'_def)
  moreover have "upd a (\<lambda>n. n\<lparr>color := v\<rparr>) h = Some h'" using n by (simp add: upd_def h'_def)
  ultimately show ?thesis using n by (auto simp: h'_def)
qed

section \<open>Rotations\<close>

definition rot_first :: "side \<Rightarrow> rb_ptr \<Rightarrow> rb_ptr \<Rightarrow> rb_ptr \<Rightarrow> rbheap \<Rightarrow> rbheap option" where
  "rot_first d s node temp h =
     do { t \<leftarrow> h temp;
          h \<leftarrow> upd node (put_child (opp d) (child d t)) h;
          t \<leftarrow> h temp;
          if child d t \<noteq> s then put_parent (child d t) node h else Some h }"

definition rot_rest :: "side \<Rightarrow> rb_ptr \<Rightarrow> rb_ptr \<Rightarrow> rb_ptr \<Rightarrow> rbheap \<Rightarrow> (rb_ptr \<times> rbheap) option" where
  "rot_rest d rr node temp h =
     do { n \<leftarrow> h node;
          h \<leftarrow> put_parent temp (parent n) h;
          (rr, h) \<leftarrow>
            (if node = rr then Some (temp, h)
             else
               do { n \<leftarrow> h node; p \<leftarrow> h (parent n);
                    h \<leftarrow> (if node = child d p then upd (parent n) (put_child d temp) h else upd (parent n) (put_child (opp d) temp) h);
                    Some (rr, h) });
          h \<leftarrow> upd temp (put_child d node) h;
          h \<leftarrow> put_parent node temp h;
          Some (rr, h) }"

definition rot :: "side \<Rightarrow> rb_ptr \<Rightarrow> rb_ptr \<Rightarrow> rb_ptr \<Rightarrow> rbheap \<Rightarrow> (rb_ptr \<times> rbheap) option" where
  "rot d rr s node h =
     do { n \<leftarrow> h node;
          h \<leftarrow> rot_first d s node (child (opp d) n) h;
          rot_rest d rr node (child (opp d) n) h }"

lemma set_child_fun: "put_child Lft p = (\<lambda>n. n\<lparr>left := p\<rparr>)" "put_child Rgt p = (\<lambda>n. n\<lparr>right := p\<rparr>)"
  by (rule ext; simp)+

lemma rotates: "ngx_rbtree_left_rotate rr s node h = rot Lft rr s node h" "ngx_rbtree_right_rotate rr s node h = rot Rgt rr s node h"
  unfolding ngx_rbtree_left_rotate_def ngx_rbtree_right_rotate_def rot_def rot_first_def rot_rest_def opp.simps child.simps set_child_fun Let_def Option.bind_assoc
  by (rule refl)+

lemma rt_plug_in: "rt s (rb_plug t (f # fs)) \<in> caddrs (f # fs)"
proof (induction fs arbitrary: t f)
  case Nil
  then show ?case by (cases f) simp
next
  case (Cons g gs)
  obtain d c a k u where f: "f = (d, c, a, k, u)" by (cases f)
  have "rt s (rb_plug t (f # g # gs)) \<in> caddrs (g # gs)" unfolding f rb_plug.simps(2) [of _ d] using Cons.IH .
  then show ?case unfolding f by simp
qed

lemma rt_plug_eq: "rt s (rb_plug t (f # fs)) = rt s (rb_plug t' (f # fs))"
proof (induction fs arbitrary: t t' f)
  case Nil
  then show ?case by (cases f) simp
next
  case (Cons g gs)
  obtain d c a k u where f: "f = (d, c, a, k, u)" by (cases f)
  show ?case unfolding f rb_plug.simps(2) [of _ d] using Cons.IH .
qed

lemma upd_Some [simp]: "h p = Some n \<Longrightarrow> upd p f h = Some (h(p \<mapsto> f n))"
  by (simp add: upd_def)

lemma rep_rot:
  assumes rep: "rep h s (rb_plug (nd d c A x kx (nd d c' B y ky C)) fs)"
  defines "T' \<equiv> nd d c' (nd d c A x kx B) y ky C"
  shows "\<exists>h'. rot d (rt s (rb_plug (nd d c A x kx (nd d c' B y ky C)) fs)) s x h = Some (rt s (rb_plug T' fs), h')
    \<and> rep h' s (rb_plug T' fs) \<and> (\<forall>b. b \<notin> rb_addrs (rb_plug T' fs) \<longrightarrow> h' b = h b)"
proof -
  have D: "x \<notin> rb_addrs A" "x \<noteq> y" "x \<notin> rb_addrs B" "x \<notin> rb_addrs C" "x \<notin> caddrs fs" "y \<notin> rb_addrs A" "y \<notin> rb_addrs B" "y \<notin> rb_addrs C" "y \<notin> caddrs fs"
    "rb_addrs A \<inter> rb_addrs B = {}" "rb_addrs A \<inter> rb_addrs C = {}" "rb_addrs B \<inter> rb_addrs C = {}" "rb_addrs A \<inter> caddrs fs = {}" "rb_addrs B \<inter> caddrs fs = {}" "rb_addrs C \<inter> caddrs fs = {}"
    "x \<noteq> s" "y \<noteq> s" "s \<notin> rb_addrs A" "s \<notin> rb_addrs B" "s \<notin> rb_addrs C" "s \<notin> caddrs fs" "dist A" "dist B" "dist C" "cdist fs"
    using rep by (auto simp: rep_def)
  have H: "node_at h (up fs) c x kx (\<lambda>d'. if d' = d then rt s A else y)" "tree_at h s (Some x) A"
    "node_at h (Some x) c' y ky (\<lambda>d'. if d' = d then rt s B else rt s C)" "tree_at h s (Some y) B" "tree_at h s (Some y) C" "hole h s x fs"
    using rep by (simp_all add: rep_def rb_holds_plug holds_nd cong: if_cong)
  obtain n where n: "h x = Some n" "key n = kx" "child d n = rt s A" "child (opp d) n = y" "ngx_rbt_is_red n = c" "\<And>f gs. fs = f # gs \<Longrightarrow> parent n = faddr f"
    by (rule rep_node [OF rep]) auto
  obtain m where m: "h y = Some m" "key m = ky" "child d m = rt s B" "child (opp d) m = rt s C" "ngx_rbt_is_red m = c'"
    using H(3) unfolding node_at_def by fastforce
  obtain z where z: "h s = Some z" "\<not> ngx_rbt_is_red z" using rep by (auto simp: rep_def)
  define n' where "n' = (put_child (opp d) (rt s B) n)\<lparr>parent := y\<rparr>"
  define m' where "m' = put_child d x (m\<lparr>parent := parent n\<rparr>)"
  have cd: "child d' n' = (if d' = d then rt s A else rt s B)" "child d' m' = (if d' = d then x else rt s C)" for d'
    unfolding n'_def m'_def using n(3,4) m(3,4) by (cases d; cases d'; simp)+
  define h2 where "h2 = (if B = Lf then h(x \<mapsto> put_child (opp d) (rt s B) n) else h(x \<mapsto> put_child (opp d) (rt s B) n, rt s B \<mapsto> (the (h (rt s B)))\<lparr>parent := x\<rparr>))"
  have rtB: "B \<noteq> Lf \<Longrightarrow> rt s B \<in> rb_addrs B" "B \<noteq> Lf \<Longrightarrow> rt s B \<noteq> s" "B \<noteq> Lf \<Longrightarrow> \<exists>b. h (rt s B) = Some b" "rt s B = s \<longleftrightarrow> B = Lf"
    using rep_root_in [of B s] D(19) H(4) by (cases B; auto simp: node_at_def)+
  have rtx: "B \<noteq> Lf \<Longrightarrow> rt s B \<noteq> x" "B \<noteq> Lf \<Longrightarrow> rt s B \<noteq> y" using rtB(1) D(3,7) by auto
  have h2: "h2 x = Some (put_child (opp d) (rt s B) n)" "h2 y = Some m"
    "\<And>a. a \<noteq> x \<Longrightarrow> a \<noteq> rt s B \<or> B = Lf \<Longrightarrow> h2 a = h a" "B \<noteq> Lf \<Longrightarrow> h2 (rt s B) = Some ((the (h (rt s B)))\<lparr>parent := x\<rparr>)"
    using m(1) D(2,3,7) rtB(1) by (auto simp: h2_def)
  have first: "rot_first d s x y h = Some h2"
    using n(1) m(1,3) D(2) rtB rtx by (cases "B = Lf") (auto simp: rot_first_def h2_def)
  define h4 where "h4 = (case fs of [] \<Rightarrow> h2(y \<mapsto> m\<lparr>parent := parent n\<rparr>)
      | (e, _, p, _) # _ \<Rightarrow> h2(y \<mapsto> m\<lparr>parent := parent n\<rparr>, p \<mapsto> put_child e y (the (h p))))"
  define h' where "h' = h4(y \<mapsto> m', x \<mapsto> n')"
  let ?T = "nd d c A x kx (nd d c' B y ky C)"
  have run: "rot d (rt s (rb_plug ?T fs)) s x h = Some (rt s (rb_plug T' fs), h')"
  proof (cases fs)
    case Nil
    have "rot d (rt s (rb_plug ?T fs)) s x h = rot_rest d x x y h2" using n(1,4) first Nil by (simp add: rot_def)
    then show ?thesis using h2(1,2) D(2) Nil by (simp add: rot_rest_def h'_def h4_def m'_def n'_def T'_def)
  next
    case (Cons f gs)
    obtain e cp p kp u where f: "f = (e, cp, p, kp, u)" by (cases f)
    obtain np where np: "h p = Some np" "child e np = x" "child (opp e) np = rt s u" using H(6) Cons f by (fastforce simp: node_at_def)
    have pn: "parent n = p" "p \<noteq> x" "p \<noteq> y" "x \<notin> rb_addrs u" "u \<noteq> Lf \<Longrightarrow> rt s u \<in> rb_addrs u" "p \<notin> rb_addrs B" using n(6) Cons f D rep_root_in [of u s] by auto
    have xr: "x \<noteq> rt s (rb_plug ?T fs)" using rt_plug_in [of s ?T f gs] D(5) Cons by auto
    have other: "child (opp e) np \<noteq> x" unfolding np(3) using pn(4,5) D(16) by (cases "u = Lf") auto
    have side: "x = child d np \<longleftrightarrow> e = d" "e \<noteq> d \<Longrightarrow> e = opp d" using np(2) other by (cases d; cases e; auto)+
    have "p \<noteq> rt s B \<or> B = Lf" using pn(6) rtB(1) by auto
    then have h2p: "h2 p = Some np" using h2(3) [OF pn(2)] np(1) by simp
    have "rot d (rt s (rb_plug ?T fs)) s x h = rot_rest d (rt s (rb_plug ?T fs)) x y h2" using n(1,4) first by (simp add: rot_def)
    also have "\<dots> = Some (rt s (rb_plug ?T fs), h')"
      using h2(1,2) h2p D(2) pn(1-3) side xr Cons f np(1) by (cases "e = d") (simp_all add: rot_rest_def h'_def h4_def m'_def n'_def)
    finally show ?thesis using rt_plug_eq [of s ?T f gs T'] Cons by simp
  qed
  have h': "h' x = Some n'" "h' y = Some m'" using D(2) by (auto simp: h'_def)
  define W where "W = {x, y} \<union> {b. B \<noteq> Lf \<and> b = rt s B} \<union> {b. up fs = Some b}"
  have rest: "h' b = h b" if "b \<notin> W" for b
    using that h2(3) [of b] by (auto simp: W_def h'_def h4_def split: list.splits prod.splits)
  have upin: "{b. up fs = Some b} \<subseteq> caddrs fs" by (cases fs) auto
  have inB: "{b. B \<noteq> Lf \<and> b = rt s B} \<subseteq> rb_addrs B" using rtB(1) by auto
  have WA: "W \<inter> rb_addrs A = {}" unfolding W_def using D(1,6,10,13) upin inB by blast
  have WC: "W \<inter> rb_addrs C = {}" unfolding W_def using D(4,8,12,15) upin inB by blast
  have WB: "W \<inter> rb_addrs B \<subseteq> {rt s B}" unfolding W_def using D(3,7,14) upin by blast
  have Wf: "W \<inter> caddrs fs \<subseteq> {b. up fs = Some b}" unfolding W_def using D(5,9,14) inB by blast
  have Ws: "s \<notin> W" unfolding W_def using D(16,17,19,21) upin inB by blast
  have A': "tree_at h' s (Some x) A" using H(2) by (subst holds_cong [of _ h' h]) (use rest WA in blast)+
  have C': "tree_at h' s (Some y) C" using H(5) by (subst holds_cong [of _ h' h]) (use rest WC in blast)+
  have B': "tree_at h' s (Some x) B"
  proof (cases "B = Lf")
    case False
    then obtain b where b: "h (rt s B) = Some b" using rtB(3) by blast
    have ne: "rt s B \<noteq> x" "rt s B \<noteq> y" "up fs \<noteq> Some (rt s B)" using False rtx rtB(1) upin D(14) by blast+
    have "h' (rt s B) = h2 (rt s B)" using ne by (auto simp: h'_def h4_def split: list.splits prod.splits)
    then have "h' (rt s B) = Some (b\<lparr>parent := x\<rparr>)" using h2(4) False b by simp
    then show ?thesis by (rule holds_parent [OF H(4) D(23) b]) (use rest WB in blast)
  qed simp
  have hole': "hole h' s y fs"
  proof (cases fs)
    case (Cons f gs)
    obtain e cp p kp u where f: "f = (e, cp, p, kp, u)" by (cases f)
    obtain np where np: "h p = Some np" using H(6) Cons f by (fastforce simp: node_at_def)
    have "p \<noteq> x" "p \<noteq> y" "B \<noteq> Lf \<longrightarrow> p \<noteq> rt s B" using Cons f D inB by auto
    then have "h' p = Some (put_child e y np)" using Cons f np h2(3) [of p] by (auto simp: h'_def h4_def)
    moreover have "\<forall>b \<in> caddrs ((e, cp, p, kp, u) # gs) - {p}. h' b = h b" using rest Wf unfolding Cons f by auto
    ultimately show ?thesis unfolding Cons f
      by (rule hole_redirect [OF H(6) [unfolded Cons f] D(25) [unfolded Cons f] np])
  qed simp
  have "node_at h' (up fs) c' y ky (\<lambda>d'. if d' = d then x else rt s C)" "node_at h' (Some y) c x kx (\<lambda>d'. if d' = d then rt s A else rt s B)"
    using h' cd n(2,5,6) m(2,5) by (cases fs; auto simp: node_at_def n'_def m'_def)+
  then have "tree_at h' s (up fs) T'" using A' B' C' by (simp add: T'_def holds_nd cong: if_cong)
  moreover have "h' s = h s" using rest Ws by blast
  ultimately have "rep h' s (rb_plug T' fs)"
    using hole' D z by (auto simp: rep_def rb_holds_plug T'_def)
  moreover have "\<forall>b. b \<notin> rb_addrs (rb_plug T' fs) \<longrightarrow> h' b = h b" using rest upin inB by (auto simp: T'_def W_def)
  ultimately show ?thesis using run by blast
qed

section \<open>Balance\<close>

fun red :: "rbt \<Rightarrow> bool" where
  "red Lf = False"
| "red (Nd c l a k r) = c"

fun invc :: "rbt \<Rightarrow> bool" where
  "invc Lf = True"
| "invc (Nd c l a k r) \<longleftrightarrow> (c \<longrightarrow> \<not> red l \<and> \<not> red r) \<and> invc l \<and> invc r"

text \<open>Every way down has \<open>n\<close> black nodes.\<close>

fun bh :: "rbt \<Rightarrow> nat \<Rightarrow> bool" where
  "bh Lf n \<longleftrightarrow> n = 0"
| "bh (Nd c l a k r) n \<longleftrightarrow> (if c then bh l n \<and> bh r n else (\<exists>m. n = Suc m \<and> bh l m \<and> bh r m))"

lemma inv_nd [simp]:
  "red (nd d c t a k u) = c" "invc (nd d c t a k u) \<longleftrightarrow> (c \<longrightarrow> \<not> red t \<and> \<not> red u) \<and> invc t \<and> invc u"
  "bh (nd d True t a k u) n \<longleftrightarrow> bh t n \<and> bh u n" "bh (nd d False t a k u) n \<longleftrightarrow> (\<exists>m. n = Suc m \<and> bh t m \<and> bh u m)"
  by (cases d; auto simp: nd_def)+

fun cred :: "rb_frame list \<Rightarrow> bool" where
  "cred [] = False"
| "cred ((d, c, a, k, u) # fs) = c"

text \<open>The way up keeps to the rules of colours, and its last node, the root, is black.\<close>

fun cinv :: "rb_frame list \<Rightarrow> bool" where
  "cinv [] = True"
| "cinv ((d, c, a, k, u) # fs) \<longleftrightarrow> invc u \<and> (c \<longrightarrow> \<not> red u \<and> fs \<noteq> [] \<and> \<not> cred fs) \<and> cinv fs"

fun cbh :: "rb_frame list \<Rightarrow> nat \<Rightarrow> nat \<Rightarrow> bool" where
  "cbh [] n m \<longleftrightarrow> n = m"
| "cbh ((d, c, a, k, u) # fs) n m \<longleftrightarrow> bh u n \<and> cbh fs (if c then n else Suc n) m"

lemma bh_unique: "bh t n \<Longrightarrow> bh t m \<Longrightarrow> n = m"
proof (induction t arbitrary: n m)
  case (Nd c l a k r)
  then show ?case by (cases c) auto
qed simp

lemma invc_plug: "invc t \<Longrightarrow> cinv fs \<Longrightarrow> (red t \<longrightarrow> \<not> cred fs) \<Longrightarrow> invc (rb_plug t fs)"
  by (induction t fs rule: rb_plug.induct) auto

lemma bh_plug: "bh t n \<Longrightarrow> cbh fs n m \<Longrightarrow> bh (rb_plug t fs) m"
proof (induction t fs arbitrary: n rule: rb_plug.induct)
  case (2 t d c a k u fs)
  then show ?case by (cases c) auto
qed simp

lemma rt_plug_same: "rt s t = rt s t' \<Longrightarrow> rt s (rb_plug t fs) = rt s (rb_plug t' fs)"
  using rt_plug_eq by (cases fs) auto

lemma inorder_plug_same: "inorder t = inorder t' \<Longrightarrow> inorder (rb_plug t fs) = inorder (rb_plug t' fs)"
proof (induction t fs arbitrary: t' rule: rb_plug.induct)
  case (2 t d c a k u fs)
  have "inorder (nd d c t a k u) = inorder (nd d c t' a k u)" using 2(2) by (simp add: nd_def)
  then show ?case using 2 by simp
qed simp

lemma inorder_nd:
  "inorder (nd d c t a k u) = (if d = Lft then inorder t @ (a, k) # inorder u else inorder u @ (a, k) # inorder t)"
  by (simp add: nd_def)

text \<open>A step that leaves the memory outside the tree alone.\<close>

definition stays :: "rbt \<Rightarrow> rbheap \<Rightarrow> rbheap \<Rightarrow> bool" where
  "stays T h h' \<longleftrightarrow> (\<forall>b. b \<notin> rb_addrs T \<longrightarrow> h' b = h b)"

lemma stays_trans: "stays T h h' \<Longrightarrow> stays T' h' h'' \<Longrightarrow> rb_addrs T = rb_addrs T' \<Longrightarrow> stays T h h''"
  by (simp add: stays_def)

lemma stays_refl [simp]: "stays T h h"
  by (simp add: stays_def)

lemma rotation:
  assumes "rep h s (rb_plug (nd d c A x kx (nd d c' B y ky C)) fs)"
  obtains h' where "rot d (rt s (rb_plug (nd d c A x kx (nd d c' B y ky C)) fs)) s x h = Some (rt s (rb_plug (nd d c' (nd d c A x kx B) y ky C) fs), h')"
    "rep h' s (rb_plug (nd d c' (nd d c A x kx B) y ky C) fs)" "stays (rb_plug (nd d c' (nd d c A x kx B) y ky C) fs) h h'"
  using rep_rot [OF assms] by (auto simp: stays_def)

lemma color:
  assumes "rep h s (rb_plug (nd d c t a k u) fs)"
  obtains h' where "upd a (\<lambda>n. n\<lparr>color := v\<rparr>) h = Some h'" "rep h' s (rb_plug (nd d (v \<noteq> 0) t a k u) fs)" "stays (rb_plug (nd d c t a k u) fs) h h'"
  using rep_color [OF assms, of v] by (auto simp: stays_def)

lemma blacken:
  assumes "rep h s (rb_plug (nd d c t a k u) fs)"
  obtains h' where "ngx_rbt_black a h = Some h'" "rep h' s (rb_plug (nd d False t a k u) fs)" "stays (rb_plug (nd d c t a k u) fs) h h'"
  using color [OF assms, of 0] by (auto simp: ngx_rbt_black_def)

lemma redden:
  assumes "rep h s (rb_plug (nd d c t a k u) fs)"
  obtains h' where "ngx_rbt_red a h = Some h'" "rep h' s (rb_plug (nd d True t a k u) fs)" "stays (rb_plug (nd d c t a k u) fs) h h'"
  using color [OF assms, of 1] by (auto simp: ngx_rbt_red_def)

end
