(* ===== verification/Ngx_Rbtree_Insert.thy ===== *)
theory Ngx_Rbtree_Insert
  imports Ngx_Rbtree_Trees
begin

text \<open>
  Insertion into the red-black trees of \<^verbatim>\<open>ngx_rbtree.c\<close>: the place that is found, and the loop that puts the colors in
  order again.
\<close>

section \<open>The balance after an insertion\<close>

definition ins_outer :: "side \<Rightarrow> rb_ptr \<Rightarrow> rb_ptr \<Rightarrow> rb_ptr \<Rightarrow> rbheap \<Rightarrow> (rb_ptr \<times> rb_ptr \<times> rbheap) option" where
  "ins_outer d rr s node h =
     do { n \<leftarrow> h node;
          h \<leftarrow> ngx_rbt_black (parent n) h;
          p \<leftarrow> h (parent n);
          h \<leftarrow> ngx_rbt_red (parent p) h;
          (rr, h) \<leftarrow> rot (opp d) rr s (parent p) h;
          Some (node, rr, h) }"

definition ins_step :: "side \<Rightarrow> rb_ptr \<Rightarrow> rb_ptr \<Rightarrow> rb_ptr \<Rightarrow> rbheap \<Rightarrow> (rb_ptr \<times> rb_ptr \<times> rbheap) option" where
  "ins_step d rr s node h =
     do { n \<leftarrow> h node; p \<leftarrow> h (parent n); g \<leftarrow> h (parent p); t \<leftarrow> h (child (opp d) g);
          if ngx_rbt_is_red t then
            do { h \<leftarrow> ngx_rbt_black (parent n) h; h \<leftarrow> ngx_rbt_black (child (opp d) g) h; h \<leftarrow> ngx_rbt_red (parent p) h;
                 Some (parent p, rr, h) }
          else if node = child (opp d) p then
            do { (rr, h) \<leftarrow> rot d rr s (parent n) h; ins_outer d rr s (parent n) h }
          else ins_outer d rr s node h }"

lemma if_bind: "(if P then a else b) \<bind> f = (if P then a \<bind> f else b \<bind> f)" for a b :: "'a option"
  by simp

lemma case_bind: "(case p of (x, y) \<Rightarrow> g x y) \<bind> f = (case p of (x, y) \<Rightarrow> g x y \<bind> f)" for g :: "'b \<Rightarrow> 'c \<Rightarrow> 'a option"
  by (simp split: prod.split)

lemma insert_steps: "insert_left rr s node h = ins_step Lft rr s node h" "insert_right rr s node h = ins_step Rgt rr s node h"
  unfolding insert_left_def insert_right_def ins_step_def ins_outer_def rotates opp.simps child.simps Let_def
  by (simp_all add: if_bind case_bind Option.bind_assoc cong: if_cong)

lemma ins_outer_ok:
  assumes "rep h s (rb_plug t ((d, c, p, kp, S) # (d, cg, g, kg, U) # fs))" "t \<noteq> Lf"
  defines "T' \<equiv> rb_plug t ((d, False, p, kp, nd d True S g kg U) # fs)"
  shows "\<exists>h'. ins_outer d (rt s (rb_plug t ((d, c, p, kp, S) # (d, cg, g, kg, U) # fs))) s (rt s t) h = Some (rt s t, rt s T', h')
    \<and> rep h' s T' \<and> stays T' h h'"
proof -
  obtain ct t1 x kx t2 where t: "t = nd d ct t1 x kx t2" using nd_ex [OF assms(2)] by blast
  let ?fs = "(d, cg, g, kg, U) # fs"
  let ?T = "rb_plug t ((d, c, p, kp, S) # ?fs)"
  have r0: "rep h s (rb_plug (nd d ct t1 x kx t2) ((d, c, p, kp, S) # ?fs))" using assms(1) by (simp add: t)
  obtain n where n: "h x = Some n" "parent n = p" by (rule rep_node [OF r0]) auto
  have r1: "rep h s (rb_plug (nd d c t p kp S) ?fs)" using assms(1) by simp
  obtain h1 where h1: "ngx_rbt_black p h = Some h1" "rep h1 s (rb_plug (nd d False t p kp S) ?fs)" "stays (rb_plug (nd d c t p kp S) ?fs) h h1"
    by (rule blacken [OF r1])
  obtain m where m: "h1 p = Some m" "parent m = g" by (rule rep_node [OF h1(2)]) auto
  have r2: "rep h1 s (rb_plug (nd d cg (nd d False t p kp S) g kg U) fs)" using h1(2) by simp
  obtain h2 where h2: "ngx_rbt_red g h1 = Some h2" "rep h2 s (rb_plug (nd d True (nd d False t p kp S) g kg U) fs)" "stays (rb_plug (nd d cg (nd d False t p kp S) g kg U) fs) h1 h2"
    by (rule redden [OF r2])
  have e: "nd d True (nd d False t p kp S) g kg U = nd (opp d) True U g kg (nd (opp d) False S p kp t)"
    "nd (opp d) False (nd (opp d) True U g kg S) p kp t = nd d False t p kp (nd d True S g kg U)" by (simp_all add: nd_opp)
  obtain h3 where h3: "rot (opp d) (rt s (rb_plug (nd (opp d) True U g kg (nd (opp d) False S p kp t)) fs)) s g h2
      = Some (rt s (rb_plug (nd (opp d) False (nd (opp d) True U g kg S) p kp t) fs), h3)"
    "rep h3 s (rb_plug (nd (opp d) False (nd (opp d) True U g kg S) p kp t) fs)" "stays (rb_plug (nd (opp d) False (nd (opp d) True U g kg S) p kp t) fs) h2 h3"
    by (rule rotation [OF h2(2) [unfolded e]])
  have T': "rb_plug (nd (opp d) False (nd (opp d) True U g kg S) p kp t) fs = T'" by (simp add: T'_def e)
  have rr: "rt s ?T = rt s (rb_plug (nd (opp d) True U g kg (nd (opp d) False S p kp t)) fs)" by (simp add: rt_plug_same [of s "nd d cg (nd d c t p kp S) g kg U"])
  have "ins_outer d (rt s ?T) s (rt s t) h = Some (rt s t, rt s T', h3)"
    using n m h1(1) h2(1) h3(1) unfolding rr T' by (simp add: ins_outer_def t)
  moreover have "stays T' h h3"
  proof (rule stays_trans [OF stays_trans])
    show "stays T' h h1" using h1(3) by (auto simp: stays_def T'_def)
    show "stays T' h1 h2" using h2(3) by (auto simp: stays_def T'_def)
    show "stays T' h2 h3" using h3(3) unfolding T' .
  qed simp_all
  ultimately show ?thesis using h3(2) unfolding T' by blast
qed

lemma tree_root: "rep h s (rb_plug t fs) \<Longrightarrow> t \<noteq> Lf \<Longrightarrow> \<exists>n. h (rt s t) = Some n \<and> ngx_rbt_is_red n = red t \<and> (\<forall>f gs. fs = f # gs \<longrightarrow> parent n = faddr f)"
proof -
  assume r: "rep h s (rb_plug t fs)" and t: "t \<noteq> Lf"
  obtain c l a k r' where "t = nd Lft c l a k r'" using nd_ex [OF t] by blast
  then show ?thesis using rep_node [of h s Lft c l a k r' fs] r by (metis rt_nd inv_nd(1))
qed

text \<open>The color that is read of a subtree; the sentinel is black.\<close>

lemma tree_color: "rep h s (rb_plug t fs) \<Longrightarrow> \<exists>n. h (rt s t) = Some n \<and> ngx_rbt_is_red n = red t"
  using tree_root [of h s t fs] by (cases "t = Lf") (auto simp: rep_def)

lemma flip_frame: "rb_plug t ((d, c, a, k, u) # fs) = rb_plug u ((opp d, c, a, k, t) # fs)"
  by (simp add: nd_opp)

text \<open>A step: either the colors are moved up, or the tree is balanced and has a black parent above \<open>node\<close>.\<close>

lemma ins_step_red:
  assumes "rep h s (rb_plug t ((d1, c, p, kp, S) # (d, cg, g, kg, U) # fs))" "t \<noteq> Lf" "U = nd Lft True u1 b kb u2"
  defines "T' \<equiv> rb_plug (nd d True (nd d1 False t p kp S) g kg (nd Lft False u1 b kb u2)) fs"
  shows "\<exists>h'. ins_step d rr s (rt s t) h = Some (g, rr, h') \<and> rep h' s T' \<and> stays T' h h'"
proof -
  let ?V = "nd Lft False u1 b kb u2"
  obtain n where n: "h (rt s t) = Some n" "parent n = p" using tree_root [OF assms(1,2)] by auto
  have r1: "rep h s (rb_plug (nd d1 c t p kp S) ((d, cg, g, kg, U) # fs))" using assms(1) by simp
  obtain m where m: "h p = Some m" "parent m = g" by (rule rep_node [OF r1]) auto
  have "rep h s (rb_plug (nd d cg (nd d1 c t p kp S) g kg U) fs)" using assms(1) by simp
  then obtain gn where gn: "h g = Some gn" "child (opp d) gn = rt s U" by (rule rep_node) auto
  have "rep h s (rb_plug U ((opp d, cg, g, kg, nd d1 c t p kp S) # fs))" using assms(1) by (simp add: nd_opp)
  then obtain un where un: "h (rt s U) = Some un" "ngx_rbt_is_red un" using tree_color assms(3) by fastforce
  obtain h1 where h1: "ngx_rbt_black p h = Some h1" "rep h1 s (rb_plug (nd d1 False t p kp S) ((d, cg, g, kg, U) # fs))" "stays (rb_plug (nd d1 c t p kp S) ((d, cg, g, kg, U) # fs)) h h1"
    by (rule blacken [OF r1])
  have r2: "rep h1 s (rb_plug (nd Lft True u1 b kb u2) ((opp d, cg, g, kg, nd d1 False t p kp S) # fs))" using h1(2) assms(3) by (simp add: nd_opp)
  obtain h2 where h2: "ngx_rbt_black b h1 = Some h2" "rep h2 s (rb_plug ?V ((opp d, cg, g, kg, nd d1 False t p kp S) # fs))"
    "stays (rb_plug (nd Lft True u1 b kb u2) ((opp d, cg, g, kg, nd d1 False t p kp S) # fs)) h1 h2"
    by (rule blacken [OF r2])
  have r3: "rep h2 s (rb_plug (nd d cg (nd d1 False t p kp S) g kg ?V) fs)" using h2(2) by (simp add: nd_opp)
  obtain h3 where h3: "ngx_rbt_red g h2 = Some h3" "rep h3 s T'" "stays (rb_plug (nd d cg (nd d1 False t p kp S) g kg ?V) fs) h2 h3"
    unfolding T'_def by (rule redden [OF r3])
  have "ins_step d rr s (rt s t) h = Some (g, rr, h3)"
    using n m gn un h1(1) h2(1) h3(1) assms(3) by (simp add: ins_step_def)
  moreover have "stays T' h h3"
  proof (rule stays_trans [OF stays_trans])
    show "stays T' h h1" using h1(3) assms(3) by (auto simp: stays_def T'_def)
    show "stays T' h1 h2" using h2(3) by (auto simp: stays_def T'_def)
    show "stays T' h2 h3" using h3(3) by (auto simp: stays_def T'_def)
  qed simp_all
  ultimately show ?thesis using h3(2) by blast
qed

lemma ins_step_rotate:
  assumes "rep h s (rb_plug t ((d1, c, p, kp, S) # (d, cg, g, kg, U) # fs))" "t \<noteq> Lf" "\<not> red U"
  shows "\<exists>h' t' a' ka' V. ins_step d (rt s (rb_plug t ((d1, c, p, kp, S) # (d, cg, g, kg, U) # fs))) s (rt s t) h
      = Some (rt s t', rt s (rb_plug t' ((d, False, a', ka', V) # fs)), h')
    \<and> rep h' s (rb_plug t' ((d, False, a', ka', V) # fs)) \<and> stays (rb_plug t' ((d, False, a', ka', V) # fs)) h h' \<and> t' \<noteq> Lf
    \<and> inorder (rb_plug t' ((d, False, a', ka', V) # fs)) = inorder (rb_plug t ((d1, c, p, kp, S) # (d, cg, g, kg, U) # fs))
    \<and> ((if d1 = d then t' = t \<and> V = nd d True S g kg U
       else (\<exists>ct t1 t2. t = nd d ct t1 a' ka' t2 \<and> t' = nd d c S p kp t1 \<and> V = nd d True t2 g kg U)))"
proof -
  let ?fs = "(d, cg, g, kg, U) # fs"
  let ?T = "rb_plug t ((d1, c, p, kp, S) # ?fs)"
  obtain n where n: "h (rt s t) = Some n" "parent n = p" using tree_root [OF assms(1,2)] by auto
  have r1: "rep h s (rb_plug (nd d1 c t p kp S) ?fs)" using assms(1) by simp
  obtain m where m: "h p = Some m" "parent m = g" "child d1 m = rt s t" "child (opp d1) m = rt s S" by (rule rep_node [OF r1]) auto
  have "rep h s (rb_plug (nd d cg (nd d1 c t p kp S) g kg U) fs)" using assms(1) by simp
  then obtain gn where gn: "h g = Some gn" "child (opp d) gn = rt s U" by (rule rep_node) auto
  have "rep h s (rb_plug U ((opp d, cg, g, kg, nd d1 c t p kp S) # fs))" using assms(1) by (simp add: nd_opp)
  then obtain un where un: "h (rt s U) = Some un" "\<not> ngx_rbt_is_red un" using tree_color assms(3) by fastforce
  show ?thesis
  proof (cases "d1 = d")
    case True
    have x: "rt s t \<in> rb_addrs t" using assms(2) by (rule rep_root_in)
    have "rt s t \<noteq> rt s S"
    proof (cases "S = Lf")
      case False
      then show ?thesis using x rep_root_in [OF False, of s] assms(1) by (auto simp: rep_def)
    qed (use x assms(1) in \<open>auto simp: rep_def\<close>)
    then have "child (opp d) m \<noteq> rt s t" using m(4) True by simp
    then have "ins_step d (rt s ?T) s (rt s t) h = ins_outer d (rt s ?T) s (rt s t) h"
      using n m(1,2) gn un by (simp add: ins_step_def)
    moreover obtain h' where "ins_outer d (rt s ?T) s (rt s t) h = Some (rt s t, rt s (rb_plug t ((d, False, p, kp, nd d True S g kg U) # fs)), h')"
      "rep h' s (rb_plug t ((d, False, p, kp, nd d True S g kg U) # fs))" "stays (rb_plug t ((d, False, p, kp, nd d True S g kg U) # fs)) h h'"
      using ins_outer_ok [of h s t d c p kp S cg g kg U fs] assms(1,2) True by blast
    moreover have "inorder (rb_plug t ((d, False, p, kp, nd d True S g kg U) # fs)) = inorder ?T"
      unfolding rb_plug.simps True by (rule inorder_plug_same) (simp add: inorder_nd)
    ultimately show ?thesis using True assms(2) by (intro exI conjI) auto
  next
    case False
    then have d1: "d1 = opp d" by (cases d; cases d1) auto
    obtain ct t1 x kx t2 where t: "t = nd d ct t1 x kx t2" using nd_ex [OF assms(2)] by blast
    have e: "nd d1 c t p kp S = nd d c S p kp (nd d ct t1 x kx t2)" using nd_opp [of d c t p kp S] by (simp add: t d1)
    obtain h1 where h1: "rot d (rt s ?T) s p h = Some (rt s (rb_plug (nd d ct (nd d c S p kp t1) x kx t2) ?fs), h1)"
      "rep h1 s (rb_plug (nd d ct (nd d c S p kp t1) x kx t2) ?fs)" "stays (rb_plug (nd d ct (nd d c S p kp t1) x kx t2) ?fs) h h1"
      by (rule rotation [OF r1 [unfolded e]]) (simp add: e)
    let ?t = "nd d c S p kp t1"
    have r2: "rep h1 s (rb_plug ?t ((d, ct, x, kx, t2) # ?fs))" using h1(2) by simp
    obtain h' where h': "ins_outer d (rt s (rb_plug ?t ((d, ct, x, kx, t2) # ?fs))) s (rt s ?t) h1 = Some (rt s ?t, rt s (rb_plug ?t ((d, False, x, kx, nd d True t2 g kg U) # fs)), h')"
      "rep h' s (rb_plug ?t ((d, False, x, kx, nd d True t2 g kg U) # fs))" "stays (rb_plug ?t ((d, False, x, kx, nd d True t2 g kg U) # fs)) h1 h'"
      using ins_outer_ok [OF r2] by auto
    have "child (opp d) m = rt s t" using m(3) d1 by simp
    then have "ins_step d (rt s ?T) s (rt s t) h = Some (rt s ?t, rt s (rb_plug ?t ((d, False, x, kx, nd d True t2 g kg U) # fs)), h')"
      using n m(1,2) gn un h1(1) h'(1) by (simp add: ins_step_def)
    moreover have "stays (rb_plug ?t ((d, False, x, kx, nd d True t2 g kg U) # fs)) h h'"
      using h1(3) h'(3) by (auto simp: stays_def)
    moreover have "inorder (rb_plug ?t ((d, False, x, kx, nd d True t2 g kg U) # fs)) = inorder ?T"
      unfolding rb_plug.simps e by (rule inorder_plug_same) (simp add: inorder_nd)
    ultimately show ?thesis using h'(2) False t
      by (intro exI [of _ h'] exI [of _ ?t] exI [of _ x] exI [of _ kx] exI [of _ "nd d True t2 g kg U"] conjI) auto
  qed
qed

lemma rt_in_plug: "rep h s (rb_plug t (f # fs)) \<Longrightarrow> t \<noteq> Lf \<Longrightarrow> rt s t \<noteq> rt s (rb_plug t (f # fs))"
  using rt_plug_in [of s t f fs] rep_root_in [of t s] by (auto simp: rep_def)

lemma insert_fix_stop:
  assumes "rep h s (rb_plug t ((d, False, a, k, u) # fs))" "t \<noteq> Lf"
  shows "insert_fix (rt s (rb_plug t ((d, False, a, k, u) # fs))) s (rt s t) h = Some (rt s (rb_plug t ((d, False, a, k, u) # fs)), h)"
proof -
  obtain n where "h (rt s t) = Some n" "parent n = a" using tree_root [OF assms] by auto
  moreover obtain p where "h a = Some p" "\<not> ngx_rbt_is_red p" by (rule rep_node [OF assms(1) [unfolded rb_plug.simps]]) auto
  ultimately show ?thesis using rt_in_plug [OF assms] by (subst insert_fix.simps) simp
qed

lemma insert_fix_ok:
  assumes "rep h s (rb_plug t fs)" "red t" "invc t" "cinv fs" "bh t n" "cbh fs n m"
  shows "\<exists>T h'. insert_fix (rt s (rb_plug t fs)) s (rt s t) h = Some (rt s T, h') \<and> rep h' s T \<and> stays T h h'
    \<and> inorder T = inorder (rb_plug t fs) \<and> invc T \<and> bh T m"
  using assms
proof (induction "length fs" arbitrary: t fs h n rule: less_induct)
  case less
  have tn: "t \<noteq> Lf" using less.prems(2) by auto
  show ?case
  proof (cases fs)
    case Nil
    then have "insert_fix (rt s (rb_plug t fs)) s (rt s t) h = Some (rt s t, h)" by (subst insert_fix.simps) simp
    then show ?thesis using less.prems Nil by (intro exI [of _ t] exI [of _ h]) simp
  next
    case (Cons f fs1)
    obtain d1 c p kp S where f: "f = (d1, c, p, kp, S)" by (cases f)
    show ?thesis
    proof (cases c)
      case False
      have "insert_fix (rt s (rb_plug t fs)) s (rt s t) h = Some (rt s (rb_plug t fs), h)"
        using insert_fix_stop [of h s t d1 p kp S fs1] less.prems(1) tn Cons f False by simp
      moreover have "invc (rb_plug t fs)" by (rule invc_plug) (use less.prems Cons f False in auto)
      ultimately show ?thesis using less.prems bh_plug [OF less.prems(5,6)] by auto
    next
      case True
      obtain d cg g kg U fs2 where fs1: "fs1 = (d, cg, g, kg, U) # fs2" "\<not> cg" using less.prems(4) Cons f True by (cases fs1) auto
      note r = less.prems(1) [unfolded Cons f fs1(1)]
      have inv: "invc S" "\<not> red S" "invc U" "cinv fs2" using less.prems(4) Cons f fs1 True by auto
      have h: "bh S n" "bh U n" "cbh fs2 (Suc n) m" using less.prems(6) Cons f fs1 True by auto
      obtain nt where nt: "h (rt s t) = Some nt" "parent nt = p" using tree_root [OF r tn] by auto
      obtain pn where pn: "h p = Some pn" "ngx_rbt_is_red pn" "parent pn = g"
        by (rule rep_node [OF r [unfolded rb_plug.simps(2) [of _ d1]]]) (use True in auto)
      have rg: "rep h s (rb_plug (nd d cg (nd d1 c t p kp S) g kg U) fs2)" using r by simp
      obtain gn where gn: "h g = Some gn" "child d gn = p" "child (opp d) gn = rt s U" by (rule rep_node [OF rg]) auto
      have "child (opp d) gn \<noteq> p" using gn(3) rg rep_root_in [of U s] by (cases "U = Lf") (auto simp: rep_def)
      then have side: "p = left gn \<longleftrightarrow> d = Lft" using gn(2) by (cases d) auto
      let ?T = "rb_plug t fs"
      have step: "insert_fix (rt s ?T) s (rt s t) h = ins_step d (rt s ?T) s (rt s t) h \<bind> (\<lambda>(node, rr, h). insert_fix rr s node h)"
        using rt_in_plug [OF less.prems(1) [unfolded Cons]] tn nt pn gn(1) side Cons
        by (subst insert_fix.simps) (cases d; simp add: insert_steps)
      show ?thesis
      proof (cases "red U")
        case True
        then obtain u1 b kb u2 where U: "U = nd Lft True u1 b kb u2" using nd_ex [of U Lft] by (cases "U = Lf") auto
        let ?t = "nd d True (nd d1 False t p kp S) g kg (nd Lft False u1 b kb u2)"
        obtain h1 where h1: "ins_step d (rt s ?T) s (rt s t) h = Some (g, rt s ?T, h1)" "rep h1 s (rb_plug ?t fs2)" "stays (rb_plug ?t fs2) h h1"
          using ins_step_red [OF r tn U, of "rt s ?T"] by blast
        have rt: "rt s ?T = rt s (rb_plug ?t fs2)" unfolding Cons f fs1 rb_plug.simps by (rule rt_plug_same) simp
        have io: "inorder (rb_plug ?t fs2) = inorder ?T" unfolding Cons f fs1 rb_plug.simps U by (rule inorder_plug_same) (simp add: inorder_nd)
        have "length fs2 < length fs" by (simp add: Cons fs1)
        moreover have "invc ?t" "red ?t" using less.prems(3) inv U by simp_all
        moreover have "bh ?t (Suc n)" using less.prems(5) h U by simp
        ultimately obtain T h' where "insert_fix (rt s (rb_plug ?t fs2)) s (rt s ?t) h1 = Some (rt s T, h')" "rep h' s T" "stays T h1 h'"
          "inorder T = inorder (rb_plug ?t fs2)" "invc T" "bh T m"
          using less.hyps [of fs2 h1 ?t "Suc n"] h1(2) inv(4) h(3) by blast
        moreover have "stays T h h'" using h1(3) calculation(3,4) by (auto simp: stays_def addrs_inorder simp del: rb_addrs_plug)
        ultimately show ?thesis using step h1(1) rt io by auto
      next
        case False
        obtain h1 t' a' ka' V where h1: "ins_step d (rt s ?T) s (rt s t) h = Some (rt s t', rt s (rb_plug t' ((d, False, a', ka', V) # fs2)), h1)"
          "rep h1 s (rb_plug t' ((d, False, a', ka', V) # fs2))" "stays (rb_plug t' ((d, False, a', ka', V) # fs2)) h h1" "t' \<noteq> Lf"
          "inorder (rb_plug t' ((d, False, a', ka', V) # fs2)) = inorder ?T"
          "if d1 = d then t' = t \<and> V = nd d True S g kg U
           else (\<exists>ct t1 t2. t = nd d ct t1 a' ka' t2 \<and> t' = nd d c S p kp t1 \<and> V = nd d True t2 g kg U)"
          using ins_step_rotate [OF r tn False] unfolding Cons f fs1 by blast
        have q: "invc t'" "invc V" "bh t' n" "bh V n" using h1(6) less.prems(2,3,5) inv h False True by (auto split: if_splits)
        have "invc (rb_plug t' ((d, False, a', ka', V) # fs2))" by (rule invc_plug) (use q inv in auto)
        moreover have "bh (rb_plug t' ((d, False, a', ka', V) # fs2)) m" by (rule bh_plug [OF q(3)]) (use q(4) h(3) in simp)
        moreover have "insert_fix (rt s ?T) s (rt s t) h = Some (rt s (rb_plug t' ((d, False, a', ka', V) # fs2)), h1)"
          using step h1(1) insert_fix_stop [OF h1(2,4)] by simp
        ultimately show ?thesis using h1(2,3,5) by blast
      qed
    qed
  qed
qed

section \<open>Insertion\<close>

fun pre :: "rb_frame list \<Rightarrow> (rb_ptr \<times> u64) list" where
  "pre [] = []"
| "pre ((d, c, a, k, u) # fs) = (if d = Lft then pre fs else pre fs @ inorder u @ [(a, k)])"

fun post :: "rb_frame list \<Rightarrow> (rb_ptr \<times> u64) list" where
  "post [] = []"
| "post ((d, c, a, k, u) # fs) = (if d = Lft then (a, k) # inorder u @ post fs else post fs)"

lemma inorder_plug: "inorder (rb_plug t fs) = pre fs @ inorder t @ post fs"
  by (induction t fs rule: rb_plug.induct) (auto simp: inorder_nd)

lemma invc_plugD:
  "invc (rb_plug t fs) \<Longrightarrow> \<not> red (rb_plug t fs) \<Longrightarrow> invc t \<and> cinv fs \<and> (red t \<longrightarrow> fs \<noteq> [] \<and> \<not> cred fs)"
  by (induction t fs rule: rb_plug.induct) auto

lemma bh_plugD: "bh (rb_plug t fs) m \<Longrightarrow> \<exists>n. bh t n \<and> cbh fs n m"
proof (induction t fs rule: rb_plug.induct)
  case (2 t d c a k u fs)
  then obtain n where "bh (nd d c t a k u) n" "cbh fs n m" by auto
  then show ?case by (cases c) auto
qed simp

lemma node_stored:
  assumes rep: "rep h s (rb_plug Lf ((d, c, a, k, u) # fs))" and nn: "h node = Some nn" "node \<notin> rb_addrs (rb_plug Lf ((d, c, a, k, u) # fs))" "node \<noteq> s"
  shows "\<exists>h'. do { h \<leftarrow> upd a (put_child d node) h; h \<leftarrow> put_parent node a h; h \<leftarrow> put_left node s h; h \<leftarrow> put_right node s h; ngx_rbt_red node h } = Some h'
    \<and> rep h' s (rb_plug (Nd True Lf node (key nn) Lf) ((d, c, a, k, u) # fs))
    \<and> (\<forall>b. b \<noteq> node \<and> b \<notin> rb_addrs (rb_plug Lf ((d, c, a, k, u) # fs)) \<longrightarrow> h' b = h b)"
proof -
  obtain an where an: "h a = Some an" by (rule rep_node [OF rep [unfolded rb_plug.simps(2)]])
  have H: "hole h s s ((d, c, a, k, u) # fs)" "cdist ((d, c, a, k, u) # fs)" using rep by (simp_all add: rep_def rb_holds_plug del: rb_plug.simps)
  have ne: "node \<noteq> a" using nn(2) by simp
  define m where "m = nn\<lparr>parent := a, left := s, right := s, color := 1\<rparr>"
  define h' where "h' = h(a \<mapsto> put_child d node an, node \<mapsto> m)"
  have run: "do { h \<leftarrow> upd a (put_child d node) h; h \<leftarrow> put_parent node a h; h \<leftarrow> put_left node s h; h \<leftarrow> put_right node s h; ngx_rbt_red node h } = Some h'"
    using an nn(1) ne by (simp add: h'_def m_def ngx_rbt_red_def)
  have ha: "h' a = Some (put_child d node an)" "h' node = Some m" using ne by (simp_all add: h'_def)
  have rest: "\<forall>b \<in> caddrs ((d, c, a, k, u) # fs) - {a}. h' b = h b" using nn(2) by (auto simp: h'_def)
  have hole': "hole h' s node ((d, c, a, k, u) # fs)" by (rule hole_redirect [OF H an ha(1) rest])
  have "child d' m = s" for d' by (cases d') (simp_all add: m_def)
  then have "tree_at h' s (Some a) (Nd True Lf node (key nn) Lf)" using ha(2) by (simp add: node_at_def m_def ngx_rbt_is_red_def)
  moreover have "a \<noteq> s" "s \<notin> rb_addrs (rb_plug Lf ((d, c, a, k, u) # fs))" using rep by (auto simp: rep_def)
  ultimately have "rep h' s (rb_plug (Nd True Lf node (key nn) Lf) ((d, c, a, k, u) # fs))"
    using rep hole' H(2) nn(2,3) by (auto simp: rep_def rb_holds_plug h'_def simp del: rb_plug.simps hole.simps cdist.simps)
  moreover have "\<forall>b. b \<noteq> node \<and> b \<notin> rb_addrs (rb_plug Lf ((d, c, a, k, u) # fs)) \<longrightarrow> h' b = h b" by (auto simp: h'_def)
  ultimately show ?thesis using run by blast
qed

lemma insert_loop_ok:
  assumes "rep h s (rb_plug t fs)" "t \<noteq> Lf" "h node = Some nn" "node \<notin> rb_addrs (rb_plug t fs)" "node \<noteq> s"
    and "sorted (map (f \<circ> snd) (inorder (rb_plug t fs)))" "\<forall>x \<in> set (pre fs). f (snd x) \<le> f (key nn)" "\<forall>x \<in> set (post fs). f (key nn) < f (snd x)"
    and lt: "\<forall>x \<in> set (inorder (rb_plug t fs)). lt (key nn) (snd x) \<longleftrightarrow> f (key nn) < (f (snd x) :: int)"
  shows "\<exists>gs h'. insert_loop lt (rt s t) node s h = Some h' \<and> gs \<noteq> [] \<and> rb_plug Lf gs = rb_plug t fs
    \<and> rep h' s (rb_plug (Nd True Lf node (key nn) Lf) gs) \<and> (\<forall>b. b \<noteq> node \<and> b \<notin> rb_addrs (rb_plug t fs) \<longrightarrow> h' b = h b)
    \<and> (\<forall>x \<in> set (pre gs). f (snd x) \<le> f (key nn)) \<and> (\<forall>x \<in> set (post gs). f (key nn) < f (snd x))"
  using assms(1,2,4,6-9)
proof (induction t arbitrary: fs)
  case (Nd c l a k r)
  define d where "d = (if f (key nn) < f k then Lft else Rgt)"
  define t u where "t = (if d = Lft then l else r)" and "u = (if d = Lft then r else l)"
  let ?T = "rb_plug (Nd c l a k r) fs"
  have N: "Nd c l a k r = nd d c t a k u" by (simp add: nd_def t_def u_def)
  have P: "rb_plug t ((d, c, a, k, u) # fs) = ?T" by (simp add: N)
  have io: "inorder ?T = pre fs @ (inorder l @ (a, k) # inorder r) @ post fs" by (simp add: inorder_plug)
  have srt: "\<forall>x \<in> set (inorder l). f (snd x) \<le> f k" "\<forall>x \<in> set (inorder r). f k \<le> f (snd x)"
    using Nd.prems(4) unfolding io by (auto simp: sorted_append)
  have side: "lt (key nn) k \<longleftrightarrow> d = Lft" using Nd.prems(7) unfolding io d_def by auto
  obtain an where an: "h a = Some an" "key an = k" "child d an = rt s t" by (rule rep_node [OF Nd.prems(1) [unfolded N]]) auto
  have go: "(\<forall>x \<in> set (pre ((d, c, a, k, u) # fs)). f (snd x) \<le> f (key nn))" "(\<forall>x \<in> set (post ((d, c, a, k, u) # fs)). f (key nn) < f (snd x))"
    using Nd.prems(5,6) srt unfolding d_def u_def by (auto split: if_splits)
  have p: "(if lt (key nn) (key an) then left an else right an) = rt s t" using an side by (cases d) auto
  have ts: "rt s t = s \<longleftrightarrow> t = Lf" using Nd.prems(1) rep_root_in [of t s] by (auto simp: rep_def N)
  have step: "insert_loop lt a node s h = (if t \<noteq> Lf then insert_loop lt (rt s t) node s h
      else do { h \<leftarrow> upd a (put_child d node) h; h \<leftarrow> put_parent node a h; h \<leftarrow> put_left node s h; h \<leftarrow> put_right node s h; ngx_rbt_red node h })"
    using assms(3) an p ts side by (subst insert_loop.simps) (cases d; simp add: Let_def set_child_fun)
  show ?case
  proof (cases "t = Lf")
    case True
    have r: "rep h s (rb_plug Lf ((d, c, a, k, u) # fs))" using Nd.prems(1) True P by simp
    have ad: "node \<notin> rb_addrs (rb_plug Lf ((d, c, a, k, u) # fs))" using Nd.prems(3) True P by simp
    obtain h' where h': "insert_loop lt a node s h = Some h'" "rep h' s (rb_plug (Nd True Lf node (key nn) Lf) ((d, c, a, k, u) # fs))"
      "\<forall>b. b \<noteq> node \<and> b \<notin> rb_addrs (rb_plug Lf ((d, c, a, k, u) # fs)) \<longrightarrow> h' b = h b"
      using node_stored [OF r assms(3) ad assms(5)] unfolding step using True by auto
    have "rb_plug Lf ((d, c, a, k, u) # fs) = ?T" using P True by simp
    note h'(3) [unfolded this]
    then show ?thesis using h'(1,2) go P True
      by (intro exI [of _ "(d, c, a, k, u) # fs"] exI [of _ h']) (simp del: rb_plug.simps pre.simps post.simps rb_addrs_plug)
  next
    case False
    have IH: "\<exists>hs h'. insert_loop lt (rt s t) node s h = Some h' \<and> hs \<noteq> [] \<and> rb_plug Lf hs = rb_plug t gs
      \<and> rep h' s (rb_plug (Nd True Lf node (key nn) Lf) hs) \<and> (\<forall>b. b \<noteq> node \<and> b \<notin> rb_addrs (rb_plug t gs) \<longrightarrow> h' b = h b)
      \<and> (\<forall>x \<in> set (pre hs). f (snd x) \<le> f (key nn)) \<and> (\<forall>x \<in> set (post hs). f (key nn) < f (snd x))"
      if "rep h s (rb_plug t gs)" "node \<notin> rb_addrs (rb_plug t gs)" "sorted (map (f \<circ> snd) (inorder (rb_plug t gs)))"
        "\<forall>x \<in> set (pre gs). f (snd x) \<le> f (key nn)" "\<forall>x \<in> set (post gs). f (key nn) < f (snd x)"
        "\<forall>x \<in> set (inorder (rb_plug t gs)). lt (key nn) (snd x) \<longleftrightarrow> f (key nn) < f (snd x)" for gs
    proof (cases "d = Lft")
      case True
      then have "t = l" by (simp add: t_def)
      then show ?thesis using Nd.IH(1) [of gs] that False by blast
    next
      case R: False
      then have "t = r" by (simp add: t_def)
      then show ?thesis using Nd.IH(2) [of gs] that False by blast
    qed
    note Q = Nd.prems(1,3,4,7) [folded P]
    show ?thesis using IH [OF Q(1-3) go Q(4)] False step unfolding P rt.simps by simp
  qed
qed simp

text \<open>A red-black tree in the heap.\<close>

definition is_rbtree :: "rbheap \<Rightarrow> rbtree \<Rightarrow> rbt \<Rightarrow> bool" where
  "is_rbtree h tree T \<longleftrightarrow> rep h (sentinel tree) T \<and> root tree = rt (sentinel tree) T \<and> invc T \<and> \<not> red T \<and> (\<exists>m. bh T m)"

lemma root_blackened:
  assumes "rep h s T" "invc T" "bh T m" "T \<noteq> Lf"
  shows "\<exists>h' T'. ngx_rbt_black (rt s T) h = Some h' \<and> rep h' s T' \<and> rt s T' = rt s T \<and> inorder T' = inorder T \<and> stays T h h'
    \<and> invc T' \<and> \<not> red T' \<and> (\<exists>m. bh T' m)"
proof -
  obtain c l a k r where T: "T = nd Lft c l a k r" using nd_ex [OF assms(4)] by blast
  obtain h' where h': "ngx_rbt_black a h = Some h'" "rep h' s (nd Lft False l a k r)" "stays T h h'"
    using blacken [of h s Lft c l a k r "[]"] assms(1) T by auto
  have "\<exists>m. bh (nd Lft False l a k r) m" using assms(3) T by (cases c) auto
  then show ?thesis using h' T assms(2) by (intro exI [of _ h'] exI [of _ "nd Lft False l a k r"]) (auto simp: inorder_nd)
qed

lemma insert_ok:
  assumes tree: "is_rbtree h tree T" and node: "h node = Some nn" "node \<notin> rb_addrs T" "node \<noteq> sentinel tree"
    and srt: "sorted (map (f \<circ> snd) (inorder T))"
    and lt: "\<forall>x \<in> set (inorder T). lt (key nn) (snd x) \<longleftrightarrow> f (key nn) < (f (snd x) :: int)"
  shows "\<exists>T' tree' h'. ngx_rbtree_insert (insert_loop lt) tree node h = Some (tree', h') \<and> is_rbtree h' tree' T' \<and> sentinel tree' = sentinel tree
    \<and> inorder T' = filter (\<lambda>x. f (snd x) \<le> f (key nn)) (inorder T) @ (node, key nn) # filter (\<lambda>x. f (key nn) < f (snd x)) (inorder T)
    \<and> (\<forall>b. b \<noteq> node \<and> b \<notin> rb_addrs T \<longrightarrow> h' b = h b)"
proof -
  define s where "s = sentinel tree"
  have T: "rep h s T" "root tree = rt s T" "invc T" "\<not> red T" and m: "\<exists>m. bh T m" using tree by (simp_all add: is_rbtree_def s_def)
  have ns: "node \<noteq> s" using node(3) by (simp add: s_def)
  show ?thesis
  proof (cases "T = Lf")
    case True
    define n1 where "n1 = nn\<lparr>parent := NULL, left := s, right := s, color := 0\<rparr>"
    have "ngx_rbtree_insert (insert_loop lt) tree node h = Some (tree\<lparr>root := node\<rparr>, h(node \<mapsto> n1))"
      using True T(2) node(1) by (simp add: ngx_rbtree_insert_def s_def [symmetric] ngx_rbt_black_def n1_def)
    moreover have "child d n1 = s" for d by (cases d) (simp_all add: n1_def)
    then have "rep (h(node \<mapsto> n1)) s (Nd False Lf node (key nn) Lf)"
      using T(1) ns by (auto simp: rep_def node_at_def n1_def ngx_rbt_is_red_def)
    then have "is_rbtree (h(node \<mapsto> n1)) (tree\<lparr>root := node\<rparr>) (Nd False Lf node (key nn) Lf)"
      by (simp add: is_rbtree_def s_def)
    ultimately show ?thesis using True by (intro exI [of _ "Nd False Lf node (key nn) Lf"] exI [of _ "tree\<lparr>root := node\<rparr>"] exI [of _ "h(node \<mapsto> n1)"]) simp
  next
    case False
    have rs: "rt s T \<noteq> s" using T(1) False rep_root_in [OF False, of s] by (auto simp: rep_def)
    obtain gs h1 where h1: "insert_loop lt (rt s T) node s h = Some h1" "gs \<noteq> []" "rb_plug Lf gs = T" "rep h1 s (rb_plug (Nd True Lf node (key nn) Lf) gs)"
      "\<forall>b. b \<noteq> node \<and> b \<notin> rb_addrs T \<longrightarrow> h1 b = h b"
      "\<forall>x \<in> set (pre gs). f (snd x) \<le> f (key nn)" "\<forall>x \<in> set (post gs). f (key nn) < f (snd x)"
      using insert_loop_ok [of h s T "[]" node nn f lt] T(1) False node(1,2) ns srt lt by auto
    let ?t = "Nd True Lf node (key nn) Lf"
    obtain m where m: "bh (rb_plug Lf gs) m" using m h1(3) by blast
    have ci: "cinv gs" using invc_plugD [of Lf gs] T(3,4) h1(3) by simp
    have cb: "cbh gs 0 m" using bh_plugD [OF m] by auto
    have rt: "rt s T = rt s (rb_plug ?t gs)" using h1(2,3) rt_plug_eq by (cases gs) auto
    obtain T1 h2 where h2: "insert_fix (rt s (rb_plug ?t gs)) s node h1 = Some (rt s T1, h2)" "rep h2 s T1" "stays T1 h1 h2"
      "inorder T1 = inorder (rb_plug ?t gs)" "invc T1" "bh T1 m"
      using insert_fix_ok [OF h1(4) _ _ ci _ cb] by auto
    have "T1 \<noteq> Lf" using h2(4) by (auto simp: inorder_plug)
    then obtain h3 T' where h3: "ngx_rbt_black (rt s T1) h2 = Some h3" "rep h3 s T'" "rt s T' = rt s T1" "inorder T' = inorder T1" "stays T1 h2 h3"
      "invc T'" "\<not> red T'" "\<exists>m. bh T' m"
      using root_blackened [OF h2(2,5,6)] by blast
    have "ngx_rbtree_insert (insert_loop lt) tree node h = Some (tree\<lparr>root := rt s T'\<rparr>, h3)"
      using rs T(2) h1(1) h2(1) h3(1,3) rt by (simp add: ngx_rbtree_insert_def s_def [symmetric])
    moreover have "is_rbtree h3 (tree\<lparr>root := rt s T'\<rparr>) T'" using h3 by (simp add: is_rbtree_def s_def [symmetric])
    moreover have "inorder T' = pre gs @ (node, key nn) # post gs" using h3(4) h2(4) by (simp add: inorder_plug)
    moreover have "filter (\<lambda>x. f (snd x) \<le> f (key nn)) (inorder T) = pre gs" "filter (\<lambda>x. f (key nn) < f (snd x)) (inorder T) = post gs"
      using h1(6,7) unfolding h1(3) [symmetric] inorder_plug by (fastforce simp: filter_id_conv filter_empty_conv)+
    moreover have "\<forall>b. b \<noteq> node \<and> b \<notin> rb_addrs T \<longrightarrow> h3 b = h b"
    proof -
      have "rb_addrs T1 = insert node (rb_addrs T)" using h2(4) h1(3) by (auto simp: addrs_inorder inorder_plug)
      then show ?thesis using h1(5) h2(3) h3(5) by (auto simp: stays_def)
    qed
    ultimately show ?thesis by (intro exI [of _ T'] exI [of _ "tree\<lparr>root := rt s T'\<rparr>"] exI [of _ h3]) simp
  qed
qed

end
