(* ===== verification/Ngx_Rbtree_Delete.thy ===== *)
theory Ngx_Rbtree_Delete
  imports Ngx_Rbtree_Insert
begin

text \<open>
  Deletion from the red-black trees of \<^verbatim>\<open>ngx_rbtree.c\<close>: the node that takes the place of the deleted one, and the loop
  that gives a way down back its black node; then the properties of the trees.
\<close>

section \<open>The balance after a deletion\<close>

definition del_last :: "side \<Rightarrow> rb_ptr \<Rightarrow> rb_ptr \<Rightarrow> rb_ptr \<Rightarrow> rb_ptr \<Rightarrow> rbheap \<Rightarrow> (rb_ptr \<times> rb_ptr \<times> rbheap) option" where
  "del_last d rr s temp w h =
     do { t \<leftarrow> h temp;
          h \<leftarrow> ngx_rbt_copy_color w (parent t) h;
          h \<leftarrow> ngx_rbt_black (parent t) h;
          wn \<leftarrow> h w;
          h \<leftarrow> ngx_rbt_black (child (opp d) wn) h;
          (rr, h) \<leftarrow> rot d rr s (parent t) h;
          Some (rr, rr, h) }"

definition del_rest :: "side \<Rightarrow> rb_ptr \<Rightarrow> rb_ptr \<Rightarrow> rb_ptr \<Rightarrow> rb_ptr \<Rightarrow> rbheap \<Rightarrow> (rb_ptr \<times> rb_ptr \<times> rbheap) option" where
  "del_rest d rr s temp w h =
     do { wn \<leftarrow> h w; wl \<leftarrow> h (child d wn); wr \<leftarrow> h (child (opp d) wn);
          if \<not> ngx_rbt_is_red wl \<and> \<not> ngx_rbt_is_red wr then
            do { h \<leftarrow> ngx_rbt_red w h; t \<leftarrow> h temp; Some (parent t, rr, h) }
          else if \<not> ngx_rbt_is_red wr then
            do { h \<leftarrow> ngx_rbt_black (child d wn) h; h \<leftarrow> ngx_rbt_red w h;
                 (rr, h) \<leftarrow> rot (opp d) rr s w h;
                 t \<leftarrow> h temp; p \<leftarrow> h (parent t); del_last d rr s temp (child (opp d) p) h }
          else del_last d rr s temp w h }"

definition del_step :: "side \<Rightarrow> rb_ptr \<Rightarrow> rb_ptr \<Rightarrow> rb_ptr \<Rightarrow> rbheap \<Rightarrow> (rb_ptr \<times> rb_ptr \<times> rbheap) option" where
  "del_step d rr s temp h =
     do { t \<leftarrow> h temp; p \<leftarrow> h (parent t);
          wn \<leftarrow> h (child (opp d) p);
          if ngx_rbt_is_red wn then
            do { h \<leftarrow> ngx_rbt_black (child (opp d) p) h; h \<leftarrow> ngx_rbt_red (parent t) h;
                 (rr, h) \<leftarrow> rot d rr s (parent t) h;
                 t \<leftarrow> h temp; p \<leftarrow> h (parent t); del_rest d rr s temp (child (opp d) p) h }
          else del_rest d rr s temp (child (opp d) p) h }"

lemma bind_comm: "x \<bind> (\<lambda>a. y \<bind> (\<lambda>b. f a b)) = y \<bind> (\<lambda>b. x \<bind> (\<lambda>a. f a b))" for x :: "'a option" and y :: "'b option"
  by (cases x; cases y) simp_all

lemma del_rest_right:
  "del_rest Rgt rr s temp w h =
     do { wn \<leftarrow> h w; wl \<leftarrow> h (left wn); wr \<leftarrow> h (right wn);
          if \<not> ngx_rbt_is_red wl \<and> \<not> ngx_rbt_is_red wr then
            do { h \<leftarrow> ngx_rbt_red w h; t \<leftarrow> h temp; Some (parent t, rr, h) }
          else if \<not> ngx_rbt_is_red wl then
            do { h \<leftarrow> ngx_rbt_black (right wn) h; h \<leftarrow> ngx_rbt_red w h;
                 (rr, h) \<leftarrow> rot Lft rr s w h;
                 t \<leftarrow> h temp; p \<leftarrow> h (parent t); del_last Rgt rr s temp (left p) h }
          else del_last Rgt rr s temp w h }"
  unfolding del_rest_def opp.simps child.simps by (subst bind_comm [of "h (left _)"]) (simp add: conj_commute cong: if_cong)

lemma delete_steps: "delete_left rr s temp h = del_step Lft rr s temp h" "delete_right rr s temp h = del_step Rgt rr s temp h"
  unfolding delete_left_def delete_right_def del_step_def del_rest_right del_rest_def [of Lft] del_last_def rotates Let_def opp.simps child.simps
  by (simp_all add: if_bind case_bind Option.bind_assoc cong: if_cong)

text \<open>
  The node \<open>t\<close> that is too low has \<open>p\<close> above it. When it is a leaf, that is in the sentinel, which the steps leave alone.
\<close>

definition linked_up :: "rbheap \<Rightarrow> rb_ptr \<Rightarrow> rbt \<Rightarrow> rb_ptr \<Rightarrow> bool" where
  "linked_up h s t p \<longleftrightarrow> (\<exists>n. h (rt s t) = Some n \<and> parent n = p \<and> ngx_rbt_is_red n = red t)"

lemma linkedE:
  assumes "linked_up h s t p"
  obtains n where "h (rt s t) = Some n" "parent n = p" "ngx_rbt_is_red n = red t"
  using assms by (auto simp: linked_up_def)

lemma linked_tree: "rep h s (rb_plug t ((d, c, p, k, u) # fs)) \<Longrightarrow> t \<noteq> Lf \<Longrightarrow> linked_up h s t p"
  using tree_root [of h s t "(d, c, p, k, u) # fs"] by (auto simp: linked_up_def)

lemma linked_stays:
  assumes "linked_up h s t p" "stays T h h'" "rep h' s (rb_plug t ((d, c, p, k, u) # fs))" "rb_addrs T = rb_addrs (rb_plug t ((d, c, p, k, u) # fs))"
  shows "linked_up h' s t p"
proof (cases "t = Lf")
  case True
  have "s \<notin> rb_addrs T" using assms(3,4) by (simp add: rep_def del: rb_plug.simps)
  then show ?thesis using assms(1,2) True by (simp add: linked_up_def stays_def)
qed (rule linked_tree [OF assms(3)])

lemma copied_color:
  assumes "rep h s (rb_plug (nd d c t a k u) fs)" "h q = Some qn" "ngx_rbt_is_red qn = c'"
  obtains h' where "ngx_rbt_copy_color a q h = Some h'" "rep h' s (rb_plug (nd d c' t a k u) fs)" "stays (rb_plug (nd d c t a k u) fs) h h'"
  using color [OF assms(1), of "color qn"] assms(2,3) by (auto simp: ngx_rbt_copy_color_def ngx_rbt_is_red_def)

lemma del_last_ok:
  assumes rep: "rep h s (rb_plug t ((d, c, p, kp, nd d cw B w kw (nd Lft cx C1 x kx C2)) # fs))" and link: "linked_up h s t p"
    and rr: "rr = rt s (rb_plug t ((d, c, p, kp, nd d cw B w kw (nd Lft cx C1 x kx C2)) # fs))"
  defines "T' \<equiv> rb_plug (nd d c (nd d False t p kp B) w kw (nd Lft False C1 x kx C2)) fs"
  shows "\<exists>h'. del_last d rr s (rt s t) w h = Some (rt s T', rt s T', h') \<and> rep h' s T' \<and> stays T' h h'"
proof -
  let ?X = "nd Lft cx C1 x kx C2" and ?X' = "nd Lft False C1 x kx C2"
  obtain n where n: "h (rt s t) = Some n" "parent n = p" by (rule linkedE [OF link])
  obtain pn where pn: "h p = Some pn" "ngx_rbt_is_red pn = c" by (rule rep_node [OF rep [unfolded rb_plug.simps]])
  have r1: "rep h s (rb_plug (nd d cw B w kw ?X) ((opp d, c, p, kp, t) # fs))" using rep by (simp add: nd_opp)
  obtain h1 where h1: "ngx_rbt_copy_color w p h = Some h1" "rep h1 s (rb_plug (nd d c B w kw ?X) ((opp d, c, p, kp, t) # fs))"
    "stays (rb_plug (nd d cw B w kw ?X) ((opp d, c, p, kp, t) # fs)) h h1"
    by (rule copied_color [OF r1 pn])
  have r2: "rep h1 s (rb_plug (nd d c t p kp (nd d c B w kw ?X)) fs)" using h1(2) by (simp add: nd_opp)
  obtain h2 where h2: "ngx_rbt_black p h1 = Some h2" "rep h2 s (rb_plug (nd d False t p kp (nd d c B w kw ?X)) fs)"
    "stays (rb_plug (nd d c t p kp (nd d c B w kw ?X)) fs) h1 h2"
    by (rule blacken [OF r2])
  have r3: "rep h2 s (rb_plug (nd d c B w kw ?X) ((opp d, False, p, kp, t) # fs))" using h2(2) by (simp add: nd_opp)
  obtain wn where wn: "h2 w = Some wn" "child (opp d) wn = x" by (rule rep_node [OF r3]) auto
  have r4: "rep h2 s (rb_plug ?X ((opp d, c, w, kw, B) # (opp d, False, p, kp, t) # fs))" using r3 by (simp add: nd_opp)
  obtain h3 where h3: "ngx_rbt_black x h2 = Some h3" "rep h3 s (rb_plug ?X' ((opp d, c, w, kw, B) # (opp d, False, p, kp, t) # fs))"
    "stays (rb_plug ?X ((opp d, c, w, kw, B) # (opp d, False, p, kp, t) # fs)) h2 h3"
    by (rule blacken [OF r4])
  have r5: "rep h3 s (rb_plug (nd d False t p kp (nd d c B w kw ?X')) fs)" using h3(2) by (simp add: nd_opp)
  obtain h4 where h4: "rot d (rt s (rb_plug (nd d False t p kp (nd d c B w kw ?X')) fs)) s p h3 = Some (rt s T', h4)" "rep h4 s T'" "stays T' h3 h4"
    unfolding T'_def by (rule rotation [OF r5])
  have "rr = rt s (rb_plug (nd d False t p kp (nd d c B w kw ?X')) fs)" unfolding rr rb_plug.simps by (rule rt_plug_same) simp
  then have "del_last d rr s (rt s t) w h = Some (rt s T', rt s T', h4)" using n h1(1) h2(1) wn h3(1) h4(1) by (simp add: del_last_def)
  moreover have "stays T' h h4"
  proof (rule stays_trans [OF stays_trans [OF stays_trans]])
    show "stays T' h h1" using h1(3) by (auto simp: stays_def T'_def)
    show "stays T' h1 h2" using h2(3) by (auto simp: stays_def T'_def)
    show "stays T' h2 h3" using h3(3) by (auto simp: stays_def T'_def)
    show "stays T' h3 h4" by (rule h4(3))
  qed simp_all
  ultimately show ?thesis using h4(2) by blast
qed

text \<open>With a black brother: the colors are moved up, or the rotations end the work.\<close>

lemma del_rest_up:
  assumes rep: "rep h s (rb_plug t ((d, c, p, kp, nd d False B w kw C) # fs))" and link: "linked_up h s t p" and bl: "\<not> red B" "\<not> red C"
  defines "T' \<equiv> rb_plug (nd d c t p kp (nd d True B w kw C)) fs"
  shows "\<exists>h'. del_rest d rr s (rt s t) w h = Some (p, rr, h') \<and> rep h' s T' \<and> stays T' h h'"
proof -
  have r1: "rep h s (rb_plug (nd d False B w kw C) ((opp d, c, p, kp, t) # fs))" using rep by (simp add: nd_opp)
  obtain wn where wn: "h w = Some wn" "child d wn = rt s B" "child (opp d) wn = rt s C" by (rule rep_node [OF r1])
  have "rep h s (rb_plug B ((d, False, w, kw, C) # (opp d, c, p, kp, t) # fs))" "rep h s (rb_plug C ((opp d, False, w, kw, B) # (opp d, c, p, kp, t) # fs))"
    using r1 by (simp_all add: nd_opp)
  then obtain bn cn where "h (rt s B) = Some bn" "\<not> ngx_rbt_is_red bn" "h (rt s C) = Some cn" "\<not> ngx_rbt_is_red cn"
    using bl by (meson tree_color)
  moreover obtain h1 where h1: "ngx_rbt_red w h = Some h1" "rep h1 s (rb_plug (nd d True B w kw C) ((opp d, c, p, kp, t) # fs))"
    "stays (rb_plug (nd d False B w kw C) ((opp d, c, p, kp, t) # fs)) h h1"
    by (rule redden [OF r1])
  have r2: "rep h1 s (rb_plug t ((d, c, p, kp, nd d True B w kw C) # fs))" using h1(2) by (simp add: nd_opp)
  have "linked_up h1 s t p" by (rule linked_stays [OF link h1(3) r2]) auto
  then obtain n where "h1 (rt s t) = Some n" "parent n = p" by (rule linkedE)
  ultimately have "del_rest d rr s (rt s t) w h = Some (p, rr, h1)" using wn h1(1) by (simp add: del_rest_def)
  moreover have "rep h1 s T'" using h1(2) by (simp add: T'_def nd_opp)
  moreover have "stays T' h h1" using h1(3) by (auto simp: stays_def T'_def)
  ultimately show ?thesis by blast
qed

lemma del_rest_done:
  assumes rep: "rep h s (rb_plug t ((d, c, p, kp, nd d False B w kw C) # fs))" and link: "linked_up h s t p" and no: "red B \<or> red C"
    and rr: "rr = rt s (rb_plug t ((d, c, p, kp, nd d False B w kw C) # fs))" and bal: "invc t" "\<not> red t" "invc B" "invc C" "bh t n" "bh B n" "bh C n"
  shows "\<exists>S h'. del_rest d rr s (rt s t) w h = Some (rt s (rb_plug S fs), rt s (rb_plug S fs), h') \<and> rep h' s (rb_plug S fs) \<and> stays (rb_plug S fs) h h'
    \<and> inorder S = inorder (nd d c t p kp (nd d False B w kw C)) \<and> invc S \<and> red S = c \<and> bh S (if c then Suc n else Suc (Suc n))"
proof -
  have r1: "rep h s (rb_plug (nd d False B w kw C) ((opp d, c, p, kp, t) # fs))" using rep by (simp add: nd_opp)
  obtain wn where wn: "h w = Some wn" "child d wn = rt s B" "child (opp d) wn = rt s C" by (rule rep_node [OF r1])
  have rB: "rep h s (rb_plug B ((d, False, w, kw, C) # (opp d, c, p, kp, t) # fs))" and rC: "rep h s (rb_plug C ((opp d, False, w, kw, B) # (opp d, c, p, kp, t) # fs))"
    using r1 by (simp_all add: nd_opp)
  obtain bn cn where bn: "h (rt s B) = Some bn" "ngx_rbt_is_red bn = red B" and cn: "h (rt s C) = Some cn" "ngx_rbt_is_red cn = red C"
    using tree_color [OF rB] tree_color [OF rC] by blast
  show ?thesis
  proof (cases "red C")
    case True
    then obtain C1 x kx C2 where C: "C = nd Lft True C1 x kx C2" using nd_ex [of C Lft] by (cases "C = Lf") auto
    let ?S = "nd d c (nd d False t p kp B) w kw (nd Lft False C1 x kx C2)"
    obtain h' where "del_last d rr s (rt s t) w h = Some (rt s (rb_plug ?S fs), rt s (rb_plug ?S fs), h')" "rep h' s (rb_plug ?S fs)" "stays (rb_plug ?S fs) h h'"
      using del_last_ok [OF rep [unfolded C] link rr [unfolded C]] by blast
    moreover have "bh ?S (if c then Suc n else Suc (Suc n))" using bal C by (cases c) auto
    ultimately show ?thesis using wn bn cn True bal C by (intro exI [of _ ?S] exI [of _ h']) (simp add: del_rest_def inorder_nd)
  next
    case False
    then obtain B1 b kb B2 where B: "B = nd d True B1 b kb B2" using nd_ex [of B d] no by (cases "B = Lf") auto
    obtain h1 where h1: "ngx_rbt_black b h = Some h1" "rep h1 s (rb_plug (nd d False B1 b kb B2) ((d, False, w, kw, C) # (opp d, c, p, kp, t) # fs))"
      "stays (rb_plug (nd d True B1 b kb B2) ((d, False, w, kw, C) # (opp d, c, p, kp, t) # fs)) h h1"
      by (rule blacken [OF rB [unfolded B]])
    have r2: "rep h1 s (rb_plug (nd d False (nd d False B1 b kb B2) w kw C) ((opp d, c, p, kp, t) # fs))" using h1(2) by simp
    obtain h2 where h2: "ngx_rbt_red w h1 = Some h2" "rep h2 s (rb_plug (nd d True (nd d False B1 b kb B2) w kw C) ((opp d, c, p, kp, t) # fs))"
      "stays (rb_plug (nd d False (nd d False B1 b kb B2) w kw C) ((opp d, c, p, kp, t) # fs)) h1 h2"
      by (rule redden [OF r2])
    have e: "nd d True (nd d False B1 b kb B2) w kw C = nd (opp d) True C w kw (nd (opp d) False B2 b kb B1)"
      "nd (opp d) False (nd (opp d) True C w kw B2) b kb B1 = nd d False B1 b kb (nd d True B2 w kw C)" by (simp_all add: nd_opp)
    let ?W = "nd d False B1 b kb (nd d True B2 w kw C)"
    obtain h3 where h3: "rot (opp d) (rt s (rb_plug (nd d True (nd d False B1 b kb B2) w kw C) ((opp d, c, p, kp, t) # fs))) s w h2
        = Some (rt s (rb_plug ?W ((opp d, c, p, kp, t) # fs)), h3)"
      "rep h3 s (rb_plug ?W ((opp d, c, p, kp, t) # fs))" "stays (rb_plug ?W ((opp d, c, p, kp, t) # fs)) h2 h3"
      by (rule rotation [OF h2(2) [unfolded e(1)]]) (simp add: e)
    have rr2: "rr = rt s (rb_plug (nd d True (nd d False B1 b kb B2) w kw C) ((opp d, c, p, kp, t) # fs))"
      unfolding rr by (simp add: nd_opp B, rule rt_plug_same, simp)
    have r3: "rep h3 s (rb_plug t ((d, c, p, kp, ?W) # fs))" using h3(2) by (simp add: nd_opp)
    have st: "stays (rb_plug t ((d, c, p, kp, ?W) # fs)) h h3"
    proof (rule stays_trans [OF stays_trans])
      show "stays (rb_plug t ((d, c, p, kp, ?W) # fs)) h h1" using h1(3) by (auto simp: stays_def)
      show "stays (rb_plug t ((d, c, p, kp, ?W) # fs)) h1 h2" using h2(3) by (auto simp: stays_def)
      show "stays (rb_plug t ((d, c, p, kp, ?W) # fs)) h2 h3" using h3(3) by (auto simp: stays_def)
    qed simp_all
    have l3: "linked_up h3 s t p" by (rule linked_stays [OF link st r3]) simp
    then obtain n3 where n3: "h3 (rt s t) = Some n3" "parent n3 = p" by (rule linkedE)
    obtain pn where pn: "h3 p = Some pn" "child (opp d) pn = b" by (rule rep_node [OF r3 [unfolded rb_plug.simps]]) auto
    let ?S = "nd d c (nd d False t p kp B1) b kb (nd d False B2 w kw C)"
    have f: "nd d True B2 w kw C = nd Lft True (if d = Lft then B2 else C) w kw (if d = Lft then C else B2)"
      "nd Lft False (if d = Lft then B2 else C) w kw (if d = Lft then C else B2) = nd d False B2 w kw C" by (simp_all add: nd_def)
    have "rt s (rb_plug ?W ((opp d, c, p, kp, t) # fs)) = rt s (rb_plug t ((d, c, p, kp, ?W) # fs))" by (simp add: nd_opp)
    then obtain h4 where h4: "del_last d (rt s (rb_plug ?W ((opp d, c, p, kp, t) # fs))) s (rt s t) b h3 = Some (rt s (rb_plug ?S fs), rt s (rb_plug ?S fs), h4)"
      "rep h4 s (rb_plug ?S fs)" "stays (rb_plug ?S fs) h3 h4"
      using del_last_ok [OF r3 [unfolded f(1)] l3] unfolding f by (metis f(1))
    have "stays (rb_plug ?S fs) h h4" by (rule stays_trans [OF _ h4(3)]) (use st in \<open>auto simp: stays_def\<close>)
    moreover have "bh ?S (if c then Suc n else Suc (Suc n))" using bal B by (cases c) auto
    moreover have "del_rest d rr s (rt s t) w h = Some (rt s (rb_plug ?S fs), rt s (rb_plug ?S fs), h4)"
      using wn bn cn False B h1(1) h2(1) h3(1) h4(1) n3 pn rr2 by (simp add: del_rest_def)
    ultimately show ?thesis using h4(2) bal B False by (intro exI [of _ ?S] exI [of _ h4]) (simp add: inorder_nd)
  qed
qed

lemma which_side:
  assumes "rep h s (rb_plug t ((d, c, a, k, u) # fs))" "t \<noteq> Lf \<or> u \<noteq> Lf"
  obtains n where "h a = Some n" "ngx_rbt_is_red n = c" "rt s t = left n \<longleftrightarrow> d = Lft" "child d n = rt s t" "child (opp d) n = rt s u"
proof -
  obtain n where n: "h a = Some n" "child d n = rt s t" "child (opp d) n = rt s u" "ngx_rbt_is_red n = c"
    by (rule rep_node [OF assms(1) [unfolded rb_plug.simps]])
  have "s \<notin> rb_addrs t" "s \<notin> rb_addrs u" "rb_addrs t \<inter> rb_addrs u = {}" using assms(1) by (auto simp: rep_def)
  then have "rt s t \<noteq> rt s u" using assms(2) rep_root_in [of t s] rep_root_in [of u s] by (cases "t = Lf"; cases "u = Lf") auto
  then have "rt s t = left n \<longleftrightarrow> d = Lft" using n by (cases d) auto
  then show thesis using that n by blast
qed

lemma del_step_black:
  assumes rep: "rep h s (rb_plug t ((d, c, p, kp, nd d False B w kw C) # fs))" and link: "linked_up h s t p"
  shows "del_step d rr s (rt s t) h = del_rest d rr s (rt s t) w h"
proof -
  obtain n where "h (rt s t) = Some n" "parent n = p" by (rule linkedE [OF link])
  moreover obtain pn where "h p = Some pn" "child (opp d) pn = w" by (rule rep_node [OF rep [unfolded rb_plug.simps]]) auto
  moreover have "rep h s (rb_plug (nd d False B w kw C) ((opp d, c, p, kp, t) # fs))" using rep by (simp add: nd_opp)
  then obtain wn where "h w = Some wn" "\<not> ngx_rbt_is_red wn" by (rule rep_node) simp
  ultimately show ?thesis by (simp add: del_step_def)
qed

lemma del_step_red:
  assumes rep: "rep h s (rb_plug t ((d, c, p, kp, nd d True (nd d c' B w' kw' C) w kw D) # fs))" and link: "linked_up h s t p"
    and rr: "rr = rt s (rb_plug t ((d, c, p, kp, nd d True (nd d c' B w' kw' C) w kw D) # fs))"
  defines "T' \<equiv> rb_plug t ((d, True, p, kp, nd d c' B w' kw' C) # (d, False, w, kw, D) # fs)"
  shows "\<exists>h'. del_step d rr s (rt s t) h = del_rest d (rt s T') s (rt s t) w' h' \<and> rep h' s T' \<and> stays T' h h' \<and> linked_up h' s t p"
proof -
  let ?W = "nd d c' B w' kw' C"
  obtain n where n: "h (rt s t) = Some n" "parent n = p" by (rule linkedE [OF link])
  obtain pn where pn: "h p = Some pn" "child (opp d) pn = w" by (rule rep_node [OF rep [unfolded rb_plug.simps]]) auto
  have r1: "rep h s (rb_plug (nd d True ?W w kw D) ((opp d, c, p, kp, t) # fs))" using rep by (simp add: nd_opp)
  obtain wn where wn: "h w = Some wn" "ngx_rbt_is_red wn" by (rule rep_node [OF r1]) simp
  obtain h1 where h1: "ngx_rbt_black w h = Some h1" "rep h1 s (rb_plug (nd d False ?W w kw D) ((opp d, c, p, kp, t) # fs))"
    "stays (rb_plug (nd d True ?W w kw D) ((opp d, c, p, kp, t) # fs)) h h1"
    by (rule blacken [OF r1])
  have r2: "rep h1 s (rb_plug (nd d c t p kp (nd d False ?W w kw D)) fs)" using h1(2) by (simp add: nd_opp)
  obtain h2 where h2: "ngx_rbt_red p h1 = Some h2" "rep h2 s (rb_plug (nd d True t p kp (nd d False ?W w kw D)) fs)"
    "stays (rb_plug (nd d c t p kp (nd d False ?W w kw D)) fs) h1 h2"
    by (rule redden [OF r2])
  obtain h3 where h3: "rot d (rt s (rb_plug (nd d True t p kp (nd d False ?W w kw D)) fs)) s p h2 = Some (rt s T', h3)" "rep h3 s T'" "stays T' h2 h3"
    unfolding T'_def rb_plug.simps by (rule rotation [OF h2(2)])
  have st: "stays T' h h3"
  proof (rule stays_trans [OF stays_trans])
    show "stays T' h h1" using h1(3) by (auto simp: stays_def T'_def)
    show "stays T' h1 h2" using h2(3) by (auto simp: stays_def T'_def)
    show "stays T' h2 h3" by (rule h3(3))
  qed simp_all
  have l3: "linked_up h3 s t p" by (rule linked_stays [OF link st h3(2) [unfolded T'_def]]) (simp add: T'_def)
  obtain n3 where n3: "h3 (rt s t) = Some n3" "parent n3 = p" by (rule linkedE [OF l3])
  obtain qn where qn: "h3 p = Some qn" "child (opp d) qn = w'" by (rule rep_node [OF h3(2) [unfolded T'_def rb_plug.simps(2) [of _ d True]]]) auto
  have "rr = rt s (rb_plug (nd d True t p kp (nd d False ?W w kw D)) fs)" unfolding rr rb_plug.simps by (rule rt_plug_same) simp
  then have "del_step d rr s (rt s t) h = del_rest d (rt s T') s (rt s t) w' h3"
    using n pn wn h1(1) h2(1) h3(1) n3 qn by (simp add: del_step_def)
  then show ?thesis using h3(2) st l3 by blast
qed

fun paint_black :: "rbt \<Rightarrow> rbt" where
  "paint_black Lf = Lf"
| "paint_black (Nd c l a k r) = Nd False l a k r"

lemma paint_black_nd [simp]: "paint_black (nd d c t a k u) = nd d False t a k u"
  by (simp add: nd_def)

lemma paint_black_same: "\<not> red t \<Longrightarrow> paint_black t = t"
  by (cases t) simp_all

lemma cinv_root: "cinv fs \<Longrightarrow> fs \<noteq> [] \<Longrightarrow> \<not> red (rb_plug t fs)"
proof (induction t fs rule: rb_plug.induct)
  case (2 t d c a k u fs)
  then show ?case by (cases fs) auto
qed simp

lemma delete_fix_stop:
  assumes rep: "rep h s (rb_plug t fs)" and "t \<noteq> Lf" "fs = [] \<or> red t" "invc (paint_black t)" "cinv fs" "\<exists>n. bh t n \<and> cbh fs (if red t then Suc n else n) m"
  shows "\<exists>T h'. delete_fix (rt s (rb_plug t fs)) s (rt s t) h = Some (rt s T, h') \<and> rep h' s T \<and> stays T h h' \<and> inorder T = inorder (rb_plug t fs)
    \<and> invc T \<and> \<not> red T \<and> bh T m"
proof -
  obtain c l a k r where t: "t = nd Lft c l a k r" using nd_ex [OF assms(2)] by blast
  let ?T = "rb_plug (nd Lft False l a k r) fs"
  obtain n where n: "h a = Some n" "ngx_rbt_is_red n = c" by (rule rep_node [OF rep [unfolded t]])
  obtain h' where h': "ngx_rbt_black a h = Some h'" "rep h' s ?T" "stays (rb_plug t fs) h h'" using blacken [OF rep [unfolded t]] t by metis
  have "delete_fix (rt s (rb_plug t fs)) s (rt s t) h = Some (rt s (rb_plug t fs), h')"
    using n h'(1) assms(3) t by (subst delete_fix.simps) auto
  moreover have "rt s (rb_plug t fs) = rt s ?T" by (rule rt_plug_same) (simp add: t)
  moreover have "inorder ?T = inorder (rb_plug t fs)" by (rule inorder_plug_same) (simp add: t inorder_nd)
  moreover have "invc ?T" by (rule invc_plug) (use assms(4,5) t in auto)
  moreover have "bh ?T m"
  proof -
    obtain i where i: "bh t i" "cbh fs (if red t then Suc i else i) m" using assms(6) by blast
    have "bh (nd Lft False l a k r) (if red t then Suc i else i)" using i(1) t by (cases c) auto
    then show ?thesis by (rule bh_plug [OF _ i(2)])
  qed
  moreover have "\<not> red ?T" using cinv_root [OF assms(5)] by (cases fs) auto
  moreover have "stays ?T h h'" using h'(3) t by (simp add: stays_def)
  ultimately show ?thesis using h'(2) by auto
qed

lemma plug_Lf: "rb_plug t fs = Lf \<longleftrightarrow> t = Lf \<and> fs = []"
  by (induction t fs rule: rb_plug.induct) auto

lemma bh_Suc: "bh W (Suc n) \<Longrightarrow> W \<noteq> Lf"
  by auto

lemma delete_fix_ok:
  assumes "rep h s (rb_plug t fs)" "invc (paint_black t)" "cinv fs" "bh t n" "fs \<noteq> [] \<Longrightarrow> cbh fs (Suc n) m"
    "fs \<noteq> [] \<Longrightarrow> linked_up h s t (faddr (hd fs))" "t = Lf \<Longrightarrow> fs \<noteq> []"
  shows "\<exists>T h'. delete_fix (rt s (rb_plug t fs)) s (rt s t) h = Some (rt s T, h') \<and> rep h' s T \<and> stays T h h' \<and> inorder T = inorder (rb_plug t fs)
    \<and> invc T \<and> \<not> red T \<and> (\<exists>m. bh T m)"
  using assms
proof (induction "length fs" arbitrary: t fs h n rule: less_induct)
  case less
  show ?case
  proof (cases "fs = [] \<or> red t")
    case True
    then have "t \<noteq> Lf" using less.prems(7) by auto
    moreover have "\<exists>m n. bh t n \<and> cbh fs (if red t then Suc n else n) m" using less.prems(4,5) True by (cases "fs = []") auto
    ultimately show ?thesis using delete_fix_stop [OF less.prems(1) _ True less.prems(2,3)] by metis
  next
    case False
    then obtain d c p kp W fs1 where fs: "fs = (d, c, p, kp, W) # fs1" by (metis list.exhaust prod.exhaust)
    have nr: "\<not> red t" using False by blast
    note r = less.prems(1) [unfolded fs]
    have link: "linked_up h s t p" using less.prems(6) fs by simp
    have it: "invc t" using less.prems(2) nr paint_black_same by metis
    have inv: "invc W" "c \<longrightarrow> \<not> red W \<and> fs1 \<noteq> [] \<and> \<not> cred fs1" "cinv fs1" using less.prems(3) fs by auto
    have bW: "bh W (Suc n)" and cb: "cbh fs1 (if c then Suc n else Suc (Suc n)) m" using less.prems(5) fs by simp_all
    have WL: "W \<noteq> Lf" using bh_Suc [OF bW] .
    obtain nt where nt: "h (rt s t) = Some nt" "parent nt = p" "\<not> ngx_rbt_is_red nt" by (rule linkedE [OF link]) (use nr in auto)
    have "t \<noteq> Lf \<or> W \<noteq> Lf" using WL by blast
    then obtain pn where pn: "h p = Some pn" "rt s t = left pn \<longleftrightarrow> d = Lft" by (rule which_side [OF r])
    have rtn: "rt s t \<noteq> rt s (rb_plug t fs)"
    proof -
      have "rt s (rb_plug t fs) \<in> caddrs fs" unfolding fs by (rule rt_plug_in)
      then show ?thesis using less.prems(1) rep_root_in [of t s] by (cases "t = Lf") (auto simp: rep_def)
    qed
    have step: "delete_fix (rt s (rb_plug t fs)) s (rt s t) h = del_step d (rt s (rb_plug t fs)) s (rt s t) h \<bind> (\<lambda>(temp, rr, h). delete_fix rr s temp h)"
      using rtn nt pn by (subst delete_fix.simps) (cases d; simp add: delete_steps)
    obtain cw B w kw C where W: "W = nd d cw B w kw C" using nd_ex [OF WL] by blast
    show ?thesis
    proof (cases cw)
      case False
      have BC: "invc B" "invc C" "bh B n" "bh C n" using inv(1) bW W False by auto
      have W': "W = nd d False B w kw C" using W False by simp
      note r1 = r [unfolded W']
      note b = del_step_black [OF r1 link, of "rt s (rb_plug t fs)"]
      have rr: "rt s (rb_plug t fs) = rt s (rb_plug t ((d, c, p, kp, nd d False B w kw C) # fs1))" by (simp add: fs W')
      show ?thesis
      proof (cases "red B \<or> red C")
        case True
        obtain S h1 where S: "del_rest d (rt s (rb_plug t fs)) s (rt s t) w h = Some (rt s (rb_plug S fs1), rt s (rb_plug S fs1), h1)"
          "rep h1 s (rb_plug S fs1)" "stays (rb_plug S fs1) h h1" "inorder S = inorder (nd d c t p kp (nd d False B w kw C))" "invc S" "red S = c"
          "bh S (if c then Suc n else Suc (Suc n))"
          using del_rest_done [OF r1 link True rr it nr BC(1,2) less.prems(4) BC(3,4)] by blast
        have io: "inorder (rb_plug S fs1) = inorder (rb_plug t fs)" unfolding fs W' rb_plug.simps(2) [of t] using inorder_plug_same S(4) by blast
        have iT: "invc (rb_plug S fs1)" by (rule invc_plug) (use S inv in auto)
        have bT: "bh (rb_plug S fs1) m" by (rule bh_plug [OF S(7) cb])
        have nT: "\<not> red (rb_plug S fs1)" using S(6) inv(2) cinv_root [OF inv(3)] by (cases "fs1 = []") auto
        have "rb_plug S fs1 \<noteq> Lf" using S(7) by (cases c) (auto simp: plug_Lf)
        then obtain T h' where T: "delete_fix (rt s (rb_plug S fs1)) s (rt s (rb_plug S fs1)) h1 = Some (rt s T, h')" "rep h' s T" "stays T h1 h'"
          "inorder T = inorder (rb_plug S fs1)" "invc T" "\<not> red T" "bh T m"
          using delete_fix_stop [of h1 s "rb_plug S fs1" "[]" m] S(2) iT bT nT by (auto simp: paint_black_same)
        have "stays T h h'" using S(3) T(3,4) by (auto simp: stays_def addrs_inorder simp del: rb_addrs_plug)
        then show ?thesis using step b S(1) T io by (auto simp del: rb_plug.simps)
      next
        case BL: False
        let ?t = "nd d c t p kp (nd d True B w kw C)"
        obtain h1 where h1: "del_rest d (rt s (rb_plug t fs)) s (rt s t) w h = Some (p, rt s (rb_plug t fs), h1)" "rep h1 s (rb_plug ?t fs1)" "stays (rb_plug ?t fs1) h h1"
          using del_rest_up [OF r1 link, of "rt s (rb_plug t fs)"] BL by blast
        have rr': "rt s (rb_plug t fs) = rt s (rb_plug ?t fs1)" unfolding fs rb_plug.simps by (rule rt_plug_same) simp
        have io: "inorder (rb_plug ?t fs1) = inorder (rb_plug t fs)" unfolding fs W rb_plug.simps by (rule inorder_plug_same) (simp add: inorder_nd)
        have l: "linked_up h1 s ?t (faddr (hd fs1))" if ne: "fs1 \<noteq> []"
        proof -
          obtain e ca a ka u fs2 where f: "fs1 = (e, ca, a, ka, u) # fs2" using ne by (metis list.exhaust prod.exhaust)
          show ?thesis using linked_tree [OF h1(2) [unfolded f]] by (simp add: f)
        qed
        have "invc (paint_black ?t)" using it nr BC BL by simp
        moreover have "bh ?t (if c then n else Suc n)" using less.prems(4) BC by (cases c) auto
        moreover have "cbh fs1 (Suc (if c then n else Suc n)) m" using cb by (cases c) auto
        ultimately obtain T h' where T: "delete_fix (rt s (rb_plug ?t fs1)) s (rt s ?t) h1 = Some (rt s T, h')" "rep h' s T" "stays T h1 h'"
          "inorder T = inorder (rb_plug ?t fs1)" "invc T" "\<not> red T" "\<exists>m. bh T m"
          using less.hyps [of fs1 h1 ?t] h1(2) inv(3) l fs by fastforce
        have "stays T h h'" using h1(3) T(3,4) by (auto simp: stays_def addrs_inorder simp del: rb_addrs_plug)
        then show ?thesis using step b h1(1) T io rr' by (auto simp del: rb_plug.simps)
      qed
    next
      case True
      then have c: "\<not> c" using inv(2) W by auto
      have BC: "\<not> red B" "invc B" "invc C" "\<not> red C" "bh B (Suc n)" "bh C (Suc n)" using inv(1) bW W True by auto
      obtain c' B1 w' kw' B2 where B: "B = nd d c' B1 w' kw' B2" "\<not> c'" "\<not> red B1 \<or> red B1" using nd_ex [OF bh_Suc [OF BC(5)]] BC(1) by (metis inv_nd(1))
      have B12: "invc B1" "invc B2" "bh B1 n" "bh B2 n" using BC(2,5) B(1,2) by auto
      let ?fs = "(d, False, w, kw, C) # fs1"
      let ?T1 = "rb_plug t ((d, True, p, kp, nd d False B1 w' kw' B2) # ?fs)"
      have r1: "rep h s (rb_plug t ((d, c, p, kp, nd d True (nd d False B1 w' kw' B2) w kw C) # fs1))" using r W True B by simp
      obtain h0 where h0: "del_step d (rt s (rb_plug t fs)) s (rt s t) h = del_rest d (rt s ?T1) s (rt s t) w' h0" "rep h0 s ?T1" "stays ?T1 h h0" "linked_up h0 s t p"
        using del_step_red [OF r1 link, of "rt s (rb_plug t fs)"] fs W True B by auto
      have io0: "inorder ?T1 = inorder (rb_plug t fs)" unfolding fs W rb_plug.simps B(1) by (rule inorder_plug_same) (simp add: inorder_nd)
      have ci: "cinv ?fs" using BC inv(3) by simp
      have cb2: "cbh ?fs (Suc n) m" using BC cb c by simp
      show ?thesis
      proof (cases "red B1 \<or> red B2")
        case True
        obtain S h1 where S: "del_rest d (rt s ?T1) s (rt s t) w' h0 = Some (rt s (rb_plug S ?fs), rt s (rb_plug S ?fs), h1)"
          "rep h1 s (rb_plug S ?fs)" "stays (rb_plug S ?fs) h0 h1" "inorder S = inorder (nd d True t p kp (nd d False B1 w' kw' B2))" "invc S" "red S"
          "bh S (Suc n)"
          using del_rest_done [OF h0(2,4) True refl it nr B12(1,2) less.prems(4) B12(3,4)] by auto
        have io: "inorder (rb_plug S ?fs) = inorder ?T1" unfolding rb_plug.simps(2) [of t] using inorder_plug_same S(4) by blast
        have iT: "invc (rb_plug S ?fs)" by (rule invc_plug [OF S(5) ci]) simp
        have bT: "bh (rb_plug S ?fs) m" by (rule bh_plug [OF S(7) cb2])
        have nT: "\<not> red (rb_plug S ?fs)" by (rule cinv_root [OF ci]) simp
        have "rb_plug S ?fs \<noteq> Lf" by (simp add: plug_Lf)
        then obtain T h' where T: "delete_fix (rt s (rb_plug S ?fs)) s (rt s (rb_plug S ?fs)) h1 = Some (rt s T, h')" "rep h' s T" "stays T h1 h'"
          "inorder T = inorder (rb_plug S ?fs)" "invc T" "\<not> red T" "bh T m"
          using delete_fix_stop [of h1 s "rb_plug S ?fs" "[]" m] S(2) iT bT nT by (auto simp: paint_black_same simp del: rb_plug.simps(2))
        have "stays T h0 h'" using S(3) T(3,4) by (auto simp: stays_def addrs_inorder simp del: rb_addrs_plug)
        then have "stays T h h'" using h0(3) T(4) io by (auto simp: stays_def addrs_inorder simp del: rb_addrs_plug)
        then show ?thesis using step h0(1) S(1) T io io0 by (auto simp del: rb_plug.simps)
      next
        case False
        let ?t = "nd d True t p kp (nd d True B1 w' kw' B2)"
        obtain h1 where h1: "del_rest d (rt s ?T1) s (rt s t) w' h0 = Some (p, rt s ?T1, h1)" "rep h1 s (rb_plug ?t ?fs)" "stays (rb_plug ?t ?fs) h0 h1"
          using del_rest_up [OF h0(2,4)] False by blast
        have rr: "rt s ?T1 = rt s (rb_plug ?t ?fs)" unfolding rb_plug.simps(2) [of t] by (rule rt_plug_same) simp
        have io: "inorder (rb_plug ?t ?fs) = inorder ?T1" unfolding rb_plug.simps(2) [of t] by (rule inorder_plug_same) (simp add: inorder_nd)
        have ip: "invc (paint_black ?t)" using it nr B12 False by simp
        have bp: "bh ?t n" using less.prems(4) B12 by simp
        have "\<exists>n. bh ?t n \<and> cbh ?fs (if red ?t then Suc n else n) m" using bp cb2 by auto
        then obtain T h' where T: "delete_fix (rt s (rb_plug ?t ?fs)) s (rt s ?t) h1 = Some (rt s T, h')" "rep h' s T" "stays T h1 h'"
          "inorder T = inorder (rb_plug ?t ?fs)" "invc T" "\<not> red T" "bh T m"
          using delete_fix_stop [OF h1(2) _ _ ip ci] by (metis inv_nd(1) nd_simps(1))
        have "stays T h0 h'" using h1(3) T(3,4) by (auto simp: stays_def addrs_inorder simp del: rb_addrs_plug)
        then have "stays T h h'" using h0(3) T(4) io by (auto simp: stays_def addrs_inorder simp del: rb_addrs_plug)
        then show ?thesis using step h0(1) h1(1) T io io0 rr by (auto simp del: rb_plug.simps)
      qed
    qed
  qed
qed

section \<open>The node that takes the place\<close>

lemma spliced:
  fixes q :: rb_ptr
  assumes rep: "rep h s (rb_plug (nd e c0 Lf b kb t) ((d, c, a, k, u) # fs))" and an: "h a = Some an" and tn: "h (rt s t) = Some tn"
  defines "h' \<equiv> h(a \<mapsto> put_child d (rt s t) an, rt s t \<mapsto> tn\<lparr>parent := q\<rparr>)"
  shows "hole h' s (rt s t) ((d, c, a, k, u) # fs)" "tree_at h' s (Some q) t" "\<exists>n. h' s = Some n \<and> \<not> ngx_rbt_is_red n"
    "t = Lf \<Longrightarrow> h' s = Some (tn\<lparr>parent := q\<rparr>)"
proof -
  let ?F = "(d, c, a, k, u) # fs"
  have D: "cdist ?F" "b \<notin> caddrs ?F" "rb_addrs t \<inter> caddrs ?F = {}" "dist t" "s \<notin> caddrs ?F" "s \<notin> rb_addrs t"
    using rep by (auto simp: rep_def)
  have H: "hole h s b ?F" "tree_at h s (Some b) t" using rep by (simp_all add: rep_def rb_holds_plug holds_nd del: rb_plug.simps hole.simps)
  have out: "rt s t \<notin> caddrs ?F" using D(3,5) rep_root_in [of t s] by (cases "t = Lf") auto
  then have ne: "rt s t \<noteq> a" by auto
  have ha: "h' a = Some (put_child d (rt s t) an)" "h' (rt s t) = Some (tn\<lparr>parent := q\<rparr>)" using ne by (auto simp: h'_def)
  show "hole h' s (rt s t) ?F"
    by (rule hole_redirect [where h' = h', OF H(1) D(1) an ha(1)]) (use out in \<open>auto simp: h'_def\<close>)
  have "a \<notin> rb_addrs t" using D(3) by auto
  then show "tree_at h' s (Some q) t" by (intro holds_parent [where h' = h', OF H(2) D(4) tn ha(2)]) (auto simp: h'_def)
  have sa: "s \<noteq> a" using D(5) by auto
  obtain z where z: "h s = Some z" "\<not> ngx_rbt_is_red z" using rep by (auto simp: rep_def)
  show "\<exists>n. h' s = Some n \<and> \<not> ngx_rbt_is_red n"
    using z tn sa by (cases "t = Lf") (auto simp: h'_def fun_upd_apply)
  show "t = Lf \<Longrightarrow> h' s = Some (tn\<lparr>parent := q\<rparr>)" using ha(2) by simp
qed

lemma replaced:
  assumes H: "hole h s (rt s r) ((Rgt, c, node, k, l) # fs)" "tree_at h s None r" and D: "dist (rb_plug r ((Rgt, c, node, k, l) # fs))"
    and out: "b \<notin> rb_addrs (rb_plug r ((Rgt, c, node, k, l) # fs))" "s \<notin> rb_addrs (rb_plug r ((Rgt, c, node, k, l) # fs))" "b \<noteq> s"
    and bn: "h b = Some bn" and z: "\<exists>z. h s = Some z \<and> \<not> ngx_rbt_is_red z"
  defines "T' \<equiv> rb_plug r ((Rgt, c, b, key bn, l) # fs)"
  shows "\<exists>h'. replace_node (rt s (rb_plug r ((Rgt, c, node, k, l) # fs))) s b node h = Some (rt s T', h') \<and> rep h' s T'
    \<and> (\<forall>a. a \<notin> rb_addrs T' \<longrightarrow> h' a = h a)"
proof -
  let ?T = "rb_plug r ((Rgt, c, node, k, l) # fs)"
  have H': "node_at h (up fs) c node k (\<lambda>d'. if d' = Rgt then rt s r else rt s l)" "tree_at h s (Some node) l" "hole h s node fs"
    using H(1) by simp_all
  have dd: "dist r" "dist l" "cdist fs" "node \<notin> rb_addrs l" "node \<notin> rb_addrs r" "node \<notin> caddrs fs" "rb_addrs l \<inter> rb_addrs r = {}" "rb_addrs l \<inter> caddrs fs = {}"
    "rb_addrs r \<inter> caddrs fs = {}" using D by auto
  have oo: "b \<noteq> node" "b \<notin> rb_addrs l" "b \<notin> rb_addrs r" "b \<notin> caddrs fs" "s \<noteq> node" "s \<notin> rb_addrs l" "s \<notin> rb_addrs r" "s \<notin> caddrs fs" using out by auto
  obtain n where n: "h node = Some n" "left n = rt s l" "right n = rt s r" "ngx_rbt_is_red n = c" "\<And>f gs. fs = f # gs \<Longrightarrow> parent n = faddr f"
  proof -
    obtain n where "h node = Some n" "\<forall>d. child d n = (if d = Rgt then rt s r else rt s l)" "ngx_rbt_is_red n = c" "\<forall>p. up fs = Some p \<longrightarrow> parent n = p"
      using H'(1) unfolding node_at_def by blast
    moreover from this(2) have "left n = rt s l" "right n = rt s r" using child.simps by (metis side.distinct(1))+
    ultimately show thesis using that [of n] by (cases fs) auto
  qed
  define m where "m = bn\<lparr>left := rt s l, right := rt s r, parent := parent n, color := color n\<rparr>"
  define h1 where "h1 = h(b \<mapsto> m)"
  define h2 where "h2 = (case fs of [] \<Rightarrow> h1 | (d, _, p, _) # _ \<Rightarrow> h1(p \<mapsto> put_child d b (the (h p))))"
  define h3 where "h3 = (if l = Lf then h2 else h2(rt s l \<mapsto> (the (h (rt s l)))\<lparr>parent := b\<rparr>))"
  define h' where "h' = (if r = Lf then h3 else h3(rt s r \<mapsto> (the (h (rt s r)))\<lparr>parent := b\<rparr>))"
  have upin: "{a. up fs = Some a} \<subseteq> caddrs fs" by (cases fs) auto
  have inl: "l \<noteq> Lf \<Longrightarrow> rt s l \<in> rb_addrs l" "l \<noteq> Lf \<Longrightarrow> \<exists>x. h (rt s l) = Some x" "rt s l = s \<longleftrightarrow> l = Lf"
    using rep_root_in [of l s] oo(6) H'(2) by (cases l; auto simp: node_at_def)+
  have inr: "r \<noteq> Lf \<Longrightarrow> rt s r \<in> rb_addrs r" "r \<noteq> Lf \<Longrightarrow> \<exists>x. h (rt s r) = Some x" "rt s r = s \<longleftrightarrow> r = Lf"
    using rep_root_in [of r s] oo(7) H(2) by (cases r; auto simp: node_at_def)+
  have h2b: "h2 b = Some m" using oo(4) by (auto simp: h2_def h1_def split: list.split)
  have h2o: "h2 a = h a" if "a \<noteq> b" "a \<notin> caddrs fs" for a using that by (auto simp: h2_def h1_def split: list.split)
  have h3b: "h3 b = Some m" using h2b inl(1) oo(2) by (auto simp: h3_def)
  have h1': "h1 = h(b \<mapsto> bn\<lparr>left := left n, right := right n, parent := parent n, color := color n\<rparr>)" using n by (simp add: h1_def m_def)
  have start: "replace_node rr s b node h =
     do { (rr, h) \<leftarrow>
            (if node = rr then Some (b, h1)
             else
               do { p \<leftarrow> h1 (parent n);
                    h \<leftarrow> (if node = left p then put_left (parent n) b h1 else put_right (parent n) b h1);
                    Some (rr, h) });
          sn \<leftarrow> h b;
          h \<leftarrow> (if left sn \<noteq> s then put_parent (left sn) b h else Some h);
          h \<leftarrow> (if right sn \<noteq> s then put_parent (right sn) b h else Some h);
          Some (rr, h) }" for rr
    using n(1) bn oo(1) by (simp add: replace_node_def ngx_rbt_copy_color_def h1' cong: if_cong)
  have finish: "do { sn \<leftarrow> h2 b;
          h \<leftarrow> (if left sn \<noteq> s then put_parent (left sn) b h2 else Some h2);
          h \<leftarrow> (if right sn \<noteq> s then put_parent (right sn) b h else Some h);
          Some (rr, h) } = Some (rr, h')" for rr
  proof -
    have l2: "l \<noteq> Lf \<Longrightarrow> h2 (rt s l) = h (rt s l)" using inl(1) oo(2) dd(8) by (intro h2o) auto
    have r3: "r \<noteq> Lf \<Longrightarrow> h3 (rt s r) = h (rt s r)"
    proof -
      assume r: "r \<noteq> Lf"
      have "h2 (rt s r) = h (rt s r)" using inr(1) [OF r] oo(3) dd(9) by (intro h2o) auto
      then show "h3 (rt s r) = h (rt s r)" using inr(1) [OF r] inl(1) dd(7) by (auto simp: h3_def)
    qed
    have "(if left m \<noteq> s then put_parent (left m) b h2 else Some h2) = Some h3"
      using inl l2 by (cases "l = Lf") (auto simp: m_def h3_def)
    moreover have "(if right m \<noteq> s then put_parent (right m) b h3 else Some h3) = Some h'"
      using inr r3 by (cases "r = Lf") (auto simp: m_def h'_def)
    ultimately show ?thesis using h2b by simp
  qed
  have run: "replace_node (rt s ?T) s b node h = Some (rt s T', h')"
  proof (cases fs)
    case Nil
    then have "node = rt s ?T" "rt s T' = b" "h2 = h1" by (simp_all add: T'_def h2_def)
    then show ?thesis unfolding start using finish [of b, unfolded \<open>h2 = h1\<close>] by simp
  next
    case (Cons f gs)
    obtain d cp p kp u where f: "f = (d, cp, p, kp, u)" by (cases f)
    obtain np where np: "h p = Some np" "\<forall>d'. child d' np = (if d' = d then node else rt s u)" using H'(3) Cons f by (auto simp: node_at_def)
    have x: "node \<noteq> rt s ?T" using rt_plug_in [of s "nd Rgt c r node k l" f gs] dd(6) Cons by auto
    have "node \<noteq> rt s u" using dd(6) oo(5) Cons f rep_root_in [of u s] by (cases "u = Lf") auto
    then have side: "node = left np \<longleftrightarrow> d = Lft" using np(2) [rule_format, of Lft] by auto
    have pn: "parent n = p" "p \<noteq> b" using n(5) Cons f oo(4) by auto
    have h1p: "h1 p = Some np" using np(1) pn(2) by (simp add: h1_def)
    have "(if node = left np then put_left p b h1 else put_right p b h1) = Some h2"
      using h1p np(1) side Cons f by (cases d) (simp_all add: h2_def)
    note w = this
    have mid: "do { p \<leftarrow> h1 (parent n); h \<leftarrow> (if node = left p then put_left (parent n) b h1 else put_right (parent n) b h1); Some (rr, h) }
        = Some (rr, h2)" for rr
      unfolding pn(1) h1p bind.bind_lunit w by (rule refl)
    have same: "rt s ?T = rt s T'" unfolding T'_def Cons rb_plug.simps(2) [of r] by (rule rt_plug_eq)
    show ?thesis unfolding start same if_not_P [OF x [unfolded same]] mid bind.bind_lunit prod.case finish same by (rule refl)
  qed
  define W where "W = {b} \<union> {a. up fs = Some a} \<union> {a. l \<noteq> Lf \<and> a = rt s l} \<union> {a. r \<noteq> Lf \<and> a = rt s r}"
  have rest: "h' a = h a" if "a \<notin> W" for a
    using that by (auto simp: W_def h'_def h3_def h2_def h1_def split: list.splits prod.splits)
  have Wl: "{a. l \<noteq> Lf \<and> a = rt s l} \<subseteq> rb_addrs l" and Wr: "{a. r \<noteq> Lf \<and> a = rt s r} \<subseteq> rb_addrs r" using inl(1) inr(1) by auto
  have l': "tree_at h' s (Some b) l"
  proof (cases "l = Lf")
    case False
    then obtain x where x: "h (rt s l) = Some x" using inl(2) by blast
    have "r \<noteq> Lf \<longrightarrow> rt s l \<noteq> rt s r" using inl(1) [OF False] inr(1) dd(7) by auto
    then have "h' (rt s l) = Some (x\<lparr>parent := b\<rparr>)" using False x by (simp add: h'_def h3_def)
    moreover have "\<forall>a \<in> rb_addrs l - {rt s l}. h' a = h a"
    proof
      fix a assume "a \<in> rb_addrs l - {rt s l}"
      then have "a \<notin> W" unfolding W_def using oo(2) dd(7,8) upin Wr by auto
      then show "h' a = h a" by (rule rest)
    qed
    ultimately show ?thesis using holds_parent [OF H'(2) dd(2) x] by blast
  qed simp
  have r': "tree_at h' s (Some b) r"
  proof (cases "r = Lf")
    case False
    then obtain x where x: "h (rt s r) = Some x" using inr(2) by blast
    have "h' (rt s r) = Some (x\<lparr>parent := b\<rparr>)" using False x by (simp add: h'_def)
    moreover have "\<forall>a \<in> rb_addrs r - {rt s r}. h' a = h a"
    proof
      fix a assume "a \<in> rb_addrs r - {rt s r}"
      then have "a \<notin> W" unfolding W_def using oo(3) dd(7,9) upin Wl by auto
      then show "h' a = h a" by (rule rest)
    qed
    ultimately show ?thesis using holds_parent [OF H(2) dd(1) x] by blast
  qed simp
  have hole': "hole h' s b fs"
  proof (cases fs)
    case (Cons f gs)
    obtain d cp p kp u where f: "f = (d, cp, p, kp, u)" by (cases f)
    obtain np where np: "h p = Some np" using H'(3) Cons f by (auto simp: node_at_def)
    have "p \<noteq> b" "l \<noteq> Lf \<longrightarrow> p \<noteq> rt s l" "r \<noteq> Lf \<longrightarrow> p \<noteq> rt s r" using Cons f oo(4) dd(8,9) inl(1) inr(1) by auto
    then have "h' p = Some (put_child d b np)" using np Cons f by (simp add: h'_def h3_def h2_def)
    moreover have "\<forall>a \<in> caddrs ((d, cp, p, kp, u) # gs) - {p}. h' a = h a"
    proof
      fix a assume "a \<in> caddrs ((d, cp, p, kp, u) # gs) - {p}"
      then have "a \<in> caddrs fs" "a \<noteq> p" using Cons f by simp_all
      then have "a \<notin> W" unfolding W_def using oo(4) dd(8,9) Wl Wr Cons f by auto
      then show "h' a = h a" by (rule rest)
    qed
    ultimately show ?thesis unfolding Cons f by (rule hole_redirect [OF H'(3) [unfolded Cons f] dd(3) [unfolded Cons f] np])
  qed simp
  have h'b: "h' b = Some m" using h3b inr(1) oo(3) by (auto simp: h'_def)
  have "child d m = (if d = Rgt then rt s r else rt s l)" for d by (cases d) (simp_all add: m_def)
  then have "node_at h' (up fs) c b (key bn) (\<lambda>d'. if d' = Rgt then rt s r else rt s l)"
    using h'b n(4,5) by (cases fs; auto simp: node_at_def m_def ngx_rbt_is_red_def)
  then have "hole h' s (rt s r) ((Rgt, c, b, key bn, l) # fs)" using l' hole' by simp
  moreover have "s \<notin> W" unfolding W_def using out(3) oo(6-8) upin Wl Wr by auto
  then have "h' s = h s" by (rule rest)
  moreover have "dist T'" "s \<notin> rb_addrs T'" using dd oo out(3) by (auto simp: T'_def)
  ultimately have "rep h' s T'" unfolding rep_def T'_def rb_holds_plug using r' z by simp
  moreover have "\<forall>a. a \<notin> rb_addrs T' \<longrightarrow> h' a = h a"
  proof (intro allI impI)
    fix a assume "a \<notin> rb_addrs T'"
    then have "a \<notin> W" unfolding W_def T'_def using upin Wl Wr by auto
    then show "h' a = h a" by (rule rest)
  qed
  ultimately show ?thesis using run by blast
qed

section \<open>Deletion\<close>

lemma plug_append: "rb_plug t (fs @ gs) = rb_plug (rb_plug t fs) gs"
  by (induction t fs rule: rb_plug.induct) auto

lemma min_ok:
  assumes "rep h s (rb_plug r fs)" "r \<noteq> Lf"
  shows "\<exists>gs c b k t. r = rb_plug (nd Lft c Lf b k t) gs \<and> (\<forall>f \<in> set gs. fst f = Lft) \<and> ngx_rbtree_min h (rt s r) s = Some b"
  using assms
proof (induction r arbitrary: fs)
  case (Nd c l a k r)
  have r: "rep h s (rb_plug (nd Lft c l a k r) fs)" using Nd.prems(1) by (simp add: nd_def)
  obtain n where n: "h a = Some n" "left n = rt s l" by (rule rep_node [OF r]) auto
  show ?case
  proof (cases "l = Lf")
    case True
    have "ngx_rbtree_min h a s = Some a" using n True by (subst ngx_rbtree_min.simps) simp
    then show ?thesis using True by (intro exI [of _ "[]"] exI [of _ c] exI [of _ a] exI [of _ k] exI [of _ r]) (simp add: nd_def)
  next
    case False
    have "rep h s (rb_plug l ((Lft, c, a, k, r) # fs))" using r by simp
    from Nd.IH(1) [OF this False] obtain gs c' b k' t where
      ih: "l = rb_plug (nd Lft c' Lf b k' t) gs" "\<forall>f \<in> set gs. fst f = Lft" "ngx_rbtree_min h (rt s l) s = Some b" by blast
    have "rt s l \<noteq> s" using rep_root_in [OF False, of s] r by (auto simp: rep_def)
    then have "ngx_rbtree_min h a s = Some b" using n ih(3) by (subst ngx_rbtree_min.simps) simp
    note m = this
    have e: "Nd c l a k r = rb_plug (nd Lft c' Lf b k' t) (gs @ [(Lft, c, a, k, r)])" unfolding plug_append ih(1) [symmetric] by (simp add: nd_def)
    show ?thesis
      by (intro exI [of _ "gs @ [(Lft, c, a, k, r)]"] exI [of _ c'] exI [of _ b] exI [of _ k'] exI [of _ t] conjI)
        (rule e, use ih(2) m in simp_all)
  qed
qed simp

text \<open>The colors of the way up do not change with the addresses in it.\<close>

lemma readdress:
  "cinv (gs @ (d, c, a, k, u) # fs) = cinv (gs @ (d, c, a', k', u) # fs)"
  "cbh (gs @ (d, c, a, k, u) # fs) n m = cbh (gs @ (d, c, a', k', u) # fs) n m"
  "cred (gs @ (d, c, a, k, u) # fs) = cred (gs @ (d, c, a', k', u) # fs)"
proof -
  show q: "cred (gs @ (d, c, a, k, u) # fs) = cred (gs @ (d, c, a', k', u) # fs)" for gs by (cases gs) auto
  show "cinv (gs @ (d, c, a, k, u) # fs) = cinv (gs @ (d, c, a', k', u) # fs)"
    by (induction gs) (use q in \<open>auto simp: split: prod.splits\<close>)
  show "cbh (gs @ (d, c, a, k, u) # fs) n m = cbh (gs @ (d, c, a', k', u) # fs) n m"
    by (induction gs arbitrary: n) auto
qed

lemma pre_lefts: "\<forall>f \<in> set gs. fst f = Lft \<Longrightarrow> pre gs = []"
  by (induction gs rule: pre.induct) auto

definition cleared :: "rbtree_node \<Rightarrow> rbtree_node" where
  "cleared n = n\<lparr>left := NULL, right := NULL, parent := NULL, key := 0\<rparr>"

lemma rep_outside: "rep h s T \<Longrightarrow> a \<notin> rb_addrs T \<Longrightarrow> a \<noteq> s \<Longrightarrow> rep (h(a := x)) s T"
  by (simp add: rep_def)

lemma linked_outside: "linked_up h s t p \<Longrightarrow> a \<noteq> rt s t \<Longrightarrow> linked_up (h(a := x)) s t p"
  by (simp add: linked_up_def)

text \<open>
  What is left to do when the node is out: the colors are in order, or one black node is missing above \<open>t\<close>.
\<close>

definition last_part :: "rbtree \<Rightarrow> bool \<Rightarrow> rb_ptr \<Rightarrow> rb_ptr \<Rightarrow> rbheap \<Rightarrow> (rbtree \<times> rbheap) option" where
  "last_part tree red_node rr temp h =
     (if red_node then Some (tree\<lparr>root := rr\<rparr>, h)
      else do { (rr, h) \<leftarrow> delete_fix rr (sentinel tree) temp h; Some (tree\<lparr>root := rr\<rparr>, h) })"

lemma last_part_ok:
  assumes rep: "rep h (sentinel tree) (rb_plug t fs)" and fs: "fs \<noteq> []" and link: "linked_up h (sentinel tree) t (faddr (hd fs))"
    and bal: "invc t" "bh t n" "cinv fs" "cbh fs (if c then n else Suc n) m" "c \<longrightarrow> \<not> red t \<or> \<not> cred fs"
  shows "\<exists>T' tree' h'. last_part tree c (rt (sentinel tree) (rb_plug t fs)) (rt (sentinel tree) t) h = Some (tree', h')
    \<and> is_rbtree h' tree' T' \<and> sentinel tree' = sentinel tree \<and> inorder T' = inorder (rb_plug t fs)
    \<and> (\<forall>b. b \<notin> rb_addrs (rb_plug t fs) \<longrightarrow> h' b = h b)"
proof (cases c)
  case True
  let ?tree = "tree\<lparr>root := rt (sentinel tree) (rb_plug t fs)\<rparr>"
  have "invc (rb_plug t fs)" by (rule invc_plug) (use bal True in auto)
  moreover have "bh (rb_plug t fs) m" by (rule bh_plug [OF bal(2)]) (use bal(4) True in simp)
  moreover have "\<not> red (rb_plug t fs)" by (rule cinv_root [OF bal(3) fs])
  ultimately have "is_rbtree h ?tree (rb_plug t fs)" using rep by (auto simp: is_rbtree_def)
  then show ?thesis using True by (intro exI [of _ "rb_plug t fs"] exI [of _ ?tree] exI [of _ h]) (simp add: last_part_def)
next
  case False
  have cb: "cbh fs (Suc n) m" using bal(4) False by simp
  have inv: "invc (paint_black t)" using bal(1) by (cases t) simp_all
  obtain T h' where T: "delete_fix (rt (sentinel tree) (rb_plug t fs)) (sentinel tree) (rt (sentinel tree) t) h = Some (rt (sentinel tree) T, h')"
    "rep h' (sentinel tree) T" "stays T h h'" "inorder T = inorder (rb_plug t fs)" "invc T" "\<not> red T" "\<exists>m. bh T m"
    using delete_fix_ok [OF rep inv bal(3,2) cb link] fs by blast
  have "is_rbtree h' (tree\<lparr>root := rt (sentinel tree) T\<rparr>) T" using T by (simp add: is_rbtree_def)
  moreover have "\<forall>b. b \<notin> rb_addrs (rb_plug t fs) \<longrightarrow> h' b = h b" using T(3,4) by (simp add: stays_def addrs_inorder del: rb_addrs_plug)
  ultimately show ?thesis using T False by (intro exI [of _ T] exI [of _ "tree\<lparr>root := rt (sentinel tree) T\<rparr>"] exI [of _ h']) (simp add: last_part_def)
qed

lemma clear_ok: "h node = Some n \<Longrightarrow> clear_node node h = Some (h(node \<mapsto> cleared n))"
  by (simp add: clear_node_def cleared_def)

lemma addr_split: "a \<in> rb_addrs T \<Longrightarrow> \<exists>c l k r fs. T = rb_plug (Nd c l a k r) fs"
proof (induction T)
  case (Nd c l b k r)
  then consider "a = b" | "a \<in> rb_addrs l" | "a \<in> rb_addrs r" by auto
  then show ?case
  proof cases
    case 1
    then show ?thesis by (intro exI [of _ c] exI [of _ l] exI [of _ k] exI [of _ r] exI [of _ "[]"]) simp
  next
    case 2
    then obtain c' l' k' r' fs where "l = rb_plug (Nd c' l' a k' r') fs" using Nd.IH(1) by blast
    then have "Nd c l b k r = rb_plug (Nd c' l' a k' r') (fs @ [(Lft, c, b, k, r)])" unfolding plug_append by (simp add: nd_def)
    then show ?thesis by blast
  next
    case 3
    then obtain c' l' k' r' fs where "r = rb_plug (Nd c' l' a k' r') fs" using Nd.IH(2) by blast
    then have "Nd c l b k r = rb_plug (Nd c' l' a k' r') (fs @ [(Rgt, c, b, k, l)])" unfolding plug_append by (simp add: nd_def)
    then show ?thesis by blast
  qed
qed simp

text \<open>The node has one child at most.\<close>

lemma delete_one:
  assumes tree: "is_rbtree h tree (rb_plug (nd e c Lf node k t) fs)" and nn: "h node = Some nn"
  shows "\<exists>T' tree' h'. ngx_rbtree_delete tree node h = Some (tree', h') \<and> is_rbtree h' tree' T' \<and> sentinel tree' = sentinel tree
    \<and> inorder T' = inorder (rb_plug t fs) \<and> h' node = Some (cleared nn)
    \<and> (\<forall>b. b \<notin> rb_addrs (rb_plug (nd e c Lf node k t) fs) \<and> b \<noteq> sentinel tree \<longrightarrow> h' b = h b)"
proof -
  define s where "s = sentinel tree"
  let ?T = "rb_plug (nd e c Lf node k t) fs"
  have rep: "rep h s ?T" and rr: "root tree = rt s ?T" and inv: "invc ?T" "\<not> red ?T" and bal: "\<exists>m. bh ?T m"
    using tree by (simp_all add: is_rbtree_def s_def)
  obtain m where m: "bh ?T m" using bal by blast
  have ch: "child e nn = s" "child (opp e) nn = rt s t" "ngx_rbt_is_red nn = c" "\<And>f gs. fs = f # gs \<Longrightarrow> parent nn = faddr f"
    using rep_node [OF rep] nn by (metis option.inject rt.simps(1))+
  have D: "node \<notin> rb_addrs t" "node \<notin> caddrs fs" "node \<noteq> s" "s \<notin> rb_addrs t" "s \<notin> caddrs fs" "rb_addrs t \<inter> caddrs fs = {}"
    using rep by (auto simp: rep_def)
  have it: "invc t" "c \<longrightarrow> \<not> red t" "cinv fs" "c \<longrightarrow> \<not> cred fs" using invc_plugD [OF inv] by auto
  obtain n where n: "bh (nd e c Lf node k t) n" "cbh fs n m" using bh_plugD [OF m] by blast
  have b0: "bh t 0" "cbh fs (if c then 0 else Suc 0) m" using n by (cases c; auto)+
  have rts: "rt s t = s \<longleftrightarrow> t = Lf" using rep_root_in [of t s] D(4) by (cases "t = Lf") auto
  have nt: "rt s t \<noteq> node" using rep_root_in [of t s] D(1,3) by (cases "t = Lf") auto
  have pick: "(if left nn = s then Some (right nn, node)
     else if right nn = s then Some (left nn, node)
     else do { subst \<leftarrow> ngx_rbtree_min h (right nn) s; sn \<leftarrow> h subst; Some (if left sn \<noteq> s then left sn else right sn, subst) })
     = Some (rt s t, node)"
    using ch(1,2) by (cases e) auto
  have tt: "rep h s (rb_plug t ((opp e, c, node, k, Lf) # fs))" using rep by (simp add: nd_opp)
  obtain tn where tn: "h (rt s t) = Some tn" "ngx_rbt_is_red tn = red t" using tree_color [OF tt] by blast
  show ?thesis
  proof (cases fs)
    case Nil
    define h' where "h' = h(rt s t \<mapsto> tn\<lparr>color := 0\<rparr>, node \<mapsto> cleared nn)"
    have run: "ngx_rbtree_delete tree node h = Some (tree\<lparr>root := rt s t\<rparr>, h')"
      unfolding ngx_rbtree_delete_def Let_def s_def [symmetric] nn bind.bind_lunit pick prod.case
      using rr Nil tn nt nn by (simp add: ngx_rbt_black_def clear_ok h'_def)
    have "rep h' s (paint_black t) \<and> invc (paint_black t) \<and> \<not> red (paint_black t) \<and> (\<exists>m. bh (paint_black t) m)
      \<and> inorder (paint_black t) = inorder t \<and> rt s (paint_black t) = rt s t"
    proof (cases "t = Lf")
      case True
      then show ?thesis using tn(1) D(3) by (simp add: rep_def h'_def ngx_rbt_is_red_def)
    next
      case False
      then obtain ct t1 a ka t2 where t: "t = nd Lft ct t1 a ka t2" using nd_ex by blast
      have "rep h s (rb_plug t [])"
      proof -
        have "tree_at h s None t" using rep Nil holds_weak by (auto simp: rep_def holds_nd)
        then show ?thesis using rep Nil by (auto simp: rep_def)
      qed
      then have r0: "rep h s (rb_plug (nd Lft ct t1 a ka t2) [])" by (simp add: t)
      have "ngx_rbt_black a h = Some (h(a \<mapsto> tn\<lparr>color := 0\<rparr>))" using tn(1) t by (simp add: ngx_rbt_black_def)
      then have "rep (h(a \<mapsto> tn\<lparr>color := 0\<rparr>)) s (rb_plug (nd Lft False t1 a ka t2) [])" using blacken [OF r0] by (metis option.inject)
      note r1 = this [unfolded rb_plug.simps]
      have "rep h' s (nd Lft False t1 a ka t2)" unfolding h'_def t rt_nd
        by (rule rep_outside [OF r1]) (use D t in simp_all)
      moreover have "\<exists>m. bh (nd Lft False t1 a ka t2) m" using b0(1) t by (cases ct) auto
      ultimately show ?thesis using it(1) t by (auto simp: inorder_nd)
    qed
    then have "is_rbtree h' (tree\<lparr>root := rt s t\<rparr>) (paint_black t)" "inorder (paint_black t) = inorder (rb_plug t fs)"
      using Nil by (simp_all add: is_rbtree_def s_def)
    moreover have "\<forall>b. b \<notin> rb_addrs ?T \<and> b \<noteq> s \<longrightarrow> h' b = h b" using rep_root_in [of t s] by (cases "t = Lf") (auto simp: h'_def)
    moreover have "h' node = Some (cleared nn)" by (simp add: h'_def)
    ultimately show ?thesis using run
      by (intro exI [of _ "paint_black t"] exI [of _ "tree\<lparr>root := rt s t\<rparr>"] exI [of _ h']) (simp add: s_def)
  next
    case (Cons f gs)
    obtain d cp p kp u where f: "f = (d, cp, p, kp, u)" by (cases f)
    have fs: "fs = (d, cp, p, kp, u) # gs" using Cons f by simp
    note r = rep [unfolded fs]
    obtain pn where pn: "h p = Some pn" "node = left pn \<longleftrightarrow> d = Lft" by (rule which_side [OF r]) auto
    define h2 where "h2 = h(p \<mapsto> put_child d (rt s t) pn, rt s t \<mapsto> tn\<lparr>parent := p\<rparr>)"
    define h3 where "h3 = h2(node \<mapsto> cleared nn)"
    note sp = spliced [OF r pn(1) tn(1), of p, folded h2_def]
    have pp: "parent nn = p" "p \<noteq> node" "rt s t \<noteq> p" using ch(4) [OF fs] D fs rep_root_in [of t s] by (cases "t = Lf"; auto)+
    have x: "node \<noteq> rt s ?T" using rt_in_plug [of h s "nd e c Lf node k t" f gs] rep Cons by simp
    have st: "(if node = left pn then put_left p (rt s t) h else put_right p (rt s t) h) = Some (h(p \<mapsto> put_child d (rt s t) pn))"
      using pn by (cases d) simp_all
    have h2n: "h2 node = Some nn" using nn pp(2) nt by (simp add: h2_def)
    have run: "ngx_rbtree_delete tree node h = last_part tree c (rt s ?T) (rt s t) h3"
      unfolding ngx_rbtree_delete_def Let_def s_def [symmetric] nn bind.bind_lunit pick prod.case rr if_not_P [OF x] pp(1) pn(1) st
      using tn(1) pp(3) h2n by (simp add: clear_ok h3_def h2_def last_part_def ch(3) s_def)
    have "rep h2 s (rb_plug t fs)" unfolding fs
      using sp rep by (auto simp: rep_def rb_holds_plug fs simp del: rb_plug.simps hole.simps)
    then have rep3: "rep h3 s (rb_plug t fs)" unfolding h3_def by (rule rep_outside) (use D in auto)
    have link: "linked_up h3 s t p"
      using tn nt by (simp add: linked_up_def h3_def h2_def)
    have root: "rt s ?T = rt s (rb_plug t fs)" unfolding fs by (rule rt_plug_eq)
    have ne: "fs \<noteq> []" and hd: "linked_up h3 s t (faddr (hd fs))" using link fs by simp_all
    have bb: "c \<longrightarrow> \<not> red t \<or> \<not> cred fs" using it by blast
    obtain T' tree' h' where T: "last_part tree c (rt s (rb_plug t fs)) (rt s t) h3 = Some (tree', h')" "is_rbtree h' tree' T'" "sentinel tree' = sentinel tree"
      "inorder T' = inorder (rb_plug t fs)" "\<forall>b. b \<notin> rb_addrs (rb_plug t fs) \<longrightarrow> h' b = h3 b"
      using last_part_ok [OF rep3 [unfolded s_def] ne hd [unfolded s_def] it(1) b0(1) it(3) b0(2) bb] unfolding s_def by blast
    have "h' node = Some (cleared nn)" using T(5) D by (simp add: h3_def)
    moreover have "\<forall>b. b \<notin> rb_addrs ?T \<and> b \<noteq> s \<longrightarrow> h' b = h b"
      using T(5) rep_root_in [of t s] fs by (cases "t = Lf") (auto simp: h3_def h2_def)
    ultimately show ?thesis using run T(1-4) root by (auto simp: s_def)
  qed
qed

lemma cleared_set [simp]: "cleared (put_child d p n) = cleared n"
  by (cases d) (simp_all add: cleared_def)

lemma caddrs_append: "caddrs (fs @ gs) = caddrs fs \<union> caddrs gs"
  by (induction fs rule: caddrs.induct) auto

lemma cdist_append: "cdist (fs @ gs) \<longleftrightarrow> cdist fs \<and> cdist gs \<and> caddrs fs \<inter> caddrs gs = {}"
  by (induction fs rule: cdist.induct) (auto simp: caddrs_append)

text \<open>The node has two children, and the least one of the right subtree takes its place.\<close>

lemma delete_two:
  assumes tree: "is_rbtree h tree (rb_plug (Nd c l node k r) fs)" and nn: "h node = Some nn" and lr: "l \<noteq> Lf" "r \<noteq> Lf"
  shows "\<exists>T' tree' h'. ngx_rbtree_delete tree node h = Some (tree', h') \<and> is_rbtree h' tree' T' \<and> sentinel tree' = sentinel tree
    \<and> inorder T' = pre fs @ inorder l @ inorder r @ post fs \<and> h' node = Some (cleared nn)
    \<and> (\<forall>b. b \<notin> rb_addrs (rb_plug (Nd c l node k r) fs) \<and> b \<noteq> sentinel tree \<longrightarrow> h' b = h b)"
proof -
  define s where "s = sentinel tree"
  define F where "F = (Rgt, c, node, k, l)"
  let ?T = "rb_plug (Nd c l node k r) fs"
  have N: "Nd c l node k r = nd Rgt c r node k l" by (simp add: nd_def)
  have TF: "?T = rb_plug r (F # fs)" by (simp add: F_def N)
  have rep: "rep h s ?T" and rr: "root tree = rt s ?T" and inv: "invc ?T" "\<not> red ?T" and bal: "\<exists>m. bh ?T m"
    using tree by (simp_all add: is_rbtree_def s_def)
  obtain m where m: "bh ?T m" using bal by blast
  obtain n' where "h node = Some n'" "child Rgt n' = rt s r" "child (opp Rgt) n' = rt s l" by (rule rep_node [OF rep [unfolded N]])
  then have ch: "left nn = rt s l" "right nn = rt s r" using nn by simp_all
  obtain gs cb b kb t where mn: "r = rb_plug (nd Lft cb Lf b kb t) gs" "\<forall>f \<in> set gs. fst f = Lft" "ngx_rbtree_min h (rt s r) s = Some b"
    using min_ok [OF rep [unfolded TF] lr(2)] by blast
  define G where "G = gs @ F # fs"
  have TG: "?T = rb_plug (nd Lft cb Lf b kb t) G" unfolding TF unfolding mn(1) G_def plug_append by (rule refl)
  note repG = rep [unfolded TG]
  obtain d cg g kg ug G1 where G: "G = (d, cg, g, kg, ug) # G1" by (metis G_def list.exhaust append_is_Nil_conv list.distinct(1) prod.exhaust)
  note r = repG [unfolded G]
  obtain bn where bn: "h b = Some bn" "key bn = kb" "left bn = s" "right bn = rt s t" "ngx_rbt_is_red bn = cb" "parent bn = g"
    by (rule rep_node [OF r]) auto
  obtain tn where tn: "h (rt s t) = Some tn" "ngx_rbt_is_red tn = red t"
    using tree_color [of h s t "(Rgt, cb, b, kb, Lf) # G"] repG by (auto simp: nd_opp [of Lft, simplified])
  obtain gn where gn: "h g = Some gn" "b = left gn \<longleftrightarrow> d = Lft" by (rule which_side [OF r]) auto
  have D: "b \<notin> rb_addrs t" "b \<notin> caddrs G" "b \<noteq> s" "s \<notin> rb_addrs t" "s \<notin> caddrs G" "rb_addrs t \<inter> caddrs G = {}" "cdist G" "dist t"
    using repG by (auto simp: rep_def)
  have srt: "rt s l \<noteq> s" "rt s r \<noteq> s" using rep_root_in [OF lr(1), of s] rep_root_in [OF lr(2), of s] rep by (auto simp: rep_def)
  have nin: "node \<in> caddrs G" "g \<in> caddrs G" by (simp add: G_def F_def caddrs_append, simp add: G)
  have ne: "node \<noteq> b" "g \<noteq> b" "rt s t \<noteq> g" "rt s t \<noteq> b" "rt s t \<noteq> node"
    using D nin rep_root_in [of t s] by (cases "t = Lf"; auto)+
  have pick: "(if left nn = s then Some (right nn, node)
     else if right nn = s then Some (left nn, node)
     else do { subst \<leftarrow> ngx_rbtree_min h (right nn) s; sn \<leftarrow> h subst; Some (if left sn \<noteq> s then left sn else right sn, subst) })
     = Some (rt s t, b)"
    using ch srt mn(3) bn by simp
  define q where "q = (if g = node then b else g)"
  define h2 where "h2 = h(g \<mapsto> put_child d (rt s t) gn, rt s t \<mapsto> tn\<lparr>parent := q\<rparr>)"
  note sp = spliced [OF r gn(1) tn(1), of q, folded h2_def]
  define r1 where "r1 = rb_plug t gs"
  have r1: "rb_plug r1 (F # fs) = rb_plug t G" by (simp add: r1_def G_def plug_append del: rb_plug.simps(2))
  have gF: "gs = [] \<longleftrightarrow> g = node"
  proof (cases gs)
    case Nil
    then show ?thesis using G by (simp add: G_def F_def)
  next
    case (Cons f gs1)
    then have "G1 = gs1 @ F # fs" using G by (simp add: G_def)
    then have "node \<in> caddrs G1" by (simp add: F_def caddrs_append)
    then show ?thesis using D(7) Cons by (auto simp: G)
  qed
  have hole: "hole h2 s (rt s r1) (F # fs)" "tree_at h2 s None r1"
  proof -
    have "hole h2 s (rt s r1) (F # fs) \<and> tree_at h2 s None r1"
    proof (cases gs)
      case Nil
      then show ?thesis using sp(1) holds_weak [OF sp(2)] G by (simp add: G_def r1_def del: hole.simps)
    next
      case (Cons f gs1)
      then have "q = g" using gF by (simp add: q_def)
      then have "tree_at h2 s None (rb_plug t G)" using sp(1,2) unfolding rb_holds_plug by (simp add: G del: hole.simps)
      then show ?thesis using holds_weak unfolding r1 [symmetric] rb_holds_plug by blast
    qed
    then show "hole h2 s (rt s r1) (F # fs)" "tree_at h2 s None r1" by blast+
  qed
  have h2b: "h2 b = Some bn" using bn(1) ne by (simp add: h2_def)
  let ?T1 = "rb_plug r1 ((Rgt, c, b, kb, l) # fs)"
  have out: "b \<notin> rb_addrs (rb_plug t G)" "s \<notin> rb_addrs (rb_plug t G)" "dist (rb_plug t G)" using D by simp_all
  obtain h3 where h3: "replace_node (rt s (rb_plug r1 (F # fs))) s b node h2 = Some (rt s ?T1, h3)" "rep h3 s ?T1" "\<forall>a. a \<notin> rb_addrs ?T1 \<longrightarrow> h3 a = h2 a"
    using replaced [OF hole(1) [unfolded F_def] hole(2) _ _ _ D(3) h2b sp(3)] out bn(2) unfolding r1 [symmetric] F_def by blast
  have rr2: "root tree = rt s (rb_plug r1 (F # fs))" unfolding rr TF by (rule rt_plug_eq)
  have aT: "rb_addrs ?T = insert b (rb_addrs t \<union> caddrs G)" using arg_cong [OF TG, of rb_addrs] by simp
  have aT1: "insert node (rb_addrs ?T1) = rb_addrs ?T"
    unfolding aT by (auto simp: r1_def G_def F_def caddrs_append)
  have n1: "node \<notin> rb_addrs ?T1" using out r1 ne D nin unfolding r1_def
    by (auto simp: G_def F_def caddrs_append cdist_append rep_def)
  obtain nm where nm: "h3 node = Some nm" "cleared nm = cleared nn"
  proof -
    have "h3 node = h2 node" using h3(3) n1 by blast
    also have "h2 node = (if g = node then Some (put_child d (rt s t) gn) else Some nn)" using nn ne by (simp add: h2_def)
    finally show thesis using that gn(1) nn by (cases "g = node") auto
  qed
  define h4 where "h4 = h3(node \<mapsto> cleared nn)"
  have x: "b \<noteq> root tree" using rt_in_plug [OF r] unfolding rr TG by (simp add: G)
  have st: "(if b = left gn then put_left g (rt s t) h else put_right g (rt s t) h) = Some (h(g \<mapsto> put_child d (rt s t) gn))"
    using gn by (cases d) simp_all
  have st2: "(if g = node then put_parent (rt s t) b (h(g \<mapsto> put_child d (rt s t) gn)) else put_parent (rt s t) g (h(g \<mapsto> put_child d (rt s t) gn))) = Some h2"
    using tn(1) ne by (simp add: h2_def q_def)
  have clr: "clear_node node h3 = Some h4" using clear_ok [of h3 node nm] nm by (simp add: h4_def)
  have run: "ngx_rbtree_delete tree node h = last_part tree cb (rt s ?T1) (rt s t) h4"
    unfolding ngx_rbtree_delete_def Let_def s_def [symmetric] nn bind.bind_lunit pick prod.case if_not_P [OF x] if_not_P [OF x [unfolded rr2]] bn(1,5,6) gn(1) st if_not_P [OF ne(1) [symmetric]] st2
      rr2 h3(1) clr last_part_def by (rule refl)
  define G' where "G' = gs @ (Rgt, c, b, kb, l) # fs"
  have T1: "?T1 = rb_plug t G'" by (simp add: r1_def G'_def plug_append del: rb_plug.simps(2))
  have rep4: "rep h4 s (rb_plug t G')" unfolding h4_def T1 [symmetric]
    by (rule rep_outside [OF h3(2) n1]) (use nin(1) D(5) in blast)
  have hdG: "G' \<noteq> []" "faddr (hd G') = q"
  proof -
    show "G' \<noteq> []" by (simp add: G'_def)
    show "faddr (hd G') = q"
    proof (cases gs)
      case Nil
      then show ?thesis using gF by (simp add: G'_def q_def)
    next
      case (Cons f gs1)
      then show ?thesis using gF G by (simp add: G'_def q_def G_def)
    qed
  qed
  have link: "linked_up h4 s t (faddr (hd G'))"
  proof (cases "t = Lf")
    case True
    have "s \<notin> rb_addrs ?T1" using h3(2) by (simp add: rep_def)
    then have "h4 s = Some (tn\<lparr>parent := q\<rparr>)" using sp(4) [OF True] h3(3) nin(1) D(5) by (auto simp: h4_def)
    then show ?thesis using tn(2) True by (simp add: linked_up_def hdG(2))
  next
    case False
    obtain d' c' a' k' u' fs' where "G' = (d', c', a', k', u') # fs'" using hdG(1) by (metis list.exhaust prod.exhaust)
    then show ?thesis using linked_tree rep4 False by simp
  qed
  have it: "invc t" "cb \<longrightarrow> \<not> red t" "cinv G" using invc_plugD [of "nd Lft cb Lf b kb t" G] inv unfolding TG by auto
  obtain n where n: "bh (nd Lft cb Lf b kb t) n" "cbh G n m" using bh_plugD [OF m [unfolded TG]] by blast
  have b0: "bh t 0" "cbh G (if cb then 0 else Suc 0) m" using n by (cases cb; auto)+
  have G'': "cinv G'" "cbh G' (if cb then 0 else Suc 0) m"
    using it(3) b0(2) unfolding G_def G'_def F_def by (simp_all add: readdress(1,2) [where a = node and k = k and a' = b and k' = kb])
  have bb: "cb \<longrightarrow> \<not> red t \<or> \<not> cred G'" using it(2) by blast
  obtain T' tree' h' where T: "last_part tree cb (rt s (rb_plug t G')) (rt s t) h4 = Some (tree', h')" "is_rbtree h' tree' T'" "sentinel tree' = s"
    "inorder T' = inorder (rb_plug t G')" "\<forall>a. a \<notin> rb_addrs (rb_plug t G') \<longrightarrow> h' a = h4 a"
    using last_part_ok [OF rep4 [unfolded s_def] hdG(1) link [unfolded s_def] it(1) b0(1) G''(1) G''(2) bb] unfolding s_def by blast
  have io: "inorder (rb_plug t G') = pre fs @ inorder l @ inorder r @ post fs"
    unfolding T1 [symmetric] mn(1) by (simp add: inorder_plug r1_def inorder_nd pre_lefts [OF mn(2)])
  have "h' node = Some (cleared nn)" using T(5) n1 unfolding T1 h4_def by simp
  moreover have "\<forall>a. a \<notin> rb_addrs ?T \<and> a \<noteq> s \<longrightarrow> h' a = h a"
  proof (intro allI impI)
    fix a assume a: "a \<notin> rb_addrs ?T \<and> a \<noteq> s"
    then have o: "a \<notin> rb_addrs ?T1" "a \<noteq> node" using aT1 by blast+
    have "a \<noteq> rt s t" "a \<noteq> g" using a aT nin(2) rep_root_in [of t s] by (cases "t = Lf"; auto)+
    then show "h' a = h a" using T(5) h3(3) o unfolding T1 by (simp add: h4_def h2_def)
  qed
  ultimately show ?thesis using run T(1-4) io unfolding T1 s_def by auto
qed

lemma delete_ok:
  assumes tree: "is_rbtree h tree T" and node: "node \<in> rb_addrs T" "h node = Some nn"
  shows "\<exists>T' tree' h'. ngx_rbtree_delete tree node h = Some (tree', h') \<and> is_rbtree h' tree' T' \<and> sentinel tree' = sentinel tree
    \<and> inorder T' = filter (\<lambda>x. fst x \<noteq> node) (inorder T) \<and> h' node = Some (cleared nn)
    \<and> (\<forall>b. b \<notin> rb_addrs T \<and> b \<noteq> sentinel tree \<longrightarrow> h' b = h b)"
proof -
  obtain c l k r fs where T: "T = rb_plug (Nd c l node k r) fs" using addr_split [OF node(1)] by blast
  have "dist T" using tree by (simp add: is_rbtree_def rep_def)
  then have "distinct (map fst (pre fs @ inorder l @ (node, k) # inorder r @ post fs))" unfolding dist_inorder T inorder_plug by simp
  then have "\<forall>x \<in> set (pre fs @ inorder l @ inorder r @ post fs). fst x \<noteq> node" by (auto simp: image_iff)
  then have "filter (\<lambda>x. fst x \<noteq> node) (pre fs @ inorder l @ inorder r @ post fs) = pre fs @ inorder l @ inorder r @ post fs" by (simp add: filter_id_conv)
  then have io: "filter (\<lambda>x. fst x \<noteq> node) (inorder T) = pre fs @ inorder l @ inorder r @ post fs" by (simp add: T inorder_plug)
  consider (l) "l = Lf" | (r) "r = Lf" | (two) "l \<noteq> Lf" "r \<noteq> Lf" by blast
  then show ?thesis
  proof cases
    case l
    then have e: "T = rb_plug (nd Lft c Lf node k r) fs" by (simp add: T nd_def)
    show ?thesis using delete_one [OF tree [unfolded e] node(2)] unfolding io unfolding e by (simp add: inorder_plug l)
  next
    case r
    then have e: "T = rb_plug (nd Rgt c Lf node k l) fs" by (simp add: T nd_def)
    show ?thesis using delete_one [OF tree [unfolded e] node(2)] unfolding io unfolding e by (simp add: inorder_plug r)
  next
    case two
    show ?thesis using delete_two [OF tree [unfolded T] node(2) two] unfolding io unfolding T by simp
  qed
qed

section \<open>The trees are flat\<close>

fun rb_height :: "rbt \<Rightarrow> nat" where
  "rb_height Lf = 0"
| "rb_height (Nd c l a k r) = Suc (max (rb_height l) (rb_height r))"

lemma height_bh: "invc t \<Longrightarrow> bh t n \<Longrightarrow> rb_height t \<le> 2 * n + (if red t then 1 else 0)"
proof (induction t arbitrary: n)
  case (Nd c l a k r)
  show ?case
  proof (cases c)
    case True
    then show ?thesis using Nd.IH(1) [of n] Nd.IH(2) [of n] Nd.prems by simp
  next
    case False
    then obtain m where "n = Suc m" "bh l m" "bh r m" using Nd.prems(2) by auto
    then show ?thesis using Nd.IH(1) [of m] Nd.IH(2) [of m] Nd.prems(1) False by (simp split: if_splits)
  qed
qed simp

lemma size_bh: "bh t n \<Longrightarrow> 2 ^ n \<le> Suc (length (inorder t))"
proof (induction t arbitrary: n)
  case (Nd c l a k r)
  show ?case
  proof (cases c)
    case True
    then show ?thesis using Nd.IH(1) [of n] Nd.prems by simp
  next
    case False
    then obtain m where "n = Suc m" "bh l m" "bh r m" using Nd.prems by auto
    then show ?thesis using Nd.IH(1) [of m] Nd.IH(2) [of m] by simp
  qed
qed simp

lemma rbtree_flat: "is_rbtree h tree T \<Longrightarrow> 2 ^ rb_height T \<le> (Suc (length (inorder T)))\<^sup>2"
proof -
  assume t: "is_rbtree h tree T"
  then obtain n where n: "bh T n" by (auto simp: is_rbtree_def)
  have "rb_height T \<le> 2 * n" using height_bh [of T n] n t by (simp add: is_rbtree_def)
  then have "(2::nat) ^ rb_height T \<le> 2 ^ (2 * n)" by (rule power_increasing) simp
  also have "\<dots> = (2 ^ n)\<^sup>2" by (simp add: power_mult mult.commute)
  also have "\<dots> \<le> (Suc (length (inorder T)))\<^sup>2" using size_bh [OF n] by (rule power_mono) simp
  finally show ?thesis .
qed

section \<open>The least node, and timers\<close>

lemma min_first:
  assumes "is_rbtree h tree T" "T \<noteq> Lf"
  shows "ngx_rbtree_min h (root tree) (sentinel tree) = Some (fst (hd (inorder T)))"
proof -
  have "rep h (sentinel tree) (rb_plug T [])" "root tree = rt (sentinel tree) T" using assms(1) by (simp_all add: is_rbtree_def)
  then obtain gs c b k t where "T = rb_plug (nd Lft c Lf b k t) gs" "\<forall>f \<in> set gs. fst f = Lft" "ngx_rbtree_min h (root tree) (sentinel tree) = Some b"
    using min_ok [OF _ assms(2)] by metis
  then show ?thesis by (simp add: inorder_plug inorder_nd pre_lefts)
qed

text \<open>The times of timers are compared by the sign of their difference, which is right in half of the numbers.\<close>

lemma timer_before:
  fixes a b base :: u64
  assumes "uint (a - base) < 2 ^ 63" "uint (b - base) < 2 ^ 63"
  shows "sint (a - b) < 0 \<longleftrightarrow> uint (a - base) < uint (b - base)"
proof -
  define x y where "x = a - base" and "y = b - base"
  have "a - b = x - y" by (simp add: x_def y_def)
  have xy: "uint x < 2 ^ 63" "uint y < 2 ^ 63" "0 \<le> uint x" "0 \<le> uint y" using assms by (simp_all add: x_def y_def)
  have s: "sint w = uint w" if "uint w < 2 ^ 63" for w :: u64
    unfolding sint_uint using that order_trans [of "- (2 ^ 63)" 0 "uint w"] by (subst signed_take_bit_int_eq_self) simp_all
  have "sint (x - y) = signed_take_bit 63 (uint x - uint y)" unfolding sint_word_ariths s [OF xy(1)] s [OF xy(2)] by simp
  also have "\<dots> = uint x - uint y"
  proof -
    have "signed_take_bit 63 (i - j) = i - j" if "0 \<le> i" "i < 2 ^ 63" "0 \<le> j" "j < 2 ^ 63" for i j :: int
      using that by (intro signed_take_bit_int_eq_self) simp_all
    then show ?thesis using xy by blast
  qed
  finally show ?thesis unfolding \<open>a - b = x - y\<close> by (simp add: x_def y_def)
qed

lemma init_ok: "h s = Some n \<Longrightarrow> \<exists>tree h'. ngx_rbtree_init s h = Some (tree, h') \<and> is_rbtree h' tree Lf \<and> (\<forall>b. b \<noteq> s \<longrightarrow> h' b = h b)"
  by (simp add: ngx_rbtree_init_def ngx_rbt_black_def is_rbtree_def rep_def ngx_rbt_is_red_def)

text \<open>
  C23. Insertion by the value of the key into a red-black tree in the heap: the new node comes behind all nodes with keys
  that are not greater and before those with greater ones, the others keep their order, the result is a red-black tree
  with all links to the parents in order, of logarithmic height, and no memory is written but the nodes of the tree and the new one.
\<close>

theorem rbtree_insert:
  assumes "is_rbtree h tree T" "sorted (map snd (inorder T))" "h node = Some nn" "node \<notin> rb_addrs T" "node \<noteq> sentinel tree"
  shows "\<exists>T' tree' h'. ngx_rbtree_insert ngx_rbtree_insert_value tree node h = Some (tree', h')
    \<and> is_rbtree h' tree' T' \<and> 2 ^ rb_height T' \<le> (Suc (length (inorder T')))\<^sup>2 \<and> sentinel tree' = sentinel tree
    \<and> inorder T' = filter (\<lambda>x. snd x \<le> key nn) (inorder T) @ (node, key nn) # filter (\<lambda>x. key nn < snd x) (inorder T)
    \<and> (\<forall>b. b \<noteq> node \<and> b \<notin> rb_addrs T \<longrightarrow> h' b = h b)"
proof -
  have srt: "sorted (map (uint \<circ> snd) (inorder T))"
    using assms(2) by (auto simp: sorted_wrt_map sorted_map word_le_def)
  have "\<forall>x \<in> set (inorder T). key nn < snd x \<longleftrightarrow> uint (key nn) < uint (snd x)" by (simp add: word_less_def)
  from insert_ok [where f = uint and lt = "\<lambda>a b. a < b", OF assms(1,3-5) srt this] show ?thesis
    using rbtree_flat unfolding ngx_rbtree_insert_value_def word_le_def word_less_def by fast
qed

text \<open>
  C24. Insertion of a timer. The times wrap around; when all of them are within half of the numbers behind some time
  \<open>base\<close>, the tree has them in the order in which they come after \<open>base\<close>, and \<^verbatim>\<open>ngx_rbtree_min\<close> gives the first of them.
\<close>

theorem rbtree_insert_timer:
  assumes "is_rbtree h tree T" "sorted (map (\<lambda>x. snd x - base) (inorder T))" "\<forall>x \<in> set (inorder T). uint (snd x - base) < 2 ^ 63"
    and "h node = Some nn" "node \<notin> rb_addrs T" "node \<noteq> sentinel tree" "uint (key nn - base) < 2 ^ 63"
  shows "\<exists>T' tree' h'. ngx_rbtree_insert ngx_rbtree_insert_timer_value tree node h = Some (tree', h')
    \<and> is_rbtree h' tree' T' \<and> 2 ^ rb_height T' \<le> (Suc (length (inorder T')))\<^sup>2 \<and> sentinel tree' = sentinel tree
    \<and> inorder T' = filter (\<lambda>x. snd x - base \<le> key nn - base) (inorder T) @ (node, key nn) # filter (\<lambda>x. key nn - base < snd x - base) (inorder T)
    \<and> ngx_rbtree_min h' (root tree') (sentinel tree') = Some (fst (hd (inorder T')))
    \<and> (\<forall>b. b \<noteq> node \<and> b \<notin> rb_addrs T \<longrightarrow> h' b = h b)"
proof -
  define f :: "u64 \<Rightarrow> int" where "f k = uint (k - base)" for k
  have srt: "sorted (map (f \<circ> snd) (inorder T))"
    using assms(2) by (auto simp: f_def sorted_wrt_map sorted_map word_le_def)
  have lt: "\<forall>x \<in> set (inorder T). sint (key nn - snd x) < 0 \<longleftrightarrow> f (key nn) < f (snd x)"
    using timer_before [OF assms(7)] assms(3) by (simp add: f_def)
  obtain T' tree' h' where T': "ngx_rbtree_insert ngx_rbtree_insert_timer_value tree node h = Some (tree', h')" "is_rbtree h' tree' T'"
    "sentinel tree' = sentinel tree"
    "inorder T' = filter (\<lambda>x. f (snd x) \<le> f (key nn)) (inorder T) @ (node, key nn) # filter (\<lambda>x. f (key nn) < f (snd x)) (inorder T)"
    "\<forall>b. b \<noteq> node \<and> b \<notin> rb_addrs T \<longrightarrow> h' b = h b"
    using insert_ok [where f = f and lt = "\<lambda>a b. sint (a - b) < 0", OF assms(1,4-6) srt lt] unfolding ngx_rbtree_insert_timer_value_def by blast
  have "T' \<noteq> Lf" using T'(4) by auto
  then show ?thesis using T' rbtree_flat [OF T'(2)] min_first [OF T'(2)] unfolding f_def word_le_def word_less_def by blast
qed

text \<open>
  C25. Deletion of any node of a red-black tree: the others stay, in their order, the result is a red-black tree of
  logarithmic height, the links and the key of the node are cleared, and no memory is written but the nodes of the tree
  and the sentinel.
\<close>

theorem rbtree_delete:
  assumes "is_rbtree h tree T" "node \<in> rb_addrs T" "h node = Some nn"
  shows "\<exists>T' tree' h'. ngx_rbtree_delete tree node h = Some (tree', h')
    \<and> is_rbtree h' tree' T' \<and> 2 ^ rb_height T' \<le> (Suc (length (inorder T')))\<^sup>2 \<and> sentinel tree' = sentinel tree
    \<and> inorder T' = filter (\<lambda>x. fst x \<noteq> node) (inorder T)
    \<and> h' node = Some (nn\<lparr>left := NULL, right := NULL, parent := NULL, key := 0\<rparr>)
    \<and> (\<forall>b. b \<notin> rb_addrs T \<and> b \<noteq> sentinel tree \<longrightarrow> h' b = h b)"
  using delete_ok [OF assms] rbtree_flat unfolding cleared_def by fast

section \<open>At an example\<close>

definition demo_rbnode :: "u64 \<Rightarrow> rb_ptr \<Rightarrow> rb_ptr \<Rightarrow> rb_ptr \<Rightarrow> u_char \<Rightarrow> rbtree_node" where
  "demo_rbnode k l r p c = \<lparr>key = k, left = l, right = r, parent = p, color = c, data = 0\<rparr>"

definition demo_rbheap :: rbheap where
  "demo_rbheap = [1 \<mapsto> demo_rbnode 0 0 0 0 0, 2 \<mapsto> demo_rbnode 5 1 3 0 0, 3 \<mapsto> demo_rbnode 9 1 1 2 1, 4 \<mapsto> demo_rbnode 7 0 0 0 0]"

definition demo_rbtree :: rbtree where
  "demo_rbtree = \<lparr>root = 2, sentinel = 1\<rparr>"

definition demo_rbt :: rbt where
  "demo_rbt = Nd False Lf 2 5 (Nd True Lf 3 9 Lf)"

lemma demo_is_rbtree: "is_rbtree demo_rbheap demo_rbtree demo_rbt"
proof -
  have "(\<forall>d. P d) \<longleftrightarrow> P Lft \<and> P Rgt" for P :: "side \<Rightarrow> bool" by (metis side.exhaust)
  then show ?thesis
    by (simp add: is_rbtree_def rep_def node_at_def demo_rbheap_def demo_rbtree_def demo_rbt_def demo_rbnode_def ngx_rbt_is_red_def)
qed

theorem rbtree_insert_witness:
  "\<exists>T' tree' h'. ngx_rbtree_insert ngx_rbtree_insert_value demo_rbtree 4 demo_rbheap = Some (tree', h')
    \<and> is_rbtree h' tree' T' \<and> 2 ^ rb_height T' \<le> (Suc (length (inorder T')))\<^sup>2 \<and> sentinel tree' = sentinel demo_rbtree
    \<and> inorder T' = filter (\<lambda>x. snd x \<le> key (demo_rbnode 7 0 0 0 0)) (inorder demo_rbt) @ (4, key (demo_rbnode 7 0 0 0 0)) # filter (\<lambda>x. key (demo_rbnode 7 0 0 0 0) < snd x) (inorder demo_rbt)
    \<and> (\<forall>b. b \<noteq> 4 \<and> b \<notin> rb_addrs demo_rbt \<longrightarrow> h' b = demo_rbheap b)"
  by (rule rbtree_insert [OF demo_is_rbtree]) (simp_all add: demo_rbheap_def demo_rbt_def demo_rbtree_def)

theorem rbtree_insert_timer_witness:
  "\<exists>T' tree' h'. ngx_rbtree_insert ngx_rbtree_insert_timer_value demo_rbtree 4 demo_rbheap = Some (tree', h')
    \<and> is_rbtree h' tree' T' \<and> 2 ^ rb_height T' \<le> (Suc (length (inorder T')))\<^sup>2 \<and> sentinel tree' = sentinel demo_rbtree
    \<and> inorder T' = filter (\<lambda>x. snd x - 1 \<le> key (demo_rbnode 7 0 0 0 0) - 1) (inorder demo_rbt) @ (4, key (demo_rbnode 7 0 0 0 0))
        # filter (\<lambda>x. key (demo_rbnode 7 0 0 0 0) - 1 < snd x - 1) (inorder demo_rbt)
    \<and> ngx_rbtree_min h' (root tree') (sentinel tree') = Some (fst (hd (inorder T')))
    \<and> (\<forall>b. b \<noteq> 4 \<and> b \<notin> rb_addrs demo_rbt \<longrightarrow> h' b = demo_rbheap b)"
  by (rule rbtree_insert_timer [OF demo_is_rbtree]) (simp_all add: demo_rbheap_def demo_rbt_def demo_rbtree_def demo_rbnode_def)

theorem rbtree_delete_witness:
  "\<exists>T' tree' h'. ngx_rbtree_delete demo_rbtree 2 demo_rbheap = Some (tree', h')
    \<and> is_rbtree h' tree' T' \<and> 2 ^ rb_height T' \<le> (Suc (length (inorder T')))\<^sup>2 \<and> sentinel tree' = sentinel demo_rbtree
    \<and> inorder T' = filter (\<lambda>x. fst x \<noteq> 2) (inorder demo_rbt)
    \<and> h' 2 = Some ((demo_rbnode 5 1 3 0 0)\<lparr>left := NULL, right := NULL, parent := NULL, key := 0\<rparr>)
    \<and> (\<forall>b. b \<notin> rb_addrs demo_rbt \<and> b \<noteq> sentinel demo_rbtree \<longrightarrow> h' b = demo_rbheap b)"
  by (rule rbtree_delete [OF demo_is_rbtree]) (simp_all add: demo_rbheap_def demo_rbt_def)

end
