(* ===== verification/Spec2Isabelle.thy ===== *)
theory Spec2Isabelle
  imports Ngx_Num Ngx_Sprintf Ngx_Base64 Ngx_Escape Ngx_Utf8 Ngx_String Ngx_Parse
    Ngx_Request_Line Ngx_Header_Line Ngx_Status_Line Ngx_Chunked
    Ngx_Uri Ngx_Request_Uri Ngx_Http_Args Ngx_Time Ngx_Access
    Ngx_Queue Ngx_Prefix_Table Ngx_Crc32 Ngx_Routing Ngx_Phase_Engine
    Ngx_Round_Robin Ngx_Rbtree_Delete
begin

text \<open>
  A verification of parts of nginx, the HTTP server under \<^verbatim>\<open>src/server/ngx_cpp/nginx/src\<close> of the repository. All names
  of files below are relative to that directory.

  The program. A worker reads the bytes of a connection into a buffer and hands it to incremental parsers
  (\<^verbatim>\<open>http/ngx_http_parse.c\<close>) that may stop at any byte and go on when more has come: the request line, the header
  lines, the body in chunks, and the status line of an upstream server. The path of the request is brought into a normal
  form, by which its location is searched for in trees that were made of the configuration (\<^verbatim>\<open>http/ngx_http.c\<close>,
  \<^verbatim>\<open>http/ngx_http_core_module.c\<close>). The phases of the request are handled then, among them that of the access rules
  (\<^verbatim>\<open>http/modules/ngx_http_access_module.c\<close>), and a balancer chooses an upstream server
  (\<^verbatim>\<open>http/ngx_http_upstream_round_robin.c\<close>). All of them stand on the library of \<^verbatim>\<open>core\<close>: strings and numbers, addresses,
  times, queues, radix trees and checksums.

  How the models are made. The platform is a 64-bit one with little-endian bytes and 8-bit characters that is not
  Windows, with the optional parts for regular expressions and IPv6 on. Bytes and unsigned integers are words of their
  width, with their wrap-around; signed integers are HOL integers, and an operation that overflows them has no result.
  A structure is a record with the code's field names. Pointers into a buffer are offsets or the bytes that begin there;
  a read outside has no result. So \<^const>\<open>None\<close> is undefined behaviour throughout, unless a theory says otherwise (the
  parsers of addresses and sizes answer \<^const>\<open>None\<close> for nothing else), and theorems that conclude \<^const>\<open>Some\<close> show that
  it does not occur. Errors of the program are its return codes (\<^verbatim>\<open>core/ngx_core.h\<close>, theory \<^verbatim>\<open>Ngx_Prelude\<close>), kept as
  values. Linked structures (queues, radix and red-black trees) live in a heap that maps addresses to nodes; the loops over them are
  partial functions into an option, and their theorems show that they return.

  The theories, in the order of their dependence.

  \<^item> \<^verbatim>\<open>Ngx_Prelude\<close>: types, characters, return codes, reads from memory, checked arithmetic and postconditions of
    fallible computations, with the collections of rewrite rules that the rest uses.

  \<^item> \<^verbatim>\<open>Ngx_Num\<close>, \<^verbatim>\<open>Ngx_Sprintf\<close> (\<^verbatim>\<open>core/ngx_string.c\<close>): the readers and printers of numbers are exact, in every radix
    and at every width, with their limits; the formatter never writes past its end, and
    its output is the part of the ideal one that fits.

  \<^item> \<^verbatim>\<open>Ngx_Base64\<close>, \<^verbatim>\<open>Ngx_Escape\<close>, \<^verbatim>\<open>Ngx_Utf8\<close>, \<^verbatim>\<open>Ngx_String\<close> (\<^verbatim>\<open>core/ngx_string.c\<close>): encoders and decoders with their round
    trips over each alphabet and table (locales \<open>base64_alphabet\<close> and \<open>escape_table\<close>); comparisons as orders by a key
    (locales \<open>zcmp\<close>, \<open>ncmp\<close>), searches that find the first occurrence (locale \<open>search\<close>), a stable sort.

  \<^item> \<^verbatim>\<open>Ngx_Parse\<close> (\<^verbatim>\<open>core/ngx_parse.c\<close>): sizes, offsets and times of the configuration, against the value that is written.

  \<^item> \<^verbatim>\<open>Ngx_Scan\<close>: the shape of the incremental parsers, a step on a state and a byte, and the locale \<open>parser\<close>: a step that
    keeps an invariant gives a loop that does, and a loop that is stopped and resumed is one that is not.

  \<^item> \<^verbatim>\<open>Ngx_Request_Line\<close>, \<^verbatim>\<open>Ngx_Header_Line\<close>, \<^verbatim>\<open>Ngx_Status_Line\<close>, \<^verbatim>\<open>Ngx_Chunked\<close> (\<^verbatim>\<open>http/ngx_http_parse.c\<close>,
    \<^verbatim>\<open>http/ngx_http_request_body.c\<close>): the parsers, state by state. They give back what was written into well-formed input,
    and keep every pointer inside the buffer; the chunk parser also
    refines an abstract machine, and the loop around it delivers the body within its limit. The loop has as fuel one
    round more than there are bytes, which is enough because each round but the last consumes a byte.

  \<^item> \<^verbatim>\<open>Ngx_Uri\<close>, \<^verbatim>\<open>Ngx_Request_Uri\<close>, \<^verbatim>\<open>Ngx_Http_Args\<close> (\<^verbatim>\<open>http/ngx_http_parse.c\<close>, \<^verbatim>\<open>http/ngx_http_request.c\<close>): the normal form of
    a path against a reference on lists of segments, that it never leaves the root, that the parser which skips it is
    right to; the check of unsafe paths, and the searches for cookies and arguments.

  \<^item> \<^verbatim>\<open>Ngx_Time\<close> (\<^verbatim>\<open>core/ngx_times.c\<close>, \<^verbatim>\<open>http/ngx_http_parse_time.c\<close>): the calendar against one that steps from day to day,
    and dates that are read back as they were printed.

  \<^item> \<^verbatim>\<open>Ngx_Inet\<close>, \<^verbatim>\<open>Ngx_Cidr\<close>, \<^verbatim>\<open>Ngx_Access\<close> (\<^verbatim>\<open>core/ngx_inet.c\<close>, \<^verbatim>\<open>http/modules/ngx_http_access_module.c\<close>): texts of addresses and
    blocks, and the access rules: the three arrays the module keeps implement one ordered list of which the first rule
    that covers the client decides (locale \<open>access_family\<close>, one interpretation per array).

  \<^item> \<^verbatim>\<open>Ngx_Queue\<close> (\<^verbatim>\<open>core/ngx_queue.h\<close>, \<^verbatim>\<open>core/ngx_queue.c\<close>): circular lists in a heap implement lists, and their insertion
    sort is the stable sort.

  \<^item> \<^verbatim>\<open>Ngx_Rbtree\<close>, \<^verbatim>\<open>Ngx_Rbtree_Trees\<close>, \<^verbatim>\<open>Ngx_Rbtree_Insert\<close>, \<^verbatim>\<open>Ngx_Rbtree_Delete\<close> (\<^verbatim>\<open>core/ngx_rbtree.h\<close>,
    \<^verbatim>\<open>core/ngx_rbtree.c\<close>): trees in a heap with links to the parents and a sentinel. Insertion, by keys or by times that wrap
    around, and deletion end, keep the nodes in order, and leave a red-black tree of logarithmic height; a tree of the
    heap is described by a tree as a datatype, and the place where the loops work by a context in it.

  \<^item> \<^verbatim>\<open>Ngx_Radix\<close>, \<^verbatim>\<open>Ngx_Prefix_Table\<close> (\<^verbatim>\<open>core/ngx_radix_tree.c\<close>): the tries in their pages with the free list; any sequence of
    insertions and deletions leaves a table of prefixes in which a search finds the longest one (locale \<open>prefix_table\<close>,
    interpreted for 32 and for 128 bits). The loops in the paths of insertion recurse over the bits of the mask.

  \<^item> \<^verbatim>\<open>Ngx_Crc32\<close> (\<^verbatim>\<open>core/ngx_crc32.h\<close>, \<^verbatim>\<open>core/ngx_crc32.c\<close>): the table-driven checksums are those of the polynomial.

  \<^item> \<^verbatim>\<open>Ngx_Locations\<close>, \<^verbatim>\<open>Ngx_Location_Tree\<close>, \<^verbatim>\<open>Ngx_Routing\<close> (\<^verbatim>\<open>http/ngx_http.c\<close>, \<^verbatim>\<open>http/ngx_http_core_module.c\<close>): the locations of a
    configuration, sorted, joined and made into trees, and the search in them, which answers by the rules of the
    configuration. The queues are lists here, as \<^verbatim>\<open>Ngx_Queue\<close> justifies.

  \<^item> \<^verbatim>\<open>Ngx_Round_Robin\<close> (\<^verbatim>\<open>http/ngx_http_upstream_round_robin.c\<close>): groups of peers, the choice of a peer and its release; each
    peer gets its weight's share over a cycle, and the attempts of a request go to different peers.

  \<^item> \<^verbatim>\<open>Ngx_Phases\<close>, \<^verbatim>\<open>Ngx_Phase_Flows\<close>, \<^verbatim>\<open>Ngx_Phase_Engine\<close> (\<^verbatim>\<open>http/ngx_http.c\<close>, \<^verbatim>\<open>http/ngx_http_core_module.c\<close>,
    \<^verbatim>\<open>http/modules/ngx_http_rewrite_module.c\<close>): the phase engine, an array of handlers with indices to jump to, and the
    internal redirects, which run it again from within a handler. Its loop handles a request as the phases do one after
    the other, it ends for every request (each rewriting and redirect takes one of the changes that the request has, a
    count of four bits, which is the bound of the recursion), and a client that the access rules deny gets the code 403.
    Handlers are functions on requests that may do what they like when they end the work on it, redirect included; one
    that lets a request go on leaves it at its place of the engine and its count of changes as it was (\<open>handler_ok\<close>). The
    handlers of the access module and of the module that rewrites are proved to be of that kind, the latter for all
    scripts that are. What \<^verbatim>\<open>ngx_http_finalize_request\<close> does is not followed: the call is noted in the request.

  The properties are the theorems whose text begins with an identifier, C1 and so on; each stands with the component it is
  about, and its witness, where it has hypotheses, is an instance at concrete data. Lemmas named in the comments of a
  theory as oddities prove what the code does where that is not what it is meant to.

  Not modelled. The event loop, sockets, processes, files and shared memory (\<^verbatim>\<open>event\<close>, \<^verbatim>\<open>os\<close>) are I/O. The request
  cycle, the filters, the upstream connection, caches, SPDY and most modules under \<^verbatim>\<open>http\<close> are
  chains of callbacks around I/O, of which only the parts above have been taken out. Of the data structures, the
  hash tables, arrays, lists and buffer chains, the pools and the slab allocator have no model, nor have
  digests; failures of memory are therefore left out, apart from the radix trees. Of the readers, those of the configuration file and of
  URLs in it are missing. Regular expressions, TLS and the C library are not in the repository: what a model needs of
  them is an argument of it (the regular expressions of the locations, the arithmetic on doubles of the formatter). The
  other programs of the repository are exercises in C++ and third-party code.
\<close>

end
